(* ===== verification/Prelude.thy ===== *)
theory Prelude
  imports Main "HOL-Library.Word" "HOL-Library.Monad_Syntax" "HOL-Library.Signed_Division"
begin

text \<open>
  Shared vocabulary of the development: addresses and bytes, errno values, the two
  failure modes of the C code (an error code is a value of \<open>errno + 'a\<close>; a failed
  \<open>toyfs_assert\<close> or a NULL dereference ends the process and is \<open>None\<close> of the \<open>run\<close>
  type), the conversions between \<open>loff_t\<close> and \<open>size_t\<close>, the page arithmetic every
  component uses, and generic lemmas on lists and finite sets.
\<close>

section \<open>Types\<close>

type_synonym byte = "8 word"

type_synonym addr = nat
  \<comment> \<open>an address of the mapped persistent memory or of the heap\<close>

type_synonym 'a run = "'a option"
  \<comment> \<open>\<open>None\<close>: the process aborted (failed assertion, NULL dereference)\<close>

datatype errno = EPERM | ENOENT | EIO | EBADF | ENOMEM | EFAULT | EEXIST | EISDIR | EINVAL
  | EFBIG | ENOSPC | ENOTTY | ERANGE | ENOTEMPTY | ENODATA | ENOTSUP

type_synonym 'a result = "errno + 'a"
  \<comment> \<open>\<open>Inl e\<close>: the C function returned \<open>-e\<close>\<close>

named_theorems c_arith \<open>conversions between C integer types\<close>
named_theorems frame_simps \<open>state components an operation does not write\<close>

section \<open>Assertions\<close>

definition toyfs_assert :: "bool \<Rightarrow> unit run" where
  "toyfs_assert b = (if b then Some () else None)"

lemma toyfs_assert_bind [simp]:
  "(toyfs_assert b \<bind> f) = (if b then f () else None)"
  by (simp add: toyfs_assert_def)

lemma toyfs_assert_eq_Some [simp]: "toyfs_assert b = Some u \<longleftrightarrow> b"
  by (simp add: toyfs_assert_def)

section \<open>Integer conversions\<close>

text \<open>
  \<open>loff_t\<close> is a signed 64 bit integer, \<open>size_t\<close> and \<open>uint64_t\<close> are unsigned. Signed values
  are modelled by \<open>int\<close> and unsigned ones by \<open>nat\<close>; a cast wraps at 64 bits.
\<close>

definition cast_loff :: "nat \<Rightarrow> int" where
  "cast_loff n = (if n < 2 ^ 63 then int n else int n - 2 ^ 64)"

definition cast_size :: "int \<Rightarrow> nat" where
  "cast_size i = nat (i mod 2 ^ 64)"

definition size_add :: "nat \<Rightarrow> nat \<Rightarrow> nat" where
  "size_add a b = (a + b) mod 2 ^ 64"

definition size_sub :: "nat \<Rightarrow> nat \<Rightarrow> nat" where
  "size_sub a b = (a + (2 ^ 64 - b mod 2 ^ 64)) mod 2 ^ 64"

lemma cast_loff_small [c_arith]: "n < 2 ^ 63 \<Longrightarrow> cast_loff n = int n"
  by (simp add: cast_loff_def)

lemma cast_size_small [c_arith]: "0 \<le> i \<Longrightarrow> i < 2 ^ 64 \<Longrightarrow> cast_size i = nat i"
  by (simp add: cast_size_def)

lemma cast_size_nat [c_arith]: "n < 2 ^ 64 \<Longrightarrow> cast_size (int n) = n"
  by (simp add: cast_size_def nat_mod_distrib)

lemma size_add_small [c_arith]: "a + b < 2 ^ 64 \<Longrightarrow> size_add a b = a + b"
  by (simp add: size_add_def)

lemma size_sub_small [c_arith]:
  assumes "b \<le> a" and "a < 2 ^ 64"
  shows "size_sub a b = a - b"
proof -
  from assms have "b mod 2 ^ 64 = b" by simp
  with assms have "a + (2 ^ 64 - b mod 2 ^ 64) = (a - b) + 2 ^ 64" by simp
  with assms show ?thesis unfolding size_sub_def by (simp only: mod_add_self2) simp
qed

lemma cast_loff_cast_size: "- (2 ^ 63) \<le> i \<Longrightarrow> i < 2 ^ 63 \<Longrightarrow> cast_loff (cast_size i) = i"
proof -
  assume lo: "- (2 ^ 63) \<le> i" and hi: "i < 2 ^ 63"
  show "cast_loff (cast_size i) = i"
  proof (cases "0 \<le> i")
    case True
    with hi have "i mod 2 ^ 64 = i" by (intro mod_pos_pos_trivial) auto
    with True hi show ?thesis by (simp add: cast_loff_def cast_size_def nat_less_iff)
  next
    case False
    have "i mod 2 ^ 64 = (i + 2 ^ 64) mod 2 ^ 64" by simp
    also have "\<dots> = i + 2 ^ 64" using False lo by (intro mod_pos_pos_trivial) auto
    finally have "i mod 2 ^ 64 = i + 2 ^ 64" .
    with False lo show ?thesis by (simp add: cast_loff_def cast_size_def nat_less_iff)
  qed
qed

section \<open>Pages\<close>

text \<open>
  \<open>PAGE_SIZE\<close> is 4096: the compile-time checks of \<open>super.c\<close> require
  \<open>sizeof(struct toyfs_dentries) == PAGE_SIZE\<close>, and that struct has 32 + 127 * 32 bytes.
\<close>

abbreviation PAGE_SIZE :: nat where "PAGE_SIZE \<equiv> 4096"

lemma sdiv_nonneg [c_arith]: "0 \<le> (a::int) \<Longrightarrow> 0 < b \<Longrightarrow> a sdiv b = a div b"
proof (cases "a = 0")
  case False
  moreover assume "0 \<le> a" and "0 < b"
  ultimately have "sgn a = 1" and "sgn b = 1" and "\<bar>a\<bar> = a" and "\<bar>b\<bar> = b" by simp_all
  then show ?thesis by (simp add: signed_divide_int_def)
qed (simp add: signed_divide_int_def)

lemma smod_nonneg [c_arith]: "0 \<le> (a::int) \<Longrightarrow> 0 < b \<Longrightarrow> a smod b = a mod b"
proof (cases "a = 0")
  case False
  moreover assume "0 \<le> a" and "0 < b"
  ultimately have "sgn a = 1" and "\<bar>a\<bar> = a" and "\<bar>b\<bar> = b" by simp_all
  then show ?thesis by (simp add: signed_modulo_int_def)
qed (simp add: signed_modulo_int_def)

lemma sdiv_mult_gt: "(a::int) < (a + 4096) sdiv 4096 * 4096"
proof (cases "0 \<le> a + 4096")
  case True
  then have "(a + 4096) sdiv 4096 = (a + 4096) div 4096" by (rule sdiv_nonneg) simp
  then show ?thesis by simp
next
  case False
  then have "(a + 4096) sdiv 4096 = - ((- (a + 4096)) div 4096)"
    by (simp add: signed_divide_int_def sgn_if)
  then show ?thesis using False by linarith
qed

section \<open>Lists\<close>

lemma find_append:
  "find P (xs @ ys) = (case find P xs of None \<Rightarrow> find P ys | Some x \<Rightarrow> Some x)"
  by (induction xs) auto

lemma find_None_all: "find P xs = None \<longleftrightarrow> (\<forall>x\<in>set xs. \<not> P x)"
  by (induction xs) simp_all

lemma find_SomeD: "find P xs = Some x \<Longrightarrow> P x \<and> x \<in> set xs"
  by (induction xs) (simp_all split: if_splits)

lemma find_unique:
  assumes "x \<in> set xs" and "P x" and "\<And>y. y \<in> set xs \<Longrightarrow> P y \<Longrightarrow> y = x"
  shows "find P xs = Some x"
proof (cases "find P xs")
  case None
  with assms(1,2) show ?thesis by (simp add: find_None_all)
next
  case (Some y)
  from find_SomeD [OF Some] assms(3) [of y] Some show ?thesis by simp
qed

lemma find_cong_set: "(\<And>x. x \<in> set xs \<Longrightarrow> P x = Q x) \<Longrightarrow> find P xs = find Q xs"
proof (induction xs)
  case (Cons a xs)
  from Cons.prems [of a] Cons.IH [OF Cons.prems] show ?case by simp
qed simp

lemma takeWhile_stop: "list_all P w \<Longrightarrow> \<not> P c \<Longrightarrow> takeWhile P (w @ c # rest) = w"
  by (induction w) auto

lemma dropWhile_stop: "list_all P w \<Longrightarrow> \<not> P c \<Longrightarrow> dropWhile P (w @ c # rest) = c # rest"
  by (induction w) auto

lemma not_in_list_all: "c \<notin> set w \<Longrightarrow> list_all (\<lambda>x. x \<noteq> c) w"
  by (induction w) auto

lemma sorted_wrt_map_less_inj:
  fixes f :: "'a \<Rightarrow> 'b::linorder"
  assumes sorted: "sorted_wrt (<) (map f xs)"
    and mem: "x \<in> set xs" "y \<in> set xs" and eq: "f x = f y"
  shows "x = y"
proof -
  from mem obtain i j where ij: "i < length xs" "xs ! i = x" "j < length xs" "xs ! j = y"
    by (auto simp: in_set_conv_nth)
  have "\<not> i < j"
    using sorted_wrt_nth_less [OF sorted, of i j] ij eq by auto
  moreover have "\<not> j < i"
    using sorted_wrt_nth_less [OF sorted, of j i] ij eq by auto
  ultimately show ?thesis using ij by simp
qed

lemma sorted_wrt_map_less_distinct:
  fixes f :: "'a \<Rightarrow> 'b::linorder"
  shows "sorted_wrt (<) (map f xs) \<Longrightarrow> distinct xs"
  using strict_sorted_iff distinct_map by metis

lemma remove1_split: "x \<notin> set ps \<Longrightarrow> remove1 x (ps @ x # qs) = ps @ qs"
  by (induction ps) auto

lemma fold_Cons_map_rev: "fold (\<lambda>i acc. f i # acc) xs acc = rev (map f xs) @ acc"
  by (induction xs arbitrary: acc) auto

lemma card_insert_le_Suc: "finite A \<Longrightarrow> card (insert x A) \<le> Suc (card A)"
  by (simp add: card_insert_if)

end
