(* ===== verification/DList.thy ===== *)
theory DList
  imports Prelude
begin

text \<open>
  The two circular doubly linked list implementations of the repository: \<open>a_list_*\<close> of
  \<open>a_list.h\<close> (used by the zus core) and \<open>toyfs_list_*\<close> of \<open>fs/toyfs/common.c\<close>. A heap gives
  every node its \<open>next\<close> and \<open>prev\<close> pointer; each operation is the sequence of pointer
  assignments of the C code. \<open>dlist h hp xs\<close> says that the ring anchored at \<open>hp\<close> holds the nodes
  \<open>xs\<close>, in both directions. The locale \<open>intrusive_list\<close> states the contract that both
  implementations meet, and is interpreted on both. It is what lets the toyfs theories
  represent a list head by the HOL list of its nodes.
\<close>

section \<open>The heap and the operations\<close>

record a_list_head =
  l_next :: "addr \<Rightarrow> addr"
  l_prev :: "addr \<Rightarrow> addr"

type_synonym links = a_list_head

definition set_next :: "addr \<Rightarrow> addr \<Rightarrow> links \<Rightarrow> links" where
  "set_next p v h = h\<lparr>l_next := (l_next h)(p := v)\<rparr>"

definition set_prev :: "addr \<Rightarrow> addr \<Rightarrow> links \<Rightarrow> links" where
  "set_prev p v h = h\<lparr>l_prev := (l_prev h)(p := v)\<rparr>"

lemma next_set_next [simp]: "l_next (set_next p v h) = (l_next h)(p := v)"
  and prev_set_next [simp]: "l_prev (set_next p v h) = l_prev h"
  and next_set_prev [simp]: "l_next (set_prev p v h) = l_next h"
  and prev_set_prev [simp]: "l_prev (set_prev p v h) = (l_prev h)(p := v)"
  by (simp_all add: set_next_def set_prev_def)

definition a_list_init :: "addr \<Rightarrow> links \<Rightarrow> links" where
  "a_list_init list h = set_prev list list (set_next list list h)"

definition link_list :: "addr \<Rightarrow> addr \<Rightarrow> addr \<Rightarrow> links \<Rightarrow> links" where
  "link_list list p n h =
     set_next p list (set_prev list p (set_next list n (set_prev n list h)))"

definition a_list_add :: "addr \<Rightarrow> addr \<Rightarrow> links \<Rightarrow> links" where
  "a_list_add list head h = link_list list head (l_next h head) h"

definition a_list_add_tail :: "addr \<Rightarrow> addr \<Rightarrow> links \<Rightarrow> links" where
  "a_list_add_tail list head h = link_list list (l_prev h head) head h"

definition a_list_del :: "addr \<Rightarrow> links \<Rightarrow> links" where
  "a_list_del list h =
    (let h1 = set_prev (l_next h list) (l_prev h list) h
     in set_next (l_prev h1 list) (l_next h1 list) h1)"

definition a_list_del_init :: "addr \<Rightarrow> links \<Rightarrow> links" where
  "a_list_del_init list h = a_list_init list (a_list_del list h)"

definition a_list_empty :: "addr \<Rightarrow> links \<Rightarrow> bool" where
  "a_list_empty head h = (l_next h head = head)"

text \<open>\<open>a_list_for_each_entry\<close>, with the number of nodes that may be visited as fuel.\<close>

fun a_list_for_each_entry :: "nat \<Rightarrow> addr \<Rightarrow> addr \<Rightarrow> links \<Rightarrow> addr list option" where
  "a_list_for_each_entry fuel pos head h =
    (if pos = head then Some []
     else case fuel of 0 \<Rightarrow> None
          | Suc n \<Rightarrow> map_option ((#) pos) (a_list_for_each_entry n (l_next h pos) head h))"

declare a_list_for_each_entry.simps [simp del]

definition toyfs_list_init :: "addr \<Rightarrow> links \<Rightarrow> links" where
  "toyfs_list_init list h = set_prev list list (set_next list list h)"

definition link_elem :: "addr \<Rightarrow> addr \<Rightarrow> addr \<Rightarrow> links \<Rightarrow> links" where
  "link_elem elem p n h =
     set_next p elem (set_prev elem p (set_next elem n (set_prev n elem h)))"

definition toyfs_list_add :: "addr \<Rightarrow> addr \<Rightarrow> links \<Rightarrow> links" where
  "toyfs_list_add elem head h = link_elem elem (l_prev h head) head h"

definition toyfs_list_del :: "addr \<Rightarrow> links \<Rightarrow> links" where
  "toyfs_list_del elem h =
    (let h1 = set_prev (l_next h elem) (l_prev h elem) h
     in set_next (l_prev h1 elem) (l_next h1 elem) h1)"

definition toyfs_list_empty :: "addr \<Rightarrow> links \<Rightarrow> bool" where
  "toyfs_list_empty head h = (l_next h head = head)"

definition toyfs_list_add_tail :: "addr \<Rightarrow> addr \<Rightarrow> links \<Rightarrow> links" where
  "toyfs_list_add_tail elem head h = link_elem elem (l_prev h head) head h"

definition toyfs_list_add_before :: "addr \<Rightarrow> addr \<Rightarrow> links \<Rightarrow> links" where
  "toyfs_list_add_before elem head h = link_elem elem (l_prev h head) head h"

section \<open>Representation of lists\<close>

fun linked :: "links \<Rightarrow> addr list \<Rightarrow> bool" where
  "linked h (a # b # r) = (l_next h a = b \<and> l_prev h b = a \<and> linked h (b # r))"
| "linked h _ = True"

definition dlist :: "links \<Rightarrow> addr \<Rightarrow> addr list \<Rightarrow> bool" where
  "dlist h hp xs = (distinct (hp # xs) \<and> linked h (hp # xs @ [hp]))"

lemma linked_append:
  "linked h (as @ p # n # bs) \<longleftrightarrow>
     linked h (as @ [p]) \<and> l_next h p = n \<and> l_prev h n = p \<and> linked h (n # bs)"
proof (induction as)
  case (Cons a as)
  then show ?case by (cases as) auto
qed simp

lemma linked_cong:
  assumes "\<And>x. x \<in> set (butlast cs) \<Longrightarrow> l_next h' x = l_next h x"
    and "\<And>x. x \<in> set (tl cs) \<Longrightarrow> l_prev h' x = l_prev h x"
  shows "linked h' cs = linked h cs"
  using assms
proof (induction cs)
  case (Cons a cs)
  show ?case
  proof (cases cs)
    case (Cons b r)
    have "linked h' cs = linked h cs"
      by (rule Cons.IH) (use Cons.prems Cons in \<open>auto split: if_splits\<close>)
    with Cons Cons.prems(1) [of a] Cons.prems(2) [of b] show ?thesis by simp
  qed simp
qed simp

lemma dlist_split:
  "dlist h hp (xs @ ys) \<Longrightarrow>
   \<exists>as p n bs. hp # xs = as @ [p] \<and> ys @ [hp] = n # bs \<and>
     linked h (as @ [p]) \<and> l_next h p = n \<and> l_prev h n = p \<and> linked h (n # bs)"
proof -
  assume d: "dlist h hp (xs @ ys)"
  obtain as p where 1: "hp # xs = as @ [p]" by (metis append_butlast_last_id list.distinct(1))
  obtain n bs where 2: "ys @ [hp] = n # bs" by (cases ys) auto
  from d have "linked h ((hp # xs) @ (ys @ [hp]))" by (simp add: dlist_def)
  then have "linked h (as @ p # n # bs)" by (simp only: 1 2) simp
  with 1 2 show ?thesis by (auto simp: linked_append)
qed

lemma dlist_link:
  assumes d: "dlist h hp (xs @ ys)" and e: "e \<notin> set (hp # xs @ ys)"
    and p: "p = last (hp # xs)" and n: "n = hd (ys @ [hp])"
  shows "dlist (link_elem e p n h) hp (xs @ e # ys)"
proof -
  obtain as bs where as: "hp # xs = as @ [p]" and bs: "ys @ [hp] = n # bs"
    and l: "linked h (as @ [p])" "linked h (n # bs)"
  proof -
    from dlist_split [OF d] obtain as p' n' bs where *: "hp # xs = as @ [p']" "ys @ [hp] = n' # bs"
      "linked h (as @ [p'])" "linked h (n' # bs)" by blast
    have "p' = p" using p *(1) by simp
    moreover have "n' = n" using n *(2) by simp
    ultimately show thesis using that * by blast
  qed
  let ?h = "link_elem e p n h"
  have dist: "distinct (hp # xs @ ys)" using d by (simp add: dlist_def)
  then have "distinct ((as @ [p]) @ ys)" using as by (metis append_Cons)
  then have pas: "p \<notin> set as" by simp
  have tl: "tl (as @ [p]) = xs" using as by (metis list.sel(3))
  have nxs: "n \<notin> set xs" using bs dist by (cases ys) auto
  have pbs: "p \<notin> set (butlast (n # bs))"
  proof -
    have "butlast (n # bs) = ys" using bs by (metis butlast_snoc)
    moreover have "p \<in> set (hp # xs)" using as by simp
    ultimately show ?thesis using dist by auto
  qed
  have nbs: "n \<notin> set bs" using bs dist by (cases ys) auto
  have e1: "e \<notin> set (as @ [p])" using e as by (metis Un_iff set_append append_Cons)
  have e2: "e \<notin> set (n # bs)" using e bs by (metis Un_iff set_append append_Cons insert_iff list.set(2) empty_iff list.set(1))
  have e3: "e \<notin> set xs" using e by simp
  have "linked ?h (as @ [p]) = linked h (as @ [p])"
    by (rule linked_cong) (use pas nxs tl e1 e3 in \<open>auto simp: link_elem_def\<close>)
  moreover have "linked ?h (n # bs) = linked h (n # bs)"
    by (rule linked_cong) (use pbs nbs e2 in \<open>auto simp: link_elem_def dest: in_set_butlastD split: if_splits\<close>)
  moreover have "l_next ?h p = e" "l_prev ?h e = p" "l_next ?h e = n" "l_prev ?h n = e"
    using e1 e2 by (auto simp: link_elem_def)
  ultimately have "linked ?h (as @ p # e # n # bs)"
    using l by (simp add: linked_append)
  moreover have "hp # (xs @ e # ys) @ [hp] = as @ p # e # n # bs"
    using as bs by (metis append.assoc append_Cons append_Nil)
  ultimately show ?thesis using dist e by (auto simp: dlist_def)
qed

lemma dlist_del:
  assumes d: "dlist h hp (xs @ e # ys)"
  shows "dlist (toyfs_list_del e h) hp (xs @ ys)"
proof -
  obtain as p where as: "hp # xs = as @ [p]" by (metis append_butlast_last_id list.distinct(1))
  obtain n bs where bs: "ys @ [hp] = n # bs" by (cases ys) auto
  have "linked h ((hp # xs) @ e # (ys @ [hp]))" using d by (simp add: dlist_def)
  then have lk: "linked h (as @ p # e # n # bs)" by (simp only: as bs) simp
  have dist: "distinct (hp # xs @ e # ys)" using d by (simp add: dlist_def)
  then have "distinct ((as @ [p]) @ e # ys)" using as by (metis append_Cons)
  then have pas: "p \<notin> set as" and eas: "e \<notin> set (as @ [p])" by auto
  have tl: "tl (as @ [p]) = xs" using as by (metis list.sel(3))
  have nxs: "n \<notin> set xs" using bs dist by (cases ys) auto
  have nbs: "n \<notin> set bs" using bs dist by (cases ys) auto
  have ne: "n \<noteq> e" using bs dist by (cases ys) auto
  have pbs: "p \<notin> set (butlast (n # bs))"
  proof -
    have "butlast (n # bs) = ys" using bs by (metis butlast_snoc)
    moreover have "p \<in> set (hp # xs)" using as by simp
    ultimately show ?thesis using dist by auto
  qed
  from lk have l: "linked h (as @ [p])" "l_next h p = e" "l_prev h e = p" "l_next h e = n"
      "l_prev h n = e" "linked h (n # bs)"
    by (auto simp: linked_append)
  let ?h = "toyfs_list_del e h"
  have h: "l_next ?h = (l_next h)(p := n)" "l_prev ?h = (l_prev h)(n := p)"
    using l ne by (simp_all add: toyfs_list_del_def Let_def)
  have "linked ?h (as @ [p]) = linked h (as @ [p])"
    by (rule linked_cong) (use pas nxs tl h in auto)
  moreover have "linked ?h (n # bs) = linked h (n # bs)"
    by (rule linked_cong) (use pbs nbs h in \<open>auto split: if_splits\<close>)
  ultimately have "linked ?h (as @ p # n # bs)"
    using l h by (simp add: linked_append)
  moreover have "hp # (xs @ ys) @ [hp] = as @ p # n # bs"
    using as bs by (metis append.assoc append_Cons append_Nil)
  ultimately show ?thesis using dist by (auto simp: dlist_def)
qed

lemma dlist_init: "dlist (toyfs_list_init hp h) hp []"
  by (simp add: dlist_def toyfs_list_init_def)

lemma dlist_next: "dlist h hp xs \<Longrightarrow> l_next h hp = hd (xs @ [hp])"
  by (cases xs) (auto simp: dlist_def)

lemma dlist_prev:
  assumes "dlist h hp xs"
  shows "l_prev h hp = last (hp # xs)"
proof -
  from dlist_split [of h hp xs "[]"] assms obtain as p where "hp # xs = as @ [p]" "l_prev h hp = p"
    by auto
  then show ?thesis by simp
qed

lemma dlist_empty: "dlist h hp xs \<Longrightarrow> (l_next h hp = hp) = (xs = [])"
  by (cases xs) (auto simp: dlist_def)

lemma dlist_walk:
  "linked h (a # xs @ [hp]) \<Longrightarrow> hp \<notin> set xs \<Longrightarrow> length xs \<le> n \<Longrightarrow>
   a_list_for_each_entry n (l_next h a) hp h = Some xs"
proof (induction xs arbitrary: a n)
  case Nil
  then show ?case by (subst a_list_for_each_entry.simps) simp
next
  case (Cons x xs)
  then obtain m where m: "n = Suc m" by (cases n) auto
  from Cons.prems have "linked h (x # xs @ [hp])" and nx: "l_next h a = x" by auto
  with Cons m have "a_list_for_each_entry m (l_next h x) hp h = Some xs" by simp
  then show ?case using Cons.prems m nx by (subst a_list_for_each_entry.simps) simp
qed

section \<open>The contract of an intrusive list\<close>

text \<open>
  A client links the nodes it owns with \<open>add_tail\<close> and unlinks them with \<open>del\<close>; \<open>empty\<close> tests for
  the empty ring.
\<close>

locale intrusive_list =
  fixes init :: "addr \<Rightarrow> links \<Rightarrow> links"
    and add_tail :: "addr \<Rightarrow> addr \<Rightarrow> links \<Rightarrow> links"
    and del :: "addr \<Rightarrow> links \<Rightarrow> links"
    and empty :: "addr \<Rightarrow> links \<Rightarrow> bool"
  assumes init_law: "dlist (init hp h) hp []"
    and add_tail_law: "\<lbrakk>dlist h hp xs; e \<noteq> hp; e \<notin> set xs\<rbrakk> \<Longrightarrow> dlist (add_tail e hp h) hp (xs @ [e])"
    and del_law: "dlist h hp (xs @ e # ys) \<Longrightarrow> dlist (del e h) hp (xs @ ys)"
    and empty_law: "dlist h hp xs \<Longrightarrow> empty hp h = (xs = [])"
begin

lemma fold_add_tail:
  "\<lbrakk>dlist h hp xs; distinct es; hp \<notin> set es; set es \<inter> set xs = {}\<rbrakk> \<Longrightarrow>
   dlist (fold (\<lambda>e. add_tail e hp) es h) hp (xs @ es)"
proof (induction es arbitrary: h xs)
  case (Cons e es)
  have "dlist (add_tail e hp h) hp (xs @ [e])" using Cons.prems by (intro add_tail_law) auto
  from Cons.IH [OF this] Cons.prems show ?case by auto
qed simp

lemma init_fold_add_tail:
  "distinct es \<Longrightarrow> hp \<notin> set es \<Longrightarrow> dlist (fold (\<lambda>e. add_tail e hp) es (init hp h)) hp es"
  using fold_add_tail [OF init_law, of es hp h] by simp

lemma del_first: "dlist h hp (x # xs) \<Longrightarrow> l_next h hp = x \<and> dlist (del (l_next h hp) h) hp xs"
  using dlist_next [of h hp "x # xs"] del_law [of h hp "[]" x xs] by simp

lemma del_member:
  assumes "dlist h hp xs" and "e \<in> set xs"
  shows "dlist (del e h) hp (remove1 e xs)"
proof -
  from assms(2) obtain ps qs where xs: "xs = ps @ e # qs" "e \<notin> set ps"
    by (meson split_list_first)
  with del_law [of h hp ps e qs] assms(1) show ?thesis by (simp add: remove1_split)
qed

lemma add_then_del:
  assumes "dlist h hp xs" and "e \<noteq> hp" and "e \<notin> set xs"
  shows "dlist (del e (add_tail e hp h)) hp xs"
  using del_law [of "add_tail e hp h" hp xs e "[]"] add_tail_law [OF assms] by simp

end

lemmas list_op_defs = a_list_init_def a_list_add_tail_def a_list_del_def a_list_empty_def
  a_list_del_init_def a_list_add_def toyfs_list_init_def toyfs_list_add_def toyfs_list_add_tail_def
  toyfs_list_add_before_def toyfs_list_empty_def

lemma link_list_eq: "link_list = link_elem"
  by (intro ext) (simp add: link_list_def link_elem_def)

lemma a_list_del_eq: "a_list_del = toyfs_list_del"
  by (intro ext) (simp add: a_list_del_def toyfs_list_del_def)

lemma dlist_link_tail:
  "\<lbrakk>dlist h hp xs; e \<noteq> hp; e \<notin> set xs\<rbrakk> \<Longrightarrow> dlist (link_elem e (l_prev h hp) hp h) hp (xs @ [e])"
  using dlist_link [of h hp xs "[]" e "l_prev h hp" hp] dlist_prev [of h hp xs] by simp

interpretation al: intrusive_list a_list_init a_list_add_tail a_list_del a_list_empty
proof
  show "dlist (a_list_init hp h) hp []" for hp h
    using dlist_init [of hp h] by (simp add: a_list_init_def toyfs_list_init_def)
  show "dlist (a_list_add_tail e hp h) hp (xs @ [e])"
    if "dlist h hp xs" "e \<noteq> hp" "e \<notin> set xs" for h hp xs e
    using dlist_link_tail [OF that] by (simp add: a_list_add_tail_def link_list_eq)
  show "dlist (a_list_del e h) hp (xs @ ys)" if "dlist h hp (xs @ e # ys)" for h hp xs e ys
    using dlist_del [OF that] by (simp add: a_list_del_eq)
  show "a_list_empty hp h = (xs = [])" if "dlist h hp xs" for h hp xs
    using dlist_empty [OF that] by (simp add: a_list_empty_def)
qed

interpretation tl: intrusive_list toyfs_list_init toyfs_list_add_tail toyfs_list_del toyfs_list_empty
proof
  show "dlist (toyfs_list_init hp h) hp []" for hp h by (rule dlist_init)
  show "dlist (toyfs_list_add_tail e hp h) hp (xs @ [e])"
    if "dlist h hp xs" "e \<noteq> hp" "e \<notin> set xs" for h hp xs e
    using dlist_link_tail [OF that] by (simp add: toyfs_list_add_tail_def)
  show "dlist (toyfs_list_del e h) hp (xs @ ys)" if "dlist h hp (xs @ e # ys)" for h hp xs e ys
    by (rule dlist_del [OF that])
  show "toyfs_list_empty hp h = (xs = [])" if "dlist h hp xs" for h hp xs
    using dlist_empty [OF that] by (simp add: toyfs_list_empty_def)
qed

lemma dlist_del_untouched:
  assumes d: "dlist h hp (xs @ e # ys)"
  shows "l_next (toyfs_list_del e h) e = l_next h e"
proof -
  from d have dist: "distinct (hp # xs @ e # ys)" by (simp add: dlist_def)
  obtain as p where as: "hp # xs = as @ [p]" by (metis append_butlast_last_id list.distinct(1))
  have "linked h ((hp # xs) @ e # (ys @ [hp]))" using d by (simp add: dlist_def)
  then have "linked h (as @ p # e # (ys @ [hp]))" by (simp only: as) simp
  then have pe: "l_prev h e = p" by (simp add: linked_append)
  have "p \<in> set (hp # xs)" using as by simp
  then have "p \<noteq> e" using dist by auto
  moreover have "l_next h e \<noteq> e"
    using \<open>linked h (as @ p # e # (ys @ [hp]))\<close> dist by (cases ys) (auto simp: linked_append)
  ultimately show ?thesis by (simp add: toyfs_list_del_def Let_def pe)
qed

section \<open>Properties\<close>

text \<open>
  Every operation of the toyfs list implementation refines its list operation: on the ring
  that represents \<open>xs @ ys\<close>, \<open>toyfs_list_add_before\<close> of a fresh node before the first node of
  \<open>ys\<close> (or before the head, when \<open>ys\<close> is empty) gives the ring of \<open>xs @ e # ys\<close>, and
  \<open>toyfs_list_del\<close> of that node gives the ring of \<open>xs @ ys\<close> back, without changing the \<open>next\<close>
  pointer of the unlinked node, so that an iteration may continue from it.
\<close>

theorem list_add_before_del_refines:
  assumes "dlist h hp (xs @ ys)" and "e \<notin> set (hp # xs @ ys)"
  shows "dlist (toyfs_list_add_before e (hd (ys @ [hp])) h) hp (xs @ e # ys) \<and>
    dlist (toyfs_list_del e (toyfs_list_add_before e (hd (ys @ [hp])) h)) hp (xs @ ys) \<and>
    l_next (toyfs_list_del e (toyfs_list_add_before e (hd (ys @ [hp])) h)) e = hd (ys @ [hp])"
proof -
  let ?n = "hd (ys @ [hp])" and ?h = "toyfs_list_add_before e (hd (ys @ [hp])) h"
  obtain as p n bs where s: "hp # xs = as @ [p]" "ys @ [hp] = n # bs" "l_prev h n = p"
    using dlist_split [OF assms(1)] by blast
  have "l_prev h ?n = last (hp # xs)" using s by simp
  then have d: "dlist ?h hp (xs @ e # ys)"
    using dlist_link [OF assms, of "l_prev h ?n" ?n] by (simp add: toyfs_list_add_before_def)
  have "e \<noteq> ?n" using assms(2) by (cases ys) auto
  then have "l_next ?h e = ?n \<or> l_prev h ?n = e"
    by (auto simp: toyfs_list_add_before_def link_elem_def)
  moreover have "l_prev h ?n \<noteq> e" using assms(2) \<open>l_prev h ?n = last (hp # xs)\<close>
    by (metis Un_iff last_in_set list.distinct(1) set_append append_Cons)
  ultimately show ?thesis using d dlist_del [OF d] dlist_del_untouched [OF d] by simp
qed

theorem list_add_before_del_refines_witness:
  "dlist (toyfs_list_add_before 9 (hd ([2] @ [0]))
      (fold (\<lambda>e. toyfs_list_add_tail e 0) [1, 2] (toyfs_list_init 0 \<lparr>l_next = id, l_prev = id\<rparr>)))
    0 ([1] @ 9 # [2])"
  using list_add_before_del_refines
    [of "fold (\<lambda>e. toyfs_list_add_tail e 0) [1, 2] (toyfs_list_init 0 \<lparr>l_next = id, l_prev = id\<rparr>)"
        0 "[1]" "[2]" 9]
    tl.init_fold_add_tail [of "[1, 2]" 0] by simp

text \<open>
  The two list implementations agree where they share a name, except for \<open>add\<close>:
  \<open>a_list_add\<close> puts the node first, \<open>toyfs_list_add\<close> puts it last (as its \<open>add_tail\<close> does), and an
  iteration with \<open>a_list_for_each_entry\<close> visits exactly the nodes of the ring, in order.
\<close>

theorem list_add_positions:
  assumes "dlist h hp xs" and "e \<noteq> hp" and "e \<notin> set xs"
  shows "a_list_for_each_entry (length xs + 1) (l_next (a_list_add e hp h) hp) hp (a_list_add e hp h)
           = Some (e # xs)
    \<and> a_list_for_each_entry (length xs + 1) (l_next (toyfs_list_add e hp h) hp) hp
           (toyfs_list_add e hp h) = Some (xs @ [e])"
proof
  have "dlist (a_list_add e hp h) hp (e # xs)"
    using dlist_link [of h hp "[]" xs e hp "l_next h hp"] dlist_next [OF assms(1)] assms
    by (simp add: a_list_add_def link_list_eq)
  then show "a_list_for_each_entry (length xs + 1) (l_next (a_list_add e hp h) hp) hp
      (a_list_add e hp h) = Some (e # xs)"
    by (intro dlist_walk) (auto simp: dlist_def)
  have "dlist (toyfs_list_add e hp h) hp (xs @ [e])"
    using dlist_link_tail [OF assms] by (simp add: toyfs_list_add_def)
  then show "a_list_for_each_entry (length xs + 1) (l_next (toyfs_list_add e hp h) hp) hp
      (toyfs_list_add e hp h) = Some (xs @ [e])"
    by (intro dlist_walk) (auto simp: dlist_def)
qed

theorem list_add_positions_witness:
  "a_list_for_each_entry 3
     (l_next (toyfs_list_add 3 0
       (fold (\<lambda>e. toyfs_list_add_tail e 0) [1, 2] (toyfs_list_init 0 \<lparr>l_next = id, l_prev = id\<rparr>))) 0) 0
     (toyfs_list_add 3 0
       (fold (\<lambda>e. toyfs_list_add_tail e 0) [1, 2] (toyfs_list_init 0 \<lparr>l_next = id, l_prev = id\<rparr>)))
   = Some [1, 2, 3]"
  using list_add_positions
    [of "fold (\<lambda>e. toyfs_list_add_tail e 0) [1, 2] (toyfs_list_init 0 \<lparr>l_next = id, l_prev = id\<rparr>)"
        0 "[1, 2]" 3]
    tl.init_fold_add_tail [of "[1, 2]" 0] by (simp add: numeral_3_eq_3)

end
