(* ===== verification/ToyState.thy ===== *)
theory ToyState
  imports Prelude
begin

unbundle bit_operations_syntax

text \<open>
  The data model of toyfs (\<open>fs/toyfs/toyfs.h\<close>): the superblock info with its page pool, inode
  table and statistics, and the heaps that its pointers refer to. Persistent memory is typed: a
  data page, a \<open>struct toyfs_inode\<close>, \<open>struct toyfs_dblkref\<close> or \<open>struct toyfs_iblkref\<close> is found
  under its address in its own heap (theory \<open>ToyPool\<close> shows that the pool never hands out
  overlapping objects). A list head is the HOL list of the nodes of the ring (theory \<open>DList\<close>
  shows that the pointer operations implement it). NULL is \<open>None\<close> where the code tests for it.
  Members of the anonymous union of \<open>struct toyfs_inode\<close> are separate fields: the mode and the size
  of an inode decide which of them the code uses, and no code reads one member after writing
  another. Mutexes have no counterpart: an operation is one transition.
\<close>

section \<open>What toyfs uses of the multi-device layer\<close>

text \<open>
  \<open>md_baddr\<close>, \<open>md_addr_to_offset\<close>, \<open>md_o2p\<close>, \<open>md_p2o\<close>, \<open>md_t1_blocks\<close> and the constants below are declared
  in \<open>md.h\<close>, \<open>md_def.h\<close> and \<open>zus_api.h\<close> of the kernel part of the project. They are parameters.
\<close>

record md_ops =
  md_baddr :: "nat \<Rightarrow> addr"
  md_addr_to_offset :: "addr \<Rightarrow> nat"
  md_o2p :: "nat \<Rightarrow> nat"
  md_p2o :: "nat \<Rightarrow> nat"
  md_t1_blocks :: nat
  p_pmem_addr :: addr          \<comment> \<open>where the device is mapped\<close>
  md_magic :: nat              \<comment> \<open>\<open>dev_table.s_magic\<close> of the mapped super block\<close>
  zufs_name_len :: nat         \<comment> \<open>\<open>ZUFS_NAME_LEN\<close>\<close>
  zus_api_map_max_size :: nat  \<comment> \<open>\<open>ZUS_API_MAP_MAX_SIZE\<close>\<close>

text \<open>
  What toyfs relies on: the two directions of the translation between block numbers and mapped
  addresses agree on the blocks that the pool manages, which are not mapped at NULL (address 0).
  Block 0 and 1 hold the super block. The size of one operation is limited.
\<close>

definition md_ok :: "md_ops \<Rightarrow> addr \<Rightarrow> nat \<Rightarrow> bool" where
  "md_ok md mem n =
    (0 < mem \<and> zus_api_map_max_size md < 2 ^ 62 \<and> (\<forall>c<n. md_baddr md (c + 2) = mem + PAGE_SIZE * c \<and>
           md_o2p md (md_addr_to_offset md (mem + PAGE_SIZE * c)) = c + 2))"

section \<open>Records\<close>

record toyfs_pool =
  pool_pages :: "addr list"           \<comment> \<open>singly linked through the first word of each free page\<close>
  free_dblkrefs :: "addr list"
  free_iblkrefs :: "addr list"
  free_inodes :: "addr list"
  pool_mem :: addr
  pool_msz :: nat

record toyfs_inode_ref =
  tir_tii :: "addr option"
  tir_ti :: "addr option"
  tir_ino :: nat

record toyfs_itable =
  icount :: nat
  imap :: "nat \<Rightarrow> toyfs_inode_ref list"

record statvfs =
  f_bsize :: nat
  f_frsize :: nat
  f_blocks :: nat
  f_bfree :: nat
  f_bavail :: nat
  f_files :: nat
  f_ffree :: nat
  f_favail :: nat
  f_flag :: nat
  f_namemax :: nat

record toyfs_inode =
  i_flags :: "16 word"
  i_mode :: "16 word"
  i_nlink :: "32 word"
  i_size :: nat
  list_head :: "addr list"
  i_blocks :: nat
  i_mtime :: nat
  i_ctime :: nat
  i_atime :: nat
  i_ino :: nat
  i_uid :: "32 word"
  i_gid :: "32 word"
  i_xattr :: nat
  i_generation :: nat
  i_rdev :: "32 word"
  i_symlink :: "byte list"
  i_sym_dpp :: nat
  i_dir_parent :: nat

record toyfs_inode_info =
  tii_op :: bool             \<comment> \<open>\<open>zii.op\<close> is not NULL\<close>
  tii_zi :: "addr option"    \<comment> \<open>\<open>zii.zi\<close>\<close>
  tii_sbi :: bool            \<comment> \<open>\<open>sbi\<close> is not NULL\<close>
  tii_ti :: "addr option"
  tii_ino :: nat
  imagic :: nat
  tii_ref :: int
  tii_mapped :: bool
  tii_valid :: bool

record toyfs_dblkref =
  db_refcnt :: nat
  db_bn :: nat

record toyfs_iblkref =
  ib_dblkref :: "addr option"
  ib_off :: int

record toyfs_sb_info =
  s_md :: md_ops
  s_statvfs :: statvfs
  s_pool :: toyfs_pool
  s_itable :: toyfs_itable
  s_root :: "addr option"
  s_top_ino :: nat
  h_dat :: "addr \<Rightarrow> nat \<Rightarrow> byte"
  h_dblkref :: "addr \<Rightarrow> toyfs_dblkref"
  h_iblkref :: "addr \<Rightarrow> toyfs_iblkref"
  h_inode :: "addr \<Rightarrow> toyfs_inode"
  h_tii :: "addr \<Rightarrow> toyfs_inode_info option"

section \<open>File modes\<close>

text \<open>\<open>S_ISREG\<close> and its siblings compare the file type bits of a mode.\<close>

abbreviation (input) S_IFMT :: "16 word" where "S_IFMT \<equiv> 0xF000"
abbreviation (input) S_IFIFO :: "16 word" where "S_IFIFO \<equiv> 0x1000"
abbreviation (input) S_IFCHR :: "16 word" where "S_IFCHR \<equiv> 0x2000"
abbreviation (input) S_IFDIR :: "16 word" where "S_IFDIR \<equiv> 0x4000"
abbreviation (input) S_IFBLK :: "16 word" where "S_IFBLK \<equiv> 0x6000"
abbreviation (input) S_IFREG :: "16 word" where "S_IFREG \<equiv> 0x8000"
abbreviation (input) S_IFLNK :: "16 word" where "S_IFLNK \<equiv> 0xA000"
abbreviation (input) S_IFSOCK :: "16 word" where "S_IFSOCK \<equiv> 0xC000"

definition s_istype :: "16 word \<Rightarrow> 16 word \<Rightarrow> bool" where
  "s_istype ty mode = (mode AND S_IFMT = ty)"

definition zi_isdir :: "toyfs_inode \<Rightarrow> bool" where
  "zi_isdir zi = s_istype S_IFDIR (i_mode zi)"

definition zi_isreg :: "toyfs_inode \<Rightarrow> bool" where
  "zi_isreg zi = s_istype S_IFREG (i_mode zi)"

definition zi_islnk :: "toyfs_inode \<Rightarrow> bool" where
  "zi_islnk zi = s_istype S_IFLNK (i_mode zi)"

lemma zi_type_disjoint:
  "zi_isdir zi \<Longrightarrow> \<not> zi_isreg zi" "zi_isdir zi \<Longrightarrow> \<not> zi_islnk zi" "zi_isreg zi \<Longrightarrow> \<not> zi_islnk zi"
  by (simp_all add: zi_isdir_def zi_isreg_def zi_islnk_def s_istype_def)

section \<open>Heap updates\<close>

definition upd_inode :: "addr \<Rightarrow> (toyfs_inode \<Rightarrow> toyfs_inode) \<Rightarrow> toyfs_sb_info \<Rightarrow> toyfs_sb_info" where
  "upd_inode ti f s = s\<lparr>h_inode := (h_inode s)(ti := f (h_inode s ti))\<rparr>"

definition upd_dblkref :: "addr \<Rightarrow> (toyfs_dblkref \<Rightarrow> toyfs_dblkref) \<Rightarrow> toyfs_sb_info \<Rightarrow> toyfs_sb_info" where
  "upd_dblkref d f s = s\<lparr>h_dblkref := (h_dblkref s)(d := f (h_dblkref s d))\<rparr>"

definition upd_iblkref :: "addr \<Rightarrow> (toyfs_iblkref \<Rightarrow> toyfs_iblkref) \<Rightarrow> toyfs_sb_info \<Rightarrow> toyfs_sb_info" where
  "upd_iblkref ib f s = s\<lparr>h_iblkref := (h_iblkref s)(ib := f (h_iblkref s ib))\<rparr>"

text \<open>\<open>upd_dat p off bytes\<close>: a \<open>memcpy\<close> or \<open>memset\<close> of \<open>len\<close> bytes into page \<open>p\<close> at \<open>off\<close>.\<close>

definition upd_dat :: "addr \<Rightarrow> nat \<Rightarrow> nat \<Rightarrow> (nat \<Rightarrow> byte) \<Rightarrow> toyfs_sb_info \<Rightarrow> toyfs_sb_info" where
  "upd_dat p off len src s =
    s\<lparr>h_dat := (h_dat s)(p := (\<lambda>i. if off \<le> i \<and> i < off + len then src (i - off) else h_dat s p i))\<rparr>"

lemmas upd_defs = upd_inode_def upd_dblkref_def upd_iblkref_def upd_dat_def

lemma upd_inode_frame [simp]:
  "s_md (upd_inode t f s) = s_md s" "s_statvfs (upd_inode t f s) = s_statvfs s"
  "s_pool (upd_inode t f s) = s_pool s" "s_itable (upd_inode t f s) = s_itable s"
  "h_dat (upd_inode t f s) = h_dat s" "h_dblkref (upd_inode t f s) = h_dblkref s"
  "h_iblkref (upd_inode t f s) = h_iblkref s" "h_tii (upd_inode t f s) = h_tii s"
  "h_inode (upd_inode t f s) = (h_inode s)(t := f (h_inode s t))"
  by (simp_all add: upd_inode_def)

lemma upd_dblkref_frame [simp]:
  "s_md (upd_dblkref d g s) = s_md s" "s_statvfs (upd_dblkref d g s) = s_statvfs s"
  "s_pool (upd_dblkref d g s) = s_pool s" "s_itable (upd_dblkref d g s) = s_itable s"
  "h_dat (upd_dblkref d g s) = h_dat s" "h_inode (upd_dblkref d g s) = h_inode s"
  "h_iblkref (upd_dblkref d g s) = h_iblkref s" "h_tii (upd_dblkref d g s) = h_tii s"
  "h_dblkref (upd_dblkref d g s) = (h_dblkref s)(d := g (h_dblkref s d))"
  by (simp_all add: upd_dblkref_def)

lemma upd_iblkref_frame [simp]:
  "s_md (upd_iblkref ib k s) = s_md s" "s_statvfs (upd_iblkref ib k s) = s_statvfs s"
  "s_pool (upd_iblkref ib k s) = s_pool s" "s_itable (upd_iblkref ib k s) = s_itable s"
  "h_dat (upd_iblkref ib k s) = h_dat s" "h_inode (upd_iblkref ib k s) = h_inode s"
  "h_dblkref (upd_iblkref ib k s) = h_dblkref s" "h_tii (upd_iblkref ib k s) = h_tii s"
  "h_iblkref (upd_iblkref ib k s) = (h_iblkref s)(ib := k (h_iblkref s ib))"
  by (simp_all add: upd_iblkref_def)

lemma upd_dat_frame [simp]:
  "s_md (upd_dat p off len src s) = s_md s" "s_statvfs (upd_dat p off len src s) = s_statvfs s"
  "s_pool (upd_dat p off len src s) = s_pool s" "s_itable (upd_dat p off len src s) = s_itable s"
  "h_inode (upd_dat p off len src s) = h_inode s" "h_tii (upd_dat p off len src s) = h_tii s"
  "h_dblkref (upd_dat p off len src s) = h_dblkref s"
  "h_iblkref (upd_dat p off len src s) = h_iblkref s"
  by (simp_all add: upd_dat_def)

lemma h_dat_upd_dat:
  "h_dat (upd_dat p off len src s) q i =
    (if q = p \<and> off \<le> i \<and> i < off + len then src (i - off) else h_dat s q i)"
  by (simp add: upd_dat_def)

end
