(* ===== verification/ToyPool.thy ===== *)
theory ToyPool
  imports ToyState
begin

text \<open>
  The page pool of toyfs (\<open>fs/toyfs/super.c\<close>): setup of the pool over the mapped device, the free
  list of pages, the free lists of inodes, data-block references and inode-block references that
  are carved out of whole pages on demand, and the acquire and release operations of the
  superblock, which keep the \<open>statvfs\<close> counters. A ghost state records what has been handed out;
  the invariant \<open>pool_inv\<close> says that every page of the device is in exactly one role.
\<close>

section \<open>Addresses\<close>

definition toyfs_addr2bn :: "toyfs_sb_info \<Rightarrow> addr \<Rightarrow> nat" where
  "toyfs_addr2bn s ptr = (let offset = md_addr_to_offset (s_md s) ptr in md_o2p (s_md s) offset)"

definition toyfs_bn2addr :: "toyfs_sb_info \<Rightarrow> nat \<Rightarrow> addr" where
  "toyfs_bn2addr s bn = md_baddr (s_md s) bn"

definition toyfs_bn2pmemb :: "toyfs_sb_info \<Rightarrow> nat \<Rightarrow> addr" where
  "toyfs_bn2pmemb s bn = toyfs_bn2addr s bn"

definition pmem_dpp_t :: "nat \<Rightarrow> nat" where
  "pmem_dpp_t offset = offset"

definition toyfs_page2dpp :: "toyfs_sb_info \<Rightarrow> addr \<Rightarrow> nat" where
  "toyfs_page2dpp s page = pmem_dpp_t (md_addr_to_offset (s_md s) page)"

definition toyfs_dpp2pmemb :: "toyfs_sb_info \<Rightarrow> nat \<Rightarrow> addr" where
  "toyfs_dpp2pmemb s dpp = toyfs_bn2pmemb s (md_o2p (s_md s) dpp)"

section \<open>The pool\<close>

definition toyfs_inodes_per_page :: nat where "toyfs_inodes_per_page = PAGE_SIZE div 128"
definition toyfs_dblkrefs_per_page :: nat where "toyfs_dblkrefs_per_page = PAGE_SIZE div 32"
definition toyfs_iblkrefs_per_page :: nat where "toyfs_iblkrefs_per_page = PAGE_SIZE div 32"

definition pool_init :: "toyfs_pool \<Rightarrow> toyfs_pool" where
  "pool_init pool = pool\<lparr>pool_mem := 0, pool_msz := 0, pool_pages := [],
     free_dblkrefs := [], free_iblkrefs := [], free_inodes := []\<rparr>"

text \<open>The loop pushes the pages in ascending order, so that the last page is popped first.\<close>

definition pool_setup :: "addr \<Rightarrow> nat \<Rightarrow> toyfs_pool \<Rightarrow> toyfs_pool" where
  "pool_setup mem msz pool =
    (let npages = msz div PAGE_SIZE;
         pages = fold (\<lambda>pagei nxt. (mem + PAGE_SIZE * pagei) # nxt) [0..<npages] []
     in pool\<lparr>pool_mem := mem, pool_msz := msz, pool_pages := pages\<rparr>)"

definition pool_destroy :: "toyfs_pool \<Rightarrow> toyfs_pool" where
  "pool_destroy pool = pool\<lparr>pool_mem := 0, pool_msz := 0, pool_pages := []\<rparr>"

definition pool_pop_pmemb :: "toyfs_pool \<Rightarrow> addr option \<times> toyfs_pool" where
  "pool_pop_pmemb pool =
    (case pool_pages pool of [] \<Rightarrow> (None, pool) | p # ps \<Rightarrow> (Some p, pool\<lparr>pool_pages := ps\<rparr>))"

definition pool_push_pmemb :: "addr \<Rightarrow> toyfs_pool \<Rightarrow> toyfs_pool" where
  "pool_push_pmemb pmemb pool = pool\<lparr>pool_pages := pmemb # pool_pages pool\<rparr>"

definition pool_add_free_inodes :: "toyfs_pool \<Rightarrow> unit result \<times> toyfs_pool" where
  "pool_add_free_inodes pool =
    (case pool_pop_pmemb pool of (None, pool') \<Rightarrow> (Inl ENOMEM, pool')
     | (Some pmemb, pool') \<Rightarrow>
        (Inr (), fold (\<lambda>i q. q\<lparr>free_inodes := free_inodes q @ [pmemb + 128 * i]\<rparr>)
                   [0..<toyfs_inodes_per_page] pool'))"

definition pool_pop_free_inode :: "toyfs_pool \<Rightarrow> addr option \<times> toyfs_pool" where
  "pool_pop_free_inode pool =
    (case free_inodes pool of [] \<Rightarrow> (None, pool) | x # xs \<Rightarrow> (Some x, pool\<lparr>free_inodes := xs\<rparr>))"

definition pool_pop_inode :: "toyfs_pool \<Rightarrow> addr option \<times> toyfs_pool" where
  "pool_pop_inode pool =
    (case pool_pop_free_inode pool of (Some ti, pool') \<Rightarrow> (Some ti, pool')
     | (None, pool') \<Rightarrow>
        (case pool_add_free_inodes pool' of (Inl err, pool'') \<Rightarrow> (None, pool'')
         | (Inr _, pool'') \<Rightarrow> pool_pop_free_inode pool''))"

definition zero_inode :: toyfs_inode where
  "zero_inode = \<lparr>i_flags = 0, i_mode = 0, i_nlink = 0, i_size = 0, list_head = [], i_blocks = 0,
     i_mtime = 0, i_ctime = 0, i_atime = 0, i_ino = 0, i_uid = 0, i_gid = 0, i_xattr = 0,
     i_generation = 0, i_rdev = 0, i_symlink = replicate 32 0, i_sym_dpp = 0, i_dir_parent = 0\<rparr>"

definition pool_push_inode :: "addr \<Rightarrow> toyfs_sb_info \<Rightarrow> toyfs_sb_info" where
  "pool_push_inode inode s =
    (let s1 = upd_inode inode (\<lambda>_. zero_inode) s
     in s1\<lparr>s_pool := (s_pool s1)\<lparr>free_inodes := free_inodes (s_pool s1) @ [inode]\<rparr>\<rparr>)"

definition toyfs_acquire_inode :: "toyfs_sb_info \<Rightarrow> addr option \<times> toyfs_sb_info" where
  "toyfs_acquire_inode s =
    (let (ti, pool) = pool_pop_inode (s_pool s) in (ti, s\<lparr>s_pool := pool\<rparr>))"

definition toyfs_release_inode :: "addr \<Rightarrow> toyfs_sb_info \<Rightarrow> toyfs_sb_info" where
  "toyfs_release_inode inode s = pool_push_inode inode s"

definition pool_add_free_dblkrefs :: "toyfs_pool \<Rightarrow> unit result \<times> toyfs_pool" where
  "pool_add_free_dblkrefs pool =
    (case pool_pop_pmemb pool of (None, pool') \<Rightarrow> (Inl ENOMEM, pool')
     | (Some pmemb, pool') \<Rightarrow>
        (Inr (), fold (\<lambda>i q. q\<lparr>free_dblkrefs := free_dblkrefs q @ [pmemb + 32 * i]\<rparr>)
                   [0..<toyfs_dblkrefs_per_page] pool'))"

definition pool_pop_free_dblkref :: "toyfs_pool \<Rightarrow> addr option \<times> toyfs_pool" where
  "pool_pop_free_dblkref pool =
    (case free_dblkrefs pool of [] \<Rightarrow> (None, pool) | x # xs \<Rightarrow> (Some x, pool\<lparr>free_dblkrefs := xs\<rparr>))"

definition pool_pop_dblkref :: "toyfs_pool \<Rightarrow> addr option \<times> toyfs_pool" where
  "pool_pop_dblkref pool =
    (case pool_pop_free_dblkref pool of (Some d, pool') \<Rightarrow> (Some d, pool')
     | (None, pool') \<Rightarrow>
        (case pool_add_free_dblkrefs pool' of (Inl err, pool'') \<Rightarrow> (None, pool'')
         | (Inr _, pool'') \<Rightarrow> pool_pop_free_dblkref pool''))"

definition pool_push_dblkref :: "addr \<Rightarrow> toyfs_pool \<Rightarrow> toyfs_pool" where
  "pool_push_dblkref dblkref pool = pool\<lparr>free_dblkrefs := free_dblkrefs pool @ [dblkref]\<rparr>"

definition pool_add_free_iblkrefs :: "toyfs_pool \<Rightarrow> unit result \<times> toyfs_pool" where
  "pool_add_free_iblkrefs pool =
    (case pool_pop_pmemb pool of (None, pool') \<Rightarrow> (Inl ENOMEM, pool')
     | (Some pmemb, pool') \<Rightarrow>
        (Inr (), fold (\<lambda>i q. q\<lparr>free_iblkrefs := free_iblkrefs q @ [pmemb + 32 * i]\<rparr>)
                   [0..<toyfs_iblkrefs_per_page] pool'))"

definition pool_pop_free_iblkref :: "toyfs_pool \<Rightarrow> addr option \<times> toyfs_pool" where
  "pool_pop_free_iblkref pool =
    (case free_iblkrefs pool of [] \<Rightarrow> (None, pool) | x # xs \<Rightarrow> (Some x, pool\<lparr>free_iblkrefs := xs\<rparr>))"

definition pool_pop_iblkref :: "toyfs_pool \<Rightarrow> addr option \<times> toyfs_pool" where
  "pool_pop_iblkref pool =
    (case pool_pop_free_iblkref pool of (Some ib, pool') \<Rightarrow> (Some ib, pool')
     | (None, pool') \<Rightarrow>
        (case pool_add_free_iblkrefs pool' of (Inl err, pool'') \<Rightarrow> (None, pool'')
         | (Inr _, pool'') \<Rightarrow> pool_pop_free_iblkref pool''))"

definition pool_push_iblkref :: "addr \<Rightarrow> toyfs_pool \<Rightarrow> toyfs_pool" where
  "pool_push_iblkref iblkref pool = pool\<lparr>free_iblkrefs := free_iblkrefs pool @ [iblkref]\<rparr>"

section \<open>Acquire and release\<close>

definition toyfs_acquire_pmemb :: "toyfs_sb_info \<Rightarrow> addr option \<times> toyfs_sb_info" where
  "toyfs_acquire_pmemb s =
    (if f_bfree (s_statvfs s) = 0 then (None, s)
     else if f_bavail (s_statvfs s) = 0 then (None, s)
     else case pool_pop_pmemb (s_pool s) of
       (None, pool) \<Rightarrow> (None, s\<lparr>s_pool := pool\<rparr>)
     | (Some pmemb, pool) \<Rightarrow>
        (Some pmemb,
         upd_dat pmemb 0 PAGE_SIZE (\<lambda>_. 0)
           (s\<lparr>s_pool := pool,
              s_statvfs := (s_statvfs s)\<lparr>f_bfree := f_bfree (s_statvfs s) - 1,
                                         f_bavail := f_bavail (s_statvfs s) - 1\<rparr>\<rparr>)))"

definition toyfs_release_pmemb :: "addr \<Rightarrow> toyfs_sb_info \<Rightarrow> toyfs_sb_info" where
  "toyfs_release_pmemb pmemb s =
    s\<lparr>s_pool := pool_push_pmemb pmemb (s_pool s),
      s_statvfs := (s_statvfs s)\<lparr>f_bfree := f_bfree (s_statvfs s) + 1,
                                 f_bavail := f_bavail (s_statvfs s) + 1\<rparr>\<rparr>"

definition toyfs_acquire_dblkref :: "toyfs_sb_info \<Rightarrow> addr option \<times> toyfs_sb_info" where
  "toyfs_acquire_dblkref s =
    (case pool_pop_dblkref (s_pool s) of
       (None, pool) \<Rightarrow> (None, s\<lparr>s_pool := pool\<rparr>)
     | (Some d, pool) \<Rightarrow>
        (Some d, upd_dblkref d (\<lambda>r. r\<lparr>db_refcnt := 0, db_bn := 0\<rparr>) (s\<lparr>s_pool := pool\<rparr>)))"

definition toyfs_release_dblkref :: "addr \<Rightarrow> toyfs_sb_info \<Rightarrow> toyfs_sb_info" where
  "toyfs_release_dblkref d s =
    (let s1 = upd_dblkref d (\<lambda>r. r\<lparr>db_bn := 0\<rparr>) s
     in s1\<lparr>s_pool := pool_push_dblkref d (s_pool s1)\<rparr>)"

definition toyfs_acquire_iblkref :: "toyfs_sb_info \<Rightarrow> addr option \<times> toyfs_sb_info" where
  "toyfs_acquire_iblkref s =
    (case pool_pop_iblkref (s_pool s) of
       (None, pool) \<Rightarrow> (None, s\<lparr>s_pool := pool\<rparr>)
     | (Some ib, pool) \<Rightarrow>
        (Some ib, upd_iblkref ib (\<lambda>r. r\<lparr>ib_off := -1, ib_dblkref := None\<rparr>) (s\<lparr>s_pool := pool\<rparr>)))"

definition toyfs_release_iblkref :: "addr \<Rightarrow> toyfs_sb_info \<Rightarrow> toyfs_sb_info" where
  "toyfs_release_iblkref ib s =
    (let s1 = upd_iblkref ib (\<lambda>r. r\<lparr>ib_dblkref := None, ib_off := -1\<rparr>) s
     in s1\<lparr>s_pool := pool_push_iblkref ib (s_pool s1)\<rparr>)"

definition sbi_setup :: "toyfs_sb_info \<Rightarrow> toyfs_sb_info" where
  "sbi_setup s =
    (let fssize = pool_msz (s_pool s);
         fssize_blocks = fssize div PAGE_SIZE
     in s\<lparr>s_top_ino := 1 + 1,
          s_statvfs := (s_statvfs s)\<lparr>f_bsize := PAGE_SIZE, f_frsize := PAGE_SIZE,
            f_blocks := fssize div PAGE_SIZE, f_bfree := fssize_blocks, f_bavail := fssize_blocks,
            f_files := fssize_blocks, f_ffree := fssize_blocks, f_favail := fssize_blocks,
            f_namemax := zufs_name_len (s_md s)\<rparr>\<rparr>)"

record statfs64 =
  sf_bsize :: nat
  sf_blocks :: nat
  sf_bfree :: nat
  sf_bavail :: nat
  sf_files :: nat
  sf_ffree :: nat
  sf_namelen :: nat
  sf_frsize :: nat
  sf_flags :: nat

definition toyfs_statfs :: "toyfs_sb_info \<Rightarrow> statfs64 \<Rightarrow> unit result \<times> statfs64" where
  "toyfs_statfs s out =
    (let stvfs = s_statvfs s in
     (Inr (), out\<lparr>sf_bsize := f_bsize stvfs, sf_blocks := f_blocks stvfs, sf_bfree := f_bfree stvfs,
        sf_bavail := f_bavail stvfs, sf_files := f_files stvfs, sf_ffree := f_ffree stvfs,
        sf_namelen := f_namemax stvfs, sf_frsize := f_frsize stvfs, sf_flags := f_flag stvfs\<rparr>))"

lemmas pool_defs = pool_pop_pmemb_def pool_push_pmemb_def pool_add_free_inodes_def
  pool_pop_free_inode_def pool_pop_inode_def pool_add_free_dblkrefs_def pool_pop_free_dblkref_def
  pool_pop_dblkref_def pool_push_dblkref_def pool_add_free_iblkrefs_def pool_pop_free_iblkref_def
  pool_pop_iblkref_def pool_push_iblkref_def pool_push_inode_def

section \<open>The pool invariant\<close>

datatype role = FreeR | DataR | DblkR | IblkR | InoR

definition cells :: "addr \<Rightarrow> nat \<Rightarrow> addr set" where
  "cells m n = (\<lambda>c. m + PAGE_SIZE * c) ` {..<n}"

definition slots :: "nat \<Rightarrow> nat \<Rightarrow> addr \<Rightarrow> addr set" where
  "slots sz k p = (\<lambda>i. p + sz * i) ` {..<k}"

text \<open>\<open>carved sz k C fl U\<close>: the objects of the pages \<open>C\<close> are split into the free list \<open>fl\<close> and the objects
  \<open>U\<close> in use.\<close>

definition carved :: "nat \<Rightarrow> nat \<Rightarrow> addr set \<Rightarrow> addr list \<Rightarrow> addr set \<Rightarrow> bool" where
  "carved sz k C fl U = (distinct fl \<and> set fl \<inter> U = {} \<and> set fl \<union> U = (\<Union>p\<in>C. slots sz k p))"

definition having :: "addr set \<Rightarrow> (addr \<Rightarrow> role) \<Rightarrow> role \<Rightarrow> addr set" where
  "having cs r R = {p \<in> cs. r p = R}"

definition role_inv :: "(addr \<Rightarrow> role) \<Rightarrow> addr set \<Rightarrow> addr set \<Rightarrow> addr set \<Rightarrow> addr set \<Rightarrow> toyfs_sb_info \<Rightarrow> bool" where
  "role_inv r D B I N s =
    (let P = s_pool s; V = s_statvfs s; cs = cells (pool_mem P) (f_blocks V) in
     md_ok (s_md s) (pool_mem P) (f_blocks V) \<and>
     distinct (pool_pages P) \<and> having cs r FreeR = set (pool_pages P) \<and>
     having cs r DataR = D \<and>
     carved 32 128 (having cs r DblkR) (free_dblkrefs P) B \<and>
     carved 32 128 (having cs r IblkR) (free_iblkrefs P) I \<and>
     carved 128 32 (having cs r InoR) (free_inodes P) N \<and>
     f_bavail V = f_bfree V \<and> f_bfree V + card D = f_blocks V)"

text \<open>\<open>D\<close>, \<open>B\<close>, \<open>I\<close> and \<open>N\<close> are the data pages, data-block references, inode-block references and
  inodes that have been handed out.\<close>

definition pool_inv :: "addr set \<Rightarrow> addr set \<Rightarrow> addr set \<Rightarrow> addr set \<Rightarrow> toyfs_sb_info \<Rightarrow> bool" where
  "pool_inv D B I N s = (\<exists>r. role_inv r D B I N s)"

lemma carved_pop:
  "carved sz k C (x # xs) U \<Longrightarrow> x \<notin> U \<and> carved sz k C xs (insert x U)"
  by (auto simp: carved_def)

lemma carved_push:
  "carved sz k C fl U \<Longrightarrow> x \<in> U \<Longrightarrow> carved sz k C (fl @ [x]) (U - {x})"
  by (auto simp: carved_def)

lemma slots_disjoint:
  assumes "p \<in> cells m n" "q \<in> cells m n" "p \<noteq> q" "sz * k \<le> PAGE_SIZE" "0 < sz"
  shows "slots sz k p \<inter> slots sz k q = {}"
proof (rule ccontr)
  assume "slots sz k p \<inter> slots sz k q \<noteq> {}"
  then obtain i j where ij: "i < k" "j < k" "p + sz * i = q + sz * j" by (auto simp: slots_def)
  obtain c d where cd: "p = m + PAGE_SIZE * c" "q = m + PAGE_SIZE * d"
    using assms(1,2) by (auto simp: cells_def)
  have lt: "sz * i < PAGE_SIZE" "sz * j < PAGE_SIZE"
    using ij assms(4,5) by (metis mult_less_mono2 less_le_trans)+
  have eq: "PAGE_SIZE * c + sz * i = PAGE_SIZE * d + sz * j" using ij cd by simp
  have "(PAGE_SIZE * c + sz * i) div PAGE_SIZE = c" "(PAGE_SIZE * d + sz * j) div PAGE_SIZE = d"
    using lt by simp_all
  then show False using eq cd assms(3) by simp
qed

lemma carved_refill:
  assumes c: "carved sz k C [] U" and p: "p \<in> cells m n" "p \<notin> C" and C: "C \<subseteq> cells m n"
    and sz: "sz * k \<le> PAGE_SIZE" "0 < sz"
  shows "carved sz k (insert p C) (map (\<lambda>i. p + sz * i) [0..<k]) U"
proof -
  have sl: "set (map (\<lambda>i. p + sz * i) [0..<k]) = slots sz k p" by (auto simp: slots_def)
  have "slots sz k p \<inter> (\<Union>q\<in>C. slots sz k q) = {}"
    using slots_disjoint [OF p(1) _ _ sz] C p(2) by blast
  moreover have "distinct (map (\<lambda>i. p + sz * i) [0..<k])"
    using sz(2) by (simp add: distinct_map inj_on_def)
  moreover have "U = (\<Union>q\<in>C. slots sz k q)" using c by (simp add: carved_def)
  ultimately show ?thesis unfolding carved_def sl by auto
qed

lemma fold_free_dblkrefs:
  "fold (\<lambda>i q. q\<lparr>free_dblkrefs := free_dblkrefs q @ [f i]\<rparr>) xs q
   = q\<lparr>free_dblkrefs := free_dblkrefs q @ map f xs\<rparr>"
  by (induction xs arbitrary: q) simp_all

lemma fold_free_iblkrefs:
  "fold (\<lambda>i q. q\<lparr>free_iblkrefs := free_iblkrefs q @ [f i]\<rparr>) xs q
   = q\<lparr>free_iblkrefs := free_iblkrefs q @ map f xs\<rparr>"
  by (induction xs arbitrary: q) simp_all

lemma fold_free_inodes:
  "fold (\<lambda>i q. q\<lparr>free_inodes := free_inodes q @ [f i]\<rparr>) xs q
   = q\<lparr>free_inodes := free_inodes q @ map f xs\<rparr>"
  by (induction xs arbitrary: q) simp_all

lemmas fold_free = fold_free_dblkrefs fold_free_iblkrefs fold_free_inodes

lemma upt_nonempty_Cons: "0 < k \<Longrightarrow> map f [0..<k] = f 0 # map f [1..<k]"
  by (simp add: upt_conv_Cons)

lemma having_upd:
  assumes "p \<in> having cs r T" and "R \<noteq> T"
  shows "having cs (r(p := R)) S =
    (if S = R then insert p (having cs r R) else if S = T then having cs r T - {p} else having cs r S)"
  using assms by (auto simp: having_def)

lemma having_finite: "finite (having (cells m n) r R)"
  by (simp add: having_def cells_def)

lemma having_disjoint: "p \<in> having cs r T \<Longrightarrow> S \<noteq> T \<Longrightarrow> p \<notin> having cs r S"
  by (simp add: having_def)

lemma having_subset: "having cs r R \<subseteq> cs"
  by (auto simp: having_def)

lemma acquire_pmemb_Some:
  assumes inv: "pool_inv D B I N s" and a: "toyfs_acquire_pmemb s = (Some p, s')"
  shows "p \<notin> D \<and> pool_inv (insert p D) B I N s'"
proof -
  from inv obtain r where r: "role_inv r D B I N s" by (auto simp: pool_inv_def)
  from a obtain ps where ps: "pool_pages (s_pool s) = p # ps"
    and s': "s' = upd_dat p 0 PAGE_SIZE (\<lambda>_. 0)
           (s\<lparr>s_pool := (s_pool s)\<lparr>pool_pages := ps\<rparr>,
              s_statvfs := (s_statvfs s)\<lparr>f_bfree := f_bfree (s_statvfs s) - 1,
                                         f_bavail := f_bavail (s_statvfs s) - 1\<rparr>\<rparr>)"
    and pos: "0 < f_bfree (s_statvfs s)" "0 < f_bavail (s_statvfs s)"
    by (auto simp: toyfs_acquire_pmemb_def pool_pop_pmemb_def split: if_splits list.splits)
  let ?cs = "cells (pool_mem (s_pool s)) (f_blocks (s_statvfs s))"
  have D: "having ?cs r DataR = D" and F: "having ?cs r FreeR = set (p # ps)" "distinct (p # ps)"
    using r ps by (simp_all add: role_inv_def Let_def)
  have p: "p \<in> having ?cs r FreeR" using F by simp
  have pD: "p \<notin> D" using having_disjoint [OF p, of DataR] D by simp
  have fin: "finite D" using having_finite D by metis
  have "role_inv (r(p := DataR)) (insert p D) B I N s'"
    using r pos pD fin F(2) unfolding role_inv_def Let_def s'
    by (simp add: having_upd [OF p] ps)
  with pD show ?thesis by (auto simp: pool_inv_def)
qed

lemma acquire_pmemb_None:
  "pool_inv D B I N s \<Longrightarrow> toyfs_acquire_pmemb s = (None, s') \<Longrightarrow> s' = s"
  by (auto simp: toyfs_acquire_pmemb_def pool_pop_pmemb_def split: if_splits list.splits)

lemma release_pmemb_inv:
  assumes inv: "pool_inv D B I N s" and p: "p \<in> D"
  shows "pool_inv (D - {p}) B I N (toyfs_release_pmemb p s)"
proof -
  from inv obtain r where r: "role_inv r D B I N s" by (auto simp: pool_inv_def)
  let ?cs = "cells (pool_mem (s_pool s)) (f_blocks (s_statvfs s))"
  have D: "having ?cs r DataR = D" and F: "having ?cs r FreeR = set (pool_pages (s_pool s))"
    using r by (simp_all add: role_inv_def Let_def)
  have p': "p \<in> having ?cs r DataR" using p D by simp
  have "finite D" using having_finite D by metis
  then have card: "card D = Suc (card (D - {p}))" using p by (metis card_Suc_Diff1)
  have "p \<notin> set (pool_pages (s_pool s))" using having_disjoint [OF p', of FreeR] F by simp
  then have "role_inv (r(p := FreeR)) (D - {p}) B I N (toyfs_release_pmemb p s)"
    using r card unfolding role_inv_def Let_def toyfs_release_pmemb_def pool_push_pmemb_def
    by (simp add: having_upd [OF p'])
  then show ?thesis by (auto simp: pool_inv_def)
qed

text \<open>
  The three carved free lists share one argument: an object comes from the free list, or else
  from a fresh page.
\<close>

lemma role_inv_refill:
  assumes r: "role_inv r D B I N s" and ps: "pool_pages (s_pool s) = p # ps"
    and cs: "cs = cells (pool_mem (s_pool s)) (f_blocks (s_statvfs s))" and R: "R \<noteq> FreeR" "R \<noteq> DataR"
  shows "p \<in> having cs r FreeR" "p \<in> cs" "p \<notin> having cs r R" "having cs r R \<subseteq> cs" "distinct ps"
    "having cs (r(p := R)) FreeR = set ps" "having cs (r(p := R)) DataR = D"
    "having cs (r(p := R)) R = insert p (having cs r R)"
    "\<And>S. S \<noteq> FreeR \<Longrightarrow> S \<noteq> R \<Longrightarrow> having cs (r(p := R)) S = having cs r S"
proof -
  have F: "having cs r FreeR = set (p # ps)" "distinct (p # ps)" "having cs r DataR = D"
    using r ps cs by (simp_all add: role_inv_def Let_def)
  then show p: "p \<in> having cs r FreeR" and "distinct ps" by simp_all
  then show "p \<in> cs" by (simp add: having_def)
  show "p \<notin> having cs r R" using having_disjoint [OF p, of R] R by simp
  show "having cs r R \<subseteq> cs" by (rule having_subset)
  show "having cs (r(p := R)) FreeR = set ps" "having cs (r(p := R)) DataR = D"
    "having cs (r(p := R)) R = insert p (having cs r R)"
    "\<And>S. S \<noteq> FreeR \<Longrightarrow> S \<noteq> R \<Longrightarrow> having cs (r(p := R)) S = having cs r S"
    using F R having_upd [OF p] by auto
qed

lemma carved_take:
  assumes "carved sz k C [] U" "p \<in> cells m n" "p \<notin> C" "C \<subseteq> cells m n" "sz * k \<le> PAGE_SIZE"
    "0 < sz" "0 < k"
  shows "p \<notin> U \<and> carved sz k (insert p C) (map (\<lambda>i. p + sz * i) [1..<k]) (insert p U)"
  using carved_pop [of sz k "insert p C" p "map (\<lambda>i. p + sz * i) [1..<k]" U]
    carved_refill [OF assms(1-6)] assms(7) by (simp add: upt_nonempty_Cons)

lemma pop_dblkref_cases:
  "pool_pop_dblkref P = (Some d, P') \<Longrightarrow>
   (\<exists>xs. free_dblkrefs P = d # xs \<and> P' = P\<lparr>free_dblkrefs := xs\<rparr>) \<or>
   (\<exists>ps. free_dblkrefs P = [] \<and> pool_pages P = d # ps \<and>
      P' = P\<lparr>pool_pages := ps, free_dblkrefs := map (\<lambda>i. d + 32 * i) [1..<128]\<rparr>)"
  by (cases "free_dblkrefs P"; cases "pool_pages P")
     (auto simp: pool_defs fold_free toyfs_dblkrefs_per_page_def upt_nonempty_Cons
           simp del: upt_Suc upt_conv_Cons_Cons)

lemma pop_dblkref_None:
  "pool_pop_dblkref P = (None, P') \<Longrightarrow> P' = P \<and> free_dblkrefs P = [] \<and> pool_pages P = []"
  by (cases "free_dblkrefs P"; cases "pool_pages P")
     (auto simp: pool_defs fold_free toyfs_dblkrefs_per_page_def upt_nonempty_Cons
           simp del: upt_Suc upt_conv_Cons_Cons)

lemma pop_iblkref_cases:
  "pool_pop_iblkref P = (Some b, P') \<Longrightarrow>
   (\<exists>xs. free_iblkrefs P = b # xs \<and> P' = P\<lparr>free_iblkrefs := xs\<rparr>) \<or>
   (\<exists>ps. free_iblkrefs P = [] \<and> pool_pages P = b # ps \<and>
      P' = P\<lparr>pool_pages := ps, free_iblkrefs := map (\<lambda>i. b + 32 * i) [1..<128]\<rparr>)"
  by (cases "free_iblkrefs P"; cases "pool_pages P")
     (auto simp: pool_defs fold_free toyfs_iblkrefs_per_page_def upt_nonempty_Cons
           simp del: upt_Suc upt_conv_Cons_Cons)

lemma pop_iblkref_None:
  "pool_pop_iblkref P = (None, P') \<Longrightarrow> P' = P \<and> free_iblkrefs P = [] \<and> pool_pages P = []"
  by (cases "free_iblkrefs P"; cases "pool_pages P")
     (auto simp: pool_defs fold_free toyfs_iblkrefs_per_page_def upt_nonempty_Cons
           simp del: upt_Suc upt_conv_Cons_Cons)

lemma pop_inode_cases:
  "pool_pop_inode P = (Some t, P') \<Longrightarrow>
   (\<exists>xs. free_inodes P = t # xs \<and> P' = P\<lparr>free_inodes := xs\<rparr>) \<or>
   (\<exists>ps. free_inodes P = [] \<and> pool_pages P = t # ps \<and>
      P' = P\<lparr>pool_pages := ps, free_inodes := map (\<lambda>i. t + 128 * i) [1..<32]\<rparr>)"
  by (cases "free_inodes P"; cases "pool_pages P")
     (auto simp: pool_defs fold_free toyfs_inodes_per_page_def upt_nonempty_Cons
           simp del: upt_Suc upt_conv_Cons_Cons)

lemma pop_inode_None:
  "pool_pop_inode P = (None, P') \<Longrightarrow> P' = P \<and> free_inodes P = [] \<and> pool_pages P = []"
  by (cases "free_inodes P"; cases "pool_pages P")
     (auto simp: pool_defs fold_free toyfs_inodes_per_page_def upt_nonempty_Cons
           simp del: upt_Suc upt_conv_Cons_Cons)

lemma pop_dblkref_inv:
  assumes inv: "pool_inv D B I N s" and a: "pool_pop_dblkref (s_pool s) = (Some d, P')"
  shows "d \<notin> B \<and> pool_inv D (insert d B) I N (s\<lparr>s_pool := P'\<rparr>)"
proof -
  from inv obtain r where r: "role_inv r D B I N s" by (auto simp: pool_inv_def)
  let ?cs = "cells (pool_mem (s_pool s)) (f_blocks (s_statvfs s))"
  have c: "carved 32 128 (having ?cs r DblkR) (free_dblkrefs (s_pool s)) B"
    using r by (simp add: role_inv_def Let_def)
  from pop_dblkref_cases [OF a] show ?thesis
  proof (elim disjE exE conjE)
    fix xs assume f: "free_dblkrefs (s_pool s) = d # xs" "P' = (s_pool s)\<lparr>free_dblkrefs := xs\<rparr>"
    note x = carved_pop [OF c [unfolded f(1)]]
    then have "role_inv r D (insert d B) I N (s\<lparr>s_pool := P'\<rparr>)"
      using r unfolding role_inv_def Let_def f by simp
    with x show ?thesis by (auto simp: pool_inv_def)
  next
    fix ps assume f: "free_dblkrefs (s_pool s) = []" "pool_pages (s_pool s) = d # ps"
      "P' = (s_pool s)\<lparr>pool_pages := ps, free_dblkrefs := map (\<lambda>i. d + 32 * i) [1..<128]\<rparr>"
    note q = role_inv_refill [OF r f(2) refl, of DblkR, simplified]
    have x: "d \<notin> B \<and> carved 32 128 (insert d (having ?cs r DblkR))
        (map (\<lambda>i. d + 32 * i) [1..<128]) (insert d B)"
      using c f(1) q by (intro carved_take) auto
    then have "role_inv (r(d := DblkR)) D (insert d B) I N (s\<lparr>s_pool := P'\<rparr>)"
      using r unfolding role_inv_def Let_def f(3)
      by (simp add: q del: upt_Suc fun_upd_apply)
    with x show ?thesis by (auto simp: pool_inv_def)
  qed
qed

lemma pop_iblkref_inv:
  assumes inv: "pool_inv D B I N s" and a: "pool_pop_iblkref (s_pool s) = (Some b, P')"
  shows "b \<notin> I \<and> pool_inv D B (insert b I) N (s\<lparr>s_pool := P'\<rparr>)"
proof -
  from inv obtain r where r: "role_inv r D B I N s" by (auto simp: pool_inv_def)
  let ?cs = "cells (pool_mem (s_pool s)) (f_blocks (s_statvfs s))"
  have c: "carved 32 128 (having ?cs r IblkR) (free_iblkrefs (s_pool s)) I"
    using r by (simp add: role_inv_def Let_def)
  from pop_iblkref_cases [OF a] show ?thesis
  proof (elim disjE exE conjE)
    fix xs assume f: "free_iblkrefs (s_pool s) = b # xs" "P' = (s_pool s)\<lparr>free_iblkrefs := xs\<rparr>"
    note x = carved_pop [OF c [unfolded f(1)]]
    then have "role_inv r D B (insert b I) N (s\<lparr>s_pool := P'\<rparr>)"
      using r unfolding role_inv_def Let_def f by simp
    with x show ?thesis by (auto simp: pool_inv_def)
  next
    fix ps assume f: "free_iblkrefs (s_pool s) = []" "pool_pages (s_pool s) = b # ps"
      "P' = (s_pool s)\<lparr>pool_pages := ps, free_iblkrefs := map (\<lambda>i. b + 32 * i) [1..<128]\<rparr>"
    note q = role_inv_refill [OF r f(2) refl, of IblkR, simplified]
    have x: "b \<notin> I \<and> carved 32 128 (insert b (having ?cs r IblkR))
        (map (\<lambda>i. b + 32 * i) [1..<128]) (insert b I)"
      using c f(1) q by (intro carved_take) auto
    then have "role_inv (r(b := IblkR)) D B (insert b I) N (s\<lparr>s_pool := P'\<rparr>)"
      using r unfolding role_inv_def Let_def f(3)
      by (simp add: q del: upt_Suc fun_upd_apply)
    with x show ?thesis by (auto simp: pool_inv_def)
  qed
qed

lemma pop_inode_inv:
  assumes inv: "pool_inv D B I N s" and a: "pool_pop_inode (s_pool s) = (Some t, P')"
  shows "t \<notin> N \<and> pool_inv D B I (insert t N) (s\<lparr>s_pool := P'\<rparr>)"
proof -
  from inv obtain r where r: "role_inv r D B I N s" by (auto simp: pool_inv_def)
  let ?cs = "cells (pool_mem (s_pool s)) (f_blocks (s_statvfs s))"
  have c: "carved 128 32 (having ?cs r InoR) (free_inodes (s_pool s)) N"
    using r by (simp add: role_inv_def Let_def)
  from pop_inode_cases [OF a] show ?thesis
  proof (elim disjE exE conjE)
    fix xs assume f: "free_inodes (s_pool s) = t # xs" "P' = (s_pool s)\<lparr>free_inodes := xs\<rparr>"
    note x = carved_pop [OF c [unfolded f(1)]]
    then have "role_inv r D B I (insert t N) (s\<lparr>s_pool := P'\<rparr>)"
      using r unfolding role_inv_def Let_def f by simp
    with x show ?thesis by (auto simp: pool_inv_def)
  next
    fix ps assume f: "free_inodes (s_pool s) = []" "pool_pages (s_pool s) = t # ps"
      "P' = (s_pool s)\<lparr>pool_pages := ps, free_inodes := map (\<lambda>i. t + 128 * i) [1..<32]\<rparr>"
    note q = role_inv_refill [OF r f(2) refl, of InoR, simplified]
    have x: "t \<notin> N \<and> carved 128 32 (insert t (having ?cs r InoR))
        (map (\<lambda>i. t + 128 * i) [1..<32]) (insert t N)"
      using c f(1) q by (intro carved_take) auto
    then have "role_inv (r(t := InoR)) D B I (insert t N) (s\<lparr>s_pool := P'\<rparr>)"
      using r unfolding role_inv_def Let_def f(3)
      by (simp add: q del: upt_Suc fun_upd_apply)
    with x show ?thesis by (auto simp: pool_inv_def)
  qed
qed

lemma pool_inv_cong:
  "\<lbrakk>s_md s' = s_md s; s_pool s' = s_pool s; s_statvfs s' = s_statvfs s\<rbrakk> \<Longrightarrow>
   pool_inv D B I N s' = pool_inv D B I N s"
  by (simp add: pool_inv_def role_inv_def)

lemma pool_inv_upd [simp]:
  "pool_inv D B I N (upd_inode t f s) = pool_inv D B I N s"
  "pool_inv D B I N (upd_dblkref d g s) = pool_inv D B I N s"
  "pool_inv D B I N (upd_iblkref ib k s) = pool_inv D B I N s"
  "pool_inv D B I N (upd_dat p off len src s) = pool_inv D B I N s"
  by (rule pool_inv_cong; simp)+

lemma acquire_dblkref_Some:
  "pool_inv D B I N s \<Longrightarrow> toyfs_acquire_dblkref s = (Some d, s') \<Longrightarrow>
   d \<notin> B \<and> pool_inv D (insert d B) I N s'"
  by (auto simp: toyfs_acquire_dblkref_def split: prod.splits option.splits dest: pop_dblkref_inv)

lemma acquire_iblkref_Some:
  "pool_inv D B I N s \<Longrightarrow> toyfs_acquire_iblkref s = (Some b, s') \<Longrightarrow>
   b \<notin> I \<and> pool_inv D B (insert b I) N s'"
  by (auto simp: toyfs_acquire_iblkref_def split: prod.splits option.splits dest: pop_iblkref_inv)

lemma acquire_inode_Some:
  "pool_inv D B I N s \<Longrightarrow> toyfs_acquire_inode s = (Some t, s') \<Longrightarrow>
   t \<notin> N \<and> pool_inv D B I (insert t N) s'"
  by (auto simp: toyfs_acquire_inode_def split: prod.splits option.splits dest: pop_inode_inv)

lemma acquire_dblkref_None: "toyfs_acquire_dblkref s = (None, s') \<Longrightarrow> s' = s"
  by (auto simp: toyfs_acquire_dblkref_def split: prod.splits option.splits dest: pop_dblkref_None)

lemma acquire_iblkref_None: "toyfs_acquire_iblkref s = (None, s') \<Longrightarrow> s' = s"
  by (auto simp: toyfs_acquire_iblkref_def split: prod.splits option.splits dest: pop_iblkref_None)

lemma acquire_inode_None: "toyfs_acquire_inode s = (None, s') \<Longrightarrow> s' = s"
  by (auto simp: toyfs_acquire_inode_def split: prod.splits option.splits dest: pop_inode_None)

lemma release_dblkref_inv:
  assumes inv: "pool_inv D B I N s" and x: "x \<in> B"
  shows "pool_inv D (B - {x}) I N (toyfs_release_dblkref x s)"
proof -
  from inv obtain r where r: "role_inv r D B I N s" by (auto simp: pool_inv_def)
  let ?cs = "cells (pool_mem (s_pool s)) (f_blocks (s_statvfs s))"
  have "carved 32 128 (having ?cs r DblkR) (free_dblkrefs (s_pool s)) B"
    using r by (simp add: role_inv_def Let_def)
  from carved_push [OF this x] have "role_inv r D (B - {x}) I N (toyfs_release_dblkref x s)"
    using r unfolding role_inv_def Let_def by (simp add: toyfs_release_dblkref_def pool_push_dblkref_def Let_def)
  then show ?thesis by (auto simp: pool_inv_def)
qed

lemma release_iblkref_inv:
  assumes inv: "pool_inv D B I N s" and x: "x \<in> I"
  shows "pool_inv D B (I - {x}) N (toyfs_release_iblkref x s)"
proof -
  from inv obtain r where r: "role_inv r D B I N s" by (auto simp: pool_inv_def)
  let ?cs = "cells (pool_mem (s_pool s)) (f_blocks (s_statvfs s))"
  have "carved 32 128 (having ?cs r IblkR) (free_iblkrefs (s_pool s)) I"
    using r by (simp add: role_inv_def Let_def)
  from carved_push [OF this x] have "role_inv r D B (I - {x}) N (toyfs_release_iblkref x s)"
    using r unfolding role_inv_def Let_def by (simp add: toyfs_release_iblkref_def pool_push_iblkref_def Let_def)
  then show ?thesis by (auto simp: pool_inv_def)
qed

lemma release_inode_inv:
  assumes inv: "pool_inv D B I N s" and x: "x \<in> N"
  shows "pool_inv D B I (N - {x}) (toyfs_release_inode x s)"
proof -
  from inv obtain r where r: "role_inv r D B I N s" by (auto simp: pool_inv_def)
  let ?cs = "cells (pool_mem (s_pool s)) (f_blocks (s_statvfs s))"
  have "carved 128 32 (having ?cs r InoR) (free_inodes (s_pool s)) N"
    using r by (simp add: role_inv_def Let_def)
  from carved_push [OF this x] have "role_inv r D B I (N - {x}) (toyfs_release_inode x s)"
    using r unfolding role_inv_def Let_def by (simp add: toyfs_release_inode_def pool_push_inode_def Let_def)
  then show ?thesis by (auto simp: pool_inv_def)
qed

section \<open>The interface to the clients of the pool\<close>

text \<open>\<open>acquire_many n acquire s\<close> calls \<open>acquire\<close> up to \<open>n\<close> times, until it fails.\<close>

fun acquire_many :: "nat \<Rightarrow> ('s \<Rightarrow> addr option \<times> 's) \<Rightarrow> 's \<Rightarrow> addr list \<times> 's" where
  "acquire_many 0 acq s = ([], s)"
| "acquire_many (Suc n) acq s =
    (case acq s of (None, s') \<Rightarrow> ([], s')
     | (Some x, s') \<Rightarrow> (let (xs, s'') = acquire_many n acq s' in (x # xs, s'')))"

locale object_source =
  fixes acquire :: "'s \<Rightarrow> addr option \<times> 's"
    and release :: "addr \<Rightarrow> 's \<Rightarrow> 's"
    and inv :: "addr set \<Rightarrow> 's \<Rightarrow> bool"
  assumes acquire_law: "\<lbrakk>inv U s; acquire s = (Some x, s')\<rbrakk> \<Longrightarrow> x \<notin> U \<and> inv (insert x U) s'"
    and fail_law: "\<lbrakk>inv U s; acquire s = (None, s')\<rbrakk> \<Longrightarrow> s' = s"
    and release_law: "\<lbrakk>inv U s; x \<in> U\<rbrakk> \<Longrightarrow> inv (U - {x}) (release x s)"
begin

lemma acquire_release:
  "\<lbrakk>inv U s; acquire s = (Some x, s')\<rbrakk> \<Longrightarrow> inv U (release x s')"
  using acquire_law [of U s x s'] release_law [of "insert x U" s' x] by simp

lemma acquire_many_fresh:
  "\<lbrakk>inv U s; acquire_many n acquire s = (xs, s')\<rbrakk> \<Longrightarrow>
   distinct xs \<and> set xs \<inter> U = {} \<and> inv (U \<union> set xs) s'"
proof (induction n arbitrary: U s xs s')
  case (Suc n)
  show ?case
  proof (cases "acquire s")
    case (Pair a s1)
    show ?thesis
    proof (cases a)
      case None
      then show ?thesis using Suc.prems Pair fail_law [of U s s1] by simp
    next
      case (Some x)
      from acquire_law [of U s x s1] Suc.prems Pair Some
      have x: "x \<notin> U" "inv (insert x U) s1" by simp_all
      obtain ys where ys: "acquire_many n acquire s1 = (ys, s')" "xs = x # ys"
        using Suc.prems Pair Some by (auto split: prod.splits)
      from Suc.IH [OF x(2) ys(1)] show ?thesis using x ys(2) by auto
    qed
  qed
qed simp

lemma release_all:
  "\<lbrakk>inv U s; distinct xs; set xs \<subseteq> U\<rbrakk> \<Longrightarrow> inv (U - set xs) (fold release xs s)"
proof (induction xs arbitrary: U s)
  case (Cons x xs)
  have "inv (U - {x}) (release x s)" using Cons.prems by (intro release_law) auto
  moreover have "set xs \<subseteq> U - {x}" using Cons.prems by auto
  ultimately have "inv (U - {x} - set xs) (fold release xs (release x s))"
    using Cons.prems(2) by (intro Cons.IH) auto
  moreover have "U - {x} - set xs = U - set (x # xs)" by auto
  ultimately show ?case by simp
qed simp

end

interpretation page_src: object_source toyfs_acquire_pmemb toyfs_release_pmemb
    "\<lambda>D s. pool_inv D B I N s" for B I N
  by unfold_locales
    (use acquire_pmemb_Some acquire_pmemb_None release_pmemb_inv in blast)+

interpretation dblk_src: object_source toyfs_acquire_dblkref toyfs_release_dblkref
    "\<lambda>B s. pool_inv D B I N s" for D I N
  by unfold_locales
    (use acquire_dblkref_Some acquire_dblkref_None release_dblkref_inv in blast)+

interpretation iblk_src: object_source toyfs_acquire_iblkref toyfs_release_iblkref
    "\<lambda>I s. pool_inv D B I N s" for D B N
  by unfold_locales
    (use acquire_iblkref_Some acquire_iblkref_None release_iblkref_inv in blast)+

interpretation inode_src: object_source toyfs_acquire_inode toyfs_release_inode
    "\<lambda>N s. pool_inv D B I N s" for D B I
  by unfold_locales
    (use acquire_inode_Some acquire_inode_None release_inode_inv in blast)+

section \<open>Frames\<close>

lemma acquire_pmemb_frame:
  "toyfs_acquire_pmemb s = (r, s') \<Longrightarrow>
   s_md s' = s_md s \<and> h_inode s' = h_inode s \<and> h_dblkref s' = h_dblkref s \<and>
   h_iblkref s' = h_iblkref s \<and> h_tii s' = h_tii s \<and> s_itable s' = s_itable s \<and>
   (\<forall>q i. h_dat s' q i = (if r = Some q \<and> i < PAGE_SIZE then 0 else h_dat s q i))"
  by (auto simp: toyfs_acquire_pmemb_def h_dat_upd_dat split: if_splits prod.splits option.splits)

lemma acquire_dblkref_frame:
  "toyfs_acquire_dblkref s = (r, s') \<Longrightarrow>
   s_md s' = s_md s \<and> h_inode s' = h_inode s \<and> h_dat s' = h_dat s \<and>
   h_iblkref s' = h_iblkref s \<and> h_tii s' = h_tii s \<and> s_itable s' = s_itable s \<and>
   s_statvfs s' = s_statvfs s \<and>
   (\<forall>d. r \<noteq> Some d \<longrightarrow> h_dblkref s' d = h_dblkref s d)"
  by (auto simp: toyfs_acquire_dblkref_def split: if_splits prod.splits option.splits)

lemma acquire_iblkref_frame:
  "toyfs_acquire_iblkref s = (r, s') \<Longrightarrow>
   s_md s' = s_md s \<and> h_inode s' = h_inode s \<and> h_dat s' = h_dat s \<and>
   h_dblkref s' = h_dblkref s \<and> h_tii s' = h_tii s \<and> s_itable s' = s_itable s \<and>
   s_statvfs s' = s_statvfs s \<and>
   (\<forall>b. r \<noteq> Some b \<longrightarrow> h_iblkref s' b = h_iblkref s b)"
  by (auto simp: toyfs_acquire_iblkref_def split: if_splits prod.splits option.splits)

lemma acquire_inode_frame:
  "toyfs_acquire_inode s = (r, s') \<Longrightarrow>
   s_md s' = s_md s \<and> h_inode s' = h_inode s \<and> h_dat s' = h_dat s \<and>
   h_dblkref s' = h_dblkref s \<and> h_iblkref s' = h_iblkref s \<and> h_tii s' = h_tii s \<and>
   s_itable s' = s_itable s \<and> s_statvfs s' = s_statvfs s"
  by (auto simp: toyfs_acquire_inode_def split: prod.splits)

lemma release_pmemb_frame [simp]:
  "s_md (toyfs_release_pmemb p s) = s_md s" "h_inode (toyfs_release_pmemb p s) = h_inode s"
  "h_dat (toyfs_release_pmemb p s) = h_dat s" "h_dblkref (toyfs_release_pmemb p s) = h_dblkref s"
  "h_iblkref (toyfs_release_pmemb p s) = h_iblkref s" "h_tii (toyfs_release_pmemb p s) = h_tii s"
  "s_itable (toyfs_release_pmemb p s) = s_itable s"
  by (simp_all add: toyfs_release_pmemb_def)

lemma release_dblkref_frame [simp]:
  "s_md (toyfs_release_dblkref d s) = s_md s" "h_inode (toyfs_release_dblkref d s) = h_inode s"
  "h_dat (toyfs_release_dblkref d s) = h_dat s" "h_tii (toyfs_release_dblkref d s) = h_tii s"
  "h_dblkref (toyfs_release_dblkref d s) =
     (h_dblkref s)(d := (h_dblkref s d)\<lparr>db_bn := 0\<rparr>)"
  "h_iblkref (toyfs_release_dblkref d s) = h_iblkref s"
  "s_itable (toyfs_release_dblkref d s) = s_itable s"
  by (simp_all add: toyfs_release_dblkref_def Let_def)

lemma release_iblkref_frame [simp]:
  "s_md (toyfs_release_iblkref b s) = s_md s" "h_inode (toyfs_release_iblkref b s) = h_inode s"
  "h_dat (toyfs_release_iblkref b s) = h_dat s" "h_tii (toyfs_release_iblkref b s) = h_tii s"
  "h_dblkref (toyfs_release_iblkref b s) = h_dblkref s"
  "h_iblkref (toyfs_release_iblkref b s) =
     (h_iblkref s)(b := (h_iblkref s b)\<lparr>ib_dblkref := None, ib_off := -1\<rparr>)"
  "s_itable (toyfs_release_iblkref b s) = s_itable s"
  by (simp_all add: toyfs_release_iblkref_def Let_def)

lemma data_page_cell:
  assumes "pool_inv D B I N s" and "p \<in> D"
  obtains c where "md_baddr (s_md s) (c + 2) = p" "toyfs_addr2bn s p = c + 2"
proof -
  from assms(1) obtain r where r: "role_inv r D B I N s" by (auto simp: pool_inv_def)
  then have "D \<subseteq> cells (pool_mem (s_pool s)) (f_blocks (s_statvfs s))" "md_ok (s_md s) (pool_mem (s_pool s)) (f_blocks (s_statvfs s))"
    using having_subset by (auto simp: role_inv_def Let_def)
  with assms(2) obtain c where "c < f_blocks (s_statvfs s)" "p = pool_mem (s_pool s) + PAGE_SIZE * c" by (auto simp: cells_def)
  then show ?thesis using \<open>md_ok _ _ _\<close> that [of c] by (simp add: md_ok_def toyfs_addr2bn_def Let_def)
qed

lemma bn2pmemb_addr2bn:
  assumes "pool_inv D B I N s" and "p \<in> D"
  shows "toyfs_bn2pmemb s (toyfs_addr2bn s p) = p"
  using assms by (rule data_page_cell) (simp add: toyfs_bn2pmemb_def toyfs_bn2addr_def)

lemma addr2bn_not_0:
  assumes "pool_inv D B I N s" and "p \<in> D"
  shows "toyfs_addr2bn s p \<noteq> 0"
  using assms by (rule data_page_cell) simp

lemma pool_inv_finite: "pool_inv D B I N s \<Longrightarrow> finite D"
  using having_finite by (fastforce simp: pool_inv_def role_inv_def Let_def)

section \<open>The freshly set up pool\<close>

lemma pool_setup_pages:
  "pool_pages (pool_setup m (PAGE_SIZE * n + k) P) = rev (map (\<lambda>c. m + PAGE_SIZE * c) [0..<(PAGE_SIZE * n + k) div PAGE_SIZE])"
  by (simp add: pool_setup_def Let_def fold_Cons_map_rev)

lemma setup_pool_inv:
  assumes md: "md_ok (s_md s) m (sz div PAGE_SIZE)"
  shows "pool_inv {} {} {} {} (sbi_setup (s\<lparr>s_pool := pool_setup m sz (pool_init P)\<rparr>))"
proof -
  let ?n = "sz div PAGE_SIZE"
  have pg: "pool_pages (pool_setup m sz (pool_init P)) = rev (map (\<lambda>c. m + PAGE_SIZE * c) [0..<?n])"
    by (simp add: pool_setup_def Let_def fold_Cons_map_rev)
  have dist: "distinct (map (\<lambda>c. m + PAGE_SIZE * c) [0..<?n])" by (simp add: distinct_map inj_on_def)
  have free: "having (cells m ?n) (\<lambda>_. FreeR) FreeR = (\<lambda>c. m + PAGE_SIZE * c) ` {..<?n}"
    by (auto simp: having_def cells_def)
  have none: "having (cells m ?n) (\<lambda>_. FreeR) R = {}" if "R \<noteq> FreeR" for R
    using that by (auto simp: having_def)
  have flds: "pool_mem (pool_setup m sz (pool_init P)) = m" "pool_msz (pool_setup m sz (pool_init P)) = sz"
    "free_dblkrefs (pool_setup m sz (pool_init P)) = []"
    "free_iblkrefs (pool_setup m sz (pool_init P)) = []"
    "free_inodes (pool_setup m sz (pool_init P)) = []"
    by (simp_all add: pool_setup_def pool_init_def Let_def)
  have "role_inv (\<lambda>_. FreeR) {} {} {} {} (sbi_setup (s\<lparr>s_pool := pool_setup m sz (pool_init P)\<rparr>))"
    using md dist
    by (simp add: role_inv_def Let_def sbi_setup_def flds pg free none carved_def
        atLeast0LessThan del: upt_Suc)
  then show ?thesis by (auto simp: pool_inv_def)
qed

section \<open>Histories of the pool\<close>

text \<open>
  The clients of the pool acquire objects and release what they hold, in any order. A
  configuration is the four sets of objects in use, and the superblock.
\<close>

type_synonym pool_conf = "addr set \<times> addr set \<times> addr set \<times> addr set \<times> toyfs_sb_info"

inductive pool_step :: "pool_conf \<Rightarrow> pool_conf \<Rightarrow> bool" where
  acq_page: "toyfs_acquire_pmemb s = (Some p, s') \<Longrightarrow> pool_step (D, B, I, N, s) (insert p D, B, I, N, s')"
| acq_dblk: "toyfs_acquire_dblkref s = (Some d, s') \<Longrightarrow> pool_step (D, B, I, N, s) (D, insert d B, I, N, s')"
| acq_iblk: "toyfs_acquire_iblkref s = (Some b, s') \<Longrightarrow> pool_step (D, B, I, N, s) (D, B, insert b I, N, s')"
| acq_ino: "toyfs_acquire_inode s = (Some t, s') \<Longrightarrow> pool_step (D, B, I, N, s) (D, B, I, insert t N, s')"
| rel_page: "p \<in> D \<Longrightarrow> pool_step (D, B, I, N, s) (D - {p}, B, I, N, toyfs_release_pmemb p s)"
| rel_dblk: "d \<in> B \<Longrightarrow> pool_step (D, B, I, N, s) (D, B - {d}, I, N, toyfs_release_dblkref d s)"
| rel_iblk: "b \<in> I \<Longrightarrow> pool_step (D, B, I, N, s) (D, B, I - {b}, N, toyfs_release_iblkref b s)"
| rel_ino: "t \<in> N \<Longrightarrow> pool_step (D, B, I, N, s) (D, B, I, N - {t}, toyfs_release_inode t s)"

definition conf_inv :: "pool_conf \<Rightarrow> bool" where
  "conf_inv c = (case c of (D, B, I, N, s) \<Rightarrow> pool_inv D B I N s)"

lemma pool_step_inv: "pool_step c c' \<Longrightarrow> conf_inv c \<Longrightarrow> conf_inv c'"
  by (induction rule: pool_step.induct)
     (auto simp: conf_inv_def dest: page_src.acquire_law dblk_src.acquire_law iblk_src.acquire_law
        inode_src.acquire_law intro: page_src.release_law dblk_src.release_law
        iblk_src.release_law inode_src.release_law)

lemma pool_steps_inv: "pool_step\<^sup>*\<^sup>* c c' \<Longrightarrow> conf_inv c \<Longrightarrow> conf_inv c'"
  by (induction rule: rtranclp_induct) (auto dest: pool_step_inv)

lemma card_cells: "card (cells m n) = n"
  unfolding cells_def by (subst card_image) (simp_all add: inj_on_def)

text \<open>Pages that hold metadata objects, free or in use.\<close>

definition meta_pages :: "toyfs_sb_info \<Rightarrow> addr set \<Rightarrow> addr set" where
  "meta_pages s D =
     cells (pool_mem (s_pool s)) (f_blocks (s_statvfs s)) - set (pool_pages (s_pool s)) - D"

lemma bfree_accounting:
  assumes "pool_inv D B I N s"
  shows "f_bfree (s_statvfs s) = length (pool_pages (s_pool s)) + card (meta_pages s D)"
proof -
  from assms obtain r where r: "role_inv r D B I N s" by (auto simp: pool_inv_def)
  let ?cs = "cells (pool_mem (s_pool s)) (f_blocks (s_statvfs s))" and ?F = "set (pool_pages (s_pool s))"
  have F0: "?F = having ?cs r FreeR" "D = having ?cs r DataR"
    using r by (simp_all add: role_inv_def Let_def)
  have F: "?F \<subseteq> ?cs" "D \<subseteq> ?cs" "?F \<inter> D = {}"
    unfolding F0 by (auto simp: having_def)
  have fin: "finite ?cs" by (simp add: cells_def)
  have "card (meta_pages s D) = card (?cs - (?F \<union> D))" by (simp add: meta_pages_def Diff_Un set_diff_eq)
  also have "\<dots> = f_blocks (s_statvfs s) - (card ?F + card D)"
    using F fin by (subst card_Diff_subset) (auto simp: card_cells card_Un_disjoint finite_subset)
  finally have m: "card (meta_pages s D) = f_blocks (s_statvfs s) - (card ?F + card D)" .
  have "card (?F \<union> D) \<le> f_blocks (s_statvfs s)"
    using card_mono [OF fin, of "?F \<union> D"] F by (simp add: card_cells)
  then have "card ?F + card D \<le> f_blocks (s_statvfs s)"
    using F fin by (simp add: card_Un_disjoint finite_subset)
  moreover have "card ?F = length (pool_pages (s_pool s))" "f_bfree (s_statvfs s) + card D = f_blocks (s_statvfs s)"
    using r by (simp_all add: role_inv_def Let_def distinct_card)
  ultimately show ?thesis using m by simp
qed

lemma acquire_pmemb_fails_iff:
  assumes "pool_inv D B I N s"
  shows "fst (toyfs_acquire_pmemb s) = None \<longleftrightarrow> pool_pages (s_pool s) = []"
proof -
  have "pool_pages (s_pool s) \<noteq> [] \<Longrightarrow> 0 < f_bfree (s_statvfs s)"
    using bfree_accounting [OF assms] by simp
  moreover have "f_bavail (s_statvfs s) = f_bfree (s_statvfs s)"
    using assms by (auto simp: pool_inv_def role_inv_def Let_def)
  ultimately show ?thesis
    by (auto simp: toyfs_acquire_pmemb_def pool_pop_pmemb_def split: list.splits)
qed

section \<open>Objects in use do not overlap\<close>

fun role_size :: "role \<Rightarrow> nat" where
  "role_size FreeR = 4096"
| "role_size DataR = 4096"
| "role_size DblkR = 32"
| "role_size IblkR = 32"
| "role_size InoR = 128"

definition extent :: "role \<times> addr \<Rightarrow> addr set" where
  "extent ob = {snd ob..<snd ob + role_size (fst ob)}"

definition objects :: "pool_conf \<Rightarrow> (role \<times> addr) set" where
  "objects c = (case c of (D, B, I, N, s) \<Rightarrow>
     Pair FreeR ` set (pool_pages (s_pool s)) \<union> Pair DataR ` D \<union> Pair DblkR ` B \<union> Pair IblkR ` I \<union>
     Pair InoR ` N)"

lemma carved_place:
  "carved sz k C fl U \<Longrightarrow> x \<in> U \<Longrightarrow> \<exists>p\<in>C. \<exists>i<k. x = p + sz * i"
  by (fastforce simp: carved_def slots_def)

lemma object_place:
  assumes r: "role_inv r D B I N s" and x: "(R, x) \<in> objects (D, B, I, N, s)"
  shows "\<exists>p i. p \<in> cells (pool_mem (s_pool s)) (f_blocks (s_statvfs s)) \<and> r p = R \<and>
    x = p + role_size R * i \<and> role_size R * i + role_size R \<le> PAGE_SIZE"
proof -
  let ?cs = "cells (pool_mem (s_pool s)) (f_blocks (s_statvfs s))"
  have h: "having ?cs r FreeR = set (pool_pages (s_pool s))" "having ?cs r DataR = D"
    "carved 32 128 (having ?cs r DblkR) (free_dblkrefs (s_pool s)) B"
    "carved 32 128 (having ?cs r IblkR) (free_iblkrefs (s_pool s)) I"
    "carved 128 32 (having ?cs r InoR) (free_inodes (s_pool s)) N"
    using r by (simp_all add: role_inv_def Let_def)
  have page: "\<exists>p i. p \<in> ?cs \<and> r p = R \<and> x = p + role_size R * i \<and> role_size R * i + role_size R \<le> PAGE_SIZE"
    if "x \<in> having ?cs r R" "role_size R = 4096"
    using that by (intro exI [of _ x] exI [of _ 0]) (simp add: having_def)
  have obj: "\<exists>p i. p \<in> ?cs \<and> r p = R \<and> x = p + role_size R * i \<and> role_size R * i + role_size R \<le> PAGE_SIZE"
    if "carved (role_size R) k (having ?cs r R) fl U" "x \<in> U" "role_size R * k = PAGE_SIZE" for k fl U
  proof -
    from carved_place [OF that(1,2)] obtain p i where pi: "p \<in> having ?cs r R" "i < k"
      "x = p + role_size R * i" by blast
    have "role_size R * i + role_size R = role_size R * Suc i" by simp
    also have "\<dots> \<le> role_size R * k" using pi(2) by (intro mult_le_mono2) simp
    finally have "role_size R * i + role_size R \<le> PAGE_SIZE" using that(3) by simp
    with pi show ?thesis by (auto simp: having_def)
  qed
  from x show ?thesis
    using page h(1,2) obj [of 128 _ B] obj [of 128 _ I] obj [of 32 _ N] h(3-5)
    by (cases R) (auto simp: objects_def)
qed

lemma objects_disjoint:
  assumes inv: "pool_inv D B I N s" and a: "a \<in> objects (D, B, I, N, s)"
    and b: "b \<in> objects (D, B, I, N, s)" and ne: "a \<noteq> b"
  shows "extent a \<inter> extent b = {}"
proof (rule ccontr)
  assume "extent a \<inter> extent b \<noteq> {}"
  then obtain z where z: "z \<in> extent a" "z \<in> extent b" by blast
  from inv obtain r where r: "role_inv r D B I N s" by (auto simp: pool_inv_def)
  obtain R x S y where ab: "a = (R, x)" "b = (S, y)" by fastforce
  let ?m = "pool_mem (s_pool s)"
  from object_place [OF r, of R x] a ab obtain c i where
    1: "r (?m + PAGE_SIZE * c) = R" "x = ?m + PAGE_SIZE * c + role_size R * i"
       "role_size R * i + role_size R \<le> PAGE_SIZE" by (auto simp: cells_def)
  from object_place [OF r, of S y] b ab obtain d j where
    2: "r (?m + PAGE_SIZE * d) = S" "y = ?m + PAGE_SIZE * d + role_size S * j"
       "role_size S * j + role_size S \<le> PAGE_SIZE" by (auto simp: cells_def)
  define u v where "u = z - x" and "v = z - y"
  have u: "z = x + u" "u < role_size R" and v: "z = y + v" "v < role_size S"
    using z ab by (auto simp: extent_def u_def v_def)
  have eq: "PAGE_SIZE * c + (role_size R * i + u) = PAGE_SIZE * d + (role_size S * j + v)"
    using u v 1(2) 2(2) by simp
  have "(PAGE_SIZE * c + (role_size R * i + u)) div PAGE_SIZE = c"
    "(PAGE_SIZE * d + (role_size S * j + v)) div PAGE_SIZE = d"
    using u(2) v(2) 1(3) 2(3) by simp_all
  then have cd: "c = d" using eq by simp
  then have RS: "R = S" using 1(1) 2(1) by simp
  have "role_size R * i + u = role_size R * j + v" using eq cd RS by simp
  moreover have "(role_size R * i + u) div role_size R = i" "(role_size R * j + v) div role_size R = j"
    using u(2) v(2) RS by simp_all
  ultimately have "i = j" by simp
  then show False using ne ab 1(2) 2(2) cd RS by simp
qed

section \<open>Properties\<close>

text \<open>
  C4. Memory safety of the pool. In every history of acquire and release operations that
  starts with the set-up pool, the pages on the free list and all objects in use (data pages,
  data-block references, inode-block references, inodes) occupy pairwise disjoint memory, and
  the counters are exact: \<open>f_bfree\<close> and \<open>f_bavail\<close> agree, and together with the data pages in use
  \<open>f_bfree\<close> makes up \<open>f_blocks\<close>.
\<close>

theorem pool_history_safe:
  assumes md: "md_ok (s_md s0) m (sz div PAGE_SIZE)"
    and run: "pool_step\<^sup>*\<^sup>* ({}, {}, {}, {}, sbi_setup (s0\<lparr>s_pool := pool_setup m sz (pool_init P)\<rparr>))
                (D, B, I, N, s)"
  shows "(\<forall>a\<in>objects (D, B, I, N, s). \<forall>b\<in>objects (D, B, I, N, s). a \<noteq> b \<longrightarrow> extent a \<inter> extent b = {}) \<and>
    f_bavail (s_statvfs s) = f_bfree (s_statvfs s) \<and>
    f_bfree (s_statvfs s) + card D = f_blocks (s_statvfs s)"
proof -
  have inv: "pool_inv D B I N s"
    using pool_steps_inv [OF run] setup_pool_inv [OF md] by (simp add: conf_inv_def)
  then have "f_bavail (s_statvfs s) = f_bfree (s_statvfs s) \<and>
    f_bfree (s_statvfs s) + card D = f_blocks (s_statvfs s)"
    by (auto simp: pool_inv_def role_inv_def Let_def)
  with objects_disjoint [OF inv] show ?thesis by blast
qed

text \<open>A device of \<open>n\<close> blocks mapped at address 0, block 0 and 1 reserved, for the witnesses.\<close>

definition sample_md :: md_ops where
  "sample_md = \<lparr>md_baddr = (\<lambda>b. PAGE_SIZE * b), md_addr_to_offset = (\<lambda>a. a),
     md_o2p = (\<lambda>off. off div PAGE_SIZE), md_p2o = (\<lambda>b. PAGE_SIZE * b), md_t1_blocks = 1024, p_pmem_addr = 0,
     md_magic = 0x5346314d, zufs_name_len = 255, zus_api_map_max_size = 4194304\<rparr>"

definition sample_sb :: toyfs_sb_info where
  "sample_sb = \<lparr>s_md = sample_md,
     s_statvfs = \<lparr>f_bsize = 0, f_frsize = 0, f_blocks = 0, f_bfree = 0, f_bavail = 0, f_files = 0,
       f_ffree = 0, f_favail = 0, f_flag = 0, f_namemax = 0\<rparr>,
     s_pool = \<lparr>pool_pages = [], free_dblkrefs = [], free_iblkrefs = [], free_inodes = [],
       pool_mem = 0, pool_msz = 0\<rparr>,
     s_itable = \<lparr>icount = 0, imap = (\<lambda>_. [])\<rparr>, s_root = None, s_top_ino = 0,
     h_dat = (\<lambda>_ _. 0), h_dblkref = (\<lambda>_. \<lparr>db_refcnt = 0, db_bn = 0\<rparr>),
     h_iblkref = (\<lambda>_. \<lparr>ib_dblkref = None, ib_off = 0\<rparr>), h_inode = (\<lambda>_. zero_inode),
     h_tii = (\<lambda>_. None)\<rparr>"

definition sample_mount :: "nat \<Rightarrow> toyfs_sb_info" where
  "sample_mount n = sbi_setup (sample_sb\<lparr>s_pool := pool_setup 8192 (PAGE_SIZE * n) (pool_init (s_pool sample_sb))\<rparr>)"

lemma sample_md_ok: "md_ok sample_md 8192 n"
  by (simp add: md_ok_def sample_md_def)

lemma s_md_sample_sb [simp]: "s_md sample_sb = sample_md"
  by (simp add: sample_sb_def)

lemma sample_mount_inv: "pool_inv {} {} {} {} (sample_mount n)"
  unfolding sample_mount_def by (rule setup_pool_inv) (simp add: sample_md_ok)

lemmas sample_simps = sample_mount_def sample_sb_def sample_md_def sbi_setup_def pool_setup_def
  pool_init_def Let_def

theorem pool_history_safe_witness:
  "extent (DataR, 20480) \<inter> extent (FreeR, 16384) = {} \<and>
   f_bfree (s_statvfs (snd (toyfs_acquire_pmemb (sample_mount 4)))) + card {20480::nat} = 4"
proof -
  let ?s = "snd (toyfs_acquire_pmemb (sample_mount 4))"
  have a: "toyfs_acquire_pmemb (sample_mount 4) = (Some 20480, ?s)"
    and pages: "16384 \<in> set (pool_pages (s_pool ?s))" and blocks: "f_blocks (s_statvfs ?s) = 4"
    by (simp_all add: toyfs_acquire_pmemb_def pool_pop_pmemb_def sample_simps upt_rec)
  have run: "pool_step\<^sup>*\<^sup>* ({}, {}, {}, {}, sample_mount 4) (insert 20480 {}, {}, {}, {}, ?s)"
    by (intro r_into_rtranclp pool_step.acq_page a)
  have "md_ok (s_md sample_sb) 8192 (PAGE_SIZE * 4 div PAGE_SIZE)" by (simp add: sample_md_ok)
  from pool_history_safe [OF this run [unfolded sample_mount_def], folded sample_mount_def] show ?thesis
    using pages blocks by (auto simp: objects_def)
qed

text \<open>
  A page acquisition that succeeds returns a page that was not in use, filled with zeros, and
  leaves every other page as it was; it fails only when the free list is empty. Releasing the page
  restores the invariant for the previous set of pages.
\<close>

theorem acquire_pmemb_correct:
  assumes inv: "pool_inv D B I N s"
  shows "case toyfs_acquire_pmemb s of
      (None, s') \<Rightarrow> s' = s \<and> pool_pages (s_pool s) = []
    | (Some p, s') \<Rightarrow> p \<notin> D \<and> pool_inv (insert p D) B I N s' \<and> (\<forall>i<PAGE_SIZE. h_dat s' p i = 0) \<and>
        (\<forall>q. q \<noteq> p \<longrightarrow> h_dat s' q = h_dat s q) \<and>
        f_bfree (s_statvfs s') + 1 = f_bfree (s_statvfs s) \<and> pool_inv D B I N (toyfs_release_pmemb p s')"
proof (cases "toyfs_acquire_pmemb s")
  case (Pair a s')
  show ?thesis
  proof (cases a)
    case None
    then show ?thesis using Pair acquire_pmemb_fails_iff [OF inv] page_src.fail_law [OF inv] by simp
  next
    case (Some p)
    have "f_bfree (s_statvfs s') + 1 = f_bfree (s_statvfs s)"
      using Pair Some by (auto simp: toyfs_acquire_pmemb_def split: if_splits prod.splits option.splits)
    then show ?thesis using Pair Some acquire_pmemb_frame [OF Pair]
        page_src.acquire_law [OF inv] page_src.acquire_release [OF inv] by auto
  qed
qed

theorem acquire_pmemb_correct_witness:
  "case toyfs_acquire_pmemb (sample_mount 4) of (None, s') \<Rightarrow> False | (Some p, s') \<Rightarrow> p \<notin> {}"
  using acquire_pmemb_correct [OF sample_mount_inv, of 4]
  by (simp add: toyfs_acquire_pmemb_def pool_pop_pmemb_def sample_simps upt_rec)

text \<open>
  What \<open>toyfs_statfs\<close> reports as free is the number of pages that can still be acquired plus the
  number of pages that were carved into inodes and block references: pages used for metadata stay
  counted as free.
\<close>

theorem statfs_counts_metadata_as_free:
  assumes inv: "pool_inv D B I N s"
  shows "sf_bfree (snd (toyfs_statfs s out)) = length (pool_pages (s_pool s)) + card (meta_pages s D) \<and>
    sf_bavail (snd (toyfs_statfs s out)) = sf_bfree (snd (toyfs_statfs s out))"
  using bfree_accounting [OF inv] inv
  by (auto simp: toyfs_statfs_def Let_def pool_inv_def role_inv_def)

theorem statfs_counts_metadata_as_free_witness:
  "sf_bfree (snd (toyfs_statfs (snd (toyfs_acquire_inode (sample_mount 1)))
     \<lparr>sf_bsize = 0, sf_blocks = 0, sf_bfree = 0, sf_bavail = 0, sf_files = 0, sf_ffree = 0,
      sf_namelen = 0, sf_frsize = 0, sf_flags = 0\<rparr>)) = 1 \<and>
   card (meta_pages (snd (toyfs_acquire_inode (sample_mount 1))) {}) = 1 \<and>
   fst (toyfs_acquire_pmemb (snd (toyfs_acquire_inode (sample_mount 1)))) = None"
proof -
  let ?s = "snd (toyfs_acquire_inode (sample_mount 1))"
  have a: "toyfs_acquire_inode (sample_mount 1) = (Some 8192, ?s)"
    and e: "pool_pages (s_pool ?s) = []" "f_bfree (s_statvfs ?s) = 1"
    by (simp_all add: toyfs_acquire_inode_def pool_defs fold_free toyfs_inodes_per_page_def
        sample_simps upt_rec)
  have inv: "pool_inv {} {} {} {8192} ?s"
    using inode_src.acquire_law [OF sample_mount_inv a] by simp
  show ?thesis
    using statfs_counts_metadata_as_free [OF inv] e acquire_pmemb_fails_iff [OF inv]
    by (simp add: toyfs_statfs_def Let_def)
qed

end
