(* ===== verification/ToyBlocks.thy ===== *)
theory ToyBlocks
  imports ToyPool
begin

text \<open>
  The block layer of \<open>fs/toyfs/file.c\<close>: data-block references with their reference counts, the
  inode-block references of a file, the search for a block, allocation on demand and
  copy-on-write. A \<open>struct toyfs_inode_info *\<close> argument is represented by the address of the inode
  that it points to (\<open>tii->ti\<close> and \<open>tii->zii.zi\<close> are the same memory). \<open>fs_ok\<close> is the invariant of
  the block structures of a set of files, and \<open>content\<close> the bytes that a file holds.
\<close>

section \<open>Data-block references\<close>

definition new_dblkref :: "toyfs_sb_info \<Rightarrow> addr option \<times> toyfs_sb_info" where
  "new_dblkref s =
    (case toyfs_acquire_pmemb s of
       (None, s1) \<Rightarrow> (None, s1)
     | (Some pmemb, s1) \<Rightarrow>
        (case toyfs_acquire_dblkref s1 of
           (None, s2) \<Rightarrow> (None, toyfs_release_pmemb pmemb s2)
         | (Some dblkref, s2) \<Rightarrow>
            (Some dblkref,
             upd_dblkref dblkref (\<lambda>r. r\<lparr>db_bn := toyfs_addr2bn s2 pmemb, db_refcnt := 1\<rparr>) s2)))"

definition free_dblkref :: "addr \<Rightarrow> toyfs_sb_info \<Rightarrow> toyfs_sb_info" where
  "free_dblkref dblkref s =
    (let bn = db_bn (h_dblkref s dblkref);
         s1 = toyfs_release_dblkref dblkref s
     in toyfs_release_pmemb (toyfs_bn2pmemb s1 bn) s1)"

definition decref_dblkref :: "addr \<Rightarrow> toyfs_sb_info \<Rightarrow> toyfs_sb_info run" where
  "decref_dblkref dblkref s = do {
     toyfs_assert (db_refcnt (h_dblkref s dblkref) > 0);
     let s1 = upd_dblkref dblkref (\<lambda>r. r\<lparr>db_refcnt := db_refcnt r - 1\<rparr>) s;
     let refcnt = db_refcnt (h_dblkref s1 dblkref);
     Some (if refcnt = 0 then free_dblkref dblkref s1 else s1) }"

section \<open>Inode-block references\<close>

definition new_iblkref :: "addr \<Rightarrow> int \<Rightarrow> toyfs_sb_info \<Rightarrow> (addr option \<times> toyfs_sb_info) run" where
  "new_iblkref ti off s =
    (case new_dblkref s of
       (None, s1) \<Rightarrow> Some (None, s1)
     | (Some dblkref, s1) \<Rightarrow>
        (case toyfs_acquire_iblkref s1 of
           (None, s2) \<Rightarrow> do { s3 \<leftarrow> decref_dblkref dblkref s2; Some (None, s3) }
         | (Some iblkref, s2) \<Rightarrow>
            Some (Some iblkref,
              upd_inode ti (\<lambda>zi. zi\<lparr>i_blocks := i_blocks zi + 1\<rparr>)
                (upd_iblkref iblkref (\<lambda>r. r\<lparr>ib_dblkref := Some dblkref, ib_off := off\<rparr>) s2))))"

definition free_iblkref :: "addr \<Rightarrow> addr \<Rightarrow> toyfs_sb_info \<Rightarrow> toyfs_sb_info run" where
  "free_iblkref ti iblkref s = do {
     toyfs_assert (i_blocks (h_inode s ti) \<noteq> 0);
     d \<leftarrow> ib_dblkref (h_iblkref s iblkref);
     s1 \<leftarrow> decref_dblkref d s;
     let s2 = toyfs_release_iblkref iblkref s1;
     Some (upd_inode ti (\<lambda>zi. zi\<lparr>i_blocks := i_blocks zi - 1\<rparr>) s2) }"

section \<open>Offsets\<close>

definition off_to_boff :: "int \<Rightarrow> int" where
  "off_to_boff off = (off sdiv 4096) * 4096"

definition off_in_page :: "int \<Rightarrow> int" where
  "off_in_page off = off smod 4096"

definition next_page :: "int \<Rightarrow> int" where
  "next_page off = ((off + 4096) sdiv 4096) * 4096"

definition ispagealigned :: "int \<Rightarrow> nat \<Rightarrow> bool" where
  "ispagealigned off len = (cast_size off mod PAGE_SIZE = 0 \<and> len mod PAGE_SIZE = 0)"

definition nbytes_in_range :: "int \<Rightarrow> int \<Rightarrow> int \<Rightarrow> nat" where
  "nbytes_in_range off nxt end = cast_size (if nxt < end then nxt - off else end - off)"

lemma off_arith [c_arith]:
  "0 \<le> off \<Longrightarrow> off_to_boff off = off - off mod 4096"
  "0 \<le> off \<Longrightarrow> off_in_page off = off mod 4096"
  "0 \<le> off \<Longrightarrow> next_page off = off - off mod 4096 + 4096"
proof -
  assume off: "0 \<le> off"
  then show "off_to_boff off = off - off mod 4096" "off_in_page off = off mod 4096"
    by (simp_all add: off_to_boff_def off_in_page_def sdiv_nonneg smod_nonneg minus_mod_eq_div_mult)
  from off have "next_page off = (off + 4096) div 4096 * 4096"
    by (simp add: next_page_def sdiv_nonneg)
  also have "(off + 4096) div 4096 = off div 4096 + 1" by simp
  finally show "next_page off = off - off mod 4096 + 4096"
    by (simp add: minus_mod_eq_div_mult algebra_simps)
qed

lemma next_page_gt: "off < next_page off"
  unfolding next_page_def by (rule sdiv_mult_gt)

section \<open>Copies\<close>

text \<open>\<open>advance buf len\<close>: a source buffer is the function from positions to bytes.\<close>

definition advance :: "(nat \<Rightarrow> byte) \<Rightarrow> nat \<Rightarrow> nat \<Rightarrow> byte" where
  "advance buf len = (\<lambda>i. buf (i + len))"

definition copy_out :: "addr \<Rightarrow> int \<Rightarrow> nat \<Rightarrow> toyfs_sb_info \<Rightarrow> byte list run" where
  "copy_out pmemb off len s = do {
     toyfs_assert (len \<le> PAGE_SIZE);
     toyfs_assert (size_add (cast_size off) len \<le> PAGE_SIZE);
     Some (map (\<lambda>i. h_dat s pmemb (nat off + i)) [0..<len]) }"

definition copy_in :: "addr \<Rightarrow> (nat \<Rightarrow> byte) \<Rightarrow> int \<Rightarrow> nat \<Rightarrow> toyfs_sb_info \<Rightarrow> toyfs_sb_info run" where
  "copy_in pmemb src off len s = do {
     toyfs_assert (pmemb \<noteq> 0);
     toyfs_assert (len \<le> PAGE_SIZE);
     toyfs_assert (size_add (cast_size off) len \<le> PAGE_SIZE);
     Some (upd_dat pmemb (nat off) len src s) }"

definition copy_pmemb :: "addr \<Rightarrow> addr \<Rightarrow> toyfs_sb_info \<Rightarrow> toyfs_sb_info run" where
  "copy_pmemb pmemb other s = copy_in pmemb (h_dat s other) 0 PAGE_SIZE s"

definition fill_zeros :: "nat \<Rightarrow> byte list" where
  "fill_zeros len = replicate len 0"

definition assign_zeros :: "addr \<Rightarrow> int \<Rightarrow> nat \<Rightarrow> toyfs_sb_info \<Rightarrow> toyfs_sb_info run" where
  "assign_zeros pmemb off len s = do {
     toyfs_assert (len \<le> PAGE_SIZE);
     toyfs_assert (size_add (cast_size off) len \<le> PAGE_SIZE);
     Some (upd_dat pmemb (nat off) len (\<lambda>_. 0) s) }"

section \<open>Search\<close>

definition toyfs_iblkrefs_list_of :: "addr \<Rightarrow> toyfs_sb_info \<Rightarrow> addr list" where
  "toyfs_iblkrefs_list_of ti s = list_head (h_inode s ti)"

definition fetch_iblkref :: "addr \<Rightarrow> int \<Rightarrow> toyfs_sb_info \<Rightarrow> addr option" where
  "fetch_iblkref ti off s =
    (let boff = off_to_boff off
     in find (\<lambda>iblkref. ib_off (h_iblkref s iblkref) = boff) (toyfs_iblkrefs_list_of ti s))"

text \<open>The result of \<open>_fetch_iblkref_from\<close> together with the rest of the list that follows it.\<close>

definition fetch_iblkref_from :: "addr \<Rightarrow> int \<Rightarrow> toyfs_sb_info \<Rightarrow> addr list" where
  "fetch_iblkref_from ti off s =
    (let boff = off_to_boff off
     in dropWhile (\<lambda>iblkref. ib_off (h_iblkref s iblkref) < boff) (toyfs_iblkrefs_list_of ti s))"

definition iblkref_pmemb :: "addr \<Rightarrow> toyfs_sb_info \<Rightarrow> addr run" where
  "iblkref_pmemb iblkref s = do {
     d \<leftarrow> ib_dblkref (h_iblkref s iblkref);
     Some (toyfs_bn2pmemb s (db_bn (h_dblkref s d))) }"

definition fetch_pmemb_by_offset :: "addr \<Rightarrow> int \<Rightarrow> toyfs_sb_info \<Rightarrow> addr option run" where
  "fetch_pmemb_by_offset ti off s =
    (case fetch_iblkref ti off s of
       None \<Rightarrow> Some None
     | Some iblkref \<Rightarrow> map_option Some (iblkref_pmemb iblkref s))"

definition toyfs_resolve_pmemb :: "addr \<Rightarrow> int \<Rightarrow> toyfs_sb_info \<Rightarrow> addr option run" where
  "toyfs_resolve_pmemb ti off s = fetch_pmemb_by_offset ti off s"

section \<open>Allocation on demand and copy-on-write\<close>

definition clone_data :: "addr \<Rightarrow> addr \<Rightarrow> toyfs_sb_info \<Rightarrow> toyfs_sb_info run" where
  "clone_data dst_dblkref src_dblkref s =
    (let dst_pmemb = toyfs_bn2pmemb s (db_bn (h_dblkref s dst_dblkref));
         src_pmemb = toyfs_bn2pmemb s (db_bn (h_dblkref s src_dblkref))
     in copy_pmemb dst_pmemb src_pmemb s)"

text \<open>
  The scan of \<open>_require_iblkref\<close>: the block found, if any, and the number of nodes before the
  position where the scan stopped.
\<close>

fun require_scan :: "toyfs_sb_info \<Rightarrow> int \<Rightarrow> addr list \<Rightarrow> addr option \<times> nat" where
  "require_scan s boff [] = (None, 0)"
| "require_scan s boff (iblkref # itr) =
    (if ib_off (h_iblkref s iblkref) = boff then (Some iblkref, 0)
     else if ib_off (h_iblkref s iblkref) > boff then (None, 0)
     else let (r, k) = require_scan s boff itr in (r, Suc k))"

definition list_insert :: "addr \<Rightarrow> nat \<Rightarrow> addr list \<Rightarrow> addr list" where
  "list_insert e k xs = take k xs @ e # drop k xs"

definition require_iblkref :: "addr \<Rightarrow> int \<Rightarrow> toyfs_sb_info \<Rightarrow> (addr option \<times> toyfs_sb_info) run" where
  "require_iblkref ti off s =
    (let boff = off_to_boff off in
     case require_scan s boff (toyfs_iblkrefs_list_of ti s) of
       (None, itr) \<Rightarrow>
         new_iblkref ti boff s \<bind> (\<lambda>(r, s1).
           case r of None \<Rightarrow> Some (None, s1)
           | Some iblkref \<Rightarrow>
              Some (Some iblkref,
                upd_inode ti (\<lambda>zi. zi\<lparr>list_head := list_insert iblkref itr (list_head zi)\<rparr>) s1))
     | (Some iblkref, _) \<Rightarrow> do {
         d \<leftarrow> ib_dblkref (h_iblkref s iblkref);
         if db_refcnt (h_dblkref s d) > 1 then
           (case new_dblkref s of
              (None, s1) \<Rightarrow> Some (None, s1)
            | (Some dblkref, s1) \<Rightarrow> do {
                s2 \<leftarrow> clone_data dblkref d s1;
                Some (Some iblkref, upd_iblkref iblkref (\<lambda>r. r\<lparr>ib_dblkref := Some dblkref\<rparr>) s2) })
         else Some (Some iblkref, s) })"

definition toyfs_require_pmem_bn :: "addr \<Rightarrow> int \<Rightarrow> toyfs_sb_info \<Rightarrow> (nat \<times> toyfs_sb_info) run" where
  "toyfs_require_pmem_bn ti off s =
    require_iblkref ti off s \<bind> (\<lambda>(r, s1).
      case r of None \<Rightarrow> Some (0, s1)
      | Some iblkref \<Rightarrow> do {
          d \<leftarrow> ib_dblkref (h_iblkref s1 iblkref);
          Some (db_bn (h_dblkref s1 d), s1) })"

definition unique_pmemb :: "addr \<Rightarrow> toyfs_sb_info \<Rightarrow> (addr option \<times> toyfs_sb_info) run" where
  "unique_pmemb iblkref s = do {
     d \<leftarrow> ib_dblkref (h_iblkref s iblkref);
     let pmemb = toyfs_bn2pmemb s (db_bn (h_dblkref s d));
     if db_refcnt (h_dblkref s d) > 1 then
       (case new_dblkref s of
          (None, s1) \<Rightarrow> Some (None, s1)
        | (Some dblkref, s1) \<Rightarrow> do {
            let new_pmemb = toyfs_bn2pmemb s1 (db_bn (h_dblkref s1 dblkref));
            toyfs_assert (new_pmemb \<noteq> 0);
            s2 \<leftarrow> copy_pmemb new_pmemb pmemb s1;
            let s3 = upd_dblkref d (\<lambda>r. r\<lparr>db_refcnt := db_refcnt r - 1\<rparr>) s2;
            Some (Some new_pmemb, upd_iblkref iblkref (\<lambda>r. r\<lparr>ib_dblkref := Some dblkref\<rparr>) s3) })
     else Some (Some pmemb, s) }"

section \<open>The invariant of the block structures\<close>

definition dpage :: "toyfs_sb_info \<Rightarrow> addr \<Rightarrow> addr" where
  "dpage s d = toyfs_bn2pmemb s (db_bn (h_dblkref s d))"

definition refs :: "addr set \<Rightarrow> toyfs_sb_info \<Rightarrow> addr \<Rightarrow> addr set" where
  "refs F s d = {ib. \<exists>t\<in>F. ib \<in> set (list_head (h_inode s t)) \<and> ib_dblkref (h_iblkref s ib) = Some d}"

definition iblk_ok :: "addr set \<Rightarrow> toyfs_iblkref \<Rightarrow> bool" where
  "iblk_ok B r = (0 \<le> ib_off r \<and> ib_off r mod 4096 = 0 \<and> ib_dblkref r \<in> Some ` B)"

definition list_ok :: "addr set \<Rightarrow> addr set \<Rightarrow> toyfs_sb_info \<Rightarrow> addr \<Rightarrow> bool" where
  "list_ok B I s t =
    (sorted_wrt (<) (map (\<lambda>ib. ib_off (h_iblkref s ib)) (list_head (h_inode s t))) \<and>
     set (list_head (h_inode s t)) \<subseteq> I \<and> i_blocks (h_inode s t) = length (list_head (h_inode s t)) \<and>
     (\<forall>ib\<in>set (list_head (h_inode s t)). iblk_ok B (h_iblkref s ib)))"

text \<open>
  \<open>N\<close> are all inodes in use, \<open>F\<close> those of the regular files, \<open>X\<close> the data pages that do not belong to files
  (directories, extended attributes, symbolic links). A reference count may exceed the number of
  references (see \<open>require_iblkref\<close>), it is never below it.
\<close>

definition blocks_inv :: "addr set \<Rightarrow> addr set \<Rightarrow> addr set \<Rightarrow> addr set \<Rightarrow> addr set \<Rightarrow> addr set \<Rightarrow> toyfs_sb_info \<Rightarrow> bool" where
  "blocks_inv D B I N X F s =
    (X \<subseteq> D \<and> F \<subseteq> N \<and> finite I \<and>
     (\<forall>t\<in>F. list_ok B I s t) \<and>
     (\<forall>t\<in>F. \<forall>t'\<in>F. t \<noteq> t' \<longrightarrow> set (list_head (h_inode s t)) \<inter> set (list_head (h_inode s t')) = {}) \<and>
     (\<forall>d\<in>B. 0 < db_refcnt (h_dblkref s d) \<and> dpage s d \<in> D \<and> dpage s d \<notin> X \<and>
            card (refs F s d) \<le> db_refcnt (h_dblkref s d)) \<and>
     inj_on (dpage s) B)"

definition fs_ok :: "addr set \<Rightarrow> addr set \<Rightarrow> addr set \<Rightarrow> toyfs_sb_info \<Rightarrow> bool" where
  "fs_ok N X F s = (\<exists>D B I. pool_inv D B I N s \<and> blocks_inv D B I N X F s)"

text \<open>The byte of file \<open>t\<close> at position \<open>pos\<close>; a hole reads as zeros.\<close>

definition content :: "toyfs_sb_info \<Rightarrow> addr \<Rightarrow> int \<Rightarrow> byte" where
  "content s t pos =
    (case fetch_iblkref t pos s of None \<Rightarrow> 0
     | Some ib \<Rightarrow> h_dat s (dpage s (the (ib_dblkref (h_iblkref s ib)))) (nat (pos mod 4096)))"

text \<open>\<open>keeps D B I N s s'\<close>: the objects in use are the same in both states.\<close>

definition keeps :: "addr set \<Rightarrow> addr set \<Rightarrow> addr set \<Rightarrow> addr set \<Rightarrow> toyfs_sb_info \<Rightarrow> toyfs_sb_info \<Rightarrow> bool" where
  "keeps D B I N s s' =
    (s_md s' = s_md s \<and> (\<forall>p\<in>D. h_dat s' p = h_dat s p) \<and> (\<forall>d\<in>B. h_dblkref s' d = h_dblkref s d) \<and>
     (\<forall>b\<in>I. h_iblkref s' b = h_iblkref s b) \<and> (\<forall>t\<in>N. h_inode s' t = h_inode s t))"

lemma keeps_refl [simp]: "keeps D B I N s s"
  by (simp add: keeps_def)

lemma keeps_trans [trans]: "keeps D B I N s s' \<Longrightarrow> keeps D B I N s' s'' \<Longrightarrow> keeps D B I N s s''"
  by (simp add: keeps_def)

lemma keeps_mono:
  "keeps D' B' I' N' s s' \<Longrightarrow> D \<subseteq> D' \<Longrightarrow> B \<subseteq> B' \<Longrightarrow> I \<subseteq> I' \<Longrightarrow> N \<subseteq> N' \<Longrightarrow> keeps D B I N s s'"
  by (auto simp: keeps_def)

lemma bn2pmemb_cong: "s_md s' = s_md s \<Longrightarrow> toyfs_bn2pmemb s' = toyfs_bn2pmemb s"
  by (intro ext) (simp add: toyfs_bn2pmemb_def toyfs_bn2addr_def)

lemma dpage_cong:
  "s_md s' = s_md s \<Longrightarrow> db_bn (h_dblkref s' d) = db_bn (h_dblkref s d) \<Longrightarrow> dpage s' d = dpage s d"
  by (simp add: dpage_def toyfs_bn2pmemb_def toyfs_bn2addr_def)

lemma iblkref_pmemb_dpage:
  "ib_dblkref (h_iblkref s ib) = Some d \<Longrightarrow> iblkref_pmemb ib s = Some (dpage s d)"
  by (simp add: iblkref_pmemb_def dpage_def)

lemma blocks_listD:
  assumes "blocks_inv D B I N X F s" "t \<in> F"
  shows "t \<in> N" "list_ok B I s t"
    "sorted_wrt (<) (map (\<lambda>ib. ib_off (h_iblkref s ib)) (list_head (h_inode s t)))"
    "set (list_head (h_inode s t)) \<subseteq> I"
  using assms by (auto simp: blocks_inv_def list_ok_def)

lemma lists_disjointD:
  assumes "blocks_inv D B I N X F s" "t \<in> F" "u \<in> F" "ib \<in> set (list_head (h_inode s t))"
    "ib \<in> set (list_head (h_inode s u))"
  shows "u = t"
proof (rule ccontr)
  assume "u \<noteq> t"
  then have "set (list_head (h_inode s t)) \<inter> set (list_head (h_inode s u)) = {}"
    using assms(1-3) unfolding blocks_inv_def by metis
  then show False using assms(4,5) by blast
qed

lemma blocks_ibD:
  assumes inv: "blocks_inv D B I N X F s" and t: "t \<in> F" and ib: "ib \<in> set (list_head (h_inode s t))"
  shows "\<exists>d. ib_dblkref (h_iblkref s ib) = Some d \<and> d \<in> B \<and> dpage s d \<in> D \<and> dpage s d \<notin> X \<and>
    0 < db_refcnt (h_dblkref s d) \<and> card (refs F s d) \<le> db_refcnt (h_dblkref s d) \<and>
    ib \<in> refs F s d \<and> ib \<in> I \<and> 0 \<le> ib_off (h_iblkref s ib) \<and> ib_off (h_iblkref s ib) mod 4096 = 0"
proof -
  have "iblk_ok B (h_iblkref s ib)" "ib \<in> I"
    using blocks_listD(2) [OF inv t] ib by (auto simp: list_ok_def)
  then obtain d where d: "ib_dblkref (h_iblkref s ib) = Some d" "d \<in> B"
    "0 \<le> ib_off (h_iblkref s ib)" "ib_off (h_iblkref s ib) mod 4096 = 0" by (auto simp: iblk_ok_def)
  moreover have "ib \<in> refs F s d" using d t ib by (auto simp: refs_def)
  moreover have "dpage s d \<in> D \<and> dpage s d \<notin> X \<and> 0 < db_refcnt (h_dblkref s d) \<and>
      card (refs F s d) \<le> db_refcnt (h_dblkref s d)"
    using inv d(2) by (simp add: blocks_inv_def)
  ultimately show ?thesis using \<open>ib \<in> I\<close> by (intro exI [of _ d]) simp
qed

lemma refs_subset: "blocks_inv D B I N X F s \<Longrightarrow> refs F s d \<subseteq> I"
  by (auto simp: blocks_inv_def list_ok_def refs_def)

lemma refs_finite: "blocks_inv D B I N X F s \<Longrightarrow> finite (refs F s d)"
  using refs_subset [of D B I N X F s d] by (auto simp: blocks_inv_def dest: finite_subset)

lemma refs_keeps:
  assumes "blocks_inv D B I N X F s" "keeps D B I N s s'"
  shows "refs F s' d = refs F s d"
  using assms blocks_listD [OF assms(1)] by (fastforce simp: refs_def keeps_def)

lemma blocks_inv_keeps:
  assumes inv: "blocks_inv D B I N X F s" and k: "keeps D B I N s s'"
  shows "blocks_inv D B I N X F s'"
proof -
  have ino: "h_inode s' t = h_inode s t" if "t \<in> F" for t
    using blocks_listD(1) [OF inv that] k by (simp add: keeps_def)
  have ib: "h_iblkref s' b = h_iblkref s b" if "b \<in> I" for b using that k by (simp add: keeps_def)
  have lst: "list_ok B I s' t" if "t \<in> F" for t
  proof -
    have eq: "h_iblkref s' b = h_iblkref s b" if "b \<in> set (list_head (h_inode s t))" for b
      using blocks_listD(4) [OF inv \<open>t \<in> F\<close>] ib that by auto
    then have "map (\<lambda>b. ib_off (h_iblkref s' b)) (list_head (h_inode s t)) =
          map (\<lambda>b. ib_off (h_iblkref s b)) (list_head (h_inode s t))" by simp
    note * = this
    show ?thesis using blocks_listD(2) [OF inv that]
      unfolding list_ok_def ino [OF that] * by (simp add: eq)
  qed
  have dp: "dpage s' d = dpage s d" if "d \<in> B" for d
    by (rule dpage_cong) (use k that in \<open>simp_all add: keeps_def\<close>)
  have "inj_on (dpage s') B = inj_on (dpage s) B" by (rule inj_on_cong) (rule dp)
  moreover have "h_dblkref s' d = h_dblkref s d" if "d \<in> B" for d using that k by (simp add: keeps_def)
  ultimately show ?thesis
    using inv lst ino dp refs_keeps [OF inv k] by (simp add: blocks_inv_def)
qed

lemma fetch_cong:
  assumes "list_head (h_inode s' t) = list_head (h_inode s t)"
    "\<And>ib. ib \<in> set (list_head (h_inode s t)) \<Longrightarrow> ib_off (h_iblkref s' ib) = ib_off (h_iblkref s ib)"
  shows "fetch_iblkref t pos s' = fetch_iblkref t pos s"
  unfolding fetch_iblkref_def Let_def toyfs_iblkrefs_list_of_def assms(1)
  by (rule find_cong_set) (simp add: assms(2))

lemma fetch_SomeD:
  "fetch_iblkref t pos s = Some ib \<Longrightarrow>
   ib \<in> set (list_head (h_inode s t)) \<and> ib_off (h_iblkref s ib) = off_to_boff pos"
  by (auto simp: fetch_iblkref_def Let_def toyfs_iblkrefs_list_of_def dest: find_SomeD)

lemma fetch_SomeI:
  assumes "sorted_wrt (<) (map (\<lambda>ib. ib_off (h_iblkref s ib)) (list_head (h_inode s t)))"
    "ib \<in> set (list_head (h_inode s t))" "ib_off (h_iblkref s ib) = off_to_boff pos"
  shows "fetch_iblkref t pos s = Some ib"
  unfolding fetch_iblkref_def Let_def toyfs_iblkrefs_list_of_def
proof (rule find_unique)
  fix y assume "y \<in> set (list_head (h_inode s t))" "ib_off (h_iblkref s y) = off_to_boff pos"
  then show "y = ib" using sorted_wrt_map_less_inj [OF assms(1), of y ib] assms(2,3) by simp
qed (use assms in simp_all)

lemma content_keeps:
  assumes inv: "blocks_inv D B I N X F s" and k: "keeps D B I N s s'" and t: "t \<in> F"
  shows "content s' t = content s t"
proof
  fix pos
  have ino: "h_inode s' t = h_inode s t"
    using blocks_listD(1) [OF inv t] k by (simp add: keeps_def)
  have ib: "h_iblkref s' b = h_iblkref s b" if "b \<in> set (list_head (h_inode s t))" for b
    using that k blocks_listD(4) [OF inv t] by (auto simp: keeps_def)
  have f: "fetch_iblkref t pos s' = fetch_iblkref t pos s"
    by (rule fetch_cong) (simp_all add: ino ib)
  show "content s' t pos = content s t pos"
  proof (cases "fetch_iblkref t pos s")
    case (Some b)
    note b = fetch_SomeD [OF Some, THEN conjunct1]
    obtain d where d: "ib_dblkref (h_iblkref s b) = Some d" "d \<in> B" "dpage s d \<in> D"
      using blocks_ibD [OF inv t b] by blast
    have "dpage s' d = dpage s d" by (rule dpage_cong) (use k d in \<open>simp_all add: keeps_def\<close>)
    with d Some f ib [OF b] k show ?thesis by (simp add: content_def keeps_def)
  qed (simp add: content_def f)
qed

section \<open>Allocation of a data block\<close>

lemma data_page_nonnull: "pool_inv D B I N s \<Longrightarrow> p \<in> D \<Longrightarrow> p \<noteq> 0"
proof -
  assume "pool_inv D B I N s" and p: "p \<in> D"
  then obtain r where r: "role_inv r D B I N s" by (auto simp: pool_inv_def)
  let ?cs = "cells (pool_mem (s_pool s)) (f_blocks (s_statvfs s))"
  have "having ?cs r DataR = D" and m: "md_ok (s_md s) (pool_mem (s_pool s)) (f_blocks (s_statvfs s))"
    using r by (simp_all add: role_inv_def Let_def)
  then have "p \<in> ?cs" using p having_subset by blast
  with m show "p \<noteq> 0" by (auto simp: cells_def md_ok_def)
qed

lemma new_dblkref_Some:
  assumes inv: "pool_inv D B I N s" and n: "new_dblkref s = (Some d, s')"
  shows "d \<notin> B" "dpage s' d \<notin> D" "dpage s' d \<noteq> 0"
    "pool_inv (insert (dpage s' d) D) (insert d B) I N s'" "keeps D B I N s s'"
    "h_iblkref s' = h_iblkref s" "h_inode s' = h_inode s" "s_md s' = s_md s"
    "db_refcnt (h_dblkref s' d) = 1"
    "\<And>i. i < PAGE_SIZE \<Longrightarrow> h_dat s' (dpage s' d) i = 0" "h_tii s' = h_tii s"
proof -
  from n obtain p s1 s2 where a: "toyfs_acquire_pmemb s = (Some p, s1)"
    and b: "toyfs_acquire_dblkref s1 = (Some d, s2)"
    and s': "s' = upd_dblkref d (\<lambda>r. r\<lparr>db_bn := toyfs_addr2bn s2 p, db_refcnt := 1\<rparr>) s2"
    by (auto simp: new_dblkref_def split: prod.splits option.splits)
  note A = page_src.acquire_law [OF inv a] and fa = acquire_pmemb_frame [OF a]
  note Bq = dblk_src.acquire_law [OF A [THEN conjunct2] b] and fb = acquire_dblkref_frame [OF b]
  have inv2: "pool_inv (insert p D) (insert d B) I N s2" using Bq by simp
  have "dpage s' d = toyfs_bn2pmemb s2 (toyfs_addr2bn s2 p)"
    by (simp add: s' dpage_def toyfs_bn2pmemb_def toyfs_bn2addr_def)
  also have "\<dots> = p" by (rule bn2pmemb_addr2bn [OF inv2]) simp
  finally have dp: "dpage s' d = p" .
  show "d \<notin> B" using Bq by simp
  show "dpage s' d \<notin> D" using A dp by simp
  show "dpage s' d \<noteq> 0" using data_page_nonnull [OF inv2, of p] dp by simp
  show "pool_inv (insert (dpage s' d) D) (insert d B) I N s'" unfolding dp using inv2 by (simp add: s')
  show "h_iblkref s' = h_iblkref s" "h_inode s' = h_inode s" "s_md s' = s_md s" "h_tii s' = h_tii s"
    using fa fb by (simp_all add: s')
  show "db_refcnt (h_dblkref s' d) = 1" by (simp add: s')
  show "\<And>i. i < PAGE_SIZE \<Longrightarrow> h_dat s' (dpage s' d) i = 0" unfolding dp using fa fb by (simp add: s')
  have "h_dat s' q = h_dat s q" if "q \<in> D" for q
    using that A fa fb by (intro ext) (auto simp: s')
  moreover have "h_dblkref s' e = h_dblkref s e" if "e \<in> B" for e
    using that Bq fa fb by (auto simp: s')
  ultimately show "keeps D B I N s s'" using fa fb by (simp add: keeps_def s')
qed

lemma new_dblkref_None:
  assumes inv: "pool_inv D B I N s" and n: "new_dblkref s = (None, s')"
  shows "pool_inv D B I N s'" "keeps D B I N s s'" "h_iblkref s' = h_iblkref s" "h_inode s' = h_inode s"
    "s_md s' = s_md s" "h_tii s' = h_tii s"
proof -
  have "pool_inv D B I N s' \<and> keeps D B I N s s' \<and> h_iblkref s' = h_iblkref s \<and> h_inode s' = h_inode s \<and>
    s_md s' = s_md s \<and> h_tii s' = h_tii s"
  proof (cases "toyfs_acquire_pmemb s")
    case (Pair a s1)
    show ?thesis
    proof (cases a)
      case None
      then have "s1 = s" using Pair page_src.fail_law [OF inv] by simp
      then show ?thesis using n inv Pair None by (simp add: new_dblkref_def)
    next
      case (Some p)
      note a = Pair [unfolded Some]
      note A = page_src.acquire_law [OF inv a] and fa = acquire_pmemb_frame [OF a]
      obtain s2 where b: "toyfs_acquire_dblkref s1 = (None, s2)" and s': "s' = toyfs_release_pmemb p s2"
        using n a by (auto simp: new_dblkref_def split: prod.splits option.splits)
      have "s2 = s1" using dblk_src.fail_law [OF A [THEN conjunct2] b] .
      then have s': "s' = toyfs_release_pmemb p s1" using s' by simp
      have "h_dat s' q = h_dat s q" if "q \<in> D" for q using that A fa by (intro ext) (auto simp: s')
      then have "keeps D B I N s s'" using fa by (simp add: keeps_def s')
      then show ?thesis using page_src.acquire_release [OF inv a] fa by (simp add: s')
    qed
  qed
  then show "pool_inv D B I N s'" "keeps D B I N s s'" "h_iblkref s' = h_iblkref s"
    "h_inode s' = h_inode s" "s_md s' = s_md s" "h_tii s' = h_tii s" by simp_all
qed

text \<open>The result of an operation that changes neither the files nor the pages outside of them.\<close>

definition same_files :: "addr set \<Rightarrow> addr set \<Rightarrow> toyfs_sb_info \<Rightarrow> toyfs_sb_info \<Rightarrow> bool" where
  "same_files X F s s' =
    ((\<forall>t\<in>F. content s' t = content s t \<and> i_size (h_inode s' t) = i_size (h_inode s t) \<and>
           i_mode (h_inode s' t) = i_mode (h_inode s t)) \<and>
     (\<forall>p\<in>X. h_dat s' p = h_dat s p) \<and> (\<forall>t. t \<notin> F \<longrightarrow> h_inode s' t = h_inode s t) \<and>
     h_tii s' = h_tii s \<and> s_md s' = s_md s)"

lemma same_files_refl [simp]: "same_files X F s s"
  by (simp add: same_files_def)

lemma same_files_trans [trans]:
  "same_files X F s s' \<Longrightarrow> same_files X F s' s'' \<Longrightarrow> same_files X F s s''"
  by (simp add: same_files_def)

lemma keeps_same_files:
  assumes inv: "blocks_inv D B I N X F s" and k: "keeps D B I N s s'" and h: "h_inode s' = h_inode s"
    and "h_tii s' = h_tii s"
  shows "same_files X F s s'"
proof -
  have "X \<subseteq> D" using inv by (simp add: blocks_inv_def)
  then show ?thesis
    using content_keeps [OF inv k] k h assms(4) by (auto simp: same_files_def keeps_def)
qed

section \<open>Changes of the reference structure\<close>

text \<open>An inode-block reference is redirected to a fresh data block.\<close>

lemma retarget_blocks_inv:
  assumes inv: "blocks_inv D B I N X F s" and t: "t \<in> F" and ib: "ib \<in> set (list_head (h_inode s t))"
    and d: "ib_dblkref (h_iblkref s ib) = Some d" and d': "d' \<notin> B" and p: "dpage s' d' \<notin> D"
    and md: "s_md s' = s_md s" and ino: "h_inode s' = h_inode s"
    and ibs: "h_iblkref s' = (h_iblkref s)(ib := (h_iblkref s ib)\<lparr>ib_dblkref := Some d'\<rparr>)"
    and bn: "\<And>e. e \<in> B \<Longrightarrow> db_bn (h_dblkref s' e) = db_bn (h_dblkref s e)"
    and rc: "\<And>e. e \<in> B \<Longrightarrow> e \<noteq> d \<Longrightarrow> db_refcnt (h_dblkref s' e) = db_refcnt (h_dblkref s e)"
    and rcd: "db_refcnt (h_dblkref s d) \<le> db_refcnt (h_dblkref s' d) + 1" "0 < db_refcnt (h_dblkref s' d)"
    and rcn: "db_refcnt (h_dblkref s' d') = 1"
  shows "blocks_inv (insert (dpage s' d') D) (insert d' B) I N X F s'"
    "refs F s' d' = {ib}"
proof -
  have XD: "X \<subseteq> D" using inv by (simp add: blocks_inv_def)
  have dB: "d \<in> B" using blocks_ibD [OF inv t ib] d by auto
  have inB: "ib_dblkref (h_iblkref s b) \<noteq> Some d'" if "u \<in> F" "b \<in> set (list_head (h_inode s u))" for u b
    using blocks_ibD [OF inv that] d' by auto
  show refs': "refs F s' d' = {ib}"
    using inB t ib by (auto simp: refs_def ino ibs)
  have refs_d: "refs F s' d = refs F s d - {ib}" using d dB d' by (auto simp: refs_def ino ibs)
  have refs_e: "refs F s' e = refs F s e" if "e \<noteq> d" "e \<noteq> d'" for e
    using that d by (auto simp: refs_def ino ibs)
  have card_d: "card (refs F s' d) \<le> db_refcnt (h_dblkref s' d)"
  proof -
    have "ib \<in> refs F s d" "card (refs F s d) \<le> db_refcnt (h_dblkref s d)"
      using blocks_ibD [OF inv t ib] d by auto
    then show ?thesis using rcd refs_finite [OF inv, of d] by (simp add: refs_d card_Diff_singleton)
  qed
  have dp: "dpage s' e = dpage s e" if "e \<in> B" for e by (rule dpage_cong [OF md bn [OF that]])
  have "inj_on (dpage s') B" using inv inj_on_cong [of B "dpage s'" "dpage s"] dp by (simp add: blocks_inv_def)
  moreover have "dpage s' d' \<notin> dpage s' ` B" using p dp inv by (auto simp: blocks_inv_def)
  ultimately have inj: "inj_on (dpage s') (insert d' B)" using d' by simp
  have off: "ib_off (h_iblkref s' b) = ib_off (h_iblkref s b)" for b by (simp add: ibs)
  have lst: "list_ok (insert d' B) I s' u" if "u \<in> F" for u
    using blocks_listD(2) [OF inv that] by (auto simp: list_ok_def iblk_ok_def ino off) (auto simp: ibs)
  have dB': "0 < db_refcnt (h_dblkref s' e) \<and> dpage s' e \<in> insert (dpage s' d') D \<and> dpage s' e \<notin> X \<and>
      card (refs F s' e) \<le> db_refcnt (h_dblkref s' e)" if eB: "e \<in> insert d' B" for e
  proof -
    consider "e = d'" | "e = d" "e \<in> B" | "e \<in> B" "e \<noteq> d" "e \<noteq> d'" using eB by blast
    then show ?thesis
    proof cases
      case 1
      then show ?thesis using rcn refs' p XD by auto
    next
      case 2
      then show ?thesis using rcd card_d inv dp by (simp add: blocks_inv_def)
    next
      case 3
      then show ?thesis using inv dp rc refs_e by (simp add: blocks_inv_def)
    qed
  qed
  show "blocks_inv (insert (dpage s' d') D) (insert d' B) I N X F s'"
    unfolding blocks_inv_def
  proof (intro conjI)
    show "\<forall>t\<in>F. list_ok (insert d' B) I s' t" using lst by blast
    show "\<forall>d\<in>insert d' B. 0 < db_refcnt (h_dblkref s' d) \<and> dpage s' d \<in> insert (dpage s' d') D \<and>
        dpage s' d \<notin> X \<and> card (refs F s' d) \<le> db_refcnt (h_dblkref s' d)" using dB' by blast
  qed (use inv inj XD in \<open>auto simp: blocks_inv_def ino\<close>)
qed

text \<open>The contents do not change when the fresh block holds the same bytes.\<close>

lemma retarget_content:
  assumes inv: "blocks_inv D B I N X F s" and t: "t \<in> F"
    and d: "ib_dblkref (h_iblkref s ib) = Some d"
    and md: "s_md s' = s_md s" and ino: "h_inode s' = h_inode s"
    and ibs: "h_iblkref s' = (h_iblkref s)(ib := (h_iblkref s ib)\<lparr>ib_dblkref := Some d'\<rparr>)"
    and bn: "\<And>e. e \<in> B \<Longrightarrow> db_bn (h_dblkref s' e) = db_bn (h_dblkref s e)"
    and dat: "\<And>q. q \<in> D \<Longrightarrow> h_dat s' q = h_dat s q"
    and cpy: "\<And>i. i < PAGE_SIZE \<Longrightarrow> h_dat s' (dpage s' d') i = h_dat s (dpage s d) i"
  shows "content s' t = content s t"
proof
  fix pos
  have f: "fetch_iblkref t pos s' = fetch_iblkref t pos s"
    by (rule fetch_cong) (simp_all add: ino ibs)
  show "content s' t pos = content s t pos"
  proof (cases "fetch_iblkref t pos s")
    case (Some b)
    obtain e where e: "ib_dblkref (h_iblkref s b) = Some e" "e \<in> B" "dpage s e \<in> D"
      using blocks_ibD [OF inv t fetch_SomeD [OF Some, THEN conjunct1]] by blast
    have "nat (pos mod 4096) < PAGE_SIZE" by (simp add: nat_less_iff)
    moreover have "dpage s' e = dpage s e" by (rule dpage_cong [OF md bn [OF e(2)]])
    ultimately show ?thesis
      using f Some e d cpy dat by (cases "b = ib") (simp_all add: content_def ibs)
  qed (simp add: content_def f)
qed

text \<open>A fresh inode-block reference with a fresh data block is linked into a file.\<close>

lemma require_scan_None:
  "\<lbrakk>require_scan s boff xs = (None, k); sorted_wrt (<) (map (\<lambda>ib. ib_off (h_iblkref s ib)) xs)\<rbrakk> \<Longrightarrow>
   (\<forall>x\<in>set (take k xs). ib_off (h_iblkref s x) < boff) \<and> (\<forall>x\<in>set (drop k xs). boff < ib_off (h_iblkref s x))"
proof (induction xs arbitrary: k)
  case (Cons x xs)
  then show ?case by (auto split: if_splits prod.splits)
qed simp

lemma require_scan_Some:
  "require_scan s boff xs = (Some ib, k) \<Longrightarrow> ib \<in> set xs \<and> ib_off (h_iblkref s ib) = boff"
  by (induction xs arbitrary: k) (auto split: if_splits prod.splits)

lemma set_list_insert [simp]: "set (list_insert e k xs) = insert e (set xs)"
proof -
  have "set (list_insert e k xs) = insert e (set (take k xs @ drop k xs))"
    by (simp only: list_insert_def set_append) auto
  then show ?thesis by simp
qed

lemma length_list_insert [simp]: "length (list_insert e k xs) = Suc (length xs)"
  by (simp add: list_insert_def)

lemma sorted_list_insert:
  assumes "sorted_wrt (<) (map f xs)" "\<forall>x\<in>set (take k xs). f x < f e" "\<forall>x\<in>set (drop k xs). f e < f x"
  shows "sorted_wrt (<) (map f (list_insert e k xs))"
proof -
  have "sorted_wrt (<) (map f (take k xs @ drop k xs))" using assms(1) by simp
  then have "sorted_wrt (<) (map f (take k xs))" "sorted_wrt (<) (map f (drop k xs))"
    "\<forall>x\<in>set (take k xs). \<forall>y\<in>set (drop k xs). f x < f y"
    by (simp_all only: map_append sorted_wrt_append) auto
  then show ?thesis using assms(2,3) by (auto simp: list_insert_def sorted_wrt_append)
qed

lemma link_blocks_inv:
  assumes inv: "blocks_inv D B I N X F s" and t: "t \<in> F"
    and ib: "ib \<notin> I" and d': "d' \<notin> B" and p: "dpage s' d' \<notin> D" and md: "s_md s' = s_md s"
    and ibs: "h_iblkref s' = (h_iblkref s)(ib := r)"
    and r: "ib_off r = boff" "0 \<le> boff" "boff mod 4096 = 0" "ib_dblkref r = Some d'"
    and ino: "\<And>u. u \<noteq> t \<Longrightarrow> h_inode s' u = h_inode s u"
      "list_head (h_inode s' t) = list_insert ib k (list_head (h_inode s t))"
      "i_blocks (h_inode s' t) = i_blocks (h_inode s t) + 1"
    and k: "require_scan s boff (list_head (h_inode s t)) = (None, k)"
    and db: "\<And>e. e \<in> B \<Longrightarrow> h_dblkref s' e = h_dblkref s e"
    and rcn: "db_refcnt (h_dblkref s' d') = 1"
  shows "blocks_inv (insert (dpage s' d') D) (insert d' B) (insert ib I) N X F s'"
    "refs F s' d' = {ib}"
proof -
  have XD: "X \<subseteq> D" using inv by (simp add: blocks_inv_def)
  have lI: "ib \<notin> set (list_head (h_inode s u))" if "u \<in> F" for u
    using blocks_listD(4) [OF inv that] ib by auto
  have lset: "set (list_head (h_inode s' u)) =
      (if u = t then insert ib (set (list_head (h_inode s t))) else set (list_head (h_inode s u)))" for u
    using ino by simp
  have same: "h_iblkref s' b = h_iblkref s b" if "u \<in> F" "b \<in> set (list_head (h_inode s u))" for u b
    using lI [OF that(1)] that(2) by (auto simp: ibs)
  have inB: "ib_dblkref (h_iblkref s b) \<noteq> Some d'" if "u \<in> F" "b \<in> set (list_head (h_inode s u))" for u b
    using blocks_ibD [OF inv that] d' by auto
  show refs': "refs F s' d' = {ib}"
    using inB t lI r by (auto simp: refs_def lset ibs split: if_splits)
  have lmem: "b \<in> set (list_head (h_inode s' u)) \<longleftrightarrow> b \<in> set (list_head (h_inode s u)) \<or> u = t \<and> b = ib" for b u
    using lset by auto
  have refs_e: "refs F s' e = refs F s e" if "e \<noteq> d'" for e
    using that lI r by (auto simp: refs_def lmem ibs split: if_splits)
  have dp: "dpage s' e = dpage s e" if "e \<in> B" for e by (rule dpage_cong [OF md]) (simp add: db that)
  have "inj_on (dpage s') B" using inv inj_on_cong [of B "dpage s'" "dpage s"] dp by (simp add: blocks_inv_def)
  moreover have "dpage s' d' \<notin> dpage s' ` B" using p dp inv by (auto simp: blocks_inv_def)
  ultimately have inj: "inj_on (dpage s') (insert d' B)" using d' by simp
  have lst: "list_ok (insert d' B) (insert ib I) s' u" if u: "u \<in> F" for u
  proof -
    have old: "map (\<lambda>b. ib_off (h_iblkref s' b)) (list_head (h_inode s u)) =
        map (\<lambda>b. ib_off (h_iblkref s b)) (list_head (h_inode s u))"
      using same [OF u] by simp
    have srt: "sorted_wrt (<) (map (\<lambda>b. ib_off (h_iblkref s' b)) (list_head (h_inode s u)))"
      unfolding old by (rule blocks_listD(3) [OF inv u])
    have ok: "iblk_ok (insert d' B) (h_iblkref s' b)" if "b \<in> set (list_head (h_inode s u))" for b
      using blocks_listD(2) [OF inv u] that same [OF u that] by (auto simp: list_ok_def iblk_ok_def)
    have oki: "iblk_ok (insert d' B) (h_iblkref s' ib)" using r by (simp add: ibs iblk_ok_def)
    have srt': "sorted_wrt (<) (map (\<lambda>b. ib_off (h_iblkref s' b)) (list_insert ib k (list_head (h_inode s t))))"
      if "u = t"
    proof (rule sorted_list_insert)
      show "sorted_wrt (<) (map (\<lambda>b. ib_off (h_iblkref s' b)) (list_head (h_inode s t)))"
        using srt that by simp
      show "\<forall>x\<in>set (take k (list_head (h_inode s t))). ib_off (h_iblkref s' x) < ib_off (h_iblkref s' ib)"
        "\<forall>x\<in>set (drop k (list_head (h_inode s t))). ib_off (h_iblkref s' ib) < ib_off (h_iblkref s' x)"
        using require_scan_None [OF k blocks_listD(3) [OF inv t]] lI [OF t] r
        by (auto simp: ibs dest: in_set_takeD in_set_dropD)
    qed
    show ?thesis
    proof (cases "u = t")
      case True
      then show ?thesis using blocks_listD(2) [OF inv u] ino ok oki srt' by (auto simp: list_ok_def)
    next
      case False
      then show ?thesis using blocks_listD(2) [OF inv u] ino(1) ok srt by (auto simp: list_ok_def)
    qed
  qed
  have dB': "0 < db_refcnt (h_dblkref s' e) \<and> dpage s' e \<in> insert (dpage s' d') D \<and> dpage s' e \<notin> X \<and>
      card (refs F s' e) \<le> db_refcnt (h_dblkref s' e)" if eB: "e \<in> insert d' B" for e
  proof (cases "e = d'")
    case True
    then show ?thesis using rcn refs' p XD by auto
  next
    case False
    then show ?thesis using eB inv dp db refs_e by (simp add: blocks_inv_def)
  qed
  show "blocks_inv (insert (dpage s' d') D) (insert d' B) (insert ib I) N X F s'"
    unfolding blocks_inv_def
  proof (intro conjI)
    show "\<forall>t\<in>F. list_ok (insert d' B) (insert ib I) s' t" using lst by blast
    show "\<forall>d\<in>insert d' B. 0 < db_refcnt (h_dblkref s' d) \<and> dpage s' d \<in> insert (dpage s' d') D \<and>
        dpage s' d \<notin> X \<and> card (refs F s' d) \<le> db_refcnt (h_dblkref s' d)" using dB' by blast
    show "\<forall>u\<in>F. \<forall>v\<in>F. u \<noteq> v \<longrightarrow> set (list_head (h_inode s' u)) \<inter> set (list_head (h_inode s' v)) = {}"
      using inv lI unfolding lset by (auto simp: blocks_inv_def)
  qed (use inv inj XD in \<open>auto simp: blocks_inv_def\<close>)
qed

lemma link_content:
  assumes inv: "blocks_inv D B I N X F s" and u: "u \<in> F" and t: "t \<in> F"
    and ib: "ib \<notin> I" and md: "s_md s' = s_md s"
    and ibs: "h_iblkref s' = (h_iblkref s)(ib := r)"
    and r: "ib_off r = boff" "ib_dblkref r = Some d'"
    and srt: "sorted_wrt (<) (map (\<lambda>ib. ib_off (h_iblkref s' ib)) (list_head (h_inode s' t)))"
    and ino: "\<And>u. u \<noteq> t \<Longrightarrow> h_inode s' u = h_inode s u"
      "list_head (h_inode s' t) = list_insert ib k (list_head (h_inode s t))"
    and k: "require_scan s boff (list_head (h_inode s t)) = (None, k)"
    and db: "\<And>e. e \<in> B \<Longrightarrow> h_dblkref s' e = h_dblkref s e"
    and dat: "\<And>q. q \<in> D \<Longrightarrow> h_dat s' q = h_dat s q"
    and zero: "\<And>i. i < PAGE_SIZE \<Longrightarrow> h_dat s' (dpage s' d') i = 0"
  shows "content s' u = content s u"
proof
  fix pos
  have lI: "ib \<notin> set (list_head (h_inode s u))" if "u \<in> F" for u
    using blocks_listD(4) [OF inv that] ib by auto
  have old: "content s' u pos = h_dat s (dpage s e) (nat (pos mod 4096))"
    if f: "fetch_iblkref u pos s' = Some b" and b: "b \<in> set (list_head (h_inode s u))"
      and e: "ib_dblkref (h_iblkref s b) = Some e" for b e
  proof -
    have "e \<in> B" "dpage s e \<in> D" using blocks_ibD [OF inv u b] e by auto
    moreover have "dpage s' e = dpage s e" by (rule dpage_cong [OF md]) (simp add: db \<open>e \<in> B\<close>)
    moreover have "b \<noteq> ib" using lI [OF u] b by auto
    ultimately show ?thesis using f e dat by (simp add: content_def ibs)
  qed
  show "content s' u pos = content s u pos"
  proof (cases "fetch_iblkref u pos s")
    case (Some b)
    note b = fetch_SomeD [OF Some]
    have ne: "b \<noteq> ib" using lI [OF u] b by auto
    have "fetch_iblkref u pos s' = Some b"
    proof (cases "u = t")
      case True
      then show ?thesis using b ne ino(2) srt by (intro fetch_SomeI) (auto simp: ibs)
    next
      case False
      have "fetch_iblkref u pos s' = fetch_iblkref u pos s"
        by (rule fetch_cong) (use False ino(1) lI [OF u] in \<open>auto simp: ibs\<close>)
      with Some show ?thesis by simp
    qed
    moreover obtain e where "ib_dblkref (h_iblkref s b) = Some e"
      using blocks_ibD [OF inv u b [THEN conjunct1]] by blast
    ultimately show ?thesis using old b Some by (simp add: content_def)
  next
    case None
    have "content s' u pos = 0"
    proof (cases "fetch_iblkref u pos s'")
      case (Some b)
      note b = fetch_SomeD [OF Some]
      show ?thesis
      proof (cases "b = ib")
        case True
        have "nat (pos mod 4096) < PAGE_SIZE" by (simp add: nat_less_iff)
        then show ?thesis using Some True zero r by (simp add: content_def ibs)
      next
        case False
        then have "b \<in> set (list_head (h_inode s u))" "ib_off (h_iblkref s b) = off_to_boff pos"
          using b ino by (cases "u = t"; auto simp: ibs)+
        then show ?thesis using None
          by (auto simp: fetch_iblkref_def Let_def toyfs_iblkrefs_list_of_def find_None_all)
      qed
    qed (simp add: content_def)
    then show ?thesis using None by (simp add: content_def)
  qed
qed

section \<open>Release of a data block\<close>

lemma free_dblkref_pool:
  assumes inv: "pool_inv D B I N s" and d: "d \<in> B" "dpage s d \<in> D"
  shows "pool_inv (D - {dpage s d}) (B - {d}) I N (free_dblkref d s)"
proof -
  have "pool_inv D (B - {d}) I N (toyfs_release_dblkref d s)" by (rule dblk_src.release_law [OF inv d(1)])
  moreover have "toyfs_bn2pmemb (toyfs_release_dblkref d s) (db_bn (h_dblkref s d)) = dpage s d"
    by (simp add: dpage_def toyfs_bn2pmemb_def toyfs_bn2addr_def)
  ultimately show ?thesis using page_src.release_law d(2) by (simp add: free_dblkref_def Let_def)
qed

lemma free_dblkref_frame [simp]:
  "s_md (free_dblkref d s) = s_md s" "h_inode (free_dblkref d s) = h_inode s"
  "h_iblkref (free_dblkref d s) = h_iblkref s" "h_dat (free_dblkref d s) = h_dat s"
  "h_tii (free_dblkref d s) = h_tii s" "e \<noteq> d \<Longrightarrow> h_dblkref (free_dblkref d s) e = h_dblkref s e"
  by (simp_all add: free_dblkref_def Let_def)

lemma decref_dblkref_eq:
  "0 < db_refcnt (h_dblkref s d) \<Longrightarrow>
   decref_dblkref d s =
     Some (let s1 = upd_dblkref d (\<lambda>r. r\<lparr>db_refcnt := db_refcnt r - 1\<rparr>) s
           in if db_refcnt (h_dblkref s d) = 1 then free_dblkref d s1 else s1)"
  by (auto simp: decref_dblkref_def Let_def)

lemma dpage_upd_dblkref:
  "(\<And>r. db_bn (g r) = db_bn r) \<Longrightarrow> dpage (upd_dblkref d g s) e = dpage s e"
  by (simp add: dpage_def toyfs_bn2pmemb_def toyfs_bn2addr_def)

lemma decref_fresh:
  assumes inv: "pool_inv (insert p D) (insert d B) I N s" and "p \<notin> D" "d \<notin> B" "dpage s d = p"
    "db_refcnt (h_dblkref s d) = 1"
  shows "\<exists>s'. decref_dblkref d s = Some s' \<and> pool_inv D B I N s' \<and> keeps D B I N s s' \<and>
    h_inode s' = h_inode s \<and> h_tii s' = h_tii s"
proof -
  let ?s1 = "upd_dblkref d (\<lambda>r. r\<lparr>db_refcnt := db_refcnt r - 1\<rparr>) s"
  have dp: "dpage ?s1 d = p" using assms(4) by (simp add: dpage_upd_dblkref)
  have "pool_inv (insert p D - {dpage ?s1 d}) (insert d B - {d}) I N (free_dblkref d ?s1)"
    by (rule free_dblkref_pool) (use inv dp in auto)
  then have "pool_inv D B I N (free_dblkref d ?s1)" using assms(2,3) dp by simp
  moreover have "e \<noteq> d" if "e \<in> B" for e using that assms(3) by auto
  then have "keeps D B I N s (free_dblkref d ?s1)" by (simp add: keeps_def)
  moreover have "decref_dblkref d s = Some (free_dblkref d ?s1)"
    using assms(5) by (simp add: decref_dblkref_eq Let_def)
  ultimately show ?thesis by simp
qed

section \<open>Allocation on demand\<close>

definition sole :: "addr set \<Rightarrow> toyfs_sb_info \<Rightarrow> addr \<Rightarrow> bool" where
  "sole F s ib = (\<exists>d. ib_dblkref (h_iblkref s ib) = Some d \<and> refs F s d = {ib})"

lemma sole_refcnt1:
  assumes inv: "blocks_inv D B I N X F s" and t: "t \<in> F" and ib: "ib \<in> set (list_head (h_inode s t))"
    and d: "ib_dblkref (h_iblkref s ib) = Some d" and rc: "db_refcnt (h_dblkref s d) \<le> 1"
  shows "sole F s ib"
proof -
  have "ib \<in> refs F s d" "card (refs F s d) \<le> 1"
    using blocks_ibD [OF inv t ib] d rc by auto
  then have "refs F s d = {ib}"
    using card_le_Suc0_iff_eq [OF refs_finite [OF inv, of d]] by auto
  then show ?thesis using d by (auto simp: sole_def)
qed

lemma new_iblkref_spec:
  assumes pool: "pool_inv D B I N s"
  obtains s' where "new_iblkref t boff s = Some (None, s')" "pool_inv D B I N s'" "keeps D B I N s s'"
      "h_inode s' = h_inode s" "h_tii s' = h_tii s"
  | ib d s1 s2 s' where "new_iblkref t boff s = Some (Some ib, s')" "new_dblkref s = (Some d, s1)"
      "toyfs_acquire_iblkref s1 = (Some ib, s2)"
      "s' = upd_inode t (\<lambda>zi. zi\<lparr>i_blocks := i_blocks zi + 1\<rparr>)
                (upd_iblkref ib (\<lambda>r. r\<lparr>ib_dblkref := Some d, ib_off := boff\<rparr>) s2)"
proof (cases "new_dblkref s")
  case (Pair a s1)
  show thesis
  proof (cases a)
    case None
    with Pair have n: "new_dblkref s = (None, s1)" by simp
    show thesis by (rule that(1) [of s1]) (use new_dblkref_None [OF pool n] n in \<open>simp_all add: new_iblkref_def\<close>)
  next
    case (Some d)
    with Pair have n: "new_dblkref s = (Some d, s1)" by simp
    note N1 = new_dblkref_Some [OF pool n]
    show thesis
    proof (cases "toyfs_acquire_iblkref s1")
      case (Pair b s2)
      show thesis
      proof (cases b)
        case None
        then have "s2 = s1" using iblk_src.fail_law [OF N1(4)] Pair by simp
        moreover obtain s3 where s3: "decref_dblkref d s1 = Some s3" "pool_inv D B I N s3"
          "keeps D B I N s1 s3" "h_inode s3 = h_inode s1" "h_tii s3 = h_tii s1"
          using decref_fresh [OF N1(4) N1(2) N1(1) refl N1(9)] by blast
        ultimately show thesis using n Pair None N1 keeps_trans [OF N1(5) s3(3)]
          by (intro that(1) [of s3]) (simp_all add: new_iblkref_def)
      next
        case (Some ib)
        then show thesis using n Pair by (intro that(2) [of ib _ d s1 s2]) (simp_all add: new_iblkref_def)
      qed
    qed
  qed
qed

lemma require_new:
  assumes pool: "pool_inv D B I N s" and inv: "blocks_inv D B I N X F s" and t: "t \<in> F" and off: "0 \<le> off"
    and sc: "require_scan s (off_to_boff off) (list_head (h_inode s t)) = (None, k)"
  shows "\<exists>r s'. require_iblkref t off s = Some (r, s') \<and> fs_ok N X F s' \<and> same_files X F s s' \<and>
    (\<forall>ib. r = Some ib \<longrightarrow> fetch_iblkref t off s' = Some ib \<and> sole F s' ib)"
  using pool
proof (cases rule: new_iblkref_spec [where t = t and boff = "off_to_boff off"])
  case (1 s')
  then have "require_iblkref t off s = Some (None, s')"
    using sc by (simp add: require_iblkref_def toyfs_iblkrefs_list_of_def)
  then show ?thesis using 1 blocks_inv_keeps [OF inv 1(3)] keeps_same_files [OF inv 1(3)]
    by (auto simp: fs_ok_def)
next
  case (2 ib d s1 s2 s3)
  note N1 = new_dblkref_Some [OF pool 2(2)]
  note I1 = iblk_src.acquire_law [OF N1(4) 2(3)] and fr = acquire_iblkref_frame [OF 2(3)]
  let ?s' = "upd_inode t (\<lambda>zi. zi\<lparr>list_head := list_insert ib k (list_head zi)\<rparr>) s3"
  have req: "require_iblkref t off s = Some (Some ib, ?s')"
    using sc 2(1) by (simp add: require_iblkref_def toyfs_iblkrefs_list_of_def)
  have dp: "dpage ?s' d = dpage s1 d"
    by (rule dpage_cong) (use 2(4) fr in simp_all)
  have ibs: "h_iblkref ?s' = (h_iblkref s)(ib := (h_iblkref s2 ib)\<lparr>ib_dblkref := Some d, ib_off := off_to_boff off\<rparr>)"
    using 2(4) fr N1(6) by (auto simp: fun_eq_iff)
  have boff: "0 \<le> off_to_boff off" "off_to_boff off mod 4096 = 0"
    using off by (simp_all add: off_arith(1) minus_mod_eq_mult_div)
  have db: "h_dblkref ?s' e = h_dblkref s e" if "e \<in> B" for e
    using that 2(4) fr N1(5) by (simp add: keeps_def)
  have k: "keeps D B I N s s1" by (rule N1(5))
  have L: "blocks_inv (insert (dpage ?s' d) D) (insert d B) (insert ib I) N X F ?s'" "refs F ?s' d = {ib}"
    by (rule link_blocks_inv [OF inv t, where k = k and boff = "off_to_boff off", OF _ _ _ _ ibs];
        use I1 N1 dp 2(4) fr boff sc db in simp)+
  have pool': "pool_inv (insert (dpage ?s' d) D) (insert d B) (insert ib I) N ?s'"
    unfolding dp using I1 2(4) by simp
  have srt: "sorted_wrt (<) (map (\<lambda>ib. ib_off (h_iblkref ?s' ib)) (list_head (h_inode ?s' t)))"
    by (rule blocks_listD(3) [OF L(1) t])
  have cont: "content ?s' u = content s u" if "u \<in> F" for u
    by (rule link_content [OF inv that t, where k = k and boff = "off_to_boff off" and d' = d, OF _ _ ibs];
        use I1 N1 dp 2(4) fr sc db srt k in \<open>simp add: keeps_def\<close>)
  have X: "h_dat ?s' p = h_dat s p" if "p \<in> X" for p
    using that inv k 2(4) fr by (auto simp: blocks_inv_def keeps_def)
  have "ib \<in> set (list_head (h_inode ?s' t))" by simp
  then have "fetch_iblkref t off ?s' = Some ib" 
    by (intro fetch_SomeI [OF srt]) (use 2(4) in simp_all)
  moreover have "sole F ?s' ib" using L(2) 2(4) by (auto simp: sole_def)
  moreover have "same_files X F s ?s'"
    using cont X N1 2(4) fr t by (auto simp: same_files_def)
  ultimately show ?thesis using req L(1) pool' by (auto simp: fs_ok_def)
qed

lemma copy_pmemb_full:
  "pmemb \<noteq> 0 \<Longrightarrow> copy_pmemb pmemb other s = Some (upd_dat pmemb 0 PAGE_SIZE (h_dat s other) s)"
  by (simp add: copy_pmemb_def copy_in_def size_add_def cast_size_def)

text \<open>
  The copy-on-write step that \<open>_require_iblkref\<close> and \<open>_unique_pmemb\<close> share: a fresh block receives a
  copy of the page, and the reference moves to it. \<open>f\<close> is the change of the old reference count.
\<close>

lemma cow_step:
  assumes pool: "pool_inv D B I N s" and inv: "blocks_inv D B I N X F s" and t: "t \<in> F"
    and ib: "ib \<in> set (list_head (h_inode s t))" and d: "ib_dblkref (h_iblkref s ib) = Some d"
    and n: "new_dblkref s = (Some d', s1)"
    and f: "\<And>r. db_bn (f r) = db_bn r" "db_refcnt (h_dblkref s d) \<le> db_refcnt (f (h_dblkref s d)) + 1"
      "0 < db_refcnt (f (h_dblkref s d))"
    and s': "s' = upd_iblkref ib (\<lambda>r. r\<lparr>ib_dblkref := Some d'\<rparr>)
               (upd_dblkref d f (upd_dat (dpage s1 d') 0 PAGE_SIZE (h_dat s1 (dpage s d)) s1))"
  shows "fs_ok N X F s'" "same_files X F s s'" "sole F s' ib" "dpage s' d' = dpage s1 d'"
    "h_inode s' = h_inode s"
    "\<exists>D' B'. pool_inv D' B' I N s' \<and> blocks_inv D' B' I N X F s' \<and> d' \<in> B' \<and>
       ib_dblkref (h_iblkref s' ib) = Some d'"
proof -
  note N1 = new_dblkref_Some [OF pool n]
  have dB: "d \<in> B" "dpage s d \<in> D" using blocks_ibD [OF inv t ib] d by auto
  have dd: "d' \<noteq> d" using N1(1) dB by auto
  show dp: "dpage s' d' = dpage s1 d'" by (rule dpage_cong) (use dd in \<open>simp_all add: s'\<close>)
  show ino: "h_inode s' = h_inode s" using N1 by (simp add: s')
  have ibs: "h_iblkref s' = (h_iblkref s)(ib := (h_iblkref s ib)\<lparr>ib_dblkref := Some d'\<rparr>)"
    using N1 by (simp add: s')
  have k: "h_dblkref s1 e = h_dblkref s e" if "e \<in> B" for e using N1(5) that by (simp add: keeps_def)
  have dat: "h_dat s' q = h_dat s q" if "q \<in> D" for q
    using that N1(2,5) by (intro ext) (auto simp: s' h_dat_upd_dat keeps_def)
  have bn: "db_bn (h_dblkref s' e) = db_bn (h_dblkref s e)" if "e \<in> B" for e
    using k [OF that] f(1) by (auto simp: s')
  have L: "blocks_inv (insert (dpage s' d') D) (insert d' B) I N X F s'" "refs F s' d' = {ib}"
    by (rule retarget_blocks_inv [OF inv t ib d, of d']; use N1 dp ino ibs bn k f dd dB in \<open>simp add: s'\<close>)+
  have pool': "pool_inv (insert (dpage s' d') D) (insert d' B) I N s'"
    unfolding dp using N1(4) by (simp add: s')
  have cpy: "h_dat s' (dpage s' d') i = h_dat s (dpage s d) i" if "i < PAGE_SIZE" for i
    using that N1(5) dB unfolding dp by (simp add: s' h_dat_upd_dat keeps_def)
  have "content s' u = content s u" if "u \<in> F" for u
    by (rule retarget_content [OF inv that d, of s' d']) (use N1 ino ibs bn dat cpy in \<open>simp_all add: s'\<close>)
  moreover have "h_dat s' p = h_dat s p" if "p \<in> X" for p
    using that inv dat by (auto simp: blocks_inv_def)
  ultimately show "same_files X F s s'" using N1 by (simp add: same_files_def s')
  show "fs_ok N X F s'" using L(1) pool' by (auto simp: fs_ok_def)
  show "sole F s' ib" using L(2) by (auto simp: sole_def ibs)
  show "\<exists>D' B'. pool_inv D' B' I N s' \<and> blocks_inv D' B' I N X F s' \<and> d' \<in> B' \<and>
       ib_dblkref (h_iblkref s' ib) = Some d'"
    by (intro exI [of _ "insert (dpage s' d') D"] exI [of _ "insert d' B"]) (use L pool' ibs in simp)
qed

lemma require_spec:
  assumes ok: "fs_ok N X F s" and t: "t \<in> F" and off: "0 \<le> off"
  shows "\<exists>r s'. require_iblkref t off s = Some (r, s') \<and> fs_ok N X F s' \<and> same_files X F s s' \<and>
    (\<forall>ib. r = Some ib \<longrightarrow> fetch_iblkref t off s' = Some ib \<and> sole F s' ib)"
proof -
  from ok obtain D B I where pool: "pool_inv D B I N s" and inv: "blocks_inv D B I N X F s"
    by (auto simp: fs_ok_def)
  let ?L = "list_head (h_inode s t)"
  obtain r k where sc: "require_scan s (off_to_boff off) ?L = (r, k)" by fastforce
  show ?thesis
  proof (cases r)
    case None
    then show ?thesis using require_new [OF pool inv t off] sc by simp
  next
    case (Some ib)
    have ib: "ib \<in> set ?L" "ib_off (h_iblkref s ib) = off_to_boff off"
      using require_scan_Some sc Some by auto
    have f: "fetch_iblkref t off s = Some ib" by (rule fetch_SomeI [OF blocks_listD(3) [OF inv t] ib])
    obtain d where d: "ib_dblkref (h_iblkref s ib) = Some d" "d \<in> B" "0 < db_refcnt (h_dblkref s d)"
      using blocks_ibD [OF inv t ib(1)] by blast
    note req = require_iblkref_def [of t off s] sc Some d toyfs_iblkrefs_list_of_def Let_def
    show ?thesis
    proof (cases "db_refcnt (h_dblkref s d) > 1")
      case False
      then show ?thesis using ok f sole_refcnt1 [OF inv t ib(1) d(1)] by (simp add: req)
    next
      case True
      show ?thesis
      proof (cases "new_dblkref s")
        case (Pair a s1)
        show ?thesis
        proof (cases a)
          case None
          then have n: "new_dblkref s = (None, s1)" using Pair by simp
          note N0 = new_dblkref_None [OF pool n]
          have "require_iblkref t off s = Some (None, s1)" using True n by (simp add: req)
          then show ?thesis using N0 blocks_inv_keeps [OF inv N0(2)] keeps_same_files [OF inv N0(2)]
            by (auto simp: fs_ok_def)
        next
          case (Some d')
          then have n: "new_dblkref s = (Some d', s1)" using Pair by simp
          note N1 = new_dblkref_Some [OF pool n]
          have dp: "dpage s1 d = dpage s d"
            by (rule dpage_cong) (use N1(5,8) d in \<open>simp_all add: keeps_def\<close>)
          have cd: "clone_data d' d s1 = Some (upd_dat (dpage s1 d') 0 PAGE_SIZE (h_dat s1 (dpage s d)) s1)"
            unfolding clone_data_def Let_def
            using copy_pmemb_full [OF N1(3)] dp by (simp add: dpage_def)
          let ?s' = "upd_iblkref ib (\<lambda>r. r\<lparr>ib_dblkref := Some d'\<rparr>)
            (upd_dblkref d id (upd_dat (dpage s1 d') 0 PAGE_SIZE (h_dat s1 (dpage s d)) s1))"
          have "upd_dblkref d id x = x" for x by (simp add: upd_dblkref_def)
          then have "require_iblkref t off s = Some (Some ib, ?s')" using True n cd by (simp add: req)
          moreover note C = cow_step [OF pool inv t ib(1) d(1) n, of id ?s']
          moreover have "fetch_iblkref t off ?s' = fetch_iblkref t off s"
            by (rule fetch_cong) (use N1 in simp_all)
          ultimately show ?thesis using d(3) f by (intro exI [of _ "Some ib"] exI [of _ ?s']) simp
        qed
      qed
    qed
  qed
qed

section \<open>Stores into a block that is not shared\<close>

lemma blocks_inv_upd_dat [simp]: "blocks_inv D B I N X F (upd_dat p off len src s) = blocks_inv D B I N X F s"
  by (simp add: blocks_inv_def list_ok_def refs_def dpage_def toyfs_bn2pmemb_def toyfs_bn2addr_def inj_on_def)

lemma dpage_upd_dat [simp]: "dpage (upd_dat p off len src s) d = dpage s d"
  by (rule dpage_cong) simp_all

lemma fetch_upd_dat [simp]: "fetch_iblkref t pos (upd_dat p off len src s) = fetch_iblkref t pos s"
  by (rule fetch_cong) simp_all

lemma fs_ok_upd_dat [simp]: "fs_ok N X F (upd_dat p off len src s) = fs_ok N X F s"
  by (simp add: fs_ok_def)

definition file_write :: "int \<Rightarrow> nat \<Rightarrow> (nat \<Rightarrow> byte) \<Rightarrow> (int \<Rightarrow> byte) \<Rightarrow> int \<Rightarrow> byte" where
  "file_write off len src c =
    (\<lambda>pos. if off \<le> pos \<and> pos < off + int len then src (nat (pos - off)) else c pos)"

definition others_same :: "addr set \<Rightarrow> addr set \<Rightarrow> addr \<Rightarrow> toyfs_sb_info \<Rightarrow> toyfs_sb_info \<Rightarrow> bool" where
  "others_same X F t s s' =
    ((\<forall>u\<in>F. u \<noteq> t \<longrightarrow> content s' u = content s u \<and> i_size (h_inode s' u) = i_size (h_inode s u) \<and>
        i_mode (h_inode s' u) = i_mode (h_inode s u)) \<and>
     (\<forall>p\<in>X. h_dat s' p = h_dat s p) \<and> (\<forall>u. u \<notin> F \<longrightarrow> h_inode s' u = h_inode s u) \<and>
     i_mode (h_inode s' t) = i_mode (h_inode s t) \<and> h_tii s' = h_tii s \<and> s_md s' = s_md s)"

lemma others_same_refl [simp]: "others_same X F t s s"
  by (simp add: others_same_def)

lemma others_same_trans [trans]:
  "others_same X F t s s' \<Longrightarrow> others_same X F t s' s'' \<Longrightarrow> others_same X F t s s''"
  by (simp add: others_same_def)

lemma same_files_others: "same_files X F s s' \<Longrightarrow> t \<in> F \<Longrightarrow> others_same X F t s s'"
  by (simp add: others_same_def same_files_def)

lemma same_filesD:
  "same_files X F s s' \<Longrightarrow> t \<in> F \<Longrightarrow> content s' t = content s t \<and> i_size (h_inode s' t) = i_size (h_inode s t)"
  by (simp add: same_files_def)

lemma fetch_same_page:
  assumes inv: "blocks_inv D B I N X F s" and u: "u \<in> F" and t: "t \<in> F"
    and b: "b \<in> set (list_head (h_inode s u))" "ib_dblkref (h_iblkref s b) = Some e"
    and ib: "ib_dblkref (h_iblkref s ib) = Some d" "refs F s d = {ib}" "d \<in> B"
    and eq: "dpage s e = dpage s d"
  shows "b = ib"
proof -
  have "e \<in> B" using blocks_ibD [OF inv u b(1)] b(2) by auto
  with inv ib(3) eq have "e = d" by (auto simp: blocks_inv_def inj_on_def)
  then have "b \<in> refs F s d" using b u by (auto simp: refs_def)
  with ib(2) show ?thesis by simp
qed

lemma same_block:
  fixes off pos :: int
  assumes "off \<le> pos" "pos < off + int len" "off mod 4096 + int len \<le> 4096"
  shows "pos - pos mod 4096 = off - off mod 4096"
proof -
  define r where "r = off mod 4096 + (pos - off)"
  have r: "0 \<le> r" "r < 4096" using assms pos_mod_sign [of 4096 off] by (simp_all add: r_def)
  have "pos = off div 4096 * 4096 + r" by (simp add: r_def)
  moreover have "(off div 4096 * 4096 + r) mod 4096 = r" using r by simp
  ultimately show ?thesis by (simp add: minus_mod_eq_div_mult)
qed

lemma same_block_offsets:
  fixes off pos :: int
  assumes "pos - pos mod 4096 = off - off mod 4096"
  shows "nat (off mod 4096) \<le> nat (pos mod 4096) \<longleftrightarrow> off \<le> pos"
    "nat (pos mod 4096) < nat (off mod 4096) + len \<longleftrightarrow> pos < off + int len"
    "nat (pos mod 4096) - nat (off mod 4096) = nat (pos - off)"
proof -
  obtain a b where ab: "off mod 4096 = int a" "pos mod 4096 = int b"
    using pos_mod_sign [of 4096 off] pos_mod_sign [of 4096 pos] by (metis nonneg_int_cases zero_less_numeral)
  have "pos - off = int b - int a" using assms ab by simp
  then show "nat (off mod 4096) \<le> nat (pos mod 4096) \<longleftrightarrow> off \<le> pos"
    "nat (pos mod 4096) < nat (off mod 4096) + len \<longleftrightarrow> pos < off + int len"
    "nat (pos mod 4096) - nat (off mod 4096) = nat (pos - off)"
    unfolding ab by auto
qed

lemma store_spec:
  assumes ok: "fs_ok N X F s" and t: "t \<in> F" and off: "0 \<le> off" and f: "fetch_iblkref t off s = Some ib"
    and sole: "sole F s ib" and d: "ib_dblkref (h_iblkref s ib) = Some d"
    and len: "off mod 4096 + int len \<le> 4096"
    and s': "s' = upd_dat (dpage s d) (nat (off mod 4096)) len src s"
  shows "fs_ok N X F s'" "others_same X F t s s'" "h_inode s' = h_inode s"
    "\<And>pos. 0 \<le> pos \<Longrightarrow> content s' t pos = file_write off len src (content s t) pos"
proof -
  from ok obtain D B I where inv: "blocks_inv D B I N X F s" by (auto simp: fs_ok_def)
  note ib = fetch_SomeD [OF f]
  have dB: "d \<in> B" "dpage s d \<in> D" "dpage s d \<notin> X" and rd: "refs F s d = {ib}"
    using blocks_ibD [OF inv t ib [THEN conjunct1]] d sole by (auto simp: sole_def)
  show "fs_ok N X F s'" using ok by (simp add: s')
  show hi: "h_inode s' = h_inode s" by (simp add: s')
  have page: "h_dat s' q = h_dat s q" if "q \<noteq> dpage s d" for q
    using that by (intro ext) (simp add: s' h_dat_upd_dat)
  have other: "content s' u pos = content s u pos" if u: "u \<in> F" and ne: "fetch_iblkref u pos s \<noteq> Some ib" for u pos
  proof (cases "fetch_iblkref u pos s")
    case (Some b)
    note b = fetch_SomeD [OF Some, THEN conjunct1]
    obtain e where e: "ib_dblkref (h_iblkref s b) = Some e" using blocks_ibD [OF inv u b] by blast
    have "dpage s e \<noteq> dpage s d"
      using fetch_same_page [OF inv u t b e d rd dB(1)] ne Some by auto
    then show ?thesis using Some e page by (simp add: content_def s')
  qed (simp add: content_def s')
  have lone: "ib \<notin> set (list_head (h_inode s u))" if "u \<in> F" "u \<noteq> t" for u
    using lists_disjointD [OF inv t that(1)] ib that(2) by auto
  have "content s' u = content s u" if "u \<in> F" "u \<noteq> t" for u
  proof
    fix pos
    show "content s' u pos = content s u pos"
      by (rule other [OF that(1)]) (use lone [OF that] fetch_SomeD [of u pos s ib] in auto)
  qed
  moreover have "h_dat s' p = h_dat s p" if "p \<in> X" for p using page [of p] that dB by auto
  ultimately show "others_same X F t s s'" using hi by (simp add: others_same_def s')
  fix pos :: int assume pos: "0 \<le> pos"
  show "content s' t pos = file_write off len src (content s t) pos"
  proof (cases "fetch_iblkref t pos s = Some ib")
    case False
    have "off_to_boff pos \<noteq> off_to_boff off"
      using f False by (auto simp: fetch_iblkref_def)
    then have "\<not> (off \<le> pos \<and> pos < off + int len)"
      using same_block [of off pos len] len off pos by (auto simp: off_arith(1))
    then show ?thesis using other [OF t False] by (auto simp: file_write_def)
  next
    case True
    have be: "pos - pos mod 4096 = off - off mod 4096"
      using fetch_SomeD [OF True] ib off pos by (simp add: off_arith(1))
    show ?thesis using True d same_block_offsets [OF be]
      by (simp add: content_def s' h_dat_upd_dat file_write_def)
  qed
qed

end
