(* ===== verification/ToyFile.thy ===== *)
theory ToyFile
  imports ToyBlocks
begin

text \<open>
  The file operations of \<open>fs/toyfs/file.c\<close>: read, write, truncate, fallocate with its modes, seek,
  clone and fiemap. Each C loop over offsets is a recursive function whose measure is the distance
  to the end of the range. The theorems relate the operations to the abstract contents of the files.
\<close>

section \<open>Checks\<close>

definition toyfs_isize_max :: nat where "toyfs_isize_max = 2 ^ 50"

definition check_io :: "int \<Rightarrow> nat \<Rightarrow> unit result" where
  "check_io off len =
    (let uoff = cast_size off in
     if off < 0 then Inl EINVAL
     else if len = 0 then Inl EINVAL
     else if uoff > toyfs_isize_max then Inl EFBIG
     else if size_add uoff len > toyfs_isize_max then Inl EFBIG
     else Inr ())"

definition check_rw :: "toyfs_sb_info \<Rightarrow> int \<Rightarrow> nat \<Rightarrow> unit result" where
  "check_rw s off len = (if len > zus_api_map_max_size (s_md s) then Inl EINVAL else check_io off len)"

abbreviation (input) FALLOC_FL_KEEP_SIZE :: "32 word" where "FALLOC_FL_KEEP_SIZE \<equiv> 0x01"
abbreviation (input) FALLOC_FL_PUNCH_HOLE :: "32 word" where "FALLOC_FL_PUNCH_HOLE \<equiv> 0x02"
abbreviation (input) FALLOC_FL_NO_HIDE_STALE :: "32 word" where "FALLOC_FL_NO_HIDE_STALE \<equiv> 0x04"
abbreviation (input) FALLOC_FL_COLLAPSE_RANGE :: "32 word" where "FALLOC_FL_COLLAPSE_RANGE \<equiv> 0x08"
abbreviation (input) FALLOC_FL_ZERO_RANGE :: "32 word" where "FALLOC_FL_ZERO_RANGE \<equiv> 0x10"
abbreviation (input) FALLOC_FL_INSERT_RANGE :: "32 word" where "FALLOC_FL_INSERT_RANGE \<equiv> 0x20"
abbreviation (input) FALLOC_FL_UNSHARE_RANGE :: "32 word" where "FALLOC_FL_UNSHARE_RANGE \<equiv> 0x40"

definition check_falloc :: "32 word \<Rightarrow> int \<Rightarrow> nat \<Rightarrow> unit result" where
  "check_falloc flags off len =
    (if flags AND FALLOC_FL_NO_HIDE_STALE \<noteq> 0 then Inl ENOTSUP
     else if flags AND FALLOC_FL_INSERT_RANGE \<noteq> 0 then Inl ENOTSUP
     else if flags AND FALLOC_FL_UNSHARE_RANGE \<noteq> 0 then Inl ENOTSUP
     else if flags AND FALLOC_FL_PUNCH_HOLE \<noteq> 0 \<and> flags AND FALLOC_FL_KEEP_SIZE = 0 then Inl ENOTSUP
     else if flags AND FALLOC_FL_COLLAPSE_RANGE \<noteq> 0 \<and> flags \<noteq> FALLOC_FL_COLLAPSE_RANGE then Inl ENOTSUP
     else if flags AND FALLOC_FL_COLLAPSE_RANGE \<noteq> 0 \<and> \<not> ispagealigned off len then Inl ENOTSUP
     else Inr ())"

definition max_offset :: "int \<Rightarrow> nat \<Rightarrow> nat \<Rightarrow> int" where
  "max_offset off len isize =
    (let end = off + cast_loff len in if end > cast_loff isize then end else cast_loff isize)"

definition tin_offset :: "int \<Rightarrow> nat \<Rightarrow> nat \<Rightarrow> int" where
  "tin_offset off len isize =
    (let end = off + cast_loff len in if end < cast_loff isize then end else cast_loff isize)"

section \<open>Read\<close>

function read_loop :: "addr \<Rightarrow> int \<Rightarrow> int \<Rightarrow> toyfs_sb_info \<Rightarrow> byte list run" where
  "read_loop ti off end s =
    (if off < end then do {
       pmemb \<leftarrow> fetch_pmemb_by_offset ti off s;
       let nxt = next_page off;
       let len = nbytes_in_range off nxt end;
       bytes \<leftarrow> (case pmemb of Some p \<Rightarrow> copy_out p (off_in_page off) len s | None \<Rightarrow> Some (fill_zeros len));
       rest \<leftarrow> read_loop ti nxt end s;
       Some (bytes @ rest) }
     else Some [])"
  by pat_completeness auto
termination
  by (relation "measure (\<lambda>(ti, off, end, s). nat (end - off))") (auto simp: next_page_gt)

text \<open>The bytes stored into the buffer; their number is the return value.\<close>

definition read_file :: "addr \<Rightarrow> int \<Rightarrow> nat \<Rightarrow> toyfs_sb_info \<Rightarrow> byte list result run" where
  "read_file ti off len s =
    (case check_rw s off len of
       Inl err \<Rightarrow> Some (Inl err)
     | Inr _ \<Rightarrow> map_option Inr (read_loop ti off (tin_offset off len (i_size (h_inode s ti))) s))"

section \<open>Write\<close>

function write_loop :: "addr \<Rightarrow> (nat \<Rightarrow> byte) \<Rightarrow> int \<Rightarrow> int \<Rightarrow> nat \<Rightarrow> toyfs_sb_info \<Rightarrow>
    (nat result \<times> toyfs_sb_info) run" where
  "write_loop ti buf off end cnt s =
    (if off < end then
       require_iblkref ti off s \<bind> (\<lambda>(r, s1).
         case r of None \<Rightarrow> Some (Inl ENOSPC, s1)
         | Some iblkref \<Rightarrow> do {
             pmemb \<leftarrow> iblkref_pmemb iblkref s1;
             let nxt = next_page off;
             let len = nbytes_in_range off nxt end;
             s2 \<leftarrow> copy_in pmemb buf (off_in_page off) len s1;
             write_loop ti (advance buf len) nxt end (size_add cnt len) s2 })
     else Some (Inr cnt, s))"
  by pat_completeness auto
termination
  by (relation "measure (\<lambda>(ti, buf, off, end, cnt, s). nat (end - off))") (auto simp: next_page_gt)

definition write_file :: "addr \<Rightarrow> (nat \<Rightarrow> byte) \<Rightarrow> int \<Rightarrow> nat \<Rightarrow> toyfs_sb_info \<Rightarrow>
    (nat result \<times> toyfs_sb_info) run" where
  "write_file ti buf off len s =
    (case check_rw s off len of
       Inl err \<Rightarrow> Some (Inl err, s)
     | Inr _ \<Rightarrow>
        write_loop ti buf off (off + cast_loff len) 0 s \<bind> (\<lambda>(r, s1).
          case r of Inl err \<Rightarrow> Some (Inl err, s1)
          | Inr cnt \<Rightarrow>
             Some (Inr cnt,
               upd_inode ti (\<lambda>zi. zi\<lparr>i_size := cast_size (max_offset off cnt (i_size zi))\<rparr>) s1)))"

section \<open>Fallocate\<close>

definition drop_iblkref :: "addr \<Rightarrow> addr \<Rightarrow> toyfs_sb_info \<Rightarrow> toyfs_sb_info run" where
  "drop_iblkref ti iblkref s =
    free_iblkref ti iblkref
      (upd_inode ti (\<lambda>zi. zi\<lparr>list_head := remove1 iblkref (list_head zi)\<rparr>) s)"

definition zero_range_at :: "addr \<Rightarrow> int \<Rightarrow> nat \<Rightarrow> toyfs_sb_info \<Rightarrow> toyfs_sb_info run" where
  "zero_range_at iblkref off len s = do {
     pmemb \<leftarrow> iblkref_pmemb iblkref s;
     let poff = off_in_page off;
     let pnxt = next_page poff;
     let plen = nbytes_in_range poff pnxt (poff + cast_loff len);
     assign_zeros pmemb poff plen s }"

definition punch_hole_at :: "addr \<Rightarrow> addr \<Rightarrow> int \<Rightarrow> nat \<Rightarrow> toyfs_sb_info \<Rightarrow> toyfs_sb_info run" where
  "punch_hole_at ti iblkref off len s =
    (if len < PAGE_SIZE then zero_range_at iblkref off len s else drop_iblkref ti iblkref s)"

function punch_hole_loop :: "addr \<Rightarrow> int \<Rightarrow> int \<Rightarrow> toyfs_sb_info \<Rightarrow> toyfs_sb_info run" where
  "punch_hole_loop ti off end s =
    (if off < end then do {
       let nxt = next_page off;
       let len = nbytes_in_range off nxt end;
       s1 \<leftarrow> (case fetch_iblkref ti off s of
                Some iblkref \<Rightarrow> punch_hole_at ti iblkref off len s | None \<Rightarrow> Some s);
       punch_hole_loop ti nxt end s1 }
     else Some s)"
  by pat_completeness auto
termination
  by (relation "measure (\<lambda>(ti, off, end, s). nat (end - off))") (auto simp: next_page_gt)

definition punch_hole :: "addr \<Rightarrow> int \<Rightarrow> nat \<Rightarrow> toyfs_sb_info \<Rightarrow> (unit result \<times> toyfs_sb_info) run" where
  "punch_hole ti from nbytes s =
    map_option (Pair (Inr ())) (punch_hole_loop ti from (from + cast_loff nbytes) s)"

fun zero_range_loop :: "addr list \<Rightarrow> int \<Rightarrow> int \<Rightarrow> toyfs_sb_info \<Rightarrow> toyfs_sb_info run" where
  "zero_range_loop [] off end s = Some s"
| "zero_range_loop (iblkref # itr) off end s =
    (if ib_off (h_iblkref s iblkref) < end then do {
       let nxt = next_page (ib_off (h_iblkref s iblkref));
       let len = nbytes_in_range off nxt end;
       s1 \<leftarrow> zero_range_at iblkref off len s;
       zero_range_loop itr (case itr of [] \<Rightarrow> off | iblkref' # _ \<Rightarrow> ib_off (h_iblkref s1 iblkref')) end s1 }
     else Some s)"

definition zero_range :: "addr \<Rightarrow> int \<Rightarrow> nat \<Rightarrow> toyfs_sb_info \<Rightarrow> (unit result \<times> toyfs_sb_info) run" where
  "zero_range ti from nbytes s =
    map_option (Pair (Inr ()))
      (zero_range_loop (fetch_iblkref_from ti from s) from (from + cast_loff nbytes) s)"

definition collapse_range :: "addr \<Rightarrow> int \<Rightarrow> nat \<Rightarrow> toyfs_sb_info \<Rightarrow> (unit result \<times> toyfs_sb_info) run" where
  "collapse_range ti from nbytes s =
    punch_hole ti from nbytes s \<bind> (\<lambda>(r, s1).
      case r of Inl err \<Rightarrow> Some (Inl err, s1)
      | Inr _ \<Rightarrow>
         (let s2 = (if nbytes \<le> i_size (h_inode s1 ti)
                    then upd_inode ti (\<lambda>zi. zi\<lparr>i_size := i_size zi - nbytes\<rparr>) s1 else s1)
          in Some (Inr (),
               fold (\<lambda>iblkref. upd_iblkref iblkref (\<lambda>r. r\<lparr>ib_off := ib_off r - cast_loff nbytes\<rparr>))
                 (fetch_iblkref_from ti from s2) s2)))"

function falloc_loop :: "addr \<Rightarrow> int \<Rightarrow> int \<Rightarrow> nat \<Rightarrow> toyfs_sb_info \<Rightarrow> (nat result \<times> toyfs_sb_info) run" where
  "falloc_loop ti off end cnt s =
    (if off < end then
       require_iblkref ti off s \<bind> (\<lambda>(r, s1).
         case r of None \<Rightarrow> Some (Inl ENOSPC, s1)
         | Some iblkref \<Rightarrow>
            (let nxt = next_page off;
                 len = nbytes_in_range off nxt end
             in falloc_loop ti nxt end (size_add cnt len) s1))
     else Some (Inr cnt, s))"
  by pat_completeness auto
termination
  by (relation "measure (\<lambda>(ti, off, end, cnt, s). nat (end - off))") (auto simp: next_page_gt)

definition falloc_range :: "addr \<Rightarrow> int \<Rightarrow> nat \<Rightarrow> toyfs_sb_info \<Rightarrow> (unit result \<times> toyfs_sb_info) run" where
  "falloc_range ti from nbytes s =
    falloc_loop ti from (from + cast_loff nbytes) 0 s \<bind> (\<lambda>(r, s1).
      case r of Inl err \<Rightarrow> Some (Inl err, s1)
      | Inr cnt \<Rightarrow>
         Some (Inr (),
           upd_inode ti (\<lambda>zi. zi\<lparr>i_size := cast_size (max_offset from cnt (i_size zi))\<rparr>) s1))"

definition fallocate :: "addr \<Rightarrow> 32 word \<Rightarrow> int \<Rightarrow> nat \<Rightarrow> toyfs_sb_info \<Rightarrow>
    (unit result \<times> toyfs_sb_info) run" where
  "fallocate ti mode off len s =
    (case check_io off len of Inl err \<Rightarrow> Some (Inl err, s)
     | Inr _ \<Rightarrow>
      (case check_falloc mode off len of Inl err \<Rightarrow> Some (Inl err, s)
       | Inr _ \<Rightarrow>
          if mode AND FALLOC_FL_PUNCH_HOLE \<noteq> 0 then punch_hole ti off len s
          else if mode AND FALLOC_FL_ZERO_RANGE \<noteq> 0 then zero_range ti off len s
          else if mode AND FALLOC_FL_COLLAPSE_RANGE \<noteq> 0 then collapse_range ti off len s
          else falloc_range ti off len s))"

section \<open>Seek\<close>

function seek_block_loop :: "addr \<Rightarrow> int \<Rightarrow> int \<Rightarrow> bool \<Rightarrow> int \<Rightarrow> toyfs_sb_info \<Rightarrow> int run" where
  "seek_block_loop ti off end seek_exist out_off s =
    (if off < end then do {
       pmemb \<leftarrow> fetch_pmemb_by_offset ti off s;
       if (pmemb \<noteq> None \<and> seek_exist) \<or> (pmemb = None \<and> \<not> seek_exist) then Some off
       else seek_block_loop ti (next_page off) end seek_exist out_off s }
     else Some out_off)"
  by pat_completeness auto
termination
  by (relation "measure (\<lambda>(ti, off, end, e, out, s). nat (end - off))") (auto simp: next_page_gt)

text \<open>The offset that is stored through \<open>out_off\<close>; the function itself returns 0 always.\<close>

definition seek_block :: "addr \<Rightarrow> int \<Rightarrow> bool \<Rightarrow> int \<Rightarrow> toyfs_sb_info \<Rightarrow> int run" where
  "seek_block ti from seek_exist out_off s =
    seek_block_loop ti from (cast_loff (i_size (h_inode s ti))) seek_exist out_off s"

definition seek_data :: "addr \<Rightarrow> int \<Rightarrow> int \<Rightarrow> toyfs_sb_info \<Rightarrow> int run" where
  "seek_data ti from out s = seek_block ti from True out s"

definition seek_hole :: "addr \<Rightarrow> int \<Rightarrow> int \<Rightarrow> toyfs_sb_info \<Rightarrow> int run" where
  "seek_hole ti from out s = seek_block ti from False out s"

abbreviation (input) SEEK_DATA :: int where "SEEK_DATA \<equiv> 3"
abbreviation (input) SEEK_HOLE :: int where "SEEK_HOLE \<equiv> 4"

text \<open>The return code and \<open>offset_out\<close> of \<open>toyfs_seek\<close>.\<close>

definition seek_file :: "addr \<Rightarrow> nat \<Rightarrow> int \<Rightarrow> toyfs_sb_info \<Rightarrow> (unit result \<times> nat) run" where
  "seek_file ti offset_in whence s =
    (let off_in = cast_loff offset_in in
     if whence = SEEK_DATA then map_option (\<lambda>off. (Inr (), cast_size off)) (seek_data ti off_in (-1) s)
     else if whence = SEEK_HOLE then map_option (\<lambda>off. (Inr (), cast_size off)) (seek_hole ti off_in (-1) s)
     else Some (Inl ENOTSUP, cast_size (-1)))"

section \<open>Truncate\<close>

fun drop_range_loop :: "addr \<Rightarrow> int \<Rightarrow> addr list \<Rightarrow> toyfs_sb_info \<Rightarrow> toyfs_sb_info run" where
  "drop_range_loop ti pos [] s = Some s"
| "drop_range_loop ti pos (iblkref # itr) s = do {
     s1 \<leftarrow> (if ib_off (h_iblkref s iblkref) \<ge> pos then drop_iblkref ti iblkref s else Some s);
     drop_range_loop ti pos itr s1 }"

definition drop_range :: "addr \<Rightarrow> int \<Rightarrow> toyfs_sb_info \<Rightarrow> toyfs_sb_info run" where
  "drop_range ti pos s =
    (let pos' = (if cast_size pos mod PAGE_SIZE \<noteq> 0 then next_page pos else pos)
     in drop_range_loop ti pos' (toyfs_iblkrefs_list_of ti s) s)"

definition zero_after :: "addr \<Rightarrow> int \<Rightarrow> toyfs_sb_info \<Rightarrow> (unit result \<times> toyfs_sb_info) run" where
  "zero_after ti pos s =
    (if cast_size pos mod PAGE_SIZE = 0 then Some (Inr (), s)
     else case fetch_iblkref ti pos s of None \<Rightarrow> Some (Inr (), s)
       | Some iblkref \<Rightarrow>
          unique_pmemb iblkref s \<bind> (\<lambda>(r, s1).
            case r of None \<Rightarrow> Some (Inl ENOSPC, s1)
            | Some pmemb \<Rightarrow> do {
                let poff = off_in_page pos;
                s2 \<leftarrow> assign_zeros pmemb poff (cast_size (4096 - poff)) s1;
                Some (Inr (), s2) }))"

definition toyfs_truncate :: "addr \<Rightarrow> nat \<Rightarrow> toyfs_sb_info \<Rightarrow> (unit result \<times> toyfs_sb_info) run" where
  "toyfs_truncate ti sz s =
    (if zi_isdir (h_inode s ti) then Some (Inl EISDIR, s)
     else if \<not> zi_isreg (h_inode s ti) then Some (Inl EINVAL, s)
     else do {
       (err, s1) \<leftarrow> (if sz < i_size (h_inode s ti) then do {
                       s0 \<leftarrow> drop_range ti (cast_loff sz) s;
                       zero_after ti (cast_loff sz) s0 }
                     else Some (Inr (), s));
       Some (err, upd_inode ti (\<lambda>zi. zi\<lparr>i_size := sz\<rparr>) s1) })"

section \<open>Clone\<close>

fun clone_entire_loop :: "addr \<Rightarrow> addr list \<Rightarrow> toyfs_sb_info \<Rightarrow> (unit result \<times> toyfs_sb_info) run" where
  "clone_entire_loop dst [] s = Some (Inr (), s)"
| "clone_entire_loop dst (src_iblkref # itr) s =
    (case toyfs_acquire_iblkref s of
       (None, s1) \<Rightarrow> Some (Inl ENOSPC, s1)
     | (Some dst_iblkref, s1) \<Rightarrow> do {
         let s2 = upd_iblkref dst_iblkref (\<lambda>r. r\<lparr>ib_off := ib_off (h_iblkref s1 src_iblkref),
                    ib_dblkref := ib_dblkref (h_iblkref s1 src_iblkref)\<rparr>) s1;
         d \<leftarrow> ib_dblkref (h_iblkref s2 dst_iblkref);
         let s3 = upd_dblkref d (\<lambda>r. r\<lparr>db_refcnt := db_refcnt r + 1\<rparr>) s2;
         clone_entire_loop dst itr
           (upd_inode dst (\<lambda>zi. zi\<lparr>list_head := list_head zi @ [dst_iblkref], i_blocks := i_blocks zi + 1\<rparr>) s3) })"

definition clone_entire_file_range :: "addr \<Rightarrow> addr \<Rightarrow> toyfs_sb_info \<Rightarrow> (unit result \<times> toyfs_sb_info) run" where
  "clone_entire_file_range src dst s = do {
     s1 \<leftarrow> drop_range dst 0 s;
     (r, s2) \<leftarrow> clone_entire_loop dst (toyfs_iblkrefs_list_of src s1) s1;
     (case r of Inl err \<Rightarrow> Some (Inl err, s2)
      | Inr _ \<Rightarrow> Some (Inr (), upd_inode dst (\<lambda>zi. zi\<lparr>i_size := i_size (h_inode s2 src)\<rparr>) s2)) }"

definition share_page :: "addr \<Rightarrow> addr \<Rightarrow> toyfs_sb_info \<Rightarrow> toyfs_sb_info run" where
  "share_page src_iblkref dst_iblkref s =
    (let s1 = (case ib_dblkref (h_iblkref s dst_iblkref) of None \<Rightarrow> s
               | Some dblkref \<Rightarrow>
                  (let s0 = upd_dblkref dblkref (\<lambda>r. r\<lparr>db_refcnt := size_sub (db_refcnt r) 1\<rparr>) s
                   in if db_refcnt (h_dblkref s0 dblkref) = 0 then free_dblkref dblkref s0 else s0));
         s2 = upd_iblkref dst_iblkref (\<lambda>r. r\<lparr>ib_dblkref := ib_dblkref (h_iblkref s1 src_iblkref)\<rparr>) s1
     in do {
       d \<leftarrow> ib_dblkref (h_iblkref s2 dst_iblkref);
       Some (upd_dblkref d (\<lambda>r. r\<lparr>db_refcnt := db_refcnt r + 1\<rparr>) s2) })"

definition is_entire_page :: "int \<Rightarrow> int \<Rightarrow> nat \<Rightarrow> bool" where
  "is_entire_page src_off dst_off len =
    (len = PAGE_SIZE \<and> off_in_page src_off = 0 \<and> off_in_page dst_off = 0)"

definition grow_size :: "addr \<Rightarrow> nat \<Rightarrow> toyfs_sb_info \<Rightarrow> toyfs_sb_info" where
  "grow_size ti sz s =
    (if sz > i_size (h_inode s ti) then upd_inode ti (\<lambda>zi. zi\<lparr>i_size := sz\<rparr>) s else s)"

definition clone_range :: "addr \<Rightarrow> addr \<Rightarrow> int \<Rightarrow> int \<Rightarrow> nat \<Rightarrow> toyfs_sb_info \<Rightarrow>
    (unit result \<times> toyfs_sb_info) run" where
  "clone_range src dst src_off dst_off len s = do {
     toyfs_assert (is_entire_page src_off dst_off len);
     let sz = size_add (cast_size dst_off) len;
     (case fetch_iblkref src src_off s of
        Some src_iblkref \<Rightarrow> do {
          (r, s1) \<leftarrow> require_iblkref dst dst_off s;
          (case r of None \<Rightarrow> Some (Inl ENOSPC, s1)
           | Some dst_iblkref \<Rightarrow> do {
               s2 \<leftarrow> share_page src_iblkref dst_iblkref s1;
               Some (Inr (), grow_size dst sz s2) }) }
      | None \<Rightarrow>
         (case fetch_iblkref dst dst_off s of None \<Rightarrow> Some (Inr (), s)
          | Some dst_iblkref \<Rightarrow> do {
              (r, s1) \<leftarrow> unique_pmemb dst_iblkref s;
              (case r of None \<Rightarrow> Some (Inl ENOSPC, s1)
               | Some dst_pmemb \<Rightarrow> do {
                   s2 \<leftarrow> assign_zeros dst_pmemb (off_in_page dst_off) len s1;
                   Some (Inr (), grow_size dst sz s2) }) })) }"

text \<open>
  The loop of \<open>_clone_sub_file_range\<close> advances by \<open>len\<close>; it ends because \<open>_clone_range\<close> accepts entire
  pages only.
\<close>

lemma clone_range_len: "clone_range src dst so off len s = Some x \<Longrightarrow> len = PAGE_SIZE"
  by (auto simp: clone_range_def is_entire_page_def split: if_splits)

declare Option.bind_cong [fundef_cong]

function clone_sub_loop :: "addr \<Rightarrow> addr \<Rightarrow> int \<Rightarrow> int \<Rightarrow> int \<Rightarrow> int \<Rightarrow> toyfs_sb_info \<Rightarrow>
    (unit result \<times> toyfs_sb_info) run" where
  "clone_sub_loop src dst src_off src_end dst_off dst_end s =
    (if src_off < src_end \<and> dst_off < dst_end then do {
       let src_nxt = next_page src_off;
       let src_len = nbytes_in_range src_off src_nxt src_end;
       let dst_nxt = next_page dst_off;
       let dst_len = nbytes_in_range dst_off dst_nxt dst_end;
       let len = (if src_len < dst_len then src_len else dst_len);
       (r, s1) \<leftarrow> clone_range src dst src_off dst_off len s;
       (case r of Inl err \<Rightarrow> Some (Inl err, s1)
        | Inr _ \<Rightarrow>
           clone_sub_loop src dst (src_off + cast_loff len) src_end (dst_off + cast_loff len) dst_end s1) }
     else Some (Inr (), s))"
  by pat_completeness auto
termination
  by (relation "measure (\<lambda>(src, dst, so, se, off, de, s). nat (se - so))")
     (auto dest: clone_range_len simp: cast_loff_def)

definition clone_sub_file_range :: "addr \<Rightarrow> addr \<Rightarrow> int \<Rightarrow> int \<Rightarrow> nat \<Rightarrow> toyfs_sb_info \<Rightarrow>
    (unit result \<times> toyfs_sb_info) run" where
  "clone_sub_file_range src dst src_pos dst_pos nbytes s =
    clone_sub_loop src dst src_pos (src_pos + cast_loff nbytes) dst_pos (dst_pos + cast_loff nbytes) s"

text \<open>\<open>same_tii\<close>: the two \<open>struct toyfs_inode_info\<close> pointers are equal.\<close>

definition clone_file :: "bool \<Rightarrow> addr \<Rightarrow> addr \<Rightarrow> int \<Rightarrow> int \<Rightarrow> nat \<Rightarrow> toyfs_sb_info \<Rightarrow>
    (unit result \<times> toyfs_sb_info) run" where
  "clone_file same_tii src dst src_pos dst_pos len s =
    (if \<not> zi_isreg (h_inode s src) \<or> \<not> zi_isreg (h_inode s dst) then Some (Inl ENOTSUP, s)
     else if same_tii then Some (Inr (), s)
     else if src_pos = 0 \<and> len = 0 \<and> dst_pos = 0 then clone_entire_file_range src dst s
     else if \<not> ispagealigned src_pos 0 \<or> \<not> ispagealigned src_pos len \<or>
             \<not> ispagealigned dst_pos 0 \<or> \<not> ispagealigned dst_pos len then Some (Inl ENOTSUP, s)
     else clone_sub_file_range src dst src_pos dst_pos len s)"

section \<open>Fiemap\<close>

abbreviation (input) FIEMAP_EXTENT_LAST :: "32 word" where "FIEMAP_EXTENT_LAST \<equiv> 0x00000001"
abbreviation (input) FIEMAP_EXTENT_SHARED :: "32 word" where "FIEMAP_EXTENT_SHARED \<equiv> 0x00002000"

definition physaddr_of :: "addr \<Rightarrow> toyfs_sb_info \<Rightarrow> nat run" where
  "physaddr_of iblkref s = map_option (toyfs_page2dpp s) (iblkref_pmemb iblkref s)"

text \<open>The inner loop: the length and the flags of an extent, and the rest of the list.\<close>

fun fiemap_extent :: "addr \<Rightarrow> addr list \<Rightarrow> nat \<Rightarrow> toyfs_sb_info \<Rightarrow> (nat \<times> 32 word \<times> addr list) run" where
  "fiemap_extent iblkref [] elen s = Some (elen, 0, [])"
| "fiemap_extent iblkref (_ # itr) elen s = do {
     d \<leftarrow> ib_dblkref (h_iblkref s iblkref);
     let elen' = elen + PAGE_SIZE;
     let flags = (if db_refcnt (h_dblkref s d) > 1 then FIEMAP_EXTENT_SHARED else 0)
                 OR (if itr = [] then FIEMAP_EXTENT_LAST else 0);
     if flags \<noteq> 0 then Some (elen', flags, itr)
     else if ib_off (h_iblkref s (hd itr)) > ib_off (h_iblkref s iblkref) + 4096 then Some (elen', flags, itr)
     else fiemap_extent iblkref itr elen' s }"

lemma fiemap_extent_shorter:
  "fiemap_extent iblkref itr l s = Some (l', f, itr') \<Longrightarrow> length itr' \<le> length itr \<and> (itr \<noteq> [] \<longrightarrow> length itr' < length itr)"
proof (induction itr arbitrary: l)
  case (Cons x itr)
  from Cons.prems have "itr' = itr \<or> fiemap_extent iblkref itr (l + PAGE_SIZE) s = Some (l', f, itr')"
    by (auto simp: Let_def bind_eq_Some_conv split: if_splits)
  then show ?case using Cons.IH by fastforce
qed simp

text \<open>
  \<open>zufs_fiemap_fill_next_extent\<close> is code of the kernel part of the project: \<open>fill\<close> stands for it, on
  the state of the extent buffer.
\<close>

function fiemap_loop :: "('f \<Rightarrow> nat \<Rightarrow> nat \<Rightarrow> nat \<Rightarrow> 32 word \<Rightarrow> int \<times> 'f) \<Rightarrow> addr list \<Rightarrow> 32 word \<Rightarrow>
    'f \<Rightarrow> toyfs_sb_info \<Rightarrow> (int \<times> 'f) run" where
  "fiemap_loop fill itr flags fieinfo s =
    (case itr of [] \<Rightarrow> Some (0, fieinfo)
     | iblkref # _ \<Rightarrow>
        if flags AND FIEMAP_EXTENT_LAST \<noteq> 0 then Some (0, fieinfo)
        else do {
          phys \<leftarrow> physaddr_of iblkref s;
          (elen, flags', itr') \<leftarrow> fiemap_extent iblkref itr 0 s;
          let (err, fieinfo') = fill fieinfo (cast_size (ib_off (h_iblkref s iblkref))) phys elen flags';
          if err \<noteq> 0 then Some (if err = 1 then 0 else err, fieinfo')
          else fiemap_loop fill itr' flags' fieinfo' s })"
  by pat_completeness auto
termination
  by (relation "measure (\<lambda>(fill, itr, flags, fi, s). length itr)") (auto dest: fiemap_extent_shorter simp del: fiemap_extent.simps)

definition fiemap_file :: "('f \<Rightarrow> nat \<Rightarrow> nat \<Rightarrow> nat \<Rightarrow> 32 word \<Rightarrow> int \<times> 'f) \<Rightarrow> addr \<Rightarrow> 'f \<Rightarrow> int \<Rightarrow>
    toyfs_sb_info \<Rightarrow> ((errno + int) \<times> 'f) run" where
  "fiemap_file fill ti fieinfo offset s =
    (if \<not> zi_isreg (h_inode s ti) then Some (Inl ENOTSUP, fieinfo)
     else map_option (map_prod Inr id) (fiemap_loop fill (fetch_iblkref_from ti offset s) 0 fieinfo s))"

declare read_loop.simps [simp del] write_loop.simps [simp del] punch_hole_loop.simps [simp del]
  falloc_loop.simps [simp del] seek_block_loop.simps [simp del] clone_sub_loop.simps [simp del]
  fiemap_loop.simps [simp del]

section \<open>Entry points\<close>

text \<open>
  The operations in \<open>toyfs_zii_op\<close>: \<open>Z2II\<close> checks the \<open>zus_inode_info\<close> that zus passes, and the
  pointers in it are followed. A NULL pointer ends the run.
\<close>

definition toyfs_zii_to_tii :: "toyfs_sb_info \<Rightarrow> addr option \<Rightarrow> addr option run" where
  "toyfs_zii_to_tii s zii =
    (case zii of None \<Rightarrow> Some None
     | Some p \<Rightarrow> do {
         tii \<leftarrow> h_tii s p;
         toyfs_assert (tii_op tii);
         toyfs_assert (tii_valid tii);
         Some (Some p) })"

definition zii_inode :: "toyfs_sb_info \<Rightarrow> addr option \<Rightarrow> addr run" where
  "zii_inode s zii = do {
     p \<leftarrow> toyfs_zii_to_tii s zii;
     a \<leftarrow> p;
     tii \<leftarrow> h_tii s a;
     tii_ti tii }"

record zufs_ioc_IO =
  io_zus_ii :: "addr option"
  io_len :: nat              \<comment> \<open>\<open>hdr.len\<close>\<close>
  io_filepos :: nat
  io_last_pos :: nat
  io_rw :: "64 word"

definition toyfs_read :: "zufs_ioc_IO \<Rightarrow> toyfs_sb_info \<Rightarrow> (unit result \<times> byte list \<times> zufs_ioc_IO) run" where
  "toyfs_read io s = do {
     ti \<leftarrow> zii_inode s (io_zus_ii io);
     r \<leftarrow> read_file ti (cast_loff (io_filepos io)) (io_len io) s;
     (case r of Inl err \<Rightarrow> Some (Inl err, [], io)
      | Inr bytes \<Rightarrow>
         Some (Inr (), bytes, io\<lparr>io_last_pos := size_add (io_filepos io) (length bytes)\<rparr>)) }"

definition toyfs_pre_read :: "zufs_ioc_IO \<Rightarrow> toyfs_sb_info \<Rightarrow> (unit result \<times> byte list \<times> zufs_ioc_IO) run" where
  "toyfs_pre_read io s = toyfs_read io s"

definition toyfs_write :: "(nat \<Rightarrow> byte) \<Rightarrow> zufs_ioc_IO \<Rightarrow> toyfs_sb_info \<Rightarrow>
    (unit result \<times> zufs_ioc_IO \<times> toyfs_sb_info) run" where
  "toyfs_write buf io s = do {
     ti \<leftarrow> zii_inode s (io_zus_ii io);
     (r, s1) \<leftarrow> write_file ti buf (cast_loff (io_filepos io)) (io_len io) s;
     (case r of Inl err \<Rightarrow> Some (Inl err, io, s1)
      | Inr cnt \<Rightarrow> Some (Inr (), io\<lparr>io_last_pos := size_add (io_filepos io) cnt\<rparr>, s1)) }"

text \<open>\<open>fl_truncate\<close> stands for \<open>ZUFS_FL_TRUNCATE\<close> of \<open>zus_api.h\<close>.\<close>

definition toyfs_fallocate :: "64 word \<Rightarrow> addr option \<Rightarrow> zufs_ioc_IO \<Rightarrow> toyfs_sb_info \<Rightarrow>
    (unit result \<times> toyfs_sb_info) run" where
  "toyfs_fallocate fl_truncate zii io s = do {
     ti \<leftarrow> zii_inode s zii;
     if io_rw io AND fl_truncate \<noteq> 0 then toyfs_truncate ti (cast_size (cast_loff (io_filepos io))) s
     else do {
       let pos = cast_loff (io_filepos io);
       let end_pos = cast_loff (io_last_pos io);
       fallocate ti (ucast (io_rw io)) pos (cast_size (end_pos - pos)) s } }"

definition toyfs_seek :: "addr option \<Rightarrow> nat \<Rightarrow> int \<Rightarrow> toyfs_sb_info \<Rightarrow> (unit result \<times> nat) run" where
  "toyfs_seek zii offset_in whence s = do {
     ti \<leftarrow> zii_inode s zii;
     seek_file ti offset_in whence s }"

definition toyfs_clone :: "addr option \<Rightarrow> addr option \<Rightarrow> nat \<Rightarrow> nat \<Rightarrow> nat \<Rightarrow> toyfs_sb_info \<Rightarrow>
    (unit result \<times> toyfs_sb_info) run" where
  "toyfs_clone src_zii dst_zii pos_in pos_out len s = do {
     src \<leftarrow> zii_inode s src_zii;
     dst \<leftarrow> zii_inode s dst_zii;
     clone_file (src_zii = dst_zii) src dst (cast_loff pos_in) (cast_loff pos_out) len s }"

definition toyfs_fiemap :: "('f \<Rightarrow> nat \<Rightarrow> nat \<Rightarrow> nat \<Rightarrow> 32 word \<Rightarrow> int \<times> 'f) \<Rightarrow> addr option \<Rightarrow> 'f \<Rightarrow> nat \<Rightarrow>
    toyfs_sb_info \<Rightarrow> ((errno + int) \<times> 'f) run" where
  "toyfs_fiemap fill zii fieinfo start s = do {
     ti \<leftarrow> zii_inode s zii;
     fiemap_file fill ti fieinfo (cast_loff start) s }"

end
