(* ===== verification/FileContent.thy ===== *)
theory FileContent
  imports ToyFile
begin

text \<open>
  Read and write of toyfs files, as operations on the contents of the files: a read returns the
  contents, a write changes the bytes in its range of one file only, whatever blocks are shared.
\<close>

section \<open>One page\<close>

lemma nbytes_page:
  assumes "0 \<le> off" "off < end" "end < 2 ^ 62"
  shows "int (nbytes_in_range off (next_page off) end) = (if next_page off < end then next_page off - off else end - off)"
    "off mod 4096 + int (nbytes_in_range off (next_page off) end) \<le> 4096"
    "0 < nbytes_in_range off (next_page off) end"
proof -
  let ?v = "if next_page off < end then next_page off - off else end - off"
  have np: "next_page off = off - off mod 4096 + 4096" using assms(1) by (rule off_arith(3))
  have v: "0 < ?v" "?v < 2 ^ 64" using assms next_page_gt [of off] by auto
  then have "nbytes_in_range off (next_page off) end = nat ?v"
    unfolding nbytes_in_range_def by (intro cast_size_small) auto
  with v show 1: "int (nbytes_in_range off (next_page off) end) = ?v"
    "0 < nbytes_in_range off (next_page off) end" by auto
  show "off mod 4096 + int (nbytes_in_range off (next_page off) end) \<le> 4096"
    using 1(1) np by (simp split: if_splits)
qed

lemma page_args_ok:
  assumes "0 \<le> off" "off mod 4096 + int len \<le> 4096"
  shows "len \<le> PAGE_SIZE" "size_add (cast_size (off_in_page off)) len \<le> PAGE_SIZE"
    "nat (off_in_page off) = nat (off mod 4096)"
proof -
  have m: "0 \<le> off mod 4096" "off mod 4096 < 4096" by simp_all
  then show "len \<le> PAGE_SIZE" using assms(2) by linarith
  have oip: "off_in_page off = off mod 4096" using assms(1) by (rule off_arith(2))
  then show "nat (off_in_page off) = nat (off mod 4096)" by simp
  have "cast_size (off mod 4096) = nat (off mod 4096)" using m by (intro cast_size_small) auto
  moreover have "nat (off mod 4096) + len \<le> PAGE_SIZE" using assms(2) m by linarith
  ultimately show "size_add (cast_size (off_in_page off)) len \<le> PAGE_SIZE"
    unfolding oip by (simp add: size_add_small)
qed

section \<open>Read\<close>

lemma fetch_pmemb_ok:
  assumes ok: "fs_ok N X F s" and t: "t \<in> F"
  shows "fetch_pmemb_by_offset t off s =
    Some (map_option (\<lambda>ib. dpage s (the (ib_dblkref (h_iblkref s ib)))) (fetch_iblkref t off s))"
proof (cases "fetch_iblkref t off s")
  case (Some ib)
  from ok obtain D B I where inv: "blocks_inv D B I N X F s" by (auto simp: fs_ok_def)
  obtain d where "ib_dblkref (h_iblkref s ib) = Some d"
    using blocks_ibD [OF inv t fetch_SomeD [OF Some, THEN conjunct1]] by blast
  then show ?thesis using Some by (simp add: fetch_pmemb_by_offset_def iblkref_pmemb_dpage)
qed (simp add: fetch_pmemb_by_offset_def)

definition content_list :: "toyfs_sb_info \<Rightarrow> addr \<Rightarrow> int \<Rightarrow> int \<Rightarrow> byte list" where
  "content_list s t off end = map (\<lambda>i. content s t (off + int i)) [0..<nat (end - off)]"

lemma content_list_split:
  "off \<le> m \<Longrightarrow> m \<le> end \<Longrightarrow> content_list s t off end = content_list s t off m @ content_list s t m end"
proof -
  assume 1: "off \<le> m" "m \<le> end"
  define a b where "a = nat (m - off)" and "b = nat (end - m)"
  have n: "nat (end - off) = a + b" and m: "m = off + int a" using 1 by (simp_all add: a_def b_def)
  have "[0..<a + b] = [0..<a] @ map (\<lambda>i. i + a) [0..<b]"
    by (simp only: upt_add_eq_append [of 0 a b] map_add_upt add.commute le0)
  then show ?thesis
    unfolding content_list_def n b_def [symmetric] a_def [symmetric] by (simp add: m ac_simps)
qed

lemma page_content:
  assumes "0 \<le> off" "off mod 4096 + int len \<le> 4096" "i < len"
  shows "content s t (off + int i) =
    (case fetch_iblkref t off s of None \<Rightarrow> 0
     | Some ib \<Rightarrow> h_dat s (dpage s (the (ib_dblkref (h_iblkref s ib)))) (nat (off mod 4096) + i))"
proof -
  have b: "off + int i - (off + int i) mod 4096 = off - off mod 4096"
    by (rule same_block [of off _ len]) (use assms in auto)
  have "off_to_boff (off + int i) = off_to_boff off"
    using off_arith(1) [of "off + int i"] off_arith(1) [of off] b assms(1) by simp
  then have "fetch_iblkref t (off + int i) s = fetch_iblkref t off s"
    by (simp add: fetch_iblkref_def)
  moreover have "nat ((off + int i) mod 4096) = nat (off mod 4096) + i"
    using b by (simp add: nat_eq_iff) 
  ultimately show ?thesis by (simp add: content_def split: option.split)
qed

lemma read_page:
  assumes ok: "fs_ok N X F s" and t: "t \<in> F" and off: "0 \<le> off" "off < end" "end < 2 ^ 62"
    and len: "len = nbytes_in_range off (next_page off) end"
  shows "(case map_option (\<lambda>ib. dpage s (the (ib_dblkref (h_iblkref s ib)))) (fetch_iblkref t off s) of
       Some p \<Rightarrow> copy_out p (off_in_page off) len s | None \<Rightarrow> Some (fill_zeros len)) =
    Some (content_list s t off (off + int len))"
proof -
  note nb = nbytes_page [OF off, folded len]
  note args = page_args_ok [OF off(1) nb(2)]
  have "content_list s t off (off + int len) = map (\<lambda>i. case fetch_iblkref t off s of None \<Rightarrow> 0
     | Some ib \<Rightarrow> h_dat s (dpage s (the (ib_dblkref (h_iblkref s ib)))) (nat (off mod 4096) + i)) [0..<len]"
    unfolding content_list_def using page_content [OF off(1) nb(2)] by simp
  then show ?thesis
    using args by (cases "fetch_iblkref t off s") (simp_all add: copy_out_def fill_zeros_def map_replicate_const)
qed

lemma read_loop_spec:
  assumes ok: "fs_ok N X F s" and t: "t \<in> F"
  shows "0 \<le> off \<Longrightarrow> end < 2 ^ 62 \<Longrightarrow> read_loop t off end s = Some (content_list s t off end)"
proof (induction "nat (end - off)" arbitrary: off rule: less_induct)
  case less
  show ?case
  proof (cases "off < end")
    case False
    then show ?thesis by (subst read_loop.simps) (simp add: content_list_def)
  next
    case True
    let ?nxt = "next_page off" and ?len = "nbytes_in_range off (next_page off) end"
    note off = less.prems(1) True less.prems(2)
    note nb = nbytes_page [OF off]
    have IH: "read_loop t ?nxt end s = Some (content_list s t ?nxt end)"
      using next_page_gt [of off] less.prems True by (intro less.hyps) auto
    have "content_list s t off (off + int ?len) @ content_list s t ?nxt end = content_list s t off end"
    proof (cases "?nxt < end")
      case True
      then show ?thesis using nb next_page_gt [of off] content_list_split [of off ?nxt "end" s t] by simp
    next
      case False
      then show ?thesis using nb by (simp add: content_list_def [of _ _ ?nxt])
    qed
    then show ?thesis using True IH read_page [OF ok t off refl] fetch_pmemb_ok [OF ok t]
      by (subst read_loop.simps) (simp add: Let_def)
  qed
qed

text \<open>Operations that pass the checks.\<close>

lemma fs_ok_max_size: "fs_ok N X F s \<Longrightarrow> zus_api_map_max_size (s_md s) < 2 ^ 62"
  by (auto simp: fs_ok_def pool_inv_def role_inv_def md_ok_def Let_def)

lemma check_rw_Inr:
  assumes ok: "fs_ok N X F s" and c: "check_rw s off len = Inr u" and off: "off < 2 ^ 63"
  shows "0 \<le> off" "0 < len" "off + int len \<le> 2 ^ 50" "cast_loff len = int len"
proof -
  have io: "check_io off len = Inr u" and len: "len < 2 ^ 62"
    using c fs_ok_max_size [OF ok] by (auto simp: check_rw_def split: if_splits)
  then show o: "0 \<le> off" "0 < len" by (auto simp: check_io_def Let_def split: if_splits)
  have "cast_size off = nat off" using o off by (intro cast_size_small) auto
  then have u: "nat off \<le> 2 ^ 50" "size_add (nat off) len \<le> 2 ^ 50"
    using io by (auto simp: check_io_def Let_def toyfs_isize_max_def split: if_splits)
  have "nat off + len < 2 ^ 64" using u(1) len by simp
  then have "nat off + len \<le> 1125899906842624" using u(2) by (simp add: size_add_small)
  then have "off + int len \<le> 1125899906842624" using o(1) by linarith
  then show "off + int len \<le> 2 ^ 50" by simp
  show "cast_loff len = int len" using len by (intro cast_loff_small) simp
qed

lemma cast_loff_bounds: "n < 2 ^ 64 \<Longrightarrow> cast_loff n < 2 ^ 63"
  by (simp add: cast_loff_def)

lemma read_file_spec:
  assumes ok: "fs_ok N X F s" and t: "t \<in> F" and off: "off < 2 ^ 63" and sz: "i_size (h_inode s t) < 2 ^ 63"
  shows "read_file t off len s = Some (case check_rw s off len of Inl e \<Rightarrow> Inl e
    | Inr _ \<Rightarrow> Inr (content_list s t off (min (off + int len) (int (i_size (h_inode s t))))))"
proof (cases "check_rw s off len")
  case (Inr u)
  note c = check_rw_Inr [OF ok Inr off]
  have "tin_offset off len (i_size (h_inode s t)) = min (off + int len) (int (i_size (h_inode s t)))"
    using c sz by (auto simp: tin_offset_def cast_loff_small min_def Let_def)
  moreover have "min (off + int len) (int (i_size (h_inode s t))) < 2 ^ 62" using c(3) by (simp add: min_def)
  ultimately show ?thesis using Inr read_loop_spec [OF ok t c(1)] by (simp add: read_file_def)
qed (simp add: read_file_def)

section \<open>Write\<close>

lemma file_write_0 [simp]: "file_write off 0 src c = c"
  by (auto simp: file_write_def fun_eq_iff)

lemma file_write_split:
  assumes "off \<le> m" "m = off + int n"
  shows "file_write m k (advance src n) (file_write off n src c) = file_write off (n + k) src c"
proof
  fix pos
  have "advance src n (nat (pos - m)) = src (nat (pos - off))" if "m \<le> pos"
  proof -
    have "nat (pos - m) + n = nat (pos - off)" using that assms by linarith
    then show ?thesis by (simp add: advance_def)
  qed
  then show "file_write m k (advance src n) (file_write off n src c) pos = file_write off (n + k) src c pos"
    using assms by (auto simp: file_write_def)
qed

lemma write_page:
  assumes ok: "fs_ok N X F s" and t: "t \<in> F" and off: "0 \<le> off" "off < end" "end < 2 ^ 62"
    and f: "fetch_iblkref t off s = Some ib" and sole: "sole F s ib"
    and len: "len = nbytes_in_range off (next_page off) end"
  obtains p s' where "iblkref_pmemb ib s = Some p" "copy_in p buf (off_in_page off) len s = Some s'"
    "fs_ok N X F s'" "others_same X F t s s'" "h_inode s' = h_inode s"
    "\<And>pos. 0 \<le> pos \<Longrightarrow> content s' t pos = file_write off len buf (content s t) pos"
proof -
  note nb = nbytes_page [OF off, folded len]
  note args = page_args_ok [OF off(1) nb(2)]
  from ok obtain D B I where pool: "pool_inv D B I N s" and inv: "blocks_inv D B I N X F s"
    by (auto simp: fs_ok_def)
  obtain d where d: "ib_dblkref (h_iblkref s ib) = Some d" "dpage s d \<in> D"
    using blocks_ibD [OF inv t fetch_SomeD [OF f, THEN conjunct1]] by blast
  let ?s' = "upd_dat (dpage s d) (nat (off mod 4096)) len buf s"
  have "copy_in (dpage s d) buf (off_in_page off) len s = Some ?s'"
    using args data_page_nonnull [OF pool d(2)] by (simp add: copy_in_def)
  then show thesis
    using that [of "dpage s d" ?s'] store_spec [OF ok t off(1) f sole d(1) nb(2) refl]
      iblkref_pmemb_dpage [OF d(1)] by blast
qed

text \<open>
  \<open>wrote\<close> relates the states before and after bytes \<open>[0, k)\<close> of \<open>buf\<close> were stored at \<open>off\<close>.
\<close>

definition wrote :: "addr set \<Rightarrow> addr set \<Rightarrow> addr set \<Rightarrow> addr \<Rightarrow> int \<Rightarrow> nat \<Rightarrow> (nat \<Rightarrow> byte) \<Rightarrow> toyfs_sb_info \<Rightarrow> toyfs_sb_info \<Rightarrow> bool" where
  "wrote N X F t off k buf s s' =
    (fs_ok N X F s' \<and> others_same X F t s s' \<and> i_size (h_inode s' t) = i_size (h_inode s t) \<and>
     (\<forall>pos\<ge>0. content s' t pos = file_write off k buf (content s t) pos))"

lemma wrote_step:
  assumes s: "same_files X F s s1" "t \<in> F"
    and 1: "fs_ok N X F s2" "others_same X F t s1 s2" "h_inode s2 = h_inode s1"
      "\<And>pos. 0 \<le> pos \<Longrightarrow> content s2 t pos = file_write off n buf (content s1 t) pos"
    and 2: "wrote N X F t m k (advance buf n) s2 s3" and m: "m = off + int n"
  shows "wrote N X F t off (n + k) buf s s3"
proof -
  have c: "content s1 t = content s t" "i_size (h_inode s1 t) = i_size (h_inode s t)"
    using same_filesD [OF s] by simp_all
  have "others_same X F t s s3"
    using same_files_others [OF s] 1(2) 2 others_same_trans unfolding wrote_def by blast
  moreover have "content s3 t pos = file_write off (n + k) buf (content s t) pos" if "0 \<le> pos" for pos
  proof -
    have "content s3 t pos = file_write m k (advance buf n) (content s2 t) pos"
      using 2 that by (simp add: wrote_def)
    also have "\<dots> = file_write m k (advance buf n) (file_write off n buf (content s1 t)) pos"
      using 1(4) that by (simp add: file_write_def)
    finally show ?thesis using file_write_split [of off m n k buf "content s1 t"] m c by simp
  qed
  ultimately show ?thesis using 2 1(3) c by (simp add: wrote_def)
qed

lemma write_loop_spec:
  assumes "t \<in> F"
  shows "\<lbrakk>fs_ok N X F s; 0 \<le> off; end < 2 ^ 62; cnt + nat (end - off) < 2 ^ 64\<rbrakk> \<Longrightarrow>
    (\<exists>s' k. write_loop t buf off end cnt s = Some (Inl ENOSPC, s') \<and> off + int k \<le> end \<and> wrote N X F t off k buf s s') \<or>
    (\<exists>s'. write_loop t buf off end cnt s = Some (Inr (cnt + nat (end - off)), s') \<and>
       wrote N X F t off (nat (end - off)) buf s s')"
proof (induction "nat (end - off)" arbitrary: off buf cnt s rule: less_induct)
  case less
  have w0: "wrote N X F t off 0 buf s s" using less.prems by (simp add: wrote_def)
  show ?case
  proof (cases "off < end")
    case False
    then show ?thesis using w0 by (intro disjI2 exI [of _ s]) (subst write_loop.simps, simp)
  next
    case True
    note off = less.prems(2) True less.prems(3)
    let ?nxt = "next_page off" and ?len = "nbytes_in_range off (next_page off) end"
    note nb = nbytes_page [OF off]
    obtain r s1 where req: "require_iblkref t off s = Some (r, s1)" "fs_ok N X F s1" "same_files X F s s1"
      "\<And>ib. r = Some ib \<Longrightarrow> fetch_iblkref t off s1 = Some ib \<and> sole F s1 ib"
      using require_spec [OF less.prems(1) assms less.prems(2)] by blast
    show ?thesis
    proof (cases r)
      case None
      have "wrote N X F t off 0 buf s s1" using req same_filesD [OF req(3) assms] same_files_others [OF req(3) assms]
        by (simp add: wrote_def)
      then show ?thesis using True req(1) None
        by (intro disjI1 exI [of _ s1] exI [of _ 0]) (subst write_loop.simps, simp)
    next
      case (Some ib)
      note fs = req(4) [OF Some]
      obtain p s2 where p: "iblkref_pmemb ib s1 = Some p" "copy_in p buf (off_in_page off) ?len s1 = Some s2"
        "fs_ok N X F s2" "others_same X F t s1 s2" "h_inode s2 = h_inode s1"
        "\<And>pos. 0 \<le> pos \<Longrightarrow> content s2 t pos = file_write off ?len buf (content s1 t) pos"
        using write_page [OF req(2) assms off fs [THEN conjunct1] fs [THEN conjunct2] refl] by metis
      have le: "?len \<le> nat (end - off)" using nb(1) next_page_gt [of off] by (simp split: if_splits)
      have ca: "size_add cnt ?len = cnt + ?len" using le less.prems(4) by (intro size_add_small) simp
      have eq: "write_loop t buf off end cnt s = write_loop t (advance buf ?len) ?nxt end (cnt + ?len) s2"
        using True req(1) Some p(1,2) ca by (subst write_loop.simps) (simp add: Let_def)
      show ?thesis
      proof (cases "?nxt < end")
        case True
        have m: "?nxt = off + int ?len" using nb(1) True by simp
        have sum: "?len + nat (end - ?nxt) = nat (end - off)" using m True by linarith
        have "(\<exists>s' k. write_loop t (advance buf ?len) ?nxt end (cnt + ?len) s2 = Some (Inl ENOSPC, s') \<and>
              ?nxt + int k \<le> end \<and> wrote N X F t ?nxt k (advance buf ?len) s2 s') \<or>
          (\<exists>s'. write_loop t (advance buf ?len) ?nxt end (cnt + ?len) s2 = Some (Inr (cnt + ?len + nat (end - ?nxt)), s') \<and>
             wrote N X F t ?nxt (nat (end - ?nxt)) (advance buf ?len) s2 s')"
          by (rule less.hyps) (use next_page_gt [of off] less.prems sum p(3) \<open>off < end\<close> nb(3) in auto)
        then show ?thesis
        proof (elim disjE exE conjE)
          fix s' k assume a: "write_loop t (advance buf ?len) ?nxt end (cnt + ?len) s2 = Some (Inl ENOSPC, s')"
            "?nxt + int k \<le> end" "wrote N X F t ?nxt k (advance buf ?len) s2 s'"
          have "wrote N X F t off (?len + k) buf s s'"
            by (rule wrote_step [OF req(3) assms p(3-6) a(3) m])
          then show ?thesis using a(1,2) eq m by (intro disjI1 exI [of _ s'] exI [of _ "?len + k"]) simp
        next
          fix s' assume a: "write_loop t (advance buf ?len) ?nxt end (cnt + ?len) s2 =
              Some (Inr (cnt + ?len + nat (end - ?nxt)), s')"
            "wrote N X F t ?nxt (nat (end - ?nxt)) (advance buf ?len) s2 s'"
          have "wrote N X F t off (?len + nat (end - ?nxt)) buf s s'"
            by (rule wrote_step [OF req(3) assms p(3-6) a(2) m])
          then show ?thesis using a(1) eq sum by (intro disjI2 exI [of _ s']) (simp add: add.assoc)
        qed
      next
        case False
        have len: "int ?len = end - off" "?len = nat (end - off)" using nb(1) False by simp_all
        have "wrote N X F t (off + int ?len) 0 (advance buf ?len) s2 s2" using p(3) by (simp add: wrote_def)
        from wrote_step [OF req(3) assms p(3-6) this refl] have "wrote N X F t off (nat (end - off)) buf s s2"
          using len(2) by simp
        moreover have "write_loop t (advance buf ?len) ?nxt end (cnt + ?len) s2 = Some (Inr (cnt + ?len), s2)"
          using False by (subst write_loop.simps) simp
        ultimately show ?thesis using eq len(2) by (intro disjI2 exI [of _ s2]) simp
      qed
    qed
  qed
qed

text \<open>A change of the size of a file does not concern its blocks.\<close>

lemma upd_size_blocks [simp]:
  assumes "\<And>zi. list_head (f zi) = list_head zi" "\<And>zi. i_blocks (f zi) = i_blocks zi"
  shows "blocks_inv D B I N X F (upd_inode t f s) = blocks_inv D B I N X F s"
    "fs_ok N X F (upd_inode t f s) = fs_ok N X F s"
    "content (upd_inode t f s) u = content s u"
proof -
  let ?s = "upd_inode t f s"
  have l: "list_head (h_inode ?s u) = list_head (h_inode s u)" "i_blocks (h_inode ?s u) = i_blocks (h_inode s u)" for u
    using assms by simp_all
  have r: "refs F ?s d = refs F s d" for d unfolding refs_def l by simp
  have d: "dpage ?s = dpage s" by (intro ext dpage_cong) simp_all
  have o: "list_ok B I ?s u = list_ok B I s u" for u B I unfolding list_ok_def l by simp
  show b: "blocks_inv D B I N X F ?s = blocks_inv D B I N X F s" for D B I N
    unfolding blocks_inv_def l r d o by simp
  show "fs_ok N X F ?s = fs_ok N X F s" unfolding fs_ok_def b by simp
  have "fetch_iblkref u pos ?s = fetch_iblkref u pos s" for pos
    by (rule fetch_cong) (simp_all only: l, simp)
  then show "content ?s u = content s u" by (intro ext) (simp add: content_def d split: option.split)
qed

lemma others_same_upd:
  "others_same X F t s s' \<Longrightarrow> t \<in> F \<Longrightarrow> (\<And>zi. list_head (f zi) = list_head zi) \<Longrightarrow>
   (\<And>zi. i_blocks (f zi) = i_blocks zi) \<Longrightarrow> (\<And>zi. i_mode (f zi) = i_mode zi) \<Longrightarrow>
   others_same X F t s (upd_inode t f s')"
  by (auto simp: others_same_def)

lemma write_file_spec:
  assumes ok: "fs_ok N X F s" and t: "t \<in> F" and off: "off < 2 ^ 63" and sz: "i_size (h_inode s t) < 2 ^ 63"
    and c: "check_rw s off len = Inr u"
  shows "(\<exists>s' k. write_file t buf off len s = Some (Inl ENOSPC, s') \<and> k \<le> len \<and> wrote N X F t off k buf s s') \<or>
    (\<exists>s'. write_file t buf off len s = Some (Inr len, s') \<and> fs_ok N X F s' \<and> others_same X F t s s' \<and>
       i_size (h_inode s' t) = max (i_size (h_inode s t)) (nat off + len) \<and>
       (\<forall>pos\<ge>0. content s' t pos = file_write off len buf (content s t) pos))"
proof -
  note k = check_rw_Inr [OF ok c off]
  have n: "nat (off + int len - off) = len" by simp
  have pre: "off + int len < 2 ^ 62" "0 + nat (off + int len - off) < 2 ^ 64" using k by simp_all
  have mo: "cast_size (max_offset off len (i_size (h_inode s t))) = max (i_size (h_inode s t)) (nat off + len)"
  proof -
    have "max_offset off len (i_size (h_inode s t)) = int (max (i_size (h_inode s t)) (nat off + len))"
      using k sz by (auto simp: max_offset_def Let_def cast_loff_small max_def)
    moreover have "nat off + len < 2 ^ 64" using k(1,3) by simp
    ultimately show ?thesis using sz by (simp add: cast_size_nat)
  qed
  from write_loop_spec [OF t ok k(1) pre, of buf] show ?thesis
  proof (elim disjE exE conjE)
    fix s' j assume a: "write_loop t buf off (off + int len) 0 s = Some (Inl ENOSPC, s')"
      "off + int j \<le> off + int len" "wrote N X F t off j buf s s'"
    then show ?thesis using c k(4) by (intro disjI1 exI [of _ s'] exI [of _ j]) (simp add: write_file_def)
  next
    fix s' assume a: "write_loop t buf off (off + int len) 0 s = Some (Inr (0 + nat (off + int len - off)), s')"
      "wrote N X F t off (nat (off + int len - off)) buf s s'"
    let ?s = "upd_inode t (\<lambda>zi. zi\<lparr>i_size := cast_size (max_offset off len (i_size zi))\<rparr>) s'"
    have w: "wrote N X F t off len buf s s'" using a(2) n by simp
    have "write_file t buf off len s = Some (Inr len, ?s)" using a(1) c k(4) by (simp add: write_file_def)
    moreover have "others_same X F t s ?s" using w t by (intro others_same_upd) (simp_all add: wrote_def)
    moreover have "i_size (h_inode ?s t) = max (i_size (h_inode s t)) (nat off + len)"
      using w mo by (simp add: wrote_def)
    moreover have "fs_ok N X F ?s \<and> (\<forall>pos\<ge>0. content ?s t pos = file_write off len buf (content s t) pos)"
      using w by (simp add: wrote_def)
    ultimately show ?thesis by (intro disjI2 exI [of _ ?s]) simp
  qed
qed

lemma zii_inode_cong: "h_tii s' = h_tii s \<Longrightarrow> zii_inode s' z = zii_inode s z"
  by (cases z) (simp_all add: zii_inode_def toyfs_zii_to_tii_def)

section \<open>Space\<close>

abbreviation npages :: "toyfs_sb_info \<Rightarrow> nat" where
  "npages s \<equiv> length (pool_pages (s_pool s))"

lemma acquire_pmemb_space:
  assumes inv: "pool_inv D B I N s" and n: "0 < npages s"
  obtains p s' where "toyfs_acquire_pmemb s = (Some p, s')" "npages s \<le> npages s' + 1"
proof -
  obtain p s' where a: "toyfs_acquire_pmemb s = (Some p, s')"
    using acquire_pmemb_fails_iff [OF inv] n by (cases "toyfs_acquire_pmemb s") auto
  then have "npages s \<le> npages s' + 1"
    by (auto simp: toyfs_acquire_pmemb_def pool_pop_pmemb_def split: if_splits list.splits)
  with a show thesis by (rule that)
qed

lemma acquire_dblkref_space:
  assumes "0 < npages s"
  obtains d s' where "toyfs_acquire_dblkref s = (Some d, s')" "npages s \<le> npages s' + 1"
proof -
  obtain r P' where r: "pool_pop_dblkref (s_pool s) = (r, P')" by fastforce
  obtain d where d: "r = Some d" using assms pop_dblkref_None [of "s_pool s" P'] r by (cases r) auto
  let ?s = "upd_dblkref d (\<lambda>r. r\<lparr>db_refcnt := 0, db_bn := 0\<rparr>) (s\<lparr>s_pool := P'\<rparr>)"
  have "toyfs_acquire_dblkref s = (Some d, ?s)" using r d by (simp add: toyfs_acquire_dblkref_def)
  moreover have "npages s \<le> npages ?s + 1" using pop_dblkref_cases [OF r [unfolded d]] by auto
  ultimately show thesis by (rule that)
qed

lemma acquire_iblkref_space:
  assumes "0 < npages s"
  obtains b s' where "toyfs_acquire_iblkref s = (Some b, s')" "npages s \<le> npages s' + 1"
proof -
  obtain r P' where r: "pool_pop_iblkref (s_pool s) = (r, P')" by fastforce
  obtain d where d: "r = Some d" using assms pop_iblkref_None [of "s_pool s" P'] r by (cases r) auto
  let ?s = "upd_iblkref d (\<lambda>r. r\<lparr>ib_off := -1, ib_dblkref := None\<rparr>) (s\<lparr>s_pool := P'\<rparr>)"
  have "toyfs_acquire_iblkref s = (Some d, ?s)" using r d by (simp add: toyfs_acquire_iblkref_def)
  moreover have "npages s \<le> npages ?s + 1" using pop_iblkref_cases [OF r [unfolded d]] by auto
  ultimately show thesis by (rule that)
qed

lemma new_dblkref_space:
  assumes inv: "pool_inv D B I N s" and n: "2 \<le> npages s"
  obtains d s' where "new_dblkref s = (Some d, s')" "npages s \<le> npages s' + 2"
proof -
  obtain p s1 where 1: "toyfs_acquire_pmemb s = (Some p, s1)" "npages s \<le> npages s1 + 1"
    by (rule acquire_pmemb_space [OF inv]) (use n in auto)
  obtain d s2 where 2: "toyfs_acquire_dblkref s1 = (Some d, s2)" "npages s1 \<le> npages s2 + 1"
    by (rule acquire_dblkref_space [of s1]) (use 1 n in auto)
  let ?s = "upd_dblkref d (\<lambda>r. r\<lparr>db_bn := toyfs_addr2bn s2 p, db_refcnt := 1\<rparr>) s2"
  have "new_dblkref s = (Some d, ?s)" using 1 2 by (simp add: new_dblkref_def)
  then show thesis using that 1 2 by simp
qed

lemma require_space:
  assumes ok: "fs_ok N X F s" and t: "t \<in> F" and n: "3 \<le> npages s"
    and req: "require_iblkref t off s = Some (r, s')"
  shows "r \<noteq> None \<and> npages s \<le> npages s' + 3"
proof -
  from ok obtain D B I where pool: "pool_inv D B I N s" by (auto simp: fs_ok_def)
  obtain d s1 where d: "new_dblkref s = (Some d, s1)" "npages s \<le> npages s1 + 2"
    by (rule new_dblkref_space [OF pool]) (use n in auto)
  obtain b s2 where b: "toyfs_acquire_iblkref s1 = (Some b, s2)" "npages s1 \<le> npages s2 + 1"
    by (rule acquire_iblkref_space [of s1]) (use d n in auto)
  have ni: "new_iblkref t boff s = Some (Some b, upd_inode t (\<lambda>zi. zi\<lparr>i_blocks := i_blocks zi + 1\<rparr>)
      (upd_iblkref b (\<lambda>r. r\<lparr>ib_dblkref := Some d, ib_off := boff\<rparr>) s2))" for boff
    using d b by (simp add: new_iblkref_def)
  obtain x k where sc: "require_scan s (off_to_boff off) (toyfs_iblkrefs_list_of t s) = (x, k)" by fastforce
  show ?thesis
  proof (cases x)
    case None
    then show ?thesis using req sc ni d b by (auto simp: require_iblkref_def)
  next
    case (Some ib)
    have "npages s \<le> npages s1 + 3" using d by simp
    moreover have "npages y = npages s1" if "clone_data d e s1 = Some y" for e y
      using that by (auto simp: clone_data_def copy_pmemb_def copy_in_def Let_def split: if_splits)
    ultimately show ?thesis using req sc Some d(1)
      by (auto simp: require_iblkref_def bind_eq_Some_conv split: if_splits)
  qed
qed

text \<open>The number of blocks that a range touches.\<close>

definition nblocks :: "int \<Rightarrow> int \<Rightarrow> nat" where
  "nblocks off end = (if off < end then nat ((end - 1) div 4096 - off div 4096 + 1) else 0)"

lemma nblocks_step:
  assumes "0 \<le> off" "off < end"
  shows "nblocks off end = Suc (nblocks (next_page off) end)"
proof -
  have np: "next_page off = (off div 4096 + 1) * 4096"
    using off_arith(3) [OF assms(1)] by (simp add: minus_mod_eq_div_mult algebra_simps)
  have mono: "off div 4096 \<le> (end - 1) div 4096" using assms by (intro zdiv_mono1) auto
  show ?thesis
  proof (cases "next_page off < end")
    case True
    have "next_page off div 4096 = off div 4096 + 1" using np by simp
    moreover have "off div 4096 + 1 \<le> (end - 1) div 4096"
      using zdiv_mono1 [of "next_page off" "end - 1" 4096] True calculation by simp
    ultimately show ?thesis using True assms(2) by (simp add: nblocks_def Suc_nat_eq_nat_zadd1 add.commute)
  next
    case False
    have "(end - 1) div 4096 * 4096 \<le> end - 1" 
      using pos_mod_sign [of 4096 "end - 1"] by (simp add: minus_mod_eq_div_mult [symmetric])
    then have "(end - 1) div 4096 * 4096 < (off div 4096 + 1) * 4096" using False np by linarith
    then have "(end - 1) div 4096 < off div 4096 + 1" by (rule mult_right_less_imp_less) simp
    then have "(end - 1) div 4096 = off div 4096" using mono by simp
    then show ?thesis using False assms(2) mono by (simp add: nblocks_def)
  qed
qed

lemma write_loop_space:
  assumes t: "t \<in> F"
  shows "\<lbrakk>fs_ok N X F s; 0 \<le> off; end < 2 ^ 62; cnt + nat (end - off) < 2 ^ 64; 3 * nblocks off end \<le> npages s\<rbrakk> \<Longrightarrow>
    write_loop t buf off end cnt s \<noteq> Some (Inl ENOSPC, s')"
proof (induction "nat (end - off)" arbitrary: off buf cnt s rule: less_induct)
  case less
  show ?case
  proof (cases "off < end")
    case False
    then show ?thesis by (subst write_loop.simps) simp
  next
    case True
    note off = less.prems(2) True less.prems(3)
    let ?nxt = "next_page off" and ?len = "nbytes_in_range off (next_page off) end"
    note nb = nbytes_page [OF off] and st = nblocks_step [OF off(1,2)]
    obtain r s1 where req: "require_iblkref t off s = Some (r, s1)" "fs_ok N X F s1"
      "\<And>ib. r = Some ib \<Longrightarrow> fetch_iblkref t off s1 = Some ib \<and> sole F s1 ib"
      using require_spec [OF less.prems(1) t less.prems(2)] by blast
    have sp: "r \<noteq> None \<and> npages s \<le> npages s1 + 3"
      using require_space [OF less.prems(1) t _ req(1)] less.prems(5) st by simp
    then obtain ib where ib: "r = Some ib" by blast
    obtain p s2 where p: "iblkref_pmemb ib s1 = Some p" "copy_in p buf (off_in_page off) ?len s1 = Some s2"
      "fs_ok N X F s2"
      using write_page [OF req(2) t off req(3) [OF ib, THEN conjunct1] req(3) [OF ib, THEN conjunct2] refl, of buf]
      by metis
    have np: "npages s2 = npages s1" using p(2) by (auto simp: copy_in_def split: if_splits)
    have le: "?len \<le> nat (end - off)" using nb(1) next_page_gt [of off] by (simp split: if_splits)
    have ca: "size_add cnt ?len = cnt + ?len" using le less.prems(4) by (intro size_add_small) simp
    have "write_loop t (advance buf ?len) ?nxt end (cnt + ?len) s2 \<noteq> Some (Inl ENOSPC, s')"
    proof (rule less.hyps)
      show "cnt + ?len + nat (end - ?nxt) < 2 ^ 64"
        using less.prems(4) nb(1) True by (cases "?nxt < end") auto
      show "3 * nblocks ?nxt end \<le> npages s2" using less.prems(5) sp st np by simp
    qed (use next_page_gt [of off] less.prems p(3) True in auto)
    then show ?thesis using True req(1) ib p(1,2) ca by (subst write_loop.simps) (simp add: Let_def)
  qed
qed

section \<open>New files\<close>

lemma pool_inv_finite_I: "pool_inv D B I N s \<Longrightarrow> finite I"
proof -
  assume "pool_inv D B I N s"
  then obtain r where r: "role_inv r D B I N s" by (auto simp: pool_inv_def)
  let ?cs = "cells (pool_mem (s_pool s)) (f_blocks (s_statvfs s))"
  have "carved 32 128 (having ?cs r IblkR) (free_iblkrefs (s_pool s)) I"
    using r by (simp add: role_inv_def Let_def)
  then have "I \<subseteq> (\<Union>p\<in>having ?cs r IblkR. slots 32 128 p)" by (auto simp: carved_def)
  moreover have "finite (\<Union>p\<in>having ?cs r IblkR. slots 32 128 p)"
    using having_finite by (auto simp: slots_def)
  ultimately show ?thesis using finite_subset by blast
qed

lemma fs_ok_empty: "pool_inv D {} I N s \<Longrightarrow> X \<subseteq> D \<Longrightarrow> fs_ok N X {} s"
  unfolding fs_ok_def blocks_inv_def using pool_inv_finite_I by (intro exI) auto

lemma new_file_inv:
  assumes pool: "pool_inv D B I N s" and inv: "blocks_inv D B I N X F s" and a: "toyfs_acquire_inode s = (Some t, s1)"
    and zi: "list_head zi = []" "i_blocks zi = 0"
  shows "blocks_inv D B I (insert t N) X (insert t F) (upd_inode t (\<lambda>_. zi) s1)"
    and "pool_inv D B I (insert t N) (upd_inode t (\<lambda>_. zi) s1)" and "t \<notin> N"
proof -
  note q = inode_src.acquire_law [OF pool a] and fr = acquire_inode_frame [OF a]
  show "t \<notin> N" using q by simp
  then have tF: "t \<notin> F" using inv by (auto simp: blocks_inv_def)
  let ?s = "upd_inode t (\<lambda>_. zi) s1"
  have ino: "h_inode ?s u = h_inode s u" if "u \<in> F" for u using that tF fr by auto
  have nw: "h_inode ?s t = zi" by simp
  have ibs: "h_iblkref ?s = h_iblkref s" "h_dblkref ?s = h_dblkref s" using fr by simp_all
  have r: "refs (insert t F) ?s d = refs F s d" for d
    using zi fr tF by (auto simp: refs_def)
  have d: "dpage ?s = dpage s" by (intro ext dpage_cong) (use fr in simp_all)
  have lst: "list_ok B I ?s u" if "u \<in> insert t F" for u
  proof (cases "u = t")
    case True
    then show ?thesis using zi by (simp add: list_ok_def)
  next
    case False
    then have u: "u \<in> F" using that by simp
    show ?thesis using blocks_listD(2) [OF inv u] unfolding list_ok_def ino [OF u] ibs by simp
  qed
  show "blocks_inv D B I (insert t N) X (insert t F) ?s"
    unfolding blocks_inv_def
  proof (intro conjI)
    show "\<forall>u\<in>insert t F. list_ok B I ?s u" using lst by blast
    show "\<forall>u\<in>insert t F. \<forall>v\<in>insert t F. u \<noteq> v \<longrightarrow>
        set (list_head (h_inode ?s u)) \<inter> set (list_head (h_inode ?s v)) = {}"
    proof (intro ballI impI)
      fix u v assume uv: "u \<in> insert t F" "v \<in> insert t F" "u \<noteq> v"
      show "set (list_head (h_inode ?s u)) \<inter> set (list_head (h_inode ?s v)) = {}"
      proof (cases "u = t \<or> v = t")
        case True
        then show ?thesis using nw zi by auto
      next
        case False
        then have F: "u \<in> F" "v \<in> F" using uv by auto
        then show ?thesis using lists_disjointD [OF inv F] uv(3) ino by auto
      qed
    qed
    show "\<forall>e\<in>B. 0 < db_refcnt (h_dblkref ?s e) \<and> dpage ?s e \<in> D \<and> dpage ?s e \<notin> X \<and>
        card (refs (insert t F) ?s e) \<le> db_refcnt (h_dblkref ?s e)"
      using inv unfolding blocks_inv_def r d ibs by simp
    show "inj_on (dpage ?s) B" using inv unfolding d blocks_inv_def by simp
  qed (use inv in \<open>auto simp: blocks_inv_def\<close>)
  show "pool_inv D B I (insert t N) ?s" using q by simp
qed

lemma fs_ok_new_file:
  assumes ok: "fs_ok N X F s" and a: "toyfs_acquire_inode s = (Some t, s1)"
    and zi: "list_head zi = []" "i_blocks zi = 0"
  shows "fs_ok (insert t N) X (insert t F) (upd_inode t (\<lambda>_. zi) s1)" and "t \<notin> F"
proof -
  from ok obtain D B I where pool: "pool_inv D B I N s" and inv: "blocks_inv D B I N X F s"
    by (auto simp: fs_ok_def)
  note q = new_file_inv [OF pool inv a zi]
  show "t \<notin> F" using q(3) inv by (auto simp: blocks_inv_def)
  show "fs_ok (insert t N) X (insert t F) (upd_inode t (\<lambda>_. zi) s1)" using q by (auto simp: fs_ok_def)
qed

section \<open>The contract of a store of byte files\<close>

text \<open>
  What the callers of a file system rely on: \<open>rd\<close> and \<open>wr\<close> give the result of a successful read and
  write, \<open>cont\<close> and \<open>sz\<close> the abstract contents and size of a file.
\<close>

locale byte_files =
  fixes rd :: "'s \<Rightarrow> 'f \<Rightarrow> int \<Rightarrow> nat \<Rightarrow> byte list option"
    and wr :: "'s \<Rightarrow> 'f \<Rightarrow> int \<Rightarrow> byte list \<Rightarrow> 's option"
    and inv :: "'s \<Rightarrow> bool" and files :: "'f set"
    and cont :: "'s \<Rightarrow> 'f \<Rightarrow> int \<Rightarrow> byte" and sz :: "'s \<Rightarrow> 'f \<Rightarrow> nat"
  assumes rd_law: "\<lbrakk>inv s; t \<in> files; rd s t off n = Some bs\<rbrakk> \<Longrightarrow>
      0 \<le> off \<and> bs = map (\<lambda>i. cont s t (off + int i)) [0..<min n (sz s t - nat off)]"
    and wr_law: "\<lbrakk>inv s; t \<in> files; wr s t off bs = Some s'\<rbrakk> \<Longrightarrow>
      0 \<le> off \<and> inv s' \<and> sz s' t = max (sz s t) (nat off + length bs) \<and>
      (\<forall>pos\<ge>0. cont s' t pos = file_write off (length bs) (\<lambda>i. bs ! i) (cont s t) pos) \<and>
      (\<forall>u\<in>files. u \<noteq> t \<longrightarrow> cont s' u = cont s u \<and> sz s' u = sz s u)"
    and rd_after_wr: "\<lbrakk>inv s; t \<in> files; wr s t off bs = Some s'\<rbrakk> \<Longrightarrow> \<exists>x. rd s' t off (length bs) = Some x"
begin

lemma read_after_write:
  assumes "inv s" "t \<in> files" "wr s t off bs = Some s'"
  shows "rd s' t off (length bs) = Some bs"
proof -
  note w = wr_law [OF assms]
  obtain x where x: "rd s' t off (length bs) = Some x" using rd_after_wr [OF assms] by blast
  have "x = map (\<lambda>i. cont s' t (off + int i)) [0..<min (length bs) (sz s' t - nat off)]"
    using rd_law [OF _ assms(2) x] w by blast
  also have "min (length bs) (sz s' t - nat off) = length bs" using w by simp
  also have "map (\<lambda>i. cont s' t (off + int i)) [0..<length bs] = map (\<lambda>i. bs ! i) [0..<length bs]"
    using w by (auto simp: file_write_def)
  finally show ?thesis using x by (simp add: map_nth)
qed

lemma read_other:
  assumes "inv s" "t \<in> files" "wr s t off bs = Some s'" "u \<in> files" "u \<noteq> t"
    "rd s u o1 n = Some x" "rd s' u o1 n = Some y"
  shows "x = y"
proof -
  note w = wr_law [OF assms(1-3)]
  have "inv s'" "cont s' u = cont s u" "sz s' u = sz s u" using w assms(4,5) by auto
  then show ?thesis using rd_law [OF assms(1,4,6)] rd_law [OF _ assms(4,7)] by simp
qed

lemma last_write_wins:
  assumes "inv s" "t \<in> files" "wr s t off bs = Some s1" "wr s1 t off cs = Some s2" "length cs = length bs"
  shows "rd s2 t off (length cs) = Some cs \<and> sz s2 t = sz s1 t"
proof -
  note w1 = wr_law [OF assms(1-3)]
  then have "inv s1" by blast
  from read_after_write [OF this assms(2,4)] wr_law [OF this assms(2,4)] w1 assms(5) show ?thesis by simp
qed

end

definition rd_file :: "toyfs_sb_info \<Rightarrow> addr \<Rightarrow> int \<Rightarrow> nat \<Rightarrow> byte list option" where
  "rd_file s t off n = (if off < 2 ^ 63 then
     (case read_file t off n s of Some (Inr bs) \<Rightarrow> Some bs | _ \<Rightarrow> None) else None)"

definition wr_file :: "toyfs_sb_info \<Rightarrow> addr \<Rightarrow> int \<Rightarrow> byte list \<Rightarrow> toyfs_sb_info option" where
  "wr_file s t off bs = (if off < 2 ^ 63 then
     (case write_file t (\<lambda>i. bs ! i) off (length bs) s of Some (Inr _, s') \<Rightarrow> Some s' | _ \<Rightarrow> None) else None)"

definition sized_ok :: "addr set \<Rightarrow> addr set \<Rightarrow> addr set \<Rightarrow> toyfs_sb_info \<Rightarrow> bool" where
  "sized_ok N X F s = (fs_ok N X F s \<and> (\<forall>t\<in>F. i_size (h_inode s t) < 2 ^ 63))"

lemma content_list_min:
  "0 \<le> off \<Longrightarrow> content_list s t off (min (off + int n) (int z)) = map (\<lambda>i. content s t (off + int i)) [0..<min n (z - nat off)]"
proof -
  assume "0 \<le> off"
  then have "nat (min (off + int n) (int z) - off) = min n (z - nat off)" by linarith
  then show ?thesis by (simp add: content_list_def)
qed

lemma rd_file_law:
  assumes ok: "sized_ok N X F s" and t: "t \<in> F" and r: "rd_file s t off n = Some bs"
  shows "0 \<le> off \<and> bs = map (\<lambda>i. content s t (off + int i)) [0..<min n (i_size (h_inode s t) - nat off)]"
proof -
  have off: "off < 2 ^ 63" using r by (auto simp: rd_file_def split: if_splits)
  have fs: "fs_ok N X F s" and sz: "i_size (h_inode s t) < 2 ^ 63" using ok t by (auto simp: sized_ok_def)
  note spec = read_file_spec [OF fs t off sz, of n]
  obtain u where c: "check_rw s off n = Inr u"
    using r spec by (cases "check_rw s off n") (auto simp: rd_file_def split: if_splits)
  then show ?thesis using r spec check_rw_Inr [OF fs c off] off
    by (auto simp: rd_file_def content_list_min)
qed

lemma wr_file_law:
  assumes ok: "sized_ok N X F s" and t: "t \<in> F" and w: "wr_file s t off bs = Some s'"
  shows "0 \<le> off \<and> sized_ok N X F s' \<and> i_size (h_inode s' t) = max (i_size (h_inode s t)) (nat off + length bs) \<and>
      (\<forall>pos\<ge>0. content s' t pos = file_write off (length bs) (\<lambda>i. bs ! i) (content s t) pos) \<and>
      (\<forall>u\<in>F. u \<noteq> t \<longrightarrow> content s' u = content s u \<and> i_size (h_inode s' u) = i_size (h_inode s u))"
    and "\<exists>x. rd_file s' t off (length bs) = Some x"
proof -
  have off: "off < 2 ^ 63" using w by (auto simp: wr_file_def split: if_splits)
  have fs: "fs_ok N X F s" and sz: "i_size (h_inode s t) < 2 ^ 63" using ok t by (auto simp: sized_ok_def)
  obtain u where c: "check_rw s off (length bs) = Inr u"
    using w by (cases "check_rw s off (length bs)") (auto simp: wr_file_def write_file_def split: if_splits)
  note k = check_rw_Inr [OF fs c off]
  have a: "fs_ok N X F s'" "others_same X F t s s'"
    "i_size (h_inode s' t) = max (i_size (h_inode s t)) (nat off + length bs)"
    "\<forall>pos\<ge>0. content s' t pos = file_write off (length bs) (\<lambda>i. bs ! i) (content s t) pos"
    using write_file_spec [OF fs t off sz c, of "\<lambda>i. bs ! i"] w off by (auto simp: wr_file_def)
  have sz': "i_size (h_inode s' t) < 2 ^ 63" using a(3) sz k(1,3) by simp
  then have "sized_ok N X F s'" using a(1,2) ok unfolding sized_ok_def others_same_def by metis
  with a k(1) show "0 \<le> off \<and> sized_ok N X F s' \<and> i_size (h_inode s' t) = max (i_size (h_inode s t)) (nat off + length bs) \<and>
      (\<forall>pos\<ge>0. content s' t pos = file_write off (length bs) (\<lambda>i. bs ! i) (content s t) pos) \<and>
      (\<forall>u\<in>F. u \<noteq> t \<longrightarrow> content s' u = content s u \<and> i_size (h_inode s' u) = i_size (h_inode s u))"
    by (simp add: others_same_def)
  have "check_rw s' off (length bs) = check_rw s off (length bs)"
    using a(2) by (simp add: check_rw_def others_same_def)
  then show "\<exists>x. rd_file s' t off (length bs) = Some x"
    using read_file_spec [OF a(1) t off sz'] c off by (simp add: rd_file_def)
qed

interpretation toy: byte_files rd_file wr_file "sized_ok N X F" F content "\<lambda>s t. i_size (h_inode s t)" for N X F
proof
  fix s t off n bs assume a: "sized_ok N X F s" "t \<in> F" "rd_file s t off n = Some bs"
  show "0 \<le> off \<and> bs = map (\<lambda>i. content s t (off + int i)) [0..<min n (i_size (h_inode s t) - nat off)]"
    by (rule rd_file_law [OF a])
next
  fix s t off bs s' assume a: "sized_ok N X F s" "t \<in> F" "wr_file s t off bs = Some s'"
  show "0 \<le> off \<and> sized_ok N X F s' \<and> i_size (h_inode s' t) = max (i_size (h_inode s t)) (nat off + length bs) \<and>
      (\<forall>pos\<ge>0. content s' t pos = file_write off (length bs) (\<lambda>i. bs ! i) (content s t) pos) \<and>
      (\<forall>u\<in>F. u \<noteq> t \<longrightarrow> content s' u = content s u \<and> i_size (h_inode s' u) = i_size (h_inode s u))"
    by (rule wr_file_law(1) [OF a])
  show "\<exists>x. rd_file s' t off (length bs) = Some x" by (rule wr_file_law(2) [OF a])
qed

section \<open>Properties\<close>

text \<open>For the witnesses: a device of 8 pages with two empty regular files.\<close>

definition sample_reg :: "nat \<Rightarrow> toyfs_inode" where
  "sample_reg ino = zero_inode\<lparr>i_mode := 0x81A4, i_nlink := 1, i_ino := ino\<rparr>"

definition sample_tii :: "addr \<Rightarrow> nat \<Rightarrow> toyfs_inode_info" where
  "sample_tii ti ino = \<lparr>tii_op = True, tii_zi = Some ti, tii_sbi = True, tii_ti = Some ti, tii_ino = ino,
     imagic = 0x11E11F5, tii_ref = 1, tii_mapped = True, tii_valid = True\<rparr>"

definition sample_fs :: toyfs_sb_info where
  "sample_fs =
    (let s1 = upd_inode 36864 (\<lambda>_. sample_reg 2) (snd (toyfs_acquire_inode (sample_mount 8)));
         s2 = upd_inode 36992 (\<lambda>_. sample_reg 3) (snd (toyfs_acquire_inode s1))
     in s2\<lparr>h_tii := [11 \<mapsto> sample_tii 36864 2, 12 \<mapsto> sample_tii 36992 3]\<rparr>)"

lemma fs_ok_h_tii [simp]: "fs_ok N X F (s\<lparr>h_tii := x\<rparr>) = fs_ok N X F s"
  by (simp add: fs_ok_def pool_inv_def role_inv_def blocks_inv_def list_ok_def refs_def dpage_def
      toyfs_bn2pmemb_def toyfs_bn2addr_def inj_on_def)

lemma sample_fs_acquire:
  "fst (toyfs_acquire_inode (sample_mount 8)) = Some 36864"
  "fst (toyfs_acquire_inode (upd_inode 36864 (\<lambda>_. sample_reg 2) (snd (toyfs_acquire_inode (sample_mount 8))))) = Some 36992"
  "length (pool_pages (s_pool sample_fs)) = 7"
  by (simp_all add: sample_fs_def toyfs_acquire_inode_def pool_defs fold_free toyfs_inodes_per_page_def
        sample_simps upt_rec)

lemma sample_fs_ok: "fs_ok {36864, 36992} {} {36864, 36992} sample_fs"
proof -
  have 0: "fs_ok {} {} {} (sample_mount 8)" by (rule fs_ok_empty [OF sample_mount_inv]) simp
  let ?s1 = "upd_inode 36864 (\<lambda>_. sample_reg 2) (snd (toyfs_acquire_inode (sample_mount 8)))"
  have 1: "fs_ok {36864} {} {36864} ?s1"
    by (rule fs_ok_new_file [OF 0]) (use sample_fs_acquire(1) in \<open>simp_all add: prod_eq_iff sample_reg_def zero_inode_def\<close>)
  have "fs_ok {36992, 36864} {} {36992, 36864} (upd_inode 36992 (\<lambda>_. sample_reg 3) (snd (toyfs_acquire_inode ?s1)))"
    by (rule fs_ok_new_file [OF 1]) (use sample_fs_acquire(2) in \<open>simp_all add: prod_eq_iff sample_reg_def zero_inode_def\<close>)
  then show ?thesis by (simp add: sample_fs_def Let_def insert_commute)
qed

lemma sample_fs_simps:
  "zii_inode sample_fs (Some 11) = Some 36864" "zii_inode sample_fs (Some 12) = Some 36992"
  "i_size (h_inode sample_fs 36864) = 0" "i_size (h_inode sample_fs 36992) = 0"
  "s_md sample_fs = sample_md"
  by (simp_all add: sample_fs_def Let_def zii_inode_def toyfs_zii_to_tii_def sample_tii_def sample_reg_def
      zero_inode_def toyfs_acquire_inode_def sample_mount_def sbi_setup_def split: prod.split)

text \<open>
  C2. Read. For every file of a well-formed file system, \<open>toyfs_read\<close> never fails an assertion and
  never follows a dangling pointer: it reports the errors of \<open>_check_rw\<close>, and otherwise delivers
  exactly the contents of the file between the position and the smaller of the requested end and the end of
  the file, holes as zeros, and sets \<open>last_pos\<close> to the end of what was read.
\<close>

theorem toyfs_read_correct:
  assumes ok: "fs_ok N X F s" and t: "t \<in> F" and z: "zii_inode s (io_zus_ii io) = Some t"
    and pos: "io_filepos io < 2 ^ 64" and sz: "i_size (h_inode s t) < 2 ^ 63"
  shows "toyfs_read io s =
    (case check_rw s (cast_loff (io_filepos io)) (io_len io) of
       Inl e \<Rightarrow> Some (Inl e, [], io)
     | Inr _ \<Rightarrow>
        (let bytes = map (\<lambda>i. content s t (int (io_filepos io) + int i))
                       [0..<min (io_len io) (i_size (h_inode s t) - io_filepos io)]
         in Some (Inr (), bytes, io\<lparr>io_last_pos := io_filepos io + length bytes\<rparr>)))"
proof (cases "check_rw s (cast_loff (io_filepos io)) (io_len io)")
  case (Inl e)
  then show ?thesis using read_file_spec [OF ok t cast_loff_bounds [OF pos] sz] z by (simp add: toyfs_read_def)
next
  case (Inr u)
  note k = check_rw_Inr [OF ok Inr cast_loff_bounds [OF pos]]
  have fp: "cast_loff (io_filepos io) = int (io_filepos io)"
    using k(1) pos by (auto simp: cast_loff_def split: if_splits)
  have "size_add (io_filepos io) n = io_filepos io + n" if "n \<le> io_len io" for n
    using k(3) that unfolding fp by (intro size_add_small) simp
  then show ?thesis
    using read_file_spec [OF ok t cast_loff_bounds [OF pos] sz, of "io_len io"] z Inr
    by (simp add: toyfs_read_def fp content_list_min Let_def)
qed

theorem toyfs_read_correct_witness:
  "toyfs_read \<lparr>io_zus_ii = Some 11, io_len = 10, io_filepos = 0, io_last_pos = 7, io_rw = 0\<rparr> sample_fs =
   Some (Inr (), [], \<lparr>io_zus_ii = Some 11, io_len = 10, io_filepos = 0, io_last_pos = 0, io_rw = 0\<rparr>)"
  using toyfs_read_correct [OF sample_fs_ok, of 36864
      "\<lparr>io_zus_ii = Some 11, io_len = 10, io_filepos = 0, io_last_pos = 7, io_rw = 0\<rparr>"]
  by (simp add: sample_fs_simps check_rw_def check_io_def cast_loff_def cast_size_def size_add_def
      toyfs_isize_max_def sample_md_def Let_def)

text \<open>
  C1. Write. \<open>toyfs_write\<close> never fails an assertion. If the checks pass, it either stores all
  \<open>len\<close> bytes, extends the size to the end of the write and sets \<open>last_pos\<close>; or, when the pool is
  exhausted, it returns \<open>ENOSPC\<close> after it stored a prefix, with the size unchanged. In every case the
  invariant is kept, and neither the contents of any other file (also one that shares blocks with this
  one) nor any page that does not belong to a file changes.
\<close>

theorem toyfs_write_correct:
  assumes ok: "fs_ok N X F s" and t: "t \<in> F" and z: "zii_inode s (io_zus_ii io) = Some t"
    and pos: "io_filepos io < 2 ^ 64" and sz: "i_size (h_inode s t) < 2 ^ 63"
  shows "case check_rw s (cast_loff (io_filepos io)) (io_len io) of
      Inl e \<Rightarrow> toyfs_write buf io s = Some (Inl e, io, s)
    | Inr _ \<Rightarrow>
       (\<exists>s' k. toyfs_write buf io s = Some (Inl ENOSPC, io, s') \<and> k \<le> io_len io \<and> fs_ok N X F s' \<and>
          others_same X F t s s' \<and> i_size (h_inode s' t) = i_size (h_inode s t) \<and>
          (\<forall>p\<ge>0. content s' t p = file_write (int (io_filepos io)) k buf (content s t) p)) \<or>
       (\<exists>s'. toyfs_write buf io s = Some (Inr (), io\<lparr>io_last_pos := io_filepos io + io_len io\<rparr>, s') \<and>
          fs_ok N X F s' \<and> others_same X F t s s' \<and>
          i_size (h_inode s' t) = max (i_size (h_inode s t)) (io_filepos io + io_len io) \<and>
          (\<forall>p\<ge>0. content s' t p = file_write (int (io_filepos io)) (io_len io) buf (content s t) p))"
proof (cases "check_rw s (cast_loff (io_filepos io)) (io_len io)")
  case (Inl e)
  then show ?thesis using z by (simp add: toyfs_write_def write_file_def)
next
  case (Inr u)
  note k = check_rw_Inr [OF ok Inr cast_loff_bounds [OF pos]]
  have fp: "cast_loff (io_filepos io) = int (io_filepos io)"
    using k(1) pos by (auto simp: cast_loff_def split: if_splits)
  have "size_add (io_filepos io) (io_len io) = io_filepos io + io_len io"
    using k(3) unfolding fp by (intro size_add_small) simp
  with write_file_spec [OF ok t cast_loff_bounds [OF pos] sz Inr, of buf] show ?thesis
    using z Inr by (auto simp: toyfs_write_def fp wrote_def)
qed

abbreviation (input) sample_io :: zufs_ioc_IO where
  "sample_io \<equiv> \<lparr>io_zus_ii = Some 11, io_len = 3, io_filepos = 5, io_last_pos = 0, io_rw = 0\<rparr>"

lemma sample_check: "check_rw sample_fs 5 3 = Inr ()"
  by (simp add: sample_fs_simps check_rw_def check_io_def cast_size_def size_add_def
      toyfs_isize_max_def sample_md_def Let_def)

theorem toyfs_write_correct_witness:
  "\<exists>s' r io'. toyfs_write (\<lambda>i. [1, 2, 3] ! i) sample_io sample_fs = Some (r, io', s') \<and>
     fs_ok {36864, 36992} {} {36864, 36992} s' \<and> content s' 36992 = content sample_fs 36992"
  using toyfs_write_correct [OF sample_fs_ok, of 36864 sample_io "\<lambda>i. [1, 2, 3] ! i"]
  by (auto simp: sample_fs_simps sample_check cast_loff_def others_same_def)

text \<open>
  C3. Read after write. When \<open>toyfs_write\<close> of \<open>bs\<close> succeeds, a \<open>toyfs_read\<close> of the same range of the same file returns
  exactly \<open>bs\<close>.
\<close>

theorem toyfs_read_after_write:
  assumes ok: "sized_ok N X F s" and t: "t \<in> F" and z: "zii_inode s (io_zus_ii io) = Some t"
    and pos: "io_filepos io < 2 ^ 64" and len: "io_len io = length bs"
    and w: "toyfs_write (\<lambda>i. bs ! i) io s = Some (Inr (), io', s')"
  shows "toyfs_read io s' = Some (Inr (), bs, io')"
proof -
  have fs: "fs_ok N X F s" and sz: "i_size (h_inode s t) < 2 ^ 63" using ok t by (auto simp: sized_ok_def)
  let ?off = "cast_loff (io_filepos io)"
  obtain r s1 where wf: "write_file t (\<lambda>i. bs ! i) ?off (length bs) s = Some (r, s1)"
    using w z len by (auto simp: toyfs_write_def bind_eq_Some_conv)
  then obtain cnt where wf: "write_file t (\<lambda>i. bs ! i) ?off (length bs) s = Some (Inr cnt, s')"
    and io': "io' = io\<lparr>io_last_pos := size_add (io_filepos io) cnt\<rparr>"
    using w z len by (cases r) (auto simp: toyfs_write_def)
  then have wr: "wr_file s t ?off bs = Some s'" using cast_loff_bounds [OF pos] by (simp add: wr_file_def)
  have rd: "rd_file s' t ?off (length bs) = Some bs" by (rule toy.read_after_write [OF ok t wr])
  then have rf: "read_file t ?off (length bs) s' = Some (Inr bs)"
    by (auto simp: rd_file_def split: if_splits option.splits sum.splits)
  obtain u where c: "check_rw s ?off (length bs) = Inr u"
    using wf by (cases "check_rw s ?off (length bs)") (auto simp: write_file_def)
  have "cnt = length bs" and o: "others_same X F t s s'"
    using write_file_spec [OF fs t cast_loff_bounds [OF pos] sz c, of "\<lambda>i. bs ! i"] wf by auto
  moreover have "zii_inode s' (io_zus_ii io) = Some t"
    using z o zii_inode_cong [of s' s] by (simp add: others_same_def)
  ultimately show ?thesis using rf len io' by (simp add: toyfs_read_def)
qed

lemma sample_write:
  "\<exists>s'. toyfs_write (\<lambda>i. [1, 2, 3] ! i) sample_io sample_fs = Some (Inr (), sample_io\<lparr>io_last_pos := 8\<rparr>, s')"
proof -
  have t: "36864 \<in> {36864, 36992::addr}" by simp
  have "write_loop 36864 (\<lambda>i. [1, 2, 3] ! i) 5 8 0 sample_fs \<noteq> Some (Inl ENOSPC, s')" for s'
    by (rule write_loop_space [OF t sample_fs_ok]) (simp_all add: nblocks_def sample_fs_acquire(3))
  then have "write_file 36864 (\<lambda>i. [1, 2, 3] ! i) 5 3 sample_fs \<noteq> Some (Inl ENOSPC, s')" for s'
    by (auto simp: write_file_def sample_check cast_loff_def bind_eq_Some_conv split: sum.splits)
  with write_file_spec [OF sample_fs_ok t, of 5 3 "()" "\<lambda>i. [1, 2, 3] ! i"]
  show ?thesis by (auto simp: sample_check sample_fs_simps toyfs_write_def cast_loff_def size_add_def)
qed

theorem toyfs_read_after_write_witness:
  "\<exists>s'. toyfs_write (\<lambda>i. [1, 2, 3] ! i) sample_io sample_fs = Some (Inr (), sample_io\<lparr>io_last_pos := 8\<rparr>, s') \<and>
     toyfs_read sample_io s' = Some (Inr (), [1, 2, 3], sample_io\<lparr>io_last_pos := 8\<rparr>)"
proof -
  obtain s' where s': "toyfs_write (\<lambda>i. [1, 2, 3] ! i) sample_io sample_fs = Some (Inr (), sample_io\<lparr>io_last_pos := 8\<rparr>, s')"
    using sample_write by blast
  have "sized_ok {36864, 36992} {} {36864, 36992} sample_fs" by (simp add: sized_ok_def sample_fs_ok sample_fs_simps)
  from toyfs_read_after_write [OF this, of 36864 sample_io "[1, 2, 3]", OF _ _ _ _ s'] s' show ?thesis
    by (simp add: sample_fs_simps)
qed

text \<open>
  C5. Space. A write that passes the checks succeeds whenever three free pages per touched block
  are left: one for the data, and at most one each for a fresh page of data-block and
  inode-block references.
\<close>

theorem toyfs_write_succeeds:
  assumes ok: "fs_ok N X F s" and t: "t \<in> F" and z: "zii_inode s (io_zus_ii io) = Some t"
    and pos: "io_filepos io < 2 ^ 63" and sz: "i_size (h_inode s t) < 2 ^ 63"
    and c: "check_rw s (int (io_filepos io)) (io_len io) = Inr ()"
    and sp: "3 * nblocks (int (io_filepos io)) (int (io_filepos io) + int (io_len io)) \<le> npages s"
  shows "\<exists>s'. toyfs_write buf io s = Some (Inr (), io\<lparr>io_last_pos := io_filepos io + io_len io\<rparr>, s')"
proof -
  let ?off = "int (io_filepos io)"
  have off: "?off < 2 ^ 63" using pos by simp
  note k = check_rw_Inr [OF ok c off]
  have "write_loop t buf ?off (?off + int (io_len io)) 0 s \<noteq> Some (Inl ENOSPC, s')" for s'
    by (rule write_loop_space [OF t ok k(1)]) (use k sp in simp_all)
  then have "write_file t buf ?off (io_len io) s \<noteq> Some (Inl ENOSPC, s')" for s'
    by (auto simp: write_file_def c k(4) bind_eq_Some_conv split: sum.splits)
  then obtain s' where "write_file t buf ?off (io_len io) s = Some (Inr (io_len io), s')"
    using write_file_spec [OF ok t off sz c, of buf] by blast
  moreover have "size_add (io_filepos io) (io_len io) = io_filepos io + io_len io"
    using k(3) by (intro size_add_small) simp
  ultimately show ?thesis using z pos by (simp add: toyfs_write_def cast_loff_small)
qed

theorem toyfs_write_succeeds_witness:
  "\<exists>s'. toyfs_write (\<lambda>i. [1, 2, 3] ! i) sample_io sample_fs = Some (Inr (), sample_io\<lparr>io_last_pos := 8\<rparr>, s')"
  using toyfs_write_succeeds [OF sample_fs_ok, of 36864 sample_io "\<lambda>i. [1, 2, 3] ! i"]
  by (simp add: sample_fs_simps sample_check nblocks_def sample_fs_acquire(3))

end
