(* ===== verification/FileRange.thy ===== *)
theory FileRange
  imports FileContent
begin

text \<open>
  Operations of toyfs files that remove or share blocks: dropping a block, truncate, punch hole and
  clone, as operations on the contents of the files.
\<close>

section \<open>Dropping a block\<close>

lemma unlink_blocks_inv:
  assumes inv: "blocks_inv D B I N X F s" and t: "t \<in> F" and ib: "ib \<in> set (list_head (h_inode s t))"
    and d: "ib_dblkref (h_iblkref s ib) = Some d" and md: "s_md s' = s_md s"
    and ino: "\<And>u. u \<noteq> t \<Longrightarrow> h_inode s' u = h_inode s u"
      "list_head (h_inode s' t) = remove1 ib (list_head (h_inode s t))"
      "i_blocks (h_inode s' t) = i_blocks (h_inode s t) - 1"
    and ibs: "\<And>b. b \<noteq> ib \<Longrightarrow> h_iblkref s' b = h_iblkref s b"
    and db: "\<And>e. e \<noteq> d \<Longrightarrow> h_dblkref s' e = h_dblkref s e"
    and cs: "B' = B \<and> D' = D \<and> 0 < db_refcnt (h_dblkref s' d) \<and>
        db_refcnt (h_dblkref s' d) + 1 = db_refcnt (h_dblkref s d) \<and> db_bn (h_dblkref s' d) = db_bn (h_dblkref s d)
      \<or> B' = B - {d} \<and> D' = D - {dpage s d} \<and> db_refcnt (h_dblkref s d) = 1"
  shows "blocks_inv D' B' (I - {ib}) N X F s'"
proof -
  note dI = blocks_ibD [OF inv t ib]
  have dB: "d \<in> B" "dpage s d \<notin> X" "card (refs F s d) \<le> db_refcnt (h_dblkref s d)" "ib \<in> refs F s d"
    using dI d by auto
  have XD: "X \<subseteq> D" using inv by (simp add: blocks_inv_def)
  have dist: "distinct (list_head (h_inode s t))"
    by (rule sorted_wrt_map_less_distinct [OF blocks_listD(3) [OF inv t]])
  have lset: "set (list_head (h_inode s' u)) = set (list_head (h_inode s u)) - {ib}" if "u \<in> F" for u
  proof (cases "u = t")
    case True
    then show ?thesis using ino(2) dist by simp
  next
    case False
    then have "ib \<notin> set (list_head (h_inode s u))" using lists_disjointD [OF inv t that ib] by auto
    then show ?thesis using ino(1) False by simp
  qed
  have refs': "refs F s' e = refs F s e - {ib}" for e
    using lset ibs by (auto simp: refs_def)
  have refs_e: "refs F s' e = refs F s e" if "e \<noteq> d" for e
    using that d unfolding refs' by (auto simp: refs_def)
  have alone: "b = ib" if "db_refcnt (h_dblkref s d) = 1" "u \<in> F" "b \<in> set (list_head (h_inode s u))"
      "ib_dblkref (h_iblkref s b) = Some d" for u b
  proof -
    have "sole F s ib" using sole_refcnt1 [OF inv t ib d] that(1) by simp
    moreover have "b \<in> refs F s d" using that by (auto simp: refs_def)
    ultimately show ?thesis using d by (auto simp: sole_def)
  qed
  have sub: "B' \<subseteq> B" using cs by auto
  have dp: "dpage s' e = dpage s e" if "e \<in> B'" for e
    by (rule dpage_cong [OF md]) (use that cs db in \<open>cases "e = d"; auto\<close>)
  have lst: "list_ok B' (I - {ib}) s' u" if u: "u \<in> F" for u
  proof -
    have same: "h_iblkref s' b = h_iblkref s b" if "b \<in> set (list_head (h_inode s' u))" for b
      using that lset [OF u] by (intro ibs) auto
    have "sorted_wrt (<) (map (\<lambda>b. ib_off (h_iblkref s b)) (list_head (h_inode s' u)))"
    proof (cases "u = t")
      case True
      have *: "sorted_wrt (\<lambda>x y. ib_off (h_iblkref s x) < ib_off (h_iblkref s y)) (list_head (h_inode s t))"
        using blocks_listD(3) [OF inv t] by (simp add: sorted_wrt_map)
      obtain ps qs where L: "list_head (h_inode s t) = ps @ ib # qs" "ib \<notin> set ps"
        using split_list_first [OF ib] by blast
      show ?thesis using * True ino(2) L by (auto simp: remove1_split sorted_wrt_append sorted_wrt_map)
    next
      case False
      then show ?thesis using blocks_listD(3) [OF inv u] ino(1) by simp
    qed
    moreover have "map (\<lambda>b. ib_off (h_iblkref s' b)) (list_head (h_inode s' u)) =
        map (\<lambda>b. ib_off (h_iblkref s b)) (list_head (h_inode s' u))" using same by simp
    ultimately have srt: "sorted_wrt (<) (map (\<lambda>b. ib_off (h_iblkref s' b)) (list_head (h_inode s' u)))"
      by (simp only:)
    have ok: "iblk_ok B' (h_iblkref s' b)" if b: "b \<in> set (list_head (h_inode s' u))" for b
    proof -
      have b': "b \<in> set (list_head (h_inode s u))" "b \<noteq> ib" using b lset [OF u] by auto
      obtain e where e: "ib_dblkref (h_iblkref s b) = Some e" "e \<in> B" "0 \<le> ib_off (h_iblkref s b)"
        "ib_off (h_iblkref s b) mod 4096 = 0" using blocks_ibD [OF inv u b'(1)] by metis
      have "e \<noteq> d" if "db_refcnt (h_dblkref s d) = 1" using alone [OF that u b'(1)] e(1) b'(2) by auto
      then have "e \<in> B'" using cs e(2) by auto
      then show ?thesis using e same [OF b] by (simp add: iblk_ok_def)
    qed
    have "i_blocks (h_inode s' u) = length (list_head (h_inode s' u))"
    proof -
      have "i_blocks (h_inode s u) = length (list_head (h_inode s u))"
        using blocks_listD(2) [OF inv u] by (simp add: list_ok_def)
      then show ?thesis using ino ib by (cases "u = t") (simp_all add: length_remove1)
    qed
    moreover have "set (list_head (h_inode s' u)) \<subseteq> I - {ib}"
      using blocks_listD(4) [OF inv u] lset [OF u] by auto
    ultimately show ?thesis using srt ok by (simp add: list_ok_def)
  qed
  have dok: "0 < db_refcnt (h_dblkref s' e) \<and> dpage s' e \<in> D' \<and> dpage s' e \<notin> X \<and>
      card (refs F s' e) \<le> db_refcnt (h_dblkref s' e)" if e: "e \<in> B'" for e
  proof (cases "e = d")
    case True
    then have c: "B' = B" "D' = D" "0 < db_refcnt (h_dblkref s' d)"
        "db_refcnt (h_dblkref s' d) + 1 = db_refcnt (h_dblkref s d)" using cs e by auto
    have "card (refs F s' d) \<le> db_refcnt (h_dblkref s' d)"
      using dB(3,4) c(4) refs_finite [OF inv, of d] by (simp add: refs' card_Diff_singleton)
    then show ?thesis using True c dp [OF e] dI d by auto
  next
    case False
    have eB: "e \<in> B" using e sub by auto
    have "dpage s e \<noteq> dpage s d" using inv eB dB(1) False by (auto simp: blocks_inv_def inj_on_def)
    then show ?thesis using False dp [OF e] db refs_e inv eB cs by (auto simp: blocks_inv_def)
  qed
  have XD': "X \<subseteq> D'" using cs XD dB(2) by auto
  have "inj_on (dpage s) B'" using inv sub inj_on_subset by (auto simp: blocks_inv_def)
  then have inj: "inj_on (dpage s') B'" using inj_on_cong [of B' "dpage s'" "dpage s"] dp by simp
  show ?thesis unfolding blocks_inv_def
  proof (intro conjI)
    show "\<forall>u\<in>F. \<forall>v\<in>F. u \<noteq> v \<longrightarrow> set (list_head (h_inode s' u)) \<inter> set (list_head (h_inode s' v)) = {}"
      using lists_disjointD [OF inv] lset by blast
    show "\<forall>t\<in>F. list_ok B' (I - {ib}) s' t" using lst by blast
    show "\<forall>e\<in>B'. 0 < db_refcnt (h_dblkref s' e) \<and> dpage s' e \<in> D' \<and> dpage s' e \<notin> X \<and>
        card (refs F s' e) \<le> db_refcnt (h_dblkref s' e)" using dok by blast
  qed (use inv inj XD' in \<open>auto simp: blocks_inv_def\<close>)
qed

lemma unlink_content:
  assumes inv: "blocks_inv D B I N X F s" and t: "t \<in> F" and ib: "ib \<in> set (list_head (h_inode s t))"
    and u: "u \<in> F" and md: "s_md s' = s_md s"
    and ino: "\<And>u. u \<noteq> t \<Longrightarrow> h_inode s' u = h_inode s u"
      "list_head (h_inode s' t) = remove1 ib (list_head (h_inode s t))"
    and ibs: "\<And>b. b \<noteq> ib \<Longrightarrow> h_iblkref s' b = h_iblkref s b"
    and db: "\<And>e. e \<noteq> d \<Longrightarrow> h_dblkref s' e = h_dblkref s e" and dat: "h_dat s' = h_dat s"
    and d: "ib_dblkref (h_iblkref s ib) = Some d"
    and dd: "db_bn (h_dblkref s' d) = db_bn (h_dblkref s d) \<or> refs F s d = {ib}"
  shows "content s' u pos = (if fetch_iblkref u pos s = Some ib then 0 else content s u pos)"
proof -
  have dist: "distinct (list_head (h_inode s t))"
    by (rule sorted_wrt_map_less_distinct [OF blocks_listD(3) [OF inv t]])
  have lset: "b \<in> set (list_head (h_inode s' u)) \<longleftrightarrow> b \<in> set (list_head (h_inode s u)) \<and> b \<noteq> ib" for b
  proof (cases "u = t")
    case True
    then show ?thesis using ino(2) dist by simp
  next
    case False
    then have "ib \<notin> set (list_head (h_inode s u))" using lists_disjointD [OF inv t u ib] by auto
    then show ?thesis using ino(1) False by auto
  qed
  let ?P = "\<lambda>b. ib_off (h_iblkref s b) = off_to_boff pos"
  note srt = blocks_listD(3) [OF inv u]
  show ?thesis
  proof (cases "fetch_iblkref u pos s' ")
    case None
    then have "\<not> ?P b" if "b \<in> set (list_head (h_inode s u))" "b \<noteq> ib" for b
      using that lset [of b] ibs [of b]
      by (auto simp: fetch_iblkref_def Let_def toyfs_iblkrefs_list_of_def find_None_all)
    then have "fetch_iblkref u pos s = None \<or> fetch_iblkref u pos s = Some ib"
      using fetch_SomeD [of u pos s] by (cases "fetch_iblkref u pos s") auto
    then show ?thesis using None by (auto simp: content_def)
  next
    case (Some b)
    have b: "b \<in> set (list_head (h_inode s u))" "b \<noteq> ib" "?P b"
      using fetch_SomeD [OF Some] lset ibs by auto
    have f: "fetch_iblkref u pos s = Some b" by (rule fetch_SomeI [OF srt b(1,3)])
    obtain e where e: "ib_dblkref (h_iblkref s b) = Some e" using blocks_ibD [OF inv u b(1)] by blast
    have "refs F s d \<noteq> {ib}" if "e = d" using e b(1,2) u that by (auto simp: refs_def)
    then have "db_bn (h_dblkref s' e) = db_bn (h_dblkref s e)" using dd db by (cases "e = d") auto
    then have "dpage s' e = dpage s e" by (rule dpage_cong [OF md])
    then show ?thesis using Some f b e ibs dat by (simp add: content_def)
  qed
qed

definition drop_result :: "addr set \<Rightarrow> addr set \<Rightarrow> addr set \<Rightarrow> addr \<Rightarrow> addr \<Rightarrow> toyfs_sb_info \<Rightarrow> toyfs_sb_info \<Rightarrow> bool" where
  "drop_result N X F t ib s s' =
    (fs_ok N X F s' \<and> others_same X F t s s' \<and> i_size (h_inode s' t) = i_size (h_inode s t) \<and>
     list_head (h_inode s' t) = remove1 ib (list_head (h_inode s t)) \<and>
     (\<forall>u. u \<noteq> t \<longrightarrow> h_inode s' u = h_inode s u) \<and>
     (\<forall>b. b \<noteq> ib \<longrightarrow> h_iblkref s' b = h_iblkref s b) \<and>
     (\<forall>pos. content s' t pos = (if fetch_iblkref t pos s = Some ib then 0 else content s t pos)))"

lemma drop_iblkref_sets:
  assumes pool: "pool_inv D B I N s" and inv: "blocks_inv D B I N X F s" and t: "t \<in> F" and ib: "ib \<in> set (list_head (h_inode s t))"
  shows "\<exists>s' d. drop_iblkref t ib s = Some s' \<and> drop_result N X F t ib s s' \<and> ib_dblkref (h_iblkref s ib) = Some d \<and>
    0 < db_refcnt (h_dblkref s d) \<and>
    (let B' = if db_refcnt (h_dblkref s d) = 1 then B - {d} else B;
         D' = if db_refcnt (h_dblkref s d) = 1 then D - {dpage s d} else D
     in pool_inv D' B' (I - {ib}) N s' \<and> blocks_inv D' B' (I - {ib}) N X F s' \<and>
        (\<forall>e\<in>B'. dpage s' e = dpage s e \<and> db_refcnt (h_dblkref s' e) = db_refcnt (h_dblkref s e) - (if e = d then 1 else 0)))"
proof -
  obtain d where d: "ib_dblkref (h_iblkref s ib) = Some d" "d \<in> B" "dpage s d \<in> D" "ib \<in> I"
    "0 < db_refcnt (h_dblkref s d)" using blocks_ibD [OF inv t ib] by blast
  let ?s0 = "upd_inode t (\<lambda>zi. zi\<lparr>list_head := remove1 ib (list_head zi)\<rparr>) s"
  let ?s1 = "upd_dblkref d (\<lambda>r. r\<lparr>db_refcnt := db_refcnt r - 1\<rparr>) ?s0"
  let ?s2 = "if db_refcnt (h_dblkref s d) = 1 then free_dblkref d ?s1 else ?s1"
  let ?s' = "upd_inode t (\<lambda>zi. zi\<lparr>i_blocks := i_blocks zi - 1\<rparr>) (toyfs_release_iblkref ib ?s2)"
  have dr: "decref_dblkref d ?s0 = Some ?s2" using d(5) by (simp add: decref_dblkref_eq Let_def)
  have "i_blocks (h_inode s t) \<noteq> 0"
    using blocks_listD(2) [OF inv t] ib by (cases "list_head (h_inode s t)") (auto simp: list_ok_def)
  then have run: "drop_iblkref t ib s = Some ?s'"
    using d(1) dr by (simp add: drop_iblkref_def free_iblkref_def)
  have fr: "s_md ?s2 = s_md s" "h_inode ?s2 = h_inode ?s0" "h_iblkref ?s2 = h_iblkref s"
    "h_dat ?s2 = h_dat s" "h_tii ?s2 = h_tii s" "\<And>e. e \<noteq> d \<Longrightarrow> h_dblkref ?s2 e = h_dblkref s e" by simp_all
  have fr': "s_md ?s' = s_md s" "\<And>u. u \<noteq> t \<Longrightarrow> h_inode ?s' u = h_inode s u"
    "list_head (h_inode ?s' t) = remove1 ib (list_head (h_inode s t))"
    "i_blocks (h_inode ?s' t) = i_blocks (h_inode s t) - 1" "i_size (h_inode ?s' t) = i_size (h_inode s t)"
    "i_mode (h_inode ?s' t) = i_mode (h_inode s t)"
    "\<And>b. b \<noteq> ib \<Longrightarrow> h_iblkref ?s' b = h_iblkref s b" "h_tii ?s' = h_tii s"
    "\<And>e. e \<noteq> d \<Longrightarrow> h_dblkref ?s' e = h_dblkref s e" "h_dat ?s' = h_dat s"
    using fr by simp_all
  have hd: "h_dblkref ?s' = h_dblkref ?s2" by simp
  have dp: "dpage ?s1 d = dpage s d" by (rule dpage_cong) simp_all
  define B' D' where "B' = (if db_refcnt (h_dblkref s d) = 1 then B - {d} else B)"
    and "D' = (if db_refcnt (h_dblkref s d) = 1 then D - {dpage s d} else D)"
  have cs: "B' = B \<and> D' = D \<and> 0 < db_refcnt (h_dblkref ?s' d) \<and>
        db_refcnt (h_dblkref ?s' d) + 1 = db_refcnt (h_dblkref s d) \<and> db_bn (h_dblkref ?s' d) = db_bn (h_dblkref s d)
      \<or> B' = B - {d} \<and> D' = D - {dpage s d} \<and> db_refcnt (h_dblkref s d) = 1"
    unfolding hd using d(5) by (auto simp: B'_def D'_def)
  have inv': "blocks_inv D' B' (I - {ib}) N X F ?s'"
    by (rule unlink_blocks_inv [OF inv t ib d(1) fr'(1-4,7,9) cs])
  have pool2: "pool_inv D' B' I N ?s2"
    using free_dblkref_pool [of D B I N ?s1 d] pool d dp by (simp add: B'_def D'_def)
  then have pool': "pool_inv D' B' (I - {ib}) N ?s'"
    using iblk_src.release_law [OF pool2 d(4)] by simp
  have dd: "db_bn (h_dblkref ?s' d) = db_bn (h_dblkref s d) \<or> refs F s d = {ib}"
    using cs sole_refcnt1 [OF inv t ib d(1)] d(1) by (auto simp: sole_def)
  have cont: "content ?s' u pos = (if fetch_iblkref u pos s = Some ib then 0 else content s u pos)" if "u \<in> F" for u pos
    by (rule unlink_content [OF inv t ib that fr'(1-3,7,9,10) d(1) dd])
  have "fetch_iblkref u pos s \<noteq> Some ib" if "u \<in> F" "u \<noteq> t" for u pos
    using fetch_SomeD [of u pos s ib] lists_disjointD [OF inv t that(1) ib] that(2) by auto
  then have "content ?s' u = content s u" if "u \<in> F" "u \<noteq> t" for u
    using cont [OF that(1)] that by auto
  then have "others_same X F t s ?s'" using fr' t by (auto simp: others_same_def)
  moreover have "fs_ok N X F ?s'" unfolding fs_ok_def using inv' pool' by blast
  ultimately have "drop_result N X F t ib s ?s'"
    using fr'(2,3,5,7) cont [OF t] by (simp add: drop_result_def)
  moreover have "dpage ?s' e = dpage s e" if "e \<in> B'" for e
    by (rule dpage_cong [OF fr'(1)]) (use cs that fr'(9) [of e] in \<open>cases "e = d"; auto\<close>)
  moreover have "db_refcnt (h_dblkref ?s' e) = db_refcnt (h_dblkref s e) - (if e = d then 1 else 0)" if "e \<in> B'" for e
    using cs that fr'(9) [of e] by (cases "e = d") auto
  ultimately show ?thesis using run d(1,5) pool' inv' unfolding B'_def D'_def Let_def by blast
qed

lemma drop_iblkref_spec:
  assumes "fs_ok N X F s" "t \<in> F" "ib \<in> set (list_head (h_inode s t))"
  shows "\<exists>s'. drop_iblkref t ib s = Some s' \<and> drop_result N X F t ib s s'"
  using assms drop_iblkref_sets unfolding fs_ok_def by blast

text \<open>
  Which data blocks a loop over all of \<open>xs\<close> gives back: those whose references are all in \<open>xs\<close>. A block with a further reference, from another file
  or from another offset of the same file, keeps its page.
\<close>

definition refs_to :: "toyfs_sb_info \<Rightarrow> addr list \<Rightarrow> addr \<Rightarrow> nat" where
  "refs_to s xs d = length (filter (\<lambda>b. ib_dblkref (h_iblkref s b) = Some d) xs)"

definition unshared :: "toyfs_sb_info \<Rightarrow> addr list \<Rightarrow> addr set" where
  "unshared s xs = {d. 0 < refs_to s xs d \<and> db_refcnt (h_dblkref s d) = refs_to s xs d}"

lemma refs_to_Cons: "refs_to s (x # xs) d = (if ib_dblkref (h_iblkref s x) = Some d then 1 else 0) + refs_to s xs d"
  by (simp add: refs_to_def)

lemma refs_to_Nil [simp]: "refs_to s [] d = 0"
  by (simp add: refs_to_def)

lemma refs_to_in: "0 < refs_to s xs d \<Longrightarrow> \<exists>b\<in>set xs. ib_dblkref (h_iblkref s b) = Some d"
  by (auto simp: refs_to_def filter_empty_conv)

lemma refs_to_block:
  assumes "blocks_inv D B I N X F s" "t \<in> F" "set xs \<subseteq> set (list_head (h_inode s t))" "0 < refs_to s xs d"
  shows "d \<in> B"
  using refs_to_in [OF assms(4)] blocks_ibD [OF assms(1,2)] assms(3) by fastforce

lemma unshared_step:
  assumes d: "ib_dblkref (h_iblkref s ib) = Some d" "0 < db_refcnt (h_dblkref s d)" and ne: "\<And>b. b \<noteq> ib \<Longrightarrow> h_iblkref s1 b = h_iblkref s b" "ib \<notin> set xs"
    and B1: "B1 = (if db_refcnt (h_dblkref s d) = 1 then B - {d} else B)"
    and cnt: "\<And>e. e \<in> B1 \<Longrightarrow> db_refcnt (h_dblkref s1 e) = db_refcnt (h_dblkref s e) - (if e = d then 1 else 0)"
    and sub: "\<And>e. 0 < refs_to s1 xs e \<Longrightarrow> e \<in> B1"
  shows "unshared s (ib # xs) = (if db_refcnt (h_dblkref s d) = 1 then insert d (unshared s1 xs) else unshared s1 xs)"
proof -
  have eq: "refs_to s1 xs = refs_to s xs"
    unfolding refs_to_def using ne by (intro ext arg_cong [where f = length] filter_cong refl) (metis ne)
  have "e \<in> unshared s (ib # xs) \<longleftrightarrow> (db_refcnt (h_dblkref s d) = 1 \<and> e = d) \<or> e \<in> unshared s1 xs" for e
  proof (cases "e = d")
    case True
    show ?thesis
    proof (cases "db_refcnt (h_dblkref s d) = 1")
      case one: True
      then have "refs_to s xs d = 0" using sub [of d] by (auto simp: B1 eq)
      then show ?thesis using True one d by (simp add: unshared_def refs_to_Cons)
    next
      case False
      show ?thesis
      proof (cases "refs_to s xs d = 0")
        case True
        then show ?thesis using \<open>e = d\<close> False d(1) by (simp add: unshared_def refs_to_Cons eq)
      next
        case r: False
        then have "db_refcnt (h_dblkref s1 d) = db_refcnt (h_dblkref s d) - 1" using cnt [of d] sub [of d] by (simp add: eq)
        then show ?thesis using True False d r by (auto simp: unshared_def refs_to_Cons eq)
      qed
    qed
  next
    case False
    then have "db_refcnt (h_dblkref s1 e) = db_refcnt (h_dblkref s e)" if "0 < refs_to s xs e" using that cnt [of e] sub [of e] by (simp add: eq)
    then show ?thesis using False d by (auto simp: unshared_def refs_to_Cons eq)
  qed
  then show ?thesis by auto
qed

lemma drop_all_sets:
  assumes t: "t \<in> F"
  shows "\<lbrakk>pool_inv D B I N s; blocks_inv D B I N X F s; set itr \<subseteq> set (list_head (h_inode s t)); distinct itr;
      \<And>b. b \<in> set itr \<Longrightarrow> pos \<le> ib_off (h_iblkref s b); drop_range_loop t pos itr s = Some s'\<rbrakk> \<Longrightarrow>
    pool_inv (D - dpage s ` unshared s itr) (B - unshared s itr) (I - set itr) N s' \<and>
    blocks_inv (D - dpage s ` unshared s itr) (B - unshared s itr) (I - set itr) N X F s'"
proof (induction itr arbitrary: D B I s)
  case Nil
  then show ?case by (simp add: unshared_def)
next
  case (Cons ib itr)
  have ib: "ib \<in> set (list_head (h_inode s t))" "pos \<le> ib_off (h_iblkref s ib)" "ib \<notin> set itr" using Cons.prems by simp_all
  from drop_iblkref_sets [OF Cons.prems(1,2) t ib(1)] obtain s1 d where
    s1: "drop_iblkref t ib s = Some s1" "drop_result N X F t ib s s1" and d: "ib_dblkref (h_iblkref s ib) = Some d" "0 < db_refcnt (h_dblkref s d)" and
    st: "let B' = if db_refcnt (h_dblkref s d) = 1 then B - {d} else B;
         D' = if db_refcnt (h_dblkref s d) = 1 then D - {dpage s d} else D
     in pool_inv D' B' (I - {ib}) N s1 \<and> blocks_inv D' B' (I - {ib}) N X F s1 \<and>
        (\<forall>e\<in>B'. dpage s1 e = dpage s e \<and> db_refcnt (h_dblkref s1 e) = db_refcnt (h_dblkref s e) - (if e = d then 1 else 0))" by blast
  define B1 where "B1 = (if db_refcnt (h_dblkref s d) = 1 then B - {d} else B)"
  define D1 where "D1 = (if db_refcnt (h_dblkref s d) = 1 then D - {dpage s d} else D)"
  from st have inv: "pool_inv D1 B1 (I - {ib}) N s1" "blocks_inv D1 B1 (I - {ib}) N X F s1" and
    bl: "\<And>e. e \<in> B1 \<Longrightarrow> dpage s1 e = dpage s e" "\<And>e. e \<in> B1 \<Longrightarrow> db_refcnt (h_dblkref s1 e) = db_refcnt (h_dblkref s e) - (if e = d then 1 else 0)"
    unfolding B1_def D1_def Let_def by simp_all
  have ne: "h_iblkref s1 b = h_iblkref s b" if "b \<noteq> ib" for b using s1(2) that by (simp add: drop_result_def)
  have L: "set itr \<subseteq> set (list_head (h_inode s1 t))"
  proof
    fix b assume "b \<in> set itr"
    then have "b \<in> set (list_head (h_inode s t))" "b \<noteq> ib" using Cons.prems(3) ib(3) by auto
    then show "b \<in> set (list_head (h_inode s1 t))" using s1(2) by (simp add: drop_result_def in_set_remove1)
  qed
  have off: "pos \<le> ib_off (h_iblkref s1 b)" if "b \<in> set itr" for b using that ne Cons.prems(5) ib(3) by (metis list.set_intros(2))
  have run: "drop_range_loop t pos itr s1 = Some s'" using Cons.prems(6) s1(1) ib(2) by simp
  have sub: "e \<in> B1" if "0 < refs_to s1 itr e" for e by (rule refs_to_block [OF inv(2) t L that])
  have U: "unshared s (ib # itr) = (if db_refcnt (h_dblkref s d) = 1 then insert d (unshared s1 itr) else unshared s1 itr)"
    by (rule unshared_step [OF d _ ib(3) B1_def bl(2) sub]) (rule ne)
  have "unshared s1 itr \<subseteq> B1" using sub by (auto simp: unshared_def)
  then have dp: "dpage s1 ` unshared s1 itr = dpage s ` unshared s1 itr" using bl(1) by (intro image_cong) auto
  have "B1 - unshared s1 itr = B - unshared s (ib # itr)" "D1 - dpage s ` unshared s1 itr = D - dpage s ` unshared s (ib # itr)"
    "I - {ib} - set itr = I - set (ib # itr)" unfolding U B1_def D1_def by auto
  with Cons.IH [OF inv L _ off run] Cons.prems(4) show ?case by (simp add: dp)
qed

lemma drop_fetch:
  assumes ok: "fs_ok N X F s" and t: "t \<in> F" and ib: "ib \<in> set (list_head (h_inode s t))"
    and r: "drop_result N X F t ib s s'"
  shows "fetch_iblkref t pos s' = (if fetch_iblkref t pos s = Some ib then None else fetch_iblkref t pos s)"
proof -
  from ok obtain D B I where inv: "blocks_inv D B I N X F s" by (auto simp: fs_ok_def)
  note srt = blocks_listD(3) [OF inv t]
  have L: "list_head (h_inode s' t) = remove1 ib (list_head (h_inode s t))"
    "\<And>b. b \<noteq> ib \<Longrightarrow> h_iblkref s' b = h_iblkref s b" using r by (simp_all add: drop_result_def)
  have lset: "b \<in> set (list_head (h_inode s' t)) \<longleftrightarrow> b \<in> set (list_head (h_inode s t)) \<and> b \<noteq> ib" for b
    using L(1) sorted_wrt_map_less_distinct [OF srt] by simp
  show ?thesis
  proof (cases "fetch_iblkref t pos s'")
    case None
    then have "\<not> ib_off (h_iblkref s b) = off_to_boff pos" if "b \<in> set (list_head (h_inode s t))" "b \<noteq> ib" for b
      using that lset [of b] L(2) [of b]
      by (auto simp: fetch_iblkref_def Let_def toyfs_iblkrefs_list_of_def find_None_all)
    then show ?thesis using None fetch_SomeD [of t pos s] by (cases "fetch_iblkref t pos s") auto
  next
    case (Some b)
    have b: "b \<in> set (list_head (h_inode s t))" "b \<noteq> ib" "ib_off (h_iblkref s b) = off_to_boff pos"
      using fetch_SomeD [OF Some] lset L(2) by auto
    from fetch_SomeI [OF srt b(1,3)] show ?thesis using Some b(2) by simp
  qed
qed

definition dropped :: "addr set \<Rightarrow> addr set \<Rightarrow> addr set \<Rightarrow> addr \<Rightarrow> (addr \<Rightarrow> bool) \<Rightarrow> toyfs_sb_info \<Rightarrow> toyfs_sb_info \<Rightarrow> bool" where
  "dropped N X F t P s s' =
    (fs_ok N X F s' \<and> others_same X F t s s' \<and> i_size (h_inode s' t) = i_size (h_inode s t) \<and>
     (\<forall>b. \<not> P b \<longrightarrow> h_iblkref s' b = h_iblkref s b) \<and>
     (\<forall>b. b \<in> set (list_head (h_inode s' t)) \<longleftrightarrow> b \<in> set (list_head (h_inode s t)) \<and> \<not> P b) \<and>
     (\<forall>pos. fetch_iblkref t pos s' = (case fetch_iblkref t pos s of None \<Rightarrow> None
        | Some b \<Rightarrow> if P b then None else Some b)) \<and>
     (\<forall>pos. content s' t pos = (case fetch_iblkref t pos s of None \<Rightarrow> 0
        | Some b \<Rightarrow> if P b then 0 else content s t pos)))"

lemma dropped_none: "fs_ok N X F s \<Longrightarrow> (\<And>b. \<not> P b) \<Longrightarrow> dropped N X F t P s s"
  by (simp add: dropped_def content_def split: option.split)

lemma dropped_one:
  assumes ok: "fs_ok N X F s" and t: "t \<in> F" and ib: "ib \<in> set (list_head (h_inode s t))"
    and r: "drop_result N X F t ib s s'"
  shows "dropped N X F t (\<lambda>b. b = ib) s s'"
proof -
  from ok obtain D B I where inv: "blocks_inv D B I N X F s" by (auto simp: fs_ok_def)
  have "distinct (list_head (h_inode s t))"
    by (rule sorted_wrt_map_less_distinct [OF blocks_listD(3) [OF inv t]])
  then show ?thesis using r drop_fetch [OF assms]
    by (auto simp: dropped_def drop_result_def content_def split: option.split)
qed

lemma dropped_trans:
  assumes "dropped N X F t P s s1" "dropped N X F t Q s1 s2"
  shows "dropped N X F t (\<lambda>b. P b \<or> Q b) s s2"
proof -
  have "others_same X F t s s2" using assms others_same_trans unfolding dropped_def by blast
  then show ?thesis using assms by (simp add: dropped_def split: option.split)
qed

lemma dropped_cong:
  "dropped N X F t P s s' \<Longrightarrow> (\<And>b. P b = Q b) \<Longrightarrow> dropped N X F t Q s s'"
  by (subgoal_tac "P = Q") (simp, blast)

lemma drop_range_loop_spec:
  assumes t: "t \<in> F"
  shows "\<lbrakk>fs_ok N X F s; set itr \<subseteq> set (list_head (h_inode s t)); distinct itr\<rbrakk> \<Longrightarrow>
    \<exists>s'. drop_range_loop t pos itr s = Some s' \<and>
      dropped N X F t (\<lambda>b. b \<in> set itr \<and> ib_off (h_iblkref s b) \<ge> pos) s s'"
proof (induction itr arbitrary: s)
  case Nil
  then show ?case using dropped_none [of N X F s] by simp
next
  case (Cons ib itr)
  show ?case
  proof (cases "ib_off (h_iblkref s ib) \<ge> pos")
    case False
    obtain s' where s': "drop_range_loop t pos itr s = Some s'"
      "dropped N X F t (\<lambda>b. b \<in> set itr \<and> ib_off (h_iblkref s b) \<ge> pos) s s'"
      using Cons.IH [OF Cons.prems(1)] Cons.prems by auto
    show ?thesis
    proof (intro exI conjI)
      show "drop_range_loop t pos (ib # itr) s = Some s'" using s'(1) False by simp
      show "dropped N X F t (\<lambda>b. b \<in> set (ib # itr) \<and> ib_off (h_iblkref s b) \<ge> pos) s s'"
        by (rule dropped_cong [OF s'(2)]) (use False in auto)
    qed
  next
    case True
    have ib: "ib \<in> set (list_head (h_inode s t))" using Cons.prems by simp
    obtain s1 where s1: "drop_iblkref t ib s = Some s1" "drop_result N X F t ib s s1"
      using drop_iblkref_spec [OF Cons.prems(1) t ib] by blast
    have d1: "dropped N X F t (\<lambda>b. b = ib) s s1" by (rule dropped_one [OF Cons.prems(1) t ib s1(2)])
    have "set itr \<subseteq> set (list_head (h_inode s1 t))" using d1 Cons.prems by (auto simp: dropped_def)
    then obtain s' where s': "drop_range_loop t pos itr s1 = Some s'"
      "dropped N X F t (\<lambda>b. b \<in> set itr \<and> ib_off (h_iblkref s1 b) \<ge> pos) s1 s'"
      using Cons.IH [of s1] d1 Cons.prems(3) by (auto simp: dropped_def)
    show ?thesis
    proof (intro exI conjI)
      show "drop_range_loop t pos (ib # itr) s = Some s'" using s'(1) s1(1) True by simp
      have "h_iblkref s1 b = h_iblkref s b" if "b \<in> set itr" for b
        using that d1 Cons.prems(3) by (auto simp: dropped_def)
      then show "dropped N X F t (\<lambda>b. b \<in> set (ib # itr) \<and> ib_off (h_iblkref s b) \<ge> pos) s s'"
        by (intro dropped_cong [OF dropped_trans [OF d1 s'(2)]]) (use True in auto)
    qed
  qed
qed

text \<open>\<open>_drop_range\<close> removes the blocks at and after the position, rounded up to a page.\<close>

lemma drop_range_spec:
  assumes ok: "fs_ok N X F s" and t: "t \<in> F" and pos: "0 \<le> pos" "pos < 2 ^ 63"
  shows "\<exists>s'. drop_range t pos s = Some s' \<and> fs_ok N X F s' \<and> others_same X F t s s' \<and>
    i_size (h_inode s' t) = i_size (h_inode s t) \<and>
    (\<forall>p\<ge>0. content s' t p = (if p - p mod 4096 \<ge> pos then 0 else content s t p))"
proof -
  from ok obtain D B I where inv: "blocks_inv D B I N X F s" by (auto simp: fs_ok_def)
  define pos' where "pos' = (if cast_size pos mod PAGE_SIZE \<noteq> 0 then next_page pos else pos)"
  let ?L = "list_head (h_inode s t)"
  have m: "cast_size pos mod PAGE_SIZE = nat (pos mod 4096)"
    using pos by (simp add: cast_size_small nat_mod_distrib)
  have al: "q \<ge> pos' \<longleftrightarrow> q \<ge> pos" if "q mod 4096 = 0" for q
  proof (cases "pos mod 4096 = 0")
    case True
    then show ?thesis using m by (simp add: pos'_def)
  next
    case False
    have np: "pos' = pos - pos mod 4096 + 4096" using False m pos off_arith(3) [OF pos(1)]
      by (simp add: pos'_def)
    have "q \<ge> pos - pos mod 4096 + 4096" if "q \<ge> pos"
    proof -
      have "4096 dvd q - (pos - pos mod 4096)" using \<open>q mod 4096 = 0\<close>
        by (metis dvd_diff dvd_minus_mod mod_0_imp_dvd)
      then obtain k where k: "q - (pos - pos mod 4096) = 4096 * k" by (elim dvdE)
      have "0 < pos mod 4096" using False by (metis less_le mod_pos_pos_trivial pos_mod_sign zero_less_numeral)
      then have "0 < 4096 * k" using that k by linarith
      then show ?thesis using k by simp
    qed
    moreover have "pos mod 4096 < 4096" by simp
    ultimately show ?thesis using np by fastforce
  qed
  obtain s' where s': "drop_range_loop t pos' ?L s = Some s'"
    "dropped N X F t (\<lambda>b. b \<in> set ?L \<and> ib_off (h_iblkref s b) \<ge> pos') s s'"
    using drop_range_loop_spec [OF t ok, of ?L pos'] sorted_wrt_map_less_distinct [OF blocks_listD(3) [OF inv t]]
    by blast
  have "content s' t p = (if p - p mod 4096 \<ge> pos then 0 else content s t p)" if "0 \<le> p" for p
  proof (cases "fetch_iblkref t p s")
    case None
    then show ?thesis using s'(2) by (simp add: dropped_def content_def)
  next
    case (Some b)
    have b: "b \<in> set ?L" "ib_off (h_iblkref s b) = p - p mod 4096"
      using fetch_SomeD [OF Some] off_arith(1) [OF that] by auto
    have "content s' t p = (if p - p mod 4096 \<ge> pos' then 0 else content s t p)"
      using s'(2) Some b by (simp add: dropped_def)
    moreover have "(p - p mod 4096) mod 4096 = 0" by (simp add: minus_mod_eq_mult_div)
    ultimately show ?thesis using al by simp
  qed
  moreover have "drop_range t pos s = Some s'"
    using s'(1) by (simp add: drop_range_def pos'_def toyfs_iblkrefs_list_of_def Let_def)
  ultimately show ?thesis using s'(2) by (auto simp: dropped_def)
qed

section \<open>Truncate\<close>

lemma unique_pmemb_spec:
  assumes ok: "fs_ok N X F s" and t: "t \<in> F" and f: "fetch_iblkref t off s = Some ib"
  shows "\<exists>r s'. unique_pmemb ib s = Some (r, s') \<and> fs_ok N X F s' \<and> same_files X F s s' \<and>
    (\<forall>p. r = Some p \<longrightarrow> fetch_iblkref t off s' = Some ib \<and> sole F s' ib \<and>
       (\<exists>d. ib_dblkref (h_iblkref s' ib) = Some d \<and> dpage s' d = p))"
proof -
  from ok obtain D B I where pool: "pool_inv D B I N s" and inv: "blocks_inv D B I N X F s"
    by (auto simp: fs_ok_def)
  note ib = fetch_SomeD [OF f, THEN conjunct1]
  obtain d where d: "ib_dblkref (h_iblkref s ib) = Some d" "d \<in> B" "0 < db_refcnt (h_dblkref s d)"
    using blocks_ibD [OF inv t ib] by blast
  note defs = unique_pmemb_def [of ib s] d(1) Let_def dpage_def [symmetric]
  show ?thesis
  proof (cases "db_refcnt (h_dblkref s d) > 1")
    case False
    then have "unique_pmemb ib s = Some (Some (dpage s d), s)" by (simp add: defs)
    then show ?thesis using ok f d sole_refcnt1 [OF inv t ib d(1)] False by auto
  next
    case True
    show ?thesis
    proof (cases "new_dblkref s")
      case (Pair a s1)
      show ?thesis
      proof (cases a)
        case None
        then have n: "new_dblkref s = (None, s1)" using Pair by simp
        note N0 = new_dblkref_None [OF pool n]
        have "unique_pmemb ib s = Some (None, s1)" using True n by (simp add: defs)
        then show ?thesis using N0 blocks_inv_keeps [OF inv N0(2)] keeps_same_files [OF inv N0(2)]
          by (auto simp: fs_ok_def)
      next
        case (Some d')
        then have n: "new_dblkref s = (Some d', s1)" using Pair by simp
        note N1 = new_dblkref_Some [OF pool n]
        let ?f = "\<lambda>r. r\<lparr>db_refcnt := db_refcnt r - 1\<rparr>"
        let ?s' = "upd_iblkref ib (\<lambda>r. r\<lparr>ib_dblkref := Some d'\<rparr>)
            (upd_dblkref d ?f (upd_dat (dpage s1 d') 0 PAGE_SIZE (h_dat s1 (dpage s d)) s1))"
        have run: "unique_pmemb ib s = Some (Some (dpage s1 d'), ?s')"
          using True n N1(3) copy_pmemb_full [OF N1(3), of "dpage s d" s1] by (simp add: defs)
        note C = cow_step [OF pool inv t ib d(1) n, of ?f ?s']
        have "fetch_iblkref t off ?s' = fetch_iblkref t off s"
          by (rule fetch_cong) (use N1 in simp_all)
        moreover have "ib_dblkref (h_iblkref ?s' ib) = Some d'" by simp
        ultimately show ?thesis using run C True f by (intro exI [of _ "Some (dpage s1 d')"] exI [of _ ?s']) auto
      qed
    qed
  qed
qed

lemma tail_of_block:
  fixes p pos :: int
  shows "pos \<le> p \<and> p - p mod 4096 < pos \<longleftrightarrow>
    pos \<le> p \<and> p < pos + int (nat (4096 - pos mod 4096)) \<and> pos mod 4096 \<noteq> 0" (is "?A \<longleftrightarrow> ?B")
    and "pos \<le> p \<Longrightarrow> p - p mod 4096 < pos \<Longrightarrow> p - p mod 4096 = pos - pos mod 4096"
proof -
  have n: "int (nat (4096 - pos mod 4096)) = 4096 - pos mod 4096" by simp
  have m: "0 \<le> pos mod 4096" "pos mod 4096 < 4096" "p mod 4096 < 4096" by simp_all
  have blk: "pos - pos mod 4096 = p - p mod 4096" if "?A"
  proof -
    have z: "(p - p mod 4096) mod 4096 = 0" by (simp add: minus_mod_eq_mult_div)
    have "pos < p - p mod 4096 + int 4096" using that m by linarith
    from same_block [OF _ this] that z show ?thesis by simp
  qed
  then show "pos \<le> p \<Longrightarrow> p - p mod 4096 < pos \<Longrightarrow> p - p mod 4096 = pos - pos mod 4096" by simp
  show "?A \<longleftrightarrow> ?B"
  proof
    assume A: ?A
    from blk [OF A] A m n show ?B by auto
  next
    assume B: ?B
    have "p - p mod 4096 = pos - pos mod 4096"
      by (rule same_block [of pos p "nat (4096 - pos mod 4096)"]) (use B in auto)
    moreover have "0 < pos mod 4096" using B m(1) by linarith
    ultimately show ?A using B by linarith
  qed
qed

lemma zero_after_spec:
  assumes ok: "fs_ok N X F s" and t: "t \<in> F" and pos: "0 \<le> pos" "pos < 2 ^ 63"
  shows "\<exists>r s'. zero_after t pos s = Some (r, s') \<and> fs_ok N X F s' \<and> others_same X F t s s' \<and>
    i_size (h_inode s' t) = i_size (h_inode s t) \<and>
    (case r of Inl e \<Rightarrow> e = ENOSPC \<and> content s' t = content s t
     | Inr _ \<Rightarrow> \<forall>p\<ge>0. content s' t p = (if pos \<le> p \<and> p - p mod 4096 < pos then 0 else content s t p))"
proof -
  have m: "cast_size pos mod PAGE_SIZE = nat (pos mod 4096)"
    using pos by (simp add: cast_size_small nat_mod_distrib)
  note in_page = tail_of_block(1) [of pos]
  show ?thesis
  proof (cases "pos mod 4096 = 0")
    case True
    then show ?thesis using ok m in_page by (intro exI [of _ "Inr ()"] exI [of _ s]) (auto simp: zero_after_def)
  next
    case False
    show ?thesis
    proof (cases "fetch_iblkref t pos s")
      case None
      have "content s t p = 0" if "0 \<le> p" "pos \<le> p" "p - p mod 4096 < pos" for p
      proof -
        have "off_to_boff p = off_to_boff pos"
          using tail_of_block(2) [OF that(2,3)] off_arith(1) [OF that(1)] off_arith(1) [OF pos(1)] by simp
        then have "fetch_iblkref t p s = None" using None by (simp add: fetch_iblkref_def)
        then show ?thesis by (simp add: content_def)
      qed
      then show ?thesis using ok m None False
        by (intro exI [of _ "Inr ()"] exI [of _ s]) (auto simp: zero_after_def)
    next
      case (Some ib)
      obtain r s1 where u: "unique_pmemb ib s = Some (r, s1)" "fs_ok N X F s1" "same_files X F s s1"
        "\<And>p. r = Some p \<Longrightarrow> fetch_iblkref t pos s1 = Some ib \<and> sole F s1 ib \<and>
          (\<exists>d. ib_dblkref (h_iblkref s1 ib) = Some d \<and> dpage s1 d = p)"
        using unique_pmemb_spec [OF ok t Some] by blast
      note sf = same_filesD [OF u(3) t] same_files_others [OF u(3) t]
      show ?thesis
      proof (cases r)
        case None
        then have "zero_after t pos s = Some (Inl ENOSPC, s1)" using Some u(1) False m by (simp add: zero_after_def)
        then show ?thesis using u(2) sf by (intro exI [of _ "Inl ENOSPC"] exI [of _ s1]) simp
      next
        case r: (Some q)
        obtain d where d: "fetch_iblkref t pos s1 = Some ib" "sole F s1 ib"
          "ib_dblkref (h_iblkref s1 ib) = Some d" "dpage s1 d = q" using u(4) [OF r] by blast
        define len where "len = nat (4096 - pos mod 4096)"
        have len: "pos mod 4096 + int len \<le> 4096" by (simp add: len_def)
        let ?s2 = "upd_dat q (nat (pos mod 4096)) len (\<lambda>_. 0) s1"
        have cl: "cast_size (4096 - off_in_page pos) = len"
          using off_arith(2) [OF pos(1)] by (simp add: len_def cast_size_small)
        have "assign_zeros q (off_in_page pos) len s1 = Some ?s2"
          using page_args_ok [OF pos(1) len] by (simp add: assign_zeros_def)
        then have run: "zero_after t pos s = Some (Inr (), ?s2)"
          using Some u(1) r False m cl by (simp add: zero_after_def Let_def)
        note st = store_spec [OF u(2) t pos(1) d(1,2,3) len, of ?s2 "\<lambda>_. 0"]
        have "content ?s2 t p = (if pos \<le> p \<and> p - p mod 4096 < pos then 0 else content s t p)" if "0 \<le> p" for p
          using st(4) [of p] that in_page [of p] False sf(1) d(4) by (simp add: file_write_def len_def)
        moreover have "others_same X F t s ?s2" using st(2) sf(2) d(4) others_same_trans by blast
        ultimately show ?thesis using run st d(4) sf(1) by (intro exI [of _ "Inr ()"] exI [of _ ?s2]) simp
      qed
    qed
  qed
qed

lemma truncate_spec:
  assumes ok: "fs_ok N X F s" and t: "t \<in> F" and reg: "zi_isreg (h_inode s t)"
    and sz: "i_size (h_inode s t) < 2 ^ 63"
  shows "\<exists>r s'. toyfs_truncate t n s = Some (r, s') \<and> fs_ok N X F s' \<and> others_same X F t s s' \<and>
    i_size (h_inode s' t) = n \<and>
    (case r of Inl e \<Rightarrow> e = ENOSPC \<and> n < i_size (h_inode s t) \<and>
       (\<forall>p\<ge>0. content s' t p = (if p - p mod 4096 \<ge> int n then 0 else content s t p))
     | Inr _ \<Rightarrow> \<forall>p\<ge>0. content s' t p =
         (if n < i_size (h_inode s t) \<and> int n \<le> p then 0 else content s t p))"
proof -
  let ?f = "\<lambda>zi. zi\<lparr>i_size := n\<rparr>"
  have nd: "\<not> zi_isdir (h_inode s t)" using reg zi_type_disjoint(1) by blast
  show ?thesis
  proof (cases "n < i_size (h_inode s t)")
    case False
    have "others_same X F t s (upd_inode t ?f s)" using t by (intro others_same_upd) simp_all
    then show ?thesis using False ok reg nd
      by (intro exI [of _ "Inr ()"] exI [of _ "upd_inode t ?f s"]) (simp add: toyfs_truncate_def)
  next
    case True
    have c: "cast_loff n = int n" using True sz by (intro cast_loff_small) simp
    have n: "0 \<le> int n" "int n < 2 ^ 63" using True sz by auto
    obtain s0 where s0: "drop_range t (int n) s = Some s0" "fs_ok N X F s0" "others_same X F t s s0"
      "\<forall>p\<ge>0. content s0 t p = (if p - p mod 4096 \<ge> int n then 0 else content s t p)"
      using drop_range_spec [OF ok t n] by blast
    obtain r s1 where s1: "zero_after t (int n) s0 = Some (r, s1)" "fs_ok N X F s1" "others_same X F t s0 s1"
      "case r of Inl e \<Rightarrow> e = ENOSPC \<and> content s1 t = content s0 t
       | Inr _ \<Rightarrow> \<forall>p\<ge>0. content s1 t p = (if int n \<le> p \<and> p - p mod 4096 < int n then 0 else content s0 t p)"
      using zero_after_spec [OF s0(2) t n] by blast
    let ?s' = "upd_inode t ?f s1"
    have run: "toyfs_truncate t n s = Some (r, ?s')"
      using reg nd True s0(1) s1(1) c by (simp add: toyfs_truncate_def)
    have os: "others_same X F t s ?s'"
      using others_same_trans [OF s0(3) s1(3)] t by (intro others_same_upd) simp_all
    have le: "int n \<le> p" if "p - p mod 4096 \<ge> int n" "0 \<le> p" for p :: int
      using that pos_mod_sign [of 4096 p] by linarith
    have "case r of Inl e \<Rightarrow> e = ENOSPC \<and> n < i_size (h_inode s t) \<and>
         (\<forall>p\<ge>0. content ?s' t p = (if p - p mod 4096 \<ge> int n then 0 else content s t p))
       | Inr _ \<Rightarrow> \<forall>p\<ge>0. content ?s' t p = (if n < i_size (h_inode s t) \<and> int n \<le> p then 0 else content s t p)"
      using s1(4) s0(4) True le by (cases r) auto
    with run os s1(2) show ?thesis by (intro exI [of _ r] exI [of _ ?s']) simp
  qed
qed

section \<open>Punch hole\<close>

lemma drop_refs:
  assumes ok: "fs_ok N X F s" and t: "t \<in> F" and ib: "ib \<in> set (list_head (h_inode s t))"
    and r: "drop_result N X F t ib s s'"
  shows "refs F s' e = refs F s e - {ib}"
proof -
  from ok obtain D B I where inv: "blocks_inv D B I N X F s" by (auto simp: fs_ok_def)
  have dist: "distinct (list_head (h_inode s t))"
    by (rule sorted_wrt_map_less_distinct [OF blocks_listD(3) [OF inv t]])
  have "b \<in> set (list_head (h_inode s' u)) \<longleftrightarrow> b \<in> set (list_head (h_inode s u)) \<and> b \<noteq> ib" if "u \<in> F" for u b
  proof (cases "u = t")
    case True
    then show ?thesis using r dist by (simp add: drop_result_def)
  next
    case False
    then have "ib \<notin> set (list_head (h_inode s u))" using lists_disjointD [OF inv t that ib] by auto
    then show ?thesis using r False by (auto simp: drop_result_def)
  qed
  then show ?thesis using r by (auto simp: refs_def drop_result_def)
qed

text \<open>
  \<open>edges_sole off end\<close>: the blocks of the file that the range \<open>[off, end)\<close> covers in part are not
  shared.
\<close>

definition edges_sole :: "addr set \<Rightarrow> addr \<Rightarrow> int \<Rightarrow> int \<Rightarrow> toyfs_sb_info \<Rightarrow> bool" where
  "edges_sole F t off end s =
    (\<forall>b\<in>set (list_head (h_inode s t)). let bo = ib_off (h_iblkref s b) in
       (bo < off \<and> off < bo + 4096 \<or> bo < end \<and> end < bo + 4096) \<longrightarrow> sole F s b)"

definition zeroed :: "int \<Rightarrow> int \<Rightarrow> (int \<Rightarrow> byte) \<Rightarrow> int \<Rightarrow> byte" where
  "zeroed off end c = (\<lambda>p. if off \<le> p \<and> p < end then 0 else c p)"

lemma zero_range_at_spec:
  assumes ok: "fs_ok N X F s" and t: "t \<in> F" and off: "0 \<le> off" and f: "fetch_iblkref t off s = Some ib"
    and so: "sole F s ib" and len: "off mod 4096 + int len \<le> 4096"
  obtains s' where "zero_range_at ib off len s = Some s'" "fs_ok N X F s'" "others_same X F t s s'"
    "h_inode s' = h_inode s" "h_iblkref s' = h_iblkref s"
    "\<And>p. 0 \<le> p \<Longrightarrow> content s' t p = zeroed off (off + int len) (content s t) p"
proof -
  from ok obtain D B I where inv: "blocks_inv D B I N X F s" by (auto simp: fs_ok_def)
  obtain d where d: "ib_dblkref (h_iblkref s ib) = Some d"
    using blocks_ibD [OF inv t fetch_SomeD [OF f, THEN conjunct1]] by blast
  have m: "0 \<le> off mod 4096" "off mod 4096 < 4096" by simp_all
  have poff: "off_in_page off = off mod 4096" by (rule off_arith(2) [OF off])
  have nxt0: "next_page (off mod 4096) = 4096" using off_arith(3) [OF m(1)] by simp
  have len': "len < 2 ^ 63" using len m by simp
  have plen: "nbytes_in_range (off mod 4096) 4096 (off mod 4096 + cast_loff len) = len"
    using len m by (auto simp: nbytes_in_range_def cast_loff_small [OF len'] cast_size_small)
  let ?s' = "upd_dat (dpage s d) (nat (off mod 4096)) len (\<lambda>_. 0) s"
  have "assign_zeros (dpage s d) (off mod 4096) len s = Some ?s'"
    using page_args_ok [OF off len] poff by (simp add: assign_zeros_def)
  then have run: "zero_range_at ib off len s = Some ?s'"
    using iblkref_pmemb_dpage [OF d] by (simp add: zero_range_at_def poff nxt0 plen)
  note st = store_spec [OF ok t off f so d len, of ?s' "\<lambda>_. 0", OF refl]
  show thesis
    by (rule that [OF run st(1,2,3)]) (use st(4) in \<open>simp_all add: zeroed_def file_write_def\<close>)
qed

lemma punch_page:
  assumes ok: "fs_ok N X F s" and t: "t \<in> F" and off: "0 \<le> off" "off < end" "end < 2 ^ 62"
    and es: "edges_sole F t off end s" and len: "len = nbytes_in_range off (next_page off) end"
  obtains s' where
    "(case fetch_iblkref t off s of Some ib \<Rightarrow> punch_hole_at t ib off len s | None \<Rightarrow> Some s) = Some s'"
    "fs_ok N X F s'" "others_same X F t s s'" "i_size (h_inode s' t) = i_size (h_inode s t)"
    "edges_sole F t (next_page off) end s'"
    "\<And>p. 0 \<le> p \<Longrightarrow> content s' t p = zeroed off (off + int len) (content s t) p"
proof -
  note nb = nbytes_page [OF off, folded len]
  have np: "next_page off = off - off mod 4096 + 4096" by (rule off_arith(3) [OF off(1)])
  from ok obtain D B I where inv: "blocks_inv D B I N X F s" by (auto simp: fs_ok_def)
  have al: "ib_off (h_iblkref s b) mod 4096 = 0" if "b \<in> set (list_head (h_inode s t))" for b
    using blocks_ibD [OF inv t that] by metis
  have npal: "next_page off mod 4096 = 0"
    unfolding np by (simp add: minus_mod_eq_mult_div)
  have noedge: "\<not> (q < next_page off \<and> next_page off < q + 4096)" if "q mod 4096 = 0" for q :: int
    using same_block [of q "next_page off" 4096] that npal by auto
  have nxt: "edges_sole F t (next_page off) end s'"
    if s': "\<And>b. b \<in> set (list_head (h_inode s' t)) \<Longrightarrow> b \<in> set (list_head (h_inode s t)) \<and>
       h_iblkref s' b = h_iblkref s b \<and> (sole F s b \<longrightarrow> sole F s' b)" for s'
    using es s' noedge al by (fastforce simp: edges_sole_def Let_def)
  have blockz: "content s t p = 0" if "fetch_iblkref t off s = None" "0 \<le> p" "off \<le> p" "p < off + int len" for p
  proof -
    have "off_to_boff p = off_to_boff off"
      using same_block [OF that(3,4) nb(2)] off_arith(1) [OF that(2)] off_arith(1) [OF off(1)] by simp
    then show ?thesis using that(1) by (simp add: content_def fetch_iblkref_def)
  qed
  show thesis
  proof (cases "fetch_iblkref t off s")
    case None
    show thesis by (rule that [of s]) (use None ok nxt [of s] blockz in \<open>auto simp: zeroed_def\<close>)
  next
    case (Some ib)
    have ib: "ib \<in> set (list_head (h_inode s t))" "ib_off (h_iblkref s ib) = off - off mod 4096"
      using fetch_SomeD [OF Some] off_arith(1) [OF off(1)] by auto
    have m: "0 \<le> off mod 4096" "off mod 4096 < 4096" by simp_all
    show thesis
    proof (cases "len < PAGE_SIZE")
      case True
      have "off mod 4096 \<noteq> 0 \<or> end < next_page off" using nb(1) True np by (auto split: if_splits)
      then have "off - off mod 4096 < off \<and> off < off - off mod 4096 + 4096 \<or>
          off - off mod 4096 < end \<and> end < off - off mod 4096 + 4096"
        using m off(2) np by auto
      then have so: "sole F s ib" using es ib by (auto simp: edges_sole_def Let_def)
      obtain s' where s': "zero_range_at ib off len s = Some s'" "fs_ok N X F s'" "others_same X F t s s'"
        "h_inode s' = h_inode s" "h_iblkref s' = h_iblkref s"
        "\<And>p. 0 \<le> p \<Longrightarrow> content s' t p = zeroed off (off + int len) (content s t) p"
        by (rule zero_range_at_spec [OF ok t off(1) Some so nb(2)]) blast
      have "refs F s' e = refs F s e" for e using s'(4,5) by (simp add: refs_def)
      then have "sole F s' b = sole F s b" for b using s'(5) by (simp add: sole_def)
      then show thesis using True Some s' nxt [of s']
        by (intro that [of s']) (simp_all add: punch_hole_at_def)
    next
      case False
      then have len: "len = PAGE_SIZE" "off mod 4096 = 0" using nb(2) m by linarith+
      obtain s' where s': "drop_iblkref t ib s = Some s'" "drop_result N X F t ib s s'"
        using drop_iblkref_spec [OF ok t ib(1)] by blast
      have dr: "dropped N X F t (\<lambda>b. b = ib) s s'" by (rule dropped_one [OF ok t ib(1) s'(2)])
      have rf: "refs F s' e = refs F s e - {ib}" for e by (rule drop_refs [OF ok t ib(1) s'(2)])
      have "edges_sole F t (next_page off) end s'"
      proof (rule nxt)
        fix b assume "b \<in> set (list_head (h_inode s' t))"
        then have b: "b \<in> set (list_head (h_inode s t))" "b \<noteq> ib" using dr by (auto simp: dropped_def)
        moreover have h: "h_iblkref s' b = h_iblkref s b" using dr b by (simp add: dropped_def)
        moreover have "sole F s b \<longrightarrow> sole F s' b" using h b(2) by (auto simp: sole_def rf)
        ultimately show "b \<in> set (list_head (h_inode s t)) \<and> h_iblkref s' b = h_iblkref s b \<and> (sole F s b \<longrightarrow> sole F s' b)"
          by blast
      qed
      moreover have "content s' t p = zeroed off (off + int len) (content s t) p" if p: "0 \<le> p" for p
      proof -
        have "fetch_iblkref t p s = Some ib \<longleftrightarrow> off \<le> p \<and> p < off + 4096"
        proof
          assume "fetch_iblkref t p s = Some ib"
          then have "p - p mod 4096 = off" using fetch_SomeD [of t p s ib] ib(2) len(2) off_arith(1) [OF p] by simp
          moreover have "0 \<le> p mod 4096" "p mod 4096 < 4096" by simp_all
          ultimately show "off \<le> p \<and> p < off + 4096" by linarith
        next
          assume "off \<le> p \<and> p < off + 4096"
          then have "off_to_boff p = off_to_boff off"
            using same_block [of off p 4096] len(2) off_arith(1) [OF p] off_arith(1) [OF off(1)] by simp
          then show "fetch_iblkref t p s = Some ib" using Some by (simp add: fetch_iblkref_def)
        qed
        then show ?thesis using s'(2) len(1) by (simp add: drop_result_def zeroed_def)
      qed
      ultimately show thesis using False Some s'(1) dr
        by (intro that [of s']) (simp_all add: punch_hole_at_def dropped_def)
    qed
  qed
qed

lemma punch_hole_loop_spec:
  assumes t: "t \<in> F"
  shows "\<lbrakk>fs_ok N X F s; 0 \<le> off; end < 2 ^ 62; edges_sole F t off end s\<rbrakk> \<Longrightarrow>
    \<exists>s'. punch_hole_loop t off end s = Some s' \<and> fs_ok N X F s' \<and> others_same X F t s s' \<and>
      i_size (h_inode s' t) = i_size (h_inode s t) \<and>
      (\<forall>p\<ge>0. content s' t p = zeroed off end (content s t) p)"
proof (induction "nat (end - off)" arbitrary: off s rule: less_induct)
  case less
  show ?case
  proof (cases "off < end")
    case False
    then show ?thesis using less.prems
      by (intro exI [of _ s]) (subst punch_hole_loop.simps, auto simp: zeroed_def)
  next
    case True
    note off = less.prems(2) True less.prems(3)
    let ?nxt = "next_page off" and ?len = "nbytes_in_range off (next_page off) end"
    note nb = nbytes_page [OF off]
    obtain s1 where s1: "(case fetch_iblkref t off s of Some ib \<Rightarrow> punch_hole_at t ib off ?len s | None \<Rightarrow> Some s) = Some s1"
      "fs_ok N X F s1" "others_same X F t s s1" "i_size (h_inode s1 t) = i_size (h_inode s t)"
      "edges_sole F t ?nxt end s1"
      "\<And>p. 0 \<le> p \<Longrightarrow> content s1 t p = zeroed off (off + int ?len) (content s t) p"
      by (rule punch_page [OF less.prems(1) t off less.prems(4) refl]) blast
    have gt: "off < ?nxt" by (rule next_page_gt)
    obtain s' where s': "punch_hole_loop t ?nxt end s1 = Some s'" "fs_ok N X F s'" "others_same X F t s1 s'"
      "i_size (h_inode s' t) = i_size (h_inode s1 t)" "\<forall>p\<ge>0. content s' t p = zeroed ?nxt end (content s1 t) p"
      using less.hyps [of ?nxt s1] gt True less.prems s1(2,5) by auto
    have "content s' t p = zeroed off end (content s t) p" if "0 \<le> p" for p
      using s'(5) s1(6) [OF that] that nb(1) gt True by (auto simp: zeroed_def split: if_splits)
    moreover have "punch_hole_loop t off end s = Some s'"
      using True s1(1) s'(1) by (subst punch_hole_loop.simps) (simp add: Let_def)
    ultimately show ?thesis using s'(2,4) s1(4) others_same_trans [OF s1(3) s'(3)] by auto
  qed
qed

section \<open>Allocation of a range\<close>

lemma falloc_loop_spec:
  assumes "t \<in> F"
  shows "\<lbrakk>fs_ok N X F s; 0 \<le> off; end < 2 ^ 62; cnt + nat (end - off) < 2 ^ 64\<rbrakk> \<Longrightarrow>
    \<exists>r s'. falloc_loop t off end cnt s = Some (r, s') \<and> fs_ok N X F s' \<and> same_files X F s s' \<and>
      (r = Inl ENOSPC \<or> r = Inr (cnt + nat (end - off)))"
proof (induction "nat (end - off)" arbitrary: off cnt s rule: less_induct)
  case less
  show ?case
  proof (cases "off < end")
    case False
    then show ?thesis using less.prems by (subst falloc_loop.simps) simp
  next
    case True
    note off = less.prems(2) True less.prems(3)
    let ?nxt = "next_page off" and ?len = "nbytes_in_range off (next_page off) end"
    note nb = nbytes_page [OF off] and gt = next_page_gt [of off]
    obtain r s1 where req: "require_iblkref t off s = Some (r, s1)" "fs_ok N X F s1" "same_files X F s s1"
      using require_spec [OF less.prems(1) assms less.prems(2)] by blast
    show ?thesis
    proof (cases r)
      case None
      then show ?thesis using req True by (subst falloc_loop.simps) simp
    next
      case (Some ib)
      have le: "?len \<le> nat (end - off)" using nb(1) gt by (simp split: if_splits)
      have ca: "size_add cnt ?len = cnt + ?len" using le less.prems(4) by (intro size_add_small) simp
      have cnt: "cnt + ?len + nat (end - ?nxt) = cnt + nat (end - off)" using nb(1) True by (cases "?nxt < end") auto
      obtain r' s' where s': "falloc_loop t ?nxt end (cnt + ?len) s1 = Some (r', s')" "fs_ok N X F s'"
        "same_files X F s1 s'" "r' = Inl ENOSPC \<or> r' = Inr (cnt + ?len + nat (end - ?nxt))"
        using less.hyps [of ?nxt s1 "cnt + ?len"] gt True less.prems req(2) cnt by auto
      have "falloc_loop t off end cnt s = Some (r', s')"
        using True req(1) Some s'(1) ca by (subst falloc_loop.simps) (simp add: Let_def)
      then show ?thesis using s' same_files_trans [OF req(3) s'(3)] cnt by auto
    qed
  qed
qed

section \<open>Seek\<close>

lemma fetch_next_page:
  assumes "0 \<le> off" "off \<le> p" "p < next_page off"
  shows "fetch_iblkref t p s = fetch_iblkref t off s"
proof -
  have np: "next_page off = off - off mod 4096 + 4096" by (rule off_arith(3) [OF assms(1)])
  have "p - p mod 4096 = off - off mod 4096"
    by (rule same_block [of off p "nat (4096 - off mod 4096)"]) (use assms np in auto)
  then have "off_to_boff p = off_to_boff off"
    using off_arith(1) [of p] off_arith(1) [OF assms(1)] assms by simp
  then show ?thesis by (simp add: fetch_iblkref_def)
qed

lemma seek_block_loop_spec:
  assumes ok: "fs_ok N X F s" and t: "t \<in> F"
  shows "0 \<le> off \<Longrightarrow>
    \<exists>r. seek_block_loop t off end e out s = Some r \<and>
      (r = out \<and> (\<forall>p. off \<le> p \<and> p < end \<longrightarrow> (fetch_iblkref t p s \<noteq> None) \<noteq> e) \<or>
       off \<le> r \<and> r < end \<and> (fetch_iblkref t r s \<noteq> None) = e \<and>
       (\<forall>p. off \<le> p \<and> p < r \<longrightarrow> (fetch_iblkref t p s \<noteq> None) \<noteq> e))"
proof (induction "nat (end - off)" arbitrary: off rule: less_induct)
  case less
  note fp = fetch_pmemb_ok [OF ok t, of off]
  show ?case
  proof (cases "off < end")
    case False
    then show ?thesis by (subst seek_block_loop.simps) auto
  next
    case True
    show ?thesis
    proof (cases "(fetch_iblkref t off s \<noteq> None) = e")
      case hit: True
      then show ?thesis using fp True by (subst seek_block_loop.simps) auto
    next
      case miss: False
      have gt: "off < next_page off" by (rule next_page_gt)
      obtain r where r: "seek_block_loop t (next_page off) end e out s = Some r"
        "r = out \<and> (\<forall>p. next_page off \<le> p \<and> p < end \<longrightarrow> (fetch_iblkref t p s \<noteq> None) \<noteq> e) \<or>
         next_page off \<le> r \<and> r < end \<and> (fetch_iblkref t r s \<noteq> None) = e \<and>
         (\<forall>p. next_page off \<le> p \<and> p < r \<longrightarrow> (fetch_iblkref t p s \<noteq> None) \<noteq> e)"
        using less.hyps [of "next_page off"] True less.prems gt by auto
      have "seek_block_loop t off end e out s = Some r"
        using fp miss True r(1) by (subst seek_block_loop.simps) auto
      moreover have all: "(fetch_iblkref t p s \<noteq> None) \<noteq> e"
        if "off \<le> p" "next_page off \<le> p \<longrightarrow> (fetch_iblkref t p s \<noteq> None) \<noteq> e" for p
        using that fetch_next_page [OF less.prems that(1)] miss by (cases "next_page off \<le> p") auto
      ultimately show ?thesis using r(2)
      proof (elim disjE conjE)
        assume "r = out" "\<forall>p. next_page off \<le> p \<and> p < end \<longrightarrow> (fetch_iblkref t p s \<noteq> None) \<noteq> e"
        then show ?thesis using \<open>seek_block_loop t off end e out s = Some r\<close> all by blast
      next
        assume "next_page off \<le> r" "r < end" "(fetch_iblkref t r s \<noteq> None) = e"
          "\<forall>p. next_page off \<le> p \<and> p < r \<longrightarrow> (fetch_iblkref t p s \<noteq> None) \<noteq> e"
        moreover from this have "off \<le> r" using gt by simp
        ultimately show ?thesis using \<open>seek_block_loop t off end e out s = Some r\<close> all by blast
      qed
    qed
  qed
qed

lemma check_io_Inr:
  assumes off: "off < 2 ^ 63" and len: "len < 2 ^ 62" and c: "check_io off len = Inr ()"
  shows "0 \<le> off" "0 < len" "off + int len < 2 ^ 62" "off + int len \<le> 2 ^ 50"
proof -
  show o: "0 \<le> off" and "0 < len" using c by (auto simp: check_io_def Let_def split: if_splits)
  have "off \<le> 2 ^ 50" using c o off
    by (auto simp: check_io_def Let_def toyfs_isize_max_def cast_size_small split: if_splits)
  then have "nat off + len < 2 ^ 64" using len by simp
  then have "nat off + len \<le> 1125899906842624"
    using c o off by (auto simp: check_io_def Let_def toyfs_isize_max_def cast_size_small size_add_small split: if_splits)
  then show "off + int len < 2 ^ 62" "off + int len \<le> 2 ^ 50" using o by simp_all
qed

section \<open>Properties\<close>

text \<open>
  C9. Truncate of a regular file never fails an assertion and sets the size. A truncation to a
  smaller size makes every byte from the new size on zero and keeps all bytes before it, so that a later
  extension reads zeros; only when the last page is shared and cannot be copied (\<open>ENOSPC\<close>) the bytes of
  that page stay. Growing changes no byte. No other file changes.
\<close>

theorem toyfs_truncate_correct:
  assumes "fs_ok N X F s" and "t \<in> F" and "zi_isreg (h_inode s t)" and "i_size (h_inode s t) < 2 ^ 63"
  shows "\<exists>r s'. toyfs_truncate t n s = Some (r, s') \<and> fs_ok N X F s' \<and> others_same X F t s s' \<and>
    i_size (h_inode s' t) = n \<and>
    (case r of Inl e \<Rightarrow> e = ENOSPC \<and> n < i_size (h_inode s t) \<and>
       (\<forall>p\<ge>0. content s' t p = (if p - p mod 4096 \<ge> int n then 0 else content s t p))
     | Inr _ \<Rightarrow> \<forall>p\<ge>0. content s' t p =
         (if n < i_size (h_inode s t) \<and> int n \<le> p then 0 else content s t p))"
  using assms by (rule truncate_spec)

theorem toyfs_truncate_correct_witness:
  "\<exists>r s'. toyfs_truncate 36864 100 sample_fs = Some (r, s') \<and> fs_ok {36864, 36992} {} {36864, 36992} s' \<and>
     i_size (h_inode s' 36864) = 100"
proof -
  have "zi_isreg (h_inode sample_fs 36864)"
    by (simp add: sample_fs_def Let_def zi_isreg_def s_istype_def sample_reg_def toyfs_acquire_inode_def
        split: prod.split)
  from toyfs_truncate_correct [OF sample_fs_ok _ this, of 100] show ?thesis
    by (auto simp: sample_fs_simps)
qed

text \<open>
  C10. Punch hole. Under the hypothesis \<open>edges_sole\<close>, that the blocks which the range covers only in part are not shared with another file, a
  \<open>fallocate\<close> with \<open>FALLOC_FL_PUNCH_HOLE\<close> that passes the checks makes exactly the bytes of the range zero, keeps
  the size, and changes no other file. Blocks inside the range may be shared. Without the hypothesis the clones lose the bytes as well, which is
  \<open>punch_hole_at_hits_clones\<close> below.
\<close>

theorem punch_hole_correct:
  assumes ok: "fs_ok N X F s" and t: "t \<in> F" and off: "off < 2 ^ 63" and len: "len < 2 ^ 62"
    and c: "check_io off len = Inr ()" "check_falloc mode off len = Inr ()" "mode AND FALLOC_FL_PUNCH_HOLE \<noteq> 0"
    and es: "edges_sole F t off (off + int len) s"
  shows "\<exists>s'. fallocate t mode off len s = Some (Inr (), s') \<and> fs_ok N X F s' \<and> others_same X F t s s' \<and>
    i_size (h_inode s' t) = i_size (h_inode s t) \<and>
    (\<forall>p\<ge>0. content s' t p = (if off \<le> p \<and> p < off + int len then 0 else content s t p))"
proof -
  note k = check_io_Inr [OF off len c(1)]
  have cl: "cast_loff len = int len" using len by (intro cast_loff_small) simp
  obtain s' where s': "punch_hole_loop t off (off + int len) s = Some s'" "fs_ok N X F s'" "others_same X F t s s'"
    "i_size (h_inode s' t) = i_size (h_inode s t)" "\<forall>p\<ge>0. content s' t p = zeroed off (off + int len) (content s t) p"
    using punch_hole_loop_spec [OF t ok k(1,3) es] by blast
  have "fallocate t mode off len s = Some (Inr (), s')"
    using c s'(1) cl by (simp add: fallocate_def punch_hole_def)
  then show ?thesis using s' by (auto simp: zeroed_def)
qed

text \<open>A file with one block that is not shared: the first block of the first sample file, in which ten bytes have been written.\<close>

lemma sample_block:
  obtains s ib where "fs_ok {36864, 36992} {} {36864, 36992} s" "fetch_iblkref 36864 0 s = Some ib" "sole {36864, 36992} s ib"
    "\<forall>p. 0 \<le> p \<longrightarrow> p < 10 \<longrightarrow> content s 36864 p = 9"
proof -
  let ?F = "{36864, 36992::addr}"
  have t: "36864 \<in> ?F" by simp
  obtain r s1 where 1: "require_iblkref 36864 0 sample_fs = Some (r, s1)" "fs_ok ?F {} ?F s1"
    "\<forall>ib. r = Some ib \<longrightarrow> fetch_iblkref 36864 0 s1 = Some ib \<and> sole ?F s1 ib"
    using require_spec [OF sample_fs_ok t, of 0] by auto
  have "r \<noteq> None" using require_space [OF sample_fs_ok t _ 1(1)] sample_fs_acquire(3) by auto
  then obtain ib where ib: "fetch_iblkref 36864 0 s1 = Some ib" "sole ?F s1 ib" using 1(3) by auto
  obtain p s2 where s2: "iblkref_pmemb ib s1 = Some p" "copy_in p (\<lambda>_. 9) (off_in_page 0) (nbytes_in_range 0 (next_page 0) 10) s1 = Some s2"
    "fs_ok ?F {} ?F s2" "h_inode s2 = h_inode s1"
    "\<And>pos. 0 \<le> pos \<Longrightarrow> content s2 36864 pos = file_write 0 (nbytes_in_range 0 (next_page 0) 10) (\<lambda>_. 9) (content s1 36864) pos"
    by (rule write_page [OF 1(2) t _ _ _ ib refl]) auto
  have i: "h_iblkref s2 = h_iblkref s1" using s2(2) by (auto simp: copy_in_def split: if_splits)
  have n: "nbytes_in_range 0 (next_page 0) 10 = 10" by (simp add: nbytes_in_range_def next_page_def cast_size_def)
  have "fetch_iblkref 36864 0 s2 = Some ib" using ib(1) fetch_cong [of s2 36864 s1 0] s2(4) i by simp
  moreover have "sole ?F s2 ib" using ib(2) s2(4) i by (simp add: sole_def refs_def)
  moreover have "content s2 36864 q = 9" if "0 \<le> q" "q < 10" for q using s2(5) [OF that(1)] that by (simp add: n file_write_def)
  ultimately show thesis by (intro that [OF s2(3)]) blast+
qed

theorem punch_hole_correct_witness:
  "\<exists>s s'. fallocate 36864 3 5 3 s = Some (Inr (), s') \<and> fs_ok {36864, 36992} {} {36864, 36992} s' \<and>
     content s 36864 6 = 9 \<and> content s' 36864 6 = 0 \<and> content s' 36864 8 = 9"
proof -
  obtain s ib where s: "fs_ok {36864, 36992} {} {36864, 36992} s" "fetch_iblkref 36864 0 s = Some ib" "sole {36864, 36992} s ib"
    "\<forall>p. 0 \<le> p \<longrightarrow> p < 10 \<longrightarrow> content s 36864 p = 9" by (rule sample_block)
  have "edges_sole {36864, 36992} 36864 5 (5 + int 3) s"
  proof (unfold edges_sole_def Let_def, intro ballI impI)
    fix b assume b: "b \<in> set (list_head (h_inode s 36864))"
      and e: "ib_off (h_iblkref s b) < 5 \<and> 5 < ib_off (h_iblkref s b) + 4096 \<or>
        ib_off (h_iblkref s b) < 5 + int 3 \<and> 5 + int 3 < ib_off (h_iblkref s b) + 4096"
    from s(1) obtain D B I where inv: "blocks_inv D B I {36864, 36992} {} {36864, 36992} s" by (auto simp: fs_ok_def)
    have "0 \<le> ib_off (h_iblkref s b)" "ib_off (h_iblkref s b) mod 4096 = 0"
      using blocks_listD(2) [OF inv, of 36864] b by (auto simp: list_ok_def iblk_ok_def)
    moreover have "ib_off (h_iblkref s b) < 4096" using e by linarith
    ultimately have "ib_off (h_iblkref s b) = 0" using mod_pos_pos_trivial by metis
    then have "ib_off (h_iblkref s b) = off_to_boff 0" by (simp add: off_to_boff_def c_arith)
    from fetch_SomeI [OF blocks_listD(3) [OF inv] b this] have "b = ib" using s(2) by simp
    then show "sole {36864, 36992} s b" using s(3) by simp
  qed
  moreover have "check_io 5 3 = Inr ()" "check_falloc 3 5 3 = Inr ()" "(3::32 word) AND FALLOC_FL_PUNCH_HOLE \<noteq> 0"
    by (simp_all add: check_io_def check_falloc_def cast_size_def size_add_def toyfs_isize_max_def Let_def)
  moreover note punch_hole_correct [OF s(1), of 36864 5 3 3]
  ultimately obtain s' where s': "fallocate 36864 3 5 3 s = Some (Inr (), s')" "fs_ok {36864, 36992} {} {36864, 36992} s'"
    "\<forall>p\<ge>0. content s' 36864 p = (if 5 \<le> p \<and> p < 5 + int 3 then 0 else content s 36864 p)" by auto
  then have "content s' 36864 6 = 0" "content s' 36864 8 = 9" "content s 36864 6 = 9" using s(4) by simp_all
  with s'(1,2) show ?thesis by blast
qed

text \<open>
  A punch hole that covers a block in part writes the zeros into the page itself, also when the
  block is shared: every other file that refers to the same data block loses the same bytes.
\<close>

theorem punch_hole_at_hits_clones:
  assumes off: "0 \<le> off" and len: "len < PAGE_SIZE" "off mod 4096 + int len \<le> 4096"
    and d: "ib_dblkref (h_iblkref s ib) = Some d" "ib_dblkref (h_iblkref s ib') = Some d"
    and f: "fetch_iblkref u q s = Some ib'" and q0: "0 \<le> q" and q: "q = q - q mod 4096 + off mod 4096"
  shows "\<exists>s'. punch_hole_at t ib off len s = Some s' \<and> (\<forall>i<len. content s' u (q + int i) = 0)"
proof -
  have m: "0 \<le> off mod 4096" "off mod 4096 < 4096" by simp_all
  have poff: "off_in_page off = off mod 4096" by (rule off_arith(2) [OF off])
  have nxt0: "next_page (off mod 4096) = 4096" using off_arith(3) [OF m(1)] by simp
  have len': "len < 2 ^ 63" using len by simp
  have plen: "nbytes_in_range (off mod 4096) 4096 (off mod 4096 + cast_loff len) = len"
    using len m by (auto simp: nbytes_in_range_def cast_loff_small [OF len'] cast_size_small)
  let ?s' = "upd_dat (dpage s d) (nat (off mod 4096)) len (\<lambda>_. 0) s"
  have "assign_zeros (dpage s d) (off mod 4096) len s = Some ?s'"
    using page_args_ok [OF off len(2)] poff by (simp add: assign_zeros_def)
  then have run: "punch_hole_at t ib off len s = Some ?s'"
    using iblkref_pmemb_dpage [OF d(1)] len(1) by (simp add: punch_hole_at_def zero_range_at_def poff nxt0 plen)
  have qm: "q mod 4096 = off mod 4096" using q by linarith
  have "content ?s' u (q + int i) = 0" if "i < len" for i
    using page_content [OF q0 _ that, of ?s' u] f d(2) len(2) qm that by (simp add: h_dat_upd_dat)
  with run show ?thesis by blast
qed

definition sample_shared :: toyfs_sb_info where
  "sample_shared =
    upd_inode 36864 (\<lambda>zi. zi\<lparr>list_head := [5]\<rparr>) (upd_inode 36992 (\<lambda>zi. zi\<lparr>list_head := [6]\<rparr>)
     (upd_iblkref 5 (\<lambda>_. \<lparr>ib_dblkref = Some 9, ib_off = 0\<rparr>) (upd_iblkref 6 (\<lambda>_. \<lparr>ib_dblkref = Some 9, ib_off = 0\<rparr>)
      sample_fs)))"

theorem punch_hole_at_hits_clones_witness:
  "\<exists>s'. punch_hole_at 36864 5 10 2 sample_shared = Some s' \<and> (\<forall>i<2. content s' 36992 (10 + int i) = 0)"
proof (rule punch_hole_at_hits_clones [of 10 2 sample_shared 5 9 6 36992 10 36864])
  show "fetch_iblkref 36992 10 sample_shared = Some 6"
    by (simp add: fetch_iblkref_def sample_shared_def toyfs_iblkrefs_list_of_def off_to_boff_def c_arith)
qed (simp_all add: sample_shared_def)

text \<open>
  Plain \<open>fallocate\<close> (no mode flag that changes contents) never fails an assertion. It
  changes no byte of any file; when it succeeds the size is at least the end of the range, and when the pool is
  exhausted (\<open>ENOSPC\<close>) the size is unchanged.
\<close>

theorem falloc_range_correct:
  assumes ok: "fs_ok N X F s" and t: "t \<in> F" and off: "off < 2 ^ 63" and len: "len < 2 ^ 62"
    and sz: "i_size (h_inode s t) < 2 ^ 63" and c: "check_io off len = Inr ()"
  shows "\<exists>r s'. fallocate t 0 off len s = Some (r, s') \<and> fs_ok N X F s' \<and> others_same X F t s s' \<and>
    content s' t = content s t \<and>
    (case r of Inl e \<Rightarrow> e = ENOSPC \<and> i_size (h_inode s' t) = i_size (h_inode s t)
     | Inr _ \<Rightarrow> i_size (h_inode s' t) = max (i_size (h_inode s t)) (nat off + len))"
proof -
  note k = check_io_Inr [OF off len c]
  have cl: "cast_loff len = int len" using len by (intro cast_loff_small) simp
  have lt: "0 + nat (off + int len - off) < 2 ^ 64" using len by simp
  obtain r s1 where s1: "falloc_loop t off (off + int len) 0 s = Some (r, s1)" "fs_ok N X F s1" "same_files X F s s1"
    "r = Inl ENOSPC \<or> r = Inr len"
    using falloc_loop_spec [OF t ok k(1,3) lt] by auto
  have os: "others_same X F t s s1" using s1(3) t by (simp add: others_same_def same_files_def)
  have st: "content s1 t = content s t" "i_size (h_inode s1 t) = i_size (h_inode s t)"
    using s1(3) t by (auto simp: same_files_def)
  from s1(4) show ?thesis
  proof
    assume "r = Inl ENOSPC"
    then have "fallocate t 0 off len s = Some (Inl ENOSPC, s1)"
      using c s1(1) cl by (simp add: fallocate_def check_falloc_def falloc_range_def)
    then show ?thesis using s1(2) os st by auto
  next
    assume r: "r = Inr len"
    let ?s' = "upd_inode t (\<lambda>zi. zi\<lparr>i_size := cast_size (max_offset off len (i_size zi))\<rparr>) s1"
    have "fallocate t 0 off len s = Some (Inr (), ?s')"
      using c s1(1) cl r by (simp add: fallocate_def check_falloc_def falloc_range_def)
    moreover have "cast_size (max_offset off len (i_size (h_inode s t))) = max (i_size (h_inode s t)) (nat off + len)"
      using k sz cl by (auto simp: max_offset_def Let_def cast_loff_small cast_size_small nat_add_distrib)
    moreover have "others_same X F t s ?s'" using os t by (intro others_same_upd) simp_all
    ultimately show ?thesis using s1(2) st by (intro exI [of _ "Inr ()"] exI [of _ ?s']) simp
  qed
qed

theorem falloc_range_correct_witness:
  "\<exists>r s'. fallocate 36864 0 100 5000 sample_fs = Some (r, s') \<and> fs_ok {36864, 36992} {} {36864, 36992} s' \<and>
     content s' 36864 = content sample_fs 36864"
proof -
  have "check_io 100 5000 = Inr ()"
    by (simp add: check_io_def cast_size_def size_add_def toyfs_isize_max_def Let_def)
  from falloc_range_correct [OF sample_fs_ok _ _ _ _ this, of 36864] show ?thesis
    by (auto simp: sample_fs_simps)
qed

text \<open>
  C11. Seek. \<open>SEEK_DATA\<close> (\<open>SEEK_HOLE\<close>) returns the first position at or after the offset and before the
  end of the file that lies in a block (in a hole); if there is none, it still returns success, with
  the offset -1, also for \<open>SEEK_HOLE\<close>, where the end of the file counts as a hole by convention.
\<close>

theorem toyfs_seek_correct:
  assumes ok: "fs_ok N X F s" and t: "t \<in> F" and z: "zii_inode s zii = Some t"
    and sz: "i_size (h_inode s t) < 2 ^ 63" and off: "off < 2 ^ 63" and wh: "whence = 3 \<or> whence = 4"
  shows "\<exists>r. toyfs_seek zii off whence s = Some (Inr (), r) \<and>
    (if \<exists>p\<ge>off. p < i_size (h_inode s t) \<and> (fetch_iblkref t (int p) s \<noteq> None) = (whence = 3)
     then r = (LEAST p. off \<le> p \<and> p < i_size (h_inode s t) \<and> (fetch_iblkref t (int p) s \<noteq> None) = (whence = 3))
     else r = 2 ^ 64 - 1)"
proof -
  let ?sz = "i_size (h_inode s t)" and ?e = "whence = 3"
  let ?P = "\<lambda>p. off \<le> p \<and> p < ?sz \<and> (fetch_iblkref t (int p) s \<noteq> None) = ?e"
  obtain x where x: "seek_block_loop t (int off) (int ?sz) ?e (-1) s = Some x"
    "x = -1 \<and> (\<forall>p. int off \<le> p \<and> p < int ?sz \<longrightarrow> (fetch_iblkref t p s \<noteq> None) \<noteq> ?e) \<or>
     int off \<le> x \<and> x < int ?sz \<and> (fetch_iblkref t x s \<noteq> None) = ?e \<and>
     (\<forall>p. int off \<le> p \<and> p < x \<longrightarrow> (fetch_iblkref t p s \<noteq> None) \<noteq> ?e)"
    using seek_block_loop_spec [OF ok t, of "int off" "int ?sz" ?e "-1"] by auto
  have run: "toyfs_seek zii off whence s = Some (Inr (), cast_size x)"
    using wh x(1) z by (auto simp: toyfs_seek_def seek_file_def seek_data_def seek_hole_def seek_block_def
        cast_loff_small [OF sz] cast_loff_small [OF off] Let_def)
  from x(2) show ?thesis
  proof (elim disjE conjE)
    assume "x = -1" "\<forall>p. int off \<le> p \<and> p < int ?sz \<longrightarrow> (fetch_iblkref t p s \<noteq> None) \<noteq> ?e"
    moreover from this(2) have "\<not> (\<exists>p. ?P p)" by (metis of_nat_le_iff of_nat_less_iff)
    moreover have "cast_size (-1) = 2 ^ 64 - 1" by (simp add: cast_size_def)
    ultimately show ?thesis using run by auto
  next
    assume a: "int off \<le> x" "x < int ?sz" "(fetch_iblkref t x s \<noteq> None) = ?e"
      "\<forall>p. int off \<le> p \<and> p < x \<longrightarrow> (fetch_iblkref t p s \<noteq> None) \<noteq> ?e"
    have P: "?P (nat x)" using a(1-3) by (simp add: nat_less_iff le_nat_iff)
    have "nat x \<le> q" if "?P q" for q using a(4) [rule_format, of "int q"] that by (cases "int q < x") auto
    then have "(LEAST p. ?P p) = nat x" using P by (intro Least_equality) auto
    moreover have "cast_size x = nat x" using a(1,2) sz by (intro cast_size_small) auto
    ultimately show ?thesis using run P by auto
  qed
qed

theorem toyfs_seek_correct_witness: "toyfs_seek (Some 11) 7 3 sample_fs = Some (Inr (), 2 ^ 64 - 1)"
  using toyfs_seek_correct [OF sample_fs_ok, of 36864 "Some 11" 7 3] by (simp add: sample_fs_simps)

text \<open>
  A \<open>fallocate\<close> whose end lies before its start is not rejected: the length wraps around
  in \<open>size_t\<close>, the sum with the offset wraps back and passes the size check, and the operation succeeds
  and sets the size to the larger of the old size and the start.
\<close>

theorem fallocate_negative_length:
  assumes z: "zii_inode s zii = Some t" and rw: "io_rw io = 0"
    and pos: "io_last_pos io < io_filepos io" "io_filepos io \<le> 2 ^ 50" and sz: "i_size (h_inode s t) < 2 ^ 63"
  shows "toyfs_fallocate fl_truncate zii io s =
    Some (Inr (), upd_inode t (\<lambda>zi. zi\<lparr>i_size := max (i_size zi) (io_filepos io)\<rparr>) s)"
proof -
  let ?p = "io_filepos io" and ?e = "io_last_pos io"
  let ?len = "cast_size (int ?e - int ?p)"
  have cl: "cast_loff ?p = int ?p" "cast_loff ?e = int ?e" using pos by (simp_all add: cast_loff_small)
  have "(int ?e - int ?p) mod 2 ^ 64 = (int ?e - int ?p + 2 ^ 64) mod 2 ^ 64" by simp
  also have "\<dots> = int ?e - int ?p + 2 ^ 64" using pos by (intro mod_pos_pos_trivial) simp_all
  finally have len: "?len = 2 ^ 64 - (?p - ?e)" using pos by (simp add: cast_size_def)
  have "size_add ?p ?len = (?e + 2 ^ 64) mod 2 ^ 64" using pos by (simp add: size_add_def len)
  then have sum: "size_add ?p ?len = ?e" using pos by simp
  have io: "check_io (int ?p) ?len = Inr ()"
    using pos sum len by (simp add: check_io_def cast_size_nat toyfs_isize_max_def Let_def)
  have bk: "cast_loff ?len = int ?e - int ?p" by (rule cast_loff_cast_size) (use pos in simp_all)
  have "cast_size (max_offset (int ?p) 0 (i_size (h_inode s t))) = max (i_size (h_inode s t)) ?p"
    using pos sz by (auto simp: max_offset_def cast_loff_small cast_size_nat max_def Let_def)
  then show ?thesis
    using z rw pos io bk falloc_loop.simps [of t "int ?p" "int ?e" 0 s]
    by (simp add: toyfs_fallocate_def cl fallocate_def check_falloc_def falloc_range_def Let_def upd_inode_def)
qed

theorem fallocate_negative_length_witness:
  "toyfs_fallocate 1 (Some 11) \<lparr>io_zus_ii = Some 11, io_len = 0, io_filepos = 100, io_last_pos = 40, io_rw = 0\<rparr> sample_fs =
   Some (Inr (), upd_inode 36864 (\<lambda>zi. zi\<lparr>i_size := max (i_size zi) 100\<rparr>) sample_fs)"
  using fallocate_negative_length [of sample_fs "Some 11" 36864
      "\<lparr>io_zus_ii = Some 11, io_len = 0, io_filepos = 100, io_last_pos = 40, io_rw = 0\<rparr>" 1]
  by (simp add: sample_fs_simps)

end
