(* ===== verification/FileClone.thy ===== *)
theory FileClone
  imports FileRange
begin

text \<open>
  Clone of an entire file (\<open>_clone_entire_file_range\<close>): the destination refers to the same data
  blocks as the source, with the reference counts raised, and has the same contents. By the
  specification of write, the two files are independent from then on.
\<close>

lemma share_blocks_inv:
  assumes inv: "blocks_inv D B I N X F s" and t: "t \<in> F" and ib: "ib \<notin> I" and dB: "d \<in> B"
    and md: "s_md s' = s_md s" and ibs: "h_iblkref s' = (h_iblkref s)(ib := r)"
    and r: "0 \<le> ib_off r" "ib_off r mod 4096 = 0" "ib_dblkref r = Some d"
    and gt: "\<And>b. b \<in> set (list_head (h_inode s t)) \<Longrightarrow> ib_off (h_iblkref s b) < ib_off r"
    and ino: "\<And>u. u \<noteq> t \<Longrightarrow> h_inode s' u = h_inode s u"
      "list_head (h_inode s' t) = list_head (h_inode s t) @ [ib]"
      "i_blocks (h_inode s' t) = i_blocks (h_inode s t) + 1"
    and db: "\<And>e. e \<noteq> d \<Longrightarrow> h_dblkref s' e = h_dblkref s e"
      "db_refcnt (h_dblkref s' d) = db_refcnt (h_dblkref s d) + 1" "db_bn (h_dblkref s' d) = db_bn (h_dblkref s d)"
  shows "blocks_inv D B (insert ib I) N X F s'"
proof -
  have lI: "ib \<notin> set (list_head (h_inode s u))" if "u \<in> F" for u
    using blocks_listD(4) [OF inv that] ib by auto
  have lmem: "b \<in> set (list_head (h_inode s' u)) \<longleftrightarrow> b \<in> set (list_head (h_inode s u)) \<or> u = t \<and> b = ib" for b u
    using ino(1) [of u] ino(2) by (cases "u = t") auto
  have same: "h_iblkref s' b = h_iblkref s b" if "u \<in> F" "b \<in> set (list_head (h_inode s u))" for u b
    using lI [OF that(1)] that(2) by (auto simp: ibs)
  have refs_d: "refs F s' d = insert ib (refs F s d)" using t lI r by (auto simp: refs_def lmem ibs)
  have refs_e: "refs F s' e = refs F s e" if "e \<noteq> d" for e
    using that lI r by (auto simp: refs_def lmem ibs split: if_splits)
  have dp: "dpage s' e = dpage s e" for e by (rule dpage_cong [OF md]) (use db in \<open>cases "e = d"; simp\<close>)
  have lst: "list_ok B (insert ib I) s' u" if u: "u \<in> F" for u
  proof -
    have old: "map (\<lambda>b. ib_off (h_iblkref s' b)) (list_head (h_inode s u)) =
        map (\<lambda>b. ib_off (h_iblkref s b)) (list_head (h_inode s u))" using same [OF u] by simp
    have srt: "sorted_wrt (<) (map (\<lambda>b. ib_off (h_iblkref s' b)) (list_head (h_inode s u)))"
      unfolding old by (rule blocks_listD(3) [OF inv u])
    have ok: "iblk_ok B (h_iblkref s' b)" if "b \<in> set (list_head (h_inode s u))" for b
      using blocks_listD(2) [OF inv u] that same [OF u that] by (auto simp: list_ok_def)
    have oki: "iblk_ok B (h_iblkref s' ib)" using r dB by (simp add: ibs iblk_ok_def)
    have bl: "i_blocks (h_inode s u) = length (list_head (h_inode s u))" "set (list_head (h_inode s u)) \<subseteq> I"
      using blocks_listD(2) [OF inv u] by (simp_all add: list_ok_def)
    show ?thesis
    proof (cases "u = t")
      case False
      then show ?thesis using srt ok bl ino(1) by (auto simp: list_ok_def)
    next
      case True
      have "ib_off (h_iblkref s' b) < ib_off (h_iblkref s' ib)" if "b \<in> set (list_head (h_inode s t))" for b
        using gt [OF that] same [OF t that] by (simp add: ibs)
      then have "sorted_wrt (<) (map (\<lambda>b. ib_off (h_iblkref s' b)) (list_head (h_inode s' t)))"
        using srt True ino(2) by (simp add: sorted_wrt_append)
      then show ?thesis using True ok oki bl ino(2,3) by (auto simp: list_ok_def)
    qed
  qed
  have dok: "0 < db_refcnt (h_dblkref s' e) \<and> dpage s' e \<in> D \<and> dpage s' e \<notin> X \<and>
      card (refs F s' e) \<le> db_refcnt (h_dblkref s' e)" if e: "e \<in> B" for e
  proof (cases "e = d")
    case True
    have "card (refs F s d) \<le> db_refcnt (h_dblkref s d)" using inv dB by (simp add: blocks_inv_def)
    then have "card (refs F s' d) \<le> db_refcnt (h_dblkref s' d)"
      using card_insert_le_Suc [OF refs_finite [OF inv, of d], of ib] refs_d db(2) by simp
    then show ?thesis using True inv dB dp db(2) by (simp add: blocks_inv_def)
  next
    case False
    then show ?thesis using inv e dp db(1) refs_e by (simp add: blocks_inv_def)
  qed
  have inj: "inj_on (dpage s') B" using inv dp by (simp add: blocks_inv_def inj_on_def)
  show ?thesis unfolding blocks_inv_def
  proof (intro conjI)
    show "\<forall>u\<in>F. list_ok B (insert ib I) s' u" using lst by blast
    show "\<forall>u\<in>F. \<forall>v\<in>F. u \<noteq> v \<longrightarrow> set (list_head (h_inode s' u)) \<inter> set (list_head (h_inode s' v)) = {}"
    proof (intro ballI impI)
      fix u v assume uv: "u \<in> F" "v \<in> F" "u \<noteq> v"
      show "set (list_head (h_inode s' u)) \<inter> set (list_head (h_inode s' v)) = {}"
        using lists_disjointD [OF inv uv(1,2)] uv lI lmem by blast
    qed
    show "\<forall>e\<in>B. 0 < db_refcnt (h_dblkref s' e) \<and> dpage s' e \<in> D \<and> dpage s' e \<notin> X \<and>
        card (refs F s' e) \<le> db_refcnt (h_dblkref s' e)" using dok by blast
  qed (use inv inj in \<open>auto simp: blocks_inv_def\<close>)
qed

lemma share_content:
  assumes inv: "blocks_inv D B I N X F s" and u: "u \<in> F" "u \<noteq> t" and ib: "ib \<notin> I"
    and md: "s_md s' = s_md s" and ibs: "h_iblkref s' = (h_iblkref s)(ib := r)"
    and ino: "h_inode s' u = h_inode s u"
    and bn: "\<And>e. db_bn (h_dblkref s' e) = db_bn (h_dblkref s e)" and dat: "h_dat s' = h_dat s"
  shows "content s' u = content s u"
proof
  fix pos
  have lI: "b \<noteq> ib" if "b \<in> set (list_head (h_inode s u))" for b
    using blocks_listD(4) [OF inv u(1)] ib that by auto
  have f: "fetch_iblkref u pos s' = fetch_iblkref u pos s"
    by (rule fetch_cong) (use ino lI in \<open>auto simp: ibs\<close>)
  have dp: "dpage s' e = dpage s e" for e by (rule dpage_cong [OF md bn])
  show "content s' u pos = content s u pos"
    using f lI fetch_SomeD [of u pos s] by (auto simp: content_def dp dat ibs split: option.split)
qed

text \<open>The destination list mirrors the part of the source list that has been visited.\<close>

definition mirrors :: "toyfs_sb_info \<Rightarrow> addr list \<Rightarrow> addr list \<Rightarrow> bool" where
  "mirrors s xs ys = list_all2 (\<lambda>b a. ib_off (h_iblkref s b) = ib_off (h_iblkref s a) \<and>
     ib_dblkref (h_iblkref s b) = ib_dblkref (h_iblkref s a)) xs ys"

lemma mirrors_content:
  assumes "mirrors s (list_head (h_inode s t)) (list_head (h_inode s u))"
  shows "content s t = content s u"
proof
  fix pos
  have "mirrors s xs ys \<Longrightarrow>
    rel_option (\<lambda>b a. ib_dblkref (h_iblkref s b) = ib_dblkref (h_iblkref s a))
      (find (\<lambda>b. ib_off (h_iblkref s b) = q) xs) (find (\<lambda>b. ib_off (h_iblkref s b) = q) ys)" for xs ys q
    unfolding mirrors_def by (induction rule: list_all2_induct) auto
  from this [OF assms, of "off_to_boff pos"] have
    "rel_option (\<lambda>b a. ib_dblkref (h_iblkref s b) = ib_dblkref (h_iblkref s a))
       (fetch_iblkref t pos s) (fetch_iblkref u pos s)"
    by (simp add: fetch_iblkref_def Let_def toyfs_iblkrefs_list_of_def)
  then show "content s t pos = content s u pos"
    by (cases "fetch_iblkref t pos s"; cases "fetch_iblkref u pos s") (simp_all add: content_def)
qed

lemma mirrors_mem:
  "mirrors s xs ys \<Longrightarrow> b \<in> set xs \<Longrightarrow> \<exists>c\<in>set ys. ib_off (h_iblkref s b) = ib_off (h_iblkref s c)"
  unfolding mirrors_def by (induction rule: list_all2_induct) auto

definition cloning :: "addr set \<Rightarrow> addr set \<Rightarrow> addr set \<Rightarrow> addr \<Rightarrow> addr \<Rightarrow> toyfs_sb_info \<Rightarrow> toyfs_sb_info \<Rightarrow> bool" where
  "cloning N X F src dst s s' =
    (fs_ok N X F s' \<and> others_same X F dst s s' \<and> i_size (h_inode s' dst) = i_size (h_inode s dst) \<and>
     list_head (h_inode s' src) = list_head (h_inode s src) \<and>
     (\<forall>b\<in>set (list_head (h_inode s src)). h_iblkref s' b = h_iblkref s b))"

lemma cloning_trans:
  "cloning N X F src dst s s1 \<Longrightarrow> cloning N X F src dst s1 s2 \<Longrightarrow> cloning N X F src dst s s2"
  using others_same_trans by (auto simp: cloning_def)

lemma clone_step:
  assumes ok: "fs_ok N X F s" and src: "src \<in> F" and dst: "dst \<in> F" and ne: "src \<noteq> dst"
    and L: "list_head (h_inode s src) = done @ a # itr" and mir: "mirrors s (list_head (h_inode s dst)) done"
    and acq: "toyfs_acquire_iblkref s = (Some ib, s1)"
  obtains d s' where "ib_dblkref (h_iblkref s1 a) = Some d"
    "s' = upd_inode dst (\<lambda>zi. zi\<lparr>list_head := list_head zi @ [ib], i_blocks := i_blocks zi + 1\<rparr>)
        (upd_dblkref d (\<lambda>r. r\<lparr>db_refcnt := db_refcnt r + 1\<rparr>)
          (upd_iblkref ib (\<lambda>r. r\<lparr>ib_off := ib_off (h_iblkref s1 a), ib_dblkref := ib_dblkref (h_iblkref s1 a)\<rparr>) s1))"
    "cloning N X F src dst s s'" "mirrors s' (list_head (h_inode s' dst)) (done @ [a])"
proof -
  from ok obtain D B I where pool: "pool_inv D B I N s" and inv: "blocks_inv D B I N X F s"
    by (auto simp: fs_ok_def)
  note A = iblk_src.acquire_law [OF pool acq] and fr = acquire_iblkref_frame [OF acq]
  have a: "a \<in> set (list_head (h_inode s src))" using L by simp
  have ab: "\<exists>d. ib_dblkref (h_iblkref s a) = Some d \<and> d \<in> B \<and> a \<in> I \<and> 0 \<le> ib_off (h_iblkref s a) \<and>
      ib_off (h_iblkref s a) mod 4096 = 0"
    using blocks_ibD [OF inv src a] by metis
  then obtain d where d: "ib_dblkref (h_iblkref s a) = Some d" "d \<in> B" "a \<in> I" by metis
  have nI: "b \<noteq> ib" if "u \<in> F" "b \<in> set (list_head (h_inode s u))" for u b
    using blocks_listD(4) [OF inv that(1)] that(2) A by auto
  have a1: "h_iblkref s1 a = h_iblkref s a" using fr nI [OF src a] by auto
  let ?r = "(h_iblkref s1 ib)\<lparr>ib_off := ib_off (h_iblkref s a), ib_dblkref := Some d\<rparr>"
  let ?s' = "upd_inode dst (\<lambda>zi. zi\<lparr>list_head := list_head zi @ [ib], i_blocks := i_blocks zi + 1\<rparr>)
        (upd_dblkref d (\<lambda>r. r\<lparr>db_refcnt := db_refcnt r + 1\<rparr>)
          (upd_iblkref ib (\<lambda>r. r\<lparr>ib_off := ib_off (h_iblkref s1 a), ib_dblkref := ib_dblkref (h_iblkref s1 a)\<rparr>) s1))"
  have ibs: "h_iblkref ?s' = (h_iblkref s)(ib := ?r)" using fr a1 d by (auto simp: fun_eq_iff)
  have gt: "ib_off (h_iblkref s b) < ib_off ?r" if b: "b \<in> set (list_head (h_inode s dst))" for b
  proof -
    obtain c where c: "c \<in> set done" "ib_off (h_iblkref s b) = ib_off (h_iblkref s c)"
      using mirrors_mem [OF mir b] by blast
    have "sorted_wrt (<) (map (\<lambda>x. ib_off (h_iblkref s x)) (done @ a # itr))"
      using blocks_listD(3) [OF inv src] L by simp
    then show ?thesis using c by (auto simp: sorted_wrt_append)
  qed
  have ino: "\<And>u. u \<noteq> dst \<Longrightarrow> h_inode ?s' u = h_inode s u"
    "list_head (h_inode ?s' dst) = list_head (h_inode s dst) @ [ib]"
    "i_blocks (h_inode ?s' dst) = i_blocks (h_inode s dst) + 1" using fr by simp_all
  have md: "s_md ?s' = s_md s" using fr by simp
  have db: "\<And>e. e \<noteq> d \<Longrightarrow> h_dblkref ?s' e = h_dblkref s e"
    "db_refcnt (h_dblkref ?s' d) = db_refcnt (h_dblkref s d) + 1" "db_bn (h_dblkref ?s' d) = db_bn (h_dblkref s d)"
    using fr by simp_all
  have r: "0 \<le> ib_off ?r" "ib_off ?r mod 4096 = 0" "ib_dblkref ?r = Some d" using ab by auto
  have inv': "blocks_inv D B (insert ib I) N X F ?s'"
    by (rule share_blocks_inv [OF inv dst _ d(2) md ibs r gt ino db]) (use A in simp_all)
  have pool': "pool_inv D B (insert ib I) N ?s'" using A by simp
  have bn: "db_bn (h_dblkref ?s' e) = db_bn (h_dblkref s e)" for e using db by (cases "e = d") simp_all
  have "content ?s' u = content s u" if "u \<in> F" "u \<noteq> dst" for u
    by (rule share_content [OF inv that _ md ibs ino(1) [OF that(2)] bn]) (use A fr in simp_all)
  then have os: "others_same X F dst s ?s'" using fr dst by (auto simp: others_same_def)
  have fs: "fs_ok N X F ?s'" unfolding fs_ok_def using inv' pool' by blast
  have keep: "h_iblkref ?s' b = h_iblkref s b" if "u \<in> F" "b \<in> set (list_head (h_inode s u))" for u b
    using nI [OF that] unfolding ibs by simp
  have cl: "cloning N X F src dst s ?s'"
    unfolding cloning_def using fs os ino(1) [OF ne] keep [OF src] fr by simp
  have "list_all2 (\<lambda>b c. ib_off (h_iblkref ?s' b) = ib_off (h_iblkref ?s' c) \<and>
     ib_dblkref (h_iblkref ?s' b) = ib_dblkref (h_iblkref ?s' c)) (list_head (h_inode s dst)) done"
    using mir unfolding mirrors_def
    by (rule list.rel_mono_strong) (use keep [OF src] keep [OF dst] L in auto)
  moreover have "list_all2 (\<lambda>b c. ib_off (h_iblkref ?s' b) = ib_off (h_iblkref ?s' c) \<and>
     ib_dblkref (h_iblkref ?s' b) = ib_dblkref (h_iblkref ?s' c)) [ib] [a]"
    using nI [OF src a] by simp
  ultimately have mir': "mirrors ?s' (list_head (h_inode ?s' dst)) (done @ [a])"
    unfolding mirrors_def ino(2) by (rule list_all2_appendI)
  show thesis by (rule that [OF _ refl cl mir']) (use a1 d in simp)
qed

lemma clone_entire_loop_spec:
  assumes src: "src \<in> F" and dst: "dst \<in> F" and ne: "src \<noteq> dst"
  shows "\<lbrakk>fs_ok N X F s; list_head (h_inode s src) = done @ itr; mirrors s (list_head (h_inode s dst)) done\<rbrakk> \<Longrightarrow>
    \<exists>r s'. clone_entire_loop dst itr s = Some (r, s') \<and> cloning N X F src dst s s' \<and>
      (r = Inl ENOSPC \<or> r = Inr () \<and> mirrors s' (list_head (h_inode s' dst)) (list_head (h_inode s' src)))"
proof (induction itr arbitrary: s "done")
  case Nil
  then show ?case by (simp add: cloning_def)
next
  case (Cons a itr)
  obtain x s1 where acq: "toyfs_acquire_iblkref s = (x, s1)" by fastforce
  show ?case
  proof (cases x)
    case None
    then have "s1 = s" using acq acquire_iblkref_None by simp
    then show ?thesis using acq None Cons.prems(1) by (simp add: cloning_def)
  next
    case (Some ib)
    note acq' = acq [unfolded Some]
    obtain d s' where d: "ib_dblkref (h_iblkref s1 a) = Some d"
      and s': "s' = upd_inode dst (\<lambda>zi. zi\<lparr>list_head := list_head zi @ [ib], i_blocks := i_blocks zi + 1\<rparr>)
        (upd_dblkref d (\<lambda>r. r\<lparr>db_refcnt := db_refcnt r + 1\<rparr>)
          (upd_iblkref ib (\<lambda>r. r\<lparr>ib_off := ib_off (h_iblkref s1 a), ib_dblkref := ib_dblkref (h_iblkref s1 a)\<rparr>) s1))"
      and cl: "cloning N X F src dst s s'" and mir: "mirrors s' (list_head (h_inode s' dst)) (done @ [a])"
      by (rule clone_step [OF Cons.prems(1) src dst ne Cons.prems(2,3) acq'])
    have run: "clone_entire_loop dst (a # itr) s = clone_entire_loop dst itr s'"
      using acq' d by (simp add: s' Let_def)
    have "fs_ok N X F s'" "list_head (h_inode s' src) = (done @ [a]) @ itr"
      using cl Cons.prems(2) by (simp_all add: cloning_def)
    from Cons.IH [OF this mir] obtain r s2 where "clone_entire_loop dst itr s' = Some (r, s2)"
      "cloning N X F src dst s' s2"
      "r = Inl ENOSPC \<or> r = Inr () \<and> mirrors s2 (list_head (h_inode s2 dst)) (list_head (h_inode s2 src))"
      by blast
    then show ?thesis using run cloning_trans [OF cl] by auto
  qed
qed

lemma drop_all_list:
  assumes ok: "fs_ok N X F s" and t: "t \<in> F"
  shows "\<exists>s'. drop_range t 0 s = Some s' \<and> fs_ok N X F s' \<and> others_same X F t s s' \<and>
    i_size (h_inode s' t) = i_size (h_inode s t) \<and> list_head (h_inode s' t) = []"
proof -
  from ok obtain D B I where inv: "blocks_inv D B I N X F s" by (auto simp: fs_ok_def)
  let ?L = "list_head (h_inode s t)"
  have off: "0 \<le> ib_off (h_iblkref s b)" if "b \<in> set ?L" for b using blocks_ibD [OF inv t that] by metis
  obtain s' where s': "drop_range_loop t 0 ?L s = Some s'"
    "dropped N X F t (\<lambda>b. b \<in> set ?L \<and> ib_off (h_iblkref s b) \<ge> 0) s s'"
    using drop_range_loop_spec [OF t ok, of ?L 0] sorted_wrt_map_less_distinct [OF blocks_listD(3) [OF inv t]]
    by blast
  have "set (list_head (h_inode s' t)) = {}" using s'(2) off by (auto simp: dropped_def)
  moreover have "drop_range t 0 s = Some s'"
    using s'(1) by (simp add: drop_range_def toyfs_iblkrefs_list_of_def cast_size_def Let_def)
  ultimately show ?thesis using s'(2) by (auto simp: dropped_def)
qed

lemma clone_entire_spec:
  assumes ok: "fs_ok N X F s" and src: "src \<in> F" and dst: "dst \<in> F" and ne: "src \<noteq> dst"
  shows "\<exists>r s'. clone_entire_file_range src dst s = Some (r, s') \<and> fs_ok N X F s' \<and> others_same X F dst s s' \<and>
    (r = Inl ENOSPC \<or>
     r = Inr () \<and> content s' dst = content s src \<and> i_size (h_inode s' dst) = i_size (h_inode s src))"
proof -
  obtain s1 where s1: "drop_range dst 0 s = Some s1" "fs_ok N X F s1" "others_same X F dst s s1"
    "list_head (h_inode s1 dst) = []" using drop_all_list [OF ok dst] by blast
  have m0: "mirrors s1 (list_head (h_inode s1 dst)) []" using s1(4) by (simp add: mirrors_def)
  obtain r s2 where s2: "clone_entire_loop dst (list_head (h_inode s1 src)) s1 = Some (r, s2)"
    "cloning N X F src dst s1 s2"
    "r = Inl ENOSPC \<or> r = Inr () \<and> mirrors s2 (list_head (h_inode s2 dst)) (list_head (h_inode s2 src))"
    using clone_entire_loop_spec [OF src dst ne s1(2) _ m0, of "list_head (h_inode s1 src)"] by auto
  have os: "others_same X F dst s s2" using others_same_trans [OF s1(3)] s2(2) by (auto simp: cloning_def)
  show ?thesis
  proof (cases r)
    case (Inl e)
    then have "clone_entire_file_range src dst s = Some (Inl ENOSPC, s2)"
      using s1(1) s2(1,3) by (auto simp: clone_entire_file_range_def toyfs_iblkrefs_list_of_def)
    then show ?thesis using os s2(2) by (auto simp: cloning_def)
  next
    case (Inr u)
    let ?s' = "upd_inode dst (\<lambda>zi. zi\<lparr>i_size := i_size (h_inode s2 src)\<rparr>) s2"
    have run: "clone_entire_file_range src dst s = Some (Inr (), ?s')"
      using s1(1) s2(1) Inr by (simp add: clone_entire_file_range_def toyfs_iblkrefs_list_of_def)
    have "content s2 dst = content s2 src" using s2(3) Inr by (intro mirrors_content) auto
    moreover have "content s2 src = content s src" "i_size (h_inode s2 src) = i_size (h_inode s src)"
      using os src ne by (simp_all add: others_same_def)
    moreover have "others_same X F dst s ?s'" using os dst by (intro others_same_upd) simp_all
    ultimately show ?thesis using run s2(2) by (intro exI [of _ "Inr ()"] exI [of _ ?s']) (simp add: cloning_def)
  qed
qed

lemma toyfs_write_step:
  assumes ok: "fs_ok N X F s" and t: "t \<in> F" and z: "zii_inode s (io_zus_ii io) = Some t"
    and pos: "io_filepos io < 2 ^ 64" and sz: "i_size (h_inode s t) < 2 ^ 63"
  shows "\<exists>r io' s'. toyfs_write buf io s = Some (r, io', s') \<and> fs_ok N X F s' \<and> others_same X F t s s'"
proof (cases "check_rw s (cast_loff (io_filepos io)) (io_len io)")
  case (Inl e)
  then show ?thesis using z ok by (simp add: toyfs_write_def write_file_def)
next
  case (Inr u)
  from write_file_spec [OF ok t cast_loff_bounds [OF pos] sz Inr, of buf] z show ?thesis
    by (auto simp: toyfs_write_def wrote_def)
qed

lemma require_scan_fetch:
  assumes inv: "blocks_inv D B I N X F s" and t: "t \<in> F" and f: "fetch_iblkref t off s = Some ib"
  shows "\<exists>k. require_scan s (off_to_boff off) (list_head (h_inode s t)) = (Some ib, k)"
proof -
  let ?L = "list_head (h_inode s t)"
  note m = fetch_SomeD [OF f] and srt = blocks_listD(3) [OF inv t]
  obtain r k where sc: "require_scan s (off_to_boff off) ?L = (r, k)" by fastforce
  show ?thesis
  proof (cases r)
    case None
    then show ?thesis using require_scan_None [OF sc [unfolded None] srt] m set_take_disj_set_drop_if_distinct
      by (metis append_take_drop_id in_set_conv_decomp less_irrefl Un_iff set_append)
  next
    case (Some b)
    then have "b \<in> set ?L" "ib_off (h_iblkref s b) = off_to_boff off" using require_scan_Some sc by auto
    then have "b = ib" using sorted_wrt_map_less_inj [OF srt] m by metis
    then show ?thesis using sc Some by simp
  qed
qed

section \<open>Properties\<close>

lemma sample_regular: "zi_isreg (h_inode sample_fs 36864)" "zi_isreg (h_inode sample_fs 36992)"
  by (simp_all add: sample_fs_def Let_def zi_isreg_def s_istype_def sample_reg_def toyfs_acquire_inode_def
      split: prod.split)

lemma sample_empty: "list_head (h_inode sample_fs 36864) = []" "list_head (h_inode sample_fs 36992) = []"
  by (simp_all add: sample_fs_def Let_def sample_reg_def zero_inode_def toyfs_acquire_inode_def split: prod.split)

text \<open>
  C7. Clone of a whole file. \<open>toyfs_clone\<close> with zero offsets and length never fails an
  assertion; when it succeeds the destination has the size and the contents of the source, which is itself
  unchanged, as is every other file; the only error is \<open>ENOSPC\<close>.
\<close>

theorem toyfs_clone_correct:
  assumes ok: "fs_ok N X F s" and src: "src \<in> F" and dst: "dst \<in> F"
    and z: "zii_inode s a = Some src" "zii_inode s b = Some dst" and ne: "src \<noteq> dst"
    and reg: "zi_isreg (h_inode s src)" "zi_isreg (h_inode s dst)"
  shows "\<exists>r s'. toyfs_clone a b 0 0 0 s = Some (r, s') \<and> fs_ok N X F s' \<and> others_same X F dst s s' \<and>
    (r = Inl ENOSPC \<or>
     r = Inr () \<and> content s' dst = content s src \<and> i_size (h_inode s' dst) = i_size (h_inode s src))"
proof -
  have "a \<noteq> b" using z ne by auto
  then have "toyfs_clone a b 0 0 0 s = clone_entire_file_range src dst s"
    using z reg by (simp add: toyfs_clone_def clone_file_def cast_loff_def)
  then show ?thesis using clone_entire_spec [OF ok src dst ne] by simp
qed

theorem toyfs_clone_correct_witness:
  "\<exists>r s'. toyfs_clone (Some 11) (Some 12) 0 0 0 sample_fs = Some (r, s') \<and> fs_ok {36864, 36992} {} {36864, 36992} s'"
  using toyfs_clone_correct [OF sample_fs_ok _ _ _ _ _ sample_regular, of "Some 11" "Some 12"]
  by (auto simp: sample_fs_simps)

text \<open>
  C6. A clone is a snapshot: after a successful clone, whatever is written to the source later
  (whether or not the write succeeds), the clone keeps the contents and the size the source had when
  it was cloned.
\<close>

theorem clone_is_snapshot:
  assumes ok: "fs_ok N X F s" and f: "src \<in> F" "dst \<in> F"
    and z: "zii_inode s a = Some src" "zii_inode s b = Some dst" and ne: "src \<noteq> dst"
    and reg: "zi_isreg (h_inode s src)" "zi_isreg (h_inode s dst)" and sz: "i_size (h_inode s src) < 2 ^ 63"
    and c: "toyfs_clone a b 0 0 0 s = Some (Inr (), s1)"
    and io: "io_zus_ii io = a" "io_filepos io < 2 ^ 64"
  shows "\<exists>r io' s2. toyfs_write buf io s1 = Some (r, io', s2) \<and> fs_ok N X F s2 \<and>
    content s2 dst = content s src \<and> i_size (h_inode s2 dst) = i_size (h_inode s src)"
proof -
  have "a \<noteq> b" using z ne by auto
  then have "clone_entire_file_range src dst s = Some (Inr (), s1)"
    using c z reg by (simp add: toyfs_clone_def clone_file_def cast_loff_def)
  with clone_entire_spec [OF ok f ne] have s1: "fs_ok N X F s1" "others_same X F dst s s1"
    "content s1 dst = content s src" "i_size (h_inode s1 dst) = i_size (h_inode s src)" by auto
  have z1: "zii_inode s1 (io_zus_ii io) = Some src"
    using z(1) io(1) s1(2) zii_inode_cong [of s1 s] by (simp add: others_same_def)
  have sz1: "i_size (h_inode s1 src) < 2 ^ 63" using s1(2) f ne sz by (simp add: others_same_def)
  obtain r io' s2 where "toyfs_write buf io s1 = Some (r, io', s2)" "fs_ok N X F s2" "others_same X F src s1 s2"
    using toyfs_write_step [OF s1(1) f(1) z1 io(2) sz1, of buf] by blast
  then show ?thesis using s1(3,4) f(2) ne by (auto simp: others_same_def)
qed

theorem clone_is_snapshot_witness:
  "\<exists>s1 r io' s2. toyfs_clone (Some 11) (Some 12) 0 0 0 sample_fs = Some (Inr (), s1) \<and>
     toyfs_write (\<lambda>i. [1, 2, 3] ! i) sample_io s1 = Some (r, io', s2) \<and> content s2 36992 = content sample_fs 36864"
proof -
  have "\<exists>s1. toyfs_clone (Some 11) (Some 12) 0 0 0 sample_fs = Some (Inr (), s1)"
    by (simp add: toyfs_clone_def sample_fs_simps clone_file_def sample_regular cast_loff_def
        clone_entire_file_range_def drop_range_def toyfs_iblkrefs_list_of_def sample_empty cast_size_def)
  then obtain s1 where s1: "toyfs_clone (Some 11) (Some 12) 0 0 0 sample_fs = Some (Inr (), s1)" ..
  from clone_is_snapshot [OF sample_fs_ok _ _ _ _ _ sample_regular _ s1, of sample_io "\<lambda>i. [1, 2, 3] ! i"] s1
  show ?thesis by (auto simp: sample_fs_simps)
qed

text \<open>
  Copy-on-write in \<open>_require_iblkref\<close> gives the file its own copy of a shared block but does
  not drop the reference it held: the reference count of the old block stays, with one reference less
  to it, so the block is never freed.
\<close>

theorem require_iblkref_leaks_reference:
  assumes ok: "fs_ok N X F s" and t: "t \<in> F" and f: "fetch_iblkref t off s = Some ib"
    and d: "ib_dblkref (h_iblkref s ib) = Some d" and rc: "1 < db_refcnt (h_dblkref s d)" and off: "0 \<le> off"
    and run: "require_iblkref t off s = Some (Some ib', s')"
  shows "ib' = ib \<and> ib \<in> refs F s d \<and> refs F s' d = refs F s d - {ib} \<and>
    db_refcnt (h_dblkref s' d) = db_refcnt (h_dblkref s d)"
proof -
  from ok obtain D B I where pool: "pool_inv D B I N s" and inv: "blocks_inv D B I N X F s"
    by (auto simp: fs_ok_def)
  note m = fetch_SomeD [OF f]
  have dB: "d \<in> B" using blocks_ibD [OF inv t m [THEN conjunct1]] d by auto
  obtain k where sc: "require_scan s (off_to_boff off) (list_head (h_inode s t)) = (Some ib, k)"
    using require_scan_fetch [OF inv t f] by blast
  from run obtain d' s1 s2 where n: "new_dblkref s = (Some d', s1)" and cd: "clone_data d' d s1 = Some s2"
    and s': "ib' = ib" "s' = upd_iblkref ib (\<lambda>r. r\<lparr>ib_dblkref := Some d'\<rparr>) s2"
    using sc d rc by (auto simp: require_iblkref_def toyfs_iblkrefs_list_of_def Let_def bind_eq_Some_conv
        split: prod.splits option.splits)
  note N1 = new_dblkref_Some [OF pool n]
  have s2: "h_dblkref s2 = h_dblkref s1" "h_iblkref s2 = h_iblkref s" "h_inode s2 = h_inode s"
    using cd N1(6,7) by (auto simp: clone_data_def copy_pmemb_def copy_in_def Let_def split: if_splits)
  have "d' \<noteq> d" using N1(1) dB by auto
  then have "refs F s' d = refs F s d - {ib}" by (auto simp: refs_def s'(2) s2)
  moreover have "h_dblkref s' d = h_dblkref s d" using N1(5) dB s2 by (simp add: s'(2) keeps_def)
  moreover have "ib \<in> refs F s d" using m d t by (auto simp: refs_def)
  ultimately show ?thesis using s'(1) by simp
qed

lemma fs_ok_raise_refcnt:
  assumes ok: "fs_ok N X F s" and n: "db_refcnt (h_dblkref s d) \<le> n" "0 < n"
  shows "fs_ok N X F (upd_dblkref d (\<lambda>r. r\<lparr>db_refcnt := n\<rparr>) s)"
proof -
  let ?s = "upd_dblkref d (\<lambda>r. r\<lparr>db_refcnt := n\<rparr>) s"
  from ok obtain D B I where pool: "pool_inv D B I N s" and inv: "blocks_inv D B I N X F s"
    by (auto simp: fs_ok_def)
  have dp: "dpage ?s = dpage s" by (intro ext dpage_cong) simp_all
  have "blocks_inv D B I N X F ?s"
    using inv n unfolding blocks_inv_def dp by (auto simp: list_ok_def refs_def dest: order_trans)
  then show ?thesis using pool by (auto simp: fs_ok_def)
qed

theorem require_iblkref_leaks_reference_witness:
  "\<exists>s d ib s'. fs_ok {36864, 36992} {} {36864, 36992} s \<and> require_iblkref 36864 0 s = Some (Some ib, s') \<and>
     ib \<in> refs {36864, 36992} s d \<and> refs {36864, 36992} s' d = refs {36864, 36992} s d - {ib} \<and>
     db_refcnt (h_dblkref s' d) = db_refcnt (h_dblkref s d)"
proof -
  let ?F = "{36864, 36992::addr}"
  have t: "36864 \<in> ?F" by simp
  obtain r s1 where 1: "require_iblkref 36864 0 sample_fs = Some (r, s1)" "fs_ok ?F {} ?F s1"
    "\<forall>ib. r = Some ib \<longrightarrow> fetch_iblkref 36864 0 s1 = Some ib \<and> sole ?F s1 ib"
    using require_spec [OF sample_fs_ok t, of 0] by auto
  have "r \<noteq> None" and np: "4 \<le> npages s1"
    using require_space [OF sample_fs_ok t _ 1(1)] sample_fs_acquire(3) by auto
  then obtain ib d where ib: "r = Some ib" "fetch_iblkref 36864 0 s1 = Some ib" "ib_dblkref (h_iblkref s1 ib) = Some d"
    using 1(3) by (auto simp: sole_def)
  define n where "n = db_refcnt (h_dblkref s1 d) + 2"
  let ?s = "upd_dblkref d (\<lambda>r. r\<lparr>db_refcnt := n\<rparr>) s1"
  have ok: "fs_ok ?F {} ?F ?s" by (rule fs_ok_raise_refcnt [OF 1(2)]) (simp_all add: n_def)
  obtain r' s2 where 2: "require_iblkref 36864 0 ?s = Some (r', s2)" using require_spec [OF ok t, of 0] by auto
  then obtain ib' where ib': "r' = Some ib'" using require_space [OF ok t _ 2] np by auto
  have f: "fetch_iblkref 36864 0 ?s = Some ib" using ib(2) fetch_cong [of ?s 36864 s1 0] by simp
  have d: "ib_dblkref (h_iblkref ?s ib) = Some d" "1 < db_refcnt (h_dblkref ?s d)" using ib(3) by (simp_all add: n_def)
  have "ib' = ib \<and> ib \<in> refs ?F ?s d \<and> refs ?F s2 d = refs ?F ?s d - {ib} \<and>
      db_refcnt (h_dblkref s2 d) = db_refcnt (h_dblkref ?s d)"
    by (rule require_iblkref_leaks_reference [OF ok t f d _ 2 [unfolded ib']]) simp
  then show ?thesis using ok 2 ib' by blast
qed

end
