(* ===== verification/InodeTable.thy ===== *)
theory InodeTable
  imports ToyState
begin

text \<open>
  The inode table of toyfs (\<open>fs/toyfs/super.c\<close>): a hash table with chaining that leads from an inode number
  to the \<open>struct toyfs_inode_ref\<close> of the inode. A pointer to an entry is the pair of its slot and its place in
  the chain. The locale \<open>number_map\<close> is what the inode operations rely on, and the table is an
  instance of it.
\<close>

section \<open>Operations\<close>

text \<open>The array \<open>imap\<close> of \<open>struct toyfs_itable\<close> has 33377 slots.\<close>

definition imap_size :: nat where "imap_size = 33377"

definition itable_init :: "toyfs_itable \<Rightarrow> toyfs_itable" where
  "itable_init itable = itable\<lparr>icount := 0, imap := (\<lambda>_. [])\<rparr>"

definition itable_slot_of :: "nat \<Rightarrow> nat" where
  "itable_slot_of ino = ino mod imap_size"

fun find_chain :: "nat \<Rightarrow> toyfs_inode_ref list \<Rightarrow> nat option" where
  "find_chain ino [] = None"
| "find_chain ino (tir # chain) =
    (if tir_ino tir = ino then Some 0 else map_option Suc (find_chain ino chain))"

definition itable_find :: "toyfs_itable \<Rightarrow> nat \<Rightarrow> (nat \<times> nat) option" where
  "itable_find itable ino =
    (let slot = itable_slot_of ino in map_option (Pair slot) (find_chain ino (imap itable slot)))"

text \<open>
  \<open>tir_ok\<close> tells whether \<open>zus_calloc\<close> returned memory for the entry. The result is the table with the new entry
  for the inode info \<open>tii\<close> found at address \<open>a\<close>.
\<close>

definition itable_insert :: "bool \<Rightarrow> addr \<Rightarrow> toyfs_inode_info \<Rightarrow> toyfs_itable \<Rightarrow> toyfs_itable run" where
  "itable_insert tir_ok a tii itable = do {
     toyfs_assert tir_ok;
     let tir = \<lparr>tir_tii = Some a, tir_ti = tii_ti tii, tir_ino = tii_ino tii\<rparr>;
     let slot = itable_slot_of (tii_ino tii);
     Some (itable\<lparr>imap := (imap itable)(slot := tir # imap itable slot), icount := icount itable + 1\<rparr>) }"

fun remove_chain :: "addr \<Rightarrow> toyfs_inode_ref list \<Rightarrow> toyfs_inode_ref list option" where
  "remove_chain a [] = None"
| "remove_chain a (tir # chain) =
    (if tir_tii tir = Some a then Some chain else map_option ((#) tir) (remove_chain a chain))"

definition itable_remove :: "addr \<Rightarrow> toyfs_inode_info \<Rightarrow> toyfs_itable \<Rightarrow> toyfs_itable run" where
  "itable_remove a tii itable = do {
     toyfs_assert (icount itable > 0);
     let slot = itable_slot_of (tii_ino tii);
     toyfs_assert (imap itable slot \<noteq> []);
     chain \<leftarrow> remove_chain a (imap itable slot);
     Some (itable\<lparr>imap := (imap itable)(slot := chain), icount := icount itable - 1\<rparr>) }"

text \<open>Access to the entry that a pointer refers to.\<close>

definition tir_at :: "toyfs_itable \<Rightarrow> nat \<times> nat \<Rightarrow> toyfs_inode_ref" where
  "tir_at itable p = imap itable (fst p) ! snd p"

definition set_tir_tii :: "nat \<times> nat \<Rightarrow> addr option \<Rightarrow> toyfs_itable \<Rightarrow> toyfs_itable" where
  "set_tir_tii p tii itable =
    itable\<lparr>imap := (imap itable)(fst p := (imap itable (fst p))[snd p := (tir_at itable p)\<lparr>tir_tii := tii\<rparr>])\<rparr>"

section \<open>The table as a map\<close>

definition itable_map :: "toyfs_itable \<Rightarrow> nat \<Rightarrow> toyfs_inode_ref option" where
  "itable_map itable ino = find (\<lambda>r. tir_ino r = ino) (imap itable (itable_slot_of ino))"

definition itable_ok :: "toyfs_itable \<Rightarrow> bool" where
  "itable_ok itable =
    ((\<forall>k. \<forall>r\<in>set (imap itable k). itable_slot_of (tir_ino r) = k) \<and>
     (\<forall>k. distinct (map tir_ino (imap itable k))) \<and>
     icount itable = (\<Sum>k<imap_size. length (imap itable k)))"

lemma slot_less [simp]: "itable_slot_of ino < imap_size"
  by (simp add: itable_slot_of_def imap_size_def)

lemma find_chain_Some:
  "find_chain ino xs = Some i \<Longrightarrow> i < length xs \<and> tir_ino (xs ! i) = ino \<and> find (\<lambda>r. tir_ino r = ino) xs = Some (xs ! i)"
  by (induction xs arbitrary: i) (auto split: if_splits)

lemma find_chain_None: "find_chain ino xs = None \<longleftrightarrow> find (\<lambda>r. tir_ino r = ino) xs = None"
  by (induction xs) auto

lemma itable_find_None: "itable_find t ino = None \<longleftrightarrow> itable_map t ino = None"
  by (simp add: itable_find_def itable_map_def Let_def find_chain_None)

lemma itable_find_Some:
  assumes "itable_find t ino = Some p"
  shows "fst p = itable_slot_of ino" "snd p < length (imap t (fst p))" "itable_map t ino = Some (tir_at t p)"
    "tir_ino (tir_at t p) = ino"
proof -
  from assms obtain i where i: "p = (itable_slot_of ino, i)" "find_chain ino (imap t (itable_slot_of ino)) = Some i"
    by (auto simp: itable_find_def Let_def)
  show "fst p = itable_slot_of ino" "snd p < length (imap t (fst p))" "itable_map t ino = Some (tir_at t p)"
    "tir_ino (tir_at t p) = ino"
    using i(1) find_chain_Some [OF i(2)] by (simp_all add: itable_map_def tir_at_def)
qed

lemma itable_map_ino: "itable_map t ino = Some r \<Longrightarrow> tir_ino r = ino"
  unfolding itable_map_def using find_SomeD by fastforce

lemma itable_map_mem:
  "itable_ok t \<Longrightarrow> r \<in> set (imap t (itable_slot_of ino)) \<Longrightarrow> tir_ino r = ino \<Longrightarrow> itable_map t ino = Some r"
  unfolding itable_map_def
  by (rule find_unique) (auto simp: itable_ok_def distinct_map inj_on_def)

lemma find_update_other:
  "i < length xs \<Longrightarrow> \<not> P (xs ! i) \<Longrightarrow> \<not> P y \<Longrightarrow> find P (xs[i := y]) = find P xs"
proof (induction xs arbitrary: i)
  case (Cons x xs)
  then show ?case by (cases i) simp_all
qed simp

lemma sum_slot:
  assumes "k < imap_size"
  shows "(\<Sum>j<imap_size. length ((f(k := xs)) j)) + length (f k) = (\<Sum>j<imap_size. length (f j)) + length xs"
proof -
  have k: "k \<in> {..<imap_size}" using assms by simp
  have "(\<Sum>j<imap_size. length ((f(k := xs)) j)) = length xs + (\<Sum>j\<in>{..<imap_size} - {k}. length (f j))"
    using sum.remove [OF _ k, of "\<lambda>j. length ((f(k := xs)) j)"] by simp
  then show ?thesis using sum.remove [OF _ k, of "\<lambda>j. length (f j)"] by simp
qed

lemma init_ok: "itable_ok (itable_init t)" "itable_map (itable_init t) = Map.empty"
  by (simp_all add: itable_ok_def itable_init_def itable_map_def fun_eq_iff)

lemma insert_Some:
  "itable_insert True a tii t =
    Some (t\<lparr>imap := (imap t)(itable_slot_of (tii_ino tii) :=
       \<lparr>tir_tii = Some a, tir_ti = tii_ti tii, tir_ino = tii_ino tii\<rparr> # imap t (itable_slot_of (tii_ino tii))),
     icount := icount t + 1\<rparr>)"
  by (simp add: itable_insert_def Let_def)

lemma insert_ok:
  assumes ok: "itable_ok t" and new: "itable_map t (tii_ino tii) = None" and i: "itable_insert c a tii t = Some t'"
  shows "itable_ok t'"
    "itable_map t' = (itable_map t)(tii_ino tii \<mapsto> \<lparr>tir_tii = Some a, tir_ti = tii_ti tii, tir_ino = tii_ino tii\<rparr>)"
    "icount t' = icount t + 1"
proof -
  from i have c by (simp add: itable_insert_def split: if_splits)
  with i have t': "t' = t\<lparr>imap := (imap t)(itable_slot_of (tii_ino tii) :=
       \<lparr>tir_tii = Some a, tir_ti = tii_ti tii, tir_ino = tii_ino tii\<rparr> # imap t (itable_slot_of (tii_ino tii))),
     icount := icount t + 1\<rparr>" by (simp add: insert_Some)
  then show "icount t' = icount t + 1" by simp
  have "tii_ino tii \<notin> tir_ino ` set (imap t (itable_slot_of (tii_ino tii)))"
    using new by (auto simp: itable_map_def find_None_all)
  then show "itable_ok t'"
    using ok sum_slot [OF slot_less, of "imap t" "tii_ino tii"
      "\<lparr>tir_tii = Some a, tir_ti = tii_ti tii, tir_ino = tii_ino tii\<rparr> # imap t (itable_slot_of (tii_ino tii))"]
    by (auto simp: itable_ok_def t' simp del: fun_upd_apply) (auto simp: fun_upd_def split: if_splits)
  show "itable_map t' = (itable_map t)(tii_ino tii \<mapsto> \<lparr>tir_tii = Some a, tir_ti = tii_ti tii, tir_ino = tii_ino tii\<rparr>)"
    by (auto simp: itable_map_def t' fun_eq_iff)
qed

lemma remove_chain_split:
  "\<exists>r\<in>set xs. tir_tii r = Some a \<Longrightarrow>
   \<exists>ps r qs. xs = ps @ r # qs \<and> tir_tii r = Some a \<and> (\<forall>q\<in>set ps. tir_tii q \<noteq> Some a) \<and> remove_chain a xs = Some (ps @ qs)"
proof (induction xs)
  case (Cons x xs)
  show ?case
  proof (cases "tir_tii x = Some a")
    case True
    then have "x # xs = [] @ x # xs \<and> tir_tii x = Some a \<and> (\<forall>q\<in>set []. tir_tii q \<noteq> Some a) \<and> remove_chain a (x # xs) = Some ([] @ xs)" by simp
    then show ?thesis by blast
  next
    case False
    with Cons obtain ps r qs where "xs = ps @ r # qs" "tir_tii r = Some a" "\<forall>q\<in>set ps. tir_tii q \<noteq> Some a"
      "remove_chain a xs = Some (ps @ qs)" by auto
    with False have "x # xs = (x # ps) @ r # qs \<and> tir_tii r = Some a \<and> (\<forall>q\<in>set (x # ps). tir_tii q \<noteq> Some a) \<and>
      remove_chain a (x # xs) = Some ((x # ps) @ qs)" by simp
    then show ?thesis by blast
  qed
qed simp

text \<open>The entry of an inode info is found if no other entry of the table refers to the same info.\<close>

lemma remove_ok:
  assumes ok: "itable_ok t" and r: "itable_map t (tii_ino tii) = Some r" "tir_tii r = Some a"
    and uniq: "\<And>j q. itable_map t j = Some q \<Longrightarrow> tir_tii q = Some a \<Longrightarrow> j = tii_ino tii"
  shows "\<exists>t'. itable_remove a tii t = Some t' \<and> itable_ok t' \<and> itable_map t' = (itable_map t)(tii_ino tii := None) \<and>
    icount t = icount t' + 1"
proof -
  define k where "k = itable_slot_of (tii_ino tii)"
  have k: "k < imap_size" by (simp add: k_def)
  have slot: "itable_slot_of (tir_ino q) = k" if "q \<in> set (imap t k)" for q using ok that by (simp add: itable_ok_def)
  have mem: "r \<in> set (imap t k)" using r(1) find_SomeD unfolding itable_map_def k_def by fastforce
  then obtain ps q qs where sp: "imap t k = ps @ q # qs" "tir_tii q = Some a" "remove_chain a (imap t k) = Some (ps @ qs)"
    using remove_chain_split r(2) by blast
  have q: "itable_map t (tir_ino q) = Some q" using itable_map_mem [OF ok] slot [of q] sp(1) by simp
  have qi: "tir_ino q = tii_ino tii" using uniq [OF q sp(2)] .
  define t' where "t' = t\<lparr>imap := (imap t)(k := ps @ qs), icount := icount t - 1\<rparr>"
  have "length (imap t k) \<le> (\<Sum>j<imap_size. length (imap t j))"
    using k by (intro member_le_sum) simp_all
  then have pos: "0 < icount t" using ok sp(1) by (simp add: itable_ok_def)
  have rm: "itable_remove a tii t = Some t'"
    unfolding itable_remove_def Let_def k_def [symmetric] using pos sp by (simp add: t'_def)
  have d: "distinct (map tir_ino (ps @ q # qs))" using ok sp(1) by (metis itable_ok_def)
  have "(\<Sum>j<imap_size. length (((imap t)(k := ps @ qs)) j)) + 1 = icount t"
    using sum_slot [OF k, of "imap t" "ps @ qs"] ok sp(1) by (simp add: itable_ok_def)
  moreover have "\<forall>j. \<forall>x\<in>set (((imap t)(k := ps @ qs)) j). itable_slot_of (tir_ino x) = j"
    "\<forall>j. distinct (map tir_ino (((imap t)(k := ps @ qs)) j))"
    using ok sp(1) d slot by (auto simp: itable_ok_def)
  ultimately have "itable_ok t'" by (simp add: itable_ok_def t'_def)
  moreover have "itable_map t' = (itable_map t)(tii_ino tii := None)"
  proof
    fix j show "itable_map t' j = ((itable_map t)(tii_ino tii := None)) j"
    proof (cases "itable_slot_of j = k")
      case False
      then show ?thesis by (auto simp: itable_map_def t'_def k_def)
    next
      case True
      then have l: "itable_map t' j = find (\<lambda>r. tir_ino r = j) (ps @ qs)" "itable_map t j = find (\<lambda>r. tir_ino r = j) (ps @ q # qs)"
        by (simp_all add: itable_map_def t'_def sp(1))
      show ?thesis
      proof (cases "j = tii_ino tii")
        case True
        then have "find (\<lambda>r. tir_ino r = j) (ps @ qs) = None" using d qi by (fastforce simp: find_None_all image_iff)
        with True l(1) show ?thesis by simp
      qed (use l qi in \<open>simp add: find_append split: option.split\<close>)
    qed
  qed
  ultimately show ?thesis using rm pos by (auto simp: t'_def)
qed

lemma set_tii_ok:
  assumes ok: "itable_ok t" and p: "itable_find t ino = Some p"
  shows "itable_ok (set_tir_tii p a t)"
    "itable_map (set_tir_tii p a t) = (itable_map t)(ino \<mapsto> (tir_at t p)\<lparr>tir_tii := a\<rparr>)"
    "icount (set_tir_tii p a t) = icount t"
proof -
  obtain k i where ki: "p = (k, i)" by (cases p)
  note f = itable_find_Some [OF p] 
  let ?x = "(tir_at t p)\<lparr>tir_tii := a\<rparr>"
  have i: "i < length (imap t k)" "tir_ino (imap t k ! i) = ino" "k = itable_slot_of ino" using f ki by (simp_all add: tir_at_def)
  have m: "map tir_ino ((imap t k)[i := ?x]) = map tir_ino (imap t k)"
    using i f(4) by (metis list_update_id map_update nth_map toyfs_inode_ref.select_convs(3) toyfs_inode_ref.surjective toyfs_inode_ref.update_convs(1))
  have ino: "tir_ino x \<in> tir_ino ` set (imap t k)" if "x \<in> set ((imap t k)[i := ?x])" for x
    using that m by (metis image_eqI image_set)
  show ic: "icount (set_tir_tii p a t) = icount t" by (simp add: set_tir_tii_def)
  have "itable_slot_of (tir_ino x) = j" if "x \<in> set (((imap t)(k := (imap t k)[i := ?x])) j)" for j x
  proof (cases "j = k")
    case True
    with that ino [of x] ok show ?thesis by (auto simp: itable_ok_def)
  qed (use that ok in \<open>auto simp: itable_ok_def\<close>)
  moreover have "distinct (map tir_ino (((imap t)(k := (imap t k)[i := ?x])) j))" for j
    using ok m by (simp add: itable_ok_def)
  moreover have "(\<Sum>j<imap_size. length (((imap t)(k := (imap t k)[i := ?x])) j)) = icount t"
    using sum_slot [of k "imap t" "(imap t k)[i := ?x]"] ok i(3) by (simp add: itable_ok_def)
  ultimately show ok': "itable_ok (set_tir_tii p a t)"
    by (simp add: itable_ok_def set_tir_tii_def ki)
  show "itable_map (set_tir_tii p a t) = (itable_map t)(ino \<mapsto> ?x)"
  proof
    fix j show "itable_map (set_tir_tii p a t) j = ((itable_map t)(ino \<mapsto> ?x)) j"
    proof (cases "j = ino")
      case True
      have "?x \<in> set (imap (set_tir_tii p a t) (itable_slot_of ino))"
        using i by (simp add: set_tir_tii_def ki set_update_memI)
      with itable_map_mem [OF ok'] True f(4) show ?thesis by simp
    next
      case False
      show ?thesis
      proof (cases "itable_slot_of j = k")
        case True
        have "find (\<lambda>r. tir_ino r = j) ((imap t k)[i := ?x]) = find (\<lambda>r. tir_ino r = j) (imap t k)"
          using False i f(4) by (simp add: find_update_other tir_at_def ki)
        with False True show ?thesis by (simp add: itable_map_def set_tir_tii_def ki)
      qed (use False in \<open>simp add: itable_map_def set_tir_tii_def ki\<close>)
    qed
  qed
qed

section \<open>The contract of the table\<close>

fun run_all :: "('x \<Rightarrow> 't \<Rightarrow> 't run) \<Rightarrow> 'x list \<Rightarrow> 't \<Rightarrow> 't run" where
  "run_all f [] t = Some t"
| "run_all f (x # xs) t = do { t' \<leftarrow> f x t; run_all f xs t' }"

text \<open>
  A map from the number \<open>key x\<close> of an object to an entry \<open>view x\<close>; an entry is removed by its owner, which
  has to be unique.
\<close>

locale number_map =
  fixes ok :: "'t \<Rightarrow> bool" and look :: "'t \<Rightarrow> nat \<Rightarrow> 'v option" and cnt :: "'t \<Rightarrow> nat"
    and ins :: "'x \<Rightarrow> 't \<Rightarrow> 't run" and del :: "'x \<Rightarrow> 't \<Rightarrow> 't run"
    and key :: "'x \<Rightarrow> nat" and view :: "'x \<Rightarrow> 'v" and owner :: "'v \<Rightarrow> addr option"
  assumes ins_law: "ok t \<Longrightarrow> look t (key x) = None \<Longrightarrow>
      \<exists>t'. ins x t = Some t' \<and> ok t' \<and> look t' = (look t)(key x \<mapsto> view x) \<and> cnt t' = cnt t + 1"
    and del_law: "ok t \<Longrightarrow> look t (key x) = Some (view x) \<Longrightarrow>
      (\<And>j w. look t j = Some w \<Longrightarrow> owner w = owner (view x) \<Longrightarrow> j = key x) \<Longrightarrow>
      \<exists>t'. del x t = Some t' \<and> ok t' \<and> look t' = (look t)(key x := None) \<and> cnt t = cnt t' + 1"
begin

definition holds :: "'x set \<Rightarrow> 't \<Rightarrow> bool" where
  "holds A t = (ok t \<and> finite A \<and> cnt t = card A \<and> inj_on key A \<and> inj_on (owner \<circ> view) A \<and>
    (\<forall>x\<in>A. look t (key x) = Some (view x)) \<and> (\<forall>n. n \<notin> key ` A \<longrightarrow> look t n = None))"

lemma ins_holds:
  assumes h: "holds A t" and inj: "inj_on key (insert x A)" "inj_on (owner \<circ> view) (insert x A)" and x: "x \<notin> A"
  shows "\<exists>t'. ins x t = Some t' \<and> holds (insert x A) t'"
proof -
  have n: "key x \<notin> key ` A" using inj(1) x by (auto simp: inj_on_def)
  then have "look t (key x) = None" using h by (simp add: holds_def)
  with ins_law [of t x] h obtain t' where t': "ins x t = Some t'" "ok t'" "look t' = (look t)(key x \<mapsto> view x)" "cnt t' = cnt t + 1"
    by (auto simp: holds_def)
  have "look t' (key y) = Some (view y)" if "y \<in> insert x A" for y
    using that h n t'(3) by (cases "y = x") (auto simp: holds_def)
  then have "holds (insert x A) t'" using h inj x t'(2-4) by (simp add: holds_def)
  with t'(1) show ?thesis by blast
qed

lemma del_holds:
  assumes h: "holds A t" and x: "x \<in> A"
  shows "\<exists>t'. del x t = Some t' \<and> holds (A - {x}) t'"
proof -
  have inj: "inj_on key A" "inj_on (owner \<circ> view) A" and l: "look t (key x) = Some (view x)" using h x by (auto simp: holds_def)
  have uniq: "j = key x" if "look t j = Some w" "owner w = owner (view x)" for j w
  proof -
    from h that(1) have "j \<in> key ` A" by (cases "j \<in> key ` A") (simp_all add: holds_def)
    then obtain y where y: "y \<in> A" "j = key y" by (rule imageE)
    from h y(1) have "look t j = Some (view y)" by (simp add: holds_def y(2))
    with that have "(owner \<circ> view) y = (owner \<circ> view) x" by simp
    then have "y = x" by (rule inj_onD [OF inj(2) _ y(1) x])
    with y show ?thesis by simp
  qed
  have ok: "ok t" using h by (simp add: holds_def)
  from del_law [OF ok l] uniq obtain t' where t': "del x t = Some t'" "ok t'" "look t' = (look t)(key x := None)" "cnt t = cnt t' + 1"
    by blast
  have ne: "key y \<noteq> key x" if "y \<in> A" "y \<noteq> x" for y using inj(1) x that by (auto simp: inj_on_def)
  have "inj_on key (A - {x})" "inj_on (owner \<circ> view) (A - {x})" using inj inj_on_diff by metis+
  moreover have "card (A - {x}) = cnt t'"
  proof -
    have "card A = cnt t' + 1" "finite A" using h t'(4) by (simp_all add: holds_def)
    with x show ?thesis by simp
  qed
  moreover have "n \<notin> key ` (A - {x}) \<Longrightarrow> look t' n = None" for n using h t'(3) by (cases "n = key x") (auto simp: holds_def)
  moreover have "\<forall>y\<in>A - {x}. look t' (key y) = Some (view y)" using h t'(3) ne by (simp add: holds_def)
  ultimately have "holds (A - {x}) t'" using h t'(2) by (simp add: holds_def)
  with t'(1) show ?thesis by blast
qed

lemma ins_all_holds:
  "holds A t \<Longrightarrow> distinct xs \<Longrightarrow> set xs \<inter> A = {} \<Longrightarrow> inj_on key (A \<union> set xs) \<Longrightarrow> inj_on (owner \<circ> view) (A \<union> set xs) \<Longrightarrow>
   \<exists>t'. run_all ins xs t = Some t' \<and> holds (A \<union> set xs) t'"
proof (induction xs arbitrary: A t)
  case (Cons x xs)
  have inj: "inj_on key (insert x A)" "inj_on (owner \<circ> view) (insert x A)"
    by (rule inj_on_subset [OF Cons.prems(4)], simp, blast) (rule inj_on_subset [OF Cons.prems(5)], simp, blast)
  have "x \<notin> A" using Cons.prems(3) by simp
  from ins_holds [OF Cons.prems(1) inj this] obtain t1 where t1: "ins x t = Some t1" "holds (insert x A) t1" by blast
  from Cons.IH [OF t1(2)] Cons.prems(2-5) show ?case by (simp add: t1(1))
qed auto

lemma del_all_holds:
  "holds A t \<Longrightarrow> distinct xs \<Longrightarrow> set xs \<subseteq> A \<Longrightarrow> \<exists>t'. run_all del xs t = Some t' \<and> holds (A - set xs) t'"
proof (induction xs arbitrary: A t)
  case (Cons x xs)
  from del_holds [OF Cons.prems(1)] Cons.prems(3) obtain t1 where t1: "del x t = Some t1" "holds (A - {x}) t1" by auto
  from Cons.IH [OF t1(2)] Cons.prems(2,3) have "\<exists>t'. run_all del xs t1 = Some t' \<and> holds (A - {x} - set xs) t'" by auto
  moreover have "A - {x} - set xs = A - set (x # xs)" by auto
  ultimately show ?case by (simp add: t1(1))
qed auto

end

definition tir_of :: "addr \<times> toyfs_inode_info \<Rightarrow> toyfs_inode_ref" where
  "tir_of x = \<lparr>tir_tii = Some (fst x), tir_ti = tii_ti (snd x), tir_ino = tii_ino (snd x)\<rparr>"

interpretation itab: number_map itable_ok itable_map icount "\<lambda>x. itable_insert True (fst x) (snd x)"
    "\<lambda>x. itable_remove (fst x) (snd x)" "\<lambda>x. tii_ino (snd x)" tir_of tir_tii
proof (unfold_locales, goal_cases)
  case (1 t x)
  then show ?case using insert_ok [OF 1 insert_Some] by (simp add: insert_Some tir_of_def)
next
  case (2 t x)
  show ?case by (rule remove_ok [OF 2(1,2)]) (use 2(3) in \<open>auto simp: tir_of_def\<close>)
qed

text \<open>
  C20. The inode table behaves as a map. After any sequence of insertions of inode infos at different
  addresses and with different numbers into a fresh table, the search finds exactly the numbers
  inserted, each with its own entry, and the count is right; removing any of them afterwards succeeds
  (no assertion of the code fails) and leaves exactly the others.
\<close>

theorem itable_refines_map:
  assumes d: "distinct xs" "inj_on (\<lambda>x. tii_ino (snd x)) (set xs)" "inj_on fst (set xs)"
    and ys: "distinct ys" "set ys \<subseteq> set xs"
  shows "\<exists>t1 t2. run_all (\<lambda>x. itable_insert True (fst x) (snd x)) xs (itable_init t) = Some t1 \<and>
    (\<forall>x\<in>set xs. \<exists>p. itable_find t1 (tii_ino (snd x)) = Some p \<and> tir_at t1 p = tir_of x) \<and>
    (\<forall>ino. ino \<notin> (\<lambda>x. tii_ino (snd x)) ` set xs \<longrightarrow> itable_find t1 ino = None) \<and> icount t1 = length xs \<and>
    run_all (\<lambda>x. itable_remove (fst x) (snd x)) ys t1 = Some t2 \<and>
    (\<forall>x\<in>set xs - set ys. \<exists>p. itable_find t2 (tii_ino (snd x)) = Some p \<and> tir_at t2 p = tir_of x) \<and>
    (\<forall>ino. ino \<notin> (\<lambda>x. tii_ino (snd x)) ` (set xs - set ys) \<longrightarrow> itable_find t2 ino = None) \<and>
    icount t2 = length xs - length ys"
proof -
  have h0: "itab.holds {} (itable_init t)"
    using init_ok by (simp add: itab.holds_def) (simp add: itable_init_def)
  have inj: "inj_on (tir_tii \<circ> tir_of) (set xs)" using d(3) by (auto simp: inj_on_def tir_of_def)
  from itab.ins_all_holds [OF h0 d(1)] d(2) inj obtain t1 where
    t1: "run_all (\<lambda>x. itable_insert True (fst x) (snd x)) xs (itable_init t) = Some t1" "itab.holds (set xs) t1" by auto
  from itab.del_all_holds [OF t1(2) ys] obtain t2 where
    t2: "run_all (\<lambda>x. itable_remove (fst x) (snd x)) ys t1 = Some t2" "itab.holds (set xs - set ys) t2" by auto
  have found: "\<exists>p. itable_find u (tii_ino (snd x)) = Some p \<and> tir_at u p = tir_of x" if "itab.holds A u" "x \<in> A" for A u x
  proof -
    from that have m: "itable_map u (tii_ino (snd x)) = Some (tir_of x)" by (simp add: itab.holds_def)
    then obtain p where p: "itable_find u (tii_ino (snd x)) = Some p" 
      using itable_find_None [of u "tii_ino (snd x)"] by (cases "itable_find u (tii_ino (snd x))") simp_all
    with itable_find_Some(3) [OF p] m show ?thesis by simp
  qed
  have miss: "itable_find u ino = None" if "itab.holds A u" "ino \<notin> (\<lambda>x. tii_ino (snd x)) ` A" for A u ino
    using that by (simp add: itab.holds_def itable_find_None)
  have c: "card (set xs - set ys) = length xs - length ys" "icount t1 = length xs"
    using ys d(1) t1(2) by (simp_all add: card_Diff_subset distinct_card itab.holds_def)
  have c2: "icount t2 = length xs - length ys" using c(1) t2(2) by (simp add: itab.holds_def)
  show ?thesis
    using found [OF t1(2)] found [OF t2(2)] miss [OF t1(2)] miss [OF t2(2)] t1(1) t2(1) c(2) c2
    by (intro exI [of _ t1] exI [of _ t2]) simp
qed

definition sample_info :: "nat \<Rightarrow> toyfs_inode_info" where
  "sample_info n = \<lparr>tii_op = True, tii_zi = Some (128 * n), tii_sbi = True, tii_ti = Some (128 * n), tii_ino = n,
     imagic = 0, tii_ref = 1, tii_mapped = True, tii_valid = True\<rparr>"

theorem itable_refines_map_witness:
  "\<exists>t1 t2. run_all (\<lambda>x. itable_insert True (fst x) (snd x)) [(500, sample_info 2), (600, sample_info 33379)]
      (itable_init \<lparr>icount = 7, imap = (\<lambda>_. [])\<rparr>) = Some t1 \<and>
    run_all (\<lambda>x. itable_remove (fst x) (snd x)) [(500, sample_info 2)] t1 = Some t2 \<and>
    itable_find t2 2 = None \<and> (\<exists>p. itable_find t2 33379 = Some p \<and> tir_tii (tir_at t2 p) = Some 600)"
  using itable_refines_map [of "[(500, sample_info 2), (600, sample_info 33379)]" "[(500, sample_info 2)]" "\<lparr>icount = 7, imap = (\<lambda>_. [])\<rparr>"]
  by (auto simp: sample_info_def tir_of_def)

end
