(* ===== verification/ZusStd.thy ===== *)
theory ZusStd
  imports ToyState
begin

text \<open>
  The inline functions of \<open>zus.h\<close>: link counts, time stamps, super block flags, the flag word and the
  reference counts of a page, and the translation between the pages of the page allocator and their
  addresses. \<open>unsigned long\<close> is a 64 bit word, \<open>int\<close> a 32 bit word.
\<close>

section \<open>Link counts of the POSIX helpers\<close>

definition le32_add :: "32 word \<Rightarrow> int \<Rightarrow> 32 word" where
  "le32_add val add = val + of_int add"

definition zi_ino :: "toyfs_inode \<Rightarrow> nat" where
  "zi_ino zi = i_ino zi"

text \<open>The two inodes may be the same object, so the helpers update the inode heap in the order of the code.\<close>

definition zus_std_new_dir :: "addr \<Rightarrow> addr \<Rightarrow> toyfs_sb_info \<Rightarrow> toyfs_sb_info" where
  "zus_std_new_dir dir_zi zi s =
    upd_inode zi (\<lambda>r. r\<lparr>i_dir_parent := i_ino (h_inode s dir_zi), i_nlink := 1\<rparr>) s"

definition zus_std_add_dentry :: "addr \<Rightarrow> addr \<Rightarrow> toyfs_sb_info \<Rightarrow> toyfs_sb_info" where
  "zus_std_add_dentry dir_zi zi s =
    (let s1 = upd_inode zi (\<lambda>r. r\<lparr>i_nlink := le32_add (i_nlink r) 1\<rparr>) s
     in if zi_isdir (h_inode s1 zi)
        then upd_inode dir_zi (\<lambda>r. r\<lparr>i_nlink := le32_add (i_nlink r) 1\<rparr>) s1
        else s1)"

definition zus_std_remove_dentry :: "addr \<Rightarrow> addr \<Rightarrow> toyfs_sb_info \<Rightarrow> toyfs_sb_info" where
  "zus_std_remove_dentry dir_zi zi s =
    (let s1 = (if zi_isdir (h_inode s zi)
               then upd_inode dir_zi (\<lambda>r. r\<lparr>i_nlink := le32_add (i_nlink r) (-1)\<rparr>)
                     (upd_inode zi (\<lambda>r. r\<lparr>i_nlink := le32_add (i_nlink r) (-1)\<rparr>) s)
               else s)
     in upd_inode zi (\<lambda>r. r\<lparr>i_nlink := le32_add (i_nlink r) (-1)\<rparr>) s1)"

section \<open>Time stamps\<close>

abbreviation NSEC_PER_SEC :: int where "NSEC_PER_SEC \<equiv> 1000000000"

record timespec =
  tv_sec :: int
  tv_nsec :: int

text \<open>The quotient and the remainder; the latter is stored into a \<open>__u32\<close>.\<close>

definition z_div_s64_rem :: "int \<Rightarrow> int \<Rightarrow> int \<times> int" where
  "z_div_s64_rem x y = (x sdiv y, (x smod y) mod 2 ^ 32)"

definition timespec_to_zt :: "timespec \<Rightarrow> nat" where
  "timespec_to_zt t = cast_size (tv_sec t * NSEC_PER_SEC + tv_nsec t)"

definition zt_to_timespec :: "nat \<Rightarrow> timespec" where
  "zt_to_timespec mt =
    (let (q, nsec) = z_div_s64_rem (cast_loff mt) NSEC_PER_SEC in \<lparr>tv_sec = q, tv_nsec = nsec\<rparr>)"

section \<open>Super block flags\<close>

text \<open>\<open>1 << flag\<close> is an \<open>int\<close> and is sign extended; the result of the test is truncated to \<open>int\<close>.\<close>

definition zus_sbi_set_flag :: "64 word \<Rightarrow> nat \<Rightarrow> 64 word" where
  "zus_sbi_set_flag flags flag = flags OR scast (push_bit flag (1 :: 32 word))"

definition zus_sbi_test_flag :: "64 word \<Rightarrow> nat \<Rightarrow> 32 word" where
  "zus_sbi_test_flag flags flag = ucast (flags AND push_bit flag 1)"

text \<open>Mount options: the bytes at \<open>*buffer\<close>, the size counter and the return value. \<open>mo_max\<close> stands for
  \<open>ZUFS_MO_MAX\<close> of \<open>zus_api.h\<close>.\<close>

definition buf_puts :: "nat \<Rightarrow> byte list \<times> nat \<Rightarrow> byte list \<Rightarrow> nat \<times> (byte list \<times> nat)" where
  "buf_puts mo_max bs opt =
    (let (buffer, sz) = bs; len = length opt in
     if sz + len > mo_max then (0, (buffer, sz)) else (len, (buffer @ opt, sz + len)))"

section \<open>The flag word of a page\<close>

definition zus_bit_mask :: "nat \<Rightarrow> 64 word" where
  "zus_bit_mask nr = push_bit (nr mod 64) 1"

definition zus_bit_word :: "nat \<Rightarrow> nat" where
  "zus_bit_word nr = nr div 64"

text \<open>\<open>addr\<close> points to an array of words.\<close>

definition zus_test_bit :: "nat \<Rightarrow> (nat \<Rightarrow> 64 word) \<Rightarrow> bool" where
  "zus_test_bit nr a = (1 AND drop_bit (nr mod 64) (a (zus_bit_word nr)) = 1)"

definition zus_set_bit :: "nat \<Rightarrow> (nat \<Rightarrow> 64 word) \<Rightarrow> (nat \<Rightarrow> 64 word)" where
  "zus_set_bit nr a = a(zus_bit_word nr := a (zus_bit_word nr) OR zus_bit_mask nr)"

definition zus_clear_bit :: "nat \<Rightarrow> (nat \<Rightarrow> 64 word) \<Rightarrow> (nat \<Rightarrow> 64 word)" where
  "zus_clear_bit nr a = a(zus_bit_word nr := a (zus_bit_word nr) AND NOT (zus_bit_mask nr))"

record pa_page =
  pg_flags :: "64 word"
  pg_use_count :: "32 word"
  pg_refcount :: "32 word"
  pg_index :: nat
  pg_owner :: nat
  pg_slab_uc :: "32 word"      \<comment> \<open>\<open>sinfo\<close>, in a union with \<open>list\<close>\<close>
  pg_slab_cpu :: "32 word"
  pg_private :: nat
  pg_private2 :: nat

text \<open>The flags of a page are one word: bit numbers are below 64.\<close>

definition zus_test_pf :: "pa_page \<Rightarrow> nat \<Rightarrow> bool" where
  "zus_test_pf p nr = zus_test_bit nr (\<lambda>_. pg_flags p)"

definition zus_set_pf :: "pa_page \<Rightarrow> nat \<Rightarrow> pa_page" where
  "zus_set_pf p nr = p\<lparr>pg_flags := zus_set_bit nr (\<lambda>_. pg_flags p) (zus_bit_word nr)\<rparr>"

definition zus_clear_pf :: "pa_page \<Rightarrow> nat \<Rightarrow> pa_page" where
  "zus_clear_pf p nr = p\<lparr>pg_flags := zus_clear_bit nr (\<lambda>_. pg_flags p) (zus_bit_word nr)\<rparr>"

definition get_bit_range :: "64 word \<Rightarrow> nat \<Rightarrow> 64 word \<Rightarrow> 64 word" where
  "get_bit_range x start_bit m = drop_bit start_bit (x AND m)"

definition set_bit_range :: "64 word \<Rightarrow> nat \<Rightarrow> 64 word \<Rightarrow> 64 word \<Rightarrow> 64 word" where
  "set_bit_range x start_bit m val = (x AND NOT m) OR push_bit start_bit val"

abbreviation ZONE_SHIFT :: nat where "ZONE_SHIFT \<equiv> 60"
abbreviation ZONE_MASK :: "64 word" where "ZONE_MASK \<equiv> push_bit 60 (mask 4)"
abbreviation NODES_PGSHIFT :: nat where "NODES_PGSHIFT \<equiv> 56"
abbreviation NODES_MASK :: "64 word" where "NODES_MASK \<equiv> push_bit 56 (mask 4)"

definition pa_set_page_zone :: "pa_page \<Rightarrow> 32 word \<Rightarrow> pa_page" where
  "pa_set_page_zone page zone =
    page\<lparr>pg_flags := set_bit_range (pg_flags page) ZONE_SHIFT ZONE_MASK (scast zone)\<rparr>"

definition pa_page_zone :: "pa_page \<Rightarrow> 32 word" where
  "pa_page_zone page = ucast (get_bit_range (pg_flags page) ZONE_SHIFT ZONE_MASK)"

definition pa_page_nid_set :: "pa_page \<Rightarrow> 64 word \<Rightarrow> pa_page" where
  "pa_page_nid_set page node =
    page\<lparr>pg_flags := set_bit_range (pg_flags page) NODES_PGSHIFT NODES_MASK node\<rparr>"

definition pa_page_to_nid :: "pa_page \<Rightarrow> 32 word" where
  "pa_page_to_nid page = ucast (get_bit_range (pg_flags page) NODES_PGSHIFT NODES_MASK)"

section \<open>Reference counts\<close>

text \<open>
  \<open>_zu_atomic_add_unless\<close> retries a compare-and-exchange. \<open>seen\<close> lists what the memory cell holds at
  each attempt: other threads may change it in between. The result is the value returned and, when the exchange
  took place, the value stored; \<open>None\<close> when the attempts listed do not suffice.
\<close>

fun add_unless_loop :: "32 word \<Rightarrow> 32 word \<Rightarrow> 32 word \<Rightarrow> 32 word list \<Rightarrow> (32 word \<times> 32 word option) option" where
  "add_unless_loop c a u [] = (if c \<noteq> u then None else Some (c, None))"
| "add_unless_loop c a u (m # seen) =
    (if c \<noteq> u then if m = c then Some (c, Some (c + a)) else add_unless_loop m a u seen
     else Some (c, None))"

definition zu_atomic_add_unless :: "32 word list \<Rightarrow> 32 word \<Rightarrow> 32 word \<Rightarrow> (32 word \<times> 32 word option) option" where
  "zu_atomic_add_unless seen a u =
    (case seen of [] \<Rightarrow> None | c # seen' \<Rightarrow> add_unless_loop c a u seen')"

text \<open>An operation on a page that no other thread touches sees the value in memory at each access.\<close>

definition pa_get_page :: "pa_page \<Rightarrow> 32 word \<times> pa_page" where
  "pa_get_page page =
    (case zu_atomic_add_unless [pg_refcount page, pg_refcount page] 1 0 of
       Some (r, Some v) \<Rightarrow> (r, page\<lparr>pg_refcount := v\<rparr>)
     | Some (r, None) \<Rightarrow> (r, page)
     | None \<Rightarrow> (0, page))"

definition atomic_dec_testzero :: "32 word \<Rightarrow> bool \<times> 32 word" where
  "atomic_dec_testzero v = (v = 1, v - 1)"

definition pa_page_count :: "pa_page \<Rightarrow> 32 word" where
  "pa_page_count page = pg_refcount page"

definition pa_page_count_set :: "pa_page \<Rightarrow> 32 word \<Rightarrow> pa_page" where
  "pa_page_count_set page v = page\<lparr>pg_refcount := v\<rparr>"

definition pa_page_count_inc :: "pa_page \<Rightarrow> 32 word \<times> pa_page" where
  "pa_page_count_inc page = (pg_refcount page + 1, page\<lparr>pg_refcount := pg_refcount page + 1\<rparr>)"

definition pa_page_count_dec :: "pa_page \<Rightarrow> 32 word \<times> pa_page" where
  "pa_page_count_dec page = (pg_refcount page - 1, page\<lparr>pg_refcount := pg_refcount page - 1\<rparr>)"

definition pa_page_use_count :: "pa_page \<Rightarrow> 32 word" where
  "pa_page_use_count page = pg_use_count page"

definition pa_page_use_count_set :: "pa_page \<Rightarrow> 32 word \<Rightarrow> pa_page" where
  "pa_page_use_count_set page v = page\<lparr>pg_use_count := v\<rparr>"

definition pa_page_use_count_inc :: "pa_page \<Rightarrow> 32 word \<times> pa_page" where
  "pa_page_use_count_inc page = (pg_use_count page + 1, page\<lparr>pg_use_count := pg_use_count page + 1\<rparr>)"

definition pa_page_use_count_dec :: "pa_page \<Rightarrow> 32 word \<times> pa_page" where
  "pa_page_use_count_dec page = (pg_use_count page - 1, page\<lparr>pg_use_count := pg_use_count page - 1\<rparr>)"

section \<open>Pages and addresses\<close>

record fba =
  fba_fd :: int
  fba_ptr :: "addr option"
  fba_size :: nat
  fba_orig_ptr :: "addr option"

record pa =
  pa_pages :: addr             \<comment> \<open>\<open>pages.ptr\<close>\<close>
  pa_data :: addr              \<comment> \<open>\<open>data.ptr\<close>\<close>
  pa_head :: "addr list"       \<comment> \<open>the list of free pages\<close>
  pa_size :: nat               \<comment> \<open>in pages\<close>

text \<open>\<open>sizeof(struct pa_page)\<close>: 8 + 4 + 4 + 8 + 8 + 16 + 8 + 8.\<close>

abbreviation SIZEOF_PA_PAGE :: nat where "SIZEOF_PA_PAGE \<equiv> 64"

definition pa_bn_to_page :: "pa \<Rightarrow> nat \<Rightarrow> addr" where
  "pa_bn_to_page p bn = pa_pages p + bn * SIZEOF_PA_PAGE"

definition pa_page_to_bn :: "pa \<Rightarrow> addr \<Rightarrow> nat" where
  "pa_page_to_bn p page = (page - pa_pages p) div SIZEOF_PA_PAGE"

definition pa_page_address :: "pa \<Rightarrow> addr \<Rightarrow> addr" where
  "pa_page_address p page = pa_data p + pa_page_to_bn p page * PAGE_SIZE"

definition pa_valid_addr :: "pa \<Rightarrow> addr \<Rightarrow> bool" where
  "pa_valid_addr p a = (\<not> (a < pa_data p \<or> pa_data p + pa_size p * PAGE_SIZE \<le> a))"

text \<open>\<open>o2p\<close> stands for \<open>md_o2p\<close> of \<open>md.h\<close>.\<close>

definition pa_virt_to_page :: "(nat \<Rightarrow> nat) \<Rightarrow> pa \<Rightarrow> addr \<Rightarrow> addr option" where
  "pa_virt_to_page o2p p a =
    (if \<not> pa_valid_addr p a then None else Some (pa_bn_to_page p (o2p (a - pa_data p))))"

definition pa_addr_to_offset :: "pa \<Rightarrow> addr \<Rightarrow> nat" where
  "pa_addr_to_offset p a = (if \<not> pa_valid_addr p a then 0 else a - pa_data p)"

definition pa_addr :: "pa \<Rightarrow> nat \<Rightarrow> addr option" where
  "pa_addr p offset = (if offset \<noteq> 0 then Some (pa_data p + offset) else None)"

section \<open>Properties\<close>

lemma sdiv_neg: "(a::int) < 0 \<Longrightarrow> 0 < b \<Longrightarrow> a sdiv b = - ((- a) div b)"
  by (simp add: signed_divide_int_def sgn_if)

lemma smod_neg: "(a::int) < 0 \<Longrightarrow> 0 < b \<Longrightarrow> a smod b = - ((- a) mod b)"
  by (simp add: signed_modulo_int_def sgn_if)

text \<open>
  Time stamps. For a normalised \<open>timespec\<close> whose nanoseconds fit 63 bits, converting to the
  64 bit format and back is the identity exactly when the time is not before 1970 or falls on a full second;
  otherwise the remainder of the signed division is negative and wraps in \<open>__u32\<close>.
\<close>

theorem timespec_roundtrip_iff:
  assumes n: "0 \<le> tv_nsec t" "tv_nsec t < NSEC_PER_SEC"
    and r: "- (2 ^ 63) \<le> tv_sec t * NSEC_PER_SEC" "tv_sec t * NSEC_PER_SEC + tv_nsec t < 2 ^ 63"
  shows "zt_to_timespec (timespec_to_zt t) = t \<longleftrightarrow> 0 \<le> tv_sec t \<or> tv_nsec t = 0"
proof -
  let ?x = "tv_sec t * NSEC_PER_SEC + tv_nsec t"
  have cl: "cast_loff (timespec_to_zt t) = ?x"
    unfolding timespec_to_zt_def by (rule cast_loff_cast_size) (use n r in simp_all)
  have eq: "zt_to_timespec (timespec_to_zt t) = t \<longleftrightarrow>
      ?x sdiv NSEC_PER_SEC = tv_sec t \<and> (?x smod NSEC_PER_SEC) mod 2 ^ 32 = tv_nsec t"
    unfolding zt_to_timespec_def z_div_s64_rem_def cl by (cases t) simp
  show ?thesis
  proof (cases "0 \<le> tv_sec t")
    case True
    then have "?x sdiv NSEC_PER_SEC = tv_sec t" "?x smod NSEC_PER_SEC = tv_nsec t"
      using n by (simp_all add: sdiv_nonneg smod_nonneg)
    then show ?thesis using True n unfolding eq by simp
  next
    case False
    then have neg: "?x < 0" using n by simp
    show ?thesis
    proof (cases "tv_nsec t = 0")
      case True
      then have "?x = - (- tv_sec t * NSEC_PER_SEC)" by simp
      then show ?thesis using neg True unfolding eq by (simp add: sdiv_neg smod_neg)
    next
      case nz: False
      have "(- ?x) div NSEC_PER_SEC < - tv_sec t" using nz n by simp
      then have "?x sdiv NSEC_PER_SEC \<noteq> tv_sec t" using neg by (simp add: sdiv_neg)
      then show ?thesis using nz False unfolding eq by simp
    qed
  qed
qed

theorem timespec_roundtrip_iff_witness:
  "zt_to_timespec (timespec_to_zt \<lparr>tv_sec = -1, tv_nsec = 5\<rparr>) \<noteq> \<lparr>tv_sec = -1, tv_nsec = 5\<rparr>"
  using timespec_roundtrip_iff [of "\<lparr>tv_sec = -1, tv_nsec = 5\<rparr>"] by simp

lemma small_word_bits: "uint (z::'a::len word) < 16 \<Longrightarrow> bit z n \<Longrightarrow> n < 4"
proof (rule ccontr)
  assume a: "uint z < 16" "bit z n" "\<not> n < 4"
  have "take_bit 4 (uint z) = uint z" using a(1) by (simp add: take_bit_int_eq_self_iff)
  then have "\<not> bit (uint z) n" using a(3) by (metis bit_take_bit_iff)
  then show False using a(2) by (simp add: bit_uint_iff bit_imp_le_length)
qed

lemma small_scast:
  assumes "uint (z::32 word) < 16"
  shows "uint (scast z :: 64 word) = uint z" "ucast (scast z :: 64 word) = z"
proof -
  have "signed_take_bit 31 (uint z) = uint z"
    by (rule signed_take_bit_int_eq_self) (use assms order_trans [OF _ uint_ge_0 [of z], of "- 2147483648"] in simp_all)
  then have s: "sint z = uint z" by (simp add: sint_uint)
  have "scast z = (word_of_int (uint z) :: 64 word)" by (metis s scast_eq)
  then show 1: "uint (scast z :: 64 word) = uint z" using assms uint_ge_0 [of z]
    by (simp only: uint_word_of_int) (simp add: mod_pos_pos_trivial)
  show "ucast (scast z :: 64 word) = z" by (metis 1 ucast_eq word_of_int_uint)
qed

lemma get_set_bit_range:
  assumes "uint z < 16" "sb \<le> 60"
  shows "get_bit_range (set_bit_range x sb (push_bit sb (mask 4)) z) sb (push_bit sb (mask 4)) = z"
proof (rule bit_word_eqI)
  fix n assume "n < LENGTH(64)"
  then show "bit (get_bit_range (set_bit_range x sb (push_bit sb (mask 4)) z) sb (push_bit sb (mask 4))) n = bit z n"
    using small_word_bits [OF assms(1), of n] assms(2)
    by (auto simp: get_bit_range_def set_bit_range_def bit_simps)
qed

lemma set_bit_range_other:
  assumes "uint z < 16" "sb + 4 \<le> n \<or> n < sb"
  shows "bit (set_bit_range x sb (push_bit sb (mask 4)) z) n = bit x n"
  using small_word_bits [OF assms(1), of "n - sb"] assms(2)
  by (auto simp: set_bit_range_def bit_simps dest: bit_imp_le_length)

lemma get_bit_range_cong:
  assumes "\<And>n. sb \<le> n \<Longrightarrow> n < sb + 4 \<Longrightarrow> bit x n = bit y n"
  shows "get_bit_range x sb (push_bit sb (mask 4)) = get_bit_range y sb (push_bit sb (mask 4))"
  by (rule bit_word_eqI) (use assms in \<open>auto simp: get_bit_range_def bit_simps\<close>)

lemma zus_test_pf_bit: "n < 64 \<Longrightarrow> zus_test_pf p n = bit (pg_flags p) n"
  by (simp add: zus_test_pf_def zus_test_bit_def bit_iff_odd_drop_bit one_and_eq mod_2_eq_odd)

text \<open>
  Page flags. Setting a zone or a node number below 16 in the flag word of a page makes the
  getter return it, and leaves the other number and all flag bits below bit 56 as they were.
\<close>

theorem page_zone_nid_fields:
  assumes z: "z < 16" and m: "m < 16"
  shows "pa_page_zone (pa_set_page_zone p z) = z \<and> pa_page_to_nid (pa_set_page_zone p z) = pa_page_to_nid p \<and>
    pa_page_to_nid (pa_page_nid_set p m) = ucast m \<and> pa_page_zone (pa_page_nid_set p m) = pa_page_zone p \<and>
    (\<forall>n<56. zus_test_pf (pa_set_page_zone p z) n = zus_test_pf p n \<and>
            zus_test_pf (pa_page_nid_set p m) n = zus_test_pf p n)"
proof -
  have z': "uint (scast z :: 64 word) < 16" "ucast (scast z :: 64 word) = z" and m': "uint m < 16"
    using z m small_scast [of z] by (simp_all add: word_less_def)
  have zone: "get_bit_range (set_bit_range x 60 ZONE_MASK (scast z)) 60 ZONE_MASK = scast z"
    and nid: "get_bit_range (set_bit_range x 56 NODES_MASK m) 56 NODES_MASK = m" for x
    using get_set_bit_range [OF z'(1), of 60] get_set_bit_range [OF m', of 56] by simp_all
  have "get_bit_range (set_bit_range x 60 ZONE_MASK (scast z)) 56 NODES_MASK = get_bit_range x 56 NODES_MASK"
    "get_bit_range (set_bit_range x 56 NODES_MASK m) 60 ZONE_MASK = get_bit_range x 60 ZONE_MASK" for x
    using set_bit_range_other [OF z'(1), of 60] set_bit_range_other [OF m', of 56]
    by (auto intro!: get_bit_range_cong)
  moreover have "bit (set_bit_range x 60 ZONE_MASK (scast z)) n = bit x n"
    "bit (set_bit_range x 56 NODES_MASK m) n = bit x n" if "n < 56" for x n
    using set_bit_range_other [OF z'(1), of 60 n] set_bit_range_other [OF m', of 56 n] that by auto
  ultimately show ?thesis
    using zone nid z'(2)
    by (simp add: pa_page_zone_def pa_set_page_zone_def pa_page_to_nid_def pa_page_nid_set_def zus_test_pf_bit)
qed

theorem page_zone_nid_fields_witness:
  "pa_page_zone (pa_set_page_zone \<lparr>pg_flags = 3, pg_use_count = 0, pg_refcount = 1, pg_index = 0, pg_owner = 0,
     pg_slab_uc = 0, pg_slab_cpu = 0, pg_private = 0, pg_private2 = 0\<rparr> 7) = 7"
  using page_zone_nid_fields [of 7 5 "\<lparr>pg_flags = 3, pg_use_count = 0, pg_refcount = 1, pg_index = 0, pg_owner = 0,
     pg_slab_uc = 0, pg_slab_cpu = 0, pg_private = 0, pg_private2 = 0\<rparr>"] by simp


text \<open>
  Compare-and-exchange. When \<open>_zu_atomic_add_unless\<close> returns, it either saw the forbidden
  value and stored nothing, or it returns a value that differs from it, that the cell held at the moment of the exchange, and
  the sum with the addend was stored. So \<open>pa_get_page\<close> returns the reference count from before the increment.
\<close>

theorem atomic_add_unless_correct:
  "(zu_atomic_add_unless seen a u = Some (r, w) \<longrightarrow>
     (case w of None \<Rightarrow> r = u | Some v \<Rightarrow> r \<noteq> u \<and> v = r + a \<and> r \<in> set (tl seen))) \<and>
   pa_get_page p = (pg_refcount p,
     if pg_refcount p = 0 then p else p\<lparr>pg_refcount := pg_refcount p + 1\<rparr>)"
proof
  have "add_unless_loop c a u xs = Some (r, w) \<Longrightarrow>
    (case w of None \<Rightarrow> r = u | Some v \<Rightarrow> r \<noteq> u \<and> v = r + a \<and> r \<in> set xs)" for c xs
    by (induction xs arbitrary: c) (fastforce split: if_splits option.splits)+
  then show "zu_atomic_add_unless seen a u = Some (r, w) \<longrightarrow>
     (case w of None \<Rightarrow> r = u | Some v \<Rightarrow> r \<noteq> u \<and> v = r + a \<and> r \<in> set (tl seen))"
    by (auto simp: zu_atomic_add_unless_def split: list.splits)
qed (simp add: pa_get_page_def zu_atomic_add_unless_def)

theorem atomic_add_unless_correct_witness:
  "zu_atomic_add_unless [3, 4, 4] 1 0 = Some (4, Some 5)"
  using atomic_add_unless_correct [of "[3, 4, 4]" 1 0 4 "Some 5" p] by (simp add: zu_atomic_add_unless_def)

text \<open>
  Pages and addresses of the page allocator. Every address inside the data area belongs to
  the page that \<open>pa_virt_to_page\<close> finds, and the data of that page starts at the address rounded down to
  4096; addresses outside are refused. \<open>md_o2p\<close> divides by the page size.
\<close>

theorem pa_virt_page_roundtrip:
  assumes o2p: "\<And>x. o2p x = x div PAGE_SIZE"
  shows "(\<forall>bn<pa_size p. \<forall>k<PAGE_SIZE.
      pa_virt_to_page o2p p (pa_page_address p (pa_bn_to_page p bn) + k) = Some (pa_bn_to_page p bn) \<and>
      pa_page_to_bn p (pa_bn_to_page p bn) = bn) \<and>
    (pa_virt_to_page o2p p a = None \<longleftrightarrow> \<not> (\<exists>bn<pa_size p. \<exists>k<PAGE_SIZE. a = pa_data p + bn * PAGE_SIZE + k))"
proof -
  have bn: "pa_page_to_bn p (pa_bn_to_page p b) = b" for b by (simp add: pa_page_to_bn_def pa_bn_to_page_def)
  have lt: "b * PAGE_SIZE + k < pa_size p * PAGE_SIZE" if "b < pa_size p" "k < PAGE_SIZE" for b k
  proof -
    have "(b + 1) * PAGE_SIZE \<le> pa_size p * PAGE_SIZE" using that by (intro mult_right_mono) auto
    then show ?thesis using that by simp
  qed
  have "pa_virt_to_page o2p p a \<noteq> None \<longleftrightarrow> (\<exists>b<pa_size p. \<exists>k<PAGE_SIZE. a = pa_data p + b * PAGE_SIZE + k)"
  proof
    assume "pa_virt_to_page o2p p a \<noteq> None"
    then have v: "pa_data p \<le> a" "a - pa_data p < pa_size p * PAGE_SIZE"
      by (auto simp: pa_virt_to_page_def pa_valid_addr_def split: if_splits)
    then have "(a - pa_data p) div PAGE_SIZE < pa_size p" by (simp add: div_less_iff_less_mult)
    moreover have "a = pa_data p + (a - pa_data p) div PAGE_SIZE * PAGE_SIZE + (a - pa_data p) mod PAGE_SIZE"
      using v(1) by simp
    ultimately show "\<exists>b<pa_size p. \<exists>k<PAGE_SIZE. a = pa_data p + b * PAGE_SIZE + k"
      by (metis mod_less_divisor zero_less_numeral)
  next
    assume "\<exists>b<pa_size p. \<exists>k<PAGE_SIZE. a = pa_data p + b * PAGE_SIZE + k"
    then obtain b k where "b < pa_size p" "k < PAGE_SIZE" "a = pa_data p + b * PAGE_SIZE + k" by blast
    with lt [of b k] show "pa_virt_to_page o2p p a \<noteq> None" by (simp add: pa_virt_to_page_def pa_valid_addr_def)
  qed
  moreover have "pa_virt_to_page o2p p (pa_page_address p (pa_bn_to_page p b) + k) = Some (pa_bn_to_page p b)"
    if "b < pa_size p" "k < PAGE_SIZE" for b k
    using lt [OF that] that by (simp add: pa_virt_to_page_def pa_valid_addr_def pa_page_address_def bn o2p)
  ultimately show ?thesis using bn by (cases "pa_virt_to_page o2p p a") simp_all
qed

theorem pa_virt_page_roundtrip_witness:
  "pa_virt_to_page (\<lambda>x. x div 4096) \<lparr>pa_pages = 64, pa_data = 8192, pa_head = [], pa_size = 2\<rparr> 12293 = Some 128"
  using pa_virt_page_roundtrip [of "\<lambda>x. x div 4096" "\<lparr>pa_pages = 64, pa_data = 8192, pa_head = [], pa_size = 2\<rparr>" 0,
      THEN conjunct1, rule_format, of 1 5]
  by (simp add: pa_bn_to_page_def pa_page_address_def pa_page_to_bn_def)

end
