(* ===== verification/DirPage.thy ===== *)
theory DirPage
  imports ToyState
begin

text \<open>
  A page of directory entries (\<open>struct toyfs_dentries\<close> of \<open>toyfs.h\<close> and the functions of \<open>dir.c\<close> that
  work on one page). The page is an array of bytes: 32 bytes of head, then 127 slots of 32 bytes. An
  entry starts at a slot; a name of more than 14 bytes runs on into the following slots. The integers of an
  entry are stored in the byte order of x86-64. A \<open>struct toyfs_dirent *\<close> is a slot number.
\<close>

section \<open>Bytes\<close>

definition pg_copy :: "nat \<Rightarrow> nat \<Rightarrow> (nat \<Rightarrow> byte) \<Rightarrow> (nat \<Rightarrow> byte) \<Rightarrow> nat \<Rightarrow> byte" where
  "pg_copy off len src pg = (\<lambda>i. if off \<le> i \<and> i < off + len then src (i - off) else pg i)"

primrec le_get :: "(nat \<Rightarrow> byte) \<Rightarrow> nat \<Rightarrow> nat \<Rightarrow> nat" where
  "le_get pg off 0 = 0"
| "le_get pg off (Suc n) = unat (pg off) + 256 * le_get (\<lambda>i. pg (Suc i)) off n"

definition le_byte :: "nat \<Rightarrow> nat \<Rightarrow> byte" where
  "le_byte v i = of_nat (v div 256 ^ i)"

lemma le_get_cong: "(\<And>i. off \<le> i \<Longrightarrow> i < off + n \<Longrightarrow> pg i = pg' i) \<Longrightarrow> le_get pg off n = le_get pg' off n"
proof (induction n arbitrary: pg pg')
  case (Suc n)
  have "le_get (\<lambda>i. pg (Suc i)) off n = le_get (\<lambda>i. pg' (Suc i)) off n"
    by (rule Suc.IH) (use Suc.prems in simp)
  moreover have "pg off = pg' off" by (rule Suc.prems) simp_all
  ultimately show ?case by simp
qed simp

lemma le_get_le_byte: "le_get (\<lambda>i. le_byte v (i - off)) off n = v mod 256 ^ n"
proof (induction n arbitrary: v)
  case (Suc n)
  have sh: "le_byte v (Suc i - off) = le_byte (v div 256) (i - off)" if "off \<le> i" for i
    using that by (simp add: le_byte_def Suc_diff_le div_mult2_eq)
  have "le_get (\<lambda>i. le_byte v (Suc i - off)) off n = le_get (\<lambda>i. le_byte (v div 256) (i - off)) off n"
    by (rule le_get_cong) (simp add: sh)
  then have "le_get (\<lambda>i. le_byte v (i - off)) off (Suc n) = v mod 256 + 256 * (v div 256 mod 256 ^ n)"
    using Suc.IH [of "v div 256"] by (simp add: le_byte_def unat_of_nat)
  then show ?case by (simp add: mod_mult2_eq [of v 256 "256 ^ n"])
qed simp

lemma le_get_stored:
  assumes "off \<le> o'" "o' + n \<le> off + len" "\<And>i. i < n \<Longrightarrow> src (o' - off + i) = le_byte v i"
  shows "le_get (pg_copy off len src pg) o' n = v mod 256 ^ n"
proof -
  have "le_get (pg_copy off len src pg) o' n = le_get (\<lambda>i. le_byte v (i - o')) o' n"
  proof (rule le_get_cong)
    fix i assume i: "o' \<le> i" "i < o' + n"
    then have "i - off = o' - off + (i - o')" using assms(1) by simp
    then show "pg_copy off len src pg i = le_byte v (i - o')"
      using i assms(1,2) assms(3) [of "i - o'"] by (simp add: pg_copy_def)
  qed
  then show ?thesis by (simp add: le_get_le_byte)
qed

section \<open>Fields of an entry\<close>

abbreviation NR_DE :: nat where "NR_DE \<equiv> 127"   \<comment> \<open>\<open>ARRAY_SIZE(dentries->de)\<close>\<close>

definition de_pos :: "nat \<Rightarrow> nat" where "de_pos i = 32 + 32 * i"

definition d_off :: "(nat \<Rightarrow> byte) \<Rightarrow> nat \<Rightarrow> int" where "d_off pg i = cast_loff (le_get pg (de_pos i) 8)"
definition d_ino :: "(nat \<Rightarrow> byte) \<Rightarrow> nat \<Rightarrow> nat" where "d_ino pg i = le_get pg (de_pos i + 8) 8"
definition d_type :: "(nat \<Rightarrow> byte) \<Rightarrow> nat \<Rightarrow> nat" where "d_type pg i = unat (pg (de_pos i + 16))"
definition d_nlen :: "(nat \<Rightarrow> byte) \<Rightarrow> nat \<Rightarrow> nat" where "d_nlen pg i = unat (pg (de_pos i + 17))"
definition d_name :: "(nat \<Rightarrow> byte) \<Rightarrow> nat \<Rightarrow> nat \<Rightarrow> byte" where "d_name pg i k = pg (de_pos i + 18 + k)"

record zufs_str =
  str_len :: nat
  str_name :: "nat \<Rightarrow> byte"

definition namelen_to_nde :: "nat \<Rightarrow> nat" where
  "namelen_to_nde nlen = (if nlen > 14 then 1 + (nlen - 14 + 32 - 1) div 32 else 1)"

lemma namelen_to_nde_pos [simp]: "0 < namelen_to_nde n"
  by (simp add: namelen_to_nde_def)

lemma nde_step [simp]: "i < e \<Longrightarrow> e - (i + namelen_to_nde n) < e - i"
  using namelen_to_nde_pos [of n] by linarith

lemma namelen_fits: "18 + nlen \<le> 32 * namelen_to_nde nlen"
  by (simp add: namelen_to_nde_def) linarith

lemma namelen_to_nde_le: "nlen < 256 \<Longrightarrow> namelen_to_nde nlen \<le> 9"
  by (simp add: namelen_to_nde_def) linarith

text \<open>\<open>IFTODT\<close> of \<open>dirent.h\<close>.\<close>

definition iftodt :: "16 word \<Rightarrow> byte" where
  "iftodt mode = ucast (drop_bit 12 (mode AND S_IFMT))"

text \<open>The stores of \<open>_set_dirent\<close> in their order; \<open>d_nlen\<close> is a byte.\<close>

definition set_dirent :: "nat \<Rightarrow> (nat \<Rightarrow> byte) \<Rightarrow> nat \<Rightarrow> nat \<Rightarrow> 16 word \<Rightarrow> int \<Rightarrow> (nat \<Rightarrow> byte) \<Rightarrow> nat \<Rightarrow> byte" where
  "set_dirent i name nlen ino mode off pg =
    (let nde = namelen_to_nde nlen;
         pg = pg_copy (de_pos i) (nde * 32) (\<lambda>_. 0) pg;
         pg = pg_copy (de_pos i + 18) nlen name pg;
         pg = pg(de_pos i + 17 := of_nat nlen);
         pg = pg_copy (de_pos i + 8) 8 (le_byte ino) pg;
         pg = pg(de_pos i + 16 := iftodt mode)
     in pg_copy (de_pos i) 8 (le_byte (cast_size off)) pg)"

definition is_active :: "(nat \<Rightarrow> byte) \<Rightarrow> nat \<Rightarrow> bool" where
  "is_active pg i = (d_nlen pg i > 0 \<and> d_ino pg i \<noteq> 0)"

text \<open>\<open>strncmp(a, b, n) == 0\<close>: the comparison ends at a zero byte.\<close>

fun strncmp_eq :: "(nat \<Rightarrow> byte) \<Rightarrow> (nat \<Rightarrow> byte) \<Rightarrow> nat \<Rightarrow> bool" where
  "strncmp_eq a b 0 = True"
| "strncmp_eq a b (Suc n) =
    (if a 0 \<noteq> b 0 then False else if a 0 = 0 then True
     else strncmp_eq (\<lambda>i. a (Suc i)) (\<lambda>i. b (Suc i)) n)"

definition hasname :: "(nat \<Rightarrow> byte) \<Rightarrow> nat \<Rightarrow> zufs_str \<Rightarrow> bool" where
  "hasname pg i str =
    (d_nlen pg i = str_len str \<and> strncmp_eq (d_name pg i) (str_name str) (d_nlen pg i))"

definition next_dirent :: "(nat \<Rightarrow> byte) \<Rightarrow> nat \<Rightarrow> nat" where
  "next_dirent pg i = i + (if is_active pg i then namelen_to_nde (d_nlen pg i) else 1)"

function count_free_de :: "(nat \<Rightarrow> byte) \<Rightarrow> nat \<Rightarrow> nat" where
  "count_free_de pg itr =
    (if itr < NR_DE then if d_nlen pg itr \<noteq> 0 then 0 else 1 + count_free_de pg (itr + 1) else 0)"
  by pat_completeness auto
termination
  by (relation "measure (\<lambda>(pg, itr). NR_DE - itr)") auto

declare count_free_de.simps [simp del]

function search_free_from :: "(nat \<Rightarrow> byte) \<Rightarrow> nat \<Rightarrow> nat \<Rightarrow> nat option" where
  "search_free_from pg required itr =
    (if itr < NR_DE then
       let count = count_free_de pg itr in
       if count \<ge> required then Some itr
       else search_free_from pg required
              (itr + (if count \<noteq> 0 then count else namelen_to_nde (d_nlen pg itr)))
     else None)"
  by pat_completeness auto
termination
  by (relation "measure (\<lambda>(pg, r, itr). NR_DE - itr)") auto

definition search_free :: "(nat \<Rightarrow> byte) \<Rightarrow> nat \<Rightarrow> nat option" where
  "search_free pg nlen = search_free_from pg (namelen_to_nde nlen) 0"

function find_dirent_from :: "(nat \<Rightarrow> byte) \<Rightarrow> zufs_str \<Rightarrow> nat \<Rightarrow> nat option" where
  "find_dirent_from pg str itr =
    (if itr < NR_DE then
       if hasname pg itr str then Some itr else find_dirent_from pg str (next_dirent pg itr)
     else None)"
  by pat_completeness auto
termination
  by (relation "measure (\<lambda>(pg, str, itr). NR_DE - itr)") (auto simp: next_dirent_def)

definition find_dirent :: "(nat \<Rightarrow> byte) \<Rightarrow> zufs_str \<Rightarrow> nat option" where
  "find_dirent pg str = find_dirent_from pg str 0"

definition reset_dirent :: "nat \<Rightarrow> (nat \<Rightarrow> byte) \<Rightarrow> (nat \<Rightarrow> byte) run" where
  "reset_dirent i pg = do {
     let nde = namelen_to_nde (d_nlen pg i);
     toyfs_assert (d_nlen pg i > 0);
     Some (pg_copy (de_pos i) (nde * 32) (\<lambda>_. 0) pg) }"

declare search_free_from.simps [simp del] find_dirent_from.simps [simp del]

section \<open>The entries of a page\<close>

definition str_bytes :: "zufs_str \<Rightarrow> byte list" where
  "str_bytes str = map (str_name str) [0..<str_len str]"

definition de_name :: "(nat \<Rightarrow> byte) \<Rightarrow> nat \<Rightarrow> byte list" where
  "de_name pg i = map (d_name pg i) [0..<d_nlen pg i]"

definition entry_ok :: "(nat \<Rightarrow> byte) \<Rightarrow> nat \<Rightarrow> bool" where
  "entry_ok pg i = (d_nlen pg i \<noteq> 0 \<and> d_ino pg i \<noteq> 0 \<and> 0 \<notin> set (de_name pg i))"

text \<open>\<open>seg pg i js e\<close>: from slot \<open>i\<close> to slot \<open>e\<close> the page consists of free slots and of the entries at \<open>js\<close>.\<close>

inductive seg :: "(nat \<Rightarrow> byte) \<Rightarrow> nat \<Rightarrow> nat list \<Rightarrow> nat \<Rightarrow> bool" for pg where
  seg_nil: "seg pg i [] i"
| seg_free: "d_nlen pg i = 0 \<Longrightarrow> seg pg (i + 1) js e \<Longrightarrow> seg pg i js e"
| seg_entry: "entry_ok pg i \<Longrightarrow> seg pg (i + namelen_to_nde (d_nlen pg i)) js e \<Longrightarrow> seg pg i (i # js) e"

inductive_cases seg_consE: "seg pg i js e"

function entries :: "(nat \<Rightarrow> byte) \<Rightarrow> nat \<Rightarrow> nat list" where
  "entries pg i =
    (if i < NR_DE then if d_nlen pg i = 0 then entries pg (i + 1)
       else i # entries pg (i + namelen_to_nde (d_nlen pg i))
     else [])"
  by pat_completeness auto
termination
  by (relation "measure (\<lambda>(pg, i). NR_DE - i)") auto

declare entries.simps [simp del]

definition page_ok :: "(nat \<Rightarrow> byte) \<Rightarrow> bool" where
  "page_ok pg = seg pg 0 (entries pg 0) NR_DE"

lemma seg_le: "seg pg i js e \<Longrightarrow> i \<le> e"
  by (induction rule: seg.induct) auto

lemma seg_append: "seg pg i js k \<Longrightarrow> seg pg k ks e \<Longrightarrow> seg pg i (js @ ks) e"
  by (induction rule: seg.induct) (auto intro: seg.intros)

lemma seg_entries: "seg pg i js NR_DE \<Longrightarrow> entries pg i = js"
proof (induction i js "NR_DE" rule: seg.induct)
  case (seg_nil)
  then show ?case by (simp add: entries.simps)
next
  case (seg_free i js)
  then show ?case using seg_le [OF seg_free(2)] by (subst entries.simps) auto
next
  case (seg_entry i js)
  have "i < NR_DE" using seg_le [OF seg_entry(2)] by (simp add: namelen_to_nde_def split: if_splits)
  then show ?case using seg_entry by (subst entries.simps) (auto simp: entry_ok_def)
qed

lemma page_okI: "seg pg 0 js NR_DE \<Longrightarrow> page_ok pg \<and> entries pg 0 = js"
  using seg_entries by (simp add: page_ok_def)

lemma seg_inside: "seg pg i js e \<Longrightarrow> j \<in> set js \<Longrightarrow> i \<le> j \<and> j + namelen_to_nde (d_nlen pg j) \<le> e \<and> entry_ok pg j"
proof (induction rule: seg.induct)
  case (seg_entry i js e)
  then show ?case using seg_le [OF seg_entry(2)] by auto
qed auto

lemma seg_sorted: "seg pg i js e \<Longrightarrow> sorted_wrt (<) js"
proof (induction rule: seg.induct)
  case (seg_entry i js e)
  have "i < j" if "j \<in> set js" for j
    using seg_inside [OF seg_entry(2) that] namelen_to_nde_pos [of "d_nlen pg i"] by linarith
  then show ?case using seg_entry by simp
qed simp_all

text \<open>The fields of an entry that starts inside a range only depend on the bytes of that range.\<close>

definition agree :: "nat \<Rightarrow> nat \<Rightarrow> (nat \<Rightarrow> byte) \<Rightarrow> (nat \<Rightarrow> byte) \<Rightarrow> bool" where
  "agree i e pg pg' = (\<forall>k. de_pos i \<le> k \<and> k < de_pos e \<longrightarrow> pg k = pg' k)"

lemma agree_mono: "agree i e pg pg' \<Longrightarrow> i \<le> i' \<Longrightarrow> e' \<le> e \<Longrightarrow> agree i' e' pg pg'"
  by (auto simp: agree_def de_pos_def)

lemma agree_sym: "agree i e pg pg' \<Longrightarrow> agree i e pg' pg"
  by (simp add: agree_def)

lemma agree_slot:
  assumes "agree i (i + 1) pg pg'"
  shows "d_nlen pg' i = d_nlen pg i" "d_ino pg' i = d_ino pg i" "d_off pg' i = d_off pg i" "d_type pg' i = d_type pg i"
proof -
  have b: "pg' k = pg k" if "de_pos i \<le> k" "k < de_pos i + 32" for k
    using assms that by (simp add: agree_def de_pos_def)
  show "d_nlen pg' i = d_nlen pg i" "d_type pg' i = d_type pg i" by (simp_all add: d_nlen_def d_type_def b)
  show "d_ino pg' i = d_ino pg i" unfolding d_ino_def by (rule le_get_cong) (simp add: b)
  have "le_get pg' (de_pos i) 8 = le_get pg (de_pos i) 8" by (rule le_get_cong) (simp add: b)
  then show "d_off pg' i = d_off pg i" by (simp add: d_off_def)
qed

lemma agree_entry:
  assumes "agree i (i + namelen_to_nde (d_nlen pg i)) pg pg'"
  shows "d_nlen pg' i = d_nlen pg i" "d_ino pg' i = d_ino pg i" "d_off pg' i = d_off pg i"
    "d_type pg' i = d_type pg i" "de_name pg' i = de_name pg i"
proof -
  have 1: "agree i (i + 1) pg pg'" by (rule agree_mono [OF assms]) (simp_all add: Suc_leI)
  show n: "d_nlen pg' i = d_nlen pg i" and "d_ino pg' i = d_ino pg i" "d_off pg' i = d_off pg i" "d_type pg' i = d_type pg i"
    by (rule agree_slot [OF 1])+
  have "de_pos i + 18 + k < de_pos (i + namelen_to_nde (d_nlen pg i))" if "k < d_nlen pg i" for k
    using namelen_fits [of "d_nlen pg i"] that by (simp add: de_pos_def)
  then show "de_name pg' i = de_name pg i"
    using assms by (auto simp: de_name_def n d_name_def agree_def)
qed

lemma agree_entry_ok: "agree i (i + namelen_to_nde (d_nlen pg i)) pg pg' \<Longrightarrow> entry_ok pg' i = entry_ok pg i"
  using agree_entry [of i pg pg'] by (simp add: entry_ok_def)

lemma seg_agree: "seg pg i js e \<Longrightarrow> agree i e pg pg' \<Longrightarrow> seg pg' i js e"
proof (induction rule: seg.induct)
  case (seg_nil i)
  then show ?case by (blast intro: seg.seg_nil)
next
  case (seg_free i js e)
  have "agree i (i + 1) pg pg'" by (rule agree_mono [OF seg_free.prems]) (use seg_le [OF seg_free(2)] in simp_all)
  then have "d_nlen pg' i = 0" using agree_slot(1) seg_free(1) by metis
  moreover have "agree (i + 1) e pg pg'" by (rule agree_mono [OF seg_free.prems]) simp_all
  ultimately show ?case using seg_free.IH by (blast intro: seg.seg_free)
next
  case (seg_entry i js e)
  let ?n = "namelen_to_nde (d_nlen pg i)"
  have a: "agree i (i + ?n) pg pg'" by (rule agree_mono [OF seg_entry.prems]) (use seg_le [OF seg_entry(2)] in simp_all)
  have "agree (i + ?n) e pg pg'" by (rule agree_mono [OF seg_entry.prems]) simp_all
  then have "seg pg' (i + namelen_to_nde (d_nlen pg' i)) js e" using seg_entry.IH agree_entry(1) [OF a] by simp
  then show ?case using agree_entry_ok [OF a] seg_entry(1) by (blast intro: seg.seg_entry)
qed

section \<open>Lookup, free slots, insertion and removal in a page\<close>

lemma strncmp_eq_map: "0 \<notin> b ` {..<n} \<Longrightarrow> strncmp_eq a b n \<longleftrightarrow> map a [0..<n] = map b [0..<n]"
proof (induction n arbitrary: a b)
  case (Suc n)
  have z: "0 \<notin> (\<lambda>i. b (Suc i)) ` {..<n}" "b 0 \<noteq> 0" using Suc.prems by (auto simp: image_iff)
  have m: "map f [0..<Suc n] = f 0 # map (\<lambda>i. f (Suc i)) [0..<n]" for f :: "nat \<Rightarrow> byte"
    by (simp only: upt_conv_Cons [OF zero_less_Suc] map_Suc_upt [symmetric] list.map map_map comp_def)
  show ?case using Suc.IH [OF z(1), of "\<lambda>i. a (Suc i)"] z(2) unfolding m by auto
qed simp

text \<open>A name that a file can have: not empty, at most 255 bytes, no zero byte.\<close>

definition str_ok :: "zufs_str \<Rightarrow> bool" where
  "str_ok str = (0 < str_len str \<and> str_len str < 256 \<and> 0 \<notin> set (str_bytes str))"

lemma hasname_iff:
  assumes "str_ok str"
  shows "hasname pg i str \<longleftrightarrow> d_nlen pg i \<noteq> 0 \<and> de_name pg i = str_bytes str"
proof (cases "d_nlen pg i = str_len str")
  case True
  have "0 \<notin> str_name str ` {..<d_nlen pg i}" using assms True by (auto simp: str_ok_def str_bytes_def)
  from strncmp_eq_map [OF this, of "d_name pg i"] True assms show ?thesis
    by (simp add: hasname_def de_name_def str_bytes_def str_ok_def)
next
  case False
  then have "length (de_name pg i) \<noteq> length (str_bytes str)" by (simp add: de_name_def str_bytes_def)
  then show ?thesis using False by (auto simp: hasname_def)
qed

lemma find_dirent_seg:
  assumes str: "str_ok str"
  shows "seg pg i js NR_DE \<Longrightarrow> find_dirent_from pg str i = find (\<lambda>j. de_name pg j = str_bytes str) js"
proof (induction i js "NR_DE" rule: seg.induct)
  case seg_nil
  then show ?case by (simp add: find_dirent_from.simps)
next
  case (seg_free i js)
  have "i < NR_DE" using seg_le [OF seg_free(2)] by simp
  then show ?case using seg_free hasname_iff [OF str, of pg i]
    by (subst find_dirent_from.simps) (simp add: next_dirent_def is_active_def)
next
  case (seg_entry i js)
  have "i < NR_DE" using seg_le [OF seg_entry(2)] namelen_to_nde_pos [of "d_nlen pg i"] by linarith
  then show ?case using seg_entry hasname_iff [OF str, of pg i]
    by (subst find_dirent_from.simps) (auto simp: next_dirent_def is_active_def entry_ok_def)
qed

lemma find_dirent_spec:
  "page_ok pg \<Longrightarrow> str_ok str \<Longrightarrow> find_dirent pg str = find (\<lambda>j. de_name pg j = str_bytes str) (entries pg 0)"
  using find_dirent_seg [of str pg 0 "entries pg 0"] by (simp add: page_ok_def find_dirent_def)

lemma seg_skip_free:
  "seg pg i js e \<Longrightarrow> i + n \<le> e \<Longrightarrow> \<forall>k. i \<le> k \<and> k < i + n \<longrightarrow> d_nlen pg k = 0 \<Longrightarrow> seg pg (i + n) js e"
proof (induction n arbitrary: i)
  case (Suc n)
  have "d_nlen pg i = 0" using Suc.prems(3) by simp
  with Suc.prems(1,2) have "seg pg (i + 1) js e" by (auto elim: seg.cases simp: entry_ok_def)
  from Suc.IH [OF this] show ?case using Suc.prems(2,3) by simp
qed simp

lemma seg_free_run: "i \<le> e \<Longrightarrow> \<forall>k. i \<le> k \<and> k < e \<longrightarrow> d_nlen pg k = 0 \<Longrightarrow> seg pg i [] e"
proof (induction "e - i" arbitrary: i)
  case 0
  then show ?case by (auto intro: seg_nil)
next
  case (Suc n)
  have i: "i < e" "d_nlen pg i = 0" using Suc.hyps(2) Suc.prems by simp_all
  have "seg pg (i + 1) [] e" by (rule Suc.hyps(1)) (use Suc.hyps(2) Suc.prems i in simp_all)
  then show ?case by (rule seg_free [OF i(2)])
qed

lemma count_free_run:
  "\<forall>k. i \<le> k \<and> k < i + count_free_de pg i \<longrightarrow> d_nlen pg k = 0"
proof (induction pg i rule: count_free_de.induct)
  case (1 pg i)
  show ?case
  proof (cases "i < NR_DE \<and> d_nlen pg i = 0")
    case True
    then have c: "count_free_de pg i = Suc (count_free_de pg (i + 1))" by (subst count_free_de.simps) simp
    show ?thesis
    proof (intro allI impI)
      fix k assume k: "i \<le> k \<and> k < i + count_free_de pg i"
      show "d_nlen pg k = 0"
      proof (cases "k = i")
        case False
        then show ?thesis using 1 True k c by simp
      qed (use True in simp)
    qed
  next
    case False
    then show ?thesis by (subst count_free_de.simps) auto
  qed
qed

lemma count_free_le: "i \<le> NR_DE \<Longrightarrow> i + count_free_de pg i \<le> NR_DE"
proof (induction pg i rule: count_free_de.induct)
  case (1 pg i)
  show ?case
  proof (cases "i < NR_DE \<and> d_nlen pg i = 0")
    case True
    then have "count_free_de pg i = Suc (count_free_de pg (i + 1))" by (subst count_free_de.simps) simp
    moreover have "i + 1 + count_free_de pg (i + 1) \<le> NR_DE" using 1(1) True by simp
    ultimately show ?thesis by simp
  next
    case False
    then have "count_free_de pg i = 0" by (subst count_free_de.simps) simp
    then show ?thesis using 1(2) by simp
  qed
qed

text \<open>\<open>_search_free\<close> returns a slot that starts a run of enough free slots and that a walk over the page reaches.\<close>

lemma search_free_seg:
  assumes req: "0 < required"
  shows "\<lbrakk>seg pg i js NR_DE; search_free_from pg required i = Some j\<rbrakk> \<Longrightarrow>
    \<exists>A B. js = A @ B \<and> seg pg i A j \<and> seg pg (j + required) B NR_DE \<and> j + required \<le> NR_DE \<and>
      (\<forall>k. j \<le> k \<and> k < j + required \<longrightarrow> d_nlen pg k = 0)"
proof (induction pg required i arbitrary: js rule: search_free_from.induct)
  case (1 pg r i)
  have i: "i < NR_DE" using 1(3) by (simp add: search_free_from.simps split: if_splits)
  let ?c = "count_free_de pg i"
  note run = count_free_run [of i pg] and le = count_free_le [of i pg]
  show ?case
  proof (cases "r \<le> ?c")
    case True
    then have "j = i" using 1(3) i by (simp add: search_free_from.simps)
    moreover have "seg pg (i + r) js NR_DE" using seg_skip_free [OF 1(2), of r] run le i True by simp
    ultimately show ?thesis using run le True i
      by (intro exI [of _ "[]"] exI [of _ js]) (auto intro: seg_nil)
  next
    case False
    let ?n = "i + (if ?c \<noteq> 0 then ?c else namelen_to_nde (d_nlen pg i))"
    have s: "search_free_from pg r ?n = Some j" using 1(3) i False by (subst (asm) search_free_from.simps) (simp add: Let_def)
    have step: "\<exists>A0 B0. js = A0 @ B0 \<and> seg pg i A0 ?n \<and> seg pg ?n B0 NR_DE"
    proof (cases "?c = 0")
      case False
      then show ?thesis using seg_skip_free [OF 1(2), of ?c] seg_free_run [of i "i + ?c" pg] run le i
        by (intro exI [of _ "[]"] exI [of _ js]) simp
    next
      case True
      then have "d_nlen pg i \<noteq> 0" using i by (subst (asm) count_free_de.simps) (auto split: if_splits)
      with 1(2) i obtain js' where "js = i # js'" "entry_ok pg i" "seg pg (i + namelen_to_nde (d_nlen pg i)) js' NR_DE"
        by (auto elim: seg.cases)
      then show ?thesis using True by (intro exI [of _ "[i]"] exI [of _ js']) (auto intro: seg.intros)
    qed
    then obtain A0 B0 where 0: "js = A0 @ B0" "seg pg i A0 ?n" "seg pg ?n B0 NR_DE" by blast
    obtain A B where "B0 = A @ B" "seg pg ?n A j" "seg pg (j + r) B NR_DE" "j + r \<le> NR_DE"
      "\<forall>k. j \<le> k \<and> k < j + r \<longrightarrow> d_nlen pg k = 0"
      using 1(1) [OF i refl False 0(3) s] by blast
    then show ?thesis using 0 seg_append [OF 0(2)] by (intro exI [of _ "A0 @ A"] exI [of _ B]) simp
  qed
qed

definition same_entry :: "(nat \<Rightarrow> byte) \<Rightarrow> (nat \<Rightarrow> byte) \<Rightarrow> nat \<Rightarrow> bool" where
  "same_entry pg pg' i =
    (d_nlen pg' i = d_nlen pg i \<and> d_ino pg' i = d_ino pg i \<and> d_off pg' i = d_off pg i \<and>
     d_type pg' i = d_type pg i \<and> de_name pg' i = de_name pg i)"

lemma seg_same_entry:
  assumes "seg pg i js e" "agree i e pg pg'" "j \<in> set js"
  shows "same_entry pg pg' j"
proof -
  have "i \<le> j" "j + namelen_to_nde (d_nlen pg j) \<le> e" using seg_inside [OF assms(1,3)] by simp_all
  from agree_entry [OF agree_mono [OF assms(2) this]] show ?thesis by (simp add: same_entry_def)
qed

lemma seg_splice:
  assumes A: "seg pg 0 A j" and B: "seg pg f B NR_DE" and M: "seg pg' j M f"
    and ag: "agree 0 j pg pg'" "agree f NR_DE pg pg'"
  shows "page_ok pg' \<and> entries pg' 0 = A @ M @ B \<and> (\<forall>k\<in>set (A @ B). same_entry pg pg' k)"
proof -
  have "seg pg' 0 (A @ M @ B) NR_DE"
    using seg_append [OF seg_agree [OF A ag(1)] seg_append [OF M seg_agree [OF B ag(2)]]] .
  moreover have "same_entry pg pg' k" if "k \<in> set (A @ B)" for k
    using that seg_same_entry [OF A ag(1), of k] seg_same_entry [OF B ag(2), of k] by auto
  ultimately show ?thesis using page_okI by blast
qed

lemma seg_split:
  "seg pg i (A @ j # B) e \<Longrightarrow>
   seg pg i A j \<and> entry_ok pg j \<and> seg pg (j + namelen_to_nde (d_nlen pg j)) B e"
proof (induction i "A @ j # B" e arbitrary: A rule: seg.induct)
  case (seg_free i e)
  then show ?case by (auto intro: seg.seg_free)
next
  case (seg_entry i js e)
  show ?case
  proof (cases A)
    case Nil
    then show ?thesis using seg_entry by (auto intro: seg.seg_nil)
  next
    case (Cons a A')
    then show ?thesis using seg_entry by (auto intro: seg.seg_entry)
  qed
qed simp

lemma set_dirent_outside:
  assumes "k < de_pos i \<or> de_pos (i + namelen_to_nde nlen) \<le> k"
  shows "set_dirent i name nlen ino mode off pg k = pg k"
proof -
  have "k < de_pos i \<or> de_pos i + 32 * namelen_to_nde nlen \<le> k" using assms by (auto simp: de_pos_def)
  then show ?thesis
    using namelen_fits [of nlen] namelen_to_nde_pos [of nlen]
    by (auto simp: set_dirent_def Let_def pg_copy_def mult.commute [of _ 32])
qed

lemma set_dirent_fields:
  assumes n: "nlen < 256" and ino: "ino < 2 ^ 64" and off: "- (2 ^ 63) \<le> off" "off < 2 ^ 63"
  shows "d_nlen (set_dirent i name nlen ino mode off pg) i = nlen"
    "d_ino (set_dirent i name nlen ino mode off pg) i = ino"
    "d_off (set_dirent i name nlen ino mode off pg) i = off"
    "d_type (set_dirent i name nlen ino mode off pg) i = unat (iftodt mode)"
    "de_name (set_dirent i name nlen ino mode off pg) i = map name [0..<nlen]"
proof -
  let ?pg = "set_dirent i name nlen ino mode off pg"
  show l: "d_nlen ?pg i = nlen"
    using n by (simp add: d_nlen_def set_dirent_def Let_def pg_copy_def unat_of_nat)
  show "d_type ?pg i = unat (iftodt mode)"
    by (simp add: d_type_def set_dirent_def Let_def pg_copy_def)
  have "d_ino ?pg i = le_get (\<lambda>k. le_byte ino (k - (de_pos i + 8))) (de_pos i + 8) 8"
    unfolding d_ino_def by (rule le_get_cong) (auto simp: set_dirent_def Let_def pg_copy_def)
  then show "d_ino ?pg i = ino" using ino by (simp add: le_get_le_byte)
  have "le_get ?pg (de_pos i) 8 = le_get (\<lambda>k. le_byte (cast_size off) (k - de_pos i)) (de_pos i) 8"
    by (rule le_get_cong) (auto simp: set_dirent_def Let_def pg_copy_def)
  moreover have "cast_size off < 2 ^ 64" by (simp add: cast_size_def nat_less_iff)
  ultimately have "le_get ?pg (de_pos i) 8 = cast_size off" by (simp add: le_get_le_byte)
  then show "d_off ?pg i = off" using cast_loff_cast_size [OF off] by (simp add: d_off_def)
  have "d_name ?pg i k = name k" if "k < nlen" for k
    using that by (simp add: d_name_def set_dirent_def Let_def pg_copy_def)
  then show "de_name ?pg i = map name [0..<nlen]" by (simp add: de_name_def l)
qed

text \<open>Insertion at a slot that \<open>_search_free\<close> found; \<open>pg1\<close> differs from the page in that slot only.\<close>

lemma page_insert:
  assumes pg: "page_ok pg" and free: "search_free pg (str_len str) = Some j" and str: "str_ok str"
    and ino: "0 < ino" "ino < 2 ^ 64" and off: "- (2 ^ 63) \<le> off" "off < 2 ^ 63"
    and pg1: "\<And>k. k < de_pos j \<or> de_pos (j + 1) \<le> k \<Longrightarrow> pg1 k = pg k"
    and pg': "pg' = set_dirent j (str_name str) (str_len str) ino mode off pg1"
  shows "j < NR_DE \<and> page_ok pg' \<and>
    (\<exists>A B. entries pg 0 = A @ B \<and> entries pg' 0 = A @ j # B \<and> (\<forall>k\<in>set (A @ B). same_entry pg pg' k)) \<and>
    de_name pg' j = str_bytes str \<and> d_ino pg' j = ino \<and> d_off pg' j = off \<and> d_type pg' j = unat (iftodt mode)"
proof -
  let ?n = "namelen_to_nde (str_len str)"
  obtain A B where AB: "entries pg 0 = A @ B" "seg pg 0 A j" "seg pg (j + ?n) B NR_DE" "j + ?n \<le> NR_DE"
    using search_free_seg [OF namelen_to_nde_pos, of pg 0 "entries pg 0" "str_len str" j] pg free
    by (auto simp: page_ok_def search_free_def)
  have l: "str_len str < 256" "0 < str_len str" using str by (simp_all add: str_ok_def)
  note f = set_dirent_fields [OF l(1) ino(2) off, of j "str_name str" mode pg1, folded pg']
  have out: "pg' k = pg k" if "k < de_pos j \<or> de_pos (j + ?n) \<le> k" for k
  proof -
    have "pg' k = pg1 k" unfolding pg' by (rule set_dirent_outside [OF that])
    moreover have "pg1 k = pg k"
    proof (rule pg1)
      have "de_pos (j + 1) \<le> de_pos (j + ?n)" using namelen_to_nde_pos [of "str_len str"] by (simp add: de_pos_def Suc_leI)
      then show "k < de_pos j \<or> de_pos (j + 1) \<le> k" using that by linarith
    qed
    ultimately show ?thesis by simp
  qed
  have ag: "agree 0 j pg pg'" "agree (j + ?n) NR_DE pg pg'" using out by (auto simp: agree_def)
  have "entry_ok pg' j" using f l ino(1) str by (simp add: entry_ok_def str_ok_def str_bytes_def)
  then have M: "seg pg' j [j] (j + ?n)" using f(1) seg_nil [of pg' "j + ?n"] by (auto intro: seg_entry)
  have "j < NR_DE" using AB(4) namelen_to_nde_pos [of "str_len str"] by linarith
  with seg_splice [OF AB(2,3) M ag] AB(1) f show ?thesis by (auto simp: str_bytes_def)
qed

lemma page_remove:
  assumes pg: "page_ok pg" and js: "entries pg 0 = A @ j # B"
  shows "\<exists>pg'. reset_dirent j pg = Some pg' \<and> page_ok pg' \<and> entries pg' 0 = A @ B \<and>
    (\<forall>k\<in>set (A @ B). same_entry pg pg' k)"
proof -
  let ?n = "namelen_to_nde (d_nlen pg j)"
  let ?pg' = "pg_copy (de_pos j) (?n * 32) (\<lambda>_. 0) pg"
  note sp = seg_split [of pg 0 A j B NR_DE] and seg = pg [unfolded page_ok_def js]
  have A: "seg pg 0 A j" and B: "seg pg (j + ?n) B NR_DE" and e: "entry_ok pg j" using sp seg by blast+
  have in0: "?pg' k = 0" if "de_pos j \<le> k" "k < de_pos (j + ?n)" for k
    using that by (simp add: pg_copy_def de_pos_def)
  have M: "seg ?pg' j [] (j + ?n)"
  proof (rule seg_free_run; clarsimp)
    fix k assume "j \<le> k" "k < j + ?n"
    then have "?pg' (de_pos k + 17) = 0" by (intro in0) (simp_all add: de_pos_def)
    then show "d_nlen ?pg' k = 0" by (simp add: d_nlen_def)
  qed
  have ag: "agree 0 j pg ?pg'" "agree (j + ?n) NR_DE pg ?pg'"
    by (auto simp: agree_def pg_copy_def de_pos_def)
  from seg_splice [OF A B M ag] e show ?thesis by (auto simp: reset_dirent_def entry_ok_def)
qed

lemma search_free_empty:
  assumes "\<And>k. k < NR_DE \<Longrightarrow> d_nlen pg k = 0" "nlen < 256"
  shows "search_free pg nlen = Some 0"
proof -
  have c: "count_free_de pg i = NR_DE - i" if "i \<le> NR_DE" for i
    using that
  proof (induction "NR_DE - i" arbitrary: i)
    case 0
    then show ?case by (subst count_free_de.simps) simp
  next
    case (Suc n)
    have "count_free_de pg (i + 1) = NR_DE - (i + 1)" by (rule Suc.hyps(1)) (use Suc.hyps(2) in simp_all)
    then show ?case using Suc.hyps(2) assms(1) by (subst count_free_de.simps) auto
  qed
  have "namelen_to_nde nlen \<le> NR_DE" using namelen_to_nde_le [OF assms(2)] by simp
  then show ?thesis unfolding search_free_def by (subst search_free_from.simps) (simp add: c)
qed

lemma page_ok_empty:
  assumes "\<And>k. k < NR_DE \<Longrightarrow> d_nlen pg k = 0"
  shows "page_ok pg \<and> entries pg 0 = []"
  by (rule page_okI, rule seg_free_run) (use assms in auto)

end
