(* ===== verification/ToyDir.thy ===== *)
theory ToyDir
  imports ZusStd DirPage FileContent
begin

text \<open>
  Directories (\<open>fs/toyfs/dir.c\<close> and \<open>namei.c\<close>): a directory inode heads a list of pages of entries.
  The operations look a name up, add and remove an entry, list the directory into a buffer, release it, and rename.
  A \<open>struct toyfs_dirent *\<close> is a page address with a slot number. The theorems relate the operations to the map from
  names to inode numbers that a directory stands for.
\<close>

section \<open>Operations\<close>

definition upd_page :: "addr \<Rightarrow> ((nat \<Rightarrow> byte) \<Rightarrow> nat \<Rightarrow> byte) \<Rightarrow> toyfs_sb_info \<Rightarrow> toyfs_sb_info" where
  "upd_page p f s = s\<lparr>h_dat := (h_dat s)(p := f (h_dat s p))\<rparr>"

definition toyfs_childs_list_of :: "addr \<Rightarrow> toyfs_sb_info \<Rightarrow> addr list" where
  "toyfs_childs_list_of dir_ti s = list_head (h_inode s dir_ti)"

fun lookup_loop :: "toyfs_sb_info \<Rightarrow> zufs_str \<Rightarrow> addr list \<Rightarrow> (addr \<times> nat) option" where
  "lookup_loop s str [] = None"
| "lookup_loop s str (itr # childs) =
    (case find_dirent (h_dat s itr) str of Some de \<Rightarrow> Some (itr, de) | None \<Rightarrow> lookup_loop s str childs)"

definition toyfs_lookup_dirent :: "addr \<Rightarrow> zufs_str \<Rightarrow> toyfs_sb_info \<Rightarrow> (addr \<times> nat) option" where
  "toyfs_lookup_dirent dir_ti str s = lookup_loop s str (toyfs_childs_list_of dir_ti s)"

fun acquire_scan :: "toyfs_sb_info \<Rightarrow> nat \<Rightarrow> addr list \<Rightarrow> int \<Rightarrow> (addr \<times> nat) option \<times> int" where
  "acquire_scan s nlen [] off = (None, off)"
| "acquire_scan s nlen (itr # childs) off =
    (case search_free (h_dat s itr) nlen of Some de \<Rightarrow> (Some (itr, de), off + int de)
     | None \<Rightarrow> acquire_scan s nlen childs (off + int NR_DE))"

definition store_d_off :: "nat \<Rightarrow> int \<Rightarrow> (nat \<Rightarrow> byte) \<Rightarrow> nat \<Rightarrow> byte" where
  "store_d_off i off = pg_copy (de_pos i) 8 (le_byte (cast_size off))"

definition acquire_dirent :: "addr \<Rightarrow> nat \<Rightarrow> toyfs_sb_info \<Rightarrow> (addr \<times> nat) option \<times> toyfs_sb_info" where
  "acquire_dirent dir_ti nlen s =
    (case acquire_scan s nlen (toyfs_childs_list_of dir_ti s) 2 of
       (Some (p, i), off) \<Rightarrow> (Some (p, i), upd_page p (store_d_off i off) s)
     | (None, off) \<Rightarrow>
        (case toyfs_acquire_pmemb s of
           (None, s1) \<Rightarrow> (None, s1)
         | (Some pmemb, s1) \<Rightarrow>
            (let s2 = upd_inode dir_ti (\<lambda>zi. zi\<lparr>i_blocks := i_blocks zi + 1\<rparr>) s1;
                 s3 = upd_inode dir_ti (\<lambda>zi. zi\<lparr>list_head := list_head zi @ [pmemb]\<rparr>) s2
             in (Some (pmemb, 0), upd_page pmemb (store_d_off 0 off) s3))))"

text \<open>\<open>ino\<close> is the number in the \<open>toyfs_inode_info\<close> of the entry, \<open>ti\<close> its inode.\<close>

definition add_dirent :: "addr \<Rightarrow> addr \<Rightarrow> nat \<Rightarrow> zufs_str \<Rightarrow> addr \<times> nat \<Rightarrow> toyfs_sb_info \<Rightarrow> toyfs_sb_info" where
  "add_dirent dir_ti ti ino str dirent s =
    (let (p, i) = dirent;
         s1 = upd_page p (set_dirent i (str_name str) (str_len str) ino (i_mode (h_inode s ti)) (d_off (h_dat s p) i)) s;
         s2 = upd_inode dir_ti (\<lambda>zi. zi\<lparr>i_size := size_add (i_size zi) PAGE_SIZE\<rparr>) s1
     in zus_std_add_dentry dir_ti ti s2)"

definition toyfs_add_dirent :: "addr \<Rightarrow> addr \<Rightarrow> nat \<Rightarrow> zufs_str \<Rightarrow> toyfs_sb_info \<Rightarrow>
    (addr \<times> nat) result \<times> toyfs_sb_info" where
  "toyfs_add_dirent dir_ti ti ino str s =
    (case acquire_dirent dir_ti (str_len str) s of
       (None, s1) \<Rightarrow> (Inl ENOSPC, s1)
     | (Some dirent, s1) \<Rightarrow> (Inr dirent, add_dirent dir_ti ti ino str dirent s1))"

definition zii_ino :: "toyfs_sb_info \<Rightarrow> addr option \<Rightarrow> nat run" where
  "zii_ino s zii = do {
     p \<leftarrow> toyfs_zii_to_tii s zii;
     a \<leftarrow> p;
     tii \<leftarrow> h_tii s a;
     Some (tii_ino tii) }"

definition toyfs_add_dentry :: "addr option \<Rightarrow> addr option \<Rightarrow> zufs_str \<Rightarrow> toyfs_sb_info \<Rightarrow>
    (unit result \<times> toyfs_sb_info) run" where
  "toyfs_add_dentry dir_zii zii str s = do {
     dir_ti \<leftarrow> zii_inode s dir_zii;
     ti \<leftarrow> zii_inode s zii;
     ino \<leftarrow> zii_ino s zii;
     (case toyfs_add_dirent dir_ti ti ino str s of
        (Inl err, s1) \<Rightarrow> Some (Inl err, s1)
      | (Inr _, s1) \<Rightarrow> Some (Inr (), s1)) }"

definition toyfs_remove_dirent :: "addr \<Rightarrow> addr \<Rightarrow> addr \<times> nat \<Rightarrow> toyfs_sb_info \<Rightarrow> toyfs_sb_info run" where
  "toyfs_remove_dirent dir_ti ti dirent s = do {
     let (p, i) = dirent;
     pg \<leftarrow> reset_dirent i (h_dat s p);
     let s1 = upd_page p (\<lambda>_. pg) s;
     let s2 = upd_inode dir_ti (\<lambda>zi. zi\<lparr>i_size := size_sub (i_size zi) PAGE_SIZE\<rparr>) s1;
     Some (zus_std_remove_dentry dir_ti ti s2) }"

definition toyfs_remove_dentry :: "addr option \<Rightarrow> addr option \<Rightarrow> zufs_str \<Rightarrow> toyfs_sb_info \<Rightarrow>
    (unit result \<times> toyfs_sb_info) run" where
  "toyfs_remove_dentry dir_zii zii str s = do {
     dir_ti \<leftarrow> zii_inode s dir_zii;
     ti \<leftarrow> zii_inode s zii;
     (case toyfs_lookup_dirent dir_ti str s of None \<Rightarrow> Some (Inl ENOENT, s)
      | Some dirent \<Rightarrow>
         if zi_isdir (h_inode s ti) \<and> i_size (h_inode s ti) \<noteq> 0 then Some (Inl ENOTEMPTY, s)
         else do {
           s1 \<leftarrow> toyfs_remove_dirent dir_ti ti dirent s;
           Some (Inr (),
             if zi_isdir (h_inode s1 ti) \<and> i_nlink (h_inode s1 ti) = 1 \<and> i_size (h_inode s1 ti) = 0
             then upd_inode ti (\<lambda>zi. zi\<lparr>i_nlink := 0\<rparr>) s1 else s1) }) }"

section \<open>Listing\<close>

text \<open>
  \<open>zufs_zde_emit\<close> of \<open>zus_api.h\<close> stores an entry into the caller's buffer and returns whether it fitted:
  \<open>emit rdi ino type pos name\<close>.
\<close>

type_synonym 'r zde_emit = "'r \<Rightarrow> nat \<Rightarrow> nat \<Rightarrow> nat \<Rightarrow> byte list \<Rightarrow> bool \<times> 'r"

record 'r toyfs_getdents_ctx =
  ctx_pos :: int
  ctx_rdi :: 'r
  ctx_emit_count :: nat

definition init_getdents_ctx :: "'r \<Rightarrow> int \<Rightarrow> 'r toyfs_getdents_ctx" where
  "init_getdents_ctx rdi pos = \<lparr>ctx_pos = pos, ctx_rdi = rdi, ctx_emit_count = 0\<rparr>"

definition filldir :: "'r zde_emit \<Rightarrow> 'r toyfs_getdents_ctx \<Rightarrow> byte list \<Rightarrow> int \<Rightarrow> nat \<Rightarrow> nat \<Rightarrow>
    bool \<times> 'r toyfs_getdents_ctx" where
  "filldir emit ctx name pos ino dt =
    (let (status, rdi) = emit (ctx_rdi ctx) ino (dt mod 256) (cast_size pos) name
     in (status, ctx\<lparr>ctx_rdi := rdi, ctx_emit_count := (if status then ctx_emit_count ctx + 1 else ctx_emit_count ctx)\<rparr>))"

definition emit_name :: "'r zde_emit \<Rightarrow> 'r toyfs_getdents_ctx \<Rightarrow> byte list \<Rightarrow> nat \<Rightarrow> nat \<Rightarrow>
    bool \<times> 'r toyfs_getdents_ctx" where
  "emit_name emit ctx name ino dt = filldir emit ctx name (ctx_pos ctx) ino dt"

definition emit_dirent :: "'r zde_emit \<Rightarrow> 'r toyfs_getdents_ctx \<Rightarrow> (nat \<Rightarrow> byte) \<Rightarrow> nat \<Rightarrow>
    bool \<times> 'r toyfs_getdents_ctx" where
  "emit_dirent emit ctx pg i =
    (let (ok, ctx) = emit_name emit ctx (map (d_name pg i) [0..<d_nlen pg i]) (d_ino pg i) (d_type pg i)
     in (ok, if ok then ctx\<lparr>ctx_pos := d_off pg i + 1\<rparr> else ctx))"

function iterate_dentries_from :: "'r zde_emit \<Rightarrow> (nat \<Rightarrow> byte) \<Rightarrow> nat \<Rightarrow> 'r toyfs_getdents_ctx \<Rightarrow>
    bool \<times> 'r toyfs_getdents_ctx" where
  "iterate_dentries_from emit pg itr ctx =
    (if itr < NR_DE then
       let (ok, ctx1) = (if d_nlen pg itr \<noteq> 0 \<and> d_off pg itr \<ge> ctx_pos ctx
                         then emit_dirent emit ctx pg itr else (True, ctx))
       in if ok then iterate_dentries_from emit pg (next_dirent pg itr) ctx1 else (False, ctx1)
     else (True, ctx))"
  by pat_completeness auto
termination
  by (relation "measure (\<lambda>(emit, pg, itr, ctx). NR_DE - itr)") (auto simp: next_dirent_def)

declare iterate_dentries_from.simps [simp del]

definition iterate_dentries :: "'r zde_emit \<Rightarrow> (nat \<Rightarrow> byte) \<Rightarrow> 'r toyfs_getdents_ctx \<Rightarrow>
    bool \<times> 'r toyfs_getdents_ctx" where
  "iterate_dentries emit pg ctx = iterate_dentries_from emit pg 0 ctx"

text \<open>The loop over the pages; the first component tells whether pages are left.\<close>

fun iterate_pages :: "'r zde_emit \<Rightarrow> toyfs_sb_info \<Rightarrow> addr list \<Rightarrow> 'r toyfs_getdents_ctx \<Rightarrow>
    bool \<times> 'r toyfs_getdents_ctx" where
  "iterate_pages emit s [] ctx = (False, ctx)"
| "iterate_pages emit s (itr # childs) ctx =
    (let (ok, ctx1) = iterate_dentries emit (h_dat s itr) ctx
     in if ok then iterate_pages emit s childs ctx1 else (True, ctx1))"

abbreviation (input) DT_DIR :: nat where "DT_DIR \<equiv> 4"

definition iterate_dir :: "'r zde_emit \<Rightarrow> addr \<Rightarrow> toyfs_sb_info \<Rightarrow> 'r toyfs_getdents_ctx \<Rightarrow>
    bool \<times> 'r toyfs_getdents_ctx" where
  "iterate_dir emit dir_ti s ctx =
    (let (ok, ctx) = (if ctx_pos ctx = 0 then
                        let (ok, ctx) = emit_name emit ctx [46] (i_ino (h_inode s dir_ti)) DT_DIR
                        in (ok, ctx\<lparr>ctx_pos := 1\<rparr>)
                      else (True, ctx));
         (ok, ctx) = (if ctx_pos ctx = 1 \<and> ok then
                        let (ok, ctx) = emit_name emit ctx [46, 46] (i_dir_parent (h_inode s dir_ti)) DT_DIR
                        in (ok, ctx\<lparr>ctx_pos := 2\<rparr>)
                      else (ok, ctx));
         childs = toyfs_childs_list_of dir_ti s
     in if ok then iterate_pages emit s childs ctx else (childs \<noteq> [], ctx))"

text \<open>\<open>zir->more\<close>, \<open>zir->pos\<close> and the state of the buffer.\<close>

definition toyfs_iterate_dir :: "'r zde_emit \<Rightarrow> addr \<Rightarrow> toyfs_sb_info \<Rightarrow> int \<Rightarrow> 'r \<Rightarrow> unit result \<times> bool \<times> int \<times> 'r" where
  "toyfs_iterate_dir emit dir_ti s pos rdi =
    (let (more, ctx) = iterate_dir emit dir_ti s (init_getdents_ctx rdi pos)
     in (Inr (), more, ctx_pos ctx, ctx_rdi ctx))"

definition toyfs_readdir :: "'r zde_emit \<Rightarrow> addr option \<Rightarrow> toyfs_sb_info \<Rightarrow> int \<Rightarrow> 'r \<Rightarrow>
    (unit result \<times> bool \<times> int \<times> 'r) run" where
  "toyfs_readdir emit dir_ii s pos rdi = do {
     dir_ti \<leftarrow> zii_inode s dir_ii;
     Some (toyfs_iterate_dir emit dir_ti s pos rdi) }"

section \<open>Release\<close>

fun release_dir_loop :: "addr \<Rightarrow> addr list \<Rightarrow> toyfs_sb_info \<Rightarrow> toyfs_sb_info run" where
  "release_dir_loop dir_ti [] s = Some s"
| "release_dir_loop dir_ti (itr # nxt) s = do {
     toyfs_assert (i_blocks (h_inode s dir_ti) > 0);
     let s1 = upd_inode dir_ti (\<lambda>zi. zi\<lparr>list_head := remove1 itr (list_head zi)\<rparr>) s;
     let s2 = toyfs_release_pmemb itr s1;
     release_dir_loop dir_ti nxt (upd_inode dir_ti (\<lambda>zi. zi\<lparr>i_blocks := i_blocks zi - 1\<rparr>) s2) }"

definition toyfs_release_dir :: "addr \<Rightarrow> toyfs_sb_info \<Rightarrow> toyfs_sb_info run" where
  "toyfs_release_dir dir_ti s = do {
     s1 \<leftarrow> release_dir_loop dir_ti (toyfs_childs_list_of dir_ti s) s;
     toyfs_assert (i_blocks (h_inode s1 dir_ti) = 0);
     Some s1 }"

section \<open>Names (\<open>namei.c\<close>)\<close>

definition lookup_ino :: "addr \<Rightarrow> zufs_str \<Rightarrow> toyfs_sb_info \<Rightarrow> nat" where
  "lookup_ino dir_ti str s =
    (case toyfs_lookup_dirent dir_ti str s of Some (p, i) \<Rightarrow> d_ino (h_dat s p) i | None \<Rightarrow> 0)"

definition toyfs_lookup :: "addr option \<Rightarrow> zufs_str \<Rightarrow> toyfs_sb_info \<Rightarrow> nat run" where
  "toyfs_lookup dir_zii str s = do {
     dir_ti \<leftarrow> zii_inode s dir_zii;
     Some (lookup_ino dir_ti str s) }"

text \<open>\<open>_do_rename\<close> from the point where the new name has an entry.\<close>

definition rename_finish :: "addr \<Rightarrow> addr \<Rightarrow> addr \<Rightarrow> addr \<times> nat \<Rightarrow> nat \<Rightarrow> toyfs_sb_info \<Rightarrow>
    (unit result \<times> toyfs_sb_info) run" where
  "rename_finish old_dir new_dir old_ti old_de time s = do {
     s2 \<leftarrow> toyfs_remove_dirent old_dir old_ti old_de s;
     let s3 = (if s_istype S_IFDIR (i_mode (h_inode s2 old_ti))
               then upd_inode old_ti (\<lambda>zi. zi\<lparr>i_nlink := i_nlink zi + 1\<rparr>) s2 else s2);
     let s4 = upd_inode old_dir (\<lambda>zi. zi\<lparr>i_mtime := time, i_ctime := time\<rparr>) s3;
     let s5 = upd_inode new_dir (\<lambda>zi. zi\<lparr>i_mtime := time, i_ctime := time\<rparr>) s4;
     Some (Inr (), upd_inode old_ti (\<lambda>zi. zi\<lparr>i_ctime := time\<rparr>) s5) }"

text \<open>\<open>old_ii\<close> is the inode of the entry that is moved and its number, \<open>None\<close> for a NULL pointer.\<close>

definition do_rename :: "addr \<Rightarrow> addr \<Rightarrow> (addr \<times> nat) option \<Rightarrow> zufs_str \<Rightarrow> zufs_str \<Rightarrow> nat \<Rightarrow> 32 word \<Rightarrow>
    toyfs_sb_info \<Rightarrow> (unit result \<times> toyfs_sb_info) run" where
  "do_rename old_dir new_dir old_ii old_name new_name time flags s =
    (case old_ii of None \<Rightarrow> Some (Inl EINVAL, s)
     | Some (old_ti, old_ino) \<Rightarrow>
        if flags \<noteq> 0 then Some (Inl ENOTSUP, s)
        else case toyfs_lookup_dirent old_dir old_name s of None \<Rightarrow> Some (Inl ENOENT, s)
          | Some old_de \<Rightarrow>
             (case (case toyfs_lookup_dirent new_dir new_name s of
                      None \<Rightarrow> toyfs_add_dirent new_dir old_ti old_ino new_name s
                    | Some new_de \<Rightarrow> (Inr new_de, s)) of
                (Inl err, s1) \<Rightarrow> Some (Inl err, s1)
              | (Inr new_de, s1) \<Rightarrow> rename_finish old_dir new_dir old_ti old_de time s1))"

record zufs_ioc_rename =
  zir_old_dir_ii :: "addr option"
  zir_new_dir_ii :: "addr option"
  zir_old_zus_ii :: "addr option"
  zir_new_zus_ii :: "addr option"
  zir_old_d_str :: zufs_str
  zir_new_d_str :: zufs_str
  zir_time :: nat
  zir_flags :: "32 word"

definition toyfs_rename :: "zufs_ioc_rename \<Rightarrow> toyfs_sb_info \<Rightarrow> (unit result \<times> toyfs_sb_info) run" where
  "toyfs_rename zir s = do {
     _ \<leftarrow> toyfs_zii_to_tii s (zir_old_dir_ii zir);
     _ \<leftarrow> toyfs_zii_to_tii s (zir_new_dir_ii zir);
     old_ii \<leftarrow> toyfs_zii_to_tii s (zir_old_zus_ii zir);
     _ \<leftarrow> toyfs_zii_to_tii s (zir_new_zus_ii zir);
     if old_ii = None then Some (Inl EINVAL, s)
     else do {
       old_dir \<leftarrow> zii_inode s (zir_old_dir_ii zir);
       new_dir \<leftarrow> zii_inode s (zir_new_dir_ii zir);
       old_ti \<leftarrow> zii_inode s (zir_old_zus_ii zir);
       old_ino \<leftarrow> zii_ino s (zir_old_zus_ii zir);
       do_rename old_dir new_dir (Some (old_ti, old_ino)) (zir_old_d_str zir) (zir_new_d_str zir)
         (zir_time zir) (zir_flags zir) s } }"

end
