(* ===== verification/ToyInode.thy ===== *)
theory ToyInode
  imports InodeTable ToyDir
begin

text \<open>
  Inodes of toyfs: the inode infos in memory and their reference counts (\<open>fs/toyfs/super.c\<close>), creation,
  \<open>iget\<close> and eviction (\<open>fs/toyfs/inode.c\<close>), symbolic links (\<open>fs/toyfs/symlink.c\<close>), and the mount of a device.
  A \<open>struct toyfs_inode_info\<close> is an object of the heap \<open>h_tii\<close>; the result of \<open>zus_malloc\<close> for it is the
  parameter \<open>mem\<close>, the success of \<open>zus_calloc\<close> for an entry of the inode table the parameter \<open>tir_ok\<close>.
  \<open>zus_free\<close> takes the object out of the heap, so that a later use of the pointer is a failure.
\<close>

section \<open>Inode infos\<close>

definition upd_tii :: "addr \<Rightarrow> (toyfs_inode_info \<Rightarrow> toyfs_inode_info) \<Rightarrow> toyfs_sb_info \<Rightarrow> toyfs_sb_info" where
  "upd_tii a f s = s\<lparr>h_tii := (h_tii s)(a := map_option f (h_tii s a))\<rparr>"

abbreviation (input) TOYFS_IMAGIC :: nat where "TOYFS_IMAGIC \<equiv> 0x11E11F5"
abbreviation (input) TOYFS_ROOT_INO :: nat where "TOYFS_ROOT_INO \<equiv> 1"
abbreviation (input) TOYFS_SUPER_MAGIC :: nat where "TOYFS_SUPER_MAGIC \<equiv> 0x5346314d"

definition toyfs_alloc_ii :: "addr option \<Rightarrow> toyfs_sb_info \<Rightarrow> addr option \<times> toyfs_sb_info" where
  "toyfs_alloc_ii mem s =
    (if f_ffree (s_statvfs s) = 0 \<or> f_favail (s_statvfs s) = 0 then (None, s)
     else case mem of None \<Rightarrow> (None, s)
      | Some tii \<Rightarrow>
         (Some tii,
          s\<lparr>h_tii := (h_tii s)(tii \<mapsto> \<lparr>tii_op = True, tii_zi = None, tii_sbi = True, tii_ti = None, tii_ino = 0,
              imagic = TOYFS_IMAGIC, tii_ref = 0, tii_mapped = False, tii_valid = True\<rparr>),
            s_statvfs := (s_statvfs s)\<lparr>f_ffree := f_ffree (s_statvfs s) - 1,
                                       f_favail := f_favail (s_statvfs s) - 1\<rparr>\<rparr>))"

definition toyfs_zii_alloc :: "addr option \<Rightarrow> toyfs_sb_info \<Rightarrow> addr option \<times> toyfs_sb_info" where
  "toyfs_zii_alloc mem s =
    (case toyfs_alloc_ii mem s of (Some tii, s1) \<Rightarrow> (Some tii, s1) | (None, s1) \<Rightarrow> (None, s1))"

definition toyfs_tii_free :: "addr \<Rightarrow> toyfs_sb_info \<Rightarrow> toyfs_sb_info run" where
  "toyfs_tii_free a s = do {
     tii \<leftarrow> h_tii s a;
     toyfs_assert (tii_sbi tii);
     Some (s\<lparr>h_tii := (h_tii s)(a := None),
             s_statvfs := (s_statvfs s)\<lparr>f_ffree := f_ffree (s_statvfs s) + 1,
                                        f_favail := f_favail (s_statvfs s) + 1\<rparr>\<rparr>) }"

definition toyfs_i_track :: "bool \<Rightarrow> addr \<Rightarrow> toyfs_sb_info \<Rightarrow> toyfs_sb_info run" where
  "toyfs_i_track tir_ok a s = do {
     tii \<leftarrow> h_tii s a;
     itable \<leftarrow> itable_insert tir_ok a tii (s_itable s);
     Some (upd_tii a (\<lambda>r. r\<lparr>tii_mapped := True\<rparr>) (s\<lparr>s_itable := itable\<rparr>)) }"

definition toyfs_i_untrack :: "addr \<Rightarrow> bool \<Rightarrow> toyfs_sb_info \<Rightarrow> toyfs_sb_info run" where
  "toyfs_i_untrack a remove s = do {
     tii \<leftarrow> h_tii s a;
     tir \<leftarrow> itable_find (s_itable s) (tii_ino tii);
     let s1 = upd_tii a (\<lambda>r. r\<lparr>tii_mapped := False\<rparr>) s;
     if remove then do {
       itable \<leftarrow> itable_remove a tii (s_itable s1);
       Some (s1\<lparr>s_itable := itable\<rparr>) }
     else Some (s1\<lparr>s_itable := set_tir_tii tir None (s_itable s1)\<rparr>) }"

definition toyfs_find_inode_ref_by_ino :: "toyfs_sb_info \<Rightarrow> nat \<Rightarrow> (nat \<times> nat) option" where
  "toyfs_find_inode_ref_by_ino s ino = itable_find (s_itable s) ino"

section \<open>Symbolic links\<close>

abbreviation (input) SYMLINK_SIZE :: nat where "SYMLINK_SIZE \<equiv> 32"  \<comment> \<open>\<open>sizeof(ti->i_symlink)\<close>\<close>

text \<open>The result is what the returned pointer leads to.\<close>

definition get_symlink :: "addr \<Rightarrow> toyfs_sb_info \<Rightarrow> (nat \<Rightarrow> byte) result" where
  "get_symlink ti s =
    (let zi = h_inode s ti in
     if \<not> zi_islnk zi then Inl EINVAL
     else if i_size zi < SYMLINK_SIZE then Inr (\<lambda>i. i_symlink zi ! i)
     else Inr (h_dat s (toyfs_dpp2pmemb s (i_sym_dpp zi))))"

definition toyfs_get_symlink :: "addr option \<Rightarrow> toyfs_sb_info \<Rightarrow> (nat \<Rightarrow> byte) result run" where
  "toyfs_get_symlink zii s = do {
     ti \<leftarrow> zii_inode s zii;
     Some (get_symlink ti s) }"

definition toyfs_release_symlink :: "addr \<Rightarrow> toyfs_sb_info \<Rightarrow> toyfs_sb_info" where
  "toyfs_release_symlink ti s =
    (let symlen = i_size (h_inode s ti);
         s1 = (if symlen > SYMLINK_SIZE
               then toyfs_release_pmemb (toyfs_dpp2pmemb s (i_sym_dpp (h_inode s ti))) s else s)
     in upd_inode ti (\<lambda>zi. zi\<lparr>i_size := 0, i_sym_dpp := 0\<rparr>) s1)"

section \<open>Extended attributes of a deleted inode\<close>

definition has_xattr :: "addr \<Rightarrow> toyfs_sb_info \<Rightarrow> bool" where
  "has_xattr ti s = (i_xattr (h_inode s ti) \<noteq> 0)"

definition toyfs_drop_xattr :: "addr \<Rightarrow> toyfs_sb_info \<Rightarrow> toyfs_sb_info" where
  "toyfs_drop_xattr ti s =
    (if has_xattr ti s then
       let pmemb = toyfs_bn2pmemb s (i_xattr (h_inode s ti));
           s1 = toyfs_release_pmemb pmemb s
       in upd_inode ti (\<lambda>zi. zi\<lparr>i_xattr := 0\<rparr>) s1
     else s)"

section \<open>Creation\<close>

record zufs_ioc_new_inode =
  new_dir_ii :: "addr option"
  new_zi :: toyfs_inode
  new_tmpfile :: bool          \<comment> \<open>\<open>flags & ZI_TMPFILE\<close>\<close>

definition next_ino :: "toyfs_sb_info \<Rightarrow> nat \<times> toyfs_sb_info" where
  "next_ino s = (s_top_ino s, s\<lparr>s_top_ino := s_top_ino s + 1\<rparr>)"

definition issupported :: "toyfs_inode \<Rightarrow> bool" where
  "issupported zi =
    (let mode = i_mode zi in
     zi_isdir zi \<or> zi_isreg zi \<or> zi_islnk zi \<or> s_istype S_IFCHR mode \<or> s_istype S_IFBLK mode \<or>
     s_istype S_IFIFO mode \<or> s_istype S_IFSOCK mode)"

text \<open>
  The part of \<open>toyfs_new_inode\<close> that depends on the type: \<open>zi\<close> is the inode of the request, \<open>ti\<close> its copy in
  persistent memory, \<open>symname\<close> the memory at \<open>app_ptr\<close>. The flag is false when no page was left for the text
  of a symbolic link.
\<close>

definition new_inode_type :: "addr option \<Rightarrow> addr \<Rightarrow> toyfs_inode \<Rightarrow> bool \<Rightarrow> (nat \<Rightarrow> byte) \<Rightarrow> toyfs_sb_info \<Rightarrow>
    (bool \<times> toyfs_sb_info) run" where
  "new_inode_type dir_tii ti zi tmpfile symname s =
    (if zi_isdir zi then do {
       let s1 = upd_inode ti (\<lambda>r. r\<lparr>list_head := [], i_size := 0\<rparr>) s;
       d \<leftarrow> dir_tii;
       dir \<leftarrow> h_tii s1 d;
       dir_ti \<leftarrow> tii_ti dir;
       let s2 = upd_inode ti (\<lambda>r. r\<lparr>i_dir_parent := i_ino (h_inode s1 dir_ti)\<rparr>) s1;
       dir_zi \<leftarrow> tii_zi dir;
       Some (True, zus_std_new_dir dir_zi ti s2) }
     else if zi_isreg zi then
       let s1 = upd_inode ti (\<lambda>r. r\<lparr>list_head := []\<rparr>) s
       in Some (True, if tmpfile then upd_inode ti (\<lambda>r. r\<lparr>i_nlink := 1\<rparr>) s1 else s1)
     else if zi_islnk zi then
       let symlen = i_size (h_inode s ti)
       in if symlen \<ge> SYMLINK_SIZE then
            (case toyfs_acquire_pmemb s of
               (None, s1) \<Rightarrow> Some (False, toyfs_release_inode ti s1)
             | (Some pmemb, s1) \<Rightarrow>
                let s2 = upd_dat pmemb 0 symlen symname s1
                in Some (True, upd_inode ti (\<lambda>r. r\<lparr>i_sym_dpp := toyfs_page2dpp s2 pmemb\<rparr>) s2))
          else Some (True, s)
     else Some (True, s))"

definition new_inode_fail :: "addr \<Rightarrow> toyfs_sb_info \<Rightarrow> (addr option \<times> toyfs_sb_info) run" where
  "new_inode_fail tii s = do {
     s1 \<leftarrow> toyfs_tii_free tii s;
     Some (None, s1) }"

definition toyfs_new_inode :: "addr option \<Rightarrow> bool \<Rightarrow> (nat \<Rightarrow> byte) \<Rightarrow> zufs_ioc_new_inode \<Rightarrow> toyfs_sb_info \<Rightarrow>
    (addr option \<times> toyfs_sb_info) run" where
  "toyfs_new_inode mem tir_ok app_ptr ioc_new s = do {
     let zi = new_zi ioc_new;
     dir_tii \<leftarrow> toyfs_zii_to_tii s (new_dir_ii ioc_new);
     (case toyfs_zii_alloc mem s of
        (None, s1) \<Rightarrow> Some (None, s1)
      | (Some tii, s1) \<Rightarrow>
         if \<not> issupported zi then new_inode_fail tii s1
         else if i_size zi \<ge> PAGE_SIZE then new_inode_fail tii s1
         else (case toyfs_acquire_inode s1 of
            (None, s2) \<Rightarrow> new_inode_fail tii s2
          | (Some ti, s2) \<Rightarrow> do {
              let (ino, s3) = next_ino s2;
              let s4 = upd_inode ti (\<lambda>_. zi) s3;
              let s5 = upd_tii tii (\<lambda>r. r\<lparr>tii_ti := Some ti, tii_ino := ino, tii_zi := Some ti\<rparr>) s4;
              let s6 = upd_inode ti (\<lambda>r. r\<lparr>i_ino := ino\<rparr>) s5;
              (ok, s7) \<leftarrow> new_inode_type dir_tii ti zi (new_tmpfile ioc_new) app_ptr s6;
              if \<not> ok then new_inode_fail tii s7
              else do {
                s8 \<leftarrow> toyfs_i_track tir_ok tii s7;
                Some (Some tii, upd_tii tii (\<lambda>r. r\<lparr>tii_ref := tii_ref r + 1\<rparr>) s8) } })) }"

section \<open>Deletion and eviction\<close>

definition toyfs_free_inode :: "addr \<Rightarrow> toyfs_sb_info \<Rightarrow> toyfs_sb_info run" where
  "toyfs_free_inode a s = do {
     tii \<leftarrow> h_tii s a;
     ti \<leftarrow> tii_ti tii;
     zi \<leftarrow> tii_zi tii;
     let finish = (\<lambda>s. Some (toyfs_release_inode ti (toyfs_drop_xattr ti s)));
     if zi_isdir (h_inode s zi) then
       if i_size (h_inode s ti) \<noteq> 0 then Some s
       else do {
         s1 \<leftarrow> toyfs_release_dir ti s;
         finish (upd_inode zi (\<lambda>r. r\<lparr>i_dir_parent := 0\<rparr>) s1) }
     else if zi_islnk (h_inode s zi) then finish (toyfs_release_symlink ti s)
     else if zi_isreg (h_inode s zi) then do {
       (err, s1) \<leftarrow> toyfs_truncate ti 0 s;
       finish s1 }
     else finish (upd_inode zi (\<lambda>r. r\<lparr>i_rdev := 0\<rparr>) s) }"

definition toyfs_iget :: "addr option \<Rightarrow> nat \<Rightarrow> toyfs_sb_info \<Rightarrow> (addr result \<times> toyfs_sb_info) run" where
  "toyfs_iget mem ino s =
    (case toyfs_find_inode_ref_by_ino s ino of
       None \<Rightarrow> Some (Inl ENOENT, s)
     | Some tir \<Rightarrow>
        (case tir_tii (tir_at (s_itable s) tir) of
           Some a \<Rightarrow> do {
             tii \<leftarrow> h_tii s a;
             Some (Inr a, upd_tii a (\<lambda>r. r\<lparr>tii_ref := tii_ref r + 1\<rparr>) s) }
         | None \<Rightarrow>
            (case toyfs_alloc_ii mem s of
               (None, s1) \<Rightarrow> Some (Inl ENOMEM, s1)
             | (Some a, s1) \<Rightarrow>
                let s2 = s1\<lparr>s_itable := set_tir_tii tir (Some a) (s_itable s1)\<rparr>;
                    s3 = upd_tii a (\<lambda>r. r\<lparr>tii_mapped := True\<rparr>) s2
                in Some (Inr a, upd_tii a (\<lambda>r. r\<lparr>tii_ref := tii_ref r + 1\<rparr>) s3))))"

definition toyfs_evict :: "addr option \<Rightarrow> toyfs_sb_info \<Rightarrow> toyfs_sb_info run" where
  "toyfs_evict zii s = do {
     p \<leftarrow> toyfs_zii_to_tii s zii;
     a \<leftarrow> p;
     tii \<leftarrow> h_tii s a;
     let s1 = upd_tii a (\<lambda>r. r\<lparr>tii_ref := tii_ref r - 1\<rparr>) s;
     if tii_ref tii - 1 \<noteq> 0 then Some s1
     else do {
       ti \<leftarrow> tii_ti tii;
       s2 \<leftarrow> (if i_nlink (h_inode s1 ti) = 0 then do {
                 s2 \<leftarrow> toyfs_free_inode a s1;
                 if tii_mapped tii then toyfs_i_untrack a True s2 else Some s2 }
               else if tii_mapped tii then toyfs_i_untrack a False s1 else Some s1);
       toyfs_tii_free a s2 } }"

definition setattr :: "addr \<Rightarrow> 32 word \<Rightarrow> unit result" where
  "setattr a enable_bits = Inr ()"

definition toyfs_setattr :: "addr option \<Rightarrow> 32 word \<Rightarrow> toyfs_sb_info \<Rightarrow> unit result run" where
  "toyfs_setattr zii enable_bits s = do {
     p \<leftarrow> toyfs_zii_to_tii s zii;
     a \<leftarrow> p;
     Some (setattr a enable_bits) }"

definition toyfs_sync :: "addr option \<Rightarrow> toyfs_sb_info \<Rightarrow> unit result run" where
  "toyfs_sync zii s = do {
     p \<leftarrow> toyfs_zii_to_tii s zii;
     a \<leftarrow> p;
     Some (Inr ()) }"

section \<open>Mount\<close>

text \<open>
  \<open>toyfs_sbi_alloc\<close> initialises the members of the super block info; the device and the heaps exist
  beforehand. \<open>mem_ok\<close> is the success of \<open>zus_malloc\<close>.
\<close>

definition toyfs_sbi_alloc :: "bool \<Rightarrow> toyfs_sb_info \<Rightarrow> toyfs_sb_info option" where
  "toyfs_sbi_alloc mem_ok s =
    (if mem_ok then
       Some (s\<lparr>s_statvfs := \<lparr>f_bsize = 0, f_frsize = 0, f_blocks = 0, f_bfree = 0, f_bavail = 0, f_files = 0,
                 f_ffree = 0, f_favail = 0, f_flag = 0, f_namemax = 0\<rparr>,
               s_pool := pool_init (s_pool s), s_itable := itable_init (s_itable s),
               s_root := None, s_top_ino := 0\<rparr>)
     else None)"

definition new_root_inode :: "addr option \<Rightarrow> bool \<Rightarrow> toyfs_sb_info \<Rightarrow> (addr result \<times> toyfs_sb_info) run" where
  "new_root_inode mem tir_ok s =
    (case toyfs_alloc_ii mem s of
       (None, s1) \<Rightarrow> Some (Inl ENOMEM, s1)
     | (Some root_tii, s1) \<Rightarrow>
        (case pool_pop_inode (s_pool s1) of
           (None, pool) \<Rightarrow> do {
             s2 \<leftarrow> toyfs_tii_free root_tii (s1\<lparr>s_pool := pool\<rparr>);
             Some (Inl ENOSPC, s2) }
         | (Some root_ti, pool) \<Rightarrow> do {
             let s2 = upd_inode root_ti (\<lambda>_. zero_inode) (s1\<lparr>s_pool := pool\<rparr>);
             let s3 = upd_tii root_tii (\<lambda>r. r\<lparr>tii_ti := Some root_ti, tii_zi := Some root_ti,
                                              tii_ino := TOYFS_ROOT_INO\<rparr>) s2;
             let s4 = upd_inode root_ti (\<lambda>r. r\<lparr>i_ino := TOYFS_ROOT_INO, i_mode := 0x1ED OR S_IFDIR, i_nlink := 2,
                         i_uid := 0, i_gid := 0, i_generation := 0, i_rdev := 0, i_size := 0, i_blocks := 0,
                         list_head := []\<rparr>) s3;
             tii \<leftarrow> h_tii s4 root_tii;
             itable \<leftarrow> itable_insert tir_ok root_tii tii (s_itable s4);
             Some (Inr root_tii, s4\<lparr>s_itable := itable\<rparr>) }))"

definition read_pmem_sb_first_time :: "md_ops \<Rightarrow> unit result" where
  "read_pmem_sb_first_time md = (if md_magic md \<noteq> TOYFS_SUPER_MAGIC then Inl EINVAL else Inr ())"

text \<open>
  The loop writes the device from its third page on, in pieces of 1024 bytes that never cross a page. The super
  block is in front of them. Only the data pages are written here: every inode and block reference is
  initialised when it is acquired.
\<close>

function write_pmem_loop :: "addr \<Rightarrow> nat \<Rightarrow> nat \<Rightarrow> toyfs_sb_info \<Rightarrow> toyfs_sb_info" where
  "write_pmem_loop pmem_addr pmem_total i s =
    (if i < pmem_total then
       write_pmem_loop pmem_addr pmem_total (i + 1024)
         (upd_dat (pmem_addr + PAGE_SIZE * (i div PAGE_SIZE)) (i mod PAGE_SIZE) 1024 (\<lambda>_. word_of_nat i) s)
     else s)"
  by pat_completeness auto
termination by (relation "measure (\<lambda>(_, n, i, _). n - i)") auto

declare write_pmem_loop.simps [simp del]

definition write_pmem_first_time :: "toyfs_sb_info \<Rightarrow> toyfs_sb_info" where
  "write_pmem_first_time s =
    (let pmem_total_blocks = md_t1_blocks (s_md s);
         pmem_total_size = md_p2o (s_md s) pmem_total_blocks;
         head_size = 2 * PAGE_SIZE
     in write_pmem_loop (p_pmem_addr (s_md s)) pmem_total_size head_size s)"

definition prepare_pmem_first_time :: "toyfs_sb_info \<Rightarrow> unit result \<times> toyfs_sb_info" where
  "prepare_pmem_first_time s =
    (case read_pmem_sb_first_time (s_md s) of Inl err \<Rightarrow> (Inl err, s)
     | Inr _ \<Rightarrow> (case read_pmem_sb_first_time (s_md s) of Inl err \<Rightarrow> (Inl err, s)
     | Inr _ \<Rightarrow> (let s1 = write_pmem_first_time s
                in case read_pmem_sb_first_time (s_md s1) of Inl err \<Rightarrow> (Inl err, s1) | Inr _ \<Rightarrow> (Inr (), s1))))"

definition sbi_init :: "addr option \<Rightarrow> bool \<Rightarrow> toyfs_sb_info \<Rightarrow> (unit result \<times> toyfs_sb_info) run" where
  "sbi_init mem tir_ok s =
    (let pmem_total_blocks = md_t1_blocks (s_md s) in
     if pmem_total_blocks < 1024 then Some (Inl EINVAL, s)
     else case prepare_pmem_first_time s of
       (Inl err, s1) \<Rightarrow> Some (Inl err, s1)
     | (Inr _, s1) \<Rightarrow> do {
         let msz = md_p2o (s_md s1) (pmem_total_blocks - 2);
         let memp = md_baddr (s_md s1) 2;
         let s2 = s1\<lparr>s_pool := pool_setup memp msz (s_pool s1)\<rparr>;
         let s3 = sbi_setup s2;
         (root, s4) \<leftarrow> new_root_inode mem tir_ok s3;
         (case root of Inl err \<Rightarrow> Some (Inl err, s4)
          | Inr root_tii \<Rightarrow> Some (Inr (), s4\<lparr>s_root := Some root_tii\<rparr>)) })"

record zufs_mount_info =
  zmi_zus_ii :: "addr option"
  zmi_s_blocksize_bits :: nat
  zmi_fs_caps :: nat

text \<open>\<open>acl_on\<close> is \<open>ZUFS_FSC_ACL_ON\<close>.\<close>

definition toyfs_sbi_init :: "nat \<Rightarrow> addr option \<Rightarrow> bool \<Rightarrow> zufs_mount_info \<Rightarrow> toyfs_sb_info \<Rightarrow>
    (unit result \<times> zufs_mount_info \<times> toyfs_sb_info) run" where
  "toyfs_sbi_init acl_on mem tir_ok zmi s = do {
     (err, s1) \<leftarrow> sbi_init mem tir_ok s;
     (case err of Inl e \<Rightarrow> Some (Inl e, zmi, s1)
      | Inr _ \<Rightarrow> Some (Inr (), zmi\<lparr>zmi_zus_ii := s_root s1, zmi_s_blocksize_bits := 12, zmi_fs_caps := acl_on\<rparr>, s1)) }"

end
