(* ===== verification/DirMap.thy ===== *)
theory DirMap
  imports ToyDir
begin

text \<open>
  What a directory stands for: the list of its entries, and the map from names to inode numbers. The
  invariant of a directory ties its size and block count to its entries and its pages. Lookup, insertion
  and removal of entries are shown to be the operations of that map, and the listing to deliver the entries in order.
\<close>

section \<open>The entries of a directory\<close>

abbreviation pages_of :: "toyfs_sb_info \<Rightarrow> addr \<Rightarrow> addr list" where
  "pages_of s g \<equiv> list_head (h_inode s g)"

definition page_refs :: "toyfs_sb_info \<Rightarrow> addr \<Rightarrow> (addr \<times> nat) list" where
  "page_refs s p = map (Pair p) (entries (h_dat s p) 0)"

definition dir_refs :: "toyfs_sb_info \<Rightarrow> addr \<Rightarrow> (addr \<times> nat) list" where
  "dir_refs s g = concat (map (page_refs s) (pages_of s g))"

definition ref_name :: "toyfs_sb_info \<Rightarrow> addr \<times> nat \<Rightarrow> byte list" where
  "ref_name s r = de_name (h_dat s (fst r)) (snd r)"

definition ref_ino :: "toyfs_sb_info \<Rightarrow> addr \<times> nat \<Rightarrow> nat" where
  "ref_ino s r = d_ino (h_dat s (fst r)) (snd r)"

definition ref_off :: "toyfs_sb_info \<Rightarrow> addr \<times> nat \<Rightarrow> int" where
  "ref_off s r = d_off (h_dat s (fst r)) (snd r)"

definition ref_type :: "toyfs_sb_info \<Rightarrow> addr \<times> nat \<Rightarrow> nat" where
  "ref_type s r = d_type (h_dat s (fst r)) (snd r)"

definition dir_alist :: "toyfs_sb_info \<Rightarrow> addr \<Rightarrow> (byte list \<times> nat) list" where
  "dir_alist s g = map (\<lambda>r. (ref_name s r, ref_ino s r)) (dir_refs s g)"

definition dir_map :: "toyfs_sb_info \<Rightarrow> addr \<Rightarrow> byte list \<Rightarrow> nat option" where
  "dir_map s g = map_of (dir_alist s g)"

definition offs_ok :: "toyfs_sb_info \<Rightarrow> addr list \<Rightarrow> bool" where
  "offs_ok s L = (\<forall>k<length L. \<forall>i\<in>set (entries (h_dat s (L ! k)) 0). d_off (h_dat s (L ! k)) i = 2 + 127 * int k + int i)"

definition dir_ok :: "toyfs_sb_info \<Rightarrow> addr \<Rightarrow> bool" where
  "dir_ok s g =
    (distinct (pages_of s g) \<and> (\<forall>p\<in>set (pages_of s g). page_ok (h_dat s p)) \<and> offs_ok s (pages_of s g) \<and>
     distinct (map fst (dir_alist s g)) \<and>
     i_size (h_inode s g) = PAGE_SIZE * length (dir_refs s g) \<and> i_blocks (h_inode s g) = length (pages_of s g))"

text \<open>The entries of a directory stay where they are.\<close>

definition refs_kept :: "toyfs_sb_info \<Rightarrow> toyfs_sb_info \<Rightarrow> addr \<Rightarrow> bool" where
  "refs_kept s s' h = (\<forall>r\<in>set (dir_refs s h). r \<in> set (dir_refs s' h) \<and> ref_name s' r = ref_name s r)"

lemma refs_kept_trans: "refs_kept s s' h \<Longrightarrow> refs_kept s' s'' h \<Longrightarrow> refs_kept s s'' h"
  by (simp add: refs_kept_def)

lemma dir_cong:
  assumes "pages_of s' g = pages_of s g" "\<And>p. p \<in> set (pages_of s g) \<Longrightarrow> h_dat s' p = h_dat s p"
  shows "dir_refs s' g = dir_refs s g" "dir_alist s' g = dir_alist s g" "dir_map s' g = dir_map s g"
    "i_size (h_inode s' g) = i_size (h_inode s g) \<Longrightarrow> i_blocks (h_inode s' g) = i_blocks (h_inode s g) \<Longrightarrow>
     dir_ok s' g = dir_ok s g"
    "refs_kept s s' g"
proof -
  have pr: "map (page_refs s') (pages_of s g) = map (page_refs s) (pages_of s g)"
    using assms(2) by (simp add: page_refs_def)
  show r: "dir_refs s' g = dir_refs s g" unfolding dir_refs_def assms(1) pr ..
  have m: "fst r \<in> set (pages_of s g)" if "r \<in> set (dir_refs s g)" for r
    using that by (auto simp: dir_refs_def page_refs_def)
  show a: "dir_alist s' g = dir_alist s g"
    unfolding dir_alist_def r using m assms(2) by (simp add: ref_name_def ref_ino_def)
  then show "dir_map s' g = dir_map s g" by (simp add: dir_map_def)
  show "refs_kept s s' g" unfolding refs_kept_def r using m assms(2) by (simp add: ref_name_def)
  assume "i_size (h_inode s' g) = i_size (h_inode s g)" "i_blocks (h_inode s' g) = i_blocks (h_inode s g)"
  moreover have "offs_ok s' (pages_of s g) = offs_ok s (pages_of s g)" using assms(2) by (simp add: offs_ok_def)
  ultimately show "dir_ok s' g = dir_ok s g" using assms(2) by (simp add: dir_ok_def assms(1) a r)
qed

lemma map_of_find: "map_of (map (\<lambda>r. (f r, h r)) xs) n = map_option h (find (\<lambda>r. f r = n) xs)"
  by (induction xs) auto

lemma find_map_Pair: "find P (map (Pair p) xs) = map_option (Pair p) (find (\<lambda>i. P (p, i)) xs)"
  by (induction xs) auto

lemma lookup_loop_find:
  assumes str: "str_ok str"
  shows "\<forall>p\<in>set L. page_ok (h_dat s p) \<Longrightarrow>
    lookup_loop s str L = find (\<lambda>r. ref_name s r = str_bytes str) (concat (map (page_refs s) L))"
proof (induction L)
  case (Cons p L)
  then have "find_dirent (h_dat s p) str = find (\<lambda>j. de_name (h_dat s p) j = str_bytes str) (entries (h_dat s p) 0)"
    by (intro find_dirent_spec) (use str in simp_all)
  then show ?case using Cons
    by (auto simp: find_append page_refs_def find_map_Pair ref_name_def split: option.splits)
qed simp

lemma lookup_dirent_find:
  "dir_ok s g \<Longrightarrow> str_ok str \<Longrightarrow>
   toyfs_lookup_dirent g str s = find (\<lambda>r. ref_name s r = str_bytes str) (dir_refs s g)"
  unfolding toyfs_lookup_dirent_def toyfs_childs_list_of_def dir_refs_def
  by (rule lookup_loop_find) (simp_all add: dir_ok_def)

lemma lookup_ino_map:
  assumes "dir_ok s g" "str_ok str"
  shows "lookup_ino g str s = (case dir_map s g (str_bytes str) of None \<Rightarrow> 0 | Some ino \<Rightarrow> ino)"
  using lookup_dirent_find [OF assms]
  by (auto simp: lookup_ino_def dir_map_def dir_alist_def map_of_find ref_ino_def split: option.splits)

lemma dir_map_None_iff: "dir_map s g n = None \<longleftrightarrow> n \<notin> ref_name s ` set (dir_refs s g)"
  by (auto simp: dir_map_def dir_alist_def map_of_eq_None_iff image_image)

section \<open>Insertion and removal\<close>

lemma map_of_insert: "x \<notin> fst ` set (P @ Q) \<Longrightarrow> map_of (P @ (x, v) # Q) = (map_of (P @ Q))(x \<mapsto> v)"
  by (induction P) (auto simp: fun_upd_twist)

lemma map_of_remove:
  "distinct (map fst (P @ (x, v) # Q)) \<Longrightarrow> map_of (P @ Q) = (map_of (P @ (x, v) # Q))(x := None)"
proof -
  assume d: "distinct (map fst (P @ (x, v) # Q))"
  then have n: "x \<notin> fst ` set (P @ Q)" by auto
  then have "map_of (P @ Q) x = None" by (simp only: map_of_eq_None_iff not_False_eq_True)
  then show ?thesis unfolding map_of_insert [OF n] by (simp add: fun_upd_idem)
qed

text \<open>
  Both operations replace one page of the directory: \<open>M\<close> in place of \<open>K\<close> between the entries \<open>A\<close> and \<open>B\<close>.
\<close>

lemma replace_page:
  assumes L: "pages_of s g = L1 @ p # L2" "distinct (pages_of s g)"
    and L': "pages_of s' g = pages_of s g" "\<And>q. q \<in> set L1 \<union> set L2 \<Longrightarrow> h_dat s' q = h_dat s q"
    and e: "entries (h_dat s p) 0 = A @ K @ B" "entries (h_dat s' p) 0 = A @ M @ B"
    and same: "\<forall>i\<in>set (A @ B). same_entry (h_dat s p) (h_dat s' p) i"
  shows "\<exists>P Q. dir_refs s g = P @ map (Pair p) K @ Q \<and> dir_refs s' g = P @ map (Pair p) M @ Q \<and>
    (\<forall>r\<in>set (P @ Q). ref_name s' r = ref_name s r \<and> ref_ino s' r = ref_ino s r \<and>
       ref_off s' r = ref_off s r \<and> ref_type s' r = ref_type s r)"
proof -
  let ?R = "\<lambda>s L. concat (map (page_refs s) L)"
  have q: "map (page_refs s') L1 = map (page_refs s) L1" "map (page_refs s') L2 = map (page_refs s) L2"
    using L'(2) by (simp_all add: page_refs_def)
  let ?P = "?R s L1 @ map (Pair p) A" and ?Q = "map (Pair p) B @ ?R s L2"
  have "dir_refs s g = ?P @ map (Pair p) K @ ?Q" using L(1) e by (simp add: dir_refs_def page_refs_def)
  moreover have "dir_refs s' g = ?P @ map (Pair p) M @ ?Q"
  proof -
    have "dir_refs s' g = ?R s' L1 @ page_refs s' p @ ?R s' L2" using L(1) L'(1) by (simp add: dir_refs_def)
    then show ?thesis unfolding q using e(2) by (simp add: page_refs_def)
  qed
  moreover have "ref_name s' r = ref_name s r \<and> ref_ino s' r = ref_ino s r \<and> ref_off s' r = ref_off s r \<and>
      ref_type s' r = ref_type s r" if "r \<in> set (?P @ ?Q)" for r
  proof (cases "fst r = p")
    case True
    then have "snd r \<in> set (A @ B)" using that L by (cases r) (auto simp: page_refs_def)
    then show ?thesis using same True by (auto simp: same_entry_def ref_name_def ref_ino_def ref_off_def ref_type_def)
  next
    case False
    then have "fst r \<in> set L1 \<union> set L2" using that by (auto simp: page_refs_def)
    then show ?thesis using L'(2) by (simp add: ref_name_def ref_ino_def ref_off_def ref_type_def)
  qed
  ultimately show ?thesis by blast
qed

lemma offs_ok_page:
  assumes o: "offs_ok s (L1 @ p # L2)" and d: "distinct (L1 @ p # L2)"
    and L': "\<And>q. q \<in> set L1 \<union> set L2 \<Longrightarrow> h_dat s' q = h_dat s q"
    and p: "\<And>i. i \<in> set (entries (h_dat s' p) 0) \<Longrightarrow> d_off (h_dat s' p) i = 2 + 127 * int (length L1) + int i"
  shows "offs_ok s' (L1 @ p # L2)"
  unfolding offs_ok_def
proof (intro allI impI)
  fix k assume k: "k < length (L1 @ p # L2)"
  show "\<forall>i\<in>set (entries (h_dat s' ((L1 @ p # L2) ! k)) 0).
      d_off (h_dat s' ((L1 @ p # L2) ! k)) i = 2 + 127 * int k + int i"
  proof (cases "k = length L1")
    case True
    then show ?thesis using p by simp
  next
    case False
    then have "(L1 @ p # L2) ! k \<in> set L1 \<union> set L2" using k by (auto simp: nth_append nth_Cons')
    then show ?thesis using o k L' by (simp add: offs_ok_def)
  qed
qed

lemma offs_okD: "offs_ok s L \<Longrightarrow> k < length L \<Longrightarrow> i \<in> set (entries (h_dat s (L ! k)) 0) \<Longrightarrow>
    d_off (h_dat s (L ! k)) i = 2 + 127 * int k + int i"
  by (simp add: offs_ok_def)

lemma search_free_less:
  assumes "page_ok pg" "search_free pg nlen = Some i"
  shows "i < NR_DE"
proof -
  have "i + namelen_to_nde nlen \<le> NR_DE"
    using search_free_seg [OF namelen_to_nde_pos, of pg 0 "entries pg 0" nlen i] assms
    unfolding page_ok_def search_free_def by blast
  then show ?thesis using namelen_to_nde_pos [of nlen] by linarith
qed

lemma dir_insert_slot:
  assumes ok: "dir_ok s g" and L: "pages_of s g = L1 @ p # L2" and str: "str_ok str" and ino: "0 < ino" "ino < 2 ^ 64"
    and len: "length (pages_of s g) < 2 ^ 40" and free: "search_free (h_dat s p) (str_len str) = Some i"
    and new: "dir_map s g (str_bytes str) = None"
    and off: "off = 2 + 127 * int (length L1) + int i"
    and pg: "h_dat s' p = set_dirent i (str_name str) (str_len str) ino mode off (store_d_off i off (h_dat s p))"
    and oth: "pages_of s' g = pages_of s g" "\<And>q. q \<in> set L1 \<union> set L2 \<Longrightarrow> h_dat s' q = h_dat s q"
    and sz: "i_size (h_inode s' g) = PAGE_SIZE + i_size (h_inode s g)" "i_blocks (h_inode s' g) = i_blocks (h_inode s g)"
  shows "dir_ok s' g \<and> dir_map s' g = (dir_map s g)(str_bytes str \<mapsto> ino) \<and> refs_kept s s' g"
proof -
  have k: "distinct (pages_of s g)" "page_ok (h_dat s p)" "\<forall>q\<in>set (pages_of s g). page_ok (h_dat s q)"
    "offs_ok s (pages_of s g)" "distinct (map fst (dir_alist s g))" using ok L by (auto simp: dir_ok_def)
  have i: "i < NR_DE" by (rule search_free_less [OF k(2) free])
  have "int (length L1) < 2 ^ 40" using len L by simp
  then have ob: "- (2 ^ 63) \<le> off" "off < 2 ^ 63" using i off by simp_all
  note I = page_insert [OF k(2) free str ino ob _ pg]
  have st: "store_d_off i off (h_dat s p) n = h_dat s p n" if "n < de_pos i \<or> de_pos (i + 1) \<le> n" for n
    using that by (auto simp: store_d_off_def pg_copy_def de_pos_def)
  from I [OF st] obtain A B where AB: "entries (h_dat s p) 0 = A @ [] @ B" "entries (h_dat s' p) 0 = A @ [i] @ B"
    "\<forall>j\<in>set (A @ B). same_entry (h_dat s p) (h_dat s' p) j"
    and nw: "page_ok (h_dat s' p)" "de_name (h_dat s' p) i = str_bytes str" "d_ino (h_dat s' p) i = ino" "d_off (h_dat s' p) i = off"
    by auto
  from replace_page [OF L k(1) oth AB] obtain P Q where PQ: "dir_refs s g = P @ Q" "dir_refs s' g = P @ (p, i) # Q"
    "\<forall>r\<in>set (P @ Q). ref_name s' r = ref_name s r \<and> ref_ino s' r = ref_ino s r" by auto
  let ?a = "\<lambda>r. (ref_name s r, ref_ino s r)"
  have al: "dir_alist s g = map ?a P @ map ?a Q" "dir_alist s' g = map ?a P @ (str_bytes str, ino) # map ?a Q"
    using PQ nw by (simp_all add: dir_alist_def ref_name_def ref_ino_def)
  have nin: "str_bytes str \<notin> fst ` set (map ?a P @ map ?a Q)"
    using new unfolding dir_map_def al map_of_eq_None_iff by (metis)
  have o': "offs_ok s' (L1 @ p # L2)"
  proof (rule offs_ok_page [of s])
    show "offs_ok s (L1 @ p # L2)" "distinct (L1 @ p # L2)" using k L by simp_all
    fix j assume "j \<in> set (entries (h_dat s' p) 0)"
    then have "j = i \<or> j \<in> set (A @ B)" using AB(2) by auto
    then show "d_off (h_dat s' p) j = 2 + 127 * int (length L1) + int j"
    proof
      assume j: "j \<in> set (A @ B)"
      then have "d_off (h_dat s p) j = 2 + 127 * int (length L1) + int j"
        using offs_okD [OF k(4), of "length L1" j] L AB(1) by simp
      then show ?thesis using AB(3) j by (simp add: same_entry_def)
    qed (use nw off in simp)
  qed (use oth in simp)
  have "dir_map s' g = (dir_map s g)(str_bytes str \<mapsto> ino)"
    unfolding dir_map_def al by (rule map_of_insert [OF nin])
  moreover have "dir_ok s' g"
    unfolding dir_ok_def
  proof (intro conjI)
    show "distinct (map fst (dir_alist s' g))" using k(5) nin unfolding al by (auto simp: image_Un image_image)
    show "\<forall>q\<in>set (pages_of s' g). page_ok (h_dat s' q)" using k(3) nw(1) oth L by (auto simp del: Un_iff)
    show "i_size (h_inode s' g) = PAGE_SIZE * length (dir_refs s' g)" using ok sz PQ by (simp add: dir_ok_def)
  qed (use k oth o' L sz ok in \<open>simp_all add: dir_ok_def\<close>)
  moreover have "refs_kept s s' g" using PQ by (auto simp: refs_kept_def)
  ultimately show ?thesis by blast
qed

lemma dir_remove_slot:
  assumes ok: "dir_ok s g" and L: "pages_of s g = L1 @ p # L2" and i: "i \<in> set (entries (h_dat s p) 0)"
    and pg: "reset_dirent i (h_dat s p) = Some (h_dat s' p)"
    and oth: "pages_of s' g = pages_of s g" "\<And>q. q \<in> set L1 \<union> set L2 \<Longrightarrow> h_dat s' q = h_dat s q"
    and sz: "i_size (h_inode s g) = PAGE_SIZE + i_size (h_inode s' g)" "i_blocks (h_inode s' g) = i_blocks (h_inode s g)"
  shows "dir_ok s' g \<and> dir_map s' g = (dir_map s g)(ref_name s (p, i) := None)"
proof -
  have k: "distinct (pages_of s g)" "page_ok (h_dat s p)" "\<forall>q\<in>set (pages_of s g). page_ok (h_dat s q)"
    "offs_ok s (pages_of s g)" "distinct (map fst (dir_alist s g))" using ok L by (auto simp: dir_ok_def)
  from i obtain A B where e: "entries (h_dat s p) 0 = A @ i # B" by (auto simp: in_set_conv_decomp)
  from page_remove [OF k(2) e] pg have nw: "page_ok (h_dat s' p)"
    and AB: "entries (h_dat s p) 0 = A @ [i] @ B" "entries (h_dat s' p) 0 = A @ [] @ B"
      "\<forall>j\<in>set (A @ B). same_entry (h_dat s p) (h_dat s' p) j" using e by auto
  from replace_page [OF L k(1) oth AB] obtain P Q where PQ: "dir_refs s g = P @ (p, i) # Q" "dir_refs s' g = P @ Q"
    "\<forall>r\<in>set (P @ Q). ref_name s' r = ref_name s r \<and> ref_ino s' r = ref_ino s r" by auto
  let ?a = "\<lambda>r. (ref_name s r, ref_ino s r)"
  have al: "dir_alist s g = map ?a P @ (ref_name s (p, i), ref_ino s (p, i)) # map ?a Q"
    "dir_alist s' g = map ?a P @ map ?a Q" using PQ by (simp_all add: dir_alist_def)
  have o': "offs_ok s' (L1 @ p # L2)"
  proof (rule offs_ok_page [of s])
    show "offs_ok s (L1 @ p # L2)" "distinct (L1 @ p # L2)" using k L by simp_all
    fix j assume j: "j \<in> set (entries (h_dat s' p) 0)"
    then have "d_off (h_dat s p) j = 2 + 127 * int (length L1) + int j"
      using offs_okD [OF k(4), of "length L1" j] L AB by auto
    then show "d_off (h_dat s' p) j = 2 + 127 * int (length L1) + int j" using AB j by (simp add: same_entry_def)
  qed (use oth in simp)
  have "dir_map s' g = (dir_map s g)(ref_name s (p, i) := None)"
    unfolding dir_map_def al by (rule map_of_remove) (use k(5) in \<open>simp add: al\<close>)
  moreover have "dir_ok s' g"
    unfolding dir_ok_def
  proof (intro conjI)
    show "distinct (map fst (dir_alist s' g))" using k(5) unfolding al by auto
    show "\<forall>q\<in>set (pages_of s' g). page_ok (h_dat s' q)" using k(3) nw(1) oth L by (auto simp del: Un_iff)
    show "i_size (h_inode s' g) = PAGE_SIZE * length (dir_refs s' g)" using ok sz PQ by (simp add: dir_ok_def)
  qed (use k oth o' L sz ok in \<open>simp_all add: dir_ok_def\<close>)
  ultimately show ?thesis by blast
qed

text \<open>An empty page at the end of the list adds no entry.\<close>

lemma dir_grow:
  assumes ok: "dir_ok s g" and p: "p \<notin> set (pages_of s g)" "\<And>k. k < PAGE_SIZE \<Longrightarrow> h_dat s' p k = 0"
    and oth: "pages_of s' g = pages_of s g @ [p]" "\<And>q. q \<in> set (pages_of s g) \<Longrightarrow> h_dat s' q = h_dat s q"
    and sz: "i_size (h_inode s' g) = i_size (h_inode s g)" "i_blocks (h_inode s' g) = i_blocks (h_inode s g) + 1"
  shows "dir_ok s' g" "dir_map s' g = dir_map s g" "nlen < 256 \<Longrightarrow> search_free (h_dat s' p) nlen = Some 0"
    "refs_kept s s' g"
proof -
  have z: "d_nlen (h_dat s' p) k = 0" if "k < NR_DE" for k
    using p(2) [of "de_pos k + 17"] that by (simp add: d_nlen_def de_pos_def)
  note e = page_ok_empty [of "h_dat s' p", OF z]
  show "nlen < 256 \<Longrightarrow> search_free (h_dat s' p) nlen = Some 0" by (rule search_free_empty [OF z])
  have pr: "map (page_refs s') (pages_of s g) = map (page_refs s) (pages_of s g)" "page_refs s' p = []"
    using oth(2) e by (simp_all add: page_refs_def)
  have r: "dir_refs s' g = dir_refs s g" unfolding dir_refs_def oth(1) map_append pr(1) by (simp add: pr(2))
  have m: "fst x \<in> set (pages_of s g)" if "x \<in> set (dir_refs s g)" for x
    using that by (auto simp: dir_refs_def page_refs_def)
  have a: "dir_alist s' g = dir_alist s g"
    unfolding dir_alist_def r using m oth(2) by (simp add: ref_name_def ref_ino_def)
  then show "dir_map s' g = dir_map s g" by (simp add: dir_map_def)
  show "refs_kept s s' g" unfolding refs_kept_def r using m oth(2) by (simp add: ref_name_def)
  have "offs_ok s' (pages_of s g @ [p])"
    using ok oth(2) e by (auto simp: dir_ok_def offs_ok_def nth_append less_Suc_eq)
  then show "dir_ok s' g" using ok p(1) oth e sz unfolding dir_ok_def by (auto simp: r a)
qed

section \<open>Directories in a file system\<close>

text \<open>\<open>G\<close> are the inodes of the directories; their pages are among the pages \<open>X\<close> that do not belong to files.\<close>

definition dirs_ok :: "addr set \<Rightarrow> addr set \<Rightarrow> toyfs_sb_info \<Rightarrow> bool" where
  "dirs_ok X G s =
    ((\<forall>g\<in>G. dir_ok s g \<and> set (pages_of s g) \<subseteq> X) \<and>
     (\<forall>g\<in>G. \<forall>h\<in>G. g \<noteq> h \<longrightarrow> set (pages_of s g) \<inter> set (pages_of s h) = {}))"

definition tree_ok :: "addr set \<Rightarrow> addr set \<Rightarrow> addr set \<Rightarrow> toyfs_sb_info \<Rightarrow> bool" where
  "tree_ok X F G s =
    (\<exists>D B I N. pool_inv D B I N s \<and> blocks_inv D B I N X F s \<and> G \<subseteq> N \<and> F \<inter> G = {} \<and> dirs_ok X G s)"

text \<open>What an operation on directory \<open>g\<close> leaves alone.\<close>

definition kept :: "addr set \<Rightarrow> addr set \<Rightarrow> addr \<Rightarrow> toyfs_sb_info \<Rightarrow> toyfs_sb_info \<Rightarrow> bool" where
  "kept F G g s s' =
    ((\<forall>t\<in>F. content s' t = content s t \<and> i_size (h_inode s' t) = i_size (h_inode s t)) \<and>
     (\<forall>h\<in>G. h \<noteq> g \<longrightarrow> dir_map s' h = dir_map s h \<and> pages_of s' h = pages_of s h) \<and>
     (\<forall>u. i_mode (h_inode s' u) = i_mode (h_inode s u)) \<and> h_tii s' = h_tii s \<and>
     f_blocks (s_statvfs s') = f_blocks (s_statvfs s))"

lemma kept_refl [simp]: "kept F G g s s"
  by (simp add: kept_def)

lemma kept_trans: "kept F G g s s' \<Longrightarrow> kept F G g s' s'' \<Longrightarrow> kept F G g s s''"
  by (simp add: kept_def)

lemma tree_okD:
  assumes "tree_ok X F G s" "g \<in> G"
  shows "dir_ok s g" "set (pages_of s g) \<subseteq> X" "\<exists>N. fs_ok N X F s \<and> G \<subseteq> N"
  using assms by (auto simp: tree_ok_def dirs_ok_def fs_ok_def)

lemma blocks_inv_meta:
  assumes md: "s_md s' = s_md s" and h: "h_dblkref s' = h_dblkref s" "h_iblkref s' = h_iblkref s"
    and l: "\<And>t. t \<in> F \<Longrightarrow> list_head (h_inode s' t) = list_head (h_inode s t) \<and> i_blocks (h_inode s' t) = i_blocks (h_inode s t)"
  shows "blocks_inv D B I N X F s' = blocks_inv D B I N X F s"
proof -
  have d: "dpage s' = dpage s" by (intro ext dpage_cong) (simp_all add: md h)
  have r: "refs F s' = refs F s" using l by (auto simp: refs_def h fun_eq_iff)
  show ?thesis unfolding blocks_inv_def d r h using l by (simp add: list_ok_def h cong: ball_cong)
qed

lemma content_meta:
  assumes inv: "blocks_inv D B I N X F s" and t: "t \<in> F" and md: "s_md s' = s_md s"
    and h: "h_dblkref s' = h_dblkref s" "h_iblkref s' = h_iblkref s"
    and l: "list_head (h_inode s' t) = list_head (h_inode s t)" and dat: "\<And>q. q \<notin> X \<Longrightarrow> q \<in> D \<Longrightarrow> h_dat s' q = h_dat s q"
  shows "content s' t = content s t"
proof
  fix pos
  have f: "fetch_iblkref t pos s' = fetch_iblkref t pos s" by (rule fetch_cong) (simp_all add: l h)
  have d: "dpage s' = dpage s" by (intro ext dpage_cong) (simp_all add: md h)
  show "content s' t pos = content s t pos"
  proof (cases "fetch_iblkref t pos s")
    case (Some ib)
    then have "ib \<in> set (list_head (h_inode s t))" using fetch_SomeD by blast
    from blocks_ibD [OF inv t this] obtain e where "ib_dblkref (h_iblkref s ib) = Some e" "e \<in> B" by auto
    moreover from this have "dpage s e \<in> D" "dpage s e \<notin> X" using inv by (auto simp: blocks_inv_def)
    ultimately show ?thesis using Some dat by (simp add: content_def f d h)
  qed (simp add: content_def f)
qed

lemma dirs_disjoint: "dirs_ok X G s \<Longrightarrow> g \<in> G \<Longrightarrow> h \<in> G \<Longrightarrow> g \<noteq> h \<Longrightarrow> set (pages_of s g) \<inter> set (pages_of s h) = {}"
  by (simp add: dirs_ok_def)

lemma tree_dir_step:
  assumes ok: "tree_ok X F G s" and g: "g \<in> G" and p: "p \<in> set (pages_of s g)"
    and fr: "s_md s' = s_md s" "s_pool s' = s_pool s" "s_statvfs s' = s_statvfs s" "h_dblkref s' = h_dblkref s"
      "h_iblkref s' = h_iblkref s" "h_tii s' = h_tii s" "\<And>q. q \<noteq> p \<Longrightarrow> h_dat s' q = h_dat s q"
    and ino: "\<And>u. pages_of s' u = pages_of s u" "\<And>u. i_blocks (h_inode s' u) = i_blocks (h_inode s u)"
      "\<And>u. i_mode (h_inode s' u) = i_mode (h_inode s u)" "\<And>u. u \<noteq> g \<Longrightarrow> i_size (h_inode s' u) = i_size (h_inode s u)"
    and dok: "dir_ok s' g"
  shows "tree_ok X F G s'" "kept F G g s s'" "\<And>h. h \<in> G \<Longrightarrow> h \<noteq> g \<Longrightarrow> refs_kept s s' h"
proof -
  from ok obtain D B I N where inv: "pool_inv D B I N s" "blocks_inv D B I N X F s" "G \<subseteq> N" "F \<inter> G = {}" "dirs_ok X G s"
    by (auto simp: tree_ok_def)
  have pX: "p \<in> X" using inv(5) g p by (auto simp: dirs_ok_def)
  have dis: "p \<notin> set (pages_of s h)" if "h \<in> G" "h \<noteq> g" for h
    using dirs_disjoint [OF inv(5) g that(1)] that(2) p by auto
  have h: "dir_map s' h = dir_map s h" "dir_ok s' h = dir_ok s h" "refs_kept s s' h" if "h \<in> G" "h \<noteq> g" for h
    using dir_cong [of s' h s] ino fr(7) dis [OF that] that(2) by metis+
  show "\<And>h. h \<in> G \<Longrightarrow> h \<noteq> g \<Longrightarrow> refs_kept s s' h" by (rule h(3))
  have "pool_inv D B I N s'" using inv(1) pool_inv_cong [OF fr(1-3)] by simp
  moreover have "blocks_inv D B I N X F s'" using inv(2) blocks_inv_meta [OF fr(1,4,5), of F] ino by simp
  moreover have "dirs_ok X G s'" using inv(5) h(2) dok unfolding dirs_ok_def ino(1) by metis
  ultimately show "tree_ok X F G s'" using inv by (auto simp: tree_ok_def)
  have "content s' t = content s t" if "t \<in> F" for t
    by (rule content_meta [OF inv(2) that fr(1,4,5) ino(1)]) (metis fr(7) pX)
  moreover have "i_size (h_inode s' t) = i_size (h_inode s t)" if "t \<in> F" for t
    by (rule ino(4)) (use that inv(4) g in blast)
  ultimately show "kept F G g s s'" using ino(1,3) h(1) fr(3,6) unfolding kept_def by simp
qed

lemma blocks_inv_grow:
  assumes inv: "blocks_inv D B I N X F s" and p: "p \<notin> D"
  shows "blocks_inv (insert p D) B I N (insert p X) F s"
proof -
  have "dpage s d \<noteq> p" if "d \<in> B" for d using inv that p by (auto simp: blocks_inv_def)
  then show ?thesis using inv by (auto simp: blocks_inv_def)
qed

lemma tree_grow:
  assumes ok: "tree_ok X F G s" and g: "g \<in> G" and a: "toyfs_acquire_pmemb s = (Some p, s1)"
    and s2: "s2 = upd_inode g (\<lambda>zi. zi\<lparr>i_blocks := i_blocks zi + 1, list_head := list_head zi @ [p]\<rparr>) s1"
  shows "tree_ok (insert p X) F G s2" "kept F G g s s2" "dir_map s2 g = dir_map s g"
    "pages_of s2 g = pages_of s g @ [p]" "nlen < 256 \<Longrightarrow> search_free (h_dat s2 p) nlen = Some 0" "p \<notin> X"
    "\<And>h. h \<in> G \<Longrightarrow> refs_kept s s2 h"
proof -
  from ok obtain D B I N where inv: "pool_inv D B I N s" "blocks_inv D B I N X F s" "G \<subseteq> N" "F \<inter> G = {}" "dirs_ok X G s"
    by (auto simp: tree_ok_def)
  note A = page_src.acquire_law [OF inv(1) a] and fr = acquire_pmemb_frame [OF a]
  have XD: "X \<subseteq> D" using inv(2) by (simp add: blocks_inv_def)
  then show pX: "p \<notin> X" using A by auto
  have dat: "h_dat s2 q = h_dat s q" if "q \<noteq> p" for q using fr that by (auto simp: s2)
  have z: "h_dat s2 p k = 0" if "k < PAGE_SIZE" for k using fr that by (simp add: s2)
  show L: "pages_of s2 g = pages_of s g @ [p]" using fr by (simp add: s2)
  have ino: "h_inode s2 u = h_inode s u" if "u \<noteq> g" for u using fr that by (simp add: s2)
  have pin: "p \<notin> set (pages_of s h)" if "h \<in> G" for h using inv(5) that pX by (auto simp: dirs_ok_def)
  have gd: "dir_ok s g" using inv(5) g by (simp add: dirs_ok_def)
  have sz: "i_size (h_inode s2 g) = i_size (h_inode s g)" "i_blocks (h_inode s2 g) = i_blocks (h_inode s g) + 1"
    using fr by (simp_all add: s2)
  have G: "dir_ok s2 g" "dir_map s2 g = dir_map s g" "nlen < 256 \<Longrightarrow> search_free (h_dat s2 p) nlen = Some 0" "refs_kept s s2 g"
    by (rule dir_grow [OF gd pin [OF g] z L dat sz]; use pin [OF g] in blast)+
  then show "dir_map s2 g = dir_map s g" "nlen < 256 \<Longrightarrow> search_free (h_dat s2 p) nlen = Some 0" by simp_all
  have h: "dir_map s2 h = dir_map s h" "dir_ok s2 h = dir_ok s h" "refs_kept s s2 h" if "h \<in> G" "h \<noteq> g" for h
    using dir_cong [of s2 h s] ino [OF that(2)] dat pin [OF that(1)] by metis+
  show "refs_kept s s2 h" if "h \<in> G" for h using that h(3) G(4) by (cases "h = g") auto
  have gF: "g \<notin> F" using inv(4) g by auto
  have md: "s_md s2 = s_md s" "h_dblkref s2 = h_dblkref s" "h_iblkref s2 = h_iblkref s" using fr by (simp_all add: s2)
  have "blocks_inv D' B I N X' F s2 = blocks_inv D' B I N X' F s" for D' X'
    by (rule blocks_inv_meta [OF md]) (metis ino gF)
  then have bi: "blocks_inv (insert p D) B I N (insert p X) F s2"
    using blocks_inv_grow [OF inv(2), of p] A by simp
  have "dirs_ok (insert p X) G s2"
    unfolding dirs_ok_def
  proof (intro conjI ballI impI)
    fix h assume hG: "h \<in> G"
    show "dir_ok s2 h" using hG h(2) G(1) inv(5) by (cases "h = g") (auto simp: dirs_ok_def)
    show "set (pages_of s2 h) \<subseteq> insert p X"
      using hG L ino inv(5) by (cases "h = g") (auto simp: dirs_ok_def)
    fix u assume u: "u \<in> G" "h \<noteq> u"
    have "set (pages_of s h) \<inter> set (pages_of s u) = {}" using inv(5) hG u by (simp add: dirs_ok_def)
    then show "set (pages_of s2 h) \<inter> set (pages_of s2 u) = {}"
      using L ino pin hG u by (cases "h = g"; cases "u = g") auto
  qed
  moreover have "pool_inv (insert p D) B I N s2" using A by (simp add: s2)
  ultimately show "tree_ok (insert p X) F G s2" using bi inv(3,4) by (auto simp: tree_ok_def)
  have "content s2 t = content s t" if "t \<in> F" for t
    by (rule content_meta [OF inv(2) that]) (use fr ino gF that dat A in \<open>auto simp: s2\<close>)
  moreover have "f_blocks (s_statvfs s2) = f_blocks (s_statvfs s)"
    using a by (auto simp: s2 toyfs_acquire_pmemb_def split: if_splits prod.splits option.splits)
  ultimately show "kept F G g s s2" using h ino gF fr unfolding kept_def by (auto simp: s2)
qed

text \<open>A directory has no more pages than the device, so its offsets and sizes do not overflow.\<close>

definition dev_small :: "toyfs_sb_info \<Rightarrow> bool" where
  "dev_small s = (f_blocks (s_statvfs s) + 1 < 2 ^ 40)"

lemma pages_bound:
  assumes ok: "tree_ok X F G s" and g: "g \<in> G" and s: "dev_small s"
  shows "length (pages_of s g) + 1 < 2 ^ 40" "length (pages_of s g) < 2 ^ 40"
proof -
  from ok obtain D B I N where inv: "pool_inv D B I N s" "blocks_inv D B I N X F s" "dirs_ok X G s"
    by (auto simp: tree_ok_def)
  have "set (pages_of s g) \<subseteq> D" "distinct (pages_of s g)"
    using inv(2,3) g by (auto simp: dirs_ok_def blocks_inv_def dir_ok_def)
  moreover have "finite D" by (rule pool_inv_finite [OF inv(1)])
  moreover have "card D \<le> f_blocks (s_statvfs s)"
  proof -
    from inv(1) obtain r where "role_inv r D B I N s" by (auto simp: pool_inv_def)
    then have "f_bfree (s_statvfs s) + card D = f_blocks (s_statvfs s)" unfolding role_inv_def Let_def by (elim conjE)
    then show ?thesis by linarith
  qed
  ultimately have "length (pages_of s g) \<le> f_blocks (s_statvfs s)"
    by (metis card_mono distinct_card order_trans)
  then show "length (pages_of s g) + 1 < 2 ^ 40" "length (pages_of s g) < 2 ^ 40" using s by (simp_all add: dev_small_def)
qed

text \<open>Updates of an inode that keep its list, its block count and its size.\<close>

lemma tree_meta:
  assumes f: "\<And>zi. list_head (f zi) = list_head zi" "\<And>zi. i_blocks (f zi) = i_blocks zi" "\<And>zi. i_size (f zi) = i_size zi"
    "\<And>zi. i_mode (f zi) = i_mode zi"
  shows "tree_ok X F G (upd_inode t f s) = tree_ok X F G s" "dir_map (upd_inode t f s) g = dir_map s g"
    "kept F G g s (upd_inode t f s)"
proof -
  let ?s = "upd_inode t f s"
  have l: "pages_of ?s u = pages_of s u" "i_blocks (h_inode ?s u) = i_blocks (h_inode s u)"
    "i_size (h_inode ?s u) = i_size (h_inode s u)" "i_mode (h_inode ?s u) = i_mode (h_inode s u)" for u using f by simp_all
  have d: "dir_map ?s u = dir_map s u" "dir_ok ?s u = dir_ok s u" for u using dir_cong [of ?s u s] l by simp_all
  then show "dir_map ?s g = dir_map s g" by simp
  show "tree_ok X F G ?s = tree_ok X F G s"
    unfolding tree_ok_def dirs_ok_def d l pool_inv_upd upd_size_blocks(1) [OF f(1,2)] ..
  show "kept F G g s ?s" unfolding kept_def d l upd_size_blocks(3) [OF f(1,2)] by simp
qed

section \<open>The operations\<close>

lemma upd_page_frame [simp]:
  "s_md (upd_page p f s) = s_md s" "s_pool (upd_page p f s) = s_pool s" "s_statvfs (upd_page p f s) = s_statvfs s"
  "h_dblkref (upd_page p f s) = h_dblkref s" "h_iblkref (upd_page p f s) = h_iblkref s" "h_tii (upd_page p f s) = h_tii s"
  "h_inode (upd_page p f s) = h_inode s" "h_dat (upd_page p f s) = (h_dat s)(p := f (h_dat s p))"
  by (simp_all add: upd_page_def)

lemma std_dentry_frame [simp]:
  "s_md (zus_std_add_dentry d z s) = s_md s" "s_pool (zus_std_add_dentry d z s) = s_pool s"
  "s_statvfs (zus_std_add_dentry d z s) = s_statvfs s" "h_dblkref (zus_std_add_dentry d z s) = h_dblkref s"
  "h_iblkref (zus_std_add_dentry d z s) = h_iblkref s" "h_tii (zus_std_add_dentry d z s) = h_tii s"
  "h_dat (zus_std_add_dentry d z s) = h_dat s"
  "s_md (zus_std_remove_dentry d z s) = s_md s" "s_pool (zus_std_remove_dentry d z s) = s_pool s"
  "s_statvfs (zus_std_remove_dentry d z s) = s_statvfs s" "h_dblkref (zus_std_remove_dentry d z s) = h_dblkref s"
  "h_iblkref (zus_std_remove_dentry d z s) = h_iblkref s" "h_tii (zus_std_remove_dentry d z s) = h_tii s"
  "h_dat (zus_std_remove_dentry d z s) = h_dat s"
  by (simp_all add: zus_std_add_dentry_def zus_std_remove_dentry_def Let_def)

lemma std_dentry_inode [simp]:
  "list_head (h_inode (zus_std_add_dentry d z s) u) = list_head (h_inode s u)"
  "i_blocks (h_inode (zus_std_add_dentry d z s) u) = i_blocks (h_inode s u)"
  "i_mode (h_inode (zus_std_add_dentry d z s) u) = i_mode (h_inode s u)"
  "i_size (h_inode (zus_std_add_dentry d z s) u) = i_size (h_inode s u)"
  "list_head (h_inode (zus_std_remove_dentry d z s) u) = list_head (h_inode s u)"
  "i_blocks (h_inode (zus_std_remove_dentry d z s) u) = i_blocks (h_inode s u)"
  "i_mode (h_inode (zus_std_remove_dentry d z s) u) = i_mode (h_inode s u)"
  "i_size (h_inode (zus_std_remove_dentry d z s) u) = i_size (h_inode s u)"
  by (simp_all add: zus_std_add_dentry_def zus_std_remove_dentry_def Let_def)

lemma entries_length: "length (entries pg 0) \<le> NR_DE" if "page_ok pg"
proof -
  note s = that [unfolded page_ok_def]
  have "set (entries pg 0) \<subseteq> {..<NR_DE}"
  proof
    fix j assume "j \<in> set (entries pg 0)"
    then have "j + namelen_to_nde (d_nlen pg j) \<le> NR_DE" using seg_inside [OF s] by blast
    then show "j \<in> {..<NR_DE}" using namelen_to_nde_pos [of "d_nlen pg j"] unfolding lessThan_iff by linarith
  qed
  then have "card (set (entries pg 0)) \<le> card {..<NR_DE}" by (intro card_mono) simp_all
  moreover have "distinct (entries pg 0)" using seg_sorted [OF s] strict_sorted_iff by blast
  ultimately show ?thesis by (simp add: distinct_card)
qed

lemma dir_refs_length: "dir_ok s g \<Longrightarrow> length (dir_refs s g) \<le> 127 * length (pages_of s g)"
proof -
  assume "dir_ok s g"
  then have "\<forall>p\<in>set (pages_of s g). length (page_refs s p) \<le> 127"
    using entries_length by (auto simp: dir_ok_def page_refs_def)
  then have "length (concat (map (page_refs s) L)) \<le> 127 * length L" if "set L \<subseteq> set (pages_of s g)" for L
    using that
  proof (induction L)
    case (Cons p L)
    then have "length (page_refs s p) \<le> 127" "length (concat (map (page_refs s) L)) \<le> 127 * length L" by auto
    then show ?case by simp
  qed simp
  then show ?thesis unfolding dir_refs_def by simp
qed

lemma dir_size_bound:
  assumes "dir_ok s g" "length (pages_of s g) < 2 ^ 40"
  shows "i_size (h_inode s g) \<le> PAGE_SIZE * (127 * 2 ^ 40)"
  using dir_refs_length [OF assms(1)] assms by (simp add: dir_ok_def)

lemma acquire_scan_spec:
  "acquire_scan s nlen L off = (r, o') \<Longrightarrow>
   (case r of None \<Rightarrow> o' = off + 127 * int (length L)
    | Some (p, i) \<Rightarrow> \<exists>L1 L2. L = L1 @ p # L2 \<and> search_free (h_dat s p) nlen = Some i \<and>
        o' = off + 127 * int (length L1) + int i)"
proof (induction L arbitrary: off)
  case (Cons q L)
  show ?case
  proof (cases "search_free (h_dat s q) nlen")
    case None
    then have "acquire_scan s nlen L (off + 127) = (r, o')" using Cons.prems by simp
    from Cons.IH [OF this] show ?thesis
    proof (cases r)
      case (Some a)
      then obtain p i where r: "r = Some (p, i)" by (cases a) simp
      with Cons.IH [OF \<open>acquire_scan s nlen L (off + 127) = (r, o')\<close>] obtain L1 L2 where
        "L = L1 @ p # L2" "search_free (h_dat s p) nlen = Some i" "o' = off + 127 + 127 * int (length L1) + int i" by auto
      then have "q # L = (q # L1) @ p # L2 \<and> search_free (h_dat s p) nlen = Some i \<and>
        o' = off + 127 * int (length (q # L1)) + int i" by simp
      then show ?thesis using r by (simp only: option.case prod.case) blast
    qed (simp add: algebra_simps)
  next
    case (Some i)
    then have "r = Some (q, i)" "o' = off + int i" using Cons.prems by simp_all
    then show ?thesis using Some by (auto intro!: exI [of _ "[]"])
  qed
qed simp

lemma d_off_stored:
  assumes "- (2 ^ 63) \<le> off" "off < 2 ^ 63"
  shows "d_off (store_d_off i off pg) i = off"
proof -
  have "le_get (store_d_off i off pg) (de_pos i) 8 = cast_size off mod 256 ^ 8"
    unfolding store_d_off_def by (rule le_get_stored) simp_all
  moreover have "cast_size off < 2 ^ 64" by (simp add: cast_size_def nat_less_iff)
  ultimately show ?thesis using cast_loff_cast_size [OF assms] by (simp add: d_off_def)
qed

text \<open>An entry is written into a free slot of a page that the directory has.\<close>

lemma add_dirent_slot:
  assumes ok: "tree_ok X F G s" and g: "g \<in> G" and L: "pages_of s g = L1 @ p # L2" and str: "str_ok str"
    and ino: "0 < ino" "ino < 2 ^ 64" and len: "length (pages_of s g) < 2 ^ 40"
    and free: "search_free (h_dat s p) (str_len str) = Some i" and new: "dir_map s g (str_bytes str) = None"
    and off: "off = 2 + 127 * int (length L1) + int i"
    and s': "s' = add_dirent g ti ino str (p, i) (upd_page p (store_d_off i off) s)"
  shows "tree_ok X F G s'" "kept F G g s s'" "dir_map s' g = (dir_map s g)(str_bytes str \<mapsto> ino)"
    "pages_of s' g = pages_of s g" "\<And>h. h \<in> G \<Longrightarrow> refs_kept s s' h"
proof -
  note k = tree_okD [OF ok g]
  have pg: "page_ok (h_dat s p)" and dis: "distinct (pages_of s g)" using k(1) L by (simp_all add: dir_ok_def)
  have lt: "i < NR_DE" by (rule search_free_less [OF pg free])
  have ob: "- (2 ^ 63) \<le> off" "off < 2 ^ 63" using lt off len L by simp_all
  have sa: "size_add (i_size (h_inode s g)) PAGE_SIZE = PAGE_SIZE + i_size (h_inode s g)"
    using dir_size_bound [OF k(1) len] by (subst size_add_small) simp_all
  have dat: "h_dat s' = (h_dat s)(p := set_dirent i (str_name str) (str_len str) ino (i_mode (h_inode s ti)) off
      (store_d_off i off (h_dat s p)))"
    by (simp add: s' add_dirent_def d_off_stored [OF ob])
  have ins: "pages_of s' u = pages_of s u" "i_blocks (h_inode s' u) = i_blocks (h_inode s u)"
    "i_mode (h_inode s' u) = i_mode (h_inode s u)" "u \<noteq> g \<Longrightarrow> i_size (h_inode s' u) = i_size (h_inode s u)" for u
    by (auto simp: s' add_dirent_def)
  have sz: "i_size (h_inode s' g) = PAGE_SIZE + i_size (h_inode s g)" by (simp add: s' add_dirent_def sa)
  have oth: "h_dat s' q = h_dat s q" if "q \<in> set L1 \<union> set L2" for q using that dis L by (auto simp: dat)
  have D: "dir_ok s' g \<and> dir_map s' g = (dir_map s g)(str_bytes str \<mapsto> ino) \<and> refs_kept s s' g"
    by (rule dir_insert_slot [OF k(1) L str ino len free new off _ ins(1) oth sz ins(2)]) (simp add: dat)
  then show "dir_map s' g = (dir_map s g)(str_bytes str \<mapsto> ino)" "pages_of s' g = pages_of s g" using ins(1) by simp_all
  have T: "tree_ok X F G s' \<and> kept F G g s s' \<and> (\<forall>h\<in>G. h \<noteq> g \<longrightarrow> refs_kept s s' h)"
    by (intro conjI ballI impI; rule tree_dir_step [OF ok g, of p]) (use L D ins in \<open>simp_all add: s' add_dirent_def\<close>)
  then show "tree_ok X F G s'" "kept F G g s s'" by simp_all
  show "refs_kept s s' h" if "h \<in> G" for h using T D that by (cases "h = g") auto
qed

definition grown :: "addr set \<Rightarrow> addr set \<Rightarrow> addr set \<Rightarrow> addr \<Rightarrow> toyfs_sb_info \<Rightarrow> toyfs_sb_info \<Rightarrow> bool" where
  "grown X F G g s s' =
    ((\<exists>X'. X \<subseteq> X' \<and> tree_ok X' F G s') \<and> kept F G g s s' \<and> (\<forall>h\<in>G. refs_kept s s' h) \<and>
     length (pages_of s' g) \<le> length (pages_of s g) + 1)"

lemma add_dirent_spec:
  assumes ok: "tree_ok X F G s" and g: "g \<in> G" and str: "str_ok str" and ino: "0 < ino" "ino < 2 ^ 64"
    and len: "length (pages_of s g) + 1 < 2 ^ 40" and new: "dir_map s g (str_bytes str) = None"
  shows "toyfs_add_dirent g ti ino str s = (Inl ENOSPC, s) \<and> fst (toyfs_acquire_pmemb s) = None \<or>
    (\<exists>de s'. toyfs_add_dirent g ti ino str s = (Inr de, s') \<and> grown X F G g s s' \<and>
       dir_map s' g = (dir_map s g)(str_bytes str \<mapsto> ino))"
proof -
  obtain r off where sc: "acquire_scan s (str_len str) (pages_of s g) 2 = (r, off)" by fastforce
  note spec = acquire_scan_spec [OF sc]
  show ?thesis
  proof (cases r)
    case (Some pi)
    then obtain p i L1 L2 where r: "r = Some (p, i)" and L: "pages_of s g = L1 @ p # L2"
      and free: "search_free (h_dat s p) (str_len str) = Some i" and off: "off = 2 + 127 * int (length L1) + int i"
      using spec by (cases pi) auto
    let ?s = "add_dirent g ti ino str (p, i) (upd_page p (store_d_off i off) s)"
    have run: "toyfs_add_dirent g ti ino str s = (Inr (p, i), ?s)"
      using sc r by (simp add: toyfs_add_dirent_def acquire_dirent_def toyfs_childs_list_of_def)
    have len': "length (pages_of s g) < 2 ^ 40" using len by simp
    note A = add_dirent_slot [OF ok g L str ino len' free new off refl, where ti = ti]
    then have "grown X F G g s ?s" unfolding grown_def by auto
    then show ?thesis using run A(3) by blast
  next
    case None
    show ?thesis
    proof (cases "toyfs_acquire_pmemb s")
      case (Pair a s1)
      show ?thesis
      proof (cases a)
        case nil: None
        have "s1 = s" using ok acquire_pmemb_None Pair nil by (auto simp: tree_ok_def)
        then have "toyfs_add_dirent g ti ino str s = (Inl ENOSPC, s)"
          using sc None Pair nil by (simp add: toyfs_add_dirent_def acquire_dirent_def toyfs_childs_list_of_def)
        then show ?thesis using Pair nil by simp
      next
        case p: (Some p)
        let ?s2 = "upd_inode g (\<lambda>zi. zi\<lparr>i_blocks := i_blocks zi + 1, list_head := list_head zi @ [p]\<rparr>) s1"
        have a: "toyfs_acquire_pmemb s = (Some p, s1)" using Pair p by simp
        note Gr = tree_grow [OF ok g a refl]
        have off: "off = 2 + 127 * int (length (pages_of s g)) + int 0" using spec None by simp
        have free: "search_free (h_dat ?s2 p) (str_len str) = Some 0" using Gr(5) str by (simp add: str_ok_def)
        have new2: "dir_map ?s2 g (str_bytes str) = None" using Gr(3) new by simp
        have len2: "length (pages_of ?s2 g) < 2 ^ 40" using Gr(4) len by simp
        let ?s = "add_dirent g ti ino str (p, 0) (upd_page p (store_d_off 0 off) ?s2)"
        note A = add_dirent_slot [OF Gr(1) g Gr(4) str ino len2 free new2 off refl, where ti = ti]
        have eq: "upd_inode g (\<lambda>zi. zi\<lparr>list_head := list_head zi @ [p]\<rparr>)
            (upd_inode g (\<lambda>zi. zi\<lparr>i_blocks := i_blocks zi + 1\<rparr>) s1) = ?s2" by (simp add: upd_inode_def)
        have run: "toyfs_add_dirent g ti ino str s = (Inr (p, 0), ?s)"
          using sc None a eq by (simp add: toyfs_add_dirent_def acquire_dirent_def toyfs_childs_list_of_def)
        have "grown X F G g s ?s"
          unfolding grown_def using A kept_trans [OF Gr(2) A(2)] refs_kept_trans [OF Gr(7) A(5)] Gr(4) by auto
        then show ?thesis using run A(3) Gr(3) by auto
      qed
    qed
  qed
qed

lemma remove_dirent_spec:
  assumes ok: "tree_ok X F G s" and g: "g \<in> G" and r: "r \<in> set (dir_refs s g)" and len: "length (pages_of s g) < 2 ^ 40"
  shows "\<exists>s'. toyfs_remove_dirent g ti r s = Some s' \<and> tree_ok X F G s' \<and> kept F G g s s' \<and>
    dir_map s' g = (dir_map s g)(ref_name s r := None) \<and> pages_of s' g = pages_of s g"
proof -
  note k = tree_okD [OF ok g]
  obtain p i where r': "r = (p, i)" by (cases r)
  then have p: "p \<in> set (pages_of s g)" and i: "i \<in> set (entries (h_dat s p) 0)"
    using r by (auto simp: dir_refs_def page_refs_def)
  then obtain L1 L2 where L: "pages_of s g = L1 @ p # L2" by (auto simp: in_set_conv_decomp)
  have pg: "page_ok (h_dat s p)" and dis: "distinct (pages_of s g)" using k(1) L by (simp_all add: dir_ok_def)
  from i obtain A B where "entries (h_dat s p) 0 = A @ i # B" by (auto simp: in_set_conv_decomp)
  from page_remove [OF pg this] obtain pg' where pg': "reset_dirent i (h_dat s p) = Some pg'" by blast
  let ?s = "zus_std_remove_dentry g ti
    (upd_inode g (\<lambda>zi. zi\<lparr>i_size := size_sub (i_size zi) PAGE_SIZE\<rparr>) (upd_page p (\<lambda>_. pg') s))"
  have run: "toyfs_remove_dirent g ti r s = Some ?s" using pg' by (simp add: toyfs_remove_dirent_def r' Let_def)
  have ge: "PAGE_SIZE \<le> i_size (h_inode s g)" using k(1) r by (cases "dir_refs s g") (auto simp: dir_ok_def)
  have ss: "size_sub (i_size (h_inode s g)) PAGE_SIZE = i_size (h_inode s g) - PAGE_SIZE"
    using dir_size_bound [OF k(1) len] by (intro size_sub_small ge) simp
  have D: "dir_ok ?s g \<and> dir_map ?s g = (dir_map s g)(ref_name s (p, i) := None)"
    by (rule dir_remove_slot [OF k(1) L i]) (use pg' dis L ge ss in \<open>auto\<close>)
  have "tree_ok X F G ?s \<and> kept F G g s ?s"
    by (intro conjI; rule tree_dir_step [OF ok g p]) (use D in simp_all)
  then show ?thesis using run D r' by auto
qed

end
