(* ===== verification/DirOps.thy ===== *)
theory DirOps
  imports DirMap
begin

text \<open>
  The directory operations that zus calls, against the maps of \<open>DirMap\<close>: the contract of a name space
  as a locale with its interpretation, then lookup, add, remove, rename and readdir.
\<close>

section \<open>Creation of inodes\<close>

lemma tree_new_dir:
  assumes ok: "tree_ok X F G s" and a: "toyfs_acquire_inode s = (Some t, s1)"
    and zi: "list_head zi = []" "i_blocks zi = 0" "i_size zi = 0"
  shows "tree_ok X F (insert t G) (upd_inode t (\<lambda>_. zi) s1)" "t \<notin> F" "t \<notin> G"
    "dir_map (upd_inode t (\<lambda>_. zi) s1) t = Map.empty"
proof -
  from ok obtain D B I N where inv: "pool_inv D B I N s" "blocks_inv D B I N X F s" "G \<subseteq> N" "F \<inter> G = {}" "dirs_ok X G s"
    by (auto simp: tree_ok_def)
  let ?s = "upd_inode t (\<lambda>_. zi) s1"
  note q = inode_src.acquire_law [OF inv(1) a] and fr = acquire_inode_frame [OF a]
  have FN: "F \<subseteq> N" using inv(2) by (simp add: blocks_inv_def)
  show tF: "t \<notin> F" and tG: "t \<notin> G" using q FN inv(3) by auto
  have ino: "h_inode ?s u = h_inode s u" if "u \<noteq> t" for u using that fr by auto
  have md: "s_md ?s = s_md s" "h_dblkref ?s = h_dblkref s" "h_iblkref ?s = h_iblkref s" "h_dat ?s = h_dat s" using fr by simp_all
  have "blocks_inv D B I (insert t N) X F s" using inv(2) by (auto simp: blocks_inv_def)
  then have b: "blocks_inv D B I (insert t N) X F ?s"
    using blocks_inv_meta [OF md(1-3), of F] ino tF by metis
  have nil: "pages_of ?s t = []" "dir_refs ?s t = []" using zi by (simp_all add: dir_refs_def)
  then have t: "dir_ok ?s t" using zi by (simp add: dir_ok_def offs_ok_def dir_alist_def)
  show "dir_map ?s t = Map.empty" by (simp add: dir_map_def dir_alist_def nil(2))
  have u: "dir_ok ?s u = dir_ok s u" "pages_of ?s u = pages_of s u" if "u \<in> G" for u
  proof -
    have "u \<noteq> t" using that tG by auto
    then show "dir_ok ?s u = dir_ok s u" "pages_of ?s u = pages_of s u"
      using dir_cong(4) [of ?s u s] ino md(4) by simp_all
  qed
  have "dirs_ok X (insert t G) ?s" using inv(5) t nil u unfolding dirs_ok_def by (simp del: upd_inode_frame)
  moreover have "pool_inv D B I (insert t N) ?s" using q by simp
  ultimately show "tree_ok X F (insert t G) ?s" using b inv(3,4) tF
    unfolding tree_ok_def by (intro exI [of _ D] exI [of _ B] exI [of _ I] exI [of _ "insert t N"]) auto
qed

lemma tree_new_file:
  assumes ok: "tree_ok X F G s" and a: "toyfs_acquire_inode s = (Some t, s1)"
    and zi: "list_head zi = []" "i_blocks zi = 0"
  shows "tree_ok X (insert t F) G (upd_inode t (\<lambda>_. zi) s1)" "t \<notin> F" "t \<notin> G"
proof -
  from ok obtain D B I N where inv: "pool_inv D B I N s" "blocks_inv D B I N X F s" "G \<subseteq> N" "F \<inter> G = {}" "dirs_ok X G s"
    by (auto simp: tree_ok_def)
  let ?s = "upd_inode t (\<lambda>_. zi) s1"
  note q = new_file_inv [OF inv(1,2) a zi] and fr = acquire_inode_frame [OF a]
  have FN: "F \<subseteq> N" using inv(2) by (simp add: blocks_inv_def)
  show tF: "t \<notin> F" and tG: "t \<notin> G" using q(3) FN inv(3) by auto
  have u: "dir_ok ?s u = dir_ok s u" "pages_of ?s u = pages_of s u" if "u \<in> G" for u
  proof -
    have "u \<noteq> t" using that tG by auto
    then show "dir_ok ?s u = dir_ok s u" "pages_of ?s u = pages_of s u"
      using dir_cong(4) [of ?s u s] fr by auto
  qed
  have "dirs_ok X G ?s" using inv(5) u unfolding dirs_ok_def by (simp del: upd_inode_frame)
  then show "tree_ok X (insert t F) G ?s" using q inv(3,4) tG
    unfolding tree_ok_def by (intro exI [of _ D] exI [of _ B] exI [of _ I] exI [of _ "insert t N"]) auto
qed

section \<open>The contract of a name space\<close>

text \<open>\<open>look\<close> returns 0 for a name that is not there; \<open>add\<close> and \<open>del\<close> give the state after a success.\<close>

locale name_space =
  fixes look :: "'s \<Rightarrow> 'n \<Rightarrow> nat" and add :: "'n \<Rightarrow> nat \<Rightarrow> 's \<Rightarrow> 's option" and del :: "'n \<Rightarrow> 's \<Rightarrow> 's option"
    and inv :: "'s \<Rightarrow> bool" and dmap :: "'s \<Rightarrow> 'n \<Rightarrow> nat option" and valid :: "'n \<Rightarrow> bool"
  assumes look_law: "\<lbrakk>inv s; valid n\<rbrakk> \<Longrightarrow> look s n = (case dmap s n of None \<Rightarrow> 0 | Some i \<Rightarrow> i)"
    and add_law: "\<lbrakk>inv s; valid n; 0 < i; dmap s n = None; add n i s = Some s'\<rbrakk> \<Longrightarrow>
      inv s' \<and> dmap s' = (dmap s)(n \<mapsto> i)"
    and del_law: "\<lbrakk>inv s; valid n; del n s = Some s'\<rbrakk> \<Longrightarrow>
      inv s' \<and> dmap s' = (dmap s)(n := None) \<and> dmap s n \<noteq> None"
begin

lemma look_after_add:
  assumes "inv s" "valid n" "0 < i" "dmap s n = None" "add n i s = Some s'" "valid m"
  shows "look s' m = (if m = n then i else look s m)"
  using add_law [OF assms(1-5)] look_law [of s' m] look_law [of s m] assms by simp

lemma look_after_del:
  assumes "inv s" "valid n" "del n s = Some s'" "valid m"
  shows "look s' m = (if m = n then 0 else look s m)"
  using del_law [OF assms(1-3)] look_law [of s' m] look_law [of s m] assms by simp

lemma del_undoes_add:
  assumes "inv s" "valid n" "0 < i" "dmap s n = None" "add n i s = Some s'" "del n s' = Some s''"
  shows "dmap s'' = dmap s"
  using add_law [OF assms(1-5)] del_law [OF _ assms(2,6)] assms(4) by (auto simp: fun_upd_idem)

end

definition mk_str :: "byte list \<Rightarrow> zufs_str" where
  "mk_str n = \<lparr>str_len = length n, str_name = (\<lambda>i. n ! i)\<rparr>"

definition name_ok :: "byte list \<Rightarrow> bool" where
  "name_ok n = (n \<noteq> [] \<and> length n < 256 \<and> 0 \<notin> set n)"

lemma mk_str_bytes [simp]: "str_bytes (mk_str n) = n"
  by (simp add: str_bytes_def mk_str_def map_nth)

lemma mk_str_ok [simp]: "str_ok (mk_str n) = name_ok n"
  using mk_str_bytes [of n] unfolding str_ok_def name_ok_def by (simp add: mk_str_def)

definition dir_inv :: "addr set \<Rightarrow> addr set \<Rightarrow> toyfs_sb_info \<Rightarrow> bool" where
  "dir_inv F G s = ((\<exists>X. tree_ok X F G s) \<and> dev_small s)"

definition add_name :: "addr \<Rightarrow> addr \<Rightarrow> byte list \<Rightarrow> nat \<Rightarrow> toyfs_sb_info \<Rightarrow> toyfs_sb_info option" where
  "add_name g ti n ino s =
    (if ino < 2 ^ 64 then (case toyfs_add_dirent g ti ino (mk_str n) s of (Inr _, s') \<Rightarrow> Some s' | (Inl _, _) \<Rightarrow> None) else None)"

definition del_name :: "addr \<Rightarrow> addr \<Rightarrow> byte list \<Rightarrow> toyfs_sb_info \<Rightarrow> toyfs_sb_info option" where
  "del_name g ti n s =
    (case toyfs_lookup_dirent g (mk_str n) s of None \<Rightarrow> None | Some de \<Rightarrow> toyfs_remove_dirent g ti de s)"

lemma dev_small_kept: "kept F G g s s' \<Longrightarrow> dev_small s' = dev_small s"
  by (simp add: kept_def dev_small_def)

lemma add_name_law:
  assumes inv: "dir_inv F G s" and g: "g \<in> G" and n: "name_ok n" "0 < i" "dir_map s g n = None"
    and a: "add_name g ti n i s = Some s'"
  shows "dir_inv F G s' \<and> dir_map s' g = (dir_map s g)(n \<mapsto> i)"
proof -
  from inv obtain X where ok: "tree_ok X F G s" and sm: "dev_small s" by (auto simp: dir_inv_def)
  have i: "i < 2 ^ 64" using a by (simp add: add_name_def split: if_splits)
  have "dir_map s g (str_bytes (mk_str n)) = None" "str_ok (mk_str n)" using n by simp_all
  note sp = add_dirent_spec [OF ok g this(2) n(2) i pages_bound(1) [OF ok g sm] this(1), of ti]
  then obtain de where "toyfs_add_dirent g ti i (mk_str n) s = (Inr de, s')" "grown X F G g s s'"
    "dir_map s' g = (dir_map s g)(n \<mapsto> i)" using a i by (auto simp: add_name_def)
  then show ?thesis using sm dev_small_kept by (auto simp: grown_def dir_inv_def)
qed

lemma lookup_dirent_Some:
  assumes ok: "dir_ok s g" and str: "str_ok str" and l: "toyfs_lookup_dirent g str s = Some r"
  shows "r \<in> set (dir_refs s g)" "ref_name s r = str_bytes str" "dir_map s g (str_bytes str) = Some (ref_ino s r)"
proof -
  have f: "find (\<lambda>r. ref_name s r = str_bytes str) (dir_refs s g) = Some r" using lookup_dirent_find [OF ok str] l by simp
  then show "r \<in> set (dir_refs s g)" "ref_name s r = str_bytes str" using find_SomeD by fast+
  show "dir_map s g (str_bytes str) = Some (ref_ino s r)" using f by (simp add: dir_map_def dir_alist_def map_of_find)
qed

lemma lookup_dirent_None:
  "dir_ok s g \<Longrightarrow> str_ok str \<Longrightarrow> toyfs_lookup_dirent g str s = None \<longleftrightarrow> dir_map s g (str_bytes str) = None"
  by (simp add: lookup_dirent_find dir_map_def dir_alist_def map_of_find)

lemma del_name_law:
  assumes inv: "dir_inv F G s" and g: "g \<in> G" and n: "name_ok n" and d: "del_name g ti n s = Some s'"
  shows "dir_inv F G s' \<and> dir_map s' g = (dir_map s g)(n := None) \<and> dir_map s g n \<noteq> None"
proof -
  from inv obtain X where ok: "tree_ok X F G s" and sm: "dev_small s" by (auto simp: dir_inv_def)
  have so: "str_ok (mk_str n)" using n by simp
  from d obtain de where de: "toyfs_lookup_dirent g (mk_str n) s = Some de" "toyfs_remove_dirent g ti de s = Some s'"
    by (auto simp: del_name_def split: option.splits)
  note l = lookup_dirent_Some [OF tree_okD(1) [OF ok g] so de(1)]
  obtain s2 where "toyfs_remove_dirent g ti de s = Some s2" "tree_ok X F G s2" "kept F G g s s2"
    "dir_map s2 g = (dir_map s g)(ref_name s de := None)"
    using remove_dirent_spec [OF ok g l(1) pages_bound(2) [OF ok g sm], of ti] by blast
  then show ?thesis using de(2) l sm dev_small_kept by (auto simp: dir_inv_def)
qed

lemma look_name_law:
  assumes inv: "dir_inv F G s" and g: "g \<in> G" and n: "name_ok n"
  shows "lookup_ino g (mk_str n) s = (case dir_map s g n of None \<Rightarrow> 0 | Some i \<Rightarrow> i)"
proof -
  from inv obtain X where ok: "tree_ok X F G s" by (auto simp: dir_inv_def)
  show ?thesis using lookup_ino_map [OF tree_okD(1) [OF ok g], of "mk_str n"] n by simp
qed

interpretation toy_dir: name_space
  "\<lambda>s n. lookup_ino g (mk_str n) s" "add_name g ti" "del_name g ti" "\<lambda>s. dir_inv F G s \<and> g \<in> G" "\<lambda>s. dir_map s g" name_ok
  for g ti F G
proof unfold_locales
  fix s n i s'
  show "dir_inv F G s \<and> g \<in> G \<Longrightarrow> name_ok n \<Longrightarrow> lookup_ino g (mk_str n) s = (case dir_map s g n of None \<Rightarrow> 0 | Some i \<Rightarrow> i)"
    using look_name_law by blast
  show "dir_inv F G s \<and> g \<in> G \<Longrightarrow> name_ok n \<Longrightarrow> 0 < i \<Longrightarrow> dir_map s g n = None \<Longrightarrow> add_name g ti n i s = Some s' \<Longrightarrow>
    (dir_inv F G s' \<and> g \<in> G) \<and> dir_map s' g = (dir_map s g)(n \<mapsto> i)"
    using add_name_law by blast
  show "dir_inv F G s \<and> g \<in> G \<Longrightarrow> name_ok n \<Longrightarrow> del_name g ti n s = Some s' \<Longrightarrow>
    (dir_inv F G s' \<and> g \<in> G) \<and> dir_map s' g = (dir_map s g)(n := None) \<and> dir_map s g n \<noteq> None"
    using del_name_law by blast
qed

section \<open>Listing\<close>

text \<open>
  Offering entries to the buffer in order until it refuses one: the position after the last entry that was taken, the
  buffer, and whether all were taken.
\<close>

fun feed :: "'r zde_emit \<Rightarrow> toyfs_sb_info \<Rightarrow> (addr \<times> nat) list \<Rightarrow> int \<Rightarrow> 'r \<Rightarrow> bool \<times> int \<times> 'r" where
  "feed emit s [] pos rdi = (True, pos, rdi)"
| "feed emit s (r # rs) pos rdi =
    (let (ok, rdi') = emit rdi (ref_ino s r) (ref_type s r mod 256) (cast_size pos) (ref_name s r)
     in if ok then feed emit s rs (ref_off s r + 1) rdi' else (False, pos, rdi'))"

abbreviation ctx_view :: "bool \<times> 'r toyfs_getdents_ctx \<Rightarrow> bool \<times> int \<times> 'r" where
  "ctx_view x \<equiv> (fst x, ctx_pos (snd x), ctx_rdi (snd x))"

text \<open>The entries from a position on; the entries come with increasing offsets.\<close>

definition from_pos :: "toyfs_sb_info \<Rightarrow> int \<Rightarrow> (addr \<times> nat) list \<Rightarrow> (addr \<times> nat) list" where
  "from_pos s pos rs = filter (\<lambda>r. pos \<le> ref_off s r) rs"

lemma feed_append:
  "feed emit s (xs @ ys) pos rdi =
    (case feed emit s xs pos rdi of (True, p, r) \<Rightarrow> feed emit s ys p r | (False, p, r) \<Rightarrow> (False, p, r))"
  by (induction xs arbitrary: pos rdi) (auto split: prod.splits)

lemma iterate_page_feed:
  assumes "seg (h_dat s p) i js NR_DE"
    and "sorted_wrt (<) (map (\<lambda>j. ref_off s (p, j)) js)"
  shows "ctx_view (iterate_dentries_from emit (h_dat s p) i ctx) =
    feed emit s (from_pos s (ctx_pos ctx) (map (Pair p) js)) (ctx_pos ctx) (ctx_rdi ctx)"
  using assms
proof (induction i js "NR_DE" arbitrary: ctx rule: seg.induct)
  case (seg_nil ctx)
  then show ?case by (simp add: iterate_dentries_from.simps [of emit "h_dat s p" NR_DE] from_pos_def)
next
  case (seg_free i js ctx)
  have "i < NR_DE" using seg_le [OF seg_free(2)] by simp
  then have "iterate_dentries_from emit (h_dat s p) i ctx = iterate_dentries_from emit (h_dat s p) (i + 1) ctx"
    using seg_free(1) by (subst iterate_dentries_from.simps) (simp add: next_dirent_def is_active_def)
  then show ?case using seg_free by simp
next
  case (seg_entry i js ctx)
  let ?pg = "h_dat s p"
  have i: "i < NR_DE" using seg_le [OF seg_entry(2)] namelen_to_nde_pos [of "d_nlen ?pg i"] by linarith
  have act: "d_nlen ?pg i \<noteq> 0" "next_dirent ?pg i = i + namelen_to_nde (d_nlen ?pg i)"
    using seg_entry(1) by (auto simp: entry_ok_def next_dirent_def is_active_def)
  have srt: "sorted_wrt (<) (map (\<lambda>j. ref_off s (p, j)) js)"
    and gt: "\<And>j. j \<in> set js \<Longrightarrow> ref_off s (p, i) < ref_off s (p, j)" using seg_entry(4) by auto
  note IH = seg_entry(3) [OF srt]
  have ro: "ref_off s (p, i) = d_off ?pg i" "ref_ino s (p, i) = d_ino ?pg i" "ref_type s (p, i) = d_type ?pg i"
    "ref_name s (p, i) = map (d_name ?pg i) [0..<d_nlen ?pg i]"
    by (simp_all add: ref_off_def ref_ino_def ref_type_def ref_name_def de_name_def)
  show ?case
  proof (cases "ctx_pos ctx \<le> d_off ?pg i")
    case False
    then have "iterate_dentries_from emit ?pg i ctx = iterate_dentries_from emit ?pg (next_dirent ?pg i) ctx"
      using i by (subst iterate_dentries_from.simps) simp
    then show ?thesis using False act IH [of ctx] ro by (simp add: from_pos_def)
  next
    case True
    obtain ok rdi where e: "emit (ctx_rdi ctx) (d_ino ?pg i) (d_type ?pg i mod 256) (cast_size (ctx_pos ctx))
        (map (d_name ?pg i) [0..<d_nlen ?pg i]) = (ok, rdi)" by fastforce
    have fp: "from_pos s (ctx_pos ctx) (map (Pair p) js) = map (Pair p) js"
      "from_pos s (d_off ?pg i + 1) (map (Pair p) js) = map (Pair p) js"
      using gt True ro(1) by (force simp: from_pos_def intro!: filter_True)+
    let ?ctx = "ctx\<lparr>ctx_rdi := rdi, ctx_emit_count := ctx_emit_count ctx + 1, ctx_pos := d_off ?pg i + 1\<rparr>"
    show ?thesis
    proof (cases ok)
      case t: True
      have "emit_dirent emit ctx ?pg i = (True, ?ctx)"
        using e t by (simp add: emit_dirent_def emit_name_def filldir_def)
      then have "iterate_dentries_from emit ?pg i ctx = iterate_dentries_from emit ?pg (next_dirent ?pg i) ?ctx"
        using i act True by (subst iterate_dentries_from.simps) simp
      then show ?thesis using IH [of ?ctx] act(2) True ro e t fp by (simp add: from_pos_def)
    next
      case f: False
      have "emit_dirent emit ctx ?pg i = (False, ctx\<lparr>ctx_rdi := rdi\<rparr>)"
        using e f by (simp add: emit_dirent_def emit_name_def filldir_def)
      then have "iterate_dentries_from emit ?pg i ctx = (False, ctx\<lparr>ctx_rdi := rdi\<rparr>)"
        using i act True by (subst iterate_dentries_from.simps) simp
      then show ?thesis using True ro e f by (simp add: from_pos_def)
    qed
  qed
qed

lemma feed_pos:
  "feed emit s xs pos rdi = (ok, p', r') \<Longrightarrow> p' = pos \<or> (\<exists>x\<in>set xs. p' = ref_off s x + 1)"
  by (induction xs arbitrary: pos rdi) (auto split: prod.splits if_splits)

lemma refs_sorted:
  "\<lbrakk>\<forall>p\<in>set L. page_ok (h_dat s p);
    \<forall>k<length L. \<forall>i\<in>set (entries (h_dat s (L ! k)) 0). d_off (h_dat s (L ! k)) i = b + 127 * int k + int i\<rbrakk> \<Longrightarrow>
   sorted_wrt (<) (map (ref_off s) (concat (map (page_refs s) L))) \<and>
   (\<forall>r\<in>set (concat (map (page_refs s) L)). b \<le> ref_off s r)"
proof (induction L arbitrary: b)
  case (Cons p L)
  let ?R = "concat (map (page_refs s) L)"
  have pg: "seg (h_dat s p) 0 (entries (h_dat s p) 0) NR_DE" using Cons.prems(1) by (simp add: page_ok_def)
  have o: "d_off (h_dat s p) i = b + int i" if "i \<in> set (entries (h_dat s p) 0)" for i
    using Cons.prems(2) [rule_format, of 0 i] that by simp
  have lt: "i < 127" if "i \<in> set (entries (h_dat s p) 0)" for i
    using seg_inside [OF pg that] namelen_to_nde_pos [of "d_nlen (h_dat s p) i"] by linarith
  have IH: "sorted_wrt (<) (map (ref_off s) ?R) \<and> (\<forall>r\<in>set ?R. b + 127 \<le> ref_off s r)"
  proof (rule Cons.IH)
    show "\<forall>k<length L. \<forall>i\<in>set (entries (h_dat s (L ! k)) 0). d_off (h_dat s (L ! k)) i = b + 127 + 127 * int k + int i"
    proof (intro allI impI ballI)
      fix k i assume "k < length L" "i \<in> set (entries (h_dat s (L ! k)) 0)"
      then show "d_off (h_dat s (L ! k)) i = b + 127 + 127 * int k + int i"
        using Cons.prems(2) [rule_format, of "Suc k" i] by simp
    qed
  qed (use Cons.prems(1) in simp)
  have "map (ref_off s) (page_refs s p) = map (\<lambda>i. b + int i) (entries (h_dat s p) 0)"
    using o by (simp add: page_refs_def ref_off_def)
  moreover have "sorted_wrt (<) (map (\<lambda>i. b + int i) (entries (h_dat s p) 0))"
    using seg_sorted [OF pg] by (simp add: sorted_wrt_map)
  ultimately have "sorted_wrt (<) (map (ref_off s) (page_refs s p))" by simp
  moreover have "b \<le> ref_off s r \<and> ref_off s r < b + 127" if "r \<in> set (page_refs s p)" for r
    using that o lt by (auto simp: page_refs_def ref_off_def)
  ultimately show ?case using IH by (fastforce simp: sorted_wrt_append)
qed simp

lemma dir_refs_sorted:
  assumes "dir_ok s g"
  shows "sorted_wrt (<) (map (ref_off s) (dir_refs s g))" "\<And>r. r \<in> set (dir_refs s g) \<Longrightarrow> 2 \<le> ref_off s r"
  using refs_sorted [of "pages_of s g" s 2] assms by (auto simp: dir_ok_def dir_refs_def offs_ok_def)

lemma iterate_pages_feed:
  assumes "\<forall>p\<in>set L. page_ok (h_dat s p)" "sorted_wrt (<) (map (ref_off s) (concat (map (page_refs s) L)))"
  shows "ctx_view (iterate_pages emit s L ctx) =
    (let (ok, p, r) = feed emit s (from_pos s (ctx_pos ctx) (concat (map (page_refs s) L))) (ctx_pos ctx) (ctx_rdi ctx)
     in (\<not> ok, p, r))"
  using assms
proof (induction L arbitrary: ctx)
  case Nil
  then show ?case by (simp add: from_pos_def)
next
  case (Cons p L)
  let ?R = "concat (map (page_refs s) L)"
  have srt: "sorted_wrt (<) (map (ref_off s) (page_refs s p))" "sorted_wrt (<) (map (ref_off s) ?R)"
    and lt: "\<And>x y. x \<in> set (page_refs s p) \<Longrightarrow> y \<in> set ?R \<Longrightarrow> ref_off s x < ref_off s y"
    using Cons.prems(2) by (auto simp: sorted_wrt_append)
  have pg: "seg (h_dat s p) 0 (entries (h_dat s p) 0) NR_DE" using Cons.prems(1) by (simp add: page_ok_def)
  have s1: "sorted_wrt (<) (map (\<lambda>j. ref_off s (p, j)) (entries (h_dat s p) 0))"
    using srt(1) by (simp add: page_refs_def comp_def)
  obtain ok ctx1 where it: "iterate_dentries emit (h_dat s p) ctx = (ok, ctx1)" by fastforce
  have f: "feed emit s (from_pos s (ctx_pos ctx) (page_refs s p)) (ctx_pos ctx) (ctx_rdi ctx) =
      (ok, ctx_pos ctx1, ctx_rdi ctx1)"
    using iterate_page_feed [OF pg s1, of emit ctx] it by (simp add: iterate_dentries_def page_refs_def)
  have fp: "from_pos s (ctx_pos ctx1) ?R = from_pos s (ctx_pos ctx) ?R"
  proof -
    have "ctx_pos ctx1 = ctx_pos ctx \<or> (\<exists>x\<in>set (page_refs s p). ctx_pos ctx \<le> ref_off s x \<and> ctx_pos ctx1 = ref_off s x + 1)"
      using feed_pos [OF f] by (auto simp: from_pos_def)
    then show ?thesis
    proof
      assume "\<exists>x\<in>set (page_refs s p). ctx_pos ctx \<le> ref_off s x \<and> ctx_pos ctx1 = ref_off s x + 1"
      then obtain x where x: "x \<in> set (page_refs s p)" "ctx_pos ctx \<le> ref_off s x" "ctx_pos ctx1 = ref_off s x + 1" by blast
      show ?thesis unfolding from_pos_def
        by (rule filter_cong [OF refl]) (use lt [OF x(1)] x(2,3) in force)
    qed simp
  qed
  have app: "from_pos s (ctx_pos ctx) (concat (map (page_refs s) (p # L))) =
      from_pos s (ctx_pos ctx) (page_refs s p) @ from_pos s (ctx_pos ctx) ?R" by (simp add: from_pos_def)
  have IH: "ctx_view (iterate_pages emit s L ctx1) =
    (let (ok, p, r) = feed emit s (from_pos s (ctx_pos ctx1) ?R) (ctx_pos ctx1) (ctx_rdi ctx1) in (\<not> ok, p, r))"
    by (rule Cons.IH) (use Cons.prems(1) srt(2) in simp_all)
  show ?case
  proof (cases ok)
    case True
    then show ?thesis unfolding app feed_append f using it IH fp by simp
  next
    case False
    then show ?thesis unfolding app feed_append f using it by simp
  qed
qed

text \<open>When the buffer refuses an entry, the position that was reached separates the entries taken from the rest.\<close>

lemma feed_rest:
  "\<lbrakk>sorted_wrt (<) (map (ref_off s) xs); \<forall>x\<in>set xs. pos \<le> ref_off s x; feed emit s xs pos rdi = (ok, p', r')\<rbrakk> \<Longrightarrow>
   \<exists>k\<le>length xs. feed emit s (take k xs) pos rdi = (True, p', snd (snd (feed emit s (take k xs) pos rdi))) \<and>
     from_pos s p' xs = drop k xs \<and> (ok \<longleftrightarrow> k = length xs)"
proof (induction xs arbitrary: pos rdi)
  case Nil
  then show ?case by (simp add: from_pos_def)
next
  case (Cons x xs)
  obtain ok1 rdi1 where e: "emit rdi (ref_ino s x) (ref_type s x mod 256) (cast_size pos) (ref_name s x) = (ok1, rdi1)" by fastforce
  show ?case
  proof (cases ok1)
    case False
    then have "p' = pos" "\<not> ok" using Cons.prems(3) e by simp_all
    moreover have "from_pos s pos (x # xs) = x # xs" using Cons.prems(2) by (simp add: from_pos_def)
    ultimately show ?thesis by (intro exI [of _ 0]) simp
  next
    case True
    then have f: "feed emit s xs (ref_off s x + 1) rdi1 = (ok, p', r')" using Cons.prems(3) e by simp
    have ge: "\<forall>y\<in>set xs. ref_off s x + 1 \<le> ref_off s y" using Cons.prems(1) by auto
    have srt: "sorted_wrt (<) (map (ref_off s) xs)" using Cons.prems(1) by simp
    from Cons.IH [OF srt ge f] obtain k where k: "k \<le> length xs"
      "feed emit s (take k xs) (ref_off s x + 1) rdi1 = (True, p', snd (snd (feed emit s (take k xs) (ref_off s x + 1) rdi1)))"
      "from_pos s p' xs = drop k xs" "ok \<longleftrightarrow> k = length xs" by blast
    have "ref_off s x + 1 \<le> p'" using feed_pos [OF f] ge by force
    then have "from_pos s p' (x # xs) = drop (Suc k) (x # xs)" using k(3) by (simp add: from_pos_def)
    moreover have "feed emit s (take (Suc k) (x # xs)) pos rdi =
        (True, p', snd (snd (feed emit s (take (Suc k) (x # xs)) pos rdi)))" using k(2) e True by simp
    ultimately show ?thesis using k(1,4) by (intro exI [of _ "Suc k"]) simp
  qed
qed

section \<open>Rename\<close>

definition moved :: "addr \<Rightarrow> byte list \<Rightarrow> (byte list \<Rightarrow> nat option) \<Rightarrow> addr \<Rightarrow> (byte list \<Rightarrow> nat option)" where
  "moved old_dir old_name m h = (if h = old_dir then m(old_name := None) else m)"

lemma tree_rename_meta:
  "tree_ok X F G (upd_inode t (\<lambda>zi. zi\<lparr>i_nlink := i_nlink zi + 1\<rparr>) s) = tree_ok X F G s"
  "tree_ok X F G (upd_inode t (\<lambda>zi. zi\<lparr>i_mtime := n, i_ctime := n\<rparr>) s) = tree_ok X F G s"
  "tree_ok X F G (upd_inode t (\<lambda>zi. zi\<lparr>i_ctime := n\<rparr>) s) = tree_ok X F G s"
  "tree_ok X F G (upd_inode t (\<lambda>zi. zi\<lparr>i_nlink := k\<rparr>) s) = tree_ok X F G s"
  "dir_map (upd_inode t (\<lambda>zi. zi\<lparr>i_nlink := i_nlink zi + 1\<rparr>) s) h = dir_map s h"
  "dir_map (upd_inode t (\<lambda>zi. zi\<lparr>i_mtime := n, i_ctime := n\<rparr>) s) h = dir_map s h"
  "dir_map (upd_inode t (\<lambda>zi. zi\<lparr>i_ctime := n\<rparr>) s) h = dir_map s h"
  "dir_map (upd_inode t (\<lambda>zi. zi\<lparr>i_nlink := k\<rparr>) s) h = dir_map s h"
  "content (upd_inode t (\<lambda>zi. zi\<lparr>i_nlink := i_nlink zi + 1\<rparr>) s) u = content s u"
  "content (upd_inode t (\<lambda>zi. zi\<lparr>i_mtime := n, i_ctime := n\<rparr>) s) u = content s u"
  "content (upd_inode t (\<lambda>zi. zi\<lparr>i_ctime := n\<rparr>) s) u = content s u"
  "content (upd_inode t (\<lambda>zi. zi\<lparr>i_nlink := k\<rparr>) s) u = content s u"
  by (simp_all add: tree_meta)

text \<open>The part of \<open>_do_rename\<close> after the entry of the new name is there.\<close>

lemma rename_finish_spec:
  assumes ok: "tree_ok X F G s" and sm: "dev_small s" and old: "old_dir \<in> G" and r: "r \<in> set (dir_refs s old_dir)"
  shows "\<exists>s'. rename_finish old_dir new_dir ti r time s = Some (Inr (), s') \<and> dir_inv F G s' \<and>
    (\<forall>h\<in>G. dir_map s' h = moved old_dir (ref_name s r) (dir_map s h) h) \<and>
    (\<forall>t\<in>F. content s' t = content s t \<and> i_size (h_inode s' t) = i_size (h_inode s t))"
proof -
  obtain s2 where s2: "toyfs_remove_dirent old_dir ti r s = Some s2" "tree_ok X F G s2" "kept F G old_dir s s2"
    "dir_map s2 old_dir = (dir_map s old_dir)(ref_name s r := None)"
    using remove_dirent_spec [OF ok old r pages_bound(2) [OF ok old sm], of ti] by blast
  let ?s3 = "if s_istype S_IFDIR (i_mode (h_inode s2 ti)) then upd_inode ti (\<lambda>zi. zi\<lparr>i_nlink := i_nlink zi + 1\<rparr>) s2 else s2"
  define s' where "s' = upd_inode ti (\<lambda>zi. zi\<lparr>i_ctime := time\<rparr>) (upd_inode new_dir (\<lambda>zi. zi\<lparr>i_mtime := time, i_ctime := time\<rparr>)
    (upd_inode old_dir (\<lambda>zi. zi\<lparr>i_mtime := time, i_ctime := time\<rparr>) ?s3))"
  have run: "rename_finish old_dir new_dir ti r time s = Some (Inr (), s')" using s2(1) by (simp add: rename_finish_def s'_def)
  have d: "dir_map s2 h = moved old_dir (ref_name s r) (dir_map s h) h" if "h \<in> G" for h
    using s2(3,4) that by (simp add: moved_def kept_def)
  have "tree_ok X F G s'" using s2(2) by (simp add: tree_rename_meta s'_def)
  moreover have "dir_map s' h = dir_map s2 h" for h by (simp add: tree_rename_meta s'_def)
  moreover have "dev_small s'" using sm dev_small_kept [OF s2(3)] by (simp add: dev_small_def s'_def)
  moreover have "content s' t = content s t \<and> i_size (h_inode s' t) = i_size (h_inode s t)" if "t \<in> F" for t
  proof -
    have "content s' t = content s2 t" "i_size (h_inode s' t) = i_size (h_inode s2 t)" by (simp_all add: tree_rename_meta s'_def)
    moreover have "content s2 t = content s t" "i_size (h_inode s2 t) = i_size (h_inode s t)"
      using s2(3) that by (simp_all add: kept_def)
    ultimately show ?thesis by metis
  qed
  ultimately show ?thesis using run d unfolding dir_inv_def by auto
qed

lemma toyfs_rename_run:
  assumes "zii_inode s (zir_old_dir_ii zir) = Some old_dir" "zii_inode s (zir_new_dir_ii zir) = Some new_dir"
    "zii_inode s (zir_old_zus_ii zir) = Some ti" "zii_ino s (zir_old_zus_ii zir) = Some ino"
    and "toyfs_zii_to_tii s (zir_new_zus_ii zir) \<noteq> None"
  shows "toyfs_rename zir s = do_rename old_dir new_dir (Some (ti, ino)) (zir_old_d_str zir) (zir_new_d_str zir)
    (zir_time zir) (zir_flags zir) s"
proof -
  have "\<exists>a. toyfs_zii_to_tii s x = Some (Some a)" if "zii_inode s x = Some y" for x y
    using that by (auto simp: zii_inode_def bind_eq_Some_conv)
  from this [OF assms(1)] this [OF assms(2)] this [OF assms(3)] assms show ?thesis
    by (auto simp: toyfs_rename_def)
qed

definition rename_to :: "addr \<Rightarrow> byte list \<Rightarrow> nat \<Rightarrow> (byte list \<Rightarrow> nat option) \<Rightarrow> addr \<Rightarrow> (byte list \<Rightarrow> nat option)" where
  "rename_to new_dir new_name ino m h = (if h = new_dir then m(new_name \<mapsto> ino) else m)"

lemma do_rename_spec:
  assumes inv: "dir_inv F G s" and old: "old_dir \<in> G" and new: "new_dir \<in> G"
    and names: "str_ok old_name" "str_ok new_name" and ino: "0 < ino" "ino < 2 ^ 64"
    and o: "dir_map s old_dir (str_bytes old_name) \<noteq> None"
  shows "do_rename old_dir new_dir (Some (ti, ino)) old_name new_name time 0 s = Some (Inl ENOSPC, s) \<and>
      dir_map s new_dir (str_bytes new_name) = None \<and> fst (toyfs_acquire_pmemb s) = None \<or>
    (\<exists>s'. do_rename old_dir new_dir (Some (ti, ino)) old_name new_name time 0 s = Some (Inr (), s') \<and> dir_inv F G s' \<and>
      (\<forall>h\<in>G. dir_map s' h = moved old_dir (str_bytes old_name)
         (if dir_map s new_dir (str_bytes new_name) = None
          then rename_to new_dir (str_bytes new_name) ino (dir_map s h) h else dir_map s h) h) \<and>
      (\<forall>t\<in>F. content s' t = content s t \<and> i_size (h_inode s' t) = i_size (h_inode s t)))"
proof -
  from inv obtain X where ok: "tree_ok X F G s" and sm: "dev_small s" by (auto simp: dir_inv_def)
  note dok = tree_okD(1) [OF ok]
  obtain r where r: "toyfs_lookup_dirent old_dir old_name s = Some r"
    using o lookup_dirent_None [OF dok [OF old] names(1)] by fastforce
  note lr = lookup_dirent_Some [OF dok [OF old] names(1) r]
  show ?thesis
  proof (cases "dir_map s new_dir (str_bytes new_name) = None")
    case False
    then obtain d where d: "toyfs_lookup_dirent new_dir new_name s = Some d"
      using lookup_dirent_None [OF dok [OF new] names(2)] by fastforce
    have "do_rename old_dir new_dir (Some (ti, ino)) old_name new_name time 0 s = rename_finish old_dir new_dir ti r time s"
      using r d by (simp add: do_rename_def)
    with rename_finish_spec [OF ok sm old lr(1), of new_dir ti time] lr(2) False show ?thesis by auto
  next
    case True
    then have l: "toyfs_lookup_dirent new_dir new_name s = None"
      using lookup_dirent_None [OF dok [OF new] names(2)] by simp
    from add_dirent_spec [OF ok new names(2) ino pages_bound(1) [OF ok new sm] True, of ti]
    show ?thesis
    proof (elim disjE exE conjE)
      assume "toyfs_add_dirent new_dir ti ino new_name s = (Inl ENOSPC, s)" "fst (toyfs_acquire_pmemb s) = None"
      then show ?thesis using r l True by (simp add: do_rename_def)
    next
      fix de s1 assume a: "toyfs_add_dirent new_dir ti ino new_name s = (Inr de, s1)" "grown X F G new_dir s s1"
        "dir_map s1 new_dir = (dir_map s new_dir)(str_bytes new_name \<mapsto> ino)"
      from a(2) obtain X1 where ok1: "tree_ok X1 F G s1" and k1: "kept F G new_dir s s1" "refs_kept s s1 old_dir"
        using old by (auto simp: grown_def)
      have sm1: "dev_small s1" using sm dev_small_kept [OF k1(1)] by simp
      have r1: "r \<in> set (dir_refs s1 old_dir)" "ref_name s1 r = str_bytes old_name" using k1(2) lr by (auto simp: refs_kept_def)
      have m1: "dir_map s1 h = rename_to new_dir (str_bytes new_name) ino (dir_map s h) h" if "h \<in> G" for h
        using a(3) k1(1) that by (simp add: rename_to_def kept_def)
      have c1: "\<forall>t\<in>F. content s1 t = content s t \<and> i_size (h_inode s1 t) = i_size (h_inode s t)"
        using k1(1) by (simp add: kept_def)
      have "do_rename old_dir new_dir (Some (ti, ino)) old_name new_name time 0 s = rename_finish old_dir new_dir ti r time s1"
        using r l a(1) by (simp add: do_rename_def)
      with rename_finish_spec [OF ok1 sm1 old r1(1), of new_dir ti time] r1(2) m1 c1 True show ?thesis by auto
    qed
  qed
qed

section \<open>A sample\<close>

text \<open>For the witnesses: a device of 8 pages with a regular file and an empty directory.\<close>

definition sample_dir :: "nat \<Rightarrow> toyfs_inode" where
  "sample_dir ino = zero_inode\<lparr>i_mode := 0x41ED, i_nlink := 2, i_ino := ino\<rparr>"

definition sample_tree :: toyfs_sb_info where
  "sample_tree =
    (let s1 = upd_inode 36864 (\<lambda>_. sample_reg 2) (snd (toyfs_acquire_inode (sample_mount 8)));
         s2 = upd_inode 36992 (\<lambda>_. sample_dir 3) (snd (toyfs_acquire_inode s1))
     in s2\<lparr>h_tii := [11 \<mapsto> sample_tii 36864 2, 12 \<mapsto> sample_tii 36992 3]\<rparr>)"

lemma tree_ok_h_tii [simp]: "tree_ok X F G (s\<lparr>h_tii := x\<rparr>) = tree_ok X F G s"
proof -
  let ?s = "s\<lparr>h_tii := x\<rparr>"
  have "dir_ok ?s g = dir_ok s g" for g by (rule dir_cong(4)) simp_all
  moreover have "pool_inv D B I N ?s = pool_inv D B I N s" for D B I N by (rule pool_inv_cong) simp_all
  moreover have "blocks_inv D B I N X F ?s = blocks_inv D B I N X F s" for D B I N by (rule blocks_inv_meta) simp_all
  ultimately show ?thesis by (simp add: tree_ok_def dirs_ok_def)
qed

lemma tree_ok_empty: "pool_inv D {} I N s \<Longrightarrow> tree_ok {} {} {} s"
  unfolding tree_ok_def using pool_inv_finite_I
  by (intro exI [of _ D] exI [of _ "{}"] exI [of _ I] exI [of _ N]) (auto simp: blocks_inv_def dirs_ok_def)

lemma sample_tree_ok: "tree_ok {} {36864} {36992} sample_tree"
proof -
  have 0: "tree_ok {} {} {} (sample_mount 8)" by (rule tree_ok_empty [OF sample_mount_inv])
  let ?s1 = "upd_inode 36864 (\<lambda>_. sample_reg 2) (snd (toyfs_acquire_inode (sample_mount 8)))"
  have 1: "tree_ok {} {36864} {} ?s1"
    by (rule tree_new_file [OF 0]) (use sample_fs_acquire(1) in \<open>simp_all add: prod_eq_iff sample_reg_def zero_inode_def\<close>)
  have "tree_ok {} {36864} {36992} (upd_inode 36992 (\<lambda>_. sample_dir 3) (snd (toyfs_acquire_inode ?s1)))"
    by (rule tree_new_dir [OF 1]) (use sample_fs_acquire(2) in \<open>simp_all add: prod_eq_iff sample_dir_def zero_inode_def\<close>)
  then show ?thesis by (simp add: sample_tree_def Let_def)
qed

lemma sample_tree_simps:
  "zii_inode sample_tree (Some 11) = Some 36864" "zii_inode sample_tree (Some 12) = Some 36992"
  "zii_ino sample_tree (Some 11) = Some 2" "zii_ino sample_tree (Some 12) = Some 3"
  "pages_of sample_tree 36992 = []" "f_blocks (s_statvfs sample_tree) = 8" "npages sample_tree = 7"
  "i_size (h_inode sample_tree 36864) = 0" "zi_isdir (h_inode sample_tree 36864) = False"
  by (simp_all add: sample_tree_def Let_def zii_inode_def zii_ino_def toyfs_zii_to_tii_def sample_tii_def sample_reg_def
      sample_dir_def zero_inode_def toyfs_acquire_inode_def pool_defs fold_free toyfs_inodes_per_page_def
      sample_simps upt_rec zi_isdir_def s_istype_def)

lemma sample_tree_dir: "dir_map sample_tree 36992 = Map.empty" "dev_small sample_tree" "dir_inv {36864} {36992} sample_tree"
proof -
  show "dir_map sample_tree 36992 = Map.empty" by (simp add: dir_map_def dir_alist_def dir_refs_def sample_tree_simps)
  show d: "dev_small sample_tree" by (simp add: dev_small_def sample_tree_simps)
  show "dir_inv {36864} {36992} sample_tree" using d sample_tree_ok by (auto simp: dir_inv_def)
qed

lemma add_dirent_npages: "toyfs_add_dirent g ti ino str s = (r, s') \<Longrightarrow> npages s \<le> npages s' + 1"
  by (auto simp: toyfs_add_dirent_def acquire_dirent_def add_dirent_def toyfs_acquire_pmemb_def pool_pop_pmemb_def Let_def
      split: prod.splits option.splits if_splits list.splits)

lemma tree_page: "dir_inv F G s \<Longrightarrow> 0 < npages s \<Longrightarrow> fst (toyfs_acquire_pmemb s) \<noteq> None"
proof -
  assume "dir_inv F G s" and n: "0 < npages s"
  then obtain D B I N where "pool_inv D B I N s" by (auto simp: dir_inv_def tree_ok_def)
  then show ?thesis using acquire_pmemb_space [OF _ n] by fastforce
qed

lemma sample_add:
  assumes "dir_inv {36864} {36992} s" "name_ok n" "dir_map s 36992 n = None" "0 < ino" "ino < 2 ^ 64" "1 < npages s"
  shows "\<exists>s'. dir_inv {36864} {36992} s' \<and> dir_map s' 36992 = (dir_map s 36992)(n \<mapsto> ino) \<and> h_tii s' = h_tii s \<and>
    npages s \<le> npages s' + 1"
proof -
  from assms(1) obtain X where ok: "tree_ok X {36864} {36992} s" and sm: "dev_small s" by (auto simp: dir_inv_def)
  have g: "36992 \<in> {36992::addr}" and str: "str_ok (mk_str n)" "dir_map s 36992 (str_bytes (mk_str n)) = None" using assms by simp_all
  have "fst (toyfs_acquire_pmemb s) \<noteq> None" by (rule tree_page [OF assms(1)]) (use assms(6) in linarith)
  with add_dirent_spec [OF ok g str(1) assms(4,5) pages_bound(1) [OF ok g sm] str(2), of 36864]
  obtain de s' where a: "toyfs_add_dirent 36992 36864 ino (mk_str n) s = (Inr de, s')" "grown X {36864} {36992} 36992 s s'"
    by auto
  then have "add_name 36992 36864 n ino s = Some s'" using assms(5) by (simp add: add_name_def)
  from add_name_law [OF assms(1) g assms(2,4,3) this] a(2) add_dirent_npages [OF a(1)] show ?thesis
    by (auto simp: grown_def kept_def)
qed

lemma sample_entry:
  "\<exists>s. dir_inv {36864} {36992} s \<and> dir_map s 36992 = [[97] \<mapsto> 2] \<and> h_tii s = h_tii sample_tree \<and> 1 < npages s"
  using sample_add [OF sample_tree_dir(3), of "[97]" 2] by (force simp: sample_tree_dir name_ok_def sample_tree_simps)

lemma sample_two:
  "\<exists>s. dir_inv {36864} {36992} s \<and> dir_map s 36992 = [[97] \<mapsto> 2, [98] \<mapsto> 3] \<and> h_tii s = h_tii sample_tree"
proof -
  obtain s where s: "dir_inv {36864} {36992} s" "dir_map s 36992 = [[97] \<mapsto> 2]" "h_tii s = h_tii sample_tree" "1 < npages s"
    using sample_entry by blast
  from sample_add [OF s(1), of "[98]" 3] s show ?thesis by (auto simp: name_ok_def)
qed

lemma sample_zii:
  assumes "h_tii s = h_tii sample_tree"
  shows "zii_inode s (Some 11) = Some 36864" "zii_inode s (Some 12) = Some 36992" "zii_ino s (Some 11) = Some 2"
  using sample_tree_simps(1-3) unfolding zii_inode_def zii_ino_def toyfs_zii_to_tii_def assms by simp_all

section \<open>Properties\<close>

text \<open>
  C12. Adding a name. For a directory of a well-formed tree, \<open>toyfs_add_dentry\<close> of a name that is not there
  never fails an assertion. It fails with \<open>ENOSPC\<close>, leaving everything as it was, only when no page is free; otherwise the
  lookup of that name returns the inode number and the lookup of every other name, in this and in every other directory,
  returns what it returned before. The invariant is kept and no file changes.
\<close>

theorem toyfs_add_dentry_correct:
  assumes inv: "dir_inv F G s" and g: "g \<in> G" and z: "zii_inode s dir_zii = Some g" "zii_inode s zii = Some ti" "zii_ino s zii = Some ino"
    and n: "name_ok n" "0 < ino" "ino < 2 ^ 64" "toyfs_lookup dir_zii (mk_str n) s = Some 0" "0 \<notin> ran (dir_map s g)"
  shows "toyfs_add_dentry dir_zii zii (mk_str n) s = Some (Inl ENOSPC, s) \<and> fst (toyfs_acquire_pmemb s) = None \<or>
    (\<exists>s'. toyfs_add_dentry dir_zii zii (mk_str n) s = Some (Inr (), s') \<and> dir_inv F G s' \<and>
      (\<forall>m. name_ok m \<longrightarrow> toyfs_lookup dir_zii (mk_str m) s' = (if m = n then Some ino else toyfs_lookup dir_zii (mk_str m) s)) \<and>
      (\<forall>h\<in>G. h \<noteq> g \<longrightarrow> dir_map s' h = dir_map s h) \<and>
      (\<forall>t\<in>F. content s' t = content s t \<and> i_size (h_inode s' t) = i_size (h_inode s t)))"
proof -
  from inv obtain X where ok: "tree_ok X F G s" and sm: "dev_small s" by (auto simp: dir_inv_def)
  have none: "dir_map s g n = None"
    using n(4,5) z(1) look_name_law [OF inv g n(1)] by (auto simp: toyfs_lookup_def ran_def split: option.splits)
  have str: "str_ok (mk_str n)" "dir_map s g (str_bytes (mk_str n)) = None" using n(1) none by simp_all
  from add_dirent_spec [OF ok g str(1) n(2,3) pages_bound(1) [OF ok g sm] str(2), of ti] show ?thesis
  proof (elim disjE exE conjE)
    assume "toyfs_add_dirent g ti ino (mk_str n) s = (Inl ENOSPC, s)" "fst (toyfs_acquire_pmemb s) = None"
    then show ?thesis using z by (simp add: toyfs_add_dentry_def)
  next
    fix de s' assume a: "toyfs_add_dirent g ti ino (mk_str n) s = (Inr de, s')" "grown X F G g s s'"
    then have k: "kept F G g s s'" by (simp add: grown_def)
    have an: "add_name g ti n ino s = Some s'" using a n(3) by (simp add: add_name_def)
    have inv': "dir_inv F G s'" using add_name_law [OF inv g n(1,2) none an] by simp
    have zi: "zii_inode s' dir_zii = Some g" using z(1) k zii_inode_cong [of s' s] by (simp add: kept_def)
    have "toyfs_lookup dir_zii (mk_str m) s' = (if m = n then Some ino else toyfs_lookup dir_zii (mk_str m) s)" if "name_ok m" for m
      using toy_dir.look_after_add [OF _ n(1,2) none an that, of F G] inv g zi z(1) by (simp add: toyfs_lookup_def)
    moreover have "toyfs_add_dentry dir_zii zii (mk_str n) s = Some (Inr (), s')" using a(1) z by (simp add: toyfs_add_dentry_def)
    ultimately show ?thesis using inv' k by (auto simp: kept_def)
  qed
qed

theorem toyfs_add_dentry_correct_witness:
  "\<exists>s'. toyfs_add_dentry (Some 12) (Some 11) (mk_str [97, 98]) sample_tree = Some (Inr (), s') \<and>
     toyfs_lookup (Some 12) (mk_str [97, 98]) s' = Some 2 \<and> toyfs_lookup (Some 12) (mk_str [99]) s' = Some 0"
proof -
  have l: "toyfs_lookup (Some 12) (mk_str m) sample_tree = Some 0" for m
    by (simp add: toyfs_lookup_def sample_tree_simps lookup_ino_def toyfs_lookup_dirent_def toyfs_childs_list_of_def)
  have n: "name_ok [97, 98]" "name_ok [99]" by (simp_all add: name_ok_def)
  from toyfs_add_dentry_correct [OF sample_tree_dir(3), of 36992 "Some 12" "Some 11" 36864 2, OF _ _ _ _ n(1)]
  show ?thesis using tree_page [OF sample_tree_dir(3)] n by (auto simp: sample_tree_simps l sample_tree_dir)
qed

text \<open>
  C13. Removing a name. \<open>toyfs_remove_dentry\<close> returns \<open>ENOENT\<close> exactly when the name is not there,
  \<open>ENOTEMPTY\<close> exactly when the inode is a directory that has entries, and otherwise removes exactly this name from the directory; it
  never fails an assertion, keeps the invariant and changes neither another directory nor a file.
\<close>

theorem toyfs_remove_dentry_correct:
  assumes inv: "dir_inv F G s" and g: "g \<in> G" and z: "zii_inode s dir_zii = Some g" "zii_inode s zii = Some ti"
    and n: "name_ok n" and ti: "zi_isdir (h_inode s ti) \<longleftrightarrow> ti \<in> G"
  shows "if dir_map s g n = None then toyfs_remove_dentry dir_zii zii (mk_str n) s = Some (Inl ENOENT, s)
    else if ti \<in> G \<and> dir_map s ti \<noteq> Map.empty then toyfs_remove_dentry dir_zii zii (mk_str n) s = Some (Inl ENOTEMPTY, s)
    else (\<exists>s'. toyfs_remove_dentry dir_zii zii (mk_str n) s = Some (Inr (), s') \<and> dir_inv F G s' \<and>
      dir_map s' g = (dir_map s g)(n := None) \<and> (\<forall>h\<in>G. h \<noteq> g \<longrightarrow> dir_map s' h = dir_map s h) \<and>
      (\<forall>t\<in>F. content s' t = content s t \<and> i_size (h_inode s' t) = i_size (h_inode s t)))"
proof -
  from inv obtain X where ok: "tree_ok X F G s" and sm: "dev_small s" by (auto simp: dir_inv_def)
  note dok = tree_okD(1) [OF ok]
  have so: "str_ok (mk_str n)" using n by simp
  have emp: "i_size (h_inode s ti) \<noteq> 0 \<longleftrightarrow> dir_map s ti \<noteq> Map.empty" if "ti \<in> G"
    using dok [OF that] by (auto simp: dir_ok_def dir_map_def dir_alist_def)
  show ?thesis
  proof (cases "toyfs_lookup_dirent g (mk_str n) s")
    case None
    then show ?thesis using lookup_dirent_None [OF dok [OF g] so] z by (simp add: toyfs_remove_dentry_def)
  next
    case (Some de)
    note l = lookup_dirent_Some [OF dok [OF g] so Some]
    show ?thesis
    proof (cases "ti \<in> G \<and> dir_map s ti \<noteq> Map.empty")
      case True
      then show ?thesis using l(3) Some z ti emp by (simp add: toyfs_remove_dentry_def)
    next
      case False
      then have guard: "\<not> (zi_isdir (h_inode s ti) \<and> i_size (h_inode s ti) \<noteq> 0)" using ti emp by blast
      obtain s1 where s1: "toyfs_remove_dirent g ti de s = Some s1" "tree_ok X F G s1" "kept F G g s s1"
        "dir_map s1 g = (dir_map s g)(n := None)"
        using remove_dirent_spec [OF ok g l(1) pages_bound(2) [OF ok g sm], of ti] l(2) by auto
      define s' where "s' = (if zi_isdir (h_inode s1 ti) \<and> i_nlink (h_inode s1 ti) = 1 \<and> i_size (h_inode s1 ti) = 0
        then upd_inode ti (\<lambda>zi. zi\<lparr>i_nlink := 0\<rparr>) s1 else s1)"
      have "toyfs_remove_dentry dir_zii zii (mk_str n) s = Some (Inr (), s')"
        using Some z guard s1(1) by (simp add: toyfs_remove_dentry_def s'_def)
      moreover have "tree_ok X F G s'" "dir_map s' h = dir_map s1 h" "content s' t = content s1 t"
        "i_size (h_inode s' t) = i_size (h_inode s1 t)" "s_statvfs s' = s_statvfs s1" for h t
        using s1(2) by (simp_all add: s'_def tree_rename_meta)
      ultimately show ?thesis using s1(3,4) l(3) False sm by (auto simp: dir_inv_def dev_small_def kept_def)
    qed
  qed
qed

theorem toyfs_remove_dentry_correct_witness:
  "toyfs_remove_dentry (Some 12) (Some 11) (mk_str [97]) sample_tree = Some (Inl ENOENT, sample_tree)"
  using toyfs_remove_dentry_correct [OF sample_tree_dir(3), of 36992 "Some 12" "Some 11" 36864 "[97]"]
  by (simp add: sample_tree_simps sample_tree_dir name_ok_def)

text \<open>
  C14. Rename to a new name. If the old name is there and the new one is not, \<open>toyfs_rename\<close> fails with
  \<open>ENOSPC\<close>, changing nothing, only when no page is free; otherwise the old name disappears, the new name leads to the inode
  that was moved, and all other names of all directories and all files stay.
\<close>

theorem toyfs_rename_moves:
  assumes inv: "dir_inv F G s" and d: "old_dir \<in> G" "new_dir \<in> G"
    and z: "zii_inode s (zir_old_dir_ii zir) = Some old_dir" "zii_inode s (zir_new_dir_ii zir) = Some new_dir"
      "zii_inode s (zir_old_zus_ii zir) = Some ti" "zii_ino s (zir_old_zus_ii zir) = Some ino" "zir_new_zus_ii zir = None"
    and n: "zir_old_d_str zir = mk_str old" "zir_new_d_str zir = mk_str new" "name_ok old" "name_ok new" "0 < ino" "ino < 2 ^ 64"
    and fl: "zir_flags zir = 0" and o: "dir_map s old_dir old \<noteq> None" "dir_map s new_dir new = None"
  shows "toyfs_rename zir s = Some (Inl ENOSPC, s) \<and> fst (toyfs_acquire_pmemb s) = None \<or>
    (\<exists>s'. toyfs_rename zir s = Some (Inr (), s') \<and> dir_inv F G s' \<and>
      dir_map s' new_dir new = Some ino \<and> dir_map s' old_dir old = None \<and>
      (\<forall>h\<in>G. \<forall>m. (h, m) \<noteq> (new_dir, new) \<longrightarrow> (h, m) \<noteq> (old_dir, old) \<longrightarrow> dir_map s' h m = dir_map s h m) \<and>
      (\<forall>t\<in>F. content s' t = content s t \<and> i_size (h_inode s' t) = i_size (h_inode s t)))"
proof -
  have ne: "(new_dir, new) \<noteq> (old_dir, old)" using o by auto
  have so: "str_ok (mk_str old)" "str_ok (mk_str new)" "dir_map s old_dir (str_bytes (mk_str old)) \<noteq> None" using n o by simp_all
  note sp = do_rename_spec [OF inv d so(1,2) n(5,6) so(3), of ti "zir_time zir"]
  have run: "toyfs_rename zir s = do_rename old_dir new_dir (Some (ti, ino)) (mk_str old) (mk_str new) (zir_time zir) 0 s"
    using toyfs_rename_run [OF z(1-4)] z(5) n(1,2) fl by (simp add: toyfs_zii_to_tii_def)
  show ?thesis using sp
  proof (elim disjE exE conjE)
    fix s' assume a: "do_rename old_dir new_dir (Some (ti, ino)) (mk_str old) (mk_str new) (zir_time zir) 0 s = Some (Inr (), s')"
      "dir_inv F G s'" "\<forall>h\<in>G. dir_map s' h = moved old_dir (str_bytes (mk_str old))
         (if dir_map s new_dir (str_bytes (mk_str new)) = None
          then rename_to new_dir (str_bytes (mk_str new)) ino (dir_map s h) h else dir_map s h) h"
      "\<forall>t\<in>F. content s' t = content s t \<and> i_size (h_inode s' t) = i_size (h_inode s t)"
    have m: "dir_map s' h = moved old_dir old (rename_to new_dir new ino (dir_map s h) h) h" if "h \<in> G" for h
      using a(3) o that by simp
    then have "dir_map s' new_dir new = Some ino" "dir_map s' old_dir old = None"
      using d ne by (auto simp: moved_def rename_to_def)
    moreover have "dir_map s' h k = dir_map s h k" if "h \<in> G" "(h, k) \<noteq> (new_dir, new)" "(h, k) \<noteq> (old_dir, old)" for h k
      using m [OF that(1)] that by (auto simp: moved_def rename_to_def)
    ultimately show ?thesis using run a(1,2,4) by auto
  qed (use run in simp)
qed

theorem toyfs_rename_moves_witness:
  "\<exists>s r s'. dir_map s 36992 [97] = Some 2 \<and>
     toyfs_rename \<lparr>zir_old_dir_ii = Some 12, zir_new_dir_ii = Some 12, zir_old_zus_ii = Some 11, zir_new_zus_ii = None,
       zir_old_d_str = mk_str [97], zir_new_d_str = mk_str [98], zir_time = 5, zir_flags = 0\<rparr> s = Some (r, s')"
proof -
  obtain s where s: "dir_inv {36864} {36992} s" "dir_map s 36992 = [[97] \<mapsto> 2]" "h_tii s = h_tii sample_tree"
    using sample_entry by blast
  from toyfs_rename_moves [OF s(1), of 36992 36992 "\<lparr>zir_old_dir_ii = Some 12, zir_new_dir_ii = Some 12,
      zir_old_zus_ii = Some 11, zir_new_zus_ii = None, zir_old_d_str = mk_str [97], zir_new_d_str = mk_str [98],
      zir_time = 5, zir_flags = 0\<rparr>" 36864 2 "[97]" "[98]"] s(2) sample_zii [OF s(3)]
  show ?thesis by (intro exI [of _ s]) (auto simp: name_ok_def)
qed

text \<open>
  Rename onto an existing name. \<open>_do_rename\<close> finds the entry of the new name and leaves it as it is: the
  operation succeeds, the old name is gone, and the new name still leads to the inode it led to before, so that the
  inode that was to be moved has no name.
\<close>

theorem toyfs_rename_keeps_target:
  assumes inv: "dir_inv F G s" and d: "old_dir \<in> G" "new_dir \<in> G"
    and z: "zii_inode s (zir_old_dir_ii zir) = Some old_dir" "zii_inode s (zir_new_dir_ii zir) = Some new_dir"
      "zii_inode s (zir_old_zus_ii zir) = Some ti" "zii_ino s (zir_old_zus_ii zir) = Some ino"
      "zii_inode s (zir_new_zus_ii zir) = Some ti'"
    and n: "zir_old_d_str zir = mk_str old" "zir_new_d_str zir = mk_str new" "name_ok old" "name_ok new" "0 < ino" "ino < 2 ^ 64"
    and fl: "zir_flags zir = 0" and o: "dir_map s old_dir old \<noteq> None" "dir_map s new_dir new = Some target"
    and ne: "(old_dir, old) \<noteq> (new_dir, new)"
  shows "\<exists>s'. toyfs_rename zir s = Some (Inr (), s') \<and> dir_map s' new_dir new = Some target \<and> dir_map s' old_dir old = None"
proof -
  have so: "str_ok (mk_str old)" "str_ok (mk_str new)" "dir_map s old_dir (str_bytes (mk_str old)) \<noteq> None" using n o by simp_all
  note sp = do_rename_spec [OF inv d so(1,2) n(5,6) so(3), of ti "zir_time zir"]
  have run: "toyfs_rename zir s = do_rename old_dir new_dir (Some (ti, ino)) (mk_str old) (mk_str new) (zir_time zir) 0 s"
    using toyfs_rename_run [OF z(1-4)] z(5) n(1,2) fl by (auto simp: zii_inode_def bind_eq_Some_conv)
  from sp o obtain s' where "do_rename old_dir new_dir (Some (ti, ino)) (mk_str old) (mk_str new) (zir_time zir) 0 s = Some (Inr (), s')"
    "\<forall>h\<in>G. dir_map s' h = moved old_dir old (dir_map s h) h" by auto
  moreover from this(2) have "dir_map s' new_dir new = Some target" "dir_map s' old_dir old = None"
    using d o ne by (auto simp: moved_def)
  ultimately show ?thesis using run by auto
qed

theorem toyfs_rename_keeps_target_witness:
  "\<exists>s s'. dir_map s 36992 [97] = Some 2 \<and> dir_map s 36992 [98] = Some 3 \<and>
     toyfs_rename \<lparr>zir_old_dir_ii = Some 12, zir_new_dir_ii = Some 12, zir_old_zus_ii = Some 11, zir_new_zus_ii = Some 12,
       zir_old_d_str = mk_str [97], zir_new_d_str = mk_str [98], zir_time = 5, zir_flags = 0\<rparr> s = Some (Inr (), s') \<and>
     dir_map s' 36992 [98] = Some 3 \<and> dir_map s' 36992 [97] = None"
proof -
  obtain s where s: "dir_inv {36864} {36992} s" "dir_map s 36992 = [[97] \<mapsto> 2, [98] \<mapsto> 3]" "h_tii s = h_tii sample_tree"
    using sample_two by blast
  from toyfs_rename_keeps_target [OF s(1), of 36992 36992 "\<lparr>zir_old_dir_ii = Some 12, zir_new_dir_ii = Some 12,
      zir_old_zus_ii = Some 11, zir_new_zus_ii = Some 12, zir_old_d_str = mk_str [97], zir_new_d_str = mk_str [98],
      zir_time = 5, zir_flags = 0\<rparr>" 36864 2 36992 "[97]" "[98]" 3] s(2) sample_zii [OF s(3)]
  have "\<exists>s'. toyfs_rename \<lparr>zir_old_dir_ii = Some 12, zir_new_dir_ii = Some 12, zir_old_zus_ii = Some 11, zir_new_zus_ii = Some 12,
       zir_old_d_str = mk_str [97], zir_new_d_str = mk_str [98], zir_time = 5, zir_flags = 0\<rparr> s = Some (Inr (), s') \<and>
     dir_map s' 36992 [98] = Some 3 \<and> dir_map s' 36992 [97] = None" by (simp add: name_ok_def)
  moreover have "dir_map s 36992 [97] = Some 2" "dir_map s 36992 [98] = Some 3" using s(2) by simp_all
  ultimately show ?thesis by blast
qed

text \<open>
  The two dot entries, which have the positions 0 and 1 and no place in the pages: whether the buffer took those that were offered, the position
  behind them, and the buffer. The position moves on also when the entry was refused.
\<close>

definition feed_dots :: "'r zde_emit \<Rightarrow> toyfs_sb_info \<Rightarrow> addr \<Rightarrow> int \<Rightarrow> 'r \<Rightarrow> bool \<times> int \<times> 'r" where
  "feed_dots emit s g pos rdi =
    (let dot = (\<lambda>rdi. emit rdi (i_ino (h_inode s g)) DT_DIR 0 [46]);
         dotdot = (\<lambda>rdi. emit rdi (i_dir_parent (h_inode s g)) DT_DIR 1 [46, 46])
     in if pos = 0 then
          let (ok, rdi) = dot rdi in if ok then let (ok, rdi) = dotdot rdi in (ok, 2, rdi) else (False, 1, rdi)
        else if pos = 1 then let (ok, rdi) = dotdot rdi in (ok, 2, rdi)
        else (True, pos, rdi))"

lemma iterate_dir_dots:
  "ctx_view (iterate_dir emit g s (init_getdents_ctx rdi pos)) =
    (let (ok, q, rdi1) = feed_dots emit s g pos rdi
     in if ok then ctx_view (iterate_pages emit s (pages_of s g) (init_getdents_ctx rdi1 q)) else (pages_of s g \<noteq> [], q, rdi1))"
  if "dir_ok s g"
proof -
  define fd where "fd = (\<lambda>q r. feed emit s (from_pos s q (dir_refs s g)) q r)"
  have "ctx_view (iterate_pages emit s (pages_of s g) ctx) = (let (ok, p, r) = fd (ctx_pos ctx) (ctx_rdi ctx) in (\<not> ok, p, r))" for ctx
    using iterate_pages_feed [of "pages_of s g" s emit ctx] that dir_refs_sorted(1) [OF that] by (simp add: dir_ok_def dir_refs_def fd_def)
  then have view: "fst (iterate_pages emit s (pages_of s g) ctx) = (\<not> fst (fd (ctx_pos ctx) (ctx_rdi ctx)))"
    "ctx_pos (snd (iterate_pages emit s (pages_of s g) ctx)) = fst (snd (fd (ctx_pos ctx) (ctx_rdi ctx)))"
    "ctx_rdi (snd (iterate_pages emit s (pages_of s g) ctx)) = snd (snd (fd (ctx_pos ctx) (ctx_rdi ctx)))" for ctx
    by (simp_all add: case_prod_beta prod_eq_iff)
  obtain o1 r1 where d1: "emit rdi (i_ino (h_inode s g)) DT_DIR 0 [46] = (o1, r1)" by force
  obtain o2 r2 where d2: "emit r1 (i_dir_parent (h_inode s g)) DT_DIR 1 [46, 46] = (o2, r2)" by force
  obtain o3 r3 where d3: "emit rdi (i_dir_parent (h_inode s g)) DT_DIR 1 [46, 46] = (o3, r3)" by force
  have c: "cast_size 0 = 0" "cast_size 1 = 1" by (simp_all add: cast_size_def)
  note D = iterate_dir_def feed_dots_def emit_name_def filldir_def toyfs_childs_list_of_def init_getdents_ctx_def Let_def c
  consider "pos = 0" | "pos = 1" | "pos \<noteq> 0" "pos \<noteq> 1" by blast
  then show ?thesis
  proof cases
    case 1
    show ?thesis using d1 d2 by (cases o1; cases o2) (simp_all add: D 1 view)
  next
    case 2
    show ?thesis using d3 by (cases o3) (simp_all add: D 2 view)
  next
    case 3
    then show ?thesis by (simp add: D)
  qed
qed

text \<open>
  C15. Listing. From any position, \<open>toyfs_readdir\<close> offers the dot entries that are left and then the entries of the directory from that position on, in
  order, to the buffer of the caller until it refuses one. The position it returns separates what was
  taken from the rest: a call that starts there offers exactly the remaining entries, so no entry of the pages is lost or repeated, and \<open>more\<close> is false
  exactly when all were taken. A dot entry that is refused ends the call, but the position is behind it: it is lost, as \<open>readdir_loses_refused_dot\<close> shows,
  and in a directory without pages \<open>more\<close> is false.
\<close>

theorem toyfs_readdir_resumes:
  assumes inv: "dir_inv F G s" and g: "g \<in> G" and z: "zii_inode s zii = Some g"
  shows "let (ok, q, rdi1) = feed_dots emit s g pos rdi in
    if \<not> ok then toyfs_readdir emit zii s pos rdi = Some (Inr (), pages_of s g \<noteq> [], q, rdi1)
    else \<exists>more p' rdi' k. toyfs_readdir emit zii s pos rdi = Some (Inr (), more, p', rdi') \<and>
      feed emit s (from_pos s q (dir_refs s g)) q rdi1 = (\<not> more, p', rdi') \<and>
      fst (feed emit s (take k (from_pos s q (dir_refs s g))) q rdi1) \<and>
      from_pos s p' (dir_refs s g) = drop k (from_pos s q (dir_refs s g)) \<and>
      (more \<longleftrightarrow> k < length (from_pos s q (dir_refs s g)))"
proof -
  from inv obtain X where ok: "tree_ok X F G s" by (auto simp: dir_inv_def)
  note dok = tree_okD(1) [OF ok g] and srt = dir_refs_sorted(1) [OF tree_okD(1) [OF ok g]]
  obtain od q rdi1 where dots: "feed_dots emit s g pos rdi = (od, q, rdi1)" by (metis prod_cases3)
  note it = iterate_dir_dots [OF dok, of emit rdi pos, unfolded dots Let_def prod.case]
  have rd: "toyfs_readdir emit zii s pos rdi = Some (Inr (), ctx_view (iterate_dir emit g s (init_getdents_ctx rdi pos)))"
    using z by (simp add: toyfs_readdir_def toyfs_iterate_dir_def case_prod_beta)
  show ?thesis
  proof (cases od)
    case False
    then show ?thesis using rd it by (simp add: dots)
  next
    case True
    let ?R = "from_pos s q (dir_refs s g)"
    obtain fd p' rdi' where f: "feed emit s ?R q rdi1 = (fd, p', rdi')" by (metis prod_cases3)
    have "ctx_view (iterate_pages emit s (pages_of s g) (init_getdents_ctx rdi1 q)) = (\<not> fd, p', rdi')"
      using iterate_pages_feed [of "pages_of s g" s emit "init_getdents_ctx rdi1 q"] dok srt f
      by (simp add: dir_ok_def dir_refs_def init_getdents_ctx_def)
    then have run: "toyfs_readdir emit zii s pos rdi = Some (Inr (), \<not> fd, p', rdi')" using rd it True by simp
    have srtR: "sorted_wrt (<) (map (ref_off s) ?R)"
      using srt by (simp add: from_pos_def sorted_wrt_map sorted_wrt_filter)
    obtain k where k: "k \<le> length ?R" "feed emit s (take k ?R) q rdi1 = (True, p', snd (snd (feed emit s (take k ?R) q rdi1)))"
      "from_pos s p' ?R = drop k ?R" "fd \<longleftrightarrow> k = length ?R"
      using feed_rest [OF srtR _ f] by (auto simp: from_pos_def)
    have "q \<le> p'" using feed_pos [OF f] by (auto simp: from_pos_def)
    then have "from_pos s p' (dir_refs s g) = from_pos s p' ?R" by (auto simp: from_pos_def intro!: filter_cong)
    then have "from_pos s p' (dir_refs s g) = drop k ?R" using k(3) by simp
    moreover have "fst (feed emit s (take k ?R) q rdi1)" using k(2) by (metis fst_conv)
    moreover have nn: "\<not> \<not> od" using True by simp
    ultimately show ?thesis using run f k unfolding dots Let_def prod.case if_not_P [OF nn]
      by (intro exI [of _ "\<not> fd"] exI [of _ p'] exI [of _ rdi'] exI [of _ k]) auto
  qed
qed

lemma feed_collects:
  "feed (\<lambda>ns i d p m. (True, ns @ [m])) s xs pos ns = (ok, p', ns') \<Longrightarrow> ok \<and> ns' = ns @ map (ref_name s) xs"
proof (induction xs arbitrary: pos ns)
  case (Cons x xs)
  then show ?case using Cons.IH [of "ref_off s x + 1" "ns @ [ref_name s x]"] by simp
qed simp

text \<open>A directory with two names, listed from the start into a buffer that takes everything.\<close>

theorem toyfs_readdir_resumes_witness:
  "\<exists>s p' ns. dir_map s 36992 = [[97] \<mapsto> 2, [98] \<mapsto> 3] \<and>
     toyfs_readdir (\<lambda>ns i d p m. (True, ns @ [m])) (Some 12) s 0 [] = Some (Inr (), False, p', ns) \<and> set ns = {[46], [46, 46], [97], [98]}"
proof -
  obtain s where s: "dir_inv {36864} {36992} s" "dir_map s 36992 = [[97] \<mapsto> 2, [98] \<mapsto> 3]" "h_tii s = h_tii sample_tree"
    using sample_two by blast
  let ?e = "\<lambda>ns i d p m. (True, ns @ [m])"
  have dots: "feed_dots ?e s 36992 0 [] = (True, 2, [[46], [46, 46]])" by (simp add: feed_dots_def)
  from toyfs_readdir_resumes [OF s(1) _ sample_zii(2) [OF s(3)], of ?e 0 "[]", unfolded dots Let_def prod.case] obtain more p' ns where
    r: "toyfs_readdir ?e (Some 12) s 0 [] = Some (Inr (), more, p', ns)"
      "feed ?e s (from_pos s 2 (dir_refs s 36992)) 2 [[46], [46, 46]] = (\<not> more, p', ns)" by auto
  have dok: "dir_ok s 36992" using s(1) tree_okD(1) [of _ "{36864}" "{36992}" s 36992] by (auto simp: dir_inv_def)
  have "from_pos s 2 (dir_refs s 36992) = dir_refs s 36992" using dir_refs_sorted(2) [OF dok] by (simp add: from_pos_def)
  with feed_collects [OF r(2)] have n: "\<not> more" "ns = [[46], [46, 46]] @ map (ref_name s) (dir_refs s 36992)" by simp_all
  have "fst ` set (dir_alist s 36992) = {[97], [98]}" using s(2) dom_map_of_conv_image_fst [of "dir_alist s 36992"] by (auto simp: dir_map_def)
  then have "ref_name s ` set (dir_refs s 36992) = {[97], [98]}" by (simp add: dir_alist_def image_image)
  then have "set ns = {[46], [46, 46], [97], [98]}" using n(2) by auto
  then show ?thesis using s(2) r(1) n(1) by auto
qed

text \<open>
  The dot entries. When the buffer refuses the entry \<open>.\<close> at position 0, the position is
  advanced all the same: a call that resumes there never offers it again.
\<close>

theorem readdir_loses_refused_dot:
  assumes "\<not> fst (emit rdi (i_ino (h_inode s g)) DT_DIR (cast_size 0) [46])" and "zii_inode s zii = Some g"
  shows "\<exists>more rdi'. toyfs_readdir emit zii s 0 rdi = Some (Inr (), more, 1, rdi')"
  using assms by (auto simp: toyfs_readdir_def toyfs_iterate_dir_def iterate_dir_def init_getdents_ctx_def emit_name_def
      filldir_def split: prod.splits)

theorem readdir_loses_refused_dot_witness:
  "\<exists>more rdi'. toyfs_readdir (\<lambda>(n::nat) i d p m. (0 < n, n - 1)) (Some 12) sample_tree 0 0 = Some (Inr (), more, 1, rdi')"
  by (rule readdir_loses_refused_dot [of _ _ _ 36992]) (simp_all add: sample_tree_simps)

end
