(* ===== verification/InodeOps.thy ===== *)
theory InodeOps
  imports ToyInode DirOps
begin

text \<open>
  Properties of the inode layer: the inode table, the inode infos in memory and the counters stay
  consistent (\<open>ii_inv\<close>); creation, eviction and deletion of inodes keep the structures of files and
  directories (\<open>tree_ok\<close>); symbolic links; the state after a mount.
\<close>

section \<open>What the operations on blocks and pages leave alone\<close>

definition same_ii :: "toyfs_sb_info \<Rightarrow> toyfs_sb_info \<Rightarrow> bool" where
  "same_ii s s' =
    (s_itable s' = s_itable s \<and> s_top_ino s' = s_top_ino s \<and> h_tii s' = h_tii s \<and> s_root s' = s_root s \<and>
     f_files (s_statvfs s') = f_files (s_statvfs s) \<and> f_ffree (s_statvfs s') = f_ffree (s_statvfs s) \<and>
     f_favail (s_statvfs s') = f_favail (s_statvfs s))"

lemma same_ii_refl [simp]: "same_ii s s"
  by (simp add: same_ii_def)

lemma same_ii_trans: "same_ii s s' \<Longrightarrow> same_ii s' s'' \<Longrightarrow> same_ii s s''"
  by (simp add: same_ii_def)

lemma same_ii_upd [simp]:
  "same_ii s (upd_inode t f u) = same_ii s u" "same_ii s (upd_dblkref d g u) = same_ii s u"
  "same_ii s (upd_iblkref ib h u) = same_ii s u" "same_ii s (upd_dat p off len src u) = same_ii s u"
  "same_ii s (u\<lparr>s_pool := P\<rparr>) = same_ii s u"
  by (simp_all add: same_ii_def upd_defs)

lemma same_ii_release [simp]:
  "same_ii s (toyfs_release_pmemb p u) = same_ii s u" "same_ii s (toyfs_release_dblkref d u) = same_ii s u"
  "same_ii s (toyfs_release_iblkref ib u) = same_ii s u" "same_ii s (toyfs_release_inode t u) = same_ii s u"
  by (simp_all add: same_ii_def toyfs_release_pmemb_def toyfs_release_dblkref_def toyfs_release_iblkref_def
      toyfs_release_inode_def pool_push_inode_def upd_defs Let_def)

lemma same_ii_acquire_pmemb: "toyfs_acquire_pmemb s = (r, s') \<Longrightarrow> same_ii s s'"
  by (auto simp: toyfs_acquire_pmemb_def same_ii_def upd_defs split: if_splits prod.splits option.splits)

lemma same_ii_acquire_inode: "toyfs_acquire_inode s = (r, s') \<Longrightarrow> same_ii s s'"
  by (auto simp: toyfs_acquire_inode_def Let_def split: prod.splits)

lemma same_ii_decref: "decref_dblkref d u = Some u' \<Longrightarrow> same_ii u u'"
  by (auto simp: decref_dblkref_def free_dblkref_def Let_def split: if_splits)

lemma same_ii_drop_iblkref:
  assumes "drop_iblkref t ib s = Some s'"
  shows "same_ii s s'"
proof -
  let ?u = "upd_inode t (\<lambda>zi. zi\<lparr>list_head := remove1 ib (list_head zi)\<rparr>) s"
  from assms obtain d s1 where s1: "decref_dblkref d ?u = Some s1"
    and s': "s' = upd_inode t (\<lambda>zi. zi\<lparr>i_blocks := i_blocks zi - 1\<rparr>) (toyfs_release_iblkref ib s1)"
    by (auto simp: drop_iblkref_def free_iblkref_def Let_def bind_eq_Some_conv split: if_splits)
  have "same_ii s ?u" by simp
  from same_ii_trans [OF this same_ii_decref [OF s1]] show ?thesis by (simp add: s')
qed

lemma same_ii_drop_range: "drop_range_loop t pos xs s = Some s' \<Longrightarrow> same_ii s s'"
proof (induction xs arbitrary: s)
  case (Cons x xs)
  then show ?case
    by (auto simp: bind_eq_Some_conv split: if_splits intro: same_ii_trans [OF same_ii_drop_iblkref])
qed simp

lemma same_ii_truncate_0: "toyfs_truncate t 0 s = Some (r, s') \<Longrightarrow> same_ii s s'"
proof -
  assume a: "toyfs_truncate t 0 s = Some (r, s')"
  have z: "zero_after t (cast_loff 0) u = Some (Inr (), u)" for u
    by (simp add: zero_after_def cast_loff_def cast_size_def)
  from a show ?thesis
    by (auto simp: toyfs_truncate_def z drop_range_def Let_def bind_eq_Some_conv split: if_splits
        intro: same_ii_trans [OF same_ii_drop_range])
qed

lemma same_ii_release_dir_loop: "release_dir_loop t xs u = Some s' \<Longrightarrow> same_ii s u \<Longrightarrow> same_ii s s'"
proof (induction xs arbitrary: u)
  case (Cons x xs)
  let ?u = "upd_inode t (\<lambda>zi. zi\<lparr>i_blocks := i_blocks zi - 1\<rparr>)
     (toyfs_release_pmemb x (upd_inode t (\<lambda>zi. zi\<lparr>list_head := remove1 x (list_head zi)\<rparr>) u))"
  from Cons.prems(1) have "release_dir_loop t xs ?u = Some s'" by (simp add: Let_def split: if_splits)
  from Cons.IH [OF this] Cons.prems(2) show ?case by simp
qed simp

lemma same_ii_release_dir: "toyfs_release_dir t s = Some s' \<Longrightarrow> same_ii s s'"
  using same_ii_release_dir_loop [of t _ s _ s]
  by (auto simp: toyfs_release_dir_def bind_eq_Some_conv split: if_splits)

lemma same_ii_drop_xattr [simp]: "same_ii s (toyfs_drop_xattr t u) = same_ii s u"
  by (simp add: toyfs_drop_xattr_def Let_def)

lemma same_ii_release_symlink [simp]: "same_ii s (toyfs_release_symlink t u) = same_ii s u"
  by (simp add: toyfs_release_symlink_def Let_def)

lemma same_ii_free_inode: "toyfs_free_inode a s = Some s' \<Longrightarrow> same_ii s s'"
  by (auto simp: toyfs_free_inode_def Let_def bind_eq_Some_conv split: if_splits
      dest!: same_ii_release_dir same_ii_truncate_0)

section \<open>Consistency of the inode table\<close>

definition good_ii :: "toyfs_inode_ref \<Rightarrow> toyfs_inode_info \<Rightarrow> bool" where
  "good_ii r ii =
    (tii_ino ii = tir_ino r \<and> tii_ti ii = tir_ti r \<and> tii_zi ii = tir_ti r \<and> tii_op ii \<and> tii_valid ii \<and> tii_sbi ii)"

text \<open>
  Every entry of the table has an inode and a number below the next free one, and the info it points
  to is live and agrees with it. Every live info but the one of the root is found in the table. The
  number of free inodes counts the infos.
\<close>

definition ii_inv :: "toyfs_sb_info \<Rightarrow> bool" where
  "ii_inv s =
    (itable_ok (s_itable s) \<and>
     (\<forall>n r. itable_map (s_itable s) n = Some r \<longrightarrow>
        n < s_top_ino s \<and> tir_ti r \<noteq> None \<and> (\<forall>a. tir_tii r = Some a \<longrightarrow> (\<exists>ii. h_tii s a = Some ii \<and> good_ii r ii))) \<and>
     (\<forall>a ii. h_tii s a = Some ii \<longrightarrow> s_root s \<noteq> Some a \<longrightarrow>
        tii_mapped ii \<and> (\<exists>r. itable_map (s_itable s) (tii_ino ii) = Some r \<and> tir_tii r = Some a)) \<and>
     finite (dom (h_tii s)) \<and> f_ffree (s_statvfs s) + card (dom (h_tii s)) = f_files (s_statvfs s) \<and>
     f_favail (s_statvfs s) = f_ffree (s_statvfs s))"

lemma ii_invD:
  assumes "ii_inv s"
  shows "itable_ok (s_itable s)"
    "itable_map (s_itable s) n = Some r \<Longrightarrow> n < s_top_ino s"
    "itable_map (s_itable s) n = Some r \<Longrightarrow> \<exists>ti. tir_ti r = Some ti"
    "itable_map (s_itable s) n = Some r \<Longrightarrow> tir_tii r = Some a \<Longrightarrow> \<exists>ii. h_tii s a = Some ii \<and> good_ii r ii"
    "h_tii s a = Some ii \<Longrightarrow> s_root s \<noteq> Some a \<Longrightarrow> tii_mapped ii"
    "h_tii s a = Some ii \<Longrightarrow> s_root s \<noteq> Some a \<Longrightarrow> \<exists>r. itable_map (s_itable s) (tii_ino ii) = Some r \<and> tir_tii r = Some a"
    "finite (dom (h_tii s))" "f_ffree (s_statvfs s) + card (dom (h_tii s)) = f_files (s_statvfs s)"
    "f_favail (s_statvfs s) = f_ffree (s_statvfs s)"
  using assms unfolding ii_inv_def by blast+

lemma ii_invI:
  assumes "itable_ok (s_itable s)"
    "\<And>n r. itable_map (s_itable s) n = Some r \<Longrightarrow> n < s_top_ino s \<and> tir_ti r \<noteq> None"
    "\<And>n r a. itable_map (s_itable s) n = Some r \<Longrightarrow> tir_tii r = Some a \<Longrightarrow> \<exists>ii. h_tii s a = Some ii \<and> good_ii r ii"
    "\<And>a ii. h_tii s a = Some ii \<Longrightarrow> s_root s \<noteq> Some a \<Longrightarrow>
       tii_mapped ii \<and> (\<exists>r. itable_map (s_itable s) (tii_ino ii) = Some r \<and> tir_tii r = Some a)"
    "finite (dom (h_tii s))" "f_ffree (s_statvfs s) + card (dom (h_tii s)) = f_files (s_statvfs s)"
    "f_favail (s_statvfs s) = f_ffree (s_statvfs s)"
  shows "ii_inv s"
  using assms unfolding ii_inv_def by blast

lemma ii_inv_cong: "same_ii s s' \<Longrightarrow> ii_inv s' = ii_inv s"
  by (simp add: same_ii_def ii_inv_def)

text \<open>Two entries never share an info.\<close>

lemma ii_inv_owner:
  assumes "ii_inv s" "itable_map (s_itable s) n = Some r" "tir_tii r = Some a"
    "itable_map (s_itable s) m = Some q" "tir_tii q = Some a"
  shows "m = n"
proof -
  from ii_invD(4) [OF assms(1,2,3)] obtain ii where 1: "h_tii s a = Some ii" "good_ii r ii" by blast
  from ii_invD(4) [OF assms(1,4,5)] 1(1) have "good_ii q ii" by auto
  with 1(2) itable_map_ino [OF assms(2)] itable_map_ino [OF assms(4)] show ?thesis by (simp add: good_ii_def)
qed

lemma ii_inv_upd_tii:
  assumes inv: "ii_inv s" and a: "h_tii s a = Some ii" and root: "s_root s \<noteq> Some a \<Longrightarrow> tii_mapped (f ii)"
    and f: "tii_ino (f ii) = tii_ino ii" "tii_ti (f ii) = tii_ti ii" "tii_zi (f ii) = tii_zi ii" "tii_op (f ii) = tii_op ii"
      "tii_valid (f ii) = tii_valid ii" "tii_sbi (f ii) = tii_sbi ii"
  shows "ii_inv (upd_tii a f s)"
proof -
  let ?s = "upd_tii a f s"
  have h: "h_tii ?s = (h_tii s)(a \<mapsto> f ii)" using a by (simp add: upd_tii_def)
  have o: "s_itable ?s = s_itable s" "s_top_ino ?s = s_top_ino s" "s_root ?s = s_root s" "s_statvfs ?s = s_statvfs s"
    by (simp_all add: upd_tii_def)
  have d: "dom (h_tii ?s) = dom (h_tii s)" using a h by auto
  have g: "good_ii r (f ii) = good_ii r ii" for r using f by (simp add: good_ii_def)
  have "\<exists>ii'. h_tii ?s b = Some ii' \<and> good_ii r ii'" if "itable_map (s_itable s) n = Some r" "tir_tii r = Some b" for n r b
  proof (cases "b = a")
    case True
    from ii_invD(4) [OF inv that] a True have "good_ii r ii" by auto
    with True g show ?thesis by (simp add: h)
  qed (use ii_invD(4) [OF inv that] in \<open>simp add: h\<close>)
  moreover have "tii_mapped ii' \<and> (\<exists>r. itable_map (s_itable s) (tii_ino ii') = Some r \<and> tir_tii r = Some b)"
    if "h_tii ?s b = Some ii'" "s_root s \<noteq> Some b" for b ii'
    using ii_invD(5,6) [OF inv _ that(2)] that(1) root that(2) a f(1) by (cases "b = a") (auto simp: h)
  ultimately show ?thesis using ii_invD(1-3,7-9) [OF inv] unfolding ii_inv_def o d by blast
qed

section \<open>Infos and entries\<close>

lemma zii_to_tii_good:
  "h_tii s a = Some ii \<Longrightarrow> tii_op ii \<Longrightarrow> tii_valid ii \<Longrightarrow> toyfs_zii_to_tii s (Some a) = Some (Some a)"
  by (simp add: toyfs_zii_to_tii_def)

lemma alloc_ii_cases:
  obtains "toyfs_alloc_ii mem s = (None, s)" "mem = None \<or> f_ffree (s_statvfs s) = 0 \<or> f_favail (s_statvfs s) = 0"
  | a where "mem = Some a" "0 < f_ffree (s_statvfs s)" "0 < f_favail (s_statvfs s)"
    "toyfs_alloc_ii mem s = (Some a, s\<lparr>h_tii := (h_tii s)(a \<mapsto> \<lparr>tii_op = True, tii_zi = None, tii_sbi = True, tii_ti = None,
       tii_ino = 0, imagic = TOYFS_IMAGIC, tii_ref = 0, tii_mapped = False, tii_valid = True\<rparr>),
       s_statvfs := (s_statvfs s)\<lparr>f_ffree := f_ffree (s_statvfs s) - 1, f_favail := f_favail (s_statvfs s) - 1\<rparr>\<rparr>)"
  by (cases mem) (auto simp: toyfs_alloc_ii_def split: if_splits)

lemma zii_alloc_eq [simp]: "toyfs_zii_alloc mem s = toyfs_alloc_ii mem s"
  by (simp add: toyfs_zii_alloc_def split: prod.splits option.splits)

text \<open>A failure after \<open>toyfs_alloc_ii\<close> gives the info back.\<close>

lemma new_inode_fail_undo:
  assumes inv: "ii_inv s" and al: "toyfs_alloc_ii mem s = (Some a, s1)" and fresh: "h_tii s a = None"
    and u: "s_itable u = s_itable s1" "s_root u = s_root s1" "s_top_ino s \<le> s_top_ino u" "dom (h_tii u) = dom (h_tii s1)"
      "\<And>b. b \<noteq> a \<Longrightarrow> h_tii u b = h_tii s1 b" "\<exists>ii. h_tii u a = Some ii \<and> tii_sbi ii"
      "f_files (s_statvfs u) = f_files (s_statvfs s1)" "f_ffree (s_statvfs u) = f_ffree (s_statvfs s1)"
      "f_favail (s_statvfs u) = f_favail (s_statvfs s1)"
  shows "\<exists>s'. new_inode_fail a u = Some (None, s') \<and> ii_inv s' \<and> h_tii s' = h_tii s \<and> s_itable s' = s_itable s \<and>
    f_ffree (s_statvfs s') = f_ffree (s_statvfs s) \<and> s_pool s' = s_pool u \<and> h_inode s' = h_inode u"
proof -
  define s' where "s' = u\<lparr>h_tii := (h_tii u)(a := None), s_statvfs := (s_statvfs u)\<lparr>f_ffree := f_ffree (s_statvfs u) + 1,
    f_favail := f_favail (s_statvfs u) + 1\<rparr>\<rparr>"
  from al have s1: "h_tii s1 = (h_tii s)(a := h_tii s1 a)" "s_itable s1 = s_itable s" "s_root s1 = s_root s" "s_top_ino s1 = s_top_ino s"
    "f_files (s_statvfs s1) = f_files (s_statvfs s)" "f_ffree (s_statvfs s1) + 1 = f_ffree (s_statvfs s)"
    "f_favail (s_statvfs s1) + 1 = f_favail (s_statvfs s)"
    by (cases rule: alloc_ii_cases [of mem s]; auto)+
  have h: "h_tii s' = h_tii s"
  proof
    fix b show "h_tii s' b = h_tii s b" using u(5) [of b] fresh s1(1) by (cases "b = a") (auto simp: s'_def fun_eq_iff)
  qed
  have "new_inode_fail a u = Some (None, s')" using u(6) by (auto simp: new_inode_fail_def toyfs_tii_free_def s'_def)
  moreover have f: "s_itable s' = s_itable s" "s_root s' = s_root s" "s_top_ino s \<le> s_top_ino s'" "f_files (s_statvfs s') = f_files (s_statvfs s)"
    "f_ffree (s_statvfs s') = f_ffree (s_statvfs s)" "f_favail (s_statvfs s') = f_favail (s_statvfs s)"
    using u s1 by (simp_all add: s'_def)
  moreover have "ii_inv s'"
  proof (rule ii_invI, unfold h f(1,2,4-6))
    fix n r assume q: "itable_map (s_itable s) n = Some r"
    from ii_invD(2,3) [OF inv q] f(3) show "n < s_top_ino s' \<and> tir_ti r \<noteq> None" by auto
  qed (use ii_invD [OF inv] in blast)+
  ultimately show ?thesis using h by (auto simp: s'_def)
qed

lemma new_inode_type_same: "new_inode_type d t zi tmp app s = Some (b, s') \<Longrightarrow> same_ii s s'"
proof -
  assume a: "new_inode_type d t zi tmp app s = Some (b, s')"
  consider (dir) "zi_isdir zi" | (reg) "\<not> zi_isdir zi" "zi_isreg zi" | (lnk) "\<not> zi_isdir zi" "\<not> zi_isreg zi" "zi_islnk zi"
    | (other) "\<not> zi_isdir zi" "\<not> zi_isreg zi" "\<not> zi_islnk zi" by blast
  then show ?thesis
  proof cases
    case dir
    with a show ?thesis
      by (auto simp: new_inode_type_def Let_def bind_eq_Some_conv zus_std_new_dir_def)
  next
    case reg
    with a show ?thesis by (auto simp: new_inode_type_def Let_def)
  next
    case lnk
    show ?thesis
    proof (cases "toyfs_acquire_pmemb s")
      case (Pair p s1)
      from same_ii_acquire_pmemb [OF Pair] lnk a Pair show ?thesis
        by (cases p) (auto simp: new_inode_type_def Let_def split: if_splits)
    qed
  qed (use a in \<open>simp add: new_inode_type_def\<close>)
qed

text \<open>A new info with a new number is tracked.\<close>

lemma ii_inv_track:
  assumes inv: "ii_inv s" and fresh: "h_tii s a = None" "s_root s \<noteq> Some a" and pos: "0 < f_ffree (s_statvfs s)"
    and r: "r = \<lparr>tir_tii = Some a, tir_ti = Some ti, tir_ino = s_top_ino s\<rparr>" and ii: "good_ii r ii" "tii_mapped ii"
    and s': "itable_ok (s_itable s')" "itable_map (s_itable s') = (itable_map (s_itable s))(s_top_ino s \<mapsto> r)"
      "s_top_ino s' = s_top_ino s + 1" "h_tii s' = (h_tii s)(a \<mapsto> ii)" "s_root s' = s_root s"
      "f_files (s_statvfs s') = f_files (s_statvfs s)" "f_ffree (s_statvfs s') = f_ffree (s_statvfs s) - 1"
      "f_favail (s_statvfs s') = f_favail (s_statvfs s) - 1"
  shows "ii_inv s'"
proof -
  have ino: "tii_ino ii = s_top_ino s" using ii r by (simp add: good_ii_def)
  have d: "dom (h_tii s') = insert a (dom (h_tii s))" by (simp add: s'(4))
  have c: "card (insert a (dom (h_tii s))) = card (dom (h_tii s)) + 1" using fresh(1) ii_invD(7) [OF inv] by (auto simp: card_insert_if)
  have other: "n \<noteq> s_top_ino s" if "itable_map (s_itable s) n = Some q" for n q using ii_invD(2) [OF inv that] by simp
  have 1: "n < s_top_ino s' \<and> tir_ti q \<noteq> None \<and> (\<forall>b. tir_tii q = Some b \<longrightarrow> (\<exists>i. h_tii s' b = Some i \<and> good_ii q i))"
    if "itable_map (s_itable s') n = Some q" for n q
  proof (cases "n = s_top_ino s")
    case True
    with that have "q = r" by (simp add: s'(2))
    with True ii r show ?thesis by (auto simp: s'(3,4))
  next
    case False
    with that have q: "itable_map (s_itable s) n = Some q" by (simp add: s'(2))
    have "\<exists>i. h_tii s' b = Some i \<and> good_ii q i" if "tir_tii q = Some b" for b
      using ii_invD(4) [OF inv q that] fresh(1) by (cases "b = a") (auto simp: s'(4))
    with ii_invD(2,3) [OF inv q] show ?thesis by (simp add: s'(3))
  qed
  have 2: "tii_mapped i \<and> (\<exists>q. itable_map (s_itable s') (tii_ino i) = Some q \<and> tir_tii q = Some b)"
    if "h_tii s' b = Some i" "s_root s' \<noteq> Some b" for b i
  proof (cases "b = a")
    case True
    with that ii r ino show ?thesis by (simp add: s')
  next
    case False
    with that have i: "h_tii s b = Some i" "s_root s \<noteq> Some b" by (simp_all add: s')
    from ii_invD(5,6) [OF inv i] other show ?thesis by (auto simp: s'(2))
  qed
  show ?thesis unfolding ii_inv_def using s'(1) 1 2 ii_invD(7-9) [OF inv] c pos
    by (simp only: d s'(6-8)) auto
qed

text \<open>
  The state in which \<open>toyfs_new_inode\<close> has the info \<open>a\<close> and the inode \<open>ti\<close> and has still to treat the type
  of the inode.
\<close>

definition new_inode_mid :: "addr \<Rightarrow> addr \<Rightarrow> toyfs_inode \<Rightarrow> toyfs_sb_info \<Rightarrow> toyfs_sb_info" where
  "new_inode_mid a ti zi s =
    upd_inode ti (\<lambda>r. r\<lparr>i_ino := s_top_ino s\<rparr>)
      (upd_tii a (\<lambda>r. r\<lparr>tii_ti := Some ti, tii_ino := s_top_ino s, tii_zi := Some ti\<rparr>)
        (upd_inode ti (\<lambda>_. zi) (s\<lparr>s_top_ino := s_top_ino s + 1\<rparr>)))"

lemma new_inode_eq:
  "toyfs_new_inode mem tir_ok app ioc s = do {
     dir_tii \<leftarrow> toyfs_zii_to_tii s (new_dir_ii ioc);
     (case toyfs_alloc_ii mem s of
        (None, s1) \<Rightarrow> Some (None, s1)
      | (Some a, s1) \<Rightarrow>
         if \<not> issupported (new_zi ioc) \<or> i_size (new_zi ioc) \<ge> PAGE_SIZE then new_inode_fail a s1
         else (case toyfs_acquire_inode s1 of
            (None, s2) \<Rightarrow> new_inode_fail a s2
          | (Some ti, s2) \<Rightarrow>
              new_inode_type dir_tii ti (new_zi ioc) (new_tmpfile ioc) app (new_inode_mid a ti (new_zi ioc) s2) \<bind> (\<lambda>(ok, s7).
              if \<not> ok then new_inode_fail a s7
              else toyfs_i_track tir_ok a s7 \<bind> (\<lambda>s8.
                Some (Some a, upd_tii a (\<lambda>r. r\<lparr>tii_ref := tii_ref r + 1\<rparr>) s8))))) }"
  by (cases "issupported (new_zi ioc)"; cases "PAGE_SIZE \<le> i_size (new_zi ioc)")
     (simp_all add: toyfs_new_inode_def Let_def next_ino_def new_inode_mid_def cong: option.case_cong prod.case_cong)

definition new_info :: "addr \<Rightarrow> nat \<Rightarrow> toyfs_inode_info" where
  "new_info ti ino = \<lparr>tii_op = True, tii_zi = Some ti, tii_sbi = True, tii_ti = Some ti, tii_ino = ino,
     imagic = TOYFS_IMAGIC, tii_ref = 1, tii_mapped = True, tii_valid = True\<rparr>"

lemma alloc_ii_SomeD:
  assumes "toyfs_alloc_ii mem s = (Some a, s1)"
  shows "mem = Some a" "0 < f_ffree (s_statvfs s)"
    "h_tii s1 = (h_tii s)(a \<mapsto> \<lparr>tii_op = True, tii_zi = None, tii_sbi = True, tii_ti = None,
       tii_ino = 0, imagic = TOYFS_IMAGIC, tii_ref = 0, tii_mapped = False, tii_valid = True\<rparr>)"
    "s_itable s1 = s_itable s" "s_top_ino s1 = s_top_ino s" "s_root s1 = s_root s" "s_pool s1 = s_pool s" "s_md s1 = s_md s"
    "f_files (s_statvfs s1) = f_files (s_statvfs s)" "f_ffree (s_statvfs s1) = f_ffree (s_statvfs s) - 1"
    "f_favail (s_statvfs s1) = f_favail (s_statvfs s) - 1" "f_bfree (s_statvfs s1) = f_bfree (s_statvfs s)"
    "f_bavail (s_statvfs s1) = f_bavail (s_statvfs s)" "f_blocks (s_statvfs s1) = f_blocks (s_statvfs s)"
    "h_inode s1 = h_inode s" "h_dat s1 = h_dat s" "h_dblkref s1 = h_dblkref s" "h_iblkref s1 = h_iblkref s"
  using assms by (cases mem; auto simp: toyfs_alloc_ii_def split: if_splits)+

text \<open>The end of a successful creation: the new info is in the table.\<close>

lemma new_inode_track:
  assumes inv: "ii_inv s" and al: "toyfs_alloc_ii mem s = (Some a, s1)" and fresh: "h_tii s a = None" "s_root s \<noteq> Some a"
    and s2: "same_ii s1 s2" and s7: "same_ii (new_inode_mid a ti zi s2) s7"
  shows "\<exists>s8. toyfs_i_track True a s7 = Some s8 \<and>
    (let s' = upd_tii a (\<lambda>r. r\<lparr>tii_ref := tii_ref r + 1\<rparr>) s8 in
     ii_inv s' \<and> itable_map (s_itable s') = (itable_map (s_itable s))(s_top_ino s \<mapsto> tir_of (a, new_info ti (s_top_ino s))) \<and>
     h_tii s' = (h_tii s)(a \<mapsto> new_info ti (s_top_ino s)) \<and> s_top_ino s' = s_top_ino s + 1 \<and>
     (\<exists>t h. s' = s7\<lparr>s_itable := t, h_tii := h\<rparr>))"
proof -
  note A = alloc_ii_SomeD [OF al]
  define ii0 where "ii0 = (new_info ti (s_top_ino s))\<lparr>tii_ref := 0, tii_mapped := False\<rparr>"
  have f: "s_itable s2 = s_itable s" "s_top_ino s2 = s_top_ino s" "s_root s2 = s_root s" "h_tii s2 = h_tii s1"
    "f_files (s_statvfs s2) = f_files (s_statvfs s)" "f_ffree (s_statvfs s2) = f_ffree (s_statvfs s) - 1"
    "f_favail (s_statvfs s2) = f_favail (s_statvfs s) - 1"
    using s2 A by (simp_all add: same_ii_def)
  have g: "s_itable s7 = s_itable s" "s_top_ino s7 = s_top_ino s + 1" "s_root s7 = s_root s" "h_tii s7 = (h_tii s)(a \<mapsto> ii0)"
    "f_files (s_statvfs s7) = f_files (s_statvfs s)" "f_ffree (s_statvfs s7) = f_ffree (s_statvfs s) - 1"
    "f_favail (s_statvfs s7) = f_favail (s_statvfs s) - 1"
    using s7 f A(3) by (simp_all add: same_ii_def new_inode_mid_def upd_tii_def upd_inode_def ii0_def new_info_def)
  have ino: "tii_ino ii0 = s_top_ino s" "tii_ti ii0 = Some ti" by (simp_all add: ii0_def new_info_def)
  have none: "itable_map (s_itable s) (tii_ino ii0) = None"
    using ii_invD(2) [OF inv, of "s_top_ino s"] ino by (cases "itable_map (s_itable s) (s_top_ino s)") auto
  obtain t where t: "itable_insert True a ii0 (s_itable s) = Some t" by (simp add: insert_Some)
  note T = insert_ok [OF ii_invD(1) [OF inv] none t]
  define s8 where "s8 = upd_tii a (\<lambda>r. r\<lparr>tii_mapped := True\<rparr>) (s7\<lparr>s_itable := t\<rparr>)"
  define s' where "s' = upd_tii a (\<lambda>r. r\<lparr>tii_ref := tii_ref r + 1\<rparr>) s8"
  have tr: "toyfs_i_track True a s7 = Some s8" using t g by (simp add: toyfs_i_track_def s8_def)
  have h: "h_tii s' = (h_tii s)(a \<mapsto> new_info ti (s_top_ino s))"
    by (simp add: s'_def s8_def upd_tii_def g ii0_def new_info_def)
  have o: "s_itable s' = t" "s_top_ino s' = s_top_ino s + 1" "s_root s' = s_root s" "s_statvfs s' = s_statvfs s7"
    by (simp_all add: s'_def s8_def upd_tii_def g)
  have m: "itable_map t = (itable_map (s_itable s))(s_top_ino s \<mapsto> tir_of (a, new_info ti (s_top_ino s)))"
    using T(2) ino by (simp add: tir_of_def new_info_def)
  have "ii_inv s'"
    by (rule ii_inv_track [OF inv fresh A(2), of _ ti "new_info ti (s_top_ino s)"])
       (use o g T(1) m h in \<open>simp_all add: tir_of_def new_info_def good_ii_def\<close>)
  moreover have "\<exists>t h. s' = s7\<lparr>s_itable := t, h_tii := h\<rparr>" by (auto simp: s'_def s8_def upd_tii_def)
  ultimately show ?thesis using tr h o m by (simp add: s'_def [symmetric])
qed

lemma new_inode_ii:
  assumes inv: "ii_inv s" and fresh: "\<And>a. mem = Some a \<Longrightarrow> h_tii s a = None \<and> s_root s \<noteq> Some a"
    and n: "toyfs_new_inode mem True app ioc s = Some (r, s')"
  shows "ii_inv s'"
    "r = None \<Longrightarrow> h_tii s' = h_tii s \<and> s_itable s' = s_itable s \<and> f_ffree (s_statvfs s') = f_ffree (s_statvfs s)"
    "r = Some a \<Longrightarrow> mem = Some a \<and> (\<exists>ti. h_tii s' = (h_tii s)(a \<mapsto> new_info ti (s_top_ino s)) \<and>
       itable_map (s_itable s') = (itable_map (s_itable s))(s_top_ino s \<mapsto> tir_of (a, new_info ti (s_top_ino s))))"
proof -
  have "ii_inv s' \<and> (case r of None \<Rightarrow> h_tii s' = h_tii s \<and> s_itable s' = s_itable s \<and> f_ffree (s_statvfs s') = f_ffree (s_statvfs s)
    | Some a \<Rightarrow> mem = Some a \<and> (\<exists>ti. h_tii s' = (h_tii s)(a \<mapsto> new_info ti (s_top_ino s)) \<and>
       itable_map (s_itable s') = (itable_map (s_itable s))(s_top_ino s \<mapsto> tir_of (a, new_info ti (s_top_ino s)))))" (is ?R)
  proof (cases "toyfs_alloc_ii mem s")
    case (Pair m s1)
    show ?thesis
    proof (cases m)
      case None
      with n Pair have "r = None" "s' = s1" by (auto simp: new_inode_eq bind_eq_Some_conv)
      moreover have "s1 = s" using Pair None by (cases rule: alloc_ii_cases [of mem s]) auto
      ultimately show ?thesis using inv by simp
    next
      case (Some a)
      note al = Pair [unfolded Some] note A = alloc_ii_SomeD [OF al]
      from fresh [OF A(1)] have fr: "h_tii s a = None" "s_root s \<noteq> Some a" by auto
      note undo = new_inode_fail_undo [OF inv al fr(1)]
      have early: ?R if u: "same_ii s1 u" "new_inode_fail a u = Some (r, s')" for u
        using undo [of u] u A(3,5) by (auto simp: same_ii_def)
      from n al obtain d where d: "(if \<not> issupported (new_zi ioc) \<or> i_size (new_zi ioc) \<ge> PAGE_SIZE then new_inode_fail a s1
         else (case toyfs_acquire_inode s1 of
            (None, s2) \<Rightarrow> new_inode_fail a s2
          | (Some ti, s2) \<Rightarrow>
              new_inode_type d ti (new_zi ioc) (new_tmpfile ioc) app (new_inode_mid a ti (new_zi ioc) s2) \<bind> (\<lambda>(ok, s7).
              if \<not> ok then new_inode_fail a s7
              else toyfs_i_track True a s7 \<bind> (\<lambda>s8.
                Some (Some a, upd_tii a (\<lambda>r. r\<lparr>tii_ref := tii_ref r + 1\<rparr>) s8))))) = Some (r, s')"
        by (auto simp: new_inode_eq bind_eq_Some_conv)
      show ?thesis
      proof (cases "\<not> issupported (new_zi ioc) \<or> i_size (new_zi ioc) \<ge> PAGE_SIZE")
        case True
        with d early [of s1] show ?thesis by simp
      next
        case sup: False
        obtain q s2 where aq: "toyfs_acquire_inode s1 = (q, s2)" by (cases "toyfs_acquire_inode s1")
        note s2 = same_ii_acquire_inode [OF aq]
        show ?thesis
        proof (cases q)
          case None
          with d sup aq early [OF s2] show ?thesis by simp
        next
          case (Some ti)
          from d sup aq Some obtain ok s7 where
            ty: "new_inode_type d ti (new_zi ioc) (new_tmpfile ioc) app (new_inode_mid a ti (new_zi ioc) s2) = Some (ok, s7)"
            and e: "(if \<not> ok then new_inode_fail a s7 else toyfs_i_track True a s7 \<bind> (\<lambda>s8.
                Some (Some a, upd_tii a (\<lambda>r. r\<lparr>tii_ref := tii_ref r + 1\<rparr>) s8))) = Some (r, s')"
            by (auto simp: bind_eq_Some_conv)
          note s7 = new_inode_type_same [OF ty]
          show ?thesis
          proof (cases ok)
            case False
            have "h_tii s7 = (h_tii s2)(a := map_option (\<lambda>r. r\<lparr>tii_ti := Some ti, tii_ino := s_top_ino s2, tii_zi := Some ti\<rparr>) (h_tii s2 a))"
              "s_itable s7 = s_itable s2" "s_root s7 = s_root s2" "s_top_ino s7 = s_top_ino s2 + 1"
              "f_files (s_statvfs s7) = f_files (s_statvfs s2)" "f_ffree (s_statvfs s7) = f_ffree (s_statvfs s2)"
              "f_favail (s_statvfs s7) = f_favail (s_statvfs s2)"
              using s7 by (simp_all add: same_ii_def new_inode_mid_def upd_tii_def upd_inode_def)
            then show ?thesis using undo [of s7] s2 A(3,5) e False by (auto simp: same_ii_def)
          next
            case True
            from new_inode_track [OF inv al fr s2 s7] obtain s8 where tr: "toyfs_i_track True a s7 = Some s8"
              and fin: "ii_inv (upd_tii a (\<lambda>r. r\<lparr>tii_ref := tii_ref r + 1\<rparr>) s8)"
                "itable_map (s_itable (upd_tii a (\<lambda>r. r\<lparr>tii_ref := tii_ref r + 1\<rparr>) s8)) =
                   (itable_map (s_itable s))(s_top_ino s \<mapsto> tir_of (a, new_info ti (s_top_ino s)))"
                "h_tii (upd_tii a (\<lambda>r. r\<lparr>tii_ref := tii_ref r + 1\<rparr>) s8) = (h_tii s)(a \<mapsto> new_info ti (s_top_ino s))"
              by (auto simp: Let_def)
            from e True tr have r: "r = Some a" "s' = upd_tii a (\<lambda>r. r\<lparr>tii_ref := tii_ref r + 1\<rparr>) s8" by simp_all
            show ?thesis unfolding r using A(1) fin by (simp only: option.case) blast
          qed
        qed
      qed
    qed
  qed
  then show "ii_inv s'" "r = None \<Longrightarrow> h_tii s' = h_tii s \<and> s_itable s' = s_itable s \<and> f_ffree (s_statvfs s') = f_ffree (s_statvfs s)"
    "r = Some a \<Longrightarrow> mem = Some a \<and> (\<exists>ti. h_tii s' = (h_tii s)(a \<mapsto> new_info ti (s_top_ino s)) \<and>
       itable_map (s_itable s') = (itable_map (s_itable s))(s_top_ino s \<mapsto> tir_of (a, new_info ti (s_top_ino s))))"
    by auto
qed

lemma iget_cached:
  assumes inv: "ii_inv s" and n: "itable_map (s_itable s) n = Some r" "tir_tii r = Some a"
  shows "\<exists>ii. h_tii s a = Some ii \<and> good_ii r ii \<and> toyfs_iget mem n s = Some (Inr a, upd_tii a (\<lambda>r. r\<lparr>tii_ref := tii_ref r + 1\<rparr>) s)"
    and "ii_inv (upd_tii a (\<lambda>r. r\<lparr>tii_ref := tii_ref r + 1\<rparr>) s)"
proof -
  from ii_invD(4) [OF inv n] obtain ii where ii: "h_tii s a = Some ii" "good_ii r ii" by blast
  obtain p where p: "itable_find (s_itable s) n = Some p" using n(1) itable_find_None [of "s_itable s" n]
    by (cases "itable_find (s_itable s) n") simp_all
  have "tir_at (s_itable s) p = r" using itable_find_Some(3) [OF p] n(1) by simp
  with p ii n(2) show "\<exists>ii. h_tii s a = Some ii \<and> good_ii r ii \<and> toyfs_iget mem n s = Some (Inr a, upd_tii a (\<lambda>r. r\<lparr>tii_ref := tii_ref r + 1\<rparr>) s)"
    by (simp add: toyfs_iget_def toyfs_find_inode_ref_by_ino_def)
  show "ii_inv (upd_tii a (\<lambda>r. r\<lparr>tii_ref := tii_ref r + 1\<rparr>) s)"
    by (rule ii_inv_upd_tii [OF inv ii(1)]) (use ii_invD(5) [OF inv ii(1)] in simp_all)
qed

lemma iget_missing: "itable_map (s_itable s) n = None \<Longrightarrow> toyfs_iget mem n s = Some (Inl ENOENT, s)"
  using itable_find_None [of "s_itable s" n] by (simp add: toyfs_iget_def toyfs_find_inode_ref_by_ino_def)

text \<open>An info leaves memory, its entry of the table stays without an info or leaves as well.\<close>

lemma ii_inv_untrack:
  assumes inv: "ii_inv s" and a: "h_tii s a = Some ii" "s_root s \<noteq> Some a" and r: "itable_map (s_itable s) (tii_ino ii) = Some r" "tir_tii r = Some a"
    and s': "itable_ok (s_itable s')"
      "itable_map (s_itable s') = (itable_map (s_itable s))(tii_ino ii := (if keep then Some (r\<lparr>tir_tii := None\<rparr>) else None))"
      "s_top_ino s' = s_top_ino s" "h_tii s' = (h_tii s)(a := None)" "s_root s' = s_root s"
      "f_files (s_statvfs s') = f_files (s_statvfs s)" "f_ffree (s_statvfs s') = f_ffree (s_statvfs s) + 1"
      "f_favail (s_statvfs s') = f_favail (s_statvfs s) + 1"
  shows "ii_inv s'"
proof (rule ii_invI)
  have fin: "finite (dom (h_tii s))" using ii_invD(7) [OF inv] .
  then show "finite (dom (h_tii s'))" by (simp add: s'(4))
  have "card (dom (h_tii s)) = card (dom (h_tii s) - {a}) + 1" using fin a(1) by (metis Suc_eq_plus1 card_Suc_Diff1 domI)
  then show "f_ffree (s_statvfs s') + card (dom (h_tii s')) = f_files (s_statvfs s')"
    using ii_invD(8) [OF inv] by (simp add: s'(4,6,7))
  show "f_favail (s_statvfs s') = f_ffree (s_statvfs s')" using ii_invD(9) [OF inv] by (simp add: s'(7,8))
  show "itable_ok (s_itable s')" by (rule s'(1))
  show "n < s_top_ino s' \<and> tir_ti q \<noteq> None" if "itable_map (s_itable s') n = Some q" for n q
  proof (cases "n = tii_ino ii")
    case True
    with that ii_invD(2,3) [OF inv r(1)] show ?thesis by (auto simp: s'(2,3) split: if_splits)
  next
    case False
    with that have "itable_map (s_itable s) n = Some q" by (simp add: s'(2))
    from ii_invD(2,3) [OF inv this] show ?thesis by (auto simp: s'(3))
  qed
  show "\<exists>i. h_tii s' b = Some i \<and> good_ii q i" if q: "itable_map (s_itable s') n = Some q" "tir_tii q = Some b" for n q b
  proof (cases "n = tii_ino ii")
    case True
    with q show ?thesis by (auto simp: s'(2) split: if_splits)
  next
    case False
    with q have m: "itable_map (s_itable s) n = Some q" by (simp add: s'(2))
    have "b \<noteq> a" using ii_inv_owner [OF inv r m] q(2) False by blast
    with ii_invD(4) [OF inv m q(2)] show ?thesis by (simp add: s'(4))
  qed
  show "tii_mapped i \<and> (\<exists>q. itable_map (s_itable s') (tii_ino i) = Some q \<and> tir_tii q = Some b)"
    if b: "h_tii s' b = Some i" "s_root s' \<noteq> Some b" for b i
  proof -
    from b have ba: "b \<noteq> a" "h_tii s b = Some i" "s_root s \<noteq> Some b" by (auto simp: s'(4,5) split: if_splits)
    from ii_invD(6) [OF inv ba(2,3)] obtain q where q: "itable_map (s_itable s) (tii_ino i) = Some q" "tir_tii q = Some b" by blast
    have "tii_ino i \<noteq> tii_ino ii" using q r ba(1) by auto
    with q ii_invD(5) [OF inv ba(2,3)] show ?thesis by (simp add: s'(2))
  qed
qed

lemma untrack_free:
  assumes inv: "ii_inv s" and a: "h_tii s a = Some ii" "s_root s \<noteq> Some a" "itable_map (s_itable s) (tii_ino ii) = Some r" "tir_tii r = Some a"
  shows "\<exists>u s'. toyfs_i_untrack a remove s = Some u \<and> toyfs_tii_free a u = Some s' \<and> ii_inv s' \<and> h_tii s' = (h_tii s)(a := None) \<and>
    itable_map (s_itable s') = (itable_map (s_itable s))(tii_ino ii := (if remove then None else Some (r\<lparr>tir_tii := None\<rparr>))) \<and>
    f_ffree (s_statvfs s') = f_ffree (s_statvfs s) + 1 \<and> (\<exists>t h v. s' = s\<lparr>s_itable := t, h_tii := h, s_statvfs := v\<rparr> \<and>
      f_bfree v = f_bfree (s_statvfs s) \<and> f_bavail v = f_bavail (s_statvfs s) \<and> f_blocks v = f_blocks (s_statvfs s))"
proof -
  obtain p where p: "itable_find (s_itable s) (tii_ino ii) = Some p" using a(3) itable_find_None [of "s_itable s" "tii_ino ii"]
    by (cases "itable_find (s_itable s) (tii_ino ii)") simp_all
  have at: "tir_at (s_itable s) p = r" using itable_find_Some(3) [OF p] a(3) by simp
  obtain t where t: "(if remove then itable_remove a ii (s_itable s) else Some (set_tir_tii p None (s_itable s))) = Some t"
    "itable_ok t" "itable_map t = (itable_map (s_itable s))(tii_ino ii := (if remove then None else Some (r\<lparr>tir_tii := None\<rparr>)))"
  proof (cases remove)
    case True
    from remove_ok [OF ii_invD(1) [OF inv] a(3,4)] ii_inv_owner [OF inv a(3,4)] obtain t where
      "itable_remove a ii (s_itable s) = Some t" "itable_ok t" "itable_map t = (itable_map (s_itable s))(tii_ino ii := None)" by blast
    with True that show thesis by simp
  next
    case False
    with set_tii_ok [OF ii_invD(1) [OF inv] p, of None] at that show thesis by simp
  qed
  define u where "u = (upd_tii a (\<lambda>r. r\<lparr>tii_mapped := False\<rparr>) s)\<lparr>s_itable := t\<rparr>"
  have 1: "toyfs_i_untrack a remove s = Some u"
    using t(1) p a(1) by (auto simp: toyfs_i_untrack_def u_def upd_tii_def split: if_splits)
  have sbi: "tii_sbi ii" using ii_invD(4) [OF inv a(3,4)] a(1) by (auto simp: good_ii_def)
  define s' where "s' = s\<lparr>s_itable := t, h_tii := (h_tii s)(a := None), s_statvfs := (s_statvfs s)\<lparr>f_ffree := f_ffree (s_statvfs s) + 1,
    f_favail := f_favail (s_statvfs s) + 1\<rparr>\<rparr>"
  have 2: "toyfs_tii_free a u = Some s'" using sbi a(1) by (simp add: toyfs_tii_free_def u_def upd_tii_def s'_def)
  have 3: "ii_inv s'"
    by (rule ii_inv_untrack [OF inv a(1-4), of _ "\<not> remove"]) (use t(2,3) in \<open>simp_all add: s'_def\<close>)
  have 4: "\<exists>t h v. s' = s\<lparr>s_itable := t, h_tii := h, s_statvfs := v\<rparr> \<and>
      f_bfree v = f_bfree (s_statvfs s) \<and> f_bavail v = f_bavail (s_statvfs s) \<and> f_blocks v = f_blocks (s_statvfs s)"
    unfolding s'_def by (intro exI conjI) (rule refl, simp_all)
  show ?thesis using 1 2 3 4 t(3) by (intro exI [of _ u] exI [of _ s']) (simp add: s'_def)
qed

text \<open>The info that loses a reference.\<close>

lemma ii_inv_unref:
  assumes inv: "ii_inv s" and a: "h_tii s a = Some ii" "s_root s \<noteq> Some a"
  defines "s1 \<equiv> upd_tii a (\<lambda>r. r\<lparr>tii_ref := tii_ref r - 1\<rparr>) s"
  shows "ii_inv s1" "h_tii s1 a = Some (ii\<lparr>tii_ref := tii_ref ii - 1\<rparr>)" "s_root s1 = s_root s" "s_itable s1 = s_itable s"
    "h_inode s1 = h_inode s" "s_statvfs s1 = s_statvfs s"
proof -
  show "ii_inv s1" unfolding s1_def
    by (rule ii_inv_upd_tii [OF inv a(1)]) (use ii_invD(5) [OF inv a] in simp_all)
qed (use a in \<open>simp_all add: s1_def upd_tii_def\<close>)

lemma evict_eq:
  assumes inv: "ii_inv s" and a: "h_tii s a = Some ii" "s_root s \<noteq> Some a" "tii_ti ii = Some ti"
  shows "toyfs_evict (Some a) s =
    (let s1 = upd_tii a (\<lambda>r. r\<lparr>tii_ref := tii_ref r - 1\<rparr>) s in
     if tii_ref ii \<noteq> 1 then Some s1
     else if i_nlink (h_inode s ti) = 0 then
       toyfs_free_inode a s1 \<bind> (\<lambda>s2. toyfs_i_untrack a True s2 \<bind> toyfs_tii_free a)
     else toyfs_i_untrack a False s1 \<bind> toyfs_tii_free a)"
proof -
  from ii_invD(6) [OF inv a(1,2)] obtain r where r: "itable_map (s_itable s) (tii_ino ii) = Some r" "tir_tii r = Some a" by blast
  with ii_invD(4) [OF inv r] a(1) have "tii_op ii" "tii_valid ii" by (auto simp: good_ii_def)
  with a ii_invD(5) [OF inv a(1,2)] show ?thesis
    by (simp add: toyfs_evict_def Let_def zii_to_tii_good upd_tii_def)
qed

text \<open>Eviction of an info with one reference left whose inode still has a name.\<close>

lemma evict_linked:
  assumes inv: "ii_inv s" and a: "h_tii s a = Some ii" "s_root s \<noteq> Some a" "tii_ti ii = Some ti"
    and one: "tii_ref ii = 1" "i_nlink (h_inode s ti) \<noteq> 0"
  shows "\<exists>r s'. itable_map (s_itable s) (tii_ino ii) = Some r \<and> tir_ti r = Some ti \<and> toyfs_evict (Some a) s = Some s' \<and> ii_inv s' \<and>
    h_tii s' = (h_tii s)(a := None) \<and> itable_map (s_itable s') = (itable_map (s_itable s))(tii_ino ii \<mapsto> r\<lparr>tir_tii := None\<rparr>) \<and>
    f_ffree (s_statvfs s') = f_ffree (s_statvfs s) + 1 \<and> h_inode s' = h_inode s \<and> s_pool s' = s_pool s"
proof -
  define s1 where "s1 = upd_tii a (\<lambda>r. r\<lparr>tii_ref := tii_ref r - 1\<rparr>) s"
  note U = ii_inv_unref [OF inv a(1,2), folded s1_def]
  from ii_invD(6) [OF inv a(1,2)] obtain r where r: "itable_map (s_itable s) (tii_ino ii) = Some r" "tir_tii r = Some a" by blast
  have ti: "tir_ti r = Some ti" using ii_invD(4) [OF inv r] a(1,3) by (auto simp: good_ii_def)
  have "s_root s1 \<noteq> Some a" "itable_map (s_itable s1) (tii_ino (ii\<lparr>tii_ref := tii_ref ii - 1\<rparr>)) = Some r" using U a(2) r by simp_all
  from untrack_free [OF U(1,2) this r(2), of False] obtain u s' t h v where
    u: "toyfs_i_untrack a False s1 = Some u" "toyfs_tii_free a u = Some s'" "ii_inv s'" "h_tii s' = (h_tii s1)(a := None)"
      and m: "itable_map (s_itable s') = (itable_map (s_itable s1))(tii_ino (ii\<lparr>tii_ref := tii_ref ii - 1\<rparr>) := (if False then None else Some (r\<lparr>tir_tii := None\<rparr>)))"
      and u6: "f_ffree (s_statvfs s') = f_ffree (s_statvfs s1) + 1" and u7: "s' = s1\<lparr>s_itable := t, h_tii := h, s_statvfs := v\<rparr>"
    by (elim exE conjE) (rule that)
  have u5: "itable_map (s_itable s') = (itable_map (s_itable s))(tii_ino ii \<mapsto> r\<lparr>tir_tii := None\<rparr>)" using m U(4) by simp
  have "toyfs_evict (Some a) s = Some s'" using evict_eq [OF inv a] one u(1,2) by (simp add: Let_def s1_def)
  moreover have "h_tii s' = (h_tii s)(a := None)" using u(4) by (auto simp: s1_def upd_tii_def)
  moreover have "h_inode s' = h_inode s" "s_pool s' = s_pool s" using u7 by (auto simp: s1_def upd_tii_def)
  ultimately show ?thesis using r(1) ti u(3) u5 u6 U(6) by auto
qed

text \<open>Eviction of an info with one reference left whose inode has no name.\<close>

lemma evict_unlinked:
  assumes inv: "ii_inv s" and a: "h_tii s a = Some ii" "s_root s \<noteq> Some a" "tii_ti ii = Some ti"
    and one: "tii_ref ii = 1" "i_nlink (h_inode s ti) = 0"
    and f: "toyfs_free_inode a (upd_tii a (\<lambda>r. r\<lparr>tii_ref := tii_ref r - 1\<rparr>) s) = Some s2"
  shows "\<exists>s'. toyfs_evict (Some a) s = Some s' \<and> ii_inv s' \<and> h_tii s' = (h_tii s)(a := None) \<and>
    itable_map (s_itable s') = (itable_map (s_itable s))(tii_ino ii := None) \<and>
    f_ffree (s_statvfs s') = f_ffree (s_statvfs s) + 1 \<and> (\<exists>t h v. s' = s2\<lparr>s_itable := t, h_tii := h, s_statvfs := v\<rparr> \<and>
      f_bfree v = f_bfree (s_statvfs s2) \<and> f_bavail v = f_bavail (s_statvfs s2) \<and> f_blocks v = f_blocks (s_statvfs s2))"
proof -
  define s1 where "s1 = upd_tii a (\<lambda>r. r\<lparr>tii_ref := tii_ref r - 1\<rparr>) s"
  note U = ii_inv_unref [OF inv a(1,2), folded s1_def]
  note f' = f [folded s1_def]
  have same: "same_ii s1 s2" by (rule same_ii_free_inode [OF f'])
  have inv2: "ii_inv s2" using U(1) ii_inv_cong [OF same] by simp
  from ii_invD(6) [OF inv a(1,2)] obtain r where r: "itable_map (s_itable s) (tii_ino ii) = Some r" "tir_tii r = Some a" by blast
  have S: "h_tii s2 a = Some (ii\<lparr>tii_ref := tii_ref ii - 1\<rparr>)" "s_root s2 \<noteq> Some a"
    "itable_map (s_itable s2) (tii_ino (ii\<lparr>tii_ref := tii_ref ii - 1\<rparr>)) = Some r" "s_itable s2 = s_itable s"
    using same U a(2) r by (simp_all add: same_ii_def)
  from untrack_free [OF inv2 S(1-3) r(2), of True] obtain u s' t h v where
    u: "toyfs_i_untrack a True s2 = Some u" "toyfs_tii_free a u = Some s'" "ii_inv s'" "h_tii s' = (h_tii s2)(a := None)"
      and m: "itable_map (s_itable s') = (itable_map (s_itable s2))(tii_ino (ii\<lparr>tii_ref := tii_ref ii - 1\<rparr>) := (if True then None else Some (r\<lparr>tir_tii := None\<rparr>)))"
      and u6: "f_ffree (s_statvfs s') = f_ffree (s_statvfs s2) + 1"
      and u7: "s' = s2\<lparr>s_itable := t, h_tii := h, s_statvfs := v\<rparr>" "f_bfree v = f_bfree (s_statvfs s2)"
        "f_bavail v = f_bavail (s_statvfs s2)" "f_blocks v = f_blocks (s_statvfs s2)"
    by (elim exE conjE) (rule that)
  have u5: "itable_map (s_itable s') = (itable_map (s_itable s))(tii_ino ii := None)" using m S(4) by simp
  have "toyfs_evict (Some a) s = Some s'" using evict_eq [OF inv a] one u(1,2) f' by (simp add: Let_def s1_def)
  moreover have "h_tii s' = (h_tii s)(a := None)" using u(4) same by (auto simp: s1_def upd_tii_def same_ii_def)
  moreover have "f_ffree (s_statvfs s2) = f_ffree (s_statvfs s)" using same U(6) by (simp add: same_ii_def)
  moreover have "\<exists>t h v. s' = s2\<lparr>s_itable := t, h_tii := h, s_statvfs := v\<rparr> \<and>
      f_bfree v = f_bfree (s_statvfs s2) \<and> f_bavail v = f_bavail (s_statvfs s2) \<and> f_blocks v = f_blocks (s_statvfs s2)" using u7 by blast
  ultimately show ?thesis using u(3) u5 u6 by (intro exI [of _ s']) simp
qed

lemma evict_ii:
  assumes inv: "ii_inv s" and a: "s_root s \<noteq> Some a" and e: "toyfs_evict (Some a) s = Some s'"
  shows "ii_inv s'"
proof -
  from e obtain ii where ii: "h_tii s a = Some ii" by (auto simp: toyfs_evict_def toyfs_zii_to_tii_def bind_eq_Some_conv)
  from ii_invD(6) [OF inv ii a] obtain r where r: "itable_map (s_itable s) (tii_ino ii) = Some r" "tir_tii r = Some a" by blast
  obtain ti where ti: "tii_ti ii = Some ti" using ii_invD(3) [OF inv r(1)] ii_invD(4) [OF inv r] ii by (auto simp: good_ii_def)
  note E = evict_eq [OF inv ii a ti]
  show ?thesis
  proof (cases "tii_ref ii = 1")
    case False
    with e E ii_inv_unref(1) [OF inv ii a] show ?thesis by (simp add: Let_def)
  next
    case one: True
    show ?thesis
    proof (cases "i_nlink (h_inode s ti) = 0")
      case True
      with e E one obtain s2 where "toyfs_free_inode a (upd_tii a (\<lambda>r. r\<lparr>tii_ref := tii_ref r - 1\<rparr>) s) = Some s2"
        by (auto simp: Let_def bind_eq_Some_conv)
      from evict_unlinked [OF inv ii a ti one True this] e show ?thesis by auto
    next
      case False
      from evict_linked [OF inv ii a ti one False] e show ?thesis by auto
    qed
  qed
qed

section \<open>Histories\<close>

lemma same_ii_add_dirent: "toyfs_add_dirent g t ino str s = (r, s') \<Longrightarrow> same_ii s s'"
proof -
  assume a: "toyfs_add_dirent g t ino str s = (r, s')"
  have pg: "same_ii x (upd_page p f u) = same_ii x u" for x p f u by (simp add: same_ii_def upd_page_def)
  obtain q s1 where q: "acquire_dirent g (str_len str) s = (q, s1)" by (cases "acquire_dirent g (str_len str) s")
  have "same_ii s s1" using q
    by (auto simp: acquire_dirent_def Let_def pg split: prod.splits option.splits dest!: same_ii_acquire_pmemb)
  with a q show ?thesis
    by (auto simp: toyfs_add_dirent_def add_dirent_def zus_std_add_dentry_def Let_def pg split: prod.splits option.splits)
qed

lemma same_ii_add_dentry: "toyfs_add_dentry g t str s = Some (r, s') \<Longrightarrow> same_ii s s'"
proof -
  assume a: "toyfs_add_dentry g t str s = Some (r, s')"
  then obtain y ya n where y: "(case toyfs_add_dirent y ya n str s of (Inl err, s1) \<Rightarrow> Some (Inl err, s1) | (Inr _, s1) \<Rightarrow> Some (Inr (), s1)) = Some (r, s')"
    by (auto simp: toyfs_add_dentry_def bind_eq_Some_conv)
  obtain q s1 where q: "toyfs_add_dirent y ya n str s = (q, s1)" by (cases "toyfs_add_dirent y ya n str s")
  with y have "s' = s1" by (cases q) auto
  with same_ii_add_dirent [OF q] show ?thesis by simp
qed

lemma same_ii_remove_dentry: "toyfs_remove_dentry g t str s = Some (r, s') \<Longrightarrow> same_ii s s'"
proof -
  assume a: "toyfs_remove_dentry g t str s = Some (r, s')"
  have pg: "same_ii x (upd_page p f u) = same_ii x u" for x p f u by (simp add: same_ii_def upd_page_def)
  have rm: "same_ii u u'" if "toyfs_remove_dirent d ti de u = Some u'" for d ti de u u'
    using that by (auto simp: toyfs_remove_dirent_def zus_std_remove_dentry_def Let_def pg bind_eq_Some_conv split: prod.splits if_splits)
  from a obtain y ya where y: "zii_inode s g = Some y" "zii_inode s t = Some ya"
    by (auto simp: toyfs_remove_dentry_def bind_eq_Some_conv)
  note a' = a [unfolded toyfs_remove_dentry_def y Option.bind.simps]
  show ?thesis
  proof (cases "toyfs_lookup_dirent y str s")
    case None
    with a' show ?thesis by simp
  next
    case (Some de)
    show ?thesis
    proof (cases "zi_isdir (h_inode s ya) \<and> i_size (h_inode s ya) \<noteq> 0")
      case True
      with a' Some show ?thesis by simp
    next
      case False
      with a' Some obtain s1 where s1: "toyfs_remove_dirent y ya de s = Some s1"
        and s': "s' = (if zi_isdir (h_inode s1 ya) \<and> i_nlink (h_inode s1 ya) = 1 \<and> i_size (h_inode s1 ya) = 0
             then upd_inode ya (\<lambda>zi. zi\<lparr>i_nlink := 0\<rparr>) s1 else s1)"
        by (auto simp: bind_eq_Some_conv simp del: upd_inode_frame)
      from rm [OF s1] show ?thesis unfolding s' by simp
    qed
  qed
qed

text \<open>
  The requests of the kernel in any order: creation of an inode with memory that is not in use, adding
  and removing names, \<open>iget\<close> of an inode whose info has not been evicted, and eviction of an info other than the
  one of the root directory.
\<close>

inductive ii_step :: "toyfs_sb_info \<Rightarrow> toyfs_sb_info \<Rightarrow> bool" where
  new: "(\<And>a. mem = Some a \<Longrightarrow> h_tii s a = None \<and> s_root s \<noteq> Some a) \<Longrightarrow>
    toyfs_new_inode mem True app ioc s = Some (r, s') \<Longrightarrow> ii_step s s'"
| add: "toyfs_add_dentry d z str s = Some (r, s') \<Longrightarrow> ii_step s s'"
| remove: "toyfs_remove_dentry d z str s = Some (r, s') \<Longrightarrow> ii_step s s'"
| iget: "(\<And>tir. toyfs_find_inode_ref_by_ino s ino = Some tir \<Longrightarrow> tir_tii (tir_at (s_itable s) tir) \<noteq> None) \<Longrightarrow>
    toyfs_iget mem ino s = Some (r, s') \<Longrightarrow> ii_step s s'"
| evict: "s_root s \<noteq> Some a \<Longrightarrow> toyfs_evict (Some a) s = Some s' \<Longrightarrow> ii_step s s'"

lemma iget_ii:
  assumes inv: "ii_inv s" and c: "\<And>tir. toyfs_find_inode_ref_by_ino s ino = Some tir \<Longrightarrow> tir_tii (tir_at (s_itable s) tir) \<noteq> None"
    and i: "toyfs_iget mem ino s = Some (r, s')"
  shows "ii_inv s'"
proof (cases "itable_find (s_itable s) ino")
  case None
  then have "s' = s" using i by (simp add: toyfs_iget_def toyfs_find_inode_ref_by_ino_def)
  with inv show ?thesis by simp
next
  case (Some p)
  from c [of p] Some obtain a where "tir_tii (tir_at (s_itable s) p) = Some a" by (auto simp: toyfs_find_inode_ref_by_ino_def)
  note ic = iget_cached [OF inv itable_find_Some(3) [OF Some] this]
  from ic(1) [of mem] i have "s' = upd_tii a (\<lambda>r. r\<lparr>tii_ref := tii_ref r + 1\<rparr>) s" by auto
  with ic(2) show ?thesis by simp
qed

lemma ii_step_inv: "ii_step s s' \<Longrightarrow> ii_inv s \<Longrightarrow> ii_inv s'"
proof (induction rule: ii_step.induct)
  case (new mem s app ioc r s')
  then show ?case using new_inode_ii(1) by blast
next
  case (add d z str s r s')
  then show ?case using ii_inv_cong [OF same_ii_add_dentry] by blast
next
  case (remove d z str s r s')
  then show ?case using ii_inv_cong [OF same_ii_remove_dentry] by blast
next
  case (iget s ino mem r s')
  then show ?case using iget_ii by blast
next
  case (evict s a s')
  then show ?case using evict_ii by blast
qed

lemma ii_steps_inv: "ii_step\<^sup>*\<^sup>* s s' \<Longrightarrow> ii_inv s \<Longrightarrow> ii_inv s'"
  by (induction rule: rtranclp_induct) (auto intro: ii_step_inv)

end
