(* ===== verification/InodeTree.thy ===== *)
theory InodeTree
  imports InodeOps FileClone
begin

text \<open>
  Creation and deletion of inodes seen from the files and directories: every operation of the inode
  layer keeps their structures, gives a new inode the right type and gives back what a deleted inode
  held. Symbolic links and the mounted file system.
\<close>

section \<open>The invariant of the whole tree\<close>

text \<open>
  \<open>F\<close> are the regular files, \<open>G\<close> the directories and \<open>L\<close> all other inodes; \<open>X\<close> are the pages that are not data
  of a file: pages of directories, texts of symbolic links and attributes.
\<close>

definition tree_wf :: "addr set \<Rightarrow> addr set \<Rightarrow> addr set \<Rightarrow> addr set \<Rightarrow> addr set \<Rightarrow> addr set \<Rightarrow> addr set \<Rightarrow> addr set \<Rightarrow> toyfs_sb_info \<Rightarrow> bool" where
  "tree_wf D B I N X F G L s =
    (pool_inv D B I N s \<and> blocks_inv D B I N X F s \<and> G \<subseteq> N \<and> L \<subseteq> N \<and> F \<inter> G = {} \<and> L \<inter> (F \<union> G) = {} \<and> dirs_ok X G s)"

definition inodes_ok :: "addr set \<Rightarrow> addr set \<Rightarrow> addr set \<Rightarrow> addr set \<Rightarrow> toyfs_sb_info \<Rightarrow> bool" where
  "inodes_ok X F G L s = (\<exists>D B I N. tree_wf D B I N X F G L s)"

lemma inodes_ok_tree: "inodes_ok X F G L s \<Longrightarrow> tree_ok X F G s"
  by (auto simp: inodes_ok_def tree_wf_def tree_ok_def)

lemma tree_inodes_ok: "tree_ok X F G s = inodes_ok X F G {} s"
  by (simp add: inodes_ok_def tree_wf_def tree_ok_def)

text \<open>
  A step that touches no structure of the files and directories that remain: pages outside the files may be
  acquired and released, inodes too.
\<close>

lemma wf_change:
  assumes wf: "tree_wf D B I N X F G L s" and pool: "pool_inv D' B I N' s'"
    and hp: "s_md s' = s_md s" "h_dblkref s' = h_dblkref s" "h_iblkref s' = h_iblkref s"
    and sets: "F' \<subseteq> F" "G' \<subseteq> G" "F' \<union> G' \<union> L' \<subseteq> N'" "L' \<inter> (F' \<union> G') = {}" "X' \<subseteq> D'" "D - X \<subseteq> D' - X'"
    and dirs: "\<And>g. g \<in> G' \<Longrightarrow> set (pages_of s g) \<subseteq> X'"
    and ino: "\<And>t. t \<in> F' \<union> G' \<Longrightarrow> list_head (h_inode s' t) = list_head (h_inode s t) \<and> i_blocks (h_inode s' t) = i_blocks (h_inode s t)"
      "\<And>g. g \<in> G' \<Longrightarrow> i_size (h_inode s' g) = i_size (h_inode s g)"
    and dat: "\<And>g p. g \<in> G' \<Longrightarrow> p \<in> set (pages_of s g) \<Longrightarrow> h_dat s' p = h_dat s p"
  shows "tree_wf D' B I N' X' F' G' L' s'"
proof -
  have b: "blocks_inv D B I N X F s" and FG: "F \<inter> G = {}" and d: "dirs_ok X G s" using wf by (simp_all add: tree_wf_def)
  have fin: "finite (refs F s e)" for e
  proof (rule finite_subset)
    show "refs F s e \<subseteq> I" using b by (auto simp: blocks_inv_def list_ok_def refs_def)
  qed (use b in \<open>simp add: blocks_inv_def\<close>)
  have "refs F' s e \<subseteq> refs F s e" for e using sets(1) by (auto simp: refs_def)
  then have r: "card (refs F' s e) \<le> card (refs F s e)" for e using card_mono [OF fin] by blast
  have "blocks_inv D' B I N' X' F' s"
  proof -
    have "dpage s e \<in> D' - X'" if "e \<in> B" for e using b that sets(6) by (auto simp: blocks_inv_def)
    moreover have "card (refs F' s e) \<le> db_refcnt (h_dblkref s e)" if "e \<in> B" for e
      using b that r [of e] by (auto simp: blocks_inv_def intro: order_trans)
    moreover have "set (pages_of s t) \<inter> set (pages_of s t') = {}" if "t \<in> F'" "t' \<in> F'" "t \<noteq> t'" for t t'
      using b sets(1) that by (simp add: blocks_inv_def subset_iff)
    moreover have "list_ok B I s t" if "t \<in> F'" for t using b sets(1) that by (auto simp: blocks_inv_def)
    ultimately show ?thesis using b sets(3,5) unfolding blocks_inv_def by simp
  qed
  moreover have "blocks_inv D' B I N' X' F' s' = blocks_inv D' B I N' X' F' s"
    by (rule blocks_inv_meta [OF hp]) (use ino in blast)
  moreover have u: "dir_ok s' g = dir_ok s g" "pages_of s' g = pages_of s g" if "g \<in> G'" for g
    using dir_cong(4) [of s' g s] ino dat [OF that] that by (metis UnI2)+
  have "dirs_ok X' G' s'"
    unfolding dirs_ok_def using d sets(2) dirs u by (simp add: dirs_ok_def subset_iff)
  ultimately show ?thesis using pool sets FG by (auto simp: tree_wf_def)
qed

lemma wf_content:
  assumes wf: "tree_wf D B I N X F G L s" and t: "t \<in> F"
    and hp: "s_md s' = s_md s" "h_dblkref s' = h_dblkref s" "h_iblkref s' = h_iblkref s"
    and l: "list_head (h_inode s' t) = list_head (h_inode s t)" and dat: "\<And>q. q \<in> D - X \<Longrightarrow> h_dat s' q = h_dat s q"
  shows "content s' t = content s t"
  by (rule content_meta [OF _ t hp l]) (use wf dat in \<open>auto simp: tree_wf_def\<close>)

text \<open>An inode that nobody uses becomes a file, a directory or another inode.\<close>

lemma wf_add_file:
  assumes wf: "tree_wf D B I N X F G L s" and t: "t \<in> N" "t \<notin> F \<union> G \<union> L" "list_head (h_inode s t) = []" "i_blocks (h_inode s t) = 0"
  shows "tree_wf D B I N X (insert t F) G L s"
proof -
  have "refs (insert t F) s = refs F s" using t(3) by (auto simp: refs_def fun_eq_iff)
  moreover have "list_ok B I s t" using t(3,4) by (simp add: list_ok_def)
  ultimately have "blocks_inv D B I N X (insert t F) s" using wf t(1,3) unfolding tree_wf_def blocks_inv_def by auto
  with wf t show ?thesis by (auto simp: tree_wf_def)
qed

lemma wf_add_dir:
  assumes wf: "tree_wf D B I N X F G L s" and t: "t \<in> N" "t \<notin> F \<union> G \<union> L" "list_head (h_inode s t) = []" "i_blocks (h_inode s t) = 0"
      "i_size (h_inode s t) = 0"
  shows "tree_wf D B I N X F (insert t G) L s" "dir_map s t = Map.empty"
proof -
  have nil: "pages_of s t = []" "dir_refs s t = []" using t(3) by (simp_all add: dir_refs_def)
  then have "dir_ok s t" using t(4,5) by (simp add: dir_ok_def offs_ok_def dir_alist_def)
  then have "dirs_ok X (insert t G) s" using wf nil by (auto simp: tree_wf_def dirs_ok_def)
  with wf t(1,2) show "tree_wf D B I N X F (insert t G) L s" by (auto simp: tree_wf_def)
  show "dir_map s t = Map.empty" by (simp add: dir_map_def dir_alist_def nil(2))
qed

lemma wf_add_other: "tree_wf D B I N X F G L s \<Longrightarrow> t \<in> N \<Longrightarrow> t \<notin> F \<union> G \<Longrightarrow> tree_wf D B I N X F G (insert t L) s"
  by (auto simp: tree_wf_def)

section \<open>The type of a new inode\<close>

lemma pool_inv_stat:
  "\<lbrakk>s_md s' = s_md s; s_pool s' = s_pool s; f_blocks (s_statvfs s') = f_blocks (s_statvfs s); f_bfree (s_statvfs s') = f_bfree (s_statvfs s);
    f_bavail (s_statvfs s') = f_bavail (s_statvfs s)\<rbrakk> \<Longrightarrow> pool_inv D B I N s' = pool_inv D B I N s"
  by (simp add: pool_inv_def role_inv_def Let_def)

lemma dpp_page:
  assumes "pool_inv D B I N s" "p \<in> D"
  shows "toyfs_dpp2pmemb s (toyfs_page2dpp s p) = p"
  using bn2pmemb_addr2bn [OF assms]
  by (simp add: toyfs_dpp2pmemb_def toyfs_page2dpp_def pmem_dpp_t_def toyfs_addr2bn_def Let_def)

text \<open>An update of an inode outside the tree.\<close>

lemma wf_upd_outside:
  assumes wf: "tree_wf D B I N X F G L s" and t: "t \<notin> F \<union> G"
  shows "tree_wf D B I N X F G L (upd_inode t f s)"
  by (rule wf_change [OF wf]) (use wf t in \<open>auto simp: tree_wf_def blocks_inv_def dirs_ok_def\<close>)

lemma new_inode_type_dir:
  assumes wf: "tree_wf D B I N X F G L s" and t: "t \<in> N" "t \<notin> F \<union> G \<union> L" and zi: "zi_isdir zi" "i_blocks (h_inode s t) = 0"
    and d: "h_tii s d = Some dii" "tii_ti dii = Some g" "tii_zi dii = Some g" "g \<in> G"
  shows "\<exists>s'. new_inode_type (Some d) t zi tmp app s = Some (True, s') \<and> tree_wf D B I N X F (insert t G) L s' \<and>
    s' = upd_inode t (\<lambda>r. r\<lparr>list_head := [], i_size := 0, i_dir_parent := i_ino (h_inode s g), i_nlink := 1\<rparr>) s \<and>
    dir_map s' t = Map.empty"
proof -
  define s' where "s' = upd_inode t (\<lambda>r. r\<lparr>list_head := [], i_size := 0, i_dir_parent := i_ino (h_inode s g), i_nlink := 1\<rparr>) s"
  have gt: "g \<noteq> t" using d(4) t(2) by auto
  have "new_inode_type (Some d) t zi tmp app s = Some (True, s')"
    using zi(1) d gt by (simp add: new_inode_type_def Let_def zus_std_new_dir_def s'_def upd_inode_def)
  moreover have "tree_wf D B I N X F G L s'" unfolding s'_def using wf_upd_outside [OF wf] t(2) by auto
  note w = wf_add_dir [OF this t]
  have "tree_wf D B I N X F (insert t G) L s'" "dir_map s' t = Map.empty" by (rule w; simp add: s'_def zi(2))+
  ultimately show ?thesis by (auto simp: s'_def)
qed

lemma new_inode_type_reg:
  assumes wf: "tree_wf D B I N X F G L s" and t: "t \<in> N" "t \<notin> F \<union> G \<union> L" and zi: "zi_isreg zi" "i_blocks (h_inode s t) = 0"
  shows "\<exists>s'. new_inode_type d t zi tmp app s = Some (True, s') \<and> tree_wf D B I N X (insert t F) G L s' \<and>
    s' = upd_inode t (\<lambda>r. r\<lparr>list_head := [], i_nlink := (if tmp then 1 else i_nlink r)\<rparr>) s \<and> content s' t = (\<lambda>_. 0)"
proof -
  define s' where "s' = upd_inode t (\<lambda>r. r\<lparr>list_head := [], i_nlink := (if tmp then 1 else i_nlink r)\<rparr>) s"
  have nd: "\<not> zi_isdir zi" using zi(1) zi_type_disjoint by blast
  have "new_inode_type d t zi tmp app s = Some (True, s')"
    using zi(1) nd by (simp add: new_inode_type_def Let_def s'_def upd_inode_def)
  moreover have w: "tree_wf D B I N X F G L s'" unfolding s'_def using wf_upd_outside [OF wf] t(2) by auto
  have "tree_wf D B I N X (insert t F) G L s'" by (rule wf_add_file [OF w t]) (simp_all add: s'_def zi(2))
  moreover have "content s' t = (\<lambda>_. 0)"
    by (simp add: content_def fetch_iblkref_def toyfs_iblkrefs_list_of_def s'_def fun_eq_iff)
  ultimately show ?thesis by (auto simp: s'_def)
qed

lemma release_inode_frame [simp]:
  "s_md (toyfs_release_inode t s) = s_md s" "h_inode (toyfs_release_inode t s) = (h_inode s)(t := zero_inode)"
  "h_dat (toyfs_release_inode t s) = h_dat s" "h_dblkref (toyfs_release_inode t s) = h_dblkref s"
  "h_iblkref (toyfs_release_inode t s) = h_iblkref s" "h_tii (toyfs_release_inode t s) = h_tii s"
  "s_itable (toyfs_release_inode t s) = s_itable s" "s_statvfs (toyfs_release_inode t s) = s_statvfs s"
  by (simp_all add: toyfs_release_inode_def pool_push_inode_def Let_def)

lemma wf_release_inode:
  assumes wf: "tree_wf D B I N X F G L s" and t: "t \<in> N"
  shows "tree_wf D B I (N - {t}) X (F - {t}) (G - {t}) (L - {t}) (toyfs_release_inode t s)"
proof -
  have "pool_inv D B I (N - {t}) (toyfs_release_inode t s)" using wf t release_inode_inv by (simp add: tree_wf_def)
  then show ?thesis
    by (rule wf_change [OF wf]) (use wf in \<open>auto simp: tree_wf_def blocks_inv_def dirs_ok_def\<close>)
qed

text \<open>A page that is not data of a file is acquired or released.\<close>

lemma wf_acquire_page:
  assumes wf: "tree_wf D B I N X F G L s" and a: "toyfs_acquire_pmemb s = (Some p, s1)"
  shows "tree_wf (insert p D) B I N (insert p X) F G L s1" "p \<notin> D"
proof -
  have q: "p \<notin> D" "pool_inv (insert p D) B I N s1" using wf page_src.acquire_law [OF _ a] by (auto simp: tree_wf_def)
  note fr = acquire_pmemb_frame [OF a]
  have XD: "X \<subseteq> D" using wf by (simp add: tree_wf_def blocks_inv_def)
  have dp: "set (pages_of s g) \<subseteq> X" if "g \<in> G" for g using wf that by (simp add: tree_wf_def dirs_ok_def)
  show "tree_wf (insert p D) B I N (insert p X) F G L s1"
    by (rule wf_change [OF wf q(2)]) (use fr XD q(1) dp wf in \<open>auto simp: tree_wf_def blocks_inv_def fun_eq_iff\<close>)
  show "p \<notin> D" by (rule q(1))
qed

lemma wf_release_page:
  assumes wf: "tree_wf D B I N X F G L s" and p: "p \<in> X" "\<And>g. g \<in> G \<Longrightarrow> p \<notin> set (pages_of s g)"
  shows "tree_wf (D - {p}) B I N (X - {p}) F G L (toyfs_release_pmemb p s)"
proof -
  have XD: "X \<subseteq> D" using wf by (simp add: tree_wf_def blocks_inv_def)
  have pl: "pool_inv (D - {p}) B I N (toyfs_release_pmemb p s)" by (rule release_pmemb_inv) (use wf XD p(1) in \<open>auto simp: tree_wf_def\<close>)
  have dp: "set (pages_of s g) \<subseteq> X" if "g \<in> G" for g using wf that by (simp add: tree_wf_def dirs_ok_def)
  show ?thesis
    by (rule wf_change [OF wf pl]) (use XD dp p wf in \<open>auto simp: tree_wf_def blocks_inv_def\<close>)
qed

lemma new_inode_type_lnk:
  assumes wf: "tree_wf D B I N X F G L s" and t: "t \<in> N" "t \<notin> F \<union> G \<union> L" and zi: "zi_islnk zi" "i_size (h_inode s t) \<le> PAGE_SIZE"
    "i_symlink (h_inode s t) = i_symlink zi" "i_mode (h_inode s t) = i_mode zi"
  shows "(\<exists>s'. new_inode_type d t zi tmp app s = Some (False, s') \<and> tree_wf D B I (N - {t}) X F G L s' \<and> s' = toyfs_release_inode t s \<and>
      32 \<le> i_size (h_inode s t) \<and> fst (toyfs_acquire_pmemb s) = None) \<or>
    (\<exists>D' X' s' txt. new_inode_type d t zi tmp app s = Some (True, s') \<and> tree_wf D' B I N X' F G (insert t L) s' \<and>
      X' - D = X' - X \<and> D' = D \<union> X' \<and> X \<subseteq> X' \<and> (\<forall>q\<in>D. h_dat s' q = h_dat s q) \<and>
      s_md s' = s_md s \<and> h_dblkref s' = h_dblkref s \<and> h_iblkref s' = h_iblkref s \<and>
      (\<forall>u. u \<noteq> t \<longrightarrow> h_inode s' u = h_inode s u) \<and> h_inode s' t = (h_inode s t)\<lparr>i_sym_dpp := i_sym_dpp (h_inode s' t)\<rparr> \<and>
      get_symlink t s' = Inr txt \<and>
      (\<forall>i<i_size (h_inode s t). txt i = (if i_size (h_inode s t) < 32 then i_symlink zi ! i else app i)) \<and>
      f_bfree (s_statvfs s) = f_bfree (s_statvfs s') + card (X' - X) \<and>
      X' - X = (if i_size (h_inode s t) < 32 then {} else {toyfs_dpp2pmemb s' (i_sym_dpp (h_inode s' t))}))"
proof -
  have nt: "\<not> zi_isdir zi" "\<not> zi_isreg zi" using zi(1) zi_type_disjoint by blast+
  have lnk: "zi_islnk ((h_inode s t)\<lparr>i_sym_dpp := v\<rparr>)" for v using zi(1,4) by (simp add: zi_islnk_def)
  have XD: "X \<subseteq> D" using wf by (simp add: tree_wf_def blocks_inv_def)
  have tFG: "t \<notin> F \<union> G" using t(2) by auto
  show ?thesis
  proof (cases "i_size (h_inode s t) < 32")
    case True
    have 1: "new_inode_type d t zi tmp app s = Some (True, s)" using nt zi(1) True by (simp add: new_inode_type_def)
    have 2: "tree_wf D B I N X F G (insert t L) s" by (rule wf_add_other [OF wf t(1) tFG])
    have 3: "get_symlink t s = Inr (\<lambda>i. i_symlink zi ! i)" using True lnk [of "i_sym_dpp (h_inode s t)"] zi(3) by (simp add: get_symlink_def Let_def)
    show ?thesis
      by (rule disjI2, intro exI [of _ D] exI [of _ X] exI [of _ s] exI [of _ "\<lambda>i. i_symlink zi ! i"]) (use 1 2 3 XD True in auto)
  next
    case False
    obtain q s1 where q: "toyfs_acquire_pmemb s = (q, s1)" by (cases "toyfs_acquire_pmemb s")
    show ?thesis
    proof (cases q)
      case None
      have s1: "s1 = s" using acquire_pmemb_None [OF _ q [unfolded None]] wf by (auto simp: tree_wf_def)
      have "new_inode_type d t zi tmp app s = Some (False, toyfs_release_inode t s)"
        using nt zi(1) False q None s1 by (simp add: new_inode_type_def Let_def)
      moreover have "tree_wf D B I (N - {t}) X F G L (toyfs_release_inode t s)"
        using wf_release_inode [OF wf t(1)] t(2) by (simp add: Diff_triv insert_absorb)
      ultimately show ?thesis using False q None by auto
    next
      case (Some p)
      note W = wf_acquire_page [OF wf q [unfolded Some]] and fr = acquire_pmemb_frame [OF q]
      define n where "n = i_size (h_inode s t)"
      define s2 where "s2 = upd_dat p 0 n app s1"
      define s' where "s' = upd_inode t (\<lambda>r. r\<lparr>i_sym_dpp := toyfs_page2dpp s2 p\<rparr>) s2"
      have 1: "new_inode_type d t zi tmp app s = Some (True, s')"
        using nt zi(1) False q Some by (simp add: new_inode_type_def Let_def s'_def s2_def n_def)
      have pX: "p \<notin> X" using W(2) XD by blast
      have dp: "set (pages_of s1 g) \<subseteq> X" if "g \<in> G" for g using wf that fr by (simp add: tree_wf_def dirs_ok_def)
      have w2: "tree_wf (insert p D) B I N (insert p X) F G L s2"
        by (rule wf_change [OF W(1)]) (use W(1) dp pX in \<open>auto simp: s2_def tree_wf_def blocks_inv_def h_dat_upd_dat fun_eq_iff\<close>)
      have 2: "tree_wf (insert p D) B I N (insert p X) F G (insert t L) s'"
        unfolding s'_def by (rule wf_add_other [OF wf_upd_outside [OF w2 tFG] t(1) tFG])
      have dpp: "toyfs_dpp2pmemb s2 (toyfs_page2dpp s2 p) = p"
        by (rule dpp_page [of "insert p D" B I N]) (use w2 in \<open>simp_all add: tree_wf_def\<close>)
      then have dpp': "toyfs_dpp2pmemb s' (toyfs_page2dpp s2 p) = p"
        by (simp add: s'_def toyfs_dpp2pmemb_def toyfs_bn2pmemb_def toyfs_bn2addr_def)
      have it: "h_inode s' t = (h_inode s t)\<lparr>i_sym_dpp := toyfs_page2dpp s2 p\<rparr>" using fr by (simp add: s'_def s2_def)
      have 3: "get_symlink t s' = Inr (h_dat s' p)"
        unfolding get_symlink_def Let_def it using lnk False by (simp add: dpp')
      have bytes: "h_dat s' p i = app i" if "i < n" for i using that by (simp add: s'_def s2_def h_dat_upd_dat)
      have dat: "\<forall>r\<in>D. h_dat s' r = h_dat s r"
        using W(2) fr Some by (auto simp: s'_def s2_def h_dat_upd_dat fun_eq_iff)
      have free: "f_bfree (s_statvfs s) = f_bfree (s_statvfs s') + 1"
        using q Some by (auto simp: s'_def s2_def toyfs_acquire_pmemb_def split: if_splits prod.splits option.splits)
      have 4: "insert p X - D = insert p X - X" "insert p D = D \<union> insert p X" "X \<subseteq> insert p X" "insert p X - X = {p}"
        using W(2) XD pX by auto
      have 5: "s_md s' = s_md s" "h_dblkref s' = h_dblkref s" "h_iblkref s' = h_iblkref s" "\<forall>u. u \<noteq> t \<longrightarrow> h_inode s' u = h_inode s u"
        using fr by (simp_all add: s'_def s2_def)
      show ?thesis
        by (rule disjI2, intro exI [of _ "insert p D"] exI [of _ "insert p X"] exI [of _ s'] exI [of _ "h_dat s' p"])
           (use 1 2 3 it dpp' bytes dat free False 4 5 in \<open>simp add: n_def\<close>)
    qed
  qed
qed

section \<open>Creation\<close>

text \<open>States that differ at most in what belongs to the infos in memory.\<close>

definition same_tree :: "toyfs_sb_info \<Rightarrow> toyfs_sb_info \<Rightarrow> bool" where
  "same_tree s s' =
    (s_md s' = s_md s \<and> s_pool s' = s_pool s \<and> h_dat s' = h_dat s \<and> h_inode s' = h_inode s \<and> h_dblkref s' = h_dblkref s \<and>
     h_iblkref s' = h_iblkref s \<and> f_blocks (s_statvfs s') = f_blocks (s_statvfs s) \<and> f_bfree (s_statvfs s') = f_bfree (s_statvfs s) \<and>
     f_bavail (s_statvfs s') = f_bavail (s_statvfs s))"

text \<open>The files \<open>F\<close> and the directories \<open>G\<close> stay what they are.\<close>

definition undisturbed :: "addr set \<Rightarrow> addr set \<Rightarrow> toyfs_sb_info \<Rightarrow> toyfs_sb_info \<Rightarrow> bool" where
  "undisturbed F G s s' =
    ((\<forall>t\<in>F. content s' t = content s t \<and> h_inode s' t = h_inode s t) \<and>
     (\<forall>g\<in>G. dir_map s' g = dir_map s g \<and> h_inode s' g = h_inode s g))"

lemma undisturbed_trans: "undisturbed F G s s' \<Longrightarrow> undisturbed F G s' s'' \<Longrightarrow> undisturbed F G s s''"
  by (simp add: undisturbed_def)

lemma undisturbed_wf:
  assumes wf: "tree_wf D B I N X F G L s" and hp: "s_md s' = s_md s" "h_dblkref s' = h_dblkref s" "h_iblkref s' = h_iblkref s"
    and ino: "\<And>t. t \<in> F' \<union> G' \<Longrightarrow> h_inode s' t = h_inode s t" and sub: "F' \<subseteq> F" "G' \<subseteq> G"
    and dat: "\<And>q. q \<in> D - X \<Longrightarrow> h_dat s' q = h_dat s q" "\<And>g q. g \<in> G' \<Longrightarrow> q \<in> set (pages_of s g) \<Longrightarrow> h_dat s' q = h_dat s q"
  shows "undisturbed F' G' s s'"
proof -
  have "content s' t = content s t" if "t \<in> F'" for t
  proof (rule wf_content [OF wf _ hp _ dat(1)])
    show "t \<in> F" using that sub(1) by blast
    show "pages_of s' t = pages_of s t" using ino that by simp
  qed
  moreover have "dir_map s' g = dir_map s g" if "g \<in> G'" for g
    by (rule dir_cong(3)) (use ino dat(2) that in auto)
  ultimately show ?thesis using ino by (simp add: undisturbed_def)
qed

lemma same_tree_wf:
  assumes "same_tree s s'"
  shows "tree_wf D B I N X F G L s' = tree_wf D B I N X F G L s" "undisturbed F G s s'"
proof -
  from assms have h: "s_md s' = s_md s" "s_pool s' = s_pool s" "h_dat s' = h_dat s" "h_inode s' = h_inode s" "h_dblkref s' = h_dblkref s"
    "h_iblkref s' = h_iblkref s" by (simp_all add: same_tree_def)
  have p: "pool_inv D B I N s' = pool_inv D B I N s" by (rule pool_inv_stat) (use assms in \<open>simp_all add: same_tree_def\<close>)
  have b: "blocks_inv D B I N X F s' = blocks_inv D B I N X F s" by (rule blocks_inv_meta) (simp_all add: h)
  have d: "dir_ok s' g = dir_ok s g" "dir_map s' g = dir_map s g" for g using dir_cong(3,4) [of s' g s] by (simp_all add: h)
  then have "dirs_ok X G s' = dirs_ok X G s" by (simp add: dirs_ok_def h)
  with p b show "tree_wf D B I N X F G L s' = tree_wf D B I N X F G L s" by (simp add: tree_wf_def)
  have "content s' t = content s t" for t
  proof
    fix q
    have "fetch_iblkref t q s' = fetch_iblkref t q s" by (simp add: fetch_iblkref_def toyfs_iblkrefs_list_of_def h)
    moreover have "dpage s' = dpage s" by (intro ext dpage_cong) (simp_all add: h)
    ultimately show "content s' t q = content s t q" by (simp add: content_def h cong: option.case_cong)
  qed
  with d show "undisturbed F G s s'" by (simp add: undisturbed_def h)
qed

lemma same_tree_alloc: "toyfs_alloc_ii mem s = (r, s1) \<Longrightarrow> same_tree s s1"
  by (cases rule: alloc_ii_cases [of mem s]) (auto simp: same_tree_def)

lemma same_tree_fail: "new_inode_fail a s = Some (r, s') \<Longrightarrow> r = None \<and> same_tree s s'"
  by (auto simp: new_inode_fail_def toyfs_tii_free_def same_tree_def bind_eq_Some_conv split: if_splits)

lemma same_tree_upd_tii: "same_tree s (upd_tii a f s)"
  by (simp add: same_tree_def upd_tii_def)

lemma same_tree_trans: "same_tree s s' \<Longrightarrow> same_tree s' s'' \<Longrightarrow> same_tree s s''"
  by (simp add: same_tree_def)

lemma wf_acquire_inode:
  assumes wf: "tree_wf D B I N X F G L s" and a: "toyfs_acquire_inode s = (Some t, s1)"
  shows "tree_wf D B I (insert t N) X F G L s1" "t \<notin> N" "undisturbed F G s s1"
proof -
  have q: "t \<notin> N" "pool_inv D B I (insert t N) s1" using wf inode_src.acquire_law [OF _ a] by (auto simp: tree_wf_def)
  note fr = acquire_inode_frame [OF a]
  show "tree_wf D B I (insert t N) X F G L s1"
    by (rule wf_change [OF wf q(2)]) (use fr wf in \<open>auto simp: tree_wf_def blocks_inv_def dirs_ok_def\<close>)
  show "t \<notin> N" by (rule q(1))
  show "undisturbed F G s s1" by (rule undisturbed_wf [OF wf]) (use fr in auto)
qed

lemma mid_wf:
  assumes wf: "tree_wf D B I N X F G L s" and t: "t \<notin> F \<union> G"
  shows "tree_wf D B I N X F G L (new_inode_mid a t zi s)" "undisturbed F G s (new_inode_mid a t zi s)"
    "h_inode (new_inode_mid a t zi s) t = zi\<lparr>i_ino := s_top_ino s\<rparr>" "\<And>u. u \<noteq> t \<Longrightarrow> h_inode (new_inode_mid a t zi s) u = h_inode s u"
    "h_tii (new_inode_mid a t zi s) = (h_tii s)(a := map_option (\<lambda>r. r\<lparr>tii_ti := Some t, tii_ino := s_top_ino s, tii_zi := Some t\<rparr>) (h_tii s a))"
    "s_statvfs (new_inode_mid a t zi s) = s_statvfs s" "s_md (new_inode_mid a t zi s) = s_md s"
    "h_dat (new_inode_mid a t zi s) = h_dat s" "h_dblkref (new_inode_mid a t zi s) = h_dblkref s" "h_iblkref (new_inode_mid a t zi s) = h_iblkref s"
proof -
  have e: "same_tree (upd_inode t (\<lambda>_. zi\<lparr>i_ino := s_top_ino s\<rparr>) s) (new_inode_mid a t zi s)"
    by (simp add: same_tree_def new_inode_mid_def upd_tii_def upd_inode_def)
  show "tree_wf D B I N X F G L (new_inode_mid a t zi s)" using same_tree_wf(1) [OF e] wf_upd_outside [OF wf t] by simp
  have "undisturbed F G s (upd_inode t (\<lambda>_. zi\<lparr>i_ino := s_top_ino s\<rparr>) s)" by (rule undisturbed_wf [OF wf]) (use t in auto)
  with same_tree_wf(2) [OF e] show "undisturbed F G s (new_inode_mid a t zi s)" by (rule undisturbed_trans [rotated])
qed (simp_all add: new_inode_mid_def upd_tii_def upd_inode_def)

text \<open>
  What a new inode \<open>t\<close> is, by its type: an empty directory under \<open>g\<close>, a file without data, a symbolic link
  with the text of the request, or another inode.
\<close>

definition born :: "zufs_ioc_new_inode \<Rightarrow> (nat \<Rightarrow> byte) \<Rightarrow> addr \<Rightarrow> addr set \<Rightarrow> addr set \<Rightarrow> addr set \<Rightarrow> addr set \<Rightarrow> addr \<Rightarrow>
    toyfs_sb_info \<Rightarrow> toyfs_sb_info \<Rightarrow> bool" where
  "born ioc app g X F G L t s s' =
    (let zi = new_zi ioc in
     if zi_isdir zi then
       inodes_ok X F (insert t G) L s' \<and> dir_map s' t = Map.empty \<and> i_dir_parent (h_inode s' t) = i_ino (h_inode s g) \<and>
       i_nlink (h_inode s' t) = 1
     else if zi_isreg zi then
       inodes_ok X (insert t F) G L s' \<and> content s' t = (\<lambda>_. 0) \<and> i_size (h_inode s' t) = i_size zi
     else if zi_islnk zi then
       (\<exists>text. get_symlink t s' = Inr text \<and> (\<forall>i<i_size zi. text i = (if i_size zi < 32 then i_symlink zi ! i else app i))) \<and>
       (let P = (if i_size zi < 32 then {} else {toyfs_dpp2pmemb s' (i_sym_dpp (h_inode s' t))})
        in P \<inter> X = {} \<and> inodes_ok (X \<union> P) F G (insert t L) s' \<and> f_bfree (s_statvfs s') + card P = f_bfree (s_statvfs s)) \<and>
       i_size (h_inode s' t) = i_size zi \<and> i_xattr (h_inode s' t) = i_xattr zi \<and> i_nlink (h_inode s' t) = i_nlink zi
     else inodes_ok X F G (insert t L) s')"

lemma inodes_okI: "tree_wf D B I N X F G L s \<Longrightarrow> inodes_ok X F G L s"
  by (auto simp: inodes_ok_def)

lemma born_same_tree: "same_tree s' s'' \<Longrightarrow> born ioc app g X F G L t s s' \<Longrightarrow> born ioc app g X F G L t s s''"
proof -
  assume e: "same_tree s' s''" and b: "born ioc app g X F G L t s s'"
  have i: "inodes_ok X F G L s'' = inodes_ok X F G L s'" for X F G L using same_tree_wf(1) [OF e] by (simp add: inodes_ok_def)
  have u: "undisturbed {t} {t} s' s''" by (rule same_tree_wf(2) [OF e])
  have g: "get_symlink t s'' = get_symlink t s'"
    using e by (simp add: same_tree_def get_symlink_def toyfs_dpp2pmemb_def toyfs_bn2pmemb_def toyfs_bn2addr_def Let_def)
  have c: "content s'' t = content s' t" "h_inode s'' t = h_inode s' t" "dir_map s'' t = dir_map s' t" using u by (simp_all add: undisturbed_def)
  have p: "toyfs_dpp2pmemb s'' x = toyfs_dpp2pmemb s' x" "f_bfree (s_statvfs s'') = f_bfree (s_statvfs s')" for x
    using e by (simp_all add: same_tree_def toyfs_dpp2pmemb_def toyfs_bn2pmemb_def toyfs_bn2addr_def)
  show ?thesis using b unfolding born_def Let_def i g c p .
qed

text \<open>The type-dependent part of the creation of an inode.\<close>

lemma new_inode_type_born:
  assumes wf: "tree_wf D B I N X F G L s" and t: "t \<in> N" "t \<notin> F \<union> G \<union> L"
    and zi: "h_inode s t = (new_zi ioc)\<lparr>i_ino := n\<rparr>" "i_blocks (new_zi ioc) = 0" "i_size (new_zi ioc) < PAGE_SIZE"
    and d: "h_tii s d = Some dii" "tii_ti dii = Some g" "tii_zi dii = Some g" "g \<in> G"
  shows "\<exists>ok s'. new_inode_type (Some d) t (new_zi ioc) (new_tmpfile ioc) app s = Some (ok, s') \<and> undisturbed F G s s' \<and>
    (if ok then born ioc app g X F G L t s s' \<and> (\<forall>u. u \<noteq> t \<longrightarrow> h_inode s' u = h_inode s u) \<and> i_ino (h_inode s' t) = n \<and>
       i_mode (h_inode s' t) = i_mode (new_zi ioc)
     else tree_wf D B I (N - {t}) X F G L s' \<and> s_statvfs s' = s_statvfs s \<and> zi_islnk (new_zi ioc) \<and> 32 \<le> i_size (new_zi ioc) \<and>
       fst (toyfs_acquire_pmemb s) = None)"
proof -
  let ?zi = "new_zi ioc"
  have X: "X \<subseteq> D" and dp: "\<And>g. g \<in> G \<Longrightarrow> set (pages_of s g) \<subseteq> X" using wf by (auto simp: tree_wf_def blocks_inv_def dirs_ok_def)
  have upd: "undisturbed F G s (upd_inode t f s)" for f by (rule undisturbed_wf [OF wf]) (use t in auto)
  have b0: "i_blocks (h_inode s t) = 0" using zi by simp
  consider (dir) "zi_isdir ?zi" | (reg) "\<not> zi_isdir ?zi" "zi_isreg ?zi" | (lnk) "\<not> zi_isdir ?zi" "\<not> zi_isreg ?zi" "zi_islnk ?zi"
    | (other) "\<not> zi_isdir ?zi" "\<not> zi_isreg ?zi" "\<not> zi_islnk ?zi" by blast
  then show ?thesis
  proof cases
    case dir
    from new_inode_type_dir [OF wf t dir b0 d, of "new_tmpfile ioc" app] obtain s' where
      s': "new_inode_type (Some d) t ?zi (new_tmpfile ioc) app s = Some (True, s')" "tree_wf D B I N X F (insert t G) L s'"
        "s' = upd_inode t (\<lambda>r. r\<lparr>list_head := [], i_size := 0, i_dir_parent := i_ino (h_inode s g), i_nlink := 1\<rparr>) s" "dir_map s' t = Map.empty"
      by blast
    have "born ioc app g X F G L t s s'" using dir inodes_okI [OF s'(2)] s'(4) by (simp add: born_def Let_def) (simp add: s'(3))
    then show ?thesis using s'(1) upd zi(1) by (intro exI [of _ True] exI [of _ s']) (simp add: s'(3))
  next
    case reg
    from new_inode_type_reg [OF wf t reg(2) b0, of "Some d" "new_tmpfile ioc" app] obtain s' where
      s': "new_inode_type (Some d) t ?zi (new_tmpfile ioc) app s = Some (True, s')" "tree_wf D B I N X (insert t F) G L s'"
        "s' = upd_inode t (\<lambda>r. r\<lparr>list_head := [], i_nlink := (if new_tmpfile ioc then 1 else i_nlink r)\<rparr>) s" "content s' t = (\<lambda>_. 0)"
      by blast
    have "born ioc app g X F G L t s s'" using reg inodes_okI [OF s'(2)] s'(4) zi(1) by (simp add: born_def Let_def) (simp add: s'(3))
    then show ?thesis using s'(1) upd zi(1) by (intro exI [of _ True] exI [of _ s']) (simp add: s'(3))
  next
    case lnk
    have sz: "i_size (h_inode s t) = i_size ?zi" "i_symlink (h_inode s t) = i_symlink ?zi" "i_mode (h_inode s t) = i_mode ?zi" using zi(1) by simp_all
    have le: "i_size (h_inode s t) \<le> PAGE_SIZE" using sz zi(3) by simp
    from new_inode_type_lnk [OF wf t lnk(3) le sz(2,3), of "Some d" "new_tmpfile ioc" app] show ?thesis
    proof (elim disjE exE conjE)
      fix s' assume s': "new_inode_type (Some d) t ?zi (new_tmpfile ioc) app s = Some (False, s')" "tree_wf D B I (N - {t}) X F G L s'"
        "s' = toyfs_release_inode t s" "32 \<le> i_size (h_inode s t)" "fst (toyfs_acquire_pmemb s) = None"
      have "undisturbed F G s s'" by (rule undisturbed_wf [OF wf]) (use t s'(3) in auto)
      then show ?thesis using s' sz(1) lnk(3) by (intro exI [of _ False] exI [of _ s']) simp
    next
      fix D' X' s' str
      assume s': "new_inode_type (Some d) t ?zi (new_tmpfile ioc) app s = Some (True, s')" "tree_wf D' B I N X' F G (insert t L) s'" "X \<subseteq> X'"
        "\<forall>q\<in>D. h_dat s' q = h_dat s q" "s_md s' = s_md s" "h_dblkref s' = h_dblkref s" "h_iblkref s' = h_iblkref s"
        "\<forall>u. u \<noteq> t \<longrightarrow> h_inode s' u = h_inode s u" "h_inode s' t = (h_inode s t)\<lparr>i_sym_dpp := i_sym_dpp (h_inode s' t)\<rparr>"
        "get_symlink t s' = Inr str"
        "\<forall>i<i_size (h_inode s t). str i = (if i_size (h_inode s t) < 32 then i_symlink ?zi ! i else app i)"
        "f_bfree (s_statvfs s) = f_bfree (s_statvfs s') + card (X' - X)"
        "X' - X = (if i_size (h_inode s t) < 32 then {} else {toyfs_dpp2pmemb s' (i_sym_dpp (h_inode s' t))})"
      have it: "i_size (h_inode s' t) = i_size ?zi" "i_ino (h_inode s' t) = n" "i_mode (h_inode s' t) = i_mode ?zi"
        "i_xattr (h_inode s' t) = i_xattr ?zi" "i_nlink (h_inode s' t) = i_nlink ?zi"
        by (subst s'(9), simp add: zi(1))+
      define P where "P = (if i_size ?zi < 32 then {} else {toyfs_dpp2pmemb s' (i_sym_dpp (h_inode s' t))})"
      have P: "X' - X = P" using s'(13) sz(1) by (simp add: P_def)
      then have P': "P \<inter> X = {}" "X' = X \<union> P" "f_bfree (s_statvfs s') + card P = f_bfree (s_statvfs s)" using s'(3,12) by auto
      have "h_inode s' u = h_inode s u" if "u \<in> F \<union> G" for u using s'(8) t(2) that by (cases "u = t") auto
      moreover have "h_dat s' q = h_dat s q" if "h \<in> G" "q \<in> set (pages_of s h)" for h q using s'(4) dp [OF that(1)] X that(2) by blast
      ultimately have "undisturbed F G s s'"
        using undisturbed_wf [OF wf s'(5-7), of F G] s'(4) by blast
      moreover have "born ioc app g X F G L t s s'"
        unfolding born_def Let_def P_def [symmetric]
        using lnk it inodes_okI [OF s'(2)] s'(10,11) sz(1) P'(1,3) by (simp add: P'(2))
      ultimately show ?thesis using s'(1,8) it by (intro exI [of _ True] exI [of _ s']) simp
    qed
  next
    case other
    have w: "tree_wf D B I N X F G (insert t L) s" by (rule wf_add_other [OF wf]) (use t in auto)
    have "born ioc app g X F G L t s s" using other inodes_okI [OF w] by (simp add: born_def Let_def)
    moreover have "undisturbed F G s s" by (simp add: undisturbed_def)
    ultimately show ?thesis using other zi(1) by (intro exI [of _ True] exI [of _ s]) (simp add: new_inode_type_def)
  qed
qed

text \<open>The reasons for which a creation fails.\<close>

definition refused :: "addr option \<Rightarrow> zufs_ioc_new_inode \<Rightarrow> toyfs_sb_info \<Rightarrow> bool" where
  "refused mem ioc s =
    (mem = None \<or> f_ffree (s_statvfs s) = 0 \<or> \<not> issupported (new_zi ioc) \<or> PAGE_SIZE \<le> i_size (new_zi ioc) \<or>
     fst (toyfs_acquire_inode s) = None \<or>
     zi_islnk (new_zi ioc) \<and> 32 \<le> i_size (new_zi ioc) \<and> fst (toyfs_acquire_pmemb (snd (toyfs_acquire_inode s))) = None)"

lemma fst_acquire_pmemb_cong:
  "s_pool s' = s_pool s \<Longrightarrow> f_bfree (s_statvfs s') = f_bfree (s_statvfs s) \<Longrightarrow> f_bavail (s_statvfs s') = f_bavail (s_statvfs s) \<Longrightarrow>
   fst (toyfs_acquire_pmemb s') = fst (toyfs_acquire_pmemb s)"
  by (simp add: toyfs_acquire_pmemb_def split: prod.split option.split)

lemma new_inode_spec:
  assumes wf: "tree_wf D B I N X F G L s" and inv: "ii_inv s"
    and fresh: "\<And>a. mem = Some a \<Longrightarrow> h_tii s a = None \<and> s_root s \<noteq> Some a"
    and d: "new_dir_ii ioc = Some d" "h_tii s d = Some dii" "tii_op dii" "tii_valid dii" "tii_ti dii = Some g" "tii_zi dii = Some g" "g \<in> G"
    and zi: "i_blocks (new_zi ioc) = 0"
  shows "\<exists>r s'. toyfs_new_inode mem True app ioc s = Some (r, s') \<and> undisturbed F G s s' \<and>
    (case r of None \<Rightarrow> tree_wf D B I N X F G L s' \<and> f_bfree (s_statvfs s') = f_bfree (s_statvfs s) \<and> refused mem ioc s
     | Some a \<Rightarrow> (\<exists>t. t \<notin> F \<union> G \<union> L \<and> h_tii s' = (h_tii s)(a \<mapsto> new_info t (s_top_ino s)) \<and>
         itable_map (s_itable s') = (itable_map (s_itable s))(s_top_ino s \<mapsto> tir_of (a, new_info t (s_top_ino s))) \<and>
         (\<forall>u. u \<noteq> t \<longrightarrow> h_inode s' u = h_inode s u) \<and> i_ino (h_inode s' t) = s_top_ino s \<and>
         i_mode (h_inode s' t) = i_mode (new_zi ioc) \<and> born ioc app g X F G L t s s'))"
proof -
  have z: "toyfs_zii_to_tii s (new_dir_ii ioc) = Some (Some d)" using d by (simp add: zii_to_tii_good)
  note eq = new_inode_eq [of mem True app ioc s, unfolded z Option.bind.simps]
  have NFG: "F \<union> G \<union> L \<subseteq> N" using wf by (auto simp: tree_wf_def blocks_inv_def)
  obtain m s1 where al: "toyfs_alloc_ii mem s = (m, s1)" by (cases "toyfs_alloc_ii mem s")
  note t1 = same_tree_alloc [OF al]
  have w1: "tree_wf D B I N X F G L s1" and u1: "undisturbed F G s s1" using same_tree_wf [OF t1] wf by simp_all
  have refuse0: "refused mem ioc s" if "m = None"
    using al that ii_invD(9) [OF inv] by (cases rule: alloc_ii_cases [of mem s]) (auto simp: refused_def)
  show ?thesis
  proof (cases m)
    case None
    show ?thesis
      by (intro exI [of _ None] exI [of _ s1])
         (use eq al None w1 u1 t1 refuse0 in \<open>simp add: same_tree_def\<close>)
  next
    case (Some a)
    note al = al [unfolded Some] note A = alloc_ii_SomeD [OF al]
    from fresh [OF A(1)] have fr: "h_tii s a = None" "s_root s \<noteq> Some a" by auto
    have da: "d \<noteq> a" using fr(1) d(2) by auto
    have fail: ?thesis if e: "toyfs_new_inode mem True app ioc s = new_inode_fail a u" and u: "\<exists>ii. h_tii u a = Some ii \<and> tii_sbi ii"
      "tree_wf D B I N X F G L u" "undisturbed F G s u" "f_bfree (s_statvfs u) = f_bfree (s_statvfs s)" and rf: "refused mem ioc s" for u
    proof -
      from u(1) obtain s' where f: "new_inode_fail a u = Some (None, s')" by (auto simp: new_inode_fail_def toyfs_tii_free_def)
      note t = same_tree_fail [OF f]
      have "tree_wf D B I N X F G L s'" "undisturbed F G s s'" "f_bfree (s_statvfs s') = f_bfree (s_statvfs s)"
        using same_tree_wf [of u s'] t u undisturbed_trans by (auto simp: same_tree_def)
      then show ?thesis using e f rf by (intro exI [of _ None] exI [of _ s']) simp
    qed
    have a1: "\<exists>ii. h_tii s1 a = Some ii \<and> tii_sbi ii" "f_bfree (s_statvfs s1) = f_bfree (s_statvfs s)" using A by simp_all
    show ?thesis
    proof (cases "\<not> issupported (new_zi ioc) \<or> i_size (new_zi ioc) \<ge> PAGE_SIZE")
      case True
      then have "refused mem ioc s" by (auto simp: refused_def)
      then show ?thesis using eq al True by (intro fail [OF _ a1(1) w1 u1 a1(2)]) simp_all
    next
      case sup: False
      obtain q s2 where aq: "toyfs_acquire_inode s1 = (q, s2)" by (cases "toyfs_acquire_inode s1")
      show ?thesis
      proof (cases q)
        case None
        have "s2 = s1" using acquire_inode_None aq None by blast
        moreover have "fst (toyfs_acquire_inode s) = None" using aq None A(7) by (simp add: toyfs_acquire_inode_def split: prod.splits)
        then have "refused mem ioc s" by (simp add: refused_def)
        ultimately show ?thesis using eq al sup aq None by (intro fail [OF _ a1(1) w1 u1 a1(2)]) simp_all
      next
        case (Some t)
        note aq = aq [unfolded Some]
        note w2 = wf_acquire_inode [OF w1 aq] and f2 = acquire_inode_frame [OF aq]
        have t: "t \<notin> F \<union> G \<union> L" using w2(2) NFG by blast
        then have tFG: "t \<notin> F \<union> G" by blast
        define m2 where "m2 = new_inode_mid a t (new_zi ioc) s2"
        note M = mid_wf [OF w2(1) tFG, where a = a and zi = "new_zi ioc", folded m2_def]
        have um: "undisturbed F G s m2" using u1 w2(3) M(2) undisturbed_trans by metis
        have top: "s_top_ino s2 = s_top_ino s" using same_ii_acquire_inode [OF aq] A(5) by (simp add: same_ii_def)
        have hm: "h_tii m2 d = Some dii" using M(5) f2 A(3) d(2) da by simp
        have sz: "i_size (new_zi ioc) < PAGE_SIZE" using sup by simp
        from new_inode_type_born [OF M(1) _ t M(3) zi sz hm d(5,6,7), of app] obtain ok s7 where
          ty: "new_inode_type (Some d) t (new_zi ioc) (new_tmpfile ioc) app m2 = Some (ok, s7)" and u7: "undisturbed F G m2 s7"
          and b7: "if ok then born ioc app g X F G L t m2 s7 \<and> (\<forall>u. u \<noteq> t \<longrightarrow> h_inode s7 u = h_inode m2 u) \<and> i_ino (h_inode s7 t) = s_top_ino s2 \<and>
               i_mode (h_inode s7 t) = i_mode (new_zi ioc)
             else tree_wf D B I (insert t N - {t}) X F G L s7 \<and> s_statvfs s7 = s_statvfs m2 \<and> zi_islnk (new_zi ioc) \<and>
               32 \<le> i_size (new_zi ioc) \<and> fst (toyfs_acquire_pmemb m2) = None" by auto
        have us7: "undisturbed F G s s7" using um u7 by (rule undisturbed_trans)
        show ?thesis
        proof (cases ok)
          case False
          have "\<exists>ii. h_tii s7 a = Some ii \<and> tii_sbi ii"
            using new_inode_type_same [OF ty] M(5) f2 A(3) by (simp add: same_ii_def)
          moreover have "tree_wf D B I N X F G L s7" using b7 False w2(2) by simp
          moreover have "f_bfree (s_statvfs s7) = f_bfree (s_statvfs s)" using b7 False M(6) f2 a1(2) by simp
          moreover have "fst (toyfs_acquire_pmemb (snd (toyfs_acquire_inode s))) = fst (toyfs_acquire_pmemb m2)"
            using aq A(7,12,13) by (intro fst_acquire_pmemb_cong)
              (auto simp: m2_def new_inode_mid_def upd_tii_def upd_inode_def toyfs_acquire_inode_def split: prod.splits)
          then have "refused mem ioc s" using b7 False by (simp add: refused_def)
          ultimately show ?thesis
            by (intro fail [OF _ _ _ us7]) (use eq al sup aq ty False in \<open>simp_all add: m2_def\<close>)
        next
          case True
          from new_inode_track [OF inv al fr same_ii_acquire_inode [OF aq], of t "new_zi ioc" s7] new_inode_type_same [OF ty]
          obtain s8 where tr: "toyfs_i_track True a s7 = Some s8"
            and fin: "itable_map (s_itable (upd_tii a (\<lambda>r. r\<lparr>tii_ref := tii_ref r + 1\<rparr>) s8)) =
                (itable_map (s_itable s))(s_top_ino s \<mapsto> tir_of (a, new_info t (s_top_ino s)))"
              "h_tii (upd_tii a (\<lambda>r. r\<lparr>tii_ref := tii_ref r + 1\<rparr>) s8) = (h_tii s)(a \<mapsto> new_info t (s_top_ino s))"
              "\<exists>it h. upd_tii a (\<lambda>r. r\<lparr>tii_ref := tii_ref r + 1\<rparr>) s8 = s7\<lparr>s_itable := it, h_tii := h\<rparr>"
            by (auto simp: Let_def m2_def)
          define s' where "s' = upd_tii a (\<lambda>r. r\<lparr>tii_ref := tii_ref r + 1\<rparr>) s8"
          note fin = fin [folded s'_def]
          have st: "same_tree s7 s'" using fin(3) by (auto simp: same_tree_def)
          have e: "toyfs_new_inode mem True app ioc s = Some (Some a, s')"
            using eq al sup aq ty True tr by (simp add: m2_def s'_def)
          have hi: "h_inode s' = h_inode s7" using st by (simp add: same_tree_def)
          have gm: "i_ino (h_inode m2 g) = i_ino (h_inode s g)" using um d(7) by (simp add: undisturbed_def)
          have bm: "f_bfree (s_statvfs m2) = f_bfree (s_statvfs s)" using M(6) f2 a1(2) by simp
          have "born ioc app g X F G L t m2 s'" using born_same_tree [OF st] b7 True by simp
          then have "born ioc app g X F G L t s s'" unfolding born_def gm bm .
          moreover have "\<forall>u. u \<noteq> t \<longrightarrow> h_inode s' u = h_inode s u" using b7 True M(4) f2 A(15) hi by simp
          moreover have "i_ino (h_inode s' t) = s_top_ino s" "i_mode (h_inode s' t) = i_mode (new_zi ioc)" using b7 True hi top by simp_all
          moreover have "undisturbed F G s s'" using us7 same_tree_wf(2) [OF st] by (rule undisturbed_trans)
          ultimately show ?thesis using e fin(1,2) t by (intro exI [of _ "Some a"] exI [of _ s']) auto
        qed
      qed
    qed
  qed
qed

section \<open>Mount\<close>

lemma write_pmem_frame: "\<exists>h. write_pmem_loop pm n i s = s\<lparr>h_dat := h\<rparr>"
proof (induction pm n i s rule: write_pmem_loop.induct)
  case (1 pm n i s)
  show ?case
  proof (cases "i < n")
    case True
    with 1 show ?thesis by (subst write_pmem_loop.simps) (auto simp: upd_dat_def)
  next
    case False
    then show ?thesis by (subst write_pmem_loop.simps) (auto intro: exI [of _ "h_dat s"])
  qed
qed

lemma chunk_in_page:
  fixes i k off :: nat
  assumes "1024 dvd i" "off < 4096"
  shows "(k = i div 4096 \<and> i mod 4096 \<le> off \<and> off < i mod 4096 + 1024) = (i \<le> 4096 * k + off \<and> 4096 * k + off < i + 1024)"
proof -
  from assms(1) obtain j where "i = 1024 * j" ..
  then have "i mod 4096 = 1024 * (j mod 4)" using mult_mod_right [of 1024 j 4] by simp
  moreover have "j mod 4 < 4" by simp
  ultimately have le: "i mod 4096 + 1024 \<le> 4096" by linarith
  have i: "i = 4096 * (i div 4096) + i mod 4096" by simp
  show ?thesis
  proof
    assume a: "i \<le> 4096 * k + off \<and> 4096 * k + off < i + 1024"
    have "k = i div 4096" using a i le assms(2) by linarith
    then show "k = i div 4096 \<and> i mod 4096 \<le> off \<and> off < i mod 4096 + 1024" using a i by linarith
  qed (use i in linarith)
qed

text \<open>The pieces start at multiples of 1024, so that the byte written is always 0.\<close>

lemma write_pmem_dat:
  assumes "1024 dvd i" "1024 dvd n" "off < 4096"
  shows "h_dat (write_pmem_loop pm n i s) (pm + 4096 * k) off =
    (if i \<le> 4096 * k + off \<and> 4096 * k + off < n then 0 else h_dat s (pm + 4096 * k) off)"
  using assms
proof (induction pm n i s rule: write_pmem_loop.induct)
  case (1 pm n i s)
  show ?case
  proof (cases "i < n")
    case False
    then show ?thesis by (subst write_pmem_loop.simps) auto
  next
    case True
    have "(256::nat) dvd i" using 1(2) dvd_trans [of 256 1024 i] by simp
    then have z: "(word_of_nat i :: byte) = 0" by (auto simp: word_of_nat_eq_0_iff)
    define s1 where "s1 = upd_dat (pm + PAGE_SIZE * (i div PAGE_SIZE)) (i mod PAGE_SIZE) 1024 (\<lambda>_. word_of_nat i) s"
    have s1: "h_dat s1 (pm + 4096 * k) off = (if i \<le> 4096 * k + off \<and> 4096 * k + off < i + 1024 then 0 else h_dat s (pm + 4096 * k) off)"
      unfolding chunk_in_page [OF 1(2,4), symmetric] s1_def h_dat_upd_dat by (simp add: z)
    have le: "i + 1024 \<le> n" using True 1(2,3) by (auto simp: dvd_def)
    have e: "write_pmem_loop pm n i s = write_pmem_loop pm n (i + 1024) s1"
      using True by (subst write_pmem_loop.simps) (simp add: s1_def)
    have "h_dat (write_pmem_loop pm n (i + 1024) s1) (pm + 4096 * k) off =
       (if i + 1024 \<le> 4096 * k + off \<and> 4096 * k + off < n then 0 else h_dat s1 (pm + 4096 * k) off)"
      unfolding s1_def by (rule 1(1) [OF True _ 1(3,4)]) (use 1(2) in simp)
    then show ?thesis unfolding e s1 using le by auto
  qed
qed

lemma new_root_spec:
  assumes wf: "tree_wf {} {} {} {} {} {} {} {} s" and it: "itable_ok (s_itable s)" "itable_map (s_itable s) = Map.empty"
    and h: "h_tii s = Map.empty" and top: "s_top_ino s = 2" and f: "f_ffree (s_statvfs s) = f_files (s_statvfs s)" "f_favail (s_statvfs s) = f_files (s_statvfs s)"
      "0 < f_files (s_statvfs s)" and free: "free_inodes (s_pool s) = []" "pool_pages (s_pool s) = p # ps"
  shows "\<exists>s'. new_root_inode (Some a) True s = Some (Inr a, s') \<and> inodes_ok {} {} {p} {} s' \<and> ii_inv (s'\<lparr>s_root := Some a\<rparr>) \<and>
    h_tii s' = [a \<mapsto> (new_info p 1)\<lparr>tii_ref := 0, tii_mapped := False\<rparr>] \<and> dir_map s' p = Map.empty \<and> zi_isdir (h_inode s' p) \<and>
    i_nlink (h_inode s' p) = 2 \<and> i_ino (h_inode s' p) = 1 \<and> h_dat s' = h_dat s \<and> f_bfree (s_statvfs s') = f_bfree (s_statvfs s) \<and>
    f_ffree (s_statvfs s') = f_ffree (s_statvfs s) - 1 \<and> itable_map (s_itable s') = [1 \<mapsto> \<lparr>tir_tii = Some a, tir_ti = Some p, tir_ino = 1\<rparr>]"
proof -
  obtain s1 where al: "toyfs_alloc_ii (Some a) s = (Some a, s1)" using f by (simp add: toyfs_alloc_ii_def)
  note A = alloc_ii_SomeD [OF al]
  have w1: "tree_wf {} {} {} {} {} {} {} {} s1" using same_tree_wf(1) [OF same_tree_alloc [OF al]] wf by simp
  obtain pool where pop: "pool_pop_inode (s_pool s1) = (Some p, pool)"
    using free A(7) by (simp add: pool_defs fold_free toyfs_inodes_per_page_def upt_nonempty_Cons del: upt_Suc)
  define s2 where "s2 = s1\<lparr>s_pool := pool\<rparr>"
  have aq: "toyfs_acquire_inode s1 = (Some p, s2)" using pop by (simp add: toyfs_acquire_inode_def s2_def)
  note w2 = wf_acquire_inode [OF w1 aq]
  define ti where "ti = zero_inode\<lparr>i_ino := 1, i_mode := 0x1ED OR S_IFDIR, i_nlink := 2\<rparr>"
  define s3 where "s3 = upd_inode p (\<lambda>_. ti) s2"
  have w3: "tree_wf {} {} {} {p} {} {} {p} {} s3" "dir_map s3 p = Map.empty"
  proof -
    have "tree_wf {} {} {} {p} {} {} {} {} s3" unfolding s3_def by (rule wf_upd_outside) (use w2(1) in auto)
    from wf_add_dir [OF this] show "tree_wf {} {} {} {p} {} {} {p} {} s3" "dir_map s3 p = Map.empty"
      by (simp_all add: s3_def ti_def zero_inode_def)
  qed
  define ii where "ii = (new_info p 1)\<lparr>tii_ref := 0, tii_mapped := False\<rparr>"
  have none: "itable_map (s_itable s) (tii_ino ii) = None" using it(2) by simp
  obtain t where t: "itable_insert True a ii (s_itable s) = Some t" by (simp add: insert_Some)
  note T = insert_ok [OF it(1) none t]
  define s' where "s' = s3\<lparr>h_tii := [a \<mapsto> ii], s_itable := t\<rparr>"
  have "new_root_inode (Some a) True s = Some (Inr a, s')"
    using al pop t h A(3,4) by (simp add: new_root_inode_def Let_def s'_def s3_def s2_def upd_inode_def upd_tii_def ii_def new_info_def
        ti_def zero_inode_def)
  moreover have st: "same_tree s3 s'" by (simp add: same_tree_def s'_def)
  have "inodes_ok {} {} {p} {} s'" by (rule inodes_okI) (use same_tree_wf(1) [OF st] w3(1) in blast)
  moreover have "dir_map s' p = Map.empty" using same_tree_wf(2) [OF st, of "{}" "{p}"] w3(2) by (simp add: undisturbed_def)
  moreover have hp: "h_inode s' p = ti" "h_dat s' = h_dat s" by (simp_all add: s'_def s3_def s2_def A)
  moreover have "zi_isdir ti" by (simp add: ti_def zi_isdir_def s_istype_def)
  moreover have m: "itable_map t = [1 \<mapsto> \<lparr>tir_tii = Some a, tir_ti = Some p, tir_ino = 1\<rparr>]"
    using T(2) it(2) by (simp add: ii_def new_info_def)
  moreover have st': "s_itable s' = t" "h_tii s' = [a \<mapsto> ii]" "s_statvfs s' = s_statvfs s1" "s_top_ino s' = 2"
    by (simp_all add: s'_def s3_def s2_def A top upd_inode_def)
  moreover have "ii_inv (s'\<lparr>s_root := Some a\<rparr>)"
    by (rule ii_invI) (use T(1) m st' A f in \<open>auto simp: good_ii_def ii_def new_info_def split: if_splits\<close>)
  ultimately show ?thesis using A by (auto simp: ii_def ti_def)
qed

text \<open>The super block info between \<open>_pool_setup\<close>, \<open>_sbi_setup\<close> and the root inode.\<close>

lemma setup_state:
  assumes md: "md_ok (s_md s) m k" and k: "0 < k" and it: "itable_ok (s_itable s)" "itable_map (s_itable s) = Map.empty" and h: "h_tii s = Map.empty"
    and s3_def: "s3 = sbi_setup (s\<lparr>s_pool := pool_setup m (PAGE_SIZE * k) (pool_init P)\<rparr>)"
  shows "\<exists>s'. new_root_inode (Some a) True s3 = Some (Inr a, s') \<and> inodes_ok {} {} {m + PAGE_SIZE * (k - 1)} {} s' \<and>
    ii_inv (s'\<lparr>s_root := Some a\<rparr>) \<and> h_tii s' = [a \<mapsto> (new_info (m + PAGE_SIZE * (k - 1)) 1)\<lparr>tii_ref := 0, tii_mapped := False\<rparr>] \<and>
    dir_map s' (m + PAGE_SIZE * (k - 1)) = Map.empty \<and> zi_isdir (h_inode s' (m + PAGE_SIZE * (k - 1))) \<and>
    i_nlink (h_inode s' (m + PAGE_SIZE * (k - 1))) = 2 \<and> h_dat s' = h_dat s \<and> f_bfree (s_statvfs s') = k \<and> f_ffree (s_statvfs s') = k - 1 \<and>
    itable_map (s_itable s') = [1 \<mapsto> \<lparr>tir_tii = Some a, tir_ti = Some (m + PAGE_SIZE * (k - 1)), tir_ino = 1\<rparr>]"
proof -
  have flds: "f_files (s_statvfs s3) = k" "f_ffree (s_statvfs s3) = k" "f_favail (s_statvfs s3) = k" "f_bfree (s_statvfs s3) = k" "s_top_ino s3 = 2"
    "h_tii s3 = h_tii s" "s_itable s3 = s_itable s" "h_dat s3 = h_dat s" "free_inodes (s_pool s3) = []"
    by (simp_all add: s3_def sbi_setup_def pool_setup_def pool_init_def Let_def)
  obtain j where j: "k = Suc j" using k by (cases k) auto
  have pg: "pool_pages (s_pool s3) = (m + PAGE_SIZE * (k - 1)) # rev (map (\<lambda>c. m + PAGE_SIZE * c) [0..<j])"
    by (simp add: s3_def sbi_setup_def pool_setup_def Let_def fold_Cons_map_rev j)
  have "pool_inv {} {} {} {} s3" unfolding s3_def by (rule setup_pool_inv) (use md in simp)
  then have wf: "tree_wf {} {} {} {} {} {} {} {} s3" by (simp add: tree_wf_def blocks_inv_def dirs_ok_def)
  from new_root_spec [OF wf _ _ _ flds(5) _ _ _ flds(9) pg, of a] it h k flds show ?thesis by auto
qed

lemma sbi_init_spec:
  assumes al: "toyfs_sbi_alloc True s0 = Some s" and h: "h_tii s0 = Map.empty" and n: "n = md_t1_blocks (s_md s0)"
    and md: "md_ok (s_md s0) (md_baddr (s_md s0) 2) (n - 2)" and p2o: "\<And>b. md_p2o (s_md s0) b = PAGE_SIZE * b"
  shows "if n < 1024 \<or> md_magic (s_md s0) \<noteq> TOYFS_SUPER_MAGIC then sbi_init (Some a) True s = Some (Inl EINVAL, s)
    else \<exists>root s'. sbi_init (Some a) True s = Some (Inr (), s') \<and> s_root s' = Some a \<and> inodes_ok {} {} {root} {} s' \<and> ii_inv s' \<and>
      h_tii s' = [a \<mapsto> (new_info root 1)\<lparr>tii_ref := 0, tii_mapped := False\<rparr>] \<and> dir_map s' root = Map.empty \<and>
      zi_isdir (h_inode s' root) \<and> i_nlink (h_inode s' root) = 2 \<and> f_bfree (s_statvfs s') = n - 2 \<and> f_ffree (s_statvfs s') = n - 3 \<and>
      itable_map (s_itable s') 1 = Some \<lparr>tir_tii = Some a, tir_ti = Some root, tir_ino = 1\<rparr> \<and>
      (\<forall>k off. 2 \<le> k \<longrightarrow> k < n \<longrightarrow> off < PAGE_SIZE \<longrightarrow> h_dat s' (p_pmem_addr (s_md s0) + PAGE_SIZE * k) off = 0)"
proof -
  have s: "s_md s = s_md s0" "s_pool s = pool_init (s_pool s0)" "h_tii s = Map.empty" "s_itable s = itable_init (s_itable s0)"
    using al h by (auto simp: toyfs_sbi_alloc_def)
  show ?thesis
  proof (cases "n < 1024 \<or> md_magic (s_md s0) \<noteq> TOYFS_SUPER_MAGIC")
    case True
    then show ?thesis
      by (auto simp: sbi_init_def Let_def s n [symmetric] prepare_pmem_first_time_def read_pmem_sb_first_time_def)
  next
    case False
    then have big: "1024 \<le> n" and mg: "md_magic (s_md s0) = TOYFS_SUPER_MAGIC" by auto
    define s1 where "s1 = write_pmem_first_time s"
    have s1: "s1 = write_pmem_loop (p_pmem_addr (s_md s0)) (PAGE_SIZE * n) (2 * PAGE_SIZE) s"
      by (simp add: s1_def write_pmem_first_time_def Let_def s p2o n)
    obtain hd where hd: "s1 = s\<lparr>h_dat := hd\<rparr>" using write_pmem_frame s1 by metis
    have f1: "s_md s1 = s_md s0" "s_pool s1 = pool_init (s_pool s0)" "h_tii s1 = Map.empty" "s_itable s1 = itable_init (s_itable s0)"
      using s by (simp_all add: hd)
    have prep: "prepare_pmem_first_time s = (Inr (), s1)"
      using mg by (simp add: prepare_pmem_first_time_def read_pmem_sb_first_time_def s s1_def [symmetric] f1)
    have zero: "h_dat s1 (p_pmem_addr (s_md s0) + PAGE_SIZE * k) off = 0" if "2 \<le> k" "k < n" "off < PAGE_SIZE" for k off
    proof -
      have "PAGE_SIZE * k + PAGE_SIZE \<le> PAGE_SIZE * n" using that(2) by simp
      then have "2 * PAGE_SIZE \<le> PAGE_SIZE * k + off \<and> PAGE_SIZE * k + off < PAGE_SIZE * n" using that by linarith
      moreover have "1024 dvd 2 * PAGE_SIZE" "1024 dvd PAGE_SIZE * n" by (auto simp: dvd_def intro: exI [of _ "4 * n"])
      ultimately show ?thesis unfolding s1 using write_pmem_dat that(3) by simp
    qed
    have k: "0 < n - 2" "PAGE_SIZE * (n - 2) = md_p2o (s_md s0) (n - 2)" using big p2o by simp_all
    let ?root = "md_baddr (s_md s0) 2 + PAGE_SIZE * (n - 2 - 1)"
    from setup_state [of s1 "md_baddr (s_md s0) 2" "n - 2" _ "s_pool s0" a] md k(1) init_ok f1 obtain s4 where
      r: "new_root_inode (Some a) True (sbi_setup (s1\<lparr>s_pool := pool_setup (md_baddr (s_md s0) 2) (PAGE_SIZE * (n - 2)) (pool_init (s_pool s0))\<rparr>)) = Some (Inr a, s4)"
      "inodes_ok {} {} {?root} {} s4" "ii_inv (s4\<lparr>s_root := Some a\<rparr>)" "h_tii s4 = [a \<mapsto> (new_info ?root 1)\<lparr>tii_ref := 0, tii_mapped := False\<rparr>]"
      "dir_map s4 ?root = Map.empty" "zi_isdir (h_inode s4 ?root)" "i_nlink (h_inode s4 ?root) = 2" "h_dat s4 = h_dat s1"
      "f_bfree (s_statvfs s4) = n - 2" "f_ffree (s_statvfs s4) = n - 2 - 1"
      "itable_map (s_itable s4) = [1 \<mapsto> \<lparr>tir_tii = Some a, tir_ti = Some ?root, tir_ino = 1\<rparr>]"
      by auto
    define s' where "s' = s4\<lparr>s_root := Some a\<rparr>"
    have st: "same_tree s4 s'" by (simp add: s'_def same_tree_def)
    have "sbi_init (Some a) True s = Some (Inr (), s')"
      using big prep r(1) by (simp add: sbi_init_def Let_def s n [symmetric] f1 k(2) s'_def)
    moreover have "inodes_ok {} {} {?root} {} s'" using r(2) same_tree_wf(1) [OF st] by (simp add: inodes_ok_def)
    moreover have "dir_map s' ?root = Map.empty" using r(5) same_tree_wf(2) [OF st, of "{}" "{?root}"] by (simp add: undisturbed_def)
    moreover have "h_inode s' = h_inode s4" "h_dat s' = h_dat s1" "s_statvfs s' = s_statvfs s4" "s_root s' = Some a" "h_tii s' = h_tii s4" "s_itable s' = s_itable s4"
      by (simp_all add: s'_def r(8))
    ultimately have "sbi_init (Some a) True s = Some (Inr (), s') \<and> s_root s' = Some a \<and> inodes_ok {} {} {?root} {} s' \<and> ii_inv s' \<and>
      h_tii s' = [a \<mapsto> (new_info ?root 1)\<lparr>tii_ref := 0, tii_mapped := False\<rparr>] \<and> dir_map s' ?root = Map.empty \<and>
      zi_isdir (h_inode s' ?root) \<and> i_nlink (h_inode s' ?root) = 2 \<and> f_bfree (s_statvfs s') = n - 2 \<and> f_ffree (s_statvfs s') = n - 3 \<and>
      itable_map (s_itable s') 1 = Some \<lparr>tir_tii = Some a, tir_ti = Some ?root, tir_ino = 1\<rparr> \<and>
      (\<forall>k off. 2 \<le> k \<longrightarrow> k < n \<longrightarrow> off < PAGE_SIZE \<longrightarrow> h_dat s' (p_pmem_addr (s_md s0) + PAGE_SIZE * k) off = 0)"
      using r zero by (simp add: s'_def [symmetric])
    then show ?thesis using False by (simp only: if_False) blast
  qed
qed

section \<open>Operations on files, seen from the tree\<close>

lemma inodes_ok_alt:
  "inodes_ok X F G L s = (\<exists>N. fs_ok N X F s \<and> G \<subseteq> N \<and> L \<subseteq> N \<and> F \<inter> G = {} \<and> L \<inter> (F \<union> G) = {} \<and> dirs_ok X G s)"
  by (auto simp: inodes_ok_def tree_wf_def fs_ok_def)

text \<open>A step that is known to keep the files keeps the directories and the other inodes.\<close>

lemma file_step_tree:
  assumes ok: "inodes_ok X F G L s" and t: "t \<in> F"
    and st: "\<And>N. fs_ok N X F s \<Longrightarrow> fs_ok N X F s'" and o: "others_same X F t s s'"
  shows "inodes_ok X F G L s'" "\<And>g. g \<in> G \<Longrightarrow> dir_map s' g = dir_map s g \<and> h_inode s' g = h_inode s g"
proof -
  from ok obtain N where N: "fs_ok N X F s" "G \<subseteq> N" "L \<subseteq> N" "F \<inter> G = {}" "L \<inter> (F \<union> G) = {}" "dirs_ok X G s" by (auto simp: inodes_ok_alt)
  have i: "h_inode s' g = h_inode s g" if "g \<in> G" for g using o N(4) that by (auto simp: others_same_def)
  have p: "h_dat s' p = h_dat s p" if "g \<in> G" "p \<in> set (pages_of s g)" for g p
  proof -
    have "p \<in> X" using N(6) that by (auto simp: dirs_ok_def)
    with o show ?thesis by (simp add: others_same_def)
  qed
  have d: "dir_ok s' g = dir_ok s g" "dir_map s' g = dir_map s g" if "g \<in> G" for g
    using dir_cong(3,4) [of s' g s] i p that by auto
  have "dirs_ok X G s'" using N(6) d i by (simp add: dirs_ok_def)
  then show "inodes_ok X F G L s'" using N st by (auto simp: inodes_ok_alt)
  show "dir_map s' g = dir_map s g \<and> h_inode s' g = h_inode s g" if "g \<in> G" for g using d i that by simp
qed

section \<open>Deletion\<close>

lemma drop_range_frame:
  "drop_range_loop t pos xs s = Some s' \<Longrightarrow>
   (\<forall>u. u \<noteq> t \<longrightarrow> h_inode s' u = h_inode s u) \<and> i_xattr (h_inode s' t) = i_xattr (h_inode s t)"
proof (induction xs arbitrary: s)
  case (Cons x xs)
  show ?case
  proof (cases "ib_off (h_iblkref s x) \<ge> pos")
    case False
    with Cons show ?thesis by simp
  next
    case True
    with Cons.prems obtain s1 where s1: "drop_iblkref t x s = Some s1" "drop_range_loop t pos xs s1 = Some s'"
      by (auto simp: bind_eq_Some_conv)
    have de: "h_inode u' = h_inode u" if "decref_dblkref d u = Some u'" for d u u'
      using that by (auto simp: decref_dblkref_def free_dblkref_def Let_def split: if_splits)
    from s1(1) have "(\<forall>u. u \<noteq> t \<longrightarrow> h_inode s1 u = h_inode s u) \<and> i_xattr (h_inode s1 t) = i_xattr (h_inode s t)"
      by (auto simp: drop_iblkref_def free_iblkref_def bind_eq_Some_conv Let_def split: if_splits dest!: de)
    with Cons.IH [OF s1(2)] show ?thesis by simp
  qed
qed simp

text \<open>Truncation to length 0 gives all blocks of the file back.\<close>

lemma truncate_0_spec:
  assumes pool: "pool_inv D B I N s" and inv: "blocks_inv D B I N X F s" and t: "t \<in> F" and reg: "zi_isreg (h_inode s t)" and pos: "0 < i_size (h_inode s t) \<or> list_head (h_inode s t) = []"
  shows "\<exists>r s'. toyfs_truncate t 0 s = Some (r, s') \<and>
    (let L = list_head (h_inode s t); E = unshared s L
     in pool_inv (D - dpage s ` E) (B - E) (I - set L) N s' \<and> blocks_inv (D - dpage s ` E) (B - E) (I - set L) N X F s') \<and>
    others_same X F t s s' \<and> (\<forall>u. u \<noteq> t \<longrightarrow> h_inode s' u = h_inode s u) \<and> i_xattr (h_inode s' t) = i_xattr (h_inode s t)"
proof -
  have ok: "fs_ok N X F s" using pool inv by (auto simp: fs_ok_def)
  have nd: "\<not> zi_isdir (h_inode s t)" using reg zi_type_disjoint by blast
  let ?L = "list_head (h_inode s t)"
  have upd: "pool_inv D B I N (upd_inode t (\<lambda>zi. zi\<lparr>i_size := 0\<rparr>) u) = pool_inv D B I N u"
    "blocks_inv D B I N X F (upd_inode t (\<lambda>zi. zi\<lparr>i_size := 0\<rparr>) u) = blocks_inv D B I N X F u"
    "others_same X F t s u \<Longrightarrow> others_same X F t s (upd_inode t (\<lambda>zi. zi\<lparr>i_size := 0\<rparr>) u)" for D B I u
    using t by (simp_all add: others_same_upd)
  show ?thesis
  proof (cases "0 < i_size (h_inode s t)")
    case False
    with pos have "?L = []" "unshared s [] = {}" by (simp_all add: unshared_def)
    then show ?thesis using False reg nd pool inv upd
      by (intro exI [of _ "Inr ()"] exI [of _ "upd_inode t (\<lambda>zi. zi\<lparr>i_size := 0\<rparr>) s"]) (simp add: toyfs_truncate_def)
  next
    case True
    have off: "0 \<le> ib_off (h_iblkref s b)" if "b \<in> set ?L" for b
      using blocks_listD(2) [OF inv t] that by (auto simp: list_ok_def iblk_ok_def)
    obtain s1 where s1: "drop_range_loop t 0 ?L s = Some s1"
      "dropped N X F t (\<lambda>b. b \<in> set ?L \<and> ib_off (h_iblkref s b) \<ge> 0) s s1"
      using drop_range_loop_spec [OF t ok, of ?L 0] sorted_wrt_map_less_distinct [OF blocks_listD(3) [OF inv t]] by blast
    have z: "zero_after t (cast_loff 0) s1 = Some (Inr (), s1)" by (simp add: zero_after_def cast_loff_def cast_size_def)
    have dr: "drop_range t (cast_loff 0) s = Some s1"
      using s1(1) by (simp add: drop_range_def cast_loff_def cast_size_def toyfs_iblkrefs_list_of_def Let_def)
    have "toyfs_truncate t 0 s = Some (Inr (), upd_inode t (\<lambda>zi. zi\<lparr>i_size := 0\<rparr>) s1)"
      using True reg nd dr z by (simp add: toyfs_truncate_def)
    moreover note drop_all_sets [OF t pool inv subset_refl sorted_wrt_map_less_distinct [OF blocks_listD(3) [OF inv t]] off s1(1)]
    ultimately show ?thesis using s1(2) drop_range_frame [OF s1(1)] upd
      by (intro exI [of _ "Inr ()"] exI [of _ "upd_inode t (\<lambda>zi. zi\<lparr>i_size := 0\<rparr>) s1"]) (simp add: dropped_def Let_def)
  qed
qed

lemma wf_drop:
  assumes wf: "tree_wf D B I N X F G L s"
  shows "tree_wf D B I N X (F - {t}) (G - {t}) (L - {t}) s"
  by (rule wf_change [OF wf]) (use wf in \<open>auto simp: tree_wf_def blocks_inv_def dirs_ok_def\<close>)

text \<open>The pages that \<open>toyfs_free_inode\<close> releases besides blocks and directory pages.\<close>

definition xattr_pages :: "toyfs_sb_info \<Rightarrow> addr \<Rightarrow> addr set" where
  "xattr_pages s t = (if has_xattr t s then {toyfs_bn2pmemb s (i_xattr (h_inode s t))} else {})"

definition link_pages :: "toyfs_sb_info \<Rightarrow> addr \<Rightarrow> addr set" where
  "link_pages s t = (if zi_islnk (h_inode s t) \<and> 32 < i_size (h_inode s t) then {toyfs_dpp2pmemb s (i_sym_dpp (h_inode s t))} else {})"

lemma undisturbed_upd_outside:
  assumes wf: "tree_wf D B I N X F G L s" and t: "t \<notin> F \<union> G"
  shows "undisturbed F G s (upd_inode t f s)"
  by (rule undisturbed_wf [OF wf]) (use t in auto)

lemma undisturbed_release_page:
  assumes wf: "tree_wf D B I N X F G L s"
  shows "undisturbed F G s (toyfs_release_pmemb p s)"
  by (rule undisturbed_wf [OF wf]) auto

lemma free_finish:
  assumes wf: "tree_wf D B I N X F G L s" and t: "t \<in> N" "t \<notin> F \<union> G" and x: "xattr_pages s t \<subseteq> X" "\<And>g. g \<in> G \<Longrightarrow> xattr_pages s t \<inter> set (pages_of s g) = {}"
  shows "tree_wf (D - xattr_pages s t) B I (N - {t}) (X - xattr_pages s t) F G (L - {t}) (toyfs_release_inode t (toyfs_drop_xattr t s))"
    "undisturbed F G s (toyfs_release_inode t (toyfs_drop_xattr t s))"
proof -
  have r: "tree_wf E B I (N - {t}) Y F G (L - {t}) (toyfs_release_inode t u)" "undisturbed F G u (toyfs_release_inode t u)" if w: "tree_wf E B I N Y F G L u" for E Y u
  proof -
    show "tree_wf E B I (N - {t}) Y F G (L - {t}) (toyfs_release_inode t u)"
      using wf_release_inode [OF w t(1)] t(2) by simp
    show "undisturbed F G u (toyfs_release_inode t u)" by (rule undisturbed_wf [OF w]) (use t in auto)
  qed
  have "tree_wf (D - xattr_pages s t) B I (N - {t}) (X - xattr_pages s t) F G (L - {t}) (toyfs_release_inode t (toyfs_drop_xattr t s)) \<and>
    undisturbed F G s (toyfs_release_inode t (toyfs_drop_xattr t s))"
  proof (cases "has_xattr t s")
    case False
    then show ?thesis using r [OF wf] by (simp add: toyfs_drop_xattr_def xattr_pages_def)
  next
    case True
    define p where "p = toyfs_bn2pmemb s (i_xattr (h_inode s t))"
    define u where "u = upd_inode t (\<lambda>zi. zi\<lparr>i_xattr := 0\<rparr>) (toyfs_release_pmemb p s)"
    have xp: "xattr_pages s t = {p}" using True by (simp add: xattr_pages_def p_def)
    have w1: "tree_wf (D - {p}) B I N (X - {p}) F G L (toyfs_release_pmemb p s)" by (rule wf_release_page [OF wf]) (use x xp in auto)
    have w: "tree_wf (D - {p}) B I N (X - {p}) F G L u" unfolding u_def by (rule wf_upd_outside [OF w1 t(2)])
    have "undisturbed F G s u"
      using undisturbed_release_page [OF wf] undisturbed_upd_outside [OF w1 t(2)] undisturbed_trans unfolding u_def by blast
    moreover have "toyfs_drop_xattr t s = u" using True by (simp add: toyfs_drop_xattr_def Let_def p_def u_def)
    ultimately show ?thesis using r [OF w] undisturbed_trans unfolding xp by metis
  qed
  then show "tree_wf (D - xattr_pages s t) B I (N - {t}) (X - xattr_pages s t) F G (L - {t}) (toyfs_release_inode t (toyfs_drop_xattr t s))"
    "undisturbed F G s (toyfs_release_inode t (toyfs_drop_xattr t s))" by simp_all
qed

lemma release_dir_loop_wf:
  "\<lbrakk>tree_wf D B I N X F G L s; t \<in> N; t \<notin> F \<union> G; distinct xs; set xs \<subseteq> X; \<And>g. g \<in> G \<Longrightarrow> set xs \<inter> set (pages_of s g) = {};
    i_blocks (h_inode s t) = length xs\<rbrakk> \<Longrightarrow>
   \<exists>s'. release_dir_loop t xs s = Some s' \<and> tree_wf (D - set xs) B I N (X - set xs) F G L s' \<and> undisturbed F G s s' \<and>
     i_blocks (h_inode s' t) = 0 \<and> i_xattr (h_inode s' t) = i_xattr (h_inode s t) \<and> s_md s' = s_md s"
proof (induction xs arbitrary: D X s)
  case Nil
  then show ?case by (simp add: undisturbed_def)
next
  case (Cons x xs)
  define s1 where "s1 = upd_inode t (\<lambda>zi. zi\<lparr>list_head := remove1 x (list_head zi)\<rparr>) s"
  define s2 where "s2 = toyfs_release_pmemb x s1"
  define s3 where "s3 = upd_inode t (\<lambda>zi. zi\<lparr>i_blocks := i_blocks zi - 1\<rparr>) s2"
  have w1: "tree_wf D B I N X F G L s1" unfolding s1_def by (rule wf_upd_outside [OF Cons.prems(1,3)])
  have pg: "pages_of s1 g = pages_of s g" "pages_of s3 g = pages_of s g" if "g \<in> G" for g
    using that Cons.prems(3) by (auto simp: s1_def s2_def s3_def)
  have w2: "tree_wf (D - {x}) B I N (X - {x}) F G L s2"
    unfolding s2_def by (rule wf_release_page [OF w1]) (use Cons.prems(5,6) pg in auto)
  have w3: "tree_wf (D - {x}) B I N (X - {x}) F G L s3" unfolding s3_def by (rule wf_upd_outside [OF w2 Cons.prems(3)])
  have u: "undisturbed F G s s3"
  proof (rule undisturbed_trans [OF _ undisturbed_trans])
    show "undisturbed F G s s1" unfolding s1_def by (rule undisturbed_upd_outside [OF Cons.prems(1,3)])
    show "undisturbed F G s1 s2" unfolding s2_def by (rule undisturbed_release_page [OF w1])
    show "undisturbed F G s2 s3" unfolding s3_def by (rule undisturbed_upd_outside [OF w2 Cons.prems(3)])
  qed
  have eq: "D - {x} - set xs = D - set (x # xs)" "X - {x} - set xs = X - set (x # xs)" by auto
  have "\<exists>s'. release_dir_loop t xs s3 = Some s' \<and> tree_wf (D - {x} - set xs) B I N (X - {x} - set xs) F G L s' \<and> undisturbed F G s3 s' \<and>
     i_blocks (h_inode s' t) = 0 \<and> i_xattr (h_inode s' t) = i_xattr (h_inode s3 t) \<and> s_md s' = s_md s3"
  proof (rule Cons.IH [OF w3 Cons.prems(2,3)])
    show "distinct xs" "set xs \<subseteq> X - {x}" using Cons.prems(4,5) by auto
    show "set xs \<inter> set (pages_of s3 g) = {}" if "g \<in> G" for g using Cons.prems(6) [OF that] pg(2) [OF that] by simp
    show "i_blocks (h_inode s3 t) = length xs" using Cons.prems(7) by (simp add: s1_def s2_def s3_def)
  qed
  then obtain s' where s': "release_dir_loop t xs s3 = Some s'" "tree_wf (D - set (x # xs)) B I N (X - set (x # xs)) F G L s'" "undisturbed F G s3 s'"
     "i_blocks (h_inode s' t) = 0" "i_xattr (h_inode s' t) = i_xattr (h_inode s3 t)" "s_md s' = s_md s3" unfolding eq by blast
  have "release_dir_loop t (x # xs) s = Some s'"
    using Cons.prems(7) s'(1) by (simp add: s1_def s2_def s3_def Let_def)
  moreover have "i_xattr (h_inode s3 t) = i_xattr (h_inode s t)" "s_md s3 = s_md s" by (simp_all add: s1_def s2_def s3_def)
  ultimately show ?case using undisturbed_trans [OF u s'(3)] s'(2,4-6) by (intro exI [of _ s']) simp
qed

text \<open>What the inode \<open>t\<close> holds has to be its own.\<close>

definition owns :: "addr set \<Rightarrow> addr set \<Rightarrow> toyfs_sb_info \<Rightarrow> addr \<Rightarrow> bool" where
  "owns X G s t =
    (xattr_pages s t \<union> link_pages s t \<subseteq> X \<and> xattr_pages s t \<inter> link_pages s t = {} \<and>
     (\<forall>g\<in>G. (xattr_pages s t \<union> link_pages s t) \<inter> set (pages_of s g) = {}))"

definition held :: "addr set \<Rightarrow> toyfs_sb_info \<Rightarrow> addr \<Rightarrow> addr set" where
  "held G s t = xattr_pages s t \<union> link_pages s t \<union> (if t \<in> G then set (pages_of s t) else {})"

text \<open>The members of \<open>F\<close>, \<open>G\<close> and \<open>L\<close> have the right types; a directory that is deleted is empty.\<close>

definition deletable :: "addr set \<Rightarrow> addr set \<Rightarrow> addr set \<Rightarrow> toyfs_sb_info \<Rightarrow> addr \<Rightarrow> bool" where
  "deletable F G L s t =
    (t \<in> F \<and> zi_isreg (h_inode s t) \<and> (0 < i_size (h_inode s t) \<or> list_head (h_inode s t) = []) \<or>
     t \<in> G \<and> zi_isdir (h_inode s t) \<and> i_size (h_inode s t) = 0 \<or>
     t \<in> L \<and> \<not> zi_isdir (h_inode s t) \<and> \<not> zi_isreg (h_inode s t))"

lemma free_inode_other:
  assumes wf: "tree_wf D B I N X F G L s" and t: "t \<in> L" "\<not> zi_isdir (h_inode s t)" "\<not> zi_isreg (h_inode s t)" and o: "owns X G s t"
    and a: "h_tii s a = Some ii" "tii_ti ii = Some t" "tii_zi ii = Some t"
  shows "\<exists>s'. toyfs_free_inode a s = Some s' \<and>
    tree_wf (D - held G s t) B I (N - {t}) (X - held G s t) F G (L - {t}) s' \<and> undisturbed F G s s'"
proof -
  have tn: "t \<in> N" "t \<notin> F \<union> G" using wf t(1) by (auto simp: tree_wf_def)
  have x: "xattr_pages s t \<subseteq> X" "\<And>g. g \<in> G \<Longrightarrow> xattr_pages s t \<inter> set (pages_of s g) = {}" using o by (auto simp: owns_def)
  show ?thesis
  proof (cases "zi_islnk (h_inode s t)")
    case False
    define u where "u = upd_inode t (\<lambda>r. r\<lparr>i_rdev := 0\<rparr>) s"
    have w: "tree_wf D B I N X F G L u" unfolding u_def by (rule wf_upd_outside [OF wf tn(2)])
    have xu: "xattr_pages u t = xattr_pages s t" "pages_of u g = pages_of s g" for g
      by (simp_all add: u_def xattr_pages_def has_xattr_def toyfs_bn2pmemb_def toyfs_bn2addr_def)
    have "held G s t = xattr_pages s t" using False tn(2) by (simp add: held_def link_pages_def)
    moreover have "toyfs_free_inode a s = Some (toyfs_release_inode t (toyfs_drop_xattr t u))"
      using a t False by (simp add: toyfs_free_inode_def Let_def u_def)
    moreover have "undisturbed F G s u" unfolding u_def by (rule undisturbed_upd_outside [OF wf tn(2)])
    ultimately show ?thesis using free_finish [OF w tn] x xu undisturbed_trans by (metis (no_types, lifting))
  next
    case True
    define u where "u = toyfs_release_symlink t s"
    have "tree_wf (D - link_pages s t) B I N (X - link_pages s t) F G L u \<and> undisturbed F G s u"
    proof (cases "32 < i_size (h_inode s t)")
      case long: True
      define p where "p = toyfs_dpp2pmemb s (i_sym_dpp (h_inode s t))"
      have lp: "link_pages s t = {p}" using True long by (simp add: link_pages_def p_def)
      have w1: "tree_wf (D - {p}) B I N (X - {p}) F G L (toyfs_release_pmemb p s)" by (rule wf_release_page [OF wf]) (use o lp in \<open>auto simp: owns_def\<close>)
      have u: "u = upd_inode t (\<lambda>zi. zi\<lparr>i_size := 0, i_sym_dpp := 0\<rparr>) (toyfs_release_pmemb p s)"
        using long by (simp add: u_def toyfs_release_symlink_def Let_def p_def)
      show ?thesis unfolding u lp
        using wf_upd_outside [OF w1 tn(2)] undisturbed_trans [OF undisturbed_release_page [OF wf] undisturbed_upd_outside [OF w1 tn(2)]] by blast
    next
      case False
      then have u: "u = upd_inode t (\<lambda>zi. zi\<lparr>i_size := 0, i_sym_dpp := 0\<rparr>) s" and lp: "link_pages s t = {}"
        by (simp_all add: u_def toyfs_release_symlink_def Let_def link_pages_def)
      show ?thesis unfolding u lp using wf_upd_outside [OF wf tn(2)] undisturbed_upd_outside [OF wf tn(2)] by simp
    qed
    then have w: "tree_wf (D - link_pages s t) B I N (X - link_pages s t) F G L u" and ud: "undisturbed F G s u" by simp_all
    have xu: "xattr_pages u t = xattr_pages s t" "pages_of u g = pages_of s g" for g
      by (simp_all add: u_def toyfs_release_symlink_def Let_def xattr_pages_def has_xattr_def toyfs_bn2pmemb_def toyfs_bn2addr_def)
    have f: "toyfs_free_inode a s = Some (toyfs_release_inode t (toyfs_drop_xattr t u))"
      using a t True by (simp add: toyfs_free_inode_def Let_def u_def)
    have h: "Y - link_pages s t - xattr_pages u t = Y - held G s t" for Y using tn(2) xu by (auto simp: held_def)
    have xs: "xattr_pages u t \<subseteq> X - link_pages s t" using o xu(1) by (auto simp: owns_def)
    have xg: "xattr_pages u t \<inter> set (pages_of u g) = {}" if "g \<in> G" for g using x(2) [OF that] xu by simp
    show ?thesis
      using free_finish [OF w tn xs xg] undisturbed_trans [OF ud] f unfolding h by blast
  qed
qed

lemma free_inode_dir:
  assumes wf: "tree_wf D B I N X F G L s" and t: "t \<in> G" "zi_isdir (h_inode s t)" "i_size (h_inode s t) = 0" and o: "owns X G s t"
    and a: "h_tii s a = Some ii" "tii_ti ii = Some t" "tii_zi ii = Some t"
  shows "\<exists>s'. toyfs_free_inode a s = Some s' \<and>
    tree_wf (D - held G s t) B I (N - {t}) (X - held G s t) F (G - {t}) L s' \<and> undisturbed F (G - {t}) s s'"
proof -
  have tn: "t \<in> N" "t \<notin> F \<union> (G - {t})" "t \<notin> F" "t \<notin> L" using wf t(1) by (auto simp: tree_wf_def)
  have w0: "tree_wf D B I N X F (G - {t}) L s" using wf_drop [OF wf, of t] tn(3,4) by simp
  have d: "dir_ok s t" "set (pages_of s t) \<subseteq> X" "\<And>g. g \<in> G - {t} \<Longrightarrow> set (pages_of s t) \<inter> set (pages_of s g) = {}"
    using wf t(1) by (auto simp: tree_wf_def dirs_ok_def)
  have b: "i_blocks (h_inode s t) = length (pages_of s t)" "distinct (pages_of s t)" using d(1) by (simp_all add: dir_ok_def)
  from release_dir_loop_wf [OF w0 tn(1,2) b(2) d(2,3) b(1)] obtain s1 where
    s1: "release_dir_loop t (pages_of s t) s = Some s1" "tree_wf (D - set (pages_of s t)) B I N (X - set (pages_of s t)) F (G - {t}) L s1"
      "undisturbed F (G - {t}) s s1" "i_blocks (h_inode s1 t) = 0" "i_xattr (h_inode s1 t) = i_xattr (h_inode s t)" "s_md s1 = s_md s" by blast
  define u where "u = upd_inode t (\<lambda>r. r\<lparr>i_dir_parent := 0\<rparr>) s1"
  have w: "tree_wf (D - set (pages_of s t)) B I N (X - set (pages_of s t)) F (G - {t}) L u" unfolding u_def by (rule wf_upd_outside [OF s1(2) tn(2)])
  have ud: "undisturbed F (G - {t}) s u" unfolding u_def by (rule undisturbed_trans [OF s1(3) undisturbed_upd_outside [OF s1(2) tn(2)]])
  have f: "toyfs_free_inode a s = Some (toyfs_release_inode t (toyfs_drop_xattr t u))"
    using a t s1(1,4) by (simp add: toyfs_free_inode_def Let_def u_def toyfs_release_dir_def toyfs_childs_list_of_def)
  have xu: "xattr_pages u t = xattr_pages s t"
    by (simp add: u_def xattr_pages_def has_xattr_def s1(5,6) toyfs_bn2pmemb_def toyfs_bn2addr_def)
  have nl: "link_pages s t = {}" using t(2) zi_type_disjoint(2) by (auto simp: link_pages_def)
  have h: "Y - set (pages_of s t) - xattr_pages u t = Y - held G s t" for Y using t(1) xu nl by (auto simp: held_def)
  have xs: "xattr_pages u t \<subseteq> X - set (pages_of s t)" using o xu t(1) by (auto simp: owns_def)
  have xg: "xattr_pages u t \<inter> set (pages_of u g) = {}" if "g \<in> G - {t}" for g
    using o xu ud that by (auto simp: owns_def undisturbed_def)
  from free_finish [OF w tn(1,2) xs xg] undisturbed_trans [OF ud] f show ?thesis unfolding h using tn(4) by auto
qed

lemma free_inode_reg:
  assumes wf: "tree_wf D B I N X F G L s" and t: "t \<in> F" "zi_isreg (h_inode s t)" "0 < i_size (h_inode s t) \<or> list_head (h_inode s t) = []"
    and o: "owns X G s t" and a: "h_tii s a = Some ii" "tii_ti ii = Some t" "tii_zi ii = Some t"
  shows "\<exists>s'. toyfs_free_inode a s = Some s' \<and>
    (let L' = list_head (h_inode s t); E = unshared s L'
     in tree_wf (D - dpage s ` E - held G s t) (B - E) (I - set L') (N - {t}) (X - held G s t) (F - {t}) G L s') \<and> undisturbed (F - {t}) G s s'"
proof -
  have tn: "t \<in> N" "t \<notin> (F - {t}) \<union> G" "t \<notin> G" "t \<notin> L" using wf t(1) by (auto simp: tree_wf_def blocks_inv_def)
  have pool: "pool_inv D B I N s" and inv: "blocks_inv D B I N X F s" using wf by (simp_all add: tree_wf_def)
  define L' E where "L' = list_head (h_inode s t)" and "E = unshared s L'"
  from truncate_0_spec [OF pool inv t] obtain r u where
    u: "toyfs_truncate t 0 s = Some (r, u)" "pool_inv (D - dpage s ` E) (B - E) (I - set L') N u \<and> blocks_inv (D - dpage s ` E) (B - E) (I - set L') N X F u"
      "others_same X F t s u" "\<forall>v. v \<noteq> t \<longrightarrow> h_inode u v = h_inode s v"
      "i_xattr (h_inode u t) = i_xattr (h_inode s t)" unfolding E_def L'_def Let_def by blast
  have dg: "dirs_ok X G s" "F \<inter> G = {}" using wf by (simp_all add: tree_wf_def)
  have pgs: "pages_of u g = pages_of s g" "i_blocks (h_inode u g) = i_blocks (h_inode s g)" "i_size (h_inode u g) = i_size (h_inode s g)"
    "\<forall>p\<in>set (pages_of s g). h_dat u p = h_dat s p" if "g \<in> G" for g
  proof -
    have "g \<noteq> t" using that tn(3) by auto
    then have "h_inode u g = h_inode s g" using u(4) by simp
    then show "pages_of u g = pages_of s g" "i_blocks (h_inode u g) = i_blocks (h_inode s g)" "i_size (h_inode u g) = i_size (h_inode s g)" by simp_all
    show "\<forall>p\<in>set (pages_of s g). h_dat u p = h_dat s p" using u(3) dg(1) that by (simp add: others_same_def dirs_ok_def subset_iff)
  qed
  have dc: "dir_ok u g = dir_ok s g" "dir_map u g = dir_map s g" if "g \<in> G" for g
    using dir_cong(3,4) [of u g s] pgs [OF that] by simp_all
  have "dirs_ok X G u" using dg(1) dc pgs by (simp add: dirs_ok_def)
  with u(2) wf have "tree_wf (D - dpage s ` E) (B - E) (I - set L') N X F G L u" by (simp add: tree_wf_def)
  from wf_drop [OF this, of t] have w: "tree_wf (D - dpage s ` E) (B - E) (I - set L') N X (F - {t}) G L u" using tn(3,4) by simp
  have "h_inode u g = h_inode s g" if "g \<in> G" for g using u(4) tn(3) that by (cases "g = t") simp_all
  then have ud: "undisturbed (F - {t}) G s u" using u(3,4) dc by (auto simp: undisturbed_def others_same_def)
  have nt: "\<not> zi_isdir (h_inode s t)" "\<not> zi_islnk (h_inode s t)" using t(2) zi_type_disjoint by blast+
  have f: "toyfs_free_inode a s = Some (toyfs_release_inode t (toyfs_drop_xattr t u))"
    using a t(2) nt u(1) by (simp add: toyfs_free_inode_def Let_def)
  have md: "s_md u = s_md s" using u(3) by (simp add: others_same_def)
  have xu: "xattr_pages u t = xattr_pages s t"
    by (simp add: xattr_pages_def has_xattr_def u(5) md toyfs_bn2pmemb_def toyfs_bn2addr_def)
  have h: "Y - xattr_pages u t = Y - held G s t" for Y using tn(3) xu nt(2) by (simp add: held_def link_pages_def)
  have xs: "xattr_pages u t \<subseteq> X" using o xu by (auto simp: owns_def)
  have xg: "xattr_pages u t \<inter> set (pages_of u g) = {}" if "g \<in> G" for g
    using o xu pgs(1) [OF that] that by (auto simp: owns_def)
  from free_finish [OF w tn(1,2) xs xg] undisturbed_trans [OF ud] f show ?thesis unfolding h Let_def E_def L'_def using tn(4) by auto
qed

end
