(* ===== verification/InodeLife.thy ===== *)
theory InodeLife
  imports InodeTree
begin

text \<open>
  The life of an inode: the properties of mount, creation, \<open>iget\<close>, eviction and deletion that the lemmas of
  \<open>InodeOps\<close> and \<open>InodeTree\<close> give, each at the level of the operations that the kernel calls.
\<close>

section \<open>Mount\<close>

text \<open>A device of 1024 pages and the answer to a mount request, for the witnesses.\<close>

definition sample_zmi :: zufs_mount_info where
  "sample_zmi = \<lparr>zmi_zus_ii = None, zmi_s_blocksize_bits = 0, zmi_fs_caps = 0\<rparr>"

definition sample_sbi :: toyfs_sb_info where
  "sample_sbi = the (toyfs_sbi_alloc True sample_sb)"

lemma sample_sbi_alloc: "toyfs_sbi_alloc True sample_sb = Some sample_sbi"
  by (simp add: sample_sbi_def toyfs_sbi_alloc_def)

lemma sample_sb_flds [simp]: "s_md sample_sb = sample_md" "h_tii sample_sb = Map.empty" "md_t1_blocks sample_md = 1024"
  "md_baddr sample_md 2 = 8192" "md_p2o sample_md b = PAGE_SIZE * b" "md_magic sample_md = 0x5346314d" "p_pmem_addr sample_md = 0"
  by (simp_all add: sample_sb_def sample_md_def)

lemma sample_dev:
  "1024 = md_t1_blocks (s_md sample_sb)" "md_ok (s_md sample_sb) (md_baddr (s_md sample_sb) 2) (1024 - 2)"
  "md_p2o (s_md sample_sb) b = PAGE_SIZE * b"
  by (simp_all add: sample_md_ok)

text \<open>The two allocations of the mount: the info of the root, whose failure is an error, and its entry in the table, whose failure is an assertion.\<close>

lemma sbi_init_fails:
  assumes "sbi_init (Some a) True s = Some (Inr (), s')"
  shows "\<exists>t. sbi_init None tir_ok s = Some (Inl ENOMEM, t) \<and> s_root t = s_root s" "sbi_init (Some a) False s = None"
proof -
  obtain s1 where p: "prepare_pmem_first_time s = (Inr (), s1)" and big: "\<not> md_t1_blocks (s_md s) < 1024"
    using assms by (auto simp: sbi_init_def Let_def split: if_splits prod.splits sum.splits)
  have "s_root (write_pmem_loop x y z u) = s_root u" for x y z u
    by (induction x y z u rule: write_pmem_loop.induct) (subst write_pmem_loop.simps, simp add: upd_dat_def)
  then have r: "s_root s1 = s_root s"
    using p by (auto simp: prepare_pmem_first_time_def write_pmem_first_time_def Let_def split: sum.splits)
  define s3 where "s3 = sbi_setup (s1\<lparr>s_pool := pool_setup (md_baddr (s_md s1) 2) (md_p2o (s_md s1) (md_t1_blocks (s_md s) - 2)) (s_pool s1)\<rparr>)"
  have i: "sbi_init mem tir_ok s = do { (root, s4) \<leftarrow> new_root_inode mem tir_ok s3;
     (case root of Inl err \<Rightarrow> Some (Inl err, s4) | Inr root_tii \<Rightarrow> Some (Inr (), s4\<lparr>s_root := Some root_tii\<rparr>)) }" for mem tir_ok
    using big p by (simp add: sbi_init_def Let_def s3_def)
  have r3: "s_root s3 = s_root s" by (simp add: s3_def r sbi_setup_def Let_def)
  have n: "new_root_inode None tir_ok s3 = Some (Inl ENOMEM, s3)" by (simp add: new_root_inode_def toyfs_alloc_ii_def)
  show "\<exists>t. sbi_init None tir_ok s = Some (Inl ENOMEM, t) \<and> s_root t = s_root s" using r3 by (simp add: i n)
  from assms i [of "Some a" True] obtain x s4 where "new_root_inode (Some a) True s3 = Some (x, s4)"
    "(case x of Inl err \<Rightarrow> Some (Inl err, s4) | Inr root_tii \<Rightarrow> Some (Inr (), s4\<lparr>s_root := Some root_tii\<rparr>)) = Some (Inr (), s')"
    by (auto simp: bind_eq_Some_conv)
  then obtain rt where "new_root_inode (Some a) True s3 = Some (Inr rt, s4)" by (cases x) auto
  then have "new_root_inode (Some a) False s3 = None"
    by (auto simp: new_root_inode_def itable_insert_def toyfs_assert_def Let_def bind_eq_Some_conv split: prod.splits option.splits)
  then show "sbi_init (Some a) False s = None" by (simp add: i)
qed

text \<open>
  C19. Mount. On a super block info that \<open>toyfs_sbi_alloc\<close> has prepared, \<open>toyfs_sbi_init\<close> fails with \<open>EINVAL\<close> and without effect exactly when
  the device has less than 1024 blocks or the wrong magic number, and otherwise with \<open>ENOMEM\<close> when the info of the root cannot be allocated (\<open>mem\<close>), or it aborts when the entry of the
  table cannot be allocated (\<open>tir_ok\<close>). If all this is there, it returns a file system that
  consists of an empty root directory with number 1, all invariants hold, \<open>iget\<close> finds the root, and the count of free blocks has all blocks
  but the two of the super block. The contents of the device are gone: every byte behind the super block is zero, but for the page with the root inode and the first word of a
  page, which links the free pages.
\<close>

theorem toyfs_sbi_init_correct:
  assumes al: "toyfs_sbi_alloc True s0 = Some s" and h: "h_tii s0 = Map.empty" and n: "n = md_t1_blocks (s_md s0)"
    and md: "md_ok (s_md s0) (md_baddr (s_md s0) 2) (n - 2)" and p2o: "\<And>b. md_p2o (s_md s0) b = PAGE_SIZE * b"
  shows "if n < 1024 \<or> md_magic (s_md s0) \<noteq> 0x5346314d then toyfs_sbi_init acl_on mem tir_ok zmi s = Some (Inl EINVAL, zmi, s)
    else case mem of
      None \<Rightarrow> \<exists>s'. toyfs_sbi_init acl_on mem tir_ok zmi s = Some (Inl ENOMEM, zmi, s') \<and> s_root s' = None
    | Some a \<Rightarrow> if \<not> tir_ok then toyfs_sbi_init acl_on mem tir_ok zmi s = None
      else \<exists>zmi' s' root. toyfs_sbi_init acl_on mem tir_ok zmi s = Some (Inr (), zmi', s') \<and> zmi_zus_ii zmi' = Some a \<and> ii_inv s' \<and>
         inodes_ok {} {} {root} {} s' \<and> zii_inode s' (Some a) = Some root \<and> zi_isdir (h_inode s' root) \<and>
         i_nlink (h_inode s' root) = 2 \<and> dir_map s' root = Map.empty \<and>
         (\<exists>s''. toyfs_iget None 1 s' = Some (Inr a, s'')) \<and> f_bfree (s_statvfs s') = n - 2 \<and>
         (\<forall>k off. 2 \<le> k \<longrightarrow> k < n \<longrightarrow> 8 \<le> off \<longrightarrow> off < PAGE_SIZE \<longrightarrow> root div PAGE_SIZE \<noteq> (p_pmem_addr (s_md s0) + PAGE_SIZE * k) div PAGE_SIZE \<longrightarrow>
            h_dat s' (p_pmem_addr (s_md s0) + PAGE_SIZE * k) off = 0)"
proof (cases "n < 1024 \<or> md_magic (s_md s0) \<noteq> 0x5346314d")
  case True
  have "s_md s = s_md s0" using al by (auto simp: toyfs_sbi_alloc_def)
  then have "sbi_init mem tir_ok s = Some (Inl EINVAL, s)"
    using True by (auto simp: sbi_init_def Let_def n prepare_pmem_first_time_def read_pmem_sb_first_time_def)
  then show ?thesis using True by (simp add: toyfs_sbi_init_def)
next
  case False
  have "\<exists>root s'. sbi_init (Some a) True s = Some (Inr (), s') \<and> s_root s' = Some a \<and> inodes_ok {} {} {root} {} s' \<and> ii_inv s' \<and>
      h_tii s' = [a \<mapsto> (new_info root 1)\<lparr>tii_ref := 0, tii_mapped := False\<rparr>] \<and> dir_map s' root = Map.empty \<and>
      zi_isdir (h_inode s' root) \<and> i_nlink (h_inode s' root) = 2 \<and> f_bfree (s_statvfs s') = n - 2 \<and>
      (\<forall>k off. 2 \<le> k \<longrightarrow> k < n \<longrightarrow> off < PAGE_SIZE \<longrightarrow> h_dat s' (p_pmem_addr (s_md s0) + PAGE_SIZE * k) off = 0) \<and>
      itable_map (s_itable s') 1 = Some \<lparr>tir_tii = Some a, tir_ti = Some root, tir_ino = 1\<rparr>" for a
    using sbi_init_spec [OF al h n md p2o, of a] False by (simp only: if_False) blast
  then obtain root s' where i: "\<And>a. sbi_init (Some a) True s = Some (Inr (), s' a)" "\<And>a. s_root (s' a) = Some a" "\<And>a. inodes_ok {} {} {root a} {} (s' a)"
      "\<And>a. ii_inv (s' a)" "\<And>a. h_tii (s' a) = [a \<mapsto> (new_info (root a) 1)\<lparr>tii_ref := 0, tii_mapped := False\<rparr>]" "\<And>a. dir_map (s' a) (root a) = Map.empty"
      "\<And>a. zi_isdir (h_inode (s' a) (root a))" "\<And>a. i_nlink (h_inode (s' a) (root a)) = 2" "\<And>a. f_bfree (s_statvfs (s' a)) = n - 2"
      "\<And>a. \<forall>k off. 2 \<le> k \<longrightarrow> k < n \<longrightarrow> off < PAGE_SIZE \<longrightarrow> h_dat (s' a) (p_pmem_addr (s_md s0) + PAGE_SIZE * k) off = 0"
      "\<And>a. itable_map (s_itable (s' a)) 1 = Some \<lparr>tir_tii = Some a, tir_ti = Some (root a), tir_ino = 1\<rparr>" by metis
  have root: "s_root s = None" using al by (auto simp: toyfs_sbi_alloc_def)
  show ?thesis
  proof (cases mem)
    case None
    obtain u where "sbi_init None tir_ok s = Some (Inl ENOMEM, u)" "s_root u = None" using sbi_init_fails(1) [OF i(1)] root by metis
    then show ?thesis using False None by (simp add: toyfs_sbi_init_def)
  next
    case (Some a)
    show ?thesis
    proof (cases tir_ok)
      case True
      have z: "zii_inode (s' a) (Some a) = Some (root a)" using i(5) by (simp add: zii_inode_def toyfs_zii_to_tii_def new_info_def)
      have g: "\<exists>s''. toyfs_iget None 1 (s' a) = Some (Inr a, s'')" using iget_cached(1) [OF i(4,11)] by auto
      define zmi' where "zmi' = zmi\<lparr>zmi_zus_ii := Some a, zmi_s_blocksize_bits := 12, zmi_fs_caps := acl_on\<rparr>"
      have "toyfs_sbi_init acl_on mem tir_ok zmi s = Some (Inr (), zmi', s' a)" using i(1,2) Some True by (simp add: toyfs_sbi_init_def zmi'_def)
      moreover have "zmi_zus_ii zmi' = Some a" by (simp add: zmi'_def)
      ultimately show ?thesis using i(3,4,6-10) [of a] g z False Some True
        by (simp only: if_False option.case simp_thms) (intro exI [of _ zmi'] exI [of _ "s' a"] exI [of _ "root a"], simp)
    next
      case False
      then show ?thesis using \<open>\<not> (n < 1024 \<or> _)\<close> Some sbi_init_fails(2) [OF i(1)] by (simp add: toyfs_sbi_init_def)
    qed
  qed
qed

theorem toyfs_sbi_init_correct_witness:
  "(\<exists>zmi' s' root. toyfs_sbi_init 0 (Some 500) True sample_zmi sample_sbi = Some (Inr (), zmi', s') \<and> ii_inv s' \<and>
     inodes_ok {} {} {root} {} s' \<and> f_bfree (s_statvfs s') = 1022) \<and>
   (\<exists>s'. toyfs_sbi_init 0 None True sample_zmi sample_sbi = Some (Inl ENOMEM, sample_zmi, s'))"
proof (intro conjI)
  note W = toyfs_sbi_init_correct [OF sample_sbi_alloc sample_sb_flds(2) sample_dev, of 0 _ True sample_zmi]
  show "\<exists>zmi' s' root. toyfs_sbi_init 0 (Some 500) True sample_zmi sample_sbi = Some (Inr (), zmi', s') \<and> ii_inv s' \<and>
     inodes_ok {} {} {root} {} s' \<and> f_bfree (s_statvfs s') = 1022" using W [of "Some 500"] by (simp only: sample_sb_flds) force
  show "\<exists>s'. toyfs_sbi_init 0 None True sample_zmi sample_sbi = Some (Inl ENOMEM, sample_zmi, s')" using W [of None] by (simp only: sample_sb_flds) force
qed

text \<open>A mounted file system with a root directory, for the witnesses below.\<close>

definition sample_root :: toyfs_sb_info where
  "sample_root = (snd (the (new_root_inode (Some 500) True (sample_mount 8))))\<lparr>s_root := Some 500\<rparr>"

lemma sample_root_ok:
  "inodes_ok {} {} {36864} {} sample_root" "ii_inv sample_root" "s_root sample_root = Some 500"
  "h_tii sample_root = [500 \<mapsto> (new_info 36864 1)\<lparr>tii_ref := 0, tii_mapped := False\<rparr>]"
proof -
  have i: "itable_ok (s_itable sample_sb)" "itable_map (s_itable sample_sb) = Map.empty"
    by (simp_all add: sample_sb_def itable_ok_def itable_map_def fun_eq_iff)
  from setup_state [of sample_sb 8192 8 "sample_mount 8" "s_pool sample_sb" 500] i obtain s' where
    s': "new_root_inode (Some 500) True (sample_mount 8) = Some (Inr 500, s')" "inodes_ok {} {} {36864} {} s'" "ii_inv (s'\<lparr>s_root := Some 500\<rparr>)"
    "h_tii s' = [500 \<mapsto> (new_info 36864 1)\<lparr>tii_ref := 0, tii_mapped := False\<rparr>]"
    by (auto simp: sample_mount_def sample_md_ok)
  then have e: "sample_root = s'\<lparr>s_root := Some 500\<rparr>" by (simp add: sample_root_def)
  have "same_tree s' sample_root" by (simp add: e same_tree_def)
  then show "inodes_ok {} {} {36864} {} sample_root" using s'(2) same_tree_wf(1) by (simp add: inodes_ok_def)
  show "ii_inv sample_root" unfolding e by (rule s'(3))
  show "s_root sample_root = Some 500" "h_tii sample_root = [500 \<mapsto> (new_info 36864 1)\<lparr>tii_ref := 0, tii_mapped := False\<rparr>]"
    unfolding e using s'(4) by simp_all
qed

lemma sample_root_free:
  "f_ffree (s_statvfs sample_root) = 7" "fst (toyfs_acquire_inode sample_root) = Some 36992"
  "fst (toyfs_acquire_pmemb (snd (toyfs_acquire_inode sample_root))) = Some 32768" "s_top_ino sample_root = 2"
  by (simp_all add: sample_root_def new_root_inode_def sample_simps toyfs_alloc_ii_def pool_defs fold_free toyfs_inodes_per_page_def
      upt_conv_Cons itable_insert_def upd_inode_def upd_tii_def toyfs_acquire_inode_def toyfs_acquire_pmemb_def)

section \<open>Creation\<close>

text \<open>
  C16. Creation of an inode. The request names a live directory, the memory for the info is not in use, and \<open>calloc\<close> gives the entry of the table (otherwise
  an assertion stops the process). \<open>toyfs_new_inode\<close> never aborts. It fails only for lack of memory, inodes or
  pages, or for a type or a length that is not supported; then the invariants hold and the infos, the inode
  table and both free counts are as before. If it succeeds, the new info and the new entry of the table carry the next inode
  number, the new inode is none of those in use, it has the mode of the request, and by its type it is an
  empty directory under the parent, a file without data, a symbolic link that leads to the text of the request, or
  a special file. All other inodes, files and directories are unchanged.
\<close>

theorem toyfs_new_inode_correct:
  assumes ok: "inodes_ok X F G L s" and inv: "ii_inv s"
    and fresh: "\<And>a. mem = Some a \<Longrightarrow> h_tii s a = None \<and> s_root s \<noteq> Some a"
    and d: "new_dir_ii ioc = Some d" "h_tii s d = Some dii" "tii_op dii" "tii_valid dii" "tii_ti dii = Some g" "tii_zi dii = Some g" "g \<in> G"
    and zi: "i_blocks (new_zi ioc) = 0"
  shows "\<exists>r s'. toyfs_new_inode mem True app ioc s = Some (r, s') \<and> ii_inv s' \<and> undisturbed F G s s' \<and>
    (case r of
       None \<Rightarrow> inodes_ok X F G L s' \<and> h_tii s' = h_tii s \<and> s_itable s' = s_itable s \<and>
         f_ffree (s_statvfs s') = f_ffree (s_statvfs s) \<and> f_bfree (s_statvfs s') = f_bfree (s_statvfs s) \<and> refused mem ioc s
     | Some a \<Rightarrow> mem = Some a \<and> (\<exists>t. t \<notin> F \<union> G \<union> L \<and> h_tii s' = (h_tii s)(a \<mapsto> new_info t (s_top_ino s)) \<and>
         itable_map (s_itable s') = (itable_map (s_itable s))(s_top_ino s \<mapsto> tir_of (a, new_info t (s_top_ino s))) \<and>
         (\<forall>u. u \<noteq> t \<longrightarrow> h_inode s' u = h_inode s u) \<and> i_ino (h_inode s' t) = s_top_ino s \<and>
         i_mode (h_inode s' t) = i_mode (new_zi ioc) \<and> born ioc app g X F G L t s s'))"
proof -
  from ok obtain D B I N where wf: "tree_wf D B I N X F G L s" by (auto simp: inodes_ok_def)
  from new_inode_spec [OF wf inv fresh d zi, where app = app and mem = mem] obtain r s' where
    n: "toyfs_new_inode mem True app ioc s = Some (r, s')" "undisturbed F G s s'" and
    c: "case r of None \<Rightarrow> tree_wf D B I N X F G L s' \<and> f_bfree (s_statvfs s') = f_bfree (s_statvfs s) \<and> refused mem ioc s
     | Some a \<Rightarrow> (\<exists>t. t \<notin> F \<union> G \<union> L \<and> h_tii s' = (h_tii s)(a \<mapsto> new_info t (s_top_ino s)) \<and>
         itable_map (s_itable s') = (itable_map (s_itable s))(s_top_ino s \<mapsto> tir_of (a, new_info t (s_top_ino s))) \<and>
         (\<forall>u. u \<noteq> t \<longrightarrow> h_inode s' u = h_inode s u) \<and> i_ino (h_inode s' t) = s_top_ino s \<and>
         i_mode (h_inode s' t) = i_mode (new_zi ioc) \<and> born ioc app g X F G L t s s')" by blast
  have i1: "ii_inv s'" by (rule new_inode_ii(1) [OF inv _ n(1)]) (rule fresh)
  show ?thesis
  proof (cases r)
    case None
    with c have "inodes_ok X F G L s'" by (auto intro: inodes_okI)
    moreover have "h_tii s' = h_tii s \<and> s_itable s' = s_itable s \<and> f_ffree (s_statvfs s') = f_ffree (s_statvfs s)"
      by (rule new_inode_ii(2) [OF inv _ n(1) None]) (rule fresh)
    ultimately show ?thesis using None n c i1 by (intro exI [of _ r] exI [of _ s']) simp
  next
    case (Some a)
    have "mem = Some a" using new_inode_ii(3) [OF inv _ n(1) Some] fresh by blast
    then show ?thesis using n c i1 unfolding Some by (intro exI [of _ "Some a"] exI [of _ s']) (simp only: option.case simp_thms)
  qed
qed

definition sample_ioc :: "16 word \<Rightarrow> nat \<Rightarrow> zufs_ioc_new_inode" where
  "sample_ioc mode sz = \<lparr>new_dir_ii = Some 500, new_zi = zero_inode\<lparr>i_mode := mode, i_size := sz\<rparr>, new_tmpfile = False\<rparr>"

lemma sample_ioc_flds [simp]:
  "new_dir_ii (sample_ioc m n) = Some 500" "i_blocks (new_zi (sample_ioc m n)) = 0" "i_size (new_zi (sample_ioc m n)) = n"
  "i_mode (new_zi (sample_ioc m n)) = m" "i_nlink (new_zi (sample_ioc m n)) = 0" "i_xattr (new_zi (sample_ioc m n)) = 0"
  by (simp_all add: sample_ioc_def zero_inode_def)

theorem toyfs_new_inode_correct_witness:
  "\<exists>r s'. toyfs_new_inode (Some 600) True (\<lambda>_. 0) (sample_ioc 0x81A4 0) sample_root = Some (r, s') \<and> ii_inv s'"
proof -
  from toyfs_new_inode_correct [OF sample_root_ok(1,2), of "Some 600" "sample_ioc 0x81A4 0" 500
      "(new_info 36864 1)\<lparr>tii_ref := 0, tii_mapped := False\<rparr>" 36864 "\<lambda>_. 0"]
  show ?thesis by (auto simp: new_info_def sample_root_ok(3,4))
qed

text \<open>
  C21. Symbolic links. After the creation of a symbolic link of any length below a page, \<open>toyfs_get_symlink\<close> of
  the new info returns its text: the bytes of the request's inode for a text of less than 32 bytes, else the bytes
  at \<open>app_ptr\<close>.
\<close>

theorem toyfs_symlink_roundtrip:
  assumes ok: "inodes_ok X F G L s" and inv: "ii_inv s"
    and fresh: "\<And>a. mem = Some a \<Longrightarrow> h_tii s a = None \<and> s_root s \<noteq> Some a"
    and d: "new_dir_ii ioc = Some d" "h_tii s d = Some dii" "tii_op dii" "tii_valid dii" "tii_ti dii = Some g" "tii_zi dii = Some g" "g \<in> G"
    and zi: "i_blocks (new_zi ioc) = 0" "zi_islnk (new_zi ioc)"
    and n: "toyfs_new_inode mem True app ioc s = Some (Some a, s')"
  shows "\<exists>text. toyfs_get_symlink (Some a) s' = Some (Inr text) \<and>
    (\<forall>i<i_size (new_zi ioc). text i = (if i_size (new_zi ioc) < 32 then i_symlink (new_zi ioc) ! i else app i))"
proof -
  from ok obtain D B I N where wf: "tree_wf D B I N X F G L s" by (auto simp: inodes_ok_def)
  from new_inode_spec [OF wf inv fresh d zi(1), where app = app and mem = mem] n obtain t where
    t: "h_tii s' = (h_tii s)(a \<mapsto> new_info t (s_top_ino s))" "born ioc app g X F G L t s s'" by auto
  have "\<not> zi_isdir (new_zi ioc)" "\<not> zi_isreg (new_zi ioc)" using zi(2) zi_type_disjoint by blast+
  with t(2) zi(2) obtain str where "get_symlink t s' = Inr str"
    "\<forall>i<i_size (new_zi ioc). str i = (if i_size (new_zi ioc) < 32 then i_symlink (new_zi ioc) ! i else app i)"
    unfolding born_def Let_def by auto
  moreover have "zii_inode s' (Some a) = Some t" using t(1) by (simp add: zii_inode_def toyfs_zii_to_tii_def new_info_def)
  ultimately show ?thesis by (auto simp: toyfs_get_symlink_def)
qed


lemma root_frame:
  "toyfs_alloc_ii mem s = (m, s') \<Longrightarrow> s_root s' = s_root s" "new_inode_fail a s = Some (r, s') \<Longrightarrow> s_root s' = s_root s"
  "toyfs_i_track k a s = Some s' \<Longrightarrow> s_root s' = s_root s" "s_root (new_inode_mid a ti zi s) = s_root s" "s_root (upd_tii a f s) = s_root s"
  by (auto simp: toyfs_alloc_ii_def new_inode_fail_def toyfs_tii_free_def toyfs_i_track_def new_inode_mid_def upd_tii_def upd_inode_def
      bind_eq_Some_conv split: option.splits if_splits)

lemma new_inode_root:
  assumes n: "toyfs_new_inode mem k app ioc s = Some (r, s')"
  shows "s_root s' = s_root s"
proof -
  obtain m s1 where al: "toyfs_alloc_ii mem s = (m, s1)" by (cases "toyfs_alloc_ii mem s")
  obtain q s2 where ac: "toyfs_acquire_inode s1 = (q, s2)" by (cases "toyfs_acquire_inode s1")
  have 1: "s_root s1 = s_root s" "s_root s2 = s_root s" using root_frame(1) [OF al] same_ii_acquire_inode [OF ac] by (simp_all add: same_ii_def)
  show ?thesis using n 1(1) unfolding new_inode_eq
    by (cases m; cases q)
       (auto simp: al ac bind_eq_Some_conv 1 same_ii_def root_frame(4,5) split: if_splits dest!: root_frame(2,3) new_inode_type_same)
qed

lemma sample_link_ok:
  assumes "n < 4096"
  obtains t s' where "toyfs_new_inode (Some 600) True app (sample_ioc 0xA1FF n) sample_root = Some (Some 600, s')"
    "h_tii s' 600 = Some (new_info t 2)" "t \<noteq> 36864" "s_root s' = Some 500" "ii_inv s'"
    "i_mode (h_inode s' t) = 0xA1FF" "born (sample_ioc 0xA1FF n) app 36864 {} {} {36864} {} t sample_root s'"
    "undisturbed {} {36864} sample_root s'"
proof -
  let ?ioc = "sample_ioc 0xA1FF n"
  from sample_root_ok(1) obtain D B I N where wf: "tree_wf D B I N {} {} {36864} {} sample_root" by (auto simp: inodes_ok_def)
  have "\<not> refused (Some 600) ?ioc sample_root"
    using assms by (simp add: refused_def issupported_def sample_root_free zi_islnk_def s_istype_def)
  with new_inode_spec [OF wf sample_root_ok(2), of "Some 600" ?ioc 500 "(new_info 36864 1)\<lparr>tii_ref := 0, tii_mapped := False\<rparr>" 36864 app]
  obtain t s' where n: "toyfs_new_inode (Some 600) True app ?ioc sample_root = Some (Some 600, s')" and
    c: "h_tii s' 600 = Some (new_info t 2)" "t \<noteq> 36864" "i_mode (h_inode s' t) = 0xA1FF" "born ?ioc app 36864 {} {} {36864} {} t sample_root s'"
    "undisturbed {} {36864} sample_root s'"
    using new_inode_ii(3) [OF sample_root_ok(2), of "Some 600" app ?ioc] sample_root_free(4)
    by (auto simp: new_info_def sample_root_ok(3,4) split: option.splits)
  moreover have "s_root s' = Some 500" using new_inode_root [OF n] sample_root_ok(3) by simp
  moreover have "ii_inv s'" by (rule new_inode_ii(1) [OF sample_root_ok(2) _ n]) (simp add: sample_root_ok(3,4))
  ultimately show thesis by (intro that)
qed

theorem toyfs_symlink_roundtrip_witness:
  "\<exists>s' str. toyfs_new_inode (Some 600) True (\<lambda>i. word_of_nat i) (sample_ioc 0xA1FF 40) sample_root = Some (Some 600, s') \<and>
     toyfs_get_symlink (Some 600) s' = Some (Inr str) \<and> (\<forall>i<40. str i = word_of_nat i)"
proof -
  obtain t s' where n: "toyfs_new_inode (Some 600) True (\<lambda>i. word_of_nat i) (sample_ioc 0xA1FF 40) sample_root = Some (Some 600, s')"
    by (rule sample_link_ok [of 40]) simp
  from toyfs_symlink_roundtrip [OF sample_root_ok(1,2) _ _ _ _ _ _ _ _ _ _ n, of 500 "(new_info 36864 1)\<lparr>tii_ref := 0, tii_mapped := False\<rparr>" 36864] n
  show ?thesis by (auto simp: new_info_def sample_root_ok(3,4) zi_islnk_def s_istype_def)
qed

section \<open>Eviction\<close>
















text \<open>
  \<open>iget\<close> after eviction. The last reference to an inode that still has a name is given up, and the kernel asks for its
  number again. The entry of the table still knows the inode, but the new info does not: its inode pointers are \<open>NULL\<close>
  and its number is 0, so that every operation that needs the inode of the info fails.
\<close>

theorem iget_after_evict:
  assumes inv: "ii_inv s" and a: "h_tii s a = Some ii" "s_root s \<noteq> Some a" "tii_ti ii = Some ti"
    and one: "tii_ref ii = 1" "i_nlink (h_inode s ti) \<noteq> 0"
  shows "\<exists>s1 s2 ii2. toyfs_evict (Some a) s = Some s1 \<and> f_ffree (s_statvfs s1) = f_ffree (s_statvfs s) + 1 \<and>
    itable_map (s_itable s1) (tii_ino ii) = Some \<lparr>tir_tii = None, tir_ti = Some ti, tir_ino = tii_ino ii\<rparr> \<and>
    toyfs_iget (Some b) (tii_ino ii) s1 = Some (Inr b, s2) \<and> h_tii s2 b = Some ii2 \<and> tii_ino ii2 = 0 \<and> tii_ti ii2 = None \<and>
    tii_zi ii2 = None \<and> tii_ref ii2 = 1 \<and> zii_inode s2 (Some b) = None"
proof -
  from evict_linked [OF inv a one] obtain r s1 where
    s1: "itable_map (s_itable s) (tii_ino ii) = Some r" "tir_ti r = Some ti" "toyfs_evict (Some a) s = Some s1" "ii_inv s1"
      "itable_map (s_itable s1) = (itable_map (s_itable s))(tii_ino ii \<mapsto> r\<lparr>tir_tii := None\<rparr>)"
      "f_ffree (s_statvfs s1) = f_ffree (s_statvfs s) + 1" by (elim exE conjE) (rule that)
  have e: "itable_map (s_itable s1) (tii_ino ii) = Some \<lparr>tir_tii = None, tir_ti = Some ti, tir_ino = tii_ino ii\<rparr>"
    using s1(2,5) itable_map_ino [OF s1(1)] by (cases r) simp
  then obtain p where p: "itable_find (s_itable s1) (tii_ino ii) = Some p"
    using itable_find_None [of "s_itable s1" "tii_ino ii"] by (cases "itable_find (s_itable s1) (tii_ino ii)") simp_all
  have at: "tir_tii (tir_at (s_itable s1) p) = None" using itable_find_Some(3) [OF p] e by (metis option.inject toyfs_inode_ref.select_convs(1))
  have fr: "f_favail (s_statvfs s1) = f_ffree (s_statvfs s) + 1" using s1(6) ii_invD(9) [OF s1(4)] by simp
  show ?thesis using p at e s1(3,6) fr
    by (simp add: toyfs_iget_def toyfs_find_inode_ref_by_ino_def toyfs_alloc_ii_def upd_tii_def zii_inode_def toyfs_zii_to_tii_def)
qed


theorem iget_after_evict_witness:
  "\<exists>a s s1 s2. toyfs_evict (Some a) s = Some s1 \<and> toyfs_iget (Some 700) 2 s1 = Some (Inr 700, s2) \<and> zii_inode s (Some a) \<noteq> None \<and>
     zii_inode s2 (Some 700) = None"
proof -
  obtain t u where u: "h_tii u 600 = Some (new_info t 2)" "s_root u = Some 500" "ii_inv u"
    by (rule sample_link_ok [of 5 "\<lambda>_. 0"]) simp
  define s where "s = upd_inode t (\<lambda>zi. zi\<lparr>i_nlink := 1\<rparr>) u"
  have "same_ii u s" by (simp add: s_def)
  then have s: "ii_inv s" "h_tii s 600 = Some (new_info t 2)" "s_root s = Some 500"
    using ii_inv_cong [of u s] u by (simp_all add: same_ii_def)
  have n: "i_nlink (h_inode s t) \<noteq> 0" by (simp add: s_def upd_inode_def)
  have z: "zii_inode s (Some 600) = Some t" using s(2) by (simp add: zii_inode_def toyfs_zii_to_tii_def new_info_def)
  from iget_after_evict [OF s(1,2) _ _ _ n, of 700] s(3) obtain s1 s2 where
    "toyfs_evict (Some 600) s = Some s1" "toyfs_iget (Some 700) 2 s1 = Some (Inr 700, s2)" "zii_inode s2 (Some 700) = None"
    by (auto simp: new_info_def)
  with z show ?thesis by (intro exI [of _ 600] exI [of _ s] exI [of _ s1] exI [of _ s2]) simp
qed

section \<open>Unmount\<close>

text \<open>
  \<open>_itable_destroy\<close> fills the heads of the table with 0xff: \<open>junk\<close> stands for what would be found behind these addresses. The entries of
  the table are not released.
\<close>

definition itable_destroy :: "(nat \<Rightarrow> toyfs_inode_ref list) \<Rightarrow> toyfs_itable \<Rightarrow> toyfs_itable" where
  "itable_destroy junk itable = itable\<lparr>icount := 0, imap := junk\<rparr>"

definition toyfs_sbi_fini :: "(nat \<Rightarrow> toyfs_inode_ref list) \<Rightarrow> toyfs_sb_info \<Rightarrow> int \<times> toyfs_sb_info" where
  "toyfs_sbi_fini junk s = (0, s\<lparr>s_pool := pool_destroy (s_pool s), s_itable := itable_destroy junk (s_itable s), s_root := None\<rparr>)"

text \<open>
  A super block info that is allocated again after an unmount is as if it had never been used: whatever the table of the unmounted one holds, the mount
  behaves as the first one.
\<close>

theorem sbi_alloc_after_fini:
  assumes "toyfs_sbi_fini junk s = (r, s1)"
  shows "r = 0 \<and> s_root s1 = None \<and> pool_pages (s_pool s1) = [] \<and> toyfs_sbi_alloc ok s1 = toyfs_sbi_alloc ok s"
  using assms by (auto simp: toyfs_sbi_fini_def toyfs_sbi_alloc_def pool_destroy_def pool_init_def itable_destroy_def itable_init_def)

end
