(* ===== verification/Allocator.thy ===== *)
theory Allocator
  imports Prelude
begin

text \<open>
  The contract of an allocator, as the page allocator and the slab allocator have it: what a client may rely on after
  any sequence of allocations and releases. Each allocator proves the laws once for a single operation.
\<close>

text \<open>
  Sequences of requests. A state consists of the live objects with the sizes that were asked for, and the state of the
  allocator; \<open>e\<close> is what the environment answers to a request. Only live objects are released.
\<close>

inductive plays :: "('e \<Rightarrow> bool) \<Rightarrow> (nat \<Rightarrow> bool) \<Rightarrow> ('e \<Rightarrow> nat \<Rightarrow> 's \<Rightarrow> ('a option \<times> 's) run) \<Rightarrow> ('e \<Rightarrow> 'a \<Rightarrow> 's \<Rightarrow> 's run) \<Rightarrow>
    ('a \<rightharpoonup> nat) \<times> 's \<Rightarrow> ('a \<rightharpoonup> nat) \<times> 's \<Rightarrow> bool"
  for good valid alloc release where
  start: "plays good valid alloc release c c"
| got: "plays good valid alloc release c (M, s) \<Longrightarrow> good e \<Longrightarrow> valid n \<Longrightarrow> alloc e n s = Some (Some a, s') \<Longrightarrow>
    plays good valid alloc release c (M(a \<mapsto> n), s')"
| refused: "plays good valid alloc release c (M, s) \<Longrightarrow> good e \<Longrightarrow> valid n \<Longrightarrow> alloc e n s = Some (None, s') \<Longrightarrow>
    plays good valid alloc release c (M, s')"
| gone: "plays good valid alloc release c (M, s) \<Longrightarrow> good e \<Longrightarrow> M a = Some n \<Longrightarrow> release e a s = Some s' \<Longrightarrow>
    plays good valid alloc release c (M(a := None), s')"

locale object_allocator =
  fixes good :: "'e \<Rightarrow> bool" and valid :: "nat \<Rightarrow> bool"
    and alloc :: "'e \<Rightarrow> nat \<Rightarrow> 's \<Rightarrow> ('a option \<times> 's) run" and release :: "'e \<Rightarrow> 'a \<Rightarrow> 's \<Rightarrow> 's run"
    and inv :: "('a \<rightharpoonup> nat) \<Rightarrow> 's \<Rightarrow> bool" and extent :: "'s \<Rightarrow> 'a \<Rightarrow> nat \<Rightarrow> addr set" and bytes :: "'s \<Rightarrow> addr \<Rightarrow> byte"
  assumes alloc_law: "inv M s \<Longrightarrow> good e \<Longrightarrow> valid n \<Longrightarrow>
      \<exists>r s'. alloc e n s = Some (r, s') \<and> extent s' = extent s \<and> (\<forall>b m. M b = Some m \<longrightarrow> (\<forall>x\<in>extent s b m. bytes s' x = bytes s x)) \<and>
        (case r of None \<Rightarrow> inv M s' | Some a \<Rightarrow> M a = None \<and> inv (M(a \<mapsto> n)) s')"
    and release_law: "inv M s \<Longrightarrow> good e \<Longrightarrow> M a = Some n \<Longrightarrow>
      \<exists>s'. release e a s = Some s' \<and> extent s' = extent s \<and> inv (M(a := None)) s' \<and>
        (\<forall>b m. M b = Some m \<longrightarrow> b \<noteq> a \<longrightarrow> (\<forall>x\<in>extent s b m. bytes s' x = bytes s x))"
    and apart: "inv M s \<Longrightarrow> M a = Some n \<Longrightarrow> M b = Some m \<Longrightarrow> a \<noteq> b \<Longrightarrow> extent s a n \<inter> extent s b m = {}"
begin

lemma plays_inv:
  assumes "plays good valid alloc release c d" "inv (fst c) (snd c)"
  shows "inv (fst d) (snd d)"
  using assms
proof (induction rule: plays.induct)
  case (got c M s e n a s')
  then show ?case using alloc_law [of M s e n] by (auto simp: fun_upd_def)
next
  case (refused c M s e n s')
  then show ?case using alloc_law [of M s e n] by (auto simp: fun_upd_def)
next
  case (gone c M s e a n s')
  then show ?case using release_law [of M s e a n] by (auto simp: fun_upd_def)
qed simp

text \<open>A request never aborts, live objects never overlap, and an operation changes no byte of an object that stays live.\<close>

lemma plays_safe:
  assumes "plays good valid alloc release c (M, s)" "inv (fst c) (snd c)"
  shows "good e \<Longrightarrow> valid n \<Longrightarrow> \<exists>r s'. alloc e n s = Some (r, s') \<and> (\<forall>b m. M b = Some m \<longrightarrow> (\<forall>x\<in>extent s b m. bytes s' x = bytes s x)) \<and>
      (\<forall>a. r = Some a \<longrightarrow> (\<forall>b m. M b = Some m \<longrightarrow> extent s' a n \<inter> extent s b m = {}))"
    "good e \<Longrightarrow> M a = Some n \<Longrightarrow> \<exists>s'. release e a s = Some s' \<and>
      (\<forall>b m. M b = Some m \<longrightarrow> b \<noteq> a \<longrightarrow> (\<forall>x\<in>extent s b m. bytes s' x = bytes s x))"
    "M a = Some n \<Longrightarrow> M b = Some m \<Longrightarrow> a \<noteq> b \<Longrightarrow> extent s a n \<inter> extent s b m = {}"
proof -
  have i: "inv M s" using plays_inv [OF assms] by simp
  { assume g: "good e" "valid n"
    from alloc_law [OF i g] obtain r s' where
      r: "alloc e n s = Some (r, s')" "extent s' = extent s" "\<forall>b m. M b = Some m \<longrightarrow> (\<forall>x\<in>extent s b m. bytes s' x = bytes s x)"
        "case r of None \<Rightarrow> inv M s' | Some a \<Rightarrow> M a = None \<and> inv (M(a \<mapsto> n)) s'" by blast
    have "extent s' a n \<inter> extent s b m = {}" if "r = Some a" "M b = Some m" for a b m
      using apart [of "M(a \<mapsto> n)" s' a n b m] that r(2,4) by (cases "b = a") auto
    with r(1,3) show "\<exists>r s'. alloc e n s = Some (r, s') \<and> (\<forall>b m. M b = Some m \<longrightarrow> (\<forall>x\<in>extent s b m. bytes s' x = bytes s x)) \<and>
      (\<forall>a. r = Some a \<longrightarrow> (\<forall>b m. M b = Some m \<longrightarrow> extent s' a n \<inter> extent s b m = {}))" by blast }
  show "\<exists>s'. release e a s = Some s' \<and> (\<forall>b m. M b = Some m \<longrightarrow> b \<noteq> a \<longrightarrow> (\<forall>x\<in>extent s b m. bytes s' x = bytes s x))"
    if "good e" "M a = Some n" using release_law [OF i that] by blast
  show "extent s a n \<inter> extent s b m = {}" if "M a = Some n" "M b = Some m" "a \<noteq> b" by (rule apart [OF i that])
qed

end

end
