(* ===== verification/PageAlloc.thy ===== *)
theory PageAlloc
  imports ZusStd Allocator
begin

text \<open>
  The page allocator (\<open>pa.c\<close> and its inline functions in \<open>zus.h\<close>). Pages are handed out from a list of free pages
  that grows by chunks of 2 MB of page structures until \<open>PA_SIZE\<close> is reached; a page is reference counted and returns to the
  list with its last reference. The list is a HOL list (theory \<open>DList\<close> justifies this for \<open>a_list.h\<close>). The member \<open>sinfo\<close> of a
  page shares its memory with the list links, so it has a meaning only while the page is not in the list.
  What the operating system answers is the parameter \<open>pa_env\<close>.
\<close>

section \<open>Operations\<close>

text \<open>
  The super block info as far as the page allocator uses it: \<open>pa[POOL_NUM]\<close>, the page structures, the
  memory of the data pages, the global \<open>PA_SIZE\<close> and the address of the super block info itself.
\<close>

record zus_sb_info =
  sb_pa :: pa
  h_page :: "addr \<Rightarrow> pa_page"
  h_mem :: "addr \<Rightarrow> byte"
  g_pa_size :: nat
  sb_addr :: nat

text \<open>
  \<open>e_o2p\<close> and \<open>e_p2o\<close> stand for \<open>md_o2p\<close> and \<open>md_p2o\<close> of \<open>md.h\<close>, \<open>mlock_ok\<close> and \<open>punch_err\<close> for the results of
  the system calls, \<open>need_mlock\<close> for \<open>NEED_MLOCK\<close>.
\<close>

record pa_env =
  e_o2p :: "nat \<Rightarrow> nat"
  e_p2o :: "nat \<Rightarrow> nat"
  need_mlock :: bool
  mlock_ok :: bool
  punch_err :: "errno option"

definition pa_pages_at_a_time :: nat where
  "pa_pages_at_a_time = 2 ^ 21 div SIZEOF_PA_PAGE"

abbreviation (input) POOL_NUM :: "32 word" where "POOL_NUM \<equiv> 1"
abbreviation (input) PA_MAX_ORDER :: nat where "PA_MAX_ORDER \<equiv> 5"

definition upd_pa :: "(pa \<Rightarrow> pa) \<Rightarrow> zus_sb_info \<Rightarrow> zus_sb_info" where
  "upd_pa f s = s\<lparr>sb_pa := f (sb_pa s)\<rparr>"

definition upd_pg :: "addr \<Rightarrow> (pa_page \<Rightarrow> pa_page) \<Rightarrow> zus_sb_info \<Rightarrow> zus_sb_info" where
  "upd_pg page f s = s\<lparr>h_page := (h_page s)(page := f (h_page s page))\<rparr>"

definition fba_punch_hole :: "pa_env \<Rightarrow> nat \<Rightarrow> nat \<Rightarrow> zus_sb_info \<Rightarrow> unit result \<times> zus_sb_info" where
  "fba_punch_hole env index nump s =
    (case punch_err env of Some e \<Rightarrow> (Inl e, s)
     | None \<Rightarrow>
        let off = pa_data (sb_pa s) + e_p2o env index; len = e_p2o env nump
        in (Inr (), s\<lparr>h_mem := (\<lambda>x. if off \<le> x \<and> x < off + len then 0 else h_mem s x)\<rparr>))"

definition init_one_page :: "addr \<Rightarrow> zus_sb_info \<Rightarrow> zus_sb_info" where
  "init_one_page page s =
    (let s1 = upd_pa (\<lambda>p. p\<lparr>pa_head := pa_head p @ [page]\<rparr>) s;
         s2 = upd_pg page (\<lambda>pg. pa_set_page_zone pg POOL_NUM) s1
     in upd_pg page (\<lambda>pg. pg\<lparr>pg_owner := sb_addr s\<rparr>) s2)"

primrec init_pages :: "nat \<Rightarrow> addr \<Rightarrow> zus_sb_info \<Rightarrow> zus_sb_info" where
  "init_pages 0 page s = s"
| "init_pages (Suc n) page s = init_pages n (page + SIZEOF_PA_PAGE) (init_one_page page s)"

definition init_page_of_pages :: "zus_sb_info \<Rightarrow> unit result \<times> zus_sb_info" where
  "init_page_of_pages s =
    (let p = sb_pa s in
     if g_pa_size s < (pa_size p + pa_pages_at_a_time) * PAGE_SIZE then (Inl ENOMEM, s)
     else (Inr (), upd_pa (\<lambda>p. p\<lparr>pa_size := pa_size p + pa_pages_at_a_time\<rparr>)
                    (init_pages pa_pages_at_a_time (pa_pages p + pa_size p * SIZEOF_PA_PAGE) s)))"

definition alloc_one_page :: "addr \<Rightarrow> zus_sb_info \<Rightarrow> zus_sb_info" where
  "alloc_one_page page s =
    upd_pg page (\<lambda>pg. pg\<lparr>pg_refcount := 1\<rparr>) (upd_pa (\<lambda>p. p\<lparr>pa_head := remove1 page (pa_head p)\<rparr>) s)"

definition pa_is_free :: "zus_sb_info \<Rightarrow> addr \<Rightarrow> bool" where
  "pa_is_free s page = (pg_refcount (h_page s page) = 0)"

text \<open>The loop over the free list: the first page that starts an aligned run of free pages.\<close>

fun pa_scan :: "nat \<Rightarrow> zus_sb_info \<Rightarrow> addr list \<Rightarrow> addr option" where
  "pa_scan npages s [] = None"
| "pa_scan npages s (page # rest) =
    (let bn = pa_page_to_bn (sb_pa s) page in
     if bn mod npages \<noteq> 0 \<or> bn + npages - 1 > pa_size (sb_pa s) then pa_scan npages s rest
     else if list_all (\<lambda>i. pa_is_free s (page + i * SIZEOF_PA_PAGE)) [1..<npages] then Some page
     else pa_scan npages s rest)"

lemma init_pages_frame [simp]:
  "pa_pages (sb_pa (init_pages n page s)) = pa_pages (sb_pa s)" "pa_data (sb_pa (init_pages n page s)) = pa_data (sb_pa s)"
  "pa_size (sb_pa (init_pages n page s)) = pa_size (sb_pa s)" "g_pa_size (init_pages n page s) = g_pa_size s"
  "sb_addr (init_pages n page s) = sb_addr s" "h_mem (init_pages n page s) = h_mem s"
  by (induction n arbitrary: page s) (simp_all add: init_one_page_def upd_pa_def upd_pg_def Let_def)

lemma init_page_of_pages_measure:
  assumes "init_page_of_pages s = (Inr u, s1)"
  shows "g_pa_size s1 - pa_size (sb_pa s1) < g_pa_size s - pa_size (sb_pa s)"
proof -
  have n: "pa_pages_at_a_time = 32768" by (simp add: pa_pages_at_a_time_def)
  from assms have "(pa_size (sb_pa s) + 32768) * PAGE_SIZE \<le> g_pa_size s" "g_pa_size s1 = g_pa_size s"
    "pa_size (sb_pa s1) = pa_size (sb_pa s) + 32768"
    by (auto simp: init_page_of_pages_def Let_def n upd_pa_def split: if_splits)
  then show ?thesis by (simp add: diff_less_mono2)
qed

text \<open>The code from the label \<open>rescan\<close> on. Each further round starts with a larger allocator.\<close>

function pa_rescan :: "nat \<Rightarrow> zus_sb_info \<Rightarrow> addr option \<times> zus_sb_info" where
  "pa_rescan npages s =
    (case pa_scan npages s (pa_head (sb_pa s)) of
       Some page \<Rightarrow> (Some page, fold (\<lambda>i. alloc_one_page (page + i * SIZEOF_PA_PAGE)) [0..<npages] s)
     | None \<Rightarrow>
        (case init_page_of_pages s of
           (Inl err, s1) \<Rightarrow> (None, s1)
         | (Inr _, s1) \<Rightarrow> pa_rescan npages s1))"
  by pat_completeness auto

termination
  by (relation "measure (\<lambda>(_, s). g_pa_size s - pa_size (sb_pa s))") (auto dest: init_page_of_pages_measure [OF sym])

declare pa_rescan.simps [simp del]

definition pa_alloc_order :: "pa_env \<Rightarrow> nat \<Rightarrow> zus_sb_info \<Rightarrow> addr option \<times> zus_sb_info" where
  "pa_alloc_order env order s =
    (let npages = 2 ^ order in
     if PA_MAX_ORDER < order then (None, s)
     else
       let (page, s2) =
         (case (if pa_head (sb_pa s) = [] then init_page_of_pages s else (Inr (), s)) of
            (Inl err, s1) \<Rightarrow> (None, s1)
          | (Inr _, s1) \<Rightarrow> pa_rescan npages s1)
       in case page of None \<Rightarrow> (None, s2)
        | Some page \<Rightarrow>
           if need_mlock env \<and> \<not> mlock_ok env then
             let s3 = snd (fba_punch_hole env (pa_page_to_bn (sb_pa s2) page) npages s2)
             in (None, fold (\<lambda>i. upd_pa (\<lambda>p. p\<lparr>pa_head := (page + i * SIZEOF_PA_PAGE) # pa_head p\<rparr>)) [0..<npages] s3)
           else (Some page, s2))"

definition pa_alloc :: "pa_env \<Rightarrow> zus_sb_info \<Rightarrow> addr option \<times> zus_sb_info" where
  "pa_alloc env s = pa_alloc_order env 0 s"

text \<open>
  \<open>__pa_free\<close> finds the super block info through the owner of the page, whose three low bits are flags. A page of
  another super block info is outside the model.
\<close>

definition pa_free_page :: "pa_env \<Rightarrow> addr \<Rightarrow> zus_sb_info \<Rightarrow> zus_sb_info run" where
  "pa_free_page env page s = do {
     toyfs_assert (pg_owner (h_page s page) div 8 * 8 = sb_addr s);
     let s1 = snd (fba_punch_hole env (pa_page_to_bn (sb_pa s) page) 1 s);
     Some (upd_pa (\<lambda>p. p\<lparr>pa_head := page # pa_head p\<rparr>) s1) }"

definition pa_put_page :: "pa_env \<Rightarrow> addr \<Rightarrow> zus_sb_info \<Rightarrow> (bool \<times> zus_sb_info) run" where
  "pa_put_page env page s =
    (let (z, v) = atomic_dec_testzero (pg_refcount (h_page s page));
         s1 = upd_pg page (\<lambda>pg. pg\<lparr>pg_refcount := v\<rparr>) s
     in if z then do { s2 \<leftarrow> pa_free_page env page s1; Some (True, s2) } else Some (False, s1))"

definition pa_free :: "pa_env \<Rightarrow> addr \<Rightarrow> zus_sb_info \<Rightarrow> zus_sb_info run" where
  "pa_free env page s = do { (last, s1) \<leftarrow> pa_put_page env page s; Some s1 }"

text \<open>The count that \<open>pa_fini\<close> compares with the size: the number of pages that were not given back.\<close>

definition pa_leaks :: "zus_sb_info \<Rightarrow> nat" where
  "pa_leaks s = size_sub (pa_size (sb_pa s)) (length (pa_head (sb_pa s)))"


section \<open>The invariant\<close>

definition env_ok :: "pa_env \<Rightarrow> bool" where
  "env_ok env = ((\<forall>x. e_o2p env x = x div PAGE_SIZE) \<and> (\<forall>x. e_p2o env x = x * PAGE_SIZE))"

definition page_set :: "pa \<Rightarrow> addr set" where
  "page_set p = pa_bn_to_page p ` {..<pa_size p}"

text \<open>
  The list has no duplicates and holds pages of the allocator only, a page with reference count 0 is in it,
  all pages belong to the super block info, the structures that are not yet in use are zero, and the
  data do not exceed \<open>PA_SIZE\<close>.
\<close>

definition pa_ok :: "zus_sb_info \<Rightarrow> bool" where
  "pa_ok s =
    (distinct (pa_head (sb_pa s)) \<and> set (pa_head (sb_pa s)) \<subseteq> page_set (sb_pa s) \<and>
     (\<forall>page\<in>page_set (sb_pa s). pg_refcount (h_page s page) = 0 \<longrightarrow> page \<in> set (pa_head (sb_pa s))) \<and>
     (\<forall>page\<in>page_set (sb_pa s). pg_owner (h_page s page) = sb_addr s) \<and>
     (\<forall>bn\<ge>pa_size (sb_pa s). pg_refcount (h_page s (pa_bn_to_page (sb_pa s) bn)) = 0) \<and>
     sb_addr s mod 8 = 0 \<and> pa_pages_at_a_time dvd pa_size (sb_pa s) \<and> pa_size (sb_pa s) * PAGE_SIZE \<le> g_pa_size s)"

text \<open>What an operation keeps of the allocator as a whole: where it is, and its limits.\<close>

definition same_area :: "zus_sb_info \<Rightarrow> zus_sb_info \<Rightarrow> bool" where
  "same_area s s' =
    (pa_pages (sb_pa s') = pa_pages (sb_pa s) \<and> pa_data (sb_pa s') = pa_data (sb_pa s) \<and> g_pa_size s' = g_pa_size s \<and>
     sb_addr s' = sb_addr s \<and> pa_size (sb_pa s) \<le> pa_size (sb_pa s'))"

lemma same_area_refl [simp]: "same_area s s" by (simp add: same_area_def)

lemma same_area_trans: "same_area s s' \<Longrightarrow> same_area s' s'' \<Longrightarrow> same_area s s''" by (simp add: same_area_def)

lemma pa_okD:
  assumes "pa_ok s"
  shows "distinct (pa_head (sb_pa s))" "page \<in> set (pa_head (sb_pa s)) \<Longrightarrow> page \<in> page_set (sb_pa s)"
    "page \<in> page_set (sb_pa s) \<Longrightarrow> pg_refcount (h_page s page) = 0 \<Longrightarrow> page \<in> set (pa_head (sb_pa s))"
    "page \<in> page_set (sb_pa s) \<Longrightarrow> pg_owner (h_page s page) = sb_addr s"
    "pa_size (sb_pa s) \<le> bn \<Longrightarrow> pg_refcount (h_page s (pa_bn_to_page (sb_pa s) bn)) = 0"
    "sb_addr s mod 8 = 0" "pa_pages_at_a_time dvd pa_size (sb_pa s)" "pa_size (sb_pa s) * PAGE_SIZE \<le> g_pa_size s"
  using assms unfolding pa_ok_def by blast+

lemma bn_page [simp]: "pa_page_to_bn p (pa_bn_to_page p b) = b"
  by (simp add: pa_page_to_bn_def pa_bn_to_page_def)

lemma bn_to_page_inj [simp]: "pa_bn_to_page p b = pa_bn_to_page p c \<longleftrightarrow> b = c"
  by (simp add: pa_bn_to_page_def)

lemma in_page_set [simp]: "pa_bn_to_page p b \<in> page_set p \<longleftrightarrow> b < pa_size p"
  by (auto simp: page_set_def)

lemma page_setE:
  assumes "page \<in> page_set p"
  obtains b where "page = pa_bn_to_page p b" "b < pa_size p"
  using assms by (auto simp: page_set_def)

lemma bn_to_page_add: "pa_bn_to_page p b + i * SIZEOF_PA_PAGE = pa_bn_to_page p (b + i)"
  by (simp add: pa_bn_to_page_def algebra_simps)

lemma page_set_mono: "pa_pages q = pa_pages p \<Longrightarrow> pa_size p \<le> pa_size q \<Longrightarrow> page_set p \<subseteq> page_set q"
  by (auto simp: page_set_def pa_bn_to_page_def)

section \<open>Growth\<close>

lemma init_pages_all:
  "pa_head (sb_pa (init_pages n (pa_bn_to_page p b) s)) = pa_head (sb_pa s) @ map (pa_bn_to_page p) [b..<b + n] \<and>
   (\<forall>page. h_page (init_pages n (pa_bn_to_page p b) s) page =
    (if page \<in> pa_bn_to_page p ` {b..<b + n} then (pa_set_page_zone (h_page s page) POOL_NUM)\<lparr>pg_owner := sb_addr s\<rparr> else h_page s page))"
proof (induction n arbitrary: b s)
  case 0
  show ?case by simp
next
  case (Suc n)
  let ?s = "init_one_page (pa_bn_to_page p b) s"
  have nx: "pa_bn_to_page p b + SIZEOF_PA_PAGE = pa_bn_to_page p (Suc b)" using bn_to_page_add [of p b 1] by simp
  have h: "pa_head (sb_pa ?s) = pa_head (sb_pa s) @ [pa_bn_to_page p b]" "sb_addr ?s = sb_addr s"
    "h_page ?s = (h_page s)(pa_bn_to_page p b := (pa_set_page_zone (h_page s (pa_bn_to_page p b)) POOL_NUM)\<lparr>pg_owner := sb_addr s\<rparr>)"
    by (simp_all add: init_one_page_def upd_pa_def upd_pg_def Let_def)
  have u: "[b..<b + Suc n] = b # [Suc b..<Suc b + n]" by (simp add: upt_conv_Cons)
  have e: "{b..<b + Suc n} = insert b {Suc b..<Suc b + n}" by auto
  have i: "init_pages (Suc n) (pa_bn_to_page p b) s = init_pages n (pa_bn_to_page p (Suc b)) ?s" by (simp only: init_pages.simps nx)
  show ?case unfolding i u e using Suc.IH [of "Suc b" ?s] unfolding h by auto
qed

lemmas init_pages_spec = init_pages_all [THEN conjunct1] init_pages_all [THEN conjunct2, rule_format]

lemma pa_chunk: "pa_pages_at_a_time = 32768" by (simp add: pa_pages_at_a_time_def)

lemma zone_fields [simp]:
  "pg_refcount (pa_set_page_zone pg z) = pg_refcount pg" "pg_use_count (pa_set_page_zone pg z) = pg_use_count pg"
  by (simp_all add: pa_set_page_zone_def)

lemma growth:
  assumes ok: "pa_ok s" and g: "init_page_of_pages s = (r, s1)"
  shows "case r of Inl e \<Rightarrow> s1 = s \<and> g_pa_size s < (pa_size (sb_pa s) + pa_pages_at_a_time) * PAGE_SIZE
    | Inr _ \<Rightarrow> pa_ok s1 \<and> same_area s s1 \<and> pa_size (sb_pa s1) = pa_size (sb_pa s) + pa_pages_at_a_time \<and> h_mem s1 = h_mem s \<and>
        pa_head (sb_pa s1) = pa_head (sb_pa s) @ map (pa_bn_to_page (sb_pa s)) [pa_size (sb_pa s)..<pa_size (sb_pa s1)] \<and>
        (\<forall>page. pg_refcount (h_page s1 page) = pg_refcount (h_page s page)) \<and> (\<forall>page\<in>page_set (sb_pa s). h_page s1 page = h_page s page)"
proof (cases "g_pa_size s < (pa_size (sb_pa s) + pa_pages_at_a_time) * PAGE_SIZE")
  case True
  with g show ?thesis by (auto simp: init_page_of_pages_def Let_def)
next
  case False
  define n where "n = pa_size (sb_pa s)"
  define c where "c = pa_pages_at_a_time"
  let ?p = "sb_pa s"
  define u where "u = init_pages c (pa_bn_to_page ?p n) s"
  have r: "r = Inr ()" "s1 = upd_pa (\<lambda>p. p\<lparr>pa_size := pa_size p + c\<rparr>) u"
    using g False by (auto simp: init_page_of_pages_def Let_def u_def c_def n_def pa_bn_to_page_def)
  note I = init_pages_spec [of c ?p n s, folded u_def]
  have f: "pa_pages (sb_pa s1) = pa_pages ?p" "pa_data (sb_pa s1) = pa_data ?p" "g_pa_size s1 = g_pa_size s" "sb_addr s1 = sb_addr s"
    "h_mem s1 = h_mem s" "pa_size (sb_pa s1) = n + c" "h_page s1 = h_page u" "pa_head (sb_pa s1) = pa_head ?p @ map (pa_bn_to_page ?p) [n..<n + c]"
    using I(1) by (simp_all add: r upd_pa_def u_def n_def)
  have bp: "pa_bn_to_page (sb_pa s1) = pa_bn_to_page ?p" by (simp add: fun_eq_iff pa_bn_to_page_def f(1))
  have ps: "page_set (sb_pa s1) = page_set ?p \<union> pa_bn_to_page ?p ` {n..<n + c}"
    unfolding page_set_def bp f(6) n_def by (auto simp: image_iff)
  have rc: "pg_refcount (h_page s1 page) = pg_refcount (h_page s page)" for page by (simp add: f(7) I(2))
  have old: "h_page s1 page = h_page s page" if "page \<in> page_set ?p" for page
    using that by (auto simp: f(7) I(2) page_set_def n_def)
  have new: "pg_owner (h_page s1 page) = sb_addr s" if "page \<in> pa_bn_to_page ?p ` {n..<n + c}" for page
    using that by (simp only: f(7) I(2) if_True) simp
  have "pa_ok s1" unfolding pa_ok_def
  proof (intro conjI ballI allI impI)
    show "distinct (pa_head (sb_pa s1))"
      using pa_okD(1) [OF ok] by (auto simp: f(8) distinct_map inj_on_def n_def dest!: pa_okD(2) [OF ok])
    show "set (pa_head (sb_pa s1)) \<subseteq> page_set (sb_pa s1)" using pa_okD(2) [OF ok] by (auto simp: f(8) ps)
    show "page \<in> set (pa_head (sb_pa s1))" if "page \<in> page_set (sb_pa s1)" "pg_refcount (h_page s1 page) = 0" for page
      using that pa_okD(3) [OF ok] by (auto simp: f(8) ps rc)
    show "pg_owner (h_page s1 page) = sb_addr s1" if "page \<in> page_set (sb_pa s1)" for page
      using that old new pa_okD(4) [OF ok] unfolding ps f(4) by fastforce
    show "pg_refcount (h_page s1 (pa_bn_to_page (sb_pa s1) bn)) = 0" if "pa_size (sb_pa s1) \<le> bn" for bn
      using that pa_okD(5) [OF ok, of bn] by (simp add: rc bp f(6) n_def)
    show "sb_addr s1 mod 8 = 0" using pa_okD(6) [OF ok] f(4) by simp
    show "pa_pages_at_a_time dvd pa_size (sb_pa s1)" using pa_okD(7) [OF ok] by (simp add: f(6) n_def c_def)
    show "pa_size (sb_pa s1) * PAGE_SIZE \<le> g_pa_size s1" using False by (simp add: f(3,6) n_def c_def)
  qed
  then show ?thesis using r f rc old by (simp add: same_area_def n_def c_def)
qed


section \<open>Allocation\<close>

definition page_run :: "pa \<Rightarrow> nat \<Rightarrow> nat \<Rightarrow> addr set" where
  "page_run p b n = pa_bn_to_page p ` {b..<b + n}"

lemma page_run_Suc: "page_run p b (Suc n) = insert (pa_bn_to_page p (b + n)) (page_run p b n)"
  by (auto simp: page_run_def)

lemma in_page_run [simp]: "pa_bn_to_page p c \<in> page_run p b n \<longleftrightarrow> b \<le> c \<and> c < b + n"
  by (auto simp: page_run_def)

text \<open>Taking all pages of a run off the list.\<close>

definition taken :: "addr set \<Rightarrow> zus_sb_info \<Rightarrow> zus_sb_info" where
  "taken A s = s\<lparr>sb_pa := (sb_pa s)\<lparr>pa_head := filter (\<lambda>x. x \<notin> A) (pa_head (sb_pa s))\<rparr>,
     h_page := (\<lambda>x. if x \<in> A then (h_page s x)\<lparr>pg_refcount := 1\<rparr> else h_page s x)\<rparr>"

lemma fold_alloc:
  assumes "distinct (pa_head (sb_pa s))"
  shows "fold (\<lambda>i. alloc_one_page (pa_bn_to_page p b + i * SIZEOF_PA_PAGE)) [0..<n] s = taken (page_run p b n) s"
proof (induction n)
  case 0
  show ?case by (simp add: taken_def page_run_def)
next
  case (Suc n)
  let ?x = "pa_bn_to_page p (b + n)"
  have "remove1 ?x (filter (\<lambda>x. x \<notin> page_run p b n) (pa_head (sb_pa s))) = filter (\<lambda>x. x \<notin> page_run p b (Suc n)) (pa_head (sb_pa s))"
    using assms by (simp add: distinct_remove1_removeAll removeAll_filter_not_eq page_run_Suc) (metis (mono_tags, opaque_lifting))
  then have "alloc_one_page ?x (taken (page_run p b n) s) = taken (page_run p b (Suc n)) s"
    by (auto simp: alloc_one_page_def upd_pg_def upd_pa_def taken_def page_run_Suc fun_eq_iff)
  then show ?case using Suc by (simp only: upt_Suc_append fold_append le0 comp_apply fold_simps bn_to_page_add)
qed

lemma taken_flds [simp]:
  "pa_pages (sb_pa (taken A s)) = pa_pages (sb_pa s)" "pa_data (sb_pa (taken A s)) = pa_data (sb_pa s)" "pa_size (sb_pa (taken A s)) = pa_size (sb_pa s)"
  "g_pa_size (taken A s) = g_pa_size s" "sb_addr (taken A s) = sb_addr s" "h_mem (taken A s) = h_mem s"
  "h_page (taken A s) x = (if x \<in> A then (h_page s x)\<lparr>pg_refcount := 1\<rparr> else h_page s x)"
  "pa_head (sb_pa (taken A s)) = filter (\<lambda>x. x \<notin> A) (pa_head (sb_pa s))" "pa_bn_to_page (sb_pa (taken A s)) = pa_bn_to_page (sb_pa s)"
  "page_set (sb_pa (taken A s)) = page_set (sb_pa s)"
  by (simp_all add: taken_def pa_bn_to_page_def page_set_def fun_eq_iff)

lemma taken_ok:
  assumes "pa_ok s" "A \<subseteq> page_set (sb_pa s)"
  shows "pa_ok (taken A s)"
proof -
  have "bn < pa_size (sb_pa s)" if "pa_bn_to_page (sb_pa s) bn \<in> A" for bn using subsetD [OF assms(2) that] by simp
  then show ?thesis using assms unfolding pa_ok_def by (auto simp: not_le [symmetric])
qed

lemma scan_Some:
  assumes "pa_scan n s ps = Some page"
  shows "page \<in> set ps" "pa_page_to_bn (sb_pa s) page mod n = 0" "pa_page_to_bn (sb_pa s) page + n - 1 \<le> pa_size (sb_pa s)"
    "1 \<le> i \<Longrightarrow> i < n \<Longrightarrow> pg_refcount (h_page s (page + i * SIZEOF_PA_PAGE)) = 0"
  using assms by (induction ps) (auto simp: Let_def list_all_iff pa_is_free_def split: if_splits)

lemma scan_None:
  assumes "pa_scan n s ps = None" "page \<in> set ps" "pa_page_to_bn (sb_pa s) page mod n = 0" "pa_page_to_bn (sb_pa s) page + n - 1 \<le> pa_size (sb_pa s)"
  shows "\<exists>i. 1 \<le> i \<and> i < n \<and> pg_refcount (h_page s (page + i * SIZEOF_PA_PAGE)) \<noteq> 0"
  using assms by (induction ps) (auto simp: Let_def list_all_iff pa_is_free_def split: if_splits)

lemma order_dvd: "order \<le> 5 \<Longrightarrow> 2 ^ order dvd pa_pages_at_a_time"
proof -
  assume "order \<le> 5"
  then have "(2::nat) ^ order dvd 2 ^ 15" by (intro le_imp_power_dvd) simp
  then show ?thesis by (simp add: pa_chunk)
qed

text \<open>A run that the scan finds consists of free pages of the allocator.\<close>

lemma scan_run:
  assumes ok: "pa_ok s" and o: "order \<le> 5" and sc: "pa_scan (2 ^ order) s (pa_head (sb_pa s)) = Some page"
  obtains b where "page = pa_bn_to_page (sb_pa s) b" "2 ^ order dvd b" "b + 2 ^ order \<le> pa_size (sb_pa s)"
    "page_run (sb_pa s) b (2 ^ order) \<subseteq> set (pa_head (sb_pa s))" "\<And>x. x \<in> page_run (sb_pa s) b (2 ^ order) \<Longrightarrow> x \<noteq> page \<Longrightarrow> pg_refcount (h_page s x) = 0"
proof -
  let ?n = "2 ^ order :: nat"
  note S = scan_Some [OF sc]
  from pa_okD(2) [OF ok S(1)] obtain b where b: "page = pa_bn_to_page (sb_pa s) b" "b < pa_size (sb_pa s)" by (rule page_setE)
  have dv: "?n dvd b" using S(2) b(1) by (simp add: dvd_eq_mod_eq_0)
  have "?n dvd pa_size (sb_pa s)" using order_dvd [OF o] pa_okD(7) [OF ok] by (rule dvd_trans)
  then obtain m where m: "pa_size (sb_pa s) = ?n * m" by (rule dvdE)
  from dv obtain k where k: "b = ?n * k" by (rule dvdE)
  have "?n * (k + 1) \<le> ?n * m" using b(2) unfolding k m by (intro mult_le_mono2) simp
  then have le: "b + ?n \<le> pa_size (sb_pa s)" by (simp add: k m)
  have z: "pg_refcount (h_page s x) = 0" if "x \<in> page_run (sb_pa s) b ?n" "x \<noteq> page" for x
  proof -
    from that obtain c where c: "x = pa_bn_to_page (sb_pa s) c" "b \<le> c" "c < b + ?n" by (auto simp: page_run_def)
    with that(2) b(1) have "1 \<le> c - b" "c - b < ?n" "b + (c - b) = c" by auto
    with S(4) [of "c - b"] b(1) c(1) bn_to_page_add [of "sb_pa s" b "c - b"] show ?thesis by simp
  qed
  have sub: "page_run (sb_pa s) b ?n \<subseteq> set (pa_head (sb_pa s))"
  proof
    fix x assume x: "x \<in> page_run (sb_pa s) b ?n"
    then have "x \<in> page_set (sb_pa s)" using le by (auto simp: page_run_def)
    then show "x \<in> set (pa_head (sb_pa s))" using z [OF x] pa_okD(3) [OF ok] S(1) by (cases "x = page") auto
  qed
  show thesis by (rule that [OF b(1) dv le sub z])
qed


text \<open>What growth does to the allocator: the new pages are free, the old ones are as before.\<close>

definition grown :: "zus_sb_info \<Rightarrow> zus_sb_info \<Rightarrow> bool" where
  "grown s u =
    (pa_ok u \<and> same_area s u \<and> h_mem u = h_mem s \<and> (\<forall>page\<in>page_set (sb_pa s). h_page u page = h_page s page) \<and>
     set (pa_head (sb_pa u)) = set (pa_head (sb_pa s)) \<union> (page_set (sb_pa u) - page_set (sb_pa s)))"

lemma grown_refl: "pa_ok s \<Longrightarrow> grown s s"
  by (simp add: grown_def)

lemma same_area_page_set: "same_area s u \<Longrightarrow> page_set (sb_pa s) \<subseteq> page_set (sb_pa u)"
  by (rule page_set_mono) (simp_all add: same_area_def)

lemma same_area_bn: "same_area s u \<Longrightarrow> pa_bn_to_page (sb_pa u) = pa_bn_to_page (sb_pa s)"
  by (simp add: same_area_def pa_bn_to_page_def fun_eq_iff)

lemma grown_trans: "grown s u \<Longrightarrow> grown u v \<Longrightarrow> grown s v"
  using same_area_page_set [of s u] same_area_page_set [of u v] same_area_trans [of s u v] unfolding grown_def by auto

lemma growth_grown:
  assumes ok: "pa_ok s" and g: "init_page_of_pages s = (Inr x, u)"
  shows "grown s u" "pa_size (sb_pa u) = pa_size (sb_pa s) + pa_pages_at_a_time"
    "pa_scan (2 ^ order) u (pa_head (sb_pa u)) = None \<Longrightarrow> order \<le> 5 \<Longrightarrow> False"
proof -
  let ?n = "pa_size (sb_pa s)"
  from growth [OF ok g] have u: "pa_ok u" "same_area s u" "pa_size (sb_pa u) = ?n + pa_pages_at_a_time" "h_mem u = h_mem s"
    "pa_head (sb_pa u) = pa_head (sb_pa s) @ map (pa_bn_to_page (sb_pa s)) [?n..<pa_size (sb_pa u)]"
    "\<forall>page. pg_refcount (h_page u page) = pg_refcount (h_page s page)" "\<forall>page\<in>page_set (sb_pa s). h_page u page = h_page s page" by simp_all
  note bp = same_area_bn [OF u(2)]
  have "page_set (sb_pa u) - page_set (sb_pa s) = pa_bn_to_page (sb_pa s) ` {?n..<pa_size (sb_pa u)}"
    using u(3) unfolding page_set_def bp by (auto simp: image_iff)
  then show "grown s u" using u by (simp add: grown_def)
  show "pa_size (sb_pa u) = ?n + pa_pages_at_a_time" by (rule u(3))
  assume sc: "pa_scan (2 ^ order) u (pa_head (sb_pa u)) = None" and o: "order \<le> 5"
  let ?m = "2 ^ order :: nat"
  have le: "?m \<le> pa_pages_at_a_time" using order_dvd [OF o] by (intro dvd_imp_le) (simp_all add: pa_chunk)
  have dv: "?m dvd ?n" using order_dvd [OF o] pa_okD(7) [OF ok] by (rule dvd_trans)
  have "0 < pa_pages_at_a_time" by (simp add: pa_chunk)
  then have lt: "?n < pa_size (sb_pa u)" "?n + ?m - 1 \<le> pa_size (sb_pa u)" using u(3) le by linarith+
  have bn: "pa_page_to_bn (sb_pa u) (pa_bn_to_page (sb_pa s) ?n) = ?n" by (simp add: bp [symmetric])
  have mem: "pa_bn_to_page (sb_pa s) ?n \<in> set (pa_head (sb_pa u))" unfolding u(5) using lt(1) by simp
  obtain i where i: "1 \<le> i" "i < ?m" "pg_refcount (h_page u (pa_bn_to_page (sb_pa s) ?n + i * SIZEOF_PA_PAGE)) \<noteq> 0"
    using scan_None [OF sc mem] lt(2) dv unfolding bn by (auto simp: dvd_eq_mod_eq_0)
  moreover have "pg_refcount (h_page s (pa_bn_to_page (sb_pa s) (?n + i))) = 0" by (rule pa_okD(5) [OF ok]) simp
  ultimately show False using u(6) by (simp add: bn_to_page_add)
qed

definition no_room :: "zus_sb_info \<Rightarrow> bool" where
  "no_room s = (g_pa_size s < (pa_size (sb_pa s) + pa_pages_at_a_time) * PAGE_SIZE)"

lemma rescan_spec:
  assumes ok: "pa_ok s" and o: "order \<le> 5"
  shows "(case pa_rescan (2 ^ order) s of
      (None, s') \<Rightarrow> s' = s \<and> no_room s \<and> pa_scan (2 ^ order) s (pa_head (sb_pa s)) = None
    | (Some page, s') \<Rightarrow> \<exists>u b. grown s u \<and> page = pa_bn_to_page (sb_pa s) b \<and> 2 ^ order dvd b \<and> b + 2 ^ order \<le> pa_size (sb_pa u) \<and>
        page_run (sb_pa s) b (2 ^ order) \<subseteq> set (pa_head (sb_pa u)) \<and> s' = taken (page_run (sb_pa s) b (2 ^ order)) u)"
proof -
  have found: "\<exists>b. page = pa_bn_to_page (sb_pa s) b \<and> 2 ^ order dvd b \<and> b + 2 ^ order \<le> pa_size (sb_pa u) \<and>
        page_run (sb_pa s) b (2 ^ order) \<subseteq> set (pa_head (sb_pa u)) \<and> pa_rescan (2 ^ order) u = (Some page, taken (page_run (sb_pa s) b (2 ^ order)) u)"
    if g: "grown s u" and sc: "pa_scan (2 ^ order) u (pa_head (sb_pa u)) = Some page" for u page
  proof -
    have oku: "pa_ok u" and a: "same_area s u" using g by (simp_all add: grown_def)
    have pr: "page_run (sb_pa u) = page_run (sb_pa s)" by (simp add: fun_eq_iff page_run_def same_area_bn [OF a])
    obtain b where b: "page = pa_bn_to_page (sb_pa u) b" "2 ^ order dvd b" "b + 2 ^ order \<le> pa_size (sb_pa u)"
      "page_run (sb_pa u) b (2 ^ order) \<subseteq> set (pa_head (sb_pa u))" by (rule scan_run [OF oku o sc])
    have "pa_rescan (2 ^ order) u = (Some page, taken (page_run (sb_pa s) b (2 ^ order)) u)"
      using fold_alloc [OF pa_okD(1) [OF oku], of "sb_pa u" b "2 ^ order"] sc b(1) by (simp add: pa_rescan.simps [of _ u] pr)
    with b show ?thesis unfolding pr same_area_bn [OF a] by blast
  qed
  show ?thesis
  proof (cases "pa_scan (2 ^ order) s (pa_head (sb_pa s))")
    case (Some page)
    from found [OF grown_refl [OF ok] Some] grown_refl [OF ok] show ?thesis by (auto intro!: exI [of _ s])
  next
    case None
    obtain r u where g: "init_page_of_pages s = (r, u)" by (cases "init_page_of_pages s")
    show ?thesis
    proof (cases r)
      case (Inl e)
      with growth [OF ok g] g None show ?thesis by (simp add: pa_rescan.simps [of _ s] no_room_def)
    next
      case (Inr x)
      note G = growth_grown [OF ok g [unfolded Inr]]
      obtain page where sc: "pa_scan (2 ^ order) u (pa_head (sb_pa u)) = Some page" using G(3) o by fastforce
      have "pa_rescan (2 ^ order) s = pa_rescan (2 ^ order) u" using None g Inr by (simp add: pa_rescan.simps [of _ s])
      then show ?thesis using found [OF G(1) sc] G(1) by (auto intro!: exI [of _ u])
    qed
  qed
qed


text \<open>The pages in use and the bytes of a page.\<close>

definition in_use :: "zus_sb_info \<Rightarrow> addr set" where
  "in_use s = page_set (sb_pa s) - set (pa_head (sb_pa s))"

definition page_bytes :: "pa \<Rightarrow> addr \<Rightarrow> addr set" where
  "page_bytes p page = {pa_page_address p page..<pa_page_address p page + PAGE_SIZE}"

lemma page_bytes_run:
  "x \<in> page_bytes p (pa_bn_to_page p c) \<Longrightarrow> pa_data p + b * PAGE_SIZE \<le> x \<Longrightarrow> x < pa_data p + b * PAGE_SIZE + n * PAGE_SIZE \<Longrightarrow>
   pa_bn_to_page p c \<in> page_run p b n"
  by (auto simp: page_bytes_def pa_page_address_def)

lemma grown_in_use: "grown s u \<Longrightarrow> in_use u = in_use s"
  using same_area_page_set [of s u] unfolding grown_def in_use_def by (auto dest: pa_okD(2))

lemma taken_in_use: "pa_ok u \<Longrightarrow> A \<subseteq> set (pa_head (sb_pa u)) \<Longrightarrow> in_use (taken A u) = in_use u \<union> A"
  by (auto simp: in_use_def dest: pa_okD(2))

definition alloc_core :: "nat \<Rightarrow> zus_sb_info \<Rightarrow> addr option \<times> zus_sb_info" where
  "alloc_core order s =
    (case (if pa_head (sb_pa s) = [] then init_page_of_pages s else (Inr (), s)) of
       (Inl err, s1) \<Rightarrow> (None, s1)
     | (Inr _, s1) \<Rightarrow> pa_rescan (2 ^ order) s1)"

lemma alloc_core_spec:
  assumes ok: "pa_ok s" and o: "order \<le> 5"
  shows "(case alloc_core order s of
      (None, s') \<Rightarrow> s' = s \<and> no_room s \<and> pa_scan (2 ^ order) s (pa_head (sb_pa s)) = None
    | (Some page, s') \<Rightarrow> \<exists>u b. grown s u \<and> page = pa_bn_to_page (sb_pa s) b \<and> 2 ^ order dvd b \<and> b + 2 ^ order \<le> pa_size (sb_pa u) \<and>
        page_run (sb_pa s) b (2 ^ order) \<subseteq> set (pa_head (sb_pa u)) \<and> s' = taken (page_run (sb_pa s) b (2 ^ order)) u)"
proof (cases "pa_head (sb_pa s) = []")
  case False
  then show ?thesis using rescan_spec [OF ok o] by (simp add: alloc_core_def)
next
  case True
  obtain r u where g: "init_page_of_pages s = (r, u)" by (cases "init_page_of_pages s")
  show ?thesis
  proof (cases r)
    case (Inl e)
    with growth [OF ok g] g True show ?thesis by (simp add: alloc_core_def no_room_def)
  next
    case (Inr x)
    note G = growth_grown [OF ok g [unfolded Inr]]
    have e: "alloc_core order s = pa_rescan (2 ^ order) u" using g Inr True by (simp add: alloc_core_def)
    have a: "same_area s u" and oku: "pa_ok u" using G(1) by (simp_all add: grown_def)
    have pr: "page_run (sb_pa u) = page_run (sb_pa s)" by (simp add: fun_eq_iff page_run_def same_area_bn [OF a])
    obtain page s' where r: "pa_rescan (2 ^ order) u = (Some page, s')"
      using rescan_spec [OF oku o] G(3) [OF _ o] by (cases "pa_rescan (2 ^ order) u"; cases "fst (pa_rescan (2 ^ order) u)") auto
    from rescan_spec [OF oku o] obtain v b where v: "grown u v" "page = pa_bn_to_page (sb_pa s) b" "2 ^ order dvd b" "b + 2 ^ order \<le> pa_size (sb_pa v)"
        "page_run (sb_pa s) b (2 ^ order) \<subseteq> set (pa_head (sb_pa v))" "s' = taken (page_run (sb_pa s) b (2 ^ order)) v"
      unfolding r pr same_area_bn [OF a] by auto
    show ?thesis unfolding e r using v grown_trans [OF G(1) v(1)] by auto
  qed
qed

lemma alloc_order_eq:
  "order \<le> 5 \<Longrightarrow> pa_alloc_order env order s =
    (case alloc_core order s of (None, s2) \<Rightarrow> (None, s2)
     | (Some page, s2) \<Rightarrow>
        if need_mlock env \<and> \<not> mlock_ok env then
          (None, fold (\<lambda>i. upd_pa (\<lambda>p. p\<lparr>pa_head := (page + i * SIZEOF_PA_PAGE) # pa_head p\<rparr>)) [0..<2 ^ order]
             (snd (fba_punch_hole env (pa_page_to_bn (sb_pa s2) page) (2 ^ order) s2)))
        else (Some page, s2))"
  by (auto simp: pa_alloc_order_def alloc_core_def Let_def split: prod.split option.split)

text \<open>Pages that go back to the list after a failure of \<open>mlock\<close>: their reference count stays 1.\<close>

lemma fold_put_back:
  "fold (\<lambda>i. upd_pa (\<lambda>p. p\<lparr>pa_head := f i # pa_head p\<rparr>)) is s = s\<lparr>sb_pa := (sb_pa s)\<lparr>pa_head := rev (map f is) @ pa_head (sb_pa s)\<rparr>\<rparr>"
  by (induction "is" arbitrary: s) (simp_all add: upd_pa_def)

lemma punch_flds [simp]:
  "sb_pa (snd (fba_punch_hole env b n s)) = sb_pa s" "h_page (snd (fba_punch_hole env b n s)) = h_page s"
  "g_pa_size (snd (fba_punch_hole env b n s)) = g_pa_size s" "sb_addr (snd (fba_punch_hole env b n s)) = sb_addr s"
  by (simp_all add: fba_punch_hole_def Let_def split: option.split)

lemma punch_mem:
  assumes "env_ok env" "page = pa_bn_to_page (sb_pa s) c" "page \<notin> page_run (sb_pa s) b n" "x \<in> page_bytes (sb_pa s) page"
  shows "h_mem (snd (fba_punch_hole env b n s)) x = h_mem s x"
  using assms page_bytes_run [of x "sb_pa s" c b n] by (auto simp: fba_punch_hole_def Let_def env_ok_def split: option.split)


lemma grown_taken:
  assumes g: "grown s u" and A: "A \<subseteq> set (pa_head (sb_pa u))"
  shows "pa_ok (taken A u)" "same_area s (taken A u)" "in_use (taken A u) = in_use s \<union> A" "in_use s \<inter> A = {}"
    "page \<in> in_use s \<Longrightarrow> h_page (taken A u) page = h_page s page" "h_mem (taken A u) = h_mem s"
proof -
  have ok: "pa_ok u" and a: "same_area s u" and m: "h_mem u = h_mem s" using g by (simp_all add: grown_def)
  have "A \<subseteq> page_set (sb_pa u)" using A pa_okD(2) [OF ok] by blast
  then show "pa_ok (taken A u)" by (rule taken_ok [OF ok])
  show "same_area s (taken A u)" using a by (simp add: same_area_def)
  show "in_use (taken A u) = in_use s \<union> A" using taken_in_use [OF ok A] grown_in_use [OF g] by simp
  show d: "in_use s \<inter> A = {}" using A grown_in_use [OF g] by (auto simp: in_use_def)
  show "h_page (taken A u) page = h_page s page" if "page \<in> in_use s"
    using d that g by (auto simp: grown_def in_use_def)
  show "h_mem (taken A u) = h_mem s" using m by simp
qed

lemma put_back_spec:
  fixes s :: zus_sb_info
  assumes g: "grown s u" and A: "page_run (sb_pa s) b n \<subseteq> set (pa_head (sb_pa u))" and e: "env_ok env" and bn: "b = pa_page_to_bn (sb_pa u) page"
    and page: "page = pa_bn_to_page (sb_pa s) b"
  defines "v \<equiv> taken (page_run (sb_pa s) b n) u"
  defines "s' \<equiv> fold (\<lambda>i. upd_pa (\<lambda>p. p\<lparr>pa_head := (page + i * SIZEOF_PA_PAGE) # pa_head p\<rparr>)) [0..<n] (snd (fba_punch_hole env b n v))"
  shows "pa_ok s'" "same_area s s'" "in_use s' = in_use s" "pg \<in> in_use s \<Longrightarrow> h_page s' pg = h_page s pg"
    "pg \<in> in_use s \<Longrightarrow> x \<in> page_bytes (sb_pa s) pg \<Longrightarrow> h_mem s' x = h_mem s x"
proof -
  let ?A = "page_run (sb_pa s) b n"
  note G = grown_taken [OF g A, folded v_def]
  define xs where "xs = rev (map (pa_bn_to_page (sb_pa s)) (map ((+) b) [0..<n]))"
  have a: "same_area s u" using g by (simp add: grown_def)
  have "(+) b ` {0..<n} = {b..<b + n}" using image_add_atLeastLessThan [of b 0 n] by (simp add: add.commute)
  then have xs: "set xs = ?A" "distinct xs" by (simp_all only: xs_def page_run_def set_rev set_map set_upt) (simp add: distinct_map inj_on_def)
  have s': "s' = (snd (fba_punch_hole env b n v))\<lparr>sb_pa := (sb_pa v)\<lparr>pa_head := xs @ pa_head (sb_pa v)\<rparr>\<rparr>"
    by (simp add: s'_def fold_put_back page bn_to_page_add xs_def comp_def)
  have ps: "page_set (sb_pa s') = page_set (sb_pa v)" by (simp add: s' page_set_def pa_bn_to_page_def)
  have dj: "set (pa_head (sb_pa v)) \<inter> ?A = {}" by (auto simp: v_def)
  have sub: "?A \<subseteq> page_set (sb_pa v)" using A g by (auto simp: v_def grown_def dest: pa_okD(2))
  show "pa_ok s'" unfolding pa_ok_def ps
    using G(1) dj xs sub by (auto simp: pa_ok_def s' pa_bn_to_page_def)
  show "same_area s s'" using G(2) by (simp add: same_area_def s')
  show u: "in_use s' = in_use s" using G(3,4) xs(1) unfolding in_use_def ps by (auto simp: s' in_use_def [of v])
  show "h_page s' pg = h_page s pg" if "pg \<in> in_use s" using G(5) [OF that] by (simp add: s')
  assume pg: "pg \<in> in_use s" and x: "x \<in> page_bytes (sb_pa s) pg"
  from pg obtain c where c: "pg = pa_bn_to_page (sb_pa s) c" by (auto simp: in_use_def elim: page_setE)
  have va: "same_area s v" by (rule G(2))
  have e1: "pa_bn_to_page (sb_pa v) = pa_bn_to_page (sb_pa s)" "pa_data (sb_pa v) = pa_data (sb_pa s)" "pa_pages (sb_pa v) = pa_pages (sb_pa s)"
    using same_area_bn [OF va] va by (simp_all add: same_area_def)
  have e2: "page_run (sb_pa v) b n = ?A" "page_bytes (sb_pa v) q = page_bytes (sb_pa s) q" for q
    by (simp_all add: page_run_def e1 page_bytes_def pa_page_address_def pa_page_to_bn_def)
  have "h_mem (snd (fba_punch_hole env b n v)) x = h_mem v x"
    by (rule punch_mem [OF e, of pg _ c]) (use c x pg G(4) in \<open>auto simp: e1 e2\<close>)
  then show "h_mem s' x = h_mem s x" using G(6) by (simp add: s')
qed

lemma alloc_order_spec:
  assumes ok: "pa_ok s" and env: "env_ok env"
  shows "case pa_alloc_order env order s of (r, s') \<Rightarrow> pa_ok s' \<and> same_area s s' \<and>
    (\<forall>pg\<in>in_use s. h_page s' pg = h_page s pg \<and> (\<forall>x\<in>page_bytes (sb_pa s) pg. h_mem s' x = h_mem s x)) \<and>
    (case r of
       None \<Rightarrow> in_use s' = in_use s \<and>
         (5 < order \<or> need_mlock env \<and> \<not> mlock_ok env \<or> no_room s \<and> pa_scan (2 ^ order) s (pa_head (sb_pa s)) = None)
     | Some page \<Rightarrow> \<exists>b. page = pa_bn_to_page (sb_pa s) b \<and> 2 ^ order dvd b \<and> b + 2 ^ order \<le> pa_size (sb_pa s') \<and>
         in_use s' = in_use s \<union> page_run (sb_pa s) b (2 ^ order) \<and> in_use s \<inter> page_run (sb_pa s) b (2 ^ order) = {} \<and>
         (\<forall>pg\<in>page_run (sb_pa s) b (2 ^ order). pg_refcount (h_page s' pg) = 1) \<and> h_mem s' = h_mem s)"
proof (cases "order \<le> 5")
  case False
  then show ?thesis using ok by (simp add: pa_alloc_order_def)
next
  case o: True
  obtain r v where c: "alloc_core order s = (r, v)" by (cases "alloc_core order s")
  note E = alloc_order_eq [OF o, of env s, unfolded c prod.case]
  show ?thesis
  proof (cases r)
    case None
    with alloc_core_spec [OF ok o] c ok show ?thesis by (simp add: E)
  next
    case (Some page)
    from alloc_core_spec [OF ok o] obtain u b where
      u: "grown s u" "page = pa_bn_to_page (sb_pa s) b" "2 ^ order dvd b" "b + 2 ^ order \<le> pa_size (sb_pa u)"
        "page_run (sb_pa s) b (2 ^ order) \<subseteq> set (pa_head (sb_pa u))" "v = taken (page_run (sb_pa s) b (2 ^ order)) u"
      unfolding c Some by auto
    note G = grown_taken [OF u(1,5), folded u(6)]
    have bn: "pa_page_to_bn (sb_pa v) page = b" "pa_page_to_bn (sb_pa u) page = b"
      using G(2) u(1,2) by (simp_all add: pa_page_to_bn_def pa_bn_to_page_def same_area_def grown_def)
    show ?thesis
    proof (cases "need_mlock env \<and> \<not> mlock_ok env")
      case True
      have P: "pa_alloc_order env order s = (None, fold (\<lambda>i. upd_pa (\<lambda>p. p\<lparr>pa_head := (page + i * SIZEOF_PA_PAGE) # pa_head p\<rparr>)) [0..<2 ^ order]
             (snd (fba_punch_hole env b (2 ^ order) v)))" using True by (simp add: E Some bn)
      note B = put_back_spec [OF u(1,5) env bn(2) [symmetric] u(2), folded u(6)]
      show ?thesis unfolding P prod.case option.case using B True by blast
    next
      case False
      have P: "pa_alloc_order env order s = (Some page, v)" using False by (auto simp: E Some)
      have "pg_refcount (h_page v pg) = 1" if "pg \<in> page_run (sb_pa s) b (2 ^ order)" for pg using that by (simp add: u(6))
      moreover have "b + 2 ^ order \<le> pa_size (sb_pa v)" using u(4) by (simp add: u(6))
      ultimately show ?thesis unfolding P prod.case option.case using G u(2,3) by auto
    qed
  qed
qed


text \<open>
  C23. Allocation of pages. \<open>pa_alloc_order\<close> returns the first page of a run of \<open>2 ^ order\<close> pages that is aligned to its length, whose pages
  were all free, and which now have reference count 1. No page in use is touched, and its data stay as they are. It fails
  only if the order is above 5, if \<open>mlock\<close> fails, or if \<open>PA_SIZE\<close> leaves no room to grow and no page of the free list starts
  such a run; then the pages in use are the same as before. The search ends after at most one growth.
\<close>

theorem pa_alloc_order_correct:
  assumes ok: "pa_ok s" and env: "env_ok env"
  shows "case pa_alloc_order env order s of (r, s') \<Rightarrow> pa_ok s' \<and> same_area s s' \<and>
    (\<forall>pg\<in>in_use s. h_page s' pg = h_page s pg \<and> (\<forall>x\<in>page_bytes (sb_pa s) pg. h_mem s' x = h_mem s x)) \<and>
    (case r of
       None \<Rightarrow> in_use s' = in_use s \<and>
         (5 < order \<or> need_mlock env \<and> \<not> mlock_ok env \<or> no_room s \<and> pa_scan (2 ^ order) s (pa_head (sb_pa s)) = None)
     | Some page \<Rightarrow> \<exists>b. page = pa_bn_to_page (sb_pa s) b \<and> 2 ^ order dvd b \<and> b + 2 ^ order \<le> pa_size (sb_pa s') \<and>
         in_use s' = in_use s \<union> page_run (sb_pa s) b (2 ^ order) \<and> in_use s \<inter> page_run (sb_pa s) b (2 ^ order) = {} \<and>
         (\<forall>pg\<in>page_run (sb_pa s) b (2 ^ order). pg_refcount (h_page s' pg) = 1) \<and> h_mem s' = h_mem s)"
  by (rule alloc_order_spec [OF assms])

definition sample_env :: pa_env where
  "sample_env = \<lparr>e_o2p = (\<lambda>x. x div PAGE_SIZE), e_p2o = (\<lambda>x. x * PAGE_SIZE), need_mlock = True, mlock_ok = True, punch_err = None\<rparr>"

definition sample_pasb :: zus_sb_info where
  "sample_pasb = \<lparr>sb_pa = \<lparr>pa_pages = 4096, pa_data = 2 ^ 40, pa_head = [], pa_size = 0\<rparr>,
     h_page = (\<lambda>_. \<lparr>pg_flags = 0, pg_use_count = 0, pg_refcount = 0, pg_index = 0, pg_owner = 0, pg_slab_uc = 0, pg_slab_cpu = 0,
       pg_private = 0, pg_private2 = 0\<rparr>), h_mem = (\<lambda>_. 0), g_pa_size = 2 ^ 32, sb_addr = 64\<rparr>"

lemma sample_pa:
  "env_ok sample_env" "pa_ok sample_pasb" "in_use sample_pasb = {}" "\<not> no_room sample_pasb" "\<not> (need_mlock sample_env \<and> \<not> mlock_ok sample_env)"
  by (simp_all add: env_ok_def sample_env_def pa_ok_def sample_pasb_def in_use_def page_set_def no_room_def pa_chunk)

theorem pa_alloc_order_correct_witness:
  "\<exists>page s'. pa_alloc_order sample_env 3 sample_pasb = (Some page, s') \<and> pa_ok s' \<and> card (in_use s') = 8"
proof -
  obtain r s' where e: "pa_alloc_order sample_env 3 sample_pasb = (r, s')" by (cases "pa_alloc_order sample_env 3 sample_pasb")
  note T = pa_alloc_order_correct [OF sample_pa(2,1), of 3, unfolded e prod.case]
  from T sample_pa(4,5) obtain page where r: "r = Some page" by (cases r) auto
  from T obtain b where "in_use s' = page_run (sb_pa sample_pasb) b 8" "pa_ok s'" unfolding r sample_pa(3) by auto
  then show ?thesis using e r by (auto simp: page_run_def card_image inj_on_def)
qed

section \<open>Release\<close>

lemma put_page_spec:
  assumes ok: "pa_ok s" and e: "env_ok env" and pg: "page \<in> in_use s" "pg_refcount (h_page s page) = 1"
  shows "\<exists>s'. pa_put_page env page s = Some (True, s') \<and> pa_ok s' \<and> same_area s s' \<and> pa_size (sb_pa s') = pa_size (sb_pa s) \<and>
    pa_head (sb_pa s') = page # pa_head (sb_pa s) \<and> in_use s' = in_use s - {page} \<and> (\<forall>q. q \<noteq> page \<longrightarrow> h_page s' q = h_page s q) \<and>
    (\<forall>q\<in>in_use s - {page}. \<forall>x\<in>page_bytes (sb_pa s) q. h_mem s' x = h_mem s x)"
proof -
  from pg(1) obtain b where b: "page = pa_bn_to_page (sb_pa s) b" "b < pa_size (sb_pa s)" by (auto simp: in_use_def elim: page_setE)
  define s1 where "s1 = upd_pg page (\<lambda>q. q\<lparr>pg_refcount := 0\<rparr>) s"
  define s2 where "s2 = snd (fba_punch_hole env b 1 s1)"
  define s' where "s' = upd_pa (\<lambda>p. p\<lparr>pa_head := page # pa_head p\<rparr>) s2"
  have f: "sb_pa s' = (sb_pa s)\<lparr>pa_head := page # pa_head (sb_pa s)\<rparr>" "h_page s' = (h_page s)(page := (h_page s page)\<lparr>pg_refcount := 0\<rparr>)"
    "g_pa_size s' = g_pa_size s" "sb_addr s' = sb_addr s" "h_mem s' = h_mem s2" "sb_pa s1 = sb_pa s" "h_mem s1 = h_mem s"
    by (simp_all add: s'_def s2_def s1_def upd_pa_def upd_pg_def)
  have ow: "pg_owner (h_page s page) = sb_addr s" by (rule pa_okD(4) [OF ok]) (use b in simp)
  have "sb_addr s div 8 * 8 = sb_addr s" using pa_okD(6) [OF ok] by auto
  then have p: "pa_put_page env page s = Some (True, s')"
    using pg(2) ow b(1) by (simp add: pa_put_page_def pa_free_page_def atomic_dec_testzero_def upd_pg_def s1_def s2_def s'_def)
  have ps: "page_set (sb_pa s') = page_set (sb_pa s)" "pa_bn_to_page (sb_pa s') = pa_bn_to_page (sb_pa s)"
    by (simp_all add: f(1) page_set_def pa_bn_to_page_def fun_eq_iff)
  have nh: "page \<notin> set (pa_head (sb_pa s))" "page \<in> page_set (sb_pa s)" using pg(1) by (simp_all add: in_use_def)
  have "pa_ok s'" unfolding pa_ok_def ps
    using ok nh b by (auto simp: pa_ok_def f)
  moreover have "in_use s' = in_use s - {page}" unfolding in_use_def ps by (auto simp: f(1))
  moreover have "h_mem s' x = h_mem s x" if "q \<in> in_use s - {page}" "x \<in> page_bytes (sb_pa s) q" for q x
  proof -
    from that(1) obtain c where c: "q = pa_bn_to_page (sb_pa s) c" by (auto simp: in_use_def elim: page_setE)
    have "h_mem (snd (fba_punch_hole env b 1 s1)) x = h_mem s1 x"
      by (rule punch_mem [OF e, of q _ c]) (use c that b(1) in \<open>auto simp: f(6)\<close>)
    then show ?thesis by (simp add: f(5,7) s2_def)
  qed
  moreover have "same_area s s'" by (simp add: same_area_def f)
  ultimately show ?thesis using p f(1,2) by (intro exI [of _ s']) auto
qed

text \<open>One page, the way the slab allocator asks for it.\<close>

lemma alloc_page_spec:
  assumes ok: "pa_ok s" and env: "env_ok env" and a: "pa_alloc env s = (r, s')"
  shows "pa_ok s'" "same_area s s'" "pg \<in> in_use s \<Longrightarrow> h_page s' pg = h_page s pg"
    "pg \<in> in_use s \<Longrightarrow> x \<in> page_bytes (sb_pa s) pg \<Longrightarrow> h_mem s' x = h_mem s x"
    "r = None \<Longrightarrow> in_use s' = in_use s" "r = None \<Longrightarrow> need_mlock env \<and> \<not> mlock_ok env \<or> no_room s \<and> pa_head (sb_pa s) = []"
    "r = Some page \<Longrightarrow> page \<notin> in_use s" "r = Some page \<Longrightarrow> in_use s' = insert page (in_use s)"
    "r = Some page \<Longrightarrow> pg_refcount (h_page s' page) = 1"
proof -
  note T = alloc_order_spec [OF ok env, of 0, folded pa_alloc_def, unfolded a prod.case]
  show "pa_ok s'" "same_area s s'" using T by simp_all
  show "h_page s' pg = h_page s pg" if "pg \<in> in_use s" using T that by simp
  show "h_mem s' x = h_mem s x" if "pg \<in> in_use s" "x \<in> page_bytes (sb_pa s) pg" using T that by blast
  show "in_use s' = in_use s" if "r = None" using T that by simp
  show "need_mlock env \<and> \<not> mlock_ok env \<or> no_room s \<and> pa_head (sb_pa s) = []" if "r = None"
  proof -
    have sc: "pa_head (sb_pa s) = []" if "pa_scan 1 s (pa_head (sb_pa s)) = None"
    proof (rule ccontr)
      assume "pa_head (sb_pa s) \<noteq> []"
      then obtain page where m: "page \<in> set (pa_head (sb_pa s))" by (cases "pa_head (sb_pa s)") auto
      from pa_okD(2) [OF ok m] obtain b where "page = pa_bn_to_page (sb_pa s) b" "b < pa_size (sb_pa s)" by (rule page_setE)
      then show False using scan_None [OF that m] by auto
    qed
    with T \<open>r = None\<close> show ?thesis by auto
  qed
  have run: "page_run (sb_pa s) b (Suc 0) = {pa_bn_to_page (sb_pa s) b}" for b by (auto simp: page_run_def)
  show "page \<notin> in_use s" "in_use s' = insert page (in_use s)" "pg_refcount (h_page s' page) = 1" if "r = Some page"
    using T that by (auto simp: run)
qed


section \<open>The page allocator as an allocator of pages\<close>

definition page_alloc :: "pa_env \<Rightarrow> nat \<Rightarrow> zus_sb_info \<Rightarrow> (addr option \<times> zus_sb_info) run" where
  "page_alloc env n s = Some (pa_alloc env s)"

definition pages_inv :: "(addr \<rightharpoonup> nat) \<Rightarrow> zus_sb_info \<Rightarrow> bool" where
  "pages_inv M s = (pa_ok s \<and> dom M = in_use s \<and> (\<forall>pg\<in>in_use s. pg_refcount (h_page s pg) = 1) \<and> ran M \<subseteq> {..PAGE_SIZE} \<and> g_pa_size s < 2 ^ 64)"

definition page_extent :: "pa \<Rightarrow> addr \<Rightarrow> nat \<Rightarrow> addr set" where
  "page_extent p pg n = {pa_page_address p pg..<pa_page_address p pg + min n PAGE_SIZE}"

lemma same_area_extent: "same_area s s' \<Longrightarrow> page_extent (sb_pa s') = page_extent (sb_pa s)"
  by (simp add: same_area_def page_extent_def pa_page_address_def pa_page_to_bn_def fun_eq_iff)

lemma page_extent_bytes: "x \<in> page_extent p pg n \<Longrightarrow> x \<in> page_bytes p pg"
  by (auto simp: page_extent_def page_bytes_def)

lemma page_bytes_disjoint:
  assumes "pa_ok s" "pg \<in> page_set (sb_pa s)" "q \<in> page_set (sb_pa s)" "pg \<noteq> q"
  shows "page_bytes (sb_pa s) pg \<inter> page_bytes (sb_pa s) q = {}"
proof -
  from assms(2,3) obtain b c where b: "pg = pa_bn_to_page (sb_pa s) b" "q = pa_bn_to_page (sb_pa s) c" by (auto elim!: page_setE)
  with assms(4) have "b < c \<or> c < b" by auto
  then have "b * PAGE_SIZE + PAGE_SIZE \<le> c * PAGE_SIZE \<or> c * PAGE_SIZE + PAGE_SIZE \<le> b * PAGE_SIZE" by auto
  then show ?thesis unfolding b page_bytes_def pa_page_address_def bn_page by auto
qed

interpretation pages: object_allocator env_ok "\<lambda>n. n \<le> PAGE_SIZE" page_alloc pa_free pages_inv "\<lambda>s. page_extent (sb_pa s)" h_mem
proof
  fix M s e n assume i: "pages_inv M s" and e: "env_ok e" and n: "n \<le> PAGE_SIZE"
  obtain r s' where a: "pa_alloc e s = (r, s')" by (cases "pa_alloc e s")
  have ok: "pa_ok s" "dom M = in_use s" "\<And>pg. pg \<in> in_use s \<Longrightarrow> pg_refcount (h_page s pg) = 1" "ran M \<subseteq> {..PAGE_SIZE}" "g_pa_size s < 2 ^ 64"
    using i by (simp_all add: pages_inv_def)
  note A = alloc_page_spec [OF ok(1) e a]
  have g: "g_pa_size s' = g_pa_size s" using A(2) by (simp add: same_area_def)
  have m: "\<forall>b m. M b = Some m \<longrightarrow> (\<forall>x\<in>page_extent (sb_pa s) b m. h_mem s' x = h_mem s x)"
    using A(4) ok(2) page_extent_bytes by blast
  have "case r of None \<Rightarrow> pages_inv M s' | Some a \<Rightarrow> M a = None \<and> pages_inv (M(a \<mapsto> n)) s'"
  proof (cases r)
    case None
    then show ?thesis using A(1,3,5) ok g by (simp add: pages_inv_def)
  next
    case (Some pg)
    then have "M pg = None" using A(7) ok(2) by auto
    moreover have "ran (M(pg \<mapsto> n)) \<subseteq> {..PAGE_SIZE}" using ok(4) n \<open>M pg = None\<close> by simp
    ultimately show ?thesis using A(1,3,8,9) ok Some g by (auto simp: pages_inv_def)
  qed
  then show "\<exists>r s'. page_alloc e n s = Some (r, s') \<and> page_extent (sb_pa s') = page_extent (sb_pa s) \<and>
      (\<forall>b m. M b = Some m \<longrightarrow> (\<forall>x\<in>page_extent (sb_pa s) b m. h_mem s' x = h_mem s x)) \<and>
      (case r of None \<Rightarrow> pages_inv M s' | Some a \<Rightarrow> M a = None \<and> pages_inv (M(a \<mapsto> n)) s')"
    using m a same_area_extent [OF A(2)] by (intro exI [of _ r] exI [of _ s']) (simp add: page_alloc_def)
next
  fix M s e a n assume i: "pages_inv M s" and e: "env_ok e" and a: "M a = Some n"
  have du: "dom M = in_use s" and ok: "pa_ok s" "a \<in> in_use s" "pg_refcount (h_page s a) = 1" using i a by (auto simp: pages_inv_def)
  from put_page_spec [OF ok(1) e ok(2,3)] obtain s' where
    s': "pa_put_page e a s = Some (True, s')" "pa_ok s'" "same_area s s'" "in_use s' = in_use s - {a}"
      "\<forall>q. q \<noteq> a \<longrightarrow> h_page s' q = h_page s q" "\<forall>q\<in>in_use s - {a}. \<forall>x\<in>page_bytes (sb_pa s) q. h_mem s' x = h_mem s x" by blast
  have "ran (M(a := None)) \<subseteq> {..PAGE_SIZE}" using i by (auto simp: pages_inv_def ran_def)
  moreover have "g_pa_size s' = g_pa_size s" using s'(3) by (simp add: same_area_def)
  ultimately have "pages_inv (M(a := None)) s'" using i s'(2,4,5) by (auto simp: pages_inv_def)
  moreover have "\<forall>b m. M b = Some m \<longrightarrow> b \<noteq> a \<longrightarrow> (\<forall>x\<in>page_extent (sb_pa s) b m. h_mem s' x = h_mem s x)"
    using s'(6) du page_extent_bytes by blast
  ultimately show "\<exists>s'. pa_free e a s = Some s' \<and> page_extent (sb_pa s') = page_extent (sb_pa s) \<and> pages_inv (M(a := None)) s' \<and>
      (\<forall>b m. M b = Some m \<longrightarrow> b \<noteq> a \<longrightarrow> (\<forall>x\<in>page_extent (sb_pa s) b m. h_mem s' x = h_mem s x))"
    using s'(1) same_area_extent [OF s'(3)] by (intro exI [of _ s']) (simp add: pa_free_def)
next
  fix M s a n b m assume i: "pages_inv M s" and ab: "M a = Some n" "M b = Some m" "a \<noteq> b"
  then have "a \<in> page_set (sb_pa s)" "b \<in> page_set (sb_pa s)" "pa_ok s" by (auto simp: pages_inv_def in_use_def)
  with page_bytes_disjoint ab(3) page_extent_bytes show "page_extent (sb_pa s) a n \<inter> page_extent (sb_pa s) b m = {}" by blast
qed

lemma leaks_card:
  assumes ok: "pa_ok s" and g: "g_pa_size s < 2 ^ 64"
  shows "pa_leaks s = card (in_use s)"
proof -
  have sz: "pa_size (sb_pa s) < 2 ^ 64" using pa_okD(8) [OF ok] g by linarith
  have c: "card (page_set (sb_pa s)) = pa_size (sb_pa s)" "finite (page_set (sb_pa s))"
    by (simp_all add: page_set_def card_image inj_on_def)
  have l: "length (pa_head (sb_pa s)) = card (set (pa_head (sb_pa s)))" using pa_okD(1) [OF ok] by (simp add: distinct_card)
  have sub: "set (pa_head (sb_pa s)) \<subseteq> page_set (sb_pa s)" using pa_okD(2) [OF ok] by blast
  have "card (in_use s) = pa_size (sb_pa s) - length (pa_head (sb_pa s))" unfolding in_use_def l c(1) [symmetric]
    by (rule card_Diff_subset [OF finite_subset [OF sub c(2)] sub])
  moreover have "length (pa_head (sb_pa s)) \<le> pa_size (sb_pa s)" using card_mono [OF c(2) sub] by (simp add: l c(1))
  ultimately show ?thesis using sz by (simp add: pa_leaks_def size_sub_small)
qed

text \<open>
  Histories of the page allocator. From a fresh allocator, after any sequence of \<open>pa_alloc\<close> and \<open>pa_free\<close> in which only live
  pages are freed, the data of two live pages never overlap, a further request never aborts, and it changes no byte of
  a page that stays live. At the end \<open>pa_fini\<close> reports exactly the number of live pages as leaked.
\<close>

theorem pa_history_safe:
  assumes s0: "pa_ok s0" "in_use s0 = {}" "g_pa_size s0 < 2 ^ 64"
    and h: "plays env_ok (\<lambda>n. n \<le> PAGE_SIZE) page_alloc pa_free (Map.empty, s0) (M, s)"
  shows "(\<forall>a n b m. M a = Some n \<longrightarrow> M b = Some m \<longrightarrow> a \<noteq> b \<longrightarrow> page_extent (sb_pa s) a n \<inter> page_extent (sb_pa s) b m = {}) \<and>
    (\<forall>e a n. env_ok e \<longrightarrow> M a = Some n \<longrightarrow> (\<exists>s'. pa_free e a s = Some s' \<and>
       (\<forall>b m. M b = Some m \<longrightarrow> b \<noteq> a \<longrightarrow> (\<forall>x\<in>page_extent (sb_pa s) b m. h_mem s' x = h_mem s x)))) \<and>
    pa_leaks s = card (dom M)"
proof (intro conjI allI impI)
  have i0: "pages_inv (fst (Map.empty, s0)) (snd (Map.empty, s0))" using s0 by (simp add: pages_inv_def)
  note P = pages.plays_safe [OF h i0]
  show "page_extent (sb_pa s) a n \<inter> page_extent (sb_pa s) b m = {}" if "M a = Some n" "M b = Some m" "a \<noteq> b" for a n b m
    by (rule P(3) [OF that])
  show "\<exists>s'. pa_free e a s = Some s' \<and> (\<forall>b m. M b = Some m \<longrightarrow> b \<noteq> a \<longrightarrow> (\<forall>x\<in>page_extent (sb_pa s) b m. h_mem s' x = h_mem s x))"
    if "env_ok e" "M a = Some n" for e a n by (rule P(2) [OF that])
  have i: "pa_ok s" "dom M = in_use s" "g_pa_size s < 2 ^ 64" using pages.plays_inv [OF h i0] by (simp_all add: pages_inv_def)
  show "pa_leaks s = card (dom M)" using leaks_card [OF i(1,3)] i(2) by simp
qed

theorem pa_history_safe_witness:
  "\<exists>page s. plays env_ok (\<lambda>n. n \<le> PAGE_SIZE) page_alloc pa_free (Map.empty, sample_pasb) ([page \<mapsto> 100], s) \<and> pa_leaks s = 1"
proof -
  obtain r s where a: "pa_alloc sample_env sample_pasb = (r, s)" by (cases "pa_alloc sample_env sample_pasb")
  from alloc_page_spec(6) [OF sample_pa(2,1) a] sample_pa(4,5) obtain page where r: "r = Some page" by (cases r) auto
  have h: "plays env_ok (\<lambda>n. n \<le> PAGE_SIZE) page_alloc pa_free (Map.empty, sample_pasb) ([page \<mapsto> 100], s)"
    by (rule plays.got [where e = sample_env]) (use a r sample_pa(1) in \<open>simp_all add: page_alloc_def plays.start\<close>)
  have "g_pa_size sample_pasb < 2 ^ 64" by (simp add: sample_pasb_def)
  from pa_history_safe [OF sample_pa(2,3) this h] have "pa_leaks s = card (dom [page \<mapsto> 100 :: nat])" by blast
  with h show ?thesis by auto
qed

end
