(* ===== verification/Slab.thy ===== *)
theory Slab
  imports PageAlloc
begin

text \<open>
  The slab allocator (\<open>slab.c\<close>): \<open>zus_malloc\<close> and its relatives. Every processor has a slab with a list of free elements for each of the
  8 sizes from 32 bytes to a page; a list without elements takes a page from the page allocator and cuts it into elements, and a
  page whose elements are all free goes back when enough other elements are free. A slab is locked while it is used, so every
  operation on it is one step; whether \<open>_slab_trylock\<close> succeeds is a parameter. The members \<open>nused\<close> and
  \<open>nfree\<close> count elements of at least 32 bytes of an area of \<open>PA_SIZE\<close> bytes and are integers here.
\<close>

section \<open>Data\<close>

record zus_slab_list =
  sl_head :: "addr list"
  nused :: int
  nfree :: int
  nfree_want :: int

record zus_slab =
  sl_list :: "zus_slab_list list"
  sl_cpu :: nat

text \<open>All slabs share the super block info of the global allocator; \<open>nslabs\<close> is the length of the list.\<close>

record zus_global_slab_allocator =
  g_sbi :: zus_sb_info
  g_slab :: "zus_slab list"

text \<open>
  What the environment answers: the page allocator's part, the current processor, the outcome of the attempts to lock a slab, and
  the result of the functions of the C library that allocate memory.
\<close>

record gsa_env =
  ge_pa :: pa_env
  ge_cpu :: int
  ge_try :: "nat \<Rightarrow> bool"
  ge_libc :: "addr option"

abbreviation (input) ZUS_MIN_SLAB_SHIFT :: nat where "ZUS_MIN_SLAB_SHIFT \<equiv> 5"
abbreviation (input) ZUS_MIN_SLAB_SIZE :: nat where "ZUS_MIN_SLAB_SIZE \<equiv> 32"
abbreviation (input) ZUS_MAX_SLABS_PER_BLOCK :: nat where "ZUS_MAX_SLABS_PER_BLOCK \<equiv> 128"
abbreviation (input) ZUS_SLAB_LISTS :: nat where "ZUS_SLAB_LISTS \<equiv> 8"
abbreviation (input) ZUS_SLAB_NFREE_WANT :: int where "ZUS_SLAB_NFREE_WANT \<equiv> 1024"

section \<open>Slab pages\<close>

definition pa_page_meta :: "pa_page \<Rightarrow> 32 word" where
  "pa_page_meta pg = pg_use_count pg"

definition pa_page_meta_set :: "pa_page \<Rightarrow> 32 word \<Rightarrow> pa_page" where
  "pa_page_meta_set pg v = pg\<lparr>pg_use_count := v\<rparr>"

definition page_set_slab :: "nat \<Rightarrow> nat \<Rightarrow> pa_page \<Rightarrow> pa_page" where
  "page_set_slab slab_index cpu pg =
    (pa_page_meta_set pg (word_of_nat slab_index + 1))\<lparr>pg_slab_cpu := word_of_nat cpu, pg_slab_uc := 0\<rparr>"

definition page_clear_slab :: "pa_page \<Rightarrow> pa_page" where
  "page_clear_slab pg = (pa_page_meta_set pg 0)\<lparr>pg_slab_cpu := 0, pg_slab_uc := 0\<rparr>"

definition page_slab_index :: "pa_page \<Rightarrow> int" where
  "page_slab_index pg = sint (pa_page_meta pg) - 1"

definition page_slab_cpu :: "pa_page \<Rightarrow> int" where
  "page_slab_cpu pg = sint (pg_slab_cpu pg)"

definition page_slab_uc_inc :: "pa_page \<Rightarrow> pa_page" where
  "page_slab_uc_inc pg = pg\<lparr>pg_slab_uc := pg_slab_uc pg + 1\<rparr>"

definition page_slab_uc_dec :: "pa_page \<Rightarrow> 32 word \<times> pa_page" where
  "page_slab_uc_dec pg = (pg_slab_uc pg - 1, pg\<lparr>pg_slab_uc := pg_slab_uc pg - 1\<rparr>)"

section \<open>Lists of a slab\<close>

definition slab_init :: "nat \<Rightarrow> zus_slab" where
  "slab_init cpu = \<lparr>sl_list = replicate ZUS_SLAB_LISTS \<lparr>sl_head = [], nused = 0, nfree = 0, nfree_want = ZUS_SLAB_NFREE_WANT\<rparr>, sl_cpu = cpu\<rparr>"

text \<open>Access to \<open>slab->list[slab_index]\<close>; an index out of range is undefined behaviour.\<close>

definition slab_list_at :: "zus_slab \<Rightarrow> nat \<Rightarrow> zus_slab_list run" where
  "slab_list_at slab i = (if i < length (sl_list slab) then Some (sl_list slab ! i) else None)"

definition slab_list_put :: "nat \<Rightarrow> zus_slab_list \<Rightarrow> zus_slab \<Rightarrow> zus_slab" where
  "slab_list_put i l slab = slab\<lparr>sl_list := (sl_list slab)[i := l]\<rparr>"

definition slab_alloc_elem :: "zus_slab \<Rightarrow> nat \<Rightarrow> (addr option \<times> zus_slab) run" where
  "slab_alloc_elem slab slab_index = do {
     l \<leftarrow> slab_list_at slab slab_index;
     (case sl_head l of [] \<Rightarrow> Some (None, slab)
      | se # rest \<Rightarrow>
         Some (Some se, slab_list_put slab_index (l\<lparr>sl_head := rest, nfree := nfree l - 1, nused := nused l + 1\<rparr>) slab)) }"

primrec add_elems :: "nat \<Rightarrow> addr \<Rightarrow> nat \<Rightarrow> zus_slab_list \<Rightarrow> zus_slab_list" where
  "add_elems 0 se step l = l"
| "add_elems (Suc n) se step l =
    add_elems n (se + step * ZUS_MIN_SLAB_SIZE) step (l\<lparr>sl_head := sl_head l @ [se], nfree := nfree l + 1\<rparr>)"

primrec del_elems :: "nat \<Rightarrow> addr \<Rightarrow> nat \<Rightarrow> zus_slab_list \<Rightarrow> zus_slab_list" where
  "del_elems 0 se step l = l"
| "del_elems (Suc n) se step l =
    del_elems n (se + step * ZUS_MIN_SLAB_SIZE) step (l\<lparr>sl_head := remove1 se (sl_head l), nfree := nfree l - 1\<rparr>)"

definition slab_page_init :: "addr \<Rightarrow> nat \<Rightarrow> zus_slab \<Rightarrow> zus_sb_info \<Rightarrow> (zus_slab \<times> zus_sb_info) run" where
  "slab_page_init page slab_index slab s = do {
     l \<leftarrow> slab_list_at slab slab_index;
     let slabs_count = drop_bit slab_index ZUS_MAX_SLABS_PER_BLOCK;
     let step = push_bit slab_index 1;
     let s1 = upd_pg page (page_set_slab slab_index (sl_cpu slab)) s;
     let se = pa_page_address (sb_pa s1) page;
     Some (slab_list_put slab_index (add_elems slabs_count se step l) slab, s1) }"

definition slab_page_fini :: "addr \<Rightarrow> nat \<Rightarrow> zus_slab \<Rightarrow> zus_sb_info \<Rightarrow> (zus_slab \<times> zus_sb_info) run" where
  "slab_page_fini page slab_index slab s = do {
     l \<leftarrow> slab_list_at slab slab_index;
     let slabs_count = drop_bit slab_index ZUS_MAX_SLABS_PER_BLOCK;
     let step = push_bit slab_index 1;
     let se = pa_page_address (sb_pa s) page;
     Some (slab_list_put slab_index (del_elems slabs_count se step l) slab, upd_pg page page_clear_slab s) }"

section \<open>Allocation of an element\<close>

definition slab_size_valid :: "nat \<Rightarrow> bool" where
  "slab_size_valid sz = (0 < sz \<and> sz \<le> PAGE_SIZE)"

text \<open>\<open>__builtin_clz\<close> counts the leading zeros of an \<open>unsigned int\<close>; its argument must not be 0.\<close>

definition builtin_clz :: "32 word \<Rightarrow> nat" where
  "builtin_clz x = length (takeWhile (\<lambda>i. \<not> bit x i) (rev [0..<32]))"

definition slab_list_index :: "nat \<Rightarrow> nat" where
  "slab_list_index sz =
    (if sz \<le> ZUS_MIN_SLAB_SIZE then 0 else 32 - builtin_clz (word_of_nat (drop_bit ZUS_MIN_SLAB_SHIFT (sz - 1))))"

definition slab_check_list_index :: "int \<Rightarrow> unit result" where
  "slab_check_list_index slab_index =
    (if slab_index \<ge> 0 \<and> slab_index < int ZUS_SLAB_LISTS then Inr () else Inl EINVAL)"

definition slab_increase :: "pa_env \<Rightarrow> nat \<Rightarrow> zus_slab \<Rightarrow> zus_sb_info \<Rightarrow> (unit result \<times> zus_slab \<times> zus_sb_info) run" where
  "slab_increase env slab_index slab s =
    (case pa_alloc env s of
       (None, s1) \<Rightarrow> Some (Inl ENOMEM, slab, s1)
     | (Some page, s1) \<Rightarrow> do {
         (slab2, s2) \<leftarrow> slab_page_init page slab_index slab s1;
         Some (Inr (), slab2, s2) })"

definition slab_iscold :: "zus_slab \<Rightarrow> nat \<Rightarrow> bool run" where
  "slab_iscold slab sz =
    (let slab_index = slab_list_index sz in
     case slab_check_list_index (int slab_index) of Inl _ \<Rightarrow> Some False
     | Inr _ \<Rightarrow> do {
         l \<leftarrow> slab_list_at slab slab_index;
         Some (nfree l = 0 \<and> nused l = 0) })"

definition slab_list_empty :: "zus_slab \<Rightarrow> nat \<Rightarrow> bool run" where
  "slab_list_empty slab sz =
    (let slab_index = slab_list_index sz in
     case slab_check_list_index (int slab_index) of Inl _ \<Rightarrow> Some True
     | Inr _ \<Rightarrow> do {
         l \<leftarrow> slab_list_at slab slab_index;
         Some (nfree l = 0) })"

definition slab_alloc :: "pa_env \<Rightarrow> nat \<Rightarrow> zus_slab \<Rightarrow> zus_sb_info \<Rightarrow> (addr option \<times> zus_slab \<times> zus_sb_info) run" where
  "slab_alloc env sz slab s = do {
     let slab_index = slab_list_index sz;
     empty \<leftarrow> slab_list_empty slab sz;
     (err, slab1, s1) \<leftarrow> (if empty then slab_increase env slab_index slab s else Some (Inr (), slab, s));
     (case err of Inl _ \<Rightarrow> Some (None, slab1, s1)
      | Inr _ \<Rightarrow> do {
          (se, slab2) \<leftarrow> slab_alloc_elem slab1 slab_index;
          (case se of None \<Rightarrow> Some (None, slab2, s1)
           | Some a \<Rightarrow> do {
               page \<leftarrow> pa_virt_to_page (e_o2p env) (sb_pa s1) a;
               Some (Some a, slab2, upd_pg page page_slab_uc_inc s1) }) }) }"

section \<open>Release of an element\<close>

definition slab_free_elem :: "addr \<Rightarrow> zus_slab_list \<Rightarrow> zus_slab_list" where
  "slab_free_elem se l = l\<lparr>sl_head := sl_head l @ [se], nfree := nfree l + 1, nused := nused l - 1\<rparr>"

text \<open>The function \<open>__slab_free\<close>.\<close>

definition slab_free_at :: "pa_env \<Rightarrow> nat \<Rightarrow> addr \<Rightarrow> addr \<Rightarrow> zus_slab \<Rightarrow> zus_sb_info \<Rightarrow> (zus_slab \<times> zus_sb_info) run" where
  "slab_free_at env slab_index page a slab s = do {
     l \<leftarrow> slab_list_at slab slab_index;
     let l1 = slab_free_elem a l;
     let slab1 = slab_list_put slab_index l1 slab;
     let (uc, pg) = page_slab_uc_dec (h_page s page);
     let s1 = upd_pg page (\<lambda>_. pg) s;
     if uc \<noteq> 0 then Some (slab1, s1)
     else if nfree l1 < nfree_want l1 then Some (slab1, s1)
     else do {
       (slab2, s2) \<leftarrow> slab_page_fini page slab_index slab1 s1;
       (last, s3) \<leftarrow> pa_put_page env page s2;
       Some (slab2, s3) } }"

definition slab_free :: "pa_env \<Rightarrow> addr \<Rightarrow> zus_slab \<Rightarrow> zus_sb_info \<Rightarrow> (unit result \<times> zus_slab \<times> zus_sb_info) run" where
  "slab_free env a slab s = do {
     page \<leftarrow> pa_virt_to_page (e_o2p env) (sb_pa s) a;
     let slab_index = page_slab_index (h_page s page);
     (case slab_check_list_index slab_index of Inl e \<Rightarrow> Some (Inl e, slab, s)
      | Inr _ \<Rightarrow> do {
          (slab1, s1) \<leftarrow> slab_free_at env (nat slab_index) page a slab s;
          Some (Inr (), slab1, s1) }) }"

section \<open>The global allocator\<close>

definition pa_addr_inrange :: "zus_sb_info \<Rightarrow> addr \<Rightarrow> bool" where
  "pa_addr_inrange s a = (let p = sb_pa s in pa_data p \<le> a \<and> a < pa_data p + pa_size p * PAGE_SIZE)"

definition zus_gsa_cpu_of :: "pa_env \<Rightarrow> addr \<Rightarrow> zus_global_slab_allocator \<Rightarrow> int run" where
  "zus_gsa_cpu_of env ptr g =
    (if ptr = 0 then Some (- 1)
     else if ptr mod 2 ^ ZUS_MIN_SLAB_SHIFT \<noteq> 0 then Some (- 1)
     else if \<not> pa_addr_inrange (g_sbi g) ptr then Some (- 1)
     else do {
       page \<leftarrow> pa_virt_to_page (e_o2p env) (sb_pa (g_sbi g)) ptr;
       Some (page_slab_cpu (h_page (g_sbi g) page)) })"

text \<open>Slabs of the global allocator by their position.\<close>

definition zus_gsa_sslab_at :: "zus_global_slab_allocator \<Rightarrow> nat \<Rightarrow> nat \<Rightarrow> nat" where
  "zus_gsa_sslab_at g cpu index = (cpu + index) mod length (g_slab g)"

definition slab_of_cpu :: "zus_global_slab_allocator \<Rightarrow> int \<Rightarrow> nat option" where
  "slab_of_cpu g cpu = (if cpu < 0 \<or> int (length (g_slab g)) \<le> cpu then None else Some (nat cpu))"

definition slab_alloc_at :: "pa_env \<Rightarrow> nat \<Rightarrow> nat \<Rightarrow> zus_global_slab_allocator \<Rightarrow> (addr option \<times> zus_global_slab_allocator) run" where
  "slab_alloc_at env c sz g = do {
     (ptr, slab, s) \<leftarrow> slab_alloc env sz (g_slab g ! c) (g_sbi g);
     Some (ptr, g\<lparr>g_slab := (g_slab g)[c := slab], g_sbi := s\<rparr>) }"

text \<open>The loop of \<open>_zus_gsa_malloc\<close> and the code behind the label \<open>out\<close>: \<open>n\<close> rounds are left, \<open>c\<close> is the slab of this round.\<close>

fun gsa_malloc_loop :: "gsa_env \<Rightarrow> nat \<Rightarrow> nat \<Rightarrow> nat \<Rightarrow> nat \<Rightarrow> nat \<Rightarrow> zus_global_slab_allocator \<Rightarrow>
    (addr option \<times> zus_global_slab_allocator) run" where
  "gsa_malloc_loop e cpu sz i 0 c g = slab_alloc_at (ge_pa e) c sz g"
| "gsa_malloc_loop e cpu sz i (Suc n) c g = do {
     empty \<leftarrow> (if ge_try e i then slab_list_empty (g_slab g ! c) sz else Some True);
     if \<not> empty then slab_alloc_at (ge_pa e) c sz g
     else gsa_malloc_loop e cpu sz (i + 1) n (zus_gsa_sslab_at g cpu (i + 1)) g }"

definition zus_gsa_malloc :: "gsa_env \<Rightarrow> nat \<Rightarrow> zus_global_slab_allocator \<Rightarrow> (addr option \<times> zus_global_slab_allocator) run" where
  "zus_gsa_malloc e sz g = do {
     c \<leftarrow> slab_of_cpu g (ge_cpu e);
     cold \<leftarrow> slab_iscold (g_slab g ! c) sz;
     if cold then slab_alloc_at (ge_pa e) c sz g
     else gsa_malloc_loop e (nat (ge_cpu e)) sz 0 (length (g_slab g)) c g }"

definition slab_free_in :: "pa_env \<Rightarrow> nat \<Rightarrow> addr \<Rightarrow> zus_global_slab_allocator \<Rightarrow> (unit result \<times> zus_global_slab_allocator) run" where
  "slab_free_in env c a g = do {
     (err, slab, s) \<leftarrow> slab_free env a (g_slab g ! c) (g_sbi g);
     Some (err, g\<lparr>g_slab := (g_slab g)[c := slab], g_sbi := s\<rparr>) }"

definition zus_gsa_free :: "gsa_env \<Rightarrow> addr \<Rightarrow> zus_global_slab_allocator \<Rightarrow> zus_global_slab_allocator run" where
  "zus_gsa_free e ptr g = do {
     cpu \<leftarrow> zus_gsa_cpu_of (ge_pa e) ptr g;
     if cpu < 0 then Some g
     else do {
       c \<leftarrow> slab_of_cpu g cpu;
       (err, g1) \<leftarrow> slab_free_in (ge_pa e) c ptr g;
       Some g1 } }"

text \<open>\<open>-EINVAL\<close> becomes a \<open>size_t\<close>; \<open>EINVAL\<close> is 22.\<close>

definition elem_size :: "pa_env \<Rightarrow> addr \<Rightarrow> zus_global_slab_allocator \<Rightarrow> nat run" where
  "elem_size env a g = do {
     page \<leftarrow> pa_virt_to_page (e_o2p env) (sb_pa (g_sbi g)) a;
     let slab_index = page_slab_index (h_page (g_sbi g) page);
     (case slab_check_list_index slab_index of Inl _ \<Rightarrow> Some (2 ^ 64 - 22)
      | Inr _ \<Rightarrow> Some (2 ^ (nat slab_index + ZUS_MIN_SLAB_SHIFT))) }"

section \<open>The interface\<close>

text \<open>The pointer \<open>g_gsa\<close> is \<open>NULL\<close> before \<open>zus_slab_init\<close> and after \<open>zus_slab_fini\<close>.\<close>

type_synonym gsa_ptr = "zus_global_slab_allocator option"

definition zus_malloc :: "gsa_env \<Rightarrow> nat \<Rightarrow> gsa_ptr \<Rightarrow> (addr option \<times> gsa_ptr) run" where
  "zus_malloc e sz gsa =
    (case gsa of None \<Rightarrow> Some (None, gsa)
     | Some g \<Rightarrow>
        if sz = 0 then Some (None, gsa)
        else if \<not> slab_size_valid sz then Some (ge_libc e, gsa)
        else do {
          (ptr, g1) \<leftarrow> zus_gsa_malloc e sz g;
          (case ptr of None \<Rightarrow> Some (ge_libc e, Some g1) | Some a \<Rightarrow> Some (Some a, Some g1)) })"

definition zus_free :: "gsa_env \<Rightarrow> addr option \<Rightarrow> gsa_ptr \<Rightarrow> gsa_ptr run" where
  "zus_free e ptr gsa =
    (case gsa of None \<Rightarrow> Some gsa
     | Some g \<Rightarrow>
        (case ptr of None \<Rightarrow> Some gsa
         | Some a \<Rightarrow> do {
             cpu \<leftarrow> zus_gsa_cpu_of (ge_pa e) a g;
             if cpu < 0 then Some gsa
             else do { g1 \<leftarrow> zus_gsa_free e a g; Some (Some g1) } }))"

definition mem_write :: "addr \<Rightarrow> nat \<Rightarrow> (nat \<Rightarrow> byte) \<Rightarrow> zus_global_slab_allocator \<Rightarrow> zus_global_slab_allocator" where
  "mem_write a n src g =
    g\<lparr>g_sbi := (g_sbi g)\<lparr>h_mem := (\<lambda>x. if a \<le> x \<and> x < a + n then src (x - a) else h_mem (g_sbi g) x)\<rparr>\<rparr>"

definition zus_calloc :: "gsa_env \<Rightarrow> nat \<Rightarrow> nat \<Rightarrow> gsa_ptr \<Rightarrow> (addr option \<times> gsa_ptr) run" where
  "zus_calloc e nmemb elemsz gsa =
    (let sz = (nmemb * elemsz) mod 2 ^ 64 in
     case gsa of None \<Rightarrow> Some (None, gsa)
     | Some _ \<Rightarrow>
        if \<not> slab_size_valid sz then Some (ge_libc e, gsa)
        else do {
          (ptr, gsa1) \<leftarrow> zus_malloc e sz gsa;
          (case ptr of None \<Rightarrow> Some (None, gsa1)
           | Some a \<Rightarrow> Some (Some a, map_option (mem_write a sz (\<lambda>_. 0)) gsa1)) })"

text \<open>For memory of the C library, \<open>realloc\<close> is its own; the slab allocator is unchanged.\<close>

definition zus_realloc :: "gsa_env \<Rightarrow> addr option \<Rightarrow> nat \<Rightarrow> gsa_ptr \<Rightarrow> (addr option \<times> gsa_ptr) run" where
  "zus_realloc e ptr sz gsa =
    (case gsa of None \<Rightarrow> Some (None, gsa)
     | Some g \<Rightarrow>
        (case ptr of None \<Rightarrow> zus_malloc e sz gsa
         | Some a \<Rightarrow>
            if sz = 0 then do { gsa1 \<leftarrow> zus_free e ptr gsa; Some (None, gsa1) }
            else do {
              cpu \<leftarrow> zus_gsa_cpu_of (ge_pa e) a g;
              early \<leftarrow> (if cpu < 0 then Some (if \<not> slab_size_valid sz then Some (ge_libc e) else None)
                        else do { es \<leftarrow> elem_size (ge_pa e) a g; Some (if sz \<le> es then Some ptr else None) });
              (case early of Some r \<Rightarrow> Some (r, gsa)
               | None \<Rightarrow> do {
                   (newptr, gsa1) \<leftarrow> zus_malloc e sz gsa;
                   (case newptr of None \<Rightarrow> Some (None, gsa1)
                    | Some b \<Rightarrow> do {
                        g1 \<leftarrow> gsa1;
                        es \<leftarrow> elem_size (ge_pa e) a g1;
                        let g2 = mem_write b es (\<lambda>i. h_mem (g_sbi g1) (a + i)) g1;
                        gsa3 \<leftarrow> zus_free e ptr (Some g2);
                        Some (newptr, gsa3) }) }) }))"

abbreviation (input) ZUS_ZERO :: "32 word" where "ZUS_ZERO \<equiv> 1"

definition zus_virt_to_page :: "pa_env \<Rightarrow> addr \<Rightarrow> zus_global_slab_allocator \<Rightarrow> addr option" where
  "zus_virt_to_page env a g = pa_virt_to_page (e_o2p env) (sb_pa (g_sbi g)) a"

definition zus_page_address :: "addr \<Rightarrow> zus_global_slab_allocator \<Rightarrow> addr" where
  "zus_page_address page g = pa_page_address (sb_pa (g_sbi g)) page"

definition zus_alloc_page :: "gsa_env \<Rightarrow> 32 word \<Rightarrow> gsa_ptr \<Rightarrow> (addr option \<times> gsa_ptr) run" where
  "zus_alloc_page e m gsa = do {
     (ptr, gsa1) \<leftarrow> zus_malloc e PAGE_SIZE gsa;
     (case ptr of None \<Rightarrow> Some (None, gsa1)
      | Some a \<Rightarrow> do {
          g1 \<leftarrow> gsa1;
          let g2 = (if m AND ZUS_ZERO \<noteq> 0 then mem_write a PAGE_SIZE (\<lambda>_. 0) g1 else g1);
          Some (zus_virt_to_page (ge_pa e) a g2, Some g2) }) }"

definition zus_free_page :: "gsa_env \<Rightarrow> addr \<Rightarrow> zus_global_slab_allocator \<Rightarrow> zus_global_slab_allocator run" where
  "zus_free_page e page g = do {
     let cpu = page_slab_cpu (h_page (g_sbi g) page);
     if cpu < 0 then Some g
     else do {
       c \<leftarrow> slab_of_cpu g cpu;
       (err, g1) \<leftarrow> slab_free_in (ge_pa e) c (pa_page_address (sb_pa (g_sbi g)) page) g;
       Some g1 } }"

text \<open>The C function returns the positive error number of \<open>posix_memalign\<close>. \<open>memory\<close> is the success of \<open>posix_memalign\<close>, \<open>s\<close> the super block info that \<open>pa_init\<close> prepares or its error.\<close>

definition zus_slab_init :: "errno option \<Rightarrow> nat \<Rightarrow> zus_sb_info result \<Rightarrow> gsa_ptr \<Rightarrow> unit result \<times> gsa_ptr" where
  "zus_slab_init memory nprocs s gsa =
    (case gsa of Some _ \<Rightarrow> (Inl EINVAL, gsa)
     | None \<Rightarrow>
        (case memory of Some e \<Rightarrow> (Inl e, gsa)
         | None \<Rightarrow>
            (case s of Inl e \<Rightarrow> (Inl e, gsa)
             | Inr sbi \<Rightarrow> (Inr (), Some \<lparr>g_sbi = sbi, g_slab = map slab_init [0..<nprocs]\<rparr>))))"


section \<open>Size classes\<close>

text \<open>The class of a size, computed by halving it until it fits the smallest element.\<close>

function slab_class :: "nat \<Rightarrow> nat" where
  "slab_class sz = (if sz \<le> 32 then 0 else Suc (slab_class ((sz + 1) div 2)))"
  by pat_completeness auto
termination by (relation "measure id") auto

declare slab_class.simps [simp del]

lemma slab_class_bounds: "sz \<le> 32 * 2 ^ slab_class sz \<and> (\<forall>k. slab_class sz = Suc k \<longrightarrow> 32 * 2 ^ k < sz)"
proof (induction sz rule: slab_class.induct)
  case (1 sz)
  show ?case
  proof (cases "sz \<le> 32")
    case True
    then show ?thesis by (simp add: slab_class.simps [of sz])
  next
    case False
    let ?h = "(sz + 1) div 2"
    note IH = "1" [OF False]
    have e: "slab_class sz = Suc (slab_class ?h)" using False by (simp add: slab_class.simps [of sz])
    have "32 * 2 ^ slab_class ?h < sz"
    proof (cases "slab_class ?h")
      case 0
      with False show ?thesis by simp
    next
      case (Suc j)
      with IH have "32 * 2 ^ j < ?h" by blast
      then show ?thesis unfolding Suc power_Suc by linarith
    qed
    moreover have "sz \<le> 2 * ?h" by simp
    ultimately show ?thesis using IH by (simp add: e)
  qed
qed

lemma slab_class_unique:
  assumes "sz \<le> 32 * 2 ^ n" "n = 0 \<or> 32 * 2 ^ (n - 1) < sz"
  shows "slab_class sz = n"
proof (rule ccontr)
  note B = slab_class_bounds [of sz]
  have mono: "(2::nat) ^ a \<le> 2 ^ b" if "a \<le> b" for a b using that by (rule power_increasing) simp
  assume "slab_class sz \<noteq> n"
  then consider "slab_class sz < n" | "n < slab_class sz" by linarith
  then show False
  proof cases
    case 1
    then have "(2::nat) ^ slab_class sz \<le> 2 ^ (n - 1)" by (intro mono) simp
    moreover have "32 * 2 ^ (n - 1) < sz" using assms(2) 1 by auto
    ultimately show False using B by linarith
  next
    case 2
    then obtain k where k: "slab_class sz = Suc k" "n \<le> k" by (cases "slab_class sz") auto
    with B have "32 * 2 ^ k < sz" by blast
    with mono [OF k(2)] assms(1) show False by linarith
  qed
qed

lemma clz_bit_length:
  assumes "2 ^ k \<le> x" "x < 2 ^ Suc k" "k < 32"
  shows "builtin_clz (word_of_nat x) = 31 - k"
proof -
  have b: "bit (word_of_nat x :: 32 word) i = (i < 32 \<and> bit x i)" for i by (simp add: bit_simps)
  have hi: "\<not> bit x i" if "k < i" for i
  proof -
    have "x < 2 ^ i" using assms(2) power_increasing [of "Suc k" i "2::nat"] that by simp
    then show ?thesis by (simp add: bit_iff_odd)
  qed
  have "x div 2 ^ k = 1" using assms(1,2) by (intro div_nat_eqI) simp_all
  then have lo: "bit x k" by (simp add: bit_iff_odd)
  have "[0..<32] = [0..<k] @ [k..<32]" using upt_add_eq_append [of 0 k "32 - k"] assms(3) by simp
  moreover have "[k..<32] = k # [Suc k..<32]" using assms(3) by (rule upt_conv_Cons)
  ultimately have e: "rev [0..<32] = rev [Suc k..<32] @ k # rev [0..<k]" by simp
  have "takeWhile (\<lambda>i. \<not> bit (word_of_nat x :: 32 word) i) (rev [0..<32]) = rev [Suc k..<32]"
    unfolding e by (subst takeWhile_append2) (use hi lo assms(3) in \<open>auto simp: b\<close>)
  then show ?thesis by (simp add: builtin_clz_def)
qed

lemma slab_list_index_class:
  assumes "sz \<le> 2 ^ 37"
  shows "slab_list_index sz = slab_class sz"
proof (cases "sz \<le> 32")
  case True
  then show ?thesis by (simp add: slab_list_index_def slab_class.simps [of sz])
next
  case False
  define x where "x = (sz - 1) div 32"
  have x: "1 \<le> x" "x < 2 ^ 32" using False assms by (simp_all add: x_def div_less_iff_less_mult)
  from ex_power_ivl1 [of 2 x] x(1) obtain k where k: "2 ^ k \<le> x" "x < 2 ^ Suc k" by auto
  have k32: "k < 32"
  proof (rule ccontr)
    assume "\<not> k < 32"
    then have "(2::nat) ^ 32 \<le> 2 ^ k" by (intro power_increasing) simp_all
    with k(1) x(2) show False by simp
  qed
  have d: "drop_bit 5 (sz - 1) = x" by (simp add: drop_bit_eq_div x_def)
  have i: "slab_list_index sz = Suc k" using False clz_bit_length [OF k k32] k32 d by (simp add: slab_list_index_def)
  have "sz - 1 < 2 ^ Suc k * 32" using k(2) by (simp add: x_def div_less_iff_less_mult)
  moreover have "2 ^ k * 32 \<le> sz - 1" using k(1) by (simp add: x_def less_eq_div_iff_mult_less_eq)
  ultimately have "slab_class sz = Suc k" using False by (intro slab_class_unique) simp_all
  with i show ?thesis by simp
qed

lemma slab_index_valid:
  assumes "slab_size_valid sz"
  shows "slab_list_index sz < 8" "sz \<le> 32 * 2 ^ slab_list_index sz"
proof -
  have v: "0 < sz" "sz \<le> 4096" using assms by (simp_all add: slab_size_valid_def)
  have e: "slab_list_index sz = slab_class sz" by (rule slab_list_index_class) (use v in simp)
  show "slab_list_index sz < 8"
  proof (rule ccontr)
    assume "\<not> slab_list_index sz < 8"
    then obtain k where k: "slab_class sz = Suc k" "7 \<le> k" unfolding e by (cases "slab_class sz") auto
    have "(2::nat) ^ 7 \<le> 2 ^ k" using k(2) by (intro power_increasing) simp_all
    moreover have "32 * 2 ^ k < sz" using slab_class_bounds [of sz] k(1) by blast
    ultimately show False using v(2) by simp
  qed
  show "sz \<le> 32 * 2 ^ slab_list_index sz" unfolding e using slab_class_bounds by blast
qed

text \<open>
  C24. Size classes. For all sizes up to 128 GB the index that \<open>_slab_list_index\<close> computes by counting leading zeros is
  the number of halvings until the size fits into 32 bytes: the element of this class is large enough, and the one
  of the class below would be too small. Exactly the sizes up to a page have one of the 8 lists.
\<close>

theorem slab_list_index_correct:
  assumes "sz \<le> 2 ^ 37"
  shows "slab_list_index sz = slab_class sz \<and> sz \<le> 32 * 2 ^ slab_list_index sz \<and>
    (slab_list_index sz = 0 \<or> 32 * 2 ^ (slab_list_index sz - 1) < sz) \<and> (slab_list_index sz < 8 \<longleftrightarrow> sz \<le> PAGE_SIZE)"
proof -
  have e: "slab_list_index sz = slab_class sz" by (rule slab_list_index_class [OF assms])
  have b: "sz \<le> 32 * 2 ^ slab_class sz" "slab_class sz = 0 \<or> 32 * 2 ^ (slab_class sz - 1) < sz"
    using slab_class_bounds [of sz] by (cases "slab_class sz"; simp)+
  have "slab_list_index sz < 8 \<longleftrightarrow> sz \<le> PAGE_SIZE"
  proof
    assume "slab_list_index sz < 8"
    then have "(2::nat) ^ slab_class sz \<le> 2 ^ 7" unfolding e by (intro power_increasing) simp_all
    with b(1) show "sz \<le> PAGE_SIZE" by simp
  next
    assume "sz \<le> PAGE_SIZE"
    then show "slab_list_index sz < 8" using slab_index_valid(1) [of sz] by (cases "sz = 0") (simp_all add: slab_size_valid_def slab_list_index_def)
  qed
  with e b show ?thesis by simp
qed

theorem slab_list_index_correct_witness: "slab_list_index 4096 = 7 \<and> slab_list_index 4097 = 8 \<and> slab_list_index 100 = 2"
proof -
  have "slab_class 4096 = 7" "slab_class 4097 = 8" "slab_class 100 = 2" by (rule slab_class_unique; simp)+
  then show ?thesis using slab_list_index_correct [of 4096] slab_list_index_correct [of 4097] slab_list_index_correct [of 100] by simp
qed

end
