(* ===== verification/SlabSafe.thy ===== *)
theory SlabSafe
  imports Slab
begin

text \<open>
  Safety of the slab allocator. The invariant relates the lists of free elements to the live objects: \<open>C\<close> tells for
  a slab page the processor and the list it belongs to, \<open>M\<close> gives the size that was asked for with a live object.
\<close>

section \<open>Elements\<close>

definition esize :: "nat \<Rightarrow> nat" where
  "esize i = 32 * 2 ^ i"

definition elems :: "pa \<Rightarrow> addr \<Rightarrow> nat \<Rightarrow> addr set" where
  "elems p pg i = (\<lambda>k. pa_page_address p pg + k * esize i) ` {..<128 div 2 ^ i}"

definition class_elems :: "(addr \<rightharpoonup> nat \<times> nat) \<Rightarrow> pa \<Rightarrow> nat \<Rightarrow> nat \<Rightarrow> addr set" where
  "class_elems C p c i = {a. \<exists>pg. C pg = Some (c, i) \<and> a \<in> elems p pg i}"

lemma esize_pos [simp]: "0 < esize i" "esize i \<noteq> 0" by (simp_all add: esize_def)

lemma elems_page_size: "i < 8 \<Longrightarrow> 128 div 2 ^ i * esize i = PAGE_SIZE"
proof -
  assume "i < 8"
  then have "(2::nat) ^ i dvd 2 ^ 7" by (intro le_imp_power_dvd) simp
  then have "(128::nat) div 2 ^ i * 2 ^ i = 128" by simp
  then show ?thesis by (simp add: esize_def mult.commute mult.left_commute)
qed

lemma elem_in_page:
  assumes "a \<in> elems p pg i" "i < 8"
  shows "{a..<a + esize i} \<subseteq> page_bytes p pg"
proof -
  from assms(1) obtain k where k: "a = pa_page_address p pg + k * esize i" "k < 128 div 2 ^ i" by (auto simp: elems_def)
  have "(k + 1) * esize i \<le> 128 div 2 ^ i * esize i" using k(2) by (intro mult_le_mono1) simp
  then have "k * esize i + esize i \<le> PAGE_SIZE" using elems_page_size [OF assms(2)] by simp
  then show ?thesis using k(1) by (auto simp: page_bytes_def)
qed

lemma elem_mem_page: "a \<in> elems p pg i \<Longrightarrow> i < 8 \<Longrightarrow> a \<in> page_bytes p pg"
  using elem_in_page [of a p pg i] esize_pos(1) [of i] by auto

lemma elems_apart:
  assumes "a \<in> elems p pg i" "b \<in> elems p pg i" "a \<noteq> b"
  shows "{a..<a + esize i} \<inter> {b..<b + esize i} = {}"
proof -
  from assms(1,2) obtain k l where k: "a = pa_page_address p pg + k * esize i" "b = pa_page_address p pg + l * esize i" by (auto simp: elems_def)
  with assms(3) have "k < l \<or> l < k" by auto
  then have "k + 1 \<le> l \<or> l + 1 \<le> k" by linarith
  then have "(k + 1) * esize i \<le> l * esize i \<or> (l + 1) * esize i \<le> k * esize i" using mult_le_mono1 by blast
  then show ?thesis using k by auto
qed

lemma elems_finite [simp]: "finite (elems p pg i)" by (simp add: elems_def)

lemma card_elems: "card (elems p pg i) = 128 div 2 ^ i"
proof -
  have "inj_on (\<lambda>k. pa_page_address p pg + k * esize i) {..<128 div 2 ^ i}" using esize_pos(1) [of i] by (auto simp: inj_on_def)
  then show ?thesis by (simp add: elems_def card_image)
qed

lemma elem_page:
  assumes e: "env_ok env" and pg: "pg \<in> page_set p" and a: "a \<in> page_bytes p pg"
  shows "pa_virt_to_page (e_o2p env) p a = Some pg" "pa_data p \<le> a" "a < pa_data p + pa_size p * PAGE_SIZE"
proof -
  from pg obtain b where b: "pg = pa_bn_to_page p b" "b < pa_size p" by (rule page_setE)
  then obtain k where k: "a = pa_data p + b * PAGE_SIZE + k" "k < PAGE_SIZE"
    using a by (auto simp: page_bytes_def pa_page_address_def) (metis add.commute less_diff_conv2 le_iff_add)
  have "(b + 1) * PAGE_SIZE \<le> pa_size p * PAGE_SIZE" using b(2) by (intro mult_le_mono1) simp
  then have lt: "b * PAGE_SIZE + k < pa_size p * PAGE_SIZE" using k(2) by simp
  then show "pa_data p \<le> a" "a < pa_data p + pa_size p * PAGE_SIZE" using k(1) by simp_all
  then show "pa_virt_to_page (e_o2p env) p a = Some pg"
    using e b(1) k by (simp add: pa_virt_to_page_def pa_valid_addr_def env_ok_def)
qed

text \<open>The elements that the loops of \<open>_slab_page_init\<close> and \<open>_slab_page_fini\<close> visit.\<close>

lemma add_elems_spec:
  "add_elems n se step l = l\<lparr>sl_head := sl_head l @ map (\<lambda>k. se + k * (step * 32)) [0..<n], nfree := nfree l + int n\<rparr>"
proof (induction n arbitrary: se l)
  case 0
  show ?case by simp
next
  case (Suc n)
  have "[0..<Suc n] = 0 # map Suc [0..<n]" by (simp add: upt_conv_Cons map_Suc_upt)
  then show ?case using Suc by (simp add: comp_def algebra_simps del: upt_Suc)
qed

lemma del_elems_spec:
  "distinct (sl_head l) \<Longrightarrow>
   del_elems n se step l = l\<lparr>sl_head := filter (\<lambda>x. x \<notin> (\<lambda>k. se + k * (step * 32)) ` {..<n}) (sl_head l), nfree := nfree l - int n\<rparr>"
proof (induction n arbitrary: se l)
  case 0
  show ?case by simp
next
  case (Suc n)
  have e: "(\<lambda>k. se + k * (step * 32)) ` {..<Suc n} = insert se ((\<lambda>k. se + step * 32 + k * (step * 32)) ` {..<n})"
    unfolding lessThan_Suc_eq_insert_0 by (auto simp: image_image algebra_simps)
  have "distinct (sl_head (l\<lparr>sl_head := remove1 se (sl_head l), nfree := nfree l - 1\<rparr>))" using Suc.prems by simp
  from Suc.IH [OF this, of "se + step * 32"] show ?case unfolding e
    using Suc.prems by (simp add: distinct_remove1_removeAll removeAll_filter_not_eq eq_commute [of se] conj_commute)
qed

lemma page_elems:
  assumes "i < 8"
  shows "(\<lambda>k. pa_page_address p pg + k * (push_bit i 1 * 32)) ` {..<drop_bit i 128} = elems p pg i"
    "set (map (\<lambda>k. pa_page_address p pg + k * (push_bit i 1 * 32)) [0..<drop_bit i 128]) = elems p pg i"
    "distinct (map (\<lambda>k. pa_page_address p pg + k * (push_bit i 1 * 32)) [0..<drop_bit i 128])"
  by (auto simp: elems_def esize_def push_bit_eq_mult drop_bit_eq_div distinct_map inj_on_def mult.commute atLeast0LessThan)


section \<open>The invariant\<close>

abbreviation lst :: "zus_global_slab_allocator \<Rightarrow> nat \<Rightarrow> nat \<Rightarrow> zus_slab_list" where
  "lst g c i \<equiv> sl_list (g_slab g ! c) ! i"

abbreviation gpa :: "zus_global_slab_allocator \<Rightarrow> pa" where
  "gpa g \<equiv> sb_pa (g_sbi g)"

definition shape_ok :: "zus_global_slab_allocator \<Rightarrow> bool" where
  "shape_ok g =
    (length (g_slab g) < 2 ^ 31 \<and> (\<forall>c<length (g_slab g). length (sl_list (g_slab g ! c)) = 8 \<and> sl_cpu (g_slab g ! c) = c) \<and>
     pa_data (gpa g) mod 32 = 0 \<and> 0 < pa_data (gpa g))"

text \<open>A slab page: the members of its page structure tell its list, and how many of its elements are live.\<close>

definition slab_page_ok :: "nat \<Rightarrow> addr set \<Rightarrow> zus_sb_info \<Rightarrow> addr \<Rightarrow> nat \<times> nat \<Rightarrow> bool" where
  "slab_page_ok nslabs U s pg ci =
    (fst ci < nslabs \<and> snd ci < 8 \<and> pg \<in> in_use s \<and> pg_refcount (h_page s pg) = 1 \<and>
     pg_use_count (h_page s pg) = word_of_nat (snd ci) + 1 \<and> pg_slab_cpu (h_page s pg) = word_of_nat (fst ci) \<and>
     pg_slab_uc (h_page s pg) = word_of_nat (card (elems (sb_pa s) pg (snd ci) \<inter> U)))"

definition slab_list_ok :: "addr set \<Rightarrow> addr set \<Rightarrow> zus_slab_list \<Rightarrow> bool" where
  "slab_list_ok E U l =
    (finite E \<and> distinct (sl_head l) \<and> set (sl_head l) = E - U \<and> nfree l = int (length (sl_head l)) \<and> nused l = int (card (E \<inter> U)))"

definition object_ok :: "(addr \<rightharpoonup> nat \<times> nat) \<Rightarrow> pa \<Rightarrow> addr \<Rightarrow> nat \<Rightarrow> bool" where
  "object_ok C p a n = (\<exists>pg c i. C pg = Some (c, i) \<and> a \<in> elems p pg i \<and> n \<le> esize i)"

definition gsa_wf :: "(addr \<rightharpoonup> nat \<times> nat) \<Rightarrow> (addr \<rightharpoonup> nat) \<Rightarrow> zus_global_slab_allocator \<Rightarrow> bool" where
  "gsa_wf C M g =
    (shape_ok g \<and> pa_ok (g_sbi g) \<and>
     (\<forall>pg ci. C pg = Some ci \<longrightarrow> slab_page_ok (length (g_slab g)) (dom M) (g_sbi g) pg ci) \<and>
     (\<forall>c<length (g_slab g). \<forall>i<8. slab_list_ok (class_elems C (gpa g) c i) (dom M) (lst g c i)) \<and>
     (\<forall>a n. M a = Some n \<longrightarrow> object_ok C (gpa g) a n))"

lemma gsa_wfD:
  assumes "gsa_wf C M g"
  shows "shape_ok g" "pa_ok (g_sbi g)" "C pg = Some ci \<Longrightarrow> slab_page_ok (length (g_slab g)) (dom M) (g_sbi g) pg ci"
    "c < length (g_slab g) \<Longrightarrow> i < 8 \<Longrightarrow> slab_list_ok (class_elems C (gpa g) c i) (dom M) (lst g c i)"
    "M a = Some n \<Longrightarrow> object_ok C (gpa g) a n"
  using assms unfolding gsa_wf_def by blast+

lemma slab_page_okD:
  assumes "slab_page_ok k U s pg (c, i)"
  shows "c < k" "i < 8" "pg \<in> in_use s" "pg \<in> page_set (sb_pa s)" "pg_refcount (h_page s pg) = 1"
    "pg_use_count (h_page s pg) = word_of_nat i + 1" "pg_slab_cpu (h_page s pg) = word_of_nat c"
    "pg_slab_uc (h_page s pg) = word_of_nat (card (elems (sb_pa s) pg i \<inter> U))"
  using assms by (simp_all add: slab_page_ok_def in_use_def)

text \<open>An element belongs to one page only.\<close>

lemma elem_unique:
  assumes wf: "gsa_wf C M g" and "C pg = Some (c, i)" "C q = Some (d, j)" "a \<in> elems (gpa g) pg i" "a \<in> elems (gpa g) q j"
  shows "q = pg" "d = c" "j = i"
proof -
  note P = slab_page_okD [OF gsa_wfD(3) [OF wf assms(2)]] and Q = slab_page_okD [OF gsa_wfD(3) [OF wf assms(3)]]
  have "a \<in> page_bytes (gpa g) pg" "a \<in> page_bytes (gpa g) q" using elem_mem_page assms(4,5) P(2) Q(2) by blast+
  then show "q = pg" using page_bytes_disjoint [OF gsa_wfD(2) [OF wf] P(4) Q(4)] by auto
  then show "d = c" "j = i" using assms(2,3) by auto
qed

lemma class_elem_unique:
  assumes wf: "gsa_wf C M g" and "C pg = Some (c, i)" "a \<in> elems (gpa g) pg i"
  shows "a \<in> class_elems C (gpa g) d j \<longleftrightarrow> d = c \<and> j = i"
  using elem_unique [OF wf assms(2) _ assms(3)] assms(2,3) unfolding class_elems_def by blast

text \<open>Replacing one list.\<close>

definition put_lst :: "nat \<Rightarrow> nat \<Rightarrow> zus_slab_list \<Rightarrow> zus_global_slab_allocator \<Rightarrow> zus_global_slab_allocator" where
  "put_lst c i l g = g\<lparr>g_slab := (g_slab g)[c := slab_list_put i l (g_slab g ! c)]\<rparr>"

lemma put_lst_flds [simp]:
  "g_sbi (put_lst c i l g) = g_sbi g" "length (g_slab (put_lst c i l g)) = length (g_slab g)"
  by (simp_all add: put_lst_def)

lemma lst_put_lst:
  "shape_ok g \<Longrightarrow> c < length (g_slab g) \<Longrightarrow> i < 8 \<Longrightarrow> d < length (g_slab g) \<Longrightarrow> j < 8 \<Longrightarrow>
   lst (put_lst c i l g) d j = (if d = c \<and> j = i then l else lst g d j)"
  by (auto simp: put_lst_def slab_list_put_def nth_list_update shape_ok_def)

lemma shape_put_lst: "shape_ok g \<Longrightarrow> c < length (g_slab g) \<Longrightarrow> shape_ok (put_lst c i l g)"
  by (auto simp: put_lst_def slab_list_put_def nth_list_update shape_ok_def)

lemma shape_sbi: "shape_ok g \<Longrightarrow> same_area (g_sbi g) s \<Longrightarrow> shape_ok (g\<lparr>g_sbi := s\<rparr>)"
  by (simp add: shape_ok_def same_area_def)

lemma same_area_elems:
  assumes "same_area s s'"
  shows "elems (sb_pa s') = elems (sb_pa s)" "class_elems C (sb_pa s') = class_elems C (sb_pa s)" "page_bytes (sb_pa s') = page_bytes (sb_pa s)"
    "object_ok C (sb_pa s') = object_ok C (sb_pa s)"
  using assms by (simp_all add: fun_eq_iff elems_def class_elems_def object_ok_def page_bytes_def pa_page_address_def pa_page_to_bn_def same_area_def)


lemma upd_pg_frame:
  assumes "\<And>x. pg_refcount (f x) = pg_refcount x" "\<And>x. pg_owner (f x) = pg_owner x"
  shows "pa_ok (upd_pg pg f s) = pa_ok s" "in_use (upd_pg pg f s) = in_use s" "same_area s (upd_pg pg f s)" "sb_pa (upd_pg pg f s) = sb_pa s"
    "h_mem (upd_pg pg f s) = h_mem s" "h_page (upd_pg pg f s) = (h_page s)(pg := f (h_page s pg))"
proof -
  show "sb_pa (upd_pg pg f s) = sb_pa s" "h_mem (upd_pg pg f s) = h_mem s" "in_use (upd_pg pg f s) = in_use s" "same_area s (upd_pg pg f s)"
    "h_page (upd_pg pg f s) = (h_page s)(pg := f (h_page s pg))"
    by (simp_all add: upd_pg_def in_use_def same_area_def)
  have "pg_refcount (h_page (upd_pg pg f s) q) = pg_refcount (h_page s q)" "pg_owner (h_page (upd_pg pg f s) q) = pg_owner (h_page s q)" for q
    using assms by (simp_all add: upd_pg_def)
  then show "pa_ok (upd_pg pg f s) = pa_ok s" unfolding pa_ok_def by (simp add: upd_pg_def)
qed

lemma Int_Diff_other:
  assumes "\<And>x. x \<noteq> a \<Longrightarrow> (x \<in> U') = (x \<in> U)" "a \<notin> A"
  shows "A \<inter> U' = A \<inter> U" "A - U' = A - U"
proof -
  have "x \<in> U' \<longleftrightarrow> x \<in> U" if "x \<in> A" for x using assms(1) [of x] assms(2) that by (cases "x = a") simp_all
  then show "A \<inter> U' = A \<inter> U" "A - U' = A - U" by auto
qed

section \<open>One object becomes live or free\<close>

text \<open>Only the object \<open>a\<close> of the page \<open>pg\<close> changes: its list and the use count of its page have to follow.\<close>

lemma gsa_wf_object:
  assumes wf: "gsa_wf C M g" and pg: "C pg = Some (c, i)" and a: "a \<in> elems (gpa g) pg i"
    and M': "\<And>x. x \<noteq> a \<Longrightarrow> M' x = M x" "\<And>n. M' a = Some n \<Longrightarrow> n \<le> esize i"
    and l: "slab_list_ok (class_elems C (gpa g) c i) (dom M') l"
    and f: "\<And>x. f x = x\<lparr>pg_slab_uc := pg_slab_uc (f x)\<rparr>"
    and uc: "pg_slab_uc (f (h_page (g_sbi g) pg)) = word_of_nat (card (elems (gpa g) pg i \<inter> dom M'))"
  shows "gsa_wf C M' ((put_lst c i l g)\<lparr>g_sbi := upd_pg pg f (g_sbi g)\<rparr>)"
proof -
  let ?s = "g_sbi g" and ?s' = "upd_pg pg f (g_sbi g)"
  let ?g = "(put_lst c i l g)\<lparr>g_sbi := ?s'\<rparr>"
  note W = gsa_wfD [OF wf]
  note P = slab_page_okD [OF W(3) [OF pg]]
  have fr: "pg_refcount (f x) = pg_refcount x" "pg_owner (f x) = pg_owner x" "pg_use_count (f x) = pg_use_count x"
    "pg_slab_cpu (f x) = pg_slab_cpu x" for x by (subst f, simp)+
  note F = upd_pg_frame [where f = f and pg = pg and s = ?s, OF fr(1,2)]
  have d: "x \<in> dom M' \<longleftrightarrow> x \<in> dom M" if "x \<noteq> a" for x using M'(1) [OF that] by (simp add: domIff)
  have "shape_ok ?g" by (rule shape_sbi [OF shape_put_lst [OF W(1) P(1)]]) (simp add: F(3))
  moreover have "pa_ok ?s'" using W(2) F(1) by simp
  moreover have "slab_page_ok (length (g_slab g)) (dom M') ?s' q (d, j)" if q: "C q = Some (d, j)" for q d j
  proof (cases "q = pg")
    case True
    with q pg P uc fr F show ?thesis by (simp add: slab_page_ok_def)
  next
    case False
    then have "a \<notin> elems (gpa g) q j" using elem_unique(1) [OF wf pg q a] by blast
    note Int_Diff_other(1) [OF d this]
    with False W(3) [OF q] F show ?thesis by (simp add: slab_page_ok_def)
  qed
  moreover have "slab_list_ok (class_elems C (gpa g) d j) (dom M') (lst ?g d j)" if dj: "d < length (g_slab g)" "j < 8" for d j
  proof (cases "d = c \<and> j = i")
    case True
    with l lst_put_lst [OF W(1) P(1,2) dj, of l] show ?thesis by simp
  next
    case False
    then have "a \<notin> class_elems C (gpa g) d j" using class_elem_unique [OF wf pg a] by blast
    note Int_Diff_other [OF d this]
    moreover have "lst ?g d j = lst g d j" using lst_put_lst [OF W(1) P(1,2) dj, of l] False by auto
    ultimately show ?thesis using W(4) [OF dj] by (simp add: slab_list_ok_def)
  qed
  moreover have "object_ok C (gpa g) x n" if "M' x = Some n" for x n
    using that M' W(5) [of x n] pg a by (cases "x = a") (auto simp: object_ok_def)
  ultimately show ?thesis by (auto simp: gsa_wf_def F(4))
qed

lemma gsa_take:
  assumes wf: "gsa_wf C M g" and c: "c < length (g_slab g)" "i < 8" and h: "sl_head (lst g c i) = a # rest" and n: "n \<le> esize i"
  shows "\<exists>pg. C pg = Some (c, i) \<and> a \<in> elems (gpa g) pg i \<and> M a = None \<and>
    gsa_wf C (M(a \<mapsto> n)) ((put_lst c i ((lst g c i)\<lparr>sl_head := rest, nfree := nfree (lst g c i) - 1, nused := nused (lst g c i) + 1\<rparr>) g)
      \<lparr>g_sbi := upd_pg pg page_slab_uc_inc (g_sbi g)\<rparr>)"
proof -
  let ?l = "lst g c i" and ?E = "class_elems C (gpa g) c i"
  have L: "finite ?E" "distinct (a # rest)" "set (a # rest) = ?E - dom M" "nfree ?l = int (length (a # rest))" "nused ?l = int (card (?E \<inter> dom M))"
    using gsa_wfD(4) [OF wf c] unfolding slab_list_ok_def h by simp_all
  then have a: "a \<in> ?E" "a \<notin> dom M" by auto
  then obtain pg where pg: "C pg = Some (c, i)" "a \<in> elems (gpa g) pg i" by (auto simp: class_elems_def)
  have "card (?E \<inter> insert a (dom M)) = Suc (card (?E \<inter> dom M))" using a L(1) by simp
  moreover have "set rest = ?E - insert a (dom M)" using L(2,3) by auto
  ultimately have l: "slab_list_ok ?E (dom (M(a \<mapsto> n))) (?l\<lparr>sl_head := rest, nfree := nfree ?l - 1, nused := nused ?l + 1\<rparr>)"
    using L by (simp add: slab_list_ok_def)
  have "card (elems (gpa g) pg i \<inter> insert a (dom M)) = Suc (card (elems (gpa g) pg i \<inter> dom M))" using a pg(2) by simp
  then have uc: "pg_slab_uc (page_slab_uc_inc (h_page (g_sbi g) pg)) = word_of_nat (card (elems (gpa g) pg i \<inter> dom (M(a \<mapsto> n))))"
    using slab_page_okD(8) [OF gsa_wfD(3) [OF wf pg(1)]] by (simp add: page_slab_uc_inc_def)
  have "gsa_wf C (M(a \<mapsto> n)) ((put_lst c i (?l\<lparr>sl_head := rest, nfree := nfree ?l - 1, nused := nused ?l + 1\<rparr>) g)
      \<lparr>g_sbi := upd_pg pg page_slab_uc_inc (g_sbi g)\<rparr>)"
    by (rule gsa_wf_object [OF wf pg _ _ l]) (use n uc in \<open>simp_all add: page_slab_uc_inc_def\<close>)
  with pg a(2) show ?thesis by (auto simp: domIff)
qed

lemma gsa_give:
  assumes wf: "gsa_wf C M g" and a: "M a = Some n" "C pg = Some (c, i)" "a \<in> elems (gpa g) pg i"
  shows "gsa_wf C (M(a := None)) ((put_lst c i (slab_free_elem a (lst g c i)) g)\<lparr>g_sbi := upd_pg pg (\<lambda>p. snd (page_slab_uc_dec p)) (g_sbi g)\<rparr>)"
    "fst (page_slab_uc_dec (h_page (g_sbi g) pg)) = word_of_nat (card (elems (gpa g) pg i \<inter> dom (M(a := None))))"
proof -
  let ?l = "lst g c i" and ?E = "class_elems C (gpa g) c i"
  note P = slab_page_okD [OF gsa_wfD(3) [OF wf a(2)]]
  have L: "finite ?E" "distinct (sl_head ?l)" "set (sl_head ?l) = ?E - dom M" "nfree ?l = int (length (sl_head ?l))" "nused ?l = int (card (?E \<inter> dom M))"
    using gsa_wfD(4) [OF wf P(1,2)] unfolding slab_list_ok_def by simp_all
  have aE: "a \<in> ?E" "a \<in> dom M" using a by (auto simp: class_elems_def)
  have d: "dom (M(a := None)) = dom M - {a}" by auto
  have "card (?E \<inter> dom M) = Suc (card (?E \<inter> (dom M - {a})))"
  proof -
    have "?E \<inter> dom M = insert a (?E \<inter> (dom M - {a}))" using aE by auto
    then show ?thesis using L(1) by simp
  qed
  moreover have "?E - (dom M - {a}) = insert a (?E - dom M)" using aE by auto
  ultimately have l: "slab_list_ok ?E (dom (M(a := None))) (slab_free_elem a ?l)"
    using L aE unfolding slab_list_ok_def slab_free_elem_def d by auto
  have "card (elems (gpa g) pg i \<inter> dom M) = Suc (card (elems (gpa g) pg i \<inter> (dom M - {a})))"
  proof -
    have "elems (gpa g) pg i \<inter> dom M = insert a (elems (gpa g) pg i \<inter> (dom M - {a}))" using aE a(3) by auto
    then show ?thesis by simp
  qed
  then show uc: "fst (page_slab_uc_dec (h_page (g_sbi g) pg)) = word_of_nat (card (elems (gpa g) pg i \<inter> dom (M(a := None))))"
    using P(8) unfolding d page_slab_uc_dec_def by simp
  show "gsa_wf C (M(a := None)) ((put_lst c i (slab_free_elem a ?l) g)\<lparr>g_sbi := upd_pg pg (\<lambda>p. snd (page_slab_uc_dec p)) (g_sbi g)\<rparr>)"
    by (rule gsa_wf_object [OF wf a(2,3) _ _ l]) (use uc in \<open>simp_all add: page_slab_uc_dec_def\<close>)
qed


section \<open>A page joins or leaves a list\<close>

lemma class_elems_upd:
  assumes "C pg = None"
  shows "class_elems (C(pg \<mapsto> (c, i))) p d j = class_elems C p d j \<union> (if d = c \<and> j = i then elems p pg i else {})"
  using assms by (auto simp: class_elems_def) (metis option.distinct(1))+

lemma gsa_grow:
  assumes wf: "gsa_wf C M g" and c: "c < length (g_slab g)" "i < 8" and env: "env_ok env" and al: "pa_alloc env (g_sbi g) = (Some pg, s1)"
  defines "s2 \<equiv> upd_pg pg (page_set_slab i c) s1"
  defines "l \<equiv> add_elems (drop_bit i 128) (pa_page_address (sb_pa s2) pg) (push_bit i 1) (lst g c i)"
  shows "gsa_wf (C(pg \<mapsto> (c, i))) M ((put_lst c i l g)\<lparr>g_sbi := s2\<rparr>)" "sl_head l \<noteq> []" "same_area (g_sbi g) s2" "C pg = None"
proof -
  let ?s = "g_sbi g" and ?p = "gpa g" and ?C = "C(pg \<mapsto> (c, i))" and ?N = "elems (gpa g) pg i"
  note W = gsa_wfD [OF wf]
  note A = alloc_page_spec [OF W(2) env al]
  note F = upd_pg_frame [where f = "page_set_slab i c" and pg = pg and s = s1, folded s2_def]
  have F': "pa_ok s2" "in_use s2 = insert pg (in_use ?s)" "same_area s1 s2" "sb_pa s2 = sb_pa s1"
    "h_page s2 = (h_page s1)(pg := page_set_slab i c (h_page s1 pg))"
    using F A(1) A(8) [OF refl] by (simp_all add: page_set_slab_def pa_page_meta_set_def)
  show sa: "same_area ?s s2" using A(2) F'(3) by (rule same_area_trans)
  note E = same_area_elems [OF sa]
  show new: "C pg = None"
  proof (rule ccontr)
    assume "C pg \<noteq> None"
    then obtain d j where "C pg = Some (d, j)" by auto
    from slab_page_okD(3) [OF W(3) [OF this]] A(7) [OF refl] show False by blast
  qed
  have pgs: "pg \<in> page_set (sb_pa s2)" using F'(2) by (auto simp: in_use_def)
  have apart: "?N \<inter> elems ?p q j = {}" if q: "C q = Some (d, j)" for q d j
  proof -
    note Q = slab_page_okD [OF W(3) [OF q]]
    have "q \<noteq> pg" using new q by auto
    moreover have "q \<in> page_set (sb_pa s2)" using Q(4) same_area_page_set [OF sa] by blast
    ultimately have "page_bytes ?p pg \<inter> page_bytes ?p q = {}" using page_bytes_disjoint [OF F'(1) pgs] unfolding E(3) by blast
    then show ?thesis using elem_mem_page c(2) Q(2) by blast
  qed
  have dead: "?N \<inter> dom M = {}"
  proof -
    have "x \<notin> ?N" if "M x = Some n" for x n
      using W(5) [OF that] apart unfolding object_ok_def by blast
    then show ?thesis by auto
  qed
  have free: "?N \<inter> class_elems C ?p c i = {}" using apart unfolding class_elems_def by blast
  have L: "slab_list_ok (class_elems C ?p c i) (dom M) (lst g c i)" by (rule W(4) [OF c])
  have pa: "pa_page_address (sb_pa s2) pg = pa_page_address ?p pg" using sa by (simp add: same_area_def pa_page_address_def pa_page_to_bn_def)
  let ?new = "map (\<lambda>k. pa_page_address ?p pg + k * (push_bit i 1 * 32)) [0..<drop_bit i 128]"
  have l: "l = (lst g c i)\<lparr>sl_head := sl_head (lst g c i) @ ?new, nfree := nfree (lst g c i) + int (drop_bit i 128)\<rparr>"
    by (simp add: l_def add_elems_spec pa)
  note N = page_elems(2,3) [OF c(2), of ?p pg]
  have lok: "slab_list_ok (class_elems ?C ?p c i) (dom M) l"
  proof -
    have "distinct (sl_head (lst g c i) @ ?new)" using L N free unfolding slab_list_ok_def distinct_append by blast
    moreover have "set (sl_head (lst g c i) @ ?new) = class_elems ?C ?p c i - dom M"
      using L N(1) dead unfolding slab_list_ok_def class_elems_upd [of C pg, OF new] set_append by auto
    moreover have "class_elems ?C ?p c i \<inter> dom M = class_elems C ?p c i \<inter> dom M" using dead unfolding class_elems_upd [of C pg, OF new] by auto
    moreover have "finite (class_elems ?C ?p c i)" using L unfolding slab_list_ok_def class_elems_upd [of C pg, OF new] by simp
    ultimately show ?thesis using L unfolding slab_list_ok_def l by simp
  qed
  have "0 < drop_bit i (128::nat)" using c(2) card_elems [of ?p pg i] elems_page_size [OF c(2)] by (cases "128 div 2 ^ i = (0::nat)") (auto simp: drop_bit_eq_div)
  then show "sl_head l \<noteq> []" by (simp add: l)
  let ?g = "(put_lst c i l g)\<lparr>g_sbi := s2\<rparr>"
  have "shape_ok ?g" by (rule shape_sbi [OF shape_put_lst [OF W(1) c(1)]]) (simp add: sa)
  moreover have "slab_page_ok (length (g_slab g)) (dom M) s2 q (d, j)" if q: "?C q = Some (d, j)" for q d j
  proof (cases "q = pg")
    case True
    then have "d = c" "j = i" using q by simp_all
    then show ?thesis using True c F'(2,5) A(9) [OF refl] dead
      by (simp add: slab_page_ok_def E(1) page_set_slab_def pa_page_meta_set_def)
  next
    case False
    then have q': "C q = Some (d, j)" using q by simp
    note Q = slab_page_okD [OF W(3) [OF q']]
    have "h_page s2 q = h_page ?s q" using A(3) [OF Q(3)] False F'(5) by simp
    then show ?thesis using W(3) [OF q'] F'(2) unfolding slab_page_ok_def E(1) by simp
  qed
  moreover have "slab_list_ok (class_elems ?C ?p d j) (dom M) (lst ?g d j)" if dj: "d < length (g_slab g)" "j < 8" for d j
    using lok W(4) [OF dj] lst_put_lst [OF W(1) c dj, of l] by (cases "d = c \<and> j = i") (auto simp: class_elems_upd [of C pg, OF new])
  moreover have "object_ok ?C ?p x n" if "M x = Some n" for x n
    using W(5) [OF that] new unfolding object_ok_def by (metis fun_upd_other option.distinct(1))
  ultimately show "gsa_wf ?C M ?g" using F'(1) by (auto simp: gsa_wf_def E)
qed

lemma gsa_retire:
  assumes wf: "gsa_wf C M g" and pg: "C pg = Some (c, i)" and dead: "elems (gpa g) pg i \<inter> dom M = {}" and env: "env_ok env"
  defines "l \<equiv> del_elems (drop_bit i 128) (pa_page_address (gpa g) pg) (push_bit i 1) (lst g c i)"
  shows "\<exists>s2. pa_put_page env pg (upd_pg pg page_clear_slab (g_sbi g)) = Some (True, s2) \<and> same_area (g_sbi g) s2 \<and>
    gsa_wf (C(pg := None)) M ((put_lst c i l g)\<lparr>g_sbi := s2\<rparr>) \<and>
    (\<forall>q\<in>in_use (g_sbi g) - {pg}. \<forall>x\<in>page_bytes (gpa g) q. h_mem s2 x = h_mem (g_sbi g) x)"
proof -
  let ?s = "g_sbi g" and ?p = "gpa g" and ?C = "C(pg := None)" and ?N = "elems (gpa g) pg i"
  note W = gsa_wfD [OF wf]
  note P = slab_page_okD [OF W(3) [OF pg]]
  define s1 where "s1 = upd_pg pg page_clear_slab ?s"
  note F = upd_pg_frame [where f = page_clear_slab and pg = pg and s = ?s, folded s1_def]
  have F': "pa_ok s1" "in_use s1 = in_use ?s" "same_area ?s s1" "sb_pa s1 = ?p" "h_mem s1 = h_mem ?s" "h_page s1 = (h_page ?s)(pg := page_clear_slab (h_page ?s pg))"
    using F W(2) by (simp_all add: page_clear_slab_def pa_page_meta_set_def)
  have "pg \<in> in_use s1" "pg_refcount (h_page s1 pg) = 1" using P(3,5) F'(2,6) by (simp_all add: page_clear_slab_def pa_page_meta_set_def)
  from put_page_spec [OF F'(1) env this] obtain s2 where
    s2: "pa_put_page env pg s1 = Some (True, s2)" "pa_ok s2" "same_area s1 s2" "in_use s2 = in_use ?s - {pg}" "\<forall>q. q \<noteq> pg \<longrightarrow> h_page s2 q = h_page s1 q"
      "\<forall>q\<in>in_use ?s - {pg}. \<forall>x\<in>page_bytes ?p q. h_mem s2 x = h_mem ?s x"
    unfolding F'(2,4,5) by blast
  have sa: "same_area ?s s2" using F'(3) s2(3) by (rule same_area_trans)
  note E = same_area_elems [OF sa]
  have L: "slab_list_ok (class_elems C ?p c i) (dom M) (lst g c i)" by (rule W(4) [OF P(1,2)])
  have cls: "class_elems ?C ?p d j = class_elems C ?p d j - (if d = c \<and> j = i then ?N else {})" for d j
  proof (rule set_eqI)
    fix x
    have "x \<notin> ?N" if "C q = Some (c, i)" "x \<in> elems ?p q i" "q \<noteq> pg" for q using elem_unique(1) [OF wf pg that(1) _ that(2)] that(3) by blast
    then show "x \<in> class_elems ?C ?p d j \<longleftrightarrow> x \<in> class_elems C ?p d j - (if d = c \<and> j = i then ?N else {})"
      using pg unfolding class_elems_def by (cases "d = c \<and> j = i") (auto split: if_splits, (metis option.inject prod.inject)+)
  qed
  have sub: "?N \<subseteq> set (sl_head (lst g c i))" using L dead pg unfolding slab_list_ok_def by (auto simp: class_elems_def)
  have l: "l = (lst g c i)\<lparr>sl_head := filter (\<lambda>x. x \<notin> ?N) (sl_head (lst g c i)), nfree := nfree (lst g c i) - int (drop_bit i 128)\<rparr>"
    using L del_elems_spec [of "lst g c i"] page_elems(1) [OF P(2), of ?p pg] by (simp add: l_def slab_list_ok_def)
  have len: "length (filter (\<lambda>x. x \<notin> ?N) (sl_head (lst g c i))) + drop_bit i 128 = length (sl_head (lst g c i))"
  proof -
    have "length (filter (\<lambda>x. x \<in> ?N) (sl_head (lst g c i))) = card ?N"
      using L sub unfolding slab_list_ok_def by (simp add: distinct_length_filter Int_absorb2)
    then show ?thesis using sum_length_filter_compl [of "\<lambda>x. x \<in> ?N" "sl_head (lst g c i)"] by (simp add: card_elems drop_bit_eq_div)
  qed
  have lok: "slab_list_ok (class_elems ?C ?p c i) (dom M) l"
  proof -
    have "class_elems ?C ?p c i \<inter> dom M = class_elems C ?p c i \<inter> dom M" using dead unfolding cls by auto
    moreover have "set (filter (\<lambda>x. x \<notin> ?N) (sl_head (lst g c i))) = class_elems ?C ?p c i - dom M" using L unfolding slab_list_ok_def cls by auto
    ultimately show ?thesis using L len unfolding slab_list_ok_def l cls by simp
  qed
  let ?g = "(put_lst c i l g)\<lparr>g_sbi := s2\<rparr>"
  have "shape_ok ?g" by (rule shape_sbi [OF shape_put_lst [OF W(1) P(1)]]) (simp add: sa)
  moreover have "slab_page_ok (length (g_slab g)) (dom M) s2 q (d, j)" if q: "?C q = Some (d, j)" for q d j
  proof -
    have q': "q \<noteq> pg" "C q = Some (d, j)" using q by (auto split: if_splits)
    have "h_page s2 q = h_page ?s q" using s2(5) F'(6) q'(1) by simp
    then show ?thesis using W(3) [OF q'(2)] s2(4) q'(1) unfolding slab_page_ok_def E(1) by simp
  qed
  moreover have "slab_list_ok (class_elems ?C ?p d j) (dom M) (lst ?g d j)" if dj: "d < length (g_slab g)" "j < 8" for d j
    using lok W(4) [OF dj] lst_put_lst [OF W(1) P(1,2) dj, of l] by (cases "d = c \<and> j = i") (auto simp: cls)
  moreover have "object_ok ?C ?p x n" if "M x = Some n" for x n
  proof -
    from W(5) [OF that] obtain q d j where q: "C q = Some (d, j)" "x \<in> elems ?p q j" "n \<le> esize j" by (auto simp: object_ok_def)
    with dead that pg have "q \<noteq> pg" by auto
    with q show ?thesis unfolding object_ok_def by (metis fun_upd_other)
  qed
  ultimately have "gsa_wf ?C M ?g" using s2(2) by (auto simp: gsa_wf_def E)
  then show ?thesis using s2(1,6) sa unfolding s1_def by blast
qed


section \<open>Allocation and release\<close>

lemma live_bytes:
  assumes wf: "gsa_wf C M g" and b: "M b = Some m" "x \<in> {b..<b + m}"
  obtains q d j where "C q = Some (d, j)" "b \<in> elems (gpa g) q j" "q \<in> in_use (g_sbi g)" "x \<in> page_bytes (gpa g) q"
proof -
  from gsa_wfD(5) [OF wf b(1)] obtain q d j where q: "C q = Some (d, j)" "b \<in> elems (gpa g) q j" "m \<le> esize j" by (auto simp: object_ok_def)
  note Q = slab_page_okD [OF gsa_wfD(3) [OF wf q(1)]]
  have "x \<in> {b..<b + esize j}" using b(2) q(3) by auto
  then have "x \<in> page_bytes (gpa g) q" using elem_in_page [OF q(2) Q(2)] by blast
  with q(1,2) Q(3) show thesis by (rule that)
qed

lemma gsa_failed:
  assumes wf: "gsa_wf C M g" and env: "env_ok env" and al: "pa_alloc env (g_sbi g) = (None, s1)"
  shows "gsa_wf C M (g\<lparr>g_sbi := s1\<rparr>)"
proof -
  note W = gsa_wfD [OF wf]
  note A = alloc_page_spec [OF W(2) env al]
  have u: "in_use s1 = in_use (g_sbi g)" by (rule A(5) [OF refl])
  have "slab_page_ok (length (g_slab g)) (dom M) s1 q (d, j)" if q: "C q = Some (d, j)" for q d j
    using W(3) [OF q] A(3) [OF slab_page_okD(3) [OF W(3) [OF q]]] unfolding slab_page_ok_def u same_area_elems [OF A(2)] by simp
  then show ?thesis using W A(1) shape_sbi [OF W(1) A(2)] by (auto simp: gsa_wf_def same_area_elems [OF A(2)])
qed

lemma alloc_elem_eq:
  assumes "shape_ok g" "c < length (g_slab g)" "i < 8" "sl_head (lst g c i) = a # rest"
  shows "slab_alloc_elem (g_slab g ! c) i = Some (Some a,
    slab_list_put i ((lst g c i)\<lparr>sl_head := rest, nfree := nfree (lst g c i) - 1, nused := nused (lst g c i) + 1\<rparr>) (g_slab g ! c))"
  using assms by (simp add: slab_alloc_elem_def slab_list_at_def shape_ok_def)

lemma list_empty_eq:
  assumes wf: "gsa_wf C M g" and c: "c < length (g_slab g)" and sz: "slab_size_valid sz"
  shows "slab_list_empty (g_slab g ! c) sz = Some (sl_head (lst g c (slab_list_index sz)) = [])"
    "\<exists>b. slab_iscold (g_slab g ! c) sz = Some b"
proof -
  have i: "slab_list_index sz < 8" by (rule slab_index_valid(1) [OF sz])
  have "nfree (lst g c (slab_list_index sz)) = int (length (sl_head (lst g c (slab_list_index sz))))"
    using gsa_wfD(4) [OF wf c i] by (simp add: slab_list_ok_def)
  then show "slab_list_empty (g_slab g ! c) sz = Some (sl_head (lst g c (slab_list_index sz)) = [])"
    "\<exists>b. slab_iscold (g_slab g ! c) sz = Some b"
    using gsa_wfD(1) [OF wf] i c by (simp_all add: slab_list_empty_def slab_iscold_def slab_check_list_index_def slab_list_at_def shape_ok_def Let_def)
qed

text \<open>Taking an element of a list that is not empty, after the page allocator has been asked or not.\<close>

lemma take_step:
  assumes wf: "gsa_wf C M g" and c: "c < length (g_slab g)" "i < 8" and h: "sl_head (lst g c i) \<noteq> []" and n: "n \<le> esize i" and env: "env_ok env"
  shows "\<exists>a slab pg. slab_alloc_elem (g_slab g ! c) i = Some (Some a, slab) \<and> pa_virt_to_page (e_o2p env) (gpa g) a = Some pg \<and> M a = None \<and>
    gsa_wf C (M(a \<mapsto> n)) (g\<lparr>g_slab := (g_slab g)[c := slab], g_sbi := upd_pg pg page_slab_uc_inc (g_sbi g)\<rparr>)"
proof -
  from h obtain a rest where ar: "sl_head (lst g c i) = a # rest" by (cases "sl_head (lst g c i)") auto
  from gsa_take [OF wf c ar n] obtain pg where pg: "C pg = Some (c, i)" "a \<in> elems (gpa g) pg i" "M a = None" and
    w: "gsa_wf C (M(a \<mapsto> n)) ((put_lst c i ((lst g c i)\<lparr>sl_head := rest, nfree := nfree (lst g c i) - 1, nused := nused (lst g c i) + 1\<rparr>) g)
      \<lparr>g_sbi := upd_pg pg page_slab_uc_inc (g_sbi g)\<rparr>)" by blast
  have "pa_virt_to_page (e_o2p env) (gpa g) a = Some pg"
    using elem_page(1) [OF env slab_page_okD(4) [OF gsa_wfD(3) [OF wf pg(1)]] elem_mem_page [OF pg(2) c(2)]] .
  with pg(3) w alloc_elem_eq [OF gsa_wfD(1) [OF wf] c ar] show ?thesis unfolding put_lst_def by (intro exI conjI) auto
qed

lemma alloc_at_spec:
  assumes wf: "gsa_wf C M g" and c: "c < length (g_slab g)" and sz: "slab_size_valid sz" and env: "env_ok env"
  shows "\<exists>r g' C'. slab_alloc_at env c sz g = Some (r, g') \<and> same_area (g_sbi g) (g_sbi g') \<and> length (g_slab g') = length (g_slab g) \<and> map_le C C' \<and>
    (\<forall>b m. M b = Some m \<longrightarrow> (\<forall>x\<in>{b..<b + m}. h_mem (g_sbi g') x = h_mem (g_sbi g) x)) \<and>
    (case r of None \<Rightarrow> gsa_wf C' M g' \<and> (need_mlock env \<and> \<not> mlock_ok env \<or> no_room (g_sbi g) \<and> pa_head (gpa g) = [])
     | Some a \<Rightarrow> M a = None \<and> gsa_wf C' (M(a \<mapsto> sz)) g')"
proof -
  define i where "i = slab_list_index sz"
  note I = slab_index_valid [OF sz, folded i_def]
  have n: "sz \<le> esize i" using I(2) by (simp add: esize_def)
  note W = gsa_wfD [OF wf] and LE = list_empty_eq(1) [OF wf c sz, folded i_def]
  have len8: "length (sl_list (g_slab g ! c)) = 8" and cpu: "sl_cpu (g_slab g ! c) = c" using W(1) c by (simp_all add: shape_ok_def)
  show ?thesis
  proof (cases "sl_head (lst g c i) = []")
    case False
    from take_step [OF wf c I(1) False n env] obtain a slab pg where
      t: "slab_alloc_elem (g_slab g ! c) i = Some (Some a, slab)" "pa_virt_to_page (e_o2p env) (gpa g) a = Some pg" "M a = None"
        "gsa_wf C (M(a \<mapsto> sz)) (g\<lparr>g_slab := (g_slab g)[c := slab], g_sbi := upd_pg pg page_slab_uc_inc (g_sbi g)\<rparr>)" by blast
    have "slab_alloc_at env c sz g = Some (Some a, g\<lparr>g_slab := (g_slab g)[c := slab], g_sbi := upd_pg pg page_slab_uc_inc (g_sbi g)\<rparr>)"
      using t(1,2) LE False by (simp add: slab_alloc_at_def slab_alloc_def i_def [symmetric])
    with t(3,4) show ?thesis
      by (intro exI [of _ "Some a"] exI [of _ "g\<lparr>g_slab := (g_slab g)[c := slab], g_sbi := upd_pg pg page_slab_uc_inc (g_sbi g)\<rparr>"] exI [of _ C])
         (simp add: same_area_def upd_pg_def)
  next
    case empty: True
    obtain r s1 where al: "pa_alloc env (g_sbi g) = (r, s1)" by (cases "pa_alloc env (g_sbi g)")
    note A = alloc_page_spec [OF W(2) env al]
    have mem: "h_mem s1 x = h_mem (g_sbi g) x" if "M b = Some m" "x \<in> {b..<b + m}" for b m x
      by (rule live_bytes [OF wf that]) (rule A(4))
    show ?thesis
    proof (cases r)
      case None
      have "slab_alloc_at env c sz g = Some (None, g\<lparr>g_sbi := s1\<rparr>)"
        using LE empty al None by (simp add: slab_alloc_at_def slab_alloc_def i_def [symmetric] slab_increase_def)
      moreover have "gsa_wf C M (g\<lparr>g_sbi := s1\<rparr>)" by (rule gsa_failed [OF wf env]) (use al None in simp)
      ultimately show ?thesis using A(2) A(6) [OF None] mem by (intro exI [of _ None] exI [of _ "g\<lparr>g_sbi := s1\<rparr>"] exI [of _ C]) simp
    next
      case (Some pg)
      define s2 where "s2 = upd_pg pg (page_set_slab i c) s1"
      define l where "l = add_elems (drop_bit i 128) (pa_page_address (sb_pa s2) pg) (push_bit i 1) (lst g c i)"
      define g1 where "g1 = (put_lst c i l g)\<lparr>g_sbi := s2\<rparr>"
      note G = gsa_grow [OF wf c I(1) env al [unfolded Some], folded s2_def, folded l_def g1_def]
      have c1: "c < length (g_slab g1)" "g_slab g1 ! c = slab_list_put i l (g_slab g ! c)" "g_sbi g1 = s2" "lst g1 c i = l"
        using c I(1) len8 by (simp_all add: g1_def put_lst_def slab_list_put_def)
      from take_step [OF G(1) c1(1) I(1) _ n env] G(2) c1(4) obtain a slab q where
        t: "slab_alloc_elem (g_slab g1 ! c) i = Some (Some a, slab)" "pa_virt_to_page (e_o2p env) (sb_pa s2) a = Some q" "M a = None"
          "gsa_wf (C(pg \<mapsto> (c, i))) (M(a \<mapsto> sz)) (g1\<lparr>g_slab := (g_slab g1)[c := slab], g_sbi := upd_pg q page_slab_uc_inc s2\<rparr>)"
        unfolding c1(3) by auto
      let ?g = "g\<lparr>g_slab := (g_slab g)[c := slab], g_sbi := upd_pg q page_slab_uc_inc s2\<rparr>"
      have e: "g1\<lparr>g_slab := (g_slab g1)[c := slab], g_sbi := upd_pg q page_slab_uc_inc s2\<rparr> = ?g" by (simp add: g1_def put_lst_def)
      have "slab_page_init pg i (g_slab g ! c) s1 = Some (g_slab g1 ! c, s2)"
        using len8 cpu I(1) by (simp add: slab_page_init_def slab_list_at_def c1(2) l_def s2_def Let_def)
      then have "slab_alloc_at env c sz g = Some (Some a, ?g)"
        using LE empty al Some t(1,2) by (simp add: slab_alloc_at_def slab_alloc_def i_def [symmetric] slab_increase_def)
      moreover have "h_mem (g_sbi ?g) x = h_mem s1 x" for x by (simp add: upd_pg_def s2_def)
      moreover have "same_area (g_sbi g) (g_sbi ?g)" using G(3) by (simp add: same_area_def upd_pg_def)
      moreover have "map_le C (C(pg \<mapsto> (c, i)))" using G(4) by (auto simp: map_le_def)
      ultimately show ?thesis using t(3,4) mem unfolding e
        by (intro exI [of _ "Some a"] exI [of _ ?g] exI [of _ "C(pg \<mapsto> (c, i))"]) simp
    qed
  qed
qed


lemma malloc_loop_spec:
  assumes wf: "gsa_wf C M g" and sz: "slab_size_valid sz" and env: "env_ok (ge_pa e)" and c: "c < length (g_slab g)"
  shows "\<exists>d<length (g_slab g). gsa_malloc_loop e cpu sz i n c g = slab_alloc_at (ge_pa e) d sz g"
  using c
proof (induction n arbitrary: i c)
  case 0
  then show ?case by auto
next
  case (Suc n)
  have "zus_gsa_sslab_at g cpu (i + 1) < length (g_slab g)" unfolding zus_gsa_sslab_at_def by (rule mod_less_divisor) (use Suc.prems in linarith)
  from Suc.IH [OF this, of "i + 1"] show ?case using list_empty_eq(1) [OF wf Suc.prems sz] Suc.prems by auto
qed

lemma gsa_malloc_spec:
  assumes wf: "gsa_wf C M g" and sz: "slab_size_valid sz" and env: "env_ok (ge_pa e)" and cpu: "0 \<le> ge_cpu e" "ge_cpu e < int (length (g_slab g))"
  shows "\<exists>c<length (g_slab g). zus_gsa_malloc e sz g = slab_alloc_at (ge_pa e) c sz g"
proof -
  let ?c = "nat (ge_cpu e)"
  have c: "?c < length (g_slab g)" "slab_of_cpu g (ge_cpu e) = Some ?c" using cpu by (simp_all add: slab_of_cpu_def nat_less_iff)
  from list_empty_eq(2) [OF wf c(1) sz] obtain cold where cold: "slab_iscold (g_slab g ! ?c) sz = Some cold" by blast
  show ?thesis
  proof (cases cold)
    case True
    then show ?thesis using c cold by (auto simp: zus_gsa_malloc_def)
  next
    case False
    then show ?thesis using malloc_loop_spec [OF wf sz env c(1), of ?c 0 "length (g_slab g)"] c cold by (simp add: zus_gsa_malloc_def)
  qed
qed

lemma elem_aligned:
  assumes "a \<in> elems p pg i" "pa_data p mod 32 = 0"
  shows "a mod 32 = 0"
proof -
  from assms(1) obtain k where k: "a = pa_data p + 32 * (pa_page_to_bn p pg * 128 + k * 2 ^ i)"
    by (auto simp: elems_def esize_def pa_page_address_def algebra_simps)
  show ?thesis unfolding k using assms(2) by (simp add: mod_add_eq [symmetric])
qed

lemma sint_small: "n < 2 ^ 31 \<Longrightarrow> sint (word_of_nat n :: 32 word) = int n"
  by (simp add: signed_of_nat signed_take_bit_int_eq_self)

lemma small_count:
  assumes "n \<le> 128"
  shows "(word_of_nat n :: 32 word) = 0 \<longleftrightarrow> n = 0"
proof (cases "n = 0")
  case False
  then have "\<not> 2 ^ 32 dvd n" using assms by (intro nat_dvd_not_less) simp_all
  then show ?thesis using False by (simp add: word_of_nat_eq_0_iff)
qed simp

text \<open>Where a live object lies, as \<open>_zus_gsa_cpu_of\<close> and \<open>__elem_size\<close> find out.\<close>

lemma live_object:
  assumes wf: "gsa_wf C M g" and a: "M a = Some n" and env: "env_ok env"
  obtains pg c i where "C pg = Some (c, i)" "a \<in> elems (gpa g) pg i" "n \<le> esize i" "c < length (g_slab g)" "i < 8"
    "zus_gsa_cpu_of env a g = Some (int c)" "slab_of_cpu g (int c) = Some c" "pa_virt_to_page (e_o2p env) (gpa g) a = Some pg"
    "page_slab_index (h_page (g_sbi g) pg) = int i" "elem_size env a g = Some (esize i)" "0 < a"
proof -
  note W = gsa_wfD [OF wf]
  from W(5) [OF a] obtain pg c i where pg: "C pg = Some (c, i)" "a \<in> elems (gpa g) pg i" "n \<le> esize i" by (auto simp: object_ok_def)
  note P = slab_page_okD [OF W(3) [OF pg(1)]]
  note E = elem_page [OF env P(4) elem_mem_page [OF pg(2) P(2)]]
  have al: "a mod 32 = 0" "0 < a" using elem_aligned [OF pg(2)] E(2) W(1) by (simp_all add: shape_ok_def)
  have "c < 2 ^ 31" using P(1) W(1) by (simp add: shape_ok_def)
  then have cpu: "page_slab_cpu (h_page (g_sbi g) pg) = int c" using P(7) sint_small [of c] by (simp add: page_slab_cpu_def)
  have "pg_use_count (h_page (g_sbi g) pg) = word_of_nat (i + 1)" using P(6) by simp
  then have idx: "page_slab_index (h_page (g_sbi g) pg) = int i" using sint_small [of "i + 1"] P(2)
    by (simp only: page_slab_index_def pa_page_meta_def) simp
  have "zus_gsa_cpu_of env a g = Some (int c)" using al E cpu by (simp add: zus_gsa_cpu_of_def pa_addr_inrange_def Let_def)
  moreover have "slab_of_cpu g (int c) = Some c" using P(1) by (simp add: slab_of_cpu_def)
  moreover have "elem_size env a g = Some (esize i)"
    using E(1) idx P(2) by (simp add: elem_size_def slab_check_list_index_def esize_def power_add)
  ultimately show thesis using that pg P(1,2) E(1) idx al(2) by blast
qed

lemma live_elem_size:
  assumes wf: "gsa_wf C M g" and a: "M a = Some n" and env: "env_ok env" and pg: "C pg = Some (c, i)" "a \<in> elems (gpa g) pg i"
  shows "elem_size env a g = Some (esize i)"
proof -
  obtain q d j where L: "C q = Some (d, j)" "a \<in> elems (gpa g) q j" "elem_size env a g = Some (esize j)" by (rule live_object [OF wf a env])
  with elem_unique(3) [OF wf pg(1) L(1) pg(2)] show ?thesis by simp
qed

lemma gsa_free_spec:
  assumes wf: "gsa_wf C M g" and a: "M a = Some n" and env: "env_ok (ge_pa e)"
  shows "\<exists>g' C'. zus_gsa_free e a g = Some g' \<and> same_area (g_sbi g) (g_sbi g') \<and> length (g_slab g') = length (g_slab g) \<and> gsa_wf C' (M(a := None)) g' \<and>
    (\<forall>b m. M b = Some m \<longrightarrow> b \<noteq> a \<longrightarrow> (\<forall>x\<in>{b..<b + m}. h_mem (g_sbi g') x = h_mem (g_sbi g) x))"
proof -
  let ?env = "ge_pa e" and ?M = "M(a := None)"
  obtain pg c i where L: "C pg = Some (c, i)" "a \<in> elems (gpa g) pg i" "c < length (g_slab g)" "i < 8"
    "zus_gsa_cpu_of ?env a g = Some (int c)" "slab_of_cpu g (int c) = Some c" "pa_virt_to_page (e_o2p ?env) (gpa g) a = Some pg"
    "page_slab_index (h_page (g_sbi g) pg) = int i" by (rule live_object [OF wf a env])
  have len8: "length (sl_list (g_slab g ! c)) = 8" using gsa_wfD(1) [OF wf] L(3) by (simp add: shape_ok_def)
  define l1 where "l1 = slab_free_elem a (lst g c i)"
  define slab1 where "slab1 = slab_list_put i l1 (g_slab g ! c)"
  define s1 where "s1 = upd_pg pg (\<lambda>p. snd (page_slab_uc_dec p)) (g_sbi g)"
  define g1 where "g1 = (put_lst c i l1 g)\<lparr>g_sbi := s1\<rparr>"
  note G = gsa_give [OF wf a L(1,2), folded l1_def s1_def, folded g1_def]
  have g1: "g1 = g\<lparr>g_slab := (g_slab g)[c := slab1], g_sbi := s1\<rparr>" by (simp add: g1_def put_lst_def slab1_def)
  have f1: "gpa g1 = gpa g" "g_sbi g1 = s1" "lst g1 c i = l1" "in_use s1 = in_use (g_sbi g)" "h_mem s1 = h_mem (g_sbi g)" "same_area (g_sbi g) s1" "sb_pa s1 = gpa g"
    using L(3,4) len8 by (simp_all add: g1 slab1_def slab_list_put_def s1_def upd_pg_def in_use_def same_area_def)
  have s1: "upd_pg pg (\<lambda>_. snd (page_slab_uc_dec (h_page (g_sbi g) pg))) (g_sbi g) = s1" by (simp add: s1_def upd_pg_def)
  define uc where "uc = fst (page_slab_uc_dec (h_page (g_sbi g) pg))"
  have head: "zus_gsa_free e a g = do {
      (slab, s) \<leftarrow> (if uc \<noteq> 0 then Some (slab1, s1) else if nfree l1 < nfree_want l1 then Some (slab1, s1)
         else do { (slab2, s2) \<leftarrow> slab_page_fini pg i slab1 s1; (last, s3) \<leftarrow> pa_put_page ?env pg s2; Some (slab2, s3) });
      Some (g\<lparr>g_slab := (g_slab g)[c := slab], g_sbi := s\<rparr>) }"
    using L len8 s1 by (simp add: zus_gsa_free_def slab_free_in_def slab_free_def slab_free_at_def slab_check_list_index_def slab_list_at_def
        l1_def slab1_def uc_def case_prod_beta Let_def bind_assoc cong: if_cong)
  show ?thesis
  proof (cases "uc \<noteq> 0 \<or> nfree l1 < nfree_want l1")
    case True
    then have "zus_gsa_free e a g = Some g1" unfolding head g1 by auto
    then show ?thesis using G(1) f1 by (intro exI [of _ g1] exI [of _ C]) (simp add: g1)
  next
    case False
    have fin: "finite (elems (gpa g) pg i \<inter> dom ?M)" by simp
    have "card (elems (gpa g) pg i \<inter> dom ?M) \<le> card (elems (gpa g) pg i)" by (intro card_mono) auto
    also have "\<dots> \<le> 128" unfolding card_elems by (rule div_le_dividend)
    finally have "card (elems (gpa g) pg i \<inter> dom ?M) = 0" using False G(2) small_count unfolding uc_def by auto
    then have dead: "elems (gpa g) pg i \<inter> dom ?M = {}" unfolding card_0_eq [OF fin] .
    define l2 where "l2 = del_elems (drop_bit i 128) (pa_page_address (gpa g) pg) (push_bit i 1) l1"
    from gsa_retire [OF G(1) L(1) _ env] dead obtain s2 where
      s2: "pa_put_page ?env pg (upd_pg pg page_clear_slab s1) = Some (True, s2)" "same_area s1 s2" "gsa_wf (C(pg := None)) ?M ((put_lst c i l2 g1)\<lparr>g_sbi := s2\<rparr>)"
        "\<forall>q\<in>in_use (g_sbi g) - {pg}. \<forall>x\<in>page_bytes (gpa g) q. h_mem s2 x = h_mem (g_sbi g) x"
      unfolding f1 l2_def by auto
    let ?g = "g\<lparr>g_slab := (g_slab g)[c := slab_list_put i l2 slab1], g_sbi := s2\<rparr>"
    have e: "(put_lst c i l2 g1)\<lparr>g_sbi := s2\<rparr> = ?g" using L(3) by (simp add: put_lst_def g1)
    have "slab_page_fini pg i slab1 s1 = Some (slab_list_put i l2 slab1, upd_pg pg page_clear_slab s1)"
      using L(4) len8 by (simp add: slab_page_fini_def slab_list_at_def slab1_def slab_list_put_def l2_def f1(7) Let_def)
    then have "zus_gsa_free e a g = Some ?g" unfolding head using False s2(1) by simp
    moreover have "h_mem s2 x = h_mem (g_sbi g) x" if b: "M b = Some m" "b \<noteq> a" "x \<in> {b..<b + m}" for b m x
    proof -
      obtain q d j where q: "C q = Some (d, j)" "b \<in> elems (gpa g) q j" "q \<in> in_use (g_sbi g)" "x \<in> page_bytes (gpa g) q"
        by (rule live_bytes [OF wf b(1,3)])
      have "q \<noteq> pg" using dead q(1,2) L(1) b by auto
      with s2(4) q show ?thesis by blast
    qed
    ultimately show ?thesis using s2(3) same_area_trans [OF f1(6) s2(2)] unfolding e
      by (intro exI [of _ ?g] exI [of _ "C(pg := None)"]) simp
  qed
qed

end
