(* ===== verification/SlabMalloc.thy ===== *)
theory SlabMalloc
  imports SlabSafe
begin

text \<open>
  The slab allocator meets the contract of an allocator, and what follows for \<open>zus_malloc\<close>, \<open>zus_free\<close>,
  \<open>zus_calloc\<close> and \<open>zus_realloc\<close>.
\<close>

section \<open>The contract\<close>

definition gsa_good :: "nat \<Rightarrow> gsa_env \<Rightarrow> bool" where
  "gsa_good k e = (env_ok (ge_pa e) \<and> 0 \<le> ge_cpu e \<and> ge_cpu e < int k)"

definition gsa_inv :: "nat \<Rightarrow> (addr \<rightharpoonup> nat) \<Rightarrow> zus_global_slab_allocator \<Rightarrow> bool" where
  "gsa_inv k M g = (length (g_slab g) = k \<and> (\<exists>C. gsa_wf C M g))"

definition obj_bytes :: "zus_global_slab_allocator \<Rightarrow> addr \<Rightarrow> nat \<Rightarrow> addr set" where
  "obj_bytes g a n = {a..<a + n}"

abbreviation gmem :: "zus_global_slab_allocator \<Rightarrow> addr \<Rightarrow> byte" where
  "gmem g \<equiv> h_mem (g_sbi g)"

lemma objects_apart:
  assumes wf: "gsa_wf C M g" and ab: "M a = Some n" "M b = Some m" "a \<noteq> b"
  shows "{a..<a + n} \<inter> {b..<b + m} = {}"
proof -
  note W = gsa_wfD [OF wf]
  from W(5) [OF ab(1)] obtain p c i where p: "C p = Some (c, i)" "a \<in> elems (gpa g) p i" "n \<le> esize i" by (auto simp: object_ok_def)
  from W(5) [OF ab(2)] obtain q d j where q: "C q = Some (d, j)" "b \<in> elems (gpa g) q j" "m \<le> esize j" by (auto simp: object_ok_def)
  note P = slab_page_okD [OF W(3) [OF p(1)]] and Q = slab_page_okD [OF W(3) [OF q(1)]]
  have sub: "{a..<a + n} \<subseteq> {a..<a + esize i}" "{b..<b + m} \<subseteq> {b..<b + esize j}" using p(3) q(3) by auto
  show ?thesis
  proof (cases "q = p")
    case True
    with p(1) q(1) have "j = i" by simp
    with elems_apart [OF p(2), of b] q(2) True ab(3) sub show ?thesis by blast
  next
    case False
    with page_bytes_disjoint [OF W(2) P(4) Q(4)] elem_in_page [OF p(2) P(2)] elem_in_page [OF q(2) Q(2)] sub show ?thesis by blast
  qed
qed

lemma gsa_malloc_law:
  assumes inv: "gsa_inv k M g" and e: "gsa_good k e" and sz: "slab_size_valid sz"
  shows "\<exists>r g'. zus_gsa_malloc e sz g = Some (r, g') \<and>
    (\<forall>b m. M b = Some m \<longrightarrow> elem_size (ge_pa e) b g' = elem_size (ge_pa e) b g \<and> (\<forall>x\<in>{b..<b + m}. gmem g' x = gmem g x)) \<and>
    (case r of None \<Rightarrow> gsa_inv k M g' \<and> (need_mlock (ge_pa e) \<and> \<not> mlock_ok (ge_pa e) \<or> no_room (g_sbi g) \<and> pa_head (gpa g) = [])
     | Some a \<Rightarrow> M a = None \<and> gsa_inv k (M(a \<mapsto> sz)) g')"
proof -
  from inv obtain C where wf: "gsa_wf C M g" and k: "length (g_slab g) = k" by (auto simp: gsa_inv_def)
  have env: "env_ok (ge_pa e)" "0 \<le> ge_cpu e" "ge_cpu e < int (length (g_slab g))" using e k by (simp_all add: gsa_good_def)
  from gsa_malloc_spec [OF wf sz env] obtain c where c: "c < length (g_slab g)" "zus_gsa_malloc e sz g = slab_alloc_at (ge_pa e) c sz g" by blast
  from alloc_at_spec [OF wf c(1) sz env(1)] obtain r g' C' where
    r: "slab_alloc_at (ge_pa e) c sz g = Some (r, g')" "same_area (g_sbi g) (g_sbi g')" "length (g_slab g') = k" "map_le C C'"
      "\<forall>b m. M b = Some m \<longrightarrow> (\<forall>x\<in>{b..<b + m}. gmem g' x = gmem g x)"
      "case r of None \<Rightarrow> gsa_wf C' M g' \<and> (need_mlock (ge_pa e) \<and> \<not> mlock_ok (ge_pa e) \<or> no_room (g_sbi g) \<and> pa_head (gpa g) = [])
       | Some a \<Rightarrow> M a = None \<and> gsa_wf C' (M(a \<mapsto> sz)) g'" unfolding k by blast
  define M' where "M' = (case r of None \<Rightarrow> M | Some a \<Rightarrow> M(a \<mapsto> sz))"
  have wf': "gsa_wf C' M' g'" using r(6) by (cases r) (simp_all add: M'_def)
  have "elem_size (ge_pa e) b g' = elem_size (ge_pa e) b g" if b: "M b = Some m" for b m
  proof -
    from gsa_wfD(5) [OF wf b] obtain q d j where q: "C q = Some (d, j)" "b \<in> elems (gpa g) q j" by (auto simp: object_ok_def)
    have "C' q = Some (d, j)" using r(4) q(1) by (metis domI map_le_def)
    moreover have "b \<in> elems (gpa g') q j" using q(2) same_area_elems(1) [OF r(2)] by simp
    moreover have "M' b = Some m" using b r(6) by (auto simp: M'_def split: option.splits)
    ultimately show ?thesis using live_elem_size [OF wf' _ env(1)] live_elem_size [OF wf b env(1) q] by simp
  qed
  then show ?thesis using r unfolding c(2) by (intro exI [of _ r] exI [of _ g']) (auto simp: gsa_inv_def split: option.splits)
qed

lemma gsa_free_law:
  assumes inv: "gsa_inv k M g" and e: "gsa_good k e" and a: "M a = Some n"
  shows "\<exists>g'. zus_gsa_free e a g = Some g' \<and> gsa_inv k (M(a := None)) g' \<and>
    (\<forall>b m. M b = Some m \<longrightarrow> b \<noteq> a \<longrightarrow> (\<forall>x\<in>{b..<b + m}. gmem g' x = gmem g x))"
proof -
  from inv obtain C where wf: "gsa_wf C M g" and k: "length (g_slab g) = k" by (auto simp: gsa_inv_def)
  from gsa_free_spec [OF wf a, of e] e show ?thesis unfolding k by (auto simp: gsa_inv_def gsa_good_def)
qed

interpretation slab: object_allocator "gsa_good k" slab_size_valid zus_gsa_malloc zus_gsa_free "gsa_inv k" obj_bytes "\<lambda>g. h_mem (g_sbi g)" for k
proof
  fix M g e n assume "gsa_inv k M g" "gsa_good k e" "slab_size_valid n"
  from gsa_malloc_law [OF this] obtain r g' where r: "zus_gsa_malloc e n g = Some (r, g')"
      "\<forall>b m. M b = Some m \<longrightarrow> elem_size (ge_pa e) b g' = elem_size (ge_pa e) b g \<and> (\<forall>x\<in>{b..<b + m}. gmem g' x = gmem g x)"
      "case r of None \<Rightarrow> gsa_inv k M g' \<and> (need_mlock (ge_pa e) \<and> \<not> mlock_ok (ge_pa e) \<or> no_room (g_sbi g) \<and> pa_head (gpa g) = [])
       | Some a \<Rightarrow> M a = None \<and> gsa_inv k (M(a \<mapsto> n)) g'" by (elim exE conjE) (rule that)
  from r(3) have "case r of None \<Rightarrow> gsa_inv k M g' | Some a \<Rightarrow> M a = None \<and> gsa_inv k (M(a \<mapsto> n)) g'" by (cases r) simp_all
  with r(1,2) show "\<exists>r g'. zus_gsa_malloc e n g = Some (r, g') \<and> obj_bytes g' = obj_bytes g \<and>
      (\<forall>b m. M b = Some m \<longrightarrow> (\<forall>x\<in>obj_bytes g b m. gmem g' x = gmem g x)) \<and>
      (case r of None \<Rightarrow> gsa_inv k M g' | Some a \<Rightarrow> M a = None \<and> gsa_inv k (M(a \<mapsto> n)) g')"
    by (intro exI [of _ r] exI [of _ g']) (simp add: obj_bytes_def fun_eq_iff)
next
  fix M g e a n assume "gsa_inv k M g" "gsa_good k e" "M a = Some n"
  from gsa_free_law [OF this] show "\<exists>g'. zus_gsa_free e a g = Some g' \<and> obj_bytes g' = obj_bytes g \<and> gsa_inv k (M(a := None)) g' \<and>
      (\<forall>b m. M b = Some m \<longrightarrow> b \<noteq> a \<longrightarrow> (\<forall>x\<in>obj_bytes g b m. gmem g' x = gmem g x))"
    by (auto simp: obj_bytes_def fun_eq_iff)
next
  fix M g a n b m assume i: "gsa_inv k M g" and ab: "M a = Some n" "M b = Some m" "a \<noteq> b"
  from i obtain C where "gsa_wf C M g" by (auto simp: gsa_inv_def)
  from objects_apart [OF this ab] show "obj_bytes g a n \<inter> obj_bytes g b m = {}" by (simp only: obj_bytes_def)
qed

section \<open>Histories\<close>

lemma slab_init_inv:
  assumes s: "pa_ok s" "pa_data (sb_pa s) mod 32 = 0" "0 < pa_data (sb_pa s)" and k: "k < 2 ^ 31"
  shows "gsa_inv k Map.empty \<lparr>g_sbi = s, g_slab = map slab_init [0..<k]\<rparr>"
proof -
  have "gsa_wf Map.empty Map.empty \<lparr>g_sbi = s, g_slab = map slab_init [0..<k]\<rparr>"
    using s k by (simp add: gsa_wf_def shape_ok_def slab_init_def slab_list_ok_def class_elems_def)
  then show ?thesis by (auto simp: gsa_inv_def)
qed

text \<open>
  C22. Histories of the slab allocator. \<open>zus_slab_init\<close> prepares the allocator for \<open>k\<close> processors. After any sequence of allocations of
  up to a page, on any processors and with any outcome of the lock attempts, and releases of live objects, on any
  processor, no two live objects overlap; a further request never aborts and changes no byte of an object that stays live, a
  new object lies apart from all live ones, and an allocation fails only when the page allocator has no page left or \<open>mlock\<close> fails.
\<close>

theorem slab_history_safe:
  assumes init: "zus_slab_init None k (Inr s) None = (Inr (), Some g0)" "pa_ok s" "pa_data (sb_pa s) mod 32 = 0" "0 < pa_data (sb_pa s)" "k < 2 ^ 31"
    and h: "plays (gsa_good k) slab_size_valid zus_gsa_malloc zus_gsa_free (Map.empty, g0) (M, g)"
  shows "(\<forall>a n b m. M a = Some n \<longrightarrow> M b = Some m \<longrightarrow> a \<noteq> b \<longrightarrow> {a..<a + n} \<inter> {b..<b + m} = {}) \<and>
    (\<forall>e n. gsa_good k e \<longrightarrow> slab_size_valid n \<longrightarrow> (\<exists>r g'. zus_gsa_malloc e n g = Some (r, g') \<and>
       (\<forall>b m. M b = Some m \<longrightarrow> (\<forall>x\<in>{b..<b + m}. gmem g' x = gmem g x)) \<and>
       (case r of None \<Rightarrow> need_mlock (ge_pa e) \<and> \<not> mlock_ok (ge_pa e) \<or> no_room (g_sbi g) \<and> pa_head (gpa g) = []
        | Some a \<Rightarrow> \<forall>b m. M b = Some m \<longrightarrow> {a..<a + n} \<inter> {b..<b + m} = {}))) \<and>
    (\<forall>e a n. gsa_good k e \<longrightarrow> M a = Some n \<longrightarrow> (\<exists>g'. zus_gsa_free e a g = Some g' \<and>
       (\<forall>b m. M b = Some m \<longrightarrow> b \<noteq> a \<longrightarrow> (\<forall>x\<in>{b..<b + m}. gmem g' x = gmem g x))))"
proof (intro conjI allI impI)
  have g0: "g0 = \<lparr>g_sbi = s, g_slab = map slab_init [0..<k]\<rparr>" using init(1) by (simp add: zus_slab_init_def)
  have i0: "gsa_inv k (fst (Map.empty, g0)) (snd (Map.empty, g0))" unfolding g0 using slab_init_inv [OF init(2-5)] by simp
  note P = slab.plays_safe [OF h i0, unfolded obj_bytes_def]
  have inv: "gsa_inv k M g" using slab.plays_inv [OF h i0] by simp
  show "{a..<a + n} \<inter> {b..<b + m} = {}" if "M a = Some n" "M b = Some m" "a \<noteq> b" for a n b m by (rule P(3) [OF that])
  show "\<exists>g'. zus_gsa_free e a g = Some g' \<and> (\<forall>b m. M b = Some m \<longrightarrow> b \<noteq> a \<longrightarrow> (\<forall>x\<in>{b..<b + m}. gmem g' x = gmem g x))"
    if "gsa_good k e" "M a = Some n" for e a n by (rule P(2) [OF that])
  fix e n assume e: "gsa_good k e" and n: "slab_size_valid n"
  from P(1) [OF e n] obtain r g' where r: "zus_gsa_malloc e n g = Some (r, g')" "\<forall>b m. M b = Some m \<longrightarrow> (\<forall>x\<in>{b..<b + m}. gmem g' x = gmem g x)"
    "\<forall>a. r = Some a \<longrightarrow> (\<forall>b m. M b = Some m \<longrightarrow> {a..<a + n} \<inter> {b..<b + m} = {})" by blast
  moreover have "need_mlock (ge_pa e) \<and> \<not> mlock_ok (ge_pa e) \<or> no_room (g_sbi g) \<and> pa_head (gpa g) = []" if "r = None"
    using gsa_malloc_law [OF inv e n] r(1) that by auto
  ultimately show "\<exists>r g'. zus_gsa_malloc e n g = Some (r, g') \<and> (\<forall>b m. M b = Some m \<longrightarrow> (\<forall>x\<in>{b..<b + m}. gmem g' x = gmem g x)) \<and>
       (case r of None \<Rightarrow> need_mlock (ge_pa e) \<and> \<not> mlock_ok (ge_pa e) \<or> no_room (g_sbi g) \<and> pa_head (gpa g) = []
        | Some a \<Rightarrow> \<forall>b m. M b = Some m \<longrightarrow> {a..<a + n} \<inter> {b..<b + m} = {})"
    by (intro exI [of _ r] exI [of _ g']) (simp split: option.split)
qed

definition sample_genv :: gsa_env where
  "sample_genv = \<lparr>ge_pa = sample_env, ge_cpu = 1, ge_try = (\<lambda>_. True), ge_libc = None\<rparr>"

definition sample_gsa :: zus_global_slab_allocator where
  "sample_gsa = \<lparr>g_sbi = sample_pasb, g_slab = map slab_init [0..<2]\<rparr>"

lemma sample_gsa_ok:
  "zus_slab_init None 2 (Inr sample_pasb) None = (Inr (), Some sample_gsa)" "pa_data (sb_pa sample_pasb) mod 32 = 0" "0 < pa_data (sb_pa sample_pasb)"
  "gsa_good 2 sample_genv" "gsa_inv 2 Map.empty sample_gsa"
proof -
  show i: "zus_slab_init None 2 (Inr sample_pasb) None = (Inr (), Some sample_gsa)" "pa_data (sb_pa sample_pasb) mod 32 = 0" "0 < pa_data (sb_pa sample_pasb)"
    "gsa_good 2 sample_genv"
    by (simp_all add: zus_slab_init_def sample_gsa_def sample_pasb_def gsa_good_def sample_genv_def sample_pa(1))
  show "gsa_inv 2 Map.empty sample_gsa" unfolding sample_gsa_def by (rule slab_init_inv [OF sample_pa(2) i(2,3)]) simp
qed

lemma sample_malloc:
  assumes "slab_size_valid n"
  obtains a g where "zus_gsa_malloc sample_genv n sample_gsa = Some (Some a, g)" "gsa_inv 2 [a \<mapsto> n] g"
proof -
  note L = gsa_malloc_law [OF sample_gsa_ok(5,4) assms]
  then obtain r g where r: "zus_gsa_malloc sample_genv n sample_gsa = Some (r, g)" by blast
  have "\<not> (need_mlock (ge_pa sample_genv) \<and> \<not> mlock_ok (ge_pa sample_genv))" "\<not> no_room (g_sbi sample_gsa)"
    using sample_pa(4,5) by (simp_all add: sample_genv_def sample_gsa_def)
  then show thesis using L r that by (cases r) auto
qed

theorem slab_history_safe_witness:
  "\<exists>a g r g'. plays (gsa_good 2) slab_size_valid zus_gsa_malloc zus_gsa_free (Map.empty, sample_gsa) ([a \<mapsto> 100], g) \<and>
     zus_gsa_malloc sample_genv 200 g = Some (r, g') \<and> (\<forall>b. r = Some b \<longrightarrow> {b..<b + 200} \<inter> {a..<a + 100} = {})"
proof -
  obtain a g where m: "zus_gsa_malloc sample_genv 100 sample_gsa = Some (Some a, g)" by (rule sample_malloc [of 100]) (simp add: slab_size_valid_def)
  have h: "plays (gsa_good 2) slab_size_valid zus_gsa_malloc zus_gsa_free (Map.empty, sample_gsa) ([a \<mapsto> 100], g)"
    by (rule plays.got [where e = sample_genv]) (use m sample_gsa_ok(4) in \<open>simp_all add: plays.start slab_size_valid_def\<close>)
  have v: "slab_size_valid 200" by (simp add: slab_size_valid_def)
  have "(2::nat) < 2 ^ 31" by simp
  note S = slab_history_safe [OF sample_gsa_ok(1) sample_pa(2) sample_gsa_ok(2,3) this h, THEN conjunct2, THEN conjunct1, rule_format, OF sample_gsa_ok(4) v]
  from S obtain r g' where r: "zus_gsa_malloc sample_genv 200 g = Some (r, g')"
    "case r of None \<Rightarrow> need_mlock (ge_pa sample_genv) \<and> \<not> mlock_ok (ge_pa sample_genv) \<or> no_room (g_sbi g) \<and> pa_head (gpa g) = []
     | Some b \<Rightarrow> \<forall>c m. [a \<mapsto> 100] c = Some m \<longrightarrow> {b..<b + 200} \<inter> {c..<c + m} = {}" by (elim exE conjE) (rule that)
  have "{b..<b + 200} \<inter> {a..<a + 100} = {}" if "r = Some b" for b
    using r(2) unfolding that option.case by (metis fun_upd_same)
  with h r(1) show ?thesis by blast
qed


section \<open>Reallocation\<close>

lemma mem_write_wf [simp]: "gsa_wf C M (mem_write b n src g) = gsa_wf C M g"
proof -
  let ?s = "(g_sbi g)\<lparr>h_mem := (\<lambda>x. if b \<le> x \<and> x < b + n then src (x - b) else h_mem (g_sbi g) x)\<rparr>"
  have "pa_ok ?s = pa_ok (g_sbi g)" "in_use ?s = in_use (g_sbi g)" by (simp_all add: pa_ok_def in_use_def)
  then show ?thesis by (simp add: mem_write_def gsa_wf_def shape_ok_def slab_page_ok_def)
qed

lemma mem_write_inv [simp]: "gsa_inv k M (mem_write b n src g) = gsa_inv k M g"
proof -
  have "length (g_slab (mem_write b n src g)) = length (g_slab g)" by (simp add: mem_write_def)
  then show ?thesis by (simp only: gsa_inv_def mem_write_wf)
qed

lemma mem_write_mem: "gmem (mem_write b n src g) x = (if b \<le> x \<and> x < b + n then src (x - b) else gmem g x)"
  by (simp add: mem_write_def)

lemma mem_write_cpu [simp]: "zus_gsa_cpu_of env a (mem_write b n src g) = zus_gsa_cpu_of env a g"
  by (simp add: zus_gsa_cpu_of_def pa_addr_inrange_def mem_write_def)

lemma gsa_wf_resize:
  assumes wf: "gsa_wf C M g" and a: "M a = Some n" "C pg = Some (c, i)" "a \<in> elems (gpa g) pg i" "sz \<le> esize i"
  shows "gsa_wf C (M(a \<mapsto> sz)) g"
proof -
  have "dom (M(a \<mapsto> sz)) = dom M" using a(1) by auto
  moreover have "object_ok C (gpa g) x m" if "(M(a \<mapsto> sz)) x = Some m" for x m
    using that gsa_wfD(5) [OF wf, of x m] a(2-4) by (auto simp: object_ok_def split: if_splits)
  ultimately show ?thesis using wf unfolding gsa_wf_def by simp
qed

text \<open>The move of \<open>zus_realloc\<close> to a larger new object: the copy of the old object, then its release.\<close>

lemma realloc_move:
  assumes M: "M a = Some n" "M b = None" and inv: "gsa_inv k (M(b \<mapsto> sz)) g1" and e: "gsa_good k e" and s: "n \<le> s" "s < sz"
  obtains d g3 where "zus_gsa_cpu_of (ge_pa e) a (mem_write b s (\<lambda>x. gmem g1 (a + x)) g1) = Some (int d)"
    "zus_gsa_free e a (mem_write b s (\<lambda>x. gmem g1 (a + x)) g1) = Some g3" "gsa_inv k ((M(a := None))(b \<mapsto> sz)) g3"
    "\<forall>x<n. gmem g3 (b + x) = gmem g1 (a + x)"
    "\<forall>c m. M c = Some m \<longrightarrow> c \<noteq> a \<longrightarrow> (\<forall>x<m. gmem g3 (c + x) = gmem g1 (c + x))"
proof -
  let ?M = "M(b \<mapsto> sz)"
  have ab: "a \<noteq> b" using M by auto
  have a1: "?M a = Some n" "?M b = Some sz" using M ab by simp_all
  from inv obtain D where wf: "gsa_wf D ?M g1" by (auto simp: gsa_inv_def)
  have env: "env_ok (ge_pa e)" using e by (simp add: gsa_good_def)
  obtain d where cpu: "zus_gsa_cpu_of (ge_pa e) a g1 = Some (int d)" by (rule live_object [OF wf a1(1) env])
  define g2 where "g2 = mem_write b s (\<lambda>x. gmem g1 (a + x)) g1"
  have inv2: "gsa_inv k ?M g2" using inv by (simp add: g2_def)
  from gsa_free_law [OF inv2 e a1(1)] obtain g3 where
    g3: "zus_gsa_free e a g2 = Some g3" "gsa_inv k (?M(a := None)) g3"
      "\<forall>c m. ?M c = Some m \<longrightarrow> c \<noteq> a \<longrightarrow> (\<forall>x\<in>{c..<c + m}. gmem g3 x = gmem g2 x)" by blast
  have new: "gmem g3 (b + x) = gmem g1 (a + x)" if "x < n" for x
    using g3(3) [rule_format, OF a1(2), of "b + x"] ab that s by (simp add: g2_def mem_write_mem)
  have old: "gmem g3 (c + x) = gmem g1 (c + x)" if c: "M c = Some m" "c \<noteq> a" "x < m" for c m x
  proof -
    have cb: "c \<noteq> b" "?M c = Some m" using c(1) M(2) by auto
    have "c + x \<notin> {b..<b + sz}" using objects_apart [OF wf cb(2) a1(2) cb(1)] c(3) by auto
    then have "gmem g2 (c + x) = gmem g1 (c + x)" using s by (auto simp: g2_def mem_write_mem)
    then show ?thesis using g3(3) cb(2) c by simp
  qed
  have twist: "?M(a := None) = (M(a := None))(b \<mapsto> sz)" using ab by (simp add: fun_upd_twist)
  show thesis using that [of d g3] cpu g3(1,2) new old unfolding twist g2_def by simp
qed

text \<open>
  \<open>zus_realloc\<close> of a live slab object to a size of at most a page, when the C library gives no memory. It never aborts. If it returns \<open>NULL\<close>, all
  live objects are as before. Otherwise the object has the new size, its contents up to the smaller of the two sizes are the old
  ones, the old object is no longer live unless it was kept in place, and no other live object changes.
\<close>

theorem zus_realloc_correct:
  assumes inv: "gsa_inv k M g" and e: "gsa_good k e" "ge_libc e = None" and a: "M a = Some n" and sz: "slab_size_valid sz"
  shows "\<exists>r g'. zus_realloc e (Some a) sz (Some g) = Some (r, Some g') \<and>
    (case r of None \<Rightarrow> gsa_inv k M g' \<and> (\<forall>c m. M c = Some m \<longrightarrow> (\<forall>x<m. gmem g' (c + x) = gmem g (c + x)))
     | Some b \<Rightarrow> gsa_inv k ((M(a := None))(b \<mapsto> sz)) g' \<and> (b = a \<or> M b = None) \<and> (\<forall>x<min n sz. gmem g' (b + x) = gmem g (a + x)) \<and>
         (\<forall>c m. M c = Some m \<longrightarrow> c \<noteq> a \<longrightarrow> (\<forall>x<m. gmem g' (c + x) = gmem g (c + x))))"
proof -
  from inv obtain C where wf: "gsa_wf C M g" and k: "length (g_slab g) = k" by (auto simp: gsa_inv_def)
  have env: "env_ok (ge_pa e)" using e by (simp add: gsa_good_def)
  obtain pg c i where L: "C pg = Some (c, i)" "a \<in> elems (gpa g) pg i" "n \<le> esize i" "zus_gsa_cpu_of (ge_pa e) a g = Some (int c)"
    "elem_size (ge_pa e) a g = Some (esize i)" by (rule live_object [OF wf a env])
  have sz0: "sz \<noteq> 0" using sz by (simp add: slab_size_valid_def)
  show ?thesis
  proof (cases "sz \<le> esize i")
    case True
    then have "zus_realloc e (Some a) sz (Some g) = Some (Some a, Some g)" using L sz0 by (simp add: zus_realloc_def)
    moreover have "gsa_inv k ((M(a := None))(a \<mapsto> sz)) g" using gsa_wf_resize [OF wf a L(1,2) True] k by (auto simp: gsa_inv_def)
    ultimately show ?thesis by auto
  next
    case False
    from gsa_malloc_law [OF inv e(1) sz] obtain r g1 where
      r: "zus_gsa_malloc e sz g = Some (r, g1)" "\<forall>b m. M b = Some m \<longrightarrow> elem_size (ge_pa e) b g1 = elem_size (ge_pa e) b g \<and> (\<forall>x\<in>{b..<b + m}. gmem g1 x = gmem g x)"
        "case r of None \<Rightarrow> gsa_inv k M g1 \<and> (need_mlock (ge_pa e) \<and> \<not> mlock_ok (ge_pa e) \<or> no_room (g_sbi g) \<and> pa_head (gpa g) = [])
         | Some b \<Rightarrow> M b = None \<and> gsa_inv k (M(b \<mapsto> sz)) g1" by (elim exE conjE) (rule that)
    have mem1: "gmem g1 (b + x) = gmem g (b + x)" if "M b = Some m" "x < m" for b m x using r(2) that by simp
    show ?thesis
    proof (cases r)
      case None
      have "zus_realloc e (Some a) sz (Some g) = Some (None, Some g1)"
        using False L sz0 sz r(1) None e(2) by (simp add: zus_realloc_def zus_malloc_def)
      then show ?thesis using r(3) None mem1 by auto
    next
      case (Some b)
      have b: "M b = None" "gsa_inv k (M(b \<mapsto> sz)) g1" using r(3) Some by simp_all
      have es: "elem_size (ge_pa e) a g1 = Some (esize i)" using r(2) a L(5) by simp
      have s: "esize i < sz" using False by simp
      obtain d g3 where g3: "zus_gsa_cpu_of (ge_pa e) a (mem_write b (esize i) (\<lambda>x. gmem g1 (a + x)) g1) = Some (int d)"
        "zus_gsa_free e a (mem_write b (esize i) (\<lambda>x. gmem g1 (a + x)) g1) = Some g3" "gsa_inv k ((M(a := None))(b \<mapsto> sz)) g3"
        "\<forall>x<n. gmem g3 (b + x) = gmem g1 (a + x)"
        "\<forall>c m. M c = Some m \<longrightarrow> c \<noteq> a \<longrightarrow> (\<forall>x<m. gmem g3 (c + x) = gmem g1 (c + x))"
        by (rule realloc_move [OF a b e(1) L(3) s])
      have "zus_realloc e (Some a) sz (Some g) = Some (Some b, Some g3)"
        using False L sz0 sz r(1) Some es g3(1,2) by (simp add: zus_realloc_def zus_malloc_def zus_free_def Let_def)
      then show ?thesis using g3(3-5) b(1) mem1 a by (intro exI [of _ "Some b"] exI [of _ g3]) simp
    qed
  qed
qed


theorem zus_realloc_correct_witness:
  "\<exists>a g r g'. zus_gsa_malloc sample_genv 100 sample_gsa = Some (Some a, g) \<and> zus_realloc sample_genv (Some a) 300 (Some g) = Some (r, Some g') \<and>
     (\<forall>b. r = Some b \<longrightarrow> (\<forall>x<100. gmem g' (b + x) = gmem g (a + x)))"
proof -
  obtain a g where m: "zus_gsa_malloc sample_genv 100 sample_gsa = Some (Some a, g)" "gsa_inv 2 [a \<mapsto> 100] g"
    by (rule sample_malloc [of 100]) (simp add: slab_size_valid_def)
  have s: "ge_libc sample_genv = None" "slab_size_valid 300" "[a \<mapsto> 100] a = Some (100::nat)" by (simp_all add: sample_genv_def slab_size_valid_def)
  from zus_realloc_correct [OF m(2) sample_gsa_ok(4) s(1,3,2)] obtain r g' where
    r: "zus_realloc sample_genv (Some a) 300 (Some g) = Some (r, Some g')" and
    c: "case r of None \<Rightarrow> gsa_inv 2 [a \<mapsto> 100] g' \<and> (\<forall>c m. [a \<mapsto> 100] c = Some m \<longrightarrow> (\<forall>x<m. gmem g' (c + x) = gmem g (c + x)))
     | Some b \<Rightarrow> gsa_inv 2 (([a \<mapsto> 100](a := None))(b \<mapsto> 300)) g' \<and> (b = a \<or> [a \<mapsto> (100::nat)] b = None) \<and> (\<forall>x<min 100 300. gmem g' (b + x) = gmem g (a + x)) \<and>
         (\<forall>c m. [a \<mapsto> 100] c = Some m \<longrightarrow> c \<noteq> a \<longrightarrow> (\<forall>x<m. gmem g' (c + x) = gmem g (c + x)))" by (elim exE conjE) (rule that)
  have "\<forall>x<100. gmem g' (b + x) = gmem g (a + x)" if "r = Some b" for b using c unfolding that option.case by simp
  with m(1) r show ?thesis by blast
qed

text \<open>
  \<open>zus_realloc\<close> of memory that came from the C library, to a size of at most a page. If the new memory can be allocated, the
  process ends: \<open>__elem_size\<close> looks for the page structure of an address that is not in the slab area and dereferences
  \<open>NULL\<close>.
\<close>

theorem zus_realloc_foreign_aborts:
  assumes e: "gsa_good k e" and inv: "gsa_inv k M g" and sz: "slab_size_valid sz"
    and a: "0 < a" "a < pa_data (gpa g)" and new: "zus_malloc e sz (Some g) = Some (Some b, Some g1)"
  shows "zus_realloc e (Some a) sz (Some g) = None"
proof -
  from gsa_malloc_law [OF inv e sz] obtain r g' where m: "zus_gsa_malloc e sz g = Some (r, g')" by blast
  from inv obtain C where wf: "gsa_wf C M g" and k: "length (g_slab g) = k" by (auto simp: gsa_inv_def)
  have env: "env_ok (ge_pa e)" "0 \<le> ge_cpu e" "ge_cpu e < int (length (g_slab g))" using e k by (simp_all add: gsa_good_def)
  from gsa_malloc_spec [OF wf sz env] obtain c where c: "c < length (g_slab g)" "zus_gsa_malloc e sz g = slab_alloc_at (ge_pa e) c sz g" by blast
  from alloc_at_spec [OF wf c(1) sz env(1)] m c(2) have "same_area (g_sbi g) (g_sbi g')" by auto
  moreover have "g1 = g'" using new m sz by (auto simp: zus_malloc_def slab_size_valid_def split: option.splits)
  ultimately have "pa_data (gpa g1) = pa_data (gpa g)" by (simp add: same_area_def)
  then have "elem_size (ge_pa e) a g1 = None" using a by (simp add: elem_size_def pa_virt_to_page_def pa_valid_addr_def)
  moreover have "zus_gsa_cpu_of (ge_pa e) a g = Some (- 1)" using a by (simp add: zus_gsa_cpu_of_def pa_addr_inrange_def Let_def)
  moreover have "sz \<noteq> 0" using sz by (simp add: slab_size_valid_def)
  ultimately show ?thesis using new sz a(1) by (simp add: zus_realloc_def)
qed

theorem zus_realloc_foreign_aborts_witness: "zus_realloc sample_genv (Some 4096) 300 (Some sample_gsa) = None"
proof -
  have v: "slab_size_valid 300" by (simp add: slab_size_valid_def)
  obtain a g where m: "zus_gsa_malloc sample_genv 300 sample_gsa = Some (Some a, g)" by (rule sample_malloc [OF v])
  have n: "zus_malloc sample_genv 300 (Some sample_gsa) = Some (Some a, Some g)" using m v by (simp add: zus_malloc_def)
  show ?thesis by (rule zus_realloc_foreign_aborts [OF sample_gsa_ok(4,5) v _ _ n]) (simp_all add: sample_gsa_def sample_pasb_def)
qed

end
