(* ===== verification/SlabFini.thy ===== *)
theory SlabFini
  imports SlabMalloc
begin

text \<open>
  The end of the slab allocator (\<open>_slab_fini\<close>, \<open>zus_slab_fini\<close> of \<open>slab.c\<close>): the pages without live elements go back to the page allocator, list by list
  and processor by processor. The loop over a list ends because every round takes the elements of a page out of it; where it would not end, the
  result is \<open>None\<close>. The memory that \<open>pa_fini\<close> releases afterwards is the subject of theory \<open>Fba\<close>.
\<close>

section \<open>Operations\<close>

partial_function (option) slab_fini_list :: "pa_env \<Rightarrow> nat \<Rightarrow> zus_slab \<Rightarrow> zus_sb_info \<Rightarrow> (zus_slab \<times> zus_sb_info) run" where
  "slab_fini_list env slab_index slab s = do {
     slab_list \<leftarrow> slab_list_at slab slab_index;
     (case sl_head slab_list of [] \<Rightarrow> Some (slab, s)
      | se # _ \<Rightarrow> do {
          page \<leftarrow> pa_virt_to_page (e_o2p env) (sb_pa s) se;
          if pg_slab_uc (h_page s page) \<noteq> 0 then Some (slab, s)
          else do {
            (slab1, s1) \<leftarrow> slab_page_fini page slab_index slab s;
            (last, s2) \<leftarrow> pa_put_page env page s1;
            slab_fini_list env slab_index slab1 s2 } }) }"

fun slab_fini_lists :: "pa_env \<Rightarrow> nat list \<Rightarrow> zus_slab \<Rightarrow> zus_sb_info \<Rightarrow> (zus_slab \<times> zus_sb_info) run" where
  "slab_fini_lists env [] slab s = Some (slab, s)"
| "slab_fini_lists env (slab_index # is) slab s = do {
     (slab1, s1) \<leftarrow> slab_fini_list env slab_index slab s;
     l \<leftarrow> slab_list_at slab1 slab_index;
     slab_fini_lists env is (slab_list_put slab_index (l\<lparr>nused := 0, nfree_want := 0\<rparr>) slab1) s1 }"

definition slab_fini :: "pa_env \<Rightarrow> zus_slab \<Rightarrow> zus_sb_info \<Rightarrow> (zus_slab \<times> zus_sb_info) run" where
  "slab_fini env slab s = do {
     (slab1, s1) \<leftarrow> slab_fini_lists env [0..<ZUS_SLAB_LISTS] slab s;
     Some (slab1\<lparr>sl_cpu := 0\<rparr>, s1) }"

fun slab_fini_all :: "pa_env \<Rightarrow> zus_slab list \<Rightarrow> zus_sb_info \<Rightarrow> zus_sb_info run" where
  "slab_fini_all env [] s = Some s"
| "slab_fini_all env (slab # slabs) s = do { (slab1, s1) \<leftarrow> slab_fini env slab s; slab_fini_all env slabs s1 }"

text \<open>The result has the number of pages that \<open>pa_fini\<close> reports as lost. The structure of the allocator is freed.\<close>

definition zus_slab_fini :: "pa_env \<Rightarrow> gsa_ptr \<Rightarrow> (gsa_ptr \<times> (nat \<times> zus_sb_info) option) run" where
  "zus_slab_fini env gsa =
    (case gsa of None \<Rightarrow> Some (None, None)
     | Some g \<Rightarrow> do { s \<leftarrow> slab_fini_all env (g_slab g) (g_sbi g); Some (None, Some (pa_leaks s, s)) })"

section \<open>Without live objects everything goes back\<close>

lemma retire_in_use:
  assumes wf: "gsa_wf C M g" and pg: "C pg = Some (c, i)" and env: "env_ok env"
    and put: "pa_put_page env pg (upd_pg pg page_clear_slab (g_sbi g)) = Some (b, s2)"
  shows "in_use s2 = in_use (g_sbi g) - {pg}"
proof -
  note P = slab_page_okD [OF gsa_wfD(3) [OF wf pg]]
  note F = upd_pg_frame [where f = page_clear_slab and pg = pg and s = "g_sbi g"]
  have "pa_ok (upd_pg pg page_clear_slab (g_sbi g))" "in_use (upd_pg pg page_clear_slab (g_sbi g)) = in_use (g_sbi g)"
    "pg_refcount (h_page (upd_pg pg page_clear_slab (g_sbi g)) pg) = 1"
    using F gsa_wfD(2) [OF wf] P(5) by (simp_all add: page_clear_slab_def pa_page_meta_set_def)
  then show ?thesis using put_page_spec [of "upd_pg pg page_clear_slab (g_sbi g)" env pg] P(3) env put by auto
qed

definition without :: "nat \<Rightarrow> nat set \<Rightarrow> (addr \<rightharpoonup> nat \<times> nat) \<Rightarrow> addr \<rightharpoonup> nat \<times> nat" where
  "without c I C = (\<lambda>p. case C p of None \<Rightarrow> None | Some (d, j) \<Rightarrow> if d = c \<and> j \<in> I then None else Some (d, j))"

definition class_pages :: "(addr \<rightharpoonup> nat \<times> nat) \<Rightarrow> nat \<Rightarrow> nat set \<Rightarrow> addr set" where
  "class_pages C c I = {p. \<exists>j \<in> I. C p = Some (c, j)}"

lemma slab_list_put_put [simp]: "slab_list_put i l (slab_list_put i l' x) = slab_list_put i l x"
  by (simp add: slab_list_put_def)

lemma put_lst_same: "c < length (g_slab g) \<Longrightarrow> put_lst c i (lst g c i) g = g"
  by (simp add: put_lst_def slab_list_put_def list_update_id)

lemma slab_at_put:
  "shape_ok g \<Longrightarrow> c < length (g_slab g) \<Longrightarrow> i < 8 \<Longrightarrow> slab_list_at (g_slab g ! c) i = Some (lst g c i)"
  by (simp add: slab_list_at_def shape_ok_def)

lemma fini_list_spec:
  assumes "gsa_wf C Map.empty g" "c < length (g_slab g)" "i < 8" "env_ok env"
  shows "\<exists>l s'. slab_fini_list env i (g_slab g ! c) (g_sbi g) = Some (slab_list_put i l (g_slab g ! c), s') \<and>
    gsa_wf (without c {i} C) Map.empty ((put_lst c i l g)\<lparr>g_sbi := s'\<rparr>) \<and> in_use s' = in_use (g_sbi g) - class_pages C c {i} \<and> g_pa_size s' = g_pa_size (g_sbi g)"
  using assms
proof (induction "length (sl_head (lst g c i))" arbitrary: C g rule: less_induct)
  case less
  note W = gsa_wfD [OF less.prems(1)]
  note at = slab_at_put [OF W(1) less.prems(2,3)]
  have L: "slab_list_ok (class_elems C (gpa g) c i) {} (lst g c i)" using W(4) [OF less.prems(2,3)] by simp
  show ?case
  proof (cases "sl_head (lst g c i)")
    case Nil
    have none: "C p \<noteq> Some (c, i)" for p
    proof
      assume "C p = Some (c, i)"
      moreover have "pa_page_address (gpa g) p \<in> elems (gpa g) p i"
        using elems_page_size [OF less.prems(3)] by (auto simp: elems_def intro!: image_eqI [of _ _ 0] gr0I)
      ultimately show False using L Nil by (auto simp: slab_list_ok_def class_elems_def)
    qed
    then have "without c {i} C = C" "class_pages C c {i} = {}"
      by (auto simp: without_def class_pages_def fun_eq_iff split: option.splits)
    moreover have "slab_fini_list env i (g_slab g ! c) (g_sbi g) = Some (slab_list_put i (lst g c i) (g_slab g ! c), g_sbi g)"
      by (subst slab_fini_list.simps) (simp add: at Nil slab_list_put_def list_update_id)
    ultimately show ?thesis using less.prems(1) put_lst_same [OF less.prems(2), of i]
      by (intro exI [of _ "lst g c i"] exI [of _ "g_sbi g"]) simp
  next
    case (Cons se rest)
    then obtain pg where pg: "C pg = Some (c, i)" "se \<in> elems (gpa g) pg i" using L by (fastforce simp: slab_list_ok_def class_elems_def)
    note P = slab_page_okD [OF W(3) [OF pg(1)]]
    define l where "l = del_elems (drop_bit i 128) (pa_page_address (gpa g) pg) (push_bit i 1) (lst g c i)"
    from gsa_retire [OF less.prems(1) pg(1) _ less.prems(4)] obtain s2 where
      s2: "pa_put_page env pg (upd_pg pg page_clear_slab (g_sbi g)) = Some (True, s2)" "gsa_wf (C(pg := None)) Map.empty ((put_lst c i l g)\<lparr>g_sbi := s2\<rparr>)" "g_pa_size s2 = g_pa_size (g_sbi g)"
      unfolding l_def by (auto simp: same_area_def)
    define g1 where "g1 = (put_lst c i l g)\<lparr>g_sbi := s2\<rparr>"
    have g1: "g_sbi g1 = s2" "length (g_slab g1) = length (g_slab g)" "g_slab g1 ! c = slab_list_put i l (g_slab g ! c)" "lst g1 c i = l"
      using less.prems(2) lst_put_lst [OF W(1) less.prems(2,3,2,3), of l] by (simp_all add: g1_def put_lst_def)
    have "l = (lst g c i)\<lparr>sl_head := filter (\<lambda>x. x \<notin> elems (gpa g) pg i) (sl_head (lst g c i)), nfree := nfree (lst g c i) - int (drop_bit i 128)\<rparr>"
      using L del_elems_spec [of "lst g c i"] page_elems(1) [OF less.prems(3), of "gpa g" pg] by (simp add: l_def slab_list_ok_def)
    then have "length (sl_head l) < length (sl_head (lst g c i))" using Cons pg(2) by (simp add: less_Suc_eq_le)
    from less.hyps [of g1 "C(pg := None)", unfolded g1(2,4), OF this s2(2) [folded g1_def] less.prems(2-4)] obtain l' s' where
      r: "slab_fini_list env i (g_slab g1 ! c) s2 = Some (slab_list_put i l' (g_slab g1 ! c), s')"
        "gsa_wf (without c {i} (C(pg := None))) Map.empty ((put_lst c i l' g1)\<lparr>g_sbi := s'\<rparr>)" "in_use s' = in_use s2 - class_pages (C(pg := None)) c {i}" "g_pa_size s' = g_pa_size s2"
      unfolding g1(1) by blast
    have v: "pa_virt_to_page (e_o2p env) (gpa g) se = Some pg"
      by (rule elem_page(1) [OF less.prems(4) P(4) elem_mem_page [OF pg(2) less.prems(3)]])
    have "slab_fini_list env i (g_slab g ! c) (g_sbi g) = Some (slab_list_put i l' (g_slab g ! c), s')"
      using r(1) by (subst slab_fini_list.simps) (simp add: at Cons v P(8) slab_page_fini_def s2(1) l_def g1(3))
    moreover have "without c {i} (C(pg := None)) = without c {i} C" using pg(1) by (simp add: without_def fun_eq_iff)
    moreover have "(put_lst c i l' g1)\<lparr>g_sbi := s'\<rparr> = (put_lst c i l' g)\<lparr>g_sbi := s'\<rparr>" using less.prems(2) by (simp add: g1_def put_lst_def)
    moreover have "in_use s' = in_use (g_sbi g) - class_pages C c {i}"
      unfolding r(3) retire_in_use [OF less.prems(1) pg(1) less.prems(4) s2(1)] using pg(1) by (auto simp: class_pages_def)
    ultimately show ?thesis using r(2,4) s2(3) by auto
  qed
qed

definition fini_slab_of :: "nat \<Rightarrow> zus_slab \<Rightarrow> zus_sb_info \<Rightarrow> zus_global_slab_allocator \<Rightarrow> zus_global_slab_allocator" where
  "fini_slab_of c slab s g = g\<lparr>g_slab := (g_slab g)[c := slab], g_sbi := s\<rparr>"

lemma wf_reset_counts:
  assumes wf: "gsa_wf C Map.empty g" and c: "c < length (g_slab g)" "i < 8"
  shows "gsa_wf C Map.empty (put_lst c i ((lst g c i)\<lparr>nused := 0, nfree_want := 0\<rparr>) g)" (is "gsa_wf C Map.empty ?g")
proof -
  note W = gsa_wfD [OF wf]
  have "slab_list_ok (class_elems C (gpa g) d j) (dom Map.empty) (lst ?g d j)" if "d < length (g_slab g)" "j < 8" for d j
    using W(4) [OF that] lst_put_lst [OF W(1) c that, of "(lst g c i)\<lparr>nused := 0, nfree_want := 0\<rparr>"] by (auto simp: slab_list_ok_def)
  then show ?thesis using W(2,3) shape_put_lst [OF W(1) c(1)] by (auto simp: gsa_wf_def)
qed

lemma fini_lists_spec:
  assumes "gsa_wf C Map.empty g" "c < length (g_slab g)" "set is \<subseteq> {..<8}" "env_ok env"
  shows "\<exists>slab s'. slab_fini_lists env is (g_slab g ! c) (g_sbi g) = Some (slab, s') \<and>
    gsa_wf (without c (set is) C) Map.empty (fini_slab_of c slab s' g) \<and> in_use s' = in_use (g_sbi g) - class_pages C c (set is) \<and> g_pa_size s' = g_pa_size (g_sbi g)"
  using assms
proof (induction "is" arbitrary: C g)
  case Nil
  have "without c {} C = C" by (auto simp: without_def fun_eq_iff split: option.splits)
  then show ?case using Nil by (simp add: fini_slab_of_def class_pages_def list_update_id)
next
  case (Cons i "is")
  have i: "i < 8" "set is \<subseteq> {..<8}" using Cons.prems(3) by auto
  from fini_list_spec [OF Cons.prems(1,2) i(1) Cons.prems(4)] obtain l s1 where
    r: "slab_fini_list env i (g_slab g ! c) (g_sbi g) = Some (slab_list_put i l (g_slab g ! c), s1)"
      "gsa_wf (without c {i} C) Map.empty ((put_lst c i l g)\<lparr>g_sbi := s1\<rparr>)" "in_use s1 = in_use (g_sbi g) - class_pages C c {i}"
      "g_pa_size s1 = g_pa_size (g_sbi g)" by blast
  define g1 where "g1 = (put_lst c i l g)\<lparr>g_sbi := s1\<rparr>"
  define g2 where "g2 = put_lst c i ((lst g1 c i)\<lparr>nused := 0, nfree_want := 0\<rparr>) g1"
  have g1: "gsa_wf (without c {i} C) Map.empty g1" "c < length (g_slab g1)" "g_slab g1 ! c = slab_list_put i l (g_slab g ! c)"
    using r(2) Cons.prems(2) by (simp_all add: g1_def) (simp add: put_lst_def)
  note at = slab_at_put [OF gsa_wfD(1) [OF g1(1)] g1(2) i(1)]
  have g2: "gsa_wf (without c {i} C) Map.empty g2" "c < length (g_slab g2)" "g_sbi g2 = s1"
    using wf_reset_counts [OF g1(1,2) i(1)] g1(2) by (simp_all add: g2_def) (simp add: g1_def)
  have nth: "g_slab g2 ! c = slab_list_put i ((lst g1 c i)\<lparr>nused := 0, nfree_want := 0\<rparr>) (g_slab g1 ! c)"
    using g1(2) by (simp add: g2_def put_lst_def)
  from Cons.IH [OF g2(1,2) i(2) Cons.prems(4)] obtain slab s' where
    q: "slab_fini_lists env is (g_slab g2 ! c) s1 = Some (slab, s')" "gsa_wf (without c (set is) (without c {i} C)) Map.empty (fini_slab_of c slab s' g2)"
      "in_use s' = in_use s1 - class_pages (without c {i} C) c (set is)" "g_pa_size s' = g_pa_size s1" unfolding g2(3) by blast
  have "slab_fini_lists env (i # is) (g_slab g ! c) (g_sbi g) = Some (slab, s')"
    using q(1) at unfolding nth g1(3) by (simp add: r(1))
  moreover have "without c (set is) (without c {i} C) = without c (set (i # is)) C"
    by (auto simp: without_def fun_eq_iff split: option.splits)
  moreover have "fini_slab_of c slab s' g2 = fini_slab_of c slab s' g"
    using Cons.prems(2) by (simp add: fini_slab_of_def g2_def g1_def put_lst_def)
  moreover have "in_use s' = in_use (g_sbi g) - class_pages C c (set (i # is))"
    unfolding q(3) r(3) by (auto simp: class_pages_def without_def split: option.splits if_splits)
  ultimately show ?case using q(2,4) r(4) by auto
qed

lemma fini_all_spec:
  assumes "gsa_wf C Map.empty g" "c \<le> length (g_slab g)" "env_ok env" "\<forall>p d j. C p = Some (d, j) \<longrightarrow> c \<le> d"
  shows "\<exists>s'. slab_fini_all env (drop c (g_slab g)) (g_sbi g) = Some s' \<and> pa_ok s' \<and> in_use s' = in_use (g_sbi g) - dom C \<and> g_pa_size s' = g_pa_size (g_sbi g)"
  using assms
proof (induction "length (g_slab g) - c" arbitrary: c C g)
  case 0
  have "dom C = {}" using 0 slab_page_okD(1) [OF gsa_wfD(3) [OF 0(2)]] by fastforce
  then show ?case using 0 gsa_wfD(2) [OF 0(2)] by simp
next
  case (Suc n)
  have c: "c < length (g_slab g)" using Suc.hyps(2) by simp
  from fini_lists_spec [OF Suc.prems(1) c, of "[0..<8]" env] Suc.prems(3) obtain slab s1 where
    r: "slab_fini_lists env [0..<8] (g_slab g ! c) (g_sbi g) = Some (slab, s1)" "gsa_wf (without c {..<8} C) Map.empty (fini_slab_of c slab s1 g)"
      "in_use s1 = in_use (g_sbi g) - class_pages C c {..<8}" "g_pa_size s1 = g_pa_size (g_sbi g)" by (auto simp: atLeast0LessThan)
  have cls: "C p = Some (c, j) \<Longrightarrow> j < 8" for p j using slab_page_okD(2) [OF gsa_wfD(3) [OF Suc.prems(1)]] by blast
  let ?g = "fini_slab_of c slab s1 g"
  have g: "g_sbi ?g = s1" "length (g_slab ?g) = length (g_slab g)" "drop (Suc c) (g_slab ?g) = drop (Suc c) (g_slab g)"
    by (simp_all add: fini_slab_of_def)
  have "Suc c \<le> d" if w: "without c {..<8} C p = Some (d, j)" for p d j
  proof -
    have p: "C p = Some (d, j)" "d = c \<longrightarrow> \<not> j < 8" using w by (auto simp: without_def split: option.splits if_splits)
    then have "c \<le> d" "d \<noteq> c" using Suc.prems(4) cls by blast+
    then show ?thesis by simp
  qed
  then have "\<forall>p d j. without c {..<8} C p = Some (d, j) \<longrightarrow> Suc c \<le> d" by blast
  moreover have "n = length (g_slab ?g) - Suc c" "Suc c \<le> length (g_slab ?g)" using Suc.hyps(2) c by (simp_all add: g(2))
  ultimately obtain s' where
    q: "slab_fini_all env (drop (Suc c) (g_slab g)) s1 = Some s'" "pa_ok s'" "in_use s' = in_use s1 - dom (without c {..<8} C)" "g_pa_size s' = g_pa_size s1"
    using Suc.hyps(1) [of ?g "Suc c" "without c {..<8} C"] r(2) Suc.prems(3) unfolding g by blast
  have "slab_fini_all env (drop c (g_slab g)) (g_sbi g) = Some s'"
    unfolding Cons_nth_drop_Suc [OF c, symmetric] by (simp add: slab_fini_def r(1) q(1))
  moreover have "class_pages C c {..<8} \<union> dom (without c {..<8} C) = dom C"
    using cls by (auto simp: class_pages_def without_def dom_def split: option.splits if_splits)
  ultimately show ?case using q(2-4) r(3,4) by auto
qed

text \<open>
  When no object is live, the end of the slab allocator gives back every page it has taken: the pages that the page allocator reports as lost are
  those that others have taken from it. In particular none is lost when all pages in use are slab pages.
\<close>

theorem zus_slab_fini_returns_pages:
  assumes "gsa_wf C Map.empty g" "env_ok env" "g_pa_size (g_sbi g) < 2 ^ 64"
  shows "\<exists>s'. zus_slab_fini env (Some g) = Some (None, Some (card (in_use (g_sbi g) - dom C), s')) \<and> in_use s' = in_use (g_sbi g) - dom C"
  using fini_all_spec [OF assms(1) _ assms(2), of 0] leaks_card assms(3) by (fastforce simp: zus_slab_fini_def)

end
