(* ===== verification/MdTable.thy ===== *)
theory MdTable
  imports Prelude
begin

unbundle bit_operations_syntax

text \<open>
  The device table of a multi-device file system (\<open>md_zus.c\<close>): its checksum, the checks of a table found on a device, and
  the maps from block numbers to devices that are built at mount. The layout of \<open>struct md_dev_table\<close> and the functions of
  \<open>md.h\<close> are in the kernel part of the project: the bytes under the checksum, the version numbers, the block count of a device id
  and the page translations are parameters. The main results: the table driven checksum is the bitwise CRC-16, it detects every change
  inside two adjacent bytes, and the maps lead every block to the device that holds it.
\<close>

section \<open>The checksum\<close>

definition crc_table :: "16 word list" where
  "crc_table =
    [0x0000, 0xC0C1, 0xC181, 0x0140, 0xC301, 0x03C0, 0x0280, 0xC241, 0xC601, 0x06C0, 0x0780, 0xC741,
     0x0500, 0xC5C1, 0xC481, 0x0440, 0xCC01, 0x0CC0, 0x0D80, 0xCD41, 0x0F00, 0xCFC1, 0xCE81, 0x0E40,
     0x0A00, 0xCAC1, 0xCB81, 0x0B40, 0xC901, 0x09C0, 0x0880, 0xC841, 0xD801, 0x18C0, 0x1980, 0xD941,
     0x1B00, 0xDBC1, 0xDA81, 0x1A40, 0x1E00, 0xDEC1, 0xDF81, 0x1F40, 0xDD01, 0x1DC0, 0x1C80, 0xDC41,
     0x1400, 0xD4C1, 0xD581, 0x1540, 0xD701, 0x17C0, 0x1680, 0xD641, 0xD201, 0x12C0, 0x1380, 0xD341,
     0x1100, 0xD1C1, 0xD081, 0x1040, 0xF001, 0x30C0, 0x3180, 0xF141, 0x3300, 0xF3C1, 0xF281, 0x3240,
     0x3600, 0xF6C1, 0xF781, 0x3740, 0xF501, 0x35C0, 0x3480, 0xF441, 0x3C00, 0xFCC1, 0xFD81, 0x3D40,
     0xFF01, 0x3FC0, 0x3E80, 0xFE41, 0xFA01, 0x3AC0, 0x3B80, 0xFB41, 0x3900, 0xF9C1, 0xF881, 0x3840,
     0x2800, 0xE8C1, 0xE981, 0x2940, 0xEB01, 0x2BC0, 0x2A80, 0xEA41, 0xEE01, 0x2EC0, 0x2F80, 0xEF41,
     0x2D00, 0xEDC1, 0xEC81, 0x2C40, 0xE401, 0x24C0, 0x2580, 0xE541, 0x2700, 0xE7C1, 0xE681, 0x2640,
     0x2200, 0xE2C1, 0xE381, 0x2340, 0xE101, 0x21C0, 0x2080, 0xE041, 0xA001, 0x60C0, 0x6180, 0xA141,
     0x6300, 0xA3C1, 0xA281, 0x6240, 0x6600, 0xA6C1, 0xA781, 0x6740, 0xA501, 0x65C0, 0x6480, 0xA441,
     0x6C00, 0xACC1, 0xAD81, 0x6D40, 0xAF01, 0x6FC0, 0x6E80, 0xAE41, 0xAA01, 0x6AC0, 0x6B80, 0xAB41,
     0x6900, 0xA9C1, 0xA881, 0x6840, 0x7800, 0xB8C1, 0xB981, 0x7940, 0xBB01, 0x7BC0, 0x7A80, 0xBA41,
     0xBE01, 0x7EC0, 0x7F80, 0xBF41, 0x7D00, 0xBDC1, 0xBC81, 0x7C40, 0xB401, 0x74C0, 0x7580, 0xB541,
     0x7700, 0xB7C1, 0xB681, 0x7640, 0x7200, 0xB2C1, 0xB381, 0x7340, 0xB101, 0x71C0, 0x7080, 0xB041,
     0x5000, 0x90C1, 0x9181, 0x5140, 0x9301, 0x53C0, 0x5280, 0x9241, 0x9601, 0x56C0, 0x5780, 0x9741,
     0x5500, 0x95C1, 0x9481, 0x5440, 0x9C01, 0x5CC0, 0x5D80, 0x9D41, 0x5F00, 0x9FC1, 0x9E81, 0x5E40,
     0x5A00, 0x9AC1, 0x9B81, 0x5B40, 0x9901, 0x59C0, 0x5880, 0x9841, 0x8801, 0x48C0, 0x4980, 0x8941,
     0x4B00, 0x8BC1, 0x8A81, 0x4A40, 0x4E00, 0x8EC1, 0x8F81, 0x4F40, 0x8D01, 0x4DC0, 0x4C80, 0x8C41,
     0x4400, 0x84C1, 0x8581, 0x4540, 0x8701, 0x47C0, 0x4680, 0x8641, 0x8201, 0x42C0, 0x4380, 0x8341,
     0x4100, 0x81C1, 0x8081, 0x4040]"

fun crc16_loop :: "16 word \<Rightarrow> byte list \<Rightarrow> 16 word" where
  "crc16_loop crc [] = crc"
| "crc16_loop crc (d # ds) =
    (let tbl_idx = (crc XOR ucast d) AND 0xFF
     in crc16_loop ((crc_table ! unat tbl_idx XOR drop_bit 8 crc) AND 0xFFFF) ds)"

definition crc16 :: "16 word \<Rightarrow> byte list \<Rightarrow> 16 word" where
  "crc16 crc data = crc16_loop crc data AND 0xFFFF"

section \<open>Greatest common divisor\<close>

function gcd_loop :: "nat \<Rightarrow> nat \<Rightarrow> nat" where
  "gcd_loop x y = (let tmp = x mod y in if y \<noteq> 0 \<and> tmp \<noteq> 0 then gcd_loop y tmp else y)"
  by pat_completeness auto
termination
  by (relation "measure snd") auto

declare gcd_loop.simps [simp del]

definition md_gcd :: "nat \<Rightarrow> nat \<Rightarrow> nat" where
  "md_gcd x y =
    (let (x, y) = (if x < y then (y, x) else (x, y)) in if y = 0 then x else gcd_loop x y)"

section \<open>The table\<close>

record md_dev_id =
  uuid :: "byte list"
  blocks :: nat                  \<comment> \<open>the stored value, with the node number in it\<close>

record md_dev_list =
  id_index :: int
  t1_count :: nat
  t2_count :: nat
  rmem_count :: nat
  dev_ids :: "md_dev_id list"

record md_dev_table =
  s_sum :: "16 word"
  s_version :: nat
  s_magic :: nat
  s_flags :: nat
  s_t1_blocks :: nat
  s_uuid :: "byte list"
  s_wtime :: nat
  s_dev_list :: md_dev_list

record md_api =
  csum_bytes :: "md_dev_table \<Rightarrow> byte list"  \<comment> \<open>the bytes from \<open>s_version\<close> on, \<open>MDT_STATIC_SIZE - sizeof(s_sum)\<close> of them\<close>
  mdt_major_version :: "md_dev_table \<Rightarrow> nat"
  mdt_minor_version :: "md_dev_table \<Rightarrow> nat"
  dev_id_blocks :: "md_dev_id \<Rightarrow> nat"
  dev_id_nid :: "md_dev_id \<Rightarrow> nat"
  api_p2o :: "nat \<Rightarrow> nat"
  api_o2p :: "nat \<Rightarrow> nat"

record mdt_check =
  mc_magic :: nat
  major_ver :: nat
  minor_ver :: nat
  alloc_mask :: "64 word"

definition md_calc_csum :: "md_api \<Rightarrow> md_dev_table \<Rightarrow> 16 word" where
  "md_calc_csum api mdt = crc16 (NOT 0) (csum_bytes api mdt)"

definition csum_mismatch :: "md_api \<Rightarrow> md_dev_table \<Rightarrow> bool" where
  "csum_mismatch api mdt = (s_sum mdt \<noteq> md_calc_csum api mdt)"

text \<open>An access behind the array of device ids has no value.\<close>

definition dev_id_at :: "md_dev_table \<Rightarrow> nat \<Rightarrow> md_dev_id run" where
  "dev_id_at mdt i = (if i < length (dev_ids (s_dev_list mdt)) then Some (dev_ids (s_dev_list mdt) ! i) else None)"

fun compare_dev_ids :: "md_dev_table \<Rightarrow> md_dev_table \<Rightarrow> nat \<Rightarrow> nat \<Rightarrow> bool run" where
  "compare_dev_ids mdt main_mdt i 0 = Some True"
| "compare_dev_ids mdt main_mdt i (Suc n) = do {
     dev_id1 \<leftarrow> dev_id_at mdt i;
     dev_id2 \<leftarrow> dev_id_at main_mdt i;
     if uuid dev_id1 \<noteq> uuid dev_id2 then Some False
     else if blocks dev_id1 \<noteq> blocks dev_id2 then Some False
     else compare_dev_ids mdt main_mdt (Suc i) n }"

definition mdt_compare_uuids :: "md_dev_table \<Rightarrow> md_dev_table \<Rightarrow> bool run" where
  "mdt_compare_uuids mdt main_mdt =
    (if s_uuid mdt \<noteq> s_uuid main_mdt then Some False
     else let l = s_dev_list mdt in compare_dev_ids mdt main_mdt 0 (t1_count l + t2_count l + rmem_count l))"

definition md_mdt_check :: "md_api \<Rightarrow> md_dev_table \<Rightarrow> md_dev_table option \<Rightarrow> mdt_check \<Rightarrow> bool run" where
  "md_mdt_check api mdt main_mdt mc =
    (if s_magic mdt \<noteq> mc_magic mc then Some False
     else if major_ver mc \<noteq> mdt_major_version api mdt \<or> minor_ver mc < mdt_minor_version api mdt then Some False
     else if csum_mismatch api mdt then Some False
     else do {
       same \<leftarrow> (case main_mdt of None \<Rightarrow> Some True
         | Some main \<Rightarrow>
             if t1_count (s_dev_list mdt) \<noteq> t1_count (s_dev_list main) then Some False
             else if t2_count (s_dev_list mdt) \<noteq> t2_count (s_dev_list main) then Some False
             else if rmem_count (s_dev_list mdt) \<noteq> rmem_count (s_dev_list main) then Some False
             else mdt_compare_uuids mdt main);
       if \<not> same then Some False
       else let idx = id_index (s_dev_list mdt) in
         if idx < 0 \<or> int (t1_count (s_dev_list mdt) + t2_count (s_dev_list mdt)) < idx then Some False
         else do {
           dev_id \<leftarrow> dev_id_at mdt (nat idx);
           let super_size = (of_nat (api_p2o api (dev_id_blocks api dev_id)) :: 64 word);
           Some (\<not> (super_size = 0 \<or> super_size AND alloc_mask mc \<noteq> 0)) } })"

section \<open>Devices and maps\<close>

record md_dev_info =
  mdi_offset :: nat
  mdi_index :: nat
  mdi_size :: nat
  mdi_nid :: nat
  mdi_virt_addr :: "addr option"

record md_dev_larray =
  bn_gcd :: nat
  lmap :: "nat list"                \<comment> \<open>pointers into \<open>devs\<close>, as indices\<close>

record multi_devices =
  md_t1_count :: nat
  md_t2_count :: nat
  devs :: "nat \<Rightarrow> md_dev_info"
  t1a :: md_dev_larray
  t2a :: md_dev_larray
  md_pmem_addr :: addr

definition init_dev_info :: "md_api \<Rightarrow> md_dev_info \<Rightarrow> md_dev_id \<Rightarrow> nat \<Rightarrow> nat \<Rightarrow> addr option \<Rightarrow> md_dev_info" where
  "init_dev_info api mdi did index offset pmem_addr =
    (let mdi = mdi\<lparr>mdi_offset := offset, mdi_index := index, mdi_size := api_p2o api (dev_id_blocks api did), mdi_nid := dev_id_nid api did\<rparr>
     in case pmem_addr of None \<Rightarrow> mdi | Some a \<Rightarrow> mdi\<lparr>mdi_virt_addr := Some (a + offset)\<rparr>)"

text \<open>
  The loop of \<open>_map_setup\<close>: \<open>n\<close> entries are left, \<open>i\<close> is the next one. The index is a 32 bit integer: with more than \<open>2 ^ 32\<close> entries the loop
  does not end.
\<close>

fun map_loop :: "md_api \<Rightarrow> (nat \<Rightarrow> md_dev_info) \<Rightarrow> nat \<Rightarrow> nat \<Rightarrow> nat \<Rightarrow> nat \<Rightarrow> nat \<Rightarrow> nat list" where
  "map_loop api ds g i 0 bn_end dev_index = []"
| "map_loop api ds g i (Suc n) bn_end dev_index =
    (let (bn_end, dev_index) =
       (if i * g \<ge> bn_end then (bn_end + api_o2p api (mdi_size (ds (dev_index + 1))), dev_index + 1) else (bn_end, dev_index))
     in dev_index # map_loop api ds g (i + 1) n bn_end dev_index)"

definition map_setup :: "md_api \<Rightarrow> bool \<Rightarrow> (nat \<Rightarrow> md_dev_info) \<Rightarrow> nat \<Rightarrow> nat \<Rightarrow> md_dev_larray \<Rightarrow> (unit result \<times> md_dev_larray) run" where
  "map_setup api mem ds nblocks dev_start larray =
    (let map_size = nblocks div bn_gcd larray in
     if bn_gcd larray = 0 \<or> 2 ^ 32 < map_size then None
     else if \<not> mem then Some (Inl ENOMEM, larray)
     else Some (Inr (), larray\<lparr>lmap := map_loop api ds (bn_gcd larray) 0 map_size (api_o2p api (mdi_size (ds dev_start))) dev_start\<rparr>))"

text \<open>The two loops of \<open>md_init_from_pmem_info\<close> over the devices of a tier.\<close>

fun init_devs :: "md_api \<Rightarrow> md_dev_id list \<Rightarrow> addr option \<Rightarrow> nat \<Rightarrow> nat \<Rightarrow> nat \<Rightarrow> nat \<Rightarrow> (nat \<Rightarrow> md_dev_info) \<Rightarrow>
    ((nat \<Rightarrow> md_dev_info) \<times> nat) run" where
  "init_devs api ids pmem i 0 offset g ds = Some (ds, g)"
| "init_devs api ids pmem i (Suc n) offset g ds = do {
     did \<leftarrow> (if i < length ids then Some (ids ! i) else None);
     let mdi = init_dev_info api (ds i) did i offset pmem;
     init_devs api ids pmem (i + 1) n (offset + mdi_size mdi) (md_gcd g (api_o2p api (mdi_size mdi))) (ds(i := mdi)) }"

text \<open>\<open>if (md->t1_count)\<close>, \<open>if (md->t2_count)\<close>: the map of a tier that has devices.\<close>

definition tier_setup :: "md_api \<Rightarrow> bool \<Rightarrow> (nat \<Rightarrow> md_dev_info) \<Rightarrow> nat \<Rightarrow> nat \<Rightarrow> nat \<Rightarrow> md_dev_larray \<Rightarrow> (unit result \<times> md_dev_larray) run" where
  "tier_setup api mem ds nblocks start count la = (if count \<noteq> 0 then map_setup api mem ds nblocks start la else Some (Inr (), la))"

text \<open>\<open>md_t1_blocks\<close> and \<open>md_t2_blocks\<close> of \<open>md.h\<close> are the arguments \<open>t1_blocks\<close> and \<open>t2_blocks\<close>, \<open>mem\<close> the success of \<open>calloc\<close>.\<close>

definition md_init_from_pmem_info :: "md_api \<Rightarrow> bool \<Rightarrow> nat \<Rightarrow> nat \<Rightarrow> md_dev_list \<Rightarrow> multi_devices \<Rightarrow> (unit result \<times> multi_devices) run" where
  "md_init_from_pmem_info api mem t1_blocks t2_blocks dev_list md = do {
     let md = md\<lparr>md_t1_count := t1_count dev_list, md_t2_count := t2_count dev_list\<rparr>;
     (ds, g1) \<leftarrow> init_devs api (dev_ids dev_list) (Some (md_pmem_addr md)) 0 (md_t1_count md) 0 (bn_gcd (t1a md)) (devs md);
     (ds, g2) \<leftarrow> init_devs api (dev_ids dev_list) None (md_t1_count md) (md_t2_count md) 0 (bn_gcd (t2a md)) ds;
     let md = md\<lparr>devs := ds, t1a := (t1a md)\<lparr>bn_gcd := g1\<rparr>, t2a := (t2a md)\<lparr>bn_gcd := g2\<rparr>\<rparr>;
     (r1, a1) \<leftarrow> tier_setup api mem ds t1_blocks 0 (md_t1_count md) (t1a md);
     let md = md\<lparr>t1a := a1\<rparr>;
     case r1 of Inl e \<Rightarrow> Some (Inl e, md)
     | Inr _ \<Rightarrow> do {
         (r2, a2) \<leftarrow> tier_setup api mem ds t2_blocks (md_t1_count md) (md_t2_count md) (t2a md);
         let md = md\<lparr>t2a := a2\<rparr>;
         case r2 of Inl e \<Rightarrow> Some (Inl e, md) | Inr _ \<Rightarrow> Some (Inr (), md) } }"

section \<open>The checksum is a CRC\<close>

text \<open>The reference: one division step of the reflected CRC-16 polynomial for each bit.\<close>

definition crc_bit :: "16 word \<Rightarrow> 16 word" where
  "crc_bit x = drop_bit 1 x XOR (if bit x 0 then 0xA001 else 0)"

definition crc_byte :: "16 word \<Rightarrow> byte \<Rightarrow> 16 word" where
  "crc_byte crc d = (crc_bit ^^ 8) (crc XOR ucast d)"

lemma crc_bit_xor: "crc_bit (x XOR y) = crc_bit x XOR crc_bit y"
  by (auto simp: crc_bit_def bit_xor_iff drop_bit_xor ac_simps)

lemma crc_bit_funpow_xor: "(crc_bit ^^ n) (x XOR y) = (crc_bit ^^ n) x XOR (crc_bit ^^ n) y"
  by (induction n) (simp_all add: crc_bit_xor)

lemma crc_bit_shift: "(\<And>i. i < n \<Longrightarrow> \<not> bit x i) \<Longrightarrow> (crc_bit ^^ n) x = drop_bit n x"
proof (induction n)
  case (Suc n)
  then have "(crc_bit ^^ n) x = drop_bit n x" and "\<not> bit (drop_bit n x) 0" by (simp_all add: bit_drop_bit_eq)
  then show ?case by (simp add: crc_bit_def [of "drop_bit n x"])
qed simp

fun xor_table :: "16 word list \<Rightarrow> 16 word list" where
  "xor_table [] = [0]"
| "xor_table (c # cs) = (let t = xor_table cs in t @ map (\<lambda>x. c XOR x) t)"

lemma crc_table_xor: "crc_table = xor_table [0xA001, 0xF001, 0xD801, 0xCC01, 0xC601, 0xC301, 0xC181, 0xC0C1]"
  by (simp add: crc_table_def)

lemma crc_bit_steps:
  "crc_bit 1 = 0xA001" "crc_bit 0xA001 = 0xF001" "crc_bit 0xF001 = 0xD801" "crc_bit 0xD801 = 0xCC01"
  "crc_bit 0xCC01 = 0xC601" "crc_bit 0xC601 = 0xC301" "crc_bit 0xC301 = 0xC181" "crc_bit 0xC181 = 0xC0C1"
  by (simp_all add: crc_bit_def)

lemma crc_bit_power:
  assumes "i < 8"
  shows "(crc_bit ^^ 8) (2 ^ i) = (crc_bit ^^ (8 - i)) 1"
proof -
  have "(crc_bit ^^ i) (2 ^ i) = drop_bit i (2 ^ i)" by (rule crc_bit_shift) (simp add: bit_exp_iff)
  also have "\<dots> = 1" using assms by (intro bit_word_eqI) (auto simp: bit_drop_bit_eq bit_exp_iff bit_1_iff)
  finally have one: "(crc_bit ^^ i) (2 ^ i) = 1" .
  have "(crc_bit ^^ 8) (2 ^ i) = (crc_bit ^^ (8 - i + i)) (2 ^ i)" using assms by simp
  also have "\<dots> = (crc_bit ^^ (8 - i)) 1" unfolding funpow_add o_def one ..
  finally show ?thesis .
qed

lemma crc_powers:
  "map (\<lambda>i. (crc_bit ^^ (8 - i)) 1) [0, 1, 2, 3, 4, 5, 6, 7] = [0xC0C1, 0xC181, 0xC301, 0xC601, 0xCC01, 0xD801, 0xF001, 0xA001]"
  by (simp add: eval_nat_numeral crc_bit_steps)

lemma xor_table_length: "length (xor_table cs) = 2 ^ length cs"
  by (induction cs) (simp_all add: Let_def)

lemma power_xor_small:
  assumes "j < 2 ^ n"
  shows "(2 ^ n :: 16 word) XOR word_of_nat j = word_of_nat (2 ^ n + j)"
proof -
  have "bit j i \<Longrightarrow> i < n" for i using assms by (metis bit_take_bit_iff take_bit_nat_eq_self)
  then have "(2 ^ n :: nat) AND j = 0" by (intro bit_eqI) (auto simp: bit_and_iff bit_exp_iff)
  then have "2 ^ n + j = (2 ^ n XOR j :: nat)" by (rule disjunctive_add_eq_xor)
  then show ?thesis by (simp add: of_nat_xor_eq)
qed

lemma xor_table_nth:
  "j < 2 ^ n \<Longrightarrow> xor_table (map (\<lambda>i. (crc_bit ^^ 8) (2 ^ i)) (rev [0..<n])) ! j = (crc_bit ^^ 8) (word_of_nat j)"
proof (induction n arbitrary: j)
  case 0
  have "(crc_bit ^^ 8) 0 = 0" by (subst crc_bit_shift) simp_all
  with 0 show ?case by simp
next
  case (Suc n)
  let ?t = "xor_table (map (\<lambda>i. (crc_bit ^^ 8) (2 ^ i)) (rev [0..<n]))"
  have len: "length ?t = 2 ^ n" by (simp add: xor_table_length)
  show ?case
  proof (cases "j < 2 ^ n")
    case True
    then show ?thesis using Suc.IH [OF True] len by (simp add: nth_append Let_def)
  next
    case False
    define k where "k = j - 2 ^ n"
    have k: "k < 2 ^ n" "j = 2 ^ n + k" using False Suc.prems by (simp_all add: k_def)
    then have "xor_table (map (\<lambda>i. (crc_bit ^^ 8) (2 ^ i)) (rev [0..<Suc n])) ! j = (crc_bit ^^ 8) (2 ^ n) XOR (crc_bit ^^ 8) (word_of_nat k)"
      using Suc.IH [OF k(1)] len by (simp add: nth_append Let_def)
    also have "\<dots> = (crc_bit ^^ 8) (2 ^ n XOR word_of_nat k)" by (simp add: crc_bit_funpow_xor)
    also have "\<dots> = (crc_bit ^^ 8) (word_of_nat j)" unfolding power_xor_small [OF k(1)] k(2) ..
    finally show ?thesis .
  qed
qed

lemma crc_table_nth:
  assumes "j < 256"
  shows "crc_table ! j = (crc_bit ^^ 8) (word_of_nat j)"
proof -
  have upt8: "[0..<8] = [0, 1, 2, 3, 4, 5, 6, 7]" by (simp add: upt_rec)
  have "map (\<lambda>i. (crc_bit ^^ 8) (2 ^ i)) (rev [0..<8]) = map (\<lambda>i. (crc_bit ^^ (8 - i)) 1) (rev [0..<8])"
    by (rule map_cong [OF refl], rule crc_bit_power) simp
  also have "\<dots> = rev (map (\<lambda>i. (crc_bit ^^ (8 - i)) 1) [0, 1, 2, 3, 4, 5, 6, 7])"
    unfolding rev_map upt8 ..
  also have "\<dots> = [0xA001, 0xF001, 0xD801, 0xCC01, 0xC601, 0xC301, 0xC181, 0xC0C1]" unfolding crc_powers by simp
  finally have "map (\<lambda>i. (crc_bit ^^ 8) (2 ^ i)) (rev [0..<8]) = [0xA001, 0xF001, 0xD801, 0xCC01, 0xC601, 0xC301, 0xC181, 0xC0C1]" .
  then show ?thesis using xor_table_nth [of j 8] assms by (simp add: crc_table_xor)
qed

lemma crc16_step:
  "crc_table ! unat ((crc XOR ucast d) AND 0xFF) XOR drop_bit 8 crc = crc_byte crc d"
proof -
  let ?x = "crc XOR (ucast d :: 16 word)"
  have lt: "unat (?x AND 0xFF) < 256" using word_and_le1 [of ?x "0xFF"] by (simp add: word_le_nat_alt)
  let ?h = "push_bit 8 (drop_bit 8 ?x)"
  have low: "?x AND 0xFF = take_bit 8 ?x" by (simp add: take_bit_eq_mask mask_eq_exp_minus_1)
  have split: "?x = take_bit 8 ?x XOR ?h"
  proof (rule bit_word_eqI)
    fix n
    show "bit ?x n = bit (take_bit 8 ?x XOR ?h) n" if "n < LENGTH(16)"
      using that by (cases "n < 8") (simp_all add: bit_xor_iff bit_take_bit_iff bit_push_bit_iff bit_drop_bit_eq)
  qed
  have "(crc_bit ^^ 8) ?x = (crc_bit ^^ 8) (take_bit 8 ?x) XOR (crc_bit ^^ 8) ?h"
    by (subst split) (rule crc_bit_funpow_xor)
  also have "(crc_bit ^^ 8) ?h = drop_bit 8 ?h"
    by (rule crc_bit_shift) (simp add: bit_push_bit_iff bit_xor_iff)
  also have "drop_bit 8 ?h = drop_bit 8 crc"
    by (intro bit_word_eqI) (auto simp: bit_drop_bit_eq bit_push_bit_iff bit_xor_iff bit_ucast_iff dest: bit_imp_le_length)
  finally show ?thesis using crc_table_nth [OF lt] by (simp add: crc_byte_def low)
qed

lemma and_all_ones: "x AND 0xFFFF = (x :: 16 word)"
proof -
  have "(0xFFFF :: 16 word) = - 1" by simp
  then show ?thesis by (simp only: and.right_neutral)
qed

lemma crc16_loop_fold: "crc16_loop crc ds = foldl crc_byte crc ds"
  by (induction ds arbitrary: crc) (simp_all add: crc16_step and_all_ones Let_def)

text \<open>The table driven \<open>crc16\<close> computes the bitwise CRC-16, for every start value and every data.\<close>

theorem crc16_is_crc: "crc16 crc data = foldl (\<lambda>c d. (crc_bit ^^ 8) (c XOR ucast d)) crc data"
  by (simp add: crc16_def crc16_loop_fold and_all_ones crc_byte_def [abs_def])

section \<open>What the checksum detects\<close>

lemma crc_bit_0: "crc_bit x = 0 \<Longrightarrow> x = 0"
proof -
  assume "crc_bit x = 0"
  then have z: "\<not> bit (crc_bit x) n" for n by simp
  have "\<not> bit x 0" using z [of 15] by (auto simp: crc_bit_def bit_xor_iff bit_drop_bit_eq split: if_splits dest: bit_imp_le_length)
  then have s: "\<not> bit x (Suc n)" for n using z [of n] by (simp add: crc_bit_def bit_drop_bit_eq)
  show "x = 0"
  proof (rule bit_word_eqI)
    fix n
    show "bit x n = bit 0 n" if "n < LENGTH(16)" using s \<open>\<not> bit x 0\<close> by (cases n) simp_all
  qed
qed

lemma crc_bits_0: "(crc_bit ^^ n) x = 0 \<Longrightarrow> x = 0"
  by (induction n) (auto dest: crc_bit_0)

lemma crc_bits_inj: "(crc_bit ^^ n) x = (crc_bit ^^ n) y \<Longrightarrow> x = y"
proof -
  assume "(crc_bit ^^ n) x = (crc_bit ^^ n) y"
  then have "(crc_bit ^^ n) (x XOR y) = 0" by (simp add: crc_bit_funpow_xor)
  then have z: "x XOR y = 0" by (rule crc_bits_0)
  have "x = (x XOR y) XOR y" by (simp add: xor.assoc)
  then show "x = y" by (simp add: z)
qed

lemma xor_right_inj: "(a :: 16 word) XOR c = b XOR c \<Longrightarrow> a = b"
proof -
  assume e: "a XOR c = b XOR c"
  have "a = (a XOR c) XOR c" by (simp add: xor.assoc)
  also have "\<dots> = b" unfolding e by (simp add: xor.assoc)
  finally show "a = b" .
qed

lemma crc_byte_inj: "crc_byte a d = crc_byte b d \<Longrightarrow> a = b"
  by (metis crc_byte_def crc_bits_inj xor_right_inj)

lemma crc_fold_inj: "foldl crc_byte a ds = foldl crc_byte b ds \<Longrightarrow> a = b"
  by (induction ds arbitrary: a b) (auto dest: crc_byte_inj)

lemma crc_two_bytes: "crc_byte (crc_byte c d1) d2 = (crc_bit ^^ 16) (c XOR (ucast d1 XOR push_bit 8 (ucast d2)))"
proof -
  have "(crc_bit ^^ 8) (push_bit 8 (ucast d2)) = drop_bit 8 (push_bit 8 (ucast d2 :: 16 word))"
    by (rule crc_bit_shift) (simp add: bit_push_bit_iff)
  also have "\<dots> = ucast d2"
    by (intro bit_word_eqI) (auto simp: bit_drop_bit_eq bit_push_bit_iff bit_ucast_iff dest: bit_imp_le_length)
  finally have s: "(crc_bit ^^ 8) (push_bit 8 (ucast d2)) = ucast d2" .
  have "(crc_bit ^^ 16) x = (crc_bit ^^ 8) ((crc_bit ^^ 8) x)" for x using funpow_add [of 8 8 crc_bit] by simp
  then show ?thesis by (simp add: crc_byte_def crc_bit_funpow_xor s xor.assoc)
qed

lemma two_bytes_inj:
  fixes d1 d2 e1 e2 :: byte
  assumes "(ucast d1 :: 16 word) XOR push_bit 8 (ucast d2) = ucast e1 XOR push_bit 8 (ucast e2)"
  shows "d1 = e1" and "d2 = e2"
proof -
  have b: "bit ((ucast d1 :: 16 word) XOR push_bit 8 (ucast d2)) n = bit (ucast e1 XOR push_bit 8 (ucast e2) :: 16 word) n" for n
    by (simp only: assms)
  show "d1 = e1"
  proof (rule bit_word_eqI)
    fix n
    show "bit d1 n = bit e1 n" if "n < LENGTH(8)" using b [of n] that by (simp add: bit_xor_iff bit_push_bit_iff bit_ucast_iff)
  qed
  then have c: "bit (push_bit 8 (ucast d2) :: 16 word) n = bit (push_bit 8 (ucast e2) :: 16 word) n" for n
    using b [of n] by (auto simp: bit_xor_iff)
  show "d2 = e2"
  proof (rule bit_word_eqI)
    fix n
    show "bit d2 n = bit e2 n" if "n < LENGTH(8)" using c [of "n + 8"] that by (simp add: bit_push_bit_iff bit_ucast_iff)
  qed
qed

lemma crc16_detects_two:
  assumes "crc16 c (pre @ [d1, d2] @ post) = crc16 c (pre @ [e1, e2] @ post)"
  shows "d1 = e1 \<and> d2 = e2"
proof -
  let ?a = "foldl crc_byte c pre"
  from assms have "foldl crc_byte (crc_byte (crc_byte ?a d1) d2) post = foldl crc_byte (crc_byte (crc_byte ?a e1) e2) post"
    by (simp add: crc16_def crc16_loop_fold and_all_ones)
  from crc_bits_inj [OF crc_fold_inj [OF this, unfolded crc_two_bytes]]
  have "(ucast d1 XOR push_bit 8 (ucast d2)) XOR ?a = (ucast e1 XOR push_bit 8 (ucast e2)) XOR ?a" by (simp add: xor.commute)
  from two_bytes_inj [OF xor_right_inj [OF this]] show ?thesis by simp
qed

text \<open>
  C29. A device table that passed all checks and was then changed inside two adjacent bytes under the checksum is rejected by
  \<open>md_mdt_check\<close>.
\<close>

theorem mdt_check_detects:
  assumes "md_mdt_check api mdt main mc = Some True" and "csum_bytes api mdt = pre @ [d1, d2] @ post"
    and "csum_bytes api mdt' = pre @ [e1, e2] @ post" and "d1 \<noteq> e1 \<or> d2 \<noteq> e2" and "s_sum mdt' = s_sum mdt"
  shows "md_mdt_check api mdt' main' mc = Some False"
proof -
  from assms(1) have "s_sum mdt = md_calc_csum api mdt"
    by (simp add: md_mdt_check_def csum_mismatch_def split: if_splits)
  moreover have "md_calc_csum api mdt \<noteq> md_calc_csum api mdt'"
    unfolding md_calc_csum_def assms(2,3) using crc16_detects_two assms(4) by blast
  ultimately show ?thesis using assms(5) by (simp add: md_mdt_check_def csum_mismatch_def)
qed

text \<open>
  A sample: a table with one device, where the bytes under the checksum are the low bytes of the version and of the magic number.
\<close>

definition sample_api :: md_api where
  "sample_api = \<lparr>csum_bytes = \<lambda>mdt. [word_of_nat (s_version mdt), word_of_nat (s_magic mdt), 7],
    mdt_major_version = \<lambda>mdt. s_version mdt div 64, mdt_minor_version = \<lambda>mdt. s_version mdt mod 64,
    dev_id_blocks = blocks, dev_id_nid = \<lambda>_. 0, api_p2o = \<lambda>n. n * PAGE_SIZE, api_o2p = \<lambda>n. n div PAGE_SIZE\<rparr>"

definition sample_mdt :: md_dev_table where
  "sample_mdt = \<lparr>s_sum = crc16 (NOT 0) [64, 5, 7], s_version = 64, s_magic = 5, s_flags = 0, s_t1_blocks = 512, s_uuid = [], s_wtime = 0,
    s_dev_list = \<lparr>id_index = 0, t1_count = 1, t2_count = 0, rmem_count = 0, dev_ids = [\<lparr>uuid = [], blocks = 512\<rparr>]\<rparr>\<rparr>"

definition sample_mc :: mdt_check where
  "sample_mc = \<lparr>mc_magic = 5, major_ver = 1, minor_ver = 0, alloc_mask = 0x1FFFFF\<rparr>"

lemma sample_mdt_ok: "md_mdt_check sample_api sample_mdt None sample_mc = Some True"
  by (simp add: md_mdt_check_def sample_api_def sample_mdt_def sample_mc_def csum_mismatch_def md_calc_csum_def dev_id_at_def)

theorem mdt_check_detects_witness:
  "md_mdt_check sample_api (sample_mdt\<lparr>s_version := 65\<rparr>) None sample_mc = Some False"
  by (rule mdt_check_detects [OF sample_mdt_ok, of "[]" 64 5 "[7]" _ 65 5])
    (simp_all add: sample_api_def sample_mdt_def)

section \<open>Every block is mapped to its device\<close>

lemma gcd_loop_gcd: "y \<noteq> 0 \<Longrightarrow> gcd_loop x y = gcd x y"
proof (induction x y rule: gcd_loop.induct)
  case (1 x y)
  show ?case
  proof (cases "x mod y = 0")
    case True
    then have "gcd x y = y" by (simp add: mod_eq_0_iff_dvd gcd_nat.absorb2)
    then show ?thesis using True by (simp add: gcd_loop.simps)
  next
    case False
    then have "gcd_loop x y = gcd y (x mod y)" using 1 by (subst gcd_loop.simps) (simp add: Let_def)
    also have "\<dots> = gcd x y" by (simp add: gcd_red_nat [of x y])
    finally show ?thesis .
  qed
qed

lemma md_gcd_gcd: "md_gcd x y = gcd x y"
  by (simp add: md_gcd_def gcd_loop_gcd gcd.commute [of x y])

definition api_ok :: "md_api \<Rightarrow> bool" where
  "api_ok api = ((\<forall>n. api_p2o api n = n * PAGE_SIZE) \<and> (\<forall>n. api_o2p api n = n div PAGE_SIZE))"

lemma dvd_step:
  fixes g :: nat
  assumes "g dvd b" and "i * g < b"
  shows "(i + 1) * g \<le> b"
proof -
  from assms(1) obtain q where q: "b = g * q" ..
  then have "i + 1 \<le> q" using assms(2) by (simp add: mult.commute [of g] Suc_le_eq)
  then have "(i + 1) * g \<le> q * g" by (rule mult_le_mono1)
  then show ?thesis by (simp add: q mult.commute)
qed

text \<open>\<open>before sz k\<close>: the number of blocks of the first \<open>k\<close> devices of a tier.\<close>

definition before :: "(nat \<Rightarrow> nat) \<Rightarrow> nat \<Rightarrow> nat" where
  "before sz k = sum sz {..<k}"

lemma before_Suc [simp]: "before sz 0 = 0" "before sz (Suc k) = before sz k + sz k"
  by (simp_all add: before_def)

lemma before_mono: "j \<le> k \<Longrightarrow> before sz j \<le> before sz k"
  by (simp add: before_def sum_mono2)

lemma before_dvd: "(\<And>j. j < k \<Longrightarrow> g dvd sz j) \<Longrightarrow> g dvd before sz k"
  by (auto simp: before_def intro: dvd_sum)

lemma map_loop_correct:
  assumes sz: "\<And>j. sz j = api_o2p api (mdi_size (ds (start + j)))"
    and pos: "\<And>j. j < n \<Longrightarrow> 0 < sz j" and dvd: "\<And>j. j < n \<Longrightarrow> g dvd sz j"
    and st: "k < n" "before sz k \<le> i * g" "i * g \<le> before sz (Suc k)" and len: "(i + m) * g \<le> before sz n" and j: "j < m"
    and g: "0 < g"
  shows "\<exists>k'<n. map_loop api ds g i m (before sz (Suc k)) (start + k) ! j = start + k' \<and> before sz k' \<le> (i + j) * g \<and> (i + j) * g < before sz (Suc k')"
  using st len j
proof (induction m arbitrary: i j k)
  case (Suc m)
  define k1 where "k1 = (if i * g \<ge> before sz (Suc k) then Suc k else k)"
  have lt: "i * g < before sz n" using Suc.prems(4) g by (simp add: add_mult_distrib)
  have k1: "k1 < n" "before sz k1 \<le> i * g" "i * g < before sz (Suc k1)"
  proof -
    have "Suc k < n" if "i * g \<ge> before sz (Suc k)"
      using that lt before_mono [of n "Suc k" sz] by (metis not_less leD le_trans)
    then show "k1 < n" using Suc.prems(1) by (simp add: k1_def)
    show "before sz k1 \<le> i * g" using Suc.prems(2) by (simp add: k1_def)
    show "i * g < before sz (Suc k1)" using Suc.prems(3) pos [OF \<open>k1 < n\<close>] by (auto simp: k1_def)
  qed
  have up: "(i + 1) * g \<le> before sz (Suc k1)" using k1(3) before_dvd [of "Suc k1" g sz] dvd k1(1) by (intro dvd_step) auto
  have loop: "map_loop api ds g i (Suc m) (before sz (Suc k)) (start + k) =
      (start + k1) # map_loop api ds g (i + 1) m (before sz (Suc k1)) (start + k1)"
    using sz [of "Suc k"] by (auto simp: k1_def Let_def)
  show ?case
  proof (cases j)
    case 0
    then show ?thesis using loop k1 by (intro exI [of _ k1]) simp
  next
    case (Suc j')
    have "\<exists>k<n. map_loop api ds g (i + 1) m (before sz (Suc k1)) (start + k1) ! j' = start + k \<and>
        before sz k \<le> (i + 1 + j') * g \<and> (i + 1 + j') * g < before sz (Suc k)"
      by (rule Suc.IH [OF k1(1) _ up]) (use k1(2) Suc.prems(4,5) Suc in \<open>simp_all add: add_mult_distrib\<close>)
    then show ?thesis unfolding loop Suc by (auto simp: add.assoc)
  qed
qed simp

text \<open>The map of a tier, from its first device \<open>start\<close> on.\<close>

lemma map_setup_correct:
  assumes sz: "\<And>j. sz j = api_o2p api (mdi_size (ds (start + j)))" and pos: "\<And>j. j < n \<Longrightarrow> 0 < sz j"
    and dvd: "\<And>j. j < n \<Longrightarrow> bn_gcd la dvd sz j" and n: "0 < n" and g: "0 < bn_gcd la" and bl: "before sz n \<le> 2 ^ 32"
  obtains la' where "map_setup api True ds (before sz n) start la = Some (Inr (), la')" "bn_gcd la' = bn_gcd la"
    "\<And>bn. bn < before sz n \<Longrightarrow> \<exists>k<n. lmap la' ! (bn div bn_gcd la) = start + k \<and> before sz k \<le> bn \<and> bn < before sz (Suc k)"
proof -
  let ?g = "bn_gcd la"
  let ?m = "before sz n div ?g"
  let ?l = "map_loop api ds ?g 0 ?m (before sz (Suc 0)) (start + 0)"
  have "?m \<le> before sz n" by (rule div_le_dividend)
  then have "\<not> 2 ^ 32 < ?m" using bl by linarith
  then have ms: "map_setup api True ds (before sz n) start la = Some (Inr (), la\<lparr>lmap := ?l\<rparr>)"
    using g sz [of 0] by (simp add: map_setup_def Let_def)
  have all: "?g dvd before sz k" if "k \<le> n" for k using before_dvd [of k ?g sz] dvd that by simp
  have "\<exists>k<n. ?l ! (bn div ?g) = start + k \<and> before sz k \<le> bn \<and> bn < before sz (Suc k)" if bn: "bn < before sz n" for bn
  proof -
    let ?j = "bn div ?g"
    have "?j * ?g < before sz n" using bn by (meson div_times_less_eq_dividend le_less_trans)
    also have "before sz n = ?m * ?g" using all [of n] by simp
    finally have j: "?j < ?m" using g by simp
    have "\<exists>k<n. ?l ! ?j = start + k \<and> before sz k \<le> (0 + ?j) * ?g \<and> (0 + ?j) * ?g < before sz (Suc k)"
      by (rule map_loop_correct [where sz = sz and api = api and ds = ds and start = start, OF sz pos dvd n _ _ _ j g]) simp_all
    then obtain k where k: "k < n" "?l ! ?j = start + k" "before sz k \<le> ?j * ?g" "?j * ?g < before sz (Suc k)" by auto
    have "(?j + 1) * ?g \<le> before sz (Suc k)" using all [of "Suc k"] k(1,4) by (intro dvd_step) auto
    moreover have "bn < (?j + 1) * ?g" using g by (metis add.commute div_mult_mod_eq mod_less_divisor mult.commute add_mult_distrib mult_1 nat_add_left_cancel_less)
    moreover have "before sz k \<le> bn" using k(3) div_times_less_eq_dividend [of bn ?g] by (rule le_trans)
    ultimately show ?thesis using k(1,2) by (intro exI [of _ k]) auto
  qed
  then show thesis by (intro that [OF ms]) simp_all
qed

lemma init_devs_correct:
  assumes "api_ok api" and "i + n \<le> length ids"
  shows "\<exists>ds' g'. init_devs api ids pmem i n off g ds = Some (ds', g') \<and>
    (\<forall>j<n. ds' (i + j) = init_dev_info api (ds (i + j)) (ids ! (i + j)) (i + j)
       (off + before (\<lambda>j. dev_id_blocks api (ids ! (i + j))) j * PAGE_SIZE) pmem) \<and>
    (\<forall>x. x < i \<or> i + n \<le> x \<longrightarrow> ds' x = ds x) \<and> (\<forall>j<n. g' dvd dev_id_blocks api (ids ! (i + j))) \<and> g' dvd g"
  using assms(2)
proof (induction n arbitrary: i off g ds)
  case (Suc n)
  let ?b = "dev_id_blocks api (ids ! i)"
  let ?mdi = "init_dev_info api (ds i) (ids ! i) i off pmem"
  have p: "api_p2o api x = x * PAGE_SIZE" "api_o2p api x = x div PAGE_SIZE" for x using assms(1) by (simp_all add: api_ok_def)
  have sz: "mdi_size ?mdi = ?b * PAGE_SIZE" by (simp add: init_dev_info_def Let_def p split: option.split)
  have le: "i + 1 + n \<le> length ids" using Suc.prems by simp
  from Suc.IH [OF le, of "off + ?b * PAGE_SIZE" "gcd g ?b" "ds(i := ?mdi)"] obtain ds' g' where
    r: "init_devs api ids pmem (i + 1) n (off + ?b * PAGE_SIZE) (gcd g ?b) (ds(i := ?mdi)) = Some (ds', g')" and
    d: "\<forall>j<n. ds' (i + 1 + j) = init_dev_info api ((ds(i := ?mdi)) (i + 1 + j)) (ids ! (i + 1 + j)) (i + 1 + j)
       (off + ?b * PAGE_SIZE + before (\<lambda>j. dev_id_blocks api (ids ! (i + 1 + j))) j * PAGE_SIZE) pmem" and
    f: "\<forall>x. x < i + 1 \<or> i + 1 + n \<le> x \<longrightarrow> ds' x = (ds(i := ?mdi)) x" and
    g: "\<forall>j<n. g' dvd dev_id_blocks api (ids ! (i + 1 + j))" "g' dvd gcd g ?b" by (elim exE conjE) (rule that)
  have step: "init_devs api ids pmem i (Suc n) off g ds = Some (ds', g')"
    using r Suc.prems sz by (simp add: md_gcd_gcd p)
  have shift: "before (\<lambda>j. dev_id_blocks api (ids ! (i + j))) (Suc j) = ?b + before (\<lambda>j. dev_id_blocks api (ids ! (i + 1 + j))) j" for j
    unfolding before_def by (subst sum.lessThan_Suc_shift) simp
  have dev: "ds' (i + j) = init_dev_info api (ds (i + j)) (ids ! (i + j)) (i + j)
       (off + before (\<lambda>j. dev_id_blocks api (ids ! (i + j))) j * PAGE_SIZE) pmem" if "j < Suc n" for j
  proof (cases j)
    case 0
    then show ?thesis using f by simp
  next
    case (Suc m)
    have "i + j = i + 1 + m" "off + before (\<lambda>j. dev_id_blocks api (ids ! (i + j))) j * PAGE_SIZE =
        off + ?b * PAGE_SIZE + before (\<lambda>j. dev_id_blocks api (ids ! (i + 1 + j))) m * PAGE_SIZE"
      using shift [of m] Suc by (simp_all add: add_mult_distrib)
    then show ?thesis using d that Suc by (simp add: add.assoc)
  qed
  have dvd: "g' dvd dev_id_blocks api (ids ! (i + j))" if "j < Suc n" for j using g that by (cases j) auto
  show ?case using step dev f dvd g(2) by (intro exI [of _ ds'] exI [of _ g']) auto
qed simp

text \<open>\<open>holds_block ds la bn\<close>: the device that the map \<open>la\<close> gives for the block \<open>bn\<close> contains it.\<close>

definition holds_block :: "(nat \<Rightarrow> md_dev_info) \<Rightarrow> md_dev_larray \<Rightarrow> nat \<Rightarrow> bool" where
  "holds_block ds la bn =
    (let d = ds (lmap la ! (bn div bn_gcd la))
     in mdi_offset d \<le> bn * PAGE_SIZE \<and> bn * PAGE_SIZE < mdi_offset d + mdi_size d)"

lemma init_dev_info_fields:
  "mdi_offset (init_dev_info api mdi did i off pmem) = off" "mdi_size (init_dev_info api mdi did i off pmem) = api_p2o api (dev_id_blocks api did)"
  "mdi_virt_addr (init_dev_info api mdi did i off (Some a)) = Some (a + off)"
  by (simp_all add: init_dev_info_def Let_def split: option.split)

lemma tier_map:
  assumes api: "api_ok api" and n: "0 < n" and pos: "\<And>j. j < n \<Longrightarrow> 0 < b j" and dvd: "\<And>j. j < n \<Longrightarrow> bn_gcd la dvd b j"
    and bl: "before b n \<le> 2 ^ 32"
    and dev: "\<And>j. j < n \<Longrightarrow> mdi_offset (ds (start + j)) = before b j * PAGE_SIZE \<and> mdi_size (ds (start + j)) = b j * PAGE_SIZE"
  shows "\<exists>la'. map_setup api True ds (before b n) start la = Some (Inr (), la') \<and> (\<forall>bn<before b n. holds_block ds la' bn)"
proof -
  define sz where "sz = (\<lambda>j. api_o2p api (mdi_size (ds (start + j))))"
  have o2p: "api_o2p api x = x div PAGE_SIZE" for x using api by (simp add: api_ok_def)
  have szb: "sz j = b j" if "j < n" for j using dev [OF that] by (simp add: sz_def o2p)
  have bf: "before sz k = before b k" if "k \<le> n" for k using that szb by (simp add: before_def)
  have g: "0 < bn_gcd la" using dvd [OF n] pos [OF n] by (auto intro: dvd_pos_nat)
  obtain la' where la': "map_setup api True ds (before sz n) start la = Some (Inr (), la')" "bn_gcd la' = bn_gcd la"
    "\<And>bn. bn < before sz n \<Longrightarrow> \<exists>k<n. lmap la' ! (bn div bn_gcd la) = start + k \<and> before sz k \<le> bn \<and> bn < before sz (Suc k)"
    by (rule map_setup_correct [of sz api ds start n la]) (use pos dvd szb n g bl bf in \<open>simp_all add: sz_def\<close>)
  have "holds_block ds la' bn" if bn: "bn < before b n" for bn
  proof -
    from la'(3) [of bn] bn bf obtain k where k: "k < n" "lmap la' ! (bn div bn_gcd la) = start + k" "before sz k \<le> bn" "bn < before sz (Suc k)" by auto
    have "before b k \<le> bn" "bn < before b k + b k" using k(1,3,4) bf [of k] szb [OF k(1)] by simp_all
    then have "before b k * PAGE_SIZE \<le> bn * PAGE_SIZE" "bn * PAGE_SIZE < (before b k + b k) * PAGE_SIZE" by simp_all
    then show ?thesis using k(2) la'(2) dev [OF k(1)] by (simp add: holds_block_def)
  qed
  then show ?thesis using la'(1) bf by auto
qed

text \<open>\<open>tier_blocks api l start j\<close>: the blocks of the device number \<open>j\<close> of the tier that begins at \<open>start\<close>.\<close>

definition tier_blocks :: "md_api \<Rightarrow> md_dev_list \<Rightarrow> nat \<Rightarrow> nat \<Rightarrow> nat" where
  "tier_blocks api l start j = dev_id_blocks api (dev_ids l ! (start + j))"

text \<open>
  C30. The mount of a device list with non-empty devices lays the devices of each tier out one after the other, and the two maps lead
  every block number of a tier to the device that holds the block. The first tier is mapped to memory contiguously.
\<close>

theorem md_init_maps_blocks:
  assumes api: "api_ok api" and ids: "t1_count l + t2_count l \<le> length (dev_ids l)"
    and pos: "\<forall>i < t1_count l + t2_count l. 0 < dev_id_blocks api (dev_ids l ! i)"
    and bl: "before (tier_blocks api l 0) (t1_count l) \<le> 2 ^ 32" "before (tier_blocks api l (t1_count l)) (t2_count l) \<le> 2 ^ 32"
  shows "\<exists>md'. md_init_from_pmem_info api True (before (tier_blocks api l 0) (t1_count l)) (before (tier_blocks api l (t1_count l)) (t2_count l)) l md = Some (Inr (), md') \<and>
    (\<forall>bn < before (tier_blocks api l 0) (t1_count l). holds_block (devs md') (t1a md') bn) \<and>
    (\<forall>bn < before (tier_blocks api l (t1_count l)) (t2_count l). holds_block (devs md') (t2a md') bn) \<and>
    (\<forall>j < t1_count l. mdi_virt_addr (devs md' j) = Some (md_pmem_addr md + mdi_offset (devs md' j)))"
proof -
  let ?n1 = "t1_count l" and ?n2 = "t2_count l"
  let ?b1 = "tier_blocks api l 0" and ?b2 = "tier_blocks api l (t1_count l)"
  have p2o: "api_p2o api x = x * PAGE_SIZE" for x using api by (simp add: api_ok_def)
  have i1: "0 + ?n1 \<le> length (dev_ids l)" using ids by simp
  from init_devs_correct [OF api i1, of "Some (md_pmem_addr md)" 0 "bn_gcd (t1a md)" "devs md"] obtain d1 g1 where
    r1: "init_devs api (dev_ids l) (Some (md_pmem_addr md)) 0 ?n1 0 (bn_gcd (t1a md)) (devs md) = Some (d1, g1)" and
    e1: "\<forall>j<?n1. d1 j = init_dev_info api (devs md j) (dev_ids l ! j) j (before ?b1 j * PAGE_SIZE) (Some (md_pmem_addr md))" and
    v1: "\<forall>j<?n1. g1 dvd ?b1 j" unfolding tier_blocks_def by auto
  from init_devs_correct [OF api ids, of None 0 "bn_gcd (t2a md)" d1] obtain d2 g2 where
    r2: "init_devs api (dev_ids l) None ?n1 ?n2 0 (bn_gcd (t2a md)) d1 = Some (d2, g2)" and
    e2: "\<forall>j<?n2. d2 (?n1 + j) = init_dev_info api (d1 (?n1 + j)) (dev_ids l ! (?n1 + j)) (?n1 + j) (before ?b2 j * PAGE_SIZE) None" and
    f2: "\<forall>x. x < ?n1 \<or> ?n1 + ?n2 \<le> x \<longrightarrow> d2 x = d1 x" and v2: "\<forall>j<?n2. g2 dvd ?b2 j" unfolding tier_blocks_def by auto
  have t1: "mdi_offset (d2 j) = before ?b1 j * PAGE_SIZE \<and> mdi_size (d2 j) = ?b1 j * PAGE_SIZE" if "j < ?n1" for j
    using that e1 f2 p2o by (simp add: init_dev_info_fields tier_blocks_def)
  have t2: "mdi_offset (d2 (?n1 + j)) = before ?b2 j * PAGE_SIZE \<and> mdi_size (d2 (?n1 + j)) = ?b2 j * PAGE_SIZE" if "j < ?n2" for j
    using that e2 p2o by (simp add: init_dev_info_fields tier_blocks_def)
  have virt: "mdi_virt_addr (d2 j) = Some (md_pmem_addr md + mdi_offset (d2 j))" if "j < ?n1" for j
    using that e1 f2 by (simp add: init_dev_info_fields)
  have "\<exists>a. tier_setup api True d2 (before ?b1 ?n1) 0 ?n1 ((t1a md)\<lparr>bn_gcd := g1\<rparr>) =
      Some (Inr (), a) \<and> (\<forall>bn<before ?b1 ?n1. holds_block d2 a bn)"
    using tier_map [OF api, of ?n1 ?b1 "(t1a md)\<lparr>bn_gcd := g1\<rparr>" d2 0] pos v1 bl(1) t1 by (auto simp: tier_blocks_def tier_setup_def)
  then obtain a1 where a1: "tier_setup api True d2 (before ?b1 ?n1) 0 ?n1 ((t1a md)\<lparr>bn_gcd := g1\<rparr>) =
      Some (Inr (), a1)" "\<forall>bn<before ?b1 ?n1. holds_block d2 a1 bn" by blast
  have "\<exists>a. tier_setup api True d2 (before ?b2 ?n2) ?n1 ?n2 ((t2a md)\<lparr>bn_gcd := g2\<rparr>) =
      Some (Inr (), a) \<and> (\<forall>bn<before ?b2 ?n2. holds_block d2 a bn)"
    using tier_map [OF api, of ?n2 ?b2 "(t2a md)\<lparr>bn_gcd := g2\<rparr>" d2 ?n1] pos v2 bl(2) t2 by (auto simp: tier_blocks_def tier_setup_def)
  then obtain a2 where a2: "tier_setup api True d2 (before ?b2 ?n2) ?n1 ?n2 ((t2a md)\<lparr>bn_gcd := g2\<rparr>) =
      Some (Inr (), a2)" "\<forall>bn<before ?b2 ?n2. holds_block d2 a2 bn" by blast
  let ?md = "md\<lparr>md_t1_count := ?n1, md_t2_count := ?n2, devs := d2, t1a := a1, t2a := a2\<rparr>"
  have "md_init_from_pmem_info api True (before ?b1 ?n1) (before ?b2 ?n2) l md = Some (Inr (), ?md)"
    using r1 r2 a1(1) a2(1) by (simp add: md_init_from_pmem_info_def)
  then show ?thesis using a1(2) a2(2) virt by (intro exI [of _ ?md]) simp
qed

theorem md_init_maps_blocks_witness:
  "\<forall>md. \<exists>md'. md_init_from_pmem_info sample_api True 1536 256
      \<lparr>id_index = 0, t1_count = 2, t2_count = 1, rmem_count = 0,
       dev_ids = [\<lparr>uuid = [1], blocks = 512\<rparr>, \<lparr>uuid = [2], blocks = 1024\<rparr>, \<lparr>uuid = [3], blocks = 256\<rparr>]\<rparr> md = Some (Inr (), md') \<and>
     holds_block (devs md') (t1a md') 600 \<and> holds_block (devs md') (t2a md') 17"
proof
  fix md :: multi_devices
  let ?l = "\<lparr>id_index = 0, t1_count = 2, t2_count = 1, rmem_count = 0,
       dev_ids = [\<lparr>uuid = [1], blocks = 512\<rparr>, \<lparr>uuid = [2], blocks = 1024\<rparr>, \<lparr>uuid = [3], blocks = 256\<rparr>]\<rparr>"
  have api: "api_ok sample_api" by (simp add: api_ok_def sample_api_def)
  have b: "before (tier_blocks sample_api ?l 0) (t1_count ?l) = 1536" "before (tier_blocks sample_api ?l (t1_count ?l)) (t2_count ?l) = 256"
    by (simp_all add: tier_blocks_def sample_api_def numeral_2_eq_2)
  have pos: "\<forall>i < t1_count ?l + t2_count ?l. 0 < dev_id_blocks sample_api (dev_ids ?l ! i)"
    by (auto simp: sample_api_def less_Suc_eq numeral_3_eq_3)
  from md_init_maps_blocks [OF api _ pos, of md, unfolded b]
  show "\<exists>md'. md_init_from_pmem_info sample_api True 1536 256 ?l md = Some (Inr (), md') \<and>
     holds_block (devs md') (t1a md') 600 \<and> holds_block (devs md') (t2a md') 17" by auto
qed

end
