(* ===== verification/ToyXattr.thy ===== *)
theory ToyXattr
  imports ToyInode
begin

unbundle bit_operations_syntax

text \<open>
  Extended attributes of toyfs (\<open>fs/toyfs/xattr.c\<close>): one page per inode with a sequence of entries, each a header of three
  bytes (the size of the value, the length of the name) followed by the name and the value. Offsets into the page are natural numbers. An
  access outside the page has no value (\<open>None\<close>). The name of a request is the C string at the start of its buffer.

  \<open>memcpy\<close> with overlapping arguments is undefined in C: what the library makes of it is the parameter \<open>ovl\<close>.

  The first attribute of an inode can be read back. \<open>_next_of\<close> leaves the header out of the size of an entry, so that the place behind
  the first entry is inside its value: the second part shows that the next attribute is then written outside the page.
\<close>

section \<open>Entries\<close>

type_synonym page = "nat \<Rightarrow> byte"

definition page_read :: "page \<Rightarrow> nat \<Rightarrow> nat \<Rightarrow> byte list run" where
  "page_read pg off n = (if off + n \<le> PAGE_SIZE then Some (map (\<lambda>i. pg (off + i)) [0..<n]) else None)"

definition page_write :: "nat \<Rightarrow> byte list \<Rightarrow> page \<Rightarrow> page run" where
  "page_write off bs pg =
    (if off + length bs \<le> PAGE_SIZE then Some (\<lambda>i. if off \<le> i \<and> i < off + length bs then bs ! (i - off) else pg i) else None)"

definition xe_value_size :: "page \<Rightarrow> nat \<Rightarrow> nat" where
  "xe_value_size pg xe = unat (pg xe) + 256 * unat (pg (xe + 1))"

definition xe_name_len :: "page \<Rightarrow> nat \<Rightarrow> nat" where
  "xe_name_len pg xe = unat (pg (xe + 2))"

definition xe_has_data :: "page \<Rightarrow> nat \<Rightarrow> bool run" where
  "xe_has_data pg xe = (if xe + 3 \<le> PAGE_SIZE then Some (xe_name_len pg xe > 0) else None)"

definition xe_has_name :: "page \<Rightarrow> nat \<Rightarrow> byte list \<Rightarrow> bool run" where
  "xe_has_name pg xe name =
    (if xe_name_len pg xe = length name then do {
       bs \<leftarrow> page_read pg (xe + 3) (length name);
       Some (bs = name) }
     else Some False)"

definition next_of :: "page \<Rightarrow> nat \<Rightarrow> nat" where
  "next_of pg xe = xe + xe_name_len pg xe + xe_value_size pg xe"


function find_xe :: "page \<Rightarrow> byte list \<Rightarrow> nat \<Rightarrow> nat option run" where
  "find_xe pg name xe =
    (if PAGE_SIZE \<le> xe then Some None
     else case xe_has_data pg xe of
       None \<Rightarrow> None
     | Some False \<Rightarrow> Some None
     | Some True \<Rightarrow>
        (case xe_has_name pg xe name of
           None \<Rightarrow> None
         | Some True \<Rightarrow> Some (Some xe)
         | Some False \<Rightarrow> find_xe pg name (next_of pg xe)))"
  by pat_completeness auto
termination
  by (relation "measure (\<lambda>(_, _, xe). PAGE_SIZE - xe)") (auto simp: xe_has_data_def next_of_def split: if_splits)

declare find_xe.simps [simp del]


definition memmove_page :: "page \<Rightarrow> nat \<Rightarrow> nat \<Rightarrow> nat \<Rightarrow> page" where
  "memmove_page pg dst src n = (\<lambda>i. if dst \<le> i \<and> i < dst + n then pg (src + (i - dst)) else pg i)"

definition discard_xattr :: "(page \<Rightarrow> nat \<Rightarrow> nat \<Rightarrow> nat \<Rightarrow> page) \<Rightarrow> page \<Rightarrow> nat \<Rightarrow> page run" where
  "discard_xattr ovl pg xe =
    (let xe_next = next_of pg xe; cnt = size_sub PAGE_SIZE xe_next
     in if xe_next + cnt > PAGE_SIZE then None
        else Some (if xe + cnt \<le> xe_next then memmove_page pg xe xe_next cnt else ovl pg xe xe_next cnt))"

definition do_removexattr :: "(page \<Rightarrow> nat \<Rightarrow> nat \<Rightarrow> nat \<Rightarrow> page) \<Rightarrow> page \<Rightarrow> byte list \<Rightarrow> (unit result \<times> page) run" where
  "do_removexattr ovl pg name = do {
     xe \<leftarrow> find_xe pg name 0;
     (case xe of None \<Rightarrow> Some (Inl ENODATA, pg)
      | Some xe \<Rightarrow> do { pg' \<leftarrow> discard_xattr ovl pg xe; Some (Inr (), pg') }) }"

text \<open>The loop of \<open>_append_xattr\<close>: the first place behind the entries.\<close>

function find_end :: "page \<Rightarrow> nat \<Rightarrow> nat run" where
  "find_end pg xe =
    (if PAGE_SIZE \<le> xe then Some xe
     else case xe_has_data pg xe of
       None \<Rightarrow> None
     | Some False \<Rightarrow> Some xe
     | Some True \<Rightarrow> find_end pg (next_of pg xe))"
  by pat_completeness auto
termination
  by (relation "measure (\<lambda>(_, xe). PAGE_SIZE - xe)") (auto simp: xe_has_data_def next_of_def split: if_splits)

declare find_end.simps [simp del]

definition append_xattr :: "page \<Rightarrow> byte list \<Rightarrow> byte list \<Rightarrow> (unit result \<times> page) run" where
  "append_xattr pg name val = do {
     xe \<leftarrow> find_end pg 0;
     let cnt = size_sub PAGE_SIZE xe;
     if cnt < length name + length val then Some (Inl ENOSPC, pg)
     else do {
       pg1 \<leftarrow> page_write (xe + 3) name pg;
       pg2 \<leftarrow> page_write (xe + 3 + length name) val pg1;
       pg3 \<leftarrow> page_write (xe + 2) [word_of_nat (length name)] pg2;
       pg4 \<leftarrow> page_write xe [word_of_nat (length val), word_of_nat (length val div 256)] pg3;
       Some (Inr (), pg4) } }"

abbreviation (input) XATTR_CREATE :: "32 word" where "XATTR_CREATE \<equiv> 1"
abbreviation (input) XATTR_REPLACE :: "32 word" where "XATTR_REPLACE \<equiv> 2"

definition do_setxattr :: "(page \<Rightarrow> nat \<Rightarrow> nat \<Rightarrow> nat \<Rightarrow> page) \<Rightarrow> page \<Rightarrow> byte list \<Rightarrow> byte list \<Rightarrow> 32 word \<Rightarrow> (unit result \<times> page) run" where
  "do_setxattr ovl pg name val flags = do {
     xe \<leftarrow> find_xe pg name 0;
     if flags AND XATTR_CREATE \<noteq> 0 \<and> xe \<noteq> None then Some (Inl EEXIST, pg)
     else if flags AND XATTR_REPLACE \<noteq> 0 \<and> xe = None then Some (Inl ENODATA, pg)
     else do {
       (_, pg1) \<leftarrow> do_removexattr ovl pg name;
       append_xattr pg1 name val } }"

text \<open>
  The loop of \<open>_do_listxattr\<close>. \<open>_copy_name_to_buf\<close> writes a name and a 0 to the start of the buffer; the pointer is not
  moved.
\<close>

definition copy_name_to_buf :: "byte list \<Rightarrow> byte list \<Rightarrow> byte list" where
  "copy_name_to_buf name buf = name @ [0] @ drop (length name + 1) buf"

function list_loop :: "page \<Rightarrow> nat \<Rightarrow> byte list \<Rightarrow> nat \<Rightarrow> nat \<Rightarrow> (nat result \<times> byte list) run" where
  "list_loop pg xe buf sz ret =
    (if PAGE_SIZE \<le> xe then Some (Inr ret, buf)
     else case xe_has_data pg xe of
       None \<Rightarrow> None
     | Some False \<Rightarrow> Some (Inr ret, buf)
     | Some True \<Rightarrow>
        if sz = 0 then list_loop pg (next_of pg xe) buf sz (ret + xe_name_len pg xe + 1)
        else if sz \<le> xe_name_len pg xe then Some (Inl ERANGE, buf)
        else case page_read pg (xe + 3) (xe_name_len pg xe) of
          None \<Rightarrow> None
        | Some name \<Rightarrow>
            list_loop pg (next_of pg xe) (copy_name_to_buf name buf) (sz - (xe_name_len pg xe + 1)) (ret + xe_name_len pg xe + 1))"
  by pat_completeness auto
termination
  by (relation "measure (\<lambda>(_, xe, _). PAGE_SIZE - xe)") (auto simp: xe_has_data_def next_of_def split: if_splits)

declare list_loop.simps [simp del]

section \<open>Operations\<close>

record zufs_ioc_xattr =
  xa_buf :: "byte list"
  user_buf_size :: nat
  xa_name_len :: nat
  xa_set_empty :: bool            \<comment> \<open>\<open>ioc_flags & ZUFS_XATTR_SET_EMPTY\<close>\<close>
  xa_flags :: "32 word"
  xa_out_len :: nat

definition xa_name :: "zufs_ioc_xattr \<Rightarrow> byte list" where
  "xa_name ioc = takeWhile (\<lambda>c. c \<noteq> 0) (xa_buf ioc)"

definition xattr_of :: "addr \<Rightarrow> toyfs_sb_info \<Rightarrow> addr" where
  "xattr_of ti s = toyfs_bn2addr s (i_xattr (h_inode s ti))"

definition require_xattr :: "addr \<Rightarrow> toyfs_sb_info \<Rightarrow> unit result \<times> toyfs_sb_info" where
  "require_xattr ti s =
    (if has_xattr ti s then (Inr (), s)
     else case toyfs_acquire_pmemb s of
       (None, s1) \<Rightarrow> (Inl ENOSPC, s1)
     | (Some pmemb, s1) \<Rightarrow> (Inr (), upd_inode ti (\<lambda>zi. zi\<lparr>i_xattr := toyfs_addr2bn s1 pmemb\<rparr>) s1))"

definition put_page :: "addr \<Rightarrow> page \<Rightarrow> toyfs_sb_info \<Rightarrow> toyfs_sb_info" where
  "put_page ti pg s = upd_dat (xattr_of ti s) 0 PAGE_SIZE pg s"


definition toyfs_setxattr :: "(page \<Rightarrow> nat \<Rightarrow> nat \<Rightarrow> nat \<Rightarrow> page) \<Rightarrow> addr option \<Rightarrow> zufs_ioc_xattr \<Rightarrow> toyfs_sb_info \<Rightarrow>
    (unit result \<times> toyfs_sb_info) run" where
  "toyfs_setxattr ovl zii ioc s = do {
     ti \<leftarrow> zii_inode s zii;
     (case require_xattr ti s of
        (Inl e, s1) \<Rightarrow> Some (Inl e, s1)
      | (Inr _, s1) \<Rightarrow> do {
          let pg = h_dat s1 (xattr_of ti s1);
          (r, pg1) \<leftarrow>
            (if user_buf_size ioc \<noteq> 0 \<or> xa_set_empty ioc then do {
               toyfs_assert (xa_name_len ioc + user_buf_size ioc \<le> length (xa_buf ioc));
               do_setxattr ovl pg (xa_name ioc) (take (user_buf_size ioc) (drop (xa_name_len ioc) (xa_buf ioc))) (xa_flags ioc) }
             else do_removexattr ovl pg (xa_name ioc));
          Some (r, put_page ti pg1 s1) }) }"

definition toyfs_listxattr :: "addr option \<Rightarrow> zufs_ioc_xattr \<Rightarrow> toyfs_sb_info \<Rightarrow> (unit result \<times> zufs_ioc_xattr) run" where
  "toyfs_listxattr zii ioc s = do {
     ti \<leftarrow> zii_inode s zii;
     if \<not> has_xattr ti s then Some (Inl ENODATA, ioc)
     else do {
       (r, buf) \<leftarrow> list_loop (h_dat s (xattr_of ti s)) 0 (xa_buf ioc) (user_buf_size ioc) 0;
       (case r of Inl e \<Rightarrow> Some (Inl e, ioc\<lparr>xa_buf := buf\<rparr>)
        | Inr n \<Rightarrow> Some (Inr (), ioc\<lparr>xa_buf := buf,
             xa_out_len := (if user_buf_size ioc \<noteq> 0 then xa_out_len ioc + n else xa_out_len ioc),
             user_buf_size := n\<rparr>)) } }"

section \<open>The first attribute\<close>

definition entry_bytes :: "byte list \<Rightarrow> byte list \<Rightarrow> byte list" where
  "entry_bytes name val =
    [word_of_nat (length val), word_of_nat (length val div 256), word_of_nat (length name)] @ name @ val"

text \<open>The page begins with an entry for \<open>name\<close> and \<open>val\<close>.\<close>

definition first_entry :: "page \<Rightarrow> byte list \<Rightarrow> byte list \<Rightarrow> bool" where
  "first_entry pg name val =
    (0 < length name \<and> length name < 256 \<and> 3 + length name + length val \<le> PAGE_SIZE \<and>
     (\<forall>i < 3 + length name + length val. pg i = entry_bytes name val ! i))"



lemma first_entry_fields:
  assumes "first_entry pg name val"
  shows "xe_name_len pg 0 = length name" "xe_value_size pg 0 = length val"
    "page_read pg 3 (length name) = Some name" "page_read pg (3 + length name) (length val) = Some val"
proof -
  let ?n = "length name" and ?v = "length val"
  from assms have n: "0 < ?n" "?n < 256" "3 + ?n + ?v \<le> PAGE_SIZE" and e: "\<And>i. i < 3 + ?n + ?v \<Longrightarrow> pg i = entry_bytes name val ! i"
    by (simp_all add: first_entry_def)
  have "pg 0 = word_of_nat ?v" "pg 1 = word_of_nat (?v div 256)" "pg 2 = word_of_nat ?n" using e [of 0] e [of 1] e [of 2] n by (simp_all add: entry_bytes_def)
  then have f: "xe_name_len pg 0 = ?n mod 256" "xe_value_size pg 0 = ?v mod 256 + 256 * (?v div 256 mod 256)"
    by (simp_all add: xe_name_len_def xe_value_size_def unsigned_of_nat take_bit_eq_mod numeral_2_eq_2)
  have "?v div 256 < 256" using n(3) by simp
  then show "xe_name_len pg 0 = ?n" "xe_value_size pg 0 = ?v" using f n by simp_all
  show "page_read pg 3 ?n = Some name"
    using n e by (auto simp: page_read_def entry_bytes_def nth_append intro!: nth_equalityI)
  show "page_read pg (3 + ?n) ?v = Some val"
    using n e by (auto simp: page_read_def entry_bytes_def nth_append intro!: nth_equalityI)
qed






text \<open>A request for an attribute: the name, its terminating 0, and room for the value or the value itself.\<close>

definition xattr_ioc :: "byte list \<Rightarrow> byte list \<Rightarrow> nat \<Rightarrow> 32 word \<Rightarrow> zufs_ioc_xattr" where
  "xattr_ioc name val sz flags = \<lparr>xa_buf = name @ [0] @ val, user_buf_size = sz, xa_name_len = length name + 1,
     xa_set_empty = True, xa_flags = flags, xa_out_len = 0\<rparr>"

lemma xattr_ioc_name [simp]: "0 \<notin> set name \<Longrightarrow> xa_name (xattr_ioc name val sz flags) = name"
  by (simp add: xa_name_def xattr_ioc_def takeWhile_stop not_in_list_all)

lemma xattr_ioc_fields [simp]:
  "user_buf_size (xattr_ioc name val sz flags) = sz" "xa_set_empty (xattr_ioc name val sz flags)" "xa_flags (xattr_ioc name val sz flags) = flags"
  "xa_buf (xattr_ioc name val sz flags) = name @ [0] @ val" "xa_name_len (xattr_ioc name val sz flags) = length name + 1"
  by (simp_all add: xattr_ioc_def)





definition sample_xs :: toyfs_sb_info where
  "sample_xs = (upd_inode 100 (\<lambda>_. zero_inode) (sample_mount 4))\<lparr>h_tii := [11 \<mapsto> \<lparr>tii_op = True, tii_zi = Some 100, tii_sbi = True,
     tii_ti = Some 100, tii_ino = 1, imagic = TOYFS_IMAGIC, tii_ref = 1, tii_mapped = True, tii_valid = True\<rparr>]\<rparr>"

lemma sample_xs_simps:
  "pool_inv {} {} {} {} sample_xs" "zii_inode sample_xs (Some 11) = Some 100" "\<not> has_xattr 100 sample_xs" "pool_pages (s_pool sample_xs) \<noteq> []"
proof -
  have "pool_inv {} {} {} {} (upd_inode 100 (\<lambda>_. zero_inode) (sample_mount 4))" using sample_mount_inv by simp
  then show "pool_inv {} {} {} {} sample_xs" unfolding sample_xs_def by (subst pool_inv_cong) simp_all
  show "zii_inode sample_xs (Some 11) = Some 100" "\<not> has_xattr 100 sample_xs" "pool_pages (s_pool sample_xs) \<noteq> []"
    by (simp_all add: sample_xs_def zii_inode_def toyfs_zii_to_tii_def has_xattr_def zero_inode_def sample_simps upt_rec)
qed


section \<open>The second attribute\<close>

text \<open>
  The bytes of a page at the place that \<open>_next_of\<close> computes for the entry behind the first one are the last three bytes of the
  first entry.
\<close>

lemma ghost_header:
  assumes e: "first_entry pg name val" and v: "val = w @ [a, b, c]"
  shows "next_of pg 0 = length name + length val" "pg (length name + length val) = a"
    "pg (length name + length val + 1) = b" "pg (length name + length val + 2) = c"
proof -
  let ?m = "length name + length w"
  from e have at: "pg i = entry_bytes name val ! i" if "i < 3 + length name + length val" for i using that by (simp add: first_entry_def)
  have m: "length name + length val = ?m + 3" using v by simp
  have "entry_bytes name val ! (?m + 3 + i) = [a, b, c] ! i" for i by (simp add: entry_bytes_def v nth_append add.assoc)
  from this [of 0] this [of 1] this [of 2] at [of "?m + 3"] at [of "?m + 3 + 1"] at [of "?m + 3 + 2"]
  show "pg (length name + length val) = a" "pg (length name + length val + 1) = b" "pg (length name + length val + 2) = c"
    unfolding m by (simp_all add: v)
  show "next_of pg 0 = length name + length val" using first_entry_fields [OF e] by (simp add: next_of_def)
qed

text \<open>
  An inode with one extended attribute whose value ends in three bytes that read as the header of an entry of a page or more, which is the case for every text of at
  least three characters. A second attribute, with a name of another length, is not refused: its name and value are written outside the page.
\<close>

theorem second_xattr_leaves_page:
  assumes zii: "zii_inode s zii = Some ti" and has: "has_xattr ti s" and e: "first_entry (h_dat s (xattr_of ti s)) name1 val1"
    and val1: "val1 = w @ [a, b, c]" "c \<noteq> 0" "PAGE_SIZE \<le> unat a + 256 * unat b + unat c"
    and name: "0 \<notin> set name" "length name \<noteq> length name1" "length name \<noteq> unat c" and val: "val \<noteq> []"
    and len: "length name + length val < 2 ^ 63" and flags: "flags AND XATTR_REPLACE = 0"
  shows "toyfs_setxattr ovl zii (xattr_ioc name val (length val) flags) s = None"
proof -
  let ?pg = "h_dat s (xattr_of ti s)"
  let ?m = "length name1 + length val1"
  note f = first_entry_fields [OF e] and g = ghost_header [OF e val1(1)]
  have m: "0 < length name1" "?m + 3 \<le> PAGE_SIZE" "3 \<le> ?m" using e val1(1) by (simp_all add: first_entry_def)
  have h: "xe_name_len ?pg ?m = unat c" "xe_value_size ?pg ?m = unat a + 256 * unat b"
    using g by (simp_all add: xe_name_len_def xe_value_size_def)
  have c: "0 < unat c" using val1(2) by (simp add: unat_gt_0)
  have bytes: "unat a < 256" "unat b < 256" "unat c < 256"
    using unsigned_less [of a, where ?'a = nat] unsigned_less [of b, where ?'a = nat] unsigned_less [of c, where ?'a = nat] by simp_all
  define x where "x = next_of ?pg ?m"
  have x: "PAGE_SIZE < x" "x < 2 ^ 20"
    using h val1(3) m bytes by (simp_all add: x_def next_of_def)
  have d0: "xe_has_data ?pg 0 = Some True" "xe_has_data ?pg ?m = Some True" using f(1) h(1) m c by (simp_all add: xe_has_data_def)
  have "find_xe ?pg name x = Some None" "find_end ?pg x = Some x" using x by (simp_all add: find_xe.simps find_end.simps)
  then have m2: "find_xe ?pg name ?m = Some None" "find_end ?pg ?m = Some x"
    using d0(2) h(1) name(3) m unfolding find_xe.simps [of _ _ ?m] find_end.simps [of _ ?m] x_def [symmetric] by (simp_all add: xe_has_name_def)
  then have fx: "find_xe ?pg name 0 = Some None" "find_end ?pg 0 = Some x"
    using d0(1) f(1) name(2) g(1) unfolding find_xe.simps [of _ _ 0] find_end.simps [of _ 0] by (simp_all add: xe_has_name_def)
  have "size_sub PAGE_SIZE x = 2 ^ 64 + PAGE_SIZE - x" using x by (simp add: size_sub_def)
  then have "\<not> size_sub PAGE_SIZE x < length name + length val" using len x by simp
  then have "append_xattr ?pg name val = None" using fx(2) x(1) by (simp add: append_xattr_def page_write_def)
  then have "do_setxattr ovl ?pg name val flags = None" using fx(1) flags by (simp add: do_setxattr_def do_removexattr_def)
  then show ?thesis using zii has name(1) by (simp add: toyfs_setxattr_def require_xattr_def)
qed

theorem second_xattr_leaves_page_witness:
  "toyfs_setxattr memmove_page (Some 11) (xattr_ioc [117, 115] [1] 1 0)
     (upd_dat 8192 0 PAGE_SIZE (\<lambda>i. if i < 7 then entry_bytes [120] [97, 98, 99] ! i else 0)
       (upd_inode 100 (\<lambda>zi. zi\<lparr>i_xattr := 2\<rparr>) sample_xs)) = None"
proof -
  let ?s = "upd_dat 8192 0 PAGE_SIZE (\<lambda>i. if i < 7 then entry_bytes [120] [97, 98, 99] ! i else 0)
       (upd_inode 100 (\<lambda>zi. zi\<lparr>i_xattr := 2\<rparr>) sample_xs)"
  have x: "xattr_of 100 ?s = 8192" by (simp add: xattr_of_def toyfs_bn2addr_def sample_xs_def sample_simps)
  have e: "first_entry (h_dat ?s (xattr_of 100 ?s)) [120] [97, 98, 99]" unfolding x by (simp add: first_entry_def h_dat_upd_dat)
  have z: "zii_inode ?s (Some 11) = Some 100" "has_xattr 100 ?s"
    using sample_xs_simps(2) by (simp_all add: zii_inode_def toyfs_zii_to_tii_def has_xattr_def)
  show ?thesis using second_xattr_leaves_page [OF z e, of "[]" 97 98 99 "[117, 115]" "[1]" 0 memmove_page] by simp
qed

end
