(* ===== verification/ZusCore.thy ===== *)
theory ZusCore
  imports Prelude
begin

text \<open>
  The core of the server (\<open>zus-core.c\<close>, \<open>wtz.h\<close>): the CPU and node topology, the threads of the server and their start. A
  \<open>cpu_set_t\<close> is a set of numbers below 1024. The results of the system calls and of the pthread functions are parameters. The server
  starts one thread per online CPU and channel; every thread reports to a counter that the starting thread waits for. This is modelled as a
  step relation, in which the new threads run at any time.
\<close>

section \<open>Topology\<close>

text \<open>\<open>CPU_ISSET\<close> and \<open>CPU_SET\<close> of the C library: numbers out of range are never members.\<close>

abbreviation CPU_SETSIZE :: nat where "CPU_SETSIZE \<equiv> 1024"

definition cpu_isset :: "int \<Rightarrow> nat set \<Rightarrow> bool" where
  "cpu_isset cpu msk = (0 \<le> cpu \<and> cpu < int CPU_SETSIZE \<and> nat cpu \<in> msk)"

definition cpu_set_add :: "nat \<Rightarrow> nat set \<Rightarrow> nat set" where
  "cpu_set_add cpu msk = (if cpu < CPU_SETSIZE then insert cpu msk else msk)"

record zufs_numa_map =
  possible_nodes :: nat
  possible_cpus :: nat
  online_cpus :: nat
  cpu_set_per_node :: "nat \<Rightarrow> nat set"

record zus_topology =
  zus_numa_map :: zufs_numa_map
  zus_nr_cpu_ids :: nat
  zus_cpu_possible_mask :: "nat set"
  zus_cpu_online_mask :: "nat set"

text \<open>The result \<open>None\<close> is the number \<open>-1\<close>.\<close>

function zus_cpumask_next :: "nat \<Rightarrow> int \<Rightarrow> nat set \<Rightarrow> nat option" where
  "zus_cpumask_next nr cpu srcp =
    (if cpu < int nr then
       if cpu_isset (cpu + 1) srcp then Some (nat (cpu + 1)) else zus_cpumask_next nr (cpu + 1) srcp
     else None)"
  by pat_completeness auto
termination
  by (relation "measure (\<lambda>(nr, cpu, _). nat (int nr - cpu))") auto

declare zus_cpumask_next.simps [simp del]

lemma cpumask_next_greater: "zus_cpumask_next nr cpu m = Some c \<Longrightarrow> cpu < int c"
proof (induction nr cpu m rule: zus_cpumask_next.induct)
  case (1 nr cpu m)
  show ?case
  proof (cases "cpu < int nr \<and> \<not> cpu_isset (cpu + 1) m")
    case True
    then have "zus_cpumask_next nr cpu m = zus_cpumask_next nr (cpu + 1) m" by (subst zus_cpumask_next.simps) simp
    then show ?thesis using 1 True by auto
  next
    case False
    then have "zus_cpumask_next nr cpu m = (if cpu < int nr then Some (nat (cpu + 1)) else None)" by (subst zus_cpumask_next.simps) simp
    then show ?thesis using 1(2) by (auto split: if_splits)
  qed
qed

text \<open>The CPUs that \<open>zus_for_each_cpu\<close> runs through, from the one behind \<open>cpu\<close> on.\<close>

function for_each_cpu :: "nat \<Rightarrow> nat set \<Rightarrow> int \<Rightarrow> nat list" where
  "for_each_cpu nr msk cpu =
    (case zus_cpumask_next nr cpu msk of
       None \<Rightarrow> []
     | Some c \<Rightarrow> if c < nr then c # for_each_cpu nr msk (int c) else [])"
  by pat_completeness auto
termination
  by (relation "measure (\<lambda>(nr, _, cpu). nat (int nr - cpu))") (auto dest: cpumask_next_greater)

declare for_each_cpu.simps [simp del]

definition set_cpumasks :: "zufs_numa_map \<Rightarrow> zus_topology \<Rightarrow> zus_topology" where
  "set_cpumasks numa_map t =
    (let t1 = fold (\<lambda>cpu t. fold (\<lambda>node t.
                 if cpu_isset (int cpu) (cpu_set_per_node numa_map node)
                 then t\<lparr>zus_cpu_online_mask := cpu_set_add cpu (zus_cpu_online_mask t)\<rparr> else t)
               [0..<possible_nodes numa_map]
               (t\<lparr>zus_cpu_possible_mask := cpu_set_add cpu (zus_cpu_possible_mask t)\<rparr>))
             [0..<possible_cpus numa_map] t
     in t1\<lparr>zus_nr_cpu_ids := possible_cpus numa_map, zus_numa_map := numa_map\<rparr>)"

text \<open>\<open>ioc\<close> is the result of \<open>zuf_numa_map\<close>: an error, or the map that the kernel filled in.\<close>

definition zus_numa_map_init :: "zufs_numa_map result \<Rightarrow> zus_topology \<Rightarrow> unit result \<times> zus_topology" where
  "zus_numa_map_init ioc t = (case ioc of Inl e \<Rightarrow> (Inl e, t) | Inr m \<Rightarrow> (Inr (), set_cpumasks m t))"

definition zus_cpu_online :: "zus_topology \<Rightarrow> int \<Rightarrow> bool" where
  "zus_cpu_online t cpu = (nat (cpu mod 2 ^ 32) < zus_nr_cpu_ids t \<and> cpu_isset cpu (zus_cpu_online_mask t))"

definition bad_cpu :: "zus_topology \<Rightarrow> nat \<Rightarrow> bool" where
  "bad_cpu t cpu = (possible_cpus (zus_numa_map t) \<le> cpu \<or> \<not> zus_cpu_online t (int cpu))"

definition zus_cpu_to_node :: "zus_topology \<Rightarrow> nat \<Rightarrow> nat" where
  "zus_cpu_to_node t cpu =
    (if bad_cpu t cpu then 0
     else case find (\<lambda>node. cpu_isset (int cpu) (cpu_set_per_node (zus_numa_map t) node)) [0..<possible_nodes (zus_numa_map t)] of
       Some node \<Rightarrow> node | None \<Rightarrow> 0)"

section \<open>Threads\<close>

text \<open>\<open>None\<close> stands for \<open>ZUS_CPU_ALL\<close> and \<open>ZUS_NUMA_NO_NID\<close>.\<close>

record zus_base_thread =
  one_cpu :: "nat option"
  nid :: "nat option"
  zbt_private :: "nat option"
  zbt_thread :: bool               \<comment> \<open>\<open>thread\<close> is not 0\<close>
  zbt_err :: int

record zus_thread_params =
  tp_other :: bool                 \<comment> \<open>\<open>policy == SCHED_OTHER\<close>\<close>
  tp_one_cpu :: "nat option"
  tp_nid :: "nat option"

text \<open>The results of the pthread functions: 0 or a positive error number.\<close>

record pthread_env =
  pt_attr_init :: nat
  pt_inheritsched :: nat
  pt_schedpolicy :: nat
  pt_schedparam :: nat
  pt_affinity :: nat
  pt_create :: nat

definition errno_UtoK :: "int \<Rightarrow> int" where
  "errno_UtoK err = (if err < 0 then err else - err)"

definition zus_current_onecpu :: "zus_base_thread option \<Rightarrow> nat option" where
  "zus_current_onecpu zbt = (case zbt of None \<Rightarrow> None | Some z \<Rightarrow> one_cpu z)"

definition zus_private_get :: "zus_base_thread option \<Rightarrow> nat option" where
  "zus_private_get zbt = (case zbt of None \<Rightarrow> None | Some z \<Rightarrow> zbt_private z)"

definition zus_private_set :: "nat option \<Rightarrow> zus_base_thread option \<Rightarrow> zus_base_thread option" where
  "zus_private_set p zbt = map_option (\<lambda>z. z\<lparr>zbt_private := p\<rparr>) zbt"

text \<open>\<open>getcpu\<close> is the result of \<open>sched_getcpu\<close>.\<close>

definition current_cpu :: "nat \<Rightarrow> zus_base_thread option \<Rightarrow> nat" where
  "current_cpu getcpu zbt =
    (case zbt of None \<Rightarrow> getcpu | Some z \<Rightarrow> (case one_cpu z of None \<Rightarrow> getcpu | Some c \<Rightarrow> c))"

definition zus_current_nid :: "zus_topology \<Rightarrow> nat \<Rightarrow> zus_base_thread option \<Rightarrow> nat" where
  "zus_current_nid t getcpu zbt =
    (case zbt of None \<Rightarrow> zus_cpu_to_node t getcpu
     | Some z \<Rightarrow> (case nid z of None \<Rightarrow> zus_cpu_to_node t getcpu | Some n \<Rightarrow> n))"

definition zus_set_numa_affinity :: "zus_topology \<Rightarrow> nat \<Rightarrow> nat set result" where
  "zus_set_numa_affinity t n =
    (if n \<ge> possible_nodes (zus_numa_map t) then Inl EINVAL else Inr (cpu_set_per_node (zus_numa_map t) n))"

definition zus_set_onecpu_affinity :: "nat \<Rightarrow> nat set" where
  "zus_set_onecpu_affinity cpu = cpu_set_add cpu {}"

text \<open>\<open>EINVAL\<close> is 22.\<close>

definition thread_affinity :: "zus_topology \<Rightarrow> zus_thread_params \<Rightarrow> zus_base_thread \<Rightarrow> int \<times> nat set option \<times> zus_base_thread" where
  "thread_affinity t tp zbt =
    (case tp_one_cpu tp of
       Some cpu \<Rightarrow> (0, Some (zus_set_onecpu_affinity cpu), zbt\<lparr>one_cpu := Some cpu, nid := Some (zus_cpu_to_node t cpu)\<rparr>)
     | None \<Rightarrow>
        (case tp_nid tp of
           None \<Rightarrow> (0, None, zbt)
         | Some n \<Rightarrow>
            (case zus_set_numa_affinity t n of
               Inl e \<Rightarrow> (- 22, None, zbt)
             | Inr aff \<Rightarrow> (0, Some aff, zbt\<lparr>nid := Some n\<rparr>))))"

definition thread_fail :: "int \<Rightarrow> zus_base_thread \<Rightarrow> int \<times> nat set option \<times> zus_base_thread" where
  "thread_fail err zbt = (errno_UtoK err, None, zbt\<lparr>zbt_thread := False, zbt_err := errno_UtoK err\<rparr>)"

text \<open>\<open>__zus_thread_create\<close>: the returned number, the CPUs the new thread may run on, and the updated structure.\<close>

definition thread_create :: "pthread_env \<Rightarrow> zus_topology \<Rightarrow> zus_thread_params \<Rightarrow> zus_base_thread \<Rightarrow> int \<times> nat set option \<times> zus_base_thread" where
  "thread_create env t tp zbt =
    (let zbt = zbt\<lparr>one_cpu := None, nid := None\<rparr> in
     if pt_attr_init env \<noteq> 0 then (int (pt_attr_init env), None, zbt\<lparr>zbt_err := int (pt_attr_init env)\<rparr>)
     else if pt_inheritsched env \<noteq> 0 then thread_fail (int (pt_inheritsched env)) zbt
     else if \<not> tp_other tp \<and> pt_schedpolicy env \<noteq> 0 then thread_fail (int (pt_schedpolicy env)) zbt
     else if \<not> tp_other tp \<and> pt_schedparam env \<noteq> 0 then thread_fail (int (pt_schedparam env)) zbt
     else
       let (err, aff, zbt) = thread_affinity t tp zbt in
       if err \<noteq> 0 then thread_fail err zbt
       else if aff \<noteq> None \<and> pt_affinity env \<noteq> 0 then thread_fail (int (pt_affinity env)) zbt
       else if pt_create env \<noteq> 0 then thread_fail (int (pt_create env)) zbt
       else (0, aff, zbt\<lparr>zbt_thread := True\<rparr>))"

text \<open>
  A thread of a file system: its structure is allocated first (\<open>mem\<close>) and freed when the creation fails, or when the thread function returns
  (\<open>zus_glue_thread\<close>). The numbers 12 and 17 are \<open>ENOMEM\<close> and \<open>EEXIST\<close>.
\<close>

definition zeroed_zbt :: zus_base_thread where
  "zeroed_zbt = \<lparr>one_cpu = Some 0, nid = Some 0, zbt_private = None, zbt_thread = False, zbt_err = 0\<rparr>"

definition zus_thread_create :: "bool \<Rightarrow> pthread_env \<Rightarrow> zus_topology \<Rightarrow> zus_thread_params \<Rightarrow> int \<times> zus_base_thread option" where
  "zus_thread_create mem env t tp =
    (if \<not> mem then (- 12, None)
     else let (err, aff, zbt) = thread_create env t tp zeroed_zbt in if err \<noteq> 0 then (err, None) else (0, Some zbt))"

text \<open>The structure that a thread created elsewhere gets and gives back: the value of its key \<open>g_zts_id_key\<close>.\<close>

definition zus_thread_current_init :: "bool \<Rightarrow> nat \<Rightarrow> zus_topology \<Rightarrow> zus_base_thread option \<Rightarrow> int \<times> zus_base_thread option" where
  "zus_thread_current_init mem getcpu t key =
    (if key \<noteq> None then (- 17, key)
     else if \<not> mem then (- 12, None)
     else (0, Some (zeroed_zbt\<lparr>one_cpu := Some getcpu, nid := Some (zus_cpu_to_node t getcpu)\<rparr>)))"

definition zus_thread_current_fini :: "zus_base_thread option \<Rightarrow> zus_base_thread option" where
  "zus_thread_current_fini key = None"

section \<open>The topology is read correctly\<close>

lemma cpu_isset_of_nat: "cpu_isset (int c) m \<longleftrightarrow> c < CPU_SETSIZE \<and> c \<in> m"
  by (simp add: cpu_isset_def)

lemma cpumask_next_spec:
  "- 1 \<le> cpu \<Longrightarrow> zus_cpumask_next nr cpu m =
     (case filter (\<lambda>c. cpu_isset (int c) m) [nat (cpu + 1)..<Suc nr] of [] \<Rightarrow> None | c # _ \<Rightarrow> Some c)"
proof (induction nr cpu m rule: zus_cpumask_next.induct)
  case (1 nr cpu m)
  show ?case
  proof (cases "cpu < int nr")
    case False
    then have "nr < nat (cpu + 1)" by linarith
    then show ?thesis using False by (subst zus_cpumask_next.simps) simp
  next
    case True
    let ?c = "nat (cpu + 1)"
    have c: "?c < Suc nr" "int ?c = cpu + 1" "nat (cpu + 1 + 1) = Suc ?c" using True 1(2) by simp_all
    have "[?c..<Suc nr] = ?c # [Suc ?c..<Suc nr]" using c(1) by (rule upt_conv_Cons)
    moreover have "zus_cpumask_next nr cpu m = (if cpu_isset (cpu + 1) m then Some ?c else zus_cpumask_next nr (cpu + 1) m)"
      using True by (subst zus_cpumask_next.simps) simp
    ultimately show ?thesis using 1(1) [OF True] 1(2) c(2,3) by (cases "cpu_isset (cpu + 1) m") (simp_all del: upt_Suc)
  qed
qed

lemma for_each_cpu_spec:
  "- 1 \<le> cpu \<Longrightarrow> for_each_cpu nr m cpu = filter (\<lambda>c. cpu_isset (int c) m) [nat (cpu + 1)..<nr]"
proof (induction nr m cpu rule: for_each_cpu.induct)
  case (1 nr m cpu)
  let ?P = "\<lambda>c. cpu_isset (int c) m"
  have upt: "[nat (cpu + 1)..<Suc nr] = [nat (cpu + 1)..<nr] @ (if nat (cpu + 1) \<le> nr then [nr] else [])" by simp
  show ?case
  proof (cases "filter ?P [nat (cpu + 1)..<nr]")
    case Nil
    have "zus_cpumask_next nr cpu m = None \<or> zus_cpumask_next nr cpu m = Some nr"
      unfolding cpumask_next_spec [OF 1(2)] upt using Nil by simp
    then show ?thesis using Nil by (subst for_each_cpu.simps) auto
  next
    case (Cons c cs)
    have n: "zus_cpumask_next nr cpu m = Some c" unfolding cpumask_next_spec [OF 1(2)] upt using Cons by simp
    from Cons obtain us vs where u: "[nat (cpu + 1)..<nr] = us @ c # vs" "filter ?P vs = cs"
      by (auto simp: filter_eq_Cons_iff)
    have l: "length us < nr - nat (cpu + 1)" using arg_cong [OF u(1), of length] by simp
    then have c: "c = nat (cpu + 1) + length us" using arg_cong [OF u(1), of "\<lambda>xs. xs ! length us"] by simp
    have "vs = drop (Suc (length us)) [nat (cpu + 1)..<nr]" unfolding u(1) by simp
    also have "\<dots> = [Suc c..<nr]" by (simp add: c)
    finally have "filter ?P [Suc c..<nr] = cs" using u(2) by simp
    moreover have "c < nr" using c l by simp
    moreover note n
    ultimately show ?thesis using 1(1) [OF n] Cons by (subst for_each_cpu.simps) (simp add: nat_add_distrib)
  qed
qed

lemma online_fold:
  "fold (\<lambda>node t. if cpu_isset (int cpu) (S node) then t\<lparr>zus_cpu_online_mask := cpu_set_add cpu (zus_cpu_online_mask t)\<rparr> else t) ns t =
    t\<lparr>zus_cpu_online_mask := (if \<exists>node\<in>set ns. cpu_isset (int cpu) (S node) then cpu_set_add cpu (zus_cpu_online_mask t) else zus_cpu_online_mask t)\<rparr>"
  by (induction ns arbitrary: t) (auto simp: cpu_set_add_def)

text \<open>The CPUs of a map: those below \<open>possible_cpus\<close> that some node lists.\<close>

definition cpu_of_node :: "zufs_numa_map \<Rightarrow> nat \<Rightarrow> nat \<Rightarrow> bool" where
  "cpu_of_node m c node = (node < possible_nodes m \<and> cpu_isset (int c) (cpu_set_per_node m node))"

lemma masks_fold:
  "zus_cpu_online_mask (fold (\<lambda>cpu t. fold (\<lambda>node t.
      if cpu_isset (int cpu) (cpu_set_per_node m node) then t\<lparr>zus_cpu_online_mask := cpu_set_add cpu (zus_cpu_online_mask t)\<rparr> else t)
      [0..<possible_nodes m] (t\<lparr>zus_cpu_possible_mask := cpu_set_add cpu (zus_cpu_possible_mask t)\<rparr>)) cs t) =
    zus_cpu_online_mask t \<union> {c \<in> set cs. \<exists>node. cpu_of_node m c node}"
  unfolding online_fold
  by (induction cs arbitrary: t) (auto simp: cpu_set_add_def cpu_of_node_def cpu_isset_of_nat)

lemma set_cpumasks_online:
  "zus_cpu_online_mask (set_cpumasks m t) = zus_cpu_online_mask t \<union> {c. c < possible_cpus m \<and> (\<exists>node. cpu_of_node m c node)}"
  "zus_nr_cpu_ids (set_cpumasks m t) = possible_cpus m" "zus_numa_map (set_cpumasks m t) = m"
  using masks_fold [of m "[0..<possible_cpus m]" t] by (simp_all add: set_cpumasks_def Let_def)

lemma find_upt_Least:
  assumes "x < n" "P x"
  shows "find P [0..<n] = Some (LEAST y. P y)"
proof -
  let ?y = "LEAST y. P y"
  have y: "P ?y" "?y \<le> x" using assms(2) by (auto intro: LeastI Least_le)
  have "find P [0..<?y] = None" by (auto simp: find_None_all dest: not_less_Least)
  moreover have "[0..<n] = [0..<?y] @ ?y # [Suc ?y..<n]"
    using y(2) assms(1) upt_add_eq_append [of 0 ?y "n - ?y"] by (simp add: upt_conv_Cons)
  ultimately show ?thesis using y(1) by (simp add: find_append)
qed

text \<open>
  C28. After \<open>zus_numa_map_init\<close> on fresh masks, the loop \<open>zus_for_each_cpu\<close> over the online CPUs runs through the CPUs that
  some node lists, each once and in ascending order, and \<open>zus_cpu_to_node\<close> gives the first node that lists a CPU.
\<close>

theorem cpu_topology_correct:
  assumes "zus_cpu_online_mask t = {}" and "zus_numa_map_init (Inr m) t = (r, t')"
  shows "for_each_cpu (zus_nr_cpu_ids t') (zus_cpu_online_mask t') (- 1) = filter (\<lambda>c. \<exists>node. cpu_of_node m c node) [0..<possible_cpus m] \<and>
    (\<forall>c < possible_cpus m. \<forall>node. cpu_of_node m c node \<longrightarrow> zus_cpu_to_node t' c = (LEAST node. cpu_of_node m c node))"
proof -
  have t': "t' = set_cpumasks m t" using assms(2) by (simp add: zus_numa_map_init_def)
  have on: "zus_cpu_online_mask t' = {c. c < possible_cpus m \<and> (\<exists>node. cpu_of_node m c node)}"
    using assms(1) set_cpumasks_online(1) [of m t] by (simp add: t')
  have small: "c < CPU_SETSIZE" if "cpu_of_node m c node" for c node using that by (simp add: cpu_of_node_def cpu_isset_of_nat)
  have "for_each_cpu (zus_nr_cpu_ids t') (zus_cpu_online_mask t') (- 1) = filter (\<lambda>c. cpu_isset (int c) (zus_cpu_online_mask t')) [0..<possible_cpus m]"
    using for_each_cpu_spec [of "- 1"] by (simp add: t' set_cpumasks_online(2))
  also have "\<dots> = filter (\<lambda>c. \<exists>node. cpu_of_node m c node) [0..<possible_cpus m]"
    by (rule filter_cong) (use small in \<open>auto simp: on cpu_isset_of_nat\<close>)
  finally have each: "for_each_cpu (zus_nr_cpu_ids t') (zus_cpu_online_mask t') (- 1) = \<dots>" .
  have "zus_cpu_to_node t' c = (LEAST node. cpu_of_node m c node)" if c: "c < possible_cpus m" "cpu_of_node m c node" for c node
  proof -
    have cm: "int c mod 2 ^ 32 = int c" using small [OF c(2)] by simp
    have "\<not> bad_cpu t' c" using c on small [OF c(2)] unfolding bad_cpu_def zus_cpu_online_def cm
      by (auto simp: t' set_cpumasks_online(2,3) cpu_isset_of_nat)
    moreover have "find (\<lambda>node. cpu_isset (int c) (cpu_set_per_node m node)) [0..<possible_nodes m] =
        find (cpu_of_node m c) [0..<possible_nodes m]" by (rule find_cong_set) (simp add: cpu_of_node_def)
    moreover have "\<dots> = Some (LEAST node. cpu_of_node m c node)"
      by (rule find_upt_Least [of node]) (use c(2) in \<open>simp_all add: cpu_of_node_def\<close>)
    ultimately show ?thesis by (simp add: zus_cpu_to_node_def t' set_cpumasks_online(3))
  qed
  with each show ?thesis by blast
qed

definition sample_numa :: zufs_numa_map where
  "sample_numa = \<lparr>possible_nodes = 2, possible_cpus = 4, online_cpus = 3, cpu_set_per_node = (\<lambda>n. if n = 0 then {0, 2} else {3})\<rparr>"

definition sample_topology :: zus_topology where
  "sample_topology = \<lparr>zus_numa_map = sample_numa, zus_nr_cpu_ids = 0, zus_cpu_possible_mask = {}, zus_cpu_online_mask = {}\<rparr>"

theorem cpu_topology_correct_witness:
  "zus_cpu_to_node (snd (zus_numa_map_init (Inr sample_numa) sample_topology)) 3 = (LEAST node. cpu_of_node sample_numa 3 node)"
proof -
  obtain r t' where i: "zus_numa_map_init (Inr sample_numa) sample_topology = (r, t')" by force
  have "zus_cpu_online_mask sample_topology = {}" by (simp add: sample_topology_def)
  from cpu_topology_correct [OF this i]
  have "\<forall>c < possible_cpus sample_numa. \<forall>node. cpu_of_node sample_numa c node \<longrightarrow> zus_cpu_to_node t' c = (LEAST node. cpu_of_node sample_numa c node)" ..
  moreover have "cpu_of_node sample_numa 3 1" "3 < possible_cpus sample_numa" by (simp_all add: cpu_of_node_def sample_numa_def cpu_isset_def)
  ultimately have "zus_cpu_to_node t' 3 = (LEAST node. cpu_of_node sample_numa 3 node)" by blast
  then show ?thesis using i by simp
qed

section \<open>Waiting for the threads\<close>

record wait_til_zero =
  acnt :: int
  sem :: nat

definition wtz_init :: wait_til_zero where
  "wtz_init = \<lparr>acnt = 0, sem = 0\<rparr>"

definition wtz_arm :: "nat \<Rightarrow> wait_til_zero \<Rightarrow> wait_til_zero" where
  "wtz_arm c w = w\<lparr>acnt := acnt w + int c\<rparr>"

definition wtz_release :: "wait_til_zero \<Rightarrow> wait_til_zero" where
  "wtz_release w =
    (let prev = acnt w; w1 = w\<lparr>acnt := prev - 1\<rparr> in if prev = 1 then w1\<lparr>sem := sem w1 + 1\<rparr> else w1)"

text \<open>\<open>sem_wait\<close> blocks while the semaphore is 0.\<close>

definition wtz_wait :: "wait_til_zero \<Rightarrow> wait_til_zero option" where
  "wtz_wait w = (if sem w = 0 then None else Some (w\<lparr>sem := sem w - 1\<rparr>))"

text \<open>
  The start of \<open>k\<close> channels with \<open>n\<close> threads each (\<open>zus_start_all_threads\<close> and \<open>_zus_start_chan_threads\<close>, when no call fails). The
  starting thread arms the counter for a channel, creates its threads, goes on to the next channel, and waits in the end. A created thread
  initialises itself and releases the counter once, at any time.
\<close>

datatype start_pc = At_chan nat | Creating nat nat | At_wait | Started

record start_state =
  st_pc :: start_pc
  st_wtz :: wait_til_zero
  st_created :: nat
  st_released :: nat

definition start_init :: start_state where
  "start_init = \<lparr>st_pc = At_chan 0, st_wtz = wtz_init, st_created = 0, st_released = 0\<rparr>"

inductive start_step :: "nat \<Rightarrow> nat \<Rightarrow> start_state \<Rightarrow> start_state \<Rightarrow> bool" for n k :: nat where
  arm: "st_pc s = At_chan c \<Longrightarrow> c < k \<Longrightarrow> start_step n k s (s\<lparr>st_pc := Creating c 0, st_wtz := wtz_arm n (st_wtz s)\<rparr>)"
| create: "st_pc s = Creating c i \<Longrightarrow> i < n \<Longrightarrow> start_step n k s (s\<lparr>st_pc := Creating c (i + 1), st_created := st_created s + 1\<rparr>)"
| next_chan: "st_pc s = Creating c n \<Longrightarrow> start_step n k s (s\<lparr>st_pc := At_chan (c + 1)\<rparr>)"
| all_created: "st_pc s = At_chan k \<Longrightarrow> start_step n k s (s\<lparr>st_pc := At_wait\<rparr>)"
| release: "st_released s < st_created s \<Longrightarrow>
    start_step n k s (s\<lparr>st_wtz := wtz_release (st_wtz s), st_released := st_released s + 1\<rparr>)"
| wait_done: "st_pc s = At_wait \<Longrightarrow> wtz_wait (st_wtz s) = Some w \<Longrightarrow> start_step n k s (s\<lparr>st_pc := Started, st_wtz := w\<rparr>)"

inductive_cases start_step_cases: "start_step n k s s'"

abbreviation start_reaches :: "nat \<Rightarrow> nat \<Rightarrow> start_state \<Rightarrow> start_state \<Rightarrow> bool" where
  "start_reaches n k \<equiv> (start_step n k)\<^sup>*\<^sup>*"

text \<open>The threads that the starting thread has announced to the counter, and those it has created, at a point of its program.\<close>

fun armed_at :: "nat \<Rightarrow> nat \<Rightarrow> start_pc \<Rightarrow> nat" where
  "armed_at n k (At_chan c) = c * n"
| "armed_at n k (Creating c i) = (c + 1) * n"
| "armed_at n k At_wait = k * n"
| "armed_at n k Started = k * n"

fun created_at :: "nat \<Rightarrow> nat \<Rightarrow> start_pc \<Rightarrow> nat" where
  "created_at n k (At_chan c) = c * n"
| "created_at n k (Creating c i) = c * n + i"
| "created_at n k At_wait = k * n"
| "created_at n k Started = k * n"

fun pc_ok :: "nat \<Rightarrow> nat \<Rightarrow> start_pc \<Rightarrow> bool" where
  "pc_ok n k (At_chan c) = (c \<le> k)"
| "pc_ok n k (Creating c i) = (c < k \<and> i \<le> n)"
| "pc_ok n k _ = True"

definition start_inv :: "nat \<Rightarrow> nat \<Rightarrow> start_state \<Rightarrow> bool" where
  "start_inv n k s =
    (pc_ok n k (st_pc s) \<and> st_created s = created_at n k (st_pc s) \<and> st_released s \<le> st_created s \<and>
     acnt (st_wtz s) = int (armed_at n k (st_pc s)) - int (st_released s))"

lemma start_inv_step: "start_inv n k s \<Longrightarrow> start_step n k s s' \<Longrightarrow> start_inv n k s'"
  by (erule start_step_cases)
    (auto simp: start_inv_def wtz_arm_def wtz_release_def wtz_wait_def Let_def split: if_splits)

lemma start_inv_reach:
  assumes "start_reaches n k start_init s"
  shows "start_inv n k s"
  using assms
proof (induction rule: rtranclp_induct)
  case base
  show ?case by (simp add: start_inv_def start_init_def wtz_init_def)
next
  case (step s s')
  then show ?case by (blast intro: start_inv_step)
qed

text \<open>With one channel the semaphore is posted by the last thread only, and the wait consumes this one post.\<close>

definition one_chan_inv :: "nat \<Rightarrow> start_state \<Rightarrow> bool" where
  "one_chan_inv n s =
    (start_inv n 1 s \<and> (sem (st_wtz s) = (if 0 < n \<and> st_released s = n \<and> st_pc s \<noteq> Started then 1 else 0)) \<and>
     (st_pc s = Started \<longrightarrow> st_released s = n))"

lemma one_chan_step:
  assumes inv: "one_chan_inv n s" and step: "start_step n 1 s s'"
  shows "one_chan_inv n s'"
proof -
  have inv': "start_inv n 1 s'" using inv start_inv_step [OF _ step] by (simp add: one_chan_inv_def)
  have n: "st_created s \<le> n" using inv by (cases "st_pc s") (auto simp: one_chan_inv_def start_inv_def)
  from step show ?thesis
  proof (cases rule: start_step.cases)
    case release
    have "armed_at n 1 (st_pc s) = n"
      using inv release(2) by (cases "st_pc s") (auto simp: one_chan_inv_def start_inv_def le_Suc_eq)
    then have "acnt (st_wtz s) = 1 \<longleftrightarrow> st_released s + 1 = n" using inv by (auto simp: one_chan_inv_def start_inv_def)
    then show ?thesis using release inv inv' n by (auto simp: one_chan_inv_def wtz_release_def Let_def)
  qed (use inv inv' in \<open>auto simp: one_chan_inv_def wtz_arm_def wtz_wait_def start_inv_def split: if_splits\<close>)
qed

lemma one_chan_reach:
  assumes "start_reaches n 1 start_init s"
  shows "one_chan_inv n s"
  using assms
proof (induction rule: rtranclp_induct)
  case base
  show ?case by (auto simp: one_chan_inv_def start_inv_def start_init_def wtz_init_def)
next
  case (step s s')
  then show ?case by (blast intro: one_chan_step)
qed

text \<open>The steps that are left: those of the starting thread, and the releases.\<close>

fun pc_left :: "nat \<Rightarrow> start_pc \<Rightarrow> nat" where
  "pc_left n (At_chan c) = (if c = 0 then n + 5 else 2)"
| "pc_left n (Creating c i) = n - i + 3"
| "pc_left n At_wait = 1"
| "pc_left n Started = 0"

definition start_left :: "nat \<Rightarrow> start_state \<Rightarrow> nat" where
  "start_left n s = pc_left n (st_pc s) + (n - st_released s)"

lemma one_chan_progress:
  assumes inv: "one_chan_inv n s" and n: "0 < n" and pc: "st_pc s \<noteq> Started"
  shows "\<exists>s'. start_step n 1 s s' \<and> start_left n s' < start_left n s"
proof (cases "st_pc s")
  case (At_chan c)
  then have "c = 0 \<or> c = 1" using inv by (auto simp: one_chan_inv_def start_inv_def)
  then show ?thesis using At_chan start_step.arm [of s c 1 n] start_step.all_created [of s 1 n] by (auto simp: start_left_def)
next
  case (Creating c i)
  show ?thesis
  proof (cases "i < n")
    case True
    then show ?thesis using start_step.create [OF Creating True, of 1] Creating by (auto simp: start_left_def)
  next
    case False
    then have "i = n" using inv Creating by (simp add: one_chan_inv_def start_inv_def)
    then show ?thesis using start_step.next_chan [of s c n 1] Creating by (auto simp: start_left_def)
  qed
next
  case At_wait
  show ?thesis
  proof (cases "st_released s = n")
    case True
    then have "wtz_wait (st_wtz s) = Some ((st_wtz s)\<lparr>sem := 0\<rparr>)" using inv n At_wait by (simp add: one_chan_inv_def wtz_wait_def)
    then show ?thesis using start_step.wait_done [OF At_wait, of _ n 1] At_wait by (auto simp: start_left_def)
  next
    case False
    then have "st_released s < st_created s" using inv At_wait by (simp add: one_chan_inv_def start_inv_def)
    then show ?thesis using start_step.release [of s n 1] inv At_wait by (auto simp: start_left_def one_chan_inv_def start_inv_def)
  qed
qed (use pc in simp)

lemma one_chan_completes:
  assumes "one_chan_inv n s" and "0 < n"
  shows "\<exists>s'. start_reaches n 1 s s' \<and> st_pc s' = Started"
  using assms(1)
proof (induction "start_left n s" arbitrary: s rule: less_induct)
  case less
  show ?case
  proof (cases "st_pc s = Started")
    case True
    then show ?thesis by blast
  next
    case False
    from one_chan_progress [OF less.prems assms(2) False] obtain s1 where s1: "start_step n 1 s s1" "start_left n s1 < start_left n s" by blast
    from less.hyps [OF s1(2) one_chan_step [OF less.prems s1(1)]] s1(1) show ?thesis by (meson converse_rtranclp_into_rtranclp)
  qed
qed

text \<open>
  C27. With one channel, in every interleaving with the new threads: when the starting thread has passed the wait, all threads have
  been created and have reported; and no state is a dead end, the starting thread can always still get there.
\<close>

theorem one_channel_start_safe:
  assumes "0 < n" and "start_reaches n 1 start_init s"
  shows "(st_pc s = Started \<longrightarrow> st_released s = n \<and> st_created s = n) \<and> (\<exists>s'. start_reaches n 1 s s' \<and> st_pc s' = Started)"
  using one_chan_reach [OF assms(2)] one_chan_completes [OF one_chan_reach [OF assms(2)] assms(1)]
  by (auto simp: one_chan_inv_def start_inv_def)

theorem one_channel_start_safe_witness: "\<exists>s'. start_reaches 4 1 start_init s' \<and> st_pc s' = Started"
  using one_channel_start_safe [of 4 start_init] by auto

text \<open>
  The states of an unlucky start with two channels: the threads of the first channel all report before the second channel is armed.
\<close>

lemma creates:
  assumes "i \<le> n"
  shows "start_reaches n k \<lparr>st_pc = Creating c 0, st_wtz = w, st_created = m, st_released = r\<rparr>
    \<lparr>st_pc = Creating c i, st_wtz = w, st_created = m + i, st_released = r\<rparr>"
  using assms
proof (induction i)
  case (Suc i)
  let ?s = "\<lparr>st_pc = Creating c i, st_wtz = w, st_created = m + i, st_released = r\<rparr>"
  have "start_step n k ?s \<lparr>st_pc = Creating c (Suc i), st_wtz = w, st_created = m + Suc i, st_released = r\<rparr>"
    using start_step.create [of ?s c i n k] Suc.prems by simp
  then show ?case using Suc by (auto intro: rtranclp.rtrancl_into_rtrancl)
qed simp

lemma releases:
  assumes "i < m"
  shows "start_reaches n k \<lparr>st_pc = p, st_wtz = \<lparr>acnt = int m, sem = z\<rparr>, st_created = c + m, st_released = c\<rparr>
    \<lparr>st_pc = p, st_wtz = \<lparr>acnt = int (m - i), sem = z\<rparr>, st_created = c + m, st_released = c + i\<rparr>"
  using assms
proof (induction i)
  case (Suc i)
  let ?s = "\<lparr>st_pc = p, st_wtz = \<lparr>acnt = int (m - i), sem = z\<rparr>, st_created = c + m, st_released = c + i\<rparr>"
  have "start_step n k ?s \<lparr>st_pc = p, st_wtz = \<lparr>acnt = int (m - Suc i), sem = z\<rparr>, st_created = c + m, st_released = c + Suc i\<rparr>"
    using start_step.release [of ?s n k] Suc.prems by (simp add: wtz_release_def of_nat_diff algebra_simps)
  then show ?case using Suc by (auto intro: rtranclp.rtrancl_into_rtrancl)
qed simp

text \<open>
  With two channels the wait does not do its work: there is an interleaving in which the starting thread passes the
  wait when no thread of the second channel has reported.
\<close>

theorem two_channel_start_race:
  assumes "0 < n"
  shows "\<exists>s. start_reaches n 2 start_init s \<and> st_pc s = Started \<and> st_created s = 2 * n \<and> st_released s = n"
proof -
  let ?st = "\<lambda>pc a z c r. \<lparr>st_pc = pc, st_wtz = \<lparr>acnt = int a, sem = z\<rparr>, st_created = c, st_released = r\<rparr>"
  have 1: "start_step n 2 start_init (?st (Creating 0 0) n 0 0 0)"
    using start_step.arm [of start_init 0 2 n] by (simp add: start_init_def wtz_init_def wtz_arm_def)
  have 2: "start_reaches n 2 (?st (Creating 0 0) n 0 0 0) (?st (Creating 0 n) n 0 n 0)" using creates [of n n 2 0 _ 0 0] by simp
  have 3: "start_reaches n 2 (?st (Creating 0 n) n 0 n 0) (?st (Creating 0 n) 1 0 n (n - 1))"
    using releases [of "n - 1" n n 2 "Creating 0 n" 0 0] assms by (simp add: of_nat_diff)
  have 4: "start_step n 2 (?st (Creating 0 n) 1 0 n (n - 1)) (?st (Creating 0 n) 0 1 n n)"
    using start_step.release [of "?st (Creating 0 n) 1 0 n (n - 1)" n 2] assms by (simp add: wtz_release_def)
  have 5: "start_step n 2 (?st (Creating 0 n) 0 1 n n) (?st (At_chan 1) 0 1 n n)"
    using start_step.next_chan [of "?st (Creating 0 n) 0 1 n n" 0 n 2] by simp
  have 6: "start_step n 2 (?st (At_chan 1) 0 1 n n) (?st (Creating 1 0) n 1 n n)"
    using start_step.arm [of "?st (At_chan 1) 0 1 n n" 1 2 n] by (simp add: wtz_arm_def)
  have 7: "start_reaches n 2 (?st (Creating 1 0) n 1 n n) (?st (Creating 1 n) n 1 (2 * n) n)" using creates [of n n 2 1 _ n n] by (simp add: mult_2)
  have 8: "start_step n 2 (?st (Creating 1 n) n 1 (2 * n) n) (?st (At_chan 2) n 1 (2 * n) n)"
    using start_step.next_chan [of "?st (Creating 1 n) n 1 (2 * n) n" 1 n 2] by (simp add: numeral_2_eq_2)
  have 9: "start_step n 2 (?st (At_chan 2) n 1 (2 * n) n) (?st At_wait n 1 (2 * n) n)"
    using start_step.all_created [of "?st (At_chan 2) n 1 (2 * n) n" 2 n] by simp
  have 10: "start_step n 2 (?st At_wait n 1 (2 * n) n) (?st Started n 0 (2 * n) n)"
    using start_step.wait_done [of "?st At_wait n 1 (2 * n) n" _ n 2] by (simp add: wtz_wait_def)
  have "start_reaches n 2 start_init (?st Started n 0 (2 * n) n)"
    using 1 2 3 4 5 6 7 8 9 10 by (meson converse_rtranclp_into_rtranclp rtranclp.rtrancl_into_rtrancl rtranclp_trans)
  then show ?thesis by (intro exI [of _ "?st Started n 0 (2 * n) n"]) simp
qed

theorem two_channel_start_race_witness: "\<exists>s. start_reaches 3 2 start_init s \<and> st_pc s = Started \<and> st_released s < st_created s"
  using two_channel_start_race [of 3] by auto

end
