(* ===== verification/Vfs.thy ===== *)
theory Vfs
  imports InodeLife ZusCore
begin

text \<open>
  The layer between the kernel and a file system (\<open>zus-vfs.c\<close>): \<open>zus_do_command\<close> dispatches the commands of the kernel to the operations of the
  file system, \<open>_lookup\<close> handles the two special names and gets the inode. The first part is the dispatch over a table of operations, the
  second one the lookup with the operations of toyfs.
\<close>

section \<open>Dispatch\<close>

datatype e_zufs_operation = ZUFS_OP_NULL | ZUFS_OP_BREAK | ZUFS_OP_STATFS | ZUFS_OP_SHOW_OPTIONS | ZUFS_OP_NEW_INODE | ZUFS_OP_FREE_INODE
  | ZUFS_OP_EVICT_INODE | ZUFS_OP_LOOKUP | ZUFS_OP_ADD_DENTRY | ZUFS_OP_REMOVE_DENTRY | ZUFS_OP_RENAME | ZUFS_OP_READDIR | ZUFS_OP_CLONE
  | ZUFS_OP_COPY | ZUFS_OP_READ | ZUFS_OP_PRE_READ | ZUFS_OP_WRITE | ZUFS_OP_MMAP_CLOSE | ZUFS_OP_SETATTR | ZUFS_OP_SYNC | ZUFS_OP_FALLOCATE
  | ZUFS_OP_LLSEEK | ZUFS_OP_IOCTL | ZUFS_OP_XATTR_GET | ZUFS_OP_XATTR_SET | ZUFS_OP_XATTR_LIST | ZUFS_OP_FIEMAP | ZUFS_OP_GET_MULTY
  | ZUFS_OP_PUT_MULTY | ZUFS_OP_NOOP | ZUFS_OP_IOM_DONE | ZUFS_OP_MAX_OPT

text \<open>
  The operations of the objects that a request names, applied to the request: each changes the state \<open>'s\<close> and returns a number. \<open>None\<close> is a
  \<open>NULL\<close> pointer in the table of the file system; a call through it ends the process.
\<close>

record 's vfs_ops =
  op_new_inode :: "'s \<Rightarrow> int \<times> 's"
  op_tmpfile :: bool                         \<comment> \<open>\<open>ioc_new->flags & ZI_TMPFILE\<close>\<close>
  op_free_inode :: "('s \<Rightarrow> 's) option"
  op_evict :: "('s \<Rightarrow> 's) option"
  op_zii :: bool                             \<comment> \<open>\<open>ziei->zus_ii\<close> is not NULL\<close>
  op_lookup :: "'s \<Rightarrow> int \<times> 's"            \<comment> \<open>\<open>_lookup\<close>\<close>
  op_add_dentry :: "'s \<Rightarrow> int \<times> 's"
  op_remove_dentry :: "'s \<Rightarrow> int \<times> 's"
  op_rename :: "('s \<Rightarrow> int \<times> 's) option"
  op_readdir :: "('s \<Rightarrow> int \<times> 's) option"
  op_clone :: "('s \<Rightarrow> int \<times> 's) option"
  op_read :: "'s \<Rightarrow> int \<times> 's"
  op_pre_read :: "('s \<Rightarrow> int \<times> 's) option"
  op_write :: "'s \<Rightarrow> int \<times> 's"
  op_get_put_multy :: "('s \<Rightarrow> int \<times> 's) option"
  op_mmap_close :: "('s \<Rightarrow> int \<times> 's) option"
  op_setattr :: "('s \<Rightarrow> int \<times> 's) option"
  op_sync :: "('s \<Rightarrow> int \<times> 's) option"
  op_fallocate :: "('s \<Rightarrow> int \<times> 's) option"
  op_seek :: "('s \<Rightarrow> int \<times> 's) option"
  op_ioctl :: "('s \<Rightarrow> int \<times> 's) option"
  op_getxattr :: "('s \<Rightarrow> int \<times> 's) option"
  op_setxattr :: "('s \<Rightarrow> int \<times> 's) option"
  op_listxattr :: "('s \<Rightarrow> int \<times> 's) option"
  op_statfs :: "('s \<Rightarrow> int \<times> 's) option"
  op_fiemap :: "('s \<Rightarrow> int \<times> 's) option"
  op_show_options :: "('s \<Rightarrow> int \<times> 's) option"
  op_iom_done :: "('s \<Rightarrow> 's) option"

abbreviation (input) E_IO :: int where "E_IO \<equiv> - 5"
abbreviation (input) E_FAULT :: int where "E_FAULT \<equiv> - 14"
abbreviation (input) E_INVAL :: int where "E_INVAL \<equiv> - 22"
abbreviation (input) E_NOTTY :: int where "E_NOTTY \<equiv> - 25"
abbreviation (input) E_NOTSUP :: int where "E_NOTSUP \<equiv> - 95"
abbreviation (input) E_NOMEM :: int where "E_NOMEM \<equiv> - 12"

definition call_or :: "int \<Rightarrow> ('s \<Rightarrow> int \<times> 's) option \<Rightarrow> 's \<Rightarrow> int \<times> 's" where
  "call_or err f s = (case f of None \<Rightarrow> (err, s) | Some g \<Rightarrow> g s)"

definition vfs_new_inode :: "'s vfs_ops \<Rightarrow> 's \<Rightarrow> (int \<times> 's) run" where
  "vfs_new_inode ops s =
    (let (err, s1) = op_new_inode ops s in
     if err \<noteq> 0 then Some (err, s1)
     else if op_tmpfile ops then Some (0, s1)
     else let (err, s2) = op_add_dentry ops s1 in
       if err \<noteq> 0 then do { free_inode \<leftarrow> op_free_inode ops; Some (err, free_inode s2) } else Some (0, s2))"

definition vfs_evict :: "e_zufs_operation \<Rightarrow> 's vfs_ops \<Rightarrow> 's \<Rightarrow> int \<times> 's" where
  "vfs_evict operation ops s =
    (if \<not> op_zii ops then (0, s)
     else case (if operation = ZUFS_OP_FREE_INODE then op_free_inode ops else op_evict ops) of
       None \<Rightarrow> (0, s) | Some f \<Rightarrow> (0, f s))"

definition vfs_dentry :: "e_zufs_operation \<Rightarrow> 's vfs_ops \<Rightarrow> 's \<Rightarrow> int \<times> 's" where
  "vfs_dentry operation ops s =
    (if operation = ZUFS_OP_REMOVE_DENTRY then op_remove_dentry ops s else op_add_dentry ops s)"

definition vfs_rename :: "'s vfs_ops \<Rightarrow> 's \<Rightarrow> int \<times> 's" where
  "vfs_rename ops s = call_or E_NOTSUP (op_rename ops) s"

definition vfs_readdir :: "'s vfs_ops \<Rightarrow> 's \<Rightarrow> int \<times> 's" where
  "vfs_readdir ops s = call_or E_NOTSUP (op_readdir ops) s"

definition vfs_clone :: "'s vfs_ops \<Rightarrow> 's \<Rightarrow> int \<times> 's" where
  "vfs_clone ops s = call_or E_NOTSUP (op_clone ops) s"

definition vfs_io_read :: "'s vfs_ops \<Rightarrow> 's \<Rightarrow> int \<times> 's" where
  "vfs_io_read ops s = op_read ops s"

definition vfs_io_pre_read :: "'s vfs_ops \<Rightarrow> 's \<Rightarrow> int \<times> 's" where
  "vfs_io_pre_read ops s = call_or E_NOTSUP (op_pre_read ops) s"

definition vfs_io_write :: "'s vfs_ops \<Rightarrow> 's \<Rightarrow> int \<times> 's" where
  "vfs_io_write ops s = op_write ops s"

definition vfs_mmap_close :: "'s vfs_ops \<Rightarrow> 's \<Rightarrow> int \<times> 's" where
  "vfs_mmap_close ops s = call_or 0 (op_mmap_close ops) s"

definition vfs_setattr :: "'s vfs_ops \<Rightarrow> 's \<Rightarrow> int \<times> 's" where
  "vfs_setattr ops s = call_or 0 (op_setattr ops) s"

definition vfs_sync :: "'s vfs_ops \<Rightarrow> 's \<Rightarrow> int \<times> 's" where
  "vfs_sync ops s = call_or 0 (op_sync ops) s"

definition vfs_fallocate :: "'s vfs_ops \<Rightarrow> 's \<Rightarrow> int \<times> 's" where
  "vfs_fallocate ops s = call_or E_NOTSUP (op_fallocate ops) s"

definition vfs_seek :: "'s vfs_ops \<Rightarrow> 's \<Rightarrow> int \<times> 's" where
  "vfs_seek ops s = call_or E_NOTSUP (op_seek ops) s"

definition vfs_ioctl :: "'s vfs_ops \<Rightarrow> 's \<Rightarrow> int \<times> 's" where
  "vfs_ioctl ops s = call_or E_NOTTY (op_ioctl ops) s"

definition vfs_statfs :: "'s vfs_ops \<Rightarrow> 's \<Rightarrow> int \<times> 's" where
  "vfs_statfs ops s = call_or E_NOTSUP (op_statfs ops) s"

definition vfs_fiemap :: "'s vfs_ops \<Rightarrow> 's \<Rightarrow> int \<times> 's" where
  "vfs_fiemap ops s = call_or E_NOTSUP (op_fiemap ops) s"

definition vfs_show_options :: "'s vfs_ops \<Rightarrow> 's \<Rightarrow> int \<times> 's" where
  "vfs_show_options ops s = call_or 0 (op_show_options ops) s"

definition vfs_get_put_multy :: "'s vfs_ops \<Rightarrow> 's \<Rightarrow> int \<times> 's" where
  "vfs_get_put_multy ops s = call_or E_IO (op_get_put_multy ops) s"

definition vfs_xattr :: "e_zufs_operation \<Rightarrow> 's vfs_ops \<Rightarrow> 's \<Rightarrow> int \<times> 's" where
  "vfs_xattr operation ops s =
    (if operation = ZUFS_OP_XATTR_GET then call_or E_NOTSUP (op_getxattr ops) s
     else if operation = ZUFS_OP_XATTR_SET then call_or E_NOTSUP (op_setxattr ops) s
     else if operation = ZUFS_OP_XATTR_LIST then call_or E_NOTSUP (op_listxattr ops) s
     else (E_FAULT, s))"

definition vfs_iom_done :: "'s vfs_ops \<Rightarrow> 's \<Rightarrow> int \<times> 's" where
  "vfs_iom_done ops s = (case op_iom_done ops of None \<Rightarrow> (E_INVAL, s) | Some f \<Rightarrow> (0, f s))"

text \<open>
  A request with its header. \<open>hdr_more\<close> is the flag \<open>ZUFS_H_HAS_PIGY_PUT\<close>: another request follows in the buffer at the distance
  \<open>in_len\<close>. The list is the chain of headers that the kernel has checked.
\<close>

record 's request =
  hdr_operation :: e_zufs_operation
  hdr_more :: bool
  hdr_ops :: "'s vfs_ops"

fun some_pigy_put :: "bool \<Rightarrow> 's request list \<Rightarrow> 's \<Rightarrow> 's" where
  "some_pigy_put flag [] s = s"
| "some_pigy_put flag (h # hs) s =
    (if \<not> flag then s
     else if hdr_operation h \<noteq> ZUFS_OP_PUT_MULTY then s
     else some_pigy_put (hdr_more h) hs (snd (vfs_get_put_multy (hdr_ops h) s)))"

definition dispatch :: "e_zufs_operation \<Rightarrow> 's vfs_ops \<Rightarrow> 's \<Rightarrow> (int \<times> 's) run" where
  "dispatch operation ops s =
    (if operation = ZUFS_OP_NEW_INODE then vfs_new_inode ops s
     else Some (case operation of
       ZUFS_OP_FREE_INODE \<Rightarrow> vfs_evict operation ops s
     | ZUFS_OP_EVICT_INODE \<Rightarrow> vfs_evict operation ops s
     | ZUFS_OP_LOOKUP \<Rightarrow> op_lookup ops s
     | ZUFS_OP_ADD_DENTRY \<Rightarrow> vfs_dentry operation ops s
     | ZUFS_OP_REMOVE_DENTRY \<Rightarrow> vfs_dentry operation ops s
     | ZUFS_OP_RENAME \<Rightarrow> vfs_rename ops s
     | ZUFS_OP_READDIR \<Rightarrow> vfs_readdir ops s
     | ZUFS_OP_CLONE \<Rightarrow> vfs_clone ops s
     | ZUFS_OP_COPY \<Rightarrow> vfs_clone ops s
     | ZUFS_OP_READ \<Rightarrow> vfs_io_read ops s
     | ZUFS_OP_PRE_READ \<Rightarrow> vfs_io_pre_read ops s
     | ZUFS_OP_WRITE \<Rightarrow> vfs_io_write ops s
     | ZUFS_OP_MMAP_CLOSE \<Rightarrow> vfs_mmap_close ops s
     | ZUFS_OP_SETATTR \<Rightarrow> vfs_setattr ops s
     | ZUFS_OP_SYNC \<Rightarrow> vfs_sync ops s
     | ZUFS_OP_FALLOCATE \<Rightarrow> vfs_fallocate ops s
     | ZUFS_OP_LLSEEK \<Rightarrow> vfs_seek ops s
     | ZUFS_OP_IOCTL \<Rightarrow> vfs_ioctl ops s
     | ZUFS_OP_XATTR_GET \<Rightarrow> vfs_xattr operation ops s
     | ZUFS_OP_XATTR_SET \<Rightarrow> vfs_xattr operation ops s
     | ZUFS_OP_XATTR_LIST \<Rightarrow> vfs_xattr operation ops s
     | ZUFS_OP_STATFS \<Rightarrow> vfs_statfs ops s
     | ZUFS_OP_FIEMAP \<Rightarrow> vfs_fiemap ops s
     | ZUFS_OP_SHOW_OPTIONS \<Rightarrow> vfs_show_options ops s
     | ZUFS_OP_GET_MULTY \<Rightarrow> vfs_get_put_multy ops s
     | ZUFS_OP_PUT_MULTY \<Rightarrow> vfs_get_put_multy ops s
     | ZUFS_OP_IOM_DONE \<Rightarrow> vfs_iom_done ops s
     | _ \<Rightarrow> (0, s)))"

definition zus_do_command :: "'s request \<Rightarrow> 's request list \<Rightarrow> 's \<Rightarrow> (int \<times> 's) run" where
  "zus_do_command hdr rest s =
    (let s1 = (if hdr_more hdr then some_pigy_put (hdr_more hdr) rest s else s)
     in dispatch (hdr_operation hdr) (hdr_ops hdr) s1)"

text \<open>What a server thread does with one operation: the error goes back to the kernel as a negative number (\<open>_zu_thread\<close>).\<close>

definition do_op :: "'s request \<Rightarrow> 's request list \<Rightarrow> 's \<Rightarrow> (int \<times> 's) run" where
  "do_op hdr rest s = do { (err, s1) \<leftarrow> zus_do_command hdr rest s; Some (errno_UtoK err, s1) }"

text \<open>A chain of piggybacked puts: all are \<open>ZUFS_OP_PUT_MULTY\<close> and each but the last announces the next one.\<close>

definition put_chain :: "'s request list \<Rightarrow> bool" where
  "put_chain hs = (\<forall>i < length hs. hdr_operation (hs ! i) = ZUFS_OP_PUT_MULTY \<and> hdr_more (hs ! i) = (Suc i < length hs))"

lemma some_pigy_put_chain:
  "put_chain hs \<Longrightarrow> some_pigy_put (hs \<noteq> []) (hs @ rest) s = fold (\<lambda>h s. snd (vfs_get_put_multy (hdr_ops h) s)) hs s"
proof (induction hs arbitrary: s)
  case Nil
  then show ?case by (cases rest) simp_all
next
  case (Cons h hs)
  have "put_chain hs" unfolding put_chain_def
  proof (intro allI impI)
    fix i assume "i < length hs"
    with Cons.prems show "hdr_operation (hs ! i) = ZUFS_OP_PUT_MULTY \<and> hdr_more (hs ! i) = (Suc i < length hs)"
      by (auto simp: put_chain_def dest: spec [of _ "Suc i"])
  qed
  moreover have "hdr_operation h = ZUFS_OP_PUT_MULTY" "hdr_more h = (hs \<noteq> [])"
    using Cons.prems by (auto simp: put_chain_def dest: spec [of _ 0])
  ultimately show ?case using Cons.IH by simp
qed

text \<open>
  A server thread executes the puts that ride on a command in their order, each exactly once, then the command itself, whatever follows in the
  buffer. The number that goes back to the kernel is the one of the command, never positive.
\<close>

theorem do_op_order:
  assumes "put_chain puts" "hdr_more hdr = (puts \<noteq> [])"
    and "dispatch (hdr_operation hdr) (hdr_ops hdr) (fold (\<lambda>h s. snd (vfs_get_put_multy (hdr_ops h) s)) puts s) = Some (err, s')"
  shows "\<exists>k. do_op hdr (puts @ rest) s = Some (k, s') \<and> k \<le> 0 \<and> \<bar>k\<bar> = \<bar>err\<bar>"
proof -
  have "zus_do_command hdr (puts @ rest) s = Some (err, s')"
    using assms some_pigy_put_chain [OF assms(1), of rest s] by (cases "puts = []") (simp_all add: zus_do_command_def)
  then show ?thesis by (simp add: do_op_def errno_UtoK_def)
qed

text \<open>A table whose operations write a mark.\<close>

definition marks :: "int \<Rightarrow> int list vfs_ops" where
  "marks n = (let f = (\<lambda>s. (n, s @ [n])) in
    \<lparr>op_new_inode = f, op_tmpfile = False, op_free_inode = None, op_evict = None, op_zii = True, op_lookup = f, op_add_dentry = f,
     op_remove_dentry = f, op_rename = None, op_readdir = None, op_clone = None, op_read = f, op_pre_read = None, op_write = f,
     op_get_put_multy = Some f, op_mmap_close = None, op_setattr = None, op_sync = None, op_fallocate = None, op_seek = None,
     op_ioctl = None, op_getxattr = None, op_setxattr = None, op_listxattr = None, op_statfs = None, op_fiemap = None,
     op_show_options = None, op_iom_done = None\<rparr>)"

lemma marks_ops: "op_write (marks n) = (\<lambda>s. (n, s @ [n]))" "op_get_put_multy (marks n) = Some (\<lambda>s. (n, s @ [n]))"
  by (simp_all add: marks_def Let_def)

theorem do_op_order_witness:
  "\<exists>k. do_op \<lparr>hdr_operation = ZUFS_OP_WRITE, hdr_more = True, hdr_ops = marks 28\<rparr>
      [\<lparr>hdr_operation = ZUFS_OP_PUT_MULTY, hdr_more = True, hdr_ops = marks 1\<rparr>,
       \<lparr>hdr_operation = ZUFS_OP_PUT_MULTY, hdr_more = False, hdr_ops = marks 2\<rparr>] [] = Some (k, [1, 2, 28]) \<and> k \<le> 0 \<and> \<bar>k\<bar> = \<bar>28\<bar>"
proof -
  let ?puts = "[\<lparr>hdr_operation = ZUFS_OP_PUT_MULTY, hdr_more = True, hdr_ops = marks 1\<rparr>,
       \<lparr>hdr_operation = ZUFS_OP_PUT_MULTY, hdr_more = False, hdr_ops = marks 2\<rparr>]"
  have "put_chain ?puts" by (auto simp: put_chain_def nth_Cons')
  from do_op_order [OF this, of "\<lparr>hdr_operation = ZUFS_OP_WRITE, hdr_more = True, hdr_ops = marks 28\<rparr>" "[]" 28 "[1, 2, 28]" "[]"] show ?thesis
    by (simp add: dispatch_def vfs_io_write_def vfs_get_put_multy_def call_or_def marks_ops)
qed

section \<open>Lookup\<close>

text \<open>\<open>strncmp(lit, name, n) == 0\<close>, where the literal ends with its 0.\<close>

fun strncmp_lit :: "byte list \<Rightarrow> (nat \<Rightarrow> byte) \<Rightarrow> nat \<Rightarrow> nat \<Rightarrow> bool" where
  "strncmp_lit lit name i 0 = True"
| "strncmp_lit [] name i (Suc n) = (name i = 0)"
| "strncmp_lit (c # lit) name i (Suc n) = (c = name i \<and> strncmp_lit lit name (i + 1) n)"

text \<open>
  \<open>zus_iget\<close> turns every error of the file system into \<open>NULL\<close>. \<open>zii_zi\<close> is \<open>dir_ii->zi\<close>.
\<close>

definition zus_iget :: "addr option \<Rightarrow> nat \<Rightarrow> toyfs_sb_info \<Rightarrow> (addr option \<times> toyfs_sb_info) run" where
  "zus_iget mem ino s = do {
     (r, s1) \<leftarrow> toyfs_iget mem ino s;
     (case r of Inl err \<Rightarrow> Some (None, s1) | Inr zii \<Rightarrow> Some (Some zii, s1)) }"

definition zii_zi :: "toyfs_sb_info \<Rightarrow> addr option \<Rightarrow> addr run" where
  "zii_zi s zii = do { a \<leftarrow> zii; tii \<leftarrow> h_tii s a; tii_zi tii }"

text \<open>The result of a successful lookup is the inode info; \<open>None\<close> for an empty name, which is not an error.\<close>

definition vfs_lookup :: "addr option \<Rightarrow> addr option \<Rightarrow> zufs_str \<Rightarrow> toyfs_sb_info \<Rightarrow> (addr option result \<times> toyfs_sb_info) run" where
  "vfs_lookup mem dir_ii str s =
    (if str_len str = 0 \<or> str_name str 0 = 0 then Some (Inr None, s)
     else do {
       ino \<leftarrow> (if strncmp_lit [46] (str_name str) 0 (str_len str) then do { zi \<leftarrow> zii_zi s dir_ii; Some (i_ino (h_inode s zi)) }
               else if strncmp_lit [46, 46] (str_name str) 0 (str_len str) then do { zi \<leftarrow> zii_zi s dir_ii; Some (i_dir_parent (h_inode s zi)) }
               else toyfs_lookup dir_ii str s);
       if ino = 0 then Some (Inl ENOENT, s)
       else do {
         (zii, s1) \<leftarrow> zus_iget mem ino s;
         (case zii of None \<Rightarrow> Some (Inl ENOENT, s1) | Some a \<Rightarrow> Some (Inr (Some a), s1)) } })"

lemma strncmp_dot:
  assumes "name_ok n"
  shows "strncmp_lit [46] (\<lambda>i. n ! i) 0 (length n) \<longleftrightarrow> n = [46]"
    and "strncmp_lit [46, 46] (\<lambda>i. n ! i) 0 (length n) \<longleftrightarrow> n = [46] \<or> n = [46, 46]"
proof -
  from assms obtain c m where n: "n = c # m" by (cases n) (auto simp: name_ok_def)
  have m: "m = [] \<or> m ! 0 \<noteq> 0" "tl m = [] \<or> m ! 1 \<noteq> 0"
    using assms n by (cases m; cases "tl m"; auto simp: name_ok_def)+
  show "strncmp_lit [46] (\<lambda>i. n ! i) 0 (length n) \<longleftrightarrow> n = [46]"
    using m(1) by (cases m) (auto simp: n)
  show "strncmp_lit [46, 46] (\<lambda>i. n ! i) 0 (length n) \<longleftrightarrow> n = [46] \<or> n = [46, 46]"
    using m by (cases m; cases "tl m") (auto simp: n)
qed

text \<open>The inode number that a name stands for in a directory.\<close>

definition name_ino :: "toyfs_sb_info \<Rightarrow> addr \<Rightarrow> byte list \<Rightarrow> nat" where
  "name_ino s g n =
    (if n = [46] then i_ino (h_inode s g)
     else if n = [46, 46] then i_dir_parent (h_inode s g)
     else case dir_map s g n of None \<Rightarrow> 0 | Some ino \<Rightarrow> ino)"

lemma vfs_lookup_number:
  assumes dir: "dir_inv F G s" "g \<in> G" and zii: "zii_inode s dir_ii = Some g" "zii_zi s dir_ii = Some g" and n: "name_ok n"
  shows "vfs_lookup mem dir_ii (mk_str n) s =
    (if name_ino s g n = 0 then Some (Inl ENOENT, s)
     else do {
       (zii, s1) \<leftarrow> zus_iget mem (name_ino s g n) s;
       (case zii of None \<Rightarrow> Some (Inl ENOENT, s1) | Some a \<Rightarrow> Some (Inr (Some a), s1)) })"
proof -
  have l: "toyfs_lookup dir_ii (mk_str n) s = Some (case dir_map s g n of None \<Rightarrow> 0 | Some i \<Rightarrow> i)"
    using zii(1) look_name_law [OF dir n] by (simp add: toyfs_lookup_def)
  have ne: "str_len (mk_str n) \<noteq> 0" "str_name (mk_str n) 0 \<noteq> 0" "str_len (mk_str n) = length n" "str_name (mk_str n) = (\<lambda>i. n ! i)"
    using n by (cases n; simp add: mk_str_def name_ok_def)+
  show ?thesis unfolding vfs_lookup_def ne(3,4) strncmp_dot [OF n] using ne(1,2) zii(2) l by (simp add: name_ino_def ne(3,4))
qed

text \<open>
  The half of \<open>_iget\<close> that makes a new info, for an inode whose info has left memory: the entry of the table gets the info, but the info gets
  neither the number nor the pages of the inode.
\<close>

definition hollow_info :: toyfs_inode_info where
  "hollow_info = \<lparr>tii_op = True, tii_zi = None, tii_sbi = True, tii_ti = None, tii_ino = 0, imagic = TOYFS_IMAGIC, tii_ref = 1,
     tii_mapped = True, tii_valid = True\<rparr>"

lemma iget_uncached:
  assumes inv: "ii_inv s" and r: "itable_map (s_itable s) ino = Some r" "tir_tii r = None"
  shows "mem = None \<or> f_ffree (s_statvfs s) = 0 \<Longrightarrow> toyfs_iget mem ino s = Some (Inl ENOMEM, s)"
    and "mem = Some b \<Longrightarrow> f_ffree (s_statvfs s) \<noteq> 0 \<Longrightarrow> \<exists>t. itable_map t = (itable_map (s_itable s))(ino \<mapsto> r\<lparr>tir_tii := Some b\<rparr>) \<and>
      toyfs_iget mem ino s = Some (Inr b, s\<lparr>h_tii := (h_tii s)(b \<mapsto> hollow_info), s_itable := t,
        s_statvfs := (s_statvfs s)\<lparr>f_ffree := f_ffree (s_statvfs s) - 1, f_favail := f_favail (s_statvfs s) - 1\<rparr>\<rparr>)"
proof -
  obtain p where p: "itable_find (s_itable s) ino = Some p" using r(1) itable_find_None [of "s_itable s" ino]
    by (cases "itable_find (s_itable s) ino") simp_all
  have at: "tir_at (s_itable s) p = r" using itable_find_Some(3) [OF p] r(1) by simp
  have av: "f_favail (s_statvfs s) = f_ffree (s_statvfs s)" using ii_invD(9) [OF inv] by simp
  note defs = toyfs_iget_def toyfs_find_inode_ref_by_ino_def toyfs_alloc_ii_def p at r(2) av
  show "toyfs_iget mem ino s = Some (Inl ENOMEM, s)" if "mem = None \<or> f_ffree (s_statvfs s) = 0"
    using that by (cases mem) (auto simp: defs)
  show "\<exists>t. itable_map t = (itable_map (s_itable s))(ino \<mapsto> r\<lparr>tir_tii := Some b\<rparr>) \<and>
      toyfs_iget mem ino s = Some (Inr b, s\<lparr>h_tii := (h_tii s)(b \<mapsto> hollow_info), s_itable := t,
        s_statvfs := (s_statvfs s)\<lparr>f_ffree := f_ffree (s_statvfs s) - 1, f_favail := f_favail (s_statvfs s) - 1\<rparr>\<rparr>)"
    if "mem = Some b" "f_ffree (s_statvfs s) \<noteq> 0"
    using that set_tii_ok(2) [OF ii_invD(1) [OF inv] p, of "Some b"] at
    by (intro exI [of _ "set_tir_tii p (Some b) (s_itable s)"]) (simp add: defs upd_tii_def hollow_info_def)
qed

text \<open>
  C25. The lookup of a name through the whole stack, from the command of the kernel down to the pages of the directory and the inode table.
  The names \<open>.\<close> and \<open>..\<close> stand for the directory and its parent, every other name for its entry. A name that stands for no inode
  of the table gives \<open>ENOENT\<close> and changes nothing. If the info of the inode is in memory, the result is this info, whose reference count is one
  higher; nothing else changes and the invariant of the inode table holds. If it has left memory, a new info is allocated. When that is refused
  the result is \<open>ENOENT\<close> and not the \<open>ENOMEM\<close> of \<open>_iget\<close>; otherwise it is an info without number and inode, in which the code never
  fills in the inode of the entry, so that every operation on the result fails.
\<close>

theorem vfs_lookup_correct:
  assumes inv: "ii_inv s" and dir: "dir_inv F G s" "g \<in> G" and zii: "zii_inode s dir_ii = Some g" "zii_zi s dir_ii = Some g" and n: "name_ok n"
  shows "case if name_ino s g n = 0 then None else itable_map (s_itable s) (name_ino s g n) of
      None \<Rightarrow> vfs_lookup mem dir_ii (mk_str n) s = Some (Inl ENOENT, s)
    | Some r \<Rightarrow>
       (case tir_tii r of
          Some a \<Rightarrow> (\<exists>ii. h_tii s a = Some ii \<and> tii_ino ii = name_ino s g n \<and> tii_ti ii \<noteq> None) \<and>
            vfs_lookup mem dir_ii (mk_str n) s = Some (Inr (Some a), upd_tii a (\<lambda>r. r\<lparr>tii_ref := tii_ref r + 1\<rparr>) s) \<and>
            ii_inv (upd_tii a (\<lambda>r. r\<lparr>tii_ref := tii_ref r + 1\<rparr>) s)
        | None \<Rightarrow>
           (case if f_ffree (s_statvfs s) = 0 then None else mem of
              None \<Rightarrow> vfs_lookup mem dir_ii (mk_str n) s = Some (Inl ENOENT, s)
            | Some b \<Rightarrow> \<exists>t. itable_map t = (itable_map (s_itable s))(name_ino s g n \<mapsto> r\<lparr>tir_tii := Some b\<rparr>) \<and>
                vfs_lookup mem dir_ii (mk_str n) s = Some (Inr (Some b), s\<lparr>h_tii := (h_tii s)(b \<mapsto> hollow_info), s_itable := t,
                  s_statvfs := (s_statvfs s)\<lparr>f_ffree := f_ffree (s_statvfs s) - 1, f_favail := f_favail (s_statvfs s) - 1\<rparr>\<rparr>)))"
proof -
  note l = vfs_lookup_number [OF dir zii n, of mem]
  let ?n = "name_ino s g n"
  consider (none) "?n = 0 \<or> itable_map (s_itable s) ?n = None"
    | (in_mem) r a where "?n \<noteq> 0" "itable_map (s_itable s) ?n = Some r" "tir_tii r = Some a"
    | (out) r where "?n \<noteq> 0" "itable_map (s_itable s) ?n = Some r" "tir_tii r = None" by (metis not_None_eq)
  then show ?thesis
  proof cases
    case none
    then show ?thesis using l iget_missing [of s ?n mem] by (auto simp: zus_iget_def)
  next
    case in_mem
    from iget_cached(1) [OF inv in_mem(2,3), of mem] iget_cached(2) [OF inv in_mem(2,3)] obtain ii where
      ii: "h_tii s a = Some ii" "good_ii r ii" "toyfs_iget mem ?n s = Some (Inr a, upd_tii a (\<lambda>r. r\<lparr>tii_ref := tii_ref r + 1\<rparr>) s)"
        "ii_inv (upd_tii a (\<lambda>r. r\<lparr>tii_ref := tii_ref r + 1\<rparr>) s)" by blast
    have "tii_ino ii = ?n" "tii_ti ii \<noteq> None"
      using ii(2) itable_map_ino [OF in_mem(2)] ii_invD(3) [OF inv in_mem(2)] by (auto simp: good_ii_def)
    then show ?thesis using l ii(1,3,4) in_mem by (simp add: zus_iget_def)
  next
    case out
    show ?thesis
    proof (cases "mem = None \<or> f_ffree (s_statvfs s) = 0")
      case True
      then show ?thesis using l out iget_uncached(1) [OF inv out(2,3) True] by (auto simp: zus_iget_def)
    next
      case False
      then obtain b where b: "mem = Some b" "f_ffree (s_statvfs s) \<noteq> 0" by (cases mem) simp_all
      from iget_uncached(2) [OF inv out(2,3) b] obtain t where
        "itable_map t = (itable_map (s_itable s))(?n \<mapsto> r\<lparr>tir_tii := Some b\<rparr>)"
        "toyfs_iget mem ?n s = Some (Inr b, s\<lparr>h_tii := (h_tii s)(b \<mapsto> hollow_info), s_itable := t,
          s_statvfs := (s_statvfs s)\<lparr>f_ffree := f_ffree (s_statvfs s) - 1, f_favail := f_favail (s_statvfs s) - 1\<rparr>\<rparr>)" by blast
      then show ?thesis using l out b by (auto simp: zus_iget_def)
    qed
  qed
qed

lemma sample_root_dir:
  "dir_inv {} {36864} sample_root" "zii_inode sample_root (Some 500) = Some 36864" "zii_zi sample_root (Some 500) = Some 36864"
  "i_ino (h_inode sample_root 36864) = 1" "itable_map (s_itable sample_root) 1 = Some \<lparr>tir_tii = Some 500, tir_ti = Some 36864, tir_ino = 1\<rparr>"
proof -
  have "dev_small sample_root"
    by (simp add: dev_small_def sample_root_def new_root_inode_def sample_simps toyfs_alloc_ii_def pool_defs fold_free toyfs_inodes_per_page_def
      upt_conv_Cons itable_insert_def upd_inode_def upd_tii_def)
  then show "dir_inv {} {36864} sample_root" using inodes_ok_tree [OF sample_root_ok(1)] by (auto simp: dir_inv_def)
  show "zii_inode sample_root (Some 500) = Some 36864" "zii_zi sample_root (Some 500) = Some 36864"
    by (simp_all add: zii_inode_def zii_zi_def toyfs_zii_to_tii_def sample_root_ok(4) new_info_def)
  show "i_ino (h_inode sample_root 36864) = 1"
    "itable_map (s_itable sample_root) 1 = Some \<lparr>tir_tii = Some 500, tir_ti = Some 36864, tir_ino = 1\<rparr>"
    by (simp_all add: sample_root_def new_root_inode_def sample_simps toyfs_alloc_ii_def pool_defs fold_free toyfs_inodes_per_page_def
      upt_conv_Cons itable_insert_def upd_inode_def upd_tii_def itable_map_def)
qed

theorem vfs_lookup_correct_witness:
  "\<exists>a s'. vfs_lookup None (Some 500) (mk_str [46]) sample_root = Some (Inr (Some a), s')"
proof -
  have n: "name_ok [46]" "name_ino sample_root 36864 [46] = 1" by (simp_all add: name_ok_def name_ino_def sample_root_dir(4))
  from vfs_lookup_correct [OF sample_root_ok(2) sample_root_dir(1) _ sample_root_dir(2,3) n(1), of None]
  show ?thesis unfolding n(2) sample_root_dir(5) by auto
qed

end
