(* ===== verification/IomEnc.thy ===== *)
theory IomEnc
  imports MdTable ZusStd
begin

text \<open>
  The encoder of I/O maps (\<open>iom_enc.h\<close>), the buffer and submission of a map (\<open>md_zus.c\<close>, \<open>zus_alloc_exec_buff\<close> of \<open>zus-core.c\<close>) and the
  reads and writes of the device table on the second tier (\<open>md_zus.c\<close>). The map is an array of 64 bit words behind a header; positions are
  byte distances from \<open>iom_e\<close>. The layout of the entries and the encoding of a type with a value come from \<open>zus_api.h\<close> and are the parameter
  \<open>iom_api\<close>. The theorem of the encoder compares the words with a decoder of the map.
\<close>

section \<open>The map\<close>

datatype iom_type = IOM_END | IOM_WBINV | IOM_DISCARD | IOM_UNMAP | IOM_T2_WRITE | IOM_T2_READ | IOM_T2_ZUSMEM_WRITE | IOM_T2_ZUSMEM_READ
  \<comment> \<open>the types the encoder writes; \<open>IOM_END\<close> is the value 0 of the terminator\<close>

text \<open>
  What the encoder uses of \<open>zus_api.h\<close>: the encodings of the first word and of a block number with their decoders, the sizes of the entries in
  words and the positions of their fields.
\<close>

record iom_api =
  enc_type_val :: "iom_type \<Rightarrow> 64 word \<Rightarrow> 64 word"
  dec_type :: "64 word \<Rightarrow> iom_type"
  dec_val :: "64 word \<Rightarrow> 64 word"
  first_val_mask :: "64 word"
  enc_bn :: "64 word \<Rightarrow> nat \<Rightarrow> 64 word"
  io_len_words :: nat
  io_len_num_pages :: nat
  unmap_words :: nat
  unmap_n_at :: nat
  unmap_ino_at :: nat
  io_words :: nat
  io_t1_at :: nat
  zm_words :: nat
  zm_ptr_at :: nat
  zm_len_at :: nat
  exec_iom_e :: nat     \<comment> \<open>distance of \<open>ziom.iom_e\<close> in a \<open>zufs_ioc_iomap_exec\<close>\<close>
  io_iom_e :: nat       \<comment> \<open>distance of \<open>ziom.iom_e\<close> in a \<open>zufs_ioc_IO\<close>\<close>

record zufs_iomap =
  iom_max :: nat
  iom_n :: nat
  iom_e :: "nat \<Rightarrow> 64 word"

record zus_iomap_build =
  iomb_iomd :: "nat option"
  iomb_fd :: int
  iomb_err :: int
  cur_iom_e :: nat
  end_iom_e :: nat
  ziom :: zufs_iomap

definition put_word :: "nat \<Rightarrow> 64 word \<Rightarrow> zus_iomap_build \<Rightarrow> zus_iomap_build" where
  "put_word i w b = b\<lparr>ziom := (ziom b)\<lparr>iom_e := (iom_e (ziom b))(i := w)\<rparr>\<rparr>"

definition zus_iom_len :: "zus_iomap_build \<Rightarrow> nat" where
  "zus_iom_len b = cur_iom_e b div 8"

definition zus_iom_empty :: "zus_iomap_build \<Rightarrow> bool" where
  "zus_iom_empty b = (zus_iom_len b = 0)"

text \<open>The warning about a value outside the mask does not stop the encoder.\<close>

definition zus_iom_enc_type_val :: "iom_api \<Rightarrow> nat \<Rightarrow> iom_type \<Rightarrow> 64 word \<Rightarrow> zus_iomap_build \<Rightarrow> zus_iomap_build" where
  "zus_iom_enc_type_val api i type val b = put_word i (enc_type_val api type val) b"

definition zus_iom_common_init :: "nat \<Rightarrow> zus_iomap_build \<Rightarrow> zus_iomap_build" where
  "zus_iom_common_init end_ptr b = b\<lparr>ziom := (ziom b)\<lparr>iom_max := end_ptr div 8, iom_n := 0\<rparr>, end_iom_e := end_ptr\<rparr>"

definition zus_iom_init_4_ioc_exec :: "iom_api \<Rightarrow> int \<Rightarrow> nat \<Rightarrow> zus_iomap_build \<Rightarrow> zus_iomap_build" where
  "zus_iom_init_4_ioc_exec api fd max_bytes b = (zus_iom_common_init (max_bytes - exec_iom_e api) b)\<lparr>iomb_fd := fd\<rparr>"

definition zus_iom_init_4_ioc_io :: "iom_api \<Rightarrow> nat \<Rightarrow> zus_iomap_build \<Rightarrow> zus_iomap_build" where
  "zus_iom_init_4_ioc_io api max_bytes b = zus_iom_common_init (max_bytes - io_iom_e api) b"

definition zus_iom_start :: "nat option \<Rightarrow> zus_iomap_build \<Rightarrow> zus_iomap_build" where
  "zus_iom_start iomd b =
    (let b = b\<lparr>cur_iom_e := 0, ziom := (ziom b)\<lparr>iom_n := 0\<rparr>\<rparr> in (put_word 0 0 b)\<lparr>iomb_iomd := iomd\<rparr>)"

definition zus_iom_end :: "iom_api \<Rightarrow> zus_iomap_build \<Rightarrow> zus_iomap_build" where
  "zus_iom_end api b =
    (let b = (if cur_iom_e b < end_iom_e b then zus_iom_enc_type_val api (cur_iom_e b div 8) IOM_END 0 b else b)
     in b\<lparr>ziom := (ziom b)\<lparr>iom_n := zus_iom_len b\<rparr>\<rparr>)"

section \<open>The entries\<close>

text \<open>Each operation returns 0 or \<open>ENOSPC\<close> and leaves the map alone in the second case.\<close>

definition zus_iom_enc_wbinv :: "iom_api \<Rightarrow> zus_iomap_build \<Rightarrow> unit result \<times> zus_iomap_build" where
  "zus_iom_enc_wbinv api b =
    (let i = cur_iom_e b in
     if end_iom_e b < i + 8 then (Inl ENOSPC, b)
     else (Inr (), zus_iom_enc_type_val api (i div 8) IOM_WBINV 0 (b\<lparr>cur_iom_e := i + 8\<rparr>)))"

definition zus_iom_enc_discard :: "iom_api \<Rightarrow> 64 word \<Rightarrow> 64 word \<Rightarrow> zus_iomap_build \<Rightarrow> unit result \<times> zus_iomap_build" where
  "zus_iom_enc_discard api t2_bn num_pages b =
    (let i = cur_iom_e b; nxt = i + 8 * io_len_words api in
     if end_iom_e b < nxt then (Inl ENOSPC, b)
     else
       let b = zus_iom_enc_type_val api (i div 8) IOM_DISCARD t2_bn b;
           b = put_word (i div 8 + io_len_num_pages api) num_pages b
       in (Inr (), b\<lparr>cur_iom_e := nxt\<rparr>))"

definition zus_iom_enc_unmap :: "iom_api \<Rightarrow> 64 word \<Rightarrow> 64 word \<Rightarrow> 64 word \<Rightarrow> zus_iomap_build \<Rightarrow> unit result \<times> zus_iomap_build" where
  "zus_iom_enc_unmap api index n ino b =
    (let i = cur_iom_e b; nxt = i + 8 * unmap_words api in
     if end_iom_e b < nxt then (Inl ENOSPC, b)
     else
       let b = zus_iom_enc_type_val api (i div 8) IOM_UNMAP index b;
           b = put_word (i div 8 + unmap_n_at api) n b;
           b = put_word (i div 8 + unmap_ino_at api) ino b
       in (Inr (), b\<lparr>cur_iom_e := nxt\<rparr>))"

definition zus_iom_enc_t2_io :: "iom_api \<Rightarrow> 64 word \<Rightarrow> 64 word \<Rightarrow> iom_type \<Rightarrow> zus_iomap_build \<Rightarrow> unit result \<times> zus_iomap_build" where
  "zus_iom_enc_t2_io api t2_bn t1_val type b =
    (let i = cur_iom_e b; nxt = i + 8 * io_words api in
     if end_iom_e b < nxt then (Inl ENOSPC, b)
     else
       let b = zus_iom_enc_type_val api (i div 8) type t2_bn b;
           b = put_word (i div 8 + io_t1_at api) t1_val b
       in (Inr (), b\<lparr>cur_iom_e := nxt\<rparr>))"

definition zus_iom_enc_t2_write :: "iom_api \<Rightarrow> 64 word \<Rightarrow> 64 word \<Rightarrow> zus_iomap_build \<Rightarrow> unit result \<times> zus_iomap_build" where
  "zus_iom_enc_t2_write api t2_bn t1_val b = zus_iom_enc_t2_io api t2_bn t1_val IOM_T2_WRITE b"

definition zus_iom_enc_t2_read :: "iom_api \<Rightarrow> 64 word \<Rightarrow> 64 word \<Rightarrow> zus_iomap_build \<Rightarrow> unit result \<times> zus_iomap_build" where
  "zus_iom_enc_t2_read api t2_bn t1_val b = zus_iom_enc_t2_io api t2_bn t1_val IOM_T2_READ b"

definition zus_iom_enc_t2_zusmem_io :: "iom_api \<Rightarrow> 64 word \<Rightarrow> 64 word \<Rightarrow> 64 word \<Rightarrow> iom_type \<Rightarrow> zus_iomap_build \<Rightarrow>
    unit result \<times> zus_iomap_build" where
  "zus_iom_enc_t2_zusmem_io api t2_bn ptr len type b =
    (let i = cur_iom_e b; nxt = i + 8 * zm_words api in
     if end_iom_e b < nxt then (Inl ENOSPC, b)
     else
       let b = zus_iom_enc_type_val api (i div 8) type t2_bn b;
           b = put_word (i div 8 + zm_ptr_at api) ptr b;
           b = put_word (i div 8 + zm_len_at api) len b
       in (Inr (), b\<lparr>cur_iom_e := nxt\<rparr>))"

definition zus_iom_enc_t2_zusmem_write :: "iom_api \<Rightarrow> 64 word \<Rightarrow> 64 word \<Rightarrow> 64 word \<Rightarrow> zus_iomap_build \<Rightarrow> unit result \<times> zus_iomap_build" where
  "zus_iom_enc_t2_zusmem_write api t2_bn ptr len b = zus_iom_enc_t2_zusmem_io api t2_bn ptr len IOM_T2_ZUSMEM_WRITE b"

definition zus_iom_enc_t2_zusmem_read :: "iom_api \<Rightarrow> 64 word \<Rightarrow> 64 word \<Rightarrow> 64 word \<Rightarrow> zus_iomap_build \<Rightarrow> unit result \<times> zus_iomap_build" where
  "zus_iom_enc_t2_zusmem_read api t2_bn ptr len b = zus_iom_enc_t2_zusmem_io api t2_bn ptr len IOM_T2_ZUSMEM_READ b"

text \<open>The block number of a page fault: no check of the space before the write.\<close>

definition ziom_enc_t1_bn :: "iom_api \<Rightarrow> 64 word \<Rightarrow> nat \<Rightarrow> zus_iomap_build \<Rightarrow> bool \<times> zus_iomap_build" where
  "ziom_enc_t1_bn api bn pool b =
    (let i = cur_iom_e b;
         b = put_word (i div 8) (enc_bn api bn pool) (b\<lparr>cur_iom_e := i + 8\<rparr>);
         b = b\<lparr>ziom := (ziom b)\<lparr>iom_n := iom_n (ziom b) + 1\<rparr>\<rparr>
     in (cur_iom_e b < end_iom_e b, b))"

section \<open>Submission\<close>

text \<open>
  The results of the system calls of \<open>zus_alloc_exec_buff\<close>: a descriptor or a negative number, 0 or an error, the address of the mapping
  or none; \<open>err_open\<close> and \<open>err_mmap\<close> are the values of \<open>errno\<close>.
\<close>

record buff_env =
  r_open :: int
  err_open :: int
  r_ioctl :: int
  r_mmap :: "addr option"
  err_mmap :: int

definition alloc_buff_mmap :: "buff_env \<Rightarrow> fba \<Rightarrow> int \<times> fba" where
  "alloc_buff_mmap e f =
    (let f = f\<lparr>fba_ptr := r_mmap e\<rparr> in
     case r_mmap e of None \<Rightarrow> (- (if err_mmap e \<noteq> 0 then err_mmap e else 12), f) | Some _ \<Rightarrow> (0, f))"

definition fba_close :: "fba \<Rightarrow> fba" where
  "fba_close f = (if fba_fd f \<ge> 0 then f\<lparr>fba_fd := - 1\<rparr> else f)"

definition zus_alloc_exec_buff :: "buff_env \<Rightarrow> nat \<Rightarrow> fba \<Rightarrow> int \<times> fba" where
  "zus_alloc_exec_buff e max_bytes f =
    (let f = f\<lparr>fba_fd := r_open e\<rparr> in
     if r_open e < 0 then (- err_open e, f)
     else if r_ioctl e \<noteq> 0 then (r_ioctl e, fba_close f)
     else let (err, f) = alloc_buff_mmap e (f\<lparr>fba_size := max_bytes\<rparr>) in
       if err \<noteq> 0 then (err, fba_close f) else (0, f))"

definition init_g_fba :: "buff_env \<Rightarrow> fba \<Rightarrow> int \<times> fba" where
  "init_g_fba e f = (if fba_fd f \<noteq> 0 then (0, f) else zus_alloc_exec_buff e PAGE_SIZE f)"

text \<open>\<open>None\<close>: the header of the map would be written at an address that is none.\<close>

definition iomb_start :: "iom_api \<Rightarrow> buff_env \<Rightarrow> zus_iomap_build \<Rightarrow> fba \<Rightarrow> (int \<times> zus_iomap_build \<times> fba) run" where
  "iomb_start api e b f =
    (let (err, f) = init_g_fba e f; b = b\<lparr>iomb_err := err\<rparr> in
     if err \<noteq> 0 then Some (err, b, f)
     else do {
       _ \<leftarrow> fba_ptr f;
       Some (0, zus_iom_start (Some 1) (zus_iom_init_4_ioc_exec api (fba_fd f) PAGE_SIZE b), f) })"

text \<open>The result of the execution of a map in the kernel: the value of the call, \<open>hdr.err\<close>, \<open>errno\<close>. The flag says whether the callback ran.\<close>

record exec_res =
  x_ret :: int
  x_hdr_err :: int
  x_errno :: int

definition exec_err :: "exec_res \<Rightarrow> int" where
  "exec_err x = (if x_ret x \<noteq> 0 \<and> x_hdr_err x = 0 then - x_errno x else x_hdr_err x)"

definition zus_iom_ioc_exec_submit :: "iom_api \<Rightarrow> exec_res \<Rightarrow> bool \<Rightarrow> zus_iomap_build \<Rightarrow> bool \<times> zus_iomap_build" where
  "zus_iom_ioc_exec_submit api x sync b =
    (let b = zus_iom_end api b in (sync \<and> iomb_iomd b \<noteq> None, b\<lparr>iomb_err := exec_err x\<rparr>))"

section \<open>The device table on the second tier\<close>

definition zeroed_iomb :: "(nat \<Rightarrow> 64 word) \<Rightarrow> zus_iomap_build" where
  "zeroed_iomb mem = \<lparr>iomb_iomd = None, iomb_fd = 0, iomb_err = 0, cur_iom_e = 0, end_iom_e = 0, ziom = \<lparr>iom_max = 0, iom_n = 0, iom_e = mem\<rparr>\<rparr>"

text \<open>
  A map that goes to the kernel is recorded with the table in memory at that time. \<open>ptr\<close> is the address of the table, \<open>mem\<close> the old contents of
  the buffer. The index of the device is not used by the read.
\<close>

definition md_t2_mdt_read :: "iom_api \<Rightarrow> buff_env \<Rightarrow> exec_res \<Rightarrow> 64 word \<Rightarrow> (nat \<Rightarrow> 64 word) \<Rightarrow> nat \<Rightarrow> fba \<Rightarrow>
    (int \<times> zufs_iomap list \<times> fba) run" where
  "md_t2_mdt_read api e x ptr mem dev_index f = do {
     (err, b, f) \<leftarrow> iomb_start api e (zeroed_iomb mem) f;
     if err \<noteq> 0 then Some (err, [], f)
     else
       let b = snd (zus_iom_enc_t2_zusmem_read api 0 ptr (word_of_nat PAGE_SIZE) b);
           (_, b) = zus_iom_ioc_exec_submit api x True b
       in Some (iomb_err b, [ziom b], f) }"

fun mdt_write_loop :: "md_api \<Rightarrow> iom_api \<Rightarrow> buff_env \<Rightarrow> (nat \<Rightarrow> exec_res) \<Rightarrow> (nat \<Rightarrow> nat) \<Rightarrow> 64 word \<Rightarrow> nat \<Rightarrow> nat \<Rightarrow> zus_iomap_build \<Rightarrow>
    fba \<Rightarrow> md_dev_table \<Rightarrow> (int \<times> (zufs_iomap \<times> md_dev_table) list \<times> fba \<times> md_dev_table) run" where
  "mdt_write_loop md api e xs t2_offset ptr i 0 b f mdt = Some (iomb_err b, [], f, mdt)"
| "mdt_write_loop md api e xs t2_offset ptr i (Suc n) b f mdt = do {
     let bn = api_o2p md (t2_offset i);
     (err, b, f) \<leftarrow> iomb_start api e b f;
     if err \<noteq> 0 then Some (err, [], f, mdt)
     else do {
       let mdt = mdt\<lparr>s_dev_list := (s_dev_list mdt)\<lparr>id_index := int (t1_count (s_dev_list mdt) + i)\<rparr>\<rparr>;
       let mdt = mdt\<lparr>s_sum := md_calc_csum md mdt\<rparr>;
       let b = snd (zus_iom_enc_t2_zusmem_write api (word_of_nat bn) ptr (word_of_nat PAGE_SIZE) b);
       let b = snd (zus_iom_ioc_exec_submit api (xs i) True b);
       if iomb_err b \<noteq> 0 then Some (iomb_err b, [(ziom b, mdt)], f, mdt)
       else do {
         (r, sent, f, mdt') \<leftarrow> mdt_write_loop md api e xs t2_offset ptr (i + 1) n b f mdt;
         Some (r, (ziom b, mdt) # sent, f, mdt') } } }"

definition md_t2_mdt_write :: "md_api \<Rightarrow> iom_api \<Rightarrow> buff_env \<Rightarrow> (nat \<Rightarrow> exec_res) \<Rightarrow> (nat \<Rightarrow> nat) \<Rightarrow> 64 word \<Rightarrow> (nat \<Rightarrow> 64 word) \<Rightarrow> nat \<Rightarrow>
    fba \<Rightarrow> md_dev_table \<Rightarrow> (int \<times> (zufs_iomap \<times> md_dev_table) list \<times> fba \<times> md_dev_table) run" where
  "md_t2_mdt_write md api e xs t2_offset ptr mem nt2 f mdt = mdt_write_loop md api e xs t2_offset ptr 0 nt2 (zeroed_iomb mem) f mdt"

section \<open>A map is decoded to what was encoded\<close>

text \<open>The requests, the operation of each and the reader of the request at a position of a map.\<close>

datatype iom_req = Wbinv | Discard "64 word" "64 word" | Unmap "64 word" "64 word" "64 word" | T2_write "64 word" "64 word"
  | T2_read "64 word" "64 word" | Zusmem_write "64 word" "64 word" "64 word" | Zusmem_read "64 word" "64 word" "64 word"

fun encode_req :: "iom_api \<Rightarrow> iom_req \<Rightarrow> zus_iomap_build \<Rightarrow> unit result \<times> zus_iomap_build" where
  "encode_req api Wbinv b = zus_iom_enc_wbinv api b"
| "encode_req api (Discard t2_bn n) b = zus_iom_enc_discard api t2_bn n b"
| "encode_req api (Unmap index n ino) b = zus_iom_enc_unmap api index n ino b"
| "encode_req api (T2_write t2_bn t1) b = zus_iom_enc_t2_write api t2_bn t1 b"
| "encode_req api (T2_read t2_bn t1) b = zus_iom_enc_t2_read api t2_bn t1 b"
| "encode_req api (Zusmem_write t2_bn ptr len) b = zus_iom_enc_t2_zusmem_write api t2_bn ptr len b"
| "encode_req api (Zusmem_read t2_bn ptr len) b = zus_iom_enc_t2_zusmem_read api t2_bn ptr len b"

fun req_words :: "iom_api \<Rightarrow> iom_req \<Rightarrow> nat" where
  "req_words api Wbinv = 1"
| "req_words api (Discard _ _) = io_len_words api"
| "req_words api (Unmap _ _ _) = unmap_words api"
| "req_words api (T2_write _ _) = io_words api"
| "req_words api (T2_read _ _) = io_words api"
| "req_words api (Zusmem_write _ _ _) = zm_words api"
| "req_words api (Zusmem_read _ _ _) = zm_words api"

fun req_val :: "iom_req \<Rightarrow> 64 word" where
  "req_val Wbinv = 0"
| "req_val (Discard v _) = v"
| "req_val (Unmap v _ _) = v"
| "req_val (T2_write v _) = v"
| "req_val (T2_read v _) = v"
| "req_val (Zusmem_write v _ _) = v"
| "req_val (Zusmem_read v _ _) = v"

definition req_ok :: "iom_api \<Rightarrow> iom_req \<Rightarrow> bool" where
  "req_ok api r = (req_val r AND NOT (first_val_mask api) = 0)"

definition decode_req :: "iom_api \<Rightarrow> (nat \<Rightarrow> 64 word) \<Rightarrow> nat \<Rightarrow> iom_req option" where
  "decode_req api mem p =
    (let v = dec_val api (mem p) in
     case dec_type api (mem p) of
       IOM_END \<Rightarrow> None
     | IOM_WBINV \<Rightarrow> Some Wbinv
     | IOM_DISCARD \<Rightarrow> Some (Discard v (mem (p + io_len_num_pages api)))
     | IOM_UNMAP \<Rightarrow> Some (Unmap v (mem (p + unmap_n_at api)) (mem (p + unmap_ino_at api)))
     | IOM_T2_WRITE \<Rightarrow> Some (T2_write v (mem (p + io_t1_at api)))
     | IOM_T2_READ \<Rightarrow> Some (T2_read v (mem (p + io_t1_at api)))
     | IOM_T2_ZUSMEM_WRITE \<Rightarrow> Some (Zusmem_write v (mem (p + zm_ptr_at api)) (mem (p + zm_len_at api)))
     | IOM_T2_ZUSMEM_READ \<Rightarrow> Some (Zusmem_read v (mem (p + zm_ptr_at api)) (mem (p + zm_len_at api))))"

text \<open>The decoder reads requests up to the word \<open>n\<close>; each has a word at least, so \<open>n\<close> rounds are enough.\<close>

fun iom_decode :: "iom_api \<Rightarrow> (nat \<Rightarrow> 64 word) \<Rightarrow> nat \<Rightarrow> nat \<Rightarrow> nat \<Rightarrow> iom_req list option" where
  "iom_decode api mem n p 0 = (if p = n then Some [] else None)"
| "iom_decode api mem n p (Suc fuel) =
    (if p = n then Some []
     else if n < p then None
     else do {
       r \<leftarrow> decode_req api mem p;
       rs \<leftarrow> iom_decode api mem n (p + req_words api r) fuel;
       Some (r # rs) })"

definition iom_api_ok :: "iom_api \<Rightarrow> bool" where
  "iom_api_ok api =
    ((\<forall>type v. v AND NOT (first_val_mask api) = 0 \<longrightarrow>
        dec_type api (enc_type_val api type v) = type \<and> dec_val api (enc_type_val api type v) = v) \<and>
     0 < io_len_num_pages api \<and> io_len_num_pages api < io_len_words api \<and>
     0 < unmap_n_at api \<and> unmap_n_at api < unmap_words api \<and>
     0 < unmap_ino_at api \<and> unmap_ino_at api < unmap_words api \<and> unmap_n_at api \<noteq> unmap_ino_at api \<and>
     0 < io_t1_at api \<and> io_t1_at api < io_words api \<and>
     0 < zm_ptr_at api \<and> zm_ptr_at api < zm_words api \<and> 0 < zm_len_at api \<and> zm_len_at api < zm_words api \<and> zm_ptr_at api \<noteq> zm_len_at api)"

fun iom_run :: "iom_api \<Rightarrow> iom_req list \<Rightarrow> zus_iomap_build \<Rightarrow> iom_req list \<times> zus_iomap_build" where
  "iom_run api [] b = ([], b)"
| "iom_run api (r # rs) b =
    (let (x, b) = encode_req api r b; (acc, b) = iom_run api rs b
     in (if x = Inr () then r # acc else acc, b))"

text \<open>The requests that fit, each tried at the first free word of \<open>m\<close> words.\<close>

fun fitting :: "iom_api \<Rightarrow> nat \<Rightarrow> nat \<Rightarrow> iom_req list \<Rightarrow> iom_req list" where
  "fitting api m p [] = []"
| "fitting api m p (r # rs) =
    (if p + req_words api r \<le> m then r # fitting api m (p + req_words api r) rs else fitting api m p rs)"

lemma put_word_simps [simp]:
  "cur_iom_e (put_word i w b) = cur_iom_e b" "end_iom_e (put_word i w b) = end_iom_e b"
  "iom_e (ziom (put_word i w b)) = (iom_e (ziom b))(i := w)"
  "iomb_iomd (put_word i w b) = iomb_iomd b" "iomb_err (put_word i w b) = iomb_err b" "iomb_fd (put_word i w b) = iomb_fd b"
  "iom_n (ziom (put_word i w b)) = iom_n (ziom b)"
  by (simp_all add: put_word_def)

lemmas iom_enc_defs = zus_iom_enc_wbinv_def zus_iom_enc_discard_def zus_iom_enc_unmap_def zus_iom_enc_t2_write_def zus_iom_enc_t2_read_def
  zus_iom_enc_t2_io_def zus_iom_enc_t2_zusmem_write_def zus_iom_enc_t2_zusmem_read_def zus_iom_enc_t2_zusmem_io_def zus_iom_enc_type_val_def

lemma req_words_pos: "iom_api_ok api \<Longrightarrow> 0 < req_words api r"
  by (cases r) (auto simp: iom_api_ok_def)

lemma encode_req_full:
  assumes "cur_iom_e b = 8 * p" "end_iom_e b = 8 * m" "\<not> p + req_words api r \<le> m"
  shows "encode_req api r b = (Inl ENOSPC, b)"
  using assms by (cases r) (auto simp: iom_enc_defs Let_def)

lemma encode_req_fits:
  assumes "cur_iom_e b = 8 * p" "end_iom_e b = 8 * m" "p + req_words api r \<le> m"
  shows "\<exists>b'. encode_req api r b = (Inr (), b') \<and> cur_iom_e b' = 8 * (p + req_words api r) \<and> end_iom_e b' = 8 * m \<and>
    iomb_iomd b' = iomb_iomd b"
  using assms by (cases r) (auto simp: iom_enc_defs Let_def)

lemma encode_req_words:
  assumes "iom_api_ok api" "req_ok api r" "cur_iom_e b = 8 * p" "encode_req api r b = (Inr (), b')"
  shows "decode_req api (iom_e (ziom b')) p = Some r"
    and "j < p \<or> p + req_words api r \<le> j \<Longrightarrow> iom_e (ziom b') j = iom_e (ziom b) j"
  using assms
  by (cases r; auto simp: iom_enc_defs Let_def decode_req_def iom_api_ok_def req_ok_def split: if_splits)+

lemma decode_req_cong:
  assumes "iom_api_ok api" "decode_req api mem p = Some r" "\<And>j. p \<le> j \<Longrightarrow> j < p + req_words api r \<Longrightarrow> mem' j = mem j"
  shows "decode_req api mem' p = Some r"
proof -
  have "mem' p = mem p" using assms(3) [of p] req_words_pos [OF assms(1), of r] by simp
  then show ?thesis using assms by (auto simp: decode_req_def Let_def iom_api_ok_def split: iom_type.splits)
qed

lemma iom_decode_Cons:
  assumes "iom_api_ok api" "decode_req api mem p = Some r" "p + req_words api r \<le> n" "n - p \<le> fuel"
    and "\<And>fuel. n - (p + req_words api r) \<le> fuel \<Longrightarrow> iom_decode api mem n (p + req_words api r) fuel = Some rs"
  shows "iom_decode api mem n p fuel = Some (r # rs)"
proof -
  have w: "0 < req_words api r" by (rule req_words_pos [OF assms(1)])
  then obtain k where k: "fuel = Suc k" using assms(3,4) by (cases fuel) auto
  have "iom_decode api mem n (p + req_words api r) k = Some rs" using assms(4) w by (intro assms(5)) (simp add: k)
  then show ?thesis using assms(2,3) w by (simp add: k)
qed

lemma iom_run_correct:
  assumes "iom_api_ok api" "\<forall>r \<in> set rs. req_ok api r" "end_iom_e b = 8 * m"
  shows "cur_iom_e b = 8 * p \<Longrightarrow> p \<le> m \<Longrightarrow> iom_run api rs b = (acc, b') \<Longrightarrow>
    acc = fitting api m p rs \<and> end_iom_e b' = 8 * m \<and>
    (\<exists>q. cur_iom_e b' = 8 * q \<and> p \<le> q \<and> q \<le> m \<and> (\<forall>j. j < p \<or> q \<le> j \<longrightarrow> iom_e (ziom b') j = iom_e (ziom b) j) \<and>
      (\<forall>mem fuel. (\<forall>j. p \<le> j \<longrightarrow> j < q \<longrightarrow> mem j = iom_e (ziom b') j) \<longrightarrow> q - p \<le> fuel \<longrightarrow> iom_decode api mem q p fuel = Some acc))"
  using assms(2,3)
proof (induction rs arbitrary: p b acc)
  case Nil
  have "iom_decode api mem p p fuel = Some []" for mem fuel by (cases fuel) simp_all
  with Nil show ?case by auto
next
  case (Cons r rs)
  have rs: "\<forall>r \<in> set rs. req_ok api r" and r: "req_ok api r" using Cons.prems(4) by simp_all
  show ?case
  proof (cases "p + req_words api r \<le> m")
    case False
    with Cons.prems have "iom_run api rs b = (acc, b')" by (simp add: encode_req_full split: prod.splits)
    moreover have "fitting api m p (r # rs) = fitting api m p rs" using False by simp
    ultimately show ?thesis using Cons.IH [OF Cons.prems(1,2) _ rs Cons.prems(5)] by metis
  next
    case True
    let ?p = "p + req_words api r"
    obtain b1 where b1: "encode_req api r b = (Inr (), b1)" "cur_iom_e b1 = 8 * ?p" "end_iom_e b1 = 8 * m"
      using encode_req_fits [OF Cons.prems(1,5) True] by blast
    obtain acc1 where acc1: "iom_run api rs b1 = (acc1, b')" "acc = r # acc1"
      using Cons.prems(3) by (auto simp: b1(1) split: prod.splits)
    note words = encode_req_words [OF assms(1) r Cons.prems(1) b1(1)]
    from Cons.IH [OF b1(2) True acc1(1) rs b1(3)] obtain q where q: "acc1 = fitting api m ?p rs" "end_iom_e b' = 8 * m"
      "cur_iom_e b' = 8 * q" "?p \<le> q" "q \<le> m" "\<forall>j. j < ?p \<or> q \<le> j \<longrightarrow> iom_e (ziom b') j = iom_e (ziom b1) j"
      "\<forall>mem fuel. (\<forall>j. ?p \<le> j \<longrightarrow> j < q \<longrightarrow> mem j = iom_e (ziom b') j) \<longrightarrow> q - ?p \<le> fuel \<longrightarrow> iom_decode api mem q ?p fuel = Some acc1"
      by blast
    have "iom_e (ziom b') j = iom_e (ziom b) j" if "j < p \<or> q \<le> j" for j
      using that q(4,6) words(2) [of j] by auto
    moreover have "iom_decode api mem q p fuel = Some acc"
      if mem: "\<forall>j. p \<le> j \<longrightarrow> j < q \<longrightarrow> mem j = iom_e (ziom b') j" and fuel: "q - p \<le> fuel" for mem fuel
      unfolding acc1(2)
    proof (rule iom_decode_Cons [OF assms(1) _ q(4) fuel])
      show "decode_req api mem p = Some r"
        by (rule decode_req_cong [OF assms(1) words(1)]) (use mem q(4,6) in simp)
      show "iom_decode api mem q ?p k = Some acc1" if "q - ?p \<le> k" for k
        using q(7) mem that by auto
    qed
    ultimately show ?thesis using q(1-5) True acc1(2) by auto
  qed
qed

text \<open>
  C34. The words of a map decode to the requests that the encoder accepted, in their order, up to the count in the header, and the accepted requests
  are those that fit into the space left at their turn. A map that is not full ends with the terminator, and no word outside the buffer changes.
\<close>

theorem iom_roundtrip:
  assumes "iom_api_ok api" "\<forall>r \<in> set rs. req_ok api r" "end_iom_e b = 8 * m" "0 < m"
    and "iom_run api rs (zus_iom_start iomd b) = (acc, b')" and "z = ziom (zus_iom_end api b')"
  shows "iom_decode api (iom_e z) (iom_n z) 0 (iom_n z) = Some acc \<and> acc = fitting api m 0 rs \<and> iom_n z \<le> m \<and>
    (iom_n z < m \<longrightarrow> dec_type api (iom_e z (iom_n z)) = IOM_END) \<and> (\<forall>j \<ge> m. iom_e z j = iom_e (ziom b) j)"
proof -
  have "end_iom_e (zus_iom_start iomd b) = 8 * m" "cur_iom_e (zus_iom_start iomd b) = 8 * 0"
    using assms(3) by (simp_all add: zus_iom_start_def)
  from iom_run_correct [OF assms(1,2) this _ assms(5)] obtain q where q: "acc = fitting api m 0 rs" "end_iom_e b' = 8 * m"
    "cur_iom_e b' = 8 * q" "q \<le> m" "\<forall>j. q \<le> j \<longrightarrow> iom_e (ziom b') j = iom_e (ziom (zus_iom_start iomd b)) j"
    "\<forall>mem fuel. (\<forall>j. j < q \<longrightarrow> mem j = iom_e (ziom b') j) \<longrightarrow> q \<le> fuel \<longrightarrow> iom_decode api mem q 0 fuel = Some acc" by auto
  have z: "iom_n z = q" "iom_e z = (if q < m then (iom_e (ziom b'))(q := enc_type_val api IOM_END 0) else iom_e (ziom b'))"
    by (simp_all add: assms(6) zus_iom_end_def zus_iom_enc_type_val_def zus_iom_len_def q(2,3) Let_def)
  have "dec_type api (enc_type_val api IOM_END 0) = IOM_END" using assms(1) by (simp add: iom_api_ok_def)
  moreover have "iom_e (ziom (zus_iom_start iomd b)) j = iom_e (ziom b) j" if "m \<le> j" for j
    using that assms(4) by (simp add: zus_iom_start_def Let_def)
  ultimately show ?thesis using q z by auto
qed

text \<open>A sample layout: the type above the lower four bits of a word.\<close>

fun iom_code :: "iom_type \<Rightarrow> 64 word" where
  "iom_code IOM_END = 0"
| "iom_code IOM_WBINV = 1"
| "iom_code IOM_DISCARD = 2"
| "iom_code IOM_UNMAP = 3"
| "iom_code IOM_T2_WRITE = 4"
| "iom_code IOM_T2_READ = 5"
| "iom_code IOM_T2_ZUSMEM_WRITE = 6"
| "iom_code IOM_T2_ZUSMEM_READ = 7"

definition sample_iom_api :: iom_api where
  "sample_iom_api =
    \<lparr>enc_type_val = \<lambda>type v. push_bit 4 (iom_code type) OR v,
     dec_type = \<lambda>w. [IOM_END, IOM_WBINV, IOM_DISCARD, IOM_UNMAP, IOM_T2_WRITE, IOM_T2_READ, IOM_T2_ZUSMEM_WRITE, IOM_T2_ZUSMEM_READ]
       ! unat (drop_bit 4 w),
     dec_val = take_bit 4, first_val_mask = mask 4, enc_bn = \<lambda>bn pool. bn,
     io_len_words = 2, io_len_num_pages = 1, unmap_words = 3, unmap_n_at = 1, unmap_ino_at = 2, io_words = 2, io_t1_at = 1,
     zm_words = 3, zm_ptr_at = 1, zm_len_at = 2, exec_iom_e = 96, io_iom_e = 128\<rparr>"

lemma sample_iom_api_ok: "iom_api_ok sample_iom_api"
proof -
  have v: "take_bit 4 v = v" "drop_bit 4 v = 0" if "v AND NOT (mask 4) = 0" for v :: "64 word"
  proof -
    have "v = (v AND mask 4) OR (v AND NOT (mask 4))" by (auto simp: bit_eq_iff bit_simps)
    then show "take_bit 4 v = v" using that by (simp add: take_bit_eq_mask)
    then have "drop_bit 4 v = drop_bit 4 (take_bit 4 v)" by simp
    then show "drop_bit 4 v = 0" by (simp add: drop_bit_take_bit)
  qed
  have code: "drop_bit 4 (push_bit 4 (iom_code type)) = iom_code type" for type by (cases type) simp_all
  have "[IOM_END, IOM_WBINV, IOM_DISCARD, IOM_UNMAP, IOM_T2_WRITE, IOM_T2_READ, IOM_T2_ZUSMEM_WRITE, IOM_T2_ZUSMEM_READ] ! unat (iom_code type) = type"
    for type by (cases type) simp_all
  then show ?thesis using v
    by (simp add: iom_api_ok_def sample_iom_api_def drop_bit_or take_bit_or take_bit_push_bit code)
qed

theorem iom_roundtrip_witness:
  "\<exists>acc b'. iom_run sample_iom_api [Unmap 3 1 9, Wbinv, T2_read 5 77, Wbinv] (zus_iom_start None ((zeroed_iomb (\<lambda>_. 0))\<lparr>end_iom_e := 40\<rparr>)) = (acc, b') \<and>
    acc = [Unmap 3 1 9, Wbinv, Wbinv] \<and>
    iom_decode sample_iom_api (iom_e (ziom (zus_iom_end sample_iom_api b'))) (iom_n (ziom (zus_iom_end sample_iom_api b'))) 0
      (iom_n (ziom (zus_iom_end sample_iom_api b'))) = Some acc"
proof -
  let ?rs = "[Unmap 3 1 9, Wbinv, T2_read 5 77, Wbinv]" and ?b = "(zeroed_iomb (\<lambda>_. 0))\<lparr>end_iom_e := 40\<rparr>"
  obtain acc b' where run: "iom_run sample_iom_api ?rs (zus_iom_start None ?b) = (acc, b')" by force
  have "\<forall>r \<in> set ?rs. req_ok sample_iom_api r" by (simp add: req_ok_def sample_iom_api_def mask_eq_exp_minus_1)
  from iom_roundtrip [OF sample_iom_api_ok this _ _ run refl, of 5]
  have "iom_decode sample_iom_api (iom_e (ziom (zus_iom_end sample_iom_api b'))) (iom_n (ziom (zus_iom_end sample_iom_api b'))) 0
      (iom_n (ziom (zus_iom_end sample_iom_api b'))) = Some acc" "acc = fitting sample_iom_api 5 0 ?rs" by simp_all
  moreover have "fitting sample_iom_api 5 0 ?rs = [Unmap 3 1 9, Wbinv, Wbinv]" by (simp add: sample_iom_api_def)
  ultimately show ?thesis using run by auto
qed

section \<open>The device table reaches every device of the second tier\<close>

text \<open>
  The bytes under the checksum start behind \<open>s_sum\<close>; the buffer of a page has room for one entry.
\<close>

definition exec_api_ok :: "md_api \<Rightarrow> iom_api \<Rightarrow> bool" where
  "exec_api_ok md api =
    (iom_api_ok api \<and> (\<forall>mdt x. csum_bytes md (mdt\<lparr>s_sum := x\<rparr>) = csum_bytes md mdt) \<and>
     exec_iom_e api mod 8 = 0 \<and> exec_iom_e api + 8 * zm_words api \<le> PAGE_SIZE)"

text \<open>\<open>buffered f\<close>: the buffer exists, and so no call of the system is made for it.\<close>

definition buffered :: "fba \<Rightarrow> bool" where
  "buffered f = (fba_fd f \<noteq> 0 \<and> fba_ptr f \<noteq> None)"

lemma one_entry:
  assumes ok: "exec_api_ok md api" and r: "req_ok api r" "req_words api r = zm_words api"
    and b: "b1 = zus_iom_start iomd (zus_iom_init_4_ioc_exec api fd PAGE_SIZE b)"
  shows "iom_decode api (iom_e (ziom (zus_iom_end api (snd (encode_req api r b1))))) (zm_words api) 0 (zm_words api) = Some [r]"
    and "iom_n (ziom (zus_iom_end api (snd (encode_req api r b1)))) = zm_words api"
proof -
  define m where "m = (PAGE_SIZE - exec_iom_e api) div 8"
  have api: "iom_api_ok api" using ok by (simp add: exec_api_ok_def)
  have e: "exec_iom_e api mod 8 = 0" "exec_iom_e api + 8 * zm_words api \<le> 4096" using ok by (simp_all add: exec_api_ok_def)
  have "PAGE_SIZE - exec_iom_e api = 8 * m" using e unfolding m_def by presburger
  moreover have "zm_words api \<le> m" using e unfolding m_def by presburger
  ultimately have m: "PAGE_SIZE - exec_iom_e api = 8 * m" "zm_words api \<le> m" by simp_all
  from m have b1: "cur_iom_e b1 = 8 * 0" "end_iom_e b1 = 8 * m" "0 + req_words api r \<le> m"
    using r(2) by (simp_all add: b zus_iom_start_def zus_iom_init_4_ioc_exec_def zus_iom_common_init_def Let_def)
  from encode_req_fits [OF this] obtain b2 where b2: "encode_req api r b1 = (Inr (), b2)" "cur_iom_e b2 = 8 * zm_words api"
    using r(2) by auto
  let ?z = "ziom (zus_iom_end api b2)"
  have n: "iom_n ?z = zm_words api" by (simp add: zus_iom_end_def zus_iom_len_def zus_iom_enc_type_val_def b2(2) Let_def)
  then show "iom_n (ziom (zus_iom_end api (snd (encode_req api r b1)))) = zm_words api" by (simp add: b2(1))
  have "decode_req api (iom_e ?z) 0 = Some r"
  proof (rule decode_req_cong [OF api encode_req_words(1) [OF api r(1) b1(1) b2(1)]])
    fix j assume "j < 0 + req_words api r"
    then show "iom_e ?z j = iom_e (ziom b2) j"
      using r(2) by (simp add: zus_iom_end_def zus_iom_enc_type_val_def b2(2) Let_def)
  qed
  moreover have "iom_decode api (iom_e ?z) (zm_words api) (zm_words api) fuel = Some []" for fuel by (cases fuel) simp_all
  ultimately have "iom_decode api (iom_e ?z) (zm_words api) 0 (zm_words api) = Some [r]"
    using r(2) by (intro iom_decode_Cons [OF api]) simp_all
  then show "iom_decode api (iom_e (ziom (zus_iom_end api (snd (encode_req api r b1))))) (zm_words api) 0 (zm_words api) = Some [r]"
    by (simp add: b2(1))
qed

text \<open>What the kernel gets for the device \<open>i\<close>: a write of the page at the block of the device, while the table names the device and has the right sum.\<close>

definition table_sent :: "md_api \<Rightarrow> iom_api \<Rightarrow> (nat \<Rightarrow> nat) \<Rightarrow> 64 word \<Rightarrow> nat \<Rightarrow> zufs_iomap \<times> md_dev_table \<Rightarrow> bool" where
  "table_sent md api t2_offset ptr i s = (case s of (z, mdt) \<Rightarrow>
    iom_decode api (iom_e z) (iom_n z) 0 (iom_n z) = Some [Zusmem_write (word_of_nat (api_o2p md (t2_offset i))) ptr (word_of_nat PAGE_SIZE)] \<and>
    id_index (s_dev_list mdt) = int (t1_count (s_dev_list mdt) + i) \<and> \<not> csum_mismatch md mdt)"

lemma iomb_start_buffered:
  assumes "buffered f"
  shows "iomb_start api e b f = Some (0, zus_iom_start (Some 1) (zus_iom_init_4_ioc_exec api (fba_fd f) PAGE_SIZE (b\<lparr>iomb_err := 0\<rparr>)), f)"
  using assms by (auto simp: iomb_start_def init_g_fba_def buffered_def)

text \<open>The outcome of \<open>n\<close> submissions: all succeed, or the first failing one ends the loop with its error.\<close>

definition submissions :: "(nat \<Rightarrow> exec_res) \<Rightarrow> nat \<Rightarrow> nat \<Rightarrow> int \<Rightarrow> nat \<Rightarrow> bool" where
  "submissions xs i n err k =
    (if err = 0 then k = n \<and> (\<forall>j < n. exec_err (xs (i + j)) = 0)
     else 0 < k \<and> k \<le> n \<and> exec_err (xs (i + k - 1)) = err \<and> (\<forall>j < k - 1. exec_err (xs (i + j)) = 0))"

lemma submissions_Suc:
  assumes "exec_err (xs i) = 0" "submissions xs (i + 1) n err k"
  shows "submissions xs i (Suc n) err (Suc k)"
proof -
  have all: "\<forall>j < Suc m. exec_err (xs (i + j)) = 0" if "\<forall>j < m. exec_err (xs (i + 1 + j)) = 0" for m
    using that assms(1) by (auto simp: less_Suc_eq_0_disj)
  show ?thesis
  proof (cases "err = 0")
    case True
    then show ?thesis using assms(2) all [of n] by (simp add: submissions_def)
  next
    case False
    then obtain m where "k = Suc m" using assms(2) by (cases k) (auto simp: submissions_def)
    then show ?thesis using False assms(2) all [of m] by (simp add: submissions_def)
  qed
qed

lemma mdt_write_loop_sends:
  assumes ok: "exec_api_ok md api" "buffered f"
  shows "iomb_err b = 0 \<Longrightarrow> \<forall>j < n. word_of_nat (api_o2p md (t2_offset (i + j))) AND NOT (first_val_mask api) = 0 \<Longrightarrow>
    \<exists>err sent mdt'. mdt_write_loop md api e xs t2_offset ptr i n b f mdt = Some (err, sent, f, mdt') \<and> submissions xs i n err (length sent) \<and>
    (\<forall>j < length sent. table_sent md api t2_offset ptr (i + j) (sent ! j))"
proof (induction n arbitrary: i b mdt)
  case 0
  then show ?case by (simp add: submissions_def)
next
  case (Suc n)
  define mdt1 where "mdt1 = mdt\<lparr>s_dev_list := (s_dev_list mdt)\<lparr>id_index := int (t1_count (s_dev_list mdt) + i)\<rparr>\<rparr>"
  define mdt2 where "mdt2 = mdt1\<lparr>s_sum := md_calc_csum md mdt1\<rparr>"
  define r where "r = Zusmem_write (word_of_nat (api_o2p md (t2_offset i))) ptr (word_of_nat PAGE_SIZE)"
  define b1 where "b1 = zus_iom_start (Some 1) (zus_iom_init_4_ioc_exec api (fba_fd f) PAGE_SIZE (b\<lparr>iomb_err := 0\<rparr>))"
  define b2 where "b2 = snd (zus_iom_ioc_exec_submit api (xs i) True (snd (encode_req api r b1)))"
  have "req_ok api r" using Suc.prems(2) [rule_format, of 0] by (simp add: r_def req_ok_def)
  note one = one_entry [OF ok(1) this _ b1_def]
  have z: "ziom b2 = ziom (zus_iom_end api (snd (encode_req api r b1)))" "iomb_err b2 = exec_err (xs i)"
    by (simp_all add: b2_def zus_iom_ioc_exec_submit_def Let_def)
  have "md_calc_csum md mdt2 = md_calc_csum md mdt1" using ok(1) by (simp add: mdt2_def md_calc_csum_def exec_api_ok_def)
  then have sent: "table_sent md api t2_offset ptr i (ziom b2, mdt2)"
    using one by (simp add: table_sent_def z(1) r_def csum_mismatch_def mdt2_def mdt1_def)
  have loop: "mdt_write_loop md api e xs t2_offset ptr i (Suc n) b f mdt =
      (if exec_err (xs i) \<noteq> 0 then Some (exec_err (xs i), [(ziom b2, mdt2)], f, mdt2)
       else do { (err, rest, f, mdt') \<leftarrow> mdt_write_loop md api e xs t2_offset ptr (i + 1) n b2 f mdt2; Some (err, (ziom b2, mdt2) # rest, f, mdt') })"
    using z(2) iomb_start_buffered [OF ok(2), of api e b] by (simp add: b1_def b2_def r_def mdt1_def mdt2_def Let_def)
  show ?case
  proof (cases "exec_err (xs i) = 0")
    case True
    have "\<forall>j < n. word_of_nat (api_o2p md (t2_offset (i + 1 + j))) AND NOT (first_val_mask api) = 0"
      using Suc.prems(2) by (auto dest: spec [of _ "Suc _"])
    then obtain err rest mdt' where rest: "mdt_write_loop md api e xs t2_offset ptr (i + 1) n b2 f mdt2 = Some (err, rest, f, mdt')"
      "submissions xs (i + 1) n err (length rest)" "\<forall>j < length rest. table_sent md api t2_offset ptr (i + 1 + j) (rest ! j)"
      using Suc.IH [of b2 "i + 1" mdt2] z(2) True by auto
    have "\<forall>j < Suc (length rest). table_sent md api t2_offset ptr (i + j) (((ziom b2, mdt2) # rest) ! j)"
      using sent rest(3) by (auto simp: less_Suc_eq_0_disj)
    moreover have "mdt_write_loop md api e xs t2_offset ptr i (Suc n) b f mdt = Some (err, (ziom b2, mdt2) # rest, f, mdt')"
      unfolding loop using rest(1) True by simp
    ultimately show ?thesis using submissions_Suc [OF True rest(2)] by (metis length_Cons)
  next
    case False
    then have "mdt_write_loop md api e xs t2_offset ptr i (Suc n) b f mdt = Some (exec_err (xs i), [(ziom b2, mdt2)], f, mdt2)"
      unfolding loop by simp
    moreover have "submissions xs i (Suc n) (exec_err (xs i)) (length [(ziom b2, mdt2)])" using False by (simp add: submissions_def)
    ultimately show ?thesis using sent by (metis add_0_right length_Cons less_Suc0 list.size(3) nth_Cons_0)
  qed
qed

text \<open>
  C35. When the buffer exists, \<open>md_t2_mdt_write\<close> sends the table to the devices of the second tier one after the other: each gets a page at its own
  first block, while the table names this device and has a right checksum. The first failing submission ends the loop with its
  error, otherwise all devices are reached and the result is 0.
\<close>

theorem md_t2_mdt_write_correct:
  assumes "exec_api_ok md api" "buffered f"
    and "\<forall>j < n. word_of_nat (api_o2p md (t2_offset j)) AND NOT (first_val_mask api) = 0"
  shows "\<exists>err sent mdt'. md_t2_mdt_write md api e xs t2_offset ptr mem n f mdt = Some (err, sent, f, mdt') \<and>
    submissions xs 0 n err (length sent) \<and> (\<forall>j < length sent. table_sent md api t2_offset ptr j (sent ! j))"
  using mdt_write_loop_sends [OF assms(1,2), of "zeroed_iomb mem" n t2_offset 0 e xs ptr mdt] assms(3)
  by (simp add: md_t2_mdt_write_def zeroed_iomb_def)

theorem md_t2_mdt_write_correct_witness:
  "\<exists>err sent mdt'. md_t2_mdt_write sample_api sample_iom_api \<lparr>r_open = - 1, err_open = 24, r_ioctl = 0, r_mmap = None, err_mmap = 0\<rparr>
      (\<lambda>i. \<lparr>x_ret = 0, x_hdr_err = (if i = 0 then 0 else - 5), x_errno = 0\<rparr>) (\<lambda>i. i * 40960) 4096 (\<lambda>_. 7) 2
      \<lparr>fba_fd = 3, fba_ptr = Some 8192, fba_size = PAGE_SIZE, fba_orig_ptr = None\<rparr> sample_mdt =
        Some (err, sent, \<lparr>fba_fd = 3, fba_ptr = Some 8192, fba_size = PAGE_SIZE, fba_orig_ptr = None\<rparr>, mdt') \<and>
    submissions (\<lambda>i. \<lparr>x_ret = 0, x_hdr_err = (if i = 0 then 0 else - 5), x_errno = 0\<rparr>) 0 2 err (length sent) \<and>
    (\<forall>j < length sent. table_sent sample_api sample_iom_api (\<lambda>i. i * 40960) 4096 j (sent ! j))"
proof (rule md_t2_mdt_write_correct)
  show "exec_api_ok sample_api sample_iom_api"
    using sample_iom_api_ok by (simp add: exec_api_ok_def sample_api_def sample_iom_api_def)
  show "buffered \<lparr>fba_fd = 3, fba_ptr = Some 8192, fba_size = PAGE_SIZE, fba_orig_ptr = None\<rparr>" by (simp add: buffered_def)
  show "\<forall>j < 2. word_of_nat (api_o2p sample_api (j * 40960)) AND NOT (first_val_mask sample_iom_api) = 0"
    by (auto simp: sample_api_def sample_iom_api_def mask_eq_exp_minus_1 numeral_2_eq_2 less_Suc_eq)
qed

text \<open>
  A failure of the first allocation of the buffer is reported once. It leaves a descriptor of -1, which \<open>_init_g_fba\<close> takes for a buffer: the next
  start of a map writes to an address that is none.
\<close>

theorem failed_buffer_sticks:
  assumes "init_g_fba e f = (err, f')" "err \<noteq> 0" "fba_ptr f = None" "fba_fd f = 0"
  shows "init_g_fba e' f' = (0, f')" and "iomb_start api e' b f' = None"
  using assms by (auto simp: init_g_fba_def iomb_start_def zus_alloc_exec_buff_def alloc_buff_mmap_def fba_close_def Let_def
      split: if_splits option.splits prod.splits)

end
