(* ===== verification/ToyMmap.thy ===== *)
theory ToyMmap
  imports FileClone IomEnc
begin

text \<open>
  The page faults of a mapped file (\<open>mmap.c\<close>): \<open>toyfs_get_put_multy\<close> answers with an I/O map of one block number. A read fault names the block of
  the page or 0 for a hole, a write fault allocates a block for a hole.
\<close>

section \<open>Operations\<close>

text \<open>
  The constants of \<open>zus_api.h\<close>: the flags of a mapping and of a new block, the size of a request with \<open>n\<close> words, the size of the buffer
  of a request.
\<close>

record mmap_api =
  zufs_rw_mmap :: "64 word"
  zufs_ret_new :: "32 word"
  ioc_IO_size :: "nat \<Rightarrow> nat"
  zus_max_op_size :: nat

text \<open>The part of a request that the answer changes.\<close>

record get_block =
  gb_get :: bool                  \<comment> \<open>\<open>hdr.operation == ZUFS_OP_GET_MULTY\<close>\<close>
  gb_rw :: "64 word"
  gb_filepos :: nat
  gb_ziom :: zufs_iomap
  gb_ret_flags :: "32 word"
  gb_out_len :: nat

abbreviation (input) GB_WRITE :: "64 word" where "GB_WRITE \<equiv> 1"

definition resolve_bn :: "addr option \<Rightarrow> toyfs_sb_info \<Rightarrow> nat" where
  "resolve_bn pmemb s = (case pmemb of Some p \<Rightarrow> toyfs_addr2bn s p | None \<Rightarrow> 0)"

text \<open>The map of the request when its encoder has been initialised, and the sequence of encoder calls that each branch makes.\<close>

definition begin_block :: "iom_api \<Rightarrow> mmap_api \<Rightarrow> get_block \<Rightarrow> zus_iomap_build" where
  "begin_block api mapi io =
    zus_iom_init_4_ioc_io api (zus_max_op_size mapi) ((zeroed_iomb (iom_e (gb_ziom io)))\<lparr>ziom := gb_ziom io\<rparr>)"

definition encode_block :: "iom_api \<Rightarrow> mmap_api \<Rightarrow> nat \<Rightarrow> 32 word \<Rightarrow> zus_iomap_build \<Rightarrow> get_block \<Rightarrow> get_block" where
  "encode_block api mapi bn flags b io =
    (let b = zus_iom_start None b;
         b = snd (ziom_enc_t1_bn api (word_of_nat bn) 0 b);
         b = zus_iom_end api b
     in io\<lparr>gb_ziom := ziom b, gb_ret_flags := flags, gb_out_len := ioc_IO_size mapi 1\<rparr>)"

definition get_block_rd :: "iom_api \<Rightarrow> mmap_api \<Rightarrow> addr \<Rightarrow> int \<Rightarrow> get_block \<Rightarrow> toyfs_sb_info \<Rightarrow>
    (unit result \<times> get_block \<times> toyfs_sb_info) run" where
  "get_block_rd api mapi ti off io s = do {
     let b = begin_block api mapi io;
     pmemb \<leftarrow> toyfs_resolve_pmemb ti off s;
     Some (Inr (), encode_block api mapi (resolve_bn pmemb s) 0 b io, s) }"

text \<open>Without a block the request goes back with its map initialised.\<close>

definition get_block_wr :: "iom_api \<Rightarrow> mmap_api \<Rightarrow> addr \<Rightarrow> int \<Rightarrow> get_block \<Rightarrow> toyfs_sb_info \<Rightarrow>
    (unit result \<times> get_block \<times> toyfs_sb_info) run" where
  "get_block_wr api mapi ti off io s = do {
     let b = begin_block api mapi io;
     let io1 = io\<lparr>gb_ziom := ziom b\<rparr>;
     pmemb \<leftarrow> toyfs_resolve_pmemb ti off s;
     if pmemb \<noteq> None then Some (Inr (), encode_block api mapi (resolve_bn pmemb s) 0 b io1, s)
     else do {
       (pmem_bn, s) \<leftarrow> toyfs_require_pmem_bn ti off s;
       if pmem_bn \<noteq> 0 then Some (Inr (), encode_block api mapi pmem_bn (zufs_ret_new mapi) b io1, s)
       else Some (Inl ENOSPC, io1, s) } }"

definition get_multy :: "iom_api \<Rightarrow> mmap_api \<Rightarrow> addr option \<Rightarrow> get_block \<Rightarrow> toyfs_sb_info \<Rightarrow>
    (unit result \<times> get_block \<times> toyfs_sb_info) run" where
  "get_multy api mapi zii io s = do {
     ti \<leftarrow> zii_inode s zii;
     let off = cast_loff (gb_filepos io);
     if \<not> zi_isreg (h_inode s ti) then Some (Inl ENOTSUP, io, s)
     else if gb_rw io AND zufs_rw_mmap mapi = 0 then Some (Inl ENOTSUP, io, s)
     else if gb_rw io AND GB_WRITE \<noteq> 0 then get_block_wr api mapi ti off io s
     else get_block_rd api mapi ti off io s }"

definition put_multy :: "mmap_api \<Rightarrow> addr option \<Rightarrow> get_block \<Rightarrow> toyfs_sb_info \<Rightarrow> (unit result \<times> get_block \<times> toyfs_sb_info) run" where
  "put_multy mapi zii io s = do {
     _ \<leftarrow> zii_inode s zii;
     if gb_rw io AND zufs_rw_mmap mapi = 0 then Some (Inl ENOTSUP, io, s) else Some (Inr (), io, s) }"

definition toyfs_get_put_multy :: "iom_api \<Rightarrow> mmap_api \<Rightarrow> addr option \<Rightarrow> get_block \<Rightarrow> toyfs_sb_info \<Rightarrow>
    (unit result \<times> get_block \<times> toyfs_sb_info) run" where
  "toyfs_get_put_multy api mapi zii io s = (if gb_get io then get_multy api mapi zii io s else put_multy mapi zii io s)"

definition toyfs_mmap_close :: "addr option \<Rightarrow> toyfs_sb_info \<Rightarrow> (unit result \<times> toyfs_sb_info) run" where
  "toyfs_mmap_close zii s = do { _ \<leftarrow> zii_inode s zii; Some (Inr (), s) }"

section \<open>The page that a fault maps has the contents of the file\<close>

text \<open>The answer is a map of one block: 0 for a page that is a hole, or the block whose page has the bytes of the file.\<close>

definition maps_page :: "iom_api \<Rightarrow> toyfs_sb_info \<Rightarrow> addr \<Rightarrow> int \<Rightarrow> nat \<Rightarrow> get_block \<Rightarrow> bool" where
  "maps_page api s t off bn io =
    (iom_n (gb_ziom io) = 1 \<and> iom_e (gb_ziom io) 0 = enc_bn api (word_of_nat bn) 0 \<and>
     (\<forall>i < PAGE_SIZE. content s t (off_to_boff off + int i) = (if bn = 0 then 0 else h_dat s (toyfs_bn2pmemb s bn) i)))"

lemma encode_block_map:
  "iom_n (gb_ziom (encode_block api mapi bn flags b io)) = 1"
  "iom_e (gb_ziom (encode_block api mapi bn flags b io)) 0 = enc_bn api (word_of_nat bn) 0"
  "gb_ret_flags (encode_block api mapi bn flags b io) = flags"
  by (simp_all add: encode_block_def Let_def zus_iom_end_def zus_iom_len_def ziom_enc_t1_bn_def zus_iom_start_def zus_iom_enc_type_val_def)

lemma page_bytes:
  assumes "0 \<le> off" "i < PAGE_SIZE"
  shows "content s t (off_to_boff off + int i) =
    (case fetch_iblkref t off s of None \<Rightarrow> 0 | Some ib \<Rightarrow> h_dat s (dpage s (the (ib_dblkref (h_iblkref s ib)))) i)"
proof -
  have b: "off_to_boff off = off - off mod 4096" using assms(1) by (rule off_arith(1))
  have b0: "0 \<le> off_to_boff off" "off_to_boff off mod 4096 = 0" using assms(1) by (simp_all add: b zmod_le_nonneg_dividend)
  have "off_to_boff (off_to_boff off) = off_to_boff off" using off_arith(1) [OF b0(1)] b0(2) by simp
  then have "fetch_iblkref t (off_to_boff off) s = fetch_iblkref t off s" by (simp add: fetch_iblkref_def)
  then show ?thesis using page_content [OF b0(1), of PAGE_SIZE i s t] b0(2) assms(2)
    by (simp del: mod_eq_0_iff_dvd split: option.splits)
qed

lemma mapped_block:
  assumes ok: "fs_ok N X F s" "t \<in> F" "0 \<le> off" and f: "fetch_iblkref t off s = Some ib"
  obtains d where "ib_dblkref (h_iblkref s ib) = Some d" "toyfs_bn2pmemb s (toyfs_addr2bn s (dpage s d)) = dpage s d"
    "toyfs_addr2bn s (dpage s d) \<noteq> 0" "\<exists>c. dpage s d = md_baddr (s_md s) (c + 2)"
proof -
  from ok(1) obtain D B I where pool: "pool_inv D B I N s" and inv: "blocks_inv D B I N X F s" by (auto simp: fs_ok_def)
  obtain d where d: "ib_dblkref (h_iblkref s ib) = Some d" "dpage s d \<in> D"
    using blocks_ibD [OF inv ok(2) fetch_SomeD [OF f, THEN conjunct1]] by blast
  obtain c where "md_baddr (s_md s) (c + 2) = dpage s d" by (rule data_page_cell [OF pool d(2)])
  then show ?thesis using that [OF d(1)] bn2pmemb_addr2bn [OF pool d(2)] addr2bn_not_0 [OF pool d(2)] by metis
qed

lemma get_block_rd_page:
  assumes "fs_ok N X F s" "t \<in> F" "0 \<le> off"
  shows "\<exists>bn io'. get_block_rd api mapi t off io s = Some (Inr (), io', s) \<and> maps_page api s t off bn io' \<and> gb_ret_flags io' = 0 \<and>
    (bn = 0 \<longleftrightarrow> fetch_iblkref t off s = None)"
proof (cases "fetch_iblkref t off s")
  case None
  then show ?thesis using fetch_pmemb_ok [OF assms(1,2), of off] page_bytes [OF assms(3), of _ s t]
    by (intro exI [of _ 0]) (simp add: get_block_rd_def toyfs_resolve_pmemb_def resolve_bn_def maps_page_def encode_block_map)
next
  case (Some ib)
  obtain d where d: "ib_dblkref (h_iblkref s ib) = Some d" "toyfs_bn2pmemb s (toyfs_addr2bn s (dpage s d)) = dpage s d"
    "toyfs_addr2bn s (dpage s d) \<noteq> 0" by (rule mapped_block [OF assms Some])
  then show ?thesis using Some fetch_pmemb_ok [OF assms(1,2), of off] page_bytes [OF assms(3), of _ s t]
    by (intro exI [of _ "toyfs_addr2bn s (dpage s d)"])
      (simp add: get_block_rd_def toyfs_resolve_pmemb_def resolve_bn_def maps_page_def encode_block_map)
qed

text \<open>
  What is left of a request that is refused: its map is empty and has the room of a request, everything else is as it was.
\<close>

definition refused :: "iom_api \<Rightarrow> mmap_api \<Rightarrow> get_block \<Rightarrow> get_block" where
  "refused api mapi io = io\<lparr>gb_ziom := (gb_ziom io)\<lparr>iom_max := (zus_max_op_size mapi - io_iom_e api) div 8, iom_n := 0\<rparr>\<rparr>"

lemma begin_refused: "io\<lparr>gb_ziom := ziom (begin_block api mapi io)\<rparr> = refused api mapi io"
  by (simp add: begin_block_def refused_def zus_iom_init_4_ioc_io_def zus_iom_common_init_def)

text \<open>Block 0 has an address of its own: the number 0 never stands for a data page.\<close>

definition block_0_apart :: "toyfs_sb_info \<Rightarrow> bool" where
  "block_0_apart s = (\<forall>b. b \<noteq> 0 \<longrightarrow> md_baddr (s_md s) b \<noteq> md_baddr (s_md s) 0)"

lemma get_block_wr_page:
  assumes ok: "fs_ok N X F s" "t \<in> F" "0 \<le> off" and b0: "block_0_apart s"
  shows "\<exists>r io' s'. get_block_wr api mapi t off io s = Some (r, io', s') \<and> fs_ok N X F s' \<and> same_files X F s s' \<and>
    (case r of Inl e \<Rightarrow> e = ENOSPC \<and> io' = refused api mapi io \<and> fetch_iblkref t off s = None
     | Inr _ \<Rightarrow> \<exists>bn. bn \<noteq> 0 \<and> maps_page api s' t off bn io' \<and>
         (if fetch_iblkref t off s = None then gb_ret_flags io' = zufs_ret_new mapi else gb_ret_flags io' = 0 \<and> s' = s))"
proof (cases "fetch_iblkref t off s")
  case None
  have res: "toyfs_resolve_pmemb t off s = Some None"
    using None fetch_pmemb_ok [OF ok(1,2), of off] by (simp add: toyfs_resolve_pmemb_def)
  obtain r s' where req: "require_iblkref t off s = Some (r, s')" "fs_ok N X F s'" "same_files X F s s'"
    "\<forall>ib. r = Some ib \<longrightarrow> fetch_iblkref t off s' = Some ib" using require_spec [OF ok] by blast
  show ?thesis
  proof (cases r)
    case None
    then show ?thesis using req(1-3) res \<open>fetch_iblkref t off s = None\<close>
      by (simp add: get_block_wr_def toyfs_require_pmem_bn_def Let_def begin_refused)
  next
    case (Some ib)
    then have f: "fetch_iblkref t off s' = Some ib" using req(4) by simp
    obtain d where d: "ib_dblkref (h_iblkref s' ib) = Some d" "\<exists>c. dpage s' d = md_baddr (s_md s') (c + 2)"
      by (rule mapped_block [OF req(2) ok(2,3) f])
    let ?bn = "db_bn (h_dblkref s' d)" and ?io = "io\<lparr>gb_ziom := ziom (begin_block api mapi io)\<rparr>"
    have "s_md s' = s_md s" using req(3) by (simp add: same_files_def)
    then obtain c where "md_baddr (s_md s) ?bn = md_baddr (s_md s) (c + 2)"
      using d(2) by (auto simp: dpage_def toyfs_bn2pmemb_def toyfs_bn2addr_def)
    moreover have "md_baddr (s_md s) (c + 2) \<noteq> md_baddr (s_md s) 0" for c using b0 unfolding block_0_apart_def by simp
    ultimately have bn: "?bn \<noteq> 0" by metis
    have run: "get_block_wr api mapi t off io s = Some (Inr (), encode_block api mapi ?bn (zufs_ret_new mapi) (begin_block api mapi io) ?io, s')"
      using res req(1) Some d(1) bn by (simp add: get_block_wr_def toyfs_require_pmem_bn_def Let_def)
    have "maps_page api s' t off ?bn (encode_block api mapi ?bn (zufs_ret_new mapi) (begin_block api mapi io) ?io)"
      using page_bytes [OF ok(3), of _ s' t] f d(1) bn by (simp add: maps_page_def encode_block_map dpage_def)
    then show ?thesis using run req(2,3) bn \<open>fetch_iblkref t off s = None\<close> by (auto simp: encode_block_map)
  qed
next
  case (Some ib)
  then have "get_block_wr api mapi t off io s = get_block_rd api mapi t off io s"
    using fetch_pmemb_ok [OF ok(1,2), of off] by (simp add: get_block_wr_def get_block_rd_def toyfs_resolve_pmemb_def encode_block_def Let_def)
  then show ?thesis using get_block_rd_page [OF ok, of api mapi io] Some ok(1) by auto
qed

text \<open>
  C36. A page fault of a regular file is answered with one block number. The answer to a read fault is 0 exactly for a hole, and otherwise the block whose page
  has the bytes of the file; nothing changes. A write fault is answered with a block that has the bytes of the file, a new one for a hole, or
  with \<open>ENOSPC\<close>, which leaves an empty map in the request; no file changes its contents, and a block that exists is answered as it is.
\<close>

theorem mmap_fault_correct:
  assumes ok: "fs_ok N X F s" "t \<in> F" and z: "zii_inode s zii = Some t" and reg: "zi_isreg (h_inode s t)"
    and io: "gb_get io" "gb_rw io AND zufs_rw_mmap mapi \<noteq> 0" "gb_filepos io < 2 ^ 63" and b0: "block_0_apart s"
  shows "\<exists>r io' s'. toyfs_get_put_multy api mapi zii io s = Some (r, io', s') \<and> fs_ok N X F s' \<and> same_files X F s s' \<and>
    (case r of Inl e \<Rightarrow> e = ENOSPC \<and> io' = refused api mapi io \<and> gb_rw io AND 1 \<noteq> 0 \<and> fetch_iblkref t (int (gb_filepos io)) s = None
     | Inr _ \<Rightarrow> \<exists>bn. maps_page api s' t (int (gb_filepos io)) bn io' \<and>
         (if fetch_iblkref t (int (gb_filepos io)) s = None \<and> gb_rw io AND 1 \<noteq> 0 then bn \<noteq> 0 \<and> gb_ret_flags io' = zufs_ret_new mapi
          else s' = s \<and> gb_ret_flags io' = 0 \<and> (bn = 0 \<longleftrightarrow> fetch_iblkref t (int (gb_filepos io)) s = None)))"
proof -
  let ?off = "int (gb_filepos io)"
  have run: "toyfs_get_put_multy api mapi zii io s =
      (if gb_rw io AND 1 \<noteq> 0 then get_block_wr api mapi t ?off io s else get_block_rd api mapi t ?off io s)"
    using z reg io by (simp add: toyfs_get_put_multy_def get_multy_def cast_loff_small)
  show ?thesis
  proof (cases "gb_rw io AND 1 = 0")
    case True
    then show ?thesis using run ok(1) get_block_rd_page [OF ok, of ?off api mapi io] by auto
  next
    case False
    obtain r io' s' where wr: "get_block_wr api mapi t ?off io s = Some (r, io', s')" "fs_ok N X F s'" "same_files X F s s'"
      "case r of Inl e \<Rightarrow> e = ENOSPC \<and> io' = refused api mapi io \<and> fetch_iblkref t ?off s = None
       | Inr _ \<Rightarrow> \<exists>bn. bn \<noteq> 0 \<and> maps_page api s' t ?off bn io' \<and>
           (if fetch_iblkref t ?off s = None then gb_ret_flags io' = zufs_ret_new mapi else gb_ret_flags io' = 0 \<and> s' = s)"
      using get_block_wr_page [OF ok _ b0, of ?off api mapi io] by auto
    then show ?thesis using run False by (intro exI [of _ r] exI [of _ io'] exI [of _ s']) (auto split: sum.splits if_splits)
  qed
qed

definition sample_mmap_api :: mmap_api where
  "sample_mmap_api = \<lparr>zufs_rw_mmap = 2, zufs_ret_new = 1, ioc_IO_size = \<lambda>n. 128 + 8 * n, zus_max_op_size = 8192\<rparr>"

definition sample_fault :: get_block where
  "sample_fault = \<lparr>gb_get = True, gb_rw = 3, gb_filepos = 5000, gb_ziom = \<lparr>iom_max = 0, iom_n = 0, iom_e = \<lambda>_. 0\<rparr>, gb_ret_flags = 0, gb_out_len = 0\<rparr>"

theorem mmap_fault_correct_witness:
  "\<exists>r io' s'. toyfs_get_put_multy sample_iom_api sample_mmap_api (Some 11) sample_fault sample_fs = Some (r, io', s') \<and>
    fs_ok {36864, 36992} {} {36864, 36992} s' \<and> same_files {} {36864, 36992} sample_fs s'"
proof -
  have "block_0_apart sample_fs" by (simp add: block_0_apart_def sample_fs_simps sample_md_def)
  from mmap_fault_correct [OF sample_fs_ok _ sample_fs_simps(1) sample_regular(1) _ _ _ this, of sample_fault sample_mmap_api sample_iom_api]
  show ?thesis by (auto simp: sample_fault_def sample_mmap_api_def)
qed

text \<open>
  A write fault on a block that a clone shares is answered with the shared block: no copy is made, and what the process then stores into the page
  is seen in the clone as well.
\<close>

theorem write_fault_maps_shared_block:
  assumes ok: "fs_ok N X F s" "t \<in> F" "u \<in> F" "0 \<le> off"
    and f: "fetch_iblkref t off s = Some ib" "fetch_iblkref u off s = Some ib'" "ib_dblkref (h_iblkref s ib') = ib_dblkref (h_iblkref s ib)"
  shows "\<exists>bn io'. bn \<noteq> 0 \<and> get_block_wr api mapi t off io s = Some (Inr (), io', s) \<and> maps_page api s t off bn io' \<and> maps_page api s u off bn io'"
proof -
  obtain d where d: "ib_dblkref (h_iblkref s ib) = Some d" "toyfs_bn2pmemb s (toyfs_addr2bn s (dpage s d)) = dpage s d"
    "toyfs_addr2bn s (dpage s d) \<noteq> 0" by (rule mapped_block [OF ok(1,2,4) f(1)])
  let ?bn = "toyfs_addr2bn s (dpage s d)"
  let ?b = "begin_block api mapi io"
  have "get_block_wr api mapi t off io s = Some (Inr (), encode_block api mapi ?bn 0 ?b (io\<lparr>gb_ziom := ziom ?b\<rparr>), s)"
    using f(1) d(1) fetch_pmemb_ok [OF ok(1,2), of off] by (simp add: get_block_wr_def toyfs_resolve_pmemb_def resolve_bn_def Let_def)
  moreover have "maps_page api s v off ?bn (encode_block api mapi ?bn 0 ?b (io\<lparr>gb_ziom := ziom ?b\<rparr>))" if "v = t \<or> v = u" for v
    using that f d page_bytes [OF ok(4), of _ s v] by (auto simp: maps_page_def encode_block_map)
  ultimately show ?thesis using d(3) by (intro exI [of _ ?bn]) auto
qed

end
