(* ===== verification/Mount.thy ===== *)
theory Mount
  imports ZusCore
begin

text \<open>
  Mount and unmount of a file system (\<open>zus-vfs.c\<close>) and the loop of the mount thread (\<open>zus-core.c\<close>). The results of the system calls,
  of the allocations and of the operations of the file system are the parameter \<open>mount_env\<close>: 0 or an error number. A ledger
  says what is held: memory, descriptors, mappings and the state of the file system. The theorems compare the ledger before and after.
\<close>

section \<open>The ledger\<close>

record ledger =
  l_zip :: bool            \<comment> \<open>the request of a private mount\<close>
  l_mount_fd :: bool       \<comment> \<open>its descriptor \<open>mount_fd\<close>\<close>
  l_thread :: bool         \<comment> \<open>the thread structure of the caller\<close>
  l_sbi :: bool            \<comment> \<open>the super block info of the file system\<close>
  l_kmount :: bool         \<comment> \<open>the private mount in the kernel\<close>
  l_md_fd :: bool          \<comment> \<open>\<open>md->fd\<close>\<close>
  l_pmem :: bool           \<comment> \<open>the mapping of the persistent memory\<close>
  l_maps :: bool           \<comment> \<open>the maps of blocks to devices\<close>
  l_pages :: bool          \<comment> \<open>the mapping of the page structures\<close>
  l_fs :: bool             \<comment> \<open>what \<open>sbi_init\<close> built\<close>
  l_root :: bool           \<comment> \<open>the info of the root inode, \<open>sbi->z_root\<close>\<close>
  l_error :: bool          \<comment> \<open>\<open>ZUS_SBIF_ERROR\<close>\<close>

definition nothing :: ledger where
  "nothing = \<lparr>l_zip = False, l_mount_fd = False, l_thread = False, l_sbi = False, l_kmount = False, l_md_fd = False, l_pmem = False,
     l_maps = False, l_pages = False, l_fs = False, l_root = False, l_error = False\<rparr>"

datatype page_size = No_pages | Right_size | Wrong_size
  \<comment> \<open>\<open>zfi->user_page_size\<close>: 0, the size of \<open>struct zus_page\<close>, or another value\<close>

record mount_env =
  e_calloc :: bool
  e_open :: int
  e_numa :: int
  e_thread :: int
  e_sbi_alloc :: bool
  e_kmount :: int
  e_md_open :: int
  e_grab :: int
  e_mmap :: int
  e_md_init :: int
  e_md_part :: bool        \<comment> \<open>a map was allocated before \<open>md_init_from_pmem_info\<close> failed\<close>
  e_page_size :: page_size
  e_zmmap :: int
  e_munmap :: int          \<comment> \<open>of the persistent memory\<close>
  e_zmunmap :: int         \<comment> \<open>of the page structures\<close>
  e_kumount :: int
  e_sbi_init :: int
  e_fs_part :: bool        \<comment> \<open>\<open>sbi_init\<close> has built a part of its state when it fails\<close>
  e_root_set :: bool       \<comment> \<open>\<open>z_root\<close> is set when \<open>sbi_init\<close> fails\<close>
  e_has_fini :: bool
  e_fini :: int

definition pmem_mmap :: "mount_env \<Rightarrow> ledger \<Rightarrow> int \<times> ledger" where
  "pmem_mmap e l = (if e_mmap e \<noteq> 0 then (e_mmap e, l) else (0, l\<lparr>l_pmem := True\<rparr>))"

definition zpages_mmap :: "mount_env \<Rightarrow> ledger \<Rightarrow> int \<times> ledger" where
  "zpages_mmap e l = (if e_zmmap e \<noteq> 0 then (e_zmmap e, l\<lparr>l_pages := False\<rparr>) else (0, l\<lparr>l_pages := True\<rparr>))"

text \<open>A mapping whose \<open>munmap\<close> fails stays; the errors are returned, but no caller looks at them.\<close>

definition pmem_unmap :: "mount_env \<Rightarrow> ledger \<Rightarrow> int \<times> ledger" where
  "pmem_unmap e l = (if e_munmap e \<noteq> 0 then (e_munmap e, l) else (0, l\<lparr>l_pmem := False\<rparr>))"

definition zpages_unmap :: "mount_env \<Rightarrow> ledger \<Rightarrow> int \<times> ledger" where
  "zpages_unmap e l =
    (if \<not> l_pages l then (0, l) else if e_zmunmap e \<noteq> 0 then (e_zmunmap e, l) else (0, l\<lparr>l_pages := False\<rparr>))"

definition md_fini :: "ledger \<Rightarrow> ledger" where
  "md_fini l = l\<lparr>l_maps := False\<rparr>"

definition zuf_root_close :: "ledger \<Rightarrow> ledger" where
  "zuf_root_close l = (if l_md_fd l then l\<lparr>l_md_fd := False\<rparr> else l)"

text \<open>\<open>_pmem_grab\<close> returns on the first error and leaves what it holds to the caller. The last error number is positive.\<close>

definition pmem_grab :: "mount_env \<Rightarrow> ledger \<Rightarrow> int \<times> ledger" where
  "pmem_grab e l =
    (if e_md_open e \<noteq> 0 then (e_md_open e, l)
     else let l1 = l\<lparr>l_md_fd := True\<rparr> in
     if e_grab e \<noteq> 0 then (e_grab e, l1)
     else let (err, l2) = pmem_mmap e l1 in
     if err \<noteq> 0 then (err, l2)
     else if e_md_init e \<noteq> 0 then (e_md_init e, l2\<lparr>l_maps := e_md_part e\<rparr>)
     else let l3 = l2\<lparr>l_maps := True\<rparr> in
       case e_page_size e of No_pages \<Rightarrow> (0, l3) | Wrong_size \<Rightarrow> (22, l3) | Right_size \<Rightarrow> zpages_mmap e l3)"

definition pmem_ungrab :: "mount_env \<Rightarrow> ledger \<Rightarrow> ledger" where
  "pmem_ungrab e l = zuf_root_close (snd (pmem_unmap e (md_fini (snd (zpages_unmap e l)))))"

text \<open>
  The operations \<open>sbi_init\<close>, \<open>sbi_fini\<close>, \<open>sbi_free\<close> and \<open>evict\<close> of the file system. What \<open>sbi_init\<close> builds, also when it fails in the middle, is released by \<open>sbi_fini\<close>;
  a file system without that operation keeps everything inside the super block info, which \<open>sbi_free\<close> releases.
\<close>

definition fs_init :: "mount_env \<Rightarrow> ledger \<Rightarrow> int \<times> ledger" where
  "fs_init e l =
    (if e_sbi_init e \<noteq> 0 then (e_sbi_init e, l\<lparr>l_fs := e_fs_part e, l_root := e_root_set e\<rparr>) else (0, l\<lparr>l_fs := True, l_root := True\<rparr>))"

definition fs_fini :: "mount_env \<Rightarrow> ledger \<Rightarrow> ledger" where
  "fs_fini e l = (if e_has_fini e then l\<lparr>l_fs := False\<rparr> else l)"

definition fs_free :: "mount_env \<Rightarrow> ledger \<Rightarrow> ledger" where
  "fs_free e l = l\<lparr>l_sbi := False, l_fs := (l_fs l \<and> e_has_fini e), l_error := False\<rparr>"

definition evict_root :: "ledger \<Rightarrow> ledger" where
  "evict_root l = (if l_root l then l\<lparr>l_root := False\<rparr> else l)"

section \<open>Mount\<close>

definition zus_sbi_fini :: "mount_env \<Rightarrow> ledger \<Rightarrow> ledger" where
  "zus_sbi_fini e l = fs_free e (pmem_ungrab e (fs_fini e l))"

definition zus_mount :: "mount_env \<Rightarrow> ledger \<Rightarrow> int \<times> ledger" where
  "zus_mount e l =
    (if \<not> e_sbi_alloc e then (- 12, l)
     else
       let l1 = l\<lparr>l_sbi := True\<rparr>;
           (err, l2) = pmem_grab e l1;
           (err, l3) = (if err \<noteq> 0 then (err, l2) else fs_init e l2)
       in if err \<noteq> 0 then (err, zus_sbi_fini e (l3\<lparr>l_error := True\<rparr>)) else (0, l3))"

definition zus_umount :: "mount_env \<Rightarrow> ledger \<Rightarrow> int \<times> ledger" where
  "zus_umount e l = (0, zus_sbi_fini e l)"

definition zus_remount :: "(ledger \<Rightarrow> int \<times> ledger) option \<Rightarrow> ledger \<Rightarrow> int \<times> ledger" where
  "zus_remount sbi_remount l = (case sbi_remount of Some f \<Rightarrow> f l | None \<Rightarrow> (0, l))"

definition kernel_umount :: "mount_env \<Rightarrow> ledger \<Rightarrow> ledger" where
  "kernel_umount e l = (if e_kumount e \<noteq> 0 then l else l\<lparr>l_kmount := False\<rparr>)"

text \<open>The labels of the error path of \<open>zus_private_mount\<close>, each one falling through to the next.\<close>

definition fail_zip :: "ledger \<Rightarrow> ledger" where
  "fail_zip l = l\<lparr>l_zip := False\<rparr>"

definition fail_fd :: "ledger \<Rightarrow> ledger" where
  "fail_fd l = fail_zip (l\<lparr>l_mount_fd := False\<rparr>)"

definition fail_alloc :: "ledger \<Rightarrow> ledger" where
  "fail_alloc l = fail_fd (l\<lparr>l_thread := False\<rparr>)"

definition fail_mount :: "mount_env \<Rightarrow> ledger \<Rightarrow> ledger" where
  "fail_mount e l = fail_alloc (fs_free e l)"

definition fail_grab :: "mount_env \<Rightarrow> ledger \<Rightarrow> ledger" where
  "fail_grab e l = fail_mount e (kernel_umount e l)"

definition fail_sbi_init :: "mount_env \<Rightarrow> ledger \<Rightarrow> ledger" where
  "fail_sbi_init e l = fail_grab e (pmem_ungrab e (fs_fini e (evict_root l)))"

definition zus_private_mount :: "mount_env \<Rightarrow> ledger \<Rightarrow> int \<times> ledger" where
  "zus_private_mount e l =
    (if \<not> e_calloc e then (- 12, l)
     else let l1 = l\<lparr>l_zip := True\<rparr> in
     if e_open e \<noteq> 0 then (e_open e, fail_zip l1)
     else let l2 = l1\<lparr>l_mount_fd := True\<rparr> in
     if e_numa e \<noteq> 0 then (e_numa e, fail_fd l2)
     else if e_thread e \<noteq> 0 then (e_thread e, fail_fd l2)
     else let l3 = l2\<lparr>l_thread := True\<rparr> in
     if \<not> e_sbi_alloc e then (- 12, fail_alloc l3)
     else let l4 = l3\<lparr>l_sbi := True\<rparr> in
     if e_kmount e \<noteq> 0 then (e_kmount e, fail_mount e l4)
     else let l5 = l4\<lparr>l_kmount := True\<rparr>; (err, l6) = pmem_grab e l5 in
     if err \<noteq> 0 then (err, fail_grab e l6)
     else let (err, l7) = fs_init e l6 in
     if err \<noteq> 0 then (err, fail_sbi_init e (l7\<lparr>l_error := True\<rparr>)) else (0, l7))"

definition zus_private_umount :: "mount_env \<Rightarrow> ledger \<Rightarrow> int \<times> ledger" where
  "zus_private_umount e l =
    (let l1 = evict_root l;
         err = (if e_has_fini e then e_fini e else 0);
         l2 = pmem_ungrab e (fs_fini e l1);
         l3 = fs_free e (kernel_umount e l2)
     in (err, l3\<lparr>l_thread := False, l_mount_fd := False, l_zip := False\<rparr>))"

section \<open>The mount thread\<close>

datatype mount_op = ZUFS_M_MOUNT | ZUFS_M_UMOUNT | ZUFS_M_REMOUNT | ZUFS_M_DDBG_RD | ZUFS_M_DDBG_WR | ZUFS_M_OTHER

text \<open>
  One request in the loop of \<open>zus_mount_thread\<close>: the error number for the kernel and the number of server threads per channel. \<open>start\<close> is the result of
  \<open>zus_start_all_threads\<close> for \<open>cpus\<close> threads, \<open>run\<close> that of the operation. A failed start stops all threads.
\<close>

definition mount_request :: "int \<Rightarrow> nat \<Rightarrow> (mount_op \<Rightarrow> int) \<Rightarrow> mount_op \<Rightarrow> nat \<Rightarrow> int \<times> nat" where
  "mount_request start cpus run op num_zts =
    (let (err, num) = (if op = ZUFS_M_MOUNT \<and> num_zts = 0 then (start, if start = 0 then cpus else 0) else (0, num_zts));
         err = (if err \<noteq> 0 then err else case op of ZUFS_M_OTHER \<Rightarrow> - 22 | _ \<Rightarrow> run op)
     in (errno_UtoK err, num))"

section \<open>Everything is released\<close>

lemmas ledger_defs = zus_sbi_fini_def fs_free_def pmem_ungrab_def zuf_root_close_def pmem_unmap_def md_fini_def zpages_unmap_def fs_fini_def kernel_umount_def
  evict_root_def fail_zip_def fail_fd_def fail_alloc_def fail_mount_def fail_grab_def fail_sbi_init_def

text \<open>What a mounted file system holds.\<close>

definition mounted :: "mount_env \<Rightarrow> ledger" where
  "mounted e = nothing\<lparr>l_sbi := True, l_md_fd := True, l_pmem := True, l_maps := True, l_pages := (e_page_size e = Right_size), l_fs := True, l_root := True\<rparr>"

text \<open>What \<open>_pmem_grab\<close> leaves behind when it fails: each step keeps what the earlier ones acquired.\<close>

definition grab_rest :: "mount_env \<Rightarrow> ledger" where
  "grab_rest e =
    (let opened = e_md_open e = 0; grabbed = opened \<and> e_grab e = 0; mapped = grabbed \<and> e_mmap e = 0
     in nothing\<lparr>l_md_fd := opened, l_pmem := mapped, l_maps := (mapped \<and> (e_md_init e = 0 \<or> e_md_part e))\<rparr>)"

definition grab_err :: "mount_env \<Rightarrow> int" where
  "grab_err e = fst (pmem_grab e nothing)"

lemma pmem_grab_cases:
  assumes "\<not> l_md_fd l" "\<not> l_pmem l" "\<not> l_maps l" "\<not> l_pages l"
  shows "pmem_grab e l =
    (grab_err e,
     if grab_err e = 0 then l\<lparr>l_md_fd := True, l_pmem := True, l_maps := True, l_pages := (e_page_size e = Right_size)\<rparr>
     else l\<lparr>l_md_fd := l_md_fd (grab_rest e), l_pmem := l_pmem (grab_rest e), l_maps := l_maps (grab_rest e)\<rparr>)"
  using assms
  by (cases l; cases "e_md_open e = 0"; cases "e_grab e = 0"; cases "e_mmap e = 0"; cases "e_md_init e = 0"; cases "e_page_size e";
      cases "e_zmmap e = 0")
    (simp_all add: pmem_grab_def pmem_mmap_def zpages_mmap_def grab_rest_def grab_err_def nothing_def Let_def)

text \<open>What a complete release leaves behind: a mapping whose \<open>munmap\<close> fails.\<close>

definition unmap_rest :: "mount_env \<Rightarrow> ledger" where
  "unmap_rest e = nothing\<lparr>l_pmem := (e_munmap e \<noteq> 0), l_pages := (e_page_size e = Right_size \<and> e_zmunmap e \<noteq> 0)\<rparr>"

text \<open>The ledger after a complete release: nothing of the file system and of the devices but what cannot be unmapped.\<close>

lemma ungrab_fini_ledger:
  "fs_free e (pmem_ungrab e (fs_fini e l)) = l\<lparr>l_sbi := False, l_md_fd := False, l_maps := False, l_fs := False, l_error := False,
     l_pmem := (l_pmem l \<and> e_munmap e \<noteq> 0), l_pages := (l_pages l \<and> e_zmunmap e \<noteq> 0)\<rparr>"
  by (cases l; cases "e_munmap e = 0"; cases "e_zmunmap e = 0"; cases "e_has_fini e") (simp_all add: ledger_defs)

lemma release_ledger:
  "fs_free e (kernel_umount e (pmem_ungrab e (fs_fini e (evict_root l)))) = l\<lparr>l_sbi := False, l_md_fd := False, l_maps := False, l_fs := False, l_error := False,
     l_root := False, l_pmem := (l_pmem l \<and> e_munmap e \<noteq> 0), l_pages := (l_pages l \<and> e_zmunmap e \<noteq> 0), l_kmount := (l_kmount l \<and> e_kumount e \<noteq> 0)\<rparr>"
proof -
  have "fs_free e (kernel_umount e m) = kernel_umount e (fs_free e m)" for m by (simp add: fs_free_def kernel_umount_def)
  then show ?thesis by (cases l; cases "e_kumount e = 0"; cases "l_root l") (simp_all add: ungrab_fini_ledger kernel_umount_def evict_root_def)
qed

lemma fail_grab_ledger:
  "fail_grab e l = l\<lparr>l_zip := False, l_mount_fd := False, l_thread := False, l_sbi := False, l_fs := (l_fs l \<and> e_has_fini e), l_error := False,
     l_kmount := (l_kmount l \<and> e_kumount e \<noteq> 0)\<rparr>"
  by (cases l; cases "e_kumount e = 0") (simp_all add: ledger_defs)

text \<open>
  \<open>zus_mount\<close> of a file system from scratch. If it fails, everything it acquired is released, except the
  info of a root inode that a failing \<open>sbi_init\<close> left behind and a mapping that cannot be unmapped. If it succeeds, exactly the parts of a mounted file system are held, and the
  unmount, after the kernel has given the root inode back, releases all of them.
\<close>

theorem zus_mount_releases:
  "(case zus_mount e nothing of (err, l) \<Rightarrow>
     if err \<noteq> 0 then
       l = nothing\<lparr>l_root := (l_root l \<and> e_root_set e), l_pmem := (l_pmem l \<and> e_munmap e \<noteq> 0), l_pages := (l_pages l \<and> e_zmunmap e \<noteq> 0)\<rparr>
     else l = mounted e \<and> zus_umount e (evict_root l) = (0, unmap_rest e))"
proof -
  note D = zus_mount_def zus_umount_def zus_sbi_fini_def ungrab_fini_ledger fs_init_def mounted_def pmem_grab_cases grab_rest_def unmap_rest_def nothing_def
    evict_root_def Let_def
  show ?thesis by (cases "e_sbi_alloc e"; cases "grab_err e = 0"; cases "e_sbi_init e = 0") (simp_all add: D)
qed

text \<open>
  C26. \<open>zus_private_mount\<close>. If it succeeds, the mount of a file system, the thread and the private mount are held, and
  \<open>zus_private_umount\<close> releases all of them. If it fails before \<open>_pmem_grab\<close>, everything is released. If \<open>_pmem_grab\<close> fails, the error path
  skips \<open>_pmem_ungrab\<close>: the descriptor, the mapping and the maps acquired so far stay. If \<open>sbi_init\<close> fails, also in the middle of its work, everything is released. The
  exceptions are the mappings whose \<open>munmap\<close> fails and a private mount that the kernel does not give up (\<open>e_kumount\<close>): they stay.
\<close>

theorem zus_private_mount_releases:
  "(case zus_private_mount e nothing of (err, l) \<Rightarrow>
     if err = 0 then
       l = (mounted e)\<lparr>l_zip := True, l_mount_fd := True, l_thread := True, l_kmount := True\<rparr> \<and>
       snd (zus_private_umount e l) = (unmap_rest e)\<lparr>l_kmount := (e_kumount e \<noteq> 0)\<rparr>
     else if e_calloc e \<and> e_open e = 0 \<and> e_numa e = 0 \<and> e_thread e = 0 \<and> e_sbi_alloc e \<and> e_kmount e = 0
       then l = (if grab_err e \<noteq> 0 then grab_rest e else unmap_rest e)\<lparr>l_kmount := (e_kumount e \<noteq> 0)\<rparr>
     else l = nothing)"
proof (cases "e_calloc e \<and> e_open e = 0 \<and> e_numa e = 0 \<and> e_thread e = 0 \<and> e_sbi_alloc e \<and> e_kmount e = 0")
  case True
  note D = zus_private_mount_def zus_private_umount_def fs_init_def mounted_def grab_rest_def pmem_grab_cases unmap_rest_def nothing_def Let_def
    release_ledger fail_grab_ledger
  have "fail_sbi_init e l = (fs_free e (kernel_umount e (pmem_ungrab e (fs_fini e (evict_root l)))))\<lparr>l_zip := False, l_mount_fd := False, l_thread := False\<rparr>" for l
    by (simp add: fail_sbi_init_def fail_grab_def fail_mount_def fail_alloc_def fail_fd_def fail_zip_def)
  then show ?thesis using True by (cases "grab_err e = 0"; cases "e_sbi_init e = 0") (simp_all add: D)
next
  case False
  then show ?thesis
    by (auto simp: zus_private_mount_def nothing_def ledger_defs Let_def)
qed

end
