(* ===== verification/ZtPool.thy ===== *)
theory ZtPool
  imports Mount
begin

text \<open>
  The server threads of \<open>zus-core.c\<close>: the initialisation of a thread, the start of all threads of all channels with its error paths, the stop, and
  the mount thread. The results of the system calls are parameters, and so is the schedule: the new threads run beside the starting and the stopping
  thread, which work on the same structures, wait for a counter and for the end of the threads. The result \<open>None\<close> stands for a thread that
  waits for ever: in \<open>wtz_wait\<close>, when the schedule lets too few threads run, or in \<open>pthread_join\<close>, for a thread that waits in the kernel and is
  not woken up.
\<close>

section \<open>A server thread\<close>

record zu_thread =
  zt_zbt :: zus_base_thread
  zt_no :: nat
  zt_chan :: nat
  zt_fd :: bool            \<comment> \<open>\<open>fd\<close> is open\<close>
  zt_api_mem :: bool       \<comment> \<open>\<open>api_mem\<close> is mapped\<close>
  zt_op_buff :: bool       \<comment> \<open>the buffer of the operation is mapped: the thread runs its loop\<close>
  zt_stop :: bool
  zt_began :: bool         \<comment> \<open>the thread has come to its loop, or to its failure\<close>
  zt_waits :: bool         \<comment> \<open>it has found \<open>stop\<close> unset and waits in the kernel for an operation\<close>

record zt_env =
  z_pthread :: pthread_env
  z_open :: int
  z_init :: int
  z_mmap :: int
  z_ioc_mmap :: int

definition zeroed_zt :: zu_thread where
  "zeroed_zt = \<lparr>zt_zbt = zeroed_zbt, zt_no = 0, zt_chan = 0, zt_fd = False, zt_api_mem = False, zt_op_buff = False, zt_stop = False,
     zt_began = False, zt_waits = False\<rparr>"

definition set_err :: "int \<Rightarrow> zu_thread \<Rightarrow> zu_thread" where
  "set_err err zt = zt\<lparr>zt_zbt := (zt_zbt zt)\<lparr>zbt_err := err\<rparr>\<rparr>"

definition zu_mmap :: "zt_env \<Rightarrow> zu_thread \<Rightarrow> int \<times> zu_thread" where
  "zu_mmap e zt = (if z_mmap e \<noteq> 0 then (z_mmap e, zt) else (0, zt\<lparr>zt_api_mem := True\<rparr>))"

definition zu_unmap :: "zu_thread \<Rightarrow> zu_thread" where
  "zu_unmap zt = zt\<lparr>zt_api_mem := False\<rparr>"

definition zu_ioc_buff_mmap :: "zt_env \<Rightarrow> zu_thread \<Rightarrow> int \<times> zu_thread" where
  "zu_ioc_buff_mmap e zt = (if z_ioc_mmap e \<noteq> 0 then (z_ioc_mmap e, zt) else (0, zt\<lparr>zt_op_buff := True\<rparr>))"

definition zu_ioc_buff_unmap :: "zu_thread \<Rightarrow> zu_thread" where
  "zu_ioc_buff_unmap zt = zt\<lparr>zt_op_buff := False\<rparr>"

text \<open>
  The part of \<open>_zu_thread\<close> up to the first turn of its loop, and the one behind the loop. A failure ends the thread with what it holds. The
  release of the counter, which both paths make, is part of \<open>zt_run\<close> below.
\<close>

definition zu_thread_begin :: "zt_env \<Rightarrow> zu_thread \<Rightarrow> zu_thread" where
  "zu_thread_begin e zt =
    (let zt = zt\<lparr>zt_began := True\<rparr> in
     if z_open e \<noteq> 0 then set_err (z_open e) zt
     else let zt = zt\<lparr>zt_fd := True\<rparr> in
     if z_init e \<noteq> 0 then set_err (z_init e) zt
     else let (err, zt) = zu_mmap e zt in
     if err \<noteq> 0 then set_err err zt
     else let (err, zt) = zu_ioc_buff_mmap e zt; zt = set_err err zt in
     if err \<noteq> 0 then zt else zt\<lparr>zt_waits := \<not> zt_stop zt\<rparr>)"

definition zu_thread_end :: "zu_thread \<Rightarrow> zu_thread" where
  "zu_thread_end zt = (if zt_op_buff zt then (zu_unmap (zu_ioc_buff_unmap zt))\<lparr>zt_fd := False\<rparr> else zt)"

section \<open>Start and stop\<close>

text \<open>\<open>lost_fds\<close> and \<open>lost_maps\<close> count the descriptors and mappings of threads whose structure has been freed.\<close>

record zt_pool =
  wtz :: wait_til_zero
  zts :: "nat \<Rightarrow> (nat \<Rightarrow> zu_thread) option"
  num_zts :: nat
  max_channels :: nat
  lost_fds :: nat
  lost_maps :: nat

definition zeroed_pool :: "nat \<Rightarrow> nat \<Rightarrow> zt_pool" where
  "zeroed_pool fds maps = \<lparr>wtz = wtz_init, zts = \<lambda>_. None, num_zts = 0, max_channels = 0, lost_fds = fds, lost_maps = maps\<rparr>"

definition zt_at :: "zt_pool \<Rightarrow> nat \<Rightarrow> nat \<Rightarrow> zu_thread" where
  "zt_at p c i = (case zts p c of None \<Rightarrow> zeroed_zt | Some ts \<Rightarrow> ts i)"

definition upd_zt :: "nat \<Rightarrow> nat \<Rightarrow> (zu_thread \<Rightarrow> zu_thread) \<Rightarrow> zt_pool \<Rightarrow> zt_pool" where
  "upd_zt c i f p = (case zts p c of None \<Rightarrow> p | Some ts \<Rightarrow> p\<lparr>zts := (zts p)(c \<mapsto> ts(i := f (ts i)))\<rparr>)"

text \<open>
  The schedule. At each of the points of the starting and the stopping thread it names the threads (channel and CPU) that run there, in this order, each from its first
  instruction to its loop; names of threads that do not exist or have run already are skipped. Only the order in which they release
  the counter and find \<open>stop\<close> set matters to the others. \<open>sch_op\<close> tells which threads, waiting in the kernel when they are to be joined, still get
  an operation from an application and so come to look at \<open>stop\<close>.
\<close>

datatype point = Before_arm nat | Before_create nat nat | Before_wait | Before_check | Before_stop nat | Before_break nat

record schedule =
  sch_run :: "point \<Rightarrow> (nat \<times> nat) list"
  sch_op :: "nat \<Rightarrow> nat \<Rightarrow> bool"

definition zt_run :: "(nat \<Rightarrow> nat \<Rightarrow> zt_env) \<Rightarrow> nat \<times> nat \<Rightarrow> zt_pool \<Rightarrow> zt_pool" where
  "zt_run e = (\<lambda>(c, i) p.
    if zbt_thread (zt_zbt (zt_at p c i)) \<and> \<not> zt_began (zt_at p c i)
    then (upd_zt c i (zu_thread_begin (e c i)) p)\<lparr>wtz := wtz_release (wtz p)\<rparr>
    else p)"

definition run_threads :: "(nat \<Rightarrow> nat \<Rightarrow> zt_env) \<Rightarrow> (nat \<times> nat) list \<Rightarrow> zt_pool \<Rightarrow> zt_pool" where
  "run_threads e cis p = fold (zt_run e) cis p"

fun create_threads :: "(nat \<Rightarrow> nat \<Rightarrow> zt_env) \<Rightarrow> schedule \<Rightarrow> zus_topology \<Rightarrow> zus_thread_params \<Rightarrow> nat \<Rightarrow> nat list \<Rightarrow> zt_pool \<Rightarrow> int \<times> zt_pool" where
  "create_threads e sch t tp chan [] p = (0, p)"
| "create_threads e sch t tp chan (i # is) p =
    (let p = run_threads e (sch_run sch (Before_create chan i)) p;
         zt = (zt_at p chan i)\<lparr>zt_no := i, zt_chan := chan\<rparr>;
         (err, aff, zbt) = thread_create (z_pthread (e chan i)) t (tp\<lparr>tp_one_cpu := Some i\<rparr>) (zt_zbt zt);
         p = upd_zt chan i (\<lambda>_. zt\<lparr>zt_zbt := zbt\<rparr>) p
     in if err \<noteq> 0 then (err, p) else create_threads e sch t tp chan is p)"

definition zus_start_chan_threads :: "(nat \<Rightarrow> bool) \<Rightarrow> (nat \<Rightarrow> nat \<Rightarrow> zt_env) \<Rightarrow> schedule \<Rightarrow> zus_topology \<Rightarrow> zus_thread_params \<Rightarrow> nat \<Rightarrow> zt_pool \<Rightarrow>
    int \<times> zt_pool" where
  "zus_start_chan_threads mem e sch t tp chan p =
    (if \<not> mem chan then (- 12, p)
     else
       let p = run_threads e (sch_run sch (Before_arm chan)) (p\<lparr>zts := (zts p)(chan \<mapsto> \<lambda>_. zeroed_zt)\<rparr>);
           p = p\<lparr>wtz := wtz_arm (online_cpus (zus_numa_map t)) (wtz p)\<rparr>
       in create_threads e sch t tp chan (for_each_cpu (zus_nr_cpu_ids t) (zus_cpu_online_mask t) (- 1)) p)"

fun start_chans :: "(nat \<Rightarrow> bool) \<Rightarrow> (nat \<Rightarrow> nat \<Rightarrow> zt_env) \<Rightarrow> schedule \<Rightarrow> zus_topology \<Rightarrow> zus_thread_params \<Rightarrow> nat \<Rightarrow> nat \<Rightarrow> zt_pool \<Rightarrow> int \<times> zt_pool" where
  "start_chans mem e sch t tp c 0 p = (0, p)"
| "start_chans mem e sch t tp c (Suc n) p =
    (let (err, p) = zus_start_chan_threads mem e sch t tp c p
     in if err \<noteq> 0 then (err, p) else start_chans mem e sch t tp (c + 1) n p)"

text \<open>
  \<open>pthread_join\<close> of the thread \<open>i\<close>. A thread that has not run yet runs now. A thread that waits in the kernel ends when \<open>zuf_break_all\<close> has
  woken up all of them (\<open>brk\<close>) or when it gets an operation; all others end by themselves, or have ended.
\<close>

definition join_thread :: "(nat \<Rightarrow> nat \<Rightarrow> zt_env) \<Rightarrow> schedule \<Rightarrow> bool \<Rightarrow> nat \<Rightarrow> nat \<Rightarrow> zt_pool \<Rightarrow> zt_pool run" where
  "join_thread e sch brk chan i p =
    (if \<not> zbt_thread (zt_zbt (zt_at p chan i)) then Some p
     else let p = zt_run e (chan, i) p in
       if zt_waits (zt_at p chan i) \<and> \<not> brk \<and> \<not> sch_op sch chan i then None
       else Some (upd_zt chan i (\<lambda>zt. (zu_thread_end zt)\<lparr>zt_waits := False, zt_zbt := (zt_zbt zt)\<lparr>zbt_thread := False\<rparr>\<rparr>) p))"

fun join_threads :: "(nat \<Rightarrow> nat \<Rightarrow> zt_env) \<Rightarrow> schedule \<Rightarrow> bool \<Rightarrow> nat \<Rightarrow> nat list \<Rightarrow> zt_pool \<Rightarrow> zt_pool run" where
  "join_threads e sch brk chan [] p = Some p"
| "join_threads e sch brk chan (i # is) p = do { p \<leftarrow> join_thread e sch brk chan i p; join_threads e sch brk chan is p }"

text \<open>What is open when the structures of a channel are freed.\<close>

definition held :: "nat \<Rightarrow> (nat \<Rightarrow> zu_thread) \<Rightarrow> nat \<times> nat" where
  "held n ts =
    (length (filter (\<lambda>i. zt_fd (ts i)) [0..<n]),
     length (filter (\<lambda>i. zt_api_mem (ts i)) [0..<n]) + length (filter (\<lambda>i. zt_op_buff (ts i)) [0..<n]))"

text \<open>
  The call of \<open>zuf_break_all\<close> goes to the descriptor of the thread of CPU 0. If this one has not been opened, was refused, or does not
  exist because CPU 0 is offline, the call goes to another descriptor (0 or -1) and wakes up nobody.
\<close>

definition zus_stop_chan_threads :: "(nat \<Rightarrow> nat \<Rightarrow> zt_env) \<Rightarrow> schedule \<Rightarrow> nat \<Rightarrow> zt_pool \<Rightarrow> zt_pool run" where
  "zus_stop_chan_threads e sch chan p =
    (if zts p chan = None then Some p
     else do {
       let p = run_threads e (sch_run sch (Before_stop chan)) p;
       let p = fold (\<lambda>i. upd_zt chan i (\<lambda>zt. zt\<lparr>zt_stop := True\<rparr>)) [0..<num_zts p] p;
       let p = run_threads e (sch_run sch (Before_break chan)) p;
       let brk = zt_fd (zt_at p chan 0);
       p \<leftarrow> join_threads e sch brk chan [0..<num_zts p] p;
       let (fds, maps) = held (num_zts p) (zt_at p chan);
       Some (p\<lparr>zts := (zts p)(chan := None), lost_fds := lost_fds p + fds, lost_maps := lost_maps p + maps\<rparr>) })"

fun stop_chans :: "(nat \<Rightarrow> nat \<Rightarrow> zt_env) \<Rightarrow> schedule \<Rightarrow> nat list \<Rightarrow> zt_pool \<Rightarrow> zt_pool run" where
  "stop_chans e sch [] p = Some p"
| "stop_chans e sch (c # cs) p = do { p \<leftarrow> zus_stop_chan_threads e sch c p; stop_chans e sch cs p }"

definition zus_stop_all_threads :: "(nat \<Rightarrow> nat \<Rightarrow> zt_env) \<Rightarrow> schedule \<Rightarrow> zt_pool \<Rightarrow> zt_pool run" where
  "zus_stop_all_threads e sch p = do { p \<leftarrow> stop_chans e sch [0..<max_channels p] p; Some (zeroed_pool (lost_fds p) (lost_maps p)) }"

text \<open>
  The check behind the wait: the first error of a thread, over the channels and the CPUs. A thread that waits stores no other error before the check.
\<close>

definition first_err :: "zt_pool \<Rightarrow> int" where
  "first_err p =
    (case find (\<lambda>(c, i). zbt_err (zt_zbt (zt_at p c i)) \<noteq> 0) (List.product [0..<max_channels p] [0..<num_zts p]) of
       None \<Rightarrow> 0
     | Some (c, i) \<Rightarrow> zbt_err (zt_zbt (zt_at p c i)))"

definition zus_start_all_threads :: "(nat \<Rightarrow> bool) \<Rightarrow> (nat \<Rightarrow> nat \<Rightarrow> zt_env) \<Rightarrow> schedule \<Rightarrow> zus_topology \<Rightarrow> zus_thread_params \<Rightarrow> nat \<Rightarrow> zt_pool \<Rightarrow>
    (int \<times> zt_pool) run" where
  "zus_start_all_threads mem e sch t tp num_chans p =
    (let p = p\<lparr>wtz := wtz_init, num_zts := possible_cpus (zus_numa_map t), max_channels := num_chans\<rparr>;
         (err, p) = start_chans mem e sch t tp 0 num_chans p
     in if err \<noteq> 0 then do { p \<leftarrow> zus_stop_all_threads e sch p; Some (err, p) }
        else do {
          let p = run_threads e (sch_run sch Before_wait) p;
          w \<leftarrow> wtz_wait (wtz p);
          let p = run_threads e (sch_run sch Before_check) (p\<lparr>wtz := w\<rparr>);
          if first_err p \<noteq> 0 then do { p' \<leftarrow> zus_stop_all_threads e sch p; Some (first_err p, p') }
          else Some (0, p) })"

section \<open>The mount thread\<close>

record mount_thread_env =
  m_fba :: int
  m_open :: int
  m_numa :: int
  m_register :: int

record mount_thread =
  mt_fba :: bool
  mt_fd :: bool
  mt_err :: int
  mt_replies :: "int list"
  mt_zts :: nat

text \<open>
  The loop: each element is the result of \<open>zuf_recieve_mount\<close> with the operation; the list ends when \<open>stop\<close> is set. \<open>start\<close>, \<open>cpus\<close> and \<open>run\<close> are
  as in \<open>mount_request\<close>.
\<close>

fun mount_loop :: "(nat \<Rightarrow> int) \<Rightarrow> nat \<Rightarrow> (mount_op \<Rightarrow> int) \<Rightarrow> (int \<times> mount_op) list \<Rightarrow> mount_thread \<Rightarrow> mount_thread" where
  "mount_loop start cpus run [] mt = mt"
| "mount_loop start cpus run ((err, op) # rest) mt =
    (let mt = mt\<lparr>mt_err := err\<rparr> in
     if err \<noteq> 0 then mt
     else let (reply, n) = mount_request (start (length (mt_replies mt))) cpus run op (mt_zts mt)
       in mount_loop start cpus run rest (mt\<lparr>mt_replies := mt_replies mt @ [reply], mt_zts := n\<rparr>))"

definition zus_mount_thread :: "mount_thread_env \<Rightarrow> (nat \<Rightarrow> int) \<Rightarrow> nat \<Rightarrow> (mount_op \<Rightarrow> int) \<Rightarrow> (int \<times> mount_op) list \<Rightarrow> mount_thread \<Rightarrow> mount_thread" where
  "zus_mount_thread e start cpus run reqs mt =
    (if m_fba e \<noteq> 0 then mt\<lparr>mt_err := m_fba e\<rparr>
     else let mt = mt\<lparr>mt_fba := True, mt_err := m_open e\<rparr> in
     if m_open e \<noteq> 0 then mt\<lparr>mt_fba := False\<rparr>
     else let mt = mt\<lparr>mt_fd := True, mt_err := m_numa e\<rparr> in
     if m_numa e \<noteq> 0 then mt\<lparr>mt_fba := False\<rparr>
     else let mt = mt\<lparr>mt_err := m_register e\<rparr> in
     if m_register e \<noteq> 0 then mt\<lparr>mt_fba := False\<rparr>
     else (mount_loop start cpus run reqs mt)\<lparr>mt_fd := False, mt_fba := False\<rparr>)"

section \<open>One channel: a start gives all threads or none\<close>

definition zt_runs :: "nat \<Rightarrow> nat \<Rightarrow> zu_thread \<Rightarrow> bool" where
  "zt_runs chan i zt =
    (zbt_thread (zt_zbt zt) \<and> one_cpu (zt_zbt zt) = Some i \<and> zt_no zt = i \<and> zt_chan zt = chan \<and> zbt_err (zt_zbt zt) = 0 \<and>
     zt_fd zt \<and> zt_api_mem zt \<and> zt_op_buff zt \<and> zt_waits zt)"

definition inits_ok :: "zt_env \<Rightarrow> bool" where
  "inits_ok e = (z_open e = 0 \<and> z_init e = 0 \<and> z_mmap e = 0 \<and> z_ioc_mmap e = 0)"

text \<open>A thread of a CPU of the channel: not created, created, and run up to its loop or its failure.\<close>

definition zt_none :: "zu_thread \<Rightarrow> bool" where
  "zt_none zt = (\<not> zbt_thread (zt_zbt zt) \<and> \<not> zt_fd zt \<and> \<not> zt_api_mem zt \<and> \<not> zt_op_buff zt)"

definition zt_made :: "nat \<Rightarrow> nat \<Rightarrow> zu_thread \<Rightarrow> bool" where
  "zt_made c i zt =
    (zbt_thread (zt_zbt zt) \<and> one_cpu (zt_zbt zt) = Some i \<and> zt_no zt = i \<and> zt_chan zt = c \<and> zbt_err (zt_zbt zt) = 0 \<and>
     \<not> zt_fd zt \<and> \<not> zt_api_mem zt \<and> \<not> zt_op_buff zt \<and> \<not> zt_waits zt \<and> \<not> zt_began zt)"

definition zt_begun :: "zt_env \<Rightarrow> nat \<Rightarrow> nat \<Rightarrow> zu_thread \<Rightarrow> bool" where
  "zt_begun e c i zt =
    (zbt_thread (zt_zbt zt) \<and> one_cpu (zt_zbt zt) = Some i \<and> zt_no zt = i \<and> zt_chan zt = c \<and> (zbt_err (zt_zbt zt) = 0 \<longleftrightarrow> inits_ok e) \<and>
     zt_fd zt = (z_open e = 0) \<and> zt_api_mem zt = (z_open e = 0 \<and> z_init e = 0 \<and> z_mmap e = 0) \<and> zt_op_buff zt = inits_ok e \<and>
     (zt_waits zt \<longrightarrow> inits_ok e) \<and> (\<not> zt_stop zt \<longrightarrow> zt_waits zt = inits_ok e) \<and> zt_began zt)"

definition zt_ok :: "zt_env \<Rightarrow> nat \<Rightarrow> nat \<Rightarrow> zu_thread \<Rightarrow> bool" where
  "zt_ok e c i zt = (zt_made c i zt \<or> zt_begun e c i zt)"

lemma made_begins:
  assumes "zt_made c i zt"
  shows "zt_begun e c i (zu_thread_begin e zt)" "zt_stop (zu_thread_begin e zt) = zt_stop zt"
    "zt_stop zt \<Longrightarrow> \<not> zt_waits (zu_thread_begin e zt)"
  using assms by (auto simp: zt_made_def zt_begun_def zu_thread_begin_def zu_mmap_def zu_ioc_buff_mmap_def set_err_def inits_ok_def Let_def)

text \<open>
  The pool while it has one channel, with the threads of the CPUs \<open>cs\<close>. Every release of the counter belongs to a thread that has begun; with \<open>n\<close> the number that
  the counter was armed with, the semaphore is posted exactly when this many have.
\<close>

definition one_pool :: "(nat \<Rightarrow> nat \<Rightarrow> zt_env) \<Rightarrow> nat list \<Rightarrow> nat \<Rightarrow> (nat \<Rightarrow> zu_thread) \<Rightarrow> zt_pool \<Rightarrow> bool" where
  "one_pool e cs N ts p =
    (zts p = [0 \<mapsto> ts] \<and> num_zts p = N \<and> max_channels p = 1 \<and> lost_fds p = 0 \<and> lost_maps p = 0 \<and>
     (\<forall>i\<in>set cs. zt_ok (e 0 i) 0 i (ts i)) \<and> (\<forall>i. i \<notin> set cs \<longrightarrow> zt_none (ts i)))"

definition count_ok :: "nat \<Rightarrow> nat list \<Rightarrow> (nat \<Rightarrow> zu_thread) \<Rightarrow> wait_til_zero \<Rightarrow> bool" where
  "count_ok n cs ts w =
    (let b = length (filter (\<lambda>i. zt_began (ts i)) cs) in acnt w = int n - int b \<and> sem w = (if b = n then 1 else 0))"

lemma filter_upd_length:
  assumes "distinct cs" "i \<in> set cs" "\<not> P i"
  shows "length (filter (\<lambda>j. j = i \<or> P j) cs) = Suc (length (filter P cs))"
  using assms
proof (induction cs)
  case (Cons c cs)
  show ?case
  proof (cases "c = i")
    case True
    then have "filter (\<lambda>j. j = i \<or> P j) cs = filter P cs" using Cons.prems(1) by (intro filter_cong) auto
    then show ?thesis using True Cons.prems(3) by simp
  next
    case False
    then show ?thesis using Cons by simp
  qed
qed simp

lemma filter_fun_upd: "zt_began z \<Longrightarrow> filter (\<lambda>j. zt_began ((ts(i := z)) j)) cs = filter (\<lambda>j. j = i \<or> zt_began (ts j)) cs"
  by (rule filter_cong) auto

lemma zt_run_one:
  assumes p: "one_pool e cs N ts p"
  shows "\<exists>ts'. one_pool e cs N ts' (zt_run e ci p) \<and> (\<forall>i. zt_stop (ts' i) = zt_stop (ts i)) \<and>
    (\<forall>i\<in>set cs. ts' i = (if ci = (0, i) \<and> \<not> zt_began (ts i) then zu_thread_begin (e 0 i) (ts i) else ts i)) \<and>
    (\<forall>i. i \<notin> set cs \<longrightarrow> ts' i = ts i) \<and>
    (distinct cs \<longrightarrow> length cs \<le> n \<longrightarrow> count_ok n cs ts (wtz p) \<longrightarrow> count_ok n cs ts' (wtz (zt_run e ci p)))"
proof -
  obtain c i where ci: "ci = (c, i)" by force
  show ?thesis
  proof (cases "c = 0 \<and> i \<in> set cs \<and> \<not> zt_began (ts i)")
    case True
    then have made: "zt_made 0 i (ts i)" using p by (auto simp: one_pool_def zt_ok_def zt_begun_def)
    note b = made_begins [OF made, of "e 0 i"]
    let ?z = "zu_thread_begin (e 0 i) (ts i)"
    have run: "zt_run e ci p = p\<lparr>zts := [0 \<mapsto> ts(i := ?z)], wtz := wtz_release (wtz p)\<rparr>"
      using p made True by (simp add: zt_run_def ci zt_at_def upd_zt_def one_pool_def zt_made_def)
    have "count_ok n cs (ts(i := ?z)) (wtz_release (wtz p))" if "distinct cs" "length cs \<le> n" "count_ok n cs ts (wtz p)"
    proof -
      have "length (filter (\<lambda>j. zt_began ((ts(i := ?z)) j)) cs) = Suc (length (filter (\<lambda>j. zt_began (ts j)) cs))"
        using filter_upd_length [of cs i "\<lambda>j. zt_began (ts j)"] True that(1) filter_fun_upd [of ?z ts i cs] b(1) by (simp add: zt_begun_def)
      moreover have "length (filter (\<lambda>j. zt_began (ts j)) cs) < n"
        using True that(2) length_filter_less [of i cs "\<lambda>j. zt_began (ts j)"] by simp
      ultimately show ?thesis using that(3) by (auto simp: count_ok_def wtz_release_def Let_def)
    qed
    moreover have "one_pool e cs N (ts(i := ?z)) (zt_run e ci p)" using p True b(1) by (auto simp: run one_pool_def zt_ok_def)
    moreover have "wtz (zt_run e ci p) = wtz_release (wtz p)" by (simp add: run)
    ultimately show ?thesis using True b(2) by (intro exI [of _ "ts(i := ?z)"]) (auto simp: ci)
  next
    case False
    then have "zt_run e ci p = p"
      using p by (auto simp: zt_run_def ci zt_at_def one_pool_def zt_none_def zeroed_zt_def zeroed_zbt_def)
    then show ?thesis using p False by (intro exI [of _ ts]) (auto simp: ci)
  qed
qed

lemma run_threads_one:
  assumes "one_pool e cs N ts p"
  shows "\<exists>ts'. one_pool e cs N ts' (run_threads e l p) \<and> (\<forall>i. zt_stop (ts' i) = zt_stop (ts i)) \<and>
    (\<forall>i\<in>set cs. zt_began (ts i) \<longrightarrow> ts' i = ts i) \<and> (\<forall>i\<in>set cs. (0, i) \<in> set l \<longrightarrow> zt_began (ts' i)) \<and> (\<forall>i. i \<notin> set cs \<longrightarrow> ts' i = ts i) \<and>
    (distinct cs \<longrightarrow> length cs \<le> n \<longrightarrow> count_ok n cs ts (wtz p) \<longrightarrow> count_ok n cs ts' (wtz (run_threads e l p)))"
  using assms
proof (induction l arbitrary: ts p)
  case Nil
  then show ?case by (intro exI [of _ ts]) (simp add: run_threads_def)
next
  case (Cons ci l)
  from zt_run_one [OF Cons.prems, of ci n] obtain t1 where t1: "one_pool e cs N t1 (zt_run e ci p)" "\<forall>i. zt_stop (t1 i) = zt_stop (ts i)"
    "\<forall>i\<in>set cs. t1 i = (if ci = (0, i) \<and> \<not> zt_began (ts i) then zu_thread_begin (e 0 i) (ts i) else ts i)" "\<forall>i. i \<notin> set cs \<longrightarrow> t1 i = ts i"
    "distinct cs \<longrightarrow> length cs \<le> n \<longrightarrow> count_ok n cs ts (wtz p) \<longrightarrow> count_ok n cs t1 (wtz (zt_run e ci p))" by blast
  from Cons.IH [OF t1(1)] obtain t2 where t2: "one_pool e cs N t2 (run_threads e l (zt_run e ci p))" "\<forall>i. zt_stop (t2 i) = zt_stop (t1 i)"
    "\<forall>i\<in>set cs. zt_began (t1 i) \<longrightarrow> t2 i = t1 i" "\<forall>i\<in>set cs. (0, i) \<in> set l \<longrightarrow> zt_began (t2 i)" "\<forall>i. i \<notin> set cs \<longrightarrow> t2 i = t1 i"
    "distinct cs \<longrightarrow> length cs \<le> n \<longrightarrow> count_ok n cs t1 (wtz (zt_run e ci p)) \<longrightarrow> count_ok n cs t2 (wtz (run_threads e l (zt_run e ci p)))" by blast
  have run: "run_threads e (ci # l) p = run_threads e l (zt_run e ci p)" by (simp add: run_threads_def)
  have "zt_began (zu_thread_begin (e 0 i) (ts i))" if "i \<in> set cs" "\<not> zt_began (ts i)" for i
    using that Cons.prems made_begins(1) by (auto simp: one_pool_def zt_ok_def zt_begun_def)
  then have "\<forall>i\<in>set cs. (0, i) \<in> set (ci # l) \<longrightarrow> zt_began (t2 i)" using t1(3) t2(3,4) by (metis set_ConsD)
  with t1 t2 show ?case unfolding run by (intro exI [of _ t2]) auto
qed

lemma thread_create_cpu:
  assumes "thread_create env t (tp\<lparr>tp_one_cpu := Some i\<rparr>) zbt = (err, aff, zbt')" "\<not> zbt_thread zbt"
  shows "if err = 0 then zbt_thread zbt' \<and> one_cpu zbt' = Some i \<and> zbt_err zbt' = zbt_err zbt else \<not> zbt_thread zbt'"
  using assms by (auto simp: thread_create_def thread_affinity_def thread_fail_def errno_UtoK_def Let_def split: if_splits)

definition created_ok :: "(nat \<Rightarrow> nat \<Rightarrow> zt_env) \<Rightarrow> zus_topology \<Rightarrow> zus_thread_params \<Rightarrow> nat \<Rightarrow> bool" where
  "created_ok e t tp i = (fst (thread_create (z_pthread (e 0 i)) t (tp\<lparr>tp_one_cpu := Some i\<rparr>) zeroed_zbt) = 0)"

text \<open>A pool whose threads have not been told to stop; the threads that do not exist have the error 0.\<close>

definition quiet :: "nat list \<Rightarrow> (nat \<Rightarrow> zu_thread) \<Rightarrow> bool" where
  "quiet cs ts = (\<forall>i. \<not> zt_stop (ts i) \<and> (i \<notin> set cs \<longrightarrow> ts i = zeroed_zt))"

lemma create_one:
  assumes p: "one_pool e cs N ts p" and d: "distinct (cs @ is)" and q: "quiet cs ts" and n: "length (cs @ is) \<le> n" "count_ok n cs ts (wtz p)"
    and run: "create_threads e sch t tp 0 is p = (err, p')"
  shows "\<exists>ts'. let cs' = cs @ takeWhile (created_ok e t tp) is in
    one_pool e cs' N ts' p' \<and> count_ok n cs' ts' (wtz p') \<and> (err = 0 \<longleftrightarrow> (\<forall>i\<in>set is. created_ok e t tp i)) \<and>
    (\<forall>i. \<not> zt_stop (ts' i)) \<and> (err = 0 \<longrightarrow> quiet cs' ts')"
  using assms
proof (induction "is" arbitrary: cs ts p)
  case Nil
  then show ?case by (intro exI [of _ ts]) (simp add: quiet_def Let_def)
next
  case (Cons i "is")
  define p1 where "p1 = run_threads e (sch_run sch (Before_create 0 i)) p"
  have dl: "distinct cs" "length cs \<le> n" "i \<notin> set cs" using Cons.prems(2,4) by auto
  from run_threads_one [OF Cons.prems(1), of "sch_run sch (Before_create 0 i)" n] Cons.prems(5) dl(1,2) obtain t1 where
    t1: "one_pool e cs N t1 p1" "\<forall>j. zt_stop (t1 j) = zt_stop (ts j)" "\<forall>j. j \<notin> set cs \<longrightarrow> t1 j = ts j" "count_ok n cs t1 (wtz p1)"
    unfolding p1_def [symmetric] by blast
  have q1: "quiet cs t1" using Cons.prems(3) t1(2,3) by (auto simp: quiet_def)
  define zt where "zt = zeroed_zt\<lparr>zt_no := i, zt_chan := 0\<rparr>"
  have zt: "(zt_at p1 0 i)\<lparr>zt_no := i, zt_chan := 0\<rparr> = zt" "zt_zbt zt = zeroed_zbt"
    using t1(1) q1 dl(3) by (simp_all add: zt_at_def one_pool_def quiet_def zt_def zeroed_zt_def)
  obtain err1 aff zbt where c: "thread_create (z_pthread (e 0 i)) t (tp\<lparr>tp_one_cpu := Some i\<rparr>) zeroed_zbt = (err1, aff, zbt)"
    by (metis prod.exhaust)
  have z0: "\<not> zbt_thread zeroed_zbt" "zbt_err zeroed_zbt = 0" by (simp_all add: zeroed_zbt_def)
  note zbt = thread_create_cpu [OF c z0(1)]
  define t2 where "t2 = t1(i := zt\<lparr>zt_zbt := zbt\<rparr>)"
  define p2 where "p2 = upd_zt 0 i (\<lambda>_. zt\<lparr>zt_zbt := zbt\<rparr>) p1"
  have p2: "p2 = p1\<lparr>zts := [0 \<mapsto> t2]\<rparr>" using t1(1) by (simp add: p2_def t2_def upd_zt_def one_pool_def)
  have ok: "created_ok e t tp i = (err1 = 0)" using c by (simp add: created_ok_def)
  have step: "create_threads e sch t tp 0 (i # is) p = (if err1 \<noteq> 0 then (err1, p2) else create_threads e sch t tp 0 is p2)"
    unfolding create_threads.simps Let_def p1_def [symmetric] zt c prod.case p2_def ..
  have began: "filter (\<lambda>j. zt_began (t2 j)) cs = filter (\<lambda>j. zt_began (t1 j)) cs" by (rule filter_cong) (use dl(3) in \<open>auto simp: t2_def\<close>)
  have new: "\<not> zt_began (t2 i)" by (simp add: t2_def zt_def zeroed_zt_def)
  have count: "count_ok n cs t2 (wtz p2)" "count_ok n (cs @ [i]) t2 (wtz p2)"
    using t1(4) began new by (simp_all add: count_ok_def p2 Let_def)
  have stops: "\<forall>j. \<not> zt_stop (t2 j)" using q1 by (simp add: t2_def zt_def zeroed_zt_def quiet_def)
  show ?case
  proof (cases "err1 = 0")
    case False
    then have "zt_none (zt\<lparr>zt_zbt := zbt\<rparr>)" using zbt by (simp add: zt_none_def zt_def zeroed_zt_def)
    then have "one_pool e cs N t2 p2" using t1(1) dl(3) by (auto simp: one_pool_def p2 t2_def)
    then show ?thesis using Cons.prems(6) False ok count(1) stops unfolding step by (intro exI [of _ t2]) simp
  next
    case True
    then have "zt_made 0 i (zt\<lparr>zt_zbt := zbt\<rparr>)" using zbt z0(2) by (simp add: zt_made_def zt_def zeroed_zt_def)
    then have o: "one_pool e (cs @ [i]) N t2 p2" using t1(1) by (auto simp: one_pool_def p2 t2_def zt_ok_def)
    have "quiet (cs @ [i]) t2" using q1 stops by (auto simp: quiet_def t2_def)
    moreover have "create_threads e sch t tp 0 is p2 = (err, p')" using Cons.prems(6) True unfolding step by simp
    ultimately show ?thesis using Cons.IH [OF o _ _ _ count(2)] Cons.prems(2,4) ok True by simp
  qed
qed

text \<open>What a thread whose initialisation fails leaves open: nobody closes it.\<close>

definition leaks_fd :: "zt_env \<Rightarrow> bool" where
  "leaks_fd e = (z_open e = 0 \<and> \<not> inits_ok e)"

definition leaks_map :: "zt_env \<Rightarrow> bool" where
  "leaks_map e = (z_open e = 0 \<and> z_init e = 0 \<and> z_mmap e = 0 \<and> \<not> inits_ok e)"

definition zt_done :: "(nat \<Rightarrow> nat \<Rightarrow> zt_env) \<Rightarrow> nat list \<Rightarrow> nat \<Rightarrow> zu_thread \<Rightarrow> bool" where
  "zt_done e cs i zt =
    (zt_fd zt = (i \<in> set cs \<and> leaks_fd (e 0 i)) \<and> zt_api_mem zt = (i \<in> set cs \<and> leaks_map (e 0 i)) \<and> \<not> zt_op_buff zt)"

definition joinable :: "(nat \<Rightarrow> nat \<Rightarrow> zt_env) \<Rightarrow> nat list \<Rightarrow> nat \<Rightarrow> zu_thread \<Rightarrow> bool" where
  "joinable e cs i zt = (if i \<in> set cs then zt_stop zt \<and> zt_ok (e 0 i) 0 i zt else zt_none zt)"

lemma join_one:
  assumes z: "zts p = [0 \<mapsto> ts]" and j: "joinable e cs i (ts i)"
  shows "if i \<in> set cs \<and> zt_waits (ts i) \<and> \<not> brk \<and> \<not> sch_op sch 0 i then join_thread e sch brk 0 i p = None
    else \<exists>zt w. join_thread e sch brk 0 i p = Some (p\<lparr>zts := [0 \<mapsto> ts(i := zt)], wtz := w\<rparr>) \<and> zt_done e cs i zt"
proof (cases "i \<in> set cs")
  case False
  then have "zt_none (ts i)" using j by (simp add: joinable_def)
  then have "join_thread e sch brk 0 i p = Some p" "zt_done e cs i (ts i)"
    using z False by (simp_all add: join_thread_def zt_at_def zt_none_def zt_done_def)
  moreover have "p\<lparr>zts := [0 \<mapsto> ts(i := ts i)], wtz := wtz p\<rparr> = p" unfolding fun_upd_triv z [symmetric] by simp
  ultimately show ?thesis using False by (simp only: simp_thms if_False) (intro exI [of _ "ts i"] exI [of _ "wtz p"], simp only: simp_thms)
next
  case True
  then have ok: "zt_stop (ts i)" "zt_ok (e 0 i) 0 i (ts i)" using j by (simp_all add: joinable_def)
  define z' where "z' = (if zt_began (ts i) then ts i else zu_thread_begin (e 0 i) (ts i))"
  have th: "zbt_thread (zt_zbt (ts i))" using ok(2) by (auto simp: zt_ok_def zt_made_def zt_begun_def)
  have b: "zt_begun (e 0 i) 0 i z'" "zt_waits z' = zt_waits (ts i)"
    using ok made_begins [of 0 i "ts i" "e 0 i"] by (auto simp: zt_ok_def z'_def zt_made_def zt_begun_def)
  obtain w where run: "zt_run e (0, i) p = p\<lparr>zts := [0 \<mapsto> ts(i := z')], wtz := w\<rparr>"
  proof (cases "zt_began (ts i)")
    case True
    then have "zt_run e (0, i) p = p\<lparr>zts := [0 \<mapsto> ts(i := z')], wtz := wtz p\<rparr>" using z by (simp add: zt_run_def zt_at_def z'_def)
    then show thesis by (rule that)
  next
    case False
    then have "zt_run e (0, i) p = p\<lparr>zts := [0 \<mapsto> ts(i := z')], wtz := wtz_release (wtz p)\<rparr>"
      using z th by (simp add: zt_run_def zt_at_def z'_def upd_zt_def)
    then show thesis by (rule that)
  qed
  let ?d = "(zu_thread_end z')\<lparr>zt_waits := False, zt_zbt := (zt_zbt z')\<lparr>zbt_thread := False\<rparr>\<rparr>"
  have d: "zt_done e cs i ?d"
    using b(1) True by (auto simp: zt_done_def zt_begun_def zu_thread_end_def zu_unmap_def zu_ioc_buff_unmap_def leaks_fd_def leaks_map_def inits_ok_def)
  have "join_thread e sch brk 0 i p = (if zt_waits (ts i) \<and> \<not> brk \<and> \<not> sch_op sch 0 i then None else Some (p\<lparr>zts := [0 \<mapsto> ts(i := ?d)], wtz := w\<rparr>))"
    using z th b(2) by (simp add: join_thread_def run zt_at_def upd_zt_def)
  then show ?thesis using d True by auto
qed

lemma join_all:
  assumes "zts p = [0 \<mapsto> ts]" "\<forall>i\<in>set is. joinable e cs i (ts i)" "distinct is"
  shows "if \<exists>i\<in>set is. i \<in> set cs \<and> zt_waits (ts i) \<and> \<not> brk \<and> \<not> sch_op sch 0 i then join_threads e sch brk 0 is p = None
    else \<exists>ts' w. join_threads e sch brk 0 is p = Some (p\<lparr>zts := [0 \<mapsto> ts'], wtz := w\<rparr>) \<and> (\<forall>i\<in>set is. zt_done e cs i (ts' i)) \<and> (\<forall>i. i \<notin> set is \<longrightarrow> ts' i = ts i)"
  using assms
proof (induction "is" arbitrary: p ts)
  case Nil
  have "p\<lparr>zts := [0 \<mapsto> ts], wtz := wtz p\<rparr> = p" unfolding Nil(1) [symmetric] by simp
  then show ?case by (auto intro!: exI [of _ ts] exI [of _ "wtz p"])
next
  case (Cons i "is")
  let ?blocks = "\<lambda>ts i. i \<in> set cs \<and> zt_waits (ts i) \<and> \<not> brk \<and> \<not> sch_op sch 0 i"
  have j: "joinable e cs i (ts i)" using Cons.prems(2) by simp
  note one = join_one [OF Cons.prems(1) j, of brk sch]
  show ?case
  proof (cases "?blocks ts i")
    case True
    then show ?thesis using one by auto
  next
    case False
    with one obtain zt w where zt: "join_thread e sch brk 0 i p = Some (p\<lparr>zts := [0 \<mapsto> ts(i := zt)], wtz := w\<rparr>)" "zt_done e cs i zt" by auto
    define p1 where "p1 = p\<lparr>zts := [0 \<mapsto> ts(i := zt)], wtz := w\<rparr>"
    have d: "i \<notin> set is" "distinct is" using Cons.prems(3) by simp_all
    have z1: "zts p1 = [0 \<mapsto> ts(i := zt)]" by (simp add: p1_def)
    have "\<forall>k\<in>set is. joinable e cs k ((ts(i := zt)) k)" using Cons.prems(2) d(1) by auto
    note IH = Cons.IH [OF z1 this d(2)]
    have same: "(\<exists>k\<in>set is. ?blocks (ts(i := zt)) k) = (\<exists>k\<in>set (i # is). ?blocks ts k)" using False d(1) by (auto simp del: fun_upd_apply simp: fun_upd_def)
    have run: "join_threads e sch brk 0 (i # is) p = join_threads e sch brk 0 is p1" using zt(1) by (simp add: p1_def)
    show ?thesis
    proof (cases "\<exists>k\<in>set (i # is). ?blocks ts k")
      case True
      then show ?thesis using IH same run by simp
    next
      case nb: False
      then have nb': "\<not> (\<exists>k\<in>set is. ?blocks (ts(i := zt)) k)" unfolding same .
      from IH [unfolded if_not_P [OF nb']] obtain ts' w' where t': "join_threads e sch brk 0 is p1 = Some (p1\<lparr>zts := [0 \<mapsto> ts'], wtz := w'\<rparr>)"
        "\<forall>k\<in>set is. zt_done e cs k (ts' k)" "\<forall>k. k \<notin> set is \<longrightarrow> ts' k = (ts(i := zt)) k" by blast
      have "p1\<lparr>zts := [0 \<mapsto> ts'], wtz := w'\<rparr> = p\<lparr>zts := [0 \<mapsto> ts'], wtz := w'\<rparr>" by (simp add: p1_def)
      then show ?thesis using nb run t' zt(2) d(1) by (simp only: if_False) (intro exI [of _ ts'] exI [of _ w'], auto)
    qed
  qed
qed

lemma filter_range_length:
  assumes "distinct cs" "set cs \<subseteq> {..<N}"
  shows "length (filter (\<lambda>i. i \<in> set cs \<and> P i) [0..<N]) = length (filter P cs)"
proof -
  have "distinct (filter P cs)" using assms(1) by simp
  then have "length (filter P cs) = card (set (filter P cs))" by (rule distinct_card [symmetric])
  also have "set (filter P cs) = set (filter (\<lambda>i. i \<in> set cs \<and> P i) [0..<N])" using assms(2) by auto
  also have "card \<dots> = length (filter (\<lambda>i. i \<in> set cs \<and> P i) [0..<N])" by (rule distinct_card) simp
  finally show ?thesis by simp
qed

lemma set_stops:
  "zts p = [0 \<mapsto> ts] \<Longrightarrow> fold (\<lambda>i. upd_zt 0 i (\<lambda>zt. zt\<lparr>zt_stop := True\<rparr>)) is p =
    p\<lparr>zts := [0 \<mapsto> \<lambda>i. if i \<in> set is then (ts i)\<lparr>zt_stop := True\<rparr> else ts i]\<rparr>"
proof (induction "is" arbitrary: p ts)
  case Nil
  have "p\<lparr>zts := [0 \<mapsto> ts]\<rparr> = p" unfolding Nil(1) [symmetric] by simp
  then show ?case by (simp only: fold_simps list.set empty_iff if_False)
next
  case (Cons i "is")
  define t' where "t' = ts(i := (ts i)\<lparr>zt_stop := True\<rparr>)"
  define u where "u = upd_zt 0 i (\<lambda>zt. zt\<lparr>zt_stop := True\<rparr>) p"
  have u: "u = p\<lparr>zts := [0 \<mapsto> t']\<rparr>" unfolding u_def t'_def upd_zt_def Cons.prems by (simp only: fun_upd_same option.case fun_upd_upd)
  have eq: "(\<lambda>j. if j \<in> set is then (t' j)\<lparr>zt_stop := True\<rparr> else t' j) = (\<lambda>j. if j \<in> set (i # is) then (ts j)\<lparr>zt_stop := True\<rparr> else ts j)"
    by (rule ext) (simp add: t'_def)
  have "zts u = [0 \<mapsto> t']" by (simp add: u)
  from Cons.IH [OF this, unfolded eq] show ?case unfolding fold_simps u_def [symmetric] by (simp only: u zt_pool.update_convs) simp
qed

lemma zt_ok_stop: "zt_ok e c i zt \<Longrightarrow> zt_ok e c i (zt\<lparr>zt_stop := True\<rparr>)" "zt_none zt \<Longrightarrow> zt_none (zt\<lparr>zt_stop := True\<rparr>)"
  by (auto simp: zt_ok_def zt_made_def zt_begun_def zt_none_def)

text \<open>
  The stop of one channel: it waits for ever, or gives back all but what failed threads hold. If all threads run, it ends exactly when
  CPU 0 has a thread, or every thread still gets an operation.
\<close>

lemma stop_one:
  assumes p: "one_pool e cs N ts p" and cs: "distinct cs" "set cs \<subseteq> {..<N}"
  shows "case zus_stop_all_threads e sch p of None \<Rightarrow> True
      | Some p' \<Rightarrow> p' = zeroed_pool (length (filter (\<lambda>i. leaks_fd (e 0 i)) cs)) (length (filter (\<lambda>i. leaks_map (e 0 i)) cs))"
    and "(\<And>i. i \<in> set cs \<Longrightarrow> zt_runs 0 i (ts i) \<and> zt_began (ts i)) \<Longrightarrow> (zus_stop_all_threads e sch p = None) = (0 \<notin> set cs \<and> (\<exists>i\<in>set cs. \<not> sch_op sch 0 i))"
proof -
  define p1 where "p1 = run_threads e (sch_run sch (Before_stop 0)) p"
  from run_threads_one [OF p, of "sch_run sch (Before_stop 0)"] obtain t1 where
    t1: "one_pool e cs N t1 p1" "\<forall>i\<in>set cs. zt_began (ts i) \<longrightarrow> t1 i = ts i" unfolding p1_def by blast
  define t2 where "t2 = (\<lambda>i. if i < N then (t1 i)\<lparr>zt_stop := True\<rparr> else t1 i)"
  define p2 where "p2 = fold (\<lambda>i. upd_zt 0 i (\<lambda>zt. zt\<lparr>zt_stop := True\<rparr>)) [0..<num_zts p1] p1"
  have "p2 = p1\<lparr>zts := [0 \<mapsto> t2]\<rparr>" using set_stops [of p1 t1 "[0..<N]"] t1(1) by (simp add: p2_def t2_def one_pool_def)
  then have o2: "one_pool e cs N t2 p2" using t1(1) zt_ok_stop by (auto simp: one_pool_def t2_def)
  define p3 where "p3 = run_threads e (sch_run sch (Before_break 0)) p2"
  from run_threads_one [OF o2, of "sch_run sch (Before_break 0)"] obtain t3 where
    t3: "one_pool e cs N t3 p3" "\<forall>i. zt_stop (t3 i) = zt_stop (t2 i)" "\<forall>i\<in>set cs. zt_began (t2 i) \<longrightarrow> t3 i = t2 i" unfolding p3_def by blast
  define brk where "brk = zt_fd (zt_at p3 0 0)"
  have z3: "zts p3 = [0 \<mapsto> t3]" "num_zts p3 = N" "lost_fds p3 = 0" "lost_maps p3 = 0" using t3(1) by (simp_all add: one_pool_def)
  have j: "\<forall>i\<in>set [0..<N]. joinable e cs i (t3 i)"
    using t3(1,2) cs(2) by (auto simp: joinable_def one_pool_def t2_def)
  let ?blocks = "\<lambda>i. i \<in> set cs \<and> zt_waits (t3 i) \<and> \<not> brk \<and> \<not> sch_op sch 0 i"
  let ?R = "zeroed_pool (length (filter (\<lambda>i. leaks_fd (e 0 i)) cs)) (length (filter (\<lambda>i. leaks_map (e 0 i)) cs))"
  have n0: "zts p 0 \<noteq> None" "max_channels p = 1" using p by (simp_all add: one_pool_def)
  have "zus_stop_chan_threads e sch 0 p = do {
      p \<leftarrow> join_threads e sch brk 0 [0..<num_zts p3] p3;
      let (fds, maps) = held (num_zts p) (zt_at p 0);
      Some (p\<lparr>zts := (zts p)(0 := None), lost_fds := lost_fds p + fds, lost_maps := lost_maps p + maps\<rparr>) }"
    unfolding zus_stop_chan_threads_def if_not_P [OF n0(1)] Let_def p1_def [symmetric] p2_def [symmetric] p3_def [symmetric] brk_def [symmetric] ..
  then have stop: "zus_stop_all_threads e sch p = do {
      p \<leftarrow> join_threads e sch brk 0 [0..<N] p3;
      Some (zeroed_pool (lost_fds p + fst (held (num_zts p) (zt_at p 0))) (lost_maps p + snd (held (num_zts p) (zt_at p 0)))) }"
    by (simp add: zus_stop_all_threads_def n0(2) z3(2) split: prod.splits bind_splits)
  have E: "zus_stop_all_threads e sch p = (if \<exists>i\<in>set [0..<N]. ?blocks i then None else Some ?R)"
  proof (cases "\<exists>i\<in>set [0..<N]. ?blocks i")
    case True
    from join_all [OF z3(1) j distinct_upt, of brk sch, unfolded if_P [OF True]] show ?thesis using True by (simp add: stop)
  next
    case False
    from join_all [OF z3(1) j distinct_upt, of brk sch, unfolded if_not_P [OF False]] obtain t4 w where
      t4: "join_threads e sch brk 0 [0..<N] p3 = Some (p3\<lparr>zts := [0 \<mapsto> t4], wtz := w\<rparr>)" "\<forall>i\<in>set [0..<N]. zt_done e cs i (t4 i)" by blast
    have "filter (\<lambda>i. zt_fd (t4 i)) [0..<N] = filter (\<lambda>i. i \<in> set cs \<and> leaks_fd (e 0 i)) [0..<N]"
      "filter (\<lambda>i. zt_api_mem (t4 i)) [0..<N] = filter (\<lambda>i. i \<in> set cs \<and> leaks_map (e 0 i)) [0..<N]"
      "filter (\<lambda>i. zt_op_buff (t4 i)) [0..<N] = []" using t4(2) by (auto simp: zt_done_def intro!: filter_cong)
    then have "held N (\<lambda>i. t4 i) = (length (filter (\<lambda>i. leaks_fd (e 0 i)) cs), length (filter (\<lambda>i. leaks_map (e 0 i)) cs))"
      using filter_range_length [OF cs] by (simp add: held_def)
    moreover have "zt_at (p3\<lparr>zts := [0 \<mapsto> t4], wtz := w\<rparr>) 0 = (\<lambda>i. t4 i)" by (rule ext) (simp add: zt_at_def)
    ultimately show ?thesis using False unfolding stop t4(1) by (simp add: z3)
  qed
  show "case zus_stop_all_threads e sch p of None \<Rightarrow> True | Some p' \<Rightarrow> p' = ?R" unfolding E by simp
  show "(zus_stop_all_threads e sch p = None) = (0 \<notin> set cs \<and> (\<exists>i\<in>set cs. \<not> sch_op sch 0 i))"
    if run: "\<And>i. i \<in> set cs \<Longrightarrow> zt_runs 0 i (ts i) \<and> zt_began (ts i)"
  proof -
    have w: "zt_waits (t3 i) \<and> zt_fd (t3 i)" if "i \<in> set cs" for i
      using run [OF that] t1(2) t3(3) that cs(2) by (auto simp: t2_def zt_runs_def)
    have "zt_none (t3 0)" if "0 \<notin> set cs" using t3(1) that by (auto simp: one_pool_def)
    then have "brk = (0 \<in> set cs)" using w [of 0] z3(1) by (auto simp: brk_def zt_at_def zt_none_def)
    then show ?thesis unfolding E using w cs(2) by auto
  qed
qed

lemma first_err_one:
  assumes "one_pool e cs N ts p"
  shows "(first_err p = 0) = (\<forall>i < N. zbt_err (zt_zbt (ts i)) = 0)"
proof -
  let ?P = "\<lambda>(c, i). zbt_err (zt_zbt (zt_at p c i)) \<noteq> 0"
  let ?L = "List.product [0..<max_channels p] [0..<num_zts p]"
  have p: "max_channels p = 1" "num_zts p = N" "\<And>i. zt_at p 0 i = ts i" using assms by (simp_all add: one_pool_def zt_at_def)
  have "(first_err p = 0) = (find ?P ?L = None)"
  proof (cases "find ?P ?L")
    case (Some ci)
    then have "?P ci" by (metis (mono_tags, lifting) find_Some_iff)
    then show ?thesis using Some by (auto simp: first_err_def)
  qed (simp add: first_err_def)
  also have "\<dots> = (\<forall>i < N. zbt_err (zt_zbt (ts i)) = 0)" using p by (auto simp: find_None_iff)
  finally show ?thesis .
qed

lemma online_cpus_list:
  "for_each_cpu nr m (- 1) = filter (\<lambda>c. cpu_isset (int c) m) [0..<nr]"
  using for_each_cpu_spec [of "- 1" nr m] by simp

text \<open>No call fails; and while the starting thread waits, every new thread runs.\<close>

definition all_start :: "(nat \<Rightarrow> bool) \<Rightarrow> (nat \<Rightarrow> nat \<Rightarrow> zt_env) \<Rightarrow> zus_topology \<Rightarrow> zus_thread_params \<Rightarrow> nat list \<Rightarrow> bool" where
  "all_start mem e t tp cs = (mem 0 \<and> (\<forall>i\<in>set cs. created_ok e t tp i \<and> inits_ok (e 0 i)))"

definition fair :: "schedule \<Rightarrow> nat list \<Rightarrow> bool" where
  "fair sch cs = (\<forall>i\<in>set cs. (0, i) \<in> set (sch_run sch Before_wait))"

definition made_cpus :: "(nat \<Rightarrow> bool) \<Rightarrow> (nat \<Rightarrow> nat \<Rightarrow> zt_env) \<Rightarrow> zus_topology \<Rightarrow> zus_thread_params \<Rightarrow> nat list \<Rightarrow> nat list" where
  "made_cpus mem e t tp cs = (if mem 0 then takeWhile (created_ok e t tp) cs else [])"

text \<open>The creation of the threads of the only channel.\<close>

lemma start_one_chan:
  assumes cs: "cs = for_each_cpu (zus_nr_cpu_ids t) (zus_cpu_online_mask t) (- 1)" and n: "online_cpus (zus_numa_map t) = length cs" "cs \<noteq> []"
    and p0: "p0 = (zeroed_pool 0 0)\<lparr>wtz := wtz_init, num_zts := N, max_channels := 1\<rparr>" and mem: "mem 0"
    and run: "start_chans mem e sch t tp 0 1 p0 = (err, p)"
  shows "\<exists>ts. one_pool e (made_cpus mem e t tp cs) N ts p \<and> count_ok (length cs) (made_cpus mem e t tp cs) ts (wtz p) \<and>
    (err = 0 \<longleftrightarrow> (\<forall>i\<in>set cs. created_ok e t tp i)) \<and> (err = 0 \<longrightarrow> quiet cs ts)"
proof -
  define p1 where "p1 = p0\<lparr>zts := (zts p0)(0 \<mapsto> \<lambda>_. zeroed_zt)\<rparr>"
  have o1: "one_pool e [] N (\<lambda>_. zeroed_zt) p1" by (simp add: one_pool_def p1_def p0 zeroed_pool_def zt_none_def zeroed_zt_def zeroed_zbt_def)
  have "zt_run e ci p1 = p1" for ci by (cases ci) (simp add: zt_run_def p1_def p0 zeroed_pool_def zt_at_def zeroed_zt_def zeroed_zbt_def)
  then have id: "run_threads e l p1 = p1" for l by (induction l) (simp_all add: run_threads_def)
  define p2 where "p2 = p1\<lparr>wtz := wtz_arm (length cs) (wtz p1)\<rparr>"
  have o2: "one_pool e [] N (\<lambda>_. zeroed_zt) p2" using o1 by (simp add: one_pool_def p2_def)
  have q: "quiet [] (\<lambda>_. zeroed_zt)" by (simp add: quiet_def zeroed_zt_def)
  have c: "count_ok (length cs) [] (\<lambda>_. zeroed_zt) (wtz p2)" using n(2) by (simp add: count_ok_def p2_def p1_def p0 wtz_arm_def wtz_init_def)
  have "create_threads e sch t tp 0 cs p2 = (err, p)"
    using run mem unfolding zus_start_chan_threads_def cs [symmetric]
    by (simp add: zus_start_chan_threads_def cs [symmetric] p1_def [symmetric] id n(1) p2_def [symmetric] Let_def split: prod.splits if_splits)
  from create_one [OF o2 _ q _ c this] show ?thesis using mem cs n(1)
    by (auto simp: Let_def made_cpus_def online_cpus_list takeWhile_eq_all_conv [THEN iffD2])
qed

lemma begun_runs:
  assumes "zt_begun e c i zt" "inits_ok e" "\<not> zt_stop zt"
  shows "zt_runs c i zt \<and> zt_began zt"
  using assms unfolding zt_begun_def zt_runs_def inits_ok_def by simp

lemma wait_all_begun:
  assumes "count_ok n cs ts w" "n = length cs" "cs \<noteq> []"
  shows "wtz_wait w = (if \<forall>i\<in>set cs. zt_began (ts i) then Some (w\<lparr>sem := 0\<rparr>) else None)"
proof -
  have "(length (filter (\<lambda>i. zt_began (ts i)) cs) = n) = (\<forall>i\<in>set cs. zt_began (ts i))"
    using assms(2) length_filter_less [of _ cs "\<lambda>i. zt_began (ts i)"] by (metis filter_True less_irrefl)
  then show ?thesis using assms(1) by (auto simp: count_ok_def wtz_wait_def Let_def)
qed

text \<open>The wait for the threads of the only channel, and the check behind it.\<close>

lemma wait_one_chan:
  assumes o1: "one_pool e cs N ts p1" and c1: "count_ok (length cs) cs ts (wtz p1)" and q: "quiet cs ts"
    and cs: "distinct cs" "set cs \<subseteq> {..<N}" "cs \<noteq> []" and p2: "p2 = run_threads e (sch_run sch Before_wait) p1"
  shows "case wtz_wait (wtz p2) of None \<Rightarrow> \<not> fair sch cs
    | Some w \<Rightarrow> \<exists>t3. let p3 = run_threads e (sch_run sch Before_check) (p2\<lparr>wtz := w\<rparr>) in
        one_pool e cs N t3 p3 \<and> (\<forall>i\<in>set cs. zt_begun (e 0 i) 0 i (t3 i) \<and> \<not> zt_stop (t3 i)) \<and>
        (first_err p3 = 0 \<longleftrightarrow> (\<forall>i\<in>set cs. inits_ok (e 0 i)))"
proof -
  from run_threads_one [OF o1, of "sch_run sch Before_wait" "length cs"] c1 cs(1) obtain t2 where
    t2: "one_pool e cs N t2 p2" "\<forall>i. zt_stop (t2 i) = zt_stop (ts i)" "\<forall>i\<in>set cs. (0, i) \<in> set (sch_run sch Before_wait) \<longrightarrow> zt_began (t2 i)"
      "\<forall>i. i \<notin> set cs \<longrightarrow> t2 i = ts i" "count_ok (length cs) cs t2 (wtz p2)" unfolding p2 by blast
  note wait = wait_all_begun [OF t2(5) refl cs(3)]
  show ?thesis
  proof (cases "\<forall>i\<in>set cs. zt_began (t2 i)")
    case False
    then have "\<not> fair sch cs" using t2(3) by (auto simp: fair_def)
    then show ?thesis unfolding wait if_not_P [OF False] by simp
  next
    case begun: True
    define p3 where "p3 = run_threads e (sch_run sch Before_check) (p2\<lparr>wtz := (wtz p2)\<lparr>sem := 0\<rparr>\<rparr>)"
    have "one_pool e cs N t2 (p2\<lparr>wtz := (wtz p2)\<lparr>sem := 0\<rparr>\<rparr>)" using t2(1) by (simp add: one_pool_def)
    from run_threads_one [OF this, of "sch_run sch Before_check"] obtain t3 where
      t3: "one_pool e cs N t3 p3" "\<forall>i\<in>set cs. zt_began (t2 i) \<longrightarrow> t3 i = t2 i" "\<forall>i. i \<notin> set cs \<longrightarrow> t3 i = t2 i" unfolding p3_def by blast
    then have t32: "t3 i = t2 i" for i using begun by (cases "i \<in> set cs") auto
    have b: "zt_begun (e 0 i) 0 i (t3 i) \<and> \<not> zt_stop (t3 i)" if "i \<in> set cs" for i
      using t3(1) begun t2(2) q that by (auto simp: t32 one_pool_def zt_ok_def zt_made_def quiet_def)
    have "zbt_err (zt_zbt (t3 i)) = 0" if "i \<notin> set cs" for i using t2(4) q that by (simp add: t32 quiet_def zeroed_zt_def zeroed_zbt_def)
    then have "(first_err p3 = 0) = (\<forall>i\<in>set cs. inits_ok (e 0 i))"
      using first_err_one [OF t3(1)] b cs(2) by (auto simp: zt_begun_def)
    then show ?thesis using t3(1) b unfolding wait if_P [OF begun] p3_def by (auto simp: Let_def)
  qed
qed

text \<open>The stop of a channel whose threads all run.\<close>

lemma stop_running:
  assumes o: "one_pool e cs N ts p" and cs: "distinct cs" "set cs \<subseteq> {..<N}"
    and r: "\<And>i. i \<in> set cs \<Longrightarrow> zt_runs 0 i (ts i) \<and> zt_began (ts i)" and i: "\<And>i. i \<in> set cs \<Longrightarrow> inits_ok (e 0 i)"
  shows "zus_stop_all_threads e sch p = (if 0 \<in> set cs \<or> (\<forall>i\<in>set cs. sch_op sch 0 i) then Some (zeroed_pool 0 0) else None)"
proof -
  have "filter (\<lambda>i. leaks_fd (e 0 i)) cs = []" "filter (\<lambda>i. leaks_map (e 0 i)) cs = []"
    using i by (auto simp: leaks_fd_def leaks_map_def filter_empty_conv)
  then show ?thesis using stop_one(1) [OF o cs, of sch] stop_one(2) [OF o cs r, of sch]
    by (cases "zus_stop_all_threads e sch p") auto
qed

text \<open>
  C39. \<open>zus_start_all_threads\<close> on an empty pool, with one channel and under any schedule of the new threads. It returns 0 exactly if no call fails; then every
  online CPU has a thread that is bound to it and waits in the kernel, with its descriptor and both mappings, and \<open>zus_stop_all_threads\<close> brings back the empty pool with
  nothing left open if CPU 0 is online or every thread still gets an operation, and otherwise never returns: the call that should wake up the threads
  goes to the descriptor of CPU 0. If it returns an error, the pool is empty again and all threads have ended, but a thread whose
  initialisation failed behind the \<open>open\<close> has left its descriptor and its mapping open. It waits for ever only if the
  schedule starves a new thread, or if a call fails (its stop may wait for a thread that nobody wakes up, as \<open>failed_start_hangs\<close> shows). With more channels the counter
  does not do its work, see \<open>two_channels_start_early\<close>.
\<close>

theorem zus_start_all_threads_correct:
  assumes cs: "cs = for_each_cpu (zus_nr_cpu_ids t) (zus_cpu_online_mask t) (- 1)" and nr: "zus_nr_cpu_ids t = possible_cpus (zus_numa_map t)"
    and n: "online_cpus (zus_numa_map t) = length cs" "cs \<noteq> []"
  shows "case zus_start_all_threads mem e sch t tp 1 (zeroed_pool 0 0) of
      None \<Rightarrow> \<not> (all_start mem e t tp cs \<and> fair sch cs)
    | Some (err, p) \<Rightarrow> (err = 0 \<longleftrightarrow> all_start mem e t tp cs) \<and>
       (if err = 0
        then (\<forall>i\<in>set cs. \<exists>ts. zts p 0 = Some ts \<and> zt_runs 0 i (ts i)) \<and>
          (\<forall>sch'. zus_stop_all_threads e sch' p = (if 0 \<in> set cs \<or> (\<forall>i\<in>set cs. sch_op sch' 0 i) then Some (zeroed_pool 0 0) else None))
        else p = zeroed_pool (length (filter (\<lambda>i. leaks_fd (e 0 i)) (made_cpus mem e t tp cs)))
                   (length (filter (\<lambda>i. leaks_map (e 0 i)) (made_cpus mem e t tp cs))))"
proof -
  define N where "N = possible_cpus (zus_numa_map t)"
  define made where "made = made_cpus mem e t tp cs"
  let ?R = "zeroed_pool (length (filter (\<lambda>i. leaks_fd (e 0 i)) made)) (length (filter (\<lambda>i. leaks_map (e 0 i)) made))"
  define p0 where "p0 = (zeroed_pool 0 0)\<lparr>wtz := wtz_init, num_zts := N, max_channels := 1\<rparr>"
  obtain err1 p1 where p1: "start_chans mem e sch t tp 0 1 p0 = (err1, p1)" by force
  have start: "zus_start_all_threads mem e sch t tp 1 (zeroed_pool 0 0) =
    (if err1 \<noteq> 0 then do { p \<leftarrow> zus_stop_all_threads e sch p1; Some (err1, p) }
     else do {
       let p = run_threads e (sch_run sch Before_wait) p1;
       w \<leftarrow> wtz_wait (wtz p);
       let p = run_threads e (sch_run sch Before_check) (p\<lparr>wtz := w\<rparr>);
       if first_err p \<noteq> 0 then do { p' \<leftarrow> zus_stop_all_threads e sch p; Some (first_err p, p') } else Some (0, p) })"
    unfolding zus_start_all_threads_def Let_def N_def [symmetric] p0_def [symmetric] p1 prod.case ..
  have csd: "distinct cs" "set cs \<subseteq> {..<N}" using cs nr by (auto simp: online_cpus_list N_def)
  have md: "distinct made" "set made \<subseteq> {..<N}"
    using csd by (auto simp: made_def made_cpus_def distinct_takeWhile dest: set_takeWhileD)
  show ?thesis
  proof (cases "mem 0")
    case False
    then have "err1 = - 12" "p1 = p0" using p1 by (simp_all add: zus_start_chan_threads_def)
    moreover have "zus_stop_all_threads e sch p0 = Some (zeroed_pool 0 0)"
      by (simp add: zus_stop_all_threads_def zus_stop_chan_threads_def p0_def zeroed_pool_def)
    ultimately show ?thesis using False unfolding start by (simp add: all_start_def made_cpus_def)
  next
    case True
    from start_one_chan [OF cs n p0_def True p1] obtain ts where
      ts: "one_pool e made N ts p1" "count_ok (length cs) made ts (wtz p1)" "(err1 = 0) = (\<forall>i\<in>set cs. created_ok e t tp i)" "err1 = 0 \<longrightarrow> quiet cs ts"
      unfolding made_def [symmetric] by blast
    show ?thesis
    proof (cases "err1 = 0")
      case False
      have "\<not> all_start mem e t tp cs" using False ts(3) by (auto simp: all_start_def)
      then show ?thesis using stop_one(1) [OF ts(1) md, of sch] False unfolding start made_def [symmetric]
        by (cases "zus_stop_all_threads e sch p1") simp_all
    next
      case ok: True
      have mc: "made = cs" using ok ts(3) True by (auto simp: made_def made_cpus_def takeWhile_eq_all_conv)
      define p2 where "p2 = run_threads e (sch_run sch Before_wait) p1"
      have "quiet cs ts" "one_pool e cs N ts p1" "count_ok (length cs) cs ts (wtz p1)" using ts ok mc by simp_all
      note wait = wait_one_chan [OF this(2,3,1) csd n(2) p2_def]
      show ?thesis
      proof (cases "wtz_wait (wtz p2)")
        case None
        then show ?thesis using wait ok unfolding start p2_def [symmetric] Let_def by simp
      next
        case w: (Some w)
        define p3 where "p3 = run_threads e (sch_run sch Before_check) (p2\<lparr>wtz := w\<rparr>)"
        obtain t3 where t3: "one_pool e cs N t3 p3" "\<And>i. i \<in> set cs \<Longrightarrow> zt_begun (e 0 i) 0 i (t3 i) \<and> \<not> zt_stop (t3 i)"
          "(first_err p3 = 0) = (\<forall>i\<in>set cs. inits_ok (e 0 i))" using wait w by (auto simp: Let_def p3_def)
        have fe: "(first_err p3 = 0) = all_start mem e t tp cs" using ok ts(3) t3(3) True by (auto simp: all_start_def)
        have run: "zus_start_all_threads mem e sch t tp 1 (zeroed_pool 0 0) =
          (if first_err p3 \<noteq> 0 then do { p' \<leftarrow> zus_stop_all_threads e sch p3; Some (first_err p3, p') } else Some (0, p3))"
          using ok w unfolding start p2_def [symmetric] Let_def by (simp add: p3_def)
        show ?thesis
        proof (cases "first_err p3 = 0")
          case False
          then show ?thesis using stop_one(1) [OF t3(1) csd, of sch] fe unfolding run made_def [symmetric] mc
            by (cases "zus_stop_all_threads e sch p3") simp_all
        next
          case True
          then have i: "inits_ok (e 0 i)" if "i \<in> set cs" for i using t3(3) that by simp
          have r: "zt_runs 0 i (t3 i) \<and> zt_began (t3 i)" if "i \<in> set cs" for i
            using t3(2) [OF that] begun_runs i [OF that] by blast
          have z: "zts p3 0 = Some t3" using t3(1) by (simp add: one_pool_def)
          show ?thesis using True fe r z stop_running [OF t3(1) csd r i] unfolding run by simp
        qed
      qed
    qed
  qed
qed

definition sample_pthread :: pthread_env where
  "sample_pthread = \<lparr>pt_attr_init = 0, pt_inheritsched = 0, pt_schedpolicy = 0, pt_schedparam = 0, pt_affinity = 0, pt_create = 0\<rparr>"

definition sample_zt_env :: "nat \<Rightarrow> nat \<Rightarrow> zt_env" where
  "sample_zt_env c i = \<lparr>z_pthread = sample_pthread, z_open = 0, z_init = 0, z_mmap = 0, z_ioc_mmap = 0\<rparr>"

definition sample_running :: zus_topology where
  "sample_running = \<lparr>zus_numa_map = \<lparr>possible_nodes = 1, possible_cpus = 2, online_cpus = 2, cpu_set_per_node = \<lambda>_. {0, 1}\<rparr>, zus_nr_cpu_ids = 2,
     zus_cpu_possible_mask = {0, 1}, zus_cpu_online_mask = {0, 1}\<rparr>"

definition sample_tp :: zus_thread_params where
  "sample_tp = \<lparr>tp_other = True, tp_one_cpu = None, tp_nid = None\<rparr>"

text \<open>A schedule in which the thread of CPU 0 runs before the thread of CPU 1 is created, and this one while the starting thread waits.\<close>

definition sample_schedule :: schedule where
  "sample_schedule = \<lparr>sch_run = (\<lambda>pt. if pt = Before_create 0 1 then [(0, 0)] else if pt = Before_wait then [(0, 1), (0, 0)] else []), sch_op = \<lambda>_ _. False\<rparr>"

lemma sample_cpus: "for_each_cpu (zus_nr_cpu_ids sample_running) (zus_cpu_online_mask sample_running) (- 1) = [0, 1]"
  by (simp add: online_cpus_list sample_running_def cpu_isset_def upt_rec)

theorem zus_start_all_threads_correct_witness:
  "\<exists>p. zus_start_all_threads (\<lambda>_. True) sample_zt_env sample_schedule sample_running sample_tp 1 (zeroed_pool 0 0) = Some (0, p) \<and>
    (\<exists>ts. zts p 0 = Some ts \<and> zt_runs 0 1 (ts 1)) \<and> zus_stop_all_threads sample_zt_env sample_schedule p = Some (zeroed_pool 0 0)"
proof -
  have a: "all_start (\<lambda>_. True) sample_zt_env sample_running sample_tp [0, 1]" "fair sample_schedule [0, 1]"
    by (simp_all add: all_start_def created_ok_def inits_ok_def fair_def sample_zt_env_def sample_pthread_def sample_tp_def sample_schedule_def
        thread_create_def thread_affinity_def zeroed_zbt_def)
  have t: "zus_nr_cpu_ids sample_running = possible_cpus (zus_numa_map sample_running)" "online_cpus (zus_numa_map sample_running) = length [0::nat, 1]"
    by (simp_all add: sample_running_def)
  from zus_start_all_threads_correct [OF sample_cpus [symmetric] t, where mem = "\<lambda>_. True" and e = sample_zt_env and sch = sample_schedule and tp = sample_tp] a
  show ?thesis by (auto split: option.splits)
qed

text \<open>
  A thread whose initialisation fails leaves its descriptor and mapping to the stop, as a comment says, but the stop only frees the structure.
\<close>

theorem failed_thread_leaks:
  "map_option (\<lambda>(err, p). (err, lost_fds p, lost_maps p))
     (zus_start_all_threads (\<lambda>_. True) (\<lambda>c i. (sample_zt_env c i)\<lparr>z_ioc_mmap := (if i = 1 then - 12 else 0)\<rparr>) sample_schedule sample_running sample_tp 1
        (zeroed_pool 0 0)) = Some (- 12, 1, 1)"
  by code_simp

text \<open>
  When the thread of CPU 0 cannot open its descriptor, the start fails, and its stop wakes up nobody: it waits for ever for the thread of CPU 1, which runs.
\<close>

theorem failed_start_hangs:
  "zus_start_all_threads (\<lambda>_. True) (\<lambda>c i. (sample_zt_env c i)\<lparr>z_open := (if i = 0 then - 24 else 0)\<rparr>) sample_schedule sample_running sample_tp 1 (zeroed_pool 0 0) = None"
  (is "?start = None")
proof -
  have "(case ?start of None \<Rightarrow> True | Some _ \<Rightarrow> False)" by code_simp
  then show ?thesis by (simp split: option.splits)
qed

text \<open>
  Two channels. The threads of the first one run before the counter is armed for the second one, so that the wait is over at once: the start returns 0 when no thread of
  the second channel has begun, although one of them is going to fail.
\<close>

theorem two_channels_start_early:
  "map_option (\<lambda>(err, p). (err, map (\<lambda>i. (zbt_thread (zt_zbt (zt_at p 1 i)), zt_began (zt_at p 1 i))) [0, 1]))
     (zus_start_all_threads (\<lambda>_. True) (\<lambda>c i. (sample_zt_env c i)\<lparr>z_init := (if c = 1 \<and> i = 1 then - 22 else 0)\<rparr>)
       (sample_schedule\<lparr>sch_run := \<lambda>pt. if pt = Before_arm 1 then [(0, 0), (0, 1)] else []\<rparr>) sample_running sample_tp 2 (zeroed_pool 0 0)) =
   Some (0, [(True, False), (True, False)])"
  by code_simp

text \<open>
  The mount thread gives its buffer back on every path. It keeps the descriptor open exactly when the map of the nodes cannot be read or the file systems cannot be
  registered. Every reply is a number that is not positive.
\<close>

lemma mount_request_reply: "fst (mount_request start cpus run op n) \<le> 0"
  by (simp add: mount_request_def errno_UtoK_def Let_def split: prod.splits)

lemma mount_loop_replies:
  "\<forall>r \<in> set (mt_replies mt). r \<le> 0 \<Longrightarrow> \<forall>r \<in> set (mt_replies (mount_loop start cpus run reqs mt)). r \<le> 0"
proof (induction reqs arbitrary: mt)
  case (Cons q reqs)
  obtain err op where q: "q = (err, op)" by force
  obtain reply n where r: "mount_request (start (length (mt_replies mt))) cpus run op (mt_zts mt) = (reply, n)" by force
  have "reply \<le> 0" using mount_request_reply [of "start (length (mt_replies mt))" cpus run op "mt_zts mt"] r by simp
  then have "\<forall>r \<in> set (mt_replies (mt\<lparr>mt_err := 0, mt_replies := mt_replies mt @ [reply], mt_zts := n\<rparr>)). r \<le> 0" using Cons.prems by simp
  from Cons.IH [OF this] Cons.prems show ?case by (simp add: q r Let_def)
qed simp

theorem mount_thread_releases:
  assumes "zus_mount_thread e start cpus run reqs \<lparr>mt_fba = False, mt_fd = False, mt_err = 0, mt_replies = [], mt_zts = 0\<rparr> = mt"
  shows "\<not> mt_fba mt \<and> (mt_fd mt \<longleftrightarrow> m_fba e = 0 \<and> m_open e = 0 \<and> (m_numa e \<noteq> 0 \<or> m_register e \<noteq> 0)) \<and> (\<forall>r \<in> set (mt_replies mt). r \<le> 0)"
proof -
  let ?mt = "\<lparr>mt_fba = True, mt_fd = True, mt_err = 0, mt_replies = [], mt_zts = 0\<rparr>"
  have "\<forall>r \<in> set (mt_replies (mount_loop start cpus run reqs ?mt)). r \<le> 0" by (rule mount_loop_replies) simp
  then show ?thesis using assms by (auto simp: zus_mount_thread_def Let_def split: if_splits)
qed

end
