(* ===== verification/Printz.thy ===== *)
theory Printz
  imports Prelude
begin

text \<open>
  Dynamic debug messages (\<open>printz.c\<close>): the data base of debug statements of the loaded file systems, the text that lists
  them (\<open>zus_ddbg_read\<close>) and the command language that switches them on and off (\<open>zus_ddbg_write\<close>). A C string is the
  list of its characters without the terminating 0. The command is cut into words (\<open>_tokenize\<close>), the words are read as
  criteria and an action (\<open>_parse\<close>), and the action is applied to every statement that meets all criteria (\<open>_process\<close>).
  The main results are a round trip from a printed query through this parser, and that repeated reads list every
  statement once.
\<close>

section \<open>The data base\<close>

abbreviation ZUS_LIBFS_MAX_PATH :: nat where "ZUS_LIBFS_MAX_PATH \<equiv> 256"

record ddebug =
  dd_id :: nat
  dd_modname :: string
  dd_function :: string
  dd_filename :: string
  dd_lineno :: nat
  dd_format :: string
  dd_active :: bool

record module_ddbg =
  mod_name :: string
  dbg_entries :: "ddebug list"

record ddbg_db =
  modules :: "module_ddbg list"      \<comment> \<open>the first \<open>mod_count\<close> elements of the array\<close>
  next_id :: nat

text \<open>\<open>strrchr(dd->filename, '/')\<close>: the part of the path behind the last slash.\<close>

definition no_path_name :: "string \<Rightarrow> string" where
  "no_path_name f = rev (takeWhile (\<lambda>c. c \<noteq> CHR ''/'') (rev f))"

definition init_ddbg :: "string \<Rightarrow> ddebug \<Rightarrow> nat \<Rightarrow> ddebug \<times> nat" where
  "init_ddbg modname dd next =
    (let next' = (next + 1) mod 2 ^ 32
     in (dd\<lparr>dd_id := next', dd_modname := modname, dd_filename := no_path_name (dd_filename dd)\<rparr>, next'))"

fun init_ddbgs :: "string \<Rightarrow> ddebug list \<Rightarrow> nat \<Rightarrow> ddebug list \<times> nat" where
  "init_ddbgs modname [] n = ([], n)"
| "init_ddbgs modname (dd # dds) n =
    (let (dd', n1) = init_ddbg modname dd n; (dds', n2) = init_ddbgs modname dds n1 in (dd' # dds', n2))"

text \<open>
  \<open>section\<close> is what \<open>dlsym\<close> finds: the debug statements between the symbols \<open>__start_zus_ddbg\<close> and \<open>__stop_zus_ddbg\<close> of the
  library, \<open>None\<close> if one of them is missing. \<open>mem\<close> is the success of \<open>calloc\<close>.
\<close>

definition zus_add_module_ddbg :: "bool \<Rightarrow> string \<Rightarrow> ddebug list option \<Rightarrow> ddbg_db \<Rightarrow> unit result \<times> ddbg_db" where
  "zus_add_module_ddbg mem fs_name symbols db =
    (if length fs_name \<ge> ZUS_LIBFS_MAX_PATH then (Inl EINVAL, db)
     else case symbols of None \<Rightarrow> (Inl EINVAL, db)
     | Some dds \<Rightarrow>
        if \<not> mem then (Inl ENOMEM, db)
        else let (dds', n) = init_ddbgs fs_name dds (next_id db)
             in (Inr (), db\<lparr>modules := modules db @ [\<lparr>mod_name = fs_name, dbg_entries = dds'\<rparr>], next_id := n\<rparr>))"

section \<open>Listing the statements\<close>

text \<open>
  \<open>_copy_format\<close> copies a format to a buffer of \<open>sz + 1\<close> characters and replaces line breaks and tabulators. If the space
  ends in the middle of a replacement, the function returns without writing the terminating 0. \<open>copy_format fmt buff i sz\<close>
  is the buffer after the loop from the position \<open>i\<close> of the buffer on.
\<close>

abbreviation (input) NUL :: char where "NUL \<equiv> CHR 0x00"
abbreviation (input) NL :: char where "NL \<equiv> CHR 0x0A"
abbreviation (input) TAB :: char where "TAB \<equiv> CHR 0x09"
abbreviation (input) BACKSLASH :: char where "BACKSLASH \<equiv> CHR 0x5C"
abbreviation (input) DQUOTE :: char where "DQUOTE \<equiv> CHR 0x22"
abbreviation (input) SQUOTE :: char where "SQUOTE \<equiv> CHR 0x27"

fun copy_format :: "string \<Rightarrow> char list \<Rightarrow> nat \<Rightarrow> nat \<Rightarrow> char list" where
  "copy_format [] buff i sz = buff[i := NUL]"
| "copy_format (c # fmt) buff i sz =
    (if sz \<le> i then buff[i := NUL]
     else if c = NL \<or> c = TAB then
       if i + 2 > sz then buff
       else copy_format fmt (buff[i := BACKSLASH, i + 1 := (if c = NL then CHR ''n'' else CHR ''t'')]) (i + 2) sz
     else copy_format fmt (buff[i := c]) (i + 1) sz)"

text \<open>The C string at the start of a buffer. Without a terminating 0 the reader leaves the buffer.\<close>

definition cstring :: "char list \<Rightarrow> string run" where
  "cstring buff = (if NUL \<in> set buff then Some (takeWhile (\<lambda>c. c \<noteq> NUL) buff) else None)"

text \<open>The conversions of \<open>printf\<close> that are used: \<open>%d\<close> of an \<open>unsigned int\<close>.\<close>

definition digit_char :: "nat \<Rightarrow> char" where
  "digit_char d = char_of (48 + d)"

fun dec_digits :: "nat \<Rightarrow> string" where
  "dec_digits n = (if n < 10 then [digit_char n] else dec_digits (n div 10) @ [digit_char (n mod 10)])"

declare dec_digits.simps [simp del]

definition fmt_d :: "nat \<Rightarrow> string" where
  "fmt_d n = (if n < 2 ^ 31 then dec_digits n else CHR ''-'' # dec_digits (2 ^ 32 - n))"

definition ddbg_line :: "ddebug \<Rightarrow> string \<Rightarrow> string" where
  "ddbg_line dd format =
    dd_filename dd @ '':'' @ fmt_d (dd_lineno dd) @ '' ['' @ dd_modname dd @ ''] '' @ dd_function dd @ '' ='' @
    (if dd_active dd then ''p'' else ''_'') @ '' '' @ [DQUOTE] @ format @ [DQUOTE, NL]"

abbreviation MAX_FORMAT_SIZE :: nat where "MAX_FORMAT_SIZE \<equiv> 512"

text \<open>
  The loops of \<open>zus_ddbg_read\<close>. The state: the text written so far (\<open>None\<close> before the first write, when the message still holds what the caller
  put there), the space left, the identifier of the last statement written and the local buffer \<open>format\<close>. The flag says that the
  loops were left by \<open>goto out\<close>.
\<close>

record ddbg_rd =
  rd_msg :: "string option"
  rd_sz :: nat
  rd_id :: nat
  rd_format :: "char list"

definition rd_text :: "ddbg_rd \<Rightarrow> string" where
  "rd_text r = (case rd_msg r of None \<Rightarrow> [] | Some t \<Rightarrow> t)"

definition ddbg_rd_step :: "ddebug \<Rightarrow> ddbg_rd \<Rightarrow> (bool \<times> ddbg_rd) run" where
  "ddbg_rd_step dd r =
    (if dd_id dd \<le> rd_id r then Some (False, r)
     else do {
       let fb = copy_format (dd_format dd) (rd_format r) 0 MAX_FORMAT_SIZE;
       format \<leftarrow> cstring fb;
       let line = ddbg_line dd format;
       let r = r\<lparr>rd_format := fb\<rparr>;
       if length line > rd_sz r then Some (True, r\<lparr>rd_msg := Some (rd_text r)\<rparr>)
       else Some (False, r\<lparr>rd_msg := Some (rd_text r @ (if length line < rd_sz r then line else take (rd_sz r - 1) line)),
                           rd_sz := rd_sz r - length line, rd_id := dd_id dd\<rparr>) })"

fun ddbg_rd_entries :: "ddebug list \<Rightarrow> ddbg_rd \<Rightarrow> (bool \<times> ddbg_rd) run" where
  "ddbg_rd_entries [] r = Some (False, r)"
| "ddbg_rd_entries (dd # dds) r =
    (if rd_sz r = 0 then Some (False, r)
     else do { (out, r) \<leftarrow> ddbg_rd_step dd r; if out then Some (True, r) else ddbg_rd_entries dds r })"

fun ddbg_rd_modules :: "module_ddbg list \<Rightarrow> ddbg_rd \<Rightarrow> ddbg_rd run" where
  "ddbg_rd_modules [] r = Some r"
| "ddbg_rd_modules (modd # mods) r =
    do { (out, r) \<leftarrow> ddbg_rd_entries (dbg_entries modd) r; if out then Some r else ddbg_rd_modules mods r }"

record ddbg_info =
  zdi_id :: nat
  zdi_len :: nat
  zdi_msg :: string

text \<open>\<open>format0\<close> is the content of the uninitialised local buffer.\<close>

definition zus_ddbg_read :: "char list \<Rightarrow> ddbg_db \<Rightarrow> ddbg_info \<Rightarrow> ddbg_info run" where
  "zus_ddbg_read format0 db zdi = do {
     r \<leftarrow> ddbg_rd_modules (modules db) \<lparr>rd_msg = None, rd_sz = zdi_len zdi, rd_id = zdi_id zdi, rd_format = format0\<rparr>;
     let msg = (case rd_msg r of None \<Rightarrow> zdi_msg zdi | Some t \<Rightarrow> t);
     Some \<lparr>zdi_id = rd_id r, zdi_len = length msg, zdi_msg = msg\<rparr> }"

section \<open>The command language\<close>

datatype ddbg_cmd = DDBG_CMD_UNSET | DDBG_CMD_ENABLE | DDBG_CMD_DISABLE

abbreviation MAX_DDBG_CMD_TOKENS :: nat where "MAX_DDBG_CMD_TOKENS \<equiv> 9"
abbreviation NO_LINE_NUMBER :: nat where "NO_LINE_NUMBER \<equiv> 2 ^ 32 - 1"

record ddbg_ctl =
  ctl_modname :: "string option"
  ctl_function :: "string option"
  ctl_filename :: "string option"
  ctl_lineno :: nat
  ctl_format :: "string option"
  ctl_cmd :: ddbg_cmd

definition isspace :: "char \<Rightarrow> bool" where
  "isspace c = (c = CHR '' '' \<or> c = CHR 0x09 \<or> c = CHR 0x0A \<or> c = CHR 0x0B \<or> c = CHR 0x0C \<or> c = CHR 0x0D)"

text \<open>
  One word of \<open>_tokenize\<close>, after the white space was skipped: the word itself and what follows the character that ends it, or
  an unclosed quote.
\<close>

definition next_word :: "char \<Rightarrow> string \<Rightarrow> (string \<times> string) result" where
  "next_word c rest =
    (if c = DQUOTE \<or> c = SQUOTE then
       let word = takeWhile (\<lambda>x. x \<noteq> c) rest; after = dropWhile (\<lambda>x. x \<noteq> c) rest
       in if after = [] then Inl EINVAL else Inr (word, tl after)
     else Inr (takeWhile (\<lambda>x. \<not> isspace x) (c # rest), tl (dropWhile (\<lambda>x. \<not> isspace x) (c # rest))))"

function tokenize :: "string \<Rightarrow> string list \<Rightarrow> string list result" where
  "tokenize buf tokens =
    (case dropWhile isspace buf of
       [] \<Rightarrow> Inr tokens
     | c # rest \<Rightarrow>
        if c = CHR ''#'' then Inr tokens
        else case next_word c rest of
          Inl e \<Rightarrow> Inl e
        | Inr (word, after) \<Rightarrow>
            if length tokens = MAX_DDBG_CMD_TOKENS then Inl EINVAL
            else tokenize after (tokens @ [word]))"
  by pat_completeness auto
termination
proof (relation "measure (\<lambda>(buf, tokens). length buf)", simp, clarify)
  fix buf tokens c rest word after
  assume d: "dropWhile isspace buf = c # rest" and w: "next_word c rest = Inr (word, after)"
  have "length after \<le> length rest"
    using w length_dropWhile_le [of "\<lambda>x. x \<noteq> c" rest] length_dropWhile_le [of "\<lambda>x. \<not> isspace x" "c # rest"]
    by (auto simp: next_word_def Let_def split: if_splits)
  also have "\<dots> < length buf" using d length_dropWhile_le [of isspace buf] by simp
  finally show "((after, tokens @ [word]), buf, tokens) \<in> measure (\<lambda>(buf, tokens). length buf)" by simp
qed

declare tokenize.simps [simp del]

datatype ddbg_crit = DDBG_CRIT_MOD | DDBG_CRIT_FUNC | DDBG_CRIT_FILE | DDBG_CRIT_LINENO | DDBG_CRIT_FMT
  | DDBG_CRIT_ENABLE | DDBG_CRIT_DISABLE

definition token_type :: "string \<Rightarrow> ddbg_crit result" where
  "token_type token =
    (if token = ''module'' then Inr DDBG_CRIT_MOD
     else if token = ''func'' then Inr DDBG_CRIT_FUNC
     else if token = ''file'' then Inr DDBG_CRIT_FILE
     else if token = ''line'' then Inr DDBG_CRIT_LINENO
     else if token = ''format'' then Inr DDBG_CRIT_FMT
     else if token = ''+p'' then Inr DDBG_CRIT_ENABLE
     else if token = ''-p'' then Inr DDBG_CRIT_DISABLE
     else Inl EINVAL)"

text \<open>
  \<open>strtoul\<close> of the C library with base 10: white space, a sign, digits; the value saturates at the largest \<open>unsigned long\<close>
  and is negated for a minus sign. Without digits nothing is consumed.
\<close>

definition is_digit :: "char \<Rightarrow> bool" where
  "is_digit c = (48 \<le> (of_char c :: nat) \<and> (of_char c :: nat) < 58)"

definition digits_val :: "string \<Rightarrow> nat" where
  "digits_val = foldl (\<lambda>n c. 10 * n + (of_char c - 48)) 0"

definition strtoul :: "string \<Rightarrow> nat \<times> string" where
  "strtoul str =
    (let s1 = dropWhile isspace str;
         neg = (s1 \<noteq> [] \<and> hd s1 = CHR ''-'');
         s2 = (if s1 \<noteq> [] \<and> (hd s1 = CHR ''-'' \<or> hd s1 = CHR ''+'') then tl s1 else s1);
         ds = takeWhile is_digit s2;
         v = digits_val ds
     in if ds = [] then (0, str)
        else (if 2 ^ 64 \<le> v then 2 ^ 64 - 1 else if neg then size_sub 0 v else v, dropWhile is_digit s2))"

fun parse_tokens :: "string list \<Rightarrow> ddbg_ctl \<Rightarrow> ddbg_ctl result" where
  "parse_tokens [] ddc = Inr ddc"
| "parse_tokens (t # ts) ddc =
    (case token_type t of
       Inl e \<Rightarrow> Inl EINVAL
     | Inr DDBG_CRIT_ENABLE \<Rightarrow> parse_tokens ts (ddc\<lparr>ctl_cmd := DDBG_CMD_ENABLE\<rparr>)
     | Inr DDBG_CRIT_DISABLE \<Rightarrow> parse_tokens ts (ddc\<lparr>ctl_cmd := DDBG_CMD_DISABLE\<rparr>)
     | Inr crit \<Rightarrow>
         (case ts of [] \<Rightarrow> Inl EINVAL
          | v # ts' \<Rightarrow>
             (case crit of
                DDBG_CRIT_MOD \<Rightarrow> parse_tokens ts' (ddc\<lparr>ctl_modname := Some v\<rparr>)
              | DDBG_CRIT_FUNC \<Rightarrow> parse_tokens ts' (ddc\<lparr>ctl_function := Some v\<rparr>)
              | DDBG_CRIT_FILE \<Rightarrow> parse_tokens ts' (ddc\<lparr>ctl_filename := Some v\<rparr>)
              | DDBG_CRIT_FMT \<Rightarrow> parse_tokens ts' (ddc\<lparr>ctl_format := Some v\<rparr>)
              | _ \<Rightarrow> (let (n, leftover) = strtoul v
                      in if leftover \<noteq> [] then Inl EINVAL else parse_tokens ts' (ddc\<lparr>ctl_lineno := n mod 2 ^ 32\<rparr>)))))"

definition ddbg_parse :: "string list \<Rightarrow> ddbg_ctl \<Rightarrow> ddbg_ctl result" where
  "ddbg_parse tokens ddc =
    (case parse_tokens tokens ddc of
       Inl e \<Rightarrow> Inl e
     | Inr ddc \<Rightarrow> if ctl_cmd ddc = DDBG_CMD_UNSET then Inl EINVAL else Inr ddc)"

text \<open>\<open>strstr\<close>: the needle occurs in the string.\<close>

fun strstr :: "string \<Rightarrow> string \<Rightarrow> bool" where
  "strstr [] needle = (needle = [])"
| "strstr (c # cs) needle = (take (length needle) (c # cs) = needle \<or> strstr cs needle)"

definition ddbg_skip :: "ddbg_ctl \<Rightarrow> ddebug \<Rightarrow> bool" where
  "ddbg_skip ddc dd =
    ((case ctl_filename ddc of None \<Rightarrow> False | Some f \<Rightarrow> f \<noteq> dd_filename dd) \<or>
     (case ctl_function ddc of None \<Rightarrow> False | Some f \<Rightarrow> f \<noteq> dd_function dd) \<or>
     ctl_lineno ddc \<noteq> NO_LINE_NUMBER \<and> ctl_lineno ddc \<noteq> dd_lineno dd \<or>
     (case ctl_format ddc of None \<Rightarrow> False | Some f \<Rightarrow> \<not> strstr (dd_format dd) f))"

definition process_module :: "ddbg_ctl \<Rightarrow> module_ddbg \<Rightarrow> module_ddbg" where
  "process_module ddc modd =
    (if (case ctl_modname ddc of None \<Rightarrow> False | Some m \<Rightarrow> m \<noteq> mod_name modd) then modd
     else modd\<lparr>dbg_entries :=
       map (\<lambda>dd. if ddbg_skip ddc dd then dd else dd\<lparr>dd_active := (ctl_cmd ddc = DDBG_CMD_ENABLE)\<rparr>) (dbg_entries modd)\<rparr>)"

definition ddbg_process :: "ddbg_ctl \<Rightarrow> ddbg_db \<Rightarrow> ddbg_db" where
  "ddbg_process ddc db = db\<lparr>modules := map (process_module ddc) (modules db)\<rparr>"

definition ddbg_ctl0 :: ddbg_ctl where
  "ddbg_ctl0 = \<lparr>ctl_modname = None, ctl_function = None, ctl_filename = None, ctl_lineno = NO_LINE_NUMBER,
    ctl_format = None, ctl_cmd = DDBG_CMD_UNSET\<rparr>"

definition zus_ddbg_write :: "string \<Rightarrow> ddbg_db \<Rightarrow> unit result \<times> ddbg_db" where
  "zus_ddbg_write msg db =
    (case tokenize msg [] of Inl e \<Rightarrow> (Inl e, db)
     | Inr tokens \<Rightarrow>
        (case ddbg_parse tokens ddbg_ctl0 of Inl e \<Rightarrow> (Inl e, db)
         | Inr ddc \<Rightarrow> (Inr (), ddbg_process ddc db)))"


section \<open>Words\<close>

text \<open>A word as a user writes it: as it is if the tokenizer reads it back that way, otherwise in quotes.\<close>

definition plain_word :: "string \<Rightarrow> bool" where
  "plain_word w = (w \<noteq> [] \<and> list_all (\<lambda>c. \<not> isspace c) w \<and> hd w \<notin> {CHR ''#'', DQUOTE, SQUOTE})"

definition show_word :: "string \<Rightarrow> string" where
  "show_word w =
    (if plain_word w then w
     else if DQUOTE \<notin> set w then [DQUOTE] @ w @ [DQUOTE]
     else [SQUOTE] @ w @ [SQUOTE])"

definition word_ok :: "string \<Rightarrow> bool" where
  "word_ok w = (DQUOTE \<notin> set w \<or> SQUOTE \<notin> set w)"

definition show_words :: "string list \<Rightarrow> string" where
  "show_words ws = concat (map (\<lambda>w. show_word w @ '' '') ws)"

lemma isspace_simps [simp]: "isspace (CHR '' '')" "\<not> isspace DQUOTE" "\<not> isspace SQUOTE" "\<not> isspace (CHR ''#'')"
  by (simp_all add: isspace_def)

lemma dropWhile_space: "dropWhile isspace (CHR '' '' # cs) = dropWhile isspace cs"
  by simp

lemma dropWhile_id: "cs \<noteq> [] \<Longrightarrow> \<not> P (hd cs) \<Longrightarrow> dropWhile P cs = cs"
  by (cases cs) auto

lemma tokenize_space: "tokenize (CHR '' '' # cs) ts = tokenize cs ts"
  unfolding tokenize.simps [of "CHR '' '' # cs"] tokenize.simps [of cs] dropWhile_space by (rule refl)

lemma tokenize_word:
  assumes "word_ok w"
  shows "tokenize (show_word w @ CHR '' '' # rest) ts =
    (if length ts = MAX_DDBG_CMD_TOKENS then Inl EINVAL else tokenize rest (ts @ [w]))"
proof (cases "plain_word w")
  case True
  then obtain c v where w: "w = c # v" by (cases w) (auto simp: plain_word_def)
  have c: "\<not> isspace c" "c \<noteq> CHR ''#''" "c \<noteq> DQUOTE" "c \<noteq> SQUOTE" and all: "list_all (\<lambda>c. \<not> isspace c) (c # v)"
    using True w by (auto simp: plain_word_def)
  have n: "next_word c (v @ CHR '' '' # rest) = Inr (w, rest)"
    using c takeWhile_stop [OF all, of "CHR '' ''" rest] dropWhile_stop [OF all, of "CHR '' ''" rest] w by (simp add: next_word_def)
  have "show_word w @ CHR '' '' # rest = c # v @ CHR '' '' # rest" using True w by (simp add: show_word_def)
  then show ?thesis unfolding tokenize.simps [of "show_word w @ CHR '' '' # rest"] using c n by simp
next
  case False
  define q where "q = (if DQUOTE \<notin> set w then DQUOTE else SQUOTE)"
  have q: "q \<notin> set w" "q = DQUOTE \<or> q = SQUOTE" using assms by (auto simp: q_def word_ok_def)
  have sw: "show_word w = q # w @ [q]" using False by (simp add: show_word_def q_def)
  have n: "next_word q (w @ q # CHR '' '' # rest) = Inr (w, CHR '' '' # rest)"
    using q(2) takeWhile_stop [OF not_in_list_all [OF q(1)], of q] dropWhile_stop [OF not_in_list_all [OF q(1)], of q]
    by (simp add: next_word_def Let_def)
  have "\<not> isspace q" "q \<noteq> CHR ''#''" using q(2) by auto
  then show ?thesis unfolding sw tokenize.simps [of "(q # w @ [q]) @ CHR '' '' # rest"] using n by (simp add: tokenize_space)
qed

lemma tokenize_show_words:
  assumes "list_all word_ok ws" and "length ts \<le> MAX_DDBG_CMD_TOKENS"
  shows "tokenize (show_words ws) ts =
    (if length ts + length ws \<le> MAX_DDBG_CMD_TOKENS then Inr (ts @ ws) else Inl EINVAL)"
  using assms
proof (induction ws arbitrary: ts)
  case Nil
  then show ?case by (simp add: show_words_def tokenize.simps)
next
  case (Cons w ws)
  have "show_words (w # ws) = show_word w @ CHR '' '' # show_words ws" by (simp add: show_words_def)
  then have "tokenize (show_words (w # ws)) ts =
    (if length ts = MAX_DDBG_CMD_TOKENS then Inl EINVAL else tokenize (show_words ws) (ts @ [w]))"
    using tokenize_word [of w "show_words ws" ts] Cons.prems(1) by simp
  then show ?case using Cons.IH [of "ts @ [w]"] Cons.prems by simp
qed

section \<open>Numbers\<close>

lemma of_char_digit: "d < 10 \<Longrightarrow> (of_char (digit_char d) :: nat) = 48 + d"
  by (simp add: digit_char_def)

lemma dec_digits_is_digit: "list_all is_digit (dec_digits n)"
proof (induction n rule: dec_digits.induct)
  case (1 n)
  have d: "is_digit (digit_char (n mod 10))" "n < 10 \<Longrightarrow> is_digit (digit_char n)" by (simp_all add: is_digit_def of_char_digit)
  show ?case
  proof (cases "n < 10")
    case True
    then show ?thesis unfolding dec_digits.simps [of n] using d by simp
  next
    case False
    with 1 d show ?thesis unfolding dec_digits.simps [of n] by simp
  qed
qed

lemma digits_val_dec: "digits_val (dec_digits n) = n"
proof (induction n rule: dec_digits.induct)
  case (1 n)
  show ?case
  proof (cases "n < 10")
    case True
    then show ?thesis unfolding dec_digits.simps [of n] by (simp add: digits_val_def of_char_digit)
  next
    case False
    with 1 show ?thesis unfolding dec_digits.simps [of n] by (simp add: digits_val_def of_char_digit)
  qed
qed

lemma dec_digits_not_Nil: "dec_digits n \<noteq> []"
  by (subst dec_digits.simps) simp

lemma digit_not_special:
  assumes "is_digit c"
  shows "\<not> isspace c" "c \<noteq> CHR ''-''" "c \<noteq> CHR ''+''" "c \<noteq> CHR ''#''" "c \<noteq> DQUOTE" "c \<noteq> SQUOTE"
  using assms by (auto simp: is_digit_def isspace_def)

lemma takeWhile_dec: "takeWhile is_digit (dec_digits n) = dec_digits n" "dropWhile is_digit (dec_digits n) = []"
  using dec_digits_is_digit [of n] by (simp_all add: list_all_iff)

lemma strtoul_dec:
  assumes "n < 2 ^ 64"
  shows "strtoul (dec_digits n) = (n, [])"
proof -
  obtain c cs where d: "dec_digits n = c # cs" using dec_digits_not_Nil [of n] by (cases "dec_digits n") auto
  have c: "is_digit c" using dec_digits_is_digit [of n] d by simp
  have t: "takeWhile is_digit (c # cs) = c # cs" "dropWhile is_digit (c # cs) = []" "digits_val (c # cs) = n"
    using takeWhile_dec [of n] digits_val_dec [of n] d by simp_all
  have s: "dropWhile isspace (c # cs) = c # cs" "c \<noteq> CHR ''-''" "c \<noteq> CHR ''+''" using digit_not_special [OF c] by simp_all
  show ?thesis unfolding d strtoul_def Let_def s(1) list.sel using assms s(2,3)
    by (simp add: t del: takeWhile.simps dropWhile.simps)
qed

lemma word_ok_dec: "word_ok (dec_digits n)"
  using dec_digits_is_digit [of n] digit_not_special(5) by (auto simp: word_ok_def list_all_iff)

section \<open>Queries\<close>

text \<open>The words of a query, and the statements it is about.\<close>

definition opt_words :: "string \<Rightarrow> string option \<Rightarrow> string list" where
  "opt_words key v = (case v of None \<Rightarrow> [] | Some w \<Rightarrow> [key, w])"

definition query_words :: "ddbg_ctl \<Rightarrow> string list" where
  "query_words q =
    opt_words ''module'' (ctl_modname q) @ opt_words ''func'' (ctl_function q) @ opt_words ''file'' (ctl_filename q) @
    (if ctl_lineno q = NO_LINE_NUMBER then [] else [''line'', dec_digits (ctl_lineno q)]) @
    opt_words ''format'' (ctl_format q) @ [if ctl_cmd q = DDBG_CMD_ENABLE then ''+p'' else ''-p'']"

definition criteria :: "ddbg_ctl \<Rightarrow> nat" where
  "criteria q = length (filter (\<lambda>v. v \<noteq> None) [ctl_modname q, ctl_function q, ctl_filename q, ctl_format q]) +
    (if ctl_lineno q = NO_LINE_NUMBER then 0 else 1)"

definition query_ok :: "ddbg_ctl \<Rightarrow> bool" where
  "query_ok q = (ctl_cmd q \<noteq> DDBG_CMD_UNSET \<and> ctl_lineno q < 2 ^ 32 \<and>
    list_all (pred_option word_ok) [ctl_modname q, ctl_function q, ctl_filename q, ctl_format q])"

definition query_matches :: "ddbg_ctl \<Rightarrow> string \<Rightarrow> ddebug \<Rightarrow> bool" where
  "query_matches q m dd =
    (pred_option (\<lambda>v. v = m) (ctl_modname q) \<and> pred_option (\<lambda>v. v = dd_function dd) (ctl_function q) \<and>
     pred_option (\<lambda>v. v = dd_filename dd) (ctl_filename q) \<and>
     (ctl_lineno q \<noteq> NO_LINE_NUMBER \<longrightarrow> ctl_lineno q = dd_lineno dd) \<and>
     pred_option (\<lambda>v. \<exists>pre post. dd_format dd = pre @ v @ post) (ctl_format q))"

definition switch :: "ddbg_ctl \<Rightarrow> ddbg_db \<Rightarrow> ddbg_db" where
  "switch q db = db\<lparr>modules := map (\<lambda>m. m\<lparr>dbg_entries :=
     map (\<lambda>dd. if query_matches q (mod_name m) dd then dd\<lparr>dd_active := (ctl_cmd q = DDBG_CMD_ENABLE)\<rparr> else dd)
       (dbg_entries m)\<rparr>) (modules db)\<rparr>"

lemma strstr_iff: "strstr s n \<longleftrightarrow> (\<exists>pre post. s = pre @ n @ post)"
proof (induction s)
  case (Cons c cs)
  have here: "take (length n) (c # cs) = n \<longleftrightarrow> (\<exists>post. c # cs = n @ post)" by (metis append_eq_conv_conj append_take_drop_id)
  show ?case
  proof
    assume "strstr (c # cs) n"
    then consider post where "c # cs = n @ post" | pre post where "cs = pre @ n @ post" using here Cons.IH by auto
    then show "\<exists>pre post. c # cs = pre @ n @ post"
    proof cases
      case 1
      then show ?thesis by (intro exI [of _ "[]"] exI [of _ post]) simp
    next
      case 2
      then show ?thesis by (intro exI [of _ "c # pre"] exI [of _ post]) simp
    qed
  next
    assume "\<exists>pre post. c # cs = pre @ n @ post"
    then obtain pre post where "c # cs = pre @ n @ post" by blast
    then have "(\<exists>post. c # cs = n @ post) \<or> (\<exists>pre post. cs = pre @ n @ post)" by (cases pre) auto
    then show "strstr (c # cs) n" unfolding strstr.simps here Cons.IH .
  qed
qed simp

lemma ddbg_process_switch: "ddbg_process q db = switch q db"
proof -
  have "process_module q m = m\<lparr>dbg_entries :=
     map (\<lambda>dd. if query_matches q (mod_name m) dd then dd\<lparr>dd_active := (ctl_cmd q = DDBG_CMD_ENABLE)\<rparr> else dd) (dbg_entries m)\<rparr>" for m
  proof (cases "pred_option (\<lambda>v. v = mod_name m) (ctl_modname q)")
    case True
    have "ddbg_skip q dd \<longleftrightarrow> \<not> query_matches q (mod_name m) dd" for dd
      using True by (auto simp: ddbg_skip_def query_matches_def strstr_iff split: option.splits)
    then show ?thesis using True by (auto simp: process_module_def split: option.splits)
  next
    case False
    then show ?thesis by (cases "ctl_modname q") (auto simp: process_module_def query_matches_def)
  qed
  then show ?thesis by (simp add: ddbg_process_def switch_def)
qed

lemma parse_opt_words:
  "parse_tokens (opt_words ''module'' v @ ts) ddc = parse_tokens ts (case v of None \<Rightarrow> ddc | Some w \<Rightarrow> ddc\<lparr>ctl_modname := Some w\<rparr>)"
  "parse_tokens (opt_words ''func'' v @ ts) ddc = parse_tokens ts (case v of None \<Rightarrow> ddc | Some w \<Rightarrow> ddc\<lparr>ctl_function := Some w\<rparr>)"
  "parse_tokens (opt_words ''file'' v @ ts) ddc = parse_tokens ts (case v of None \<Rightarrow> ddc | Some w \<Rightarrow> ddc\<lparr>ctl_filename := Some w\<rparr>)"
  "parse_tokens (opt_words ''format'' v @ ts) ddc = parse_tokens ts (case v of None \<Rightarrow> ddc | Some w \<Rightarrow> ddc\<lparr>ctl_format := Some w\<rparr>)"
  by (simp_all add: opt_words_def token_type_def split: option.split)

lemma parse_line:
  "n < 2 ^ 32 \<Longrightarrow> parse_tokens (''line'' # dec_digits n # ts) ddc = parse_tokens ts (ddc\<lparr>ctl_lineno := n\<rparr>)"
  using strtoul_dec [of n] by (simp add: token_type_def)

lemma parse_query:
  assumes "query_ok q"
  shows "ddbg_parse (query_words q) ddbg_ctl0 = Inr q"
proof -
  have cmd: "ctl_cmd q = DDBG_CMD_ENABLE \<or> ctl_cmd q = DDBG_CMD_DISABLE" and n: "ctl_lineno q < 2 ^ 32"
    using assms by (cases "ctl_cmd q"; simp add: query_ok_def)+
  have line: "parse_tokens ((if ctl_lineno q = NO_LINE_NUMBER then [] else [''line'', dec_digits (ctl_lineno q)]) @ ts) ddc =
      parse_tokens ts (ddc\<lparr>ctl_lineno := ctl_lineno q\<rparr>)" if "ctl_lineno ddc = NO_LINE_NUMBER" for ts ddc
    using parse_line [OF n] that by (cases ddc) simp
  have "parse_tokens (query_words q) ddbg_ctl0 = Inr q"
    unfolding query_words_def parse_opt_words
    by (subst line) (use cmd in \<open>auto simp: ddbg_ctl0_def parse_opt_words token_type_def split: option.split\<close>)
  then show ?thesis using cmd by (auto simp: ddbg_parse_def)
qed

lemma query_words_length: "length (query_words q) = 2 * criteria q + 1"
  by (simp add: query_words_def criteria_def opt_words_def split: option.split)

lemma opt_words_ok: "word_ok k \<Longrightarrow> pred_option word_ok v \<Longrightarrow> list_all word_ok (opt_words k v)"
  by (cases v) (simp_all add: opt_words_def)

lemma keyword_ok: "word_ok ''module''" "word_ok ''func''" "word_ok ''file''" "word_ok ''line''" "word_ok ''format''" "word_ok ''+p''" "word_ok ''-p''"
  by (simp_all add: word_ok_def)

lemma query_words_ok: "query_ok q \<Longrightarrow> list_all word_ok (query_words q)"
  by (simp add: query_words_def query_ok_def opt_words_ok word_ok_dec keyword_ok)

text \<open>
  C31. The debug command that a query prints is read back as this query: \<open>zus_ddbg_write\<close> switches exactly the statements of the loaded
  modules that meet all criteria of the query, provided that it has at most four criteria. A command with all five criteria has more
  words than the parser takes and changes nothing.
\<close>

theorem ddbg_write_roundtrip:
  assumes "query_ok q"
  shows "zus_ddbg_write (show_words (query_words q)) db =
    (if criteria q \<le> 4 then (Inr (), switch q db) else (Inl EINVAL, db))"
  using tokenize_show_words [OF query_words_ok [OF assms], of "[]"] query_words_length [of q] parse_query [OF assms]
  by (simp add: zus_ddbg_write_def ddbg_process_switch)

definition sample_db :: ddbg_db where
  "sample_db = \<lparr>modules = [\<lparr>mod_name = ''toyfs'', dbg_entries =
      [\<lparr>dd_id = 1, dd_modname = ''toyfs'', dd_function = ''toyfs_read'', dd_filename = ''file.c'', dd_lineno = 312,
        dd_format = ''read: ino=%ld'', dd_active = False\<rparr>,
       \<lparr>dd_id = 2, dd_modname = ''toyfs'', dd_function = ''toyfs_write'', dd_filename = ''file.c'', dd_lineno = 455,
        dd_format = ''write: ino=%ld'', dd_active = False\<rparr>]\<rparr>], next_id = 2\<rparr>"

definition sample_query :: ddbg_ctl where
  "sample_query = \<lparr>ctl_modname = Some ''toyfs'', ctl_function = None, ctl_filename = Some ''file.c'', ctl_lineno = 312,
    ctl_format = Some ''d: i'', ctl_cmd = DDBG_CMD_ENABLE\<rparr>"

theorem ddbg_write_roundtrip_witness:
  "zus_ddbg_write (show_words (query_words sample_query)) sample_db = (Inr (), switch sample_query sample_db)"
proof -
  have ok: "query_ok sample_query" by (simp add: query_ok_def sample_query_def word_ok_def)
  have "criteria sample_query = 4" by (simp add: criteria_def sample_query_def)
  then show ?thesis using ddbg_write_roundtrip [OF ok, of sample_db] by simp
qed

section \<open>Repeated reads\<close>

definition escape :: "string \<Rightarrow> string" where
  "escape fmt = concat (map (\<lambda>c. if c = NL then [BACKSLASH, CHR ''n''] else if c = TAB then [BACKSLASH, CHR ''t''] else [c]) fmt)"

lemma copy_format_fits:
  "i + length (escape fmt) \<le> sz \<Longrightarrow> sz < length buff \<Longrightarrow>
    copy_format fmt buff i sz = take i buff @ escape fmt @ NUL # drop (Suc (i + length (escape fmt))) buff"
proof (induction fmt buff i sz rule: copy_format.induct)
  case (1 buff i sz)
  then show ?case by (simp add: escape_def upd_conv_take_nth_drop)
next
  case (2 c fmt buff i sz)
  show ?case
  proof (cases "c = NL \<or> c = TAB")
    case True
    let ?e = "if c = NL then CHR ''n'' else CHR ''t''"
    let ?b = "buff[i := BACKSLASH, i + 1 := ?e]"
    have e: "escape (c # fmt) = BACKSLASH # ?e # escape fmt" using True by (auto simp: escape_def)
    have "take (i + 2) ?b = take i buff @ [BACKSLASH, ?e]"
      using 2(3,4) e by (simp add: take_Suc_conv_app_nth nth_list_update numeral_2_eq_2)
    moreover have "drop (Suc (i + 2 + length (escape fmt))) ?b = drop (Suc (i + 2 + length (escape fmt))) buff" by simp
    ultimately show ?thesis using 2(1) 2(3,4) e True by auto
  next
    case False
    have e: "escape (c # fmt) = c # escape fmt" using False by (simp add: escape_def)
    have "take (i + 1) (buff[i := c]) = take i buff @ [c]"
      using 2(3,4) e by (simp add: take_Suc_conv_app_nth)
    then show ?thesis using 2(2) 2(3,4) e False by auto
  qed
qed

definition ddbg_fits :: "ddebug \<Rightarrow> bool" where
  "ddbg_fits dd = (NUL \<notin> set (dd_format dd) \<and> length (escape (dd_format dd)) \<le> MAX_FORMAT_SIZE)"

definition dd_line :: "ddebug \<Rightarrow> string" where
  "dd_line dd = ddbg_line dd (escape (dd_format dd))"

lemma escape_no_NUL: "NUL \<notin> set fmt \<Longrightarrow> NUL \<notin> set (escape fmt)"
  by (auto simp: escape_def split: if_splits)

lemma cstring_copy_format:
  assumes "ddbg_fits dd" and "length buff = MAX_FORMAT_SIZE + 1"
  shows "cstring (copy_format (dd_format dd) buff 0 MAX_FORMAT_SIZE) = Some (escape (dd_format dd))"
    and "length (copy_format (dd_format dd) buff 0 MAX_FORMAT_SIZE) = MAX_FORMAT_SIZE + 1"
proof -
  let ?e = "escape (dd_format dd)"
  have c: "copy_format (dd_format dd) buff 0 MAX_FORMAT_SIZE = ?e @ NUL # drop (Suc (length ?e)) buff" "length ?e \<le> MAX_FORMAT_SIZE"
    using copy_format_fits [of 0 "dd_format dd" MAX_FORMAT_SIZE buff] assms by (simp_all add: ddbg_fits_def)
  show "length (copy_format (dd_format dd) buff 0 MAX_FORMAT_SIZE) = MAX_FORMAT_SIZE + 1" unfolding c(1) using c(2) assms(2) by simp
  have "NUL \<notin> set ?e" using assms(1) escape_no_NUL by (simp add: ddbg_fits_def)
  then have "takeWhile (\<lambda>c. c \<noteq> NUL) (?e @ NUL # drop (Suc (length ?e)) buff) = ?e" by (intro takeWhile_stop not_in_list_all) simp_all
  then show "cstring (copy_format (dd_format dd) buff 0 MAX_FORMAT_SIZE) = Some ?e" unfolding c(1) cstring_def by simp
qed

lemma dd_line_pos: "dd_line dd \<noteq> []"
  by (simp add: dd_line_def ddbg_line_def)

lemma ddbg_rd_step_eq:
  assumes "ddbg_fits dd" and "length (rd_format r) = MAX_FORMAT_SIZE + 1" and "rd_id r < dd_id dd"
  obtains fb where "length fb = MAX_FORMAT_SIZE + 1"
    "ddbg_rd_step dd r =
      (if length (dd_line dd) > rd_sz r then Some (True, r\<lparr>rd_format := fb, rd_msg := Some (rd_text r)\<rparr>)
       else Some (False, r\<lparr>rd_format := fb, rd_msg := Some (rd_text r @ take (rd_sz r - 1) (dd_line dd)),
                           rd_sz := rd_sz r - length (dd_line dd), rd_id := dd_id dd\<rparr>))"
proof -
  let ?fb = "copy_format (dd_format dd) (rd_format r) 0 MAX_FORMAT_SIZE"
  have "ddbg_rd_step dd r =
      (if length (dd_line dd) > rd_sz r then Some (True, r\<lparr>rd_format := ?fb, rd_msg := Some (rd_text r)\<rparr>)
       else Some (False, r\<lparr>rd_format := ?fb, rd_msg := Some (rd_text r @ take (rd_sz r - 1) (dd_line dd)),
                           rd_sz := rd_sz r - length (dd_line dd), rd_id := dd_id dd\<rparr>))"
    using assms(3) cstring_copy_format(1) [OF assms(1,2)] by (simp add: ddbg_rd_step_def dd_line_def rd_text_def Let_def)
  then show thesis using that cstring_copy_format(2) [OF assms(1,2)] by blast
qed

lemma ddbg_rd_entries_append:
  "ddbg_rd_entries (xs @ ys) r =
    do { (out, r) \<leftarrow> ddbg_rd_entries xs r; if out then Some (True, r) else ddbg_rd_entries ys r }"
proof (induction xs arbitrary: r)
  case (Cons x xs)
  show ?case
  proof (cases "rd_sz r = 0")
    case True
    then show ?thesis by (cases ys) simp_all
  next
    case False
    then show ?thesis using Cons.IH by (cases "ddbg_rd_step x r") (auto split: prod.split)
  qed
qed simp

lemma ddbg_rd_modules_concat:
  "ddbg_rd_modules mods r = map_option snd (ddbg_rd_entries (concat (map dbg_entries mods)) r)"
proof (induction mods arbitrary: r)
  case (Cons m mods)
  show ?case
    unfolding ddbg_rd_modules.simps list.map concat.simps ddbg_rd_entries_append Cons.IH
    by (cases "ddbg_rd_entries (dbg_entries m) r") (auto split: prod.split)
qed simp

definition dd_lines :: "ddebug list \<Rightarrow> string" where
  "dd_lines dds = concat (map dd_line dds)"

text \<open>What one call does with the statements \<open>es\<close>: it lists the first \<open>k\<close> of those that are still to do, as many as fit.\<close>

definition rd_lists :: "ddebug list \<Rightarrow> ddbg_rd \<Rightarrow> ddbg_rd \<Rightarrow> nat \<Rightarrow> bool" where
  "rd_lists es r r' k =
    (let todo = filter (\<lambda>d. rd_id r < dd_id d) es
     in k \<le> length todo \<and> rd_id r \<le> rd_id r' \<and> filter (\<lambda>d. rd_id r' < dd_id d) es = drop k todo \<and>
        length (dd_lines (take k todo)) \<le> rd_sz r \<and> (k < length todo \<longrightarrow> rd_sz r < length (dd_lines (take (Suc k) todo))) \<and>
        rd_msg r' = (if todo = [] \<or> rd_sz r = 0 then rd_msg r else Some (rd_text r @ take (rd_sz r - 1) (dd_lines (take k todo)))))"

lemma rd_lists_stop:
  assumes "todo = filter (\<lambda>d. rd_id r < dd_id d) es" and "todo \<noteq> [] \<Longrightarrow> rd_sz r < length (dd_line (hd todo))"
    and "rd_id r' = rd_id r" and "rd_msg r' = (if todo = [] \<or> rd_sz r = 0 then rd_msg r else Some (rd_text r))"
  shows "rd_lists es r r' 0"
proof -
  have "dd_lines (take (Suc 0) todo) = dd_line (hd todo)" if "todo \<noteq> []" using that by (cases todo) (simp_all add: dd_lines_def)
  then show ?thesis unfolding rd_lists_def Let_def assms(1) [symmetric] using assms(2-4) assms(1) by (auto simp: dd_lines_def)
qed

lemma filter_greater_all: "sorted_wrt (<) (map dd_id (d # es)) \<Longrightarrow> n \<le> dd_id d \<Longrightarrow> filter (\<lambda>x. n < dd_id x) es = es"
  by (auto intro!: filter_True)

lemma rd_lists_next:
  assumes sorted: "sorted_wrt (<) (map dd_id (d # es))" and id: "rd_id r < dd_id d" and fit: "length (dd_line d) \<le> rd_sz r"
    and pos: "rd_sz r \<noteq> 0"
    and r1: "rd_id r1 = dd_id d" "rd_sz r1 = rd_sz r - length (dd_line d)" "rd_msg r1 = Some (rd_text r @ take (rd_sz r - 1) (dd_line d))"
    and rec: "rd_lists es r1 r' k"
  shows "rd_lists (d # es) r r' (Suc k)"
proof -
  have es: "filter (\<lambda>x. rd_id r < dd_id x) es = es" "filter (\<lambda>x. rd_id r1 < dd_id x) es = es"
    using filter_greater_all [OF sorted] id r1(1) by simp_all
  have t1: "rd_text r1 = rd_text r @ take (rd_sz r - 1) (dd_line d)" using r1(3) by (simp add: rd_text_def)
  from rec have k: "k \<le> length es" "rd_id r1 \<le> rd_id r'" "filter (\<lambda>d. rd_id r' < dd_id d) es = drop k es"
    "length (dd_lines (take k es)) \<le> rd_sz r1" "k < length es \<longrightarrow> rd_sz r1 < length (dd_lines (take (Suc k) es))"
    "rd_msg r' = (if es = [] \<or> rd_sz r1 = 0 then rd_msg r1 else Some (rd_text r1 @ take (rd_sz r1 - 1) (dd_lines (take k es))))"
    unfolding rd_lists_def Let_def es(2) by blast+
  have msg: "rd_msg r' = Some (rd_text r @ take (rd_sz r - 1) (dd_line d @ dd_lines (take k es)))"
    using k(6) r1(2,3) t1 fit by (auto simp: dd_lines_def)
  show ?thesis unfolding rd_lists_def Let_def using k(1-5) id r1(1,2) fit pos msg by (auto simp: es dd_lines_def)
qed

lemma ddbg_rd_entries_lists:
  assumes "sorted_wrt (<) (map dd_id es)" and "list_all ddbg_fits es" and "length (rd_format r) = MAX_FORMAT_SIZE + 1"
  shows "\<exists>out r' k. ddbg_rd_entries es r = Some (out, r') \<and> rd_lists es r r' k"
  using assms
proof (induction es arbitrary: r)
  case Nil
  have "rd_lists [] r r 0" by (rule rd_lists_stop [OF refl]) simp_all
  then show ?case by auto
next
  case (Cons d es)
  let ?todo = "filter (\<lambda>x. rd_id r < dd_id x) (d # es)"
  have IH: "\<exists>out r' k. ddbg_rd_entries es s = Some (out, r') \<and> rd_lists es s r' k" if "length (rd_format s) = MAX_FORMAT_SIZE + 1" for s
    using Cons.IH [of s] Cons.prems(1,2) that by simp
  show ?case
  proof (cases "rd_sz r = 0 \<or> dd_id d \<le> rd_id r")
    case True
    show ?thesis
    proof (cases "rd_sz r = 0")
      case True
      have "rd_lists (d # es) r r 0" by (rule rd_lists_stop [OF refl]) (simp_all add: True dd_line_pos)
      then show ?thesis using True by auto
    next
      case False
      with True have skip: "dd_id d \<le> rd_id r" by simp
      from IH [OF Cons.prems(3)] obtain out r' k where r': "ddbg_rd_entries es r = Some (out, r')" "rd_lists es r r' k" by blast
      have "rd_lists (d # es) r r' k" using r'(2) skip by (auto simp: rd_lists_def Let_def)
      then show ?thesis using r'(1) skip False by (auto simp: ddbg_rd_step_def)
    qed
  next
    case False
    then have id: "rd_id r < dd_id d" and pos: "rd_sz r \<noteq> 0" by simp_all
    from Cons.prems(2) have fits: "ddbg_fits d" by simp
    obtain fb where fb: "length fb = MAX_FORMAT_SIZE + 1" and
      step: "ddbg_rd_step d r =
      (if length (dd_line d) > rd_sz r then Some (True, r\<lparr>rd_format := fb, rd_msg := Some (rd_text r)\<rparr>)
       else Some (False, r\<lparr>rd_format := fb, rd_msg := Some (rd_text r @ take (rd_sz r - 1) (dd_line d)),
                           rd_sz := rd_sz r - length (dd_line d), rd_id := dd_id d\<rparr>))"
      by (rule ddbg_rd_step_eq [OF fits Cons.prems(3) id])
    show ?thesis
    proof (cases "length (dd_line d) > rd_sz r")
      case True
      let ?r = "r\<lparr>rd_format := fb, rd_msg := Some (rd_text r)\<rparr>"
      have "rd_lists (d # es) r ?r 0" by (rule rd_lists_stop [OF refl]) (use id pos True in simp_all)
      then show ?thesis using step True pos by auto
    next
      case False
      let ?r = "r\<lparr>rd_format := fb, rd_msg := Some (rd_text r @ take (rd_sz r - 1) (dd_line d)),
                           rd_sz := rd_sz r - length (dd_line d), rd_id := dd_id d\<rparr>"
      from IH [of ?r] fb obtain out r' k where r': "ddbg_rd_entries es ?r = Some (out, r')" "rd_lists es ?r r' k" by auto
      have "rd_lists (d # es) r r' (Suc k)" by (rule rd_lists_next [OF Cons.prems(1) id _ pos _ _ _ r'(2)]) (use False in simp_all)
      then show ?thesis using step False pos r'(1) by auto
    qed
  qed
qed

text \<open>
  The identifiers of a data base that grew by \<open>zus_add_module_ddbg\<close> only: ascending in the order of the list, as long as the 32 bit counter does
  not wrap around.
\<close>

definition db_entries :: "ddbg_db \<Rightarrow> ddebug list" where
  "db_entries db = concat (map dbg_entries (modules db))"

definition ddbg_db_wf :: "ddbg_db \<Rightarrow> bool" where
  "ddbg_db_wf db = (sorted_wrt (<) (map dd_id (db_entries db)) \<and> list_all (\<lambda>d. dd_id d \<le> next_id db) (db_entries db))"

lemma init_ddbgs_ids:
  "n + length dds < 2 ^ 32 \<Longrightarrow> map dd_id (fst (init_ddbgs m dds n)) = [Suc n..<Suc n + length dds] \<and> snd (init_ddbgs m dds n) = n + length dds"
proof (induction dds arbitrary: n)
  case (Cons d dds)
  have "[Suc n..<Suc n + length (d # dds)] = Suc n # [Suc (Suc n)..<Suc (Suc n) + length dds]" by (simp add: upt_conv_Cons del: upt_Suc)
  then show ?case using Cons.IH [of "Suc n"] Cons.prems by (simp add: init_ddbg_def case_prod_beta Let_def del: upt_Suc)
qed simp

lemma add_module_wf:
  assumes "ddbg_db_wf db" and "next_id db + length dds < 2 ^ 32"
  shows "ddbg_db_wf (snd (zus_add_module_ddbg mem name (Some dds) db))"
proof (cases "length name \<ge> ZUS_LIBFS_MAX_PATH \<or> \<not> mem")
  case True
  then show ?thesis using assms(1) by (auto simp: zus_add_module_ddbg_def)
next
  case False
  obtain dds' n where i: "init_ddbgs name dds (next_id db) = (dds', n)" by force
  with init_ddbgs_ids [OF assms(2), of name] have ids: "map dd_id dds' = [Suc (next_id db)..<Suc (next_id db) + length dds]"
    and n: "n = next_id db + length dds" by auto
  let ?db = "snd (zus_add_module_ddbg mem name (Some dds) db)"
  have db: "db_entries ?db = db_entries db @ dds'" "next_id ?db = n" using False i by (auto simp: zus_add_module_ddbg_def db_entries_def)
  have old: "sorted_wrt (<) (map dd_id (db_entries db))" "\<forall>x\<in>set (map dd_id (db_entries db)). x \<le> next_id db"
    using assms(1) by (auto simp: ddbg_db_wf_def list_all_iff)
  have new: "\<forall>x\<in>set (map dd_id dds'). next_id db < x \<and> x \<le> n" unfolding ids n by auto
  have "sorted_wrt (<) (map dd_id (db_entries db) @ map dd_id dds')"
    unfolding sorted_wrt_append using old new sorted_wrt_upt [of "Suc (next_id db)" "Suc (next_id db) + length dds"]
    by (auto simp: ids simp del: upt_Suc intro: le_less_trans)
  moreover have "\<forall>x\<in>set (db_entries db @ dds'). dd_id x \<le> n" using old(2) new n by force
  ultimately show ?thesis unfolding ddbg_db_wf_def db list_all_iff by simp
qed

text \<open>
  C32. One call of \<open>zus_ddbg_read\<close> lists the debug statements that are still to do in order, as many whole lines as the buffer takes, and the identifier it returns makes the
  next call go on with exactly the rest. No statement is listed twice or left out. The last character is missing when the lines fill the
  buffer completely, and a buffer stays as it is when there is nothing to list.
\<close>

theorem ddbg_read_resumes:
  assumes "ddbg_db_wf db" and "list_all ddbg_fits (db_entries db)" and "length format0 = MAX_FORMAT_SIZE + 1"
    and "todo = filter (\<lambda>d. zdi_id zdi < dd_id d) (db_entries db)"
  shows "\<exists>zdi' k. zus_ddbg_read format0 db zdi = Some zdi' \<and> k \<le> length todo \<and>
    filter (\<lambda>d. zdi_id zdi' < dd_id d) (db_entries db) = drop k todo \<and>
    length (dd_lines (take k todo)) \<le> zdi_len zdi \<and> (k < length todo \<longrightarrow> zdi_len zdi < length (dd_lines (take (Suc k) todo))) \<and>
    zdi_msg zdi' = (if todo = [] \<or> zdi_len zdi = 0 then zdi_msg zdi else take (zdi_len zdi - 1) (dd_lines (take k todo))) \<and>
    zdi_len zdi' = length (zdi_msg zdi')"
proof -
  let ?r = "\<lparr>rd_msg = None, rd_sz = zdi_len zdi, rd_id = zdi_id zdi, rd_format = format0\<rparr>"
  from assms(1) have "sorted_wrt (<) (map dd_id (db_entries db))" by (simp add: ddbg_db_wf_def)
  from ddbg_rd_entries_lists [OF this assms(2), of ?r] assms(3) obtain out r' k where
    r': "ddbg_rd_entries (db_entries db) ?r = Some (out, r')" "rd_lists (db_entries db) ?r r' k" by auto
  have m: "ddbg_rd_modules (modules db) ?r = Some r'" using r'(1) by (simp add: ddbg_rd_modules_concat db_entries_def)
  have l: "k \<le> length todo" "filter (\<lambda>d. rd_id r' < dd_id d) (db_entries db) = drop k todo"
    "length (dd_lines (take k todo)) \<le> zdi_len zdi" "k < length todo \<longrightarrow> zdi_len zdi < length (dd_lines (take (Suc k) todo))"
    "rd_msg r' = (if todo = [] \<or> zdi_len zdi = 0 then None else Some (take (zdi_len zdi - 1) (dd_lines (take k todo))))"
    using r'(2) unfolding rd_lists_def Let_def ddbg_rd.simps assms(4) [symmetric] by (auto simp: rd_text_def)
  let ?msg = "case rd_msg r' of None \<Rightarrow> zdi_msg zdi | Some t \<Rightarrow> t"
  have "zus_ddbg_read format0 db zdi = Some \<lparr>zdi_id = rd_id r', zdi_len = length ?msg, zdi_msg = ?msg\<rparr>"
    unfolding zus_ddbg_read_def m by (simp add: Let_def)
  then show ?thesis
    by (intro exI [of _ "\<lparr>zdi_id = rd_id r', zdi_len = length ?msg, zdi_msg = ?msg\<rparr>"] exI [of _ k]) (use l in simp)
qed

theorem ddbg_read_resumes_witness:
  "\<exists>zdi' k. zus_ddbg_read (replicate 513 (CHR ''x'')) sample_db \<lparr>zdi_id = 1, zdi_len = 80, zdi_msg = []\<rparr> = Some zdi' \<and>
     k \<le> 1 \<and> zdi_msg zdi' = take 79 (dd_lines (take k [dbg_entries (modules sample_db ! 0) ! 1]))"
proof -
  have wf: "ddbg_db_wf sample_db" "list_all ddbg_fits (db_entries sample_db)"
    by (simp_all add: ddbg_db_wf_def sample_db_def db_entries_def ddbg_fits_def escape_def)
  have todo: "[dbg_entries (modules sample_db ! 0) ! 1] =
      filter (\<lambda>d. zdi_id \<lparr>zdi_id = 1, zdi_len = 80, zdi_msg = []\<rparr> < dd_id d) (db_entries sample_db)"
    by (simp add: sample_db_def db_entries_def)
  show ?thesis
    using ddbg_read_resumes [OF wf _ todo, of "replicate 513 (CHR ''x'')"] by auto
qed

end
