(* ===== verification/FsLoader.thy ===== *)
theory FsLoader
  imports Printz "HOL-Library.Multiset"
begin

text \<open>
  Loading of the file systems (\<open>fs-loader.c\<close>): the names in the variable \<open>ZUFS_LIBFS_LIST\<close> are looked for in three places, loaded and registered,
  their debug statements are added to the data base of \<open>Printz\<close>, and all of them are unloaded in the end. The dynamic loader is the parameter \<open>dl_env\<close>;
  \<open>dl_open\<close> is the multiset of libraries that are open.
\<close>

section \<open>Operations\<close>

record dl_env =
  dlopen :: "string \<Rightarrow> nat option"
  dlsym_register :: "nat \<Rightarrow> bool"
  register_fn :: "nat \<Rightarrow> int"
  ddbg_symbols :: "nat \<Rightarrow> ddebug list option"
  ddbg_mem :: bool
  strdup_ok :: bool

record loader =
  g_dl_list :: "nat option list"
  dl_open :: "nat multiset"
  ddb :: ddbg_db

abbreviation ZUS_LIBFS_MAX_NR :: nat where "ZUS_LIBFS_MAX_NR \<equiv> 16"
abbreviation ZUS_LIBFS_DIR :: string where "ZUS_LIBFS_DIR \<equiv> ''/usr/lib/zufs''"

text \<open>\<open>vsnprintf\<close> cuts the path at the end of the buffer.\<close>

definition try_load_from :: "dl_env \<Rightarrow> string \<Rightarrow> loader \<Rightarrow> nat option \<times> loader" where
  "try_load_from e path l =
    (case dlopen e (take (ZUS_LIBFS_MAX_PATH - 1) path) of
       None \<Rightarrow> (None, l)
     | Some dl_lib \<Rightarrow> (Some dl_lib, l\<lparr>dl_open := add_mset dl_lib (dl_open l)\<rparr>))"

definition dlclose :: "nat \<Rightarrow> loader \<Rightarrow> loader" where
  "dlclose h l = l\<lparr>dl_open := dl_open l - {#h#}\<rparr>"

text \<open>The three places, one after the other; \<open>None\<close> is \<open>ENOENT\<close>.\<close>

definition find_lib :: "dl_env \<Rightarrow> string \<Rightarrow> loader \<Rightarrow> nat option \<times> loader" where
  "find_lib e fs_name l =
    (case try_load_from e (ZUS_LIBFS_DIR @ ''/lib'' @ fs_name @ ''.so'') l of
       (Some h, l) \<Rightarrow> (Some h, l)
     | (None, l) \<Rightarrow>
        (case try_load_from e (''lib'' @ fs_name @ ''.so'') l of
           (Some h, l) \<Rightarrow> (Some h, l)
         | (None, l) \<Rightarrow> try_load_from e fs_name l))"

text \<open>
  \<open>handle\<close> is the position in \<open>g_dl_list\<close>; behind its end the store (and the one of the debug module) has no defined effect. The numbers
  are \<open>ENOENT\<close> and \<open>EBADF\<close>.
\<close>

definition load_one_fs :: "dl_env \<Rightarrow> string \<Rightarrow> nat \<Rightarrow> loader \<Rightarrow> (int \<times> loader) run" where
  "load_one_fs e fs_name handle l =
    (case find_lib e fs_name l of
       (None, l) \<Rightarrow> Some (- 2, l)
     | (Some dl_lib, l) \<Rightarrow>
        if \<not> dlsym_register e dl_lib then Some (- 9, dlclose dl_lib l)
        else if register_fn e dl_lib \<noteq> 0 then Some (register_fn e dl_lib, dlclose dl_lib l)
        else if handle \<ge> length (g_dl_list l) then None
        else
          let (_, db) = zus_add_module_ddbg (ddbg_mem e) fs_name (ddbg_symbols e dl_lib) (ddb l)
          in Some (0, l\<lparr>ddb := db, g_dl_list := (g_dl_list l)[handle := Some dl_lib]\<rparr>))"

text \<open>\<open>strsep\<close>: the pieces between the commas.\<close>

fun strsep_all :: "string \<Rightarrow> string list" where
  "strsep_all [] = [[]]"
| "strsep_all (c # cs) =
    (if c = CHR '','' then [] # strsep_all cs
     else case strsep_all cs of [] \<Rightarrow> [[c]] | p # ps \<Rightarrow> (c # p) # ps)"

fun load_loop :: "dl_env \<Rightarrow> string list \<Rightarrow> nat \<Rightarrow> loader \<Rightarrow> (int \<times> loader) run" where
  "load_loop e [] lib_no l = Some (0, l)"
| "load_loop e (p # ps) lib_no l =
    (if p = [] then load_loop e ps lib_no l
     else do {
       (err, l) \<leftarrow> load_one_fs e p lib_no l;
       if err \<noteq> 0 then Some (err, l) else load_loop e ps (lib_no + 1) l })"

definition load_libfs :: "dl_env \<Rightarrow> string option \<Rightarrow> loader \<Rightarrow> (int \<times> loader) run" where
  "load_libfs e libfs_env l =
    (case libfs_env of
       None \<Rightarrow> Some (0, l)
     | Some [] \<Rightarrow> Some (0, l)
     | Some names \<Rightarrow> if \<not> strdup_ok e then Some (- 12, l) else load_loop e (strsep_all names) 0 l)"

definition zus_register_all :: "dl_env \<Rightarrow> string option \<Rightarrow> loader \<Rightarrow> (int \<times> loader) run" where
  "zus_register_all e libfs_env l = load_libfs e libfs_env l"

definition unload_libfs :: "nat option \<Rightarrow> loader \<Rightarrow> loader" where
  "unload_libfs handle l = (case handle of None \<Rightarrow> l | Some h \<Rightarrow> dlclose h l)"

definition zus_free_ddbg_db :: "ddbg_db \<Rightarrow> ddbg_db" where
  "zus_free_ddbg_db db = db\<lparr>modules := []\<rparr>"

definition zus_unregister_all :: "loader \<Rightarrow> loader" where
  "zus_unregister_all l =
    (let l = l\<lparr>ddb := zus_free_ddbg_db (ddb l)\<rparr> in fold unload_libfs (g_dl_list l) l)"

section \<open>Every open library is in the list, and unloading closes all\<close>

definition handles :: "nat option list \<Rightarrow> nat list" where
  "handles hs = List.map_filter id hs"

text \<open>After \<open>k\<close> loads: the first \<open>k\<close> places are taken, the others are free, and exactly these libraries are open.\<close>

definition loaded :: "nat \<Rightarrow> loader \<Rightarrow> bool" where
  "loaded k l =
    (length (g_dl_list l) = ZUS_LIBFS_MAX_NR \<and> k \<le> ZUS_LIBFS_MAX_NR \<and> (\<forall>i < ZUS_LIBFS_MAX_NR. (g_dl_list l ! i \<noteq> None) = (i < k)) \<and>
     dl_open l = mset (handles (g_dl_list l)))"

lemma handles_simps [simp]:
  "handles [] = []" "handles (None # hs) = handles hs" "handles (Some h # hs) = h # handles hs" "handles (xs @ ys) = handles xs @ handles ys"
  by (simp_all add: handles_def map_filter_def)

lemma handles_update:
  "i < length hs \<Longrightarrow> hs ! i = None \<Longrightarrow> mset (handles (hs[i := Some h])) = add_mset h (mset (handles hs))"
  by (induction hs arbitrary: i) (auto split: nat.splits option.splits simp: handles_def map_filter_def nth_Cons)

lemma find_lib_open:
  assumes "find_lib e n l = (r, l')"
  shows "case r of None \<Rightarrow> l' = l | Some h \<Rightarrow> l' = l\<lparr>dl_open := add_mset h (dl_open l)\<rparr>"
  using assms by (auto simp: find_lib_def try_load_from_def split: option.splits prod.splits)

lemma load_one_fs_loaded:
  assumes "loaded k l" "load_one_fs e n k l = Some (err, l')"
  shows "if err = 0 then loaded (k + 1) l' else loaded k l'"
proof -
  obtain r l1 where f: "find_lib e n l = (r, l1)" by force
  note fl = find_lib_open [OF f]
  show ?thesis
  proof (cases r)
    case None
    then show ?thesis using assms f fl by (simp add: load_one_fs_def)
  next
    case (Some h)
    have l1: "l1 = l\<lparr>dl_open := add_mset h (dl_open l)\<rparr>" using fl Some by simp
    show ?thesis
    proof (cases "dlsym_register e h \<and> register_fn e h = 0")
      case False
      then show ?thesis using assms f Some by (auto simp: load_one_fs_def dlclose_def l1 split: if_splits)
    next
      case True
      then obtain db where k: "err = 0" "k < length (g_dl_list l)"
        "l' = l1\<lparr>ddb := db, g_dl_list := (g_dl_list l)[k := Some h]\<rparr>"
        using assms(2) f Some by (auto simp: load_one_fs_def l1 split: if_splits prod.splits)
      have "(g_dl_list l ! k \<noteq> None) = (k < k)" using assms(1) k(2) unfolding loaded_def by metis
      then have "g_dl_list l ! k = None" by simp
      then show ?thesis using assms(1) k handles_update [OF k(2), of h]
        by (auto simp: loaded_def l1 nth_list_update less_Suc_eq)
    qed
  qed
qed

lemma load_loop_loaded:
  "loaded k l \<Longrightarrow> load_loop e ps k l = Some (err, l') \<Longrightarrow>
   \<exists>m. loaded m l' \<and> k \<le> m \<and> (err = 0 \<longrightarrow> m = k + length (filter (\<lambda>p. p \<noteq> []) ps))"
proof (induction ps arbitrary: k l)
  case Nil
  then show ?case by auto
next
  case (Cons p ps)
  show ?case
  proof (cases "p = []")
    case True
    then show ?thesis using Cons by simp
  next
    case False
    then obtain err1 l1 where l1: "load_one_fs e p k l = Some (err1, l1)"
      "if err1 \<noteq> 0 then err = err1 \<and> l' = l1 else load_loop e ps (k + 1) l1 = Some (err, l')"
      using Cons.prems(2) by (auto split: bind_splits if_splits)
    from load_one_fs_loaded [OF Cons.prems(1) l1(1)] l1(2) Cons.IH [of "k + 1" l1] False show ?thesis
      by (cases "err1 = 0") force+
  qed
qed

lemma unload_all:
  "mset (handles hs) \<subseteq># dl_open l \<Longrightarrow> dl_open (fold unload_libfs hs l) = dl_open l - mset (handles hs)"
proof (induction hs arbitrary: l)
  case (Cons h hs)
  show ?case
  proof (cases h)
    case None
    then show ?thesis using Cons by (simp add: unload_libfs_def)
  next
    case (Some a)
    have "mset (handles hs) \<subseteq># dl_open l - {#a#}" using Cons.prems Some by (simp add: insert_subset_eq_iff)
    then show ?thesis using Cons.IH [of "dlclose a l"] Some by (simp add: unload_libfs_def dlclose_def)
  qed
qed simp

text \<open>
  However the loading of the list ends, the libraries that are open are those recorded in \<open>g_dl_list\<close>, and \<open>zus_unregister_all\<close> closes each
  of them once. When the loading succeeds, as many libraries are recorded as the list has names.
\<close>

theorem register_all_balanced:
  assumes "g_dl_list l = replicate ZUS_LIBFS_MAX_NR None" "dl_open l = {#}" "zus_register_all e (Some names) l = Some (err, l')"
  shows "dl_open l' = mset (handles (g_dl_list l')) \<and> dl_open (zus_unregister_all l') = {#} \<and>
    (err = 0 \<and> names \<noteq> [] \<longrightarrow> length (handles (g_dl_list l')) = length (filter (\<lambda>p. p \<noteq> []) (strsep_all names)))"
proof -
  have "handles (replicate n None) = []" for n by (induction n) simp_all
  then have l: "loaded 0 l" using assms(1,2) by (simp add: loaded_def)
  have "\<exists>m. loaded m l' \<and> (err = 0 \<and> names \<noteq> [] \<longrightarrow> m = length (filter (\<lambda>p. p \<noteq> []) (strsep_all names)))"
  proof (cases names)
    case Nil
    then show ?thesis using assms(3) l by (auto simp: zus_register_all_def load_libfs_def)
  next
    case (Cons c cs)
    then show ?thesis using assms(3) l load_loop_loaded [OF l, of e "strsep_all names" err l']
      by (auto simp: zus_register_all_def load_libfs_def split: if_splits)
  qed
  then obtain m where m: "loaded m l'" "err = 0 \<and> names \<noteq> [] \<longrightarrow> m = length (filter (\<lambda>p. p \<noteq> []) (strsep_all names))" by blast
  have "length (handles hs) = length (filter (\<lambda>h. h \<noteq> None) hs)" for hs by (induction hs) (auto simp: handles_def map_filter_def)
  moreover have "filter (\<lambda>i. g_dl_list l' ! i \<noteq> None) [0..<ZUS_LIBFS_MAX_NR] = filter (\<lambda>i. i < m) [0..<ZUS_LIBFS_MAX_NR]"
    by (rule filter_cong) (use m(1) in \<open>auto simp: loaded_def\<close>)
  moreover have "length (filter (\<lambda>i. i < m) [0..<n]) = m" if "m \<le> n" for n
    using that by (induction n) (auto simp: le_Suc_eq)
  moreover have "filter (\<lambda>h. h \<noteq> None) (g_dl_list l') = map ((!) (g_dl_list l')) (filter (\<lambda>i. g_dl_list l' ! i \<noteq> None) [0..<length (g_dl_list l')])"
    using filter_map [of "\<lambda>h. h \<noteq> None" "(!) (g_dl_list l')" "[0..<length (g_dl_list l')]"] by (simp add: map_nth o_def)
  ultimately have "length (handles (g_dl_list l')) = m" using m(1) by (simp add: loaded_def)
  moreover have "dl_open (zus_unregister_all l') = {#}"
    using m(1) unload_all [of "g_dl_list l'" "l'\<lparr>ddb := zus_free_ddbg_db (ddb l')\<rparr>"] by (simp add: zus_unregister_all_def loaded_def)
  ultimately show ?thesis using m by (simp add: loaded_def)
qed

definition sample_dl :: dl_env where
  "sample_dl = \<lparr>dlopen = \<lambda>p. if p = ''libtoyfs.so'' then Some 7 else None, dlsym_register = \<lambda>_. True, register_fn = \<lambda>_. 0, ddbg_symbols = \<lambda>_. None,
     ddbg_mem = True, strdup_ok = True\<rparr>"

theorem register_all_balanced_witness:
  "\<exists>l'. zus_register_all sample_dl (Some ''toyfs,'') \<lparr>g_dl_list = replicate 16 None, dl_open = {#}, ddb = sample_db\<rparr> = Some (0, l') \<and>
    length (handles (g_dl_list l')) = 1 \<and> dl_open (zus_unregister_all l') = {#}"
proof -
  let ?l = "\<lparr>g_dl_list = replicate 16 None, dl_open = {#}, ddb = sample_db\<rparr>"
  have s: "strsep_all ''toyfs,'' = [''toyfs'', []]" by simp
  have "\<exists>l'. zus_register_all sample_dl (Some ''toyfs,'') ?l = Some (0, l')"
    by (simp add: zus_register_all_def load_libfs_def s load_one_fs_def find_lib_def try_load_from_def sample_dl_def zus_add_module_ddbg_def)
  then obtain l' where l': "zus_register_all sample_dl (Some ''toyfs,'') ?l = Some (0, l')" ..
  from register_all_balanced [OF _ _ this] l' show ?thesis by (auto simp: s)
qed

end
