(* ===== verification/Fba.thy ===== *)
theory Fba
  imports ZusStd
begin

text \<open>
  Memory behind a file (\<open>fba_*\<close> of \<open>pa.c\<close>), the memory of the page allocator (\<open>pa_init\<close>) and its size (\<open>zus_setup_pa_size\<close>). The operating system is a
  set of open descriptors and a set of mapped addresses; the results of the system calls are the parameter \<open>fba_env\<close>.
\<close>

section \<open>Operations\<close>

record os =
  os_fds :: "int set"
  os_mapped :: "nat set"

text \<open>The values of the calls: a descriptor or a negative number, 0 or an error, an address or \<open>MAP_FAILED\<close>. \<open>f_errno\<close> is \<open>errno\<close> after a failure.\<close>

record fba_env =
  f_open :: int
  f_truncate :: int
  f_mmap :: "addr option"
  f_mlock :: int
  f_errno :: int

definition os_close :: "int \<Rightarrow> os \<Rightarrow> os" where
  "os_close fd s = s\<lparr>os_fds := os_fds s - {fd}\<rparr>"

text \<open>\<open>munmap\<close> of an address that is not a multiple of the page size, or of no bytes, fails and has no effect.\<close>

definition os_munmap :: "nat \<Rightarrow> nat \<Rightarrow> os \<Rightarrow> os" where
  "os_munmap a len s = (if a mod PAGE_SIZE \<noteq> 0 then s else s\<lparr>os_mapped := os_mapped s - {a..<a + len}\<rparr>)"

definition fba_free :: "fba \<Rightarrow> os \<Rightarrow> fba \<times> os" where
  "fba_free f s =
    (if fba_fd f \<ge> 0 then
       let s = (case fba_ptr f of None \<Rightarrow> s | Some p \<Rightarrow> os_munmap p (fba_size f) s)
       in (f\<lparr>fba_fd := - 1\<rparr>, os_close (fba_fd f) s)
     else (f, s))"

text \<open>The numbers 1 and 12 are \<open>EPERM\<close> and \<open>ENOMEM\<close>.\<close>

definition fba_alloc_flags :: "fba_env \<Rightarrow> nat \<Rightarrow> fba \<Rightarrow> os \<Rightarrow> int \<times> fba \<times> os" where
  "fba_alloc_flags e len f s =
    (let f = f\<lparr>fba_fd := f_open e\<rparr> in
     if f_open e < 0 then (if f_errno e \<noteq> 0 then - f_errno e else - 1, f, s)
     else let s = s\<lparr>os_fds := insert (f_open e) (os_fds s)\<rparr> in
     if f_truncate e \<noteq> 0 then (- f_errno e, f, os_close (f_open e) s)
     else let f = f\<lparr>fba_ptr := f_mmap e\<rparr> in
     case f_mmap e of
       None \<Rightarrow> let (f, s) = fba_free f s in (if f_errno e \<noteq> 0 then - f_errno e else - 12, f, s)
     | Some p \<Rightarrow> (0, f\<lparr>fba_size := len\<rparr>, s\<lparr>os_mapped := os_mapped s \<union> {p..<p + len}\<rparr>))"

text \<open>\<open>lck\<close>: \<open>NEED_MLOCK && size < PA_SIZE\<close>. A failed lock is returned, and the memory stays.\<close>

definition fba_alloc :: "fba_env \<Rightarrow> bool \<Rightarrow> nat \<Rightarrow> fba \<Rightarrow> os \<Rightarrow> int \<times> fba \<times> os" where
  "fba_alloc e lck len f s =
    (let (err, f, s) = fba_alloc_flags e len f s in
     if err \<noteq> 0 then (err, f, s) else if lck then (f_mlock e, f, s) else (0, f, s))"

definition fba_alloc_huge :: "fba_env \<Rightarrow> fba_env \<Rightarrow> nat \<Rightarrow> fba \<Rightarrow> os \<Rightarrow> int \<times> fba \<times> os" where
  "fba_alloc_huge eh e len f s =
    (let (err, f, s) = fba_alloc_flags eh len f s in if err \<noteq> 0 then fba_alloc_flags e len f s else (0, f, s))"

definition align_up :: "nat \<Rightarrow> nat \<Rightarrow> nat" where
  "align_up x a = (x + a - 1) div a * a"

text \<open>\<open>a\<close> is \<open>FBA_ALIGNSIZE\<close>. The mapping is one unit larger, and the ends outside the aligned range are unmapped.\<close>

definition fba_alloc_align :: "fba_env \<Rightarrow> fba_env \<Rightarrow> nat \<Rightarrow> nat \<Rightarrow> bool \<Rightarrow> fba \<Rightarrow> os \<Rightarrow> (int \<times> fba \<times> os) run" where
  "fba_alloc_align eh e a len huge f s =
    (let aligned_size = align_up (len + a) a;
         (err, f, s) = (if huge then fba_alloc_huge eh e aligned_size f s else fba_alloc_flags e aligned_size f s)
     in if err \<noteq> 0 then Some (err, f, s)
        else do {
          p \<leftarrow> fba_ptr f;
          let adr = align_up p a;
          if p \<noteq> adr then
            let start_len = adr - p; end_len = aligned_size - len - start_len;
                s = os_munmap (adr + len) end_len (os_munmap p start_len s)
            in Some (0, f\<lparr>fba_ptr := Some adr, fba_size := len\<rparr>, s)
          else Some (0, f, s) })"

text \<open>The page allocator of a super block: two areas. \<open>spin\<close> is the result of \<open>pthread_spin_init\<close>.\<close>

record pa_mem =
  pm_pages :: fba
  pm_data :: fba

definition pa_fini :: "pa_mem \<Rightarrow> os \<Rightarrow> pa_mem \<times> os" where
  "pa_fini m s = (let (f, s) = fba_free (pm_pages m) s; (g, s) = fba_free (pm_data m) s in (\<lparr>pm_pages = f, pm_data = g\<rparr>, s))"

definition pa_init :: "int \<Rightarrow> fba_env \<Rightarrow> fba_env \<Rightarrow> bool \<Rightarrow> nat \<Rightarrow> pa_mem \<Rightarrow> os \<Rightarrow> int \<times> pa_mem \<times> os" where
  "pa_init spin e1 e2 lck PA_SIZE m s =
    (if spin \<noteq> 0 then (spin, pa_fini m s)
     else let (err, f, s) = fba_alloc e1 False PA_SIZE (pm_data m) s; m = m\<lparr>pm_data := f\<rparr> in
     if err \<noteq> 0 then (err, pa_fini m s)
     else let (err, f, s) = fba_alloc e2 lck (PA_SIZE div PAGE_SIZE * SIZEOF_PA_PAGE) (pm_pages m) s; m = m\<lparr>pm_pages := f\<rparr> in
     if err \<noteq> 0 then (err, pa_fini m s) else (0, m, s))"

text \<open>
  The size of the page allocator: the argument, or the variable \<open>ZUFS_PA_SIZE\<close>, or half of the memory, rounded down to 2 megabytes. \<open>p_size\<close> and \<open>pages\<close> are the
  values of \<open>sysconf\<close>.
\<close>

definition zus_setup_pa_size :: "nat \<Rightarrow> nat option \<Rightarrow> int \<Rightarrow> int \<Rightarrow> int \<Rightarrow> nat \<Rightarrow> int \<times> nat" where
  "zus_setup_pa_size len env p_size pages errnum g =
    (let out = (\<lambda>n. (0, n div (2 * 2 ^ 20) * (2 * 2 ^ 20))) in
     if len \<noteq> 0 then out len
     else case env of Some n \<Rightarrow> out n
     | None \<Rightarrow>
        if p_size = - 1 then (- errnum, g)
        else if pages = - 1 then (- errnum, g)
        else let avail = nat ((p_size * pages) mod 2 ^ 64) in
          if avail < 64 * 2 ^ 20 then (- 12, g) else out (avail div 2))"

section \<open>Allocation and release are balanced\<close>

text \<open>What the operating system promises: a new descriptor is not in use, a new mapping starts at a page and overlaps no other one.\<close>

definition env_fresh :: "fba_env \<Rightarrow> nat \<Rightarrow> os \<Rightarrow> bool" where
  "env_fresh e len s =
    ((0 \<le> f_open e \<longrightarrow> f_open e \<notin> os_fds s) \<and>
     (\<forall>p. f_mmap e = Some p \<longrightarrow> p mod PAGE_SIZE = 0 \<and> {p..<p + len} \<inter> os_mapped s = {}) \<and> (f_truncate e \<noteq> 0 \<longrightarrow> f_errno e \<noteq> 0))"

lemma fba_alloc_flags_cases:
  assumes "env_fresh e len s" "fba_alloc_flags e len f s = (err, f', s')"
  shows "(err \<noteq> 0 \<longrightarrow> s' = s) \<and>
    (err = 0 \<longrightarrow> (\<exists>p. f_mmap e = Some p \<and> fba_ptr f' = Some p \<and> fba_size f' = len \<and> fba_fd f' = f_open e \<and> 0 \<le> f_open e \<and>
      s' = \<lparr>os_fds = insert (f_open e) (os_fds s), os_mapped = os_mapped s \<union> {p..<p + len}\<rparr>))"
  using assms
  by (cases s) (auto simp: fba_alloc_flags_def env_fresh_def fba_free_def os_close_def Let_def split: if_splits option.splits)

lemma align_up_bounds:
  fixes a x :: nat
  assumes "0 < a"
  shows "x \<le> align_up x a" "align_up x a < x + a" "align_up x a mod a = 0"
proof -
  let ?y = "x + a - 1"
  have y: "?y div a * a + ?y mod a = ?y" by simp
  have m: "?y mod a < a" using assms by simp
  show "x \<le> align_up x a" using y m assms unfolding align_up_def by linarith
  show "align_up x a < x + a" using y assms unfolding align_up_def by linarith
  show "align_up x a mod a = 0" by (simp add: align_up_def)
qed

text \<open>The range that an allocation hands out, and its release.\<close>

lemma fba_free_range:
  assumes "fba_ptr f = Some p" "0 \<le> fba_fd f" "p mod PAGE_SIZE = 0" "s' = \<lparr>os_fds = insert (fba_fd f) (os_fds s), os_mapped = os_mapped s \<union> {p..<p + fba_size f}\<rparr>"
    "fba_fd f \<notin> os_fds s" "{p..<p + fba_size f} \<inter> os_mapped s = {}"
  shows "snd (fba_free f s') = s"
proof -
  have "os_mapped s \<union> {p..<p + fba_size f} - {p..<p + fba_size f} = os_mapped s" using assms(6) by blast
  then show ?thesis using assms(1-5) by (cases s) (simp add: fba_free_def os_munmap_def os_close_def)
qed

text \<open>What a successful allocation has: a range of its own, disjoint from everything mapped before.\<close>

definition owns :: "os \<Rightarrow> fba \<Rightarrow> addr \<Rightarrow> os \<Rightarrow> bool" where
  "owns s f p s' =
    (fba_ptr f = Some p \<and> 0 \<le> fba_fd f \<and> fba_fd f \<notin> os_fds s \<and> p mod PAGE_SIZE = 0 \<and> {p..<p + fba_size f} \<inter> os_mapped s = {} \<and>
     s' = \<lparr>os_fds = insert (fba_fd f) (os_fds s), os_mapped = os_mapped s \<union> {p..<p + fba_size f}\<rparr>)"

lemma owns_free: "owns s f p s' \<Longrightarrow> snd (fba_free f s') = s"
  unfolding owns_def by (elim conjE) (rule fba_free_range)

lemma fba_alloc_flags_owns:
  assumes "env_fresh e len s" "fba_alloc_flags e len f s = (0, f', s')"
  shows "\<exists>p. owns s f' p s' \<and> fba_size f' = len"
  using fba_alloc_flags_cases [OF assms] assms(1) by (auto simp: owns_def env_fresh_def)

lemma cut_ends:
  assumes "owns s f p s'" "p \<le> q" "q + len \<le> p + fba_size f" "q mod PAGE_SIZE = 0" "len mod PAGE_SIZE = 0"
  shows "owns s (f\<lparr>fba_ptr := Some q, fba_size := len\<rparr>) q (os_munmap (q + len) (fba_size f - len - (q - p)) (os_munmap p (q - p) s'))"
proof -
  let ?S = "fba_size f" and ?M = "os_mapped s"
  have p: "p mod PAGE_SIZE = 0" "{p..<p + ?S} \<inter> ?M = {}" "os_mapped s' = ?M \<union> {p..<p + ?S}" using assms(1) by (simp_all add: owns_def)
  have m: "(q + len) mod PAGE_SIZE = 0" using assms(4,5) by (metis add_0 mod_0 mod_add_eq)
  have e: "q + len + (?S - len - (q - p)) = p + ?S" "p + (q - p) = q" using assms(2,3) by simp_all
  have "?M \<union> {p..<p + ?S} - {p..<q} - {q + len..<p + ?S} = ?M \<union> {q..<q + len}"
  proof (rule set_eqI)
    fix x
    have "x \<notin> ?M" if "p \<le> x" "x < p + ?S" using p(2) that by (metis IntI atLeastLessThan_iff empty_iff)
    then show "x \<in> ?M \<union> {p..<p + ?S} - {p..<q} - {q + len..<p + ?S} \<longleftrightarrow> x \<in> ?M \<union> {q..<q + len}"
      using assms(2,3) by (cases "x \<in> ?M"; simp; linarith)
  qed
  then have "os_munmap (q + len) (?S - len - (q - p)) (os_munmap p (q - p) s') =
      \<lparr>os_fds = os_fds s', os_mapped = ?M \<union> {q..<q + len}\<rparr>"
    using p(1,3) m e by (cases s') (simp add: os_munmap_def)
  moreover have "{q..<q + len} \<subseteq> {p..<p + ?S}" using assms(2,3) by auto
  then have "{q..<q + len} \<inter> ?M = {}" using p(2) by blast
  ultimately show ?thesis using assms(1,4) by (auto simp: owns_def)
qed

text \<open>
  C40. An aligned allocation of a whole number of pages. If it succeeds, the address is aligned, the bytes are mapped, nothing else has been mapped or
  unmapped, and \<open>fba_free\<close> restores the descriptors and mappings of before. If it fails, nothing is left behind.
\<close>

theorem fba_alloc_align_correct:
  assumes a: "0 < a" "a mod PAGE_SIZE = 0" "len mod PAGE_SIZE = 0"
    and e: "env_fresh eh (align_up (len + a) a) s" "env_fresh e (align_up (len + a) a) s"
    and run: "fba_alloc_align eh e a len huge f s = Some (err, f', s')"
  shows "if err = 0 then \<exists>p. p mod a = 0 \<and> len \<le> fba_size f' \<and> owns s f' p s' \<and> snd (fba_free f' s') = s else s' = s"
proof -
  define S where "S = align_up (len + a) a"
  obtain err1 f1 s1 where r: "(if huge then fba_alloc_huge eh e S f s else fba_alloc_flags e S f s) = (err1, f1, s1)"
    by (metis prod.exhaust)
  have c: "(err1 \<noteq> 0 \<longrightarrow> s1 = s) \<and> (err1 = 0 \<longrightarrow> (\<exists>p. owns s f1 p s1 \<and> fba_size f1 = S))"
  proof (cases huge)
    case False
    then show ?thesis using r fba_alloc_flags_cases [OF e(2), folded S_def] fba_alloc_flags_owns [OF e(2), folded S_def] by auto
  next
    case True
    obtain err2 f2 s2 where h: "fba_alloc_flags eh S f s = (err2, f2, s2)" by (metis prod.exhaust)
    show ?thesis
    proof (cases "err2 = 0")
      case True
      then show ?thesis using r \<open>huge\<close> h fba_alloc_flags_owns [OF e(1), folded S_def, of f] by (simp add: fba_alloc_huge_def)
    next
      case False
      then have "s2 = s" using fba_alloc_flags_cases [OF e(1), folded S_def, OF h] by simp
      then show ?thesis using False r \<open>huge\<close> h fba_alloc_flags_cases [OF e(2), folded S_def, of f2] fba_alloc_flags_owns [OF e(2), folded S_def, of f2]
        by (simp add: fba_alloc_huge_def)
    qed
  qed
  have run': "(if err1 \<noteq> 0 then Some (err1, f1, s1)
      else do { p \<leftarrow> fba_ptr f1; let adr = align_up p a;
        if p \<noteq> adr then Some (0, f1\<lparr>fba_ptr := Some adr, fba_size := len\<rparr>, os_munmap (adr + len) (S - len - (adr - p)) (os_munmap p (adr - p) s1))
        else Some (0, f1, s1) }) = Some (err, f', s')"
    using run unfolding fba_alloc_align_def Let_def S_def [symmetric] r by simp
  show ?thesis
  proof (cases "err1 = 0")
    case False
    then show ?thesis using run' c by auto
  next
    case True
    then obtain p where p: "owns s f1 p s1" "fba_size f1 = S" using c by blast
    note up = align_up_bounds [OF a(1), of p]
    have S: "len + a \<le> S" using align_up_bounds(1) [OF a(1), of "len + a"] by (simp add: S_def)
    have pp: "fba_ptr f1 = Some p" "p mod PAGE_SIZE = 0" using p(1) by (simp_all add: owns_def)
    have q0: "align_up p a mod PAGE_SIZE = 0" using up(3) a(2) by (auto simp: mod_eq_0_iff_dvd intro: dvd_trans)
    show ?thesis
    proof (cases "p = align_up p a")
      case True
      then have "err = 0 \<and> f' = f1 \<and> s' = s1" using run' \<open>err1 = 0\<close> pp(1) by simp
      moreover have "p mod a = 0" using up(3) True by simp
      ultimately show ?thesis using p S owns_free [OF p(1)] by (simp, intro exI [of _ p]) simp
    next
      case False
      let ?q = "align_up p a"
      have o: "owns s (f1\<lparr>fba_ptr := Some ?q, fba_size := len\<rparr>) ?q (os_munmap (?q + len) (S - len - (?q - p)) (os_munmap p (?q - p) s1))"
        using cut_ends [OF p(1) up(1) _ q0 a(3)] up(2) S by (simp add: p(2))
      have "err = 0 \<and> f' = f1\<lparr>fba_ptr := Some ?q, fba_size := len\<rparr> \<and> s' = os_munmap (?q + len) (S - len - (?q - p)) (os_munmap p (?q - p) s1)"
        using run' \<open>err1 = 0\<close> pp(1) False by (simp add: Let_def)
      then show ?thesis using o owns_free [OF o] up(3) by (simp, intro exI [of _ ?q]) simp
    qed
  qed
qed

definition sample_fba_env :: fba_env where
  "sample_fba_env = \<lparr>f_open = 3, f_truncate = 0, f_mmap = Some 12288, f_mlock = 0, f_errno = 0\<rparr>"

theorem fba_alloc_align_correct_witness:
  "\<exists>f' s'. fba_alloc_align sample_fba_env sample_fba_env 8192 4096 False \<lparr>fba_fd = 0, fba_ptr = None, fba_size = 0, fba_orig_ptr = None\<rparr>
      \<lparr>os_fds = {0, 1, 2}, os_mapped = {4096..<8192}\<rparr> = Some (0, f', s') \<and>
    fba_ptr f' = Some 16384 \<and> snd (fba_free f' s') = \<lparr>os_fds = {0, 1, 2}, os_mapped = {4096..<8192}\<rparr>"
proof -
  let ?f = "\<lparr>fba_fd = 0, fba_ptr = None, fba_size = 0, fba_orig_ptr = None\<rparr>" and ?s = "\<lparr>os_fds = {0, 1, 2}, os_mapped = {4096..<8192}\<rparr>"
  have "\<exists>f' s'. fba_alloc_align sample_fba_env sample_fba_env 8192 4096 False ?f ?s = Some (0, f', s') \<and> fba_ptr f' = Some 16384"
    by (simp add: fba_alloc_align_def fba_alloc_flags_def sample_fba_env_def align_up_def Let_def)
  then obtain f' s' where r: "fba_alloc_align sample_fba_env sample_fba_env 8192 4096 False ?f ?s = Some (0, f', s')" "fba_ptr f' = Some 16384" by blast
  have "env_fresh sample_fba_env (align_up (4096 + 8192) 8192) ?s" by (auto simp: env_fresh_def sample_fba_env_def align_up_def)
  from fba_alloc_align_correct [OF _ _ _ this this r(1)] r show ?thesis by auto
qed

text \<open>
  The failure path of \<open>pa_init\<close> frees both areas. A super block info that comes zeroed has the descriptor 0 in the area that was not
  allocated yet: it is closed, although it belongs to the standard input.
\<close>

theorem pa_init_failure_closes_stdin:
  assumes "f_open e1 < 0" "pm_pages m = \<lparr>fba_fd = 0, fba_ptr = None, fba_size = 0, fba_orig_ptr = None\<rparr>" "f_errno e1 \<noteq> 0"
  shows "\<exists>m' s'. pa_init 0 e1 e2 lck PA_SIZE m s = (- f_errno e1, m', s') \<and> os_fds s' = os_fds s - {0}"
  using assms by (simp add: pa_init_def fba_alloc_def fba_alloc_flags_def pa_fini_def fba_free_def os_close_def Let_def)

text \<open>When both areas are allocated, \<open>pa_fini\<close> gives everything back.\<close>

theorem pa_init_fini:
  assumes "pa_init 0 e1 e2 lck n m s = (0, m', s')" "env_fresh e1 n s"
    and "\<And>f1 s1. fba_alloc e1 False n (pm_data m) s = (0, f1, s1) \<Longrightarrow> env_fresh e2 (n div PAGE_SIZE * SIZEOF_PA_PAGE) s1"
  shows "snd (pa_fini m' s') = s"
proof -
  obtain err1 f1 s1 where 1: "fba_alloc e1 False n (pm_data m) s = (err1, f1, s1)" by (metis prod.exhaust)
  with assms(1) have err1: "err1 = 0" by (auto simp: pa_init_def Let_def split: if_splits prod.splits)
  obtain err2 f2 s2 where 2: "fba_alloc e2 lck (n div PAGE_SIZE * SIZEOF_PA_PAGE) (pm_pages m) s1 = (err2, f2, s2)" by (metis prod.exhaust)
  with assms(1) 1 err1 have r: "err2 = 0" "m' = \<lparr>pm_pages = f2, pm_data = f1\<rparr>" "s' = s2"
    by (cases m; auto simp: pa_init_def Let_def split: if_splits prod.splits)+
  have a1: "fba_alloc_flags e1 n (pm_data m) s = (0, f1, s1)" using 1 err1 by (auto simp: fba_alloc_def Let_def split: if_splits prod.splits)
  have a2: "fba_alloc_flags e2 (n div PAGE_SIZE * SIZEOF_PA_PAGE) (pm_pages m) s1 = (0, f2, s2)"
    using 2 r(1) by (auto simp: fba_alloc_def Let_def split: if_splits prod.splits)
  obtain p1 where "owns s f1 p1 s1" using fba_alloc_flags_owns [OF assms(2) a1] by blast
  moreover obtain p2 where "owns s1 f2 p2 s2" using fba_alloc_flags_owns [OF assms(3) a2] 1 err1 by blast
  ultimately show ?thesis using owns_free by (simp add: pa_fini_def r split: prod.splits) (metis snd_conv)
qed

lemma setup_pa_size_aligned: "zus_setup_pa_size len env ps pg errnum g = (0, n) \<Longrightarrow> errnum \<noteq> 0 \<Longrightarrow> n mod (2 * 2 ^ 20) = 0"
  by (auto simp: zus_setup_pa_size_def Let_def split: if_splits option.splits)

end
