(* ===== verification/MovNt.thy ===== *)
theory MovNt
  imports Prelude
begin

text \<open>
  Copies to persistent memory (\<open>nvml_movnt.c\<close>, \<open>movnt.h\<close>). A byte that an ordinary store has written is in the cache (\<open>pm_cache\<close>) until its cache line is flushed; a
  byte written by a non-temporal store is in a buffer of the processor (\<open>pm_wc\<close>) until the next \<open>sfence\<close>. Bytes in neither set are persistent. A
  non-temporal store of 16 bytes at an address that is not a multiple of 16 is a fault (\<open>None\<close>). The theorems compare the copies with \<open>memmove\<close> and \<open>memset\<close> and
  show which bytes may still be volatile. Addresses of the process are far below \<open>2 ^ 64\<close>, so sums of them do not wrap; the difference that chooses
  the direction of a copy does, and is written out.
\<close>

unbundle bit_operations_syntax

section \<open>The processor\<close>

record pmem =
  pm_mem :: "nat \<Rightarrow> byte"
  pm_cache :: "nat set"
  pm_wc :: "nat set"

definition store8 :: "nat \<Rightarrow> byte \<Rightarrow> pmem \<Rightarrow> pmem" where
  "store8 a v st = st\<lparr>pm_mem := (pm_mem st)(a := v), pm_cache := insert a (pm_cache st)\<rparr>"

definition load :: "nat \<Rightarrow> nat \<Rightarrow> pmem \<Rightarrow> byte list" where
  "load n a st = map (pm_mem st) [a..<a + n]"

definition stream :: "nat \<Rightarrow> byte list \<Rightarrow> pmem \<Rightarrow> pmem" where
  "stream a vs st = st\<lparr>pm_mem := (\<lambda>x. if a \<le> x \<and> x < a + length vs then vs ! (x - a) else pm_mem st x),
    pm_wc := pm_wc st \<union> {a..<a + length vs}\<rparr>"

definition mm_stream_si128 :: "nat \<Rightarrow> byte list \<Rightarrow> pmem \<Rightarrow> pmem run" where
  "mm_stream_si128 a v st = (if a mod 16 = 0 then Some (stream a v st) else None)"

definition clflush :: "nat \<Rightarrow> pmem \<Rightarrow> pmem" where
  "clflush a st = st\<lparr>pm_cache := pm_cache st - {a div 64 * 64..<a div 64 * 64 + 64}\<rparr>"

definition sfence :: "pmem \<Rightarrow> pmem" where
  "sfence st = st\<lparr>pm_wc := {}\<rparr>"

text \<open>The functions of the C library, with ordinary stores.\<close>

definition move :: "nat \<Rightarrow> nat \<Rightarrow> nat \<Rightarrow> (nat \<Rightarrow> byte) \<Rightarrow> nat \<Rightarrow> byte" where
  "move n d s m = (\<lambda>x. if d \<le> x \<and> x < d + n then m (s + (x - d)) else m x)"

definition memmove :: "nat \<Rightarrow> nat \<Rightarrow> nat \<Rightarrow> pmem \<Rightarrow> pmem" where
  "memmove d s n st = st\<lparr>pm_mem := move n d s (pm_mem st), pm_cache := pm_cache st \<union> {d..<d + n}\<rparr>"

definition memset0 :: "nat \<Rightarrow> nat \<Rightarrow> pmem \<Rightarrow> pmem" where
  "memset0 d n st = st\<lparr>pm_mem := (\<lambda>x. if d \<le> x \<and> x < d + n then 0 else pm_mem st x), pm_cache := pm_cache st \<union> {d..<d + n}\<rparr>"

section \<open>Flushing\<close>

function flush_lines :: "nat \<Rightarrow> nat \<Rightarrow> pmem \<Rightarrow> pmem" where
  "flush_lines uptr lim st = (if uptr < lim then flush_lines (uptr + 64) lim (clflush uptr st) else st)"
  by pat_completeness auto

termination
  by (relation "measure (\<lambda>(u, e, _). e - u)") auto

declare flush_lines.simps [simp del]

definition flush_clflush :: "nat \<Rightarrow> nat \<Rightarrow> pmem \<Rightarrow> pmem" where
  "flush_clflush a len st = flush_lines (a div 64 * 64) (a + len) st"

definition pmem_flush :: "nat \<Rightarrow> nat \<Rightarrow> pmem \<Rightarrow> pmem" where
  "pmem_flush a len st = flush_clflush a len st"

text \<open>
  \<open>clflush\<close>, \<open>clflushopt\<close> and \<open>clwb\<close> take a line out of the set of unflushed bytes alike. The length has 32 bits; its sum with the offset in the line
  wraps. The loop counter would start again at 0 behind the last multiple of 64: such a loop has no value.
\<close>

definition cl_flush_loop :: "nat \<Rightarrow> nat \<Rightarrow> pmem \<Rightarrow> pmem run" where
  "cl_flush_loop buf len st =
    (let len = (len mod 2 ^ 32 + buf mod 64) mod 2 ^ 32
     in if len > 2 ^ 32 - 64 then None else Some (fold (\<lambda>i. clflush (buf + 64 * i)) [0..<(len + 63) div 64] st))"

definition cl_flush :: "nat \<Rightarrow> nat \<Rightarrow> pmem \<Rightarrow> pmem run" where
  "cl_flush buf len st = cl_flush_loop buf len st"

definition cl_flush_wb :: "nat \<Rightarrow> nat \<Rightarrow> pmem \<Rightarrow> pmem run" where
  "cl_flush_wb buf len st = map_option sfence (cl_flush_loop buf len st)"

definition cl_flush_opt :: "nat \<Rightarrow> nat \<Rightarrow> pmem \<Rightarrow> pmem run" where
  "cl_flush_opt buf len st = map_option sfence (cl_flush_loop buf len st)"

text \<open>
  The flush functions are chosen by the features of the processor. The parameter \<open>cpuid\<close> gives the four registers of the instruction for a function number.
\<close>

datatype flush_fn = Cl_flush | Cl_flush_opt | Cl_flush_wb

definition cpuid_check :: "(nat \<Rightarrow> 32 word list) \<Rightarrow> nat \<Rightarrow> nat \<Rightarrow> 32 word \<Rightarrow> bool" where
  "cpuid_check cpuid func reg b =
    (if unat (cpuid 0 ! 0) < func then False else cpuid func ! reg AND b \<noteq> 0)"

definition clflushopt_avail :: "(nat \<Rightarrow> 32 word list) \<Rightarrow> bool" where
  "clflushopt_avail cpuid = cpuid_check cpuid 7 1 (push_bit 23 1)"

definition clwb_avail :: "(nat \<Rightarrow> 32 word list) \<Rightarrow> bool" where
  "clwb_avail cpuid = cpuid_check cpuid 7 1 (push_bit 24 1)"

text \<open>The pair of the values of \<open>cl_flush_opt\<close> and \<open>cl_flush_wb\<close>.\<close>

definition clflush_init :: "(nat \<Rightarrow> 32 word list) \<Rightarrow> flush_fn \<times> flush_fn" where
  "clflush_init cpuid =
    (if clwb_avail cpuid then (Cl_flush_opt, Cl_flush_wb)
     else if clflushopt_avail cpuid then (Cl_flush_opt, Cl_flush_opt)
     else (Cl_flush, Cl_flush))"

section \<open>Zeroing\<close>

text \<open>Eight stores of 8 bytes per line. The counter is tested behind the body: a call with 0 lines would go through all values of the counter.\<close>

primrec zero_lines :: "nat \<Rightarrow> nat \<Rightarrow> pmem \<Rightarrow> pmem" where
  "zero_lines 0 dst st = st"
| "zero_lines (Suc n) dst st =
    zero_lines n (dst + 64) (fold (\<lambda>i. stream (dst + 8 * i) (replicate 8 0)) [0..<8] st)"

definition memzero_nt_cachelines :: "nat \<Rightarrow> nat \<Rightarrow> pmem \<Rightarrow> pmem run" where
  "memzero_nt_cachelines dst cachelines st = (if cachelines = 0 then None else Some (zero_lines cachelines dst st))"

definition zero_rest :: "nat \<Rightarrow> nat \<Rightarrow> pmem \<Rightarrow> pmem run" where
  "zero_rest dst len st = do {
     let cachelines = len div 64;
     st \<leftarrow> (if cachelines \<noteq> 0 then memzero_nt_cachelines dst cachelines st else Some st);
     let len = len - cachelines * 64;
     let dst = dst + cachelines * 64;
     if len > 0 then cl_flush dst len (memset0 dst len st) else Some st }"

definition memzero_nt :: "nat \<Rightarrow> nat \<Rightarrow> pmem \<Rightarrow> pmem run" where
  "memzero_nt dst len st =
    (if dst mod 64 \<noteq> 0 then do {
       let prefix_len = 64 - dst mod 64;
       let prefix_len = (if prefix_len > len then len else prefix_len);
       st \<leftarrow> cl_flush dst prefix_len (memset0 dst prefix_len st);
       zero_rest (dst + prefix_len) (len - prefix_len) st }
     else zero_rest dst len st)"

section \<open>Copying\<close>

text \<open>Each loop returns the pointers behind the last element, or at the first one when it runs backwards.\<close>

primrec bytes_fwd :: "nat \<Rightarrow> nat \<Rightarrow> nat \<Rightarrow> pmem \<Rightarrow> nat \<times> nat \<times> pmem" where
  "bytes_fwd 0 d s st = (d, s, st)"
| "bytes_fwd (Suc n) d s st = bytes_fwd n (d + 1) (s + 1) (store8 d (pm_mem st s) st)"

primrec dwords_fwd :: "nat \<Rightarrow> nat \<Rightarrow> nat \<Rightarrow> pmem \<Rightarrow> nat \<times> nat \<times> pmem" where
  "dwords_fwd 0 d s st = (d, s, st)"
| "dwords_fwd (Suc n) d s st = dwords_fwd n (d + 4) (s + 4) (stream d (load 4 s st) st)"

primrec movnt_fwd :: "nat \<Rightarrow> nat \<Rightarrow> nat \<Rightarrow> pmem \<Rightarrow> (nat \<times> nat \<times> pmem) run" where
  "movnt_fwd 0 d s st = Some (d, s, st)"
| "movnt_fwd (Suc n) d s st = do { st \<leftarrow> mm_stream_si128 d (load 16 s st) st; movnt_fwd n (d + 16) (s + 16) st }"

primrec regs_fwd :: "nat \<Rightarrow> byte list list \<Rightarrow> pmem \<Rightarrow> pmem run" where
  "regs_fwd d [] st = Some st"
| "regs_fwd d (x # xs) st = do { st \<leftarrow> mm_stream_si128 d x st; regs_fwd (d + 16) xs st }"

primrec chunks_fwd :: "nat \<Rightarrow> nat \<Rightarrow> nat \<Rightarrow> pmem \<Rightarrow> (nat \<times> nat \<times> pmem) run" where
  "chunks_fwd 0 d s st = Some (d, s, st)"
| "chunks_fwd (Suc n) d s st = do {
     let xmm = map (\<lambda>k. load 16 (s + 16 * k) st) [0..<8];
     st \<leftarrow> regs_fwd d xmm st;
     chunks_fwd n (d + 128) (s + 128) st }"

definition head_fwd :: "nat \<Rightarrow> nat \<Rightarrow> nat \<Rightarrow> pmem \<Rightarrow> nat \<times> nat \<times> nat \<times> pmem" where
  "head_fwd dest1 src len st =
    (let cnt = dest1 mod 64 in
     if cnt > 0 then
       let cnt = 64 - cnt;
           cnt = (if cnt > len then len else cnt);
           (d8, s8, st) = bytes_fwd cnt dest1 src st
       in (dest1 + cnt, src + cnt, len - cnt, pmem_flush dest1 cnt st)
     else (dest1, src, len, st))"

definition tail_fwd :: "nat \<Rightarrow> nat \<Rightarrow> nat \<Rightarrow> pmem \<Rightarrow> pmem" where
  "tail_fwd d s len st =
    (if len \<noteq> 0 then
       let (d32, s32, st) = dwords_fwd (len div 4) d s st;
           cnt = len mod 4;
           (d8, s8, st) = bytes_fwd cnt d32 s32 st
       in pmem_flush d32 cnt st
     else st)"

definition memmove_fwd :: "nat \<Rightarrow> nat \<Rightarrow> nat \<Rightarrow> pmem \<Rightarrow> pmem run" where
  "memmove_fwd dest1 src len st = do {
     let (dest1, src, len, st) = head_fwd dest1 src len st;
     (d, s, st) \<leftarrow> chunks_fwd (len div 128) dest1 src st;
     let len = len mod 128;
     (d, s, st) \<leftarrow> (if len \<noteq> 0 then movnt_fwd (len div 16) d s st else Some (d, s, st));
     let len = len mod 16;
     Some (tail_fwd d s len st) }"

primrec bytes_back :: "nat \<Rightarrow> nat \<Rightarrow> nat \<Rightarrow> pmem \<Rightarrow> nat \<times> nat \<times> pmem" where
  "bytes_back 0 d s st = (d, s, st)"
| "bytes_back (Suc n) d s st = bytes_back n (d - 1) (s - 1) (store8 (d - 1) (pm_mem st (s - 1)) st)"

primrec dwords_back :: "nat \<Rightarrow> nat \<Rightarrow> nat \<Rightarrow> pmem \<Rightarrow> nat \<times> nat \<times> pmem" where
  "dwords_back 0 d s st = (d, s, st)"
| "dwords_back (Suc n) d s st = dwords_back n (d - 4) (s - 4) (stream (d - 4) (load 4 (s - 4) st) st)"

primrec movnt_back :: "nat \<Rightarrow> nat \<Rightarrow> nat \<Rightarrow> pmem \<Rightarrow> (nat \<times> nat \<times> pmem) run" where
  "movnt_back 0 d s st = Some (d, s, st)"
| "movnt_back (Suc n) d s st = do { st \<leftarrow> mm_stream_si128 (d - 16) (load 16 (s - 16) st) st; movnt_back n (d - 16) (s - 16) st }"

primrec regs_back :: "nat \<Rightarrow> byte list list \<Rightarrow> pmem \<Rightarrow> pmem run" where
  "regs_back d [] st = Some st"
| "regs_back d (x # xs) st = do { st \<leftarrow> mm_stream_si128 (d - 16) x st; regs_back (d - 16) xs st }"

primrec chunks_back :: "nat \<Rightarrow> nat \<Rightarrow> nat \<Rightarrow> pmem \<Rightarrow> (nat \<times> nat \<times> pmem) run" where
  "chunks_back 0 d s st = Some (d, s, st)"
| "chunks_back (Suc n) d s st = do {
     let xmm = map (\<lambda>k. load 16 (s - 16 * (k + 1)) st) [0..<8];
     st \<leftarrow> regs_back d xmm st;
     chunks_back n (d - 128) (s - 128) st }"

definition head_back :: "nat \<Rightarrow> nat \<Rightarrow> nat \<Rightarrow> pmem \<Rightarrow> nat \<times> nat \<times> nat \<times> pmem" where
  "head_back dest1 src len st =
    (let cnt = dest1 mod 64 in
     if cnt > 0 then
       let cnt = (if cnt > len then len else cnt);
           (d8, s8, st) = bytes_back cnt dest1 src st
       in (dest1 - cnt, src - cnt, len - cnt, pmem_flush d8 cnt st)
     else (dest1, src, len, st))"

definition tail_back :: "nat \<Rightarrow> nat \<Rightarrow> nat \<Rightarrow> pmem \<Rightarrow> pmem" where
  "tail_back d s len st =
    (if len \<noteq> 0 then
       let (d32, s32, st) = dwords_back (len div 4) d s st;
           cnt = len mod 4;
           (d8, s8, st) = bytes_back cnt d32 s32 st
       in pmem_flush d8 cnt st
     else st)"

definition memmove_back :: "nat \<Rightarrow> nat \<Rightarrow> nat \<Rightarrow> pmem \<Rightarrow> pmem run" where
  "memmove_back dest1 src len st = do {
     let (dest1, src, len, st) = head_back (dest1 + len) (src + len) len st;
     (d, s, st) \<leftarrow> chunks_back (len div 128) dest1 src st;
     let len = len mod 128;
     (d, s, st) \<leftarrow> (if len \<noteq> 0 then movnt_back (len div 16) d s st else Some (d, s, st));
     let len = len mod 16;
     Some (tail_back d s len st) }"

definition memmove_nodrain_movnt :: "nat \<Rightarrow> nat \<Rightarrow> nat \<Rightarrow> pmem \<Rightarrow> (nat \<times> pmem) run" where
  "memmove_nodrain_movnt pmemdest src len st =
    (if len = 0 \<or> src = pmemdest then Some (pmemdest, st)
     else if len < 256 then Some (pmemdest, pmem_flush pmemdest len (memmove pmemdest src len st))
     else do {
       st \<leftarrow> (if size_sub pmemdest src \<ge> len then memmove_fwd pmemdest src len st else memmove_back pmemdest src len st);
       Some (pmemdest, sfence st) })"

definition pmem_memmove_persist :: "nat \<Rightarrow> nat \<Rightarrow> nat \<Rightarrow> pmem \<Rightarrow> (nat \<times> pmem) run" where
  "pmem_memmove_persist pmemdest src len st = do { (_, st) \<leftarrow> memmove_nodrain_movnt pmemdest src len st; Some (pmemdest, st) }"

section \<open>Moves\<close>

lemma move_fwd: "d \<le> s \<or> s + (a + b) \<le> d \<Longrightarrow> move b (d + a) (s + a) (move a d s m) = move (a + b) d s m"
  by (rule ext) (auto simp: move_def)

lemma move_back: "s \<le> d \<or> d + (a + b) \<le> s \<Longrightarrow> move a d s (move b (d + a) (s + a) m) = move (a + b) d s m"
  by (rule ext) (auto simp: move_def)

lemma move_0 [simp]: "move 0 d s m = m" by (rule ext) (auto simp: move_def)

lemma move_1: "move 1 d s m = m(d := m s)"
proof
  fix x show "move 1 d s m x = (m(d := m s)) x" by (cases "x = d") (auto simp: move_def)
qed

lemma move_same [simp]: "move n d d m = m" by (rule ext) (simp add: move_def)

text \<open>\<open>moves n d s st st'\<close>: the effect of \<open>memmove\<close> on the contents, and no byte is newly in the cache.\<close>

definition moves :: "nat \<Rightarrow> nat \<Rightarrow> nat \<Rightarrow> pmem \<Rightarrow> pmem \<Rightarrow> bool" where
  "moves n d s st st' = (pm_mem st' = move n d s (pm_mem st) \<and> pm_cache st' \<subseteq> pm_cache st)"

lemma moves_0 [simp]: "moves 0 d s st st" by (simp add: moves_def)

lemma moves_fwd:
  "moves a d s st st1 \<Longrightarrow> moves b (d + a) (s + a) st1 st2 \<Longrightarrow> d \<le> s \<or> s + (a + b) \<le> d \<Longrightarrow> moves (a + b) d s st st2"
  by (auto simp: moves_def move_fwd)

lemma moves_back:
  "moves b (d + a) (s + a) st st1 \<Longrightarrow> moves a d s st1 st2 \<Longrightarrow> s \<le> d \<or> d + (a + b) \<le> s \<Longrightarrow> moves (a + b) d s st st2"
  by (auto simp: moves_def move_back)

lemma load_nth: "i < n \<Longrightarrow> load n a st ! i = pm_mem st (a + i)" "length (load n a st) = n"
  by (simp_all add: load_def)

lemma stream_load: "stream d (load n s st) st = st\<lparr>pm_mem := move n d s (pm_mem st), pm_wc := pm_wc st \<union> {d..<d + n}\<rparr>"
proof -
  have "(\<lambda>x. if d \<le> x \<and> x < d + n then load n s st ! (x - d) else pm_mem st x) = move n d s (pm_mem st)"
    by (rule ext) (auto simp: move_def load_nth)
  then show ?thesis by (simp add: stream_def load_nth(2))
qed

lemma align_fwd:
  assumes "a mod 64 = (0 :: nat)"
  shows "a mod 16 = 0" "(a + 128 * q) mod 16 = 0"
proof -
  from assms obtain k where "a = 64 * k" by (auto elim: dvdE)
  then have "a = 16 * (4 * k)" "a + 128 * q = 16 * (4 * k + 8 * q)" by simp_all
  then show "a mod 16 = 0" "(a + 128 * q) mod 16 = 0" by (simp_all only: mod_mult_self1_is_0)
qed

lemma align_back: "(a + 128 * q) mod 64 = (0 :: nat) \<Longrightarrow> a mod 16 = 0" "(a + 16 * q) mod 16 = (0 :: nat) \<Longrightarrow> a mod 16 = 0"
  by presburger+

lemma moves_stream: "moves n d s st (stream d (load n s st) st)"
  by (simp add: stream_load moves_def)

section \<open>Flushes\<close>

lemma flush_lines_spec:
  assumes "uptr mod 64 = 0"
  shows "pm_mem (flush_lines uptr lim st) = pm_mem st \<and> pm_wc (flush_lines uptr lim st) = pm_wc st \<and>
    pm_cache (flush_lines uptr lim st) \<subseteq> pm_cache st - {uptr..<lim}"
  using assms
proof (induction uptr lim st rule: flush_lines.induct)
  case (1 uptr lim st)
  show ?case
  proof (cases "uptr < lim")
    case True
    have u: "(uptr + 64) mod 64 = 0" "uptr div 64 * 64 = uptr" using 1(2) by auto
    have "{uptr..<lim} \<subseteq> {uptr..<uptr + 64} \<union> {uptr + 64..<lim}" by auto
    with 1(1) [OF True u(1)] u(2) True show ?thesis
      unfolding flush_lines.simps [of uptr] by (auto simp: clflush_def)
  next
    case False
    then show ?thesis by (simp add: flush_lines.simps)
  qed
qed

lemma pmem_flush_spec:
  "pm_mem (pmem_flush a n st) = pm_mem st" "pm_wc (pmem_flush a n st) = pm_wc st" "pm_cache (pmem_flush a n st) \<subseteq> pm_cache st - {a..<a + n}"
proof -
  have "a div 64 * 64 \<le> a" by simp
  with flush_lines_spec [of "a div 64 * 64" "a + n" st]
  show "pm_mem (pmem_flush a n st) = pm_mem st" "pm_wc (pmem_flush a n st) = pm_wc st" "pm_cache (pmem_flush a n st) \<subseteq> pm_cache st - {a..<a + n}"
    by (auto simp: pmem_flush_def flush_clflush_def subset_iff)
qed

lemma moves_flush:
  assumes "pm_mem st1 = move n d s (pm_mem st)" "pm_cache st1 \<subseteq> pm_cache st \<union> {d..<d + n}"
  shows "moves n d s st (pmem_flush d n st1)"
  using assms pmem_flush_spec [of d n st1] by (auto simp: moves_def)

section \<open>The forward loops\<close>

lemma bytes_fwd_spec:
  "d \<le> s \<or> s + n \<le> d \<Longrightarrow>
   \<exists>st1. bytes_fwd n d s st = (d + n, s + n, st1) \<and> pm_mem st1 = move n d s (pm_mem st) \<and> pm_cache st1 = pm_cache st \<union> {d..<d + n}"
proof (induction n arbitrary: d s st)
  case (Suc n)
  let ?st = "store8 d (pm_mem st s) st"
  have m: "pm_mem ?st = move 1 d s (pm_mem st)" "pm_cache ?st = insert d (pm_cache st)" by (simp_all add: move_1 [simplified] store8_def)
  from Suc have "d + 1 \<le> s + 1 \<or> s + 1 + n \<le> d + 1" by auto
  from Suc.IH [OF this, of ?st] m move_fwd [of d s 1 n "pm_mem st"] Suc.prems show ?case by auto
qed simp

lemma bytes_fwd_flush:
  assumes "d \<le> s \<or> s + n \<le> d"
  obtains st1 where "bytes_fwd n d s st = (d + n, s + n, st1)" "moves n d s st (pmem_flush d n st1)"
  using bytes_fwd_spec [OF assms, of st] moves_flush by blast

lemma dwords_fwd_spec:
  "d \<le> s \<or> s + 4 * n \<le> d \<Longrightarrow> \<exists>st1. dwords_fwd n d s st = (d + 4 * n, s + 4 * n, st1) \<and> moves (4 * n) d s st st1"
proof (induction n arbitrary: d s st)
  case (Suc n)
  have "d + 4 \<le> s + 4 \<or> s + 4 + 4 * n \<le> d + 4" using Suc.prems by auto
  from Suc.IH [OF this, of "stream d (load 4 s st) st"] obtain st1 where
    st1: "dwords_fwd (Suc n) d s st = (d + 4 * Suc n, s + 4 * Suc n, st1)" "moves (4 * n) (d + 4) (s + 4) (stream d (load 4 s st) st) st1" by auto
  from moves_fwd [OF moves_stream st1(2)] Suc.prems have "moves (4 + 4 * n) d s st st1" by simp
  with st1(1) show ?case by simp
qed simp

lemma movnt_fwd_spec:
  "d \<le> s \<or> s + 16 * n \<le> d \<Longrightarrow> d mod 16 = 0 \<Longrightarrow>
   \<exists>st1. movnt_fwd n d s st = Some (d + 16 * n, s + 16 * n, st1) \<and> moves (16 * n) d s st st1"
proof (induction n arbitrary: d s st)
  case (Suc n)
  have "d + 16 \<le> s + 16 \<or> s + 16 + 16 * n \<le> d + 16" "(d + 16) mod 16 = 0" using Suc.prems by auto
  from Suc.IH [OF this, of "stream d (load 16 s st) st"] obtain st1 where
    st1: "movnt_fwd (Suc n) d s st = Some (d + 16 * Suc n, s + 16 * Suc n, st1)" "moves (16 * n) (d + 16) (s + 16) (stream d (load 16 s st) st) st1"
    using Suc.prems(2) by (auto simp: mm_stream_si128_def)
  from moves_fwd [OF moves_stream st1(2)] Suc.prems have "moves (16 + 16 * n) d s st st1" by simp
  with st1(1) show ?case by simp
qed simp

lemma regs_fwd_spec:
  "d mod 16 = 0 \<Longrightarrow>
   \<exists>st1. regs_fwd d (map (\<lambda>k. load 16 (s + 16 * k) st0) [0..<n]) st = Some st1 \<and> pm_cache st1 = pm_cache st \<and>
     pm_mem st1 = (\<lambda>x. if d \<le> x \<and> x < d + 16 * n then pm_mem st0 (s + (x - d)) else pm_mem st x)"
proof (induction n arbitrary: d s st)
  case (Suc n)
  let ?st = "stream d (load 16 s st0) st"
  have "map (\<lambda>k. load 16 (s + 16 * k) st0) [0..<Suc n] = load 16 s st0 # map (\<lambda>k. load 16 (s + 16 + 16 * k) st0) [0..<n]"
    by (simp add: upt_conv_Cons map_Suc_upt [symmetric] comp_def algebra_simps del: upt_Suc)
  moreover from Suc.prems have "(d + 16) mod 16 = 0" by simp
  from Suc.IH [OF this, of "s + 16" ?st] obtain st1 where st1: "regs_fwd (d + 16) (map (\<lambda>k. load 16 (s + 16 + 16 * k) st0) [0..<n]) ?st = Some st1"
    "pm_cache st1 = pm_cache ?st" "pm_mem st1 = (\<lambda>x. if d + 16 \<le> x \<and> x < d + 16 + 16 * n then pm_mem st0 (s + 16 + (x - (d + 16))) else pm_mem ?st x)" by blast
  moreover have "pm_cache ?st = pm_cache st" by (simp add: stream_def)
  moreover have "pm_mem st1 x = (if d \<le> x \<and> x < d + 16 * Suc n then pm_mem st0 (s + (x - d)) else pm_mem st x)" for x
    by (auto simp: st1(3) stream_def load_nth)
  ultimately show ?case using Suc.prems by (simp add: mm_stream_si128_def fun_eq_iff)
qed (auto simp: fun_eq_iff)

lemma chunks_fwd_spec:
  "d \<le> s \<or> s + 128 * n \<le> d \<Longrightarrow> d mod 16 = 0 \<Longrightarrow>
   \<exists>st1. chunks_fwd n d s st = Some (d + 128 * n, s + 128 * n, st1) \<and> moves (128 * n) d s st st1"
proof (induction n arbitrary: d s st)
  case (Suc n)
  from regs_fwd_spec [OF Suc.prems(2), of s st 8 st] obtain st0 where
    st0: "regs_fwd d (map (\<lambda>k. load 16 (s + 16 * k) st) [0..<8]) st = Some st0" "moves 128 d s st st0" by (auto simp: moves_def move_def)
  have "d + 128 \<le> s + 128 \<or> s + 128 + 128 * n \<le> d + 128" using Suc.prems(1) by auto
  moreover have "(d + 128) mod 16 = 0" using Suc.prems(2) by presburger
  ultimately obtain st1 where
    st1: "chunks_fwd (Suc n) d s st = Some (d + 128 * Suc n, s + 128 * Suc n, st1)" "moves (128 * n) (d + 128) (s + 128) st0 st1"
    using Suc.IH [of "d + 128" "s + 128" st0] st0(1) by auto
  from moves_fwd [OF st0(2) st1(2)] Suc.prems have "moves (128 + 128 * n) d s st st1" by simp
  with st1(1) show ?case by simp
qed simp

section \<open>The backward loops\<close>

lemma bytes_back_spec:
  "s \<le> d \<Longrightarrow>
   \<exists>st1. bytes_back n (d + n) (s + n) st = (d, s, st1) \<and> pm_mem st1 = move n d s (pm_mem st) \<and> pm_cache st1 = pm_cache st \<union> {d..<d + n}"
proof (induction n arbitrary: st)
  case (Suc n)
  let ?st = "store8 (d + n) (pm_mem st (s + n)) st"
  have m: "pm_mem ?st = move 1 (d + n) (s + n) (pm_mem st)" "pm_cache ?st = insert (d + n) (pm_cache st)"
    by (simp_all add: move_1 [simplified] store8_def)
  from Suc.IH [OF Suc.prems, of ?st] obtain st1 where st1: "bytes_back n (d + n) (s + n) ?st = (d, s, st1)"
    "pm_mem st1 = move n d s (pm_mem ?st)" "pm_cache st1 = pm_cache ?st \<union> {d..<d + n}" by blast
  have "pm_mem st1 = move (Suc n) d s (pm_mem st)" using move_back [of s d n 1 "pm_mem st"] Suc.prems by (simp add: st1(2) m(1))
  with st1(1,3) m(2) show ?case by (simp add: atLeastLessThanSuc insert_commute)
qed simp

lemma bytes_back_flush:
  assumes "s \<le> d"
  obtains st1 where "bytes_back n (d + n) (s + n) st = (d, s, st1)" "moves n d s st (pmem_flush d n st1)"
  using bytes_back_spec [OF assms, of n st] moves_flush by blast

lemma dwords_back_spec:
  "s \<le> d \<Longrightarrow> \<exists>st1. dwords_back n (d + 4 * n) (s + 4 * n) st = (d, s, st1) \<and> moves (4 * n) d s st st1"
proof (induction n arbitrary: st)
  case (Suc n)
  let ?st = "stream (d + 4 * n) (load 4 (s + 4 * n) st) st"
  from Suc.IH [OF Suc.prems, of ?st] obtain st1 where st1: "dwords_back n (d + 4 * n) (s + 4 * n) ?st = (d, s, st1)" "moves (4 * n) d s ?st st1" by blast
  from moves_back [OF moves_stream st1(2)] Suc.prems have "moves (4 * n + 4) d s st st1" by simp
  with st1(1) show ?case by (simp add: add.commute)
qed simp

lemma movnt_back_spec:
  "s \<le> d \<Longrightarrow> d mod 16 = 0 \<Longrightarrow> \<exists>st1. movnt_back n (d + 16 * n) (s + 16 * n) st = Some (d, s, st1) \<and> moves (16 * n) d s st st1"
proof (induction n arbitrary: st)
  case (Suc n)
  let ?st = "stream (d + 16 * n) (load 16 (s + 16 * n) st) st"
  from Suc.IH [OF Suc.prems, of ?st] obtain st1 where st1: "movnt_back n (d + 16 * n) (s + 16 * n) ?st = Some (d, s, st1)" "moves (16 * n) d s ?st st1" by blast
  from moves_back [OF moves_stream st1(2)] Suc.prems have "moves (16 * n + 16) d s st st1" by simp
  with st1(1) Suc.prems(2) show ?case by (simp add: add.commute mm_stream_si128_def)
qed simp

lemma regs_back_spec:
  "d mod 16 = 0 \<Longrightarrow>
   \<exists>st1. regs_back (d + 16 * n) (map (\<lambda>k. load 16 (s + 16 * n - 16 * (k + 1)) st0) [0..<n]) st = Some st1 \<and> pm_cache st1 = pm_cache st \<and>
     pm_mem st1 = (\<lambda>x. if d \<le> x \<and> x < d + 16 * n then pm_mem st0 (s + (x - d)) else pm_mem st x)"
proof (induction n arbitrary: st)
  case (Suc n)
  let ?st = "stream (d + 16 * n) (load 16 (s + 16 * n) st0) st"
  have "map (\<lambda>k. load 16 (s + 16 * Suc n - 16 * (k + 1)) st0) [0..<Suc n] =
      load 16 (s + 16 * n) st0 # map (\<lambda>k. load 16 (s + 16 * n - 16 * (k + 1)) st0) [0..<n]"
    by (simp add: upt_conv_Cons map_Suc_upt [symmetric] comp_def algebra_simps del: upt_Suc)
  moreover from Suc.IH [OF Suc.prems, of ?st] obtain st1 where
    st1: "regs_back (d + 16 * n) (map (\<lambda>k. load 16 (s + 16 * n - 16 * (k + 1)) st0) [0..<n]) ?st = Some st1"
    "pm_cache st1 = pm_cache ?st" "pm_mem st1 = (\<lambda>x. if d \<le> x \<and> x < d + 16 * n then pm_mem st0 (s + (x - d)) else pm_mem ?st x)" by blast
  moreover have "pm_cache ?st = pm_cache st" by (simp add: stream_def)
  moreover have "pm_mem st1 x = (if d \<le> x \<and> x < d + 16 * Suc n then pm_mem st0 (s + (x - d)) else pm_mem st x)" for x
    by (auto simp: st1(3) stream_def load_nth)
  moreover have "(d + 16 * n) mod 16 = 0" using Suc.prems by simp
  ultimately show ?case by (simp add: mm_stream_si128_def fun_eq_iff)
qed (auto simp: fun_eq_iff)

lemma chunks_back_spec:
  "s \<le> d \<Longrightarrow> d mod 16 = 0 \<Longrightarrow> \<exists>st1. chunks_back n (d + 128 * n) (s + 128 * n) st = Some (d, s, st1) \<and> moves (128 * n) d s st st1"
proof (induction n arbitrary: st)
  case (Suc n)
  have "(d + 128 * n) mod 16 = 0" using Suc.prems(2) by presburger
  from regs_back_spec [OF this, of 8 "s + 128 * n" st st] obtain st0 where
    st0: "regs_back (d + 128 * n + 128) (map (\<lambda>k. load 16 (s + 128 * n + 128 - 16 * (k + 1)) st) [0..<8]) st = Some st0"
      "moves 128 (d + 128 * n) (s + 128 * n) st st0" by (auto simp: moves_def move_def)
  from Suc.IH [OF Suc.prems, of st0] obtain st1 where st1: "chunks_back n (d + 128 * n) (s + 128 * n) st0 = Some (d, s, st1)" "moves (128 * n) d s st0 st1" by blast
  from moves_back [OF st0(2) st1(2)] Suc.prems have "moves (128 * n + 128) d s st st1" by simp
  with st0(1) st1(1) show ?case by (simp add: algebra_simps)
qed simp

section \<open>The copy\<close>

lemma head_fwd_spec:
  assumes "d \<le> s \<or> s + len \<le> d" "64 \<le> len"
  obtains c l st1 where "head_fwd d s len st = (d + c, s + c, l, st1)" "len = c + l" "(d + c) mod 64 = 0" "moves c d s st st1"
proof (cases "d mod 64 = 0")
  case True
  then show thesis by (intro that [of 0 len st]) (simp_all add: head_fwd_def)
next
  case False
  define c where "c = 64 - d mod 64"
  have "x + (64 - r) = 64 * (q + 1)" if "q * 64 + r = x" "r < 64" for x q r :: nat using that by simp
  from this [OF div_mult_mod_eq] have "d + c = 64 * (d div 64 + 1)" by (simp add: c_def)
  then have "(d + c) mod 64 = 0" by (simp only: mod_mult_self1_is_0)
  moreover have "c \<le> len" using assms(2) by (simp add: c_def)
  ultimately have c: "c \<le> len" "(d + c) mod 64 = 0" by simp_all
  have "d \<le> s \<or> s + c \<le> d" using assms(1) c(1) by linarith
  then obtain st1 where st1: "bytes_fwd c d s st = (d + c, s + c, st1)" "moves c d s st (pmem_flush d c st1)" by (rule bytes_fwd_flush)
  have "head_fwd d s len st = (d + c, s + c, len - c, pmem_flush d c st1)"
    using c(1) False st1(1) by (simp add: head_fwd_def c_def [symmetric])
  then show thesis by (rule that) (use c st1(2) in simp_all)
qed

lemma tail_fwd_spec:
  assumes "d \<le> s \<or> s + len \<le> d"
  shows "moves len d s st (tail_fwd d s len st)"
proof -
  let ?k = "4 * (len div 4)" and ?r = "len mod 4"
  have len: "?k + ?r = len" by simp
  then have "d \<le> s \<or> s + ?k \<le> d" "d + ?k \<le> s + ?k \<or> s + ?k + ?r \<le> d + ?k" using assms by linarith+
  then obtain st1 st2 where "dwords_fwd (len div 4) d s st = (d + ?k, s + ?k, st1)" "moves ?k d s st st1"
    "bytes_fwd ?r (d + ?k) (s + ?k) st1 = (d + ?k + ?r, s + ?k + ?r, st2)" "moves ?r (d + ?k) (s + ?k) st1 (pmem_flush (d + ?k) ?r st2)"
    using dwords_fwd_spec [of d s "len div 4" st] bytes_fwd_flush by metis
  with moves_fwd [of ?k d s st st1 ?r] assms show ?thesis unfolding len by (cases "len = 0") (simp_all add: tail_fwd_def)
qed

lemma memmove_fwd_spec:
  assumes ov: "d \<le> s \<or> s + len \<le> d" and len: "64 \<le> len"
  shows "\<exists>st'. memmove_fwd d s len st = Some st' \<and> moves len d s st st'"
proof -
  from assms obtain c l st1 where
    h: "head_fwd d s len st = (d + c, s + c, l, st1)" "len = c + l" "(d + c) mod 64 = 0" "moves c d s st st1" by (rule head_fwd_spec)
  let ?k = "128 * (l div 128)" and ?j = "16 * (l mod 128 div 16)" and ?t = "l mod 128 mod 16"
  have l: "l = ?k + ?j + ?t" by simp
  note al = align_fwd [OF h(3)]
  have "d + c \<le> s + c \<or> s + c + ?k \<le> d + c" "d + c + ?k \<le> s + c + ?k \<or> s + c + ?k + ?j \<le> d + c + ?k"
    "d + c + ?k + ?j \<le> s + c + ?k + ?j \<or> s + c + ?k + ?j + ?t \<le> d + c + ?k + ?j" using ov l unfolding h(2) by linarith+
  note o = this
  from chunks_fwd_spec [OF o(1) al(1), of st1] obtain st2 where
    c: "chunks_fwd (l div 128) (d + c) (s + c) st1 = Some (d + c + ?k, s + c + ?k, st2)" "moves ?k (d + c) (s + c) st1 st2" by blast
  from movnt_fwd_spec [OF o(2) al(2), of st2] obtain st3 where
    n: "movnt_fwd (l mod 128 div 16) (d + c + ?k) (s + c + ?k) st2 = Some (d + c + ?k + ?j, s + c + ?k + ?j, st3)" "moves ?j (d + c + ?k) (s + c + ?k) st2 st3" by blast
  let ?st = "tail_fwd (d + c + ?k + ?j) (s + c + ?k + ?j) ?t st3"
  have "moves (?j + ?t) (d + c + ?k) (s + c + ?k) st2 ?st" by (rule moves_fwd [OF n(2) tail_fwd_spec [OF o(3)]]) (use ov h(2) l in linarith)
  from moves_fwd [OF c(2) this] have "moves (?k + (?j + ?t)) (d + c) (s + c) st1 ?st" using ov h(2) l by linarith
  then have "moves l (d + c) (s + c) st1 ?st" using l by (simp only: add.assoc [symmetric])
  from moves_fwd [OF h(4) this] ov have "moves len d s st ?st" unfolding h(2) by blast
  moreover have "memmove_fwd d s len st = Some ?st"
    using n(1) by (cases "l mod 128 = 0") (simp_all add: memmove_fwd_def h(1) c(1) Let_def)
  ultimately show ?thesis by blast
qed

lemma head_back_spec:
  assumes "s \<le> d" "64 \<le> len"
  obtains c l st1 where "head_back (d + len) (s + len) len st = (d + l, s + l, l, st1)" "len = l + c" "(d + l) mod 64 = 0"
    "moves c (d + l) (s + l) st st1"
proof (cases "(d + len) mod 64 = 0")
  case True
  then show thesis by (intro that [of len st 0]) (simp_all add: head_back_def)
next
  case False
  define c where "c = (d + len) mod 64"
  define l where "l = len - c"
  have "c < 64" by (simp add: c_def)
  then have c: "c \<le> len" "len = l + c" using assms(2) by (simp_all add: l_def)
  have al: "(d + l) mod 64 = 0"
  proof -
    have "d + l = (d + len) - (d + len) mod 64" using c(1) by (simp add: l_def c_def)
    then show ?thesis by (metis minus_mod_eq_mult_div mod_mult_self1_is_0)
  qed
  have "s + l \<le> d + l" using assms(1) by simp
  then obtain st1 where st1: "bytes_back c (d + l + c) (s + l + c) st = (d + l, s + l, st1)" "moves c (d + l) (s + l) st (pmem_flush (d + l) c st1)"
    by (rule bytes_back_flush)
  have "head_back (d + len) (s + len) len st = (d + l, s + l, l, pmem_flush (d + l) c st1)"
    using c(2) False st1(1) \<open>c < 64\<close> unfolding head_back_def c_def [symmetric] by (simp add: add.assoc)
  then show thesis by (rule that) (use c(2) al st1(2) in simp_all)
qed

lemma tail_back_spec:
  assumes "s \<le> d"
  shows "moves len d s st (tail_back (d + len) (s + len) len st)"
proof -
  let ?k = "4 * (len div 4)" and ?r = "len mod 4"
  have len: "?r + ?k = len" by simp
  have "s + ?r \<le> d + ?r" using assms by simp
  with assms obtain st1 st2 where "dwords_back (len div 4) (d + ?r + ?k) (s + ?r + ?k) st = (d + ?r, s + ?r, st1)" "moves ?k (d + ?r) (s + ?r) st st1"
    "bytes_back ?r (d + ?r) (s + ?r) st1 = (d, s, st2)" "moves ?r d s st1 (pmem_flush d ?r st2)"
    using dwords_back_spec [of "s + ?r" "d + ?r" "len div 4" st] bytes_back_flush [of s d ?r] by metis
  with moves_back [of ?k d ?r s st st1] assms show ?thesis unfolding len add.assoc by (cases "len = 0") (simp_all add: tail_back_def)
qed

lemma memmove_back_spec:
  assumes ov: "s \<le> d" and len: "64 \<le> len"
  shows "\<exists>st'. memmove_back d s len st = Some st' \<and> moves len d s st st'"
proof -
  from assms obtain c l st1 where
    h: "head_back (d + len) (s + len) len st = (d + l, s + l, l, st1)" "len = l + c" "(d + l) mod 64 = 0" "moves c (d + l) (s + l) st st1"
    by (rule head_back_spec)
  let ?k = "128 * (l div 128)" and ?j = "16 * (l mod 128 div 16)" and ?t = "l mod 128 mod 16"
  have l: "l = ?t + ?j + ?k" by simp
  then have dl: "d + l = d + ?t + ?j + ?k" "s + l = s + ?t + ?j + ?k" by linarith+
  have al1: "(d + ?t + ?j) mod 16 = 0" by (rule align_back(1) [OF h(3) [unfolded dl(1)]])
  note al = al1 align_back(2) [OF al1]
  have o: "s + ?t + ?j \<le> d + ?t + ?j" "s + ?t \<le> d + ?t" using ov by simp_all
  from chunks_back_spec [OF o(1) al(1), of "l div 128" st1] obtain st2 where
    c: "chunks_back (l div 128) (d + l) (s + l) st1 = Some (d + ?t + ?j, s + ?t + ?j, st2)" "moves ?k (d + ?t + ?j) (s + ?t + ?j) st1 st2"
    unfolding dl by blast
  from movnt_back_spec [OF o(2) al(2), of "l mod 128 div 16" st2] obtain st3 where
    n: "movnt_back (l mod 128 div 16) (d + ?t + ?j) (s + ?t + ?j) st2 = Some (d + ?t, s + ?t, st3)" "moves ?j (d + ?t) (s + ?t) st2 st3" by blast
  let ?st = "tail_back (d + ?t) (s + ?t) ?t st3"
  have "moves (?t + ?j) d s st2 ?st" by (rule moves_back [OF n(2) tail_back_spec [OF ov]]) (use ov in simp)
  from moves_back [OF c(2) [unfolded add.assoc] this] ov have "moves (?t + ?j + ?k) d s st1 ?st" by simp
  then have "moves l d s st1 ?st" using l by simp
  from moves_back [OF h(4) this] ov have "moves len d s st ?st" unfolding h(2) by blast
  moreover have "memmove_back d s len st = Some ?st"
    using n(1) by (cases "l mod 128 = 0") (simp_all add: memmove_back_def h(1) c(1) Let_def)
  ultimately show ?thesis by blast
qed

lemma copy_direction:
  assumes "d + len \<le> 2 ^ 64" "s + len \<le> 2 ^ 64" "0 < len"
  shows "size_sub d s \<ge> len \<longleftrightarrow> d < s \<or> s + len \<le> d"
proof (cases "s \<le> d")
  case True
  then show ?thesis using assms by (auto simp: size_sub_small)
next
  case False
  have "size_sub d s = 2 ^ 64 - (s - d)" using False assms by (simp add: size_sub_def)
  then show ?thesis using False assms by auto
qed

text \<open>
  C8. \<open>pmem_memmove_persist\<close>, the copy of \<open>_copy_in\<close>, is \<open>memmove\<close> for overlapping ranges, too: it does not fault, it returns the destination, the memory
  afterwards is that of \<open>memmove\<close>, and it leaves no byte volatile that was not before.
\<close>

theorem pmem_memmove_persist_correct:
  assumes "d + len \<le> 2 ^ 64" "s + len \<le> 2 ^ 64"
  shows "\<exists>st'. pmem_memmove_persist d s len st = Some (d, st') \<and> pm_mem st' = pm_mem (memmove d s len st) \<and>
    pm_cache st' \<subseteq> pm_cache st \<and> pm_wc st' \<subseteq> pm_wc st"
proof -
  consider "len = 0 \<or> s = d" | "len < 256" "\<not> (len = 0 \<or> s = d)" | "256 \<le> len" "s \<noteq> d" by linarith
  then show ?thesis
  proof cases
    case 1
    then show ?thesis by (auto simp: pmem_memmove_persist_def memmove_nodrain_movnt_def memmove_def)
  next
    case 2
    have "moves len d s st (pmem_flush d len (memmove d s len st))" by (rule moves_flush) (simp_all add: memmove_def)
    with 2 show ?thesis by (auto simp: pmem_memmove_persist_def memmove_nodrain_movnt_def moves_def memmove_def pmem_flush_spec(2))
  next
    case 3
    have "\<exists>st'. (if size_sub d s \<ge> len then memmove_fwd d s len st else memmove_back d s len st) = Some st' \<and> moves len d s st st'"
      using copy_direction [OF assms] memmove_fwd_spec [of d s len st] memmove_back_spec [of s d len st] 3 by auto
    with 3 show ?thesis by (auto simp: pmem_memmove_persist_def memmove_nodrain_movnt_def moves_def memmove_def sfence_def)
  qed
qed

theorem pmem_memmove_persist_correct_witness:
  "\<exists>st'. pmem_memmove_persist 1010 1000 300 \<lparr>pm_mem = word_of_nat, pm_cache = {}, pm_wc = {}\<rparr> = Some (1010, st') \<and>
    pm_mem st' 1310 = word_of_nat 1310 \<and> pm_mem st' 1309 = word_of_nat 1299 \<and> pm_cache st' = {} \<and> pm_wc st' = {}"
proof -
  have "1010 + 300 \<le> (2 :: nat) ^ 64" "1000 + 300 \<le> (2 :: nat) ^ 64" by simp_all
  from pmem_memmove_persist_correct [OF this, of "\<lparr>pm_mem = word_of_nat, pm_cache = {}, pm_wc = {}\<rparr>"] show ?thesis
    by (auto simp: memmove_def move_def)
qed

section \<open>Zeroing\<close>

text \<open>\<open>zeroes n d st st'\<close>: the effect of \<open>memset\<close> on the contents; what is newly volatile is in the range and not in the cache.\<close>

definition zeroes :: "nat \<Rightarrow> nat \<Rightarrow> pmem \<Rightarrow> pmem \<Rightarrow> bool" where
  "zeroes n d st st' = (pm_mem st' = (\<lambda>x. if d \<le> x \<and> x < d + n then 0 else pm_mem st x) \<and> pm_cache st' \<subseteq> pm_cache st \<and>
     pm_wc st' \<subseteq> pm_wc st \<union> {d..<d + n})"

lemma zeroes_0 [simp]: "zeroes 0 d st st" by (auto simp: zeroes_def fun_eq_iff)

lemma zeroes_add:
  assumes "zeroes a d st st1" "zeroes b (d + a) st1 st2"
  shows "zeroes (a + b) d st st2"
proof -
  have "pm_wc st2 \<subseteq> pm_wc st \<union> ({d..<d + a} \<union> {d + a..<d + a + b})" using assms by (auto simp: zeroes_def)
  moreover have "{d..<d + a} \<union> {d + a..<d + a + b} = {d..<d + (a + b)}" by auto
  ultimately show ?thesis using assms by (auto simp: zeroes_def fun_eq_iff)
qed

lemma zeroes_stream: "zeroes n d st (stream d (replicate n 0) st)"
  by (auto simp: zeroes_def stream_def fun_eq_iff)

lemma zero_words: "zeroes (8 * n) d st (fold (\<lambda>i. stream (d + 8 * i) (replicate 8 0)) [0..<n] st)"
proof (induction n)
  case (Suc n)
  from zeroes_add [OF Suc zeroes_stream, of 8] show ?case by (simp add: add.commute)
qed simp

lemma zero_lines_spec: "zeroes (64 * n) d st (zero_lines n d st)"
proof (induction n arbitrary: d st)
  case (Suc n)
  from zeroes_add [OF zero_words [of 8 d st], of "64 * n"] Suc [of "d + 64"] show ?case by simp
qed simp

lemma flush_fold:
  "pm_mem (fold (\<lambda>i. clflush (buf + 64 * i)) [0..<n] st) = pm_mem st \<and> pm_wc (fold (\<lambda>i. clflush (buf + 64 * i)) [0..<n] st) = pm_wc st \<and>
   pm_cache (fold (\<lambda>i. clflush (buf + 64 * i)) [0..<n] st) = pm_cache st - {buf div 64 * 64..<buf div 64 * 64 + 64 * n}"
proof (induction n)
  case (Suc n)
  define b where "b = buf div 64 * 64"
  have "(buf + 64 * n) div 64 * 64 = b + 64 * n" by (simp add: b_def)
  moreover have "A - {b..<b + 64 * n} - {n * 64 + b..<n * 64 + b + 64} = A - {b..<b + 64 * Suc n}" for A by auto
  ultimately show ?case using Suc unfolding b_def [symmetric] by (simp add: clflush_def)
qed simp

lemma cl_flush_spec:
  assumes "len < 2 ^ 31"
  obtains st' where "cl_flush buf len st = Some st'" "pm_mem st' = pm_mem st" "pm_wc st' = pm_wc st" "pm_cache st' \<subseteq> pm_cache st - {buf..<buf + len}"
proof -
  have o: "buf mod 64 < 64" by simp
  then have l: "(len mod 2 ^ 32 + buf mod 64) mod 2 ^ 32 = len + buf mod 64" "len + buf mod 64 \<le> 2 ^ 32 - 64" using assms by simp_all
  have "buf = buf div 64 * 64 + buf mod 64" by simp
  then have "buf + len \<le> buf div 64 * 64 + 64 * ((len + buf mod 64 + 63) div 64)" by linarith
  then have "{buf..<buf + len} \<subseteq> {buf div 64 * 64..<buf div 64 * 64 + 64 * ((len + buf mod 64 + 63) div 64)}" by auto
  then have sub: "pm_cache st - {buf div 64 * 64..<buf div 64 * 64 + 64 * ((len + buf mod 64 + 63) div 64)} \<subseteq> pm_cache st - {buf..<buf + len}" by blast
  have e: "cl_flush buf len st = Some (fold (\<lambda>i. clflush (buf + 64 * i)) [0..<(len + buf mod 64 + 63) div 64] st)"
    using l by (simp add: cl_flush_def cl_flush_loop_def Let_def)
  show thesis by (rule that [OF e]) (use flush_fold [of buf "(len + buf mod 64 + 63) div 64" st] sub in simp_all)
qed

lemma zero_flush:
  assumes "n < 2 ^ 31"
  obtains st' where "cl_flush d n (memset0 d n st) = Some st'" "zeroes n d st st'"
proof -
  from assms obtain st' where "cl_flush d n (memset0 d n st) = Some st'" "pm_mem st' = pm_mem (memset0 d n st)" "pm_wc st' = pm_wc (memset0 d n st)"
    "pm_cache st' \<subseteq> pm_cache (memset0 d n st) - {d..<d + n}" by (rule cl_flush_spec)
  then show thesis by (intro that) (auto simp: zeroes_def memset0_def)
qed

lemma zero_rest_spec:
  obtains st' where "zero_rest d l st = Some st'" "zeroes l d st st'"
proof -
  define n where "n = l div 64"
  define r where "r = l mod 64"
  have r: "r < 2 ^ 31" "l = 64 * n + r" "l - n * 64 = r"
    using mod_less_divisor [of 64 l] minus_div_mult_eq_mod [of l 64] unfolding n_def r_def by simp_all
  define st1 where "st1 = zero_lines n d st"
  from r(1) obtain st2 where st2: "cl_flush (d + n * 64) r (memset0 (d + n * 64) r st1) = Some st2" "zeroes r (d + n * 64) st1 st2"
    by (rule zero_flush)
  define st' where "st' = (if r > 0 then st2 else st1)"
  have "zeroes r (d + 64 * n) st1 st'" using st2(2) by (cases "r = 0") (simp_all add: st'_def mult.commute)
  from zeroes_add [OF zero_lines_spec [of n d st, folded st1_def] this] have "zeroes l d st st'" by (simp add: r(2))
  moreover have "(if n \<noteq> 0 then memzero_nt_cachelines d n st else Some st) = Some st1"
    by (simp add: memzero_nt_cachelines_def st1_def)
  then have "zero_rest d l st = Some st'"
    unfolding zero_rest_def Let_def n_def [symmetric] r(3) using st2(1) by (simp only: Option.bind.simps st'_def split: if_split) simp
  ultimately show thesis by (rule that [rotated])
qed

text \<open>
  \<open>memzero_nt\<close> is \<open>memset\<close> with 0; the bytes of whole cache lines are persistent only after a later \<open>sfence\<close>, which it leaves to its caller.
\<close>

theorem memzero_nt_correct:
  "\<exists>st'. memzero_nt d len st = Some st' \<and> pm_mem st' = pm_mem (memset0 d len st) \<and> pm_cache st' \<subseteq> pm_cache st \<and>
    pm_wc st' \<subseteq> pm_wc st \<union> {d..<d + len}"
proof -
  have "\<exists>st'. memzero_nt d len st = Some st' \<and> zeroes len d st st'"
  proof (cases "d mod 64 = 0")
    case True
    then show ?thesis using zero_rest_spec [of d len st] by (auto simp: memzero_nt_def)
  next
    case False
    define p where "p = (if 64 - d mod 64 > len then len else 64 - d mod 64)"
    have p: "p < 2 ^ 31" "p + (len - p) = len" by (auto simp: p_def)
    from p(1) obtain st1 where st1: "cl_flush d p (memset0 d p st) = Some st1" "zeroes p d st st1" by (rule zero_flush)
    obtain st' where st': "zero_rest (d + p) (len - p) st1 = Some st'" "zeroes (len - p) (d + p) st1 st'" by (rule zero_rest_spec)
    have "memzero_nt d len st = Some st'" using False st1(1) st'(1) unfolding memzero_nt_def Let_def p_def [symmetric] by simp
    with zeroes_add [OF st1(2) st'(2)] show ?thesis unfolding p(2) by blast
  qed
  then show ?thesis by (auto simp: zeroes_def memset0_def)
qed

end
