(* ===== verification/Mkfs.thy ===== *)
theory Mkfs
  imports MdTable ToyInode
begin

unbundle bit_operations_syntax

text \<open>
  The program that makes a toyfs file system (\<open>fs/toyfs/mkfs.c\<close>). It writes a super block with a device table and a root inode. The answers of the
  operating system and of the uuid library are the parameter \<open>mkfs_env\<close>; \<open>error\<close> ends the program with status 1. The result is the exit status
  with what has been written. The theorem relates the table to the checks at mount (\<open>md_mdt_check\<close>, \<open>_read_pmem_sb_first_time\<close> and the size that \<open>toyfs_sbi_init\<close> wants).
\<close>

section \<open>Operations\<close>

record mkfs_env =
  mk_open :: int
  mk_fstat :: int
  mk_isblk :: bool
  mk_isreg :: bool
  mk_ioctl :: int
  mk_bdev_size :: nat
  mk_st_size :: int
  mk_uuid_generate :: "byte list"
  mk_uuid_parse :: "string \<Rightarrow> byte list option"
  mk_now :: timespec
  mk_dev_ids :: nat                  \<comment> \<open>the length of the array \<open>dev_ids\<close>, without its first element\<close>
  mk_alloc_mask :: "64 word"         \<comment> \<open>\<open>ZUFS_ALLOC_MASK\<close>\<close>
  mk_minors :: nat                   \<comment> \<open>\<open>ZUFS_MINORS_PER_MAJOR\<close>\<close>
  mk_sb_lseek :: bool
  mk_sb_write :: bool
  mk_sb_fsync :: bool
  mk_ri_lseek :: bool
  mk_ri_write :: bool
  mk_ri_fsync :: bool

datatype mkfs_write = Super md_dev_table | Root toyfs_inode

abbreviation (input) EXIT_FAILURE :: int where "EXIT_FAILURE \<equiv> 1"
abbreviation (input) TOYFS_MAJOR_VERSION :: nat where "TOYFS_MAJOR_VERSION \<equiv> 14"
abbreviation (input) TOYFS_MINOR_VERSION :: nat where "TOYFS_MINOR_VERSION \<equiv> 1"

definition toyfs_open_blkdev :: "mkfs_env \<Rightarrow> int + int \<times> int" where
  "toyfs_open_blkdev e =
    (let fd = mk_open e; min_size = 2 ^ 20 in
     if fd \<le> 0 then Inl EXIT_FAILURE
     else if mk_fstat e \<noteq> 0 then Inl EXIT_FAILURE
     else if \<not> mk_isblk e \<and> \<not> mk_isreg e then Inl EXIT_FAILURE
     else if mk_isblk e then
       if mk_ioctl e \<noteq> 0 then Inl EXIT_FAILURE
       else if mk_bdev_size e < min_size then Inl EXIT_FAILURE
       else Inr (fd, cast_loff (mk_bdev_size e))
     else if mk_st_size e < int min_size then Inl EXIT_FAILURE
     else Inr (fd, mk_st_size e))"

definition zeroed_dev_id :: md_dev_id where
  "zeroed_dev_id = \<lparr>uuid = replicate 16 0, blocks = 0\<rparr>"

definition dev_table :: "mkfs_env \<Rightarrow> nat \<Rightarrow> byte list \<Rightarrow> md_dev_table" where
  "dev_table e t1_blocks dev_uuid =
    \<lparr>s_sum = 0, s_version = TOYFS_MAJOR_VERSION * mk_minors e + TOYFS_MINOR_VERSION, s_magic = TOYFS_SUPER_MAGIC,
     s_flags = 0, s_t1_blocks = t1_blocks, s_uuid = mk_uuid_generate e, s_wtime = timespec_to_zt (mk_now e),
     s_dev_list = \<lparr>id_index = 0, t1_count = 1, t2_count = 0, rmem_count = 0,
       dev_ids = \<lparr>uuid = dev_uuid, blocks = t1_blocks\<rparr> # replicate (mk_dev_ids e) zeroed_dev_id\<rparr>\<rparr>"

definition toyfs_fill_dev_table :: "md_api \<Rightarrow> mkfs_env \<Rightarrow> int \<Rightarrow> string \<Rightarrow> int + md_dev_table" where
  "toyfs_fill_dev_table api e dev_size uu =
    (case mk_uuid_parse e uu of None \<Rightarrow> Inl EXIT_FAILURE
     | Some dev_uuid \<Rightarrow>
        let t1_blocks = api_o2p api (unat ((word_of_int dev_size :: 64 word) AND NOT (mk_alloc_mask e)));
            table = dev_table e t1_blocks dev_uuid
        in Inr (table\<lparr>s_sum := md_calc_csum api table\<rparr>))"

definition toyfs_write_super_block :: "mkfs_env \<Rightarrow> md_dev_table \<Rightarrow> int \<times> mkfs_write list" where
  "toyfs_write_super_block e sb =
    (if \<not> mk_sb_lseek e then (EXIT_FAILURE, [])
     else if \<not> mk_sb_write e then (EXIT_FAILURE, [])
     else if \<not> mk_sb_fsync e then (EXIT_FAILURE, [Super sb])
     else (0, [Super sb]))"

definition toyfs_fill_root_inode :: toyfs_inode where
  "toyfs_fill_root_inode = zero_inode\<lparr>i_ino := TOYFS_ROOT_INO, i_nlink := 2, i_size := 0\<rparr>"

definition toyfs_write_root_inode :: "mkfs_env \<Rightarrow> toyfs_inode \<Rightarrow> int \<times> mkfs_write list" where
  "toyfs_write_root_inode e rooti =
    (if \<not> mk_ri_lseek e then (EXIT_FAILURE, [])
     else if \<not> mk_ri_write e then (EXIT_FAILURE, [])
     else if \<not> mk_ri_fsync e then (EXIT_FAILURE, [Root rooti])
     else (0, [Root rooti]))"

definition mkfs_main :: "md_api \<Rightarrow> mkfs_env \<Rightarrow> string list \<Rightarrow> int \<times> mkfs_write list" where
  "mkfs_main api e argv =
    (if length argv \<noteq> 3 then (EXIT_FAILURE, [])
     else case toyfs_open_blkdev e of Inl st \<Rightarrow> (st, [])
     | Inr (fd, dev_size) \<Rightarrow>
        (case toyfs_fill_dev_table api e dev_size (argv ! 1) of Inl st \<Rightarrow> (st, [])
         | Inr sb \<Rightarrow>
            let (st, w1) = toyfs_write_super_block e sb in
            if st \<noteq> 0 then (st, w1)
            else let (st, w2) = toyfs_write_root_inode e toyfs_fill_root_inode in (st, w1 @ w2)))"

section \<open>The table passes the checks at mount\<close>

text \<open>
  What the program relies on of \<open>md.h\<close>: pages of 4096 bytes, version numbers that are put together and taken apart alike, a checksum over bytes that do not
  contain it, a block count of less than \<open>2 ^ b\<close> that is stored as it is, and a mask of the lowest \<open>k\<close> bits, of at least a page.
\<close>

definition mkfs_api_ok :: "md_api \<Rightarrow> mkfs_env \<Rightarrow> nat \<Rightarrow> nat \<Rightarrow> bool" where
  "mkfs_api_ok api e k b =
    ((\<forall>t. mdt_major_version api t = s_version t div mk_minors e \<and> mdt_minor_version api t = s_version t mod mk_minors e) \<and> 1 < mk_minors e \<and>
     (\<forall>n. api_p2o api n = n * PAGE_SIZE \<and> api_o2p api n = n div PAGE_SIZE) \<and> mk_alloc_mask e = mask k \<and> 12 \<le> k \<and>
     (\<forall>d. blocks d < 2 ^ b \<longrightarrow> dev_id_blocks api d = blocks d) \<and> (\<forall>t v. csum_bytes api (t\<lparr>s_sum := v\<rparr>) = csum_bytes api t))"

definition toyfs_mc :: "mkfs_env \<Rightarrow> mdt_check" where
  "toyfs_mc e = \<lparr>mc_magic = TOYFS_SUPER_MAGIC, major_ver = TOYFS_MAJOR_VERSION, minor_ver = TOYFS_MINOR_VERSION, alloc_mask = mk_alloc_mask e\<rparr>"

lemma masked_pages:
  fixes w :: "64 word"
  assumes "12 \<le> k"
  shows "unat (w AND NOT (mask k)) div PAGE_SIZE * PAGE_SIZE = unat (w AND NOT (mask k))" "(w AND NOT (mask k)) AND mask k = 0"
proof -
  have "take_bit 12 (w AND NOT (mask k)) = 0" using assms by (intro bit_eqI) (auto simp: bit_simps)
  then have "take_bit 12 (unat (w AND NOT (mask k))) = 0" by (metis unsigned_take_bit_eq unsigned_0)
  then show "unat (w AND NOT (mask k)) div PAGE_SIZE * PAGE_SIZE = unat (w AND NOT (mask k))" by (auto simp: take_bit_eq_mod)
  show "(w AND NOT (mask k)) AND mask k = 0" by (intro bit_eqI) (auto simp: bit_simps)
qed

lemma fill_dev_table_check:
  assumes api: "mkfs_api_ok api e k b" and t: "toyfs_fill_dev_table api e dev_size uu = Inr t" and sz: "unat (word_of_int dev_size :: 64 word) < 2 ^ b * PAGE_SIZE"
  shows "s_magic t = TOYFS_SUPER_MAGIC"
    "main = None \<or> main = Some t \<Longrightarrow> md_mdt_check api t main (toyfs_mc e) = Some ((word_of_int dev_size :: 64 word) AND NOT (mask k) \<noteq> 0)"
proof -
  let ?x = "(word_of_int dev_size :: 64 word) AND NOT (mask k)"
  define n where "n = unat ?x div PAGE_SIZE"
  note A = api [unfolded mkfs_api_ok_def]
  have k: "12 \<le> k" "mk_alloc_mask e = mask k" using A by simp_all
  have n: "n * PAGE_SIZE = unat ?x" unfolding n_def by (rule masked_pages(1) [OF k(1)])
  have "unat ?x \<le> unat (word_of_int dev_size :: 64 word)" by (metis and.commute word_and_le1 word_le_nat_alt)
  then have "n * PAGE_SIZE < 2 ^ b * PAGE_SIZE" using sz n by linarith
  then have nb: "n < 2 ^ b" by simp
  obtain du where du: "t = (dev_table e n du)\<lparr>s_sum := md_calc_csum api (dev_table e n du)\<rparr>"
    using t A k(2) by (auto simp: toyfs_fill_dev_table_def Let_def n_def split: option.splits)
  define tab where "tab = dev_table e n du"
  have tab: "t = tab\<lparr>s_sum := md_calc_csum api tab\<rparr>" "s_magic tab = TOYFS_SUPER_MAGIC" "s_version tab = 14 * mk_minors e + 1"
    "t1_count (s_dev_list tab) = 1" "t2_count (s_dev_list tab) = 0" "rmem_count (s_dev_list tab) = 0" "id_index (s_dev_list tab) = 0"
    "dev_ids (s_dev_list tab) = \<lparr>uuid = du, blocks = n\<rparr> # replicate (mk_dev_ids e) zeroed_dev_id"
    by (simp_all add: tab_def du) (simp_all add: dev_table_def)
  show "s_magic t = TOYFS_SUPER_MAGIC" using tab(1,2) by simp
  have v: "(14 * mk_minors e + 1) div mk_minors e = 14" "(14 * mk_minors e + 1) mod mk_minors e = 1"
    using A div_mult_self3 [of "mk_minors e" 14 1] mod_mult_self3 [of 14 "mk_minors e" 1] by auto
  have c: "\<not> csum_mismatch api t" using A by (simp add: csum_mismatch_def tab(1) md_calc_csum_def)
  have d: "of_nat (api_p2o api (dev_id_blocks api \<lparr>uuid = du, blocks = n\<rparr>)) = ?x" using A nb n by simp
  have "mdt_compare_uuids t t = Some True" by (simp add: mdt_compare_uuids_def tab dev_id_at_def)
  then show "md_mdt_check api t main (toyfs_mc e) = Some (?x \<noteq> 0)" if "main = None \<or> main = Some t"
    using that c d v A masked_pages(2) [OF k(1), of "word_of_int dev_size"] unfolding md_mdt_check_def
    by (auto simp: tab toyfs_mc_def k(2) dev_id_at_def Let_def)
qed

text \<open>The last check of the mount: a file system of less than 1024 blocks is refused.\<close>

lemma sbi_init_size:
  assumes "md_magic (s_md s) = TOYFS_SUPER_MAGIC"
  shows "(\<exists>zmi' s'. toyfs_sbi_init acl mem tir_ok zmi s = Some (Inl EINVAL, zmi', s')) = (md_t1_blocks (s_md s) < 1024)"
proof (cases "md_t1_blocks (s_md s) < 1024")
  case True
  then show ?thesis by (simp add: toyfs_sbi_init_def sbi_init_def)
next
  case False
  have "s_md (write_pmem_loop x y z u) = s_md u" for x y z u
    by (induction x y z u rule: write_pmem_loop.induct) (subst write_pmem_loop.simps, simp add: upd_dat_def)
  then have p: "prepare_pmem_first_time s = (Inr (), write_pmem_first_time s)"
    using assms by (simp add: prepare_pmem_first_time_def read_pmem_sb_first_time_def write_pmem_first_time_def Let_def)
  have "r \<noteq> Inl EINVAL" if "new_root_inode mem tir_ok u = Some (r, u')" for u r u'
    using that by (auto simp: new_root_inode_def bind_eq_Some_conv Let_def split: option.splits prod.splits)
  then show ?thesis using False by (auto simp: toyfs_sbi_init_def sbi_init_def Let_def p bind_eq_Some_conv split: sum.splits)
qed

lemma fill_dev_table_size:
  "toyfs_fill_dev_table api e dev_size uu = Inr t \<Longrightarrow> s_t1_blocks t = api_o2p api (unat ((word_of_int dev_size :: 64 word) AND NOT (mk_alloc_mask e)))"
  by (auto simp: toyfs_fill_dev_table_def dev_table_def Let_def split: option.splits)

text \<open>
  C37. When \<open>mkfs\<close> exits with status 0, it was called with two arguments, and it has written a super block for the size of the device rounded down to the
  allocation unit, in blocks. The mount accepts it exactly if two things hold: \<open>md_mdt_check\<close> passes exactly if this size is not 0, and \<open>toyfs_sbi_init\<close>, on the
  device that this table describes, does not fail with \<open>EINVAL\<close> exactly if there are at least 1024 blocks; the magic number is the one it expects. The root inode
  has the number of the root and two links. Otherwise the exit status is 1, and a super block that has been written nevertheless has the right magic number.
\<close>

theorem mkfs_main_correct:
  assumes "mkfs_api_ok api e k b" "\<forall>fd sz. toyfs_open_blkdev e = Inr (fd, sz) \<longrightarrow> unat (word_of_int sz :: 64 word) < 2 ^ b * PAGE_SIZE"
    and "mkfs_main api e argv = (st, ws)"
  shows "if st = 0 then \<exists>t r fd sz. ws = [Super t, Root r] \<and> length argv = 3 \<and> toyfs_open_blkdev e = Inr (fd, sz) \<and>
      s_t1_blocks t = unat ((word_of_int sz :: 64 word) AND NOT (mask k)) div PAGE_SIZE \<and>
      (\<forall>main \<in> {None, Some t}. md_mdt_check api t main (toyfs_mc e) = Some ((word_of_int sz :: 64 word) AND NOT (mask k) \<noteq> 0)) \<and>
      (\<forall>s acl mem tir_ok zmi. md_magic (s_md s) = s_magic t \<longrightarrow> md_t1_blocks (s_md s) = s_t1_blocks t \<longrightarrow>
         (\<exists>zmi' s'. toyfs_sbi_init acl mem tir_ok zmi s = Some (Inl EINVAL, zmi', s')) = (s_t1_blocks t < 1024)) \<and>
      i_ino r = TOYFS_ROOT_INO \<and> i_nlink r = 2
    else st = 1 \<and> (\<forall>t. Super t \<in> set ws \<longrightarrow> s_magic t = TOYFS_SUPER_MAGIC)"
proof (cases "length argv = 3")
  case True
  show ?thesis
  proof (cases "toyfs_open_blkdev e")
    case (Inl x)
    then show ?thesis using assms(3) True by (auto simp: mkfs_main_def toyfs_open_blkdev_def Let_def split: if_splits)
  next
    case (Inr y)
    obtain fd sz where y: "y = (fd, sz)" by force
    with assms(2) Inr have small: "unat (word_of_int sz :: 64 word) < 2 ^ b * PAGE_SIZE" by blast
    show ?thesis
    proof (cases "toyfs_fill_dev_table api e sz (argv ! 1)")
      case (Inl x)
      then show ?thesis using assms(3) True Inr y by (auto simp: mkfs_main_def toyfs_fill_dev_table_def Let_def split: option.splits)
    next
      case t: (Inr t)
      note F = fill_dev_table_check [OF assms(1) t small]
      have "(st, ws) = (let (st, w1) = toyfs_write_super_block e t in
            if st \<noteq> 0 then (st, w1) else let (st, w2) = toyfs_write_root_inode e toyfs_fill_root_inode in (st, w1 @ w2))"
        using assms(3) True Inr y t by (simp add: mkfs_main_def)
      moreover have "s_t1_blocks t = unat ((word_of_int sz :: 64 word) AND NOT (mask k)) div PAGE_SIZE"
        using fill_dev_table_size [OF t] assms(1) by (simp add: mkfs_api_ok_def)
      moreover have "(\<exists>zmi' s'. toyfs_sbi_init acl mem tir_ok zmi s = Some (Inl EINVAL, zmi', s')) = (s_t1_blocks t < 1024)"
        if "md_magic (s_md s) = s_magic t" "md_t1_blocks (s_md s) = s_t1_blocks t" for s acl mem tir_ok zmi
        using sbi_init_size [of s acl mem tir_ok zmi] F(1) that by simp
      ultimately show ?thesis using F Inr y True
        by (auto simp: toyfs_write_super_block_def toyfs_write_root_inode_def toyfs_fill_root_inode_def split: if_splits)
    qed
  qed
qed (use assms(3) in \<open>auto simp: mkfs_main_def\<close>)

definition sample_mkfs :: mkfs_env where
  "sample_mkfs = \<lparr>mk_open = 3, mk_fstat = 0, mk_isblk = True, mk_isreg = False, mk_ioctl = 0, mk_bdev_size = 2 ^ 23, mk_st_size = 0,
     mk_uuid_generate = replicate 16 1, mk_uuid_parse = \<lambda>_. Some (replicate 16 2), mk_now = \<lparr>tv_sec = 5, tv_nsec = 0\<rparr>, mk_dev_ids = 3,
     mk_alloc_mask = mask 21, mk_minors = 64, mk_sb_lseek = True, mk_sb_write = True, mk_sb_fsync = True,
     mk_ri_lseek = True, mk_ri_write = True, mk_ri_fsync = True\<rparr>"

theorem mkfs_main_correct_witness:
  "\<exists>t r. snd (mkfs_main sample_api sample_mkfs [''mkfs'', ''uuid'', ''dev'']) = [Super t, Root r] \<and>
    md_mdt_check sample_api t None (toyfs_mc sample_mkfs) = Some True \<and> i_ino r = 1"
proof -
  have o: "toyfs_open_blkdev sample_mkfs = Inr (3, 2 ^ 23)" by (simp add: toyfs_open_blkdev_def sample_mkfs_def cast_loff_def)
  have api: "mkfs_api_ok sample_api sample_mkfs 21 20" by (simp add: mkfs_api_ok_def sample_api_def sample_mkfs_def)
  have sz: "\<forall>fd sz. toyfs_open_blkdev sample_mkfs = Inr (fd, sz) \<longrightarrow> unat (word_of_int sz :: 64 word) < 2 ^ 20 * PAGE_SIZE" by (simp add: o)
  obtain st ws where r: "mkfs_main sample_api sample_mkfs [''mkfs'', ''uuid'', ''dev''] = (st, ws)" by force
  have "st = 0" using r o by (simp add: mkfs_main_def toyfs_fill_dev_table_def toyfs_write_super_block_def toyfs_write_root_inode_def sample_mkfs_def Let_def)
  moreover have "(2 ^ 23 :: 64 word) AND NOT (mask 21) \<noteq> 0" by (simp add: mask_eq_exp_minus_1)
  ultimately show ?thesis using mkfs_main_correct [OF api sz r] o r by auto
qed

text \<open>
  A device of at least 1 MB is accepted by \<open>mkfs\<close>. Below one allocation unit its super block is refused at mount, and so is one of exactly one
  unit of 2 MB: its table passes \<open>md_mdt_check\<close>, but it has 512 blocks only.
\<close>

theorem mkfs_small_device:
  assumes "mkfs_api_ok api e 21 b" "9 \<le> b" "toyfs_fill_dev_table api e (2 ^ 20) uu = Inr t"
  shows "md_mdt_check api t None (toyfs_mc e) = Some False"
proof -
  have "(2 ^ 9 :: nat) \<le> 2 ^ b" using assms(2) by (rule power_increasing) simp
  then have "unat (word_of_int (2 ^ 20) :: 64 word) < 2 ^ b * PAGE_SIZE" by simp
  moreover have "(word_of_int (2 ^ 20) :: 64 word) AND NOT (mask 21) = 0" by (simp add: mask_eq_exp_minus_1)
  ultimately show ?thesis using fill_dev_table_check(2) [OF assms(1,3), of None] by simp
qed

theorem mkfs_one_unit_device:
  assumes "mkfs_api_ok api e 21 b" "10 \<le> b" "toyfs_fill_dev_table api e (2 ^ 21) uu = Inr t"
    and "md_magic (s_md s) = s_magic t" "md_t1_blocks (s_md s) = s_t1_blocks t"
  shows "md_mdt_check api t None (toyfs_mc e) = Some True \<and> (\<exists>zmi' s'. toyfs_sbi_init acl mem tir_ok zmi s = Some (Inl EINVAL, zmi', s'))"
proof -
  have "(2 ^ 10 :: nat) \<le> 2 ^ b" using assms(2) by (rule power_increasing) simp
  then have small: "unat (word_of_int (2 ^ 21) :: 64 word) < 2 ^ b * PAGE_SIZE" by simp
  note F = fill_dev_table_check [OF assms(1,3) small]
  have x: "(word_of_int (2 ^ 21) :: 64 word) AND NOT (mask 21) = 2 ^ 21" by (simp add: mask_eq_exp_minus_1)
  then have "s_t1_blocks t = 512" using fill_dev_table_size [OF assms(3)] assms(1) by (simp add: mkfs_api_ok_def)
  then show ?thesis using F x sbi_init_size [of s acl mem tir_ok zmi] assms(4,5) by simp
qed

end
