(* ===== verification/FooFs.thy ===== *)
theory FooFs
  imports ToyMmap ToyDir
begin

unbundle bit_operations_syntax

text \<open>
  The example file system foofs (\<open>fs/foofs/foofs.c\<close>). Its inodes are an array that starts at block 1, and the directory of inode \<open>ino\<close> is the page of block
  \<open>ino + 1\<close>: the two areas share memory, so the device is one array of bytes. The layout of \<open>struct zus_inode\<close> is declared in \<open>zus_api.h\<close>: its size and the
  positions of its members are the parameter \<open>foo_md\<close>, together with \<open>md_baddr\<close> and \<open>md_t1_blocks\<close> of \<open>md.h\<close>. A \<open>struct zus_inode_info\<close> only leads to its
  inode and is represented by the address of the inode.
\<close>

section \<open>The device\<close>

record foo_md =
  foo_baddr :: "nat \<Rightarrow> addr"
  foo_t1_blocks :: nat
  zi_sz :: nat
  zo_mode :: nat
  zo_nlink :: nat
  zo_size :: nat
  zo_blocks :: nat
  zo_ino :: nat
  zo_parent :: nat
  zo_disk :: nat
  zo_disk_n :: nat
  zo_atime :: nat
  zo_mtime :: nat
  zo_ctime :: nat

definition fput :: "addr \<Rightarrow> nat \<Rightarrow> nat \<Rightarrow> (addr \<Rightarrow> byte) \<Rightarrow> addr \<Rightarrow> byte" where
  "fput a n v m = pg_copy a n (le_byte v) m"

definition foo_mode :: "foo_md \<Rightarrow> addr \<Rightarrow> (addr \<Rightarrow> byte) \<Rightarrow> nat" where
  "foo_mode L zi m = le_get m (zi + zo_mode L) 2"

definition foo_ino :: "foo_md \<Rightarrow> addr \<Rightarrow> (addr \<Rightarrow> byte) \<Rightarrow> nat" where
  "foo_ino L zi m = le_get m (zi + zo_ino L) 8"

definition foo_isdir :: "foo_md \<Rightarrow> addr \<Rightarrow> (addr \<Rightarrow> byte) \<Rightarrow> bool" where
  "foo_isdir L zi m = ((word_of_nat (foo_mode L zi m) :: 16 word) AND S_IFMT = S_IFDIR)"

definition foo_nlink_add :: "foo_md \<Rightarrow> addr \<Rightarrow> int \<Rightarrow> (addr \<Rightarrow> byte) \<Rightarrow> addr \<Rightarrow> byte" where
  "foo_nlink_add L zi k m = fput (zi + zo_nlink L) 4 (unat (le32_add (word_of_nat (le_get m (zi + zo_nlink L) 4)) k)) m"

section \<open>Inodes\<close>

abbreviation (input) FOOFS_ROOT_NO :: nat where "FOOFS_ROOT_NO \<equiv> 1"
abbreviation (input) M1FS_SUPER_MAGIC :: nat where "M1FS_SUPER_MAGIC \<equiv> 0x5346314d"
abbreviation (input) FOOFS_INODES_RATIO :: nat where "FOOFS_INODES_RATIO \<equiv> 20"

definition find_zi :: "foo_md \<Rightarrow> nat \<Rightarrow> addr" where
  "find_zi L ino = foo_baddr L 1 + ino * zi_sz L"

definition max_ino :: "foo_md \<Rightarrow> nat" where
  "max_ino L = foo_t1_blocks L div FOOFS_INODES_RATIO * (PAGE_SIZE div zi_sz L)"

definition find_free_ino :: "foo_md \<Rightarrow> (addr \<Rightarrow> byte) \<Rightarrow> addr option \<times> (addr \<Rightarrow> byte)" where
  "find_free_ino L m =
    (case find (\<lambda>i. foo_mode L (find_zi L i) m = 0) [1..<max_ino L] of
       None \<Rightarrow> (None, m)
     | Some i \<Rightarrow> (Some (find_zi L i), fput (find_zi L i + zo_ino L) 8 i m))"

definition get_fill :: "foo_md \<Rightarrow> (addr \<Rightarrow> byte) \<Rightarrow> nat" where
  "get_fill L m = length (filter (\<lambda>i. foo_mode L (find_zi L i) m \<noteq> 0) [1..<max_ino L])"

section \<open>Directories\<close>

abbreviation (input) MAX_NAME :: nat where "MAX_NAME \<equiv> 16"
abbreviation (input) MAX_ENTS :: nat where "MAX_ENTS \<equiv> 170"
abbreviation (input) SIZEOF_FOO_ENT :: nat where "SIZEOF_FOO_ENT \<equiv> 24"

text \<open>An entry has 8 bytes for the inode number and 16 for the name.\<close>

definition foo_dir :: "foo_md \<Rightarrow> addr \<Rightarrow> (addr \<Rightarrow> byte) \<Rightarrow> addr" where
  "foo_dir L dir_zi m = foo_baddr L (foo_ino L dir_zi m + 1)"

definition ent_ino :: "addr \<Rightarrow> (addr \<Rightarrow> byte) \<Rightarrow> nat" where
  "ent_ino de m = le_get m de 8"

definition ent_name :: "addr \<Rightarrow> (addr \<Rightarrow> byte) \<Rightarrow> nat \<Rightarrow> byte" where
  "ent_name de m k = m (de + 8 + k)"

definition find_de :: "foo_md \<Rightarrow> addr \<Rightarrow> zufs_str \<Rightarrow> (addr \<Rightarrow> byte) \<Rightarrow> addr option" where
  "find_de L dir_zi str m =
    (let dir = foo_dir L dir_zi m in
     find (\<lambda>de. strncmp_eq (ent_name de m) (str_name str) (str_len str)) (map (\<lambda>i. dir + SIZEOF_FOO_ENT * i) [0..<MAX_ENTS]))"


definition init_root :: "foo_md \<Rightarrow> timespec \<Rightarrow> (addr \<Rightarrow> byte) \<Rightarrow> addr \<Rightarrow> byte" where
  "init_root L now m =
    (let root = find_zi L FOOFS_ROOT_NO;
         m = pg_copy root (zi_sz L) (\<lambda>_. 0) m;
         m = fput (root + zo_ino L) 8 FOOFS_ROOT_NO m;
         m = fput (root + zo_nlink L) 4 2 m;
         m = fput (root + zo_mode L) 2 (unat (S_IFDIR OR 0x1A4)) m;
         m = fput (root + zo_atime L) 8 (timespec_to_zt now) m;
         m = fput (root + zo_mtime L) 8 (timespec_to_zt now) m;
         m = fput (root + zo_ctime L) 8 (timespec_to_zt now) m;
         m = fput (root + zo_size L) 8 PAGE_SIZE m;
         m = fput (root + zo_blocks L) 8 1 m
     in pg_copy (foo_baddr L (FOOFS_ROOT_NO + 1)) PAGE_SIZE (\<lambda>_. 0) m)"

section \<open>Operations\<close>

text \<open>\<open>ok\<close> is the success of \<open>calloc\<close>. \<open>find_zi\<close> gives the address of an array element, which is never NULL.\<close>

definition foofs_iget :: "bool \<Rightarrow> foo_md \<Rightarrow> nat \<Rightarrow> addr result" where
  "foofs_iget ok L ino = (if \<not> ok then Inl ENOMEM else Inr (find_zi L ino))"

definition foofs_sbi_init :: "bool \<Rightarrow> foo_md \<Rightarrow> timespec \<Rightarrow> (addr \<Rightarrow> byte) \<Rightarrow> addr result \<times> (addr \<Rightarrow> byte)" where
  "foofs_sbi_init ok L now m =
    (let m = init_root L now m in
     case foofs_iget ok L FOOFS_ROOT_NO of Inl _ \<Rightarrow> (Inl ENOMEM, m) | Inr z_root \<Rightarrow> (Inr z_root, m))"

record foo_statfs =
  fs_type :: nat
  fs_bsize :: nat
  fs_blocks :: nat
  fs_bfree :: nat
  fs_bavail :: nat
  fs_files :: nat
  fs_ffree :: nat
  fs_namelen :: nat
  fs_frsize :: nat
  fs_flags :: nat

definition foofs_statfs :: "foo_md \<Rightarrow> (addr \<Rightarrow> byte) \<Rightarrow> foo_statfs" where
  "foofs_statfs L m =
    (let num_files = get_fill L m mod 2 ^ 32;
         bfree = size_sub (foo_t1_blocks L) num_files
     in \<lparr>fs_type = M1FS_SUPER_MAGIC, fs_bsize = PAGE_SIZE, fs_blocks = foo_t1_blocks L, fs_bfree = bfree, fs_bavail = bfree,
         fs_files = num_files, fs_ffree = (MAX_ENTS + (2 ^ 32 - num_files)) mod 2 ^ 32, fs_namelen = MAX_NAME, fs_frsize = 0, fs_flags = 0\<rparr>)"

text \<open>\<open>new_zi\<close> are the bytes of \<open>ioc_new->zi\<close>.\<close>

definition foofs_new_inode :: "bool \<Rightarrow> foo_md \<Rightarrow> addr \<Rightarrow> (nat \<Rightarrow> byte) \<Rightarrow> (addr \<Rightarrow> byte) \<Rightarrow> addr option \<times> (addr \<Rightarrow> byte)" where
  "foofs_new_inode ok L dir_zi new_zi m =
    (case find_free_ino L m of
       (None, m) \<Rightarrow> (None, m)
     | (Some zi, m) \<Rightarrow>
        if \<not> ok then (None, m)
        else
          let ino = foo_ino L zi m;
              m = pg_copy zi (zi_sz L) new_zi m;
              m = fput (zi + zo_ino L) 8 ino m
          in if foo_isdir L zi m then
               let m = pg_copy (foo_dir L dir_zi m) PAGE_SIZE (\<lambda>_. 0) m;
                   m = fput (zi + zo_size L) 8 PAGE_SIZE m;
                   m = fput (zi + zo_blocks L) 8 1 m;
                   m = fput (zi + zo_parent L) 8 (foo_ino L dir_zi m) m;
                   m = fput (zi + zo_nlink L) 4 1 m
               in (Some zi, m)
             else (Some zi, m))"

definition foofs_free_inode :: "foo_md \<Rightarrow> addr \<Rightarrow> (addr \<Rightarrow> byte) \<Rightarrow> addr \<Rightarrow> byte" where
  "foofs_free_inode L zi m = fput (zi + zo_ino L) 8 0 (fput (zi + zo_mode L) 2 0 m)"

definition foofs_lookup :: "foo_md \<Rightarrow> addr \<Rightarrow> zufs_str \<Rightarrow> (addr \<Rightarrow> byte) \<Rightarrow> nat" where
  "foofs_lookup L dir_zi str m = (case find_de L dir_zi str m of None \<Rightarrow> 0 | Some de \<Rightarrow> ent_ino de m)"


definition foofs_remove_dentry :: "foo_md \<Rightarrow> addr \<Rightarrow> addr \<Rightarrow> zufs_str \<Rightarrow> (addr \<Rightarrow> byte) \<Rightarrow> unit result \<times> (addr \<Rightarrow> byte)" where
  "foofs_remove_dentry L dir_zi zi str m =
    (case find_de L dir_zi str m of
       None \<Rightarrow> (Inl ENOENT, m)
     | Some de \<Rightarrow>
        let m = (if foo_isdir L zi m then foo_nlink_add L dir_zi (- 1) (foo_nlink_add L zi (- 1) m) else m);
            m = foo_nlink_add L zi (- 1) m;
            m = fput de 8 0 m
        in (Inr (), m(de + 8 := 0)))"

text \<open>
  The name of an entry up to its 0, which is in the page. The length that is passed to \<open>zufs_zde_emit\<close> counts the 0. The answers for the two special names
  are not looked at.
\<close>

definition ent_string :: "addr \<Rightarrow> addr \<Rightarrow> (addr \<Rightarrow> byte) \<Rightarrow> byte list" where
  "ent_string dir de m = takeWhile (\<lambda>b. b \<noteq> 0) (map m [de + 8..<dir + PAGE_SIZE])"

fun foo_rd_loop :: "'r zde_emit \<Rightarrow> addr \<Rightarrow> (addr \<Rightarrow> byte) \<Rightarrow> nat list \<Rightarrow> 'r \<Rightarrow> nat \<Rightarrow> 'r \<times> nat" where
  "foo_rd_loop emit dir m [] rdi pos = (rdi, pos)"
| "foo_rd_loop emit dir m (i # is) rdi pos =
    (let de = dir + SIZEOF_FOO_ENT * i; pos = i * SIZEOF_FOO_ENT in
     if ent_ino de m = 0 then foo_rd_loop emit dir m is rdi pos
     else let (ok, rdi) = emit rdi (ent_ino de m) 1 pos (ent_string dir de m @ [0])
       in if \<not> ok then (rdi, pos) else foo_rd_loop emit dir m is rdi pos)"

definition foofs_readdir :: "'r zde_emit \<Rightarrow> foo_md \<Rightarrow> addr \<Rightarrow> (addr \<Rightarrow> byte) \<Rightarrow> 'r \<Rightarrow> nat \<Rightarrow> 'r \<times> nat" where
  "foofs_readdir emit L dir_zi m rdi pos =
    (let start = pos div SIZEOF_FOO_ENT mod 2 ^ 32;
         (rdi, pos) = (if pos = 0 then (snd (emit rdi (foo_ino L dir_zi m) 4 0 [46, 0]), 1) else (rdi, pos));
         (rdi, pos) = (if pos = 1 then (snd (emit rdi (foo_ino L dir_zi m) 4 1 [46, 46, 0]), 2) else (rdi, pos))
     in foo_rd_loop emit (foo_dir L dir_zi m) m [start..<MAX_ENTS] rdi pos)"

text \<open>\<open>app\<close> is the buffer of the application, an array of \<open>unsigned long\<close>.\<close>

primrec fill_words :: "nat \<Rightarrow> nat \<Rightarrow> 64 word \<Rightarrow> (nat \<Rightarrow> 64 word) \<Rightarrow> nat \<Rightarrow> 64 word" where
  "fill_words 0 i start app = app"
| "fill_words (Suc n) i start app = fill_words n (i + 1) (start + 1) (app(i := start))"

definition foofs_read :: "foo_md \<Rightarrow> addr \<Rightarrow> nat \<Rightarrow> nat \<Rightarrow> (addr \<Rightarrow> byte) \<Rightarrow> (nat \<Rightarrow> 64 word) \<Rightarrow> nat \<Rightarrow> 64 word" where
  "foofs_read L zi filepos len m app =
    (if le_get m (zi + zo_disk L) (zo_disk_n L) \<noteq> 0 then app(0 := 0xB00DBAAD)
     else fill_words (len div 8) 0 (word_of_nat (filepos div 8)) app)"

text \<open>The loop of \<open>foofs_write\<close> only prints the words that are not the numbers of their positions: nothing is stored.\<close>

definition foofs_write :: "foo_md \<Rightarrow> addr \<Rightarrow> nat \<Rightarrow> nat \<Rightarrow> (addr \<Rightarrow> byte) \<Rightarrow> addr \<Rightarrow> byte" where
  "foofs_write L zi filepos len m =
    (let end_pos = size_add filepos len;
         m = fput (zi + zo_disk L) (zo_disk_n L) 0 m
     in if le_get m (zi + zo_size L) 8 < end_pos then fput (zi + zo_size L) 8 end_pos m else m)"

definition foofs_get_block :: "iom_api \<Rightarrow> mmap_api \<Rightarrow> foo_md \<Rightarrow> addr \<Rightarrow> (addr \<Rightarrow> byte) \<Rightarrow> get_block \<Rightarrow> get_block" where
  "foofs_get_block api mapi L zi m io =
    (let bn = foo_ino L zi m + 1;
         b = zus_iom_init_4_ioc_io api (zus_max_op_size mapi) ((zeroed_iomb (iom_e (gb_ziom io)))\<lparr>ziom := gb_ziom io\<rparr>);
         b = zus_iom_start None b;
         b = snd (ziom_enc_t1_bn api (word_of_nat bn) 0 b)
     in io\<lparr>gb_ziom := ziom b, gb_out_len := ioc_IO_size mapi 1\<rparr>)"

section \<open>Memory\<close>

text \<open>The members that the operations use lie in the structure, and the three of the link operations are apart.\<close>

definition foo_layout_ok :: "foo_md \<Rightarrow> bool" where
  "foo_layout_ok L =
    (zo_mode L + 2 \<le> zi_sz L \<and> zo_nlink L + 4 \<le> zi_sz L \<and> zo_ino L + 8 \<le> zi_sz L \<and>
     zo_size L + 8 \<le> zi_sz L \<and> zo_blocks L + 8 \<le> zi_sz L \<and> zo_parent L + 8 \<le> zi_sz L \<and>
     (zo_nlink L + 4 \<le> zo_ino L \<or> zo_ino L + 8 \<le> zo_nlink L) \<and> (zo_nlink L + 4 \<le> zo_mode L \<or> zo_mode L + 2 \<le> zo_nlink L))"

definition foo_apart :: "foo_md \<Rightarrow> addr \<Rightarrow> addr \<Rightarrow> bool" where
  "foo_apart L dir zi = (zi + zi_sz L \<le> dir \<or> dir + PAGE_SIZE \<le> zi)"

lemma fput_other: "x < a \<or> a + n \<le> x \<Longrightarrow> fput a n v m x = m x"
  by (auto simp: fput_def pg_copy_def)

lemma fput_get: "v < 256 ^ n \<Longrightarrow> le_get (fput a n v m) a n = v"
  unfolding fput_def using le_get_stored [of a a n n "le_byte v" v m] by simp





lemma strncmp_eq_nul: "a 0 = 0 \<Longrightarrow> 0 < n \<Longrightarrow> b 0 \<noteq> 0 \<Longrightarrow> \<not> strncmp_eq a b n"
  by (cases n) auto

section \<open>A name that was added is found\<close>

lemma foo_ino_cong:
  "foo_layout_ok L \<Longrightarrow> (\<And>x. zi \<le> x \<Longrightarrow> x < zi + zi_sz L \<Longrightarrow> m x = m' x) \<Longrightarrow> foo_ino L zi m = foo_ino L zi m'"
  unfolding foo_ino_def by (rule le_get_cong) (auto simp: foo_layout_ok_def)








section \<open>Files\<close>

lemma fill_words_nth: "fill_words n i s app k = (if i \<le> k \<and> k < i + n then s + word_of_nat (k - i) else app k)"
proof (induction n arbitrary: i s app)
  case (Suc n)
  have "fill_words (Suc n) i s app k = (if i + 1 \<le> k \<and> k < i + 1 + n then s + 1 + word_of_nat (k - (i + 1)) else (app(i := s)) k)"
    by (simp only: fill_words.simps Suc.IH)
  moreover have "s + 1 + word_of_nat (k - (i + 1)) = s + word_of_nat (k - i)" if "i + 1 \<le> k"
    using that by (metis Suc_diff_le Suc_eq_plus1 add.assoc diff_Suc_Suc of_nat_Suc)
  ultimately show ?case by auto
qed auto

text \<open>
  A read of a file fills every whole word of the buffer with the number of its position in the file and leaves what is behind it unchanged; a
  write only makes the file longer.
\<close>

theorem foofs_read_words:
  assumes "le_get m (zi + zo_disk L) (zo_disk_n L) = 0"
  shows "foofs_read L zi filepos len m app k = (if k < len div 8 then word_of_nat (filepos div 8 + k) else app k)"
  using assms by (simp add: foofs_read_def fill_words_nth)

theorem foofs_write_size:
  assumes "zo_disk L + zo_disk_n L \<le> zo_size L \<or> zo_size L + 8 \<le> zo_disk L" "filepos + len < 2 ^ 64"
  shows "le_get (foofs_write L zi filepos len m) (zi + zo_size L) 8 = max (le_get m (zi + zo_size L) 8) (filepos + len)"
proof -
  have "le_get (fput (zi + zo_disk L) (zo_disk_n L) 0 m) (zi + zo_size L) 8 = le_get m (zi + zo_size L) 8"
    by (rule le_get_cong) (use assms(1) in \<open>auto intro!: fput_other\<close>)
  then show ?thesis using assms(2) fput_get [of "filepos + len" 8] by (auto simp: foofs_write_def Let_def size_add_def max_def)
qed

section \<open>A new directory empties its parent\<close>

text \<open>
  \<open>foofs_new_inode\<close> clears the page of the parent instead of the page of the new directory: no name of the parent is found afterwards.
\<close>

theorem foofs_new_dir_empties_parent:
  assumes L: "foo_layout_ok L" and run: "foofs_new_inode True L dir_zi new_zi m = (Some zi, m')" and dir: "foo_isdir L zi m'"
    and ap: "foo_apart L (foo_dir L dir_zi m) zi" "foo_apart L (foo_dir L dir_zi m) dir_zi" "zi + zi_sz L \<le> dir_zi \<or> dir_zi + zi_sz L \<le> zi"
    and str: "0 < str_len str" "str_name str 0 \<noteq> 0"
  shows "foofs_lookup L dir_zi str m' = 0"
proof -
  define D where "D = foo_dir L dir_zi m"
  obtain m1 where m1: "find_free_ino L m = (Some zi, m1)"
    using run by (auto simp: foofs_new_inode_def Let_def split: prod.splits option.splits if_splits)
  define m2 where "m2 = fput (zi + zo_ino L) 8 (foo_ino L zi m1) (pg_copy zi (zi_sz L) new_zi m1)"
  have out1: "m1 x = m x" if "x < zi \<or> zi + zi_sz L \<le> x" for x
    using m1 that L by (auto simp: find_free_ino_def foo_layout_ok_def fput_other split: option.splits)
  have out2: "m2 x = m x" if "x < zi \<or> zi + zi_sz L \<le> x" for x
    using out1 [OF that] that L by (auto simp: m2_def foo_layout_ok_def fput_other pg_copy_def)
  have D2: "foo_dir L dir_zi m2 = D"
    unfolding foo_dir_def D_def by (subst foo_ino_cong [OF L, of dir_zi m2 m]) (use out2 ap(3) in auto)
  define m3 where "m3 = pg_copy D PAGE_SIZE (\<lambda>_. 0) m2"
  define put where "put = (\<lambda>m. fput (zi + zo_nlink L) 4 1 (fput (zi + zo_parent L) 8 (foo_ino L dir_zi (fput (zi + zo_blocks L) 8 1 (fput (zi + zo_size L) 8 PAGE_SIZE m)))
    (fput (zi + zo_blocks L) 8 1 (fput (zi + zo_size L) 8 PAGE_SIZE m))))"
  have m': "m' = (if foo_isdir L zi m2 then put m3 else m2)"
    using run m1 D2 by (simp add: foofs_new_inode_def m2_def [symmetric] m3_def put_def Let_def split: if_splits)
  have out: "put m3 x = m3 x" if "x < zi \<or> zi + zi_sz L \<le> x" for x
    using that L by (auto simp: put_def foo_layout_ok_def fput_other)
  have "foo_isdir L zi m2" using dir m' by (auto split: if_splits)
  then have m': "m' = put m3" by (simp add: m')
  have page: "m' x = 0" if "D \<le> x" "x < D + PAGE_SIZE" for x
    using that ap(1) out [of x] by (auto simp: m' m3_def pg_copy_def foo_apart_def D_def)
  have "m' x = m x" if "dir_zi \<le> x" "x < dir_zi + zi_sz L" for x
    using that ap(2,3) out [of x] out2 [of x] by (auto simp: m' m3_def pg_copy_def foo_apart_def D_def)
  then have "foo_dir L dir_zi m' = D" unfolding foo_dir_def D_def by (subst foo_ino_cong [OF L, of dir_zi m' m]) auto
  moreover have "\<not> strncmp_eq (ent_name (D + 24 * j) m') (str_name str) (str_len str)" if "j < 170" for j
    by (rule strncmp_eq_nul) (use page [of "D + 24 * j + 8"] that str in \<open>simp_all add: ent_name_def\<close>)
  ultimately have "find_de L dir_zi str m' = None" by (auto simp: find_de_def find_None_iff)
  then show ?thesis by (simp add: foofs_lookup_def)
qed

text \<open>The inode of number 32 lies at the start of the page of the root directory.\<close>

lemma foofs_overlap:
  assumes "zi_sz L = 128" "\<And>n. foo_baddr L n = base + n * PAGE_SIZE"
  shows "find_zi L 32 = foo_baddr L (FOOFS_ROOT_NO + 1)"
  by (simp add: find_zi_def assms)

end
