(* ===== verification/ZusMain.thy ===== *)
theory ZusMain
  imports Printz SlabMalloc Fba ZtPool FsLoader
begin

unbundle bit_operations_syntax

text \<open>
  The process: the options of the command line (\<open>main.c\<close>), the limit of open files (\<open>utils.c\<close>), the signal handlers (\<open>signals.c\<close>), and the start and the end of the mount
  thread (\<open>zus-core.c\<close>). The state of the process collects the globals of these files and what the other components keep. \<open>getopt_long\<close> and the system calls
  are parameters; what the mount thread has done to pool and loader when it ends is the parameter \<open>e_mounter\<close>.
\<close>

section \<open>Numbers\<close>

text \<open>
  \<open>strtol\<close>: white space, a sign, with base 0 a prefix that chooses the base, digits; the value saturates. \<open>atol\<close> is \<open>strtol\<close> with base 10, \<open>atoi\<close> its lowest
  32 bits.
\<close>

definition digit_of :: "char \<Rightarrow> nat option" where
  "digit_of c =
    (let n = of_char c :: nat in
     if 48 \<le> n \<and> n < 58 then Some (n - 48) else if 65 \<le> n \<and> n < 91 then Some (n - 55) else if 97 \<le> n \<and> n < 123 then Some (n - 87) else None)"

definition digit_in :: "nat \<Rightarrow> char \<Rightarrow> bool" where
  "digit_in base c = (case digit_of c of None \<Rightarrow> False | Some d \<Rightarrow> d < base)"

definition number_in :: "nat \<Rightarrow> string \<Rightarrow> nat" where
  "number_in base = foldl (\<lambda>n c. base * n + the (digit_of c)) 0"

definition strtol_base :: "nat \<Rightarrow> string \<Rightarrow> nat \<times> string" where
  "strtol_base base s =
    (if base \<noteq> 0 then (base, s)
     else case s of
       c # x # d # cs \<Rightarrow>
         if c = CHR ''0'' \<and> x \<in> {CHR ''x'', CHR ''X''} \<and> digit_in 16 d then (16, d # cs) else (if c = CHR ''0'' then 8 else 10, s)
     | c # cs \<Rightarrow> (if c = CHR ''0'' then 8 else 10, s)
     | [] \<Rightarrow> (10, s))"

definition strtol :: "nat \<Rightarrow> string \<Rightarrow> int" where
  "strtol base str =
    (let s1 = dropWhile isspace str;
         neg = (s1 \<noteq> [] \<and> hd s1 = CHR ''-'');
         s2 = (if s1 \<noteq> [] \<and> (hd s1 = CHR ''-'' \<or> hd s1 = CHR ''+'') then tl s1 else s1);
         (b, s3) = strtol_base base s2;
         v = int (number_in b (takeWhile (digit_in b) s3))
     in if neg then max (- (2 ^ 63)) (- v) else min (2 ^ 63 - 1) v)"

definition atol :: "string \<Rightarrow> int" where
  "atol s = strtol 10 s"

definition atoi :: "string \<Rightarrow> int" where
  "atoi s = sint (word_of_int (strtol 10 s) :: 32 word)"

section \<open>The options\<close>

datatype sched_policy = SCHED_OTHER | SCHED_FIFO | SCHED_RR

record main_tp =
  policy :: sched_policy
  rr_priority :: int
  mtp_one_cpu :: "nat option"
  mtp_nid :: "nat option"

definition ztp_init :: main_tp where
  "ztp_init = \<lparr>policy = SCHED_OTHER, rr_priority = 0, mtp_one_cpu = None, mtp_nid = None\<rparr>"

definition params_of :: "main_tp \<Rightarrow> zus_thread_params" where
  "params_of tp = \<lparr>tp_other = (policy tp = SCHED_OTHER), tp_one_cpu = mtp_one_cpu tp, tp_nid = mtp_nid tp\<rparr>"

record main_opts =
  o_tp :: main_tp
  g_DBGMASK :: "64 word"
  g_mlock :: int
  o_mcheck :: bool
  o_pa_size :: int

text \<open>One round of the loop: the character that \<open>getopt_long\<close> has returned, and \<open>optarg\<close>.\<close>

definition set_policy :: "sched_policy \<Rightarrow> string option \<Rightarrow> main_opts \<Rightarrow> main_opts" where
  "set_policy p optarg st =
    (let tp = (o_tp st)\<lparr>policy := p\<rparr> in st\<lparr>o_tp := (case optarg of None \<Rightarrow> tp | Some a \<Rightarrow> tp\<lparr>rr_priority := atoi a\<rparr>)\<rparr>)"

definition main_opt :: "char \<times> string option \<Rightarrow> main_opts \<Rightarrow> main_opts" where
  "main_opt op st =
    (let (c, optarg) = op in
     if c = CHR ''r'' then set_policy SCHED_RR optarg st
     else if c = CHR ''f'' then set_policy SCHED_FIFO optarg st
     else if c = CHR ''n'' then set_policy SCHED_OTHER optarg st
     else if c = CHR ''d'' then st\<lparr>g_DBGMASK := (case optarg of Some a \<Rightarrow> word_of_int (strtol 0 a) | None \<Rightarrow> 1)\<rparr>
     else if c = CHR ''l'' then (case optarg of Some a \<Rightarrow> st\<lparr>g_mlock := atoi a\<rparr> | None \<Rightarrow> st)
     else if c = CHR ''m'' then st\<lparr>o_mcheck := True\<rparr>
     else if c = CHR ''p'' then (case optarg of Some a \<Rightarrow> st\<lparr>o_pa_size := atol a\<rparr> | None \<Rightarrow> st)
     else st)"

abbreviation (input) MLOCK_CURRENT :: int where "MLOCK_CURRENT \<equiv> 1"
abbreviation (input) MLOCK_ALL :: int where "MLOCK_ALL \<equiv> 2"
abbreviation (input) MCL_CURRENT :: "32 word" where "MCL_CURRENT \<equiv> 1"
abbreviation (input) MCL_FUTURE :: "32 word" where "MCL_FUTURE \<equiv> 2"

definition main_opts_init :: main_opts where
  "main_opts_init = \<lparr>o_tp = ztp_init, g_DBGMASK = 0, g_mlock = MLOCK_CURRENT, o_mcheck = False, o_pa_size = 0\<rparr>"

definition mlock_flags :: "int \<Rightarrow> 32 word" where
  "mlock_flags v = (if v = MLOCK_ALL then MCL_CURRENT OR MCL_FUTURE else if v = MLOCK_CURRENT then MCL_CURRENT else 0)"

section \<open>Signals\<close>

datatype sig = SIGHUP | SIGINT | SIGQUIT | SIGILL | SIGTRAP | SIGABRT | SIGBUS | SIGFPE | SIGKILL | SIGUSR1 | SIGSEGV | SIGUSR2
  | SIGPIPE | SIGALRM | SIGTERM | SIGSTKFLT | SIGCHLD | SIGCONT | SIGSTOP | SIGTSTP | SIGTTIN | SIGTTOU | SIGURG | SIGXCPU | SIGXFSZ
  | SIGVTALRM | SIGPROF | SIGWINCH | SIGIO | SIGPWR | SIGSYS

datatype sig_handler = Info | Exit | Abort | Sigbus

text \<open>\<open>sigaction\<close> refuses \<open>SIGKILL\<close> and \<open>SIGSTOP\<close>; its result is not looked at.\<close>

definition sigaction :: "sig \<Rightarrow> sig_handler \<Rightarrow> (sig \<Rightarrow> sig_handler option) \<Rightarrow> sig \<Rightarrow> sig_handler option" where
  "sigaction s h t = (if s = SIGKILL \<or> s = SIGSTOP then t else t(s := Some h))"

definition sigaction_info :: "sig \<Rightarrow> (sig \<Rightarrow> sig_handler option) \<Rightarrow> sig \<Rightarrow> sig_handler option" where
  "sigaction_info s t = sigaction s Info t"

definition sigaction_exit :: "sig \<Rightarrow> (sig \<Rightarrow> sig_handler option) \<Rightarrow> sig \<Rightarrow> sig_handler option" where
  "sigaction_exit s t = sigaction s Exit t"

definition sigaction_abort :: "sig \<Rightarrow> (sig \<Rightarrow> sig_handler option) \<Rightarrow> sig \<Rightarrow> sig_handler option" where
  "sigaction_abort s t = sigaction s Abort t"

definition sigaction_sigbus :: "sig \<Rightarrow> (sig \<Rightarrow> sig_handler option) \<Rightarrow> sig \<Rightarrow> sig_handler option" where
  "sigaction_sigbus s t = sigaction s Sigbus t"

definition zus_register_sigactions :: "(sig \<Rightarrow> sig_handler option) \<Rightarrow> sig \<Rightarrow> sig_handler option" where
  "zus_register_sigactions t =
    (let t = sigaction_info SIGHUP t; t = sigaction_exit SIGINT t; t = sigaction_exit SIGQUIT t; t = sigaction_abort SIGILL t;
         t = sigaction_info SIGTRAP t; t = sigaction_sigbus SIGBUS t; t = sigaction_abort SIGFPE t; t = sigaction_abort SIGKILL t;
         t = sigaction_exit SIGUSR1 t; t = sigaction_abort SIGSEGV t; t = sigaction_info SIGUSR2 t; t = sigaction_info SIGPIPE t;
         t = sigaction_info SIGALRM t; t = sigaction_exit SIGTERM t; t = sigaction_abort SIGSTKFLT t; t = sigaction_info SIGCHLD t;
         t = sigaction_info SIGCONT t; t = sigaction_exit SIGSTOP t; t = sigaction_exit SIGTSTP t; t = sigaction_exit SIGTTIN t;
         t = sigaction_exit SIGTTOU t; t = sigaction_info SIGURG t; t = sigaction_exit SIGXCPU t; t = sigaction_exit SIGXFSZ t;
         t = sigaction_exit SIGVTALRM t; t = sigaction_info SIGPROF t; t = sigaction_info SIGWINCH t; t = sigaction_info SIGIO t;
         t = sigaction_exit SIGPWR t
     in sigaction_exit SIGSYS t)"

section \<open>The process\<close>

record zus_proc =
  p_locked :: "32 word"                          \<comment> \<open>the flags of \<open>mlockall\<close>\<close>
  p_handlers :: "sig \<Rightarrow> sig_handler option"
  p_rlimit :: "nat \<times> nat"                        \<comment> \<open>\<open>rlim_cur\<close>, \<open>rlim_max\<close>\<close>
  p_pa_size :: nat                               \<comment> \<open>\<open>g_pa_size\<close>\<close>
  p_gsa :: gsa_ptr
  p_root_path :: string                          \<comment> \<open>\<open>g_zus_root_path_stor\<close>\<close>
  m_tp :: main_tp                                \<comment> \<open>\<open>g_mount.tp\<close>\<close>
  m_zbt :: zus_base_thread                       \<comment> \<open>\<open>g_mount.zbt\<close>\<close>
  m_stop :: bool                                 \<comment> \<open>\<open>g_mount.stop\<close>\<close>
  m_joined :: bool                               \<comment> \<open>the thread has been joined\<close>
  p_pool :: zt_pool                              \<comment> \<open>\<open>g_ztp\<close>\<close>
  p_loader :: loader

text \<open>
  \<open>e_errnum\<close> is the number that is returned for an error of \<open>zus_slab_init\<close>; \<open>e_zt\<close> and \<open>e_sched\<close> are results of calls and schedule of the server threads.
\<close>

record main_env =
  e_mlockall :: int
  e_getrlimit :: int                             \<comment> \<open>0, or \<open>errno\<close> of the failure\<close>
  e_setrlimit :: int
  e_pa_env :: "nat option"
  e_p_size :: int
  e_pages :: int
  e_errno :: int
  e_memalign :: "errno option"
  e_nprocs :: nat
  e_pa_sbi :: "zus_sb_info result"
  e_errnum :: "errno \<Rightarrow> int"
  e_pthread :: pthread_env
  e_topology :: zus_topology
  e_zt :: "nat \<Rightarrow> nat \<Rightarrow> zt_env"
  e_sched :: schedule
  e_mounter :: "zt_pool \<times> loader \<Rightarrow> zt_pool \<times> loader"

abbreviation (input) ZUS_MAX_FILES :: nat where "ZUS_MAX_FILES \<equiv> 65536"
abbreviation (input) PATH_MAX :: nat where "PATH_MAX \<equiv> 4096"
abbreviation (input) ZUF_DEF_PATH :: string where "ZUF_DEF_PATH \<equiv> ''/sys/fs/zuf''"

definition zus_increase_max_files :: "main_env \<Rightarrow> zus_proc \<Rightarrow> int \<times> zus_proc" where
  "zus_increase_max_files e s =
    (if e_getrlimit e \<noteq> 0 then (- e_getrlimit e, s)
     else
       let (cur, mx) = p_rlimit s;
           cur = (if cur < ZUS_MAX_FILES then ZUS_MAX_FILES else cur);
           mx = (if mx < ZUS_MAX_FILES then ZUS_MAX_FILES else mx)
       in if e_setrlimit e \<noteq> 0 then (- e_setrlimit e, s) else (0, s\<lparr>p_rlimit := (cur, mx)\<rparr>))"

text \<open>A path that is not shorter than the array is cut; the last byte of the array stays 0.\<close>

definition zus_init_zuf :: "string option \<Rightarrow> zus_proc \<Rightarrow> zus_proc" where
  "zus_init_zuf zuf_path s =
    (let path = (case zuf_path of Some p \<Rightarrow> p | None \<Rightarrow> ZUF_DEF_PATH) in s\<lparr>p_root_path := take (PATH_MAX - 1) path\<rparr>)"

definition zus_mount_thread_start :: "main_env \<Rightarrow> main_tp \<Rightarrow> string option \<Rightarrow> zus_proc \<Rightarrow> int \<times> zus_proc" where
  "zus_mount_thread_start e tp zuf_path s =
    (let s = (zus_init_zuf zuf_path s)\<lparr>m_tp := tp\<rparr>;
         (err, aff, zbt) = thread_create (e_pthread e) (e_topology e) (params_of ztp_init) (m_zbt s)
     in if err \<noteq> 0 then (err, s\<lparr>m_zbt := zbt\<rparr>)
        else (0, s\<lparr>m_zbt := zbt\<lparr>one_cpu := Some 0, nid := Some 0\<rparr>, m_joined := False\<rparr>))"

text \<open>
  To join a thread that has been joined before is undefined. The thread has ended when \<open>pthread_join\<close> returns.
\<close>

definition pthread_join :: "main_env \<Rightarrow> zus_proc \<Rightarrow> zus_proc run" where
  "pthread_join e s =
    (if m_joined s \<or> \<not> zbt_thread (m_zbt s) then None
     else let (pool, l) = e_mounter e (p_pool s, p_loader s) in Some (s\<lparr>m_joined := True, p_pool := pool, p_loader := l\<rparr>))"

definition zus_join :: "main_env \<Rightarrow> zus_proc \<Rightarrow> zus_proc run" where
  "zus_join e s = pthread_join e s"

definition zus_mount_thread_stop :: "main_env \<Rightarrow> zus_proc \<Rightarrow> zus_proc run" where
  "zus_mount_thread_stop e s = do {
     pool \<leftarrow> zus_stop_all_threads (e_zt e) (e_sched e) (p_pool s);
     let s = s\<lparr>p_pool := pool, m_stop := True\<rparr>;
     s \<leftarrow> (if zbt_thread (m_zbt s) then pthread_join e s else Some s);
     Some (s\<lparr>m_zbt := (m_zbt s)\<lparr>zbt_thread := False\<rparr>, p_loader := zus_unregister_all (p_loader s)\<rparr>) }"

text \<open>The handler of the signals that end the process: its exit status and the state at the exit.\<close>

definition sigaction_exit_handler :: "main_env \<Rightarrow> sig \<Rightarrow> zus_proc \<Rightarrow> (int \<times> zus_proc) run" where
  "sigaction_exit_handler e signum s = do {
     s \<leftarrow> zus_mount_thread_stop e s;
     Some (if signum = SIGTERM then 0 else 1, s) }"

text \<open>What \<open>main\<close> sets up before it starts the mount thread, with the first error.\<close>

definition main_setup :: "main_env \<Rightarrow> main_opts \<Rightarrow> zus_proc \<Rightarrow> int \<times> zus_proc" where
  "main_setup e st s =
    (let flags = mlock_flags (g_mlock st) in
     if flags \<noteq> 0 \<and> e_mlockall e \<noteq> 0 then (e_mlockall e, s)
     else
       let s = s\<lparr>p_locked := flags, p_handlers := zus_register_sigactions (p_handlers s)\<rparr>;
           (err, s) = zus_increase_max_files e s
       in if err \<noteq> 0 then (err, s)
     else
       let (err, n) = zus_setup_pa_size (cast_size (o_pa_size st)) (e_pa_env e) (e_p_size e) (e_pages e) (e_errno e) (p_pa_size s);
           s = s\<lparr>p_pa_size := n\<rparr>
       in if err \<noteq> 0 then (err, s)
     else case zus_slab_init (e_memalign e) (e_nprocs e) (e_pa_sbi e) (p_gsa s) of
         (Inl er, gsa) \<Rightarrow> (e_errnum e er, s\<lparr>p_gsa := gsa\<rparr>)
       | (Inr _, gsa) \<Rightarrow> (0, s\<lparr>p_gsa := gsa\<rparr>))"

text \<open>\<open>ops\<close> are the options, \<open>args\<close> the arguments that \<open>getopt_long\<close> has left over.\<close>

definition zus_main :: "main_env \<Rightarrow> (char \<times> string option) list \<Rightarrow> string list \<Rightarrow> zus_proc \<Rightarrow> (int \<times> zus_proc) run" where
  "zus_main e ops args s =
    (let st = fold main_opt ops main_opts_init;
         path = (if length args = 1 then Some (args ! 0) else None)
     in if length args > 1 then Some (1, s)
     else let (err, s) = main_setup e st s in
       if err \<noteq> 0 then Some (err, s)
       else let (err, s) = zus_mount_thread_start e (o_tp st) path s in
         if err \<noteq> 0 then do { s \<leftarrow> zus_mount_thread_stop e s; Some (err, s) }
         else do { s \<leftarrow> zus_join e s; s \<leftarrow> zus_mount_thread_stop e s; Some (0, s) })"

section \<open>Numbers are read back\<close>

lemma digit_ten: "digit_in 10 c = is_digit c" "is_digit c \<Longrightarrow> the (digit_of c) = of_char c - 48"
  by (auto simp: digit_in_def digit_of_def is_digit_def Let_def)

lemma number_in_ten: "list_all is_digit ds \<Longrightarrow> number_in 10 ds = digits_val ds"
  unfolding number_in_def digits_val_def by (induction ds rule: rev_induct) (auto simp: digit_ten(2))

theorem atoi_dec_digits:
  assumes "n < 2 ^ 31"
  shows "atoi (dec_digits n) = int n" "atoi (CHR ''-'' # dec_digits n) = - int n" "atol (dec_digits n) = int n"
proof -
  obtain c cs where d: "dec_digits n = c # cs" using dec_digits_not_Nil [of n] by (cases "dec_digits n") auto
  have "is_digit c" using dec_digits_is_digit [of n] d by simp
  note c = digit_not_special [OF this]
  have v: "number_in 10 (takeWhile (digit_in 10) (dec_digits n)) = n"
    unfolding digit_ten(1) [abs_def] takeWhile_dec(1) number_in_ten [OF dec_digits_is_digit] by (rule digits_val_dec)
  have s: "dropWhile isspace (dec_digits n) = dec_digits n" "hd (dec_digits n) \<noteq> CHR ''-''" "hd (dec_digits n) \<noteq> CHR ''+''" using c d by simp_all
  have p: "strtol 10 (dec_digits n) = int n" using assms s v by (simp add: strtol_def strtol_base_def Let_def)
  have m: "strtol 10 (CHR ''-'' # dec_digits n) = - int n" using assms v by (simp add: strtol_def strtol_base_def Let_def isspace_def)
  have sint_word: "sint (word_of_int k :: 32 word) = k" if "k = int n \<or> k = - int n" for k
    unfolding sint_sbintrunc' by (rule signed_take_bit_int_eq_self) (use that assms in auto)
  show "atol (dec_digits n) = int n" by (simp add: atol_def p)
  show "atoi (dec_digits n) = int n" "atoi (CHR ''-'' # dec_digits n) = - int n"
    unfolding atoi_def p m by (rule sint_word, simp)+
qed

section \<open>Options\<close>

text \<open>The policy is that of the last of the three options, the priority that of the last one with an argument.\<close>

definition policy_of :: "char \<Rightarrow> sched_policy option" where
  "policy_of c = (if c = CHR ''r'' then Some SCHED_RR else if c = CHR ''f'' then Some SCHED_FIFO else if c = CHR ''n'' then Some SCHED_OTHER else None)"

lemma main_opt_tp:
  "o_tp (main_opt (c, a) st) = (case policy_of c of None \<Rightarrow> o_tp st
    | Some p \<Rightarrow> (o_tp st)\<lparr>policy := p, rr_priority := (case a of None \<Rightarrow> rr_priority (o_tp st) | Some x \<Rightarrow> atoi x)\<rparr>)"
  by (auto simp: main_opt_def policy_of_def set_policy_def Let_def split: option.splits)

lemma map_filter_snoc: "List.map_filter f (xs @ [x]) = List.map_filter f xs @ (case f x of None \<Rightarrow> [] | Some y \<Rightarrow> [y])"
  by (simp add: List.map_filter_def split: option.splits)

theorem last_policy_catches:
  "policy (o_tp (fold main_opt ops st)) = last (policy (o_tp st) # List.map_filter (\<lambda>(c, a). policy_of c) ops)"
  "rr_priority (o_tp (fold main_opt ops st)) =
    last (rr_priority (o_tp st) # List.map_filter (\<lambda>(c, a). if policy_of c = None then None else map_option atoi a) ops)"
proof (induction ops rule: rev_induct)
  case (snoc x xs)
  obtain c a where x: "x = (c, a)" by force
  note steps = map_filter_snoc x main_opt_tp fold_append fold.simps comp_apply id_apply
  { case 1 show ?case using snoc(1) by (simp add: steps split: option.splits) }
  { case 2 show ?case using snoc(2) by (simp add: steps split: option.splits) }
qed (simp_all add: List.map_filter_def)

text \<open>
  The text of \<open>usage\<close> says that \<open>SCHED_FIFO\<close> with priority 20 is the default, and 20 the default priority. The code has \<open>SCHED_OTHER\<close> and 0.
\<close>

theorem default_policy_is_other:
  "o_tp (fold main_opt [] main_opts_init) = ztp_init" "policy ztp_init = SCHED_OTHER"
  "rr_priority (o_tp (fold main_opt [(CHR ''f'', None)] main_opts_init)) = 0"
  by (simp_all add: main_opts_init_def main_opt_tp policy_of_def) (simp_all add: ztp_init_def)

section \<open>Limits and signals\<close>

theorem zus_increase_max_files_raises:
  assumes "zus_increase_max_files e s = (0, s')" "p_rlimit s = (c, x)" "p_rlimit s' = (c', x')"
  shows "c' = max c 65536 \<and> x' = max x 65536"
  using assms by (auto simp: zus_increase_max_files_def Let_def split: if_splits)

text \<open>Only \<open>SIGABRT\<close>, which must not be caught, and the two signals that cannot be caught have no handler.\<close>

theorem zus_register_sigactions_all: "(zus_register_sigactions (\<lambda>_. None) s = None) = (s \<in> {SIGABRT, SIGKILL, SIGSTOP})"
  by (cases s) (simp_all add: zus_register_sigactions_def sigaction_info_def sigaction_exit_def sigaction_abort_def sigaction_sigbus_def sigaction_def Let_def)

section \<open>Start and end\<close>

definition fresh_proc :: "zus_proc \<Rightarrow> bool" where
  "fresh_proc s = (\<not> zbt_thread (m_zbt s) \<and> \<not> m_joined s \<and> loaded 0 (p_loader s) \<and> zts (p_pool s) = (\<lambda>_. None) \<and> p_gsa s = None)"

text \<open>Everything that \<open>main\<close> does before it starts the mount thread succeeds.\<close>

definition main_prepares :: "main_env \<Rightarrow> main_opts \<Rightarrow> zus_proc \<Rightarrow> bool" where
  "main_prepares e st s =
    ((mlock_flags (g_mlock st) = 0 \<or> e_mlockall e = 0) \<and> e_getrlimit e = 0 \<and> e_setrlimit e = 0 \<and>
     fst (zus_setup_pa_size (cast_size (o_pa_size st)) (e_pa_env e) (e_p_size e) (e_pages e) (e_errno e) (p_pa_size s)) = 0 \<and>
     e_memalign e = None \<and> (\<exists>sbi. e_pa_sbi e = Inr sbi))"

lemma unregister_closes: "loaded k l \<Longrightarrow> dl_open (zus_unregister_all l) = {#}"
  using unload_all [of "g_dl_list l" "l\<lparr>ddb := zus_free_ddbg_db (ddb l)\<rparr>"] by (simp add: zus_unregister_all_def loaded_def)

lemma stop_all_empty:
  assumes "zts p = (\<lambda>_. None)"
  shows "\<exists>p'. zus_stop_all_threads e sch p = Some p' \<and> zts p' = (\<lambda>_. None)"
proof -
  have "stop_chans e sch cs p = Some p" for cs by (induction cs) (simp_all add: zus_stop_chan_threads_def assms)
  then show ?thesis by (simp add: zus_stop_all_threads_def zeroed_pool_def)
qed

lemma thread_create_thread:
  assumes "thread_create env t tp zbt = (err, aff, zbt')" "\<not> zbt_thread zbt"
  shows "zbt_thread zbt' = (err = 0)"
  using assms
  by (auto simp: thread_create_def thread_fail_def thread_affinity_def errno_UtoK_def zus_set_numa_affinity_def Let_def split: if_splits option.splits)

text \<open>
  The end of a running server by a signal, if the stop of the server threads comes to an end: the mount thread is joined once, behind that stop, all libraries that the mount
  thread has left open are closed, and the exit status is 0 for \<open>SIGTERM\<close> only.
\<close>

theorem exit_handler_stops:
  assumes "zbt_thread (m_zbt s)" "\<not> m_joined s" "zus_stop_all_threads (e_zt e) (e_sched e) (p_pool s) = Some p" "e_mounter e (p, p_loader s) = (pool, l)" "loaded k l"
  shows "\<exists>s'. sigaction_exit_handler e signum s = Some (if signum = SIGTERM then 0 else 1, s') \<and> \<not> zbt_thread (m_zbt s') \<and> m_joined s' \<and> m_stop s' \<and>
    p_pool s' = pool \<and> dl_open (p_loader s') = {#}"
  using assms unregister_closes by (auto simp: sigaction_exit_handler_def zus_mount_thread_stop_def pthread_join_def Let_def)

text \<open>
  A second stop, as the handler does when a signal arrives again after \<open>zus_mount_thread_stop\<close>, joins nothing but the server threads that may have been started meanwhile.
\<close>

theorem stop_twice:
  assumes "zus_mount_thread_stop e s = Some s1" "zus_stop_all_threads (e_zt e) (e_sched e) (p_pool s1) \<noteq> None"
  shows "\<exists>s2. zus_mount_thread_stop e s1 = Some s2 \<and> m_joined s2 = m_joined s1"
proof -
  have "\<not> zbt_thread (m_zbt s1)" using assms(1) by (auto simp: zus_mount_thread_stop_def Let_def split: bind_splits)
  then show ?thesis using assms(2) by (auto simp: zus_mount_thread_stop_def Let_def)
qed

definition idle :: "zus_proc \<Rightarrow> bool" where
  "idle s = (\<not> zbt_thread (m_zbt s) \<and> zts (p_pool s) = (\<lambda>_. None) \<and> dl_open (p_loader s) = {#})"

lemma fresh_idle:
  assumes "fresh_proc s"
  shows "idle s"
proof -
  have "\<forall>x \<in> set (g_dl_list (p_loader s)). x = None" "dl_open (p_loader s) = mset (handles (g_dl_list (p_loader s)))"
    using assms by (auto simp: fresh_proc_def loaded_def in_set_conv_nth)
  moreover have "\<forall>x \<in> set hs. x = None \<Longrightarrow> handles hs = []" for hs by (induction hs) auto
  ultimately show ?thesis using assms by (simp add: idle_def fresh_proc_def)
qed

text \<open>The last part of \<open>main\<close>: start, wait and stop.\<close>

lemma main_run:
  assumes "\<not> zbt_thread (m_zbt s)" "\<not> m_joined s" "loaded 0 (p_loader s)" "zts (p_pool s) = (\<lambda>_. None)"
  shows "case zus_mount_thread_start e tp path s of (err, s1) \<Rightarrow>
    if err \<noteq> 0 then \<exists>s2. zus_mount_thread_stop e s1 = Some s2 \<and> idle s2
    else Option.bind (zus_join e s1) (zus_mount_thread_stop e) = None \<and>
      fst (thread_create (e_pthread e) (e_topology e) (params_of ztp_init) (m_zbt s)) = 0"
proof -
  obtain err aff zbt where tc: "thread_create (e_pthread e) (e_topology e) (params_of ztp_init) (m_zbt s) = (err, aff, zbt)" by (metis prod_cases3)
  note th = thread_create_thread [OF tc assms(1)]
  note D = zus_mount_thread_start_def zus_init_zuf_def zus_join_def zus_mount_thread_stop_def pthread_join_def
  show ?thesis
  proof (cases "err = 0")
    case True
    with th tc assms show ?thesis by (auto simp: D Let_def split: prod.splits bind_splits)
  next
    case False
    with th tc assms unregister_closes [OF assms(3)] stop_all_empty [OF assms(4), of "e_zt e" "e_sched e"] show ?thesis by (auto simp: D Let_def idle_def)
  qed
qed

text \<open>The setup leaves thread, pool and loader alone.\<close>

lemma main_setup_spec:
  assumes run: "main_setup e st s = (err, s1)" and f: "fresh_proc s" and num: "\<And>er. e_errnum e er \<noteq> 0"
  shows "err = 0 \<longleftrightarrow> main_prepares e st s" "m_zbt s1 = m_zbt s" "m_joined s1 = m_joined s" "p_pool s1 = p_pool s" "p_loader s1 = p_loader s"
proof -
  define flags where "flags = mlock_flags (g_mlock st)"
  define s0 where "s0 = s\<lparr>p_locked := flags, p_handlers := zus_register_sigactions (p_handlers s)\<rparr>"
  obtain e1 s2 where i: "zus_increase_max_files e s0 = (e1, s2)" by force
  have s2: "e1 = 0 \<longleftrightarrow> e_getrlimit e = 0 \<and> e_setrlimit e = 0" "m_zbt s2 = m_zbt s" "m_joined s2 = m_joined s" "p_pool s2 = p_pool s" "p_loader s2 = p_loader s"
    "p_pa_size s2 = p_pa_size s" "p_gsa s2 = None"
    using i f by (auto simp: zus_increase_max_files_def s0_def fresh_proc_def Let_def split: if_splits prod.splits)
  obtain e2 n where pa: "zus_setup_pa_size (cast_size (o_pa_size st)) (e_pa_env e) (e_p_size e) (e_pages e) (e_errno e) (p_pa_size s) = (e2, n)" by force
  obtain r gsa where sl: "zus_slab_init (e_memalign e) (e_nprocs e) (e_pa_sbi e) None = (r, gsa)" by force
  have r: "r = Inr () \<longleftrightarrow> e_memalign e = None \<and> (\<exists>sbi. e_pa_sbi e = Inr sbi)"
    using sl by (auto simp: zus_slab_init_def split: option.splits sum.splits)
  have m: "main_setup e st s =
    (if flags \<noteq> 0 \<and> e_mlockall e \<noteq> 0 then (e_mlockall e, s) else if e1 \<noteq> 0 then (e1, s2) else if e2 \<noteq> 0 then (e2, s2\<lparr>p_pa_size := n\<rparr>)
     else case r of Inl er \<Rightarrow> (e_errnum e er, s2\<lparr>p_pa_size := n, p_gsa := gsa\<rparr>) | Inr _ \<Rightarrow> (0, s2\<lparr>p_pa_size := n, p_gsa := gsa\<rparr>))"
    unfolding main_setup_def Let_def flags_def [symmetric] s0_def [symmetric] i prod.case s2(6) pa by (simp add: s2(7) sl)
  have p: "main_prepares e st s \<longleftrightarrow> (flags = 0 \<or> e_mlockall e = 0) \<and> e1 = 0 \<and> e2 = 0 \<and> r = Inr ()"
    by (simp add: main_prepares_def flags_def [symmetric] s2(1) pa r)
  show "err = 0 \<longleftrightarrow> main_prepares e st s" unfolding p using run m num by (cases r) (auto split: if_splits)
  show "m_zbt s1 = m_zbt s" "m_joined s1 = m_joined s" "p_pool s1 = p_pool s" "p_loader s1 = p_loader s"
    using run m s2(2-5) by (cases r; auto split: if_splits)+
qed

text \<open>
  The outcome of \<open>main\<close> in a fresh process. When a step fails, the status is not 0, no thread runs and no library is open. When the mount thread was started, its
  normal end is not well defined: \<open>zus_join\<close> joins the thread and leaves its handle, and \<open>zus_mount_thread_stop\<close> joins it again.
\<close>

theorem zus_main_outcome:
  assumes f: "fresh_proc s" and num: "\<And>er. e_errnum e er \<noteq> 0" and st: "st = fold main_opt ops main_opts_init"
  shows "case zus_main e ops args s of
      None \<Rightarrow> length args \<le> 1 \<and> main_prepares e st s \<and> fst (thread_create (e_pthread e) (e_topology e) (params_of ztp_init) (m_zbt s)) = 0
    | Some (err, s') \<Rightarrow> err \<noteq> 0 \<and> idle s'"
proof (cases "length args \<le> 1")
  case True
  obtain err s1 where su: "main_setup e st s = (err, s1)" by force
  note S = main_setup_spec [OF su f num]
  note I = fresh_idle [OF f] f [unfolded fresh_proc_def]
  define path where "path = (if length args = 1 then Some (args ! 0) else None)"
  obtain err2 s2 where ms: "zus_mount_thread_start e (o_tp st) path s1 = (err2, s2)" by force
  have m: "zus_main e ops args s = (if err \<noteq> 0 then Some (err, s1)
      else if err2 \<noteq> 0 then do { s \<leftarrow> zus_mount_thread_stop e s2; Some (err2, s) }
      else do { s \<leftarrow> Option.bind (zus_join e s2) (zus_mount_thread_stop e); Some (0, s) })"
    unfolding zus_main_def Let_def st [symmetric] path_def [symmetric] su prod.case ms using True by (simp add: bind_assoc)
  have R: "if err2 \<noteq> 0 then \<exists>s3. zus_mount_thread_stop e s2 = Some s3 \<and> idle s3
    else Option.bind (zus_join e s2) (zus_mount_thread_stop e) = None \<and> fst (thread_create (e_pthread e) (e_topology e) (params_of ztp_init) (m_zbt s)) = 0"
    using main_run [of s1 e "o_tp st" path, unfolded S(2-5)] I(2) ms by simp
  have "idle s1" using I(1) S(2-5) by (simp add: idle_def)
  then show ?thesis using m R S(1) True by (auto split: if_splits)
next
  case False
  then show ?thesis using fresh_idle [OF f] by (simp add: zus_main_def Let_def)
qed

end
