(* ===== verification/Spec2Isabelle.thy ===== *)
theory Spec2Isabelle
  imports DList FileClone InodeLife SlabFini MdTable ToyXattr Vfs ToyMmap ZtPool FsLoader Fba MovNt Mkfs FooFs ZusMain
begin

text \<open>
  A verification of ZUS, the user space server of ZUFS, and of its file system toyfs.

  \<^bold>\<open>The program.\<close> ZUFS moves file systems from the kernel into the process \<open>zus\<close>. The kernel part sends commands
  through a device file. \<open>zus-core.c\<close> starts a mount thread and, with the first mount, one server thread per online CPU and channel; a server
  thread waits for a command and gives it to \<open>zus_do_command\<close> of \<open>zus-vfs.c\<close>, which calls the operation of the file system the command is for.
  File systems are shared libraries (\<open>fs-loader.c\<close>); foofs (\<open>fs/foofs/\<close>), a small example, and toyfs (\<open>fs/toyfs/\<close>) are two of them. toyfs keeps files and directories in
  persistent memory that is mapped into the process; the devices behind the memory are described by a device table (\<open>md_zus.c\<close>). Data that is not
  in memory is transferred by I/O maps (\<open>iom_enc.h\<close>). The process has its own page allocator (\<open>pa.c\<close>) and slab
  allocator (\<open>slab.c\<close>), lists (\<open>a_list.h\<close>), copies to persistent memory (\<open>nvml_movnt.c\<close>) and dynamic debug messages (\<open>printz.c\<close>).

  \<^bold>\<open>How the code is modelled.\<close> A C function is a function of the same name (without a leading underscore; a name that HOL or another file already has is
  changed as little as possible). It takes its arguments and the state and returns its result and the new state. A loop is a recursive function
  named after it. An error code is a value of \<open>errno + 'a\<close>, or an \<open>int\<close> where the code computes with it. A failed assertion, a NULL
  dereference and an access outside an array are \<open>None\<close> of the type \<open>'a run\<close>: a theorem that gives \<open>Some\<close> shows that none of them happens.
  \<open>loff_t\<close> is \<open>int\<close>; \<open>size_t\<close> is \<open>nat\<close> with the conversions and the wrap-around of \<open>Prelude\<close> (\<open>cast_loff\<close>, \<open>cast_size\<close>,
  \<open>size_add\<close>, \<open>size_sub\<close>); flag words, modes, reference counts and checksums are words of their width. Signed division is \<open>sdiv\<close> and \<open>smod\<close>.
  A heap is a function from addresses, one for each type of object; where objects of different types share memory (directory pages, attributes, foofs) it has bytes. Locks are not modelled, and what a lock protects is one step; the
  places where the code is concurrent without a lock have their own models: the compare-and-exchange loop of a reference count (\<open>ZusStd\<close>), the counter of the
  starting threads (\<open>ZusCore\<close>), and the start and stop of all threads under a schedule (\<open>ZtPool\<close>). There \<open>None\<close> stands for waiting for ever, too.

  \<^bold>\<open>The theories\<close>, from the bottom up.

  \<^item> \<open>Prelude\<close>: addresses, bytes, error numbers, conversions, page arithmetic, lemmas on lists.
  \<^item> \<open>DList\<close> (\<open>a_list.h\<close>, \<open>fs/toyfs/common.c\<close>): both doubly linked lists on a heap of pointers. The locale \<open>intrusive_list\<close> is what a client may
    use; both implementations are instances. This is why the other theories have HOL lists for list heads.
  \<^item> \<open>ToyState\<close> (\<open>toyfs.h\<close>): the records of toyfs.
  \<^item> \<open>ToyPool\<close> (\<open>super.c\<close>): the page pool. Pages, inodes and block references are taken from it and given back; \<open>pool_inv\<close> says that every page of the device has
    exactly one role, and any history of operations keeps it and hands out only objects that overlap no other (locale \<open>object_source\<close>).
  \<^item> \<open>ToyBlocks\<close> (\<open>file.c\<close>): the blocks of a file, allocation on demand, copy-on-write. \<open>fs_ok N X F s\<close>
    is the invariant of the files in \<open>F\<close> over the pages that are not in \<open>X\<close>; \<open>content s t\<close> is the function from positions to bytes that file \<open>t\<close> stands for.
  \<^item> \<open>ToyFile\<close>, \<open>FileContent\<close>, \<open>FileRange\<close>, \<open>FileClone\<close> (\<open>file.c\<close>): read, write, truncate, fallocate, seek, clone, fiemap, and their effect on \<open>content\<close>
    for every file. The locale \<open>byte_files\<close> has the contract of read and write and what follows from it.
  \<^item> \<open>ToyMmap\<close> (\<open>mmap.c\<close>): the block that a page fault of a mapped file is answered with.
  \<^item> \<open>DirPage\<close>, \<open>ToyDir\<close>, \<open>DirMap\<close>, \<open>DirOps\<close> (\<open>dir.c\<close>, \<open>namei.c\<close>): a page of directory entries as 4096 bytes, the operations on it and on a directory, the
    map from names to inode numbers that a directory stands for, and the refinement of this map by lookup, add, remove, rename and readdir
    (locale \<open>name_space\<close>).
  \<^item> \<open>InodeTable\<close>, \<open>ToyInode\<close>, \<open>InodeOps\<close>, \<open>InodeTree\<close>, \<open>InodeLife\<close> (\<open>super.c\<close>, \<open>inode.c\<close>, \<open>symlink.c\<close>): the hashed inode table as a finite map (locale
    \<open>number_map\<close>), the infos in memory with their references, creation, iget, eviction and deletion of an inode, symbolic links, and the mount of a device. \<open>tree_ok\<close>
    joins the invariants of files and directories, \<open>ii_inv\<close> those of table, infos and counters.
  \<^item> \<open>ToyXattr\<close> (\<open>xattr.c\<close>): extended attributes at the level of bytes.
  \<^item> \<open>Mkfs\<close> (\<open>mkfs.c\<close>): the program that writes the super block and the root inode of toyfs, against the checks of the mount.
  \<^item> \<open>FooFs\<close> (\<open>foofs.c\<close>): the example file system, over one array of bytes.
  \<^item> \<open>ZusStd\<close> (\<open>zus.h\<close>): inline functions: link counts, time stamps, flags and reference counts of a page, addresses.
  \<^item> \<open>Allocator\<close>, \<open>PageAlloc\<close>, \<open>Slab\<close>, \<open>SlabSafe\<close>, \<open>SlabMalloc\<close>, \<open>SlabFini\<close> (\<open>pa.c\<close>, \<open>slab.c\<close>): the locale \<open>object_allocator\<close> states what an allocator promises and proves
    once that no history makes two live objects overlap; the page allocator and the slab allocator are instances. At its end the slab allocator
    gives its pages back.
  \<^item> \<open>Fba\<close> (\<open>pa.c\<close>): memory behind a file, the memory of the page allocator.
  \<^item> \<open>MovNt\<close> (\<open>nvml_movnt.c\<close>, \<open>movnt.h\<close>): the copy and the zeroing of persistent memory with non-temporal stores and flushes. The state knows which bytes are still in a
    cache or a write-combining buffer.
  \<^item> \<open>MdTable\<close> (\<open>md_zus.c\<close>): the checksum of the device table against the bitwise CRC, the check of a table, the maps from blocks to devices.
  \<^item> \<open>IomEnc\<close> (\<open>iom_enc.h\<close>, \<open>md_zus.c\<close>): the encoder of I/O maps against a decoder, the device table on the second tier.
  \<^item> \<open>Printz\<close> (\<open>printz.c\<close>): the listing of debug statements and the language of queries.
  \<^item> \<open>ZusCore\<close> (\<open>zus-core.c\<close>, \<open>wtz.h\<close>): CPUs and nodes, the creation of a thread, the interleavings of the start of the threads as a step relation.
  \<^item> \<open>Vfs\<close> (\<open>zus-vfs.c\<close>): the dispatch of commands, and lookup with the operations of toyfs, which joins directories, inode table and infos.
  \<^item> \<open>Mount\<close> (\<open>zus-vfs.c\<close>): what mount and unmount hold, on every error path, failing releases included.
  \<^item> \<open>ZtPool\<close> (\<open>zus-core.c\<close>): the server threads and the mount thread. A \<open>schedule\<close>, which is a parameter, says which new threads run at each point of the starting and the
    stopping thread; the results are proved for every schedule.
  \<^item> \<open>FsLoader\<close> (\<open>fs-loader.c\<close>): the libraries that are loaded and unloaded.
  \<^item> \<open>ZusMain\<close> (\<open>main.c\<close>, \<open>signals.c\<close>, \<open>utils.c\<close>, \<open>zus-core.c\<close>): options, limits, signal handlers, and the start and end of the process.

  \<^bold>\<open>What the theorems show.\<close> For the files: a write changes exactly its bytes of exactly its file, even when blocks are shared with
  clones, a read returns the contents, and a write succeeds when three free pages per block are left. For the pool and the
  allocators: disjointness of everything handed out, over all histories. For copies: the result of
  \<open>memmove\<close> for every overlap, and nothing volatile left. For directories and the inode table: refinement of a map. For inodes: creation and deletion
  have exactly the effect they should, and all histories keep the invariants. For the device table, \<open>mkfs\<close>, the I/O maps and the debug queries: round trips and
  equivalence with a reference. For the server: error paths give back what they acquired, with the exceptions that the theorems name, and the start of one channel is
  safe in every interleaving and does all or nothing under every schedule. Behaviour that is not what the code means to do is shown by theorems as well: a second channel
  breaks the start (\<open>two_channel_start_race\<close>, \<open>two_channels_start_early\<close>), a start whose first thread fails never returns (\<open>failed_start_hangs\<close>), copy-on-write loses a reference (\<open>require_iblkref_leaks_reference\<close>), a rename onto an existing name keeps its target
  (\<open>toyfs_rename_keeps_target\<close>), a second attribute leaves its page (\<open>second_xattr_leaves_page\<close>), a write fault maps a shared block
  (\<open>write_fault_maps_shared_block\<close>), punching a hole in a part of a page changes the clones (\<open>punch_hole_at_hits_clones\<close>), a new directory of foofs empties its parent
  (\<open>foofs_new_dir_empties_parent\<close>), devices that \<open>mkfs\<close> accepts cannot be mounted (\<open>mkfs_small_device\<close>, \<open>mkfs_one_unit_device\<close>), a directory listing loses a dot entry that did not fit
  (\<open>readdir_loses_refused_dot\<close>), a lookup of an evicted inode gives an info without one (\<open>iget_after_evict\<close>), the process joins the mount thread twice (\<open>zus_main_outcome\<close>).

  \<^bold>\<open>Parameters and hypotheses.\<close> What is not in the repository is a parameter: the kernel headers \<open>md.h\<close> and \<open>zus_api.h\<close> (\<open>md_api\<close>, \<open>iom_api\<close>, \<open>mmap_api\<close>, with \<open>api_ok\<close>,
  \<open>iom_api_ok\<close>, \<open>exec_api_ok\<close> for what the code relies on, such as that a type and a value can be read back from the word they are encoded in), the results of system calls and of the pthread functions (\<open>pa_env\<close> with
  \<open>env_ok\<close>, \<open>fba_env\<close> with \<open>env_fresh\<close>: a new mapping and a new descriptor are not in use; \<open>mount_env\<close>, \<open>pthread_env\<close>, \<open>zt_env\<close>, \<open>dl_env\<close>, \<open>buff_env\<close>, \<open>exec_res\<close>, \<open>mkfs_env\<close>, \<open>main_env\<close>; the last also has the effect of the mount thread on pool and loader), the \<open>schedule\<close> of the server threads, the layout of \<open>struct zus_inode\<close> (\<open>foo_md\<close>),
  the answers of \<open>cpuid\<close>, the result of \<open>getopt_long\<close>, the buffer
  functions \<open>zufs_zde_emit\<close> and \<open>zufs_fiemap_fill_next_extent\<close>, and the result of a \<open>memcpy\<close> of overlapping ranges (\<open>ovl\<close>). Every
  property with a hypothesis has a witness, a concrete instance on which the hypothesis holds.

  \<^bold>\<open>Termination.\<close> The functions are total, but for the loop of \<open>_slab_fini\<close> over a list, which is a \<open>partial_function\<close> and shown to return: the loops over offsets of \<open>file.c\<close> have the distance to the end as measure, \<open>pa_rescan\<close> the space left in the page allocator. The
  compare-and-exchange loop takes the list of the values other threads leave behind, and the theorem is about lists that are long enough. The decoder of I/O maps, which is a
  specification, has the number of words as fuel, and every entry has at least one word. The mount thread and the server threads run over the list of the requests they receive.

  \<^bold>\<open>Not modelled.\<close> The wrap-around of the counter of inode numbers (\<open>next_ino\<close> is a \<open>nat\<close> where the code has 64 bits); the iterations of a server thread in \<open>ZtPool\<close>, where
  a thread that has found \<open>stop\<close> unset waits in the kernel (what it does there is \<open>zus_do_command\<close> of \<open>Vfs\<close>), so that an error of \<open>zuf_wait_opt\<close> before the check of the start is left out; the text of \<open>usage\<close> and the back traces of \<open>utils.c\<close>, which only print; the wrappers of \<open>ioctl\<close> in \<open>zuf_call.h\<close>, whose results are parameters; the
  compile-time checks of sizes and offsets (\<open>toyfs_check_types\<close>, \<open>_require_equal\<close>); the wrappers of mutexes and spin locks; the instructions of the processor, which are primitives of
  \<open>MovNt\<close>; the tables of function pointers, which \<open>Vfs\<close> takes as an argument; the macros of logging.
\<close>

end
